(* ===== verification/Prelude.thy ===== *)
theory Prelude
  imports Complex_Main "HOL-Library.Word" "HOL-Library.Monad_Syntax"
begin

text \<open>
  Shared vocabulary of the development: the C integer types as words, the C arithmetic the
  sources rely on (truncating division, truncation of a double, CLAMP), byte buffers with
  \<open>memcpy\<close>, big-endian 16-bit fields, and the generic lemmas on options, lists and words the
  component theories use.  A function that can end the process (a failed \<open>assert\<close> or a
  \<open>LOG_FATAL\<close>), or that would read outside an object, has an \<open>option\<close> result: \<open>None\<close> is
  that outcome.
\<close>

unbundle bit_operations_syntax

section \<open>Types and fact collections\<close>

type_synonym u8 = "8 word"
type_synonym u16 = "16 word"
type_synonym u32 = "32 word"
type_synonym u64 = "64 word"
type_synonym bytes = "u8 list"

named_theorems inv_simps \<open>definitions of the well-formedness invariants\<close>
named_theorems op_simps \<open>definitions of the operations of a component\<close>

section \<open>C arithmetic\<close>

text \<open>C integer division and remainder truncate towards zero.\<close>

definition c_div :: "int \<Rightarrow> int \<Rightarrow> int" where
  "c_div a b = sgn a * sgn b * (\<bar>a\<bar> div \<bar>b\<bar>)"

definition c_mod :: "int \<Rightarrow> int \<Rightarrow> int" where
  "c_mod a b = a - b * c_div a b"

text \<open>The conversion of a double to an integer type truncates towards zero.\<close>

definition c_trunc :: "real \<Rightarrow> int" where
  "c_trunc x = (if x < 0 then \<lceil>x\<rceil> else \<lfloor>x\<rfloor>)"

definition CLAMP :: "'a::linorder \<Rightarrow> 'a \<Rightarrow> 'a \<Rightarrow> 'a" where
  "CLAMP lo x hi = max lo (min x hi)"

lemma CLAMP_bounds: "lo \<le> hi \<Longrightarrow> lo \<le> CLAMP lo x hi \<and> CLAMP lo x hi \<le> hi"
  by (simp add: CLAMP_def)

lemma c_div_nonneg: "0 \<le> a \<Longrightarrow> 0 < b \<Longrightarrow> c_div a b = a div b"
  by (cases "a = 0") (auto simp: c_div_def)

lemma c_div_neg: "a < 0 \<Longrightarrow> 0 < b \<Longrightarrow> c_div a b = - ((- a) div b)"
  by (simp add: c_div_def)

lemma c_mod_nonneg: "0 \<le> a \<Longrightarrow> 0 < b \<Longrightarrow> c_mod a b = a mod b"
  by (simp add: c_mod_def c_div_nonneg minus_mult_div_eq_mod)

lemma c_mod_neg: "a < 0 \<Longrightarrow> 0 < b \<Longrightarrow> c_mod a b = - ((- a) mod b)"
proof -
  assume "a < 0" "0 < b"
  then have "c_mod a b = - ((- a) - b * ((- a) div b))"
    by (simp add: c_mod_def c_div_neg)
  then show ?thesis by (simp add: minus_mult_div_eq_mod)
qed

lemma c_div_mod: "b * c_div a b + c_mod a b = a"
  by (simp add: c_mod_def)

lemma c_mod_bounds: "0 < b \<Longrightarrow> \<bar>c_mod a b\<bar> < b"
  by (cases "a < 0") (simp_all add: c_mod_nonneg c_mod_neg)

lemma c_trunc_of_int [simp]: "c_trunc (of_int k) = k"
  by (simp add: c_trunc_def)

lemma c_trunc_frac: "\<bar>x - of_int (c_trunc x)\<bar> < 1"
  by (simp add: c_trunc_def) linarith

section \<open>Option results\<close>

lemma bind_eq_Some_conv': "Option.bind m f = Some y \<longleftrightarrow> (\<exists>x. m = Some x \<and> f x = Some y)"
  by (cases m) auto

section \<open>Byte buffers\<close>

text \<open>\<open>memcpy(dst + off, src, n)\<close> with \<open>n = length src\<close>, inside the buffer.\<close>

definition memcpy :: "'a list \<Rightarrow> nat \<Rightarrow> 'a list \<Rightarrow> 'a list" where
  "memcpy dst off src = take off dst @ src @ drop (off + length src) dst"

lemma length_memcpy [simp]:
  "off + length src \<le> length dst \<Longrightarrow> length (memcpy dst off src) = length dst"
  by (simp add: memcpy_def)

lemma memcpy_nth:
  assumes "off + length src \<le> length dst" "i < length dst"
  shows "memcpy dst off src ! i =
    (if off \<le> i \<and> i < off + length src then src ! (i - off) else dst ! i)"
  using assms by (auto simp: memcpy_def nth_append min_def)

lemma take_drop_memcpy:
  "off + length src \<le> length dst \<Longrightarrow> take (length src) (drop off (memcpy dst off src)) = src"
  by (simp add: memcpy_def)

lemma take_memcpy: "k \<le> off \<Longrightarrow> off \<le> length dst \<Longrightarrow> take k (memcpy dst off src) = take k dst"
  by (simp add: memcpy_def min_def)

text \<open>Network byte order of a 16-bit field: \<open>htons\<close> into, \<open>ntohs\<close> out of, two bytes.\<close>

definition htons :: "u16 \<Rightarrow> bytes" where
  "htons x = [ucast (drop_bit 8 x), ucast x]"

definition ntohs :: "u8 \<Rightarrow> u8 \<Rightarrow> u16" where
  "ntohs a b = (push_bit 8 (ucast a)) OR ucast b"

lemma length_htons [simp]: "length (htons x) = 2"
  by (simp add: htons_def)

lemma ntohs_htons: "ntohs (htons x ! 0) (htons x ! Suc 0) = x"
  unfolding ntohs_def htons_def
  by (rule bit_word_eqI) (auto simp: bit_simps)

lemma htons_ntohs: "htons (ntohs a b) = [a, b]"
proof -
  have "ucast (drop_bit 8 (ntohs a b)) = a" "ucast (ntohs a b) = b"
    by (rule bit_word_eqI, auto simp: ntohs_def bit_simps dest: bit_imp_le_length)+
  then show ?thesis by (simp add: htons_def)
qed

text \<open>Reading a 16-bit field in network order, inside the buffer.\<close>

definition rd16 :: "bytes \<Rightarrow> nat \<Rightarrow> u16 option" where
  "rd16 buf i = (if i + 2 \<le> length buf then Some (ntohs (buf ! i) (buf ! (i + 1))) else None)"

lemma rd16_htons:
  "take 2 (drop i buf) = htons x \<Longrightarrow> rd16 buf i = Some x"
proof -
  assume e: "take 2 (drop i buf) = htons x"
  from arg_cong [OF this, of length] have l: "i + 2 \<le> length buf" by simp
  from e have "take 2 (drop i buf) ! 0 = htons x ! 0" "take 2 (drop i buf) ! Suc 0 = htons x ! Suc 0" by simp_all
  then show ?thesis using l ntohs_htons [of x] by (simp add: rd16_def)
qed

lemma rd16_SomeD: "rd16 buf i = Some x \<Longrightarrow> i + 2 \<le> length buf \<and> take 2 (drop i buf) = htons x"
  by (auto simp: rd16_def htons_ntohs take_Suc_conv_app_nth numeral_2_eq_2 split: if_splits)

lemma rd16_bound: "i + 2 \<le> length buf \<Longrightarrow> \<exists>x. rd16 buf i = Some x"
  by (simp add: rd16_def)

lemma uint_u16_bounds: "0 \<le> uint (x::u16)" "uint (x::u16) < 65536"
  using uint_lt2p [of x] by simp_all

lemma unat_u16_less: "unat (x::u16) < 65536"
  using unsigned_less [of x] by simp

section \<open>Histories of operations\<close>

text \<open>
  A component is driven by a history of operations; every operation returns a result and the
  next state, or ends the process.  \<open>op_refinement\<close> is the interface by which a component's
  operations implement operations on an abstract state: an operation on a state that satisfies
  the invariant returns, keeps the invariant, and commutes with the abstraction.
\<close>

fun run_ops :: "('op \<Rightarrow> 'c \<Rightarrow> ('r \<times> 'c) option) \<Rightarrow> 'op list \<Rightarrow> 'c \<Rightarrow> 'c option" where
  "run_ops step [] c = Some c"
| "run_ops step (x # xs) c = (case step x c of None \<Rightarrow> None | Some (r, c') \<Rightarrow> run_ops step xs c')"

text \<open>The results of the operations with the last state.\<close>

fun run_results :: "('op \<Rightarrow> 'c \<Rightarrow> ('r \<times> 'c) option) \<Rightarrow> 'op list \<Rightarrow> 'c \<Rightarrow> ('r list \<times> 'c) option" where
  "run_results step [] c = Some ([], c)"
| "run_results step (x # xs) c = Option.bind (step x c) (\<lambda>(r, c'). map_option (\<lambda>(rs, d). (r # rs, d)) (run_results step xs c'))"

text \<open>A history of the abstract operations, each with its result.\<close>

inductive abstract_history :: "('op \<Rightarrow> 'a \<Rightarrow> 'r \<Rightarrow> 'a \<Rightarrow> bool) \<Rightarrow> 'op list \<Rightarrow> 'a \<Rightarrow> 'r list \<Rightarrow> 'a \<Rightarrow> bool" for rel where
  none: "abstract_history rel [] a [] a"
| step: "rel x a r b \<Longrightarrow> abstract_history rel xs b rs c \<Longrightarrow> abstract_history rel (x # xs) a (r # rs) c"

inductive_simps abstract_history_simps [simp]:
  "abstract_history rel [] a rs c"
  "abstract_history rel (x # xs) a rs c"

text \<open>
  \<open>op_simulation\<close> is the interface where the abstract operation is a relation that also says what the result is,
  \<open>op_refinement\<close> the one where it is a function.
\<close>

locale op_simulation =
  fixes step :: "'op \<Rightarrow> 'c \<Rightarrow> ('r \<times> 'c) option"
    and inv :: "'c \<Rightarrow> bool"
    and abs :: "'c \<Rightarrow> 'a"
    and rel :: "'op \<Rightarrow> 'a \<Rightarrow> 'r \<Rightarrow> 'a \<Rightarrow> bool"
  assumes step_simulates:
    "inv c \<Longrightarrow> \<exists>r c'. step x c = Some (r, c') \<and> inv c' \<and> rel x (abs c) r (abs c')"
begin

lemma run_simulates:
  "inv c \<Longrightarrow> \<exists>rs c'. run_results step xs c = Some (rs, c') \<and> inv c' \<and> abstract_history rel xs (abs c) rs (abs c')"
proof (induction xs arbitrary: c)
  case (Cons x xs)
  obtain r c1 where c1: "step x c = Some (r, c1)" "inv c1" "rel x (abs c) r (abs c1)"
    using step_simulates [OF Cons.prems] by blast
  obtain rs c' where "run_results step xs c1 = Some (rs, c')" "inv c'" "abstract_history rel xs (abs c1) rs (abs c')"
    using Cons.IH [OF c1(2)] by blast
  then show ?case using c1 by auto
qed simp

end

locale op_refinement =
  fixes step :: "'op \<Rightarrow> 'c \<Rightarrow> ('r \<times> 'c) option"
    and inv :: "'c \<Rightarrow> bool"
    and abs :: "'c \<Rightarrow> 'a"
    and astep :: "'op \<Rightarrow> 'a \<Rightarrow> 'a"
  assumes step_refines:
    "inv c \<Longrightarrow> \<exists>r c'. step x c = Some (r, c') \<and> inv c' \<and> abs c' = astep x (abs c)"
begin

lemma run_refines:
  "inv c \<Longrightarrow> \<exists>c'. run_ops step xs c = Some c' \<and> inv c' \<and> abs c' = fold astep xs (abs c)"
proof (induction xs arbitrary: c)
  case Nil
  then show ?case by simp
next
  case (Cons x xs)
  obtain r c1 where c1: "step x c = Some (r, c1)" "inv c1" "abs c1 = astep x (abs c)"
    using step_refines [OF Cons.prems] by blast
  with Cons.IH [OF c1(2)] show ?case by simp
qed

lemma run_append:
  "inv c \<Longrightarrow> run_ops step (xs @ ys) c = Option.bind (run_ops step xs c) (run_ops step ys)"
  by (induction xs arbitrary: c) (auto split: option.splits, metis step_refines option.inject prod.inject)

end

sublocale op_refinement \<subseteq> sim: op_simulation step inv abs "\<lambda>x a r a'. a' = astep x a"
  by unfold_locales (rule step_refines)

end
