(* ===== verification/Addressing.thy ===== *)
theory Addressing
  imports Prelude
begin

text \<open>
  Network addresses: the tagged union \<open>IPAddr\<close> of \<open>addressing.h\<close> and the address functions of
  \<open>util.c\<close> (comparison with an optional mask, the seeded FNV-1a hash, the network
  representation).  An IPv6 address is the 128-bit word of its 16 bytes, first byte highest.
  The host is little-endian where a function reads the memory image of an integer.
\<close>

section \<open>Addresses\<close>

datatype IPAddr =
    IPADDR_UNSPEC
  | IPADDR_INET4 u32
  | IPADDR_INET6 "128 word"
  | IPADDR_ID u32
  | IPADDR_OTHER u16

text \<open>The value of the field \<open>family\<close>; \<open>IPADDR_OTHER\<close> is any value the sources give no name.\<close>

fun ip_family :: "IPAddr \<Rightarrow> u16" where
  "ip_family IPADDR_UNSPEC = 0"
| "ip_family (IPADDR_INET4 a) = 1"
| "ip_family (IPADDR_INET6 a) = 2"
| "ip_family (IPADDR_ID i) = 3"
| "ip_family (IPADDR_OTHER f) = f"

record IPSockAddr =
  ip_addr :: IPAddr
  port :: u16

text \<open>Byte \<open>i\<close> of \<open>addr.in6\<close> and the whole array.\<close>

definition in6 :: "128 word \<Rightarrow> nat \<Rightarrow> u8" where
  "in6 a i = ucast (drop_bit (8 * (15 - i)) a)"

definition in6_bytes :: "128 word \<Rightarrow> bytes" where
  "in6_bytes a = map (in6 a) [0..<16]"

definition in6_word :: "bytes \<Rightarrow> 128 word" where
  "in6_word bs = foldl (\<lambda>w b. push_bit 8 w OR ucast b) 0 bs"

text \<open>Big-endian (\<open>htonl\<close>) and little-endian (memory image) bytes of a 32-bit integer.\<close>

definition htonl :: "u32 \<Rightarrow> bytes" where
  "htonl x = [ucast (drop_bit 24 x), ucast (drop_bit 16 x), ucast (drop_bit 8 x), ucast x]"

definition ntohl :: "bytes \<Rightarrow> u32" where
  "ntohl bs = push_bit 24 (ucast (bs ! 0)) OR push_bit 16 (ucast (bs ! 1)) OR
     push_bit 8 (ucast (bs ! 2)) OR ucast (bs ! 3)"

definition mem_u32 :: "u32 \<Rightarrow> bytes" where
  "mem_u32 x = rev (htonl x)"

lemma length_htonl [simp]: "length (htonl x) = 4"
  by (simp add: htonl_def)

lemma ntohl_htonl: "ntohl (htonl x @ rest) = x"
proof (rule bit_word_eqI)
  fix n assume "n < LENGTH(32)"
  then consider "n < 8" | "8 \<le> n \<and> n < 16" | "16 \<le> n \<and> n < 24" | "24 \<le> n \<and> n < 32"
    by fastforce
  then show "bit (ntohl (htonl x @ rest)) n = bit x n"
    by cases (auto simp: ntohl_def htonl_def bit_simps)
qed

lemma length_in6_bytes [simp]: "length (in6_bytes a) = 16"
  by (simp add: in6_bytes_def)

lemma bit_in6: "i < 16 \<Longrightarrow> bit (in6 a i) k \<longleftrightarrow> k < 8 \<and> bit a (8 * (15 - i) + k)"
  by (auto simp: in6_def bit_simps)

lemma in6_word_bit:
  "length bs \<le> 16 \<Longrightarrow> bit (in6_word bs) n \<longleftrightarrow> n < 8 * length bs \<and> bit (bs ! (length bs - 1 - n div 8)) (n mod 8)"
proof (induction bs arbitrary: n rule: rev_induct)
  case Nil
  then show ?case by (simp add: in6_word_def)
next
  case (snoc b bs)
  have step: "in6_word (bs @ [b]) = push_bit 8 (in6_word bs) OR ucast b"
    by (simp add: in6_word_def)
  show ?case
  proof (cases "n < 8")
    case True
    then show ?thesis by (simp add: step bit_simps nth_append)
  next
    case False
    then have nz: "n div 8 \<noteq> 0" and e: "(n - 8) div 8 = n div 8 - 1" "(n - 8) mod 8 = n mod 8"
      by (auto simp: div_eq_0_iff le_div_geq le_mod_geq)
    have nb: "\<not> bit (ucast b :: 128 word) n"
      using False by (auto simp: bit_simps dest: bit_imp_le_length)
    have lt: "n < 8 * Suc (length bs) \<Longrightarrow> n div 8 \<le> length bs"
      by simp
    have "bit (in6_word (bs @ [b])) n \<longleftrightarrow> n < 128 \<and> bit (in6_word bs) (n - 8)"
      using False nb by (auto simp: step bit_simps)
    also have "\<dots> \<longleftrightarrow> n < 8 * Suc (length bs) \<and> bit (bs ! (length bs - n div 8)) (n mod 8)"
      using snoc.IH [of "n - 8"] snoc.prems False nz e by auto
    also have "\<dots> \<longleftrightarrow> n < 8 * length (bs @ [b]) \<and>
        bit ((bs @ [b]) ! (length (bs @ [b]) - 1 - n div 8)) (n mod 8)"
      using nz lt by (auto simp: nth_append)
    finally show ?thesis .
  qed
qed

lemma in6_word_in6_bytes: "in6_word (in6_bytes a) = a"
proof (rule bit_word_eqI)
  fix n assume "n < LENGTH(128)"
  then have n: "n < 128" by simp
  then have d: "n div 8 < 16" by simp
  have "8 * (15 - (15 - n div 8)) + n mod 8 = n"
    using d by simp
  with n d show "bit (in6_word (in6_bytes a)) n = bit a n"
    by (simp add: in6_word_bit in6_bytes_def bit_in6)
qed

lemma in6_bytes_inj: "in6_bytes a = in6_bytes b \<longleftrightarrow> a = b"
  by (metis in6_word_in6_bytes)

section \<open>Predicates and comparison\<close>

definition UTI_IsIPReal :: "IPAddr \<Rightarrow> bool" where
  "UTI_IsIPReal ip = (case ip of
     IPADDR_INET4 _ \<Rightarrow> True
   | IPADDR_INET6 _ \<Rightarrow> True
   | _ \<Rightarrow> False)"

text \<open>The loop over the 16 bytes stops at the first difference.\<close>

fun compare_in6 :: "(nat \<Rightarrow> u8) \<Rightarrow> (nat \<Rightarrow> u8) \<Rightarrow> nat list \<Rightarrow> int" where
  "compare_in6 a b [] = 0"
| "compare_in6 a b (i # is) =
     (let d = uint (a i) - uint (b i) in if d \<noteq> 0 then d else compare_in6 a b is)"

definition UTI_CompareIPs :: "IPAddr \<Rightarrow> IPAddr \<Rightarrow> IPAddr option \<Rightarrow> int" where
  "UTI_CompareIPs a b msk =
     (if ip_family a \<noteq> ip_family b then uint (ip_family a) - uint (ip_family b)
      else
        let msk = (case msk of
            Some m \<Rightarrow> if ip_family m \<noteq> ip_family b then None else Some m
          | None \<Rightarrow> None) in
        case (a, b) of
          (IPADDR_INET4 x, IPADDR_INET4 y) \<Rightarrow>
            (case msk of
               Some (IPADDR_INET4 m) \<Rightarrow> sint ((x AND m) - (y AND m))
             | _ \<Rightarrow> sint (x - y))
        | (IPADDR_INET6 x, IPADDR_INET6 y) \<Rightarrow>
            (case msk of
               Some (IPADDR_INET6 m) \<Rightarrow>
                 compare_in6 (\<lambda>i. in6 x i AND in6 m i) (\<lambda>i. in6 y i AND in6 m i) [0..<16]
             | _ \<Rightarrow> compare_in6 (in6 x) (in6 y) [0..<16])
        | (IPADDR_ID i, IPADDR_ID j) \<Rightarrow> sint (i - j)
        | _ \<Rightarrow> 0)"

definition known_family :: "IPAddr \<Rightarrow> bool" where
  "known_family ip = (case ip of IPADDR_OTHER _ \<Rightarrow> False | _ \<Rightarrow> True)"

lemma compare_in6_0: "compare_in6 a b is = 0 \<longleftrightarrow> (\<forall>i \<in> set is. a i = b i)"
  by (induction "is") (auto simp: Let_def word_uint_eq_iff)

lemma UTI_CompareIPs_refl [simp]: "UTI_CompareIPs a a m = 0"
  by (cases a)
     (auto simp: UTI_CompareIPs_def Let_def compare_in6_0 split: option.splits IPAddr.splits)

lemma sint_diff_0: "sint (x - y :: u32) = 0 \<longleftrightarrow> x = y"
  by (metis eq_iff_diff_eq_0 sint_0 signed_word_eqI)

lemma compare_in6_whole: "compare_in6 (in6 x) (in6 y) [0..<16] = 0 \<longleftrightarrow> x = y"
  unfolding compare_in6_0 in6_bytes_inj [symmetric]
  by (simp add: in6_bytes_def)

lemma UTI_CompareIPs_0:
  assumes "known_family a" "known_family b"
  shows "UTI_CompareIPs a b None = 0 \<longleftrightarrow> a = b"
  using assms
  by (cases a; cases b)
     (auto simp: UTI_CompareIPs_def known_family_def sint_diff_0 compare_in6_whole)

section \<open>Hash\<close>

text \<open>\<open>seed\<close> is the non-zero random number drawn on the first use.\<close>

definition UTI_IPToHash :: "u32 \<Rightarrow> IPAddr \<Rightarrow> u32" where
  "UTI_IPToHash seed ip =
     (let fnv = foldl (\<lambda>hash b. (hash XOR ucast b) * 16777619) seed in
      case ip of
        IPADDR_INET4 a \<Rightarrow> fnv (mem_u32 a)
      | IPADDR_INET6 a \<Rightarrow> fnv (in6_bytes a)
      | IPADDR_ID i \<Rightarrow> fnv (mem_u32 i)
      | _ \<Rightarrow> 0)"

section \<open>Network representation\<close>

text \<open>
  The memory image of a struct \<open>IPAddr\<close>: 16 bytes of the union, 2 of \<open>family\<close>, 2 of padding.
\<close>

definition UTI_IPHostToNetwork :: "IPAddr \<Rightarrow> bytes" where
  "UTI_IPHostToNetwork src =
     (let dest = replicate 20 0; dest = memcpy dest 16 (htons (ip_family src)) in
      case src of
        IPADDR_INET4 a \<Rightarrow> memcpy dest 0 (htonl a)
      | IPADDR_INET6 a \<Rightarrow> memcpy dest 0 (in6_bytes a)
      | IPADDR_ID i \<Rightarrow> memcpy dest 0 (htonl i)
      | _ \<Rightarrow> memcpy dest 16 (htons 0))"

definition UTI_IPNetworkToHost :: "bytes \<Rightarrow> IPAddr" where
  "UTI_IPNetworkToHost src =
     (let family = ntohs (src ! 16) (src ! 17) in
      if family = 1 then IPADDR_INET4 (ntohl src)
      else if family = 2 then IPADDR_INET6 (in6_word (take 16 src))
      else if family = 3 then IPADDR_ID (ntohl src)
      else IPADDR_UNSPEC)"

lemma length_UTI_IPHostToNetwork: "length (UTI_IPHostToNetwork ip) = 20"
  by (cases ip) (simp_all add: UTI_IPHostToNetwork_def Let_def)

lemma memcpy_family:
  assumes "length bs \<le> 16"
  shows "memcpy (memcpy (replicate 20 0) 16 (htons f)) 0 bs ! 16 = htons f ! 0"
    and "memcpy (memcpy (replicate 20 0) 16 (htons f)) 0 bs ! 17 = htons f ! 1"
  using assms by (simp_all add: memcpy_nth)

text \<open>
  An address of any of the four families survives the network representation, and an address of
  an unknown family arrives as an unspecified one.
\<close>

lemma IPNetworkToHost_HostToNetwork:
  "UTI_IPNetworkToHost (UTI_IPHostToNetwork ip) =
     (case ip of IPADDR_OTHER _ \<Rightarrow> IPADDR_UNSPEC | _ \<Rightarrow> ip)"
proof (cases ip)
  case (IPADDR_INET4 a)
  then show ?thesis
    by (simp add: UTI_IPHostToNetwork_def UTI_IPNetworkToHost_def Let_def memcpy_family
        ntohs_htons) (simp add: memcpy_def ntohl_htonl)
next
  case (IPADDR_INET6 a)
  then show ?thesis
    by (simp add: UTI_IPHostToNetwork_def UTI_IPNetworkToHost_def Let_def memcpy_family
        ntohs_htons) (simp add: memcpy_def in6_word_in6_bytes)
next
  case (IPADDR_ID i)
  then show ?thesis
    by (simp add: UTI_IPHostToNetwork_def UTI_IPNetworkToHost_def Let_def memcpy_family
        ntohs_htons) (simp add: memcpy_def ntohl_htonl)
qed (simp_all add: UTI_IPHostToNetwork_def UTI_IPNetworkToHost_def Let_def memcpy_nth htons_def
       ntohs_def)

end
