(* ===== verification/AddrFilt.thy ===== *)
theory AddrFilt
  imports Addressing
begin

text \<open>
  The access-control table of \<open>addrfilt.c\<close>: a tree of 16-way tables, one level per four bits of
  the address.  The tree is translated with its operations; it is then shown to implement a
  specification that knows no tree: the history of rules and, for the queried address, one
  state per level.
\<close>

section \<open>The table\<close>

datatype State = DENY | ALLOW | AS_PARENT

datatype TableNode = TableNode (state: State) (extended: "TableNode list option")

datatype ADF_Status = ADF_SUCCESS | ADF_BADSUBNET

record ADF_AuthTable =
  base4 :: TableNode
  base6 :: TableNode

definition split_ip6 :: "128 word \<Rightarrow> u32 list" where
  "split_ip6 ip = map (\<lambda>i. push_bit 24 (ucast (in6 ip (i * 4 + 0))) OR
       push_bit 16 (ucast (in6 ip (i * 4 + 1))) OR
       push_bit 8 (ucast (in6 ip (i * 4 + 2))) OR
       ucast (in6 ip (i * 4 + 3))) [0..<4]"

text \<open>\<open>None\<close> is a read past the end of the address.\<close>

definition get_subnet :: "u32 list \<Rightarrow> nat \<Rightarrow> nat option" where
  "get_subnet addr wh =
     (let off = wh div 32; wh = wh mod 32 in
      if off < length addr then Some (unat (drop_bit (32 - 4 - wh) (addr ! off) AND 15)) else None)"

definition ADF_CreateTable :: ADF_AuthTable where
  "ADF_CreateTable = \<lparr>base4 = TableNode DENY None, base6 = TableNode DENY None\<rparr>"

definition close_node :: "TableNode \<Rightarrow> TableNode" where
  "close_node node = TableNode (state node) None"

definition open_node :: "TableNode \<Rightarrow> TableNode" where
  "open_node node = (case extended node of
     None \<Rightarrow> TableNode (state node) (Some (replicate 16 (TableNode AS_PARENT None)))
   | Some _ \<Rightarrow> node)"

text \<open>What happens to the node a rule ends at.\<close>

definition set_node :: "State \<Rightarrow> bool \<Rightarrow> TableNode \<Rightarrow> TableNode" where
  "set_node new_state delete_children node =
     (let node = (if delete_children then close_node node else node) in
      TableNode new_state (extended node))"

text \<open>
  The two loops that walk down the tree.  \<open>walk again f\<close> consumes \<open>NBITS = 4\<close> bits per turn,
  opening the nodes it passes, while the loop condition \<open>again\<close> holds of \<open>bits_to_go\<close>, and
  applies \<open>f\<close> to the node it ends at; the nodes on the way are updated in place.
\<close>

function walk :: "(nat \<Rightarrow> bool) \<Rightarrow> (nat \<Rightarrow> nat \<Rightarrow> TableNode \<Rightarrow> TableNode option) \<Rightarrow>
    u32 list \<Rightarrow> nat \<Rightarrow> nat \<Rightarrow> TableNode \<Rightarrow> TableNode option" where
  "walk again f ip bits_to_go bits_consumed node =
     (if again bits_to_go \<and> 0 < bits_to_go then do {
        subnet \<leftarrow> get_subnet ip bits_consumed;
        let node = open_node node;
        ch \<leftarrow> extended node;
        child \<leftarrow> (if subnet < length ch then Some (ch ! subnet) else None);
        child' \<leftarrow> walk again f ip (bits_to_go - 4) (bits_consumed + 4) child;
        Some (TableNode (state node) (Some (ch[subnet := child'])))
      } else f bits_to_go bits_consumed node)"
  by pat_completeness auto
termination
  by (relation "measure (\<lambda>(again, f, ip, b, c, n). b)") auto

declare walk.simps [simp del]

text \<open>
  The \<open>N\<close> entries a prefix covers when it ends inside a table; \<open>s - s mod N\<close> is \<open>s & ~(N - 1)\<close>
  for the power of two \<open>N\<close>.
\<close>

definition set_entries :: "State \<Rightarrow> bool \<Rightarrow> u32 list \<Rightarrow> nat \<Rightarrow> nat \<Rightarrow> TableNode \<Rightarrow> TableNode option" where
  "set_entries new_state delete_children ip bits_to_go bits_consumed node = do {
     let N = (2::nat) ^ (4 - bits_to_go);
     s \<leftarrow> get_subnet ip bits_consumed;
     let subnet = s - s mod N;
     let node = open_node node;
     ch \<leftarrow> extended node;
     if subnet + N \<le> 16 \<and> length ch = 16
     then Some (TableNode (state node) (Some
       (fold (\<lambda>i ch. ch[i := set_node new_state delete_children (ch ! i)]) [subnet..<subnet + N] ch)))
     else None }"

definition set_subnet ::
    "TableNode \<Rightarrow> u32 list \<Rightarrow> nat \<Rightarrow> int \<Rightarrow> State \<Rightarrow> bool \<Rightarrow> (ADF_Status \<times> TableNode) option" where
  "set_subnet start_node ip ip_len subnet_bits new_state delete_children =
     (if subnet_bits < 0 \<or> subnet_bits > 32 * int ip_len then Some (ADF_BADSUBNET, start_node)
      else let bits = nat subnet_bits in
        if bits mod 4 = 0
        then map_option (Pair ADF_SUCCESS)
          (walk (\<lambda>b. b > 0) (\<lambda>b c n. Some (set_node new_state delete_children n)) ip bits 0 start_node)
        else map_option (Pair ADF_SUCCESS)
          (walk (\<lambda>b. b \<ge> 4) (set_entries new_state delete_children ip) ip bits 0 start_node))"

definition set_subnet_table ::
    "ADF_AuthTable \<Rightarrow> IPAddr \<Rightarrow> int \<Rightarrow> State \<Rightarrow> bool \<Rightarrow> (ADF_Status \<times> ADF_AuthTable) option" where
  "set_subnet_table table ip subnet_bits new_state delete_children = (case ip of
     IPADDR_INET4 a \<Rightarrow> do {
       (s, n) \<leftarrow> set_subnet (base4 table) [a] 1 subnet_bits new_state delete_children;
       Some (s, table\<lparr>base4 := n\<rparr>) }
   | IPADDR_INET6 a \<Rightarrow> do {
       (s, n) \<leftarrow> set_subnet (base6 table) (split_ip6 a) 4 subnet_bits new_state delete_children;
       Some (s, table\<lparr>base6 := n\<rparr>) }
   | IPADDR_UNSPEC \<Rightarrow>
       (if subnet_bits \<noteq> 0 then Some (ADF_BADSUBNET, table)
        else do {
          let ip6 = replicate 4 0;
          (s, n) \<leftarrow> set_subnet (base4 table) ip6 1 0 new_state delete_children;
          let table = table\<lparr>base4 := n\<rparr>;
          if s = ADF_SUCCESS then do {
            (s, n) \<leftarrow> set_subnet (base6 table) ip6 4 0 new_state delete_children;
            let table = table\<lparr>base6 := n\<rparr>;
            Some (if s = ADF_SUCCESS then ADF_SUCCESS else ADF_BADSUBNET, table)
          } else Some (ADF_BADSUBNET, table) })
   | _ \<Rightarrow> Some (ADF_BADSUBNET, table))"

definition ADF_Allow :: "ADF_AuthTable \<Rightarrow> IPAddr \<Rightarrow> int \<Rightarrow> (ADF_Status \<times> ADF_AuthTable) option" where
  "ADF_Allow table ip subnet_bits = set_subnet_table table ip subnet_bits ALLOW False"

definition ADF_AllowAll :: "ADF_AuthTable \<Rightarrow> IPAddr \<Rightarrow> int \<Rightarrow> (ADF_Status \<times> ADF_AuthTable) option" where
  "ADF_AllowAll table ip subnet_bits = set_subnet_table table ip subnet_bits ALLOW True"

definition ADF_Deny :: "ADF_AuthTable \<Rightarrow> IPAddr \<Rightarrow> int \<Rightarrow> (ADF_Status \<times> ADF_AuthTable) option" where
  "ADF_Deny table ip subnet_bits = set_subnet_table table ip subnet_bits DENY False"

definition ADF_DenyAll :: "ADF_AuthTable \<Rightarrow> IPAddr \<Rightarrow> int \<Rightarrow> (ADF_Status \<times> ADF_AuthTable) option" where
  "ADF_DenyAll table ip subnet_bits = set_subnet_table table ip subnet_bits DENY True"

text \<open>The loop of \<open>check_ip_in_node\<close>, with the state found so far.\<close>

function check_loop :: "TableNode \<Rightarrow> u32 list \<Rightarrow> nat \<Rightarrow> State \<Rightarrow> State option" where
  "check_loop (TableNode s ext) ip bits_consumed st =
     (let st = (if s \<noteq> AS_PARENT then s else st) in
      case ext of
        None \<Rightarrow> Some st
      | Some ch \<Rightarrow> (case get_subnet ip bits_consumed of
            None \<Rightarrow> None
          | Some subnet \<Rightarrow>
              if subnet < length ch then check_loop (ch ! subnet) ip (bits_consumed + 4) st
              else None))"
  by pat_completeness auto
termination
proof (relation "measure (\<lambda>(n, ip, b, s). size n)", goal_cases)
  case 1
  show ?case by simp
next
  case (2 s ext ip b st x ch subnet)
  then have "ch ! subnet \<in> set ch" by simp
  then have "size (ch ! subnet) < size_list size ch + 1"
    by (metis add.commute less_Suc_eq_le plus_1_eq_Suc size_list_estimation' order_refl)
  with 2 show ?case by simp
qed

definition check_ip_in_node :: "TableNode \<Rightarrow> u32 list \<Rightarrow> bool option" where
  "check_ip_in_node start_node ip = (case check_loop start_node ip 0 DENY of
     None \<Rightarrow> None
   | Some ALLOW \<Rightarrow> Some True
   | Some DENY \<Rightarrow> Some False
   | Some AS_PARENT \<Rightarrow> None)"

definition ADF_IsAllowed :: "ADF_AuthTable \<Rightarrow> IPAddr \<Rightarrow> bool option" where
  "ADF_IsAllowed table ip = (case ip of
     IPADDR_INET4 a \<Rightarrow> check_ip_in_node (base4 table) [a]
   | IPADDR_INET6 a \<Rightarrow> check_ip_in_node (base6 table) (split_ip6 a)
   | _ \<Rightarrow> Some False)"

text \<open>A loop over the children that returns at the first true result.\<close>

fun any_loop :: "bool option list \<Rightarrow> bool option" where
  "any_loop [] = Some False"
| "any_loop (r # rs) = (case r of None \<Rightarrow> None | Some True \<Rightarrow> Some True | Some False \<Rightarrow> any_loop rs)"

fun is_any_allowed :: "TableNode \<Rightarrow> State \<Rightarrow> bool option" where
  "is_any_allowed (TableNode s ext) parent =
     (let st = (if s \<noteq> AS_PARENT then s else parent) in
      if st = AS_PARENT then None
      else case ext of
        Some ch \<Rightarrow> any_loop (map (\<lambda>c. is_any_allowed c st) ch)
      | None \<Rightarrow> Some (st = ALLOW))"

definition ADF_IsAnyAllowed :: "ADF_AuthTable \<Rightarrow> u16 \<Rightarrow> bool option" where
  "ADF_IsAnyAllowed table family =
     (if family = ip_family (IPADDR_INET4 0) then is_any_allowed (base4 table) AS_PARENT
      else if family = ip_family (IPADDR_INET6 0) then is_any_allowed (base6 table) AS_PARENT
      else Some False)"

section \<open>Well-formed trees\<close>

text \<open>A tree of at most \<open>d\<close> levels of 16-way tables below its root.\<close>

fun node_wf :: "nat \<Rightarrow> TableNode \<Rightarrow> bool" where
  "node_wf d (TableNode s None) = True"
| "node_wf 0 (TableNode s (Some ch)) = False"
| "node_wf (Suc d) (TableNode s (Some ch)) = (length ch = 16 \<and> list_all (node_wf d) ch)"

definition table_wf :: "ADF_AuthTable \<Rightarrow> bool" where
  "table_wf t \<longleftrightarrow> state (base4 t) \<noteq> AS_PARENT \<and> node_wf 8 (base4 t) \<and>
     state (base6 t) \<noteq> AS_PARENT \<and> node_wf 32 (base6 t)"

lemma node_wf_leaf [simp]: "extended n = None \<Longrightarrow> node_wf d n"
  by (cases n) auto

lemma node_wf_open: "0 < d \<Longrightarrow> node_wf d n \<Longrightarrow>
    \<exists>ch. open_node n = TableNode (state n) (Some ch) \<and> length ch = 16 \<and> list_all (node_wf (d - 1)) ch"
  by (cases d; cases n)
     (auto simp: open_node_def list_all_length split: option.splits)

lemma node_wf_set_node: "node_wf d n \<Longrightarrow> node_wf d (set_node st del n)"
  by (cases n; cases d; cases "extended n") (auto simp: set_node_def close_node_def)

lemma state_set_node [simp]: "state (set_node st del n) = st"
  by (simp add: set_node_def)

lemma state_open_node [simp]: "state (open_node n) = state n"
  by (cases n) (auto simp: open_node_def split: option.splits)

text \<open>Nibble \<open>i\<close> of an address, and when \<open>get_subnet\<close> stays inside the address.\<close>

definition nib :: "u32 list \<Rightarrow> nat \<Rightarrow> nat" where
  "nib ip i = unat (drop_bit (28 - 4 * (i mod 8)) (ip ! (i div 8)) AND 15)"

lemma nib_less: "nib ip i < 16"
proof -
  have "unat (drop_bit (28 - 4 * (i mod 8)) (ip ! (i div 8)) AND 15) \<le> unat (15 :: u32)"
    by (rule word_and_le1 [THEN word_le_nat_alt [THEN iffD1]])
  then show ?thesis by (simp add: nib_def)
qed

lemma get_subnet_nib: "i < 8 * length ip \<Longrightarrow> get_subnet ip (4 * i) = Some (nib ip i)"
proof -
  assume "i < 8 * length ip"
  moreover have "4 * i div 32 = i div 8" "4 * i mod 32 = 4 * (i mod 8)"
    by (simp_all add: div_mult2_eq [of "4 * i" 4 8, simplified] mult_mod_right [of 4 i 8, simplified])
  ultimately show ?thesis
    by (auto simp: get_subnet_def nib_def Let_def)
qed

section \<open>One state per level\<close>

text \<open>
  The abstraction of a tree for one address: the state of the node on the address's path at
  each level, \<open>AS_PARENT\<close> below the tree.
\<close>

fun lev :: "TableNode \<Rightarrow> u32 list \<Rightarrow> nat \<Rightarrow> nat \<Rightarrow> State" where
  "lev n a d 0 = state n"
| "lev n a d (Suc l) = (case extended n of None \<Rightarrow> AS_PARENT | Some ch \<Rightarrow> lev (ch ! nib a d) a (Suc d) l)"

definition upd_level :: "nat \<Rightarrow> State \<Rightarrow> bool \<Rightarrow> (nat \<Rightarrow> State) \<Rightarrow> nat \<Rightarrow> State" where
  "upd_level k st del f l = (if l = k then st else if del \<and> k < l then AS_PARENT else f l)"

lemma lev_open_node: "lev (open_node n) a d l = lev n a d l"
proof (cases "extended n")
  case None
  show ?thesis
  proof (cases l)
    case (Suc l')
    have "lev (TableNode AS_PARENT None) a (Suc d) l' = AS_PARENT"
      by (cases l') auto
    with None Suc show ?thesis by (simp add: open_node_def nib_less)
  qed simp
qed (simp add: open_node_def)

lemma lev_set_node: "lev (set_node st del n) a d = upd_level 0 st del (lev n a d)"
proof
  fix l show "lev (set_node st del n) a d l = upd_level 0 st del (lev n a d) l"
    by (cases l) (auto simp: set_node_def close_node_def upd_level_def)
qed

text \<open>What a walk of \<open>k\<close> levels does, given what its last step does.\<close>

lemma walk_lev:
  assumes "node_wf m n" "k + r \<le> m" "d + m \<le> 8 * length ip" "\<And>j. 0 < j \<Longrightarrow> again (4 * j + b)" "\<not> again b \<or> b = 0"
    and "\<And>n. node_wf (m - k) n \<Longrightarrow> \<exists>n'. f b (4 * (d + k)) n = Some n' \<and> node_wf (m - k) n' \<and>
           (\<forall>a. lev n' a (d + k) = F a (lev n a (d + k)))"
  shows "\<exists>n'. walk again f ip (4 * k + b) (4 * d) n = Some n' \<and> node_wf m n' \<and>
           (\<forall>a l. lev n' a d l =
              (if (\<forall>i < k. nib a (d + i) = nib ip (d + i)) then
                 if k \<le> l then F a (\<lambda>l. lev n a d (k + l)) (l - k) else lev n a d l
               else lev n a d l))"
  using assms
proof (induction k arbitrary: n d m)
  case 0
  then have w: "walk again f ip (4 * 0 + b) (4 * d) n = f b (4 * d) n"
    by (auto simp: walk.simps)
  from 0 obtain n' where "f b (4 * d) n = Some n'" "node_wf m n'" "\<forall>a. lev n' a d = F a (lev n a d)"
    by force
  with w show ?case by simp
next
  case (Suc k)
  let ?s = "nib ip d"
  have g: "get_subnet ip (4 * d) = Some ?s"
    using Suc.prems(2,3) by (intro get_subnet_nib) simp
  obtain ch where ch: "open_node n = TableNode (state n) (Some ch)" "length ch = 16"
      "list_all (node_wf (m - 1)) ch"
    using node_wf_open [of m n] Suc.prems(1,2) by auto
  have chs: "node_wf (m - 1) (ch ! ?s)"
    using ch nib_less by (simp add: list_all_length)
  have "\<exists>n'. walk again f ip (4 * k + b) (4 * Suc d) (ch ! ?s) = Some n' \<and> node_wf (m - 1) n' \<and>
           (\<forall>a l. lev n' a (Suc d) l =
              (if (\<forall>i < k. nib a (Suc d + i) = nib ip (Suc d + i)) then
                 if k \<le> l then F a (\<lambda>l. lev (ch ! ?s) a (Suc d) (k + l)) (l - k)
                 else lev (ch ! ?s) a (Suc d) l
               else lev (ch ! ?s) a (Suc d) l))"
    using Suc.prems by (intro Suc.IH chs) auto
  then obtain c where c: "walk again f ip (4 * k + b) (4 * Suc d) (ch ! ?s) = Some c"
      "node_wf (m - 1) c"
      "\<And>a l. lev c a (Suc d) l =
              (if (\<forall>i < k. nib a (Suc d + i) = nib ip (Suc d + i)) then
                 if k \<le> l then F a (\<lambda>l. lev (ch ! ?s) a (Suc d) (k + l)) (l - k)
                 else lev (ch ! ?s) a (Suc d) l
               else lev (ch ! ?s) a (Suc d) l)"
    by blast
  let ?n' = "TableNode (state n) (Some (ch[?s := c]))"
  have ag: "again (4 * Suc k + b)" using Suc.prems(4) [of "Suc k"] by simp
  have w: "walk again f ip (4 * Suc k + b) (4 * d) n = Some ?n'"
    using ag g ch c(1) nib_less [of ip d] by (subst walk.simps) (simp add: add.commute)
  have wf: "node_wf m ?n'"
    using ch c(2) Suc.prems(2) by (cases m) (auto simp: list_all_length nth_list_update nib_less)
  have lv: "lev n a d (Suc l) = lev (ch ! nib a d) a (Suc d) l" for a l
    using ch(1) lev_open_node [of n a d "Suc l"] by simp
  have ln: "lev ?n' a d (Suc l) = lev (ch[?s := c] ! nib a d) a (Suc d) l" for a l
    by simp
  have all_Suc: "(\<forall>i < Suc k. nib a (d + i) = nib ip (d + i)) \<longleftrightarrow>
      nib a d = ?s \<and> (\<forall>i < k. nib a (Suc d + i) = nib ip (Suc d + i))" for a
    by (auto simp: less_Suc_eq_0_disj)
  have "lev ?n' a d l =
     (if (\<forall>i < Suc k. nib a (d + i) = nib ip (d + i)) then
        if Suc k \<le> l then F a (\<lambda>l. lev n a d (Suc k + l)) (l - Suc k) else lev n a d l
      else lev n a d l)" for a l
  proof (cases l)
    case 0
    then show ?thesis by simp
  next
    case (Suc l')
    then show ?thesis
      unfolding all_Suc using nib_less [of a d] nib_less [of ip d] ch(2)
      by (auto simp: lv ln c(3) nth_list_update simp del: lev.simps)
  qed
  with w wf show ?case by blast
qed

lemma fold_update_upt:
  "q \<le> length ch \<Longrightarrow> length (fold (\<lambda>i ch. ch[i := f (ch ! i)]) [p..<q] ch) = length ch \<and>
    (\<forall>j < length ch. fold (\<lambda>i ch. ch[i := f (ch ! i)]) [p..<q] ch ! j =
       (if p \<le> j \<and> j < q then f (ch ! j) else ch ! j))"
  by (induction q) (auto simp: nth_list_update less_Suc_eq)

lemma div_eq_block: "0 < N \<Longrightarrow> (j::nat) div N = q \<longleftrightarrow> N * q \<le> j \<and> j < N * q + N"
  by (metis add.commute div_nat_eqI dividend_less_times_div mult_Suc_right times_div_less_eq_dividend)

lemma nibble_block:
  assumes "r < 4" "s < (16::nat)"
  shows "s - s mod 2 ^ (4 - r) + 2 ^ (4 - r) \<le> 16"
    and "s - s mod 2 ^ (4 - r) \<le> j \<and> j < s - s mod 2 ^ (4 - r) + 2 ^ (4 - r) \<longleftrightarrow>
      j div 2 ^ (4 - r) = s div 2 ^ (4 - r)"
proof -
  let ?N = "(2::nat) ^ (4 - r)"
  have e: "s - s mod ?N = ?N * (s div ?N)"
    by (simp add: minus_mod_eq_mult_div)
  have "?N * 2 ^ r = (16::nat)"
    using assms(1) by (simp add: power_add [symmetric])
  then have "s div ?N < 2 ^ r"
    using assms(2) by (simp add: less_mult_imp_div_less mult.commute)
  then have "?N * Suc (s div ?N) \<le> ?N * 2 ^ r"
    by (intro mult_le_mono2) simp
  with \<open>?N * 2 ^ r = 16\<close> show "s - s mod ?N + ?N \<le> 16"
    by (simp add: e)
  show "s - s mod ?N \<le> j \<and> j < s - s mod ?N + ?N \<longleftrightarrow> j div ?N = s div ?N"
    by (simp add: e div_eq_block)
qed

lemma set_entries_lev:
  assumes "node_wf m n" "0 < m" "d < 8 * length ip" "0 < r" "r < 4"
  shows "\<exists>n'. set_entries st del ip r (4 * d) n = Some n' \<and> node_wf m n' \<and>
    (\<forall>a. lev n' a d = (if nib a d div 2 ^ (4 - r) = nib ip d div 2 ^ (4 - r)
       then upd_level 1 st del (lev n a d) else lev n a d))"
proof -
  let ?s = "nib ip d" and ?N = "(2::nat) ^ (4 - r)"
  let ?p = "?s - ?s mod ?N"
  obtain ch where ch: "open_node n = TableNode (state n) (Some ch)" "length ch = 16"
      "list_all (node_wf (m - 1)) ch"
    using node_wf_open [of m n] assms by auto
  let ?ch' = "fold (\<lambda>i ch. ch[i := set_node st del (ch ! i)]) [?p..<?p + ?N] ch"
  have p: "?p + ?N \<le> 16"
    using nibble_block(1) [OF assms(5) nib_less] .
  note fu = fold_update_upt [of "?p + ?N" ch "set_node st del" ?p, unfolded ch(2), OF p]
  have eq: "set_entries st del ip r (4 * d) n = Some (TableNode (state n) (Some ?ch'))"
    using ch(1,2) p get_subnet_nib [OF assms(3)] by (simp add: set_entries_def Let_def)
  have wf: "node_wf m (TableNode (state n) (Some ?ch'))"
    using fu ch(3) assms(2) ch(2)
    by (cases m) (auto simp: list_all_length intro: node_wf_set_node)
  have "lev (TableNode (state n) (Some ?ch')) a d l =
      (if nib a d div ?N = ?s div ?N then upd_level 1 st del (lev n a d) l else lev n a d l)" for a l
  proof (cases l)
    case 0
    then show ?thesis by (simp add: upd_level_def)
  next
    case (Suc l')
    have "lev n a d (Suc l') = lev (ch ! nib a d) a (Suc d) l'"
      using ch(1) lev_open_node [of n a d "Suc l'"] by simp
    then show ?thesis
      using fu nib_less [of a d] nibble_block(2) [OF assms(5) nib_less [of ip d], of "nib a d"] Suc
      by (auto simp: lev_set_node upd_level_def)
  qed
  then have "lev (TableNode (state n) (Some ?ch')) a d = (if nib a d div ?N = ?s div ?N
       then upd_level 1 st del (lev n a d) else lev n a d)" for a
    by (simp add: fun_eq_iff)
  with eq wf show ?thesis by blast
qed

text \<open>The level a prefix of \<open>bits\<close> bits is stored at, and when it matches an address.\<close>

definition level :: "nat \<Rightarrow> nat" where
  "level bits = (bits + 3) div 4"

lemma level_mult: "level (4 * k) = k" "0 < r \<Longrightarrow> r < 4 \<Longrightarrow> level (4 * k + r) = Suc k"
  by (simp_all add: level_def)

definition nib_match :: "u32 list \<Rightarrow> u32 list \<Rightarrow> nat \<Rightarrow> bool" where
  "nib_match ip a bits \<longleftrightarrow> (\<forall>i < bits div 4. nib a i = nib ip i) \<and>
     nib a (bits div 4) div 2 ^ (4 - bits mod 4) = nib ip (bits div 4) div 2 ^ (4 - bits mod 4)"

lemma set_subnet_bad:
  "bits < 0 \<or> bits > 32 * int len \<Longrightarrow> set_subnet n ip len bits st del = Some (ADF_BADSUBNET, n)"
  by (simp add: set_subnet_def)

lemma set_subnet_lev:
  assumes "node_wf (8 * len) n" "0 \<le> bits" "bits \<le> 32 * int len" "len \<le> length ip"
  shows "\<exists>n'. set_subnet n ip len bits st del = Some (ADF_SUCCESS, n') \<and> node_wf (8 * len) n' \<and>
    (\<forall>a. lev n' a 0 = (if nib_match ip a (nat bits)
       then upd_level (level (nat bits)) st del (lev n a 0) else lev n a 0))"
proof -
  let ?b = "nat bits"
  let ?k = "?b div 4" and ?r = "?b mod 4"
  have b: "?b = 4 * ?k + ?r" by simp
  have kle: "?k \<le> 8 * len" using assms(2,3) by linarith
  show ?thesis
  proof (cases "?r = 0")
    case True
    let ?f = "\<lambda>b c n. Some (set_node st del n)"
    have "\<exists>n'. walk (\<lambda>b. b > 0) ?f ip (4 * ?k + 0) (4 * 0) n = Some n' \<and> node_wf (8 * len) n' \<and>
           (\<forall>a l. lev n' a 0 l =
              (if (\<forall>i < ?k. nib a (0 + i) = nib ip (0 + i)) then
                 if ?k \<le> l then upd_level 0 st del (\<lambda>l. lev n a 0 (?k + l)) (l - ?k) else lev n a 0 l
               else lev n a 0 l))"
      by (rule walk_lev [where r = 0 and F = "\<lambda>a. upd_level 0 st del"])
         (use assms kle in \<open>auto simp: lev_set_node intro: node_wf_set_node\<close>)
    then obtain n' where n': "walk (\<lambda>b. b > 0) ?f ip ?b 0 n = Some n'" "node_wf (8 * len) n'"
      "\<And>a l. lev n' a 0 l =
              (if (\<forall>i < ?k. nib a i = nib ip i) then
                 if ?k \<le> l then upd_level 0 st del (\<lambda>l. lev n a 0 (?k + l)) (l - ?k) else lev n a 0 l
               else lev n a 0 l)"
      using True b by auto
    have "set_subnet n ip len bits st del = Some (ADF_SUCCESS, n')"
      using n'(1) assms(2,3) True by (simp add: set_subnet_def Let_def)
    moreover have "nib_match ip a ?b \<longleftrightarrow> (\<forall>i < ?k. nib a i = nib ip i)" for a
      using True nib_less by (simp add: nib_match_def)
    moreover have "level ?b = ?k" using True level_mult(1) [of ?k] b by simp
    moreover have "upd_level 0 st del (\<lambda>l. f (?k + l)) (l - ?k) = upd_level ?k st del f l"
      if "?k \<le> l" for f l using that by (auto simp: upd_level_def)
    moreover have "upd_level ?k st del f l = f l" if "l < ?k" for f l
      using that by (simp add: upd_level_def)
    ultimately show ?thesis using n'(2,3)
      by (intro exI [of _ n']) (auto simp: fun_eq_iff)
  next
    case False
    then have r: "0 < ?r" "?r < 4" by simp_all
    have "?b \<le> 32 * len" using assms(2,3) by linarith
    then have k1: "?k + 1 \<le> 8 * len" using b r(1) by linarith
    let ?F = "\<lambda>a f. if nib a ?k div 2 ^ (4 - ?r) = nib ip ?k div 2 ^ (4 - ?r) then upd_level 1 st del f else f"
    have "\<exists>n'. walk (\<lambda>b. b \<ge> 4) (set_entries st del ip) ip (4 * ?k + ?r) (4 * 0) n = Some n' \<and>
        node_wf (8 * len) n' \<and>
           (\<forall>a l. lev n' a 0 l =
              (if (\<forall>i < ?k. nib a (0 + i) = nib ip (0 + i)) then
                 if ?k \<le> l then ?F a (\<lambda>l. lev n a 0 (?k + l)) (l - ?k) else lev n a 0 l
               else lev n a 0 l))"
    proof (rule walk_lev [where r = 1 and F = ?F])
      fix n assume "node_wf (8 * len - ?k) n"
      then show "\<exists>n'. set_entries st del ip ?r (4 * (0 + ?k)) n = Some n' \<and> node_wf (8 * len - ?k) n' \<and>
          (\<forall>a. lev n' a (0 + ?k) = ?F a (lev n a (0 + ?k)))"
        using set_entries_lev [of "8 * len - ?k" n ?k ip ?r st del] k1 assms(4) r by auto
    qed (use assms k1 r in auto)
    then obtain n' where n': "walk (\<lambda>b. b \<ge> 4) (set_entries st del ip) ip ?b 0 n = Some n'"
      "node_wf (8 * len) n'"
      "\<And>a l. lev n' a 0 l =
              (if (\<forall>i < ?k. nib a i = nib ip i) then
                 if ?k \<le> l then ?F a (\<lambda>l. lev n a 0 (?k + l)) (l - ?k) else lev n a 0 l
               else lev n a 0 l)"
      using b by auto
    have "set_subnet n ip len bits st del = Some (ADF_SUCCESS, n')"
      using n'(1) assms(2,3) False by (simp add: set_subnet_def Let_def)
    moreover have "level ?b = Suc ?k" using level_mult(2) [OF r, of ?k] b by simp
    moreover have "upd_level 1 st del (\<lambda>l. f (?k + l)) (l - ?k) = upd_level (Suc ?k) st del f l"
      if "?k \<le> l" for f l using that by (auto simp: upd_level_def)
    moreover have "upd_level (Suc ?k) st del f l = f l" if "l < ?k" for f l
      using that by (simp add: upd_level_def)
    ultimately show ?thesis using n'(2,3)
      by (intro exI [of _ n']) (auto simp: fun_eq_iff nib_match_def)
  qed
qed

section \<open>Nibbles and bits\<close>

text \<open>Bit \<open>i\<close> of an address, counted from its most significant bit.\<close>

definition addr_bit :: "u32 list \<Rightarrow> nat \<Rightarrow> bool" where
  "addr_bit a i = bit (a ! (i div 32)) (31 - i mod 32)"

lemma addr_bit_nibble:
  assumes "t < 4"
  shows "addr_bit a (4 * i + t) = bit (a ! (i div 8)) (28 - 4 * (i mod 8) + (3 - t))"
proof -
  have d: "(4 * i + t) div 32 = i div 8"
    using div_mult2_eq [of "4 * i + t" 4 8] assms by simp
  have m: "(4 * i + t) mod 32 = 4 * (i mod 8) + t"
    using mod_mult2_eq [of "4 * i + t" 4 8] assms by simp
  have "i mod 8 < 8" by simp
  then have "31 - (4 * (i mod 8) + t) = 28 - 4 * (i mod 8) + (3 - t)"
    using assms by linarith
  then show ?thesis by (simp add: addr_bit_def d m)
qed

lemma bit_15: "bit (15::u32) n \<longleftrightarrow> n < 4"
  using bit_mask_iff [of 4 n, where ?'a = u32] by (auto simp: mask_eq_decr_exp dest: bit_imp_le_length)

lemma bit_nib_word:
  "bit (drop_bit (28 - 4 * (i mod 8)) (a ! (i div 8)) AND (15::u32)) n \<longleftrightarrow>
    n < 4 \<and> addr_bit a (4 * i + (3 - n))"
  using bit_15 [of n] by (auto simp: bit_and_iff bit_drop_bit_eq addr_bit_nibble)

lemma drop_bit_eq_iff:
  "drop_bit k (x::u32) = drop_bit k y \<longleftrightarrow> (\<forall>n. bit x (k + n) = bit y (k + n))"
proof
  assume "drop_bit k x = drop_bit k y"
  then have "bit (drop_bit k x) n = bit (drop_bit k y) n" for n by simp
  then show "\<forall>n. bit x (k + n) = bit y (k + n)" by (simp add: bit_drop_bit_eq)
next
  assume "\<forall>n. bit x (k + n) = bit y (k + n)"
  then show "drop_bit k x = drop_bit k y"
    by (intro bit_word_eqI) (simp add: bit_drop_bit_eq)
qed

lemma nib_div_eq:
  assumes "r \<le> 4"
  shows "nib a i div 2 ^ (4 - r) = nib b i div 2 ^ (4 - r) \<longleftrightarrow>
    (\<forall>t < r. addr_bit a (4 * i + t) = addr_bit b (4 * i + t))"
proof -
  let ?w = "\<lambda>a::u32 list. drop_bit (28 - 4 * (i mod 8)) (a ! (i div 8)) AND (15::u32)"
  have "nib a i div 2 ^ (4 - r) = unat (drop_bit (4 - r) (?w a))" for a
    by (simp only: nib_def unat_drop_bit_eq drop_bit_eq_div [where ?'a = nat])
  then have "nib a i div 2 ^ (4 - r) = nib b i div 2 ^ (4 - r) \<longleftrightarrow>
      drop_bit (4 - r) (?w a) = drop_bit (4 - r) (?w b)"
    by (simp add: word_unat_eq_iff)
  also have "\<dots> \<longleftrightarrow> (\<forall>n. bit (?w a) (4 - r + n) = bit (?w b) (4 - r + n))"
    by (rule drop_bit_eq_iff)
  also have "\<dots> \<longleftrightarrow> (\<forall>n < r. addr_bit a (4 * i + (r - 1 - n)) = addr_bit b (4 * i + (r - 1 - n)))"
  proof -
    have "3 - (4 - r + n) = r - 1 - n" if "n < r" for n
      using assms that by linarith
    moreover have "4 - r + n < 4 \<longleftrightarrow> n < r" for n
      using assms by linarith
    ultimately have "bit (?w a) (4 - r + n) \<longleftrightarrow> n < r \<and> addr_bit a (4 * i + (r - 1 - n))" for a n
      using bit_nib_word [of i a "4 - r + n"] by metis
    then show ?thesis by blast
  qed
  also have "\<dots> \<longleftrightarrow> (\<forall>t < r. addr_bit a (4 * i + t) = addr_bit b (4 * i + t))"
  proof -
    have "P t" if "\<forall>n < r. P (r - 1 - n)" "t < r" for P t
      using that(1) [rule_format, of "r - 1 - t"] that(2) by simp
    then have "(\<forall>n < r. P (r - 1 - n)) \<longleftrightarrow> (\<forall>t < r. P t)" for P
      by auto
    from this [of "\<lambda>t. addr_bit a (4 * i + t) = addr_bit b (4 * i + t)"] show ?thesis .
  qed
  finally show ?thesis .
qed

lemma all_less_split4:
  "(\<forall>i < (bits::nat). P i) \<longleftrightarrow>
    (\<forall>i < bits div 4. \<forall>t < 4. P (4 * i + t)) \<and> (\<forall>t < bits mod 4. P (4 * (bits div 4) + t))"
  (is "?L \<longleftrightarrow> ?R")
proof
  assume ?L
  moreover have "4 * i + t < bits" if "i < bits div 4" "t < 4" for i t
    using that by linarith
  moreover have "4 * (bits div 4) + t < bits" if "t < bits mod 4" for t
    using that mult_div_mod_eq [of 4 bits] by linarith
  ultimately show ?R by blast
next
  assume R: ?R
  show ?L
  proof (intro allI impI)
    fix i assume i: "i < bits"
    have e: "i = 4 * (i div 4) + i mod 4" by simp
    show "P i"
    proof (cases "i div 4 < bits div 4")
      case True
      with R have "\<forall>t < 4. P (4 * (i div 4) + t)" by blast
      then have "P (4 * (i div 4) + i mod 4)" by (rule allE [of _ "i mod 4"]) simp
      with e show ?thesis by simp
    next
      case False
      with i have "i div 4 = bits div 4" using div_le_mono [of i bits 4] by simp
      moreover from this i have "i mod 4 < bits mod 4"
        using e mult_div_mod_eq [of 4 bits] by linarith
      ultimately have "P (4 * (i div 4) + i mod 4)" using R by metis
      with e show ?thesis by simp
    qed
  qed
qed

lemma nib_match_bits: "nib_match ip a bits \<longleftrightarrow> (\<forall>i < bits. addr_bit a i = addr_bit ip i)"
  using all_less_split4 [of bits "\<lambda>i. addr_bit a i = addr_bit ip i"]
    nib_div_eq [of 4 a _ ip] nib_div_eq [of "bits mod 4" a "bits div 4" ip]
  by (simp add: nib_match_def)

lemma addr_bit_in4: "i < 32 \<Longrightarrow> addr_bit [x] i = bit x (31 - i)"
  by (simp add: addr_bit_def)

lemma length_split_ip6 [simp]: "length (split_ip6 x) = 4"
  by (simp add: split_ip6_def)

lemma addr_bit_in6:
  assumes "i < 128"
  shows "addr_bit (split_ip6 x) i = bit x (127 - i)"
proof -
  let ?j = "i div 32" and ?m = "i mod 32"
  have j: "?j < 4" using assms by simp
  have i: "i = 32 * ?j + ?m" by simp
  consider "?m < 8" | "8 \<le> ?m \<and> ?m < 16" | "16 \<le> ?m \<and> ?m < 24" | "24 \<le> ?m \<and> ?m < 32"
    using pos_mod_bound [of 32 "int i"] by fastforce
  then have "bit (split_ip6 x ! ?j) (31 - ?m) = bit x (127 - (32 * ?j + ?m))"
    by cases (use j in \<open>auto simp: split_ip6_def bit_simps bit_in6 algebra_simps\<close>)
  then show ?thesis using i by (simp add: addr_bit_def)
qed

section \<open>Lookup\<close>

text \<open>The state in force: that of the highest level up to \<open>m\<close> that has one of its own.\<close>

fun decide :: "State \<Rightarrow> (nat \<Rightarrow> State) \<Rightarrow> nat \<Rightarrow> State" where
  "decide st f 0 = (if f 0 \<noteq> AS_PARENT then f 0 else st)"
| "decide st f (Suc m) = (if f (Suc m) \<noteq> AS_PARENT then f (Suc m) else decide st f m)"

lemma decide_Suc_shift:
  "decide st f (Suc m) = decide (if f 0 \<noteq> AS_PARENT then f 0 else st) (\<lambda>l. f (Suc l)) m"
  by (induction m) auto

lemma decide_parent: "(\<And>l. l \<le> m \<Longrightarrow> f l = AS_PARENT) \<Longrightarrow> decide st f m = st"
  by (induction m) auto

lemma decide_not_parent: "st \<noteq> AS_PARENT \<Longrightarrow> decide st f m \<noteq> AS_PARENT"
  by (induction m) auto

lemma decide_cong: "(\<And>l. l \<le> m \<Longrightarrow> f l = g l) \<Longrightarrow> decide st f m = decide st g m"
  by (induction m) auto

lemma check_loop_decide:
  "node_wf m n \<Longrightarrow> d + m \<le> 8 * length a \<Longrightarrow>
    check_loop n a (4 * d) st = Some (decide st (lev n a d) m)"
proof (induction m arbitrary: n d st)
  case 0
  then show ?case by (cases n; cases "extended n") auto
next
  case (Suc m)
  obtain s ext where n: "n = TableNode s ext" by (cases n)
  show ?case
  proof (cases ext)
    case None
    have "decide st' (\<lambda>l. lev n a d (Suc l)) m = st'" for st'
      using n None by (intro decide_parent) simp
    then show ?thesis using n None by (simp only: decide_Suc_shift) simp
  next
    case (Some ch)
    let ?s = "nib a d" and ?st = "if s \<noteq> AS_PARENT then s else st"
    from Suc.prems n Some have ch: "length ch = 16" "node_wf m (ch ! ?s)"
      by (auto simp: list_all_length nib_less)
    have "get_subnet a (4 * d) = Some ?s"
      using Suc.prems(2) by (intro get_subnet_nib) simp
    then have "check_loop n a (4 * d) st = check_loop (ch ! ?s) a (4 * Suc d) ?st"
      using n Some ch(1) nib_less [of a d] by (simp add: Let_def add.commute)
    also have "\<dots> = Some (decide ?st (lev (ch ! ?s) a (Suc d)) m)"
      using Suc.prems(2) ch by (intro Suc.IH) simp_all
    also have "\<dots> = Some (decide st (lev n a d) (Suc m))"
      using n Some unfolding decide_Suc_shift by simp
    finally show ?thesis .
  qed
qed

lemma check_ip_in_node_decide:
  assumes "node_wf (8 * length a) n" "state n \<noteq> AS_PARENT"
  shows "check_ip_in_node n a = Some (decide DENY (lev n a 0) (8 * length a) = ALLOW)"
proof -
  have "check_loop n a (4 * 0) DENY = Some (decide DENY (lev n a 0) (8 * length a))"
    using assms by (intro check_loop_decide) simp_all
  moreover have "decide DENY (lev n a 0) (8 * length a) \<noteq> AS_PARENT"
    by (rule decide_not_parent) simp
  ultimately show ?thesis
    by (auto simp: check_ip_in_node_def split: State.splits)
qed

section \<open>Specification: the history of rules\<close>

datatype adf_op = Allow | AllowAll | Deny | DenyAll

type_synonym adf_rule = "adf_op \<times> IPAddr \<times> int"

fun op_state :: "adf_op \<Rightarrow> State" where
  "op_state Allow = ALLOW" | "op_state AllowAll = ALLOW"
| "op_state Deny = DENY" | "op_state DenyAll = DENY"

fun op_all :: "adf_op \<Rightarrow> bool" where
  "op_all Allow = False" | "op_all AllowAll = True"
| "op_all Deny = False" | "op_all DenyAll = True"

text \<open>A subnet contains the addresses that agree with it in its first \<open>bits\<close> bits.\<close>

definition in_subnet :: "IPAddr \<Rightarrow> int \<Rightarrow> IPAddr \<Rightarrow> bool" where
  "in_subnet net bits ip = (case (net, ip) of
     (IPADDR_INET4 x, IPADDR_INET4 a) \<Rightarrow>
       0 \<le> bits \<and> bits \<le> 32 \<and> (\<forall>i \<in> {..<nat bits}. bit a (31 - i) = bit x (31 - i))
   | (IPADDR_INET6 x, IPADDR_INET6 a) \<Rightarrow>
       0 \<le> bits \<and> bits \<le> 128 \<and> (\<forall>i \<in> {..<nat bits}. bit a (127 - i) = bit x (127 - i))
   | (IPADDR_UNSPEC, IPADDR_INET4 a) \<Rightarrow> bits = 0
   | (IPADDR_UNSPEC, IPADDR_INET6 a) \<Rightarrow> bits = 0
   | _ \<Rightarrow> False)"

definition valid_subnet :: "IPAddr \<Rightarrow> int \<Rightarrow> bool" where
  "valid_subnet net bits = (case net of
     IPADDR_INET4 x \<Rightarrow> 0 \<le> bits \<and> bits \<le> 32
   | IPADDR_INET6 x \<Rightarrow> 0 \<le> bits \<and> bits \<le> 128
   | IPADDR_UNSPEC \<Rightarrow> bits = 0
   | _ \<Rightarrow> False)"

text \<open>The effect of one rule on the levels of one address.\<close>

fun spec_rule :: "IPAddr \<Rightarrow> adf_rule \<Rightarrow> (nat \<Rightarrow> State) \<Rightarrow> (nat \<Rightarrow> State)" where
  "spec_rule ip (op, net, bits) f =
     (if in_subnet net bits ip then upd_level (level (nat bits)) (op_state op) (op_all op) f else f)"

definition spec_levels :: "IPAddr \<Rightarrow> adf_rule list \<Rightarrow> nat \<Rightarrow> State" where
  "spec_levels ip rules = fold (spec_rule ip) rules (\<lambda>l. if l = 0 then DENY else AS_PARENT)"

definition address_levels :: "IPAddr \<Rightarrow> nat" where
  "address_levels ip = (case ip of IPADDR_INET4 _ \<Rightarrow> 8 | IPADDR_INET6 _ \<Rightarrow> 32 | _ \<Rightarrow> 0)"

definition spec_allowed :: "IPAddr \<Rightarrow> adf_rule list \<Rightarrow> bool" where
  "spec_allowed ip rules \<longleftrightarrow> UTI_IsIPReal ip \<and> decide DENY (spec_levels ip rules) (address_levels ip) = ALLOW"

text \<open>The table the code holds after a history of rules, and the statuses it returned.\<close>

fun adf_apply :: "adf_rule \<Rightarrow> ADF_AuthTable \<Rightarrow> (ADF_Status \<times> ADF_AuthTable) option" where
  "adf_apply (op, net, bits) t = (case op of
     Allow \<Rightarrow> ADF_Allow t net bits
   | AllowAll \<Rightarrow> ADF_AllowAll t net bits
   | Deny \<Rightarrow> ADF_Deny t net bits
   | DenyAll \<Rightarrow> ADF_DenyAll t net bits)"

abbreviation adf_run :: "adf_rule list \<Rightarrow> ADF_AuthTable \<Rightarrow> ADF_AuthTable option" where
  "adf_run \<equiv> run_ops adf_apply"

definition table_levels :: "ADF_AuthTable \<Rightarrow> IPAddr \<Rightarrow> nat \<Rightarrow> State" where
  "table_levels t ip = (case ip of
     IPADDR_INET4 a \<Rightarrow> lev (base4 t) [a] 0
   | IPADDR_INET6 a \<Rightarrow> lev (base6 t) (split_ip6 a) 0
   | _ \<Rightarrow> (\<lambda>l. if l = 0 then DENY else AS_PARENT))"

lemma adf_apply_set_subnet: "adf_apply (op, net, bits) t =
    set_subnet_table t net bits (op_state op) (op_all op)"
  by (cases op) (simp_all add: ADF_Allow_def ADF_AllowAll_def ADF_Deny_def ADF_DenyAll_def)

lemma all_bits4: "bits \<le> 32 \<Longrightarrow>
    nib_match [x] [a] bits \<longleftrightarrow> (\<forall>i \<in> {..<bits}. bit a (31 - i) = bit x (31 - i))"
  by (auto simp: nib_match_bits addr_bit_in4)

lemma all_bits6: "bits \<le> 128 \<Longrightarrow>
    nib_match (split_ip6 x) (split_ip6 a) bits \<longleftrightarrow> (\<forall>i \<in> {..<bits}. bit a (127 - i) = bit x (127 - i))"
  by (auto simp: nib_match_bits addr_bit_in6)

lemma upd_level_state0: "st \<noteq> AS_PARENT \<Longrightarrow> f 0 \<noteq> AS_PARENT \<Longrightarrow> upd_level k st del f 0 \<noteq> AS_PARENT"
  by (simp add: upd_level_def)

lemma lev_0: "lev n a d 0 = state n"
  by simp

text \<open>One rule: the status, the invariant and the levels of every address.\<close>

lemma set_subnet_table_refines:
  assumes "table_wf t" "st \<noteq> AS_PARENT"
  shows "\<exists>s t'. set_subnet_table t net bits st del = Some (s, t') \<and> table_wf t' \<and>
    (s = ADF_SUCCESS \<longleftrightarrow> valid_subnet net bits) \<and> (s = ADF_BADSUBNET \<longrightarrow> t' = t) \<and>
    (\<forall>ip. table_levels t' ip =
      (if in_subnet net bits ip then upd_level (level (nat bits)) st del (table_levels t ip)
       else table_levels t ip))"
proof -
  have st0: "state n' \<noteq> AS_PARENT" if "lev n' [0] 0 = (if c then upd_level k st del (lev n [0] 0) else lev n [0] 0)"
      "state n \<noteq> AS_PARENT" for n' n c k
    using that upd_level_state0 [OF assms(2), of "lev n [0] 0" k del] lev_0 by metis
  note wf = assms(1) [unfolded table_wf_def]
  show ?thesis
  proof (cases net)
    case (IPADDR_INET4 x)
    show ?thesis
    proof (cases "0 \<le> bits \<and> bits \<le> 32")
      case True
      obtain n' where n': "set_subnet (base4 t) [x] 1 bits st del = Some (ADF_SUCCESS, n')"
        "node_wf 8 n'" "\<And>a. lev n' a 0 = (if nib_match [x] a (nat bits)
          then upd_level (level (nat bits)) st del (lev (base4 t) a 0) else lev (base4 t) a 0)"
        using set_subnet_lev [of 1 "base4 t" bits "[x]" st del] True wf by auto
      then show ?thesis
        using IPADDR_INET4 True wf st0 [OF n'(3)]
        by (auto simp: set_subnet_table_def table_wf_def valid_subnet_def table_levels_def
            in_subnet_def all_bits4 split: IPAddr.splits)
    next
      case False
      then show ?thesis
        using IPADDR_INET4 assms(1) set_subnet_bad [of bits 1]
        by (auto simp: set_subnet_table_def valid_subnet_def in_subnet_def split: IPAddr.splits)
    qed
  next
    case (IPADDR_INET6 x)
    show ?thesis
    proof (cases "0 \<le> bits \<and> bits \<le> 128")
      case True
      obtain n' where n': "set_subnet (base6 t) (split_ip6 x) 4 bits st del = Some (ADF_SUCCESS, n')"
        "node_wf 32 n'" "\<And>a. lev n' a 0 = (if nib_match (split_ip6 x) a (nat bits)
          then upd_level (level (nat bits)) st del (lev (base6 t) a 0) else lev (base6 t) a 0)"
        using set_subnet_lev [of 4 "base6 t" bits "split_ip6 x" st del] True wf by auto
      then show ?thesis
        using IPADDR_INET6 True wf st0 [OF n'(3)]
        by (auto simp: set_subnet_table_def table_wf_def valid_subnet_def table_levels_def
            in_subnet_def all_bits6 split: IPAddr.splits)
    next
      case False
      then show ?thesis
        using IPADDR_INET6 assms(1) set_subnet_bad [of bits 4]
        by (auto simp: set_subnet_table_def valid_subnet_def in_subnet_def split: IPAddr.splits)
    qed
  next
    case IPADDR_UNSPEC
    show ?thesis
    proof (cases "bits = 0")
      case True
      let ?z = "replicate 4 (0::u32)"
      have m: "nib_match ?z a 0" for a by (simp add: nib_match_bits)
      obtain n4 where n4: "set_subnet (base4 t) ?z 1 0 st del = Some (ADF_SUCCESS, n4)"
        "node_wf 8 n4" "\<And>a. lev n4 a 0 = (if True then upd_level (level 0) st del (lev (base4 t) a 0) else lev (base4 t) a 0)"
        using set_subnet_lev [of 1 "base4 t" 0 ?z st del] wf m by auto
      obtain n6 where n6: "set_subnet (base6 t) ?z 4 0 st del = Some (ADF_SUCCESS, n6)"
        "node_wf 32 n6" "\<And>a. lev n6 a 0 = (if True then upd_level (level 0) st del (lev (base6 t) a 0) else lev (base6 t) a 0)"
        using set_subnet_lev [of 4 "base6 t" 0 ?z st del] wf m by auto
      show ?thesis
        using IPADDR_UNSPEC True wf n4 n6 st0 [OF n4(3)] st0 [OF n6(3)]
        by (auto simp: set_subnet_table_def table_wf_def valid_subnet_def table_levels_def
            in_subnet_def split: IPAddr.splits)
    next
      case False
      then show ?thesis
        using IPADDR_UNSPEC assms(1)
        by (auto simp: set_subnet_table_def valid_subnet_def in_subnet_def split: IPAddr.splits)
    qed
  qed (use assms(1) in \<open>auto simp: set_subnet_table_def valid_subnet_def in_subnet_def split: IPAddr.splits\<close>)
qed

lemma op_state_not_parent [simp]: "op_state op \<noteq> AS_PARENT"
  by (cases op) simp_all

interpretation adf: op_refinement adf_apply table_wf table_levels
    "\<lambda>r f ip. spec_rule ip r (f ip)"
proof
  fix t and r :: adf_rule
  assume wf: "table_wf t"
  obtain op net bits where r: "r = (op, net, bits)" by (cases r)
  obtain s t' where t': "adf_apply r t = Some (s, t')" "table_wf t'"
    "\<And>ip. table_levels t' ip =
      (if in_subnet net bits ip then upd_level (level (nat bits)) (op_state op) (op_all op) (table_levels t ip)
       else table_levels t ip)"
    using set_subnet_table_refines [OF wf op_state_not_parent [of op], of net bits "op_all op"]
    unfolding r adf_apply_set_subnet by blast
  then have "table_levels t' = (\<lambda>ip. spec_rule ip r (table_levels t ip))"
    by (intro ext) (simp add: r)
  with t' show "\<exists>s t'. adf_apply r t = Some (s, t') \<and> table_wf t' \<and>
      table_levels t' = (\<lambda>ip. spec_rule ip r (table_levels t ip))"
    by blast
qed

lemma table_wf_create: "table_wf ADF_CreateTable"
  by (simp add: table_wf_def ADF_CreateTable_def)

lemma table_levels_create: "table_levels ADF_CreateTable ip = (\<lambda>l. if l = 0 then DENY else AS_PARENT)"
proof
  fix l show "table_levels ADF_CreateTable ip l = (if l = 0 then DENY else AS_PARENT)"
    by (cases l) (simp_all add: table_levels_def ADF_CreateTable_def split: IPAddr.splits)
qed

lemma fold_spec_rule: "fold (\<lambda>r f ip. spec_rule ip r (f ip)) rules f ip = fold (spec_rule ip) rules (f ip)"
  by (induction rules arbitrary: f) simp_all

lemma ADF_IsAllowed_levels:
  assumes "table_wf t"
  shows "ADF_IsAllowed t ip =
    Some (UTI_IsIPReal ip \<and> decide DENY (table_levels t ip) (address_levels ip) = ALLOW)"
  using assms check_ip_in_node_decide [of "[a]" "base4 t" for a]
    check_ip_in_node_decide [of "split_ip6 a" "base6 t" for a]
  by (auto simp: ADF_IsAllowed_def table_wf_def UTI_IsIPReal_def table_levels_def address_levels_def
      split: IPAddr.splits)

lemma adf_run_create:
  "\<exists>t. adf_run rules ADF_CreateTable = Some t \<and> table_wf t \<and> (\<forall>ip. table_levels t ip = spec_levels ip rules)"
  using adf.run_refines [OF table_wf_create, of rules]
  by (auto simp: fold_spec_rule table_levels_create spec_levels_def)

section \<open>Is any address allowed\<close>

lemma nib_eq_bits: "nib a i = nib b i \<longleftrightarrow> (\<forall>t < 4. addr_bit a (4 * i + t) = addr_bit b (4 * i + t))"
  using nib_div_eq [of 4 a i b] by simp

lemma bit_small: "c < 16 \<Longrightarrow> bit (of_nat c :: u32) n \<Longrightarrow> n < 4"
proof -
  assume "c < 16" "bit (of_nat c :: u32) n"
  moreover from this have "(of_nat c :: u32) = take_bit 4 (of_nat c)"
    by (simp add: take_bit_of_nat) (simp add: take_bit_eq_mod)
  ultimately show ?thesis by (metis bit_take_bit_iff)
qed

lemma nibble_apart:
  assumes "y \<noteq> x" "y < 8" "x < 8" "t < (4::nat)"
  shows "\<not> (28 - 4 * x \<le> 28 - 4 * y + (3 - t) \<and> 28 - 4 * y + (3 - t) < 28 - 4 * x + 4)"
proof (cases "x < y")
  case True
  with assms(2) have "28 - 4 * y + 4 \<le> 28 - 4 * x" by linarith
  then show ?thesis by linarith
next
  case False
  with assms(1,3) have "28 - 4 * x + 4 \<le> 28 - 4 * y" by linarith
  then show ?thesis by linarith
qed

text \<open>One nibble of an address can be changed to any value.\<close>

lemma nib_update:
  assumes "i < 8 * length a" "c < 16"
  shows "\<exists>b. length b = length a \<and> nib b i = c \<and> (\<forall>j. j \<noteq> i \<longrightarrow> nib b j = nib a j)"
proof -
  let ?q = "i div 8" and ?s = "28 - 4 * (i mod 8)"
  let ?w = "(a ! ?q AND NOT (push_bit ?s 15)) OR push_bit ?s (of_nat c) :: u32"
  let ?b = "a[?q := ?w]"
  have q: "?q < length a" using assms(1) by simp
  have s: "?s + n < 32" if "n < 4" for n using that by simp
  have bw: "bit ?w n \<longleftrightarrow> (if ?s \<le> n \<and> n < ?s + 4 then bit (of_nat c :: u32) (n - ?s) else bit (a ! ?q) n)"
    if "n < 32" for n
    using that bit_small [OF assms(2), of "n - ?s"] bit_15 [of "n - ?s"] by (auto simp: bit_simps)
  have "drop_bit ?s ?w AND 15 = (of_nat c :: u32)"
  proof (rule bit_word_eqI)
    fix n
    show "bit (drop_bit ?s ?w AND 15) n = bit (of_nat c :: u32) n"
    proof (cases "n < 4")
      case True
      then have "bit ?w (?s + n) = bit (of_nat c :: u32) n"
        using bw [OF s [OF True]]
        by (simp only: le_add1 nat_add_left_cancel_less add_diff_cancel_left' simp_thms if_True)
      then show ?thesis using bit_15 [of n] True by (simp only: bit_and_iff bit_drop_bit_eq o_apply simp_thms)
    next
      case False
      then show ?thesis using bit_small [OF assms(2), of n] bit_15 [of n] by (auto simp: bit_and_iff)
    qed
  qed
  then have "nib ?b i = c"
    using q assms(2) by (simp add: nib_def unat_of_nat)
  moreover have "nib ?b j = nib a j" if "j \<noteq> i" for j
  proof (cases "j div 8 = ?q")
    case True
    then have m: "j mod 8 \<noteq> i mod 8" using that by (metis mult_div_mod_eq)
    have "bit ?w (28 - 4 * (j mod 8) + (3 - t)) = bit (a ! ?q) (28 - 4 * (j mod 8) + (3 - t))"
      if "t < 4" for t
    proof -
      have "j mod 8 < 8" "i mod 8 < 8" by simp_all
      then have "\<not> (?s \<le> 28 - 4 * (j mod 8) + (3 - t) \<and> 28 - 4 * (j mod 8) + (3 - t) < ?s + 4)"
        using nibble_apart [OF m _ _ that] by blast
      moreover have "28 - 4 * (j mod 8) + (3 - t) < 32" by simp
      ultimately show ?thesis using bw by metis
    qed
    then show ?thesis using True q by (simp add: nib_eq_bits addr_bit_nibble)
  next
    case False
    then show ?thesis by (simp add: nib_def)
  qed
  ultimately show ?thesis by (intro exI [of _ ?b]) simp
qed

lemma lev_cong: "(\<And>i. d \<le> i \<Longrightarrow> i < d + l \<Longrightarrow> nib a i = nib b i) \<Longrightarrow> lev n a d l = lev n b d l"
  by (induction l arbitrary: n d) (auto split: option.splits)

lemma any_loop_Some: "(\<And>r. r \<in> set rs \<Longrightarrow> r \<noteq> None) \<Longrightarrow> any_loop rs = Some (Some True \<in> set rs)"
  by (induction rs) (auto split: option.splits bool.splits)

lemma is_any_allowed_decide:
  "node_wf m n \<Longrightarrow> d + m \<le> 8 * len \<Longrightarrow> state n \<noteq> AS_PARENT \<or> st \<noteq> AS_PARENT \<Longrightarrow>
    is_any_allowed n st = Some (\<exists>a. length a = len \<and> decide st (lev n a d) m = ALLOW)"
proof (induction m arbitrary: n d st)
  case 0
  moreover have "\<exists>a::u32 list. length a = len" by (metis length_replicate)
  ultimately show ?case by (cases n; cases "extended n") (auto simp: Let_def)
next
  case (Suc m)
  obtain s ext where n: "n = TableNode s ext" by (cases n)
  let ?st = "if s \<noteq> AS_PARENT then s else st"
  have st: "?st \<noteq> AS_PARENT" using Suc.prems(3) n by auto
  have ex: "\<exists>a::u32 list. length a = len" by (metis length_replicate)
  show ?case
  proof (cases ext)
    case None
    have "decide st (lev n a d) (Suc m) = ?st" for a
      unfolding decide_Suc_shift using n None by (simp add: decide_parent)
    then show ?thesis using n None st ex by (auto simp: Let_def)
  next
    case (Some ch)
    from Suc.prems n Some have ch: "length ch = 16" "\<And>c. c \<in> set ch \<Longrightarrow> node_wf m c"
      by (auto simp: list_all_iff)
    let ?P = "\<lambda>c a. length a = len \<and> decide ?st (lev c a (Suc d)) m = ALLOW"
    have IH: "is_any_allowed c ?st = Some (\<exists>a. ?P c a)" if "c \<in> set ch" for c
      using Suc.prems(2) ch(2) [OF that] st by (intro Suc.IH) simp_all
    have "is_any_allowed n st = any_loop (map (\<lambda>c. is_any_allowed c ?st) ch)"
      using n Some st by (simp add: Let_def)
    also have "\<dots> = Some (\<exists>c \<in> set ch. \<exists>a. ?P c a)"
      using IH by (subst any_loop_Some) (auto simp: image_iff)
    also have "(\<exists>c \<in> set ch. \<exists>a. ?P c a) \<longleftrightarrow> (\<exists>a. ?P (ch ! nib a d) a)"
    proof
      assume "\<exists>c \<in> set ch. \<exists>a. ?P c a"
      then obtain j a where j: "j < 16" and a: "?P (ch ! j) a"
        using ch(1) by (auto simp: in_set_conv_nth)
      obtain b where b: "length b = length a" "nib b d = j" "\<And>i. i \<noteq> d \<Longrightarrow> nib b i = nib a i"
        using nib_update [of d a j] j a Suc.prems(2) by auto
      have "decide ?st (lev (ch ! j) b (Suc d)) m = decide ?st (lev (ch ! j) a (Suc d)) m"
        by (intro decide_cong lev_cong b(3)) simp
      with a b(1,2) show "\<exists>a. ?P (ch ! nib a d) a" by (intro exI [of _ b]) simp
    next
      assume "\<exists>a. ?P (ch ! nib a d) a"
      then show "\<exists>c \<in> set ch. \<exists>a. ?P c a" using ch(1) nib_less by (metis nth_mem)
    qed
    also have "(\<exists>a. ?P (ch ! nib a d) a) \<longleftrightarrow> (\<exists>a. length a = len \<and> decide st (lev n a d) (Suc m) = ALLOW)"
      unfolding decide_Suc_shift using n Some by simp
    finally show ?thesis .
  qed
qed

lemma decide_start: "f 0 \<noteq> AS_PARENT \<Longrightarrow> decide st f m = decide st' f m"
  by (induction m) auto

lemma ex_word_bits: "\<exists>x::'a::len word. \<forall>n < LENGTH('a). bit x n = f n"
  by (rule exI [of _ "horner_sum of_bool 2 (map f [0..<LENGTH('a)])"])
     (simp add: bit_horner_sum_bit_word_iff)

lemma split_ip6_surj: "length a = 4 \<Longrightarrow> \<exists>x. \<forall>i < 32. nib (split_ip6 x) i = nib a i"
proof -
  obtain x :: "128 word" where x: "\<forall>n < 128. bit x n = addr_bit a (127 - n)"
    using ex_word_bits [where ?'a = 128, of "\<lambda>n. addr_bit a (127 - n)"] by auto
  then have "addr_bit (split_ip6 x) i = addr_bit a i" if "i < 128" for i
    using that by (simp add: addr_bit_in6)
  then have "nib (split_ip6 x) i = nib a i" if "i < 32" for i
    using that by (simp add: nib_eq_bits)
  then show ?thesis by blast
qed

lemma any_allowed_node:
  assumes "node_wf (8 * len) n" "state n \<noteq> AS_PARENT"
  shows "is_any_allowed n AS_PARENT = Some (\<exists>a. length a = len \<and> check_ip_in_node n a = Some True)"
proof -
  have "decide AS_PARENT (lev n a 0) (8 * len) = decide DENY (lev n a 0) (8 * len)" for a
    by (rule decide_start) (simp add: assms(2))
  moreover have "check_ip_in_node n a = Some (decide DENY (lev n a 0) (8 * len) = ALLOW)"
    if "length a = len" for a using check_ip_in_node_decide [of a n] assms that by simp
  ultimately show ?thesis
    using is_any_allowed_decide [OF assms(1), of 0 len AS_PARENT] assms(2) by auto
qed

lemma check_ip_cong:
  assumes "node_wf (8 * length a) n" "state n \<noteq> AS_PARENT" "length a = length b"
    "\<And>i. i < 8 * length a \<Longrightarrow> nib a i = nib b i"
  shows "check_ip_in_node n a = check_ip_in_node n b"
proof -
  have "decide DENY (lev n a 0) (8 * length a) = decide DENY (lev n b 0) (8 * length a)"
    by (intro decide_cong lev_cong) (auto intro: assms(4))
  with check_ip_in_node_decide [of a n] check_ip_in_node_decide [of b n] assms(1-3)
  show ?thesis by simp
qed

lemma ADF_IsAnyAllowed_ex:
  assumes "table_wf t"
  shows "ADF_IsAnyAllowed t f = Some (\<exists>ip. ip_family ip = f \<and> ADF_IsAllowed t ip = Some True)"
proof -
  have all: "ADF_IsAllowed t ip = Some True \<Longrightarrow> (\<exists>x. ip = IPADDR_INET4 x) \<or> (\<exists>x. ip = IPADDR_INET6 x)" for ip
    by (cases ip) (simp_all add: ADF_IsAllowed_def)
  have 4: "is_any_allowed (base4 t) AS_PARENT = Some (\<exists>x. ADF_IsAllowed t (IPADDR_INET4 x) = Some True)"
  proof -
    have "(\<exists>a. length a = 1 \<and> P a) \<longleftrightarrow> (\<exists>x. P [x])" for P :: "u32 list \<Rightarrow> bool"
      by (auto simp: length_Suc_conv)
    then show ?thesis
      using any_allowed_node [of 1 "base4 t"] assms
      by (simp add: table_wf_def ADF_IsAllowed_def)
  qed
  have 6: "is_any_allowed (base6 t) AS_PARENT = Some (\<exists>x. ADF_IsAllowed t (IPADDR_INET6 x) = Some True)"
  proof -
    have "\<exists>x. check_ip_in_node (base6 t) (split_ip6 x) = check_ip_in_node (base6 t) a" if len: "length a = 4" for a
    proof -
      obtain x where "\<forall>i < 32. nib (split_ip6 x) i = nib a i" using split_ip6_surj [OF len] by blast
      then have "check_ip_in_node (base6 t) (split_ip6 x) = check_ip_in_node (base6 t) a"
        using assms len by (intro check_ip_cong) (simp_all add: table_wf_def)
      then show ?thesis by blast
    qed
    then have "(\<exists>a. length a = 4 \<and> check_ip_in_node (base6 t) a = Some True) \<longleftrightarrow>
        (\<exists>x. check_ip_in_node (base6 t) (split_ip6 x) = Some True)"
      by (metis length_split_ip6)
    then show ?thesis
      using any_allowed_node [of 4 "base6 t"] assms
      by (simp add: table_wf_def ADF_IsAllowed_def)
  qed
  have fam: "(\<exists>ip. ip_family ip = f \<and> ADF_IsAllowed t ip = Some True) \<longleftrightarrow>
      f = 1 \<and> (\<exists>x. ADF_IsAllowed t (IPADDR_INET4 x) = Some True) \<or>
      f = 2 \<and> (\<exists>x. ADF_IsAllowed t (IPADDR_INET6 x) = Some True)"
    using all by (metis ip_family.simps(2,3))
  show ?thesis unfolding fam using 4 6 by (auto simp: ADF_IsAnyAllowed_def)
qed

lemma upd_level_commute: "k \<noteq> k' \<Longrightarrow>
    upd_level k st False (upd_level k' st' False f) = upd_level k' st' False (upd_level k st False f)"
  by (auto simp: upd_level_def fun_eq_iff)

lemma decide_upd_all:
  "k \<le> m \<Longrightarrow> st \<noteq> AS_PARENT \<Longrightarrow> decide st0 (upd_level k st True f) m = st"
proof (induction m)
  case 0
  then show ?case by (simp add: upd_level_def)
next
  case (Suc m)
  then show ?case by (cases "k = Suc m") (auto simp: upd_level_def)
qed

lemma level_in_subnet: "in_subnet net bits ip \<Longrightarrow> level (nat bits) \<le> address_levels ip"
  by (cases net; cases ip) (auto simp: in_subnet_def address_levels_def level_def)

lemma in_subnet_real: "in_subnet net bits ip \<Longrightarrow> UTI_IsIPReal ip"
  by (cases net; cases ip) (auto simp: in_subnet_def UTI_IsIPReal_def)

section \<open>Specification: the longest prefix\<close>

text \<open>
  The contract in the comments of \<open>addrfilt.h\<close>: one state per prefix length, the more specific
  subnets that are already defined are kept by \<open>ADF_Allow\<close> and \<open>ADF_Deny\<close> and overwritten by
  \<open>ADF_AllowAll\<close> and \<open>ADF_DenyAll\<close>, and the longest prefix that contains the address decides.
\<close>

fun doc_rule :: "IPAddr \<Rightarrow> adf_rule \<Rightarrow> (nat \<Rightarrow> State) \<Rightarrow> (nat \<Rightarrow> State)" where
  "doc_rule ip (op, net, bits) f =
     (if in_subnet net bits ip then upd_level (nat bits) (op_state op) (op_all op) f else f)"

definition doc_allowed :: "IPAddr \<Rightarrow> adf_rule list \<Rightarrow> bool" where
  "doc_allowed ip rules \<longleftrightarrow> UTI_IsIPReal ip \<and>
     decide DENY (fold (doc_rule ip) rules (\<lambda>b. if b = 0 then DENY else AS_PARENT))
       (4 * address_levels ip) = ALLOW"

text \<open>The prefix lengths of the rules that contain an address, and when the tree tells them apart.\<close>

definition lengths_of :: "IPAddr \<Rightarrow> adf_rule list \<Rightarrow> nat set" where
  "lengths_of ip rules = {nat bits | op net bits. (op, net, bits) \<in> set rules \<and> in_subnet net bits ip}"

definition levels_apart :: "IPAddr \<Rightarrow> adf_rule list \<Rightarrow> bool" where
  "levels_apart ip rules \<longleftrightarrow> inj_on level (lengths_of ip rules)"

definition levels_match :: "nat set \<Rightarrow> (nat \<Rightarrow> State) \<Rightarrow> (nat \<Rightarrow> State) \<Rightarrow> bool" where
  "levels_match B f g \<longleftrightarrow> (\<forall>b \<in> B. g (level b) = f b) \<and>
     (\<forall>b. b \<notin> B \<longrightarrow> f b = AS_PARENT) \<and> (\<forall>l. l \<notin> level ` B \<longrightarrow> g l = AS_PARENT)"

lemma level_mono: "b \<le> b' \<Longrightarrow> level b \<le> level b'"
  by (simp add: level_def div_le_mono)

lemma level_eq_0 [simp]: "level b = 0 \<longleftrightarrow> b = 0"
  by (auto simp: level_def)

lemma level_less:
  assumes "inj_on level B" "b \<in> B" "b' \<in> B"
  shows "level b < level b' \<longleftrightarrow> b < b'"
proof
  show "level b < level b' \<Longrightarrow> b < b'" using level_mono [of b' b] by (rule_tac ccontr) simp
  assume "b < b'"
  then have "level b \<le> level b'" "level b \<noteq> level b'"
    using level_mono [of b b'] inj_onD [OF assms(1) _ assms(2,3)] by auto
  then show "level b < level b'" by simp
qed

lemma levels_match_upd:
  assumes "inj_on level B" "k \<in> B" "levels_match B f g"
  shows "levels_match B (upd_level k st del f) (upd_level (level k) st del g)"
proof -
  have "level b = level k \<longleftrightarrow> b = k" if "b \<in> B" for b
    using assms(1,2) that by (auto dest: inj_onD)
  then show ?thesis
    using assms(2,3) level_less [OF assms(1,2)]
    by (auto simp: levels_match_def upd_level_def)
qed

lemma levels_match_fold:
  assumes "inj_on level B" "lengths_of ip rules \<subseteq> B" "levels_match B f g"
  shows "levels_match B (fold (doc_rule ip) rules f) (fold (spec_rule ip) rules g)"
  using assms(2,3)
proof (induction rules arbitrary: f g)
  case (Cons r rules)
  obtain op net bits where r: "r = (op, net, bits)" by (cases r)
  have sub: "lengths_of ip rules \<subseteq> B" and k: "in_subnet net bits ip \<Longrightarrow> nat bits \<in> B"
    using Cons.prems(1) r by (auto simp: lengths_of_def)
  have "levels_match B (doc_rule ip r f) (spec_rule ip r g)"
    using Cons.prems(2) r levels_match_upd [OF assms(1) k] by simp
  then show ?case using Cons.IH [OF sub] by simp
qed simp

lemma decide_top:
  assumes "b \<le> m" "f b \<noteq> AS_PARENT" "\<And>b'. b < b' \<Longrightarrow> b' \<le> m \<Longrightarrow> f b' = AS_PARENT"
  shows "decide st f m = f b"
  using assms
proof (induction m)
  case (Suc m)
  then show ?case by (cases "b = Suc m") auto
qed simp

lemma decide_levels_match:
  assumes "inj_on level B" "levels_match B f g" "f 0 \<noteq> AS_PARENT" "\<forall>b \<in> B. b \<le> 4 * n"
  shows "decide st f (4 * n) = decide st g n"
proof -
  have fin: "finite {b. b \<le> 4 * n \<and> f b \<noteq> AS_PARENT}" by simp
  define b where "b = Max {b. b \<le> 4 * n \<and> f b \<noteq> AS_PARENT}"
  have b: "b \<le> 4 * n" "f b \<noteq> AS_PARENT"
    using Max_in [OF fin] assms(3) unfolding b_def by blast+
  have top: "f b' = AS_PARENT" if "b < b'" "b' \<le> 4 * n" for b'
    using Max_ge [OF fin, of b'] that leD unfolding b_def by blast
  have B: "b \<in> B" using b(2) assms(2) by (auto simp: levels_match_def)
  have "decide st g n = g (level b)"
  proof (rule decide_top)
    show "level b \<le> n" using b(1) by (simp add: level_def)
    show "g (level b) \<noteq> AS_PARENT" using assms(2) b(2) B by (simp add: levels_match_def)
    fix l assume l: "level b < l"
    show "g l = AS_PARENT"
    proof (cases "l \<in> level ` B")
      case True
      then obtain b' where "b' \<in> B" "l = level b'" by blast
      then show ?thesis
        using assms(2,4) l top [of b'] level_less [OF assms(1) B] by (simp add: levels_match_def)
    qed (use assms(2) in \<open>simp add: levels_match_def\<close>)
  qed
  also have "\<dots> = f b" using assms(2) B by (simp add: levels_match_def)
  also have "\<dots> = decide st f (4 * n)" using b top by (intro decide_top [symmetric])
  finally show ?thesis by simp
qed

lemma doc_rule_0: "f 0 \<noteq> AS_PARENT \<Longrightarrow> fold (doc_rule ip) rules f 0 \<noteq> AS_PARENT"
proof (induction rules arbitrary: f)
  case (Cons r rules)
  have "doc_rule ip r f 0 \<noteq> AS_PARENT"
    using Cons.prems upd_level_state0 [OF op_state_not_parent] by (cases r) simp
  then show ?case using Cons.IH by simp
qed simp

lemma in_subnet_bits: "in_subnet net bits ip \<Longrightarrow> nat bits \<le> 4 * address_levels ip"
  by (cases net; cases ip) (auto simp: in_subnet_def address_levels_def)

lemma doc_allowed_spec:
  assumes "levels_apart ip rules"
  shows "doc_allowed ip rules = spec_allowed ip rules"
proof -
  let ?B = "insert 0 (lengths_of ip rules)" and ?f = "\<lambda>b::nat. if b = 0 then DENY else AS_PARENT"
  have inj: "inj_on level ?B"
    using assms level_eq_0 by (simp add: levels_apart_def image_iff level_def [of 0])
  have "levels_match ?B ?f ?f" by (auto simp: levels_match_def)
  then have "levels_match ?B (fold (doc_rule ip) rules ?f) (spec_levels ip rules)"
    unfolding spec_levels_def by (rule levels_match_fold [OF inj subset_insertI])
  moreover have "\<forall>b \<in> ?B. b \<le> 4 * address_levels ip"
    using in_subnet_bits by (auto simp: lengths_of_def)
  ultimately show ?thesis
    using decide_levels_match [OF inj] doc_rule_0 [of ?f]
    by (simp add: doc_allowed_def spec_allowed_def)
qed

lemma levels_below:
  assumes "\<forall>b \<in> lengths_of ip rules. b \<le> m" "\<forall>b > m. f b = AS_PARENT"
  shows "\<forall>b > m. fold (doc_rule ip) rules f b = AS_PARENT"
  using assms
proof (induction rules arbitrary: f)
  case (Cons r rules)
  obtain op net bits where r: "r = (op, net, bits)" by (cases r)
  have le: "in_subnet net bits ip \<Longrightarrow> nat bits \<le> m" "\<forall>b \<in> lengths_of ip rules. b \<le> m"
    using Cons.prems(1) r by (auto simp: lengths_of_def)
  then have "\<forall>b > m. doc_rule ip r f b = AS_PARENT"
    using Cons.prems(2) r by (auto simp: upd_level_def)
  then show ?case using Cons.IH le(2) by simp
qed simp

lemma spec_levels_below:
  assumes "\<forall>b \<in> lengths_of ip rules. level b \<le> m" "\<forall>b > m. f b = AS_PARENT"
  shows "\<forall>b > m. fold (spec_rule ip) rules f b = AS_PARENT"
  using assms
proof (induction rules arbitrary: f)
  case (Cons r rules)
  obtain op net bits where r: "r = (op, net, bits)" by (cases r)
  have le: "in_subnet net bits ip \<Longrightarrow> level (nat bits) \<le> m" "\<forall>b \<in> lengths_of ip rules. level b \<le> m"
    using Cons.prems(1) r by (auto simp: lengths_of_def)
  then have "\<forall>b > m. spec_rule ip r f b = AS_PARENT"
    using Cons.prems(2) r by (auto simp: upd_level_def)
  then show ?case using Cons.IH le(2) by simp
qed simp

section \<open>Properties\<close>

text \<open>
  C3.  The access-control tree implements the history of its rules: from an empty table every
  sequence of ADF_Allow, ADF_AllowAll, ADF_Deny and ADF_DenyAll calls (valid or not) returns
  without a failed assertion or a read outside the address or a table, and ADF_IsAllowed then
  answers, for every address, what the rules that contain the address say: the state at the
  deepest four-bit level at which one of them left one, deny by default.  When no two of these
  rules with different prefix lengths end at the same level, for example when all prefix
  lengths are multiples of four, the answer is that of the contract in addrfilt.h: the longest
  prefix decides, and a later ADF_Allow or ADF_Deny of a larger subnet keeps it.  Otherwise a
  later rule of a larger subnet that ends at the same level overwrites it, as chrony.conf.adoc
  says and the comments in addrfilt.h do not.
\<close>

theorem adf_implements_rules:
  "\<exists>t. adf_run rules ADF_CreateTable = Some t \<and>
     (\<forall>ip. ADF_IsAllowed t ip = Some (spec_allowed ip rules) \<and>
        (levels_apart ip rules \<longrightarrow> ADF_IsAllowed t ip = Some (doc_allowed ip rules)))"
proof -
  obtain t where t: "adf_run rules ADF_CreateTable = Some t"
    "\<And>ip. ADF_IsAllowed t ip = Some (spec_allowed ip rules)"
    using adf_run_create [of rules] ADF_IsAllowed_levels by (fastforce simp: spec_allowed_def)
  then show ?thesis using doc_allowed_spec by auto
qed

theorem adf_implements_rules_witness:
  "\<exists>t. adf_run [(Deny, IPADDR_INET4 0x0A000000, 8), (Allow, IPADDR_INET4 0x0A000000, 4)] ADF_CreateTable
       = Some t \<and> ADF_IsAllowed t (IPADDR_INET4 0x0A010203) = Some False \<and>
     levels_apart (IPADDR_INET4 0x0A010203)
       [(Deny, IPADDR_INET4 0x0A000000, 8), (Allow, IPADDR_INET4 0x0A000000, 4)]"
proof -
  let ?ip = "IPADDR_INET4 0x0A010203"
  let ?rules = "[(Deny, IPADDR_INET4 0x0A000000, 8), (Allow, IPADDR_INET4 0x0A000000, 4)]"
  have "lengths_of ?ip ?rules \<subseteq> {8, 4}" by (auto simp: lengths_of_def)
  moreover have "inj_on level {8, 4}" by (simp add: level_def)
  ultimately have ap: "levels_apart ?ip ?rules"
    unfolding levels_apart_def by (rule inj_on_subset [rotated])
  have doc: "\<not> doc_allowed ?ip ?rules" by code_simp
  show ?thesis
    using adf_implements_rules [of ?rules] ap doc by auto
qed

text \<open>
  C25.  Where the tree departs from the contract in addrfilt.h: after any history of rules
  without a longer prefix for the address, a rule for a subnet followed by a plain ADF_Allow or
  ADF_Deny of a larger subnet whose prefix ends at the same four-bit level leaves the address
  with the decision of the larger subnet, while the contract says that the more specific
  subnet, which was already defined, decides.
\<close>

theorem adf_same_level:
  assumes "in_subnet net1 b1 ip" "in_subnet net2 b2 ip" "b1 < b2" "level (nat b1) = level (nat b2)"
    and "\<forall>b \<in> lengths_of ip rules. b \<le> nat b2" "\<not> op_all op1"
  shows "\<exists>t. adf_run (rules @ [(op2, net2, b2), (op1, net1, b1)]) ADF_CreateTable = Some t \<and>
      ADF_IsAllowed t ip = Some (op_state op1 = ALLOW) \<and>
      doc_allowed ip (rules @ [(op2, net2, b2), (op1, net1, b1)]) = (op_state op2 = ALLOW)"
proof -
  let ?rs = "rules @ [(op2, net2, b2), (op1, net1, b1)]" and ?k = "level (nat b2)"
  let ?f = "\<lambda>b::nat. if b = 0 then DENY else AS_PARENT"
  have b1: "0 \<le> b1" using assms(1) by (auto simp: in_subnet_def split: IPAddr.splits)
  have "\<forall>l > ?k. fold (spec_rule ip) rules ?f l = AS_PARENT"
    using assms(5) level_mono by (intro spec_levels_below) auto
  then have "decide DENY (spec_levels ip ?rs) (address_levels ip) = spec_levels ip ?rs ?k"
    using assms(1,2,4) level_in_subnet [OF assms(2)] op_state_not_parent
    by (intro decide_top) (auto simp: spec_levels_def upd_level_def)
  moreover have "spec_levels ip ?rs ?k = op_state op1"
    using assms(1,4) by (simp add: spec_levels_def upd_level_def)
  ultimately have code: "spec_allowed ip ?rs \<longleftrightarrow> op_state op1 = ALLOW"
    using in_subnet_real [OF assms(1)] by (simp add: spec_allowed_def)
  let ?d = "fold (doc_rule ip) ?rs ?f"
  have "\<forall>b > nat b2. fold (doc_rule ip) rules ?f b = AS_PARENT"
    using assms(5) by (intro levels_below) auto
  then have "decide DENY ?d (4 * address_levels ip) = ?d (nat b2)"
    using assms(1,2,3,6) b1 in_subnet_bits [OF assms(2)] op_state_not_parent
    by (intro decide_top) (auto simp: upd_level_def)
  moreover have "?d (nat b2) = op_state op2"
    using assms(1,2,3,6) b1 by (auto simp: upd_level_def)
  ultimately have doc: "doc_allowed ip ?rs \<longleftrightarrow> op_state op2 = ALLOW"
    using in_subnet_real [OF assms(1)] by (simp only: doc_allowed_def simp_thms)
  obtain t where "adf_run ?rs ADF_CreateTable = Some t" "table_wf t" "table_levels t ip = spec_levels ip ?rs"
    using adf_run_create [of ?rs] by auto
  then have "ADF_IsAllowed t ip = Some (op_state op1 = ALLOW)"
    using code ADF_IsAllowed_levels [of t ip] by (simp add: spec_allowed_def)
  then show ?thesis using \<open>adf_run ?rs ADF_CreateTable = Some t\<close> doc by blast
qed

theorem adf_same_level_witness:
  "\<exists>t. adf_run ([] @ [(Deny, IPADDR_INET4 0x0A000000, 8), (Allow, IPADDR_INET4 0x08000000, 5)])
       ADF_CreateTable = Some t \<and>
     ADF_IsAllowed t (IPADDR_INET4 0x0A010203) = Some (op_state Allow = ALLOW) \<and>
     doc_allowed (IPADDR_INET4 0x0A010203)
       ([] @ [(Deny, IPADDR_INET4 0x0A000000, 8), (Allow, IPADDR_INET4 0x08000000, 5)]) =
       (op_state Deny = ALLOW)"
proof (rule adf_same_level)
  show "in_subnet (IPADDR_INET4 0x08000000) 5 (IPADDR_INET4 0x0A010203)" by code_simp
  show "in_subnet (IPADDR_INET4 0x0A000000) 8 (IPADDR_INET4 0x0A010203)" by code_simp
qed (simp_all add: level_def lengths_of_def)

text \<open>
  C24.  ADF_AllowAll and ADF_DenyAll override everything the table says inside the subnet and
  change no decision outside it, after any history of rules.
\<close>

theorem adf_all_overrides:
  assumes "adf_run rules ADF_CreateTable = Some t" "op = AllowAll \<or> op = DenyAll"
    and "adf_apply (op, net, bits) t = Some (s, t')"
  shows "ADF_IsAllowed t' ip =
    (if in_subnet net bits ip then Some (op = AllowAll) else ADF_IsAllowed t ip)"
proof -
  have wf: "table_wf t" and lv: "table_levels t ip = spec_levels ip rules"
    using adf_run_create [of rules] assms(1) by auto
  have "table_wf t' \<and> table_levels t' ip = spec_rule ip (op, net, bits) (table_levels t ip)"
    using adf.step_refines [OF wf, of "(op, net, bits)"] assms(3) by auto
  then show ?thesis
    using assms(2) wf decide_upd_all [OF level_in_subnet] in_subnet_real
    by (auto simp: ADF_IsAllowed_levels)
qed

theorem adf_all_overrides_witness:
  "ADF_IsAllowed (snd (the (adf_apply (AllowAll, IPADDR_INET4 0x0A000000, 8) ADF_CreateTable)))
     (IPADDR_INET4 0x0A010203) = Some True"
proof -
  let ?r = "the (adf_apply (AllowAll, IPADDR_INET4 0x0A000000, 8) ADF_CreateTable)"
  obtain s t' where st: "adf_apply (AllowAll, IPADDR_INET4 0x0A000000, 8) ADF_CreateTable = Some (s, t')"
    using adf.step_refines [OF table_wf_create] by blast
  have "ADF_IsAllowed t' (IPADDR_INET4 0x0A010203) =
      (if in_subnet (IPADDR_INET4 0x0A000000) 8 (IPADDR_INET4 0x0A010203) then Some (AllowAll = AllowAll)
       else ADF_IsAllowed ADF_CreateTable (IPADDR_INET4 0x0A010203))"
    by (rule adf_all_overrides [of "[]", OF _ _ st]) simp_all
  moreover have "in_subnet (IPADDR_INET4 0x0A000000) 8 (IPADDR_INET4 0x0A010203)"
    by code_simp
  ultimately show ?thesis using st by simp
qed

text \<open>
  The order of two plain allow or deny rules does not matter when their prefixes end at
  different levels of the tree, at any place of the configuration.
\<close>

lemma adf_order_irrelevant:
  assumes "level (nat b1) \<noteq> level (nat b2)" "\<not> op_all op1" "\<not> op_all op2"
  shows "spec_allowed ip (rs @ [(op1, net1, b1), (op2, net2, b2)] @ rs') =
         spec_allowed ip (rs @ [(op2, net2, b2), (op1, net1, b1)] @ rs')"
  using assms upd_level_commute [OF assms(1)]
  by (simp add: spec_allowed_def spec_levels_def)

text \<open>
  ADF_IsAnyAllowed tells, after any history of rules, whether at least one address of the
  family is allowed.
\<close>

theorem adf_any_allowed:
  assumes "adf_run rules ADF_CreateTable = Some t"
  shows "ADF_IsAnyAllowed t f = Some (\<exists>ip. ip_family ip = f \<and> ADF_IsAllowed t ip = Some True)"
  using adf_run_create [of rules] assms ADF_IsAnyAllowed_ex by auto

theorem adf_any_allowed_witness:
  "ADF_IsAnyAllowed ADF_CreateTable 1 =
     Some (\<exists>ip. ip_family ip = 1 \<and> ADF_IsAllowed ADF_CreateTable ip = Some True)"
  by (rule adf_any_allowed [of "[]"]) simp

text \<open>
  A rule is accepted exactly when its prefix length fits its address family, and a refused
  rule leaves the table as it was.
\<close>

theorem adf_status:
  assumes "adf_run rules ADF_CreateTable = Some t"
  shows "\<exists>s t'. adf_apply (op, net, bits) t = Some (s, t') \<and>
    (s = ADF_SUCCESS \<longleftrightarrow> valid_subnet net bits) \<and> (s = ADF_BADSUBNET \<longrightarrow> t' = t)"
proof -
  have "table_wf t" using adf_run_create [of rules] assms by auto
  from set_subnet_table_refines [OF this op_state_not_parent [of op], of net bits "op_all op"]
  show ?thesis unfolding adf_apply_set_subnet by blast
qed

theorem adf_status_witness:
  "\<exists>s t'. adf_apply (Deny, IPADDR_INET4 0, 33) ADF_CreateTable = Some (s, t') \<and>
    (s = ADF_SUCCESS \<longleftrightarrow> valid_subnet (IPADDR_INET4 0) 33) \<and> (s = ADF_BADSUBNET \<longrightarrow> t' = ADF_CreateTable)"
  by (rule adf_status [of "[]"]) simp

end
