(* ===== verification/Memory.thy ===== *)
theory Memory
  imports Prelude
begin

text \<open>
  The allocation wrappers of \<open>memory.c\<close>.  The allocator of the C library is a parameter: it
  returns a block or \<open>None\<close> (\<open>NULL\<close>).  The outer \<open>option\<close> of a result is \<open>None\<close> when the
  wrapper ends the process with LOG_FATAL.
\<close>

definition Malloc :: "(u64 \<Rightarrow> 'p option) \<Rightarrow> u64 \<Rightarrow> 'p option option" where
  "Malloc malloc sz =
     (let r = malloc sz in if r = None \<and> sz \<noteq> 0 then None else Some r)"

definition Realloc :: "('p option \<Rightarrow> u64 \<Rightarrow> 'p option) \<Rightarrow> 'p option \<Rightarrow> u64 \<Rightarrow> 'p option option" where
  "Realloc realloc ptr sz =
     (if sz = 0 then Some None
      else let r = realloc ptr sz in if r = None then None else Some r)"

definition get_array_size :: "u64 \<Rightarrow> u64 \<Rightarrow> u64 option" where
  "get_array_size nmemb sz =
     (let array_size = nmemb * sz in
      if nmemb > 0 \<and> array_size div nmemb \<noteq> sz then None else Some array_size)"

definition Malloc2 :: "(u64 \<Rightarrow> 'p option) \<Rightarrow> u64 \<Rightarrow> u64 \<Rightarrow> 'p option option" where
  "Malloc2 malloc nmemb sz = Option.bind (get_array_size nmemb sz) (Malloc malloc)"

definition Realloc2 :: "('p option \<Rightarrow> u64 \<Rightarrow> 'p option) \<Rightarrow> 'p option \<Rightarrow> u64 \<Rightarrow> u64 \<Rightarrow> 'p option option" where
  "Realloc2 realloc ptr nmemb sz = Option.bind (get_array_size nmemb sz) (Realloc realloc ptr)"

lemma get_array_size_eq:
  "get_array_size nmemb sz =
     (if unat nmemb * unat sz < 2 ^ 64 then Some (of_nat (unat nmemb * unat sz)) else None)"
proof (cases "unat nmemb * unat sz < 2 ^ 64")
  case True
  then have p: "unat (nmemb * sz) = unat nmemb * unat sz"
    by (simp add: unat_word_ariths)
  have "nmemb * sz div nmemb = sz" if "nmemb > 0"
  proof (rule word_unat_eq_iff [THEN iffD2])
    show "unat (nmemb * sz div nmemb) = unat sz"
      using that p by (simp add: unat_div_distrib word_less_nat_alt)
  qed
  with True show ?thesis
    by (simp add: get_array_size_def Let_def p [symmetric])
next
  case False
  then have z: "unat nmemb > 0" by (cases "unat nmemb") auto
  let ?q = "unat (nmemb * sz) div unat nmemb"
  have "unat (nmemb * sz) < unat nmemb * unat sz"
    using False by (simp add: unat_word_ariths)
  then have "?q < unat sz"
    using z by (simp add: div_less_iff_less_mult mult.commute)
  then have "nmemb * sz div nmemb \<noteq> sz"
    by (metis less_irrefl_nat unat_div_distrib)
  moreover have "nmemb > 0" using z by (simp add: word_less_nat_alt)
  ultimately show ?thesis using False by (simp add: get_array_size_def Let_def)
qed

section \<open>Properties\<close>

text \<open>
  The overflow check of array allocations is exact: a size is returned exactly when the
  product of the element count and the element size fits in a size_t, and it is that product.
\<close>

theorem get_array_size_exact:
  "get_array_size nmemb sz =
     (if unat nmemb * unat sz < 2 ^ 64 then Some (of_nat (unat nmemb * unat sz)) else None)"
  by (rule get_array_size_eq)

end
