(* ===== verification/Arrays.thy ===== *)
theory Arrays
  imports Memory
begin

text \<open>
  The dynamic array of \<open>array.c\<close>.  The data block is its list of element cells, \<open>None\<close> for a cell
  that was never written; \<open>NULL\<close> is the absent block.  The counters are natural numbers with
  the 32-bit wrap-around written out.  A pointer returned by the code is the index of the
  element.  \<open>ok\<close> says which requests the allocator of the C library can satisfy.
\<close>

section \<open>Operations\<close>

record 'e ARR_Instance =
  arr_data :: "'e option list option"
  elem_size :: nat
  used :: nat
  allocated :: nat

definition ARR_CreateInstance :: "nat \<Rightarrow> 'e ARR_Instance option" where
  "ARR_CreateInstance sz =
     (if 0 < sz then Some \<lparr>arr_data = None, elem_size = sz, used = 0, allocated = 0\<rparr> else None)"

text \<open>\<open>realloc\<close> keeps the cells both blocks have; new cells are not initialised.\<close>

definition cells_realloc ::
    "(u64 \<Rightarrow> bool) \<Rightarrow> nat \<Rightarrow> 'e option list option \<Rightarrow> u64 \<Rightarrow> 'e option list option" where
  "cells_realloc ok sz ptr bytes =
     (if ok bytes then
        let n = unat bytes div sz; old = (case ptr of None \<Rightarrow> [] | Some b \<Rightarrow> b) in
        Some (take n old @ replicate (n - length old) None)
      else None)"

text \<open>The loop that doubles \<open>allocated\<close>, an unsigned int.\<close>

partial_function (option) grow_loop :: "nat \<Rightarrow> nat \<Rightarrow> nat option" where
  "grow_loop n min_size =
     (if n < min_size then grow_loop (if n \<noteq> 0 then 2 * n mod 2 ^ 32 else 1) min_size else Some n)"

definition realloc_array :: "(u64 \<Rightarrow> bool) \<Rightarrow> 'e ARR_Instance \<Rightarrow> nat \<Rightarrow> 'e ARR_Instance option" where
  "realloc_array ok array min_size =
     (if \<not> min_size \<le> 2 * min_size mod 2 ^ 32 then None
      else if allocated array \<ge> min_size \<and> allocated array \<le> 2 * min_size mod 2 ^ 32 then Some array
      else do {
        n \<leftarrow> (if allocated array < min_size then grow_loop (allocated array) min_size
              else Some min_size);
        d \<leftarrow> Realloc2 (cells_realloc ok (elem_size array)) (arr_data array)
               (of_nat n) (of_nat (elem_size array));
        Some (array\<lparr>allocated := n, arr_data := d\<rparr>) })"

definition ARR_GetElement :: "'e ARR_Instance \<Rightarrow> nat \<Rightarrow> nat option" where
  "ARR_GetElement array index = (if index < used array then Some index else None)"

definition ARR_GetNewElement :: "(u64 \<Rightarrow> bool) \<Rightarrow> 'e ARR_Instance \<Rightarrow> (nat \<times> 'e ARR_Instance) option" where
  "ARR_GetNewElement ok array = do {
     let array = array\<lparr>used := (used array + 1) mod 2 ^ 32\<rparr>;
     array \<leftarrow> realloc_array ok array (used array);
     i \<leftarrow> ARR_GetElement array ((used array + 2 ^ 32 - 1) mod 2 ^ 32);
     Some (i, array) }"

definition ARR_GetElements :: "'e ARR_Instance \<Rightarrow> 'e option list option" where
  "ARR_GetElements array = (case arr_data array of
     None \<Rightarrow> if used array = 0 then Some [] else None
   | Some d \<Rightarrow> Some d)"

text \<open>Writing an element through its pointer.\<close>

definition write_cell :: "'e ARR_Instance \<Rightarrow> nat \<Rightarrow> 'e \<Rightarrow> 'e ARR_Instance option" where
  "write_cell array i e = (case arr_data array of
     None \<Rightarrow> None
   | Some d \<Rightarrow> if i < length d then Some (array\<lparr>arr_data := Some (d[i := Some e])\<rparr>) else None)"

definition ARR_AppendElement :: "(u64 \<Rightarrow> bool) \<Rightarrow> 'e ARR_Instance \<Rightarrow> 'e \<Rightarrow> 'e ARR_Instance option" where
  "ARR_AppendElement ok array element = do {
     (e, array) \<leftarrow> ARR_GetNewElement ok array;
     write_cell array e element }"

definition ARR_RemoveElement :: "(u64 \<Rightarrow> bool) \<Rightarrow> 'e ARR_Instance \<Rightarrow> nat \<Rightarrow> 'e ARR_Instance option" where
  "ARR_RemoveElement ok array index = do {
     e \<leftarrow> ARR_GetElement array index;
     l \<leftarrow> ARR_GetElement array ((used array + 2 ^ 32 - 1) mod 2 ^ 32);
     let array = (if e < l then
           array\<lparr>arr_data := map_option (\<lambda>d. memcpy d e (take (l - e) (drop (e + 1) d))) (arr_data array)\<rparr>
         else array);
     let array = array\<lparr>used := (used array + 2 ^ 32 - 1) mod 2 ^ 32\<rparr>;
     realloc_array ok array (used array) }"

definition ARR_SetSize :: "(u64 \<Rightarrow> bool) \<Rightarrow> 'e ARR_Instance \<Rightarrow> nat \<Rightarrow> 'e ARR_Instance option" where
  "ARR_SetSize ok array n = do {
     array \<leftarrow> realloc_array ok array n;
     Some (array\<lparr>used := n\<rparr>) }"

definition ARR_GetSize :: "'e ARR_Instance \<Rightarrow> nat" where
  "ARR_GetSize array = used array"

section \<open>Invariant and abstraction\<close>

definition arr_cells :: "'e ARR_Instance \<Rightarrow> 'e option list" where
  "arr_cells a = (case arr_data a of None \<Rightarrow> [] | Some d \<Rightarrow> d)"

lemma arr_cells_used [simp]: "arr_cells (a\<lparr>used := u\<rparr>) = arr_cells a"
  by (simp add: arr_cells_def)

lemma arr_data_same: "arr_data a = Some d \<Longrightarrow> a\<lparr>arr_data := Some d\<rparr> = a"
  by (cases a) simp

definition arr_inv :: "'e ARR_Instance \<Rightarrow> bool" where
  "arr_inv a \<longleftrightarrow> 0 < elem_size a \<and> elem_size a < 2 ^ 32 \<and> used a \<le> allocated a \<and>
     allocated a \<le> 2 * used a \<and> used a < 2 ^ 31 \<and> length (arr_cells a) = allocated a"

text \<open>The elements of the array, as its users see it.\<close>

definition arr_list :: "'e ARR_Instance \<Rightarrow> 'e option list" where
  "arr_list a = take (used a) (arr_cells a)"

lemma length_arr_list: "arr_inv a \<Longrightarrow> length (arr_list a) = used a"
  by (simp add: arr_inv_def arr_list_def)

text \<open>Doubling ends, without wrap-around, below twice the request.\<close>

lemma grow_loop_returns:
  assumes "min_size < 2 ^ 31" "n < min_size"
  shows "\<exists>m. grow_loop n min_size = Some m \<and> min_size \<le> m \<and> m < 2 * min_size"
  using assms
proof (induction "min_size - n" arbitrary: n rule: less_induct)
  case less
  let ?n' = "if n \<noteq> 0 then 2 * n mod 2 ^ 32 else 1"
  have n': "?n' = (if n = 0 then 1 else 2 * n)" using less.prems by simp
  show ?case
  proof (cases "?n' < min_size")
    case True
    have "\<exists>m. grow_loop ?n' min_size = Some m \<and> min_size \<le> m \<and> m < 2 * min_size"
      using less.prems True n' by (intro less.hyps) auto
    then show ?thesis using less.prems(2) by (subst grow_loop.simps) simp
  next
    case False
    then have "grow_loop ?n' min_size = Some ?n'" by (subst grow_loop.simps) simp
    then have "grow_loop n min_size = Some ?n'" using less.prems(2) by (subst grow_loop.simps) simp
    moreover have "?n' < 2 * min_size" using n' less.prems(2) by auto
    ultimately show ?thesis using False by auto
  qed
qed

text \<open>Every allocation of at most \<open>limit\<close> bytes succeeds.\<close>

definition alloc_ok :: "(u64 \<Rightarrow> bool) \<Rightarrow> nat \<Rightarrow> bool" where
  "alloc_ok ok limit \<longleftrightarrow> (\<forall>b. unat b \<le> limit \<longrightarrow> ok b)"

lemma Realloc2_cells:
  assumes "0 < sz" "sz < 2 ^ 32" "n < 2 ^ 32" "ok (of_nat (n * sz))"
  shows "\<exists>d. Realloc2 (cells_realloc ok sz) ptr (of_nat n) (of_nat sz) = Some d \<and>
    (case d of None \<Rightarrow> [] | Some b \<Rightarrow> b) =
      (let old = (case ptr of None \<Rightarrow> [] | Some b \<Rightarrow> b) in take n old @ replicate (n - length old) None)"
proof -
  have lt: "n * sz < 2 ^ 64"
  proof -
    have "n * sz \<le> 2 ^ 32 * sz" using assms(3) by simp
    also have "\<dots> < 2 ^ 32 * 2 ^ 32" using assms(2) by (intro mult_strict_left_mono) simp_all
    finally show ?thesis by simp
  qed
  have un: "unat (of_nat n :: u64) = n" "unat (of_nat sz :: u64) = sz"
    using assms by (simp_all add: unat_of_nat)
  have ub: "unat (of_nat (n * sz) :: u64) = n * sz"
    using lt by (simp only: unat_of_nat) simp
  have z: "(of_nat (n * sz) :: u64) = 0 \<longleftrightarrow> n = 0"
    using ub assms(1) by (metis mult_eq_0_iff of_nat_0 not_gr_zero unat_0)
  have "get_array_size (of_nat n) (of_nat sz) = Some (of_nat (n * sz))"
    using lt by (simp add: get_array_size_eq un)
  then show ?thesis
    using assms(1,4) ub z
    by (auto simp: Realloc2_def Realloc_def cells_realloc_def Let_def)
qed

text \<open>
  The heart of the module: after \<open>realloc_array\<close> the array has room for \<open>n\<close> elements, at most
  twice that, and its first cells are the old ones.
\<close>

lemma realloc_array_cells:
  assumes "0 < elem_size a" "elem_size a < 2 ^ 32" "length (arr_cells a) = allocated a" "n < 2 ^ 31"
    "alloc_ok ok (2 * n * elem_size a)"
  shows "\<exists>a'. realloc_array ok a n = Some a' \<and> elem_size a' = elem_size a \<and> used a' = used a \<and>
    n \<le> allocated a' \<and> allocated a' \<le> 2 * n \<and> length (arr_cells a') = allocated a' \<and>
    take n (arr_cells a') = take n (arr_cells a) @ replicate (n - allocated a) None"
proof (cases "allocated a \<ge> n \<and> allocated a \<le> 2 * n")
  case True
  then show ?thesis using assms by (auto simp: realloc_array_def)
next
  case False
  obtain m where m: "(if allocated a < n then grow_loop (allocated a) n else Some n) = Some m"
      "n \<le> m" "m \<le> 2 * n" "allocated a < n \<or> m = n"
    using grow_loop_returns [OF assms(4), of "allocated a"] by (cases "allocated a < n") auto
  have ok: "ok (of_nat (m * elem_size a))"
  proof -
    have "m * elem_size a \<le> 2 * n * elem_size a" using m(3) by simp
    then have "unat (of_nat (m * elem_size a) :: u64) \<le> 2 * n * elem_size a"
      by (simp only: unat_of_nat) (meson mod_less_eq_dividend order_trans)
    then show ?thesis using assms(5) unfolding alloc_ok_def by blast
  qed
  obtain d where d: "Realloc2 (cells_realloc ok (elem_size a)) (arr_data a) (of_nat m) (of_nat (elem_size a)) = Some d"
      "(case d of None \<Rightarrow> [] | Some b \<Rightarrow> b) = take m (arr_cells a) @ replicate (m - allocated a) None"
    using Realloc2_cells [of "elem_size a" m ok "arr_data a"] assms m ok
    by (auto simp: Let_def arr_cells_def)
  let ?a' = "a\<lparr>allocated := m, arr_data := d\<rparr>"
  have "realloc_array ok a n = Some ?a'"
    using False assms(4) m(1) d(1) by (auto simp: realloc_array_def)
  moreover have "arr_cells ?a' = take m (arr_cells a) @ replicate (m - allocated a) None"
    using d(2) by (simp add: arr_cells_def)
  ultimately show ?thesis using m assms(3)
    by (intro exI [of _ ?a']) (auto simp: min_def)
qed

section \<open>The growable array interface\<close>

text \<open>
  What the users of an array rely on: the elements are a list, appending, removing and resizing
  act on the list, and the operations return while \<open>room a n\<close> says that \<open>n\<close> elements fit.
\<close>

locale growable_array =
  fixes inv :: "'a \<Rightarrow> bool"
    and list :: "'a \<Rightarrow> 'e option list"
    and room :: "'a \<Rightarrow> nat \<Rightarrow> bool"
    and append :: "'a \<Rightarrow> 'e \<Rightarrow> 'a option"
    and remove :: "'a \<Rightarrow> nat \<Rightarrow> 'a option"
    and set_size :: "'a \<Rightarrow> nat \<Rightarrow> 'a option"
  assumes append: "inv a \<Longrightarrow> room a (length (list a) + 1) \<Longrightarrow>
      \<exists>a'. append a x = Some a' \<and> inv a' \<and> list a' = list a @ [Some x] \<and> (\<forall>n. room a' n = room a n)"
    and remove: "inv a \<Longrightarrow> room a (length (list a)) \<Longrightarrow> i < length (list a) \<Longrightarrow>
      \<exists>a'. remove a i = Some a' \<and> inv a' \<and> list a' = take i (list a) @ drop (i + 1) (list a) \<and>
        (\<forall>n. room a' n = room a n)"
    and set_size: "inv a \<Longrightarrow> room a n \<Longrightarrow>
      \<exists>a'. set_size a n = Some a' \<and> inv a' \<and> length (list a') = n \<and>
        take (length (list a)) (list a') = take n (list a) \<and> (\<forall>n. room a' n = room a n)"
    and room_le: "room a n \<Longrightarrow> m \<le> n \<Longrightarrow> room a m"
begin

text \<open>Appending a whole list, one element at a time.\<close>

fun append_all :: "'a \<Rightarrow> 'e list \<Rightarrow> 'a option" where
  "append_all a [] = Some a"
| "append_all a (x # xs) = Option.bind (append a x) (\<lambda>a. append_all a xs)"

lemma append_all:
  "inv a \<Longrightarrow> room a (length (list a) + length xs) \<Longrightarrow>
    \<exists>a'. append_all a xs = Some a' \<and> inv a' \<and> list a' = list a @ map Some xs \<and> (\<forall>n. room a' n = room a n)"
proof (induction xs arbitrary: a)
  case Nil
  then show ?case by auto
next
  case (Cons x xs)
  have "room a (length (list a) + 1)" using room_le [OF Cons.prems(2)] by simp
  from append [OF Cons.prems(1) this, of x] obtain b where b: "append a x = Some b" "inv b"
      "list b = list a @ [Some x]" "\<forall>n. room b n = room a n" by blast
  have "room b (length (list b) + length xs)" using Cons.prems(2) b by simp
  from Cons.IH [OF b(2) this] b show ?case by auto
qed

end

text \<open>\<open>ok\<close> grants every block of up to twice \<open>n\<close> elements.\<close>

definition arr_room :: "(u64 \<Rightarrow> bool) \<Rightarrow> 'e ARR_Instance \<Rightarrow> nat \<Rightarrow> bool" where
  "arr_room ok a n \<longleftrightarrow> n < 2 ^ 31 \<and> alloc_ok ok (2 * n * elem_size a)"

lemma alloc_ok_mono: "alloc_ok ok m \<Longrightarrow> n \<le> m \<Longrightarrow> alloc_ok ok n"
  by (auto simp: alloc_ok_def)

lemma arr_room_mono: "arr_room ok a n \<Longrightarrow> m \<le> n \<Longrightarrow> arr_room ok a m"
  unfolding arr_room_def by (auto elim!: alloc_ok_mono intro!: mult_le_mono1)

lemma wrap_pred: "0 < n \<Longrightarrow> n < 2 ^ 32 \<Longrightarrow> (n + 2 ^ 32 - 1) mod 2 ^ 32 = n - (1::nat)"
proof -
  assume a: "0 < n" "n < (2::nat) ^ 32"
  then have "n + 2 ^ 32 - 1 = (n - 1) + 2 ^ 32" by simp
  with a show ?thesis by (simp only: mod_add_self2) simp
qed

lemma ARR_AppendElement_list:
  assumes "arr_inv a" "arr_room ok a (used a + 1)"
  shows "\<exists>a'. ARR_AppendElement ok a x = Some a' \<and> arr_inv a' \<and> arr_list a' = arr_list a @ [Some x] \<and>
    elem_size a' = elem_size a"
proof -
  let ?u = "used a + 1"
  let ?b = "a\<lparr>used := ?u\<rparr>"
  have u: "?u < 2 ^ 31" using assms(2) by (simp add: arr_room_def)
  obtain c where c: "realloc_array ok ?b ?u = Some c" "elem_size c = elem_size a" "used c = ?u"
      "?u \<le> allocated c" "allocated c \<le> 2 * ?u" "length (arr_cells c) = allocated c"
      "take ?u (arr_cells c) = take ?u (arr_cells a) @ replicate (?u - allocated a) None"
    using realloc_array_cells [of ?b ?u ok] assms u by (auto simp: arr_inv_def arr_room_def)
  have new: "ARR_GetNewElement ok a = Some (used a, c)"
  proof -
    have "(used a + 1) mod 2 ^ 32 = ?u" "(?u + 2 ^ 32 - 1) mod 2 ^ 32 = used a"
      using u wrap_pred [of ?u] by simp_all
    then show ?thesis
      unfolding ARR_GetNewElement_def Let_def using c(1,3) by (simp add: ARR_GetElement_def)
  qed
  obtain d where d: "arr_data c = Some d" "d = arr_cells c"
    using c(4,6) by (auto simp: arr_cells_def split: option.splits)
  let ?a' = "c\<lparr>arr_data := Some (d[used a := Some x])\<rparr>"
  have "ARR_AppendElement ok a x = Some ?a'"
    using new d c(4,6) by (simp add: ARR_AppendElement_def write_cell_def)
  moreover have cl: "arr_cells ?a' = (arr_cells c)[used a := Some x]"
    using d(1) by (simp add: arr_cells_def)
  moreover have "arr_inv ?a'" using c(2-6) u assms(1) cl by (simp add: arr_inv_def)
  moreover have "arr_list ?a' = arr_list a @ [Some x]"
  proof -
    have "take (used a) (arr_cells c) = take (used a) (take ?u (arr_cells c))" by simp
    also have "\<dots> = take (used a) (arr_cells a)"
      unfolding c(7) using assms(1) by (simp add: arr_inv_def)
    finally have "take (used a) (arr_cells c) = take (used a) (arr_cells a)" .
    then show ?thesis using c(3,4,6) by (simp add: arr_list_def cl take_Suc_conv_app_nth)
  qed
  ultimately show ?thesis using c(2) by auto
qed

lemma ARR_RemoveElement_list:
  assumes "arr_inv a" "arr_room ok a (used a)" "i < used a"
  shows "\<exists>a'. ARR_RemoveElement ok a i = Some a' \<and> arr_inv a' \<and>
    arr_list a' = take i (arr_list a) @ drop (i + 1) (arr_list a) \<and> elem_size a' = elem_size a"
proof -
  let ?l = "used a - 1"
  obtain d where d: "arr_data a = Some d" "d = arr_cells a" "used a \<le> length d"
    using assms by (auto simp: arr_cells_def arr_inv_def split: option.splits)
  let ?d' = "if i < ?l then memcpy d i (take (?l - i) (drop (i + 1) d)) else d"
  let ?b = "a\<lparr>arr_data := Some ?d', used := ?l\<rparr>"
  have len: "length ?d' = length d" using d(3) assms(3) by simp
  have tk: "take ?l ?d' = take i (arr_list a) @ drop (i + 1) (arr_list a)"
  proof (cases "i < ?l")
    case True
    then show ?thesis using d by (auto simp: memcpy_def arr_list_def min_def drop_take)
  next
    case False
    then have "?l = i" using assms(3) by simp
    then show ?thesis using d by (simp add: arr_list_def)
  qed
  have u: "used a < 2 ^ 31" using assms(2) by (simp add: arr_room_def)
  have cb: "arr_cells ?b = ?d'" by (simp add: arr_cells_def)
  have r: "arr_room ok a ?l" by (rule arr_room_mono [OF assms(2)]) simp
  obtain c where c: "realloc_array ok ?b ?l = Some c" "elem_size c = elem_size a" "used c = ?l"
      "?l \<le> allocated c" "allocated c \<le> 2 * ?l" "length (arr_cells c) = allocated c"
      "take ?l (arr_cells c) = take ?l ?d' @ replicate (?l - allocated a) None"
    using realloc_array_cells [of ?b ?l ok] assms(1) u len d(2) r
    unfolding cb by (auto simp: arr_inv_def arr_room_def)
  have "ARR_RemoveElement ok a i = realloc_array ok ?b ?l"
  proof -
    have "(used a + 2 ^ 32 - 1) mod 2 ^ 32 = ?l"
      using u assms(3) by (intro wrap_pred) simp_all
    then show ?thesis
      unfolding ARR_RemoveElement_def Let_def using assms(3) d(1)
      by (simp add: ARR_GetElement_def arr_data_same)
  qed
  moreover have "arr_inv c" using c u assms(1) by (simp add: arr_inv_def)
  moreover have "?l - allocated a = 0" using assms(1) by (simp add: arr_inv_def)
  ultimately show ?thesis using c tk by (auto simp: arr_list_def)
qed

lemma ARR_SetSize_list:
  assumes "arr_inv a" "arr_room ok a n"
  shows "\<exists>a'. ARR_SetSize ok a n = Some a' \<and> arr_inv a' \<and> length (arr_list a') = n \<and>
    take (used a) (arr_list a') = take n (arr_list a) \<and> elem_size a' = elem_size a"
proof -
  obtain c where c: "realloc_array ok a n = Some c" "elem_size c = elem_size a" "used c = used a"
      "n \<le> allocated c" "allocated c \<le> 2 * n" "length (arr_cells c) = allocated c"
      "take n (arr_cells c) = take n (arr_cells a) @ replicate (n - allocated a) None"
    using realloc_array_cells [of a n ok] assms by (auto simp: arr_inv_def arr_room_def)
  have "take (used a) (take n (arr_cells c)) = take n (take (used a) (arr_cells a))"
    using assms(1) by (auto simp: c(7) arr_inv_def min_def)
  with c assms show ?thesis
    by (intro exI [of _ "c\<lparr>used := n\<rparr>"])
       (simp add: ARR_SetSize_def arr_inv_def arr_list_def arr_room_def)
qed

interpretation arr: growable_array "arr_inv :: 'e ARR_Instance \<Rightarrow> bool" arr_list "arr_room ok"
    "ARR_AppendElement ok" "ARR_RemoveElement ok" "ARR_SetSize ok" for ok
proof
  fix a :: "'e ARR_Instance" and x
  assume "arr_inv a" "arr_room ok a (length (arr_list a) + 1)"
  then show "\<exists>a'. ARR_AppendElement ok a x = Some a' \<and> arr_inv a' \<and> arr_list a' = arr_list a @ [Some x] \<and>
      (\<forall>n. arr_room ok a' n = arr_room ok a n)"
    using ARR_AppendElement_list [of a ok x] by (auto simp: length_arr_list arr_room_def)
next
  fix a :: "'e ARR_Instance" and i
  assume "arr_inv a" "arr_room ok a (length (arr_list a))" "i < length (arr_list a)"
  then show "\<exists>a'. ARR_RemoveElement ok a i = Some a' \<and> arr_inv a' \<and>
      arr_list a' = take i (arr_list a) @ drop (i + 1) (arr_list a) \<and>
      (\<forall>n. arr_room ok a' n = arr_room ok a n)"
    using ARR_RemoveElement_list [of a ok i] by (auto simp: length_arr_list arr_room_def)
next
  fix a :: "'e ARR_Instance" and n
  assume "arr_inv a" "arr_room ok a n"
  then show "\<exists>a'. ARR_SetSize ok a n = Some a' \<and> arr_inv a' \<and> length (arr_list a') = n \<and>
      take (length (arr_list a)) (arr_list a') = take n (arr_list a) \<and>
      (\<forall>n. arr_room ok a' n = arr_room ok a n)"
    using ARR_SetSize_list [of a ok n] by (auto simp: length_arr_list arr_room_def)
qed (rule arr_room_mono)

lemma arr_inv_create:
  "0 < sz \<Longrightarrow> sz < 2 ^ 32 \<Longrightarrow> \<exists>a. ARR_CreateInstance sz = Some a \<and> arr_inv a \<and> arr_list a = [] \<and> elem_size a = sz"
  by (simp add: ARR_CreateInstance_def arr_inv_def arr_list_def arr_cells_def)

section \<open>Properties\<close>

text \<open>
  C26.  A dynamic array behaves as a list: a new array is empty, and from any array in a consistent
  state, empty or not, while memory for twice the resulting number of elements is available and
  that number is below 2^31, appending adds one element at the end, removing an existing element
  closes the gap and keeps the order (an index out of range fails the assertion), and resizing to a
  larger or a smaller size keeps the common prefix.  After each the allocated size is between the
  used size and twice that.
\<close>

theorem array_is_list:
  fixes a :: "'e ARR_Instance"
  assumes "arr_inv a"
  shows "(0 < sz \<and> sz < 2 ^ 32 \<longrightarrow>
      (\<exists>e :: 'e ARR_Instance. ARR_CreateInstance sz = Some e \<and> arr_inv e \<and> arr_list e = [])) \<and>
    (arr_room ok a (used a + 1) \<longrightarrow>
      (\<exists>b. ARR_AppendElement ok a x = Some b \<and> arr_inv b \<and> arr_list b = arr_list a @ [Some x])) \<and>
    (i < used a \<and> arr_room ok a (used a) \<longrightarrow>
      (\<exists>c. ARR_RemoveElement ok a i = Some c \<and> arr_inv c \<and>
         arr_list c = take i (arr_list a) @ drop (i + 1) (arr_list a))) \<and>
    (\<not> i < used a \<longrightarrow> ARR_RemoveElement ok a i = None) \<and>
    (arr_room ok a n \<longrightarrow>
      (\<exists>d. ARR_SetSize ok a n = Some d \<and> arr_inv d \<and> length (arr_list d) = n \<and>
         take (used a) (arr_list d) = take n (arr_list a)))"
proof -
  note len = length_arr_list [OF assms]
  have "ARR_RemoveElement ok a i = None" if "\<not> i < used a"
    using that by (simp add: ARR_RemoveElement_def ARR_GetElement_def)
  then show ?thesis
    using arr_inv_create [of sz] arr.append [OF assms, of ok x] arr.remove [OF assms, of ok i]
      arr.set_size [OF assms, of ok n] unfolding len by blast
qed

text \<open>Appending to an empty array, growing it, and removing the only element of an array.\<close>

theorem array_is_list_witness:
  "(\<exists>b. ARR_AppendElement (\<lambda>_. True) \<lparr>arr_data = None, elem_size = 1, used = 0, allocated = 0\<rparr> CHR ''y'' = Some b \<and>
      arr_inv b \<and> arr_list b = [Some CHR ''y'']) \<and>
   (\<exists>c. ARR_RemoveElement (\<lambda>_. True) \<lparr>arr_data = Some [Some CHR ''x''], elem_size = 1, used = 1, allocated = 1\<rparr> 0 = Some c \<and>
      arr_inv c \<and> arr_list c = []) \<and>
   (\<exists>d. ARR_SetSize (\<lambda>_. True) \<lparr>arr_data = Some [Some CHR ''x''], elem_size = 1, used = 1, allocated = 1\<rparr> 5 = Some d \<and>
      arr_inv d \<and> length (arr_list d) = 5 \<and> take 1 (arr_list d) = [Some CHR ''x''])"
  using array_is_list [of "\<lparr>arr_data = None, elem_size = 1, used = 0, allocated = 0\<rparr>" 1
      "\<lambda>_. True" "CHR ''y''" 0 0]
    array_is_list [of "\<lparr>arr_data = Some [Some CHR ''x''], elem_size = 1, used = 1, allocated = 1\<rparr>" 1
      "\<lambda>_. True" "CHR ''y''" 0 5]
  by (simp add: arr_inv_def arr_room_def alloc_ok_def arr_list_def arr_cells_def)

end
