(* ===== verification/NtpExt.thy ===== *)
theory NtpExt
  imports Addressing
begin

text \<open>
  NTP packets: the extension fields of \<open>ntp_ext.c\<close> and the packet parser \<open>parse_packet\<close> of
  \<open>ntp_core.c\<close>.  A packet is the byte image of the struct NTP_Packet; a pointer into it is an
  offset.  A function that returns 0 or 1 has the result type \<open>'a ret\<close>: \<open>None\<close> is an access
  outside of the buffer or a failed assertion, \<open>Some None\<close> the return value 0, and \<open>Some (Some x)\<close>
  the return value 1 with the output parameters \<open>x\<close>.
\<close>

section \<open>Packets\<close>

type_synonym 'a ret = "'a option option"

abbreviation (input) NTP_MIN_MAC_LENGTH :: int where "NTP_MIN_MAC_LENGTH \<equiv> 4 + 16"
abbreviation (input) NTP_MIN_EF_LENGTH :: int where "NTP_MIN_EF_LENGTH \<equiv> 16"
abbreviation (input) NTP_MAX_V4_MAC_LENGTH :: int where "NTP_MAX_V4_MAC_LENGTH \<equiv> 4 + 20"
abbreviation (input) NTP_HEADER_LENGTH :: int where "NTP_HEADER_LENGTH \<equiv> 48"

text \<open>48 bytes of header, 1024 of extension fields, 68 of a MAC.\<close>

abbreviation (input) sizeof_NTP_Packet :: int where "sizeof_NTP_Packet \<equiv> 1140"

datatype NTP_AuthMode =
  NTP_AUTH_NONE | NTP_AUTH_SYMMETRIC | NTP_AUTH_MSSNTP | NTP_AUTH_MSSNTP_EXT | NTP_AUTH_NTS

record NTP_PacketInfo =
  info_length :: int
  version :: int
  mode :: int
  ext_fields :: int
  ext_field_flags :: int
  auth_mode :: NTP_AuthMode
  mac_start :: int
  mac_length :: int
  mac_key_id :: u32

definition NTP_LVM_TO_VERSION :: "u8 \<Rightarrow> int" where
  "NTP_LVM_TO_VERSION lvm = uint (drop_bit 3 lvm AND 7)"

definition NTP_LVM_TO_MODE :: "u8 \<Rightarrow> int" where
  "NTP_LVM_TO_MODE lvm = uint (lvm AND 7)"

definition NTP_LVM :: "u8 \<Rightarrow> u8 \<Rightarrow> u8 \<Rightarrow> u8" where
  "NTP_LVM leap vers md = (push_bit 6 leap AND 0xc0) OR (push_bit 3 vers AND 0x38) OR (md AND 0x07)"

text \<open>Reading 32 bits in network order, inside the buffer.\<close>

definition rd32 :: "bytes \<Rightarrow> nat \<Rightarrow> u32 option" where
  "rd32 buf i = (if i + 4 \<le> length buf then Some (ntohl (drop i buf)) else None)"

section \<open>Extension fields\<close>

definition format_field ::
    "bytes \<Rightarrow> int \<Rightarrow> int \<Rightarrow> int \<Rightarrow> int \<Rightarrow> (bytes \<times> int \<times> nat) ret" where
  "format_field buffer buffer_length start type body_length =
     (if buffer_length < 0 \<or> start < 0 \<or> buffer_length \<le> start \<or>
         buffer_length - start < 4 \<or> c_mod start 4 \<noteq> 0 then Some None
      else if body_length < 0 \<or> 4 + body_length > 0xffff \<or>
         start + 4 + body_length > buffer_length \<or> c_mod body_length 4 \<noteq> 0 then Some None
      else if nat start + 4 > length buffer then None
      else Some (Some (memcpy buffer (nat start) (htons (of_int type) @ htons (of_int (4 + body_length))),
                       4 + body_length, nat start + 4)))"

text \<open>\<open>memcpy(ef_body, body, body_length)\<close> into the buffer.\<close>

definition copy_body :: "bytes \<Rightarrow> nat \<Rightarrow> bytes \<Rightarrow> int \<Rightarrow> bytes option" where
  "copy_body buffer off body body_length =
     (if off + nat body_length \<le> length buffer \<and> nat body_length \<le> length body
      then Some (memcpy buffer off (take (nat body_length) body)) else None)"

definition NEF_SetField ::
    "bytes \<Rightarrow> int \<Rightarrow> int \<Rightarrow> int \<Rightarrow> bytes \<Rightarrow> int \<Rightarrow> (bytes \<times> int) ret" where
  "NEF_SetField buffer buffer_length start type body body_length =
     (case format_field buffer buffer_length start type body_length of
        None \<Rightarrow> None
      | Some None \<Rightarrow> Some None
      | Some (Some (buffer, len, ef_body)) \<Rightarrow>
          map_option (\<lambda>b. Some (b, len)) (copy_body buffer ef_body body body_length))"

definition NEF_AddBlankField ::
    "bytes \<Rightarrow> NTP_PacketInfo \<Rightarrow> int \<Rightarrow> int \<Rightarrow> (bytes \<times> NTP_PacketInfo \<times> nat) ret" where
  "NEF_AddBlankField packet info type body_length =
     (let len = info_length info in
      if len < NTP_HEADER_LENGTH \<or> len \<ge> sizeof_NTP_Packet \<or> c_mod len 4 \<noteq> 0 then Some None
      else if version info \<noteq> 4 then Some None
      else case format_field packet sizeof_NTP_Packet len type body_length of
          None \<Rightarrow> None
        | Some None \<Rightarrow> Some None
        | Some (Some (packet, ef_length, body)) \<Rightarrow>
            if ef_length < NTP_MIN_EF_LENGTH then Some None
            else Some (Some (packet, info\<lparr>info_length := len + ef_length,
                                          ext_fields := ext_fields info + 1\<rparr>, body)))"

definition NEF_AddField ::
    "bytes \<Rightarrow> NTP_PacketInfo \<Rightarrow> int \<Rightarrow> bytes \<Rightarrow> int \<Rightarrow> (bytes \<times> NTP_PacketInfo) ret" where
  "NEF_AddField packet info type body body_length =
     (case NEF_AddBlankField packet info type body_length of
        None \<Rightarrow> None
      | Some None \<Rightarrow> Some None
      | Some (Some (packet, info, ef_body)) \<Rightarrow>
          map_option (\<lambda>p. Some (p, info)) (copy_body packet ef_body body body_length))"

text \<open>The outputs are the length, the type, the offset of the body and the length of the body.\<close>

definition NEF_ParseSingleField :: "bytes \<Rightarrow> int \<Rightarrow> int \<Rightarrow> (int \<times> int \<times> nat \<times> int) ret" where
  "NEF_ParseSingleField buffer buffer_length start =
     (if buffer_length < 0 \<or> start < 0 \<or> buffer_length \<le> start \<or> buffer_length - start < 4
      then Some None
      else case (rd16 buffer (nat start + 2), rd16 buffer (nat start)) of
          (Some l, Some t) \<Rightarrow>
            let ef_length = uint l in
            if ef_length < 4 \<or> start + ef_length > buffer_length \<or> c_mod ef_length 4 \<noteq> 0 then Some None
            else Some (Some (ef_length, uint t, nat start + 4, ef_length - 4))
        | _ \<Rightarrow> None)"

definition NEF_ParseField :: "bytes \<Rightarrow> int \<Rightarrow> int \<Rightarrow> (int \<times> int \<times> nat \<times> int) ret" where
  "NEF_ParseField packet packet_length start =
     (if packet_length \<le> NTP_HEADER_LENGTH \<or> packet_length > sizeof_NTP_Packet \<or>
         packet_length \<le> start \<or> c_mod packet_length 4 \<noteq> 0 \<or>
         start < NTP_HEADER_LENGTH \<or> c_mod start 4 \<noteq> 0 then Some None
      else if packet = [] then None
      else if NTP_LVM_TO_VERSION (packet ! 0) \<noteq> 4 then Some None
      else if packet_length - start \<le> NTP_MAX_V4_MAC_LENGTH then Some None
      else case NEF_ParseSingleField packet packet_length start of
          None \<Rightarrow> None
        | Some None \<Rightarrow> Some None
        | Some (Some (ef_length, type, body, body_length)) \<Rightarrow>
            if ef_length < NTP_MIN_EF_LENGTH then Some None
            else Some (Some (ef_length, type, body, body_length)))"

section \<open>The packet parser\<close>

text \<open>\<open>is_zero_data\<close> on the \<open>n\<close> bytes at offset \<open>i\<close>.\<close>

fun is_zero_data :: "bytes \<Rightarrow> nat \<Rightarrow> nat \<Rightarrow> bool option" where
  "is_zero_data data i 0 = Some True"
| "is_zero_data data i (Suc n) =
     (if i \<ge> length data then None
      else if data ! i \<noteq> 0 then Some False
      else is_zero_data data (i + 1) n)"

definition is_exp_ef :: "bytes \<Rightarrow> nat \<Rightarrow> int \<Rightarrow> int \<Rightarrow> u32 \<Rightarrow> bool option" where
  "is_exp_ef data body body_length expected_body_length magic =
     (if body_length = expected_body_length
      then map_option (\<lambda>m. m = magic) (rd32 data body)
      else Some False)"

abbreviation (input) NTP_EF_NET_CORRECTION :: int where "NTP_EF_NET_CORRECTION \<equiv> 0x010A"
abbreviation (input) NTP_EF_EXP_MONO_ROOT :: int where "NTP_EF_EXP_MONO_ROOT \<equiv> 0xF323"
abbreviation (input) NTP_EF_FLAG_NET_CORRECTION :: int where "NTP_EF_FLAG_NET_CORRECTION \<equiv> 1"
abbreviation (input) NTP_EF_FLAG_EXP_MONO_ROOT :: int where "NTP_EF_FLAG_EXP_MONO_ROOT \<equiv> 2"
abbreviation (input) NTP_EF_EXP_MONO_ROOT_MAGIC :: u32 where "NTP_EF_EXP_MONO_ROOT_MAGIC \<equiv> 0xF5BEDD9A"
abbreviation (input) NTP_EF_NTS_UNIQUE_IDENTIFIER :: int where "NTP_EF_NTS_UNIQUE_IDENTIFIER \<equiv> 0x0104"
abbreviation (input) NTP_EF_NTS_COOKIE :: int where "NTP_EF_NTS_COOKIE \<equiv> 0x0204"
abbreviation (input) NTP_EF_NTS_COOKIE_PLACEHOLDER :: int where "NTP_EF_NTS_COOKIE_PLACEHOLDER \<equiv> 0x0304"
abbreviation (input) NTP_EF_NTS_AUTH_AND_EEF :: int where "NTP_EF_NTS_AUTH_AND_EEF \<equiv> 0x0404"

text \<open>The switch on the type of a field.\<close>

definition note_field :: "bytes \<Rightarrow> int \<Rightarrow> nat \<Rightarrow> int \<Rightarrow> NTP_PacketInfo \<Rightarrow> NTP_PacketInfo option" where
  "note_field packet ef_type ef_body ef_body_length info =
     (if ef_type \<in> {NTP_EF_NTS_UNIQUE_IDENTIFIER, NTP_EF_NTS_COOKIE,
                    NTP_EF_NTS_COOKIE_PLACEHOLDER, NTP_EF_NTS_AUTH_AND_EEF}
      then Some (info\<lparr>auth_mode := NTP_AUTH_NTS\<rparr>)
      else if ef_type = NTP_EF_NET_CORRECTION then
        (if ef_body_length = 24
         then Some (info\<lparr>ext_field_flags := ext_field_flags info OR NTP_EF_FLAG_NET_CORRECTION\<rparr>)
         else Some info)
      else if ef_type = NTP_EF_EXP_MONO_ROOT then
        (case is_exp_ef packet ef_body ef_body_length 24 NTP_EF_EXP_MONO_ROOT_MAGIC of
           None \<Rightarrow> None
         | Some b \<Rightarrow>
             Some (if b then info\<lparr>ext_field_flags := ext_field_flags info OR NTP_EF_FLAG_EXP_MONO_ROOT\<rparr>
                   else info))
      else Some info)"

text \<open>
  The loop over the extension fields, with \<open>parsed\<close> and \<open>info\<close> after it; the flag is false when
  the function returned 0 from the loop.  The assertion on \<open>ef_length\<close> makes it terminate.
\<close>

function parse_fields :: "bytes \<Rightarrow> int \<Rightarrow> int \<Rightarrow> NTP_PacketInfo \<Rightarrow> (bool \<times> int \<times> NTP_PacketInfo) option" where
  "parse_fields packet len parsed info =
     (let remainder = len - parsed in
      if \<not> remainder > 0 then Some (True, parsed, info)
      else if remainder \<ge> NTP_MIN_MAC_LENGTH \<and> remainder \<le> NTP_MAX_V4_MAC_LENGTH
      then Some (True, parsed, info)
      else case NEF_ParseField packet len parsed of
          None \<Rightarrow> None
        | Some None \<Rightarrow> Some (False, parsed, info)
        | Some (Some (ef_length, ef_type, ef_body, ef_body_length)) \<Rightarrow>
            if \<not> (ef_length > 0 \<and> c_mod ef_length 4 = 0) then None
            else case note_field packet ef_type ef_body ef_body_length info of
                None \<Rightarrow> None
              | Some info \<Rightarrow>
                  parse_fields packet len (parsed + ef_length)
                    (info\<lparr>ext_fields := ext_fields info + 1\<rparr>))"
  by pat_completeness auto
termination
  by (relation "measure (\<lambda>(packet, len, parsed, info). nat (len - parsed))") auto

declare parse_fields.simps [simp del]

text \<open>
  \<open>parse_packet\<close> returns whether the packet is accepted, and the description it leaves.
\<close>

definition parse_packet :: "bytes \<Rightarrow> int \<Rightarrow> NTP_PacketInfo \<Rightarrow> (bool \<times> NTP_PacketInfo) option" where
  "parse_packet packet len info =
     (if len < NTP_HEADER_LENGTH \<or> len mod 4 \<noteq> 0 then Some (False, info)
      else if packet = [] then None
      else
        let lvm = packet ! 0;
            info = info\<lparr>info_length := len, version := NTP_LVM_TO_VERSION lvm,
                        mode := NTP_LVM_TO_MODE lvm, ext_fields := 0, ext_field_flags := 0,
                        auth_mode := NTP_AUTH_NONE\<rparr>;
            parsed = NTP_HEADER_LENGTH;
            remainder = len - parsed in
        if version info < 1 \<or> version info > 4 then Some (False, info)
        else if remainder \<le> 0 then Some (True, info)
        else if c_mod remainder 4 \<noteq> 0 then None
        else if version info \<le> 3 then do {
          key_id \<leftarrow> rd32 packet (nat parsed);
          let info = info\<lparr>auth_mode := NTP_AUTH_SYMMETRIC, mac_start := parsed,
                          mac_length := remainder, mac_key_id := key_id\<rparr>;
          if version info = 3 \<and> key_id \<noteq> 0 then do {
            ms \<leftarrow> (if remainder = 20 then is_zero_data packet (nat parsed + 4) (nat remainder - 4)
                  else Some False);
            if ms then Some (True, info\<lparr>auth_mode := NTP_AUTH_MSSNTP\<rparr>)
            else do {
              ext \<leftarrow> (if remainder = 72 then is_zero_data packet (nat parsed + 8) (nat remainder - 8)
                     else Some False);
              Some (True, if ext then info\<lparr>auth_mode := NTP_AUTH_MSSNTP_EXT\<rparr> else info) } }
          else Some (True, info) }
        else do {
          nak \<leftarrow> (if remainder = 4 then map_option (\<lambda>k. k = 0) (rd32 packet (nat parsed))
                 else Some False);
          if nak then
            Some (True, info\<lparr>auth_mode := NTP_AUTH_SYMMETRIC, mac_start := parsed,
                             mac_length := remainder, mac_key_id := 0\<rparr>)
          else
            case parse_fields packet (info_length info) parsed info of
              None \<Rightarrow> None
            | Some (False, _, info) \<Rightarrow> Some (False, info)
            | Some (True, parsed, info) \<Rightarrow>
                let remainder = info_length info - parsed in
                if remainder = 0 then Some (True, info)
                else if remainder \<ge> NTP_MIN_MAC_LENGTH then do {
                  key_id \<leftarrow> rd32 packet (nat parsed);
                  Some (True, info\<lparr>auth_mode := NTP_AUTH_SYMMETRIC, mac_start := parsed,
                                   mac_length := remainder, mac_key_id := key_id\<rparr>) }
                else Some (False, info) })"

section \<open>The grammar of an NTPv4 packet\<close>

text \<open>
  What follows the header of an NTPv4 packet: a sequence of fields, each with its type and body,
  and a MAC or nothing.
\<close>

type_synonym field = "u16 \<times> bytes"

definition encode_field :: "field \<Rightarrow> bytes" where
  "encode_field f = htons (fst f) @ htons (of_nat (4 + length (snd f))) @ snd f"

definition field_ok :: "field \<Rightarrow> bool" where
  "field_ok f \<longleftrightarrow> length (snd f) mod 4 = 0 \<and> 12 \<le> length (snd f) \<and> length (snd f) + 4 < 65536"

definition encode_fields :: "field list \<Rightarrow> bytes" where
  "encode_fields fs = concat (map encode_field fs)"

text \<open>The part of a packet between two offsets.\<close>

definition slice :: "bytes \<Rightarrow> nat \<Rightarrow> nat \<Rightarrow> bytes" where
  "slice p a b = drop a (take b p)"

lemma length_encode_field [simp]: "length (encode_field f) = 4 + length (snd f)"
  by (simp add: encode_field_def)

lemma encode_fields_simps [simp]:
  "encode_fields [] = []" "encode_fields (f # fs) = encode_field f @ encode_fields fs"
  "encode_fields (fs @ gs) = encode_fields fs @ encode_fields gs"
  by (simp_all add: encode_fields_def)

lemma length_slice [simp]: "b \<le> length p \<Longrightarrow> length (slice p a b) = b - a"
  by (simp add: slice_def)

lemma take_drop_slice: "a + i + n \<le> b \<Longrightarrow> take n (drop i (slice p a b)) = take n (drop (a + i) p)"
  by (simp add: slice_def drop_take min_def add.commute)

lemma slice_drop: "slice p (a + i) b = drop i (slice p a b)"
  by (simp add: slice_def add.commute)

lemma int_mod_4 [simp]: "n mod 4 = 0 \<Longrightarrow> int n mod 4 = 0"
  by presburger

lemma uint_field_len: "n < 65536 \<Longrightarrow> uint (of_nat n :: u16) = int n"
  by (simp add: uint_nat unat_of_nat)

lemma ParseField_encoded:
  assumes "len \<le> 1140" "length p = 1140" "len mod 4 = 0" "48 \<le> pos" "pos mod 4 = 0"
    and "NTP_LVM_TO_VERSION (p ! 0) = 4" "24 < len - pos"
    and "slice p pos len = encode_field f @ rest" "field_ok f"
  shows "NEF_ParseField p (int len) (int pos) =
      Some (Some (4 + int (length (snd f)), uint (fst f), pos + 4, int (length (snd f)))) \<and>
    take (length (snd f)) (drop (pos + 4) p) = snd f"
proof -
  let ?b = "snd f"
  have n: "pos + 4 + length ?b \<le> len"
    using arg_cong [OF assms(8), of length] assms(1,2,7) by simp
  have "take 2 (drop pos p) = htons (fst f)"
    using take_drop_slice [of pos 0 2 len p] n by (simp add: assms(8) encode_field_def)
  moreover have "take 2 (drop (pos + 2) p) = htons (of_nat (4 + length ?b))"
    using take_drop_slice [of pos 2 2 len p] n by (simp add: assms(8) encode_field_def)
  ultimately have "rd16 p pos = Some (fst f)" "rd16 p (pos + 2) = Some (of_nat (4 + length ?b))"
    by (simp_all add: rd16_htons)
  moreover have "uint (of_nat (4 + length ?b) :: u16) = 4 + int (length ?b)"
    using assms(9) by (subst uint_field_len) (simp_all add: field_ok_def)
  moreover have "(4 + int (length ?b)) mod 4 = 0" "int len mod 4 = 0" "int pos mod 4 = 0"
    using assms(3,5,9) by (simp_all add: field_ok_def)
  moreover have "p \<noteq> []" using assms(2) by auto
  moreover have "take (length ?b) (drop (pos + 4) p) = ?b"
    using take_drop_slice [of pos 4 "length ?b" len p] n by (simp add: assms(8) encode_field_def)
  ultimately show ?thesis
    using assms n
    by (simp add: NEF_ParseField_def NEF_ParseSingleField_def c_mod_nonneg field_ok_def)
qed

lemma ParseField_sound:
  assumes "len \<le> 1140" "length p = 1140" "pos mod 4 = 0"
    and "NEF_ParseField p (int len) (int pos) \<noteq> Some None"
  shows "\<exists>f rest. slice p pos len = encode_field f @ rest \<and> field_ok f \<and> 24 < len - pos \<and> 48 \<le> pos \<and>
     NTP_LVM_TO_VERSION (p ! 0) = 4"
proof -
  have c: "48 \<le> pos" "NTP_LVM_TO_VERSION (p ! 0) = 4" "24 < len - pos"
    using assms by (auto simp: NEF_ParseField_def split: if_splits)
  obtain l t where r: "rd16 p (pos + 2) = Some l" "rd16 p pos = Some t"
  proof -
    have "pos + 2 + 2 \<le> length p" "pos + 2 \<le> length p" using c assms(1,2) by simp_all
    then show thesis using rd16_bound that by blast
  qed
  then have l: "16 \<le> uint l" "int pos + uint l \<le> int len" "uint l mod 4 = 0"
    using assms c by (auto simp: NEF_ParseField_def NEF_ParseSingleField_def c_mod_nonneg Let_def split: if_splits)
  obtain n where n: "uint l = int n" "l = of_nat n"
    by (rule that [of "unat l"]) simp_all
  have ln: "16 \<le> n" "pos + n \<le> len" "n mod 4 = 0" "n < 65536"
    using l uint_u16_bounds [of l] unfolding n(1) by presburger+
  define b where "b = take (n - 4) (drop (pos + 4) p)"
  have lb: "length b = n - 4" using ln assms by (simp add: b_def)
  have "of_nat (4 + length b) = l" using ln(1) by (simp add: lb n(2))
  then have "encode_field (t, b) = take 2 (drop pos p) @ take 2 (drop (pos + 2) p) @ b"
    using r rd16_SomeD by (simp add: encode_field_def)
  also have "\<dots> = take n (drop pos p)"
  proof -
    have "n = 2 + (2 + (n - 4))" using ln(1) by simp
    then have "take n (drop pos p) = take (2 + (2 + (n - 4))) (drop pos p)" by simp
    then show ?thesis by (simp only: take_add drop_drop b_def) (simp add: eval_nat_numeral)
  qed
  also have "\<dots> = take n (slice p pos len)"
    using take_drop_slice [of pos 0 n len p] ln by simp
  finally have "slice p pos len = encode_field (t, b) @ drop n (slice p pos len)" by simp
  moreover have "field_ok (t, b)"
    using ln lb by (auto simp: field_ok_def mod_eq_0_iff_dvd)
  ultimately show ?thesis using c by blast
qed

text \<open>What the parser notes of a field.\<close>

definition see_field :: "field \<Rightarrow> NTP_PacketInfo \<Rightarrow> NTP_PacketInfo" where
  "see_field f info =
     (let t = uint (fst f);
          info =
           (if t \<in> {NTP_EF_NTS_UNIQUE_IDENTIFIER, NTP_EF_NTS_COOKIE,
                    NTP_EF_NTS_COOKIE_PLACEHOLDER, NTP_EF_NTS_AUTH_AND_EEF}
            then info\<lparr>auth_mode := NTP_AUTH_NTS\<rparr>
            else if t = NTP_EF_NET_CORRECTION \<and> length (snd f) = 24
            then info\<lparr>ext_field_flags := ext_field_flags info OR NTP_EF_FLAG_NET_CORRECTION\<rparr>
            else if t = NTP_EF_EXP_MONO_ROOT \<and> length (snd f) = 24 \<and> ntohl (snd f) = NTP_EF_EXP_MONO_ROOT_MAGIC
            then info\<lparr>ext_field_flags := ext_field_flags info OR NTP_EF_FLAG_EXP_MONO_ROOT\<rparr>
            else info)
      in info\<lparr>ext_fields := ext_fields info + 1\<rparr>)"

lemma ntohl_take: "n \<le> length bs \<Longrightarrow> 4 \<le> n \<Longrightarrow> ntohl (take n bs) = ntohl bs"
  by (simp add: ntohl_def)

lemma note_field_eq:
  assumes "take (length b) (drop off p) = b"
  shows "map_option (\<lambda>info. info\<lparr>ext_fields := ext_fields info + 1\<rparr>)
      (note_field p (uint t) off (int (length b)) info) = Some (see_field (t, b) info)"
proof -
  have l: "length b \<le> length p - off" using arg_cong [OF assms, of length] by simp
  have "length b = 24 \<Longrightarrow> ntohl (drop off p) = ntohl b"
    using ntohl_take [of 24 "drop off p"] assms l by simp
  moreover have "length b = 24 \<Longrightarrow> off + 4 \<le> length p" using l by simp
  ultimately show ?thesis
    by (auto simp: note_field_def see_field_def Let_def is_exp_ef_def rd32_def)
qed

text \<open>One iteration of the loop.\<close>

lemma parse_fields_step:
  assumes "len \<le> 1140" "length p = 1140" "len mod 4 = 0" "48 \<le> pos" "pos mod 4 = 0"
    and "NTP_LVM_TO_VERSION (p ! 0) = 4" "24 < len - pos"
    and "slice p pos len = encode_field f @ rest" "field_ok f"
  shows "parse_fields p (int len) (int pos) info =
    parse_fields p (int len) (int (pos + 4 + length (snd f))) (see_field f info)"
proof -
  note pf = ParseField_encoded [OF assms]
  have long: "24 < int len - int pos" using assms(7) by simp
  obtain i where i: "note_field p (uint (fst f)) (pos + 4) (int (length (snd f))) info = Some i"
      "i\<lparr>ext_fields := ext_fields i + 1\<rparr> = see_field f info"
    using note_field_eq [OF conjunct2 [OF pf], of "fst f" info] by auto
  have "(4 + int (length (snd f))) mod 4 = 0"
    using assms(9) by (simp add: field_ok_def)
  then have "parse_fields p (int len) (int pos) info =
    parse_fields p (int len) (int pos + (4 + int (length (snd f)))) (i\<lparr>ext_fields := ext_fields i + 1\<rparr>)"
    using pf i(1) long by (subst parse_fields.simps) (simp add: Let_def c_mod_nonneg)
  then show ?thesis by (simp only: i(2) of_nat_add of_nat_numeral add.assoc)
qed

text \<open>When the loop ends: nothing is left, or as much as a MAC.\<close>

definition ends_ok :: "bytes \<Rightarrow> bool" where
  "ends_ok rest \<longleftrightarrow> rest = [] \<or> 20 \<le> length rest \<and> length rest \<le> 24"

lemma parse_fields_stop:
  assumes "ends_ok (slice p pos len)" "pos \<le> len" "len \<le> length p"
  shows "parse_fields p (int len) (int pos) info = Some (True, int pos, info)"
proof -
  have "len = pos \<or> 20 \<le> len - pos \<and> len - pos \<le> 24"
    using assms by (auto simp: ends_ok_def) (auto simp: slice_def)
  then show ?thesis using assms(2) by (subst parse_fields.simps) (auto simp: Let_def)
qed

lemma parse_fields_refuse:
  assumes "len \<le> 1140" "length p = 1140" "pos mod 4 = 0" "pos \<le> len" "\<not> ends_ok (slice p pos len)"
    and "\<nexists>f rest. slice p pos len = encode_field f @ rest \<and> field_ok f \<and> 24 < len - pos"
  shows "parse_fields p (int len) (int pos) info = Some (False, int pos, info)"
proof -
  have "NEF_ParseField p (int len) (int pos) = Some None"
    using ParseField_sound [OF assms(1-3)] assms(6) by blast
  moreover have "pos < len" "\<not> (20 \<le> len - pos \<and> len - pos \<le> 24)"
    using assms(1-5) by (auto simp: ends_ok_def slice_def)
  ultimately show ?thesis by (subst parse_fields.simps) (auto simp: Let_def)
qed

text \<open>
  The loop accepts exactly the sequences of fields followed by a MAC or by nothing; in the
  latter case the last field has to be longer than a MAC.
\<close>

definition tail_ok :: "field list \<Rightarrow> bytes \<Rightarrow> bool" where
  "tail_ok fs mac \<longleftrightarrow> list_all field_ok fs \<and> ends_ok mac \<and>
     (mac = [] \<longrightarrow> fs = [] \<or> 20 < length (snd (last fs)))"

lemma tail_ok_Cons_length: "tail_ok (f # fs) mac \<Longrightarrow> 24 < length (encode_fields (f # fs) @ mac)"
  by (induction fs arbitrary: f) (auto simp: tail_ok_def field_ok_def ends_ok_def)

lemma tail_ok_Cons: "tail_ok (f # fs) mac \<Longrightarrow> field_ok f \<and> tail_ok fs mac"
  by (auto simp: tail_ok_def split: if_splits)

lemma encode_field_nonempty [simp]: "encode_field f \<noteq> []"
  by (rule notI, drule arg_cong [of _ _ length]) simp

text \<open>Fields are skipped while more than the length of a MAC remains at each of them.\<close>

lemma parse_fields_prefix:
  assumes "len \<le> 1140" "length p = 1140" "len mod 4 = 0" "48 \<le> pos" "pos mod 4 = 0" "pos \<le> len"
    and "NTP_LVM_TO_VERSION (p ! 0) = 4" "slice p pos len = encode_fields fs @ rest" "list_all field_ok fs"
    and "fs \<noteq> [] \<Longrightarrow> 20 < length (snd (last fs)) + length rest"
  shows "parse_fields p (int len) (int pos) info =
      parse_fields p (int len) (int (pos + length (encode_fields fs))) (fold see_field fs info) \<and>
    pos + length (encode_fields fs) \<le> len \<and> (pos + length (encode_fields fs)) mod 4 = 0 \<and>
    slice p (pos + length (encode_fields fs)) len = rest"
  using assms
proof (induction fs arbitrary: pos info)
  case Nil
  then show ?case by simp
next
  case (Cons f fs)
  let ?n = "4 + length (snd f)"
  have f: "field_ok f" "list_all field_ok fs" using Cons.prems(9) by auto
  have "20 < length (snd f) + length (encode_fields fs @ rest)"
    using Cons.prems(9,10) by (induction fs arbitrary: f) (auto simp: field_ok_def)
  then have long: "24 < len - pos"
    using length_slice [of len p pos] Cons.prems(1,2,8) by simp
  have sl: "slice p (pos + ?n) len = encode_fields fs @ rest"
    using Cons.prems(8) by (simp only: slice_drop) simp
  have le: "pos + ?n \<le> len"
    using arg_cong [OF Cons.prems(8), of length] Cons.prems(1,2) long by simp
  have m: "(pos + ?n) mod 4 = 0"
    using Cons.prems(5) f(1) by (auto simp: field_ok_def mod_eq_0_iff_dvd)
  have "parse_fields p (int len) (int pos) info =
      parse_fields p (int len) (int (pos + ?n)) (see_field f info)"
    using parse_fields_step [of len p pos f "encode_fields fs @ rest"] Cons.prems long f
    by (simp add: add.assoc)
  moreover have "fs \<noteq> [] \<Longrightarrow> 20 < length (snd (last fs)) + length rest" using Cons.prems(10) by simp
  ultimately show ?case
    using Cons.IH [OF Cons.prems(1-3) _ m le Cons.prems(7) sl f(2), of "see_field f info"] Cons.prems(4)
    by (simp add: add.assoc)
qed

lemma parse_fields_complete:
  assumes "len \<le> 1140" "length p = 1140" "len mod 4 = 0" "48 \<le> pos" "pos mod 4 = 0" "pos \<le> len"
    and "NTP_LVM_TO_VERSION (p ! 0) = 4" "slice p pos len = encode_fields fs @ mac" "tail_ok fs mac"
  shows "parse_fields p (int len) (int pos) info =
    Some (True, int pos + int (length (encode_fields fs)), fold see_field fs info)"
proof -
  have ok: "list_all field_ok fs" "ends_ok mac" "fs \<noteq> [] \<Longrightarrow> 20 < length (snd (last fs)) + length mac"
    using assms(9) by (cases fs rule: rev_cases; auto simp: tail_ok_def ends_ok_def field_ok_def)+
  show ?thesis
    using parse_fields_prefix [OF assms(1-8) ok(1,3), of info]
      parse_fields_stop [of p "pos + length (encode_fields fs)" len "fold see_field fs info"] ok(2) assms(1,2)
    by simp
qed

lemma parse_fields_sound:
  assumes "len \<le> 1140" "length p = 1140" "len mod 4 = 0" "pos mod 4 = 0" "pos \<le> len"
  shows "\<exists>ok stop info'. parse_fields p (int len) (int pos) info = Some (ok, stop, info') \<and>
    (ok \<longrightarrow> (\<exists>fs mac. slice p pos len = encode_fields fs @ mac \<and> tail_ok fs mac))"
  using assms(4,5)
proof (induction "len - pos" arbitrary: pos info rule: less_induct)
  case less
  show ?case
  proof (cases "ends_ok (slice p pos len)")
    case True
    then have "tail_ok [] (slice p pos len)" by (simp add: tail_ok_def)
    then have "\<exists>fs mac. slice p pos len = encode_fields fs @ mac \<and> tail_ok fs mac"
      by (metis append_Nil encode_fields_simps(1))
    with parse_fields_stop [OF True less.prems(2)] assms(1,2) show ?thesis
      by (intro exI [of _ True] exI) simp
  next
    case False
    show ?thesis
    proof (cases "NEF_ParseField p (int len) (int pos) = Some None")
      case True
      moreover have "pos < len" "\<not> (20 \<le> len - pos \<and> len - pos \<le> 24)"
        using assms(1,2) less.prems False by (auto simp: ends_ok_def slice_def)
      ultimately have "parse_fields p (int len) (int pos) info = Some (False, int pos, info)"
        by (subst parse_fields.simps) (auto simp: Let_def)
      then show ?thesis by (intro exI [of _ False] exI) simp
    next
      case parse: False
      obtain f rest where f: "slice p pos len = encode_field f @ rest" "field_ok f" "24 < len - pos"
          "48 \<le> pos" "NTP_LVM_TO_VERSION (p ! 0) = 4"
        using ParseField_sound [OF assms(1,2) less.prems(1) parse] by blast
      let ?pos = "pos + 4 + length (snd f)"
      have step: "parse_fields p (int len) (int pos) info = parse_fields p (int len) (int ?pos) (see_field f info)"
        using parse_fields_step [OF assms(1-3) f(4) less.prems(1) f(5,3,1,2)] .
      have rest: "slice p ?pos len = rest" using f(1) by (simp only: add.assoc slice_drop) simp
      have m: "?pos mod 4 = 0" using less.prems(1) f(2) by (auto simp: field_ok_def mod_eq_0_iff_dvd)
      have le: "?pos \<le> len"
        using arg_cong [OF f(1), of length] assms(1,2) f(3) by simp
      have lt: "len - ?pos < len - pos" using f(3) by simp
      obtain ok stop info' where ih: "parse_fields p (int len) (int ?pos) (see_field f info) = Some (ok, stop, info')"
          "ok \<longrightarrow> (\<exists>fs mac. rest = encode_fields fs @ mac \<and> tail_ok fs mac)"
        using less.hyps [OF lt m le, of "see_field f info"] unfolding rest by blast
      have "slice p pos len = encode_fields (f # fs) @ mac \<and> tail_ok (f # fs) mac"
        if fs: "rest = encode_fields fs @ mac" "tail_ok fs mac" for fs mac
      proof -
        have "length (encode_field f @ rest) = len - pos" using f(1) assms(1,2) by (metis length_slice)
        then show ?thesis using that f(1-3) by (auto simp: tail_ok_def)
      qed
      then show ?thesis using step ih by (metis (no_types, lifting))
    qed
  qed
qed

section \<open>The parser implements the grammar\<close>

lemma is_zero_data_returns: "i + n \<le> length data \<Longrightarrow> \<exists>b. is_zero_data data i n = Some b"
  by (induction data i n rule: is_zero_data.induct) auto

definition base_info :: "bytes \<Rightarrow> int \<Rightarrow> NTP_PacketInfo \<Rightarrow> NTP_PacketInfo" where
  "base_info p len info = info\<lparr>info_length := len, version := NTP_LVM_TO_VERSION (p ! 0),
     mode := NTP_LVM_TO_MODE (p ! 0), ext_fields := 0, ext_field_flags := 0, auth_mode := NTP_AUTH_NONE\<rparr>"

definition mac_info :: "int \<Rightarrow> bytes \<Rightarrow> NTP_PacketInfo \<Rightarrow> NTP_PacketInfo" where
  "mac_info start mac info =
     (if mac = [] then info
      else info\<lparr>auth_mode := NTP_AUTH_SYMMETRIC, mac_start := start, mac_length := int (length mac),
                mac_key_id := ntohl mac\<rparr>)"

lemma see_fields_same [simp]:
  "info_length (fold see_field fs info) = info_length info"
  by (induction fs arbitrary: info) (auto simp: see_field_def Let_def)

lemma rd32_slice: "slice p 48 len = pre @ mac \<Longrightarrow> 4 \<le> length mac \<Longrightarrow> len \<le> length p \<Longrightarrow>
    rd32 p (48 + length pre) = Some (ntohl mac)"
proof -
  assume a: "slice p 48 len = pre @ mac" "4 \<le> length mac" "len \<le> length p"
  have "length pre + length mac = len - 48" using a(1,3) by (metis length_slice length_append)
  then have l: "48 + length pre + length mac \<le> length p" using a(2,3) by linarith
  have "mac = slice p (48 + length pre) len" using a(1) by (simp only: slice_drop) simp
  then have m: "mac = take (length mac) (drop (48 + length pre) p)"
    using a by (metis append_take_drop_id drop_take length_slice slice_def length_take min.absorb4 nat_le_linear take_all)
  have "ntohl mac = ntohl (drop (48 + length pre) p)"
    using ntohl_take [of "length mac" "drop (48 + length pre) p"] a(2) l m by simp
  then show ?thesis using l a(2) by (simp add: rd32_def)
qed

lemma parse_packet_v4:
  assumes "length p = 1140" "len \<le> 1140" "len mod 4 = 0" "48 \<le> len" "NTP_LVM_TO_VERSION (p ! 0) = 4"
    and "slice p 48 len = encode_fields fs @ mac" "tail_ok fs mac"
  shows "parse_packet p (int len) info =
    Some (True, mac_info (48 + int (length (encode_fields fs))) mac (fold see_field fs (base_info p (int len) info)))"
proof -
  have "p \<noteq> []" using assms(1) by auto
  have l: "int len = 48 + int (length (encode_fields fs)) + int (length mac)"
    using arg_cong [OF assms(6), of length] assms(1,2,4) by simp
  have fs: "parse_fields p (int len) 48 (base_info p (int len) info) =
      Some (True, 48 + int (length (encode_fields fs)), fold see_field fs (base_info p (int len) info))"
    using parse_fields_complete [of len p 48 fs mac] assms by simp
  have m4: "c_mod (int len - 48) 4 = 0" using assms(3,4) by (simp add: c_mod_nonneg) presburger
  show ?thesis
  proof (cases "len = 48")
    case True
    then have "fs = []" "mac = []" using l by (cases fs; simp)+
    then show ?thesis using True assms(1,5) \<open>p \<noteq> []\<close>
      by (simp add: parse_packet_def base_info_def mac_info_def)
  next
    case False
    have long: "int len - 48 \<noteq> 4"
      using tail_ok_Cons_length [of "hd fs" "tl fs" mac] assms(7) l False
      by (cases fs) (auto simp: tail_ok_def ends_ok_def)
    have key: "mac \<noteq> [] \<Longrightarrow> 20 \<le> length mac \<and> rd32 p (nat (48 + int (length (encode_fields fs)))) = Some (ntohl mac)"
      using assms(1,2,7) rd32_slice [OF assms(6)] by (auto simp: tail_ok_def ends_ok_def nat_add_distrib)
    have "mac = [] \<Longrightarrow> encode_fields fs \<noteq> []" using l False by auto
    moreover have "int len mod 4 = 0" using assms(3) by simp
    ultimately show ?thesis using fs m4 long key l \<open>p \<noteq> []\<close> assms(3-5) False
      by (cases "mac = []") (simp_all add: parse_packet_def base_info_def mac_info_def Let_def)
  qed
qed

text \<open>A last field of 16 bytes is neither a field nor a MAC.\<close>

lemma parse_packet_short:
  assumes "length p = 1140" "len \<le> 1140" "len mod 4 = 0" "NTP_LVM_TO_VERSION (p ! 0) = 4"
    and "slice p 48 len = encode_fields fs @ encode_field f" "list_all field_ok fs" "field_ok f" "length (snd f) < 16"
  shows "\<exists>info'. parse_packet p (int len) info = Some (False, info')"
proof -
  let ?pos = "48 + length (encode_fields fs)"
  have "p \<noteq> []" using assms(1) by auto
  have f: "length (snd f) = 12" using assms(7,8) unfolding field_ok_def by presburger
  then have l: "len = ?pos + 16" using arg_cong [OF assms(5), of length] assms(1,2) by simp
  have long: "fs \<noteq> [] \<Longrightarrow> 20 < length (snd (last fs)) + length (encode_field f)"
    using assms(6) f by (cases fs rule: rev_cases) (auto simp: field_ok_def)
  have "parse_fields p (int len) (int 48) (base_info p (int len) info) =
      parse_fields p (int len) (int ?pos) (fold see_field fs (base_info p (int len) info))"
    and sl: "slice p ?pos len = encode_field f" "?pos mod 4 = 0"
    using parse_fields_prefix [of len p 48 fs "encode_field f"] assms l long by simp_all
  moreover have "parse_fields p (int len) (int ?pos) i = Some (False, int ?pos, i)" for i
    by (rule parse_fields_refuse) (use assms(1,2) sl l f in \<open>simp_all add: ends_ok_def\<close>)
  ultimately have "parse_fields p (int len) 48 (base_info p (int len) info) =
      Some (False, int ?pos, fold see_field fs (base_info p (int len) info))" by simp
  moreover have "int len mod 4 = 0" "c_mod (int len - 48) 4 = 0" "48 < int len" "int len \<noteq> 52"
    using assms(3) l sl(2) by (simp_all add: c_mod_nonneg) presburger+
  ultimately show ?thesis
    using \<open>p \<noteq> []\<close> assms(4) by (simp add: parse_packet_def base_info_def Let_def)
qed

text \<open>
  The parser always returns, and it accepts an NTPv4 packet exactly when it is a crypto NAK or a
  sequence of fields and a MAC.
\<close>

definition v4_packet_ok :: "bytes \<Rightarrow> nat \<Rightarrow> bool" where
  "v4_packet_ok p len \<longleftrightarrow> len mod 4 = 0 \<and> 48 \<le> len \<and>
     (len = 52 \<and> ntohl (slice p 48 len) = 0 \<or>
      (\<exists>fs mac. slice p 48 len = encode_fields fs @ mac \<and> tail_ok fs mac))"

lemma rd32_nak: "length p = 1140 \<Longrightarrow> len = 52 \<Longrightarrow> rd32 p 48 = Some (ntohl (slice p 48 len))"
  using rd32_slice [of p len "[]" "slice p 48 len"] by simp

lemma parse_packet_v4_returns:
  assumes "length p = 1140" "len \<le> 1140" "NTP_LVM_TO_VERSION (p ! 0) = 4"
  shows "\<exists>ok info'. parse_packet p (int len) info = Some (ok, info') \<and> ok = v4_packet_ok p len"
proof -
  have p: "p \<noteq> []" using assms(1) by auto
  define g where "g = (\<exists>fs mac. slice p 48 len = encode_fields fs @ mac \<and> tail_ok fs mac)"
  consider "\<not> (len mod 4 = 0 \<and> 48 \<le> len)"
    | "len mod 4 = 0" "48 \<le> len" "len = 52 \<and> ntohl (slice p 48 len) = 0"
    | "len mod 4 = 0" "48 \<le> len" g
    | "len mod 4 = 0" "48 \<le> len" "\<not> (len = 52 \<and> ntohl (slice p 48 len) = 0)" "\<not> g"
    by metis
  then show ?thesis
  proof cases
    case 1
    then have "\<not> (int len mod 4 = 0 \<and> 48 \<le> int len)" by presburger
    with 1 show ?thesis by (auto simp: parse_packet_def v4_packet_ok_def)
  next
    case 2
    then show ?thesis using p rd32_nak [OF assms(1)] assms(3)
      by (auto simp: parse_packet_def v4_packet_ok_def Let_def c_mod_nonneg)
  next
    case 3
    then show ?thesis using parse_packet_v4 [OF assms(1,2) 3(1,2) assms(3)] by (auto simp: v4_packet_ok_def g_def)
  next
    case 4
    have ne: "len \<noteq> 48"
    proof
      assume "len = 48"
      then have "slice p 48 len = encode_fields [] @ []" "tail_ok [] []"
        by (simp_all add: slice_def tail_ok_def ends_ok_def)
      then show False using 4(4) unfolding g_def by metis
    qed
    obtain stop info' where r: "parse_fields p (int len) (int 48) (base_info p (int len) info) = Some (False, stop, info')"
      using parse_fields_sound [OF assms(2,1) 4(1) _ 4(2), of "base_info p (int len) info"] 4(4) by (auto simp: g_def)
    have nak: "len = 52 \<Longrightarrow> \<exists>k. rd32 p 48 = Some k \<and> k \<noteq> 0"
      using 4(3) rd32_nak [OF assms(1)] by auto
    have "c_mod (int len - 48) 4 = 0" "int len mod 4 = 0" using 4(1,2) by (simp_all add: c_mod_nonneg) presburger+
    then have "parse_packet p (int len) info = Some (False, info')"
      using r nak ne p 4(1,2) assms(3) by (auto simp: parse_packet_def base_info_def Let_def)
    then show ?thesis using 4 by (auto simp: v4_packet_ok_def g_def)
  qed
qed

lemma parse_packet_v3_returns:
  assumes "length p = 1140" "len \<le> 1140" "NTP_LVM_TO_VERSION (p ! 0) \<noteq> 4"
  shows "\<exists>ok info'. parse_packet p (int len) info = Some (ok, info') \<and>
    ok = (len mod 4 = 0 \<and> 48 \<le> len \<and> NTP_LVM_TO_VERSION (p ! 0) \<in> {1..3}) \<and>
    (ok \<and> 48 < len \<longrightarrow> mac_start info' = 48 \<and> mac_length info' = int len - 48 \<and>
       auth_mode info' \<in> {NTP_AUTH_SYMMETRIC, NTP_AUTH_MSSNTP, NTP_AUTH_MSSNTP_EXT})"
proof (cases "len mod 4 = 0 \<and> 48 \<le> len")
  case False
  then have "\<not> (int len mod 4 = 0 \<and> 48 \<le> int len)" by presburger
  with False show ?thesis by (auto simp: parse_packet_def)
next
  case True
  have p: "p \<noteq> []" using assms(1) by auto
  have m: "c_mod (int len - 48) 4 = 0" "int len mod 4 = 0" using True by (simp_all add: c_mod_nonneg) presburger+
  have k: "48 < len \<Longrightarrow> \<exists>k. rd32 p 48 = Some k" using True assms(1) by (simp add: rd32_def)
  have z: "len = 68 \<Longrightarrow> \<exists>b. is_zero_data p 52 16 = Some b" "len = 120 \<Longrightarrow> \<exists>b. is_zero_data p 56 64 = Some b"
    using is_zero_data_returns [of 52 16 p] is_zero_data_returns [of 56 64 p] assms(1) by simp_all
  define v where "v = NTP_LVM_TO_VERSION (p ! 0)"
  consider "v \<notin> {1..3}" | "v \<in> {1..3}" "len = 48" | "v \<in> {1..3}" "48 < len" using True by linarith
  then show ?thesis
  proof cases
    case 3
    then obtain k where k: "rd32 p 48 = Some k" using k by blast
    have v: "\<not> v < 1" "\<not> 4 < v" "v \<le> 3" using 3 by auto
    show ?thesis using True p m 3 v z
      by (cases "v = 3 \<and> k \<noteq> 0"; cases "len = 68"; cases "len = 120")
         (auto simp: parse_packet_def Let_def k simp flip: v_def)
  qed (use True p m assms(3) in \<open>auto simp: parse_packet_def Let_def simp flip: v_def\<close>)
qed

section \<open>Building packets\<close>

lemma AddField_appends:
  assumes "length p = 1140" "info_length info = int len" "48 \<le> len" "len mod 4 = 0" "version info = 4"
    and "field_ok f" "len + length (encode_field f) \<le> 1140"
  shows "\<exists>p'. NEF_AddField p info (uint (fst f)) (snd f) (int (length (snd f))) =
      Some (Some (p', info\<lparr>info_length := int (len + length (encode_field f)), ext_fields := ext_fields info + 1\<rparr>)) \<and>
    length p' = 1140 \<and> take (len + length (encode_field f)) p' = take len p @ encode_field f"
proof -
  let ?b = "snd f" and ?h = "htons (fst f) @ htons (of_nat (4 + length (snd f)))"
  have w: "htons (of_int (uint (fst f))) = htons (fst f)"
      "htons (word_of_int (4 + int (length ?b))) = htons (of_nat (4 + length ?b))"
    by simp_all
  have m: "c_mod (int len) 4 = 0" "c_mod (int (length ?b)) 4 = 0"
    using assms(4,6) by (simp_all add: c_mod_nonneg field_ok_def)
  have b: "12 \<le> int (length ?b)" "4 + int (length ?b) \<le> 0xffff" "len + 4 + length ?b \<le> 1140"
    using assms(6,7) by (simp_all add: field_ok_def)
  have "format_field p 1140 (int len) (uint (fst f)) (int (length ?b)) =
      Some (Some (memcpy p len ?h, 4 + int (length ?b), len + 4))"
    using assms(1,3) m b w by (simp add: format_field_def)
  then have "NEF_AddBlankField p info (uint (fst f)) (int (length ?b)) =
      Some (Some (memcpy p len ?h, info\<lparr>info_length := int len + (4 + int (length ?b)),
        ext_fields := ext_fields info + 1\<rparr>, len + 4))"
    using assms(2,3,5) m b by (simp add: NEF_AddBlankField_def)
  then have "NEF_AddField p info (uint (fst f)) ?b (int (length ?b)) =
      Some (Some (memcpy (memcpy p len ?h) (len + 4) ?b, info\<lparr>info_length := int (len + length (encode_field f)),
        ext_fields := ext_fields info + 1\<rparr>))"
    using assms(1) b by (simp add: NEF_AddField_def copy_body_def add.assoc)
  moreover have "take (len + length (encode_field f)) (memcpy (memcpy p len ?h) (len + 4) ?b) =
      take len p @ encode_field f"
    using assms(1) b by (simp add: memcpy_def encode_field_def)
  ultimately show ?thesis using assms(1) b by auto
qed

definition no_info :: NTP_PacketInfo where
  "no_info = \<lparr>info_length = 48, version = 4, mode = 3, ext_fields = 0, ext_field_flags = 0,
     auth_mode = NTP_AUTH_NONE, mac_start = 0, mac_length = 0, mac_key_id = 0\<rparr>"

text \<open>Adding fields one after another; the first refusal ends the sequence.\<close>

fun add_fields :: "bytes \<Rightarrow> NTP_PacketInfo \<Rightarrow> field list \<Rightarrow> (bytes \<times> NTP_PacketInfo) ret" where
  "add_fields p info [] = Some (Some (p, info))"
| "add_fields p info (f # fs) =
     (case NEF_AddField p info (uint (fst f)) (snd f) (int (length (snd f))) of
        None \<Rightarrow> None
      | Some None \<Rightarrow> Some None
      | Some (Some (p, info)) \<Rightarrow> add_fields p info fs)"

lemma add_fields_appends:
  assumes "length p = 1140" "info_length info = int len" "48 \<le> len" "len mod 4 = 0" "version info = 4"
    and "list_all field_ok fs" "len + length (encode_fields fs) \<le> 1140"
  shows "\<exists>p'. add_fields p info fs =
      Some (Some (p', info\<lparr>info_length := int (len + length (encode_fields fs)),
        ext_fields := ext_fields info + int (length fs)\<rparr>)) \<and>
    length p' = 1140 \<and> take (len + length (encode_fields fs)) p' = take len p @ encode_fields fs"
  using assms
proof (induction fs arbitrary: p info len)
  case Nil
  then show ?case by (cases info) simp
next
  case (Cons f fs)
  let ?n = "len + length (encode_field f)"
  have le: "?n \<le> 1140" using Cons.prems(7) by simp
  obtain p1 where p1: "NEF_AddField p info (uint (fst f)) (snd f) (int (length (snd f))) =
        Some (Some (p1, info\<lparr>info_length := int ?n, ext_fields := ext_fields info + 1\<rparr>))"
      "length p1 = 1140" "take ?n p1 = take len p @ encode_field f"
    using AddField_appends [OF Cons.prems(1-5) _ le] Cons.prems(6) by auto
  have "?n mod 4 = 0" using Cons.prems(4,6) by (auto simp: field_ok_def mod_eq_0_iff_dvd)
  with Cons.IH [of p1 "info\<lparr>info_length := int ?n, ext_fields := ext_fields info + 1\<rparr>" ?n] p1 Cons.prems
  obtain p' where "add_fields p1 (info\<lparr>info_length := int ?n, ext_fields := ext_fields info + 1\<rparr>) fs =
        Some (Some (p', info\<lparr>info_length := int (?n + length (encode_fields fs)),
          ext_fields := ext_fields info + int (length (f # fs))\<rparr>))"
      "length p' = 1140" "take (?n + length (encode_fields fs)) p' = (take len p @ encode_field f) @ encode_fields fs"
    by (auto simp: add.assoc)
  then show ?case using p1(1) by (simp add: add.assoc)
qed

section \<open>Properties\<close>

text \<open>
  C6.  The parser returns for every packet of up to the size of the buffer, without a failed
  assertion or a read outside of the buffer.  It accepts an NTPv4 packet exactly when it is a
  crypto NAK or its data after the header is a sequence of well-formed extension fields followed
  by a MAC of 20 to 24 bytes, or by nothing if the last field is longer than that.
\<close>

theorem parse_packet_grammar:
  assumes "length p = 1140" "len \<le> 1140"
  shows "\<exists>ok info'. parse_packet p (int len) info = Some (ok, info') \<and>
    ok = (if NTP_LVM_TO_VERSION (p ! 0) = 4 then v4_packet_ok p len
          else len mod 4 = 0 \<and> 48 \<le> len \<and> NTP_LVM_TO_VERSION (p ! 0) \<in> {1..3})"
  using parse_packet_v4_returns [OF assms, of info] parse_packet_v3_returns [OF assms, of info]
  by (cases "NTP_LVM_TO_VERSION (p ! 0) = 4") auto

theorem parse_packet_grammar_witness:
  "\<exists>ok info'. parse_packet (0x23 # replicate 1139 0) (int 100) no_info = Some (ok, info') \<and>
    ok = (if NTP_LVM_TO_VERSION ((0x23 # replicate 1139 0) ! 0) = 4 then v4_packet_ok (0x23 # replicate 1139 0) 100
          else 100 mod 4 = (0::nat) \<and> 48 \<le> (100::nat) \<and> NTP_LVM_TO_VERSION ((0x23 # replicate 1139 0) ! 0) \<in> {1..3})"
  by (rule parse_packet_grammar) simp_all

text \<open>
  C23.  Extension fields added to an NTPv4 header and the parser: the additions succeed while the
  fields fit in the packet.  When the body of the last field is longer than 20 bytes, the packet
  they give is accepted with the same number of fields, the flags and the authentication mode
  their types call for, and no MAC.  NEF_AddField accepts shorter last fields too, and these are
  not found again: a last field with a body of 16 or 20 bytes has the length of a MAC and the
  parser takes it for one, after the other fields; with a body of 12 bytes the packet is refused.
\<close>

theorem fields_roundtrip:
  assumes "length p = 1140" "NTP_LVM_TO_VERSION (p ! 0) = 4" "version info = 4" "info_length info = 48"
    and "list_all field_ok fs" "48 + length (encode_fields fs) \<le> 1140" "fs \<noteq> []"
  shows "\<exists>p' info'. add_fields p info fs = Some (Some (p', info')) \<and>
    ext_fields info' = ext_fields info + int (length fs) \<and>
    (let base = base_info p (48 + int (length (encode_fields fs))) i0; l = length (snd (last fs)) in
     (20 < l \<longrightarrow> parse_packet p' (info_length info') i0 = Some (True, fold see_field fs base)) \<and>
     (16 \<le> l \<and> l \<le> 20 \<longrightarrow> parse_packet p' (info_length info') i0 =
        Some (True, mac_info (48 + int (length (encode_fields (butlast fs)))) (encode_field (last fs))
          (fold see_field (butlast fs) base))) \<and>
     (l < 16 \<longrightarrow> (\<exists>i. parse_packet p' (info_length info') i0 = Some (False, i))))"
proof -
  let ?n = "48 + length (encode_fields fs)"
  obtain p' where p': "add_fields p info fs = Some (Some (p', info\<lparr>info_length := int ?n,
        ext_fields := ext_fields info + int (length fs)\<rparr>))"
      "length p' = 1140" "take ?n p' = take 48 p @ encode_fields fs"
    using add_fields_appends [of p info 48 fs] assms by auto
  have sl: "slice p' 48 ?n = encode_fields fs" using p'(3) assms(1) by (simp add: slice_def)
  then have sl2: "slice p' 48 ?n = encode_fields (butlast fs) @ encode_field (last fs)"
    using assms(7) by (cases fs rule: rev_cases) (simp_all add: encode_fields_def)
  have fs: "list_all field_ok (butlast fs)" "field_ok (last fs)"
    using assms(5,7) by (cases fs rule: rev_cases; simp)+
  have "p' ! 0 = take ?n p' ! 0" by simp
  also have "\<dots> = p ! 0" using assms(1) by (simp add: p'(3) nth_append)
  finally have hd: "p' ! 0 = p ! 0" .
  then have v: "NTP_LVM_TO_VERSION (p' ! 0) = 4" "base_info p' (int ?n) i0 = base_info p (int ?n) i0"
    using assms(2) by (simp_all add: base_info_def)
  have "length (encode_fields fs) mod 4 = 0" using assms(5)
    by (induction fs) (auto simp: field_ok_def mod_eq_0_iff_dvd)
  then have m: "?n mod 4 = 0" by presburger
  have "parse_packet p' (int ?n) i0 = Some (True, fold see_field fs (base_info p (int ?n) i0))"
    if "20 < length (snd (last fs))"
    using parse_packet_v4 [OF p'(2) assms(6) m _ v(1), of fs "[]" i0] assms(5) that sl v(2)
    by (simp add: tail_ok_def ends_ok_def mac_info_def)
  moreover have "parse_packet p' (int ?n) i0 =
      Some (True, mac_info (48 + int (length (encode_fields (butlast fs)))) (encode_field (last fs))
        (fold see_field (butlast fs) (base_info p (int ?n) i0)))"
    if "16 \<le> length (snd (last fs))" "length (snd (last fs)) \<le> 20"
    using parse_packet_v4 [OF p'(2) assms(6) m _ v(1) sl2, of i0] fs(1) that v(2)
    by (simp add: tail_ok_def ends_ok_def)
  moreover have "\<exists>i. parse_packet p' (int ?n) i0 = Some (False, i)" if "length (snd (last fs)) < 16"
    by (rule parse_packet_short [OF p'(2) assms(6) m v(1) sl2 fs that])
  ultimately show ?thesis using p'(1) by (simp add: Let_def)
qed

theorem fields_roundtrip_witness:
  "\<exists>p' info'. add_fields (0x23 # replicate 1139 0) no_info
       [(0x0104, replicate 32 7), (0x010A, replicate 24 1)] = Some (Some (p', info')) \<and>
     ext_fields info' = 2 \<and>
     (\<exists>i. parse_packet p' (info_length info') no_info = Some (True, i) \<and>
          auth_mode i = NTP_AUTH_NTS \<and> ext_field_flags i = 1)"
  using fields_roundtrip [of "0x23 # replicate 1139 0" no_info
      "[(0x0104, replicate 32 7), (0x010A, replicate 24 1)]" no_info]
  by (fastforce simp: NTP_LVM_TO_VERSION_def field_ok_def see_field_def base_info_def no_info_def
        Let_def simp del: add_fields.simps)

end
