(* ===== verification/Timespec.thy ===== *)
theory Timespec
  imports Prelude
begin

text \<open>
  Time values and their conversions in \<open>util.c\<close>.  A timespec holds integers (the 64-bit time_t
  and long never reach their limits); a double is a real number, so the theorems are about the
  exact value of the expressions and leave out the rounding of floating point.  The fields of an
  NTP timestamp are given as host integers: each access in the code goes through \<open>ntohl\<close> or
  \<open>htonl\<close>, which cancel.  \<open>era_split\<close> is the configured constant NTP_ERA_SPLIT; the code for
  systems with a 64-bit time_t is modelled.
\<close>

section \<open>Timespecs\<close>

datatype timespec = Timespec (tv_sec: int) (tv_nsec: int)

datatype timeval = Timeval (tvl_sec: int) (tvl_usec: int)

abbreviation NSEC_PER_SEC :: int where "NSEC_PER_SEC \<equiv> 1000000000"

definition UTI_CompareTimespecs :: "timespec \<Rightarrow> timespec \<Rightarrow> int" where
  "UTI_CompareTimespecs a b =
     (if tv_sec a < tv_sec b then -1
      else if tv_sec a > tv_sec b then 1
      else if tv_nsec a < tv_nsec b then -1
      else if tv_nsec a > tv_nsec b then 1
      else 0)"

definition UTI_ZeroTimespec :: timespec where
  "UTI_ZeroTimespec = Timespec 0 0"

definition UTI_IsZeroTimespec :: "timespec \<Rightarrow> bool" where
  "UTI_IsZeroTimespec ts \<longleftrightarrow> tv_sec ts = 0 \<and> tv_nsec ts = 0"

definition UTI_TimevalToTimespec :: "timeval \<Rightarrow> timespec" where
  "UTI_TimevalToTimespec tv = Timespec (tvl_sec tv) (1000 * tvl_usec tv)"

definition UTI_TimespecToTimeval :: "timespec \<Rightarrow> timeval" where
  "UTI_TimespecToTimeval ts = Timeval (tv_sec ts) (c_div (tv_nsec ts) 1000)"

definition UTI_TimespecToDouble :: "timespec \<Rightarrow> real" where
  "UTI_TimespecToDouble ts = of_int (tv_sec ts) + of_int (tv_nsec ts) / 10 ^ 9"

definition UTI_NormaliseTimespec :: "timespec \<Rightarrow> timespec" where
  "UTI_NormaliseTimespec ts =
     (if tv_nsec ts \<ge> NSEC_PER_SEC \<or> tv_nsec ts < 0 then
        let sec = tv_sec ts + c_div (tv_nsec ts) NSEC_PER_SEC;
            nsec = c_mod (tv_nsec ts) NSEC_PER_SEC in
        if nsec < 0 then Timespec (sec - 1) (nsec + NSEC_PER_SEC) else Timespec sec nsec
      else ts)"

definition UTI_DoubleToTimespec :: "real \<Rightarrow> timespec" where
  "UTI_DoubleToTimespec d =
     (let sec = c_trunc d in
      UTI_NormaliseTimespec (Timespec sec (c_trunc (10 ^ 9 * (d - of_int sec)))))"

definition UTI_TimevalToDouble :: "timeval \<Rightarrow> real" where
  "UTI_TimevalToDouble tv = of_int (tvl_sec tv) + of_int (tvl_usec tv) / 10 ^ 6"

definition UTI_NormaliseTimeval :: "timeval \<Rightarrow> timeval" where
  "UTI_NormaliseTimeval x =
     (let x = (if tvl_usec x \<ge> 1000000 \<or> tvl_usec x \<le> -1000000
               then Timeval (tvl_sec x + c_div (tvl_usec x) 1000000) (c_mod (tvl_usec x) 1000000)
               else x) in
      if tvl_usec x < 0 then Timeval (tvl_sec x - 1) (tvl_usec x + 1000000) else x)"

text \<open>\<open>round\<close> of the C library: to the nearest integer, halfway cases away from zero.\<close>

definition c_round :: "real \<Rightarrow> int" where
  "c_round x = (if x < 0 then - \<lfloor>- x + 1 / 2\<rfloor> else \<lfloor>x + 1 / 2\<rfloor>)"

definition UTI_DoubleToTimeval :: "real \<Rightarrow> timeval" where
  "UTI_DoubleToTimeval a =
     (let sec = c_trunc a; frac_part = 10 ^ 6 * (a - of_int sec) in
      UTI_NormaliseTimeval (Timeval sec (c_round frac_part)))"

definition UTI_DiffTimespecs :: "timespec \<Rightarrow> timespec \<Rightarrow> timespec" where
  "UTI_DiffTimespecs a b =
     UTI_NormaliseTimespec (Timespec (tv_sec a - tv_sec b) (tv_nsec a - tv_nsec b))"

definition UTI_DiffTimespecsToDouble :: "timespec \<Rightarrow> timespec \<Rightarrow> real" where
  "UTI_DiffTimespecsToDouble a b =
     (of_int (tv_sec a) - of_int (tv_sec b)) + of_int (tv_nsec a - tv_nsec b) / 10 ^ 9"

definition UTI_AddDoubleToTimespec :: "timespec \<Rightarrow> real \<Rightarrow> timespec" where
  "UTI_AddDoubleToTimespec start increment =
     (let int_part = c_trunc increment in
      UTI_NormaliseTimespec (Timespec (tv_sec start + int_part)
        (c_trunc (of_int (tv_nsec start) + 10 ^ 9 * (increment - of_int int_part)))))"

definition UTI_AverageDiffTimespecs :: "timespec \<Rightarrow> timespec \<Rightarrow> timespec \<times> real" where
  "UTI_AverageDiffTimespecs earlier later =
     (let diff = UTI_DiffTimespecsToDouble later earlier in
      (UTI_AddDoubleToTimespec earlier (diff / 2), diff))"

definition UTI_AddDiffToTimespec :: "timespec \<Rightarrow> timespec \<Rightarrow> timespec \<Rightarrow> timespec" where
  "UTI_AddDiffToTimespec a b c = UTI_AddDoubleToTimespec c (UTI_DiffTimespecsToDouble a b)"

definition UTI_AdjustTimespec :: "timespec \<Rightarrow> timespec \<Rightarrow> real \<Rightarrow> real \<Rightarrow> timespec \<times> real" where
  "UTI_AdjustTimespec old_ts when dfreq doffset =
     (let elapsed = UTI_DiffTimespecsToDouble when old_ts;
          delta_time = elapsed * dfreq - doffset in
      (UTI_AddDoubleToTimespec old_ts delta_time, delta_time))"

section \<open>NTP timestamps\<close>

datatype NTP_int64 = NTP_int64 (hi: u32) (lo: u32)

definition UTI_ZeroNtp64 :: NTP_int64 where
  "UTI_ZeroNtp64 = NTP_int64 0 0"

definition UTI_IsZeroNtp64 :: "NTP_int64 \<Rightarrow> bool" where
  "UTI_IsZeroNtp64 ts \<longleftrightarrow> hi ts = 0 \<and> lo ts = 0"

definition UTI_CompareNtp64 :: "NTP_int64 \<Rightarrow> NTP_int64 \<Rightarrow> int" where
  "UTI_CompareNtp64 a b =
     (if hi a = hi b \<and> lo a = lo b then 0
      else let diff = sint (hi a - hi b) in
        if diff < 0 then -1
        else if diff > 0 then 1
        else if lo a < lo b then -1 else 1)"

definition UTI_IsEqualAnyNtp64 ::
    "NTP_int64 \<Rightarrow> NTP_int64 option \<Rightarrow> NTP_int64 option \<Rightarrow> NTP_int64 option \<Rightarrow> bool" where
  "UTI_IsEqualAnyNtp64 a b1 b2 b3 \<longleftrightarrow> Some a = b1 \<or> Some a = b2 \<or> Some a = b3"

abbreviation JAN_1970 :: int where "JAN_1970 \<equiv> 0x83aa7e80"

text \<open>2^32 / 10^9: the number of units of the fraction in a nanosecond.\<close>

abbreviation NSEC_PER_NTP64 :: real where "NSEC_PER_NTP64 \<equiv> 4294967296 / 1000000000"

definition UTI_TimespecToNtp64 :: "timespec \<Rightarrow> NTP_int64 option \<Rightarrow> NTP_int64" where
  "UTI_TimespecToNtp64 src fuzz =
     (let sec = (of_int (tv_sec src) :: u32); nsec = (of_int (tv_nsec src) :: u32) in
      if nsec = 0 \<and> sec = 0 then NTP_int64 0 0
      else
        let h = sec + of_int JAN_1970;
            l = (of_int (c_trunc (NSEC_PER_NTP64 * of_int (uint nsec))) :: u32) in
        case fuzz of
          None \<Rightarrow> NTP_int64 h l
        | Some f \<Rightarrow> NTP_int64 (h XOR hi f) (l XOR lo f))"

definition UTI_Ntp64ToTimespec :: "int \<Rightarrow> NTP_int64 \<Rightarrow> timespec" where
  "UTI_Ntp64ToTimespec era_split src =
     (if UTI_IsZeroNtp64 src then UTI_ZeroTimespec
      else
        let ntp_sec = hi src; ntp_frac = lo src in
        Timespec (uint (ntp_sec - of_int (era_split + JAN_1970)) + era_split)
          (c_trunc (of_int (uint ntp_frac) / NSEC_PER_NTP64)))"

definition UTI_DiffNtp64ToDouble :: "NTP_int64 \<Rightarrow> NTP_int64 \<Rightarrow> real" where
  "UTI_DiffNtp64ToDouble a b =
     of_int (sint (hi a - hi b)) + (of_int (uint (lo a)) - of_int (uint (lo b))) / (10 ^ 9 * NSEC_PER_NTP64)"

definition UTI_Ntp64ToDouble :: "NTP_int64 \<Rightarrow> real" where
  "UTI_Ntp64ToDouble src = UTI_DiffNtp64ToDouble src UTI_ZeroNtp64"

definition UTI_DoubleToNtp64 :: "real \<Rightarrow> NTP_int64" where
  "UTI_DoubleToNtp64 src =
     (let src = CLAMP (- (2 ^ 31)) src (2 ^ 31 - 1);
          h = c_round src;
          h = (if of_int h > src then h - 1 else h) in
      NTP_int64 (of_int h) (of_int (c_trunc ((src - of_int h) * (10 ^ 9 * NSEC_PER_NTP64)))))"

section \<open>Short formats\<close>

abbreviation MAX_NTP_INT32 :: real where "MAX_NTP_INT32 \<equiv> 4294967295 / 65536"

definition UTI_Ntp32ToDouble :: "u32 \<Rightarrow> real" where
  "UTI_Ntp32ToDouble x = of_int (uint x) / 65536"

definition UTI_DoubleToNtp32 :: "real \<Rightarrow> u32" where
  "UTI_DoubleToNtp32 x =
     (if x \<ge> MAX_NTP_INT32 then 0xffffffff
      else if x \<le> 0 then 0
      else let y = x * 65536; r = (of_int (c_trunc y) :: u32) in
        if of_int (uint r) < y then r + 1 else r)"

definition UTI_Ntp32f28ToDouble :: "u32 \<Rightarrow> real" where
  "UTI_Ntp32f28ToDouble r =
     (if r = 0xffffffff then MAX_NTP_INT32 else of_int (uint r) / 2 ^ 28)"

definition UTI_DoubleToNtp32f28 :: "real \<Rightarrow> u32" where
  "UTI_DoubleToNtp32f28 x =
     (if x \<ge> 4294967295 / 2 ^ 28 then 0xffffffff
      else if x \<le> 0 then 0
      else let y = x * 2 ^ 28; r = (of_int (c_trunc y) :: u32) in
        if of_int (uint r) < y then r + 1 else r)"

definition UTI_IsTimeOffsetSane :: "int \<Rightarrow> timespec \<Rightarrow> real \<Rightarrow> bool" where
  "UTI_IsTimeOffsetSane era_split ts offset =
     (if \<not> (offset > - 4294967296 \<and> offset < 4294967296) then False
      else let t = UTI_TimespecToDouble ts + offset in
        if t < 0 then False
        else if t < of_int era_split \<or> t > of_int (era_split + 2 ^ 32) then False
        else True)"

definition UTI_Log2ToDouble :: "int \<Rightarrow> real" where
  "UTI_Log2ToDouble l =
     (if l \<ge> 0 then let l = (if l > 31 then 31 else l) in 2 ^ nat l
      else let l = (if l < -31 then -31 else l) in 1 / 2 ^ nat (- l))"

text \<open>The command protocol's timespec: high and low part of the seconds, nanoseconds.\<close>

datatype net_timespec = Net_timespec (tv_sec_high: u32) (tv_sec_low: u32) (net_nsec: u32)

abbreviation TV_NOHIGHSEC :: u32 where "TV_NOHIGHSEC \<equiv> 0x7fffffff"

definition UTI_TimespecNetworkToHost :: "net_timespec \<Rightarrow> timespec" where
  "UTI_TimespecNetworkToHost src =
     (let sec_high = (if tv_sec_high src = TV_NOHIGHSEC then 0 else tv_sec_high src) in
      Timespec (sint ((push_bit 32 (ucast sec_high) :: u64) OR ucast (tv_sec_low src)))
        (min (uint (net_nsec src)) 999999999))"

definition UTI_TimespecHostToNetwork :: "timespec \<Rightarrow> net_timespec" where
  "UTI_TimespecHostToNetwork src =
     Net_timespec (ucast (drop_bit 32 (of_int (tv_sec src) :: u64))) (of_int (tv_sec src))
       (of_int (tv_nsec src))"

datatype Integer64 = Integer64 (int_high: u32) (int_low: u32)

definition UTI_Integer64NetworkToHost :: "Integer64 \<Rightarrow> u64" where
  "UTI_Integer64NetworkToHost i = push_bit 32 (ucast (int_high i)) OR ucast (int_low i)"

definition UTI_Integer64HostToNetwork :: "u64 \<Rightarrow> Integer64" where
  "UTI_Integer64HostToNetwork i = Integer64 (ucast (drop_bit 32 i)) (ucast i)"

section \<open>Order\<close>

text \<open>Timespecs are ordered as the code compares them.\<close>

instantiation timespec :: linorder
begin

definition less_timespec :: "timespec \<Rightarrow> timespec \<Rightarrow> bool" where
  "a < b \<longleftrightarrow> UTI_CompareTimespecs a b = -1"

definition less_eq_timespec :: "timespec \<Rightarrow> timespec \<Rightarrow> bool" where
  "a \<le> b \<longleftrightarrow> UTI_CompareTimespecs a b \<le> 0"

instance
  by intro_classes
     (auto simp: less_timespec_def less_eq_timespec_def UTI_CompareTimespecs_def timespec.expand split: if_splits)

end

definition norm_ts :: "timespec \<Rightarrow> bool" where
  "norm_ts ts \<longleftrightarrow> 0 \<le> tv_nsec ts \<and> tv_nsec ts < NSEC_PER_SEC"

text \<open>A timespec in nanoseconds.\<close>

definition ts_ns :: "timespec \<Rightarrow> int" where
  "ts_ns ts = tv_sec ts * NSEC_PER_SEC + tv_nsec ts"

lemma ts_ns_normalise: "ts_ns (UTI_NormaliseTimespec ts) = ts_ns ts"
  using c_div_mod [of NSEC_PER_SEC "tv_nsec ts"]
  by (simp add: UTI_NormaliseTimespec_def ts_ns_def Let_def algebra_simps)

lemma norm_normalise: "norm_ts (UTI_NormaliseTimespec ts)"
  using c_mod_bounds [of NSEC_PER_SEC "tv_nsec ts"]
  by (auto simp: UTI_NormaliseTimespec_def norm_ts_def Let_def)

lemma less_ts_ns: "norm_ts a \<Longrightarrow> norm_ts b \<Longrightarrow> a < b \<longleftrightarrow> ts_ns a < ts_ns b"
  by (auto simp: less_timespec_def UTI_CompareTimespecs_def norm_ts_def ts_ns_def)

lemma TimespecToDouble_ns: "UTI_TimespecToDouble ts = of_int (ts_ns ts) / 10 ^ 9"
  by (simp add: UTI_TimespecToDouble_def ts_ns_def add_divide_distrib)

lemma DiffTimespecs_ns: "ts_ns (UTI_DiffTimespecs a b) = ts_ns a - ts_ns b"
  by (simp add: UTI_DiffTimespecs_def ts_ns_normalise) (simp add: ts_ns_def algebra_simps)

lemma DiffTimespecsToDouble_ns: "UTI_DiffTimespecsToDouble a b = of_int (ts_ns a - ts_ns b) / 10 ^ 9"
  by (simp add: UTI_DiffTimespecsToDouble_def ts_ns_def field_simps)

lemma AddDouble_norm: "norm_ts (UTI_AddDoubleToTimespec ts d)"
  by (simp add: UTI_AddDoubleToTimespec_def Let_def norm_normalise)

text \<open>Adding a double is exact up to the truncation of the last nanosecond.\<close>

lemma AddDouble_error:
  "\<bar>UTI_TimespecToDouble (UTI_AddDoubleToTimespec ts d) - (UTI_TimespecToDouble ts + d)\<bar> < 1 / 10 ^ 9"
proof -
  let ?k = "c_trunc d"
  let ?x = "of_int (tv_nsec ts) + 10 ^ 9 * (d - of_int ?k) :: real"
  have "ts_ns (UTI_AddDoubleToTimespec ts d) = (tv_sec ts + ?k) * NSEC_PER_SEC + c_trunc ?x"
    by (simp add: UTI_AddDoubleToTimespec_def Let_def ts_ns_normalise) (simp add: ts_ns_def)
  then have e: "UTI_TimespecToDouble (UTI_AddDoubleToTimespec ts d) - (UTI_TimespecToDouble ts + d) =
      (of_int (c_trunc ?x) - ?x) / 10 ^ 9"
    by (simp add: TimespecToDouble_ns ts_ns_def field_simps)
  have "\<bar>of_int (c_trunc ?x) - ?x\<bar> < 1"
    using c_trunc_frac [of ?x] by (simp only: abs_minus_commute)
  then have "\<bar>(of_int (c_trunc ?x) - ?x) / 10 ^ 9\<bar> < 1 / 10 ^ 9"
    by (simp only: abs_divide) (simp add: divide_strict_right_mono)
  then show ?thesis unfolding e .
qed

text \<open>A non-negative increment does not move a normalised time backwards.\<close>

lemma AddDouble_mono: "norm_ts ts \<Longrightarrow> 0 \<le> d \<Longrightarrow> ts \<le> UTI_AddDoubleToTimespec ts d"
proof -
  assume n: "norm_ts ts" and d: "0 \<le> d"
  let ?k = "c_trunc d"
  let ?x = "of_int (tv_nsec ts) + 10 ^ 9 * (d - of_int ?k) :: real"
  have k: "0 \<le> ?k" "of_int ?k \<le> d" using d by (simp_all add: c_trunc_def)
  have x: "of_int (tv_nsec ts) \<le> ?x" "0 \<le> ?x" using k n by (simp_all add: norm_ts_def)
  then have "tv_nsec ts \<le> c_trunc ?x" by (simp add: c_trunc_def le_floor_iff)
  moreover have "ts_ns (UTI_AddDoubleToTimespec ts d) = (tv_sec ts + ?k) * NSEC_PER_SEC + c_trunc ?x"
    by (simp add: UTI_AddDoubleToTimespec_def Let_def ts_ns_normalise) (simp add: ts_ns_def)
  ultimately have "ts_ns ts \<le> ts_ns (UTI_AddDoubleToTimespec ts d)"
    using k(1) by (simp add: ts_ns_def algebra_simps)
  then show ?thesis
    using less_ts_ns [OF AddDouble_norm [of ts d] n] by (simp add: not_less [symmetric])
qed

lemma trunc_scale_back:
  assumes "0 \<le> n" "1 < (c::real)"
  shows "c_trunc (of_int (c_trunc (c * of_int n)) / c) \<in> {n - 1, n}"
proof -
  let ?m = "c_trunc (c * of_int n)"
  have pos: "0 \<le> c * of_int n" using assms by simp
  then have m: "of_int ?m \<le> c * of_int n" "c * of_int n < of_int ?m + 1" "0 \<le> ?m"
    by (simp_all add: c_trunc_def)
  have "of_int ?m / c \<le> of_int n" using m(1) assms by (simp add: field_simps)
  moreover have "of_int n - 1 < of_int ?m / c"
  proof -
    have "(of_int n - 1) * c < of_int ?m" using m(2) assms by (simp add: algebra_simps)
    then show ?thesis using assms by (simp add: pos_less_divide_eq)
  qed
  moreover have "0 \<le> of_int ?m / c" using m(3) assms by simp
  ultimately have "n - 1 \<le> \<lfloor>of_int ?m / c\<rfloor>" "\<lfloor>of_int ?m / c\<rfloor> \<le> n" "\<not> of_int ?m / c < 0"
    by (auto simp: le_floor_iff floor_le_iff)
  then show ?thesis by (auto simp: c_trunc_def)
qed

lemma uint_of_int_u32: "0 \<le> k \<Longrightarrow> k < 2 ^ 32 \<Longrightarrow> uint (of_int k :: u32) = k"
  by (simp add: uint_word_of_int)

text \<open>The fraction of a second as an NTP fraction fits in 32 bits.\<close>

lemma ntp_frac_bound: "0 \<le> n \<Longrightarrow> n < NSEC_PER_SEC \<Longrightarrow>
    0 \<le> c_trunc (NSEC_PER_NTP64 * of_int n) \<and> c_trunc (NSEC_PER_NTP64 * of_int n) < 2 ^ 32"
proof -
  assume n: "0 \<le> n" "n < NSEC_PER_SEC"
  then have "NSEC_PER_NTP64 * of_int n < 4294967296" "0 \<le> NSEC_PER_NTP64 * of_int n"
    by (simp_all add: field_simps)
  then show ?thesis by (simp add: c_trunc_def floor_less_iff)
qed

text \<open>Seconds of the era that starts at \<open>era_split\<close> survive the 32-bit seconds of NTP.\<close>

lemma ntp_sec_back:
  assumes "era_split \<le> s" "s < era_split + 2 ^ 32"
  shows "uint ((of_int s + of_int JAN_1970 :: u32) - of_int (era_split + JAN_1970)) + era_split = s"
proof -
  have "(of_int s + of_int JAN_1970 :: u32) - of_int (era_split + JAN_1970) = of_int (s - era_split)"
    by simp
  moreover have "uint (of_int (s - era_split) :: u32) = s - era_split"
    using assms by (intro uint_of_int_u32) simp_all
  ultimately show ?thesis by simp
qed

lemma xor_back: "(x XOR y) XOR y = (x::u32)"
  by (simp add: xor.assoc)

text \<open>The short formats round a scaled value up to the next unit.\<close>

lemma round_up_u32:
  assumes "0 < y" "y < 4294967295"
  shows "uint (let r = (of_int (c_trunc y) :: u32) in if of_int (uint r) < y then r + 1 else r) = \<lceil>y\<rceil>"
proof -
  let ?k = "\<lfloor>y\<rfloor>"
  have k: "0 \<le> ?k" "?k < 4294967295" using assms by (simp_all add: floor_less_iff)
  have r: "c_trunc y = ?k" using assms by (simp add: c_trunc_def)
  have u: "uint (of_int ?k :: u32) = ?k" using k by (intro uint_of_int_u32) simp_all
  have "uint (of_int ?k + 1 :: u32) = ?k + 1"
    using uint_of_int_u32 [of "?k + 1"] k by simp
  moreover have "?k < y \<longleftrightarrow> y \<noteq> of_int ?k" using of_int_floor_le [of y] by linarith
  ultimately show ?thesis
    by (cases "y = of_int ?k") (simp_all only: Let_def r u ceiling_altdef if_True if_False simp_thms)
qed

lemma uint_pos: "r \<noteq> (0::u32) \<Longrightarrow> 0 < uint r"
  by (metis less_le uint_0_iff uint_ge_0)

lemma round_up_exact:
  assumes "0 < (c::real)" "r \<noteq> (0xffffffff :: u32)" "r \<noteq> 0"
  shows "(let y = of_int (uint r) / c * c; q = (of_int (c_trunc y) :: u32) in
      if of_int (uint q) < y then q + 1 else q) = r"
proof -
  have "uint r \<noteq> 4294967295" using assms(2) by (metis of_int_numeral word_of_int_uint)
  moreover have "0 < uint r" using assms(3) by (rule uint_pos)
  ultimately have "0 < real_of_int (uint r)" "real_of_int (uint r) < 4294967295"
    using uint_lt2p [of r] by (simp_all del: of_int_uint)
  from round_up_u32 [OF this] have "uint (let q = (of_int (uint r) :: u32) in
      if of_int (uint q) < real_of_int (uint r) then q + 1 else q) = uint r"
    by (simp only: c_trunc_of_int ceiling_of_int)
  then show ?thesis
    using assms(1) by (simp add: Let_def word_of_int_uint del: of_int_uint)
qed

lemma Ntp32_scaled_less:
  assumes "r \<noteq> (0xffffffff :: u32)" "0 < (c::real)"
  shows "of_int (uint r) / c < 4294967295 / c"
proof -
  have "uint r \<noteq> 4294967295" using assms(1) by (metis of_int_numeral word_of_int_uint)
  then show ?thesis using uint_lt2p [of r] assms(2) by (simp add: divide_strict_right_mono del: of_int_uint)
qed

lemma DoubleToNtp32_exact: "UTI_DoubleToNtp32 (UTI_Ntp32ToDouble r) = r"
proof (cases "r = 0xffffffff \<or> r = 0")
  case True
  then show ?thesis by (auto simp: UTI_DoubleToNtp32_def UTI_Ntp32ToDouble_def)
next
  case False
  then have "\<not> of_int (uint r) / 65536 \<le> (0::real)"
    using uint_pos [of r] by (simp add: not_le del: of_int_uint)
  then show ?thesis
    using False Ntp32_scaled_less [of r 65536] round_up_exact [of 65536 r]
    by (simp add: UTI_DoubleToNtp32_def UTI_Ntp32ToDouble_def not_le [symmetric] del: of_int_uint times_divide_eq_left nonzero_mult_div_cancel_right)
qed

lemma DoubleToNtp32f28_exact: "UTI_DoubleToNtp32f28 (UTI_Ntp32f28ToDouble r) = r"
proof (cases "r = 0xffffffff \<or> r = 0")
  case True
  then show ?thesis by (auto simp: UTI_DoubleToNtp32f28_def UTI_Ntp32f28ToDouble_def)
next
  case False
  then have "\<not> of_int (uint r) / 2 ^ 28 \<le> (0::real)"
    using uint_pos [of r] by (simp add: not_le del: of_int_uint)
  then show ?thesis
    using False Ntp32_scaled_less [of r "2 ^ 28"] round_up_exact [of "2 ^ 28" r]
    by (simp add: UTI_DoubleToNtp32f28_def UTI_Ntp32f28ToDouble_def not_le [symmetric] del: of_int_uint times_divide_eq_left nonzero_mult_div_cancel_right)
qed

lemma DoubleToNtp32_up:
  assumes "0 < x" "x < MAX_NTP_INT32"
  shows "UTI_Ntp32ToDouble (UTI_DoubleToNtp32 x) = of_int \<lceil>x * 65536\<rceil> / 65536"
proof -
  have "0 < x * 65536" "x * 65536 < 4294967295" using assms by simp_all
  from round_up_u32 [OF this] show ?thesis
    using assms by (simp add: UTI_DoubleToNtp32_def UTI_Ntp32ToDouble_def Let_def del: of_int_uint)
qed

lemma of_int_u32_zero: "(of_int k :: u32) = 0 \<longleftrightarrow> k mod 2 ^ 32 = 0"
  by (simp add: word_of_int_eq_0_iff) presburger

lemma ntp_frac_zero: "0 \<le> n \<Longrightarrow> c_trunc (NSEC_PER_NTP64 * of_int n) = 0 \<longleftrightarrow> n = 0"
proof -
  assume n: "0 \<le> n"
  have "1 \<le> c_trunc (NSEC_PER_NTP64 * of_int n)" if "n \<noteq> 0"
  proof -
    have "1 \<le> n" using n that by simp
    then have "1 \<le> (of_int n :: real)" by simp
    then have "1 \<le> NSEC_PER_NTP64 * of_int n" by simp
    then show ?thesis using n by (simp add: c_trunc_def le_floor_iff)
  qed
  then show ?thesis by (cases "n = 0") (auto simp: c_trunc_def)
qed

section \<open>Properties\<close>

text \<open>
  UTI_NormaliseTimespec keeps the time a timespec stands for and brings the nanoseconds into
  [0, 10^9); UTI_DiffTimespecs is then the exact difference, normalised.
\<close>

theorem normalise_correct:
  "ts_ns (UTI_NormaliseTimespec ts) = ts_ns ts \<and> norm_ts (UTI_NormaliseTimespec ts) \<and>
   ts_ns (UTI_DiffTimespecs a b) = ts_ns a - ts_ns b \<and> norm_ts (UTI_DiffTimespecs a b)"
  by (simp add: ts_ns_normalise norm_normalise DiffTimespecs_ns) (simp add: UTI_DiffTimespecs_def norm_normalise)

text \<open>
  Adding a double to a timespec gives a normalised timespec less than a nanosecond away from
  the exact sum, and never one before the start when the increment is not negative.
\<close>

theorem add_double_correct:
  assumes "norm_ts ts" "0 \<le> d"
  shows "norm_ts (UTI_AddDoubleToTimespec ts d) \<and> ts \<le> UTI_AddDoubleToTimespec ts d \<and>
    \<bar>UTI_TimespecToDouble (UTI_AddDoubleToTimespec ts d) - (UTI_TimespecToDouble ts + d)\<bar> < 1 / 10 ^ 9"
  using assms AddDouble_norm AddDouble_mono AddDouble_error by blast

theorem add_double_correct_witness:
  "norm_ts (UTI_AddDoubleToTimespec (Timespec 10 999999999) (3 / 2)) \<and>
   Timespec 10 999999999 \<le> UTI_AddDoubleToTimespec (Timespec 10 999999999) (3 / 2) \<and>
   \<bar>UTI_TimespecToDouble (UTI_AddDoubleToTimespec (Timespec 10 999999999) (3 / 2)) -
     (UTI_TimespecToDouble (Timespec 10 999999999) + 3 / 2)\<bar> < 1 / 10 ^ 9"
  by (rule add_double_correct) (simp_all add: norm_ts_def)

text \<open>
  C22.  A time of the configured era survives the conversion to an NTP timestamp and back with the
  same second and at most one nanosecond lost, also when random bits were added to the timestamp
  and removed again, with exactly two kinds of exceptions, full seconds whose NTP timestamp is the
  special value zero: the seconds that are multiples of 2^32 (the code takes them for the unknown
  time, as the zero timespec, which stays zero), and the first second of an NTP era (as 2085978496,
  in the year 2036).  These come back as the zero timespec.
\<close>

theorem ntp64_roundtrip:
  assumes "norm_ts ts" "era_split \<le> tv_sec ts" "tv_sec ts < era_split + 2 ^ 32"
    and "fuzz = None \<or> fuzz = Some f" "g = (if fuzz = None then NTP_int64 0 0 else f)"
    and "ts' = UTI_TimespecToNtp64 ts fuzz" "t = NTP_int64 (hi ts' XOR hi g) (lo ts' XOR lo g)"
  shows "UTI_Ntp64ToTimespec era_split (UTI_TimespecToNtp64 UTI_ZeroTimespec fuzz) = UTI_ZeroTimespec \<and>
    (if tv_nsec ts = 0 \<and> tv_sec ts mod 2 ^ 32 = 0
     then ts' = NTP_int64 0 0 \<and> UTI_Ntp64ToTimespec era_split ts' = UTI_ZeroTimespec
     else if tv_nsec ts = 0 \<and> (tv_sec ts + JAN_1970) mod 2 ^ 32 = 0
     then t = NTP_int64 0 0 \<and> UTI_Ntp64ToTimespec era_split t = UTI_ZeroTimespec
     else tv_sec (UTI_Ntp64ToTimespec era_split t) = tv_sec ts \<and>
       tv_nsec (UTI_Ntp64ToTimespec era_split t) \<in> {tv_nsec ts - 1, tv_nsec ts})"
proof -
  let ?n = "tv_nsec ts"
  let ?l = "c_trunc (NSEC_PER_NTP64 * of_int ?n)"
  have n: "0 \<le> ?n" "?n < NSEC_PER_SEC" using assms(1) by (simp_all add: norm_ts_def)
  have un: "uint (of_int ?n :: u32) = ?n" using n by (intro uint_of_int_u32) simp_all
  have ul: "uint (of_int ?l :: u32) = ?l" using ntp_frac_bound [OF n] by (intro uint_of_int_u32) simp_all
  have z: "UTI_Ntp64ToTimespec era_split (NTP_int64 0 0) = UTI_ZeroTimespec"
    by (simp add: UTI_Ntp64ToTimespec_def UTI_IsZeroNtp64_def)
  have nz: "(of_int ?n :: u32) = 0 \<longleftrightarrow> ?n = 0" by (metis of_int_0 uint_0_eq un)
  have lz: "(of_int ?l :: u32) = 0 \<longleftrightarrow> ?n = 0"
    using ntp_frac_zero [OF n(1)] ul by (metis of_int_0 uint_0_eq)
  have sz: "(of_int k :: u32) = 0 \<longleftrightarrow> k mod 2 ^ 32 = 0" for k :: int
    by (metis of_int_u32_zero)
  have t: "t = NTP_int64 (of_int (tv_sec ts) + of_int JAN_1970) (of_int ?l)"
    if "\<not> (?n = 0 \<and> tv_sec ts mod 2 ^ 32 = 0)"
    using that assms(4-7) nz sz [of "tv_sec ts"] by (auto simp: UTI_TimespecToNtp64_def Let_def un xor_back)
  have "UTI_Ntp64ToTimespec era_split t = Timespec (tv_sec ts) (c_trunc (of_int ?l / NSEC_PER_NTP64))"
    if "\<not> (?n = 0 \<and> tv_sec ts mod 2 ^ 32 = 0)" "\<not> (?n = 0 \<and> (tv_sec ts + JAN_1970) mod 2 ^ 32 = 0)"
    using t [OF that(1)] that(2) ntp_sec_back [OF assms(2,3)] ul lz sz [of "tv_sec ts + JAN_1970"]
    by (auto simp: UTI_Ntp64ToTimespec_def UTI_IsZeroNtp64_def Let_def simp del: of_int_uint)
  moreover have "t = NTP_int64 0 0"
    if "\<not> (?n = 0 \<and> tv_sec ts mod 2 ^ 32 = 0)" "?n = 0 \<and> (tv_sec ts + JAN_1970) mod 2 ^ 32 = 0"
    using t [OF that(1)] that(2) lz sz [of "tv_sec ts + JAN_1970"] by simp
  moreover have "ts' = NTP_int64 0 0" if "?n = 0 \<and> tv_sec ts mod 2 ^ 32 = 0"
    using that assms(6) nz sz [of "tv_sec ts"] by (simp add: UTI_TimespecToNtp64_def)
  moreover have "UTI_TimespecToNtp64 UTI_ZeroTimespec fuzz = NTP_int64 0 0"
    by (simp add: UTI_TimespecToNtp64_def UTI_ZeroTimespec_def)
  ultimately show ?thesis using z trunc_scale_back [OF n(1), of NSEC_PER_NTP64] by auto
qed

theorem ntp64_roundtrip_witness:
  "tv_sec (UTI_Ntp64ToTimespec 0 (UTI_TimespecToNtp64 (Timespec 1700000000 500) None)) = 1700000000 \<and>
   tv_nsec (UTI_Ntp64ToTimespec 0 (UTI_TimespecToNtp64 (Timespec 1700000000 500) None)) \<in> {499, 500} \<and>
   UTI_Ntp64ToTimespec 0 (UTI_TimespecToNtp64 (Timespec 2085978496 0) None) = Timespec 0 0"
proof -
  let ?a = "UTI_TimespecToNtp64 (Timespec 1700000000 500) None"
    and ?b = "UTI_TimespecToNtp64 (Timespec 2085978496 0) None"
  have "t = NTP_int64 (hi t XOR hi (NTP_int64 0 0)) (lo t XOR lo (NTP_int64 0 0))" for t
    by (cases t) simp
  note t = this [of ?a] this [of ?b]
  show ?thesis
    using ntp64_roundtrip [OF _ _ _ _ _ refl t(1), of 0 "NTP_int64 0 0"]
      ntp64_roundtrip [OF _ _ _ _ _ refl t(2), of 0 "NTP_int64 0 0"]
    by (auto simp: norm_ts_def UTI_ZeroTimespec_def)
qed

text \<open>
  The 32-bit root delay and dispersion formats are exact on what they can represent, and a
  value between two representable ones is rounded up, never down.
\<close>

theorem ntp32_formats:
  "UTI_DoubleToNtp32 (UTI_Ntp32ToDouble r) = r \<and> UTI_DoubleToNtp32f28 (UTI_Ntp32f28ToDouble r) = r \<and>
   (0 < x \<and> x < MAX_NTP_INT32 \<longrightarrow>
      x \<le> UTI_Ntp32ToDouble (UTI_DoubleToNtp32 x) \<and> UTI_Ntp32ToDouble (UTI_DoubleToNtp32 x) < x + 1 / 65536)"
  using ceiling_correct [of "x * 65536"]
  by (auto simp: DoubleToNtp32_exact DoubleToNtp32f28_exact DoubleToNtp32_up field_simps)

theorem ntp32_formats_witness:
  "UTI_DoubleToNtp32 (UTI_Ntp32ToDouble 77) = 77 \<and> 3 / 7 \<le> UTI_Ntp32ToDouble (UTI_DoubleToNtp32 (3 / 7)) \<and>
   UTI_Ntp32ToDouble (UTI_DoubleToNtp32 (3 / 7)) < 3 / 7 + 1 / 65536"
  using ntp32_formats [of 77 "3 / 7"] by simp

end
