(* ===== verification/NtpTsMap.thy ===== *)
theory NtpTsMap
  imports Timespec
begin

text \<open>
  The RX to TX timestamp map of \<open>clientlog.c\<close>, which the server uses for interleaved mode: a
  circular buffer ordered by the receive timestamp, searched by a combined interpolation and
  binary search with a cache of the last result.  The indices are natural numbers (the buffer has
  at most 2^24 elements, so the 32-bit sums of the code do not wrap); the receive timestamps are
  64-bit words, compared by the sign of their difference.  \<open>fresh\<close> is the content of newly
  allocated memory; \<open>None\<close> is a failed assertion or an access outside of the array.
\<close>

section \<open>State\<close>

type_synonym NTP_Timestamp_Source = u8

record NtpTimestamps =
  rx_ts :: u64
  flags :: u8
  tx_ts_source :: u8
  tss_slew_epoch :: u16
  tx_ts_offset :: u32

abbreviation (input) NTPTS_DISABLED :: u8 where "NTPTS_DISABLED \<equiv> 1"
abbreviation (input) NTPTS_VALID_TX :: u8 where "NTPTS_VALID_TX \<equiv> 2"
abbreviation (input) NTPTS_FUTURE_LIMIT :: u64 where "NTPTS_FUTURE_LIMIT \<equiv> 0x100000000"
abbreviation (input) NTPTS_INSERT_LIMIT :: nat where "NTPTS_INSERT_LIMIT \<equiv> 64"

record NtpTimestampMap =
  timestamps :: "NtpTimestamps list option"
  first :: nat
  map_size :: nat
  max_size :: nat
  cached_index :: nat
  cached_rx_ts :: u64
  slew_epoch :: u16
  slew_offset :: real

section \<open>Operations\<close>

definition tss_pos :: "NtpTimestampMap \<Rightarrow> nat \<Rightarrow> nat" where
  "tss_pos m index = (first m + index) AND (max_size m - 1)"

text \<open>\<open>*get_ntp_tss(index)\<close> read and written.\<close>

definition get_ntp_tss :: "NtpTimestampMap \<Rightarrow> nat \<Rightarrow> NtpTimestamps option" where
  "get_ntp_tss m index = (case timestamps m of
     None \<Rightarrow> None
   | Some d \<Rightarrow> if tss_pos m index < length d then Some (d ! tss_pos m index) else None)"

definition put_ntp_tss :: "NtpTimestampMap \<Rightarrow> nat \<Rightarrow> NtpTimestamps \<Rightarrow> NtpTimestampMap option" where
  "put_ntp_tss m index tss = (case timestamps m of
     None \<Rightarrow> None
   | Some d \<Rightarrow> if tss_pos m index < length d
               then Some (m\<lparr>timestamps := Some (d[tss_pos m index := tss])\<rparr>) else None)"

text \<open>The index tried next, between \<open>lo_i\<close> and \<open>hi_i\<close>.\<close>

definition next_index :: "nat \<Rightarrow> u64 \<Rightarrow> nat \<Rightarrow> nat \<Rightarrow> u64 \<Rightarrow> u64 \<Rightarrow> nat" where
  "next_index i rx lo_i hi_i rx_lo rx_hi =
     (let x = (if hi_i - lo_i > 3 \<and> i mod 2 = 0 then
                 let step = (rx_hi - rx_lo) div of_nat (hi_i - lo_i);
                     step = (if step = 0 then 1 else step) in
                 (lo_i + unat ((rx - rx_lo) div step)) mod 2 ^ 32
               else lo_i + (hi_i - lo_i) div 2) in
      if x \<le> lo_i then lo_i + 1 else if x \<ge> hi_i then hi_i - 1 else x)"

partial_function (option) find_loop ::
    "NtpTimestampMap \<Rightarrow> u64 \<Rightarrow> nat \<Rightarrow> nat \<Rightarrow> nat \<Rightarrow> u64 \<Rightarrow> u64 \<Rightarrow> (bool \<times> nat \<times> NtpTimestampMap) option" where
  "find_loop m rx i lo_i hi_i rx_lo rx_hi =
     (if rx = rx_hi then Some (True, hi_i, m\<lparr>cached_index := hi_i, cached_rx_ts := rx\<rparr>)
      else if rx = rx_lo then Some (True, lo_i, m\<lparr>cached_index := lo_i, cached_rx_ts := rx\<rparr>)
      else if lo_i + 1 = hi_i then Some (False, hi_i, m)
      else
        let x = next_index i rx lo_i hi_i rx_lo rx_hi in
        case get_ntp_tss m x of
          None \<Rightarrow> None
        | Some tss \<Rightarrow>
            if sint (rx_ts tss - rx) \<le> 0
            then find_loop m rx (i + 1) x hi_i (rx_ts tss) rx_hi
            else find_loop m rx (i + 1) lo_i x rx_lo (rx_ts tss))"

definition find_ntp_rx_ts :: "NtpTimestampMap \<Rightarrow> u64 \<Rightarrow> (bool \<times> nat \<times> NtpTimestampMap) option" where
  "find_ntp_rx_ts m rx =
     (if cached_rx_ts m = rx \<and> rx \<noteq> 0 then Some (True, cached_index m, m)
      else if map_size m = 0 then Some (False, 0, m)
      else do {
        let lo_i = 0;
        let hi_i = map_size m - 1;
        rx_lo \<leftarrow> map_option rx_ts (get_ntp_tss m lo_i);
        rx_hi \<leftarrow> map_option rx_ts (get_ntp_tss m hi_i);
        if sint (rx - rx_lo) < 0 then Some (False, 0, m)
        else if sint (rx - rx_hi) > 0 then Some (False, map_size m, m)
        else find_loop m rx 0 lo_i hi_i rx_lo rx_hi })"

definition ntp64_to_int64 :: "NTP_int64 \<Rightarrow> u64" where
  "ntp64_to_int64 ts = push_bit 32 (ucast (hi ts)) OR ucast (lo ts)"

definition int64_to_ntp64 :: "u64 \<Rightarrow> NTP_int64" where
  "int64_to_ntp64 ts = NTP_int64 (ucast (drop_bit 32 ts)) (ucast ts)"

definition push_ntp_tss :: "NtpTimestampMap \<Rightarrow> nat \<Rightarrow> nat \<times> NtpTimestampMap" where
  "push_ntp_tss m index =
     (if map_size m < max_size m then (index, m\<lparr>map_size := map_size m + 1\<rparr>)
      else (if index > 0 then index - 1 else index, m\<lparr>first := (first m + 1) mod max_size m\<rparr>))"

definition set_ntp_tx :: "int \<Rightarrow> NtpTimestamps \<Rightarrow> NTP_int64 \<Rightarrow> timespec option \<Rightarrow> NTP_Timestamp_Source \<Rightarrow> NtpTimestamps" where
  "set_ntp_tx era_split tss rx tx_ts tx_src = (case tx_ts of
     None \<Rightarrow> tss\<lparr>flags := flags tss AND NOT NTPTS_VALID_TX\<rparr>
   | Some tx \<Rightarrow>
       let ts = UTI_DiffTimespecs tx (UTI_Ntp64ToTimespec era_split rx) in
       if tv_sec ts < -2 \<or> tv_sec ts > 1
       then tss\<lparr>flags := flags tss AND NOT NTPTS_VALID_TX\<rparr>
       else tss\<lparr>tx_ts_offset := of_int (tv_nsec ts) + of_int (tv_sec ts) * of_int NSEC_PER_SEC,
                flags := flags tss OR NTPTS_VALID_TX,
                tx_ts_source := tx_src\<rparr>)"

definition get_ntp_tx :: "int \<Rightarrow> NtpTimestamps \<Rightarrow> timespec \<times> NTP_Timestamp_Source" where
  "get_ntp_tx era_split tss =
     (let offset = tx_ts_offset tss in
      if flags tss AND NTPTS_VALID_TX \<noteq> 0 then
        let ts = UTI_Ntp64ToTimespec era_split (int64_to_ntp64 (rx_ts tss));
            (offset, sec) = (if sint offset \<ge> NSEC_PER_SEC
                             then (offset - of_int NSEC_PER_SEC, tv_sec ts + 1)
                             else (offset, tv_sec ts)) in
        (UTI_NormaliseTimespec (Timespec sec (tv_nsec ts + sint offset)), tx_ts_source tss)
      else (UTI_ZeroTimespec, tx_ts_source tss))"

text \<open>The loops of \<open>CLG_SaveNtpTimestamps\<close>: trimming and moving.\<close>

function trim_future :: "NtpTimestampMap \<Rightarrow> u64 \<Rightarrow> nat \<Rightarrow> NtpTimestampMap option" where
  "trim_future m rx index =
     (if index < map_size m then
        case get_ntp_tss m (map_size m - 1) of
          None \<Rightarrow> None
        | Some tss \<Rightarrow>
            if rx_ts tss - rx > NTPTS_FUTURE_LIMIT
            then trim_future (m\<lparr>map_size := map_size m - 1\<rparr>) rx index
            else Some m
      else Some m)"
  by pat_completeness auto
termination
  by (relation "measure (\<lambda>(m, rx, index). map_size m)") auto

declare trim_future.simps [simp del]

fun move_tss :: "NtpTimestampMap \<Rightarrow> nat \<Rightarrow> nat \<Rightarrow> NtpTimestampMap option" where
  "move_tss m index i =
     (if i > index then do {
        tss \<leftarrow> get_ntp_tss m (i - 1);
        m \<leftarrow> put_ntp_tss m i tss;
        move_tss m index (i - 1) }
      else Some m)"

declare move_tss.simps [simp del]

text \<open>The choice of the element for a new timestamp that belongs at \<open>index\<close>.\<close>

definition make_room :: "NtpTimestampMap \<Rightarrow> u64 \<Rightarrow> nat \<Rightarrow> (nat \<times> NtpTimestampMap) option" where
  "make_room m rx index =
     (if index = map_size m then Some (push_ntp_tss m index)
      else do {
        m \<leftarrow> trim_future m rx index;
        if index + NTPTS_INSERT_LIMIT \<ge> map_size m then do {
          let (index, m) = push_ntp_tss m index;
          m \<leftarrow> move_tss m index (map_size m - 1);
          Some (index, m) }
        else Some (if index > 0 then index - 1 else index, m) })"

definition CLG_SaveNtpTimestamps :: "(nat \<Rightarrow> NtpTimestamps) \<Rightarrow> int \<Rightarrow> bool \<Rightarrow> NtpTimestampMap \<Rightarrow>
    NTP_int64 \<Rightarrow> timespec option \<Rightarrow> NTP_Timestamp_Source \<Rightarrow> NtpTimestampMap option" where
  "CLG_SaveNtpTimestamps fresh era_split active m rx_ntp tx_ts tx_src =
     (if \<not> active then Some m
      else
        let m = (if timestamps m = None
                 then m\<lparr>timestamps := Some (map fresh [0..<max_size m])\<rparr> else m);
            rx = ntp64_to_int64 rx_ntp in
        if rx = 0 then Some m
        else do {
          (found, index, m) \<leftarrow> find_ntp_rx_ts m rx;
          if found then do {
            tss \<leftarrow> get_ntp_tss m index;
            put_ntp_tss m index (tss\<lparr>flags := flags tss OR NTPTS_DISABLED\<rparr>) }
          else if \<not> index \<le> map_size m then None
          else do {
            (index, m) \<leftarrow> make_room m rx index;
            let m = m\<lparr>cached_index := index, cached_rx_ts := rx\<rparr>;
            tss \<leftarrow> get_ntp_tss m index;
            let tss = tss\<lparr>rx_ts := rx, flags := 0, tss_slew_epoch := slew_epoch m\<rparr>;
            put_ntp_tss m index (set_ntp_tx era_split tss rx_ntp tx_ts tx_src) } })"

text \<open>The change handler; \<open>unknown_step\<close> is the change type LCL_ChangeUnknownStep.\<close>

definition handle_slew :: "NtpTimestampMap \<Rightarrow> real \<Rightarrow> bool \<Rightarrow> NtpTimestampMap" where
  "handle_slew m doffset unknown_step =
     (let m = (if unknown_step then m\<lparr>map_size := 0, cached_rx_ts := 0\<rparr> else m) in
      m\<lparr>slew_epoch := slew_epoch m + 1, slew_offset := doffset\<rparr>)"

definition CLG_UndoNtpTxTimestampSlew ::
    "NtpTimestampMap \<Rightarrow> NTP_int64 \<Rightarrow> timespec \<Rightarrow> (timespec \<times> NtpTimestampMap) option" where
  "CLG_UndoNtpTxTimestampSlew m rx_ntp tx_ts =
     (if timestamps m = None then Some (tx_ts, m)
      else do {
        (found, index, m) \<leftarrow> find_ntp_rx_ts m (ntp64_to_int64 rx_ntp);
        if \<not> found then Some (tx_ts, m)
        else do {
          tss \<leftarrow> get_ntp_tss m index;
          Some (if tss_slew_epoch tss + 1 = slew_epoch m
                then UTI_AddDoubleToTimespec tx_ts (slew_offset m) else tx_ts, m) } })"

definition CLG_UpdateNtpTxTimestamp :: "int \<Rightarrow> NtpTimestampMap \<Rightarrow> NTP_int64 \<Rightarrow> timespec option \<Rightarrow>
    NTP_Timestamp_Source \<Rightarrow> NtpTimestampMap option" where
  "CLG_UpdateNtpTxTimestamp era_split m rx_ntp tx_ts tx_src =
     (if timestamps m = None then Some m
      else do {
        (found, index, m) \<leftarrow> find_ntp_rx_ts m (ntp64_to_int64 rx_ntp);
        if \<not> found then Some m
        else do {
          tss \<leftarrow> get_ntp_tss m index;
          put_ntp_tss m index (set_ntp_tx era_split tss rx_ntp tx_ts tx_src) } })"

definition CLG_GetNtpTxTimestamp :: "int \<Rightarrow> NtpTimestampMap \<Rightarrow> NTP_int64 \<Rightarrow>
    ((timespec \<times> NTP_Timestamp_Source) option \<times> NtpTimestampMap) option" where
  "CLG_GetNtpTxTimestamp era_split m rx_ntp =
     (if timestamps m = None then Some (None, m)
      else do {
        (found, index, m) \<leftarrow> find_ntp_rx_ts m (ntp64_to_int64 rx_ntp);
        if \<not> found then Some (None, m)
        else do {
          tss \<leftarrow> get_ntp_tss m index;
          Some (if flags tss AND NTPTS_DISABLED \<noteq> 0 then None else Some (get_ntp_tx era_split tss), m) } })"

definition CLG_DisableNtpTimestamps :: "NtpTimestampMap \<Rightarrow> u64 \<Rightarrow> NTP_int64 \<Rightarrow> (u64 \<times> NtpTimestampMap) option" where
  "CLG_DisableNtpTimestamps m total_ntp_interleaved_hits rx_ntp =
     (if timestamps m = None then Some (total_ntp_interleaved_hits, m)
      else do {
        (found, index, m) \<leftarrow> find_ntp_rx_ts m (ntp64_to_int64 rx_ntp);
        m \<leftarrow> (if found then do {
                tss \<leftarrow> get_ntp_tss m index;
                put_ntp_tss m index (tss\<lparr>flags := flags tss OR NTPTS_DISABLED\<rparr>) }
              else Some m);
        Some (total_ntp_interleaved_hits + 1, m) })"

section \<open>The buffer as a list\<close>

definition tss_list :: "NtpTimestampMap \<Rightarrow> NtpTimestamps list" where
  "tss_list m = (case timestamps m of
     None \<Rightarrow> [] | Some d \<Rightarrow> map (\<lambda>i. d ! tss_pos m i) [0..<map_size m])"

definition map_shape :: "NtpTimestampMap \<Rightarrow> bool" where
  "map_shape m \<longleftrightarrow> (\<exists>k<32. max_size m = 2 ^ k) \<and> first m < max_size m \<and> map_size m \<le> max_size m \<and>
     (case timestamps m of None \<Rightarrow> map_size m = 0 | Some d \<Rightarrow> length d = max_size m)"

lemma tss_pos_mod: "map_shape m \<Longrightarrow> tss_pos m i = (first m + i) mod max_size m"
  using take_bit_eq_mask [of _ "first m + i"]
  by (auto simp: map_shape_def tss_pos_def mask_eq_exp_minus_1 take_bit_eq_mod)

lemma tss_pos_less: "map_shape m \<Longrightarrow> tss_pos m i < max_size m"
  by (simp add: tss_pos_mod) (auto simp: map_shape_def)

lemma shift_mod_inj:
  assumes "i < M" "j < M" "(f + i) mod M = (f + j) mod (M::nat)"
  shows "i = j"
proof -
  have "a = b" if "a \<le> b" "b < M" "(f + a) mod M = (f + b) mod M" for a b
  proof -
    have "M dvd (f + b) - (f + a)" using that by (metis mod_eq_dvd_iff_nat nat_add_left_cancel_le)
    then have "M dvd b - a" by simp
    then show ?thesis using that(1,2) by (metis dvd_imp_le diff_is_0_eq diff_less_mono le_antisym
        less_imp_diff_less not_less zero_less_diff)
  qed
  then show ?thesis using assms by (metis nat_le_linear)
qed

lemma tss_pos_inj: "map_shape m \<Longrightarrow> i < max_size m \<Longrightarrow> j < max_size m \<Longrightarrow> tss_pos m i = tss_pos m j \<Longrightarrow> i = j"
  using shift_mod_inj by (simp add: tss_pos_mod)

lemma length_tss_list: "map_shape m \<Longrightarrow> length (tss_list m) = map_size m"
  by (auto simp: tss_list_def map_shape_def split: option.splits)

lemma get_tss: "map_shape m \<Longrightarrow> i < map_size m \<Longrightarrow> get_ntp_tss m i = Some (tss_list m ! i)"
  using tss_pos_less [of m i]
  by (auto simp: get_ntp_tss_def tss_list_def map_shape_def split: option.splits)

lemma put_tss:
  assumes "map_shape m" "i < map_size m"
  shows "\<exists>d. put_ntp_tss m i t = Some (m\<lparr>timestamps := Some d\<rparr>) \<and> map_shape (m\<lparr>timestamps := Some d\<rparr>) \<and>
    tss_list (m\<lparr>timestamps := Some d\<rparr>) = (tss_list m)[i := t]"
proof -
  obtain d where d: "timestamps m = Some d" "length d = max_size m"
    using assms by (auto simp: map_shape_def split: option.splits)
  let ?d = "d[tss_pos m i := t]"
  have p: "tss_pos m j < length d" for j using tss_pos_less [OF assms(1)] d(2) by simp
  have same: "tss_pos (m\<lparr>timestamps := Some ?d\<rparr>) j = tss_pos m j" for j by (simp add: tss_pos_def)
  have le: "map_size m \<le> max_size m" using assms(1) by (simp add: map_shape_def)
  have "tss_list (m\<lparr>timestamps := Some ?d\<rparr>) = (tss_list m)[i := t]"
  proof (rule nth_equalityI)
    fix j assume "j < length (tss_list (m\<lparr>timestamps := Some ?d\<rparr>))"
    then have j: "j < map_size m" by (simp add: tss_list_def)
    have "tss_pos m i = tss_pos m j \<longleftrightarrow> i = j"
      using tss_pos_inj [OF assms(1), of i j] assms(2) j le by auto
    then show "tss_list (m\<lparr>timestamps := Some ?d\<rparr>) ! j = (tss_list m)[i := t] ! j"
      using j assms(2) d(1) p by (simp add: tss_list_def same nth_list_update)
  qed (use d(1) in \<open>simp add: tss_list_def\<close>)
  moreover have "map_shape (m\<lparr>timestamps := Some ?d\<rparr>)" using assms(1) d by (simp add: map_shape_def)
  ultimately show ?thesis using d(1) p by (auto simp: put_ntp_tss_def)
qed

lemma tss_list_cached [simp]: "tss_list (m\<lparr>cached_index := i, cached_rx_ts := r\<rparr>) = tss_list m"
  by (auto simp: tss_list_def tss_pos_def split: option.splits)

lemma map_shape_cached [simp]: "map_shape (m\<lparr>cached_index := i, cached_rx_ts := r\<rparr>) = map_shape m"
  by (auto simp: map_shape_def split: option.splits)

section \<open>Order\<close>

text \<open>A timestamp before another one, by the sign of their difference.\<close>

definition ts_lt :: "u64 \<Rightarrow> u64 \<Rightarrow> bool" where
  "ts_lt a b \<longleftrightarrow> 0 < sint (b - a)"

lemma sint_u64: "sint (w::u64) = (if uint w < 2 ^ 63 then uint w else uint w - 2 ^ 64)"
proof -
  have r: "0 \<le> uint w" "uint w < 2 ^ 64" using uint_lt2p [of w] by simp_all
  then have "take_bit 64 (uint w) = uint w" by (simp add: take_bit_int_eq_self)
  moreover have "bit (uint w) 63 \<longleftrightarrow> \<not> uint w < 2 ^ 63"
  proof -
    have "uint w div 2 ^ 63 = (if uint w < 2 ^ 63 then 0 else 1)"
      using r by (auto simp: div_pos_geq div_pos_pos_trivial)
    then show ?thesis by (simp add: bit_iff_odd)
  qed
  ultimately show ?thesis by (simp add: sint_uint signed_take_bit_eq_take_bit_minus)
qed

lemma sint_diff:
  assumes "uint p < 2 ^ 63" "uint q < 2 ^ 63"
  shows "sint (p - q :: u64) = uint p - uint q"
proof -
  have g: "0 \<le> uint p" "0 \<le> uint q" by simp_all
  have e: "uint (p - q) = (if uint q \<le> uint p then uint p - uint q else uint p - uint q + 2 ^ 64)"
    by (simp add: uint_sub_if')
  show ?thesis
  proof (cases "uint q \<le> uint p")
    case True
    then have "uint (p - q) = uint p - uint q" using e by simp
    moreover have "uint p - uint q < 2 ^ 63" using assms g by linarith
    ultimately show ?thesis by (simp only: sint_u64 if_True)
  next
    case False
    then have "uint (p - q) = uint p - uint q + 2 ^ 64" using e by simp
    moreover have "(2::int) ^ 64 = 2 ^ 63 + 2 ^ 63" by simp
    then have "\<not> uint p - uint q + 2 ^ 64 < 2 ^ 63" using assms g by linarith
    ultimately show ?thesis by (simp only: sint_u64 if_False)
  qed
qed

text \<open>Offsets from a common base that are less than half of the range order the timestamps.\<close>

lemma sint_base: "uint (x - a) < 2 ^ 63 \<Longrightarrow> uint (y - a) < 2 ^ 63 \<Longrightarrow>
    sint (y - x :: u64) = uint (y - a) - uint (x - a)"
  using sint_diff [of "y - a" "x - a"] by simp

lemma uint_base_eq: "uint (x - a) = uint (y - a) \<longleftrightarrow> x = (y::u64)"
  by (metis diff_add_cancel word_uint_eq_iff)

lemma ts_ltD: "ts_lt a b \<Longrightarrow> uint (b - a) < 2 ^ 63 \<and> 0 < uint (b - a)"
  using uint_lt2p [of "b - a"] by (auto simp: ts_lt_def sint_u64 split: if_splits)

definition ts_off :: "u64 list \<Rightarrow> nat \<Rightarrow> int" where
  "ts_off rs j = uint (rs ! j - rs ! 0)"

lemma ts_off_range: "sorted_wrt ts_lt rs \<Longrightarrow> j < length rs \<Longrightarrow> 0 \<le> ts_off rs j \<and> ts_off rs j < 2 ^ 63"
  using ts_ltD [of "rs ! 0" "rs ! j"] by (cases "j = 0") (auto simp: ts_off_def sorted_wrt_nth_less)

lemma ts_off_mono: "sorted_wrt ts_lt rs \<Longrightarrow> i < j \<Longrightarrow> j < length rs \<Longrightarrow> ts_off rs i < ts_off rs j"
proof -
  assume a: "sorted_wrt ts_lt rs" "i < j" "j < length rs"
  have "0 < sint (rs ! j - rs ! i)" using sorted_wrt_nth_less [OF a] by (simp add: ts_lt_def)
  then show ?thesis
    using sint_base [of "rs ! i" "rs ! 0" "rs ! j"] ts_off_range [OF a(1), of i] ts_off_range [OF a(1), of j] a
    by (simp add: ts_off_def)
qed

lemma ts_off_mono_le: "sorted_wrt ts_lt rs \<Longrightarrow> i \<le> j \<Longrightarrow> j < length rs \<Longrightarrow> ts_off rs i \<le> ts_off rs j"
  using ts_off_mono [of rs i j] by (cases "i = j") auto

section \<open>The search\<close>

lemma next_index_between: "lo' + 1 < hi' \<Longrightarrow> lo' < next_index i rx lo' hi' a b \<and> next_index i rx lo' hi' a b < hi'"
  by (auto simp: next_index_def Let_def)

definition rxs :: "NtpTimestampMap \<Rightarrow> u64 list" where
  "rxs m = map rx_ts (tss_list m)"

lemma length_rxs: "map_shape m \<Longrightarrow> length (rxs m) = map_size m"
  by (simp add: rxs_def length_tss_list)

lemma get_rx: "map_shape m \<Longrightarrow> i < map_size m \<Longrightarrow> \<exists>t. get_ntp_tss m i = Some t \<and> rx_ts t = rxs m ! i"
  by (simp add: get_tss rxs_def length_tss_list)

lemma find_loop_correct:
  assumes "map_shape m" "sorted_wrt ts_lt (rxs m)" "uint (rx - rxs m ! 0) = r" "r < 2 ^ 63"
    and "l \<le> h" "h < map_size m" "ts_off (rxs m) l \<le> r" "r \<le> ts_off (rxs m) h"
  shows "\<exists>found j. find_loop m rx i l h (rxs m ! l) (rxs m ! h) =
      Some (found, j, if found then m\<lparr>cached_index := j, cached_rx_ts := rx\<rparr> else m) \<and> j < map_size m \<and>
    (if found then rxs m ! j = rx
     else 0 < j \<and> ts_off (rxs m) (j - 1) < r \<and> r < ts_off (rxs m) j)"
  using assms(5-8)
proof (induction "h - l" arbitrary: l h i rule: less_induct)
  case less
  let ?rs = "rxs m"
  have eq: "ts_off ?rs j = r \<longleftrightarrow> ?rs ! j = rx" for j
    using uint_base_eq [of "?rs ! j" "?rs ! 0" rx] assms(3) by (simp add: ts_off_def)
  have lh: "?rs ! h = rx \<or> l + 1 = h \<or> l + 1 < h"
    using less.prems(1,3,4) eq [of h] by (cases "l = h") auto
  consider "?rs ! h = rx" | "?rs ! h \<noteq> rx" "?rs ! l = rx"
    | "?rs ! h \<noteq> rx" "?rs ! l \<noteq> rx" "l + 1 = h" | "?rs ! h \<noteq> rx" "?rs ! l \<noteq> rx" "l + 1 < h"
    using lh by blast
  then show ?case
  proof cases
    case 1
    then have "find_loop m rx i l h (?rs ! l) (?rs ! h) =
        Some (True, h, m\<lparr>cached_index := h, cached_rx_ts := rx\<rparr>)"
      by (subst find_loop.simps) simp
    then show ?thesis using 1 less.prems by (intro exI [of _ True] exI [of _ h]) simp
  next
    case 2
    then have "find_loop m rx i l h (?rs ! l) (?rs ! h) =
        Some (True, l, m\<lparr>cached_index := l, cached_rx_ts := rx\<rparr>)"
      by (subst find_loop.simps) simp
    then show ?thesis using 2 less.prems by (intro exI [of _ True] exI [of _ l]) simp
  next
    case 3
    then have "find_loop m rx i l h (?rs ! l) (?rs ! h) = Some (False, h, m)"
      by (subst find_loop.simps) simp
    moreover have "ts_off ?rs l < r" "r < ts_off ?rs h" using less.prems(3,4) 3 eq by (metis le_less)+
    ultimately show ?thesis using 3 less.prems by (intro exI [of _ False] exI [of _ h]) auto
  next
    case 4
    define x where "x = next_index i rx l h (?rs ! l) (?rs ! h)"
    have x: "l < x" "x < h" using next_index_between [OF 4(3)] by (simp_all add: x_def)
    obtain t where t: "get_ntp_tss m x = Some t" "rx_ts t = ?rs ! x"
      using get_rx [OF assms(1), of x] x less.prems by auto
    have "sint (?rs ! x - rx) = ts_off ?rs x - r"
      using sint_base [of rx "?rs ! 0" "?rs ! x"] ts_off_range [OF assms(2), of x] assms(3,4) x less.prems(2)
        length_rxs [OF assms(1)] by (simp add: ts_off_def)
    then have "find_loop m rx i l h (?rs ! l) (?rs ! h) =
        (if ts_off ?rs x \<le> r then find_loop m rx (i + 1) x h (?rs ! x) (?rs ! h)
         else find_loop m rx (i + 1) l x (?rs ! l) (?rs ! x))"
      using 4 t x by (subst find_loop.simps) (simp add: x_def [symmetric] Let_def)
    then show ?thesis
      using less.hyps [of h x "i + 1"] less.hyps [of x l "i + 1"] x less.prems
      by (cases "ts_off ?rs x \<le> r") auto
  qed
qed

text \<open>
  The position of a timestamp that is not in the map: the number of older ones, or zero when it
  is before the oldest or more than half of the range after it.
\<close>

definition gap_at :: "u64 list \<Rightarrow> u64 \<Rightarrow> nat \<Rightarrow> bool" where
  "gap_at rs rx j \<longleftrightarrow> j \<le> length rs \<and>
     (rs \<noteq> [] \<longrightarrow> (if uint (rx - rs ! 0) < 2 ^ 63
       then 0 < j \<and> (\<forall>i<j. ts_off rs i < uint (rx - rs ! 0)) \<and>
            (\<forall>i. j \<le> i \<and> i < length rs \<longrightarrow> uint (rx - rs ! 0) < ts_off rs i)
       else j = 0))"

definition cache_ok :: "NtpTimestampMap \<Rightarrow> bool" where
  "cache_ok m \<longleftrightarrow> cached_rx_ts m = 0 \<or>
     cached_index m < map_size m \<and> rxs m ! cached_index m = cached_rx_ts m"

definition map_inv :: "NtpTimestampMap \<Rightarrow> bool" where
  "map_inv m \<longleftrightarrow> map_shape m \<and> sorted_wrt ts_lt (rxs m) \<and> cache_ok m"

text \<open>A change of the cache only.\<close>

definition same_map :: "NtpTimestampMap \<Rightarrow> NtpTimestampMap \<Rightarrow> bool" where
  "same_map m m' \<longleftrightarrow> (\<exists>i r. m' = m\<lparr>cached_index := i, cached_rx_ts := r\<rparr>)"

lemma same_map_refl [simp]: "same_map m m"
  unfolding same_map_def by (intro exI [of _ "cached_index m"] exI [of _ "cached_rx_ts m"]) simp

lemma same_mapD: "same_map m m' \<Longrightarrow> tss_list m' = tss_list m \<and> rxs m' = rxs m \<and> map_shape m' = map_shape m \<and>
    map_size m' = map_size m \<and> max_size m' = max_size m \<and> slew_epoch m' = slew_epoch m \<and>
    slew_offset m' = slew_offset m \<and> timestamps m' = timestamps m"
  by (auto simp: same_map_def rxs_def)

lemma find_correct:
  assumes "map_inv m"
  shows "\<exists>found j m'. find_ntp_rx_ts m rx = Some (found, j, m') \<and> same_map m m' \<and> map_inv m' \<and>
    (if found then j < map_size m \<and> rxs m ! j = rx else rx \<notin> set (rxs m) \<and> gap_at (rxs m) rx j)"
proof -
  let ?rs = "rxs m" and ?n = "map_size m"
  have m: "map_shape m" "sorted_wrt ts_lt ?rs" "cache_ok m" using assms by (simp_all add: map_inv_def)
  have len: "length ?rs = ?n" using length_rxs [OF m(1)] .
  define r where "r = uint (rx - ?rs ! 0)"
  have notin: "rx \<notin> set ?rs" if "gap_at ?rs rx j" for j
  proof
    assume "rx \<in> set ?rs"
    then obtain i where i: "i < ?n" "?rs ! i = rx" by (metis in_set_conv_nth len)
    then have "r = ts_off ?rs i" by (simp add: r_def ts_off_def)
    then show False using that i ts_off_range [OF m(2), of i] len
      by (cases "i < j") (auto simp: gap_at_def r_def not_less split: if_splits dest: spec [of _ i])
  qed
  consider "cached_rx_ts m = rx \<and> rx \<noteq> 0" | "\<not> (cached_rx_ts m = rx \<and> rx \<noteq> 0)" "?n = 0"
    | "\<not> (cached_rx_ts m = rx \<and> rx \<noteq> 0)" "0 < ?n" by blast
  then show ?thesis
  proof cases
    case 1
    then show ?thesis using m(3) assms by (auto simp: find_ntp_rx_ts_def cache_ok_def)
  next
    case 2
    then show ?thesis using assms len notin by (auto simp: find_ntp_rx_ts_def gap_at_def)
  next
    case 3
    obtain t0 t1 where t: "get_ntp_tss m 0 = Some t0" "rx_ts t0 = ?rs ! 0"
        "get_ntp_tss m (?n - 1) = Some t1" "rx_ts t1 = ?rs ! (?n - 1)"
      using get_rx [OF m(1), of 0] get_rx [OF m(1), of "?n - 1"] 3(2) by auto
    have c: "find_ntp_rx_ts m rx =
        (if sint (rx - ?rs ! 0) < 0 then Some (False, 0, m)
         else if sint (rx - ?rs ! (?n - 1)) > 0 then Some (False, ?n, m)
         else find_loop m rx 0 0 (?n - 1) (?rs ! 0) (?rs ! (?n - 1)))"
      using 3 t by (auto simp: find_ntp_rx_ts_def Let_def)
    have r63: "sint (rx - ?rs ! 0) < 0 \<longleftrightarrow> \<not> r < 2 ^ 63"
      using uint_lt2p [of "rx - ?rs ! 0"] by (auto simp: r_def sint_u64)
    have top: "r < 2 ^ 63 \<Longrightarrow> sint (rx - ?rs ! (?n - 1)) = r - ts_off ?rs (?n - 1)"
      using sint_base [of "?rs ! (?n - 1)" "?rs ! 0" rx] ts_off_range [OF m(2), of "?n - 1"] 3(2) len
      by (simp add: r_def ts_off_def)
    consider "\<not> r < 2 ^ 63" | "r < 2 ^ 63" "ts_off ?rs (?n - 1) < r" | "r < 2 ^ 63" "r \<le> ts_off ?rs (?n - 1)"
      by linarith
    then show ?thesis
    proof cases
      case 1
      then have "gap_at ?rs rx 0" by (simp add: gap_at_def r_def)
      with 1 show ?thesis using c r63 assms notin by auto
    next
      case 2
      have "ts_off ?rs i < r" if "i < ?n" for i
      proof -
        have "i \<le> ?n - 1" using that by simp
        then show ?thesis using ts_off_mono_le [OF m(2), of i "?n - 1"] that 2(2) len by simp
      qed
      then have "gap_at ?rs rx ?n" using 2 3(2) len by (auto simp: gap_at_def r_def)
      with 2 show ?thesis using c r63 top assms notin by auto
    next
      case le: 3
      have "ts_off ?rs 0 \<le> r" by (simp add: ts_off_def r_def)
      then obtain found j where fl: "find_loop m rx 0 0 (?n - 1) (?rs ! 0) (?rs ! (?n - 1)) =
            Some (found, j, if found then m\<lparr>cached_index := j, cached_rx_ts := rx\<rparr> else m)" "j < ?n"
          "if found then ?rs ! j = rx else 0 < j \<and> ts_off ?rs (j - 1) < r \<and> r < ts_off ?rs j"
        using find_loop_correct [OF m(1,2) _ le(1), of rx 0 "?n - 1" 0] le 3(2) by (auto simp: r_def)
      have f: "find_ntp_rx_ts m rx = Some (found, j, if found then m\<lparr>cached_index := j, cached_rx_ts := rx\<rparr> else m)"
        using c r63 top le fl(1) by simp
      show ?thesis
      proof (cases found)
        case True
        let ?m = "m\<lparr>cached_index := j, cached_rx_ts := rx\<rparr>"
        have "same_map m ?m" unfolding same_map_def by blast
        moreover have "map_inv ?m" using m fl(2,3) True by (simp add: map_inv_def cache_ok_def rxs_def)
        ultimately show ?thesis using f fl True by auto
      next
        case False
        have "ts_off ?rs i < r" if "i < j" for i
        proof -
          have "i \<le> j - 1" "j - 1 < ?n" using that fl(2) by simp_all
          then show ?thesis using ts_off_mono_le [OF m(2), of i "j - 1"] fl(3) False len by simp
        qed
        moreover have "r < ts_off ?rs i" if "j \<le> i" "i < ?n" for i
          using ts_off_mono_le [OF m(2), of j i] that fl False len by simp
        ultimately have "gap_at ?rs rx j" using fl False len le(1) by (auto simp: gap_at_def r_def)
        then show ?thesis using f False assms notin by auto
      qed
    qed
  qed
qed

section \<open>Saving a timestamp\<close>

definition ins_at :: "nat \<Rightarrow> 'a \<Rightarrow> 'a list \<Rightarrow> 'a list" where
  "ins_at j x xs = take j xs @ x # drop j xs"

lemma tss_list_nth: "timestamps m = Some d \<Longrightarrow> i < map_size m \<Longrightarrow> tss_list m ! i = d ! tss_pos m i"
  by (simp add: tss_list_def)

text \<open>
  \<open>push_ntp_tss\<close> makes room: a new last element, after the oldest one was dropped if the buffer
  was full.
\<close>

lemma push_list:
  assumes "map_shape m" "timestamps m \<noteq> None" "index \<le> map_size m"
  defines "xs \<equiv> tss_list m"
  defines "bs \<equiv> if map_size m < max_size m then xs else tl xs"
  shows "\<exists>m' g. push_ntp_tss m index = (if map_size m < max_size m then index else index - 1, m') \<and>
    map_shape m' \<and> timestamps m' \<noteq> None \<and> tss_list m' = bs @ [g] \<and>
    slew_epoch m' = slew_epoch m \<and> max_size m' = max_size m"
proof -
  obtain d where d: "timestamps m = Some d" using assms(2) by blast
  have len: "length xs = map_size m" using length_tss_list [OF assms(1)] by (simp add: xs_def)
  show ?thesis
  proof (cases "map_size m < max_size m")
    case True
    let ?m = "m\<lparr>map_size := map_size m + 1\<rparr>"
    have "tss_pos ?m = tss_pos m" by (simp add: tss_pos_def fun_eq_iff)
    then have "tss_list ?m = xs @ [d ! tss_pos m (map_size m)]"
      using d by (simp add: tss_list_def xs_def)
    moreover have "map_shape ?m" using assms(1) True d by (simp add: map_shape_def)
    ultimately show ?thesis using True d by (auto simp: push_ntp_tss_def bs_def)
  next
    case False
    let ?m = "m\<lparr>first := (first m + 1) mod max_size m\<rparr>" and ?M = "max_size m"
    have full: "map_size m = ?M" "0 < ?M" using False assms(1) by (auto simp: map_shape_def)
    have sh: "map_shape ?m" using assms(1) full d by (auto simp: map_shape_def)
    have pos: "tss_pos ?m i = (first m + Suc i) mod ?M" for i
      using tss_pos_mod [OF sh, of i] by (simp add: mod_add_left_eq)
    have "tss_list ?m = tl xs @ [xs ! 0]"
    proof (rule nth_equalityI)
      show "length (tss_list ?m) = length (tl xs @ [xs ! 0])"
        using length_tss_list [OF sh] full len by simp
    next
      fix i assume "i < length (tss_list ?m)"
      then have i: "i < ?M" using length_tss_list [OF sh] full by simp
      have a: "tss_list ?m ! i = d ! ((first m + Suc i) mod ?M)"
        using tss_list_nth [of ?m d i] d i full pos by simp
      have b: "xs ! j = d ! ((first m + j) mod ?M)" if "j < ?M" for j
        using tss_list_nth [of m d j] d that full tss_pos_mod [OF assms(1), of j] by (simp add: xs_def)
      show "tss_list ?m ! i = (tl xs @ [xs ! 0]) ! i"
      proof (cases "Suc i < ?M")
        case True
        then show ?thesis using a b [of "Suc i"] len full by (simp add: nth_append nth_tl)
      next
        case last: False
        then have "Suc i = ?M" using i by simp
        then show ?thesis using a b [of 0] len full by (simp add: nth_append)
      qed
    qed
    then show ?thesis using False sh d by (auto simp: push_ntp_tss_def bs_def)
  qed
qed

lemma trim_list:
  assumes "map_shape m" "index \<le> map_size m"
  shows "\<exists>n. trim_future m rx index = Some (m\<lparr>map_size := n\<rparr>) \<and> index \<le> n \<and> n \<le> map_size m \<and>
    map_shape (m\<lparr>map_size := n\<rparr>) \<and> tss_list (m\<lparr>map_size := n\<rparr>) = take n (tss_list m) \<and>
    (index < n \<longrightarrow> uint (rxs m ! (n - 1) - rx) \<le> 2 ^ 32)"
  using assms
proof (induction m rx index rule: trim_future.induct)
  case (1 m rx index)
  let ?n = "map_size m"
  show ?case
  proof (cases "index < ?n")
    case False
    then show ?thesis using "1.prems" length_tss_list [of m]
      by (subst trim_future.simps) (auto intro!: exI [of _ ?n])
  next
    case True
    obtain t where t: "get_ntp_tss m (?n - 1) = Some t" "rx_ts t = rxs m ! (?n - 1)"
      using get_rx [OF "1.prems"(1), of "?n - 1"] True by auto
    show ?thesis
    proof (cases "rx_ts t - rx > NTPTS_FUTURE_LIMIT")
      case far: True
      let ?m = "m\<lparr>map_size := ?n - 1\<rparr>"
      have sh: "map_shape ?m" using "1.prems"(1) True by (auto simp: map_shape_def split: option.splits)
      have pos: "tss_pos (m\<lparr>map_size := k\<rparr>) = tss_pos m" for k by (simp add: tss_pos_def fun_eq_iff)
      have tk: "tss_list ?m = take (?n - 1) (tss_list m)"
        by (auto simp: tss_list_def pos take_map split: option.splits)
      have "index \<le> map_size ?m" using True by simp
      from "1.IH" [OF True t(1) far sh this] obtain n where n: "trim_future ?m rx index = Some (m\<lparr>map_size := n\<rparr>)"
          "index \<le> n" "n \<le> ?n - 1" "map_shape (m\<lparr>map_size := n\<rparr>)"
          "tss_list (m\<lparr>map_size := n\<rparr>) = take n (tss_list ?m)"
          "index < n \<longrightarrow> uint (rxs ?m ! (n - 1) - rx) \<le> 2 ^ 32"
        by auto
      have "trim_future m rx index = Some (m\<lparr>map_size := n\<rparr>)"
        using True t far n(1) by (subst trim_future.simps) simp
      moreover have "index < n \<Longrightarrow> rxs ?m ! (n - 1) = rxs m ! (n - 1)"
        using n(3) length_tss_list [OF "1.prems"(1)] True unfolding rxs_def tk by simp
      ultimately show ?thesis using n tk by (intro exI [of _ n]) (auto simp: min_def)
    next
      case near: False
      then have "trim_future m rx index = Some (m\<lparr>map_size := ?n\<rparr>)"
        using True t by (subst trim_future.simps) simp
      moreover have "uint (rxs m ! (?n - 1) - rx) \<le> 2 ^ 32"
        using near t(2) by (simp add: word_less_def not_less)
      ultimately show ?thesis using "1.prems" length_tss_list [of m] by (intro exI [of _ ?n]) simp
    qed
  qed
qed

lemma move_list:
  assumes "map_shape m" "index \<le> i" "i < map_size m" "timestamps m \<noteq> None"
  shows "\<exists>d. move_tss m index i = Some (m\<lparr>timestamps := Some d\<rparr>) \<and> map_shape (m\<lparr>timestamps := Some d\<rparr>) \<and>
    (\<forall>j<map_size m. tss_list (m\<lparr>timestamps := Some d\<rparr>) ! j =
      (if index < j \<and> j \<le> i then tss_list m ! (j - 1) else tss_list m ! j))"
  using assms
proof (induction i arbitrary: m)
  case 0
  then show ?case by (subst move_tss.simps) (cases m, auto)
next
  case (Suc i)
  show ?case
  proof (cases "index < Suc i")
    case False
    then show ?thesis using Suc.prems by (subst move_tss.simps) (cases m, auto)
  next
    case True
    have g: "get_ntp_tss m i = Some (tss_list m ! i)" using get_tss [OF Suc.prems(1)] Suc.prems(3) by simp
    obtain d1 where d1: "put_ntp_tss m (Suc i) (tss_list m ! i) = Some (m\<lparr>timestamps := Some d1\<rparr>)"
        "map_shape (m\<lparr>timestamps := Some d1\<rparr>)"
        "tss_list (m\<lparr>timestamps := Some d1\<rparr>) = (tss_list m)[Suc i := tss_list m ! i]"
      using put_tss [OF Suc.prems(1,3)] by blast
    let ?m1 = "m\<lparr>timestamps := Some d1\<rparr>"
    obtain d where d: "move_tss ?m1 index i = Some (m\<lparr>timestamps := Some d\<rparr>)" "map_shape (m\<lparr>timestamps := Some d\<rparr>)"
        "\<forall>j<map_size m. tss_list (m\<lparr>timestamps := Some d\<rparr>) ! j =
          (if index < j \<and> j \<le> i then tss_list ?m1 ! (j - 1) else tss_list ?m1 ! j)"
      using Suc.IH [of ?m1] d1(2) True Suc.prems(3) by auto
    have "move_tss m index (Suc i) = Some (m\<lparr>timestamps := Some d\<rparr>)"
      using True g d1(1) d(1) by (subst move_tss.simps) simp
    then show ?thesis
      using d(2,3) d1(3) Suc.prems(3) True length_tss_list [OF Suc.prems(1)]
      by (intro exI [of _ d]) (auto simp: nth_list_update le_Suc_eq)
  qed
qed

text \<open>The element at \<open>index\<close> after the move, over the element that was pushed.\<close>

lemma move_insert:
  assumes "map_shape m" "tss_list m = bs @ [g]" "index \<le> length bs" "timestamps m \<noteq> None"
  shows "\<exists>d. move_tss m index (map_size m - 1) = Some (m\<lparr>timestamps := Some d\<rparr>) \<and>
    map_shape (m\<lparr>timestamps := Some d\<rparr>) \<and>
    (\<exists>g'. tss_list (m\<lparr>timestamps := Some d\<rparr>) = ins_at index g' bs)"
proof -
  have n: "map_size m = Suc (length bs)" using length_tss_list [OF assms(1)] assms(2) by simp
  then have "index \<le> map_size m - 1" "map_size m - 1 < map_size m" using assms(3) by simp_all
  from move_list [OF assms(1) this assms(4)]
  obtain d where d: "move_tss m index (map_size m - 1) = Some (m\<lparr>timestamps := Some d\<rparr>)"
      "map_shape (m\<lparr>timestamps := Some d\<rparr>)"
      "\<forall>j<map_size m. tss_list (m\<lparr>timestamps := Some d\<rparr>) ! j =
         (if index < j \<and> j \<le> map_size m - 1 then tss_list m ! (j - 1) else tss_list m ! j)" by blast
  let ?ys = "tss_list (m\<lparr>timestamps := Some d\<rparr>)"
  have l: "length ?ys = Suc (length bs)" using length_tss_list [OF d(2)] n by simp
  have e: "?ys ! j = ins_at index (?ys ! index) bs ! j" if "j < Suc (length bs)" for j
  proof -
    have e: "?ys ! j = (if index < j \<and> j \<le> length bs then (bs @ [g]) ! (j - 1) else (bs @ [g]) ! j)"
      using d(3) that n assms(2) by simp
    consider "j < index" | "j = index" | "index < j" by linarith
    then show ?thesis
    proof cases
      case 1
      then show ?thesis using e assms(3) by (simp add: ins_at_def nth_append)
    next
      case 2
      then show ?thesis using assms(3) by (simp add: ins_at_def nth_append)
    next
      case 3
      then obtain k where k: "j = Suc (index + k)" by (metis less_iff_Suc_add)
      then have "ins_at index (?ys ! index) bs ! j = bs ! (index + k)"
        using assms(3) that by (simp add: ins_at_def nth_append)
      then show ?thesis using e k that by (simp add: nth_append)
    qed
  qed
  have "?ys = ins_at index (?ys ! index) bs"
  proof (rule nth_equalityI)
    show "length ?ys = length (ins_at index (?ys ! index) bs)" using l assms(3) by (simp add: ins_at_def)
  qed (simp only: l e)
  then show ?thesis using d by blast
qed

lemma ins_at_update: "j \<le> length xs \<Longrightarrow> (ins_at j y xs)[j := x] = ins_at j x xs"
  by (simp add: ins_at_def list_update_append)

lemma map_ins_at: "map f (ins_at j x xs) = ins_at j (f x) (map f xs)"
  by (simp add: ins_at_def take_map drop_map)

text \<open>The timestamps before and after the position of a new one.\<close>

definition gap_lt :: "u64 list \<Rightarrow> u64 \<Rightarrow> nat \<Rightarrow> bool" where
  "gap_lt rs rx j \<longleftrightarrow> j \<le> length rs \<and> (\<forall>x\<in>set (take j rs). ts_lt x rx) \<and> (\<forall>x\<in>set (drop j rs). ts_lt rx x)"

lemma sorted_ins_at: "sorted_wrt ts_lt rs \<Longrightarrow> gap_lt rs rx j \<Longrightarrow> sorted_wrt ts_lt (ins_at j rx rs)"
proof -
  assume a: "sorted_wrt ts_lt rs" "gap_lt rs rx j"
  have "sorted_wrt ts_lt (take j rs @ drop j rs)" using a(1) by simp
  then show ?thesis using a(2) unfolding sorted_wrt_append
    by (auto simp: ins_at_def gap_lt_def sorted_wrt_append)
qed

lemma gap_lt_tl: "gap_lt rs rx j \<Longrightarrow> rs \<noteq> [] \<Longrightarrow> gap_lt (tl rs) rx (j - 1)"
  by (cases rs; cases j) (auto simp: gap_lt_def)

lemma sorted_replace:
  assumes "sorted_wrt ts_lt rs" "gap_lt rs rx j" "rs \<noteq> []"
  shows "sorted_wrt ts_lt (rs[j - 1 := rx])"
proof (cases j)
  case 0
  then show ?thesis using assms by (cases rs) (auto simp: gap_lt_def)
next
  case (Suc i)
  have l: "i < length rs" using assms(2) Suc by (simp add: gap_lt_def)
  have "rs = take i rs @ rs ! i # drop (Suc i) rs" by (rule id_take_nth_drop [OF l])
  then have s: "sorted_wrt ts_lt (take i rs @ rs ! i # drop (Suc i) rs)" using assms(1) by metis
  have "rs[i := rx] = take i rs @ rx # drop (Suc i) rs" using upd_conv_take_nth_drop [OF l] .
  moreover have "set (take i rs) \<subseteq> set (take j rs)" using Suc by (simp add: set_take_subset_set_take)
  ultimately show ?thesis using s assms(2) Suc by (auto simp: sorted_wrt_append gap_lt_def)
qed

lemma gap_at_lt:
  assumes "sorted_wrt ts_lt rs" "gap_at rs rx j"
    and "j < n \<longrightarrow> uint (rs ! (n - 1) - rx) \<le> 2 ^ 32" "j \<le> n" "n \<le> length rs"
  shows "gap_lt (take n rs) rx j"
proof (cases "rs = []")
  case True
  then show ?thesis using assms(2) by (simp add: gap_lt_def gap_at_def)
next
  case False
  define r where "r = uint (rx - rs ! 0)"
  have gap: "if r < 2 ^ 63 then 0 < j \<and> (\<forall>i<j. ts_off rs i < r) \<and> (\<forall>i. j \<le> i \<and> i < length rs \<longrightarrow> r < ts_off rs i)
      else j = 0" using assms(2) False by (simp add: gap_at_def r_def)
  have off: "0 \<le> ts_off rs i" "ts_off rs i < 2 ^ 63" if "i < length rs" for i
    using ts_off_range [OF assms(1) that] by auto
  have nth: "\<exists>i. x = rs ! i \<and> i < length rs \<and> i < j" if "x \<in> set (take j rs)" for x
    using that by (auto simp: in_set_conv_nth)
  have nth': "\<exists>i. x = rs ! i \<and> i < n \<and> j \<le> i" if x: "x \<in> set (drop j (take n rs))" for x
  proof -
    obtain i where "i < n - j" "x = rs ! (j + i)"
      using x assms(5) by (auto simp: in_set_conv_nth)
    then show ?thesis by (intro exI [of _ "j + i"]) simp
  qed
  show ?thesis
  proof (cases "r < 2 ^ 63")
    case True
    have s: "sint (rx - rs ! i) = r - ts_off rs i" "sint (rs ! i - rx) = ts_off rs i - r" if "i < length rs" for i
      using sint_base [of "rs ! i" "rs ! 0" rx] sint_base [of rx "rs ! 0" "rs ! i"] off [OF that] True
      by (simp_all add: r_def ts_off_def)
    show ?thesis using gap True s assms(4,5) unfolding gap_lt_def ts_lt_def
      by (auto dest!: nth nth')
  next
    case False
    have j: "j = 0" using gap False by simp
    have r: "r < 2 ^ 64" using uint_lt2p [of "rx - rs ! 0"] by (simp add: r_def)
    have u: "uint (rs ! i - rx) = ts_off rs i + (2 ^ 64 - r)" if i: "i < length rs" for i
    proof -
      have "rs ! i - rx = (rs ! i - rs ! 0) - (rx - rs ! 0)" by simp
      then have "uint (rs ! i - rx) = uint ((rs ! i - rs ! 0) - (rx - rs ! 0))" by simp
      also have "\<dots> = ts_off rs i - r + 2 ^ LENGTH(64)"
      proof -
        have "\<not> r \<le> ts_off rs i" using off(2) [OF i] False by linarith
        then show ?thesis using uint_sub_if' [of "rs ! i - rs ! 0" "rx - rs ! 0"]
          by (simp only: ts_off_def r_def if_False)
      qed
      finally show ?thesis by simp
    qed
    have "ts_lt rx (rs ! i)" if i: "i < n" for i
    proof -
      have "ts_off rs i \<le> ts_off rs (n - 1)" using ts_off_mono_le [OF assms(1), of i "n - 1"] i assms(5) by simp
      then have "uint (rs ! i - rx) \<le> 2 ^ 32" "0 < uint (rs ! i - rx)"
        using u [of i] u [of "n - 1"] assms(3,5) i j off [of i] r by simp_all
      then show ?thesis by (simp add: ts_lt_def sint_u64)
    qed
    then show ?thesis using j by (auto simp: gap_lt_def in_set_conv_nth)
  qed
qed

text \<open>
  Room for a new timestamp: an element in which it keeps the order, all other elements being
  elements of the buffer before.
\<close>

definition room_at :: "NtpTimestampMap \<Rightarrow> u64 \<Rightarrow> nat \<Rightarrow> NtpTimestampMap \<Rightarrow> bool" where
  "room_at m rx i m' \<longleftrightarrow> map_shape m' \<and> timestamps m' \<noteq> None \<and> slew_epoch m' = slew_epoch m \<and>
     i < map_size m' \<and> sorted_wrt ts_lt ((rxs m')[i := rx]) \<and>
     (\<forall>k<map_size m'. k \<noteq> i \<longrightarrow> tss_list m' ! k \<in> set (tss_list m))"

lemma room_insert:
  assumes "map_shape m'" "timestamps m' \<noteq> None" "slew_epoch m' = slew_epoch m"
    and "tss_list m' = ins_at i g bs" "i \<le> length bs" "set bs \<subseteq> set (tss_list m)"
    and "sorted_wrt ts_lt (map rx_ts bs)" "gap_lt (map rx_ts bs) rx i"
  shows "room_at m rx i m'"
proof -
  have n: "map_size m' = Suc (length bs)"
    using length_tss_list [OF assms(1)] assms(4,5) by (simp add: ins_at_def)
  have "(rxs m')[i := rx] = ins_at i rx (map rx_ts bs)"
    using assms(5) by (simp add: rxs_def assms(4) map_ins_at ins_at_update)
  moreover have "tss_list m' ! k \<in> set bs" if k: "k < map_size m'" "k \<noteq> i" for k
  proof (cases "k < i")
    case True
    then show ?thesis using assms(5) by (simp add: assms(4) ins_at_def nth_append)
  next
    case False
    then obtain j where "k = Suc (i + j)" using k(2) by (metis less_iff_Suc_add nat_neq_iff)
    then show ?thesis using assms(5) k(1) n by (simp add: assms(4) ins_at_def nth_append)
  qed
  ultimately show ?thesis
    using assms n sorted_ins_at [OF assms(7,8)] by (auto simp: room_at_def)
qed

lemma push_base:
  assumes "map_shape m" "timestamps m \<noteq> None" "sorted_wrt ts_lt (rxs m)" "gap_lt (rxs m) rx index"
  defines "bs \<equiv> if map_size m < max_size m then tss_list m else tl (tss_list m)"
  defines "i \<equiv> if map_size m < max_size m then index else index - 1"
  shows "i \<le> length bs \<and> set bs \<subseteq> set (tss_list m) \<and> sorted_wrt ts_lt (map rx_ts bs) \<and> gap_lt (map rx_ts bs) rx i"
proof -
  have len: "length (tss_list m) = map_size m" using length_tss_list [OF assms(1)] .
  have idx: "index \<le> map_size m" using assms(4) len by (simp add: gap_lt_def rxs_def)
  show ?thesis
  proof (cases "map_size m < max_size m")
    case True
    then show ?thesis using assms(3,4) len idx by (simp add: bs_def i_def rxs_def)
  next
    case False
    then have ne: "tss_list m \<noteq> []" using assms(1) len by (auto simp: map_shape_def)
    have "sorted_wrt ts_lt (tl (rxs m))" using assms(3) by (cases "rxs m") simp_all
    moreover have "gap_lt (tl (rxs m)) rx (index - 1)" using gap_lt_tl [OF assms(4)] ne by (simp add: rxs_def)
    ultimately show ?thesis
      using False len idx ne by (auto simp: bs_def i_def rxs_def map_tl dest: list.set_sel(2))
  qed
qed

lemma make_room_correct:
  assumes "map_shape m" "timestamps m \<noteq> None" "sorted_wrt ts_lt (rxs m)" "gap_at (rxs m) rx index"
  shows "\<exists>i m'. make_room m rx index = Some (i, m') \<and> room_at m rx i m'"
proof -
  have len: "length (rxs m) = map_size m" "index \<le> map_size m"
    using length_rxs [OF assms(1)] assms(4) by (auto simp: gap_at_def)
  show ?thesis
  proof (cases "index = map_size m")
    case True
    have gap: "gap_lt (rxs m) rx index" using gap_at_lt [OF assms(3,4), of index] True len by simp
    obtain m' g where p: "push_ntp_tss m index = (if map_size m < max_size m then index else index - 1, m')"
        "map_shape m'" "timestamps m' \<noteq> None"
        "tss_list m' = (if map_size m < max_size m then tss_list m else tl (tss_list m)) @ [g]"
        "slew_epoch m' = slew_epoch m"
      using push_list [OF assms(1,2), of index] len by auto
    let ?bs = "if map_size m < max_size m then tss_list m else tl (tss_list m)"
    let ?i = "if map_size m < max_size m then index else index - 1"
    have "tss_list m' = ins_at ?i g ?bs"
      using p(4) True length_tss_list [OF assms(1)] by (auto simp: ins_at_def)
    then have "room_at m rx ?i m'"
      using room_insert [OF p(2,3,5)] push_base [OF assms(1-3) gap] by blast
    then show ?thesis using True p(1) by (simp add: make_room_def)
  next
    case False
    obtain n where n: "trim_future m rx index = Some (m\<lparr>map_size := n\<rparr>)" "index \<le> n" "n \<le> map_size m"
        "map_shape (m\<lparr>map_size := n\<rparr>)" "tss_list (m\<lparr>map_size := n\<rparr>) = take n (tss_list m)"
        "index < n \<longrightarrow> uint (rxs m ! (n - 1) - rx) \<le> 2 ^ 32"
      using trim_list [OF assms(1) len(2)] by blast
    let ?m = "m\<lparr>map_size := n\<rparr>"
    have rs: "rxs ?m = take n (rxs m)" by (simp add: rxs_def n(5) take_map)
    have sorted: "sorted_wrt ts_lt (rxs ?m)" using assms(3) rs by (simp add: sorted_wrt_take)
    have gap: "gap_lt (rxs ?m) rx index" using gap_at_lt [OF assms(3,4) n(6,2)] n(3) len rs by simp
    have ts: "timestamps ?m \<noteq> None" using assms(2) by simp
    have sub: "set (tss_list ?m) \<subseteq> set (tss_list m)" by (simp add: n(5) set_take_subset)
    show ?thesis
    proof (cases "index + 64 \<ge> n")
      case True
      let ?bs = "if map_size ?m < max_size ?m then tss_list ?m else tl (tss_list ?m)"
      let ?i = "if map_size ?m < max_size ?m then index else index - 1"
      obtain m1 g where p: "push_ntp_tss ?m index = (?i, m1)" "map_shape m1" "timestamps m1 \<noteq> None"
          "tss_list m1 = ?bs @ [g]" "slew_epoch m1 = slew_epoch m"
        using push_list [OF n(4) ts, of index] n(2) by auto
      have b: "?i \<le> length ?bs" "set ?bs \<subseteq> set (tss_list ?m)" "sorted_wrt ts_lt (map rx_ts ?bs)"
          "gap_lt (map rx_ts ?bs) rx ?i"
        using push_base [OF n(4) ts sorted gap] by blast+
      obtain d g' where d: "move_tss m1 ?i (map_size m1 - 1) = Some (m1\<lparr>timestamps := Some d\<rparr>)"
          "map_shape (m1\<lparr>timestamps := Some d\<rparr>)" "tss_list (m1\<lparr>timestamps := Some d\<rparr>) = ins_at ?i g' ?bs"
        using move_insert [OF p(2,4) b(1) p(3)] by blast
      have "set ?bs \<subseteq> set (tss_list m)" using b(2) sub by blast
      then have "room_at m rx ?i (m1\<lparr>timestamps := Some d\<rparr>)"
        using room_insert [OF d(2) _ _ d(3) b(1) _ b(3,4)] p(5) by simp
      moreover have "make_room m rx index = Some (?i, m1\<lparr>timestamps := Some d\<rparr>)"
        using False True n(1) p(1) d(1) by (simp add: make_room_def)
      ultimately show ?thesis by blast
    next
      case replace: False
      have l: "length (tss_list ?m) = n" using length_tss_list [OF n(4)] by simp
      have ne: "rxs ?m \<noteq> []" using replace l by (auto simp: rxs_def)
      have "room_at m rx (index - 1) ?m"
        using n(4) ts replace sorted_replace [OF sorted gap ne] sub l
        by (auto simp: room_at_def intro: nth_mem)
      moreover have "make_room m rx index = Some (index - 1, ?m)"
        using False replace n(1) by (simp add: make_room_def)
      ultimately show ?thesis by blast
    qed
  qed
qed

text \<open>The element stored for a receive timestamp.\<close>

definition entry :: "NtpTimestampMap \<Rightarrow> u64 \<Rightarrow> NtpTimestamps option" where
  "entry m rx = List.find (\<lambda>t. rx_ts t = rx) (tss_list m)"

lemma sorted_distinct: "sorted_wrt ts_lt rs \<Longrightarrow> distinct rs"
  by (induction rs) (auto simp: ts_lt_def)

lemma entry_nth: "map_inv m \<Longrightarrow> j < map_size m \<Longrightarrow> entry m (rxs m ! j) = Some (tss_list m ! j)"
proof -
  assume a: "map_inv m" "j < map_size m"
  have d: "distinct (rxs m)" and l: "length (tss_list m) = map_size m"
    using a sorted_distinct length_tss_list by (auto simp: map_inv_def)
  have "i = j" if "i < map_size m" "rx_ts (tss_list m ! i) = rxs m ! j" for i
    using that d a(2) l nth_eq_iff_index_eq [OF d, of i j] by (simp add: rxs_def)
  moreover have "rx_ts (tss_list m ! j) = rxs m ! j" using a(2) l by (simp add: rxs_def)
  ultimately show ?thesis using a(2) l unfolding entry_def find_Some_iff
    by (intro exI [of _ j]) (auto, metis less_trans less_irrefl)
qed

lemma entry_None: "rx \<notin> set (rxs m) \<Longrightarrow> entry m rx = None"
  by (auto simp: entry_def find_None_iff rxs_def)

lemma entry_SomeD: "entry m rx = Some t \<Longrightarrow> t \<in> set (tss_list m) \<and> rx_ts t = rx"
  by (auto simp: entry_def find_Some_iff in_set_conv_nth)

lemma entry_mem: "map_inv m \<Longrightarrow> t \<in> set (tss_list m) \<Longrightarrow> entry m (rx_ts t) = Some t"
  using entry_nth length_tss_list by (fastforce simp: map_inv_def in_set_conv_nth rxs_def)

text \<open>The search, in terms of \<open>entry\<close>.\<close>

lemma find_entry:
  assumes "map_inv m"
  shows "\<exists>found j m'. find_ntp_rx_ts m rx = Some (found, j, m') \<and> same_map m m' \<and> map_inv m' \<and>
    (if found then j < map_size m \<and> get_ntp_tss m' j = entry m rx \<and> entry m rx \<noteq> None \<and> rxs m ! j = rx
     else entry m rx = None \<and> gap_at (rxs m) rx j)"
proof -
  obtain found j m' where f: "find_ntp_rx_ts m rx = Some (found, j, m')" "same_map m m'" "map_inv m'"
      "if found then j < map_size m \<and> rxs m ! j = rx else rx \<notin> set (rxs m) \<and> gap_at (rxs m) rx j"
    using find_correct [OF assms] by blast
  show ?thesis
  proof (cases found)
    case True
    then have "entry m rx = Some (tss_list m ! j)" using entry_nth [OF assms] f(4) by auto
    moreover have "get_ntp_tss m' j = Some (tss_list m ! j)"
      using get_tss [of m' j] f(2,3,4) True same_mapD [OF f(2)] by (simp add: map_inv_def)
    ultimately show ?thesis using f True by auto
  next
    case False
    then show ?thesis using f entry_None by auto
  qed
qed

text \<open>Writing an element that keeps its receive timestamp.\<close>

lemma put_entry:
  assumes "map_inv m" "j < map_size m" "rx_ts t = rxs m ! j"
  shows "\<exists>m'. put_ntp_tss m j t = Some m' \<and> map_inv m' \<and> timestamps m' \<noteq> None \<and>
    (\<forall>rx. entry m' rx = (if rx = rx_ts t then Some t else entry m rx))"
proof -
  obtain d where d: "put_ntp_tss m j t = Some (m\<lparr>timestamps := Some d\<rparr>)" "map_shape (m\<lparr>timestamps := Some d\<rparr>)"
      "tss_list (m\<lparr>timestamps := Some d\<rparr>) = (tss_list m)[j := t]"
    using put_tss assms by (metis map_inv_def)
  let ?m = "m\<lparr>timestamps := Some d\<rparr>"
  have l: "length (tss_list m) = map_size m" using assms(1) length_tss_list by (simp add: map_inv_def)
  have rs: "rxs ?m = rxs m" using assms(2,3) l by (simp add: rxs_def d(3) map_update list_update_id)
      (metis list_update_id length_map nth_map)
  have inv: "map_inv ?m" using assms(1) d(2) rs by (simp add: map_inv_def cache_ok_def)
  have "entry ?m rx = (if rx = rx_ts t then Some t else entry m rx)" for rx
  proof (cases "rx \<in> set (rxs m)")
    case True
    then obtain i where i: "i < map_size m" "rxs m ! i = rx" using l by (auto simp: in_set_conv_nth rxs_def)
    have "distinct (rxs m)" using assms(1) sorted_distinct by (simp add: map_inv_def)
    then have "rx = rx_ts t \<longleftrightarrow> i = j"
      using i assms l by (metis length_map nth_eq_iff_index_eq rxs_def)
    then show ?thesis
      using entry_nth [OF inv, of i] entry_nth [OF assms(1), of i] i rs l assms(2) d(3)
      by (auto simp: nth_list_update)
  next
    case False
    moreover have "rx \<noteq> rx_ts t" using False assms l by (metis length_map nth_mem rxs_def)
    ultimately show ?thesis using entry_None [of rx] rs by simp
  qed
  then show ?thesis using d(1) inv by auto
qed

definition alloc_map :: "(nat \<Rightarrow> NtpTimestamps) \<Rightarrow> NtpTimestampMap \<Rightarrow> NtpTimestampMap" where
  "alloc_map fresh m = (if timestamps m = None
     then m\<lparr>timestamps := Some (map fresh [0..<max_size m])\<rparr> else m)"

lemma alloc_map:
  assumes "map_inv m"
  shows "map_inv (alloc_map fresh m) \<and> timestamps (alloc_map fresh m) \<noteq> None \<and>
    entry (alloc_map fresh m) = entry m \<and> slew_epoch (alloc_map fresh m) = slew_epoch m"
proof (cases "timestamps m")
  case None
  then have "map_size m = 0" using assms by (simp add: map_inv_def map_shape_def)
  then have "tss_list (alloc_map fresh m) = []" "tss_list m = []"
    using None by (simp_all add: tss_list_def alloc_map_def)
  then show ?thesis using assms None \<open>map_size m = 0\<close>
    by (auto simp: map_inv_def cache_ok_def map_shape_def rxs_def entry_def alloc_map_def fun_eq_iff)
qed (use assms in \<open>simp add: alloc_map_def\<close>)

lemma set_ntp_tx_rx [simp]: "rx_ts (set_ntp_tx e t rxn tx src) = rx_ts t"
  by (simp add: set_ntp_tx_def Let_def split: option.split)

text \<open>The map \<open>m'\<close> has \<open>t\<close> for \<open>rx\<close> and nothing else that \<open>m\<close> does not have.\<close>

definition stored :: "NtpTimestampMap \<Rightarrow> u64 \<Rightarrow> NtpTimestamps \<Rightarrow> NtpTimestampMap \<Rightarrow> bool" where
  "stored m rx t m' \<longleftrightarrow> map_inv m' \<and> timestamps m' \<noteq> None \<and> entry m' rx = Some t \<and>
     (\<forall>k. k \<noteq> rx \<longrightarrow> entry m' k = None \<or> entry m' k = entry m k)"

lemma save_new:
  assumes "map_inv m" "timestamps m \<noteq> None" "entry m rx = None" "gap_at (rxs m) rx index" "rx \<noteq> 0"
  shows "\<exists>i m1 t0. make_room m rx index = Some (i, m1) \<and>
    get_ntp_tss (m1\<lparr>cached_index := i, cached_rx_ts := rx\<rparr>) i = Some t0 \<and> slew_epoch m1 = slew_epoch m \<and>
    (\<forall>t. rx_ts t = rx \<longrightarrow>
      (\<exists>m'. put_ntp_tss (m1\<lparr>cached_index := i, cached_rx_ts := rx\<rparr>) i t = Some m' \<and> stored m rx t m'))"
proof -
  obtain i m1 where r: "make_room m rx index = Some (i, m1)" "room_at m rx i m1"
    using make_room_correct [OF _ assms(2) _ assms(4)] assms(1) by (auto simp: map_inv_def)
  let ?m1 = "m1\<lparr>cached_index := i, cached_rx_ts := rx\<rparr>"
  have sh: "map_shape ?m1" "i < map_size ?m1" using r(2) by (simp_all add: room_at_def)
  have "\<exists>m'. put_ntp_tss ?m1 i t = Some m' \<and> stored m rx t m'" if t: "rx_ts t = rx" for t
  proof -
    obtain d where d: "put_ntp_tss ?m1 i t = Some (?m1\<lparr>timestamps := Some d\<rparr>)" "map_shape (?m1\<lparr>timestamps := Some d\<rparr>)"
        "tss_list (?m1\<lparr>timestamps := Some d\<rparr>) = (tss_list ?m1)[i := t]"
      using put_tss [OF sh] by blast
    let ?m' = "?m1\<lparr>timestamps := Some d\<rparr>"
    have l: "length (tss_list m1) = map_size m1" "i < map_size m1"
      using length_tss_list [OF sh(1)] sh(2) by simp_all
    have rs: "rxs ?m' = (rxs m1)[i := rx]" using t by (simp add: rxs_def d(3) map_update)
    have inv: "map_inv ?m'"
      using d(2) rs r(2) l by (simp add: map_inv_def room_at_def cache_ok_def rxs_def)
    have e: "entry ?m' rx = Some t"
      using entry_nth [OF inv, of i] rs l d(3) t by (simp add: rxs_def)
    have old: "u \<in> set (tss_list m)" if u: "u \<in> set (tss_list ?m')" "rx_ts u \<noteq> rx" for u
    proof -
      obtain k where k: "k < map_size m1" "u = (tss_list m1)[i := t] ! k"
        using u(1) l d(3) by (auto simp: in_set_conv_nth)
      then show ?thesis using u(2) t r(2) l by (cases "k = i") (auto simp: room_at_def)
    qed
    have "entry ?m' k = None \<or> entry ?m' k = entry m k" if k: "k \<noteq> rx" for k
    proof (cases "entry ?m' k")
      case (Some u)
      then have "u \<in> set (tss_list m)" "rx_ts u = k" using old [of u] entry_SomeD [OF Some] k by auto
      then show ?thesis using entry_mem [OF assms(1)] Some by auto
    qed simp
    then show ?thesis using d(1) inv e by (auto simp: stored_def)
  qed
  then show ?thesis using r(1) get_tss [OF sh] r(2) by (auto simp: room_at_def)
qed

lemma save_correct:
  assumes "map_inv m"
  shows "\<exists>m'. CLG_SaveNtpTimestamps fresh era active m rxn tx src = Some m' \<and> map_inv m' \<and>
    (\<forall>k. k \<noteq> ntp64_to_int64 rxn \<longrightarrow> entry m' k = None \<or> entry m' k = entry m k) \<and>
    (if active \<and> ntp64_to_int64 rxn \<noteq> 0
     then timestamps m' \<noteq> None \<and> (\<exists>t0. entry m' (ntp64_to_int64 rxn) = Some (case entry m (ntp64_to_int64 rxn) of
         Some t \<Rightarrow> t\<lparr>flags := flags t OR 1\<rparr>
       | None \<Rightarrow> set_ntp_tx era (t0\<lparr>rx_ts := ntp64_to_int64 rxn, flags := 0, tss_slew_epoch := slew_epoch m\<rparr>) rxn tx src))
     else entry m' = entry m)"
proof -
  define rx where "rx = ntp64_to_int64 rxn"
  let ?m = "alloc_map fresh m"
  note al = alloc_map [OF assms, of fresh]
  have inv: "map_inv ?m" using al by blast
  consider "\<not> active" | "active" "rx = 0" | "active" "rx \<noteq> 0" by blast
  then show ?thesis
  proof cases
    case 1
    then show ?thesis using assms by (simp add: CLG_SaveNtpTimestamps_def)
  next
    case 2
    then show ?thesis using al by (auto simp: CLG_SaveNtpTimestamps_def alloc_map_def Let_def rx_def)
  next
    case 3
    obtain found j m' where f: "find_ntp_rx_ts ?m rx = Some (found, j, m')" "same_map ?m m'" "map_inv m'"
      "if found then j < map_size ?m \<and> get_ntp_tss m' j = entry ?m rx \<and> entry ?m rx \<noteq> None \<and> rxs ?m ! j = rx
       else entry ?m rx = None \<and> gap_at (rxs ?m) rx j"
      using find_entry [OF inv] by blast
    note sm = same_mapD [OF f(2)]
    have em: "entry m' = entry m" using sm al by (simp add: entry_def fun_eq_iff)
    show ?thesis
    proof (cases found)
      case True
      then obtain t where t: "entry m rx = Some t" "get_ntp_tss m' j = Some t" using f(4) al by auto
      let ?t = "t\<lparr>flags := flags t OR 1\<rparr>"
      have "rx_ts t = rx" using entry_SomeD [OF t(1)] by simp
      then obtain m2 where "put_ntp_tss m' j ?t = Some m2" "map_inv m2" "timestamps m2 \<noteq> None"
          "\<forall>k. entry m2 k = (if k = rx then Some ?t else entry m k)"
        using put_entry [OF f(3), of j ?t] f(4) True sm em by auto
      then show ?thesis using 3 f(1) True t
        by (simp add: CLG_SaveNtpTimestamps_def rx_def Let_def flip: alloc_map_def)
    next
      case False
      have n: "entry m' rx = None" "gap_at (rxs m') rx j" "timestamps m' \<noteq> None"
        using f(4) False sm al em by auto
      have j: "j \<le> map_size m'" using n(2) length_rxs [of m'] f(3) by (simp add: gap_at_def map_inv_def)
      obtain i m1 t0 where r: "make_room m' rx j = Some (i, m1)"
          "get_ntp_tss (m1\<lparr>cached_index := i, cached_rx_ts := rx\<rparr>) i = Some t0" "slew_epoch m1 = slew_epoch m'"
          "\<forall>t. rx_ts t = rx \<longrightarrow>
             (\<exists>m2. put_ntp_tss (m1\<lparr>cached_index := i, cached_rx_ts := rx\<rparr>) i t = Some m2 \<and> stored m' rx t m2)"
        using save_new [OF f(3) n(3,1,2) 3(2)] by blast
      let ?t = "set_ntp_tx era (t0\<lparr>rx_ts := rx, flags := 0, tss_slew_epoch := slew_epoch m\<rparr>) rxn tx src"
      obtain m2 where m2: "put_ntp_tss (m1\<lparr>cached_index := i, cached_rx_ts := rx\<rparr>) i ?t = Some m2" "stored m' rx ?t m2"
        using spec [OF r(4), of ?t] by auto
      have "CLG_SaveNtpTimestamps fresh era active m rxn tx src = Some m2"
        using 3 f(1) False j r(1-3) m2(1) sm al
        by (simp add: CLG_SaveNtpTimestamps_def rx_def Let_def flip: alloc_map_def)
      then show ?thesis using m2(2) 3 n(1) em by (auto simp: rx_def stored_def)
    qed
  qed
qed

section \<open>The other operations\<close>

lemma slew_inv: "map_inv m \<Longrightarrow> map_inv (handle_slew m d u) \<and>
    (\<forall>k. entry (handle_slew m d u) k = (if u then None else entry m k))"
proof -
  assume m: "map_inv m"
  have pos: "tss_pos (handle_slew m d u) = tss_pos m" by (simp add: handle_slew_def Let_def tss_pos_def fun_eq_iff)
  have l: "tss_list (handle_slew m d u) = (if u then [] else tss_list m)"
    unfolding tss_list_def pos by (auto simp: handle_slew_def Let_def split: option.splits)
  have "map_shape (handle_slew m d u)"
    using m by (auto simp: map_inv_def handle_slew_def Let_def map_shape_def split: option.splits)
  moreover have "cache_ok (handle_slew m d u)"
    using m l by (auto simp: map_inv_def cache_ok_def rxs_def) (auto simp: handle_slew_def Let_def)
  ultimately show ?thesis using m l by (auto simp: map_inv_def rxs_def entry_def)
qed

lemma same_map_entry: "same_map m m' \<Longrightarrow> entry m' = entry m"
  by (auto simp: same_map_def entry_def fun_eq_iff)

lemma find_absent:
  assumes "map_inv m" "entry m rx = None"
  shows "\<exists>j m'. find_ntp_rx_ts m rx = Some (False, j, m') \<and> map_inv m' \<and> entry m' = entry m \<and> same_map m m'"
  using find_entry [OF assms(1), of rx] assms(2)
  by (auto simp: same_map_entry dest: same_mapD split: if_splits)

lemma find_present:
  assumes "map_inv m" "entry m rx = Some t"
  shows "\<exists>j m'. find_ntp_rx_ts m rx = Some (True, j, m') \<and> map_inv m' \<and> entry m' = entry m \<and> same_map m m' \<and>
    get_ntp_tss m' j = Some t \<and> j < map_size m' \<and> rxs m' ! j = rx"
  using find_entry [OF assms(1), of rx] assms(2)
  by (auto simp: same_map_entry dest: same_mapD split: if_splits)

lemma Get_correct:
  assumes "map_inv m" "timestamps m \<noteq> None"
  shows "\<exists>m'. CLG_GetNtpTxTimestamp era m rxn =
      Some (case entry m (ntp64_to_int64 rxn) of
              Some t \<Rightarrow> if flags t AND 1 \<noteq> 0 then None else Some (get_ntp_tx era t)
            | None \<Rightarrow> None, m') \<and> map_inv m' \<and> entry m' = entry m"
proof (cases "entry m (ntp64_to_int64 rxn)")
  case None
  then show ?thesis using find_absent [OF assms(1) None] assms(2) by (auto simp: CLG_GetNtpTxTimestamp_def)
next
  case (Some t)
  then show ?thesis using find_present [OF assms(1) Some] assms(2) by (auto simp: CLG_GetNtpTxTimestamp_def)
qed

lemma Get_inv: "map_inv m \<Longrightarrow> \<exists>r m'. CLG_GetNtpTxTimestamp era m rxn = Some (r, m') \<and> map_inv m' \<and> entry m' = entry m"
  using Get_correct [of m era rxn] by (cases "timestamps m") (auto simp: CLG_GetNtpTxTimestamp_def)

lemma Undo_inv: "map_inv m \<Longrightarrow>
    \<exists>r m'. CLG_UndoNtpTxTimestampSlew m rxn tx = Some (r, m') \<and> map_inv m' \<and> entry m' = entry m"
proof -
  assume m: "map_inv m"
  show ?thesis
  proof (cases "entry m (ntp64_to_int64 rxn)")
    case None
    then show ?thesis using find_absent [OF m None] m by (auto simp: CLG_UndoNtpTxTimestampSlew_def)
  next
    case (Some t)
    then show ?thesis using find_present [OF m Some] m by (auto simp: CLG_UndoNtpTxTimestampSlew_def)
  qed
qed

text \<open>The operations that change the element of a timestamp.\<close>

lemma Update_correct:
  assumes "map_inv m"
  shows "\<exists>m'. CLG_UpdateNtpTxTimestamp era m rxn tx src = Some m' \<and> map_inv m' \<and>
    (\<forall>k. entry m' k = (if k = ntp64_to_int64 rxn
       then map_option (\<lambda>t. set_ntp_tx era t rxn tx src) (entry m k) else entry m k))"
proof (cases "timestamps m = None")
  case True
  then have "entry m k = None" for k by (simp add: entry_def tss_list_def)
  then show ?thesis using assms True by (auto simp: CLG_UpdateNtpTxTimestamp_def)
next
  case False
  show ?thesis
  proof (cases "entry m (ntp64_to_int64 rxn)")
    case None
    then show ?thesis using find_absent [OF assms None] False by (auto simp: CLG_UpdateNtpTxTimestamp_def)
  next
    case (Some t)
    obtain j m1 where f: "find_ntp_rx_ts m (ntp64_to_int64 rxn) = Some (True, j, m1)" "map_inv m1" "entry m1 = entry m"
        "get_ntp_tss m1 j = Some t" "j < map_size m1" "rxs m1 ! j = ntp64_to_int64 rxn"
      using find_present [OF assms Some] by blast
    have "rx_ts (set_ntp_tx era t rxn tx src) = rxs m1 ! j" using entry_SomeD [OF Some] f(6) by simp
    from put_entry [OF f(2,5) this] show ?thesis
      using False f Some entry_SomeD [OF Some] by (auto simp: CLG_UpdateNtpTxTimestamp_def)
  qed
qed

lemma Disable_correct:
  assumes "map_inv m"
  shows "\<exists>m' n'. CLG_DisableNtpTimestamps m n rxn = Some (n', m') \<and> map_inv m' \<and>
    (\<forall>k. entry m' k = (if k = ntp64_to_int64 rxn
       then map_option (\<lambda>t. t\<lparr>flags := flags t OR 1\<rparr>) (entry m k) else entry m k))"
proof (cases "timestamps m = None")
  case True
  then have "entry m k = None" for k by (simp add: entry_def tss_list_def)
  then show ?thesis using assms True by (auto simp: CLG_DisableNtpTimestamps_def)
next
  case False
  show ?thesis
  proof (cases "entry m (ntp64_to_int64 rxn)")
    case None
    then show ?thesis using find_absent [OF assms None] False by (auto simp: CLG_DisableNtpTimestamps_def)
  next
    case (Some t)
    obtain j m1 where f: "find_ntp_rx_ts m (ntp64_to_int64 rxn) = Some (True, j, m1)" "map_inv m1" "entry m1 = entry m"
        "get_ntp_tss m1 j = Some t" "j < map_size m1" "rxs m1 ! j = ntp64_to_int64 rxn"
      using find_present [OF assms Some] by blast
    have "rx_ts (t\<lparr>flags := flags t OR 1\<rparr>) = rxs m1 ! j" using entry_SomeD [OF Some] f(6) by simp
    from put_entry [OF f(2,5) this] show ?thesis
      using False f Some entry_SomeD [OF Some] by (auto simp: CLG_DisableNtpTimestamps_def)
  qed
qed

section \<open>The transmit timestamp\<close>

lemma ntp64_int64: "int64_to_ntp64 (ntp64_to_int64 ts) = ts"
proof -
  have "ucast (drop_bit 32 (ntp64_to_int64 ts)) = hi ts" "ucast (ntp64_to_int64 ts) = lo ts"
    by (rule bit_word_eqI, auto simp: ntp64_to_int64_def bit_simps dest: bit_imp_le_length)+
  then show ?thesis by (simp add: int64_to_ntp64_def)
qed

lemma norm_ts_unique: "norm_ts a \<Longrightarrow> norm_ts b \<Longrightarrow> ts_ns a = ts_ns b \<Longrightarrow> a = b"
  using less_ts_ns [of a b] less_ts_ns [of b a] by (metis less_irrefl neqE)

lemma sint_of_int_u32: "- (2 ^ 31) \<le> x \<Longrightarrow> x < 2 ^ 31 \<Longrightarrow> sint (of_int x :: u32) = x"
  by (simp add: sint_sbintrunc' signed_take_bit_int_eq_self)

lemma get_set_tx:
  assumes "rx_ts t = ntp64_to_int64 rxn" "norm_ts tx"
    and "tv_sec (UTI_DiffTimespecs tx (UTI_Ntp64ToTimespec era rxn)) \<in> {-2..1}"
  shows "get_ntp_tx era (set_ntp_tx era t rxn (Some tx) src) = (tx, src)"
proof -
  define a where "a = UTI_Ntp64ToTimespec era rxn"
  define D where "D = UTI_DiffTimespecs tx a"
  have D: "ts_ns D = ts_ns tx - ts_ns a" "norm_ts D" "-2 \<le> tv_sec D" "tv_sec D \<le> 1"
    using assms(3) by (auto simp: D_def a_def DiffTimespecs_ns) (simp add: UTI_DiffTimespecs_def norm_normalise)
  have r: "- 2000000000 \<le> ts_ns D" "ts_ns D < 2000000000" using D(2-4) by (auto simp: norm_ts_def ts_ns_def)
  define w where "w = (of_int (ts_ns D) :: u32)"
  have w: "of_int (tv_nsec D) + of_int (tv_sec D) * of_int NSEC_PER_SEC = w"
    by (simp add: w_def ts_ns_def)
  have s: "sint w = ts_ns D" unfolding w_def using r by (intro sint_of_int_u32) simp_all
  have "w - of_int NSEC_PER_SEC = of_int (ts_ns D - NSEC_PER_SEC)" by (simp add: w_def)
  then have s2: "NSEC_PER_SEC \<le> ts_ns D \<Longrightarrow> sint (w - of_int NSEC_PER_SEC) = ts_ns D - NSEC_PER_SEC"
    using r by (simp only:) (intro sint_of_int_u32, simp_all)
  have "(flags t OR 2) AND 2 = (2::u8)"
    by (rule bit_word_eqI) (auto simp only: bit_and_iff bit_or_iff)
  then have f: "(flags t OR 2) AND 2 \<noteq> (0::u8)" by simp
  let ?t = "set_ntp_tx era t rxn (Some tx) src"
  have "?t = t\<lparr>tx_ts_offset := w, flags := flags t OR 2, tx_ts_source := src\<rparr>"
    using D(3,4) w by (simp add: set_ntp_tx_def Let_def D_def a_def)
  then have "get_ntp_tx era ?t = (if NSEC_PER_SEC \<le> ts_ns D
      then UTI_NormaliseTimespec (Timespec (tv_sec a + 1) (tv_nsec a + (ts_ns D - NSEC_PER_SEC)))
      else UTI_NormaliseTimespec (Timespec (tv_sec a) (tv_nsec a + ts_ns D)), src)"
    using f assms(1) s s2 by (simp add: get_ntp_tx_def Let_def ntp64_int64 a_def)
  moreover have "UTI_NormaliseTimespec (Timespec (tv_sec a + 1) (tv_nsec a + (ts_ns D - NSEC_PER_SEC))) = tx"
    by (rule norm_ts_unique [OF norm_normalise assms(2)]) (use D(1) in \<open>simp add: ts_ns_normalise, simp add: ts_ns_def\<close>)
  moreover have "UTI_NormaliseTimespec (Timespec (tv_sec a) (tv_nsec a + ts_ns D)) = tx"
    by (rule norm_ts_unique [OF norm_normalise assms(2)]) (use D(1) in \<open>simp add: ts_ns_normalise, simp add: ts_ns_def\<close>)
  ultimately show ?thesis by simp
qed

section \<open>Histories\<close>

text \<open>
  A store of keyed elements driven by operations: an operation that does not touch a key leaves
  its element alone or drops it.
\<close>

locale keyed_store =
  fixes inv :: "'m \<Rightarrow> bool"
    and elem :: "'m \<Rightarrow> 'k \<Rightarrow> 'v option"
    and step :: "'op \<Rightarrow> 'm \<Rightarrow> 'm option"
    and touches :: "'op \<Rightarrow> 'k \<Rightarrow> bool"
  assumes step_inv: "inv m \<Longrightarrow> \<exists>m'. step x m = Some m' \<and> inv m'"
    and step_frame: "inv m \<Longrightarrow> step x m = Some m' \<Longrightarrow> \<not> touches x k \<Longrightarrow>
      elem m' k = None \<or> elem m' k = elem m k"
begin

fun run :: "'op list \<Rightarrow> 'm \<Rightarrow> 'm option" where
  "run [] m = Some m"
| "run (x # xs) m = Option.bind (step x m) (run xs)"

lemma run_frame:
  "inv m \<Longrightarrow> (\<forall>x\<in>set xs. \<not> touches x k) \<Longrightarrow>
    \<exists>m'. run xs m = Some m' \<and> inv m' \<and> (elem m' k = None \<or> elem m' k = elem m k)"
proof (induction xs arbitrary: m)
  case (Cons x xs)
  obtain m1 where m1: "step x m = Some m1" "inv m1" using step_inv [OF Cons.prems(1)] by blast
  have "elem m1 k = None \<or> elem m1 k = elem m k" using step_frame [OF Cons.prems(1) m1(1)] Cons.prems(2) by simp
  moreover obtain m' where "run xs m1 = Some m'" "inv m'" "elem m' k = None \<or> elem m' k = elem m1 k"
    using Cons.IH [OF m1(2)] Cons.prems(2) by auto
  ultimately show ?case using m1 by auto
qed simp

end

datatype ts_op =
  SaveTs NTP_int64 "timespec option" NTP_Timestamp_Source
| UpdateTx NTP_int64 "timespec option" NTP_Timestamp_Source
| DisableTs u64 NTP_int64
| GetTx NTP_int64
| UndoSlew NTP_int64 timespec
| Slew real bool

fun ts_step :: "(nat \<Rightarrow> NtpTimestamps) \<Rightarrow> int \<Rightarrow> ts_op \<Rightarrow> NtpTimestampMap \<Rightarrow> NtpTimestampMap option" where
  "ts_step fresh era (SaveTs rx tx src) m = CLG_SaveNtpTimestamps fresh era True m rx tx src"
| "ts_step fresh era (UpdateTx rx tx src) m = CLG_UpdateNtpTxTimestamp era m rx tx src"
| "ts_step fresh era (DisableTs n rx) m = map_option snd (CLG_DisableNtpTimestamps m n rx)"
| "ts_step fresh era (GetTx rx) m = map_option snd (CLG_GetNtpTxTimestamp era m rx)"
| "ts_step fresh era (UndoSlew rx tx) m = map_option snd (CLG_UndoNtpTxTimestampSlew m rx tx)"
| "ts_step fresh era (Slew d u) m = Some (handle_slew m d u)"

text \<open>The operations that write the element of a receive timestamp.\<close>

fun writes :: "ts_op \<Rightarrow> u64 \<Rightarrow> bool" where
  "writes (SaveTs rx tx src) k = (ntp64_to_int64 rx = k)"
| "writes (UpdateTx rx tx src) k = (ntp64_to_int64 rx = k)"
| "writes (DisableTs n rx) k = (ntp64_to_int64 rx = k)"
| "writes _ k = False"

lemma ts_step_frame:
  "map_inv m \<Longrightarrow> \<exists>m'. ts_step fresh era x m = Some m' \<and> map_inv m' \<and>
    (\<forall>k. \<not> writes x k \<longrightarrow> entry m' k = None \<or> entry m' k = entry m k)"
proof (induction fresh era x m rule: ts_step.induct)
  case (1 fresh era rx tx src m)
  then show ?case using save_correct [of m fresh era True rx tx src] by auto
next
  case (2 fresh era rx tx src m)
  then show ?case using Update_correct [of m era rx tx src] by auto
next
  case (3 fresh era n rx m)
  then show ?case using Disable_correct [of m n rx] by auto
next
  case (4 fresh era rx m)
  then show ?case using Get_inv [of m era rx] by auto
next
  case (5 fresh era rx tx m)
  then show ?case using Undo_inv [of m rx tx] by auto
next
  case (6 fresh era d u m)
  then show ?case using slew_inv [of m d u] by auto
qed

interpretation tsm: keyed_store map_inv entry "ts_step fresh era" writes for fresh era
proof
  fix m x show "map_inv m \<Longrightarrow> \<exists>m'. ts_step fresh era x m = Some m' \<and> map_inv m'"
    using ts_step_frame by blast
next
  fix m x m' k
  assume "map_inv m" "ts_step fresh era x m = Some m'" "\<not> writes x k"
  then show "entry m' k = None \<or> entry m' k = entry m k"
    using ts_step_frame [of m fresh era x] by auto
qed

fun ts_run :: "(nat \<Rightarrow> NtpTimestamps) \<Rightarrow> int \<Rightarrow> ts_op list \<Rightarrow> NtpTimestampMap \<Rightarrow> NtpTimestampMap option" where
  "ts_run fresh era [] m = Some m"
| "ts_run fresh era (x # xs) m = Option.bind (ts_step fresh era x m) (ts_run fresh era xs)"

lemma ts_run_eq: "ts_run fresh era xs m = tsm.run fresh era xs m"
proof (induction xs arbitrary: m)
  case (Cons x xs)
  then have "ts_run fresh era xs = tsm.run fresh era xs" by (simp add: fun_eq_iff)
  then show ?case by simp
qed simp

text \<open>The map as \<open>CLG_Initialise\<close> leaves it, for 2^\<open>k\<close> timestamps.\<close>

definition empty_map :: "nat \<Rightarrow> NtpTimestampMap" where
  "empty_map k = \<lparr>timestamps = None, first = 0, map_size = 0, max_size = 2 ^ k, cached_index = 0,
     cached_rx_ts = 0, slew_epoch = 0, slew_offset = 0\<rparr>"

lemma empty_map_inv: "k < 32 \<Longrightarrow> map_inv (empty_map k)"
  by (auto simp: map_inv_def map_shape_def empty_map_def rxs_def tss_list_def cache_ok_def)

lemma ts_run_inv: "map_inv m \<Longrightarrow> \<exists>m'. ts_run fresh era xs m = Some m' \<and> map_inv m'"
proof (induction xs arbitrary: m)
  case (Cons x xs)
  then obtain m1 where "ts_step fresh era x m = Some m1" "map_inv m1" using ts_step_frame by blast
  then show ?case using Cons.IH by auto
qed simp

section \<open>Properties\<close>

text \<open>
  C10.  On a map reached by any history of saves, updates, lookups, clock corrections and steps,
  the combined interpolation and binary search returns, finds a receive timestamp exactly when it
  is in the map, and otherwise gives the position that keeps the map ordered.
\<close>

theorem find_ntp_rx_ts_correct:
  assumes "k < 32"
  shows "\<exists>m. ts_run fresh era xs (empty_map k) = Some m \<and>
    (\<exists>found j m'. find_ntp_rx_ts m rx = Some (found, j, m') \<and> found = (rx \<in> set (rxs m)) \<and>
      (if found then j < map_size m \<and> rxs m ! j = rx else gap_at (rxs m) rx j))"
proof -
  obtain m where m: "ts_run fresh era xs (empty_map k) = Some m" "map_inv m"
    using ts_run_inv empty_map_inv [OF assms] by blast
  then show ?thesis using find_correct [OF m(2), of rx] length_rxs [of m]
    by (fastforce simp: map_inv_def)
qed

theorem find_ntp_rx_ts_correct_witness:
  "\<exists>m. ts_run (\<lambda>_. \<lparr>rx_ts = 0, flags = 0, tx_ts_source = 0, tss_slew_epoch = 0, tx_ts_offset = 0\<rparr>) 0
       [SaveTs (NTP_int64 5 7) None 0] (empty_map 3) = Some m \<and>
    (\<exists>found j m'. find_ntp_rx_ts m 9 = Some (found, j, m') \<and> found = (9 \<in> set (rxs m)) \<and>
      (if found then j < map_size m \<and> rxs m ! j = 9 else gap_at (rxs m) 9 j))"
  by (rule find_ntp_rx_ts_correct) simp

text \<open>
  Every operation on the map returns, and keeps the buffer in the order of the receive
  timestamps (which span less than half of the 64-bit range), and the cached index valid.
\<close>

theorem ts_map_invariant:
  assumes "k < 32"
  shows "\<exists>m. ts_run fresh era xs (empty_map k) = Some m \<and> sorted_wrt ts_lt (rxs m) \<and>
    map_size m \<le> max_size m \<and> cache_ok m"
proof -
  obtain m where m: "ts_run fresh era xs (empty_map k) = Some m" "map_inv m"
    using ts_run_inv empty_map_inv [OF assms] by blast
  then show ?thesis by (auto simp: map_inv_def map_shape_def)
qed

theorem ts_map_invariant_witness:
  "\<exists>m. ts_run (\<lambda>_. \<lparr>rx_ts = 0, flags = 0, tx_ts_source = 0, tss_slew_epoch = 0, tx_ts_offset = 0\<rparr>) 0
       [SaveTs (NTP_int64 5 7) None 0, Slew 1 True, SaveTs (NTP_int64 4 1) None 0] (empty_map 4) = Some m \<and>
    sorted_wrt ts_lt (rxs m) \<and> map_size m \<le> max_size m \<and> cache_ok m"
  by (rule ts_map_invariant) simp

text \<open>
  C5.  The map never answers with a wrong transmit timestamp.  After a new receive timestamp was
  saved with a transmit timestamp at most about two seconds away, and any later operations that do
  not write this receive timestamp, the lookup gives exactly the saved transmit timestamp and its
  source, or nothing when the timestamp was dropped in the meantime.
\<close>

theorem interleaved_tx_exact:
  assumes "map_inv m" "entry m (ntp64_to_int64 rxn) = None" "ntp64_to_int64 rxn \<noteq> 0" "norm_ts tx"
    and "tv_sec (UTI_DiffTimespecs tx (UTI_Ntp64ToTimespec era rxn)) \<in> {-2..1}"
    and "\<forall>x\<in>set xs. \<not> writes x (ntp64_to_int64 rxn)"
  shows "\<exists>m' r m''. ts_run fresh era (SaveTs rxn (Some tx) src # xs) m = Some m' \<and>
    CLG_GetNtpTxTimestamp era m' rxn = Some (r, m'') \<and> (r = None \<or> r = Some (tx, src)) \<and>
    (xs = [] \<longrightarrow> r = Some (tx, src))"
proof -
  let ?k = "ntp64_to_int64 rxn"
  obtain m1 t0 where m1: "CLG_SaveNtpTimestamps fresh era True m rxn (Some tx) src = Some m1" "map_inv m1"
      "timestamps m1 \<noteq> None"
      "entry m1 ?k = Some (set_ntp_tx era (t0\<lparr>rx_ts := ?k, flags := 0, tss_slew_epoch := slew_epoch m\<rparr>) rxn (Some tx) src)"
    using save_correct [OF assms(1), of fresh era True rxn "Some tx" src] assms(2,3) by auto
  define t where "t = set_ntp_tx era (t0\<lparr>rx_ts := ?k, flags := 0, tss_slew_epoch := slew_epoch m\<rparr>) rxn (Some tx) src"
  have t: "get_ntp_tx era t = (tx, src)" unfolding t_def by (rule get_set_tx) (use assms(4,5) in simp_all)
  have fl: "flags t AND 1 = 0" by (simp add: t_def set_ntp_tx_def Let_def)
  obtain m' where m': "ts_run fresh era xs m1 = Some m'" "map_inv m'" "entry m' ?k = None \<or> entry m' ?k = Some t"
    using tsm.run_frame [OF m1(2) assms(6), of fresh era] m1(4) by (auto simp: ts_run_eq t_def)
  obtain r m'' where g: "CLG_GetNtpTxTimestamp era m' rxn = Some (r, m'')" "r = None \<or> r = Some (tx, src)"
      "entry m' ?k = Some t \<Longrightarrow> r = Some (tx, src)"
  proof (cases "timestamps m'")
    case None
    then have "entry m' ?k = None" by (simp add: entry_def tss_list_def)
    with None that show thesis by (simp add: CLG_GetNtpTxTimestamp_def)
  next
    case (Some d)
    then obtain m'' where "CLG_GetNtpTxTimestamp era m' rxn =
        Some (case entry m' ?k of Some t \<Rightarrow> if flags t AND 1 \<noteq> 0 then None else Some (get_ntp_tx era t) | None \<Rightarrow> None, m'')"
      using Get_correct [OF m'(2), of era rxn] by auto
    then show thesis using m'(3) fl t that by (cases "entry m' ?k") auto
  qed
  moreover have "xs = [] \<Longrightarrow> entry m' ?k = Some t" using m'(1) m1(4) by (simp add: t_def)
  ultimately show ?thesis using m1(1) m'(1) by auto
qed

theorem interleaved_tx_exact_witness:
  "\<exists>m' r m''. ts_run (\<lambda>_. \<lparr>rx_ts = 0, flags = 0, tx_ts_source = 0, tss_slew_epoch = 0, tx_ts_offset = 0\<rparr>) 0
      [SaveTs (NTP_int64 3908988800 0) (Some (Timespec 1700000000 500)) 1] (empty_map 3) = Some m' \<and>
    CLG_GetNtpTxTimestamp 0 m' (NTP_int64 3908988800 0) = Some (r, m'') \<and> r = Some (Timespec 1700000000 500, 1)"
proof -
  have "\<exists>m' r m''. ts_run (\<lambda>_. \<lparr>rx_ts = 0, flags = 0, tx_ts_source = 0, tss_slew_epoch = 0, tx_ts_offset = 0\<rparr>) 0
      (SaveTs (NTP_int64 3908988800 0) (Some (Timespec 1700000000 500)) 1 # []) (empty_map 3) = Some m' \<and>
    CLG_GetNtpTxTimestamp 0 m' (NTP_int64 3908988800 0) = Some (r, m'') \<and>
    (r = None \<or> r = Some (Timespec 1700000000 500, 1)) \<and> ([] = ([] :: ts_op list) \<longrightarrow> r = Some (Timespec 1700000000 500, 1))"
  proof (rule interleaved_tx_exact)
    show "map_inv (empty_map 3)" by (rule empty_map_inv) simp
  qed (simp_all add: entry_def tss_list_def empty_map_def ntp64_to_int64_def norm_ts_def
          UTI_Ntp64ToTimespec_def UTI_IsZeroNtp64_def UTI_DiffTimespecs_def UTI_NormaliseTimespec_def c_trunc_def)
  then show ?thesis by blast
qed

end
