(* ===== verification/Sched.thy ===== *)
theory Sched
  imports Timespec "HOL-Library.Multiset"
begin

text \<open>
  The scheduler of \<open>sched.c\<close>: timers, file handlers and the main loop.  The doubly linked timer
  queue is the list of its entries from \<open>timer_queue.next\<close> to \<open>timer_queue.prev\<close>; the blocks and
  the free list of unused entries are left to the memory allocator.  The clock
  (\<open>LCL_ReadRawTime\<close>), the random generator and \<open>select\<close> are inputs; the handlers are callbacks
  that may change the scheduler itself and the rest of the program, \<open>'w\<close>.  \<open>None\<close> is a failed
  assertion, a \<open>LOG_FATAL\<close>, or a loop that does not end.
\<close>

section \<open>State\<close>

datatype SCH_TimeoutClass =
  SCH_ReservedTimeoutValue | SCH_NtpClientClass | SCH_NtpPeerClass | SCH_NtpBroadcastClass | SCH_PhcPollClass

record ('f, 'a) FileHandlerEntry =
  fh_handler :: "'f option"
  fh_arg :: "'a option"
  events :: int

record ('h, 'a) TimerQueueEntry =
  tqe_ts :: timespec
  tqe_id :: u32
  tqe_class :: SCH_TimeoutClass
  tqe_handler :: 'h
  tqe_arg :: 'a

record ('h, 'f, 'a) Scheduler =
  initialised :: bool
  file_handlers :: "('f, 'a) FileHandlerEntry list"
  one_highest_fd :: nat
  timer_queue :: "('h, 'a) TimerQueueEntry list"
  n_timer_queue_entries :: nat
  next_tqe_id :: u32
  last_class_dispatch :: "SCH_TimeoutClass \<Rightarrow> timespec"
  need_to_exit :: bool
  last_select_ts :: timespec
  last_select_ts_raw :: timespec
  last_select_ts_err :: real
  last_select_ts_mono :: real
  last_select_ts_mono_ns :: u32

abbreviation (input) SCH_FILE_INPUT :: int where "SCH_FILE_INPUT \<equiv> 1"
abbreviation (input) SCH_FILE_OUTPUT :: int where "SCH_FILE_OUTPUT \<equiv> 2"
abbreviation (input) SCH_FILE_EXCEPTION :: int where "SCH_FILE_EXCEPTION \<equiv> 4"
abbreviation (input) FD_SETSIZE :: int where "FD_SETSIZE \<equiv> 1024"
abbreviation (input) TS_MONO_PRECISION_NS :: u32 where "TS_MONO_PRECISION_NS \<equiv> 10000000"
abbreviation (input) JUMP_DETECT_THRESHOLD :: int where "JUMP_DETECT_THRESHOLD \<equiv> 10"

text \<open>\<open>now\<close> is the time \<open>LCL_ReadRawTime\<close> gives; \<open>s\<close> holds the static variables that are not set.\<close>

definition SCH_Initialise :: "timespec \<Rightarrow> ('h, 'f, 'a) Scheduler \<Rightarrow> ('h, 'f, 'a) Scheduler" where
  "SCH_Initialise now s = s\<lparr>file_handlers := [], n_timer_queue_entries := 0, next_tqe_id := 0,
     timer_queue := [], need_to_exit := False, last_select_ts_raw := now, last_select_ts := now,
     last_select_ts_mono := 0, last_select_ts_mono_ns := 0, initialised := True\<rparr>"

definition SCH_Finalise :: "('h, 'f, 'a) Scheduler \<Rightarrow> ('h, 'f, 'a) Scheduler" where
  "SCH_Finalise s = s\<lparr>file_handlers := [], timer_queue := [], initialised := False\<rparr>"

section \<open>File handlers\<close>

definition no_handler :: "('f, 'a) FileHandlerEntry" where
  "no_handler = \<lparr>fh_handler = None, fh_arg = None, events = 0\<rparr>"

definition SCH_AddFileHandler :: "int \<Rightarrow> int \<Rightarrow> 'f \<Rightarrow> 'a \<Rightarrow> ('h, 'f, 'a) Scheduler \<Rightarrow> ('h, 'f, 'a) Scheduler option" where
  "SCH_AddFileHandler fd evs h x s =
     (if \<not> initialised s \<or> evs = 0 \<or> fd < 0 then None
      else if fd \<ge> FD_SETSIZE then None
      else
        let fh = file_handlers s;
            fh = fh @ replicate (nat fd + 1 - length fh) no_handler in
        if fh_handler (fh ! nat fd) \<noteq> None then None
        else Some (s\<lparr>file_handlers := fh[nat fd := \<lparr>fh_handler = Some h, fh_arg = Some x, events = evs\<rparr>],
                     one_highest_fd := max (one_highest_fd s) (nat fd + 1)\<rparr>))"

text \<open>The loop that finds the new highest descriptor.\<close>

fun find_highest :: "('f, 'a) FileHandlerEntry list \<Rightarrow> nat \<Rightarrow> nat option" where
  "find_highest fh 0 = Some 0"
| "find_highest fh (Suc n) =
     (if n < length fh then if fh_handler (fh ! n) \<noteq> None then Some (Suc n) else find_highest fh n
      else None)"

definition SCH_RemoveFileHandler :: "int \<Rightarrow> ('h, 'f, 'a) Scheduler \<Rightarrow> ('h, 'f, 'a) Scheduler option" where
  "SCH_RemoveFileHandler fd s =
     (if \<not> initialised s \<or> \<not> (0 \<le> fd \<and> nat fd < length (file_handlers s)) then None
      else if fh_handler (file_handlers s ! nat fd) = None then None
      else
        let fh = (file_handlers s)[nat fd := no_handler] in
        case find_highest fh (one_highest_fd s) of
          None \<Rightarrow> None
        | Some n \<Rightarrow> Some (s\<lparr>file_handlers := fh, one_highest_fd := n\<rparr>))"

definition SCH_SetFileHandlerEvent ::
    "int \<Rightarrow> int \<Rightarrow> bool \<Rightarrow> ('h, 'f, 'a) Scheduler \<Rightarrow> ('h, 'f, 'a) Scheduler option" where
  "SCH_SetFileHandlerEvent fd event enable s =
     (if \<not> (0 \<le> fd \<and> nat fd < length (file_handlers s)) then None
      else
        let e = file_handlers s ! nat fd;
            e = e\<lparr>events := (if enable then events e OR event else events e AND NOT event)\<rparr> in
        Some (s\<lparr>file_handlers := (file_handlers s)[nat fd := e]\<rparr>))"

definition SCH_GetLastEventTime :: "('h, 'f, 'a) Scheduler \<Rightarrow> timespec \<times> real \<times> timespec" where
  "SCH_GetLastEventTime s = (last_select_ts s, last_select_ts_err s, last_select_ts_raw s)"

definition SCH_GetLastEventMonoTime :: "('h, 'f, 'a) Scheduler \<Rightarrow> real" where
  "SCH_GetLastEventMonoTime s = last_select_ts_mono s"

section \<open>Timers\<close>

partial_function (option) get_new_tqe_id :: "u32 list \<Rightarrow> u32 \<Rightarrow> u32 option" where
  "get_new_tqe_id used_ids next_id =
     (let n = next_id + 1 in
      if n = 0 then get_new_tqe_id used_ids n
      else if n \<in> set used_ids then get_new_tqe_id used_ids n
      else Some n)"

text \<open>The insertion point: before the first entry that satisfies \<open>P\<close>.\<close>

definition insert_before :: "('e \<Rightarrow> bool) \<Rightarrow> 'e \<Rightarrow> 'e list \<Rightarrow> 'e list" where
  "insert_before P x xs = takeWhile (\<lambda>e. \<not> P e) xs @ x # dropWhile (\<lambda>e. \<not> P e) xs"

definition SCH_AddTimeout ::
    "timespec \<Rightarrow> 'h \<Rightarrow> 'a \<Rightarrow> ('h, 'f, 'a) Scheduler \<Rightarrow> (u32 \<times> ('h, 'f, 'a) Scheduler) option" where
  "SCH_AddTimeout t h x s =
     (if \<not> initialised s then None
      else case get_new_tqe_id (map tqe_id (timer_queue s)) (next_tqe_id s) of
        None \<Rightarrow> None
      | Some i \<Rightarrow>
          let new_tqe = \<lparr>tqe_ts = t, tqe_id = i, tqe_class = SCH_ReservedTimeoutValue, tqe_handler = h, tqe_arg = x\<rparr> in
          Some (i, s\<lparr>next_tqe_id := i,
                     timer_queue := insert_before (\<lambda>e. UTI_CompareTimespecs t (tqe_ts e) = -1) new_tqe (timer_queue s),
                     n_timer_queue_entries := n_timer_queue_entries s + 1\<rparr>))"

text \<open>\<open>now\<close> is the current raw time.\<close>

definition SCH_AddTimeoutByDelay ::
    "timespec \<Rightarrow> real \<Rightarrow> 'h \<Rightarrow> 'a \<Rightarrow> ('h, 'f, 'a) Scheduler \<Rightarrow> (u32 \<times> ('h, 'f, 'a) Scheduler) option" where
  "SCH_AddTimeoutByDelay now delay h x s =
     (if \<not> initialised s \<or> \<not> delay \<ge> 0 then None
      else
        let when = UTI_AddDoubleToTimespec now delay in
        if UTI_CompareTimespecs now when > 0 then None
        else SCH_AddTimeout when h x s)"

text \<open>The scan that keeps the separation from the entries of the class.\<close>

definition separate :: "timespec \<Rightarrow> real \<Rightarrow> SCH_TimeoutClass \<Rightarrow> ('h, 'a) TimerQueueEntry \<Rightarrow> real \<Rightarrow> real" where
  "separate now separation c e d =
     (if tqe_class e = c then
        let diff = UTI_DiffTimespecsToDouble (tqe_ts e) now in
        if d > diff then if d - diff < separation then diff + separation else d
        else if diff - d < separation then diff + separation else d
      else d)"

definition SCH_AddTimeoutInClass :: "timespec \<Rightarrow> u32 \<Rightarrow> real \<Rightarrow> real \<Rightarrow> real \<Rightarrow> SCH_TimeoutClass \<Rightarrow> 'h \<Rightarrow> 'a \<Rightarrow>
    ('h, 'f, 'a) Scheduler \<Rightarrow> (u32 \<times> ('h, 'f, 'a) Scheduler) option" where
  "SCH_AddTimeoutInClass now rnd min_delay separation randomness c h x s =
     (if \<not> initialised s \<or> \<not> min_delay \<ge> 0 then None
      else
        let (min_delay, separation) =
              (if randomness > 0 then
                 let r = of_nat (unat rnd) * (randomness / 4294967295) + 1 in (min_delay * r, separation * r)
               else (min_delay, separation));
            diff = UTI_DiffTimespecsToDouble now (last_class_dispatch s c);
            new_min_delay = (if diff < separation \<and> diff \<ge> 0 \<and> diff + min_delay < separation
                             then separation - diff else min_delay);
            new_min_delay = fold (separate now separation c) (timer_queue s) new_min_delay in
        case get_new_tqe_id (map tqe_id (timer_queue s)) (next_tqe_id s) of
          None \<Rightarrow> None
        | Some i \<Rightarrow>
            let new_tqe = \<lparr>tqe_ts = UTI_AddDoubleToTimespec now new_min_delay, tqe_id = i, tqe_class = c,
                           tqe_handler = h, tqe_arg = x\<rparr> in
            Some (i, s\<lparr>next_tqe_id := i,
                       timer_queue := insert_before (\<lambda>e. UTI_DiffTimespecsToDouble (tqe_ts e) now > new_min_delay)
                                        new_tqe (timer_queue s),
                       n_timer_queue_entries := n_timer_queue_entries s + 1\<rparr>))"

text \<open>Unlinking the first entry with the ID; no such entry is a failed assertion.\<close>

fun unlink :: "u32 \<Rightarrow> ('h, 'a) TimerQueueEntry list \<Rightarrow> ('h, 'a) TimerQueueEntry list option" where
  "unlink i [] = None"
| "unlink i (e # es) = (if tqe_id e = i then Some es else map_option ((#) e) (unlink i es))"

definition SCH_RemoveTimeout :: "u32 \<Rightarrow> ('h, 'f, 'a) Scheduler \<Rightarrow> ('h, 'f, 'a) Scheduler option" where
  "SCH_RemoveTimeout i s =
     (if \<not> initialised s then None
      else if i = 0 then Some s
      else map_option (\<lambda>q. s\<lparr>timer_queue := q, n_timer_queue_entries := n_timer_queue_entries s - 1\<rparr>)
             (unlink i (timer_queue s)))"

section \<open>Dispatching\<close>

text \<open>
  \<open>read_raw\<close> is the clock, \<open>call\<close> runs a timeout handler with its argument.  The result is the
  time of the last reading and the state.
\<close>

partial_function (option) dispatch_loop ::
    "('w \<Rightarrow> timespec \<times> 'w) \<Rightarrow>
     ('h \<Rightarrow> 'a \<Rightarrow> ('h, 'f, 'a) Scheduler \<times> 'w \<Rightarrow> (('h, 'f, 'a) Scheduler \<times> 'w) option) \<Rightarrow>
     nat \<Rightarrow> nat \<Rightarrow> ('h, 'f, 'a) Scheduler \<times> 'w \<Rightarrow> (timespec \<times> ('h, 'f, 'a) Scheduler \<times> 'w) option" where
  "dispatch_loop read_raw call n_entries_on_start n_done st =
     (case st of (s, w) \<Rightarrow>
      case read_raw w of (now, w) \<Rightarrow>
      if \<not> (n_timer_queue_entries s > 0 \<and> timer_queue s \<noteq> [] \<and>
            UTI_CompareTimespecs now (tqe_ts (hd (timer_queue s))) \<ge> 0) then Some (now, s, w)
      else
        let ptr = hd (timer_queue s);
            s = s\<lparr>last_class_dispatch := (last_class_dispatch s)(tqe_class ptr := now)\<rparr> in
        Option.bind (SCH_RemoveTimeout (tqe_id ptr) s) (\<lambda>s.
        Option.bind (call (tqe_handler ptr) (tqe_arg ptr) (s, w)) (\<lambda>(s, w).
          let n_done = n_done + 1 in
          if n_done > 20 \<and> n_done > 4 * max (n_timer_queue_entries s) n_entries_on_start \<and>
             \<bar>UTI_DiffTimespecsToDouble now (last_select_ts_raw s)\<bar> / of_nat n_done < 1 / 100 then None
          else if need_to_exit s then Some (now, s, w)
          else dispatch_loop read_raw call n_entries_on_start n_done (s, w))))"

definition dispatch_timeouts ::
    "('w \<Rightarrow> timespec \<times> 'w) \<Rightarrow>
     ('h \<Rightarrow> 'a \<Rightarrow> ('h, 'f, 'a) Scheduler \<times> 'w \<Rightarrow> (('h, 'f, 'a) Scheduler \<times> 'w) option) \<Rightarrow>
     ('h, 'f, 'a) Scheduler \<times> 'w \<Rightarrow> (timespec \<times> ('h, 'f, 'a) Scheduler \<times> 'w) option" where
  "dispatch_timeouts read_raw call st = dispatch_loop read_raw call (n_timer_queue_entries (fst st)) 0 st"

text \<open>
  A descriptor set is a set of numbers, \<open>None\<close> the null pointer; \<open>fcall\<close> runs a file handler with
  the descriptor and the event.
\<close>

definition dispatch_one ::
    "('f \<Rightarrow> nat \<Rightarrow> int \<Rightarrow> 'a option \<Rightarrow> ('h, 'f, 'a) Scheduler \<times> 'w \<Rightarrow> (('h, 'f, 'a) Scheduler \<times> 'w) option) \<Rightarrow>
     nat \<Rightarrow> int \<Rightarrow> ('h, 'f, 'a) Scheduler \<times> 'w \<Rightarrow> (('h, 'f, 'a) Scheduler \<times> 'w) option" where
  "dispatch_one fcall fd event st =
     (if fd < length (file_handlers (fst st)) then
        let ptr = file_handlers (fst st) ! fd in
        case fh_handler ptr of
          None \<Rightarrow> Some st
        | Some h \<Rightarrow> fcall h fd event (fh_arg ptr) st
      else None)"

definition FD_ISSET :: "nat \<Rightarrow> nat set option \<Rightarrow> bool" where
  "FD_ISSET fd fds = (case fds of None \<Rightarrow> False | Some S \<Rightarrow> fd \<in> S)"

partial_function (option) dispatch_filehandlers ::
    "('f \<Rightarrow> nat \<Rightarrow> int \<Rightarrow> 'a option \<Rightarrow> ('h, 'f, 'a) Scheduler \<times> 'w \<Rightarrow> (('h, 'f, 'a) Scheduler \<times> 'w) option) \<Rightarrow>
     nat \<Rightarrow> int \<Rightarrow> nat set option \<Rightarrow> nat set option \<Rightarrow> nat set option \<Rightarrow>
     ('h, 'f, 'a) Scheduler \<times> 'w \<Rightarrow> (('h, 'f, 'a) Scheduler \<times> 'w) option" where
  "dispatch_filehandlers fcall fd nfd read_fds write_fds except_fds st =
     (if \<not> (nfd \<noteq> 0 \<and> fd < one_highest_fd (fst st)) then Some st
      else
        Option.bind (if FD_ISSET fd except_fds then
                       map_option (\<lambda>st. if FD_ISSET fd read_fds
                                        then (st, nfd - 2, map_option (\<lambda>S. S - {fd}) read_fds)
                                        else (st, nfd - 1, read_fds))
                         (dispatch_one fcall fd SCH_FILE_EXCEPTION st)
                     else Some (st, nfd, read_fds)) (\<lambda>(st, nfd, read_fds).
        Option.bind (if FD_ISSET fd read_fds then
                       map_option (\<lambda>st. (st, nfd - 1)) (dispatch_one fcall fd SCH_FILE_INPUT st)
                     else Some (st, nfd)) (\<lambda>(st, nfd).
        Option.bind (if FD_ISSET fd write_fds then
                       map_option (\<lambda>st. (st, nfd - 1)) (dispatch_one fcall fd SCH_FILE_OUTPUT st)
                     else Some (st, nfd)) (\<lambda>(st, nfd).
        dispatch_filehandlers fcall (fd + 1) nfd read_fds write_fds except_fds st))))"

text \<open>\<open>adjust\<close> is the change type LCL_ChangeAdjust; the handler is the first change handler.\<close>

definition sched_handle_slew :: "timespec \<Rightarrow> real \<Rightarrow> real \<Rightarrow> bool \<Rightarrow> ('h, 'f, 'a) Scheduler \<Rightarrow> ('h, 'f, 'a) Scheduler" where
  "sched_handle_slew cooked dfreq doffset adjust s =
     (let s = (if \<not> adjust then
                 s\<lparr>timer_queue := map (\<lambda>e. e\<lparr>tqe_ts := UTI_AddDoubleToTimespec (tqe_ts e) (- doffset)\<rparr>) (timer_queue s),
                   last_class_dispatch := (\<lambda>c. UTI_AddDoubleToTimespec (last_class_dispatch s c) (- doffset)),
                   last_select_ts_raw := UTI_AddDoubleToTimespec (last_select_ts_raw s) (- doffset)\<rparr>
               else s) in
      s\<lparr>last_select_ts := fst (UTI_AdjustTimespec (last_select_ts s) cooked dfreq doffset)\<rparr>)"

text \<open>The descriptors with an event, \<open>None\<close> when there is none.\<close>

definition fds_with :: "int \<Rightarrow> ('f, 'a) FileHandlerEntry list \<Rightarrow> nat set option" where
  "fds_with event fh =
     (let S = {i. i < length fh \<and> events (fh ! i) AND event \<noteq> 0} in if S = {} then None else Some S)"

definition fill_fd_sets :: "('h, 'f, 'a) Scheduler \<Rightarrow> nat set option \<times> nat set option \<times> nat set option" where
  "fill_fd_sets s = (fds_with SCH_FILE_INPUT (file_handlers s), fds_with SCH_FILE_OUTPUT (file_handlers s),
     fds_with SCH_FILE_EXCEPTION (file_handlers s))"

definition update_monotonic_time :: "timespec \<Rightarrow> timespec \<Rightarrow> ('h, 'f, 'a) Scheduler \<Rightarrow> ('h, 'f, 'a) Scheduler" where
  "update_monotonic_time now before s =
     (let diff = UTI_DiffTimespecs now before;
          s = (if tv_sec diff = 0
               then s\<lparr>last_select_ts_mono_ns := last_select_ts_mono_ns s + of_int (tv_nsec diff)\<rparr>
               else s\<lparr>last_select_ts_mono := last_select_ts_mono s +
                        \<bar>UTI_TimespecToDouble diff + of_nat (unat (last_select_ts_mono_ns s)) / 10 ^ 9\<bar>,
                      last_select_ts_mono_ns := 0\<rparr>) in
      if last_select_ts_mono_ns s > TS_MONO_PRECISION_NS
      then s\<lparr>last_select_ts_mono := last_select_ts_mono s + of_nat (unat (last_select_ts_mono_ns s)) / 10 ^ 9,
             last_select_ts_mono_ns := 0\<rparr>
      else s)"

text \<open>
  The jump detection: \<open>None\<close> when the time did not jump, otherwise the step that is reported by
  \<open>LCL_NotifyExternalTimeStep\<close>.  \<open>rem\<close> is the remaining time some systems return.
\<close>

definition check_current_time ::
    "timespec \<Rightarrow> timespec \<Rightarrow> bool \<Rightarrow> timeval \<Rightarrow> timeval option \<Rightarrow> ('h, 'f, 'a) Scheduler \<Rightarrow> real option" where
  "check_current_time prev_raw raw timeout orig rem s =
     (let orig_ts = UTI_TimevalToTimespec orig;
          (elapsed_min, elapsed_max) =
            (if timeout then (orig_ts, orig_ts)
             else case rem of
               None \<Rightarrow> (UTI_ZeroTimespec, UTI_DiffTimespecs raw prev_raw)
             | Some r \<Rightarrow>
                 if tvl_sec r \<ge> 0 \<and> tvl_sec r \<le> tvl_sec orig \<and>
                    (tvl_sec r \<noteq> tvl_sec orig \<or> tvl_usec r \<noteq> tvl_usec orig)
                 then let e = UTI_DiffTimespecs orig_ts (UTI_TimevalToTimespec r) in (e, e)
                 else (UTI_ZeroTimespec, orig_ts)) in
      if tv_sec (last_select_ts_raw s) + tv_sec elapsed_min > tv_sec raw + JUMP_DETECT_THRESHOLD \<or>
         tv_sec prev_raw + tv_sec elapsed_max + JUMP_DETECT_THRESHOLD < tv_sec raw
      then Some (UTI_DiffTimespecsToDouble (last_select_ts_raw s) raw + UTI_TimespecToDouble elapsed_min)
      else None)"

text \<open>
  An iteration of \<open>SCH_MainLoop\<close> in two parts, before and after \<open>select\<close>: what it waits for, and
  the handling of its result (the status, and whether errno is EINTR).  \<open>notify\<close> stands for
  \<open>LCL_NotifyExternalTimeStep\<close> and \<open>cook\<close> for \<open>LCL_CookTime\<close>.
\<close>

definition main_prepare ::
    "('w \<Rightarrow> timespec \<times> 'w) \<Rightarrow>
     ('h \<Rightarrow> 'a \<Rightarrow> ('h, 'f, 'a) Scheduler \<times> 'w \<Rightarrow> (('h, 'f, 'a) Scheduler \<times> 'w) option) \<Rightarrow>
     ('h, 'f, 'a) Scheduler \<times> 'w \<Rightarrow>
     ((timespec \<times> timeval option \<times> nat set option \<times> nat set option \<times> nat set option) option \<times>
      ('h, 'f, 'a) Scheduler \<times> 'w) option" where
  "main_prepare read_raw call st = do {
     (now, s, w) \<leftarrow> dispatch_timeouts read_raw call st;
     if need_to_exit s then Some (None, s, w)
     else do {
       tv \<leftarrow> (if n_timer_queue_entries s > 0 then
                if timer_queue s = [] then None
                else
                  let d = UTI_DiffTimespecs (tqe_ts (hd (timer_queue s))) now in
                  if \<not> (tv_sec d > 0 \<or> tv_nsec d > 0) then None
                  else Some (Some (UTI_TimespecToTimeval d))
              else Some None);
       let (rd, wr, ex) = fill_fd_sets s;
       if tv = None \<and> rd = None \<and> wr = None then None
       else Some (Some (now, tv, rd, wr, ex), s, w) } }"

definition main_finish ::
    "('f \<Rightarrow> nat \<Rightarrow> int \<Rightarrow> 'a option \<Rightarrow> ('h, 'f, 'a) Scheduler \<times> 'w \<Rightarrow> (('h, 'f, 'a) Scheduler \<times> 'w) option) \<Rightarrow>
     (timespec \<Rightarrow> real \<Rightarrow> ('h, 'f, 'a) Scheduler \<times> 'w \<Rightarrow> (('h, 'f, 'a) Scheduler \<times> 'w) option) \<Rightarrow>
     (timespec \<Rightarrow> 'w \<Rightarrow> timespec \<times> real) \<Rightarrow>
     timespec \<Rightarrow> timeval option \<Rightarrow> timeval option \<Rightarrow> timespec \<Rightarrow> int \<Rightarrow> bool \<Rightarrow>
     nat set option \<Rightarrow> nat set option \<Rightarrow> nat set option \<Rightarrow>
     ('h, 'f, 'a) Scheduler \<times> 'w \<Rightarrow> (('h, 'f, 'a) Scheduler \<times> 'w) option" where
  "main_finish fcall notify cook saved_now tv rem now status eintr rd wr ex st = do {
     let (s, w) = st;
     let s = update_monotonic_time now (last_select_ts_raw s) s;
     let saved_tv = (case tv of None \<Rightarrow> Timeval 0 0 | Some t \<Rightarrow> t);
     let (cooked, err) = cook now w;
     (cooked, err, s, w) \<leftarrow> (case check_current_time saved_now now (status = 0) saved_tv rem s of
         None \<Rightarrow> Some (cooked, err, s, w)
       | Some step \<Rightarrow> do {
           (s, w) \<leftarrow> notify now step (s, w);
           let (cooked, err) = cook now w;
           Some (cooked, err, s, w) });
     let s = s\<lparr>last_select_ts_raw := now, last_select_ts := cooked, last_select_ts_err := err\<rparr>;
     if status < 0 then if \<not> need_to_exit s \<and> \<not> eintr then None else Some (s, w)
     else if status > 0 then dispatch_filehandlers fcall 0 status rd wr ex (s, w)
     else if tv = None then None else Some (s, w) }"

definition SCH_QuitProgram :: "('h, 'f, 'a) Scheduler \<Rightarrow> ('h, 'f, 'a) Scheduler" where
  "SCH_QuitProgram s = s\<lparr>need_to_exit := True\<rparr>"

section \<open>Invariant of the timer queue\<close>

definition sched_inv :: "('h, 'f, 'a) Scheduler \<Rightarrow> bool" where
  "sched_inv s \<longleftrightarrow> initialised s \<and> sorted (map tqe_ts (timer_queue s)) \<and>
     (\<forall>e\<in>set (timer_queue s). norm_ts (tqe_ts e)) \<and>
     distinct (map tqe_id (timer_queue s)) \<and> 0 \<notin> tqe_id ` set (timer_queue s) \<and>
     n_timer_queue_entries s = length (timer_queue s)"

definition room :: "('h, 'f, 'a) Scheduler \<Rightarrow> bool" where
  "room s \<longleftrightarrow> length (timer_queue s) < 2 ^ 32 - 1"

text \<open>A new ID is found whenever one is free.\<close>

lemma get_new_tqe_id_step:
  assumes "next_id + of_nat (Suc k) \<noteq> 0" "next_id + of_nat (Suc k) \<notin> set ids"
  shows "\<exists>i. get_new_tqe_id ids next_id = Some i \<and> i \<noteq> 0 \<and> i \<notin> set ids"
  using assms
proof (induction k arbitrary: next_id)
  case 0
  then show ?case by (subst get_new_tqe_id.simps) simp
next
  case (Suc k)
  have "\<exists>i. get_new_tqe_id ids (next_id + 1) = Some i \<and> i \<noteq> 0 \<and> i \<notin> set ids"
    by (rule Suc.IH) (use Suc.prems in \<open>simp_all add: add.assoc\<close>)
  then show ?case by (subst get_new_tqe_id.simps) (auto simp: Let_def)
qed

lemma get_new_tqe_id_returns:
  assumes "length ids < 2 ^ 32 - 1"
  shows "\<exists>i. get_new_tqe_id ids next_id = Some i \<and> i \<noteq> 0 \<and> i \<notin> set ids"
proof -
  have "card (insert 0 (set ids)) < CARD(u32)"
    using assms card_length [of ids] card_insert_le_m1 [of "Suc (length ids)" "set ids" 0]
    by (simp add: card_word)
  then obtain w :: u32 where w: "w \<notin> insert 0 (set ids)"
    by (metis UNIV_I card_mono finite_code less_irrefl finite_insert finite_set order.strict_trans1 subsetI)
  define k where "k = unat (w - next_id - 1)"
  have "next_id + of_nat (Suc k) = w" by (simp add: k_def)
  then show ?thesis using w get_new_tqe_id_step [of next_id k ids] by simp
qed

text \<open>Inserting before the first entry that is later keeps the order.\<close>

lemma set_insert_before: "set (insert_before P x xs) = insert x (set xs)"
  by (auto simp: insert_before_def dest: set_takeWhileD set_dropWhileD)
     (metis Un_iff set_append takeWhile_dropWhile_id)

lemma mset_insert_before: "mset (insert_before P x xs) = add_mset x (mset xs)"
proof -
  have "mset xs = mset (takeWhile (\<lambda>e. \<not> P e) xs) + mset (dropWhile (\<lambda>e. \<not> P e) xs)"
    by (metis mset_append takeWhile_dropWhile_id)
  then show ?thesis by (simp add: insert_before_def)
qed

lemma length_insert_before: "length (insert_before P x xs) = Suc (length xs)"
  by (metis mset_insert_before size_add_mset size_mset)

lemma distinct_insert_before:
  "distinct (map f (insert_before P x xs)) \<longleftrightarrow> distinct (map f xs) \<and> f x \<notin> f ` set xs"
proof -
  have "mset (map f (insert_before P x xs)) = mset (map f (x # xs))" by (simp add: mset_insert_before)
  then show ?thesis by (metis mset_eq_imp_distinct_iff distinct.simps(2) list.simps(9) set_map)
qed

lemma sorted_insert_before:
  assumes "sorted (map f xs)" "\<And>e. e \<in> set xs \<Longrightarrow> P e \<Longrightarrow> f x \<le> f e" "\<And>e. e \<in> set xs \<Longrightarrow> \<not> P e \<Longrightarrow> f e \<le> f x"
  shows "sorted (map f (insert_before P x xs))"
  using assms
proof (induction xs)
  case Nil
  then show ?case by (simp add: insert_before_def)
next
  case (Cons y ys)
  show ?case
  proof (cases "P y")
    case True
    then show ?thesis using Cons.prems by (fastforce simp: insert_before_def)
  next
    case False
    have "sorted (map f (insert_before P x ys))" using Cons by simp
    moreover have "f y \<le> f e" if "e \<in> set (insert_before P x ys)" for e
      using that Cons.prems False by (auto simp: set_insert_before)
    ultimately show ?thesis using False by (simp add: insert_before_def) blast
  qed
qed

text \<open>Adding an entry that is inserted in order.\<close>

definition added :: "('h, 'a) TimerQueueEntry \<Rightarrow> ('h, 'f, 'a) Scheduler \<Rightarrow> ('h, 'f, 'a) Scheduler \<Rightarrow> bool" where
  "added e s s' \<longleftrightarrow> (\<exists>P. timer_queue s' = insert_before P e (timer_queue s)) \<and> sched_inv s' \<and>
     last_class_dispatch s' = last_class_dispatch s \<and> need_to_exit s' = need_to_exit s"

lemma added_mset: "added e s s' \<Longrightarrow> mset (timer_queue s') = add_mset e (mset (timer_queue s))"
  by (auto simp: added_def mset_insert_before)

lemma less_CompareTimespecs: "UTI_CompareTimespecs a b = -1 \<longleftrightarrow> a < b"
  by (simp add: less_timespec_def)

lemma insert_entry_inv:
  assumes "sched_inv s" "norm_ts (tqe_ts e)" "tqe_id e \<noteq> 0" "tqe_id e \<notin> set (map tqe_id (timer_queue s))"
    and "\<And>x. x \<in> set (timer_queue s) \<Longrightarrow> P x \<Longrightarrow> tqe_ts e \<le> tqe_ts x"
    and "\<And>x. x \<in> set (timer_queue s) \<Longrightarrow> \<not> P x \<Longrightarrow> tqe_ts x \<le> tqe_ts e"
  shows "added e s (s\<lparr>next_tqe_id := tqe_id e, timer_queue := insert_before P e (timer_queue s),
    n_timer_queue_entries := n_timer_queue_entries s + 1\<rparr>)"
proof -
  have "sorted (map tqe_ts (insert_before P e (timer_queue s)))"
    using assms by (intro sorted_insert_before) (auto simp: sched_inv_def)
  then show ?thesis
    using assms(1-4)
    by (auto simp: added_def sched_inv_def distinct_insert_before set_insert_before length_insert_before)
qed

lemma AddTimeout_correct:
  assumes "sched_inv s" "room s" "norm_ts t"
  shows "\<exists>i s'. SCH_AddTimeout t h x s = Some (i, s') \<and> i \<noteq> 0 \<and> i \<notin> tqe_id ` set (timer_queue s) \<and>
    added \<lparr>tqe_ts = t, tqe_id = i, tqe_class = SCH_ReservedTimeoutValue, tqe_handler = h, tqe_arg = x\<rparr> s s'"
proof -
  obtain i where i: "get_new_tqe_id (map tqe_id (timer_queue s)) (next_tqe_id s) = Some i" "i \<noteq> 0"
      "i \<notin> set (map tqe_id (timer_queue s))"
    using get_new_tqe_id_returns [of "map tqe_id (timer_queue s)"] assms(2) by (auto simp: room_def)
  let ?e = "\<lparr>tqe_ts = t, tqe_id = i, tqe_class = SCH_ReservedTimeoutValue, tqe_handler = h, tqe_arg = x\<rparr>"
  have "added ?e s (s\<lparr>next_tqe_id := tqe_id ?e,
      timer_queue := insert_before (\<lambda>e. UTI_CompareTimespecs t (tqe_ts e) = -1) ?e (timer_queue s),
      n_timer_queue_entries := n_timer_queue_entries s + 1\<rparr>)"
    by (rule insert_entry_inv) (use assms i in \<open>auto simp: less_CompareTimespecs\<close>)
  then show ?thesis using i assms(1) by (simp add: SCH_AddTimeout_def sched_inv_def)
qed

lemma unlink_Some: "i \<in> tqe_id ` set q \<Longrightarrow> distinct (map tqe_id q) \<Longrightarrow>
    unlink i q = Some (filter (\<lambda>e. tqe_id e \<noteq> i) q)"
proof (induction q)
  case (Cons e q)
  show ?case
  proof (cases "tqe_id e = i")
    case True
    then have "\<forall>x\<in>set q. tqe_id x \<noteq> i" using Cons.prems(2) by (auto simp: image_iff)
    then show ?thesis using True by (simp add: filter_id_conv)
  next
    case False
    then show ?thesis using Cons by auto
  qed
qed simp

lemma unlink_None: "i \<notin> tqe_id ` set q \<Longrightarrow> unlink i q = None"
  by (induction q) auto

lemma length_filter_id: "distinct (map tqe_id q) \<Longrightarrow> i \<in> tqe_id ` set q \<Longrightarrow>
    Suc (length (filter (\<lambda>e. tqe_id e \<noteq> i) q)) = length q"
proof (induction q)
  case (Cons e q)
  show ?case
  proof (cases "tqe_id e = i")
    case True
    then have "\<forall>x\<in>set q. tqe_id x \<noteq> i" using Cons.prems(1) by (auto simp: image_iff)
    then show ?thesis using True by (simp add: filter_id_conv)
  qed (use Cons in auto)
qed simp

lemma RemoveTimeout_correct:
  assumes "sched_inv s" "i \<in> tqe_id ` set (timer_queue s)"
  shows "\<exists>s'. SCH_RemoveTimeout i s = Some s' \<and> sched_inv s' \<and>
    timer_queue s' = filter (\<lambda>e. tqe_id e \<noteq> i) (timer_queue s) \<and>
    last_class_dispatch s' = last_class_dispatch s \<and> need_to_exit s' = need_to_exit s"
proof -
  have "i \<noteq> 0" using assms by (auto simp: sched_inv_def)
  then have r: "SCH_RemoveTimeout i s = Some (s\<lparr>timer_queue := filter (\<lambda>e. tqe_id e \<noteq> i) (timer_queue s),
      n_timer_queue_entries := n_timer_queue_entries s - 1\<rparr>)"
    using assms unlink_Some [of i "timer_queue s"] by (simp add: SCH_RemoveTimeout_def sched_inv_def)
  have "Suc (length (filter (\<lambda>e. tqe_id e \<noteq> i) (timer_queue s))) = length (timer_queue s)"
    using assms length_filter_id by (auto simp: sched_inv_def)
  then show ?thesis using r assms(1)
    by (auto simp: sched_inv_def sorted_filter distinct_map_filter)
qed

section \<open>Timers with a separation\<close>

text \<open>
  The scan over the entries in the order of their times moves the delay at least the separation
  away from every entry of the class, and never to an earlier time.
\<close>

lemma separate_mono: "0 \<le> sep \<Longrightarrow> d \<le> separate now sep c e d"
  by (auto simp: separate_def Let_def)

lemma separate_away: "0 \<le> sep \<Longrightarrow> tqe_class e = c \<Longrightarrow>
    sep \<le> \<bar>separate now sep c e d - UTI_DiffTimespecsToDouble (tqe_ts e) now\<bar>"
  by (auto simp: separate_def Let_def)

lemma separate_keeps:
  assumes "0 \<le> sep" "y \<le> UTI_DiffTimespecsToDouble (tqe_ts e) now" "sep \<le> \<bar>d - y\<bar>"
  shows "sep \<le> \<bar>separate now sep c e d - y\<bar>"
  using assms by (auto simp: separate_def Let_def abs_if split: if_splits)

lemma fold_separate:
  assumes "0 \<le> sep" "sorted (map (\<lambda>e. UTI_DiffTimespecsToDouble (tqe_ts e) now) q)"
  shows "d \<le> fold (separate now sep c) q d \<and>
    (\<forall>e\<in>set q. tqe_class e = c \<longrightarrow>
       sep \<le> \<bar>fold (separate now sep c) q d - UTI_DiffTimespecsToDouble (tqe_ts e) now\<bar>) \<and>
    (\<forall>y. (\<forall>e\<in>set q. y \<le> UTI_DiffTimespecsToDouble (tqe_ts e) now) \<and> sep \<le> \<bar>d - y\<bar> \<longrightarrow>
       sep \<le> \<bar>fold (separate now sep c) q d - y\<bar>)"
  using assms(2)
proof (induction q arbitrary: d)
  case Nil
  then show ?case by simp
next
  case (Cons e q)
  let ?d = "separate now sep c e d" and ?x = "UTI_DiffTimespecsToDouble (tqe_ts e) now"
  note IH = Cons.IH [of ?d]
  have srt: "sorted (map (\<lambda>e. UTI_DiffTimespecsToDouble (tqe_ts e) now) q)"
      "\<forall>e'\<in>set q. ?x \<le> UTI_DiffTimespecsToDouble (tqe_ts e') now" using Cons.prems by auto
  have "d \<le> fold (separate now sep c) q ?d" using IH srt separate_mono [OF assms(1), of d now c e] by auto
  moreover have "tqe_class e = c \<Longrightarrow> sep \<le> \<bar>fold (separate now sep c) q ?d - ?x\<bar>"
    using IH srt separate_away [OF assms(1)] by blast
  moreover have "sep \<le> \<bar>fold (separate now sep c) q ?d - y\<bar>"
    if "\<forall>e\<in>set (e # q). y \<le> UTI_DiffTimespecsToDouble (tqe_ts e) now" "sep \<le> \<bar>d - y\<bar>" for y
    using IH srt separate_keeps [OF assms(1), of y e now d c] that by simp
  ultimately show ?case using IH srt by auto
qed

lemma sorted_diffs:
  "sorted (map tqe_ts q) \<Longrightarrow> \<forall>e\<in>set q. norm_ts (tqe_ts e) \<Longrightarrow>
    sorted (map (\<lambda>e. UTI_DiffTimespecsToDouble (tqe_ts e) now) q)"
proof (induction q)
  case (Cons e q)
  have "UTI_DiffTimespecsToDouble (tqe_ts e) now \<le> UTI_DiffTimespecsToDouble (tqe_ts x) now" if "x \<in> set q" for x
  proof -
    have "\<not> tqe_ts x < tqe_ts e" using Cons.prems(1) that by (auto simp: not_less)
    then have "ts_ns (tqe_ts e) \<le> ts_ns (tqe_ts x)"
      using less_ts_ns [of "tqe_ts x" "tqe_ts e"] Cons.prems(2) that by auto
    then show ?thesis by (simp add: DiffTimespecsToDouble_ns divide_right_mono)
  qed
  then show ?case using Cons by simp
qed simp

text \<open>Adding a non-negative delay truncates the exact time.\<close>

lemma AddDouble_floor:
  assumes "norm_ts t" "0 \<le> d"
  shows "ts_ns (UTI_AddDoubleToTimespec t d) = \<lfloor>of_int (ts_ns t) + 10 ^ 9 * d\<rfloor>"
proof -
  let ?k = "c_trunc d" and ?x = "of_int (tv_nsec t) + 10 ^ 9 * (d - of_int (c_trunc d)) :: real"
  have k: "of_int ?k \<le> d" using assms(2) by (simp add: c_trunc_def)
  have x: "0 \<le> ?x" using assms(1) k by (simp add: norm_ts_def)
  have "ts_ns (UTI_AddDoubleToTimespec t d) = (tv_sec t + ?k) * NSEC_PER_SEC + c_trunc ?x"
    by (simp add: UTI_AddDoubleToTimespec_def Let_def ts_ns_normalise) (simp add: ts_ns_def)
  also have "c_trunc ?x = \<lfloor>?x\<rfloor>" using x by (simp add: c_trunc_def)
  also have "(tv_sec t + ?k) * NSEC_PER_SEC + \<lfloor>?x\<rfloor> = \<lfloor>of_int ((tv_sec t + ?k) * NSEC_PER_SEC) + ?x\<rfloor>"
    by (simp only: floor_add_int add.commute)
  also have "of_int ((tv_sec t + ?k) * NSEC_PER_SEC) + ?x = of_int (ts_ns t) + 10 ^ 9 * d"
    by (simp add: ts_ns_def algebra_simps)
  finally show ?thesis .
qed

lemma AddDouble_order:
  assumes "norm_ts now" "norm_ts t" "0 \<le> d"
  shows "UTI_DiffTimespecsToDouble t now > d \<Longrightarrow> UTI_AddDoubleToTimespec now d \<le> t"
    and "\<not> UTI_DiffTimespecsToDouble t now > d \<Longrightarrow> t \<le> UTI_AddDoubleToTimespec now d"
proof -
  let ?n = "UTI_AddDoubleToTimespec now d"
  have f: "ts_ns ?n = \<lfloor>of_int (ts_ns now) + 10 ^ 9 * d\<rfloor>" using AddDouble_floor [OF assms(1,3)] .
  have e: "UTI_DiffTimespecsToDouble t now > d \<longleftrightarrow> of_int (ts_ns now) + 10 ^ 9 * d < of_int (ts_ns t)"
    by (auto simp: DiffTimespecsToDouble_ns field_simps)
  have le: "a \<le> b \<longleftrightarrow> ts_ns a \<le> ts_ns b" if "norm_ts a" "norm_ts b" for a b
    using less_ts_ns [OF that(2,1)] by (simp add: not_less [symmetric])
  show "UTI_DiffTimespecsToDouble t now > d \<Longrightarrow> ?n \<le> t"
    using e f le [OF AddDouble_norm assms(2)] by (simp add: floor_le_iff) linarith
  show "\<not> UTI_DiffTimespecsToDouble t now > d \<Longrightarrow> t \<le> ?n"
  proof -
    assume "\<not> UTI_DiffTimespecsToDouble t now > d"
    then have "ts_ns t \<le> \<lfloor>of_int (ts_ns now) + 10 ^ 9 * d\<rfloor>" using e by (simp only: le_floor_iff not_less)
    then show ?thesis using f le [OF assms(2) AddDouble_norm] by simp
  qed
qed

text \<open>The delay and the separation after the randomisation.\<close>

definition randomised :: "u32 \<Rightarrow> real \<Rightarrow> real \<Rightarrow> real" where
  "randomised rnd randomness x =
     (if randomness > 0 then x * (of_nat (unat rnd) * (randomness / 4294967295) + 1) else x)"

lemma randomised_ge: "0 \<le> x \<Longrightarrow> x \<le> randomised rnd randomness x"
proof -
  assume x: "0 \<le> x"
  have "x * 1 \<le> x * (of_nat (unat rnd) * (randomness / 4294967295) + 1)" if "0 < randomness"
    using that by (intro mult_left_mono x) (simp del: of_nat_unat)
  then show ?thesis by (simp add: randomised_def)
qed

lemma AddTimeoutInClass_correct:
  assumes "sched_inv s" "room s" "norm_ts now" "0 \<le> min_delay" "0 \<le> separation"
  shows "\<exists>i s' d. SCH_AddTimeoutInClass now rnd min_delay separation randomness c h x s = Some (i, s') \<and>
    i \<noteq> 0 \<and> i \<notin> tqe_id ` set (timer_queue s) \<and> min_delay \<le> d \<and>
    added \<lparr>tqe_ts = UTI_AddDoubleToTimespec now d, tqe_id = i, tqe_class = c, tqe_handler = h, tqe_arg = x\<rparr> s s' \<and>
    (\<forall>e\<in>set (timer_queue s). tqe_class e = c \<longrightarrow> separation \<le> \<bar>d - UTI_DiffTimespecsToDouble (tqe_ts e) now\<bar>)"
proof -
  let ?md = "randomised rnd randomness min_delay" and ?sep = "randomised rnd randomness separation"
  define diff where "diff = UTI_DiffTimespecsToDouble now (last_class_dispatch s c)"
  define d0 where "d0 = (if diff < ?sep \<and> diff \<ge> 0 \<and> diff + ?md < ?sep then ?sep - diff else ?md)"
  define d where "d = fold (separate now ?sep c) (timer_queue s) d0"
  have md: "min_delay \<le> ?md" "separation \<le> ?sep" using assms(4,5) randomised_ge by auto
  have d0: "?md \<le> d0" by (auto simp: d0_def)
  have srt: "sorted (map (\<lambda>e. UTI_DiffTimespecsToDouble (tqe_ts e) now) (timer_queue s))"
    using sorted_diffs assms(1) by (auto simp: sched_inv_def)
  have sep: "0 \<le> ?sep" using md assms(5) by linarith
  have f: "d0 \<le> d" "\<forall>e\<in>set (timer_queue s). tqe_class e = c \<longrightarrow>
      ?sep \<le> \<bar>d - UTI_DiffTimespecsToDouble (tqe_ts e) now\<bar>"
    using fold_separate [OF sep srt, of d0 c] by (auto simp: d_def)
  have dpos: "0 \<le> d" "min_delay \<le> d" using f(1) d0 md assms(4) by linarith+
  obtain i where i: "get_new_tqe_id (map tqe_id (timer_queue s)) (next_tqe_id s) = Some i" "i \<noteq> 0"
      "i \<notin> set (map tqe_id (timer_queue s))"
    using get_new_tqe_id_returns [of "map tqe_id (timer_queue s)"] assms(2) by (auto simp: room_def)
  let ?e = "\<lparr>tqe_ts = UTI_AddDoubleToTimespec now d, tqe_id = i, tqe_class = c, tqe_handler = h, tqe_arg = x\<rparr>"
  let ?s = "s\<lparr>next_tqe_id := tqe_id ?e,
      timer_queue := insert_before (\<lambda>e. UTI_DiffTimespecsToDouble (tqe_ts e) now > d) ?e (timer_queue s),
      n_timer_queue_entries := n_timer_queue_entries s + 1\<rparr>"
  have a: "added ?e s ?s"
    by (rule insert_entry_inv)
       (use assms(1) i dpos AddDouble_norm AddDouble_order [OF assms(3) _ dpos(1)] in \<open>auto simp: sched_inv_def\<close>)
  have "SCH_AddTimeoutInClass now rnd min_delay separation randomness c h x s = Some (i, ?s)"
    using assms(1,4) i(1)
    by (simp add: SCH_AddTimeoutInClass_def sched_inv_def Let_def d_def d0_def diff_def randomised_def split: prod.split)
  then show ?thesis using a i(2,3) dpos(2) f(2) md(2) by (intro exI [of _ i] exI [of _ ?s] exI [of _ d]) force
qed

section \<open>Clock steps\<close>

text \<open>Shifting all times by the same amount keeps their order.\<close>

lemma c_trunc_mono: "x \<le> y \<Longrightarrow> c_trunc x \<le> c_trunc y"
proof -
  assume a: "x \<le> y"
  have "\<lceil>x\<rceil> \<le> \<lfloor>y\<rfloor>" if "x < 0" "\<not> y < 0"
    using that order_trans [of "\<lceil>x\<rceil>" 0 "\<lfloor>y\<rfloor>"] by (simp add: ceiling_le_iff)
  then show ?thesis using a by (auto simp: c_trunc_def floor_mono ceiling_mono)
qed

lemma c_trunc_near: "x \<le> y + 999999999 \<Longrightarrow> c_trunc x \<le> 1000000000 + c_trunc y"
  by (auto simp: c_trunc_def) linarith+

lemma AddDouble_shift_mono:
  assumes "norm_ts a" "norm_ts b" "a \<le> b"
  shows "UTI_AddDoubleToTimespec a d \<le> UTI_AddDoubleToTimespec b d"
proof -
  let ?k = "c_trunc d" and ?x = "\<lambda>t. of_int (tv_nsec t) + 10 ^ 9 * (d - of_int (c_trunc d)) :: real"
  have e: "ts_ns (UTI_AddDoubleToTimespec t d) = (tv_sec t + ?k) * NSEC_PER_SEC + c_trunc (?x t)" for t
    by (simp add: UTI_AddDoubleToTimespec_def Let_def ts_ns_normalise) (simp add: ts_ns_def)
  have ab: "tv_sec a < tv_sec b \<or> tv_sec a = tv_sec b \<and> tv_nsec a \<le> tv_nsec b"
    using assms(3) by (auto simp: less_eq_timespec_def UTI_CompareTimespecs_def split: if_splits)
  have "ts_ns (UTI_AddDoubleToTimespec a d) \<le> ts_ns (UTI_AddDoubleToTimespec b d)"
  proof (cases "tv_sec a < tv_sec b")
    case True
    have "?x a \<le> ?x b + 999999999" using assms(1,2) by (simp add: norm_ts_def)
    then have "c_trunc (?x a) \<le> 1000000000 + c_trunc (?x b)" by (rule c_trunc_near)
    moreover have "(tv_sec a + ?k) * NSEC_PER_SEC + NSEC_PER_SEC \<le> (tv_sec b + ?k) * NSEC_PER_SEC" using True by simp
    ultimately show ?thesis unfolding e by linarith
  next
    case False
    then have "c_trunc (?x a) \<le> c_trunc (?x b)" using ab by (intro c_trunc_mono) simp
    then show ?thesis using False ab unfolding e by simp
  qed
  then show ?thesis using less_ts_ns [OF AddDouble_norm AddDouble_norm, of b d a d] by (simp add: not_less [symmetric])
qed

lemma slew_keeps_inv:
  fixes s :: "('h, 'f, 'a) Scheduler"
  assumes "sched_inv s"
  shows "sched_inv (sched_handle_slew cooked dfreq doffset adjust s)"
proof -
  let ?f = "\<lambda>e :: ('h, 'a) TimerQueueEntry. e\<lparr>tqe_ts := UTI_AddDoubleToTimespec (tqe_ts e) (- doffset)\<rparr>"
  have "sorted (map tqe_ts (map ?f q))" if "sorted (map tqe_ts q)" "\<forall>e\<in>set q. norm_ts (tqe_ts e)" for q
    using that by (induction q) (auto simp: AddDouble_shift_mono)
  moreover have "map (tqe_id \<circ> ?f) q = map tqe_id q" for q by simp
  moreover have "tqe_id ` ?f ` S = tqe_id ` S" for S by (simp add: image_image)
  ultimately show ?thesis
    using assms unfolding sched_inv_def sched_handle_slew_def Let_def
    by (cases adjust) (simp_all add: AddDouble_norm del: map_eq_conv)
qed

section \<open>Dispatching of timers\<close>

text \<open>
  What a dispatch is: while the first timeout of the queue has expired at the time read from the
  clock, the time is saved as the last dispatch of its class, the timeout is removed and its
  handler is called with its argument; this ends when no timeout has expired, or after the call of
  a handler that requested the exit.  The list holds the timeouts in the order they were dispatched.
\<close>

definition dequeued :: "timespec \<Rightarrow> ('h, 'a) TimerQueueEntry \<Rightarrow> ('h, 'f, 'a) Scheduler \<Rightarrow> ('h, 'f, 'a) Scheduler" where
  "dequeued now e s = s\<lparr>last_class_dispatch := (last_class_dispatch s)(tqe_class e := now),
     timer_queue := tl (timer_queue s), n_timer_queue_entries := length (timer_queue s) - 1\<rparr>"

inductive dispatched ::
    "('w \<Rightarrow> timespec \<times> 'w) \<Rightarrow>
     ('h \<Rightarrow> 'a \<Rightarrow> ('h, 'f, 'a) Scheduler \<times> 'w \<Rightarrow> (('h, 'f, 'a) Scheduler \<times> 'w) option) \<Rightarrow>
     ('h, 'f, 'a) Scheduler \<times> 'w \<Rightarrow> ('h, 'a) TimerQueueEntry list \<Rightarrow>
     timespec \<times> ('h, 'f, 'a) Scheduler \<times> 'w \<Rightarrow> bool"
  for read_raw :: "'w \<Rightarrow> timespec \<times> 'w"
    and call :: "'h \<Rightarrow> 'a \<Rightarrow> ('h, 'f, 'a) Scheduler \<times> 'w \<Rightarrow> (('h, 'f, 'a) Scheduler \<times> 'w) option" where
  idle: "read_raw w = (now, w1) \<Longrightarrow> \<forall>e\<in>set (timer_queue s). now < tqe_ts e \<Longrightarrow>
    dispatched read_raw call (s, w) [] (now, s, w1)"
| quit: "read_raw w = (now, w1) \<Longrightarrow> timer_queue s = e # q \<Longrightarrow> tqe_ts e \<le> now \<Longrightarrow>
    call (tqe_handler e) (tqe_arg e) (dequeued now e s, w1) = Some (s2, w2) \<Longrightarrow> need_to_exit s2 \<Longrightarrow>
    dispatched read_raw call (s, w) [e] (now, s2, w2)"
| more: "read_raw w = (now, w1) \<Longrightarrow> timer_queue s = e # q \<Longrightarrow> tqe_ts e \<le> now \<Longrightarrow>
    call (tqe_handler e) (tqe_arg e) (dequeued now e s, w1) = Some (s2, w2) \<Longrightarrow> \<not> need_to_exit s2 \<Longrightarrow>
    dispatched read_raw call (s2, w2) es r \<Longrightarrow> dispatched read_raw call (s, w) (e # es) r"

text \<open>
  What the scheduler relies on of the handlers and the clock during one dispatch.  The handlers
  may add timeouts and rearm their own, at most \<open>m\<close> each and none before the time \<open>T\<close>: the number
  of timeouts that are due before \<open>T\<close> does not grow.  \<open>W k w\<close> says of the environment \<open>w\<close> (which
  has the clock) that \<open>k\<close> more handlers can be run before \<open>T\<close>; each of them may take time.
\<close>

definition due :: "timespec \<Rightarrow> ('h, 'f, 'a) Scheduler \<Rightarrow> nat" where
  "due T s = length (filter (\<lambda>e. tqe_ts e < T) (timer_queue s))"

definition handlers_rearm ::
    "timespec \<Rightarrow> nat \<Rightarrow> (nat \<Rightarrow> 'w \<Rightarrow> bool) \<Rightarrow> ('w \<Rightarrow> timespec \<times> 'w) \<Rightarrow>
     ('h \<Rightarrow> 'a \<Rightarrow> ('h, 'f, 'a) Scheduler \<times> 'w \<Rightarrow> (('h, 'f, 'a) Scheduler \<times> 'w) option) \<Rightarrow> bool" where
  "handlers_rearm T m W read_raw call \<longleftrightarrow>
     (\<forall>k w. W k w \<longrightarrow> norm_ts (fst (read_raw w)) \<and> fst (read_raw w) < T) \<and>
     (\<forall>k w h x s. W (Suc k) w \<and> sched_inv s \<and> length (timer_queue s) + m < 2 ^ 32 \<longrightarrow>
        (\<exists>s' w'. call h x (s, snd (read_raw w)) = Some (s', w') \<and> sched_inv s' \<and> W k w' \<and>
           length (timer_queue s') \<le> length (timer_queue s) + m \<and> due T s' \<le> due T s))"

lemma handlers_rearmD:
  assumes "handlers_rearm T m W read_raw call" "read_raw w = (now, w1)"
  shows "W k w \<Longrightarrow> norm_ts now \<and> now < T"
    and "W (Suc k) w \<Longrightarrow> sched_inv s \<Longrightarrow> length (timer_queue s) + m < 2 ^ 32 \<Longrightarrow>
      \<exists>s' w'. call h x (s, w1) = Some (s', w') \<and> sched_inv s' \<and> W k w' \<and>
        length (timer_queue s') \<le> length (timer_queue s) + m \<and> due T s' \<le> due T s"
  using assms unfolding handlers_rearm_def by force+

lemma RemoveTimeout_hd:
  assumes "sched_inv s" "timer_queue s = e # q"
  shows "SCH_RemoveTimeout (tqe_id e) (s\<lparr>last_class_dispatch := (last_class_dispatch s)(tqe_class e := now)\<rparr>) =
      Some (dequeued now e s)"
    and "sched_inv (dequeued now e s)" "timer_queue (dequeued now e s) = q"
proof -
  let ?s = "s\<lparr>last_class_dispatch := (last_class_dispatch s)(tqe_class e := now)\<rparr>"
  have i: "sched_inv ?s" using assms(1) by (simp add: sched_inv_def)
  have "filter (\<lambda>x. tqe_id x \<noteq> tqe_id e) q = q"
    using assms by (auto simp: sched_inv_def filter_id_conv image_iff)
  moreover have "tqe_id e \<noteq> 0" "initialised s" "n_timer_queue_entries s = Suc (length q)"
    using assms by (auto simp: sched_inv_def)
  ultimately show r: "SCH_RemoveTimeout (tqe_id e) ?s = Some (dequeued now e s)"
    using assms(2) unlink_Some [of "tqe_id e" "timer_queue s"]
    by (simp add: SCH_RemoveTimeout_def dequeued_def)
  show "sched_inv (dequeued now e s)"
    using RemoveTimeout_correct [OF i, of "tqe_id e"] assms(2) r by auto
  show "timer_queue (dequeued now e s) = q" using assms(2) by (simp add: dequeued_def)
qed

lemma Compare_le: "UTI_CompareTimespecs now t \<ge> 0 \<longleftrightarrow> t \<le> now"
  by (auto simp: less_eq_timespec_def UTI_CompareTimespecs_def)

text \<open>One turn of the loop.\<close>

lemma dispatch_loop_idle:
  assumes "sched_inv s" "read_raw w = (now, w1)" "\<forall>e\<in>set (timer_queue s). now < tqe_ts e"
  shows "dispatch_loop read_raw call n0 k (s, w) = Some (now, s, w1)"
proof -
  have "\<not> (n_timer_queue_entries s > 0 \<and> timer_queue s \<noteq> [] \<and>
      UTI_CompareTimespecs now (tqe_ts (hd (timer_queue s))) \<ge> 0)"
    using assms(3) unfolding Compare_le by (cases "timer_queue s") (auto simp: not_le)
  then show ?thesis
    by (subst dispatch_loop.simps) (simp only: assms(2) prod.case if_True not_False_eq_True)
qed

lemma dispatch_loop_turn:
  assumes "sched_inv s" "read_raw w = (now, w1)" "timer_queue s = e # q" "tqe_ts e \<le> now"
    and "call (tqe_handler e) (tqe_arg e) (dequeued now e s, w1) = Some (s2, w2)" "k < n0"
  shows "dispatch_loop read_raw call n0 k (s, w) =
    (if need_to_exit s2 then Some (now, s2, w2) else dispatch_loop read_raw call n0 (k + 1) (s2, w2))"
proof -
  have "n_timer_queue_entries s > 0" "UTI_CompareTimespecs now (tqe_ts e) \<ge> 0"
    using assms(1,3,4) by (simp_all add: sched_inv_def Compare_le)
  moreover have "\<not> k + 1 > 4 * max (n_timer_queue_entries s2) n0" using assms(6) by simp
  ultimately show ?thesis
    using assms(2,3,5) RemoveTimeout_hd(1) [OF assms(1,3)]
    by (subst dispatch_loop.simps) (simp add: Let_def)
qed

text \<open>The number of timeouts due before the horizon bounds the number of turns.\<close>

lemma dispatch_loop_returns:
  assumes "handlers_rearm T m W read_raw call"
  shows "sched_inv s \<Longrightarrow> due T s \<le> j \<Longrightarrow> W j w \<Longrightarrow> k + j \<le> n0 \<Longrightarrow>
    length (timer_queue s) + j * m < 2 ^ 32 \<Longrightarrow>
    \<exists>es now s' w'. dispatch_loop read_raw call n0 k (s, w) = Some (now, s', w') \<and>
      dispatched read_raw call (s, w) es (now, s', w') \<and> length es \<le> j \<and> sched_inv s' \<and> norm_ts now \<and>
      (need_to_exit s' \<or> (\<forall>e\<in>set (timer_queue s'). now < tqe_ts e))"
proof (induction j arbitrary: s w k rule: less_induct)
  case (less j)
  obtain now w1 where rd: "read_raw w = (now, w1)" by force
  have now: "norm_ts now" "now < T" using handlers_rearmD(1) [OF assms rd less.prems(3)] by auto
  show ?case
  proof (cases "timer_queue s \<noteq> [] \<and> tqe_ts (hd (timer_queue s)) \<le> now")
    case False
    then have "\<forall>e\<in>set (timer_queue s). now < tqe_ts e"
      using less.prems(1) by (cases "timer_queue s") (auto simp: sched_inv_def)
    then show ?thesis
      using dispatch_loop_idle [of s read_raw w, OF less.prems(1) rd] idle [where call = call and read_raw = read_raw, OF rd] less.prems(1) now(1)
      by fastforce
  next
    case True
    then obtain e q where q: "timer_queue s = e # q" "tqe_ts e \<le> now" by (cases "timer_queue s") auto
    let ?s1 = "dequeued now e s"
    note s1 = RemoveTimeout_hd(2,3) [OF less.prems(1) q(1)]
    have "tqe_ts e < T" using q(2) now(2) by (rule le_less_trans)
    then have du: "due T s = Suc (due T ?s1)" using q(1) s1(2) by (simp add: due_def)
    obtain i where i: "j = Suc i" using du less.prems(2) by (cases j) auto
    have len: "length (timer_queue ?s1) + m < 2 ^ 32"
      using less.prems(5) q(1) s1(2) by (simp add: i)
    obtain s2 w2 where c: "call (tqe_handler e) (tqe_arg e) (?s1, w1) = Some (s2, w2)" "sched_inv s2" "W i w2"
        "length (timer_queue s2) \<le> length (timer_queue ?s1) + m" "due T s2 \<le> due T ?s1"
      using handlers_rearmD(2) [OF assms rd less.prems(3) [unfolded i] s1(1) len] by blast
    have turn: "dispatch_loop read_raw call n0 k (s, w) =
        (if need_to_exit s2 then Some (now, s2, w2) else dispatch_loop read_raw call n0 (k + 1) (s2, w2))"
      by (rule dispatch_loop_turn [where call = call and read_raw = read_raw, OF less.prems(1) rd q c(1)]) (use less.prems(4) in \<open>simp add: i\<close>)
    show ?thesis
    proof (cases "need_to_exit s2")
      case True
      then show ?thesis using turn quit [where call = call and read_raw = read_raw, OF rd q c(1)] c(2) now(1) i by fastforce
    next
      case False
      obtain es now' s' w' where r: "dispatch_loop read_raw call n0 (k + 1) (s2, w2) = Some (now', s', w')"
          "dispatched read_raw call (s2, w2) es (now', s', w')" "length es \<le> i" "sched_inv s'" "norm_ts now'"
          "need_to_exit s' \<or> (\<forall>e\<in>set (timer_queue s'). now' < tqe_ts e)"
        using less.IH [of i s2 w2 "k + 1"] c less.prems(2,4,5) du q(1) s1(2) by (auto simp: i)
      then show ?thesis
        using False turn more [where call = call and read_raw = read_raw, OF rd q c(1) False r(2)] i
        by (intro exI [of _ "e # es"] exI [of _ now'] exI [of _ s'] exI [of _ w']) simp
    qed
  qed
qed

lemma due_le: "due T s \<le> length (timer_queue s)"
  by (simp add: due_def)

lemma due_added: "added e s s' \<Longrightarrow> due T s' = due T s + (if tqe_ts e < T then 1 else 0)"
  unfolding due_def size_mset [symmetric] mset_filter by (drule added_mset) simp

section \<open>The monotonic time\<close>

lemma update_monotonic:
  assumes "unat (last_select_ts_mono_ns s) \<le> 10000000"
  shows "last_select_ts_mono s \<le> last_select_ts_mono (update_monotonic_time now before s) \<and>
    unat (last_select_ts_mono_ns (update_monotonic_time now before s)) \<le> 10000000"
  by (auto simp: update_monotonic_time_def Let_def word_less_nat_alt simp del: of_nat_unat)

section \<open>File handlers\<close>

text \<open>All descriptors with a handler are below \<open>one_highest_fd\<close>, which is one more than the highest.\<close>

definition fd_inv :: "('h, 'f, 'a) Scheduler \<Rightarrow> bool" where
  "fd_inv s \<longleftrightarrow> one_highest_fd s \<le> length (file_handlers s) \<and> length (file_handlers s) \<le> 1024 \<and>
     (\<forall>i<length (file_handlers s). fh_handler (file_handlers s ! i) \<noteq> None \<longrightarrow> i < one_highest_fd s) \<and>
     (0 < one_highest_fd s \<longrightarrow> fh_handler (file_handlers s ! (one_highest_fd s - 1)) \<noteq> None)"

lemma find_highest_correct:
  assumes "n \<le> length fh"
  shows "\<exists>m\<le>n. find_highest fh n = Some m \<and> (\<forall>i. m \<le> i \<and> i < n \<longrightarrow> fh_handler (fh ! i) = None) \<and>
    (0 < m \<longrightarrow> fh_handler (fh ! (m - 1)) \<noteq> None)"
  using assms
proof (induction n)
  case (Suc n)
  show ?case
  proof (cases "fh_handler (fh ! n) = None")
    case True
    obtain m where m: "m \<le> n" "find_highest fh n = Some m" "\<forall>i. m \<le> i \<and> i < n \<longrightarrow> fh_handler (fh ! i) = None"
        "0 < m \<longrightarrow> fh_handler (fh ! (m - 1)) \<noteq> None" using Suc by auto
    then show ?thesis using True Suc.prems by (intro exI [of _ m]) (auto simp: less_Suc_eq)
  next
    case False
    then show ?thesis using Suc.prems by (intro exI [of _ "Suc n"]) auto
  qed
qed simp

lemma AddFileHandler_inv:
  assumes "fd_inv s" "SCH_AddFileHandler fd evs h x s = Some s'"
  shows "fd_inv s' \<and> fh_handler (file_handlers s' ! nat fd) = Some h"
proof -
  let ?fh = "file_handlers s @ replicate (nat fd + 1 - length (file_handlers s)) no_handler"
  have fd: "0 \<le> fd" "fd < 1024" "nat fd < length ?fh" using assms(2) by (auto simp: SCH_AddFileHandler_def split: if_splits)
  have s': "s' = s\<lparr>file_handlers := ?fh[nat fd := \<lparr>fh_handler = Some h, fh_arg = Some x, events = evs\<rparr>],
      one_highest_fd := max (one_highest_fd s) (nat fd + 1)\<rparr>"
    using assms(2) by (auto simp: SCH_AddFileHandler_def Let_def split: if_splits)
  have old: "fh_handler (?fh ! i) \<noteq> None \<Longrightarrow> i < length ?fh \<Longrightarrow> i < one_highest_fd s" for i
    using assms(1) by (auto simp: fd_inv_def nth_append no_handler_def split: if_splits)
  have top: "0 < one_highest_fd s \<Longrightarrow> fh_handler (?fh ! (one_highest_fd s - 1)) \<noteq> None"
    using assms(1) by (auto simp: fd_inv_def nth_append)
  have "i < max (one_highest_fd s) (nat fd + 1)"
    if "i < length ?fh" "fh_handler (?fh[nat fd := \<lparr>fh_handler = Some h, fh_arg = Some x, events = evs\<rparr>] ! i) \<noteq> None" for i
    using that old [of i] by (cases "i = nat fd") auto
  moreover have "fh_handler (?fh[nat fd := \<lparr>fh_handler = Some h, fh_arg = Some x, events = evs\<rparr>] !
      (max (one_highest_fd s) (nat fd + 1) - 1)) \<noteq> None"
    using top fd by (cases "one_highest_fd s \<le> nat fd + 1") (auto simp: max_def nth_list_update)
  moreover have "length ?fh \<le> 1024" "max (one_highest_fd s) (nat fd + 1) \<le> length ?fh"
    using assms(1) fd by (auto simp: fd_inv_def)
  ultimately show ?thesis using fd(3) unfolding s' fd_inv_def by simp
qed

lemma RemoveFileHandler_inv:
  assumes "fd_inv s" "initialised s" "0 \<le> fd" "nat fd < length (file_handlers s)"
    and "fh_handler (file_handlers s ! nat fd) \<noteq> None"
  shows "\<exists>s'. SCH_RemoveFileHandler fd s = Some s' \<and> fd_inv s' \<and> fh_handler (file_handlers s' ! nat fd) = None"
proof -
  let ?fh = "(file_handlers s)[nat fd := no_handler]"
  have l: "one_highest_fd s \<le> length ?fh" using assms(1) by (simp add: fd_inv_def)
  obtain m where m: "m \<le> one_highest_fd s" "find_highest ?fh (one_highest_fd s) = Some m"
      "\<forall>i. m \<le> i \<and> i < one_highest_fd s \<longrightarrow> fh_handler (?fh ! i) = None"
      "0 < m \<longrightarrow> fh_handler (?fh ! (m - 1)) \<noteq> None"
    using find_highest_correct [OF l] by blast
  have "i < m" if "i < length ?fh" "fh_handler (?fh ! i) \<noteq> None" for i
  proof -
    have "i < one_highest_fd s"
      using that assms(1) by (cases "i = nat fd") (auto simp: fd_inv_def no_handler_def)
    then show ?thesis using m(3) that(2) by (meson not_less)
  qed
  then have "fd_inv (s\<lparr>file_handlers := ?fh, one_highest_fd := m\<rparr>)"
    using assms(1) m(1,4) by (auto simp: fd_inv_def)
  then show ?thesis using assms m(2) by (simp add: SCH_RemoveFileHandler_def no_handler_def)
qed

section \<open>The timer interface\<close>

text \<open>
  What the users of the timers rely on: the pending timeouts are a multiset of IDs and times,
  every new timeout has an ID of its own, and a timeout can be removed by its ID.
\<close>

locale timer_service =
  fixes inv :: "'s \<Rightarrow> bool"
    and pending :: "'s \<Rightarrow> (u32 \<times> timespec) multiset"
    and fits :: "'s \<Rightarrow> bool"
    and add :: "timespec \<Rightarrow> 's \<Rightarrow> (u32 \<times> 's) option"
    and remove :: "u32 \<Rightarrow> 's \<Rightarrow> 's option"
  assumes add: "inv s \<Longrightarrow> fits s \<Longrightarrow> norm_ts t \<Longrightarrow>
      \<exists>i s'. add t s = Some (i, s') \<and> inv s' \<and> i \<notin># image_mset fst (pending s) \<and> pending s' = add_mset (i, t) (pending s)"
    and remove: "inv s \<Longrightarrow> i \<in># image_mset fst (pending s) \<Longrightarrow>
      \<exists>s'. remove i s = Some s' \<and> inv s' \<and> pending s' = filter_mset (\<lambda>p. fst p \<noteq> i) (pending s)"
begin

text \<open>A timeout that is cancelled leaves no trace.\<close>

lemma cancel:
  assumes "inv s" "fits s" "norm_ts t"
  shows "\<exists>i s1 s2. add t s = Some (i, s1) \<and> remove i s1 = Some s2 \<and> inv s2 \<and> pending s2 = pending s"
proof -
  obtain i s1 where a: "add t s = Some (i, s1)" "inv s1" "i \<notin># image_mset fst (pending s)"
      "pending s1 = add_mset (i, t) (pending s)" using add [OF assms] by blast
  obtain s2 where r: "remove i s1 = Some s2" "inv s2" "pending s2 = filter_mset (\<lambda>p. fst p \<noteq> i) (pending s1)"
    using remove [OF a(2), of i] a(4) by auto
  have "filter_mset (\<lambda>p. fst p \<noteq> i) (pending s) = pending s"
    using a(3) by (auto simp: filter_mset_eq_conv)
  then show ?thesis using a r by auto
qed

end

definition pending_timeouts :: "('h, 'f, 'a) Scheduler \<Rightarrow> (u32 \<times> timespec) multiset" where
  "pending_timeouts s = image_mset (\<lambda>e. (tqe_id e, tqe_ts e)) (mset (timer_queue s))"

lemma pending_ids: "i \<in># image_mset fst (pending_timeouts s) \<longleftrightarrow> i \<in> tqe_id ` set (timer_queue s)"
  by (force simp: pending_timeouts_def)

lemma pending_filter: "image_mset (\<lambda>e. (tqe_id e, tqe_ts e)) (mset (filter (\<lambda>e. tqe_id e \<noteq> i) q)) =
    filter_mset (\<lambda>p. fst p \<noteq> i) (image_mset (\<lambda>e. (tqe_id e, tqe_ts e)) (mset q))"
  by (induction q) auto

interpretation sch: timer_service sched_inv pending_timeouts room "\<lambda>t. SCH_AddTimeout t h x" SCH_RemoveTimeout for h :: 'h and x :: 'a
proof
  fix s :: "('h, 'f, 'a) Scheduler" and t
  assume "sched_inv s" "room s" "norm_ts t"
  from AddTimeout_correct [OF this, of h x]
  show "\<exists>i s'. SCH_AddTimeout t h x s = Some (i, s') \<and> sched_inv s' \<and>
      i \<notin># image_mset fst (pending_timeouts s) \<and> pending_timeouts s' = add_mset (i, t) (pending_timeouts s)"
    unfolding pending_ids by (auto simp: pending_timeouts_def added_def mset_insert_before)
next
  fix s :: "('h, 'f, 'a) Scheduler" and i
  assume "sched_inv s" "i \<in># image_mset fst (pending_timeouts s)"
  then have "\<exists>s'. SCH_RemoveTimeout i s = Some s' \<and> sched_inv s' \<and>
      timer_queue s' = filter (\<lambda>e. tqe_id e \<noteq> i) (timer_queue s)"
    unfolding pending_ids using RemoveTimeout_correct by blast
  then show "\<exists>s'. SCH_RemoveTimeout i s = Some s' \<and> sched_inv s' \<and>
      pending_timeouts s' = filter_mset (\<lambda>p. fst p \<noteq> i) (pending_timeouts s)"
    by (auto simp: pending_timeouts_def pending_filter simp del: mset_filter)
qed

section \<open>Histories of timer operations\<close>

datatype ('h, 'a) sch_op =
  AddAt timespec 'h 'a
| AddDelay timespec real 'h 'a
| AddInClass timespec u32 real real real SCH_TimeoutClass 'h 'a
| Remove u32
| Step timespec real real bool

fun sch_step :: "('h, 'a) sch_op \<Rightarrow> ('h, 'f, 'a) Scheduler \<Rightarrow> ('h, 'f, 'a) Scheduler option" where
  "sch_step (AddAt t h x) s = map_option snd (SCH_AddTimeout t h x s)"
| "sch_step (AddDelay now d h x) s = map_option snd (SCH_AddTimeoutByDelay now d h x s)"
| "sch_step (AddInClass now rnd md sep r c h x) s = map_option snd (SCH_AddTimeoutInClass now rnd md sep r c h x s)"
| "sch_step (Remove i) s = SCH_RemoveTimeout i s"
| "sch_step (Step cooked dfreq doffset adjust) s = Some (sched_handle_slew cooked dfreq doffset adjust s)"

text \<open>The callers pass times as the clock gives them, non-negative delays, and IDs of pending timeouts or zero.\<close>

fun sch_op_ok :: "('h, 'a) sch_op \<Rightarrow> ('h, 'f, 'a) Scheduler \<Rightarrow> bool" where
  "sch_op_ok (AddAt t h x) s = norm_ts t"
| "sch_op_ok (AddDelay now d h x) s = (norm_ts now \<and> 0 \<le> d)"
| "sch_op_ok (AddInClass now rnd md sep r c h x) s = (norm_ts now \<and> 0 \<le> md \<and> 0 \<le> sep)"
| "sch_op_ok (Remove i) s = (i = 0 \<or> i \<in> tqe_id ` set (timer_queue s))"
| "sch_op_ok (Step cooked dfreq doffset adjust) s = True"

lemma AddByDelay_correct:
  assumes "sched_inv s" "room s" "norm_ts now" "0 \<le> d"
  shows "SCH_AddTimeoutByDelay now d h x s = SCH_AddTimeout (UTI_AddDoubleToTimespec now d) h x s"
  using AddDouble_mono [OF assms(3,4)] assms(1,4)
  by (auto simp: SCH_AddTimeoutByDelay_def sched_inv_def less_eq_timespec_def Let_def)

lemma sch_step_inv:
  assumes "sched_inv s" "room s" "sch_op_ok x s"
  shows "\<exists>s'. sch_step x s = Some s' \<and> sched_inv s' \<and> length (timer_queue s') \<le> Suc (length (timer_queue s))"
proof (cases x)
  case (AddAt t h a)
  then show ?thesis using AddTimeout_correct [OF assms(1,2), of t h a] assms(3)
    by (auto simp: added_def length_insert_before)
next
  case (AddDelay now d h a)
  then show ?thesis
    using AddTimeout_correct [OF assms(1,2) AddDouble_norm, of now d h a] AddByDelay_correct [OF assms(1,2)] assms(3)
    by (auto simp: added_def length_insert_before)
next
  case (AddInClass now rnd md sep r c h a)
  then show ?thesis using AddTimeoutInClass_correct [OF assms(1,2), of now md sep rnd r c h a] assms(3)
    by (auto simp: added_def length_insert_before)
next
  case (Remove i)
  then show ?thesis using RemoveTimeout_correct [OF assms(1), of i] assms(1,3)
    by (cases "i = 0") (auto simp: SCH_RemoveTimeout_def sched_inv_def intro: le_SucI)
next
  case (Step cooked dfreq doffset adjust)
  then show ?thesis using slew_keeps_inv [OF assms(1)] by (simp add: sched_handle_slew_def Let_def)
qed

fun sch_run :: "('h, 'a) sch_op list \<Rightarrow> ('h, 'f, 'a) Scheduler \<Rightarrow> ('h, 'f, 'a) Scheduler option" where
  "sch_run [] s = Some s"
| "sch_run (x # xs) s = (if sch_op_ok x s then Option.bind (sch_step x s) (sch_run xs) else Some s)"

lemma sch_run_inv:
  "sched_inv s \<Longrightarrow> length (timer_queue s) + length xs < 2 ^ 32 - 1 \<Longrightarrow> \<exists>s'. sch_run xs s = Some s' \<and> sched_inv s'"
proof (induction xs arbitrary: s)
  case (Cons x xs)
  show ?case
  proof (cases "sch_op_ok x s")
    case True
    have "room s" using Cons.prems(2) by (simp add: room_def)
    then obtain s1 where "sch_step x s = Some s1" "sched_inv s1" "length (timer_queue s1) \<le> Suc (length (timer_queue s))"
      using sch_step_inv [OF Cons.prems(1) _ True] by blast
    then show ?thesis using Cons.IH [of s1] Cons.prems(2) True by simp
  qed (use Cons.prems in simp)
qed simp

lemma init_inv: "sched_inv (SCH_Initialise now s)"
  by (simp add: sched_inv_def SCH_Initialise_def)

section \<open>Properties\<close>

text \<open>
  C27.  Every history of fewer than 2^32 - 1 operations on the timers by callers that keep to the
  interface returns without a failed assertion, and leaves the queue ordered by the time of
  expiry, with distinct non-zero IDs and the right count.
\<close>

theorem timer_queue_invariant:
  assumes "length xs < 2 ^ 32 - 1"
  shows "\<exists>s'. sch_run xs (SCH_Initialise now s) = Some s' \<and> sorted (map tqe_ts (timer_queue s')) \<and>
    distinct (map tqe_id (timer_queue s')) \<and> 0 \<notin> tqe_id ` set (timer_queue s') \<and>
    n_timer_queue_entries s' = length (timer_queue s')"
  using sch_run_inv [OF init_inv, of now s xs] assms by (auto simp: SCH_Initialise_def sched_inv_def)

definition blank_scheduler :: "(nat, nat, nat) Scheduler" where
  "blank_scheduler = \<lparr>initialised = True, file_handlers = [], one_highest_fd = 0, timer_queue = [],
     n_timer_queue_entries = 0, next_tqe_id = 0, last_class_dispatch = (\<lambda>_. Timespec 0 0),
     need_to_exit = False, last_select_ts = Timespec 0 0, last_select_ts_raw = Timespec 0 0,
     last_select_ts_err = 0, last_select_ts_mono = 0, last_select_ts_mono_ns = 0\<rparr>"

definition pending_scheduler :: "SCH_TimeoutClass \<Rightarrow> (nat, nat, nat) Scheduler" where
  "pending_scheduler c = blank_scheduler\<lparr>timer_queue := [\<lparr>tqe_ts = Timespec 2 0, tqe_id = 1,
     tqe_class = c, tqe_handler = 7, tqe_arg = 8\<rparr>], n_timer_queue_entries := 1\<rparr>"

theorem timer_queue_invariant_witness:
  "\<exists>s'. sch_run [AddAt (Timespec 5 0) 1 1, AddDelay (Timespec 1 0) 2 2 2, Remove 1] (SCH_Initialise (Timespec 1 0) blank_scheduler) = Some s' \<and>
    sorted (map tqe_ts (timer_queue s')) \<and> distinct (map tqe_id (timer_queue s')) \<and>
    0 \<notin> tqe_id ` set (timer_queue s') \<and> n_timer_queue_entries s' = length (timer_queue s')"
  by (rule timer_queue_invariant) simp

text \<open>
  C28.  A timeout added in a class is queued in order at a delay of at least the minimum, at least
  the separation away from every pending timeout of the class, before or after it.
\<close>

theorem in_class_separation:
  assumes "sched_inv s" "room s" "norm_ts now" "0 \<le> min_delay" "0 \<le> separation"
  shows "\<exists>i s' d. SCH_AddTimeoutInClass now rnd min_delay separation randomness c h x s = Some (i, s') \<and>
    sched_inv s' \<and> i \<noteq> 0 \<and> i \<notin> tqe_id ` set (timer_queue s) \<and> min_delay \<le> d \<and>
    mset (timer_queue s') = add_mset \<lparr>tqe_ts = UTI_AddDoubleToTimespec now d, tqe_id = i, tqe_class = c,
      tqe_handler = h, tqe_arg = x\<rparr> (mset (timer_queue s)) \<and>
    (\<forall>e\<in>set (timer_queue s). tqe_class e = c \<longrightarrow> separation \<le> \<bar>d - UTI_DiffTimespecsToDouble (tqe_ts e) now\<bar>)"
  using AddTimeoutInClass_correct [OF assms, of rnd randomness c h x] by (fastforce simp: added_def mset_insert_before)

theorem in_class_separation_witness:
  "\<exists>i s' d. SCH_AddTimeoutInClass (Timespec 1 0) 7 2 (1 / 2) (1 / 10) SCH_NtpClientClass 1 1 (pending_scheduler SCH_NtpClientClass) = Some (i, s') \<and>
    sched_inv s' \<and> i \<noteq> 0 \<and> i \<notin> tqe_id ` set (timer_queue (pending_scheduler SCH_NtpClientClass)) \<and> 2 \<le> d \<and>
    mset (timer_queue s') = add_mset \<lparr>tqe_ts = UTI_AddDoubleToTimespec (Timespec 1 0) d, tqe_id = i,
      tqe_class = SCH_NtpClientClass, tqe_handler = 1, tqe_arg = 1\<rparr> (mset (timer_queue (pending_scheduler SCH_NtpClientClass))) \<and>
    (\<forall>e\<in>set (timer_queue (pending_scheduler SCH_NtpClientClass)). tqe_class e = SCH_NtpClientClass \<longrightarrow>
       1 / 2 \<le> \<bar>d - UTI_DiffTimespecsToDouble (tqe_ts e) (Timespec 1 0)\<bar>)"
  by (rule in_class_separation) (simp_all add: sched_inv_def pending_scheduler_def blank_scheduler_def room_def norm_ts_def)

text \<open>
  C9.  One dispatch of the timeouts with handlers that may rearm their own timeout and add others:
  when every handler returns, adds at most m timeouts and none before a time T, and the clock stays
  before T while the timeouts due before T are handled, the dispatch loop ends, does not take this
  for an infinite loop, and has called exactly the handlers of a sequence of timeouts each of which
  was the first of the queue and expired, at most as many as were due before T.  Then no expired
  timeout is left, or a handler requested the exit and the loop ended after it.  So the assertion of
  the main loop on the time to the next timeout holds, and the main loop waits if there is a
  descriptor or a timeout to wait for (or leaves when the exit was requested).
\<close>

theorem dispatch_complete:
  assumes "handlers_rearm T m W read_raw call" "sched_inv s" "W (due T s) w"
    and "length (timer_queue s) + due T s * m < 2 ^ 32"
  shows "\<exists>es now s' w'. dispatch_timeouts read_raw call (s, w) = Some (now, s', w') \<and>
    dispatched read_raw call (s, w) es (now, s', w') \<and> length es \<le> due T s \<and> sched_inv s' \<and>
    (need_to_exit s' \<or> (\<forall>e\<in>set (timer_queue s'). now < tqe_ts e)) \<and>
    (timer_queue s' \<noteq> [] \<or> fill_fd_sets s' \<notin> {None} \<times> {None} \<times> UNIV \<longrightarrow>
       main_prepare read_raw call (s, w) \<noteq> None)"
proof -
  have "n_timer_queue_entries s = length (timer_queue s)" using assms(2) by (simp add: sched_inv_def)
  then obtain es now s' w' where d: "dispatch_timeouts read_raw call (s, w) = Some (now, s', w')"
      "dispatched read_raw call (s, w) es (now, s', w')" "length es \<le> due T s"
    and r: "sched_inv s'" "need_to_exit s' \<or> (\<forall>e\<in>set (timer_queue s'). now < tqe_ts e)"
    and nn: "norm_ts now"
    using dispatch_loop_returns [OF assms(1,2) order_refl assms(3), of 0 "n_timer_queue_entries s"]
      due_le [of T s] assms(4) unfolding dispatch_timeouts_def by auto
  have pos: "tv_sec (UTI_DiffTimespecs (tqe_ts (hd (timer_queue s'))) now) > 0 \<or>
      tv_nsec (UTI_DiffTimespecs (tqe_ts (hd (timer_queue s'))) now) > 0"
    if "timer_queue s' \<noteq> []" "\<not> need_to_exit s'"
  proof -
    let ?e = "hd (timer_queue s')" and ?d = "UTI_DiffTimespecs (tqe_ts (hd (timer_queue s'))) now"
    have "norm_ts (tqe_ts ?e)" "now < tqe_ts ?e" using r that by (auto simp: sched_inv_def)
    then have "0 < ts_ns ?d" using less_ts_ns [OF nn] by (simp add: DiffTimespecs_ns)
    moreover have "norm_ts ?d" by (simp add: UTI_DiffTimespecs_def norm_normalise)
    ultimately show ?thesis by (auto simp: ts_ns_def norm_ts_def)
  qed
  have n: "n_timer_queue_entries s' > 0 \<longleftrightarrow> timer_queue s' \<noteq> []" using r(1) by (simp add: sched_inv_def)
  have "main_prepare read_raw call (s, w) \<noteq> None"
    if "timer_queue s' \<noteq> [] \<or> fill_fd_sets s' \<notin> {None} \<times> {None} \<times> UNIV"
    using d(1) that n pos by (cases "timer_queue s' = []") (auto simp: main_prepare_def Let_def split: prod.split)
  then show ?thesis
    using d r by (intro exI [of _ es] exI [of _ now] exI [of _ s'] exI [of _ w']) simp
qed

text \<open>
  A handler that rearms its own timeout at 100 seconds, a clock that advances by a second with
  each reading and a queue with one timeout that has expired.
\<close>

definition rearm_handler ::
    "nat \<Rightarrow> nat \<Rightarrow> (nat, nat, nat) Scheduler \<times> int \<Rightarrow> ((nat, nat, nat) Scheduler \<times> int) option" where
  "rearm_handler h x st = map_option (\<lambda>(i, s). (s, snd st)) (SCH_AddTimeout (Timespec 100 0) h x (fst st))"

lemma rearm_handler_ok:
  "handlers_rearm (Timespec 100 0) 1 (\<lambda>k w. w + int k < 100) (\<lambda>w. (Timespec w 0, w + 1)) rearm_handler"
proof -
  have "\<exists>s' w'. rearm_handler h x (s, w + 1) = Some (s', w') \<and> sched_inv s' \<and> w' + int k < 100 \<and>
      length (timer_queue s') \<le> length (timer_queue s) + 1 \<and> due (Timespec 100 0) s' \<le> due (Timespec 100 0) s"
    if s: "sched_inv s" "length (timer_queue s) + 1 < 2 ^ 32" "w + int (Suc k) < 100" for s h x w k
  proof -
    have "room s" "norm_ts (Timespec 100 0)" using s(2) by (simp_all add: room_def norm_ts_def)
    from AddTimeout_correct [OF s(1) this] obtain i s' e where a: "SCH_AddTimeout (Timespec 100 0) h x s = Some (i, s')"
        "added e s s'" "tqe_ts e = Timespec 100 0" by fastforce
    have "length (timer_queue s') = length (timer_queue s) + 1"
      using added_mset [OF a(2)] by (metis Suc_eq_plus1 size_add_mset size_mset)
    then show ?thesis
      using a due_added [OF a(2), of "Timespec 100 0"] s(3) by (simp add: rearm_handler_def added_def)
  qed
  then show ?thesis
    by (auto simp: handlers_rearm_def norm_ts_def less_timespec_def UTI_CompareTimespecs_def)
qed

theorem dispatch_complete_witness:
  "\<exists>es now s' w'. dispatch_timeouts (\<lambda>w. (Timespec w 0, w + 1)) rearm_handler (pending_scheduler SCH_ReservedTimeoutValue, 3) = Some (now, s', w') \<and>
    dispatched (\<lambda>w. (Timespec w 0, w + 1)) rearm_handler (pending_scheduler SCH_ReservedTimeoutValue, 3) es (now, s', w') \<and>
    length es \<le> due (Timespec 100 0) (pending_scheduler SCH_ReservedTimeoutValue) \<and> sched_inv s' \<and>
    (need_to_exit s' \<or> (\<forall>e\<in>set (timer_queue s'). now < tqe_ts e)) \<and>
    (timer_queue s' \<noteq> [] \<or> fill_fd_sets s' \<notin> {None} \<times> {None} \<times> UNIV \<longrightarrow>
       main_prepare (\<lambda>w. (Timespec w 0, w + 1)) rearm_handler (pending_scheduler SCH_ReservedTimeoutValue, 3) \<noteq> None)"
  by (rule dispatch_complete [OF rearm_handler_ok])
     (simp_all add: sched_inv_def pending_scheduler_def blank_scheduler_def norm_ts_def due_def
        less_timespec_def UTI_CompareTimespecs_def)

text \<open>
  Removing a timeout with the ID its addition returned gives back the pending timeouts there
  were before.
\<close>

theorem add_remove_timeout:
  assumes "sched_inv s" "room s" "norm_ts t"
  shows "\<exists>i s1 s2. SCH_AddTimeout t h x s = Some (i, s1) \<and> SCH_RemoveTimeout i s1 = Some s2 \<and>
    sched_inv s2 \<and> pending_timeouts s2 = pending_timeouts s"
  using assms by (rule sch.cancel)

theorem add_remove_timeout_witness:
  "\<exists>i s1 s2. SCH_AddTimeout (Timespec 4 2) 1 1 blank_scheduler = Some (i, s1) \<and> SCH_RemoveTimeout i s1 = Some s2 \<and>
    sched_inv s2 \<and> pending_timeouts s2 = pending_timeouts blank_scheduler"
  by (rule add_remove_timeout) (simp_all add: sched_inv_def blank_scheduler_def room_def norm_ts_def)

text \<open>
  The monotonic time of events never decreases, whatever the raw clock does, and its counter
  of nanoseconds stays within the precision of ten milliseconds.
\<close>

theorem mono_time_monotonic:
  assumes "unat (last_select_ts_mono_ns s) \<le> 10000000"
  shows "SCH_GetLastEventMonoTime s \<le> SCH_GetLastEventMonoTime (update_monotonic_time now before s) \<and>
    unat (last_select_ts_mono_ns (update_monotonic_time now before s)) \<le> 10000000"
  using update_monotonic [OF assms] by (simp add: SCH_GetLastEventMonoTime_def)

theorem mono_time_monotonic_witness:
  "SCH_GetLastEventMonoTime blank_scheduler \<le>
     SCH_GetLastEventMonoTime (update_monotonic_time (Timespec 1 0) (Timespec 3 0) blank_scheduler) \<and>
   unat (last_select_ts_mono_ns (update_monotonic_time (Timespec 1 0) (Timespec 3 0) blank_scheduler)) \<le> 10000000"
  by (rule mono_time_monotonic) (simp add: blank_scheduler_def)

text \<open>
  Adding and removing file handlers keeps one_highest_fd one more than the highest
  descriptor with a handler, and removing a registered handler never fails.
\<close>

theorem file_handlers_invariant:
  assumes "fd_inv s" "initialised s" "SCH_AddFileHandler fd evs h x s = Some s1"
  shows "fd_inv s1 \<and> fh_handler (file_handlers s1 ! nat fd) = Some h \<and>
    (\<exists>s2. SCH_RemoveFileHandler fd s1 = Some s2 \<and> fd_inv s2 \<and> fh_handler (file_handlers s2 ! nat fd) = None)"
proof -
  have a: "fd_inv s1" "fh_handler (file_handlers s1 ! nat fd) = Some h" using AddFileHandler_inv [OF assms(1,3)] by auto
  have "initialised s1" "0 \<le> fd" "nat fd < length (file_handlers s1)"
    using assms(2,3) by (auto simp: SCH_AddFileHandler_def Let_def split: if_splits)
  then show ?thesis using a RemoveFileHandler_inv [OF a(1)] by auto
qed

theorem file_handlers_invariant_witness:
  "\<exists>s1. SCH_AddFileHandler 2 1 5 5 blank_scheduler = Some s1 \<and> fd_inv s1 \<and> fh_handler (file_handlers s1 ! nat 2) = Some 5 \<and>
    (\<exists>s2. SCH_RemoveFileHandler 2 s1 = Some s2 \<and> fd_inv s2 \<and> fh_handler (file_handlers s2 ! nat 2) = None)"
proof -
  have "SCH_AddFileHandler 2 1 5 5 blank_scheduler \<noteq> None"
    by (simp add: SCH_AddFileHandler_def blank_scheduler_def no_handler_def Let_def)
  then obtain s1 where s1: "SCH_AddFileHandler 2 1 5 5 blank_scheduler = Some s1" by blast
  have "fd_inv blank_scheduler" "initialised blank_scheduler" by (simp_all add: fd_inv_def blank_scheduler_def)
  from file_handlers_invariant [OF this s1] show ?thesis using s1 by blast
qed

end
