(* ===== verification/ClientLog.thy ===== *)
theory ClientLog
  imports Addressing Timespec "HOL-Library.Multiset"
begin

text \<open>
  The client log of \<open>clientlog.c\<close>: the hash table of clients with a fixed number of records per
  slot, and the rate limiting with token buckets.  (The timestamp map of the same file is in
  \<open>NtpTsMap\<close>.)  The per-service arrays are functions of the service.  The fields of an empty record
  are never read before they are written.  The hash function has a random seed.  \<open>None\<close> is a
  failed assertion, a \<open>LOG_FATAL\<close>, or not enough fuel.
\<close>

section \<open>State\<close>

datatype CLG_Service = CLG_NTP | CLG_NTSKE | CLG_CMDMON

datatype CLG_Limit = CLG_PASS | CLG_DROP | CLG_KOD

abbreviation (input) SLOT_SIZE :: nat where "SLOT_SIZE \<equiv> 8"
abbreviation (input) MIN_SLOTS :: nat where "MIN_SLOTS \<equiv> 1"
abbreviation (input) MAX_SLOTS :: nat where "MAX_SLOTS \<equiv> 2 ^ 21"
abbreviation (input) TS_FRAC :: int where "TS_FRAC \<equiv> 4"
abbreviation (input) INVALID_TS :: u32 where "INVALID_TS \<equiv> 0"
abbreviation (input) RATE_SCALE :: int where "RATE_SCALE \<equiv> 4"
abbreviation (input) MIN_RATE :: int where "MIN_RATE \<equiv> -14 * 4"
abbreviation (input) INVALID_RATE :: int where "INVALID_RATE \<equiv> -128"

record Record =
  rec_ip :: IPAddr
  last_hit :: "CLG_Service \<Rightarrow> u32"
  hits :: "CLG_Service \<Rightarrow> u32"
  drops :: "CLG_Service \<Rightarrow> u16"
  tokens :: "CLG_Service \<Rightarrow> u16"
  rate :: "CLG_Service \<Rightarrow> int"
  ntp_timeout_rate :: int
  drop_flags :: "CLG_Service \<Rightarrow> bool"

record ClientLog =
  records :: "Record list"
  slots :: nat
  max_slots :: nat
  ts_offset :: u32
  max_tokens :: "CLG_Service \<Rightarrow> u16"
  tokens_per_hit :: "CLG_Service \<Rightarrow> u16"
  token_shift :: "CLG_Service \<Rightarrow> int"
  leak_rate :: "CLG_Service \<Rightarrow> nat"
  kod_rate :: "CLG_Service \<Rightarrow> nat"
  limit_interval :: "CLG_Service \<Rightarrow> int"
  active :: bool
  total_hits :: "CLG_Service \<Rightarrow> u64"
  total_drops :: "CLG_Service \<Rightarrow> u64"
  total_record_drops :: u64
  total_ntp_auth_hits :: u64
  total_ntp_rx_timestamps :: "nat \<Rightarrow> u64"
  total_ntp_tx_timestamps :: "nat \<Rightarrow> u64"
  rnd_bits :: u32
  bits_left :: nat

section \<open>The table of clients\<close>

definition compare_ts :: "u32 \<Rightarrow> u32 \<Rightarrow> int" where
  "compare_ts x y = (if x = y then 0 else if y = INVALID_TS then 1 else if sint (x - y) > 0 then 1 else -1)"

definition compare_total_hits :: "Record \<Rightarrow> Record \<Rightarrow> int" where
  "compare_total_hits x y =
     (let x_hits = hits x CLG_NTP + hits x CLG_NTSKE + hits x CLG_CMDMON;
          y_hits = hits y CLG_NTP + hits y CLG_NTSKE + hits y CLG_CMDMON in
      if x_hits > y_hits then 1 else -1)"

definition is_ip_equal :: "IPAddr \<Rightarrow> IPAddr \<Rightarrow> bool" where
  "is_ip_equal a b = (case (a, b) of
     (IPADDR_INET4 x, IPADDR_INET4 y) \<Rightarrow> x = y
   | (IPADDR_INET6 x, IPADDR_INET6 y) \<Rightarrow> x = y
   | _ \<Rightarrow> False)"

definition inet_family :: "IPAddr \<Rightarrow> bool" where
  "inet_family ip = (case ip of IPADDR_INET4 _ \<Rightarrow> True | IPADDR_INET6 _ \<Rightarrow> True | _ \<Rightarrow> False)"

text \<open>The time of the last hit of any service.\<close>

definition latest_hit :: "Record \<Rightarrow> u32" where
  "latest_hit r =
     (let l = last_hit r CLG_NTP;
          l = (if compare_ts l (last_hit r CLG_NTSKE) < 0 then last_hit r CLG_NTSKE else l) in
      if compare_ts l (last_hit r CLG_CMDMON) < 0 then last_hit r CLG_CMDMON else l)"

text \<open>The outcome of the scan of a slot: the index of the client, of an empty record, or of the oldest record.\<close>

datatype scan_result = Found nat | Empty nat | Full nat

fun scan_slot :: "Record list \<Rightarrow> IPAddr \<Rightarrow> nat \<Rightarrow> nat \<Rightarrow> (nat \<times> u32) option \<Rightarrow> scan_result option" where
  "scan_slot recs ip i 0 oldest = (case oldest of None \<Rightarrow> None | Some (j, _) \<Rightarrow> Some (Full j))"
| "scan_slot recs ip i (Suc n) oldest =
     (if i \<ge> length recs then None
      else if is_ip_equal ip (rec_ip (recs ! i)) then Some (Found i)
      else if rec_ip (recs ! i) = IPADDR_UNSPEC then Some (Empty i)
      else
        let last = latest_hit (recs ! i);
            oldest' = (case oldest of
              None \<Rightarrow> Some (i, last)
            | Some (j, hit) \<Rightarrow>
                if compare_ts hit last > 0 \<or> hit = last \<and> compare_total_hits (recs ! j) (recs ! i) > 0
                then Some (i, last) else oldest) in
        scan_slot recs ip (i + 1) n oldest')"

definition new_record :: "ClientLog \<Rightarrow> IPAddr \<Rightarrow> Record" where
  "new_record c ip = \<lparr>rec_ip = ip, last_hit = (\<lambda>_. INVALID_TS), hits = (\<lambda>_. 0), drops = (\<lambda>_. 0),
     tokens = max_tokens c, rate = (\<lambda>_. INVALID_RATE), ntp_timeout_rate = INVALID_RATE,
     drop_flags = (\<lambda>_. False)\<rparr>"

definition empty_record :: Record where
  "empty_record = \<lparr>rec_ip = IPADDR_UNSPEC, last_hit = (\<lambda>_. 0), hits = (\<lambda>_. 0), drops = (\<lambda>_. 0),
     tokens = (\<lambda>_. 0), rate = (\<lambda>_. 0), ntp_timeout_rate = 0, drop_flags = (\<lambda>_. False)\<rparr>"

definition slot_first :: "u32 \<Rightarrow> ClientLog \<Rightarrow> IPAddr \<Rightarrow> nat" where
  "slot_first seed c ip = unat (UTI_IPToHash seed ip) mod slots c * SLOT_SIZE"

text \<open>
  \<open>get_record\<close> and \<open>expand_hashtable\<close> call each other; every call of \<open>expand_hashtable\<close> that expands
  doubles the number of slots.  The fuel is the number of calls nested in each other, and as much
  as the binary logarithm of the number of slots is enough.  \<open>get_record\<close> gives an index, or
  nothing for NULL.
\<close>

fun get_record :: "u32 \<Rightarrow> nat \<Rightarrow> ClientLog \<Rightarrow> IPAddr \<Rightarrow> (nat option \<times> ClientLog) option"
  and expand_hashtable :: "u32 \<Rightarrow> nat \<Rightarrow> ClientLog \<Rightarrow> (bool \<times> ClientLog) option"
  and copy_records :: "u32 \<Rightarrow> nat \<Rightarrow> Record list \<Rightarrow> ClientLog \<Rightarrow> ClientLog option" where
  "get_record seed 0 c ip = None"
| "get_record seed (Suc n) c ip =
     (if \<not> active c \<or> \<not> inet_family ip then Some (None, c)
      else if slots c = 0 then None
      else case scan_slot (records c) ip (slot_first seed c ip) SLOT_SIZE None of
        None \<Rightarrow> None
      | Some (Found i) \<Rightarrow> Some (Some i, c)
      | Some (Empty i) \<Rightarrow> Some (Some i, c\<lparr>records := (records c)[i := new_record c ip]\<rparr>)
      | Some (Full j) \<Rightarrow>
          (case expand_hashtable seed n c of
             None \<Rightarrow> None
           | Some (True, c) \<Rightarrow> get_record seed n c ip
           | Some (False, c) \<Rightarrow>
               Some (Some j, c\<lparr>records := (records c)[j := new_record c ip],
                               total_record_drops := total_record_drops c + 1\<rparr>)))"
| "expand_hashtable seed n c =
     (if 2 * slots c > max_slots c then Some (False, c)
      else
        let old_records = records c;
            c = c\<lparr>slots := max MIN_SLOTS (2 * slots c)\<rparr> in
        if \<not> slots c \<le> max_slots c then None
        else map_option (Pair True)
               (copy_records seed n old_records (c\<lparr>records := replicate (slots c * SLOT_SIZE) empty_record\<rparr>)))"
| "copy_records seed n [] c = Some c"
| "copy_records seed n (r # rs) c =
     (if rec_ip r = IPADDR_UNSPEC then copy_records seed n rs c
      else case get_record seed n c (rec_ip r) of
        Some (Some i, c) \<Rightarrow> copy_records seed n rs (c\<lparr>records := (records c)[i := r]\<rparr>)
      | _ \<Rightarrow> None)"

declare get_record.simps(2) [simp del] expand_hashtable.simps [simp del]

section \<open>Configuration\<close>

text \<open>The smallest shift with which the maximum number of tokens fits in 16 bits.\<close>

function shift_loop :: "int \<Rightarrow> int \<Rightarrow> int \<Rightarrow> int" where
  "shift_loop interval burst tshift =
     (if tshift < interval + TS_FRAC then
        if burst * 2 ^ nat (TS_FRAC + interval - tshift) < 2 ^ 16 then tshift
        else shift_loop interval burst (tshift + 1)
      else tshift)"
  by pat_completeness auto
termination
  by (relation "measure (\<lambda>(interval, burst, tshift). nat (interval + 4 - tshift))") auto

declare shift_loop.simps [simp del]

text \<open>The results are the capacity of the bucket, the tokens of a response, and the shift.\<close>

definition set_bucket_params :: "int \<Rightarrow> int \<Rightarrow> u16 \<times> u16 \<times> int" where
  "set_bucket_params interval burst =
     (let interval = CLAMP (-15 - TS_FRAC) interval 12;
          burst = CLAMP 1 burst 255;
          (tshift, burst) =
            (if interval \<ge> - TS_FRAC then (shift_loop interval burst 0, burst)
             else let tshift = interval + TS_FRAC in (tshift, max (2 ^ nat (- tshift)) burst));
          tphit = (2 ^ nat (TS_FRAC + interval - tshift) :: u16) in
      (tphit * of_int burst, tphit, tshift))"

text \<open>
  \<open>cfg\<close> has the configured limit of each service: whether it is enabled, the interval, the burst
  and the leak rate.  \<open>krate\<close> is the variable that is set only by \<open>CNF_GetNTPRateLimit\<close>.  The
  memory for 8 records and timestamps, times 3/2, is 960 bytes on the systems with 64-bit pointers.
  \<open>c\<close> is the state before the initialisation.
\<close>

definition CLG_Initialise :: "u32 \<Rightarrow> (CLG_Service \<Rightarrow> bool \<times> int \<times> int \<times> int) \<Rightarrow> int \<Rightarrow> bool \<Rightarrow> nat \<Rightarrow> u32 \<Rightarrow>
    ClientLog \<Rightarrow> ClientLog option" where
  "CLG_Initialise seed cfg krate noclientlog limit rnd c =
     (let on = (\<lambda>sv. fst (cfg sv));
          bucket = (\<lambda>sv. set_bucket_params (fst (snd (cfg sv))) (fst (snd (snd (cfg sv)))));
          c = c\<lparr>max_tokens := (\<lambda>sv. if on sv then fst (bucket sv) else 0),
                tokens_per_hit := (\<lambda>sv. if on sv then fst (snd (bucket sv)) else 0),
                token_shift := (\<lambda>sv. if on sv then snd (snd (bucket sv)) else 0),
                leak_rate := (\<lambda>sv. if on sv then nat (CLAMP 1 (snd (snd (snd (cfg sv)))) 4) else 0),
                kod_rate := (\<lambda>sv. if on sv then nat (CLAMP 0 krate 4) else 0),
                limit_interval := (\<lambda>sv. if on sv then CLAMP (-15 - TS_FRAC) (fst (snd (cfg sv))) 12 else -15 - TS_FRAC),
                active := \<not> noclientlog\<rparr> in
      if \<not> active c then
        if leak_rate c CLG_NTP \<noteq> 0 \<or> leak_rate c CLG_NTSKE \<noteq> 0 \<or> leak_rate c CLG_CMDMON \<noteq> 0 then None
        else Some c
      else
        let c = c\<lparr>max_slots := CLAMP MIN_SLOTS (limit div 960 mod 2 ^ 32) MAX_SLOTS, slots := 0, records := []\<rparr> in
        case expand_hashtable seed 1 c of
          None \<Rightarrow> None
        | Some (_, c) \<Rightarrow> Some (c\<lparr>ts_offset := rnd mod (1000000000 div 16)\<rparr>))"

section \<open>Hits and limits\<close>

definition get_ts_from_timespec :: "ClientLog \<Rightarrow> timespec \<Rightarrow> u32" where
  "get_ts_from_timespec c ts =
     (let sec = (of_int (tv_sec ts) :: u32);
          nsec = of_int (tv_nsec ts) + ts_offset c;
          (sec, nsec) = (if nsec \<ge> 1000000000 then (sec + 1, nsec - 1000000000) else (sec, nsec)) in
      push_bit 4 sec OR drop_bit 28 (140740 * drop_bit 15 nsec))"

text \<open>The loop that takes the logarithm of an interval, in units of a quarter.\<close>

function interval_log2 :: "u32 \<Rightarrow> int \<Rightarrow> int" where
  "interval_log2 interval interval2 =
     (if interval2 < - MIN_RATE then
        if interval \<le> 1 then interval2 else interval_log2 (drop_bit 1 interval) (interval2 + RATE_SCALE)
      else interval2)"
  by pat_completeness auto
termination
  by (relation "measure (\<lambda>(interval, interval2). nat (56 - interval2))") auto

declare interval_log2.simps [simp del]

definition update_rate :: "int \<Rightarrow> int \<Rightarrow> int" where
  "update_rate r interval2 =
     (if r = INVALID_RATE then - interval2
      else if r < - interval2 then r + 1
      else if r > - interval2 then
        if r > c_div (RATE_SCALE * 5) 2 - interval2 then c_div (RATE_SCALE * 5) 2 - interval2
        else c_div (r - interval2 - 1) 2
      else r)"

definition update_record :: "ClientLog \<Rightarrow> CLG_Service \<Rightarrow> Record \<Rightarrow> timespec \<Rightarrow> Record" where
  "update_record c service r now =
     (let now_ts = get_ts_from_timespec c now;
          prev_hit = last_hit r service;
          r = r\<lparr>last_hit := (last_hit r)(service := now_ts), hits := (hits r)(service := hits r service + 1)\<rparr>;
          interval = now_ts - prev_hit in
      if prev_hit = INVALID_TS \<or> sint interval < 0 then r
      else
        let tshift = token_shift c service;
            mtokens = (ucast (max_tokens c service) :: u32);
            toks = (if tshift \<ge> 0 then drop_bit (nat tshift) now_ts - drop_bit (nat tshift) prev_hit
                    else if now_ts - prev_hit > mtokens then mtokens
                    else push_bit (nat (- tshift)) (now_ts - prev_hit));
            r = r\<lparr>tokens := (tokens r)(service := ucast (min (ucast (tokens r service) + toks) mtokens))\<rparr>;
            interval2 = (if interval \<noteq> 0
                         then interval_log2 (interval + drop_bit 1 interval) (- RATE_SCALE * TS_FRAC)
                         else - RATE_SCALE * (TS_FRAC + 1)) in
        if service = CLG_NTP \<and> drop_flags r service
        then r\<lparr>ntp_timeout_rate := update_rate (ntp_timeout_rate r) interval2\<rparr>
        else r\<lparr>rate := (rate r)(service := update_rate (rate r service) interval2)\<rparr>)"

definition CLG_GetClientIndex :: "u32 \<Rightarrow> nat \<Rightarrow> ClientLog \<Rightarrow> IPAddr \<Rightarrow> (int \<times> ClientLog) option" where
  "CLG_GetClientIndex seed fuel c client = map_option
     (\<lambda>(r, c). (case r of None \<Rightarrow> -1 | Some i \<Rightarrow> int i, c)) (get_record seed fuel c client)"

definition CLG_LogServiceAccess ::
    "u32 \<Rightarrow> nat \<Rightarrow> ClientLog \<Rightarrow> CLG_Service \<Rightarrow> IPAddr \<Rightarrow> timespec \<Rightarrow> (int \<times> ClientLog) option" where
  "CLG_LogServiceAccess seed fuel c service client now =
     (let c = c\<lparr>total_hits := (total_hits c)(service := total_hits c service + 1)\<rparr> in
      case get_record seed fuel c client of
        None \<Rightarrow> None
      | Some (None, c) \<Rightarrow> Some (-1, c)
      | Some (Some i, c) \<Rightarrow>
          Some (int i, c\<lparr>records := (records c)[i := update_record c service (records c ! i) now]\<rparr>))"

text \<open>\<open>fresh\<close> are the random bits for when none are left; the result is 0 once per 2^\<open>rt\<close> calls.\<close>

definition limit_response_random :: "u32 \<Rightarrow> nat \<Rightarrow> ClientLog \<Rightarrow> bool \<times> ClientLog" where
  "limit_response_random fresh rt c =
     (let c = (if bits_left c < rt then c\<lparr>rnd_bits := fresh, bits_left := 32\<rparr> else c) in
      (rnd_bits c mod (2 ^ rt) \<noteq> 0, c\<lparr>rnd_bits := drop_bit rt (rnd_bits c), bits_left := bits_left c - rt\<rparr>))"

definition CLG_LimitServiceRate ::
    "u32 \<Rightarrow> u32 \<Rightarrow> ClientLog \<Rightarrow> CLG_Service \<Rightarrow> int \<Rightarrow> (CLG_Limit \<times> ClientLog) option" where
  "CLG_LimitServiceRate rnd1 rnd2 c service index =
     (if tokens_per_hit c service = 0 then Some (CLG_PASS, c)
      else if index < 0 \<or> nat index \<ge> length (records c) then None
      else
        let i = nat index;
            r = records c ! i;
            r = r\<lparr>drop_flags := (drop_flags r)(service := False)\<rparr>;
            put = (\<lambda>r c. c\<lparr>records := (records c)[i := r]\<rparr>) in
        if tokens r service \<ge> tokens_per_hit c service
        then Some (CLG_PASS, put (r\<lparr>tokens := (tokens r)(service := tokens r service - tokens_per_hit c service)\<rparr>) c)
        else
          let (drp, c) = limit_response_random rnd1 (leak_rate c service) c;
              drp = (if service = CLG_NTP \<and> ntp_timeout_rate r \<noteq> INVALID_RATE \<and>
                        ntp_timeout_rate r > rate r service + RATE_SCALE then \<not> drp else drp) in
          if \<not> drp then Some (CLG_PASS, put (r\<lparr>tokens := (tokens r)(service := 0)\<rparr>) c)
          else
            let (nokod, c) = (if kod_rate c service > 0 then limit_response_random rnd2 (kod_rate c service) c
                              else (True, c)) in
            if kod_rate c service > 0 \<and> \<not> nokod then Some (CLG_KOD, put r c)
            else Some (CLG_DROP, (put (r\<lparr>drop_flags := (drop_flags r)(service := True),
                                        drops := (drops r)(service := drops r service + 1)\<rparr>) c)
                                   \<lparr>total_drops := (total_drops c)(service := total_drops c service + 1)\<rparr>))"

definition CLG_UpdateNtpStats :: "ClientLog \<Rightarrow> bool \<Rightarrow> nat \<Rightarrow> nat \<Rightarrow> ClientLog" where
  "CLG_UpdateNtpStats c auth rx_src tx_src =
     (let c = (if auth then c\<lparr>total_ntp_auth_hits := total_ntp_auth_hits c + 1\<rparr> else c);
          c = (if rx_src \<le> 2 then c\<lparr>total_ntp_rx_timestamps :=
                 (total_ntp_rx_timestamps c)(rx_src := total_ntp_rx_timestamps c rx_src + 1)\<rparr> else c) in
      if tx_src \<le> 2 then c\<lparr>total_ntp_tx_timestamps :=
         (total_ntp_tx_timestamps c)(tx_src := total_ntp_tx_timestamps c tx_src + 1)\<rparr> else c)"

definition CLG_GetNtpMinPoll :: "ClientLog \<Rightarrow> int" where
  "CLG_GetNtpMinPoll c = limit_interval c CLG_NTP"

definition CLG_GetNumberOfIndices :: "ClientLog \<Rightarrow> int" where
  "CLG_GetNumberOfIndices c = (if \<not> active c then -1 else int (length (records c)))"

definition get_interval :: "int \<Rightarrow> int" where
  "get_interval r =
     (if r = INVALID_RATE then 127
      else let r = r + (if r > 0 then 2 else -2) in c_div r (- RATE_SCALE))"

definition get_last_ago :: "u32 \<Rightarrow> u32 \<Rightarrow> u32" where
  "get_last_ago x y = (if y = INVALID_TS \<or> sint (x - y) < 0 then -1 else drop_bit 4 (x - y))"

record RPT_ClientAccessByIndex_Report =
  rpt_ip_addr :: IPAddr
  rpt_hits :: "CLG_Service \<Rightarrow> u32"
  rpt_drops :: "CLG_Service \<Rightarrow> u16"
  rpt_interval :: "CLG_Service \<Rightarrow> int"
  rpt_ntp_timeout_interval :: int
  rpt_last_hit_ago :: "CLG_Service \<Rightarrow> u32"

text \<open>The report, if the client is reported, and the state.\<close>

definition CLG_GetClientAccessReportByIndex ::
    "ClientLog \<Rightarrow> int \<Rightarrow> bool \<Rightarrow> u32 \<Rightarrow> timespec \<Rightarrow> RPT_ClientAccessByIndex_Report option \<times> ClientLog" where
  "CLG_GetClientAccessReportByIndex c index reset min_hits now =
     (if \<not> active c \<or> index < 0 \<or> nat index \<ge> length (records c) then (None, c)
      else
        let r = records c ! nat index in
        if rec_ip r = IPADDR_UNSPEC then (None, c)
        else
          let ok = (min_hits = 0 \<or> hits r CLG_NTP \<ge> min_hits \<or> hits r CLG_NTSKE \<ge> min_hits \<or>
                    hits r CLG_CMDMON \<ge> min_hits);
              now_ts = get_ts_from_timespec c now;
              report = \<lparr>rpt_ip_addr = rec_ip r, rpt_hits = hits r, rpt_drops = drops r,
                        rpt_interval = (\<lambda>sv. get_interval (rate r sv)),
                        rpt_ntp_timeout_interval = get_interval (ntp_timeout_rate r),
                        rpt_last_hit_ago = (\<lambda>sv. get_last_ago now_ts (last_hit r sv))\<rparr> in
          (if ok then Some report else None,
           if reset then c\<lparr>records := (records c)[nat index := r\<lparr>hits := (\<lambda>_. 0), drops := (\<lambda>_. 0)\<rparr>]\<rparr> else c))"

section \<open>The token buckets\<close>

lemma shift_loop_fits:
  assumes "0 \<le> tshift" "tshift \<le> interval + 4" "interval \<le> 12" "1 \<le> burst" "burst \<le> 255"
  shows "shift_loop interval burst tshift \<le> interval + 4 \<and> tshift \<le> shift_loop interval burst tshift \<and>
    burst * 2 ^ nat (4 + interval - shift_loop interval burst tshift) < 2 ^ 16"
  using assms
proof (induction interval burst tshift rule: shift_loop.induct)
  case (1 interval burst tshift)
  show ?case
  proof (cases "tshift < interval + 4 \<and> \<not> burst * 2 ^ nat (4 + interval - tshift) < 2 ^ 16")
    case True
    with 1 have "shift_loop interval burst (tshift + 1) \<le> interval + 4 \<and>
        tshift + 1 \<le> shift_loop interval burst (tshift + 1) \<and>
        burst * 2 ^ nat (4 + interval - shift_loop interval burst (tshift + 1)) < 2 ^ 16"
      by simp
    with True show ?thesis by (subst (1 2 3) shift_loop.simps) simp
  next
    case False
    with 1 show ?thesis
      by (subst (1 2 3) shift_loop.simps) (cases "tshift < interval + 4", auto)
  qed
qed

lemma shift_loop_minimal:
  assumes "k < shift_loop interval burst tshift" "tshift \<le> k"
  shows "2 ^ 16 \<le> burst * 2 ^ nat (4 + interval - k)"
  using assms
proof (induction interval burst tshift rule: shift_loop.induct)
  case (1 interval burst tshift)
  from 1(2,3) have c: "tshift < interval + 4" "\<not> burst * 2 ^ nat (4 + interval - tshift) < 2 ^ 16"
    by (subst (asm) shift_loop.simps, simp split: if_splits)+
  show ?case
  proof (cases "k = tshift")
    case True
    with c show ?thesis by simp
  next
    case False
    from 1(2) c have "k < shift_loop interval burst (tshift + 1)"
      by (subst (asm) shift_loop.simps) simp
    with 1(1) [OF c] 1(3) False show ?thesis by simp
  qed
qed

text \<open>The burst with which the capacity is computed, after the clamping.\<close>

definition effective_burst :: "int \<Rightarrow> int \<Rightarrow> int" where
  "effective_burst interval burst =
     (let iv = CLAMP (-19) interval 12; b = CLAMP 1 burst 255 in
      if iv \<ge> -4 then b else max (2 ^ nat (- (iv + 4))) b)"

lemma unat_2p: "n < LENGTH('a) \<Longrightarrow> unat (2 ^ n :: 'a::len word) = 2 ^ n"
proof -
  assume "n < LENGTH('a)"
  then have "(2::nat) ^ n < 2 ^ LENGTH('a)" by (intro power_strict_increasing) simp_all
  moreover have "unat (word_of_nat (2 ^ n) :: 'a word) = 2 ^ n mod 2 ^ LENGTH('a)" by (simp only: unat_of_nat)
  ultimately show ?thesis by simp
qed

lemma unat_word_prod16:
  assumes "0 \<le> k" "k < 16" "1 \<le> b" "b * 2 ^ nat k < 2 ^ 16"
  shows "unat (2 ^ nat k :: u16) = 2 ^ nat k" "int (unat (2 ^ nat k * of_int b :: u16)) = 2 ^ nat k * b"
proof -
  from assms have "nat k < 16" by simp
  then show "unat (2 ^ nat k :: u16) = 2 ^ nat k" by (simp add: unat_2p)
  have "(2 ^ nat k * of_int b :: u16) = of_int (2 ^ nat k * b)" by simp
  moreover have "take_bit 16 (2 ^ nat k * b) = 2 ^ nat k * b"
    using assms by (intro take_bit_int_eq_self) (auto simp: mult.commute)
  ultimately have "uint (2 ^ nat k * of_int b :: u16) = 2 ^ nat k * b"
    by (simp del: of_int_mult of_int_power add: uint_word_of_int take_bit_eq_mod)
  then show "int (unat (2 ^ nat k * of_int b :: u16)) = 2 ^ nat k * b" by simp
qed

lemma bucket_shift:
  assumes "set_bucket_params interval burst = (m, t, sh)"
  defines "iv \<equiv> CLAMP (-19) interval 12"
  shows "0 \<le> 4 + iv - sh" "1 \<le> effective_burst interval burst"
    "effective_burst interval burst * 2 ^ nat (4 + iv - sh) < 2 ^ 16"
    "t = 2 ^ nat (4 + iv - sh)" "m = t * of_int (effective_burst interval burst)" "-15 \<le> sh" "sh \<le> 16"
    "sh < 0 \<longleftrightarrow> iv < -4"
proof -
  define b where "b = CLAMP 1 burst 255"
  have b: "1 \<le> b" "b \<le> 255" using CLAMP_bounds [of 1 255 burst] by (simp_all add: b_def)
  have iv: "-19 \<le> iv" "iv \<le> 12" using CLAMP_bounds [of "-19" 12 interval] by (simp_all add: iv_def)
  have "0 \<le> 4 + iv - sh \<and> 1 \<le> effective_burst interval burst \<and>
        effective_burst interval burst * 2 ^ nat (4 + iv - sh) < 2 ^ 16 \<and>
        t = 2 ^ nat (4 + iv - sh) \<and> m = t * of_int (effective_burst interval burst) \<and> -15 \<le> sh \<and> sh \<le> 16 \<and>
        (sh < 0) = (iv < -4)"
  proof (cases "iv \<ge> -4")
    case True
    then have e: "effective_burst interval burst = b"
      by (simp add: effective_burst_def iv_def b_def Let_def)
    have p: "sh = shift_loop iv b 0" "t = 2 ^ nat (4 + iv - sh)" "m = t * of_int b"
      using assms(1) True by (auto simp: set_bucket_params_def Let_def iv_def b_def)
    show ?thesis
      using shift_loop_fits [of 0 iv b] b iv True p e by auto
  next
    case False
    then have e: "effective_burst interval burst = max (2 ^ nat (- (iv + 4))) b"
      by (simp add: effective_burst_def iv_def b_def Let_def)
    have p: "sh = iv + 4" "t = 2 ^ nat (4 + iv - sh)" "m = t * of_int (effective_burst interval burst)"
      using assms(1) False unfolding e by (auto simp: set_bucket_params_def Let_def iv_def b_def)
    have "(2::int) ^ nat (- (iv + 4)) \<le> 2 ^ 15" using iv by (intro power_increasing) auto
    then have "effective_burst interval burst < 2 ^ 16" "1 \<le> effective_burst interval burst"
      using b unfolding e by auto
    then show ?thesis
      using p iv False by simp
  qed
  then show "0 \<le> 4 + iv - sh" "1 \<le> effective_burst interval burst"
    "effective_burst interval burst * 2 ^ nat (4 + iv - sh) < 2 ^ 16"
    "t = 2 ^ nat (4 + iv - sh)" "m = t * of_int (effective_burst interval burst)" "-15 \<le> sh" "sh \<le> 16"
    "sh < 0 \<longleftrightarrow> iv < -4"
    by blast+
qed

lemma bucket_exponent_less_16:
  assumes "0 \<le> k" "1 \<le> b" "b * 2 ^ nat k < (2::int) ^ 16"
  shows "k < 16"
proof (rule ccontr)
  assume "\<not> k < 16"
  then have "(2::int) ^ 16 \<le> 2 ^ nat k" by (intro power_increasing) auto
  also have "\<dots> \<le> b * 2 ^ nat k" using assms(2) by simp
  finally show False using assms(3) by simp
qed

lemma bucket_exact:
  assumes "set_bucket_params interval burst = (m, t, sh)"
  shows "int (unat t) = 2 ^ nat (4 + CLAMP (-19) interval 12 - sh)"
    "int (unat m) = int (unat t) * effective_burst interval burst" "1 \<le> unat t" "t \<le> m"
proof -
  define x where "x = 4 + CLAMP (-19) interval 12 - sh"
  note b = bucket_shift [OF assms, folded x_def]
  note u = unat_word_prod16 [OF b(1) bucket_exponent_less_16 [OF b(1-3)] b(2,3)]
  show "int (unat t) = 2 ^ nat (4 + CLAMP (-19) interval 12 - sh)"
    using u(1) b(4) by (simp add: x_def)
  show m: "int (unat m) = int (unat t) * effective_burst interval burst"
    using u b(4,5) by simp
  show "1 \<le> unat t" using u(1) b(4) by simp
  have "int (unat t) * 1 \<le> int (unat t) * effective_burst interval burst"
    using b(2) by (intro mult_left_mono) simp_all
  with m show "t \<le> m" by (simp add: word_le_nat_alt del: of_nat_unat)
qed

lemma bucket_shift_minimal:
  assumes "set_bucket_params interval burst = (m, t, sh)" "0 \<le> k \<and> k < sh"
  shows "2 ^ 16 \<le> effective_burst interval burst * 2 ^ nat (4 + CLAMP (-19) interval 12 - k)"
proof -
  from assms(2) bucket_shift(8) [OF assms(1)] have iv: "CLAMP (-19) interval 12 \<ge> -4" by linarith
  then have "sh = shift_loop (CLAMP (-19) interval 12) (effective_burst interval burst) 0"
    using assms(1) by (auto simp: set_bucket_params_def effective_burst_def Let_def)
  with shift_loop_minimal assms(2) show ?thesis by blast
qed

text \<open>
  C30.  The parameters of a token bucket are exact in their 16-bit variables for every configured
  interval and burst: a response takes 2^(4 + interval - shift) tokens, the capacity is that number
  times the burst with no wrap-around, so a full bucket allows exactly the burst and at least one
  response, and a shift that is positive is the smallest with which the capacity fits.
\<close>

theorem bucket_params_exact:
  assumes "set_bucket_params interval burst = (m, t, sh)"
  shows "int (unat t) = 2 ^ nat (4 + CLAMP (-19) interval 12 - sh) \<and>
    int (unat m) = int (unat t) * effective_burst interval burst \<and> 1 \<le> unat t \<and> t \<le> m \<and>
    (\<forall>k. 0 \<le> k \<and> k < sh \<longrightarrow>
      2 ^ 16 \<le> effective_burst interval burst * 2 ^ nat (4 + CLAMP (-19) interval 12 - k))"
  using bucket_exact [OF assms] bucket_shift_minimal [OF assms] by blast

theorem bucket_params_exact_witness:
  "set_bucket_params 12 255 = (65280, 256, 8) \<and> int (unat (65280 :: u16)) = 256 * 255"
proof
  show s: "set_bucket_params 12 255 = (65280, 256, 8)"
    by (simp add: set_bucket_params_def CLAMP_def shift_loop.simps)
  have "int (unat (65280 :: u16)) = int (unat (256 :: u16)) * effective_burst 12 255"
    using bucket_params_exact [OF s] by blast
  then show "int (unat (65280 :: u16)) = 256 * 255" by (simp add: effective_burst_def CLAMP_def)
qed

section \<open>The invariant of the table\<close>

text \<open>
  The table has eight records per slot; a record that is in use has the address of a client, is
  in the slot of its address, and is followed only by records of the slot that are in use or
  by empty ones; no client has two records.
\<close>

definition used :: "Record \<Rightarrow> bool" where
  "used r \<longleftrightarrow> rec_ip r \<noteq> IPADDR_UNSPEC"

definition slot_of :: "u32 \<Rightarrow> nat \<Rightarrow> Record \<Rightarrow> nat" where
  "slot_of seed s r = unat (UTI_IPToHash seed (rec_ip r)) mod s"

definition clients :: "ClientLog \<Rightarrow> Record multiset" where
  "clients c = mset (filter used (records c))"

definition table_inv :: "u32 \<Rightarrow> ClientLog \<Rightarrow> bool" where
  "table_inv seed c \<longleftrightarrow> active c \<and> 0 < slots c \<and> slots c \<le> max_slots c \<and> length (records c) = slots c * SLOT_SIZE \<and>
     (\<forall>i<length (records c). used (records c ! i) \<longrightarrow>
        inet_family (rec_ip (records c ! i)) \<and> slot_of seed (slots c) (records c ! i) = i div SLOT_SIZE) \<and>
     (\<forall>j<length (records c). \<forall>i<j. i div SLOT_SIZE = j div SLOT_SIZE \<and> used (records c ! j) \<longrightarrow> used (records c ! i)) \<and>
     (\<forall>i<length (records c). \<forall>j<length (records c). used (records c ! i) \<and>
        rec_ip (records c ! i) = rec_ip (records c ! j) \<longrightarrow> i = j)"

lemma is_ip_equal_iff: "is_ip_equal a b \<longleftrightarrow> inet_family a \<and> a = b"
  by (cases a; cases b) (auto simp: is_ip_equal_def inet_family_def)

lemma scan_slot_cases:
  assumes "i + n \<le> length recs" "n > 0 \<or> oldest \<noteq> None" "inet_family ip"
    and "\<forall>j hit. oldest = Some (j, hit) \<longrightarrow> first \<le> j \<and> j < i" "first \<le> i"
  shows "(\<exists>j. scan_slot recs ip i n oldest = Some (Found j) \<and> i \<le> j \<and> j < i + n \<and> rec_ip (recs ! j) = ip) \<or>
    (\<exists>j. scan_slot recs ip i n oldest = Some (Empty j) \<and> i \<le> j \<and> j < i + n \<and> \<not> used (recs ! j) \<and>
       (\<forall>k. i \<le> k \<and> k < j \<longrightarrow> used (recs ! k) \<and> rec_ip (recs ! k) \<noteq> ip)) \<or>
    (\<exists>j. scan_slot recs ip i n oldest = Some (Full j) \<and> first \<le> j \<and> j < i + n \<and>
       (\<forall>k. i \<le> k \<and> k < i + n \<longrightarrow> used (recs ! k) \<and> rec_ip (recs ! k) \<noteq> ip))"
  using assms
proof (induction n arbitrary: i oldest)
  case 0
  then show ?case by auto
next
  case (Suc n)
  let ?r = "recs ! i"
  show ?case
  proof (cases "rec_ip ?r = ip \<or> \<not> used ?r")
    case True
    with Suc.prems show ?thesis by (auto simp: is_ip_equal_iff used_def inet_family_def)
  next
    case False
    define oldest' where "oldest' = (case oldest of None \<Rightarrow> Some (i, latest_hit ?r)
      | Some (j, hit) \<Rightarrow> if compare_ts hit (latest_hit ?r) > 0 \<or> hit = latest_hit ?r \<and>
          compare_total_hits (recs ! j) ?r > 0 then Some (i, latest_hit ?r) else oldest)"
    have s: "scan_slot recs ip i (Suc n) oldest = scan_slot recs ip (i + 1) n oldest'"
      using False Suc.prems by (auto simp: is_ip_equal_iff used_def oldest'_def Let_def)
    have o: "oldest' \<noteq> None" "\<forall>j hit. oldest' = Some (j, hit) \<longrightarrow> first \<le> j \<and> j < i + 1"
      using Suc.prems by (auto simp: oldest'_def less_Suc_eq split: option.splits if_splits)
    have ex: "P i \<Longrightarrow> (\<forall>k. i + 1 \<le> k \<and> k < m \<longrightarrow> P k) \<Longrightarrow> (\<forall>k. i \<le> k \<and> k < m \<longrightarrow> P k)" for P m
      by (metis Suc_eq_plus1 Suc_leI order_le_less)
    have "i + 1 + n \<le> length recs" "first \<le> i + 1" using Suc.prems by simp_all
    note IH = Suc.IH [OF this(1) disjI2 [OF o(1)] Suc.prems(3) o(2) this(2), folded s]
    let ?P = "\<lambda>k. used (recs ! k) \<and> rec_ip (recs ! k) \<noteq> ip"
    have i: "?P i" using False by simp
    from IH show ?thesis
    proof (elim disjE exE conjE)
      fix j
      assume "scan_slot recs ip i (Suc n) oldest = Some (Found j)" "i + 1 \<le> j" "j < i + 1 + n" "rec_ip (recs ! j) = ip"
      then show ?thesis by (intro disjI1 exI [of _ j]) simp
    next
      fix j
      assume a: "scan_slot recs ip i (Suc n) oldest = Some (Empty j)" "i + 1 \<le> j" "j < i + 1 + n"
        "\<not> used (recs ! j)" "\<forall>k. i + 1 \<le> k \<and> k < j \<longrightarrow> ?P k"
      from ex [of ?P, OF i a(5)] a(1-4) show ?thesis by (intro disjI2 disjI1 exI [of _ j]) simp
    next
      fix j
      assume a: "scan_slot recs ip i (Suc n) oldest = Some (Full j)" "first \<le> j" "j < i + 1 + n"
        "\<forall>k. i + 1 \<le> k \<and> k < i + 1 + n \<longrightarrow> ?P k"
      from ex [of ?P, OF i a(4)] a(1-3) show ?thesis by (intro disjI2 exI [of _ j]) simp
    qed
  qed
qed

lemma clients_update:
  assumes "i < length recs" "used r"
  shows "mset (filter used (recs[i := r])) =
    add_mset r (mset (filter used recs) - (if used (recs ! i) then {#recs ! i#} else {#}))"
proof -
  have r: "recs = take i recs @ recs ! i # drop (Suc i) recs" using assms(1) by (rule id_take_nth_drop)
  have "recs[i := r] = take i recs @ r # drop (Suc i) recs" using assms(1) by (simp add: upd_conv_take_nth_drop)
  then have "mset (filter used (recs[i := r])) = add_mset r (mset (filter used (take i recs)) + mset (filter used (drop (Suc i) recs)))"
    using assms(2) by simp
  moreover have "mset (filter used recs) = mset (filter used (take i recs)) + mset (filter used (drop (Suc i) recs)) +
      (if used (recs ! i) then {#recs ! i#} else {#})"
    by (subst r) simp
  ultimately show ?thesis by simp
qed

lemma distinct_ips:
  assumes "\<forall>i<length xs. \<forall>j<length xs. used (xs ! i) \<and> rec_ip (xs ! i) = rec_ip (xs ! j) \<longrightarrow> i = j"
  shows "distinct (map rec_ip (filter used xs))"
  using assms
proof (induction xs)
  case Nil
  then show ?case by simp
next
  case (Cons x xs)
  have "rec_ip x \<notin> rec_ip ` set (filter used xs)" if "used x"
  proof
    assume "rec_ip x \<in> rec_ip ` set (filter used xs)"
    then obtain k where "k < length xs" "rec_ip (xs ! k) = rec_ip x" by (auto simp: in_set_conv_nth)
    with Cons.prems [rule_format, of 0 "Suc k"] that show False by simp
  qed
  moreover have "distinct (map rec_ip (filter used xs))"
  proof (rule Cons.IH, intro allI impI)
    fix i j
    assume "i < length xs" "j < length xs" "used (xs ! i) \<and> rec_ip (xs ! i) = rec_ip (xs ! j)"
    with Cons.prems [rule_format, of "Suc i" "Suc j"] show "i = j" by simp
  qed
  ultimately show ?case by simp
qed

lemma table_size: "table_inv seed c \<Longrightarrow> active c \<and> 0 < slots c \<and> slots c \<le> max_slots c \<and> length (records c) = slots c * 8"
  by (simp add: table_inv_def)

lemma table_place:
  "table_inv seed c \<Longrightarrow> i < length (records c) \<Longrightarrow> used (records c ! i) \<Longrightarrow>
    inet_family (rec_ip (records c ! i)) \<and> slot_of seed (slots c) (records c ! i) = i div 8"
  by (simp add: table_inv_def)

lemma table_prefix:
  "table_inv seed c \<Longrightarrow> j < length (records c) \<Longrightarrow> i < j \<Longrightarrow> i div 8 = j div 8 \<Longrightarrow> used (records c ! j) \<Longrightarrow>
    used (records c ! i)"
  by (simp add: table_inv_def)

lemma table_unique:
  "table_inv seed c \<Longrightarrow> i < length (records c) \<Longrightarrow> j < length (records c) \<Longrightarrow> used (records c ! i) \<Longrightarrow>
    rec_ip (records c ! i) = rec_ip (records c ! j) \<Longrightarrow> i = j"
  by (simp add: table_inv_def)

lemma table_inv_put:
  assumes inv: "table_inv seed c" and i: "i < length (records c)" and r: "inet_family (rec_ip r)"
    "slot_of seed (slots c) r = i div 8"
    and pre: "\<forall>k<i. k div 8 = i div 8 \<longrightarrow> used (records c ! k)"
    and new: "\<forall>k<length (records c). k \<noteq> i \<longrightarrow> rec_ip (records c ! k) \<noteq> rec_ip r"
  shows "table_inv seed (c\<lparr>records := (records c)[i := r]\<rparr>)"
proof -
  have u: "used r" using r(1) by (auto simp: used_def inet_family_def)
  have ord: "used ((records c)[i := r] ! k)"
    if "j < length (records c)" "k < j" "k div 8 = j div 8" "used ((records c)[i := r] ! j)" for j k
    using that pre u i table_prefix [OF inv that(1-3)] by (auto simp: nth_list_update split: if_splits)
  have dist: "k = j" if "k < length (records c)" "j < length (records c)" "used ((records c)[i := r] ! k)"
    "rec_ip ((records c)[i := r] ! k) = rec_ip ((records c)[i := r] ! j)" for j k
    using that(3,4) new [rule_format, OF that(1)] new [rule_format, OF that(2)] table_unique [OF inv that(1,2)] i
    by (simp add: nth_list_update split: if_splits)
  have place: "inet_family (rec_ip ((records c)[i := r] ! k)) \<and> slot_of seed (slots c) ((records c)[i := r] ! k) = k div 8"
    if "k < length (records c)" "used ((records c)[i := r] ! k)" for k
    using that(2) r i table_place [OF inv that(1)] by (simp add: nth_list_update split: if_splits)
  show ?thesis unfolding table_inv_def
  proof (intro conjI)
    show "\<forall>k<length (records (c\<lparr>records := (records c)[i := r]\<rparr>)).
      used (records (c\<lparr>records := (records c)[i := r]\<rparr>) ! k) \<longrightarrow>
        inet_family (rec_ip (records (c\<lparr>records := (records c)[i := r]\<rparr>) ! k)) \<and>
        slot_of seed (slots (c\<lparr>records := (records c)[i := r]\<rparr>)) (records (c\<lparr>records := (records c)[i := r]\<rparr>) ! k) = k div 8"
      using place by simp
    show "\<forall>j<length (records (c\<lparr>records := (records c)[i := r]\<rparr>)). \<forall>k<j. k div 8 = j div 8 \<and>
      used (records (c\<lparr>records := (records c)[i := r]\<rparr>) ! j) \<longrightarrow> used (records (c\<lparr>records := (records c)[i := r]\<rparr>) ! k)"
      using ord by simp
    show "\<forall>k<length (records (c\<lparr>records := (records c)[i := r]\<rparr>)). \<forall>j<length (records (c\<lparr>records := (records c)[i := r]\<rparr>)).
      used (records (c\<lparr>records := (records c)[i := r]\<rparr>) ! k) \<and> rec_ip (records (c\<lparr>records := (records c)[i := r]\<rparr>) ! k) =
        rec_ip (records (c\<lparr>records := (records c)[i := r]\<rparr>) ! j) \<longrightarrow> k = j"
      using dist by simp
  qed (use inv in \<open>simp_all add: table_inv_def\<close>)
qed

section \<open>Lookups and the expansion of the table\<close>

definition hash_slot :: "u32 \<Rightarrow> ClientLog \<Rightarrow> IPAddr \<Rightarrow> nat" where
  "hash_slot seed c ip = unat (UTI_IPToHash seed ip) mod slots c"

lemma slot_of_hash: "slot_of seed (slots c) r = hash_slot seed c (rec_ip r)"
  by (simp add: slot_of_def hash_slot_def)

lemma in_slot_iff: "k div 8 = s \<longleftrightarrow> s * 8 \<le> k \<and> k < s * 8 + (8::nat)"
  by auto

lemma slot_in_table: "table_inv seed c \<Longrightarrow> hash_slot seed c ip * 8 + 8 \<le> length (records c)"
proof -
  assume "table_inv seed c"
  from table_size [OF this] have "Suc (hash_slot seed c ip) \<le> slots c" "length (records c) = slots c * 8"
    by (simp_all add: hash_slot_def Suc_le_eq)
  then show ?thesis by (metis mult_Suc mult_le_mono1 add.commute)
qed

lemma get_record_scan:
  assumes inv: "table_inv seed c" and ip: "inet_family ip"
  obtains
    (Found) j where "scan_slot (records c) ip (slot_first seed c ip) 8 None = Some (Found j)"
      "j < length (records c)" "rec_ip (records c ! j) = ip"
  | (Empty) j where "scan_slot (records c) ip (slot_first seed c ip) 8 None = Some (Empty j)"
      "j < length (records c)" "j div 8 = hash_slot seed c ip" "\<not> used (records c ! j)"
      "\<forall>k<j. k div 8 = j div 8 \<longrightarrow> used (records c ! k)" "\<forall>k<length (records c). rec_ip (records c ! k) \<noteq> ip"
  | (Full) j where "scan_slot (records c) ip (slot_first seed c ip) 8 None = Some (Full j)"
      "j < length (records c)" "j div 8 = hash_slot seed c ip"
      "\<forall>k. k div 8 = hash_slot seed c ip \<longrightarrow> used (records c ! k)" "\<forall>k<length (records c). rec_ip (records c ! k) \<noteq> ip"
proof -
  let ?h = "hash_slot seed c ip"
  have f: "slot_first seed c ip = ?h * 8" by (simp add: slot_first_def hash_slot_def)
  note b = slot_in_table [OF inv, of ip]
  have at: "k div 8 = ?h \<and> used (records c ! k)" if "k < length (records c)" "rec_ip (records c ! k) = ip" for k
  proof -
    from that(2) ip have "used (records c ! k)" by (auto simp: used_def inet_family_def)
    with table_place [OF inv that(1)] that(2) show ?thesis by (simp add: slot_of_hash)
  qed
  from scan_slot_cases [OF b, of None ip "?h * 8"] ip
  consider (a) j where "scan_slot (records c) ip (?h * 8) 8 None = Some (Found j)" "?h * 8 \<le> j" "j < ?h * 8 + 8" "rec_ip (records c ! j) = ip"
    | (e) j where "scan_slot (records c) ip (?h * 8) 8 None = Some (Empty j)" "?h * 8 \<le> j" "j < ?h * 8 + 8"
      "\<not> used (records c ! j)" "\<forall>k. ?h * 8 \<le> k \<and> k < j \<longrightarrow> used (records c ! k) \<and> rec_ip (records c ! k) \<noteq> ip"
    | (u) j where "scan_slot (records c) ip (?h * 8) 8 None = Some (Full j)" "?h * 8 \<le> j" "j < ?h * 8 + 8"
      "\<forall>k. ?h * 8 \<le> k \<and> k < ?h * 8 + 8 \<longrightarrow> used (records c ! k) \<and> rec_ip (records c ! k) \<noteq> ip"
    by auto
  then show ?thesis
  proof cases
    case a
    then show ?thesis using b by (intro Found) (simp_all add: f)
  next
    case e
    have d: "j div 8 = ?h" using e(2,3) by (simp add: in_slot_iff)
    have "\<forall>k<j. k div 8 = j div 8 \<longrightarrow> used (records c ! k)"
      using e(5) unfolding d by (simp add: in_slot_iff)
    moreover have "\<forall>k<length (records c). rec_ip (records c ! k) \<noteq> ip"
    proof (intro allI impI notI)
      fix k
      assume k: "k < length (records c)" "rec_ip (records c ! k) = ip"
      note a = at [OF k]
      have "\<not> j < k" using table_prefix [OF inv k(1), of j] a d e(4) by auto
      moreover have "\<not> k < j" using e(5) k(2) a by (auto simp: in_slot_iff)
      ultimately show False using a e(4) by (metis nat_neq_iff)
    qed
    ultimately show ?thesis using Empty [of j] e b d by (simp add: f)
  next
    case u
    have "\<forall>k<length (records c). rec_ip (records c ! k) \<noteq> ip"
      using u(4) at by (metis in_slot_iff)
    then show ?thesis using Full [of j] u b by (simp add: f in_slot_iff)
  qed
qed

text \<open>The number of clients of a list of records that belong to slot \<open>k\<close> of \<open>s\<close> slots.\<close>

definition slot_count :: "u32 \<Rightarrow> nat \<Rightarrow> nat \<Rightarrow> Record list \<Rightarrow> nat" where
  "slot_count seed s k xs = length (filter (\<lambda>r. used r \<and> slot_of seed s r = k) xs)"

lemma slot_count_full:
  assumes "table_inv seed c" "\<forall>k. k div 8 = s \<longrightarrow> used (records c ! k)" "s * 8 + 8 \<le> length (records c)"
  shows "8 \<le> slot_count seed (slots c) s (records c)"
proof -
  let ?P = "\<lambda>r. used r \<and> slot_of seed (slots c) r = s"
  let ?b = "take 8 (drop (s * 8) (records c))"
  have "\<forall>r\<in>set ?b. ?P r"
  proof
    fix r
    assume "r \<in> set ?b"
    then obtain k where k: "k < 8" "r = records c ! (s * 8 + k)" using assms(3) by (auto simp: in_set_conv_nth)
    then have d: "(s * 8 + k) div 8 = s" "s * 8 + k < length (records c)" using assms(3) by auto
    with assms(2) k table_place [OF assms(1) d(2)] show "?P r" by simp
  qed
  then have "filter ?P ?b = ?b" by simp
  then have b: "length (filter ?P ?b) = 8" using assms(3) by simp
  have "records c = take (s * 8) (records c) @ ?b @ drop 8 (drop (s * 8) (records c))"
    by (metis append_take_drop_id)
  then have "length (filter ?P (records c)) = length (filter ?P (take (s * 8) (records c))) + length (filter ?P ?b) +
      length (filter ?P (drop 8 (drop (s * 8) (records c))))"
    by (metis (no_types, lifting) filter_append length_append add.assoc)
  with b show ?thesis by (simp add: slot_count_def)
qed

lemma length_filter_window:
  assumes "\<forall>i<length xs. P (xs ! i) \<longrightarrow> a \<le> i \<and> i < a + n"
  shows "length (filter P xs) \<le> n"
proof -
  have "{i. i < length xs \<and> P (xs ! i)} \<subseteq> {a..<a + n}" using assms by auto
  from card_mono [OF _ this] show ?thesis by (simp add: length_filter_conv_card)
qed

lemma slot_count_half:
  assumes "table_inv seed c"
  shows "slot_count seed (2 * slots c) k (records c) \<le> 8"
  unfolding slot_count_def
proof (rule length_filter_window [where a = "k mod slots c * 8"], intro allI impI)
  fix i
  assume i: "i < length (records c)" "used (records c ! i) \<and> slot_of seed (2 * slots c) (records c ! i) = k"
  have "slot_of seed (slots c) (records c ! i) = k mod slots c"
    using i(2) by (auto simp: slot_of_def mod_mod_cancel)
  with table_place [OF assms i(1)] i(2) show "k mod slots c * 8 \<le> i \<and> i < k mod slots c * 8 + 8"
    by (simp add: in_slot_iff [symmetric])
qed

lemma slot_count_put:
  assumes "i < length xs" "\<not> used (xs ! i)" "used r"
  shows "slot_count seed s k (xs[i := r]) = slot_count seed s k xs + (if slot_of seed s r = k then 1 else 0)"
proof -
  have x: "xs = take i xs @ xs ! i # drop (Suc i) xs" using assms(1) by (rule id_take_nth_drop)
  have "slot_count seed s k xs = slot_count seed s k (take i xs) + slot_count seed s k (drop (Suc i) xs)"
    by (subst x) (simp add: slot_count_def assms)
  moreover have "xs[i := r] = take i xs @ r # drop (Suc i) xs" using assms(1) by (simp add: upd_conv_take_nth_drop)
  ultimately show ?thesis using assms(3) by (simp add: slot_count_def)
qed

text \<open>A record for a client whose slot is not full is created without a change of anything else.\<close>

lemma get_record_room:
  assumes inv: "table_inv seed c" and ip: "inet_family ip" "\<forall>k<length (records c). rec_ip (records c ! k) \<noteq> ip"
    and room: "slot_count seed (slots c) (hash_slot seed c ip) (records c) < 8"
  obtains i where "get_record seed (Suc n) c ip = Some (Some i, c\<lparr>records := (records c)[i := new_record c ip]\<rparr>)"
    "i < length (records c)" "i div 8 = hash_slot seed c ip" "\<not> used (records c ! i)"
    "\<forall>k<i. k div 8 = i div 8 \<longrightarrow> used (records c ! k)"
proof (rule get_record_scan [OF inv ip(1)])
  fix j
  assume "j < length (records c)" "rec_ip (records c ! j) = ip"
  with ip(2) show thesis by simp
next
  fix j
  assume "scan_slot (records c) ip (slot_first seed c ip) 8 None = Some (Empty j)" "j < length (records c)"
    "j div 8 = hash_slot seed c ip" "\<not> used (records c ! j)" "\<forall>k<j. k div 8 = j div 8 \<longrightarrow> used (records c ! k)"
  then show thesis using that [of j] table_size [OF inv] ip(1) by (simp add: get_record.simps(2))
next
  fix j
  assume "\<forall>k. k div 8 = hash_slot seed c ip \<longrightarrow> used (records c ! k)"
  from slot_count_full [OF inv this slot_in_table [OF inv]] room show thesis by simp
qed

lemma inet_used: "inet_family (rec_ip r) \<Longrightarrow> used r"
  by (auto simp: used_def inet_family_def)

lemma copy_records_lossless:
  assumes "table_inv seed c" "distinct (map rec_ip (filter used rs))"
    and "\<forall>r\<in>set rs. used r \<longrightarrow> inet_family (rec_ip r) \<and> (\<forall>k<length (records c). rec_ip (records c ! k) \<noteq> rec_ip r)"
    and "\<forall>k. slot_count seed (slots c) k rs + slot_count seed (slots c) k (records c) \<le> 8"
  shows "\<exists>recs. copy_records seed (Suc n) rs c = Some (c\<lparr>records := recs\<rparr>) \<and> table_inv seed (c\<lparr>records := recs\<rparr>) \<and>
    mset (filter used recs) = mset (filter used rs) + mset (filter used (records c))"
  using assms
proof (induction rs arbitrary: c)
  case Nil
  then show ?case by (intro exI [of _ "records c"]) simp
next
  case (Cons r rs)
  show ?case
  proof (cases "used r")
    case False
    moreover have "slot_count seed (slots c) k (r # rs) = slot_count seed (slots c) k rs" for k
      using False by (simp add: slot_count_def)
    moreover have "distinct (map rec_ip (filter used rs))"
      "\<forall>r\<in>set rs. used r \<longrightarrow> inet_family (rec_ip r) \<and> (\<forall>k<length (records c). rec_ip (records c ! k) \<noteq> rec_ip r)"
      using Cons.prems(2,3) False by simp_all
    moreover have "copy_records seed (Suc n) (r # rs) c = copy_records seed (Suc n) rs c"
      using False by (simp add: used_def)
    ultimately show ?thesis using Cons.IH [OF Cons.prems(1)] Cons.prems(4) by simp
  next
    case True
    from Cons.prems(3) True have ip: "inet_family (rec_ip r)" "\<forall>k<length (records c). rec_ip (records c ! k) \<noteq> rec_ip r"
      by simp_all
    let ?h = "hash_slot seed c (rec_ip r)"
    from Cons.prems(4) [rule_format, of ?h] True
    have "slot_count seed (slots c) ?h (records c) < 8" by (simp add: slot_count_def slot_of_hash)
    from get_record_room [OF Cons.prems(1) ip this, of n] obtain i where
      g: "get_record seed (Suc n) c (rec_ip r) = Some (Some i, c\<lparr>records := (records c)[i := new_record c (rec_ip r)]\<rparr>)"
      and i: "i < length (records c)" "i div 8 = ?h" "\<not> used (records c ! i)"
        "\<forall>k<i. k div 8 = i div 8 \<longrightarrow> used (records c ! k)" .
    define c1 where "c1 = c\<lparr>records := (records c)[i := r]\<rparr>"
    have step: "copy_records seed (Suc n) (r # rs) c = copy_records seed (Suc n) rs c1"
      using True g by (simp add: used_def c1_def)
    have inv1: "table_inv seed c1" unfolding c1_def
      using Cons.prems(1) i(1) ip(1) _ i(4) by (rule table_inv_put) (use i ip in \<open>simp_all add: slot_of_hash\<close>)
    have "\<forall>r\<in>set rs. used r \<longrightarrow> inet_family (rec_ip r) \<and> (\<forall>k<length (records c1). rec_ip (records c1 ! k) \<noteq> rec_ip r)"
    proof (intro ballI impI conjI allI)
      fix x k
      assume x: "x \<in> set rs" "used x"
      with Cons.prems(3) show "inet_family (rec_ip x)" by simp
      assume "k < length (records c1)"
      moreover have "rec_ip r \<noteq> rec_ip x" using Cons.prems(2) True x by auto
      ultimately show "rec_ip (records c1 ! k) \<noteq> rec_ip x"
        using Cons.prems(3) x i(1) by (cases "k = i") (simp_all add: c1_def)
    qed
    moreover have "\<forall>k. slot_count seed (slots c1) k rs + slot_count seed (slots c1) k (records c1) \<le> 8"
    proof
      fix k
      show "slot_count seed (slots c1) k rs + slot_count seed (slots c1) k (records c1) \<le> 8"
        using Cons.prems(4) [rule_format, of k] slot_count_put [OF i(1,3) True, of seed "slots c" k] True
        by (auto simp: c1_def slot_count_def split: if_splits)
    qed
    moreover have "distinct (map rec_ip (filter used rs))" using Cons.prems(2) True by simp
    ultimately obtain recs where "copy_records seed (Suc n) rs c1 = Some (c1\<lparr>records := recs\<rparr>)"
      "table_inv seed (c1\<lparr>records := recs\<rparr>)"
      "mset (filter used recs) = mset (filter used rs) + mset (filter used (records c1))"
      using Cons.IH [OF inv1] by blast
    moreover have "mset (filter used (records c1)) = add_mset r (mset (filter used (records c)))"
      using clients_update [OF i(1) True] i(3) by (simp add: c1_def)
    ultimately show ?thesis using True by (intro exI [of _ recs]) (simp add: step c1_def del: copy_records.simps)
  qed
qed

lemma table_inv_empty:
  assumes "active c" "0 < slots c" "slots c \<le> max_slots c"
  shows "table_inv seed (c\<lparr>records := replicate (slots c * 8) empty_record\<rparr>)"
  using assms by (simp add: table_inv_def used_def empty_record_def)

lemma filter_used_replicate_empty [simp]: "filter used (replicate n empty_record) = []"
  by (simp add: used_def empty_record_def)

text \<open>
  The expansion keeps every record: the clients of a slot of the new table were in one slot of the
  old table, so the copying never finds a full slot.
\<close>

lemma expand_hashtable_lossless:
  assumes inv: "table_inv seed c" and room: "2 * slots c \<le> max_slots c"
  shows "\<exists>recs. expand_hashtable seed (Suc n) c = Some (True, c\<lparr>slots := 2 * slots c, records := recs\<rparr>) \<and>
    table_inv seed (c\<lparr>slots := 2 * slots c, records := recs\<rparr>) \<and> mset (filter used recs) = clients c"
proof -
  define c1 where "c1 = c\<lparr>slots := 2 * slots c, records := replicate (2 * slots c * 8) empty_record\<rparr>"
  note sz = table_size [OF inv]
  have inv1: "table_inv seed c1"
    using table_inv_empty [of "c\<lparr>slots := 2 * slots c\<rparr>" seed] sz room by (simp add: c1_def)
  have d: "distinct (map rec_ip (filter used (records c)))"
    using table_unique [OF inv] by (intro distinct_ips) blast
  have "\<forall>r\<in>set (records c). used r \<longrightarrow> inet_family (rec_ip r) \<and> (\<forall>k<length (records c1). rec_ip (records c1 ! k) \<noteq> rec_ip r)"
    using table_place [OF inv] by (auto simp: in_set_conv_nth c1_def used_def empty_record_def)
  moreover have "\<forall>k. slot_count seed (slots c1) k (records c) + slot_count seed (slots c1) k (records c1) \<le> 8"
    using slot_count_half [OF inv] by (simp add: c1_def slot_count_def used_def empty_record_def)
  ultimately obtain recs where "copy_records seed (Suc n) (records c) c1 = Some (c1\<lparr>records := recs\<rparr>)"
    "table_inv seed (c1\<lparr>records := recs\<rparr>)" "mset (filter used recs) = mset (filter used (records c))"
    using copy_records_lossless [OF inv1 d, of n] by (auto simp: c1_def)
  then show ?thesis using room sz
    by (intro exI [of _ recs]) (simp add: expand_hashtable.simps c1_def clients_def Let_def max_def Suc_le_eq)
qed

text \<open>
  The outcome of a lookup: the record of the client, which is new unless the client was known; a
  record of another client is dropped only when the table is at its limit.
\<close>

definition lookup_result :: "u32 \<Rightarrow> ClientLog \<Rightarrow> IPAddr \<Rightarrow> nat \<Rightarrow> ClientLog \<Rightarrow> bool" where
  "lookup_result seed c ip i c' \<longleftrightarrow> table_inv seed c' \<and> i < length (records c') \<and> rec_ip (records c' ! i) = ip \<and>
     (if ip \<in># image_mset rec_ip (clients c) then c' = c
      else records c' ! i = new_record c ip \<and>
        (clients c' = add_mset (new_record c ip) (clients c) \<and>
           c' = c\<lparr>slots := slots c', records := records c'\<rparr> \<or>
         2 * slots c' > max_slots c \<and>
           (\<exists>old. old \<in># clients c \<and> clients c' = add_mset (new_record c ip) (clients c - {#old#})) \<and>
           c' = c\<lparr>slots := slots c', records := records c', total_record_drops := total_record_drops c + 1\<rparr>))"

lemma client_known_iff:
  assumes "inet_family ip"
  shows "ip \<in># image_mset rec_ip (clients c) \<longleftrightarrow> (\<exists>i<length (records c). rec_ip (records c ! i) = ip)"
  using assms by (auto simp: clients_def in_set_conv_nth used_def inet_family_def image_iff)

lemma get_record_spec:
  assumes "table_inv seed c" "inet_family ip" "max_slots c < slots c * 2 ^ fuel"
  shows "\<exists>i c'. get_record seed fuel c ip = Some (Some i, c') \<and> lookup_result seed c ip i c'"
  using assms
proof (induction fuel arbitrary: c)
  case 0
  then show ?case using table_size [of seed c] by simp
next
  case (Suc n)
  note inv = Suc.prems(1) and ip = Suc.prems(2) and sz = table_size [OF Suc.prems(1)]
  show ?case
  proof (rule get_record_scan [OF inv ip])
    fix j
    assume j: "scan_slot (records c) ip (slot_first seed c ip) 8 None = Some (Found j)"
      "j < length (records c)" "rec_ip (records c ! j) = ip"
    then have "ip \<in># image_mset rec_ip (clients c)" using client_known_iff [OF ip] by blast
    with j inv ip sz show ?thesis
      by (intro exI [of _ j] exI [of _ c]) (simp add: get_record.simps(2) lookup_result_def)
  next
    fix j
    assume j: "scan_slot (records c) ip (slot_first seed c ip) 8 None = Some (Empty j)"
      "j < length (records c)" "j div 8 = hash_slot seed c ip" "\<not> used (records c ! j)"
      "\<forall>k<j. k div 8 = j div 8 \<longrightarrow> used (records c ! k)" "\<forall>k<length (records c). rec_ip (records c ! k) \<noteq> ip"
    let ?c = "c\<lparr>records := (records c)[j := new_record c ip]\<rparr>"
    have n: "rec_ip (new_record c ip) = ip" by (simp add: new_record_def)
    have "table_inv seed ?c"
      using inv j(2) _ _ j(5) by (rule table_inv_put) (use j ip n in \<open>simp_all add: slot_of_hash\<close>)
    moreover have "clients ?c = add_mset (new_record c ip) (clients c)"
      using clients_update [OF j(2), of "new_record c ip"] j(4) inet_used [of "new_record c ip"] n ip by (simp add: clients_def)
    moreover have "ip \<notin># image_mset rec_ip (clients c)" using client_known_iff [OF ip] j(6) by blast
    ultimately show ?thesis using j n ip sz
      by (intro exI [of _ j] exI [of _ ?c]) (simp add: get_record.simps(2) lookup_result_def)
  next
    fix j
    assume j: "scan_slot (records c) ip (slot_first seed c ip) 8 None = Some (Full j)"
      "j < length (records c)" "j div 8 = hash_slot seed c ip"
      "\<forall>k. k div 8 = hash_slot seed c ip \<longrightarrow> used (records c ! k)" "\<forall>k<length (records c). rec_ip (records c ! k) \<noteq> ip"
    have new: "ip \<notin># image_mset rec_ip (clients c)" using client_known_iff [OF ip] j(5) by blast
    have n: "rec_ip (new_record c ip) = ip" by (simp add: new_record_def)
    show ?thesis
    proof (cases "2 * slots c \<le> max_slots c")
      case True
      then obtain m where m: "n = Suc m" using Suc.prems(3) by (cases n) auto
      obtain recs where e: "expand_hashtable seed n c = Some (True, c\<lparr>slots := 2 * slots c, records := recs\<rparr>)"
        and inv1: "table_inv seed (c\<lparr>slots := 2 * slots c, records := recs\<rparr>)"
        and cl: "mset (filter used recs) = clients c"
        using expand_hashtable_lossless [OF inv True, of m] m by blast
      let ?c = "c\<lparr>slots := 2 * slots c, records := recs\<rparr>"
      have "max_slots ?c < slots ?c * 2 ^ n" using Suc.prems(3) by simp
      from Suc.IH [OF inv1 ip this] obtain i c' where g: "get_record seed n ?c ip = Some (Some i, c')"
        and l: "lookup_result seed ?c ip i c'" by blast
      have "clients ?c = clients c" using cl by (simp add: clients_def)
      with l new have "lookup_result seed c ip i c'"
        by (auto simp: lookup_result_def new_record_def)
      with g e j(1) ip sz show ?thesis by (auto simp: get_record.simps(2))
    next
      case False
      let ?c = "c\<lparr>records := (records c)[j := new_record c ip], total_record_drops := total_record_drops c + 1\<rparr>"
      have "table_inv seed (c\<lparr>records := (records c)[j := new_record c ip]\<rparr>)"
        using inv j(2) _ _ _ by (rule table_inv_put) (use j ip n in \<open>simp_all add: slot_of_hash\<close>)
      then have "table_inv seed ?c" by (simp add: table_inv_def)
      moreover have "clients ?c = add_mset (new_record c ip) (clients c - {#records c ! j#})"
        using clients_update [OF j(2), of "new_record c ip"] j(3,4) inet_used [of "new_record c ip"] n ip by (simp add: clients_def)
      moreover have "records c ! j \<in># clients c" using j(2-4) by (auto simp: clients_def)
      ultimately have "lookup_result seed c ip j ?c" using new False j n by (auto simp: lookup_result_def)
      then show ?thesis using j(1) False ip sz
        by (intro exI [of _ j] exI [of _ ?c]) (simp add: get_record.simps(2) expand_hashtable.simps)
    qed
  qed
qed

section \<open>The interface of the table\<close>

text \<open>
  What the operations on clients rely on: a lookup of a valid key on a state that satisfies the
  invariant returns a cell with that key, keeps the invariant, and finds a known key without
  a change of the state.
\<close>

locale client_table =
  fixes get :: "'c \<Rightarrow> 'k \<Rightarrow> ('i option \<times> 'c) option"
    and inv :: "'c \<Rightarrow> bool"
    and valid :: "'k \<Rightarrow> bool"
    and entry :: "'c \<Rightarrow> 'i \<Rightarrow> 'r option"
    and key :: "'r \<Rightarrow> 'k"
    and set_entry :: "'i \<Rightarrow> 'r \<Rightarrow> 'c \<Rightarrow> 'c"
  assumes get_total: "inv c \<Longrightarrow> valid k \<Longrightarrow>
      \<exists>i c' r. get c k = Some (Some i, c') \<and> inv c' \<and> entry c' i = Some r \<and> key r = k"
    and get_known: "inv c \<Longrightarrow> entry c i = Some r \<Longrightarrow> key r = k \<Longrightarrow> valid k \<Longrightarrow> get c k = Some (Some i, c)"
    and set_inv: "inv c \<Longrightarrow> entry c i = Some r \<Longrightarrow> valid (key r) \<Longrightarrow> key r' = key r \<Longrightarrow> inv (set_entry i r' c)"
    and set_same: "inv c \<Longrightarrow> entry c i = Some r \<Longrightarrow> entry (set_entry i r' c) i = Some r'"
begin

text \<open>An update of the record of a client is found at the next lookup of the client, at the same index.\<close>

lemma get_again:
  assumes "inv c" "valid k" "get c k = Some (Some i, c')"
  shows "get c' k = Some (Some i, c')"
proof -
  obtain i' c'' r where g: "get c k = Some (Some i', c'')" "inv c''" "entry c'' i' = Some r" "key r = k"
    using get_total [OF assms(1,2)] by blast
  with assms(3) have "i' = i" "c'' = c'" by simp_all
  with get_known g assms(2) show ?thesis by blast
qed

lemma get_set_get:
  assumes "inv c" "valid k" "get c k = Some (Some i, c')" "key r = k"
  shows "get (set_entry i r c') k = Some (Some i, set_entry i r c') \<and> entry (set_entry i r c') i = Some r \<and>
    inv (set_entry i r c')"
proof -
  obtain i' c'' r0 where "get c k = Some (Some i', c'')" "inv c''" "entry c'' i' = Some r0" "key r0 = k"
    using get_total [OF assms(1,2)] by blast
  with assms(3) have g: "inv c'" "entry c' i = Some r0" "key r0 = k" by simp_all
  have s: "inv (set_entry i r c')" using set_inv [OF g(1,2)] g(3) assms(2,4) by simp
  with set_same [OF g(1,2), of r] show ?thesis using get_known [OF s] assms(2,4) by blast
qed

end

definition client_entry :: "ClientLog \<Rightarrow> nat \<Rightarrow> Record option" where
  "client_entry c i = (if i < length (records c) then Some (records c ! i) else None)"

text \<open>The number of slots is at most 2^21, so that a fuel of 22 is enough for any table.\<close>

definition log_inv :: "u32 \<Rightarrow> ClientLog \<Rightarrow> bool" where
  "log_inv seed c \<longleftrightarrow> table_inv seed c \<and> max_slots c \<le> MAX_SLOTS"

lemma enough_fuel:
  assumes "log_inv seed c"
  shows "max_slots c < slots c * 2 ^ 22"
proof -
  have "1 * 2 ^ 22 \<le> slots c * 2 ^ 22" using assms table_size by (intro mult_le_mono1) (auto simp: log_inv_def Suc_le_eq)
  with assms show ?thesis by (simp add: log_inv_def)
qed

lemma lookup_result_frame:
  assumes "lookup_result seed c ip i c'"
  obtains s recs d where "c' = c\<lparr>slots := s, records := recs, total_record_drops := d\<rparr>"
proof (cases "ip \<in># image_mset rec_ip (clients c)")
  case True
  with assms have "c' = c" by (auto simp: lookup_result_def)
  then show thesis using that [of "total_record_drops c" "records c" "slots c"] by simp
next
  case False
  with assms consider "c' = c\<lparr>slots := slots c', records := records c'\<rparr>"
    | "c' = c\<lparr>slots := slots c', records := records c', total_record_drops := total_record_drops c + 1\<rparr>"
    by (auto simp: lookup_result_def)
  then show thesis
  proof cases
    case 1
    then obtain s recs where "c' = c\<lparr>slots := s, records := recs\<rparr>" by blast
    then have "c' = c\<lparr>slots := s, records := recs, total_record_drops := total_record_drops c\<rparr>" by simp
    then show thesis by (rule that)
  next
    case 2
    then show thesis by (rule that)
  qed
qed

lemma lookup_result_fields: "lookup_result seed c ip i c' \<Longrightarrow>
  max_slots c' = max_slots c \<and> max_tokens c' = max_tokens c \<and> tokens_per_hit c' = tokens_per_hit c \<and>
  token_shift c' = token_shift c \<and> ts_offset c' = ts_offset c"
  by (erule lookup_result_frame) simp

lemma get_record_known:
  assumes "log_inv seed c" "i < length (records c)" "inet_family (rec_ip (records c ! i))"
  shows "get_record seed 22 c (rec_ip (records c ! i)) = Some (Some i, c)"
proof -
  let ?ip = "rec_ip (records c ! i)"
  have inv: "table_inv seed c" using assms(1) by (simp add: log_inv_def)
  from get_record_spec [OF inv assms(3) enough_fuel [OF assms(1)]] obtain j c' where
    g: "get_record seed 22 c ?ip = Some (Some j, c')" "lookup_result seed c ?ip j c'" by blast
  have "?ip \<in># image_mset rec_ip (clients c)" using client_known_iff [OF assms(3)] assms(2) by blast
  with g(2) have "c' = c" "j < length (records c)" "rec_ip (records c ! j) = ?ip" by (auto simp: lookup_result_def)
  with g(1) table_unique [OF inv assms(2)] inet_used [OF assms(3)] show ?thesis by metis
qed

interpretation clog: client_table "get_record seed 22" "log_inv seed" inet_family client_entry rec_ip
  "\<lambda>i r c. c\<lparr>records := (records c)[i := r]\<rparr>" for seed
proof
  fix c ip
  assume a: "log_inv seed c" "inet_family ip"
  then have "table_inv seed c" by (simp add: log_inv_def)
  from get_record_spec [OF this a(2) enough_fuel [OF a(1)]] obtain i c' where
    g: "get_record seed 22 c ip = Some (Some i, c')" "lookup_result seed c ip i c'" by blast
  then show "\<exists>i c' r. get_record seed 22 c ip = Some (Some i, c') \<and> log_inv seed c' \<and> client_entry c' i = Some r \<and> rec_ip r = ip"
    using a(1) lookup_result_fields [OF g(2)]
    by (intro exI [of _ i] exI [of _ c'] exI [of _ "records c' ! i"]) (simp add: log_inv_def client_entry_def lookup_result_def)
next
  fix c i r k
  assume "log_inv seed c" "client_entry c i = Some r" "rec_ip r = k" "inet_family k"
  then show "get_record seed 22 c k = Some (Some i, c)"
    using get_record_known by (auto simp: client_entry_def split: if_splits)
next
  fix c i and r r' :: Record
  assume a: "log_inv seed c" "client_entry c i = Some r" "inet_family (rec_ip r)" "rec_ip r' = rec_ip r"
  then have r: "r = records c ! i" "i < length (records c)" by (simp_all add: client_entry_def split: if_splits)
  have inv: "table_inv seed c" using a(1) by (simp add: log_inv_def)
  have u: "used (records c ! i)" using inet_used a(3) r by simp
  have "table_inv seed (c\<lparr>records := (records c)[i := r']\<rparr>)"
  proof (rule table_inv_put [OF inv r(2)])
    show "slot_of seed (slots c) r' = i div 8"
      using table_place [OF inv r(2) u] a(4) r by (simp add: slot_of_def)
    show "\<forall>k<i. k div 8 = i div 8 \<longrightarrow> used (records c ! k)" using table_prefix [OF inv r(2)] u by blast
    show "\<forall>k<length (records c). k \<noteq> i \<longrightarrow> rec_ip (records c ! k) \<noteq> rec_ip r'"
      using table_unique [OF inv r(2) _ u] a(4) r by metis
  qed (use a in simp)
  then show "log_inv seed (c\<lparr>records := (records c)[i := r']\<rparr>)" using a(1) by (simp add: log_inv_def)
next
  fix c i and r r' :: Record
  assume "log_inv seed c" "client_entry c i = Some r"
  then show "client_entry (c\<lparr>records := (records c)[i := r']\<rparr>) i = Some r'"
    by (simp add: client_entry_def split: if_splits)
qed

section \<open>The records of the clients\<close>

definition rate_ok :: "int \<Rightarrow> bool" where
  "rate_ok r \<longleftrightarrow> r = INVALID_RATE \<or> -56 \<le> r \<and> r \<le> 20"

definition record_ok :: "ClientLog \<Rightarrow> Record \<Rightarrow> bool" where
  "record_ok c r \<longleftrightarrow> (\<forall>sv. tokens r sv \<le> max_tokens c sv \<and> rate_ok (rate r sv)) \<and> rate_ok (ntp_timeout_rate r)"

lemma interval_log2_bounds:
  assumes "interval2 \<le> 56" "interval2 mod 4 = 0"
  shows "interval2 \<le> interval_log2 interval interval2 \<and> interval_log2 interval interval2 \<le> 56"
  using assms
proof (induction interval interval2 rule: interval_log2.induct)
  case (1 interval interval2)
  show ?case
  proof (cases "interval2 < 56 \<and> \<not> interval \<le> 1")
    case True
    then have "interval2 < 56" ..
    then have "interval2 + 4 \<le> 56" using 1(3) by presburger
    moreover have "(interval2 + 4) mod 4 = 0" using 1(3) by simp
    ultimately have "interval2 + 4 \<le> interval_log2 (drop_bit 1 interval) (interval2 + 4) \<and>
        interval_log2 (drop_bit 1 interval) (interval2 + 4) \<le> 56"
      using 1(1) True by simp
    with True show ?thesis by (subst (1 2) interval_log2.simps) simp
  next
    case False
    with 1(2) show ?thesis by (subst (1 2) interval_log2.simps) auto
  qed
qed

text \<open>The logarithm is exact: the loop ends at the position of the highest bit, at most the 18th.\<close>

lemma interval_log2_exact:
  assumes "2 ^ k \<le> unat interval" "unat interval < 2 ^ Suc k" "interval2 + 4 * int k \<le> 56"
  shows "interval_log2 interval interval2 = interval2 + 4 * int k"
  using assms
proof (induction k arbitrary: interval interval2)
  case 0
  then have "interval \<le> 1" by (simp add: word_le_nat_alt)
  then show ?case by (subst interval_log2.simps) simp
next
  case (Suc k)
  have u: "unat (drop_bit 1 interval) = unat interval div 2" by (simp add: unat_drop_bit_eq drop_bit_eq_div unat_div_distrib)
  have "(2::nat) \<le> 2 ^ Suc k" by simp
  with Suc.prems(1) have "2 \<le> unat interval" by linarith
  then have "\<not> interval \<le> 1" by (simp add: word_le_nat_alt)
  moreover have "interval_log2 (drop_bit 1 interval) (interval2 + 4) = interval2 + 4 + 4 * int k"
    using Suc.prems by (intro Suc.IH) (simp_all add: u [simplified])
  ultimately show ?case using Suc.prems(3) by (subst interval_log2.simps) simp
qed

lemma c_div_2_bounds: "2 * a \<le> x \<Longrightarrow> x \<le> 2 * b \<Longrightarrow> a \<le> c_div x 2 \<and> c_div x 2 \<le> b"
  by (cases "x < 0") (auto simp: c_div_neg c_div_nonneg)

text \<open>The average moves towards the rate of the interval, and a known rate stays between the two.\<close>

lemma update_rate_between:
  assumes "r \<noteq> INVALID_RATE"
  shows "min r (- interval2) \<le> update_rate r interval2 \<and> update_rate r interval2 \<le> max r (- interval2)"
proof (cases "r > - interval2")
  case True
  have d: "c_div 20 2 = 10" by (simp add: c_div_def)
  have "- interval2 \<le> c_div (r - interval2 - 1) 2 \<and> c_div (r - interval2 - 1) 2 \<le> r"
    using True by (intro c_div_2_bounds) simp_all
  with True assms d show ?thesis by (auto simp: update_rate_def)
next
  case False
  with assms show ?thesis by (auto simp: update_rate_def)
qed

lemma update_rate_ok:
  assumes "rate_ok r" "-20 \<le> interval2" "interval2 \<le> 56"
  shows "rate_ok (update_rate r interval2)"
proof (cases "r = INVALID_RATE")
  case True
  with assms show ?thesis by (simp add: update_rate_def rate_ok_def)
next
  case False
  with update_rate_between [OF False, of interval2] assms show ?thesis by (auto simp: rate_ok_def)
qed

lemma update_record_ip [simp]: "rec_ip (update_record c service r now) = rec_ip r"
  by (simp add: update_record_def Let_def)

lemma min_fits_u16:
  "ucast (min x (ucast m :: u32)) \<le> (m :: u16)"
proof -
  have "min x (ucast m) \<le> (ucast m :: u32)" by simp
  moreover have "unat (ucast m :: u32) = unat m"
    using unat_u16_less [of m] by (simp add: unsigned_ucast_eq take_bit_nat_eq_self)
  ultimately have "unat (min x (ucast m)) \<le> unat m" by (simp add: word_le_nat_alt)
  moreover from this have "unat (ucast (min x (ucast m)) :: u16) = unat (min x (ucast m))"
    using unat_u16_less [of m] by (simp add: unsigned_ucast_eq take_bit_nat_eq_self)
  ultimately show ?thesis by (simp add: word_le_nat_alt)
qed

lemma update_record_ok:
  assumes "record_ok c r"
  shows "record_ok c (update_record c service r now)"
proof -
  have i: "- 20 \<le> (if b then interval_log2 x (- 16) else - 20) \<and> (if b then interval_log2 x (- 16) else - 20) \<le> 56"
    for b and x :: u32
    using interval_log2_bounds [of "-16" x] by simp
  have r: "rate_ok q \<Longrightarrow> rate_ok (update_rate q (if b then interval_log2 x (- 16) else - 20))" for q b and x :: u32
    using update_rate_ok [of q] i [of b x] by blast
  show ?thesis
    using assms min_fits_u16 r [of _ True, simplified] r [of _ False, simplified]
    by (auto simp: record_ok_def update_record_def Let_def)
qed

lemma new_record_ok: "record_ok c (new_record c ip)"
  by (simp add: record_ok_def new_record_def rate_ok_def)

text \<open>
  The tokens gained in an interval, for a shift of the configuration, when the fixed-point time did
  not wrap around between the two hits: the elapsed time in units of 2^\<open>tshift\<close>, up to the
  capacity of the bucket.
\<close>

definition elapsed :: "int \<Rightarrow> u32 \<Rightarrow> u32 \<Rightarrow> nat" where
  "elapsed tshift prev now =
     (if tshift \<ge> 0 then unat now div 2 ^ nat tshift - unat prev div 2 ^ nat tshift
      else (unat now - unat prev) * 2 ^ nat (- tshift))"

lemma unat_ucast_u16: "unat (ucast (m :: u16) :: u32) = unat m"
  using unat_u16_less [of m] by (simp add: unsigned_ucast_eq take_bit_nat_eq_self)

lemma unat_min_ucast: "unat (ucast (min x (ucast m :: u32)) :: u16) = min (unat x) (unat (m :: u16))"
proof -
  have m: "unat (min x (ucast m)) = min (unat x) (unat m)"
    using unat_ucast_u16 [of m] by (simp add: min_def word_le_nat_alt)
  then have "unat (min x (ucast m)) < 2 ^ 16" using unat_u16_less [of m] by simp
  with m show ?thesis by (simp add: unsigned_ucast_eq take_bit_nat_eq_self)
qed

lemma unat_add_small: "unat (x :: u32) + unat y < 2 ^ 32 \<Longrightarrow> unat (x + y) = unat x + unat y"
  by (simp add: unat_word_ariths)

lemma unat_diff_le: "(x :: u32) \<le> y \<Longrightarrow> unat (y - x) = unat y - unat x"
  by (simp add: unat_sub)

lemma sint_u32_nonneg: "0 \<le> sint (w :: u32) \<longleftrightarrow> unat w < 2 ^ 31"
proof -
  have "0 \<le> sint w \<longleftrightarrow> \<not> bit (uint w) 31" by (simp add: sint_uint signed_take_bit_nonnegative_iff)
  moreover have r: "0 \<le> uint w" "uint w < 2 ^ 32" using uint_lt2p [of w] by simp_all
  then have "uint w div 2 ^ 31 = (if uint w < 2 ^ 31 then 0 else 1)"
    by (auto simp: div_pos_geq div_pos_pos_trivial)
  ultimately have "0 \<le> sint w \<longleftrightarrow> uint w < 2 ^ 31" by (simp add: bit_iff_odd)
  also have "\<dots> \<longleftrightarrow> int (unat w) < int (2 ^ 31)" by simp
  also have "\<dots> \<longleftrightarrow> unat w < 2 ^ 31" by (simp only: of_nat_less_iff)
  finally show ?thesis .
qed

lemma div_diff_bound: "a div n - b div n \<le> (a - b) div n + (1::nat)" if "0 < n" "b \<le> a"
proof -
  have "b mod n + (a - b) mod n < 2 * n"
    using mod_less_divisor [OF that(1), of b] mod_less_divisor [OF that(1), of "a - b"] by linarith
  then have "(b mod n + (a - b) mod n) div n < 2" by (rule less_mult_imp_div_less)
  moreover have "a div n = b div n + (a - b) div n + (b mod n + (a - b) mod n) div n"
    using div_add1_eq [of b "a - b" n] that(2) by simp
  ultimately show ?thesis by linarith
qed

lemma tokens_gained:
  fixes prev now :: u32 and tok m :: u16
  defines "toks \<equiv> (\<lambda>tshift. if tshift \<ge> 0 then drop_bit (nat tshift) now - drop_bit (nat tshift) prev
      else if now - prev > (ucast m :: u32) then ucast m else push_bit (nat (- tshift)) (now - prev))"
  assumes le: "prev \<le> now" and half: "sint (now - prev) \<ge> 0" and sh: "-15 \<le> tshift"
  shows "unat (ucast (min (ucast tok + toks tshift) (ucast m :: u32)) :: u16) =
    min (unat tok + elapsed tshift prev now) (unat m)"
proof -
  have d: "unat (now - prev) = unat now - unat prev" using le by (rule unat_diff_le)
  have lt: "unat now - unat prev < 2 ^ 31" using half d by (simp add: sint_u32_nonneg)
  have t: "unat (ucast tok :: u32) = unat tok" by (rule unat_ucast_u16)
  show ?thesis
  proof (cases "tshift \<ge> 0")
    case True
    have e: "unat (toks tshift) = elapsed tshift prev now"
    proof -
      have "unat (drop_bit (nat tshift) w) = unat w div 2 ^ nat tshift" for w :: u32
        by (subst unat_drop_bit_eq) (simp add: drop_bit_eq_div)
      then show ?thesis using True le div_le_mono [of "unat prev" "unat now" "2 ^ nat tshift"]
        by (simp add: toks_def elapsed_def unat_diff_le word_le_nat_alt)
    qed
    have "elapsed tshift prev now \<le> (unat now - unat prev) div 2 ^ nat tshift + 1"
      using True le div_diff_bound [of "2 ^ nat tshift" "unat prev" "unat now"] by (simp add: elapsed_def word_le_nat_alt)
    also have "\<dots> \<le> (unat now - unat prev) + 1" by simp
    finally have "elapsed tshift prev now \<le> 2 ^ 31" using lt by linarith
    then have "unat (ucast tok + toks tshift) = unat tok + elapsed tshift prev now"
      using unat_u16_less [of tok] by (simp add: unat_add_small t e)
    then show ?thesis by (simp add: unat_min_ucast)
  next
    case False
    have p: "1 \<le> (2::nat) ^ nat (- tshift)" by simp
    show ?thesis
    proof (cases "now - prev > (ucast m :: u32)")
      case True
      then have "unat m < unat now - unat prev" using unat_ucast_u16 [of m] by (simp add: word_less_nat_alt d)
      also have "\<dots> \<le> (unat now - unat prev) * 2 ^ nat (- tshift)" by simp
      finally have g: "unat m < elapsed tshift prev now" using False by (simp add: elapsed_def)
      have "unat (ucast tok + toks tshift) = unat tok + unat m"
        using unat_u16_less [of tok] unat_u16_less [of m] False True unat_ucast_u16 [of m]
        by (simp add: unat_add_small t toks_def)
      then show ?thesis using g by (simp add: unat_min_ucast)
    next
      case small: False
      then have "unat now - unat prev \<le> unat m" using unat_ucast_u16 [of m] by (simp add: word_less_nat_alt d)
      then have b: "unat now - unat prev \<le> 2 ^ 16 - 1" using unat_u16_less [of m] by simp
      have "(2::nat) ^ nat (- tshift) \<le> 2 ^ 15" using sh by (intro power_increasing) auto
      from mult_le_mono [OF b this] have e: "elapsed tshift prev now \<le> (2 ^ 16 - 1) * 2 ^ 15" using False by (simp add: elapsed_def)
      have "unat (push_bit (nat (- tshift)) (now - prev)) = elapsed tshift prev now"
        using False e unfolding push_bit_eq_mult
        using sh by (simp add: elapsed_def unat_word_ariths d unat_2p)
      then have "unat (ucast tok + toks tshift) = unat tok + elapsed tshift prev now"
        using unat_u16_less [of tok] False small e by (simp add: unat_add_small t toks_def)
      then show ?thesis by (simp add: unat_min_ucast)
    qed
  qed
qed

lemma update_record_last_hit: "last_hit (update_record c sv r now) sv = get_ts_from_timespec c now"
  by (simp add: update_record_def Let_def)

lemma tokens_if: "tokens (if b then r\<lparr>ntp_timeout_rate := x\<rparr> else r\<lparr>rate := y\<rparr>) = tokens r"
  by simp

lemma update_record_tokens:
  assumes "last_hit r sv \<noteq> 0" "last_hit r sv \<le> get_ts_from_timespec c now"
    "0 \<le> sint (get_ts_from_timespec c now - last_hit r sv)" "-15 \<le> token_shift c sv"
  shows "unat (tokens (update_record c sv r now) sv) =
    min (unat (tokens r sv) + elapsed (token_shift c sv) (last_hit r sv) (get_ts_from_timespec c now)) (unat (max_tokens c sv))"
  using assms tokens_gained [OF assms(2-4), of "tokens r sv" "max_tokens c sv"]
  by (simp add: update_record_def Let_def tokens_if split del: if_split)

section \<open>The operations on the log\<close>

lemma limit_response_random_fields [simp]:
  "records (snd (limit_response_random fresh rt c)) = records c" "slots (snd (limit_response_random fresh rt c)) = slots c"
  "max_slots (snd (limit_response_random fresh rt c)) = max_slots c" "active (snd (limit_response_random fresh rt c)) = active c"
  "max_tokens (snd (limit_response_random fresh rt c)) = max_tokens c"
  "tokens_per_hit (snd (limit_response_random fresh rt c)) = tokens_per_hit c"
  "token_shift (snd (limit_response_random fresh rt c)) = token_shift c"
  "ts_offset (snd (limit_response_random fresh rt c)) = ts_offset c"
  "total_hits (snd (limit_response_random fresh rt c)) = total_hits c"
  "total_drops (snd (limit_response_random fresh rt c)) = total_drops c"
  "kod_rate (snd (limit_response_random fresh rt c)) = kod_rate c"
  by (simp_all add: limit_response_random_def Let_def)

text \<open>
  The effect of a decision on the record of the client: a response takes the tokens it costs, or
  all of them if it is allowed at random, and only a drop is counted and flagged.
\<close>

definition limited_record :: "ClientLog \<Rightarrow> CLG_Service \<Rightarrow> CLG_Limit \<Rightarrow> Record \<Rightarrow> Record" where
  "limited_record c sv lm r =
     (let r = r\<lparr>drop_flags := (drop_flags r)(sv := lm = CLG_DROP)\<rparr> in
      case lm of
        CLG_PASS \<Rightarrow> r\<lparr>tokens := (tokens r)(sv := if tokens_per_hit c sv \<le> tokens r sv
                                              then tokens r sv - tokens_per_hit c sv else 0)\<rparr>
      | CLG_KOD \<Rightarrow> r
      | CLG_DROP \<Rightarrow> r\<lparr>drops := (drops r)(sv := drops r sv + 1)\<rparr>)"

lemma CLG_LimitServiceRate_cases:
  assumes "tokens_per_hit c sv \<noteq> 0" "i < length (records c)"
  obtains lm c1 where
    "CLG_LimitServiceRate rnd1 rnd2 c sv (int i) = Some (lm, c1)"
    "records c1 = (records c)[i := limited_record c sv lm (records c ! i)]"
    "tokens_per_hit c sv \<le> tokens (records c ! i) sv \<Longrightarrow> lm = CLG_PASS"
    "total_drops c1 = (if lm = CLG_DROP then (total_drops c)(sv := total_drops c sv + 1) else total_drops c)"
    "slots c1 = slots c" "max_slots c1 = max_slots c" "active c1 = active c" "max_tokens c1 = max_tokens c"
    "tokens_per_hit c1 = tokens_per_hit c" "token_shift c1 = token_shift c" "ts_offset c1 = ts_offset c"
    "total_hits c1 = total_hits c"
    "lm = CLG_KOD \<Longrightarrow> kod_rate c sv > 0"
proof -
  define r where "r = records c ! i"
  obtain d c2 where d: "limit_response_random rnd1 (leak_rate c sv) c = (d, c2)" by fastforce
  obtain k c3 where k: "limit_response_random rnd2 (kod_rate c sv) c2 = (k, c3)" by fastforce
  note f = limit_response_random_fields [of rnd1 "leak_rate c sv" c, unfolded d]
    limit_response_random_fields [of rnd2 "kod_rate c sv" c2, unfolded k]
  obtain flip where flip: "(sv = CLG_NTP \<and> ntp_timeout_rate r \<noteq> INVALID_RATE \<and> ntp_timeout_rate r > rate r sv + RATE_SCALE) = flip"
    by blast
  define d' where "d' = (if flip then \<not> d else d)"
  note eqs = flip [unfolded r_def] d d'_def k r_def
  consider (tok) "tokens_per_hit c sv \<le> tokens r sv" | (leak) "\<not> tokens_per_hit c sv \<le> tokens r sv" "\<not> d'"
    | (kod) "\<not> tokens_per_hit c sv \<le> tokens r sv" "d'" "kod_rate c sv > 0" "\<not> k"
    | (drop) "\<not> tokens_per_hit c sv \<le> tokens r sv" "d'" "kod_rate c sv = 0 \<or> k"
    by blast
  then show thesis
  proof cases
    case tok
    with assms show thesis
      by (intro that [of CLG_PASS "c\<lparr>records := (records c)[i := limited_record c sv CLG_PASS r]\<rparr>"]) (auto simp: CLG_LimitServiceRate_def limited_record_def Let_def r_def)
  next
    case leak
    with assms f show thesis
      by (intro that [of CLG_PASS "c2\<lparr>records := (records c2)[i := r\<lparr>drop_flags := (drop_flags r)(sv := False), tokens := (tokens r)(sv := 0)\<rparr>]\<rparr>"])
        (simp_all add: CLG_LimitServiceRate_def limited_record_def Let_def eqs, (cases flip; auto)?)
  next
    case kod
    with assms f show thesis
      by (intro that [of CLG_KOD "c3\<lparr>records := (records c3)[i := r\<lparr>drop_flags := (drop_flags r)(sv := False)\<rparr>]\<rparr>"])
        (simp_all add: CLG_LimitServiceRate_def limited_record_def Let_def eqs, (cases flip; auto)?)
  next
    case drop
    with assms f show thesis
      by (intro that [of CLG_DROP "(if kod_rate c sv > 0 then c3 else c2)
            \<lparr>records := (records c)[i := r\<lparr>drop_flags := (drop_flags r)(sv := True), drops := (drops r)(sv := drops r sv + 1)\<rparr>],
             total_drops := (total_drops c)(sv := total_drops c sv + 1)\<rparr>"])
        (simp_all add: CLG_LimitServiceRate_def limited_record_def Let_def eqs, (cases flip; auto)?)
  qed
qed

text \<open>A request is logged and then limited, as the servers of the three services do it.\<close>

definition log_and_limit :: "u32 \<Rightarrow> ClientLog \<Rightarrow> CLG_Service \<Rightarrow> IPAddr \<Rightarrow> timespec \<Rightarrow> u32 \<Rightarrow> u32 \<Rightarrow>
    (CLG_Limit \<times> ClientLog) option" where
  "log_and_limit seed c sv ip now rnd1 rnd2 =
     (case CLG_LogServiceAccess seed 22 c sv ip now of
        None \<Rightarrow> None
      | Some (log_index, c) \<Rightarrow>
          if log_index \<ge> 0 then CLG_LimitServiceRate rnd1 rnd2 c sv log_index else Some (CLG_PASS, c))"

lemma limited_record_ip [simp]: "rec_ip (limited_record c sv lm r) = rec_ip r"
  by (simp add: limited_record_def Let_def split: CLG_Limit.splits)

lemma limited_record_last_hit [simp]: "last_hit (limited_record c sv lm r) = last_hit r"
  by (simp add: limited_record_def Let_def split: CLG_Limit.splits)

lemma limited_record_ok: "record_ok c r \<Longrightarrow> record_ok c (limited_record c sv lm r)"
proof -
  assume a: "record_ok c r"
  have "tokens r sv - tokens_per_hit c sv \<le> max_tokens c sv" if "tokens_per_hit c sv \<le> tokens r sv"
    using that a by (auto simp: record_ok_def word_le_nat_alt unat_sub) (meson diff_le_self le_trans)
  then show ?thesis using a by (auto simp: limited_record_def record_ok_def Let_def split: CLG_Limit.splits)
qed

text \<open>The invariant of the log: of an active one the table and the records; an inactive log has no limits.\<close>

definition clg_inv :: "u32 \<Rightarrow> ClientLog \<Rightarrow> bool" where
  "clg_inv seed c \<longleftrightarrow> (if active c then log_inv seed c \<and> (\<forall>i<length (records c). used (records c ! i) \<longrightarrow> record_ok c (records c ! i))
     else \<forall>sv. tokens_per_hit c sv = 0)"

lemma record_ok_cong: "max_tokens c' = max_tokens c \<Longrightarrow> record_ok c' r = record_ok c r"
  by (simp add: record_ok_def)

lemma used_mset: "(\<forall>i<length (records c). used (records c ! i) \<longrightarrow> P (records c ! i)) \<longleftrightarrow> (\<forall>r. r \<in># clients c \<longrightarrow> P r)"
  by (auto simp: clients_def in_set_conv_nth)

lemma log_inv_cong:
  "log_inv seed c \<Longrightarrow> records c' = records c \<Longrightarrow> slots c' = slots c \<Longrightarrow> max_slots c' = max_slots c \<Longrightarrow> active c' = active c \<Longrightarrow>
    log_inv seed c'"
  by (simp add: log_inv_def table_inv_def)

lemma get_record_clg_inv:
  assumes "clg_inv seed c" "active c" "inet_family ip"
  obtains i c' where "get_record seed 22 c ip = Some (Some i, c')" "lookup_result seed c ip i c'" "clg_inv seed c'" "active c'"
proof -
  have l: "log_inv seed c" and ok: "\<forall>r. r \<in># clients c \<longrightarrow> record_ok c r"
    using assms(1,2) used_mset [of c "record_ok c"] by (simp_all add: clg_inv_def)
  from get_record_spec [OF _ assms(3) enough_fuel [OF l]] l obtain i c' where
    g: "get_record seed 22 c ip = Some (Some i, c')" "lookup_result seed c ip i c'" unfolding log_inv_def by blast
  note f = lookup_result_fields [OF g(2)]
  have inv: "table_inv seed c'" using g(2) by (simp add: lookup_result_def)
  have "\<forall>r. r \<in># clients c' \<longrightarrow> record_ok c r"
  proof (cases "ip \<in># image_mset rec_ip (clients c)")
    case True
    with g(2) ok show ?thesis by (auto simp: lookup_result_def)
  next
    case False
    with g(2) have "clients c' = add_mset (new_record c ip) (clients c) \<or>
        (\<exists>old. clients c' = add_mset (new_record c ip) (clients c - {#old#}))"
      by (auto simp: lookup_result_def)
    then show ?thesis using ok new_record_ok [of c ip] by (auto dest!: in_diffD)
  qed
  then have "clg_inv seed c'"
    using inv l f used_mset [of c' "record_ok c'"] record_ok_cong [of c' c] table_size [OF inv] by (simp add: clg_inv_def log_inv_def)
  with g table_size [OF inv] show thesis using that by blast
qed

lemma clg_inv_put:
  assumes "clg_inv seed c" "active c" "i < length (records c)" "inet_family (rec_ip (records c ! i))"
    "rec_ip r = rec_ip (records c ! i)" "record_ok c r"
  shows "clg_inv seed (c\<lparr>records := (records c)[i := r]\<rparr>)"
proof -
  have "log_inv seed (c\<lparr>records := (records c)[i := r]\<rparr>)"
    using clog.set_inv [of seed c i "records c ! i" r] assms by (simp add: clg_inv_def client_entry_def)
  then show ?thesis using assms record_ok_cong [of "c\<lparr>records := (records c)[i := r]\<rparr>" c]
    by (auto simp: clg_inv_def nth_list_update)
qed

lemma clg_inv_cong:
  assumes "clg_inv seed c" "records c' = records c" "slots c' = slots c" "max_slots c' = max_slots c" "active c' = active c"
    "max_tokens c' = max_tokens c" "tokens_per_hit c' = tokens_per_hit c"
  shows "clg_inv seed c'"
  using assms log_inv_cong [of seed c c'] record_ok_cong [of c' c] by (auto simp: clg_inv_def)

lemma CLG_LogServiceAccess_spec:
  assumes inv: "clg_inv seed c"
  obtains (none) c' where "CLG_LogServiceAccess seed 22 c sv ip now = Some (-1, c')" "clg_inv seed c'"
      "total_hits c' = (total_hits c)(sv := total_hits c sv + 1)" "\<not> (active c \<and> inet_family ip)"
  | (client) i c1 c' where "CLG_LogServiceAccess seed 22 c sv ip now = Some (int i, c')" "active c'" "clg_inv seed c'"
      "total_hits c' = (total_hits c)(sv := total_hits c sv + 1)" "i < length (records c')" "rec_ip (records c' ! i) = ip"
      "inet_family ip" "active c"
proof -
  define c0 where "c0 = c\<lparr>total_hits := (total_hits c)(sv := total_hits c sv + 1)\<rparr>"
  have i0: "clg_inv seed c0" by (rule clg_inv_cong [OF inv]) (simp_all add: c0_def)
  show thesis
  proof (cases "active c \<and> inet_family ip")
    case False
    then have "get_record seed 22 c0 ip = Some (None, c0)"
      using get_record.simps(2) [of seed 21 c0 ip] by (simp add: c0_def)
    then show thesis using none [of c0] False i0 by (simp add: CLG_LogServiceAccess_def c0_def Let_def)
  next
    case True
    then have "active c0" by (simp add: c0_def)
    from get_record_clg_inv [OF i0 this] True obtain i c' where g: "get_record seed 22 c0 ip = Some (Some i, c')"
      "lookup_result seed c0 ip i c'" "clg_inv seed c'" "active c'" by blast
    have l: "i < length (records c')" "rec_ip (records c' ! i) = ip" using g(2) by (simp_all add: lookup_result_def)
    let ?r = "update_record c' sv (records c' ! i) now"
    have "record_ok c' (records c' ! i)" using g(3,4) l True inet_used [of "records c' ! i"] by (simp add: clg_inv_def)
    then have "clg_inv seed (c'\<lparr>records := (records c')[i := ?r]\<rparr>)"
      using g(3,4) l True by (intro clg_inv_put update_record_ok) simp_all
    moreover have "total_hits c' = total_hits c0" using g(2) by (rule lookup_result_frame) simp
    moreover have "CLG_LogServiceAccess seed 22 c sv ip now = Some (int i, c'\<lparr>records := (records c')[i := ?r]\<rparr>)"
      using g(1) by (simp add: CLG_LogServiceAccess_def c0_def Let_def)
    ultimately show thesis using client [of i "c'\<lparr>records := (records c')[i := ?r]\<rparr>"] l g(4) True by (simp add: c0_def)
  qed
qed

lemma log_and_limit_total:
  assumes "clg_inv seed c"
  shows "\<exists>lm c'. log_and_limit seed c sv ip now rnd1 rnd2 = Some (lm, c') \<and> clg_inv seed c' \<and>
    total_hits c' = (total_hits c)(sv := total_hits c sv + 1)"
proof (rule CLG_LogServiceAccess_spec [OF assms, of sv ip now])
  fix c'
  assume "CLG_LogServiceAccess seed 22 c sv ip now = Some (-1, c')" "clg_inv seed c'"
    "total_hits c' = (total_hits c)(sv := total_hits c sv + 1)"
  then show ?thesis by (simp add: log_and_limit_def)
next
  fix i c'
  assume a: "CLG_LogServiceAccess seed 22 c sv ip now = Some (int i, c')" "active c'" "clg_inv seed c'"
    "total_hits c' = (total_hits c)(sv := total_hits c sv + 1)" "i < length (records c')" "rec_ip (records c' ! i) = ip" "inet_family ip"
  show ?thesis
  proof (cases "tokens_per_hit c' sv = 0")
    case True
    with a show ?thesis by (simp add: log_and_limit_def CLG_LimitServiceRate_def)
  next
    case False
    from CLG_LimitServiceRate_cases [OF this a(5), of rnd1 rnd2] obtain lm c1 where
      l: "CLG_LimitServiceRate rnd1 rnd2 c' sv (int i) = Some (lm, c1)"
        "records c1 = (records c')[i := limited_record c' sv lm (records c' ! i)]"
        "slots c1 = slots c'" "max_slots c1 = max_slots c'" "active c1 = active c'" "max_tokens c1 = max_tokens c'"
        "tokens_per_hit c1 = tokens_per_hit c'" "total_hits c1 = total_hits c'" by metis
    have "record_ok c' (records c' ! i)" using a inet_used [of "records c' ! i"] by (simp add: clg_inv_def)
    then have "clg_inv seed (c'\<lparr>records := (records c')[i := limited_record c' sv lm (records c' ! i)]\<rparr>)"
      using a by (intro clg_inv_put limited_record_ok) simp_all
    then have "clg_inv seed c1" by (rule clg_inv_cong) (simp_all add: l)
    with a(1,4) l(1,8) show ?thesis by (simp add: log_and_limit_def)
  qed
qed

datatype clg_op =
    Access CLG_Service IPAddr timespec u32 u32
  | LogOnly CLG_Service IPAddr timespec
  | Index IPAddr
  | Report int bool u32 timespec
  | NtpStats bool nat nat

fun clg_step :: "u32 \<Rightarrow> clg_op \<Rightarrow> ClientLog \<Rightarrow> (int \<times> ClientLog) option" where
  "clg_step seed (Access sv ip now rnd1 rnd2) c =
     map_option (\<lambda>(lm, c). (case lm of CLG_PASS \<Rightarrow> 0 | CLG_DROP \<Rightarrow> 1 | CLG_KOD \<Rightarrow> 2, c)) (log_and_limit seed c sv ip now rnd1 rnd2)"
| "clg_step seed (LogOnly sv ip now) c = CLG_LogServiceAccess seed 22 c sv ip now"
| "clg_step seed (Index ip) c = CLG_GetClientIndex seed 22 c ip"
| "clg_step seed (Report i reset min_hits now) c = Some (0, snd (CLG_GetClientAccessReportByIndex c i reset min_hits now))"
| "clg_step seed (NtpStats auth rx tx) c = Some (0, CLG_UpdateNtpStats c auth rx tx)"

fun count_hit :: "clg_op \<Rightarrow> (CLG_Service \<Rightarrow> u64) \<Rightarrow> CLG_Service \<Rightarrow> u64" where
  "count_hit (Access sv _ _ _ _) h = h(sv := h sv + 1)"
| "count_hit (LogOnly sv _ _) h = h(sv := h sv + 1)"
| "count_hit _ h = h"

lemma get_index_total:
  assumes "clg_inv seed c"
  shows "\<exists>i c'. CLG_GetClientIndex seed 22 c ip = Some (i, c') \<and> clg_inv seed c' \<and> total_hits c' = total_hits c"
proof (cases "active c \<and> inet_family ip")
  case False
  then have "get_record seed 22 c ip = Some (None, c)" using get_record.simps(2) [of seed 21 c ip] by simp
  with assms show ?thesis by (simp add: CLG_GetClientIndex_def)
next
  case True
  with get_record_clg_inv [OF assms] obtain i c' where
    g: "get_record seed 22 c ip = Some (Some i, c')" "lookup_result seed c ip i c'" "clg_inv seed c'" by blast
  moreover have "total_hits c' = total_hits c" using g(2) by (rule lookup_result_frame) simp
  ultimately show ?thesis by (simp add: CLG_GetClientIndex_def)
qed

lemma report_inv:
  assumes "clg_inv seed c"
  shows "clg_inv seed (snd (CLG_GetClientAccessReportByIndex c i reset min_hits now)) \<and>
    total_hits (snd (CLG_GetClientAccessReportByIndex c i reset min_hits now)) = total_hits c"
proof (cases "active c \<and> 0 \<le> i \<and> nat i < length (records c) \<and> rec_ip (records c ! nat i) \<noteq> IPADDR_UNSPEC \<and> reset")
  case True
  let ?r = "records c ! nat i"
  have inv: "table_inv seed c" and ok: "record_ok c ?r" using True assms by (auto simp: clg_inv_def log_inv_def used_def)
  have "inet_family (rec_ip ?r)" using table_place [OF inv, of "nat i"] True by (simp add: used_def)
  then have "clg_inv seed (c\<lparr>records := (records c)[nat i := ?r\<lparr>hits := (\<lambda>_. 0), drops := (\<lambda>_. 0)\<rparr>]\<rparr>)"
    using assms True ok by (intro clg_inv_put) (auto simp: record_ok_def)
  with True show ?thesis by (simp add: CLG_GetClientAccessReportByIndex_def Let_def)
next
  case False
  then have "snd (CLG_GetClientAccessReportByIndex c i reset min_hits now) = c"
    by (auto simp: CLG_GetClientAccessReportByIndex_def Let_def)
  with assms show ?thesis by simp
qed

lemma stats_inv:
  assumes "clg_inv seed c"
  shows "clg_inv seed (CLG_UpdateNtpStats c auth rx tx) \<and> total_hits (CLG_UpdateNtpStats c auth rx tx) = total_hits c"
  using clg_inv_cong [OF assms, of "CLG_UpdateNtpStats c auth rx tx"] by (simp add: CLG_UpdateNtpStats_def Let_def)

interpretation clg: op_refinement "clg_step seed" "clg_inv seed" total_hits count_hit for seed
proof
  fix c x
  assume inv: "clg_inv seed c"
  show "\<exists>r c'. clg_step seed x c = Some (r, c') \<and> clg_inv seed c' \<and> total_hits c' = count_hit x (total_hits c)"
  proof (cases x)
    case (Access sv ip now rnd1 rnd2)
    with log_and_limit_total [OF inv, of sv ip now rnd1 rnd2] show ?thesis by auto
  next
    case (LogOnly sv ip now)
    then show ?thesis by (auto intro: CLG_LogServiceAccess_spec [OF inv, of sv ip now])
  next
    case (Index ip)
    with get_index_total [OF inv, of ip] show ?thesis by auto
  next
    case (Report i reset min_hits now)
    with report_inv [OF inv] show ?thesis by simp
  next
    case (NtpStats auth rx tx)
    with stats_inv [OF inv] show ?thesis by simp
  qed
qed

lemma CLG_Initialise_inv:
  assumes "CLG_Initialise seed cfg krate noclientlog limit rnd c = Some c0"
  shows "clg_inv seed c0 \<and> total_hits c0 = total_hits c"
proof (cases noclientlog)
  case True
  have n: "\<not> CLAMP 1 x 4 \<le> 0" for x :: int using CLAMP_bounds [of 1 4 x] by simp
  from assms True have "\<not> fst (cfg sv)" for sv
    by (cases sv) (auto simp: CLG_Initialise_def Let_def n split: if_splits)
  with assms True show ?thesis
    by (auto simp: CLG_Initialise_def Let_def clg_inv_def split: if_splits)
next
  case False
  define c1 where "c1 = c\<lparr>max_tokens := (\<lambda>sv. if fst (cfg sv) then fst (set_bucket_params (fst (snd (cfg sv))) (fst (snd (snd (cfg sv))))) else 0),
      tokens_per_hit := (\<lambda>sv. if fst (cfg sv) then fst (snd (set_bucket_params (fst (snd (cfg sv))) (fst (snd (snd (cfg sv)))))) else 0),
      token_shift := (\<lambda>sv. if fst (cfg sv) then snd (snd (set_bucket_params (fst (snd (cfg sv))) (fst (snd (snd (cfg sv)))))) else 0),
      leak_rate := (\<lambda>sv. if fst (cfg sv) then nat (CLAMP 1 (snd (snd (snd (cfg sv)))) 4) else 0),
      kod_rate := (\<lambda>sv. if fst (cfg sv) then nat (CLAMP 0 krate 4) else 0),
      limit_interval := (\<lambda>sv. if fst (cfg sv) then CLAMP (-15 - TS_FRAC) (fst (snd (cfg sv))) 12 else -15 - TS_FRAC),
      active := True, max_slots := CLAMP MIN_SLOTS (limit div 960 mod 2 ^ 32) MAX_SLOTS, slots := 1\<rparr>"
  have m: "1 \<le> max_slots c1" "max_slots c1 \<le> 2 ^ 21"
    using CLAMP_bounds [of MIN_SLOTS MAX_SLOTS "limit div 960 mod 2 ^ 32"] by (simp_all add: c1_def)
  have "c0 = c1\<lparr>records := replicate (slots c1 * 8) empty_record, ts_offset := rnd mod (1000000000 div 16)\<rparr>"
    using assms False m by (simp add: CLG_Initialise_def Let_def expand_hashtable.simps c1_def split: if_splits)
  moreover have "table_inv seed (c1\<lparr>records := replicate (slots c1 * 8) empty_record\<rparr>)"
    using m by (intro table_inv_empty) (simp_all add: c1_def)
  ultimately show ?thesis using m
    by (auto simp: clg_inv_def log_inv_def table_inv_def used_def empty_record_def c1_def)
qed

text \<open>
  C29.  After the initialisation of the log with any configuration it accepts, every history of
  logged and limited requests, lookups, reports and updates of the statistics runs to the end: no
  assertion fails, and the table is well formed.  Every client has one record, in the slot of its
  address, its tokens are at most the capacity of the bucket, and its rates are in the range of
  8-bit variables.  The total of hits of a service is the number of its requests.
\<close>

theorem clientlog_history:
  assumes "CLG_Initialise seed cfg krate noclientlog limit rnd c = Some c0"
  shows "\<exists>c'. run_ops (clg_step seed) ops c0 = Some c' \<and> clg_inv seed c' \<and>
    total_hits c' = fold count_hit ops (total_hits c)"
  using clg.run_refines [of seed c0 ops] CLG_Initialise_inv [OF assms] by simp

text \<open>A configuration with a limit of the NTP service of one response per 8 seconds and a burst of 8.\<close>

definition ex_cfg :: "CLG_Service \<Rightarrow> bool \<times> int \<times> int \<times> int" where
  "ex_cfg sv = (case sv of CLG_NTP \<Rightarrow> (True, 3, 8, 2) | _ \<Rightarrow> (False, 0, 0, 0))"

definition ex_log :: ClientLog where
  "ex_log = \<lparr>records = [], slots = 0, max_slots = 0, ts_offset = 0, max_tokens = (\<lambda>_. 0), tokens_per_hit = (\<lambda>_. 0),
     token_shift = (\<lambda>_. 0), leak_rate = (\<lambda>_. 0), kod_rate = (\<lambda>_. 0), limit_interval = (\<lambda>_. 0), active = False,
     total_hits = (\<lambda>_. 0), total_drops = (\<lambda>_. 0), total_record_drops = 0, total_ntp_auth_hits = 0,
     total_ntp_rx_timestamps = (\<lambda>_. 0), total_ntp_tx_timestamps = (\<lambda>_. 0), rnd_bits = 0, bits_left = 0\<rparr>"

lemma ex_init:
  obtains c0 where "CLG_Initialise 7 ex_cfg 0 False 524288 99 ex_log = Some c0" "active c0" "clg_inv 7 c0"
    "tokens_per_hit c0 CLG_NTP = 128" "token_shift c0 CLG_NTP = 0" "max_tokens c0 CLG_NTP = 1024"
    "records c0 = replicate 8 empty_record" "slots c0 = 1" "ts_offset c0 = 99"
proof -
  have b: "set_bucket_params 3 8 = (1024, 128, 0)"
    by (simp add: set_bucket_params_def CLAMP_def shift_loop.simps)
  have "\<exists>c0. CLG_Initialise 7 ex_cfg 0 False 524288 99 ex_log = Some c0 \<and> active c0 \<and>
      tokens_per_hit c0 CLG_NTP = 128 \<and> token_shift c0 CLG_NTP = 0 \<and> max_tokens c0 CLG_NTP = 1024 \<and>
      records c0 = replicate 8 empty_record \<and> slots c0 = 1 \<and> ts_offset c0 = 99"
    by (simp add: CLG_Initialise_def Let_def expand_hashtable.simps CLAMP_def ex_cfg_def b)
  then show thesis using that CLG_Initialise_inv by blast
qed

theorem clientlog_history_witness:
  "\<exists>c0 c'. CLG_Initialise 7 ex_cfg 0 False 524288 99 ex_log = Some c0 \<and>
     run_ops (clg_step 7) [Access CLG_NTP (IPADDR_INET4 1) (Timespec 1000 0) 5 5] c0 = Some c' \<and>
     clg_inv 7 c' \<and> total_hits c' CLG_NTP = 1"
proof (rule ex_init)
  fix c0
  assume i: "CLG_Initialise 7 ex_cfg 0 False 524288 99 ex_log = Some c0"
  from clientlog_history [OF i, of "[Access CLG_NTP (IPADDR_INET4 1) (Timespec 1000 0) 5 5]"] i show ?thesis
    by (auto simp: ex_log_def)
qed

text \<open>
  C7.  A lookup of a client in a well-formed table always returns a record that has the address of
  the client.  A known client is found without any change.  For a new client the table is expanded
  as needed, which keeps every record; a record is discarded, and counted, only when the
  number of slots cannot be doubled any more.
\<close>

theorem client_lookup:
  assumes "log_inv seed c" "inet_family ip"
  shows "\<exists>i c'. get_record seed 22 c ip = Some (Some i, c') \<and> lookup_result seed c ip i c'"
  using get_record_spec [OF _ assms(2) enough_fuel [OF assms(1)]] assms(1) by (simp add: log_inv_def)

theorem client_lookup_witness:
  "\<exists>c i c'. records c = replicate 8 empty_record \<and> get_record 7 22 c (IPADDR_INET4 1) = Some (Some i, c') \<and>
     lookup_result 7 c (IPADDR_INET4 1) i c'"
proof (rule ex_init)
  fix c0
  assume i: "active c0" "clg_inv 7 c0" "records c0 = replicate 8 empty_record"
  then have "log_inv 7 c0" by (simp add: clg_inv_def)
  from client_lookup [OF this, of "IPADDR_INET4 1"] i(3) show ?thesis by (auto simp: inet_family_def)
qed

section \<open>The limit on the rate of responses\<close>

text \<open>
  Requests of one client: each is logged and limited at its time.  The number is that of the
  responses paid with tokens; the others that pass are those allowed at random.
\<close>

fun serve_all :: "u32 \<Rightarrow> CLG_Service \<Rightarrow> IPAddr \<Rightarrow> (timespec \<times> u32 \<times> u32) list \<Rightarrow> ClientLog \<Rightarrow> (nat \<times> ClientLog) option" where
  "serve_all seed sv ip [] c = Some (0, c)"
| "serve_all seed sv ip ((now, rnd1, rnd2) # xs) c =
     (case CLG_LogServiceAccess seed 22 c sv ip now of
        None \<Rightarrow> None
      | Some (i, c1) \<Rightarrow>
          (case CLG_LimitServiceRate rnd1 rnd2 c1 sv i of
             None \<Rightarrow> None
           | Some (lm, c2) \<Rightarrow>
               map_option (\<lambda>(n, c). ((if tokens_per_hit c1 sv \<le> tokens (records c1 ! nat i) sv then 1 else 0) + n, c))
                 (serve_all seed sv ip xs c2)))"

lemma elapsed_trans: "a \<le> b \<Longrightarrow> b \<le> c \<Longrightarrow> elapsed sh a b + elapsed sh b c = elapsed sh a c"
proof -
  assume "a \<le> b" "b \<le> c"
  then have o: "unat a \<le> unat b" "unat b \<le> unat c" by (simp_all add: word_le_nat_alt)
  then have "unat a div 2 ^ nat sh \<le> unat b div 2 ^ nat sh" "unat b div 2 ^ nat sh \<le> unat c div 2 ^ nat sh"
    by (simp_all add: div_le_mono)
  with o show ?thesis by (simp add: elapsed_def add_mult_distrib [symmetric])
qed

lemma CLG_LogServiceAccess_known:
  assumes "clg_inv seed c" "active c" "i < length (records c)" "inet_family (rec_ip (records c ! i))"
  obtains c1 where "CLG_LogServiceAccess seed 22 c sv (rec_ip (records c ! i)) now = Some (int i, c1)"
    "records c1 = (records c)[i := update_record c sv (records c ! i) now]" "clg_inv seed c1" "active c1"
    "max_tokens c1 = max_tokens c" "tokens_per_hit c1 = tokens_per_hit c" "token_shift c1 = token_shift c" "ts_offset c1 = ts_offset c"
proof -
  define c0 where "c0 = c\<lparr>total_hits := (total_hits c)(sv := total_hits c sv + 1)\<rparr>"
  define c1 where "c1 = c0\<lparr>records := (records c)[i := update_record c sv (records c ! i) now]\<rparr>"
  have i0: "clg_inv seed c0" by (rule clg_inv_cong [OF assms(1)]) (simp_all add: c0_def)
  have g: "get_record seed 22 c0 (rec_ip (records c ! i)) = Some (Some i, c0)"
    using get_record_known [of seed c0 i] i0 assms(2-4) by (simp add: clg_inv_def c0_def)
  have f: "ts_offset c0 = ts_offset c" "token_shift c0 = token_shift c" "max_tokens c0 = max_tokens c"
    by (simp_all add: c0_def)
  have u: "update_record c0 sv (records c ! i) now = update_record c sv (records c ! i) now"
    unfolding update_record_def get_ts_from_timespec_def by (simp only: f)
  have "record_ok c (records c ! i)" using assms inet_used [OF assms(4)] by (auto simp: clg_inv_def)
  from update_record_ok [OF this, of sv now] have "clg_inv seed c1"
    using clg_inv_put [OF i0, of i "update_record c sv (records c ! i) now"] assms record_ok_cong [of c0 c]
    by (simp add: c1_def c0_def)
  then show thesis using that [of c1] g u assms(2)
    by (simp add: CLG_LogServiceAccess_def Let_def c0_def c1_def)
qed

lemma tokens_limited:
  "tokens (limited_record c sv lm r) sv \<le> tokens r sv"
  "tokens_per_hit c sv \<le> tokens r sv \<Longrightarrow> lm = CLG_PASS \<Longrightarrow>
     unat (tokens (limited_record c sv lm r) sv) + unat (tokens_per_hit c sv) = unat (tokens r sv)"
  by (auto simp: limited_record_def Let_def word_le_nat_alt unat_sub split: CLG_Limit.splits)

lemma serve_one:
  assumes "clg_inv seed c" "active c" "i < length (records c)" "inet_family (rec_ip (records c ! i))"
    "tokens_per_hit c sv \<noteq> 0" "-15 \<le> token_shift c sv"
    and t: "last_hit (records c ! i) sv \<noteq> 0" "last_hit (records c ! i) sv \<le> get_ts_from_timespec c now"
      "unat (get_ts_from_timespec c now) - unat (last_hit (records c ! i) sv) < 2 ^ 31"
  obtains c1 lm c2 where
    "CLG_LogServiceAccess seed 22 c sv (rec_ip (records c ! i)) now = Some (int i, c1)"
    "CLG_LimitServiceRate rnd1 rnd2 c1 sv (int i) = Some (lm, c2)" "clg_inv seed c2" "active c2"
    "i < length (records c2)" "rec_ip (records c2 ! i) = rec_ip (records c ! i)"
    "last_hit (records c2 ! i) sv = get_ts_from_timespec c now"
    "tokens_per_hit c1 sv = tokens_per_hit c sv" "tokens_per_hit c2 sv = tokens_per_hit c sv"
    "token_shift c2 sv = token_shift c sv" "ts_offset c2 = ts_offset c"
    "(if tokens_per_hit c sv \<le> tokens (records c1 ! i) sv then unat (tokens_per_hit c sv) else 0) + unat (tokens (records c2 ! i) sv)
      \<le> unat (tokens (records c ! i) sv) + elapsed (token_shift c sv) (last_hit (records c ! i) sv) (get_ts_from_timespec c now)"
proof -
  let ?r = "records c ! i"
  from CLG_LogServiceAccess_known [OF assms(1-4), of sv now] obtain c1 where
    l: "CLG_LogServiceAccess seed 22 c sv (rec_ip ?r) now = Some (int i, c1)"
      "records c1 = (records c)[i := update_record c sv ?r now]" "clg_inv seed c1" "active c1"
      "max_tokens c1 = max_tokens c" "tokens_per_hit c1 = tokens_per_hit c" "token_shift c1 = token_shift c" "ts_offset c1 = ts_offset c" .
  have r1: "records c1 ! i = update_record c sv ?r now" "i < length (records c1)" using l(2) assms(3) by simp_all
  have n: "tokens_per_hit c1 sv \<noteq> 0" using l(6) assms(5) by simp
  from CLG_LimitServiceRate_cases [OF n r1(2), of rnd1 rnd2] obtain lm c2 where
    s: "CLG_LimitServiceRate rnd1 rnd2 c1 sv (int i) = Some (lm, c2)"
      "records c2 = (records c1)[i := limited_record c1 sv lm (records c1 ! i)]"
      "tokens_per_hit c1 sv \<le> tokens (records c1 ! i) sv \<longrightarrow> lm = CLG_PASS"
      "slots c2 = slots c1" "max_slots c2 = max_slots c1" "active c2 = active c1" "max_tokens c2 = max_tokens c1"
      "tokens_per_hit c2 = tokens_per_hit c1" "token_shift c2 = token_shift c1" "ts_offset c2 = ts_offset c1"
    by metis
  have r2: "records c2 ! i = limited_record c1 sv lm (update_record c sv ?r now)" using s(2) r1 by simp
  have "used (records c1 ! i)" by (rule inet_used) (simp add: r1 assms(4))
  then have ok: "record_ok c1 (records c1 ! i)" using l(3,4) r1(2) by (simp add: clg_inv_def)
  have inv: "clg_inv seed c2"
  proof (rule clg_inv_cong [OF clg_inv_put [OF l(3,4) r1(2) _ _ limited_record_ok [OF ok]]])
    show "records c2 = records (c1\<lparr>records := (records c1)[i := limited_record c1 sv lm (records c1 ! i)]\<rparr>)"
      using s(2) by simp
  qed (use s r1 assms(4) in simp_all)
  have "0 \<le> sint (get_ts_from_timespec c now - last_hit ?r sv)"
    using t(3) unat_diff_le [OF t(2)] by (simp add: sint_u32_nonneg)
  from update_record_tokens [OF t(1,2) this assms(6)]
  have tok: "unat (tokens (records c1 ! i) sv) \<le> unat (tokens ?r sv) + elapsed (token_shift c sv) (last_hit ?r sv) (get_ts_from_timespec c now)"
    using r1(1) by simp
  have "(if tokens_per_hit c sv \<le> tokens (records c1 ! i) sv then unat (tokens_per_hit c sv) else 0) + unat (tokens (records c2 ! i) sv)
      \<le> unat (tokens (records c1 ! i) sv)"
    using tokens_limited [where c = c1 and sv = sv and lm = lm and r = "records c1 ! i"] s(3) r1 r2 l(6) by (auto simp: word_le_nat_alt)
  with tok have "(if tokens_per_hit c sv \<le> tokens (records c1 ! i) sv then unat (tokens_per_hit c sv) else 0) + unat (tokens (records c2 ! i) sv)
      \<le> unat (tokens ?r sv) + elapsed (token_shift c sv) (last_hit ?r sv) (get_ts_from_timespec c now)"
    by linarith
  with l s inv r1 r2 assms(3) show thesis using that [of c1 lm c2] by (simp add: update_record_last_hit)
qed

lemma serve_all_bound:
  assumes "clg_inv seed c" "active c" "i < length (records c)" "inet_family (rec_ip (records c ! i))"
    "tokens_per_hit c sv \<noteq> 0" "-15 \<le> token_shift c sv" "last_hit (records c ! i) sv \<noteq> 0"
    and "sorted (last_hit (records c ! i) sv # map (\<lambda>x. get_ts_from_timespec c (fst x)) xs)"
    and "\<forall>x\<in>set xs. unat (get_ts_from_timespec c (fst x)) - unat (last_hit (records c ! i) sv) < 2 ^ 31"
  shows "\<exists>n c'. serve_all seed sv (rec_ip (records c ! i)) xs c = Some (n, c') \<and>
    n * unat (tokens_per_hit c sv) \<le> unat (tokens (records c ! i) sv) +
      elapsed (token_shift c sv) (last_hit (records c ! i) sv)
        (last (last_hit (records c ! i) sv # map (\<lambda>x. get_ts_from_timespec c (fst x)) xs))"
  using assms
proof (induction xs arbitrary: c)
  case Nil
  then show ?case by simp
next
  case (Cons x xs)
  obtain now rnd1 rnd2 where x: "x = (now, rnd1, rnd2)" by (cases x) auto
  let ?t0 = "last_hit (records c ! i) sv" and ?t1 = "get_ts_from_timespec c now"
  have t: "?t0 \<le> ?t1" "unat ?t1 - unat ?t0 < 2 ^ 31" using Cons.prems(8,9) by (simp_all add: x)
  obtain c1 lm c2 where
    s: "CLG_LogServiceAccess seed 22 c sv (rec_ip (records c ! i)) now = Some (int i, c1)"
      "CLG_LimitServiceRate rnd1 rnd2 c1 sv (int i) = Some (lm, c2)" "clg_inv seed c2" "active c2"
      "i < length (records c2)" "rec_ip (records c2 ! i) = rec_ip (records c ! i)" "last_hit (records c2 ! i) sv = ?t1"
      "tokens_per_hit c1 sv = tokens_per_hit c sv" "tokens_per_hit c2 sv = tokens_per_hit c sv"
      "token_shift c2 sv = token_shift c sv" "ts_offset c2 = ts_offset c"
    and b: "(if tokens_per_hit c sv \<le> tokens (records c1 ! i) sv then unat (tokens_per_hit c sv) else 0) + unat (tokens (records c2 ! i) sv)
      \<le> unat (tokens (records c ! i) sv) + elapsed (token_shift c sv) ?t0 ?t1"
    using serve_one [OF Cons.prems(1-7) t, of rnd1 rnd2] by metis
  have g: "get_ts_from_timespec c2 = get_ts_from_timespec c" using s(11) by (simp add: get_ts_from_timespec_def fun_eq_iff)
  have nz: "?t1 \<noteq> 0" using t(1) Cons.prems(7) by (auto simp: word_le_nat_alt unat_eq_zero)
  have "\<forall>x\<in>set xs. unat (get_ts_from_timespec c (fst x)) - unat ?t1 < 2 ^ 31"
    using Cons.prems(9) t(1) by (auto simp: word_le_nat_alt)
  moreover have so: "sorted (?t1 # map (\<lambda>x. get_ts_from_timespec c (fst x)) xs)"
    using Cons.prems(8) by (simp add: x)
  ultimately obtain n c' where n: "serve_all seed sv (rec_ip (records c ! i)) xs c2 = Some (n, c')"
    "n * unat (tokens_per_hit c sv) \<le> unat (tokens (records c2 ! i) sv) +
      elapsed (token_shift c sv) ?t1 (last (?t1 # map (\<lambda>x. get_ts_from_timespec c (fst x)) xs))"
    using Cons.IH [OF s(3,4,5)] s Cons.prems(4-6) g nz by auto
  have "?t1 \<le> last (?t1 # map (\<lambda>x. get_ts_from_timespec c (fst x)) xs)"
    using so by (cases "xs = []") (auto simp: last_map)
  from elapsed_trans [OF t(1) this, of "token_shift c sv"]
  have e: "elapsed (token_shift c sv) ?t0 ?t1 + elapsed (token_shift c sv) ?t1 (last (?t1 # map (\<lambda>x. get_ts_from_timespec c (fst x)) xs)) =
      elapsed (token_shift c sv) ?t0 (last (?t0 # map (\<lambda>x. get_ts_from_timespec c (fst x)) (x # xs)))"
    by (simp add: x)
  let ?k = "(if tokens_per_hit c sv \<le> tokens (records c1 ! i) sv then 1 else 0) + n"
  have "serve_all seed sv (rec_ip (records c ! i)) (x # xs) c = Some (?k, c')"
    using s(1,2,8) n(1) by (simp add: x)
  moreover have "?k * unat (tokens_per_hit c sv) \<le> unat (tokens (records c ! i) sv) +
      elapsed (token_shift c sv) ?t0 (last (?t0 # map (\<lambda>x. get_ts_from_timespec c (fst x)) (x # xs)))"
    using b n(2) unfolding e [symmetric] by (auto simp: add_mult_distrib split: if_splits)
  ultimately show ?case by blast
qed

text \<open>
  C1.  The limit of a service is enforced for every client: of any sequence of requests that a
  known client sends at non-decreasing times (which do not span half of the range of the 32-bit
  times), the responses paid with tokens cost at most the tokens the client had plus the
  tokens that correspond to the elapsed time, whatever the random numbers are.
\<close>

theorem rate_limit_bound:
  assumes "clg_inv seed c" "active c" "i < length (records c)" "inet_family (rec_ip (records c ! i))"
    "tokens_per_hit c sv \<noteq> 0" "-15 \<le> token_shift c sv" "last_hit (records c ! i) sv \<noteq> 0"
    and "sorted (last_hit (records c ! i) sv # map (\<lambda>x. get_ts_from_timespec c (fst x)) xs)"
    and "\<forall>x\<in>set xs. unat (get_ts_from_timespec c (fst x)) - unat (last_hit (records c ! i) sv) < 2 ^ 31"
  shows "\<exists>n c'. serve_all seed sv (rec_ip (records c ! i)) xs c = Some (n, c') \<and>
    n * unat (tokens_per_hit c sv) \<le> unat (tokens (records c ! i) sv) +
      elapsed (token_shift c sv) (last_hit (records c ! i) sv)
        (last (last_hit (records c ! i) sv # map (\<lambda>x. get_ts_from_timespec c (fst x)) xs))"
  using serve_all_bound [OF assms] .

definition ex_one :: ClientLog where
  "ex_one = (let c = ex_log\<lparr>active := True, slots := 1, max_slots := 1, max_tokens := (\<lambda>_. 1024), tokens_per_hit := (\<lambda>_. 128)\<rparr> in
     c\<lparr>records := (new_record c (IPADDR_INET4 1))\<lparr>last_hit := (\<lambda>_. 16)\<rparr> # replicate 7 empty_record\<rparr>)"

lemma ex_one_inv: "clg_inv seed ex_one"
proof -
  have "used (records ex_one ! i) \<longleftrightarrow> i = 0" if "i < 8" for i
    using that by (cases i) (simp_all add: ex_one_def used_def new_record_def empty_record_def Let_def)
  moreover have "records ex_one ! 0 = (new_record ex_one (IPADDR_INET4 1))\<lparr>last_hit := (\<lambda>_. 16)\<rparr>" "length (records ex_one) = 8"
    by (simp_all add: ex_one_def Let_def new_record_def)
  moreover have "i = 0" if "IPADDR_INET4 1 = rec_ip (records ex_one ! i)" "i < 8" for i
    using that by (cases i) (simp_all add: ex_one_def empty_record_def Let_def)
  moreover have "slots ex_one = 1" "max_slots ex_one = 1" "active ex_one" by (simp_all add: ex_one_def Let_def)
  ultimately show ?thesis
    by (auto simp: clg_inv_def log_inv_def table_inv_def record_ok_def rate_ok_def slot_of_def new_record_def inet_family_def used_def)
qed

theorem rate_limit_bound_witness:
  "\<exists>n c'. serve_all 7 CLG_NTP (IPADDR_INET4 1) [(Timespec 2 0, 5, 5), (Timespec 9 0, 5, 5)] ex_one = Some (n, c') \<and>
     n * 128 \<le> 1024 + elapsed 0 16 144"
proof -
  have g: "get_ts_from_timespec ex_one (Timespec 2 0) = 32" "get_ts_from_timespec ex_one (Timespec 9 0) = 144"
    by (simp_all add: get_ts_from_timespec_def ex_one_def ex_log_def Let_def)
  have f: "tokens_per_hit ex_one CLG_NTP = 128" "token_shift ex_one CLG_NTP = 0" "active ex_one" "length (records ex_one) = 8"
    "rec_ip (records ex_one ! 0) = IPADDR_INET4 1" "last_hit (records ex_one ! 0) CLG_NTP = 16" "tokens (records ex_one ! 0) CLG_NTP = 1024"
    by (simp_all add: ex_one_def ex_log_def Let_def new_record_def)
  show ?thesis
    using rate_limit_bound [OF ex_one_inv, of 0 CLG_NTP "[(Timespec 2 0, 5, 5), (Timespec 9 0, 5, 5)]" 7]
    by (simp add: f g inet_family_def)
qed

text \<open>
  A limited request is always decided.  It passes when the bucket has the tokens of a
  response; an asking to reduce the rate is possible only with a kod rate, and only a drop is
  counted.  Only the record of the client is changed, by the effect of the decision.
\<close>

theorem limit_decision:
  assumes "tokens_per_hit c sv \<noteq> 0" "i < length (records c)"
  shows "\<exists>lm c1. CLG_LimitServiceRate rnd1 rnd2 c sv (int i) = Some (lm, c1) \<and>
    records c1 = (records c)[i := limited_record c sv lm (records c ! i)] \<and>
    (tokens_per_hit c sv \<le> tokens (records c ! i) sv \<longrightarrow> lm = CLG_PASS) \<and> (lm = CLG_KOD \<longrightarrow> kod_rate c sv > 0) \<and>
    total_drops c1 = (if lm = CLG_DROP then (total_drops c)(sv := total_drops c sv + 1) else total_drops c)"
  using CLG_LimitServiceRate_cases [OF assms, of rnd1 rnd2] by metis

theorem limit_decision_witness:
  "\<exists>lm c1. CLG_LimitServiceRate 5 5 ex_one CLG_NTP 0 = Some (lm, c1) \<and> lm = CLG_PASS \<and>
     tokens (records c1 ! 0) CLG_NTP = 896"
proof -
  have f: "tokens_per_hit ex_one CLG_NTP = 128" "length (records ex_one) = 8" "tokens (records ex_one ! 0) CLG_NTP = 1024"
    by (simp_all add: ex_one_def ex_log_def Let_def new_record_def)
  from limit_decision [of ex_one CLG_NTP 0 5 5] obtain lm c1 where
    "CLG_LimitServiceRate 5 5 ex_one CLG_NTP 0 = Some (lm, c1)" "lm = CLG_PASS"
    "records c1 = (records ex_one)[0 := limited_record ex_one CLG_NTP lm (records ex_one ! 0)]"
    by (auto simp: f)
  then show ?thesis using f by (simp add: limited_record_def Let_def)
qed

end
