(* ===== verification/Regress.thy ===== *)
theory Regress
  imports Prelude "HOL-Library.Multiset"
begin

text \<open>
  The regressions of \<open>regress.c\<close>: weighted linear regression with the test of runs of the residuals,
  and the median by a partial quicksort.  An array is the list of its elements; \<open>None\<close> is a failed
  assertion or an access out of the arrays.  A sum of a loop is a \<open>sum_list\<close> in the order of
  the loop.  Over the reals a division by zero is zero; the theorems have hypotheses that exclude it.
\<close>

abbreviation (input) MAX_POINTS :: nat where "MAX_POINTS \<equiv> 64"
abbreviation (input) REGRESS_RUNS_RATIO :: nat where "REGRESS_RUNS_RATIO \<equiv> 2"
abbreviation (input) MIN_SAMPLES_FOR_REGRESS :: nat where "MIN_SAMPLES_FOR_REGRESS \<equiv> 3"

section \<open>Weighted regression\<close>

record Regression =
  b0 :: real
  b1 :: real
  s2 :: real
  sb0 :: real
  sb1 :: real

definition RGR_WeightedRegression :: "real list \<Rightarrow> real list \<Rightarrow> real list \<Rightarrow> nat \<Rightarrow> Regression option" where
  "RGR_WeightedRegression x y w n =
     (if n < 3 \<or> length x < n \<or> length y < n \<or> length w < n then None
      else
        let U = (\<Sum>i\<leftarrow>[0..<n]. x ! i / w ! i);
            W = (\<Sum>i\<leftarrow>[0..<n]. 1 / w ! i);
            u = U / W;
            P = (\<Sum>i\<leftarrow>[0..<n]. y ! i / w ! i);
            Q = (\<Sum>i\<leftarrow>[0..<n]. y ! i * (x ! i - u) / w ! i);
            V = (\<Sum>i\<leftarrow>[0..<n]. (x ! i - u) * (x ! i - u) / w ! i);
            slope = Q / V;
            intercept = P / W - slope * u;
            ss = (\<Sum>i\<leftarrow>[0..<n]. (y ! i - intercept - slope * x ! i) * (y ! i - intercept - slope * x ! i) / w ! i) / (real n - 2);
            sd = sqrt (ss / V) in
        Some \<lparr>b0 = intercept, b1 = slope, s2 = ss * (real n / W), sb0 = sqrt (ss / W + (u * sd) * (u * sd)), sb1 = sd\<rparr>)"

text \<open>The tables; a degree below one is an access out of the table.\<close>

definition t_coefs :: "real list" where
  "t_coefs = [636.6, 31.6, 12.92, 8.61, 6.869, 5.959, 5.408, 5.041, 4.781, 4.587,
     4.437, 4.318, 4.221, 4.140, 4.073, 4.015, 3.965, 3.922, 3.883, 3.850,
     3.819, 3.792, 3.768, 3.745, 3.725, 3.707, 3.690, 3.674, 3.659, 3.646,
     3.633, 3.622, 3.611, 3.601, 3.591, 3.582, 3.574, 3.566, 3.558, 3.551]"

definition RGR_GetTCoef :: "int \<Rightarrow> real option" where
  "RGR_GetTCoef dof = (if dof \<le> 40 then if dof < 1 then None else Some (t_coefs ! nat (dof - 1)) else Some 3.5)"

definition chi2_coefs :: "real list" where
  "chi2_coefs = [2.706, 4.605, 6.251, 7.779, 9.236, 10.645, 12.017, 13.362,
     14.684, 15.987, 17.275, 18.549, 19.812, 21.064, 22.307, 23.542,
     24.769, 25.989, 27.204, 28.412, 29.615, 30.813, 32.007, 33.196,
     34.382, 35.563, 36.741, 37.916, 39.087, 40.256, 41.422, 42.585,
     43.745, 44.903, 46.059, 47.212, 48.363, 49.513, 50.660, 51.805,
     52.949, 54.090, 55.230, 56.369, 57.505, 58.641, 59.774, 60.907,
     62.038, 63.167, 64.295, 65.422, 66.548, 67.673, 68.796, 69.919,
     71.040, 72.160, 73.279, 74.397, 75.514, 76.630, 77.745, 78.860]"

definition RGR_GetChi2Coef :: "int \<Rightarrow> real option" where
  "RGR_GetChi2Coef dof = (if dof \<le> 64 then if dof < 1 then None else Some (chi2_coefs ! nat (dof - 1)) else Some (1.2 * of_int dof))"

definition critical_runs :: "nat list" where
  "critical_runs = [
     0, 0, 0, 0, 0, 0, 0, 0, 2, 3,
     3, 3, 4, 4, 5, 5, 5, 6, 6, 7,
     7, 7, 8, 8, 9, 9, 9, 10, 10, 11,
     11, 11, 12, 12, 13, 13, 14, 14, 14, 15,
     15, 16, 16, 17, 17, 18, 18, 18, 19, 19,
     20, 20, 21, 21, 21, 22, 22, 23, 23, 24,
     24, 25, 25, 26, 26, 26, 27, 27, 28, 28,
     29, 29, 30, 30, 30, 31, 31, 32, 32, 33,
     33, 34, 34, 35, 35, 35, 36, 36, 37, 37,
     38, 38, 39, 39, 40, 40, 40, 41, 41, 42,
     42, 43, 43, 44, 44, 45, 45, 46, 46, 46,
     47, 47, 48, 48, 49, 49, 50, 50, 51, 51,
     52, 52, 52, 53, 53, 54, 54, 55, 55, 56]"

fun n_runs_from_residuals :: "real list \<Rightarrow> nat" where
  "n_runs_from_residuals (r # s # rs) =
     (if r < 0 \<and> s < 0 \<or> r > 0 \<and> s > 0 then 0 else 1) + n_runs_from_residuals (s # rs)"
| "n_runs_from_residuals _ = 1"

section \<open>The best regression\<close>

text \<open>
  The arrays \<open>x\<close> and \<open>y\<close> begin with the \<open>m\<close> extra samples, which the code reads at negative indices;
  the weights have no extra samples.
\<close>

record BestRegression = Regression +
  new_start :: nat
  n_runs :: nat
  dof :: int

definition slope_of :: "real list \<Rightarrow> real list \<Rightarrow> real list \<Rightarrow> nat \<Rightarrow> nat \<Rightarrow> nat \<Rightarrow> real \<times> real \<times> real \<times> real \<times> real" where
  "slope_of x y w n m start =
     (let U = (\<Sum>i\<leftarrow>[start..<n]. x ! (m + i) / w ! i);
          W = (\<Sum>i\<leftarrow>[start..<n]. 1 / w ! i);
          u = U / W;
          P = (\<Sum>i\<leftarrow>[start..<n]. y ! (m + i) / w ! i);
          Q = (\<Sum>i\<leftarrow>[start..<n]. y ! (m + i) * (x ! (m + i) - u) / w ! i);
          V = (\<Sum>i\<leftarrow>[start..<n]. (x ! (m + i) - u) * (x ! (m + i) - u) / w ! i);
          b = Q / V in
      (P / W - b * u, b, u, V, W))"

definition resid_start :: "nat \<Rightarrow> nat \<Rightarrow> nat \<Rightarrow> int" where
  "resid_start n m start =
     (let rs = int n - (int n - int start) * int REGRESS_RUNS_RATIO in if rs < - int m then - int m else rs)"

definition residuals :: "real list \<Rightarrow> real list \<Rightarrow> nat \<Rightarrow> nat \<Rightarrow> int \<Rightarrow> real \<Rightarrow> real \<Rightarrow> real list" where
  "residuals x y n m first a b = map (\<lambda>j. y ! j - a - b * x ! j) [nat (int m + first)..<m + n]"

function start_loop :: "real list \<Rightarrow> real list \<Rightarrow> real list \<Rightarrow> nat \<Rightarrow> nat \<Rightarrow> nat \<Rightarrow> nat \<Rightarrow> (nat \<times> nat) option" where
  "start_loop x y w n m min_samples start =
     (case slope_of x y w n m start of (a, b, _) \<Rightarrow>
        let rs = resid_start n m start;
            resid = residuals x y n m rs a b;
            nruns = n_runs_from_residuals resid in
        if \<not> nat (int n - rs) < length critical_runs then None
        else if nruns > critical_runs ! nat (int n - rs) \<or> n - start \<le> MIN_SAMPLES_FOR_REGRESS \<or> n - start \<le> min_samples
        then Some (start, if int start \<noteq> rs then n_runs_from_residuals (drop (nat (int start - rs)) resid) else nruns)
        else start_loop x y w n m min_samples (start + 1))"
  by pat_completeness auto
termination
  by (relation "measure (\<lambda>(x, y, w, n, m, k, start). n - start)") auto

declare start_loop.simps [simp del]

definition RGR_FindBestRegression :: "real list \<Rightarrow> real list \<Rightarrow> real list \<Rightarrow> nat \<Rightarrow> nat \<Rightarrow> nat \<Rightarrow> BestRegression option option" where
  "RGR_FindBestRegression x y w n m min_samples =
     (if \<not> n \<le> MAX_POINTS \<or> \<not> n * REGRESS_RUNS_RATIO < length critical_runs then None
      else if n < MIN_SAMPLES_FOR_REGRESS then Some None
      else if length x < m + n \<or> length y < m + n \<or> length w < n then None
      else case start_loop x y w n m min_samples 0 of
          None \<Rightarrow> None
        | Some (start, nruns) \<Rightarrow>
            (case slope_of x y w n m start of (a, b, u, V, W) \<Rightarrow>
               let ss = (\<Sum>i\<leftarrow>[start..<n]. (y ! (m + i) - a - b * x ! (m + i)) * (y ! (m + i) - a - b * x ! (m + i)) / w ! i);
                   npoints = n - start;
                   ss = ss / (real npoints - 2);
                   sd = sqrt (ss / V) in
               Some (Some \<lparr>b0 = a, b1 = b, s2 = ss * real npoints / W, sb0 = sqrt (ss / W + (u * sd) * (u * sd)), sb1 = sd,
                           new_start = start, n_runs = nruns, dof = int npoints - 2\<rparr>)))"

section \<open>The median\<close>

definition EXCH :: "'a list \<Rightarrow> nat \<Rightarrow> nat \<Rightarrow> 'a list" where
  "EXCH x i j = x[i := x ! j, j := x ! i]"

text \<open>The two loops that move the ends of the range, and the loop that exchanges the elements at them.\<close>

function scan_up :: "real list \<Rightarrow> nat \<Rightarrow> real \<Rightarrow> nat \<Rightarrow> nat" where
  "scan_up x v piv l = (if l < v \<and> x ! l < piv then scan_up x v piv (l + 1) else l)"
  by pat_completeness auto
termination
  by (relation "measure (\<lambda>(x, v, piv, l). v - l)") auto

fun scan_down :: "real list \<Rightarrow> real \<Rightarrow> nat \<Rightarrow> nat" where
  "scan_down x piv r = (if r > 0 \<and> x ! r > piv then scan_down x piv (r - 1) else r)"

declare scan_up.simps [simp del] scan_down.simps [simp del]

lemma scan_up_ge: "l \<le> scan_up x v piv l"
  by (induction x v piv l rule: scan_up.induct) (subst scan_up.simps, auto)

lemma scan_down_le: "scan_down x piv r \<le> r"
  by (induction x piv r rule: scan_down.induct) (subst scan_down.simps, auto)

function partition_loop :: "real list \<Rightarrow> nat \<Rightarrow> real \<Rightarrow> nat \<Rightarrow> nat \<Rightarrow> real list \<times> nat \<times> nat" where
  "partition_loop x v piv l r =
     (let l = scan_up x v piv l; r = scan_down x piv r in
      if r \<le> l then (x, l, r) else partition_loop (EXCH x l r) v piv (l + 1) (r - 1))"
  by pat_completeness auto
termination
proof (relation "measure (\<lambda>(x, v, piv, l, r). r - l)", simp)
  fix x v piv l r la ra
  assume "la = scan_up x v piv l" "ra = scan_down x piv r" "\<not> ra \<le> la"
  moreover have "l \<le> scan_up x v piv l" "scan_down x piv r \<le> r" by (rule scan_up_ge, rule scan_down_le)
  ultimately show "((EXCH x la ra, v, piv, la + 1, ra - 1), (x, v, piv, l, r)) \<in> measure (\<lambda>(x, v, piv, l, r). r - l)" by simp
qed

declare partition_loop.simps [simp del]

lemma partition_loop_ends: "partition_loop x v piv l r = (x', l', r') \<Longrightarrow> l \<le> l' \<and> r' \<le> r"
proof (induction x v piv l r rule: partition_loop.induct)
  case (1 x v piv l r)
  have "l \<le> scan_up x v piv l" "scan_down x piv r \<le> r" by (rule scan_up_ge, rule scan_down_le)
  with 1 show ?case by (subst (asm) (2) partition_loop.simps) (fastforce simp: Let_def split: if_splits)
qed

text \<open>The outer loop on the range from \<open>u\<close> to \<open>v\<close> with the position \<open>index\<close> in it.\<close>

function select_loop :: "real list \<Rightarrow> bool list \<Rightarrow> nat \<Rightarrow> nat \<Rightarrow> nat \<Rightarrow> real \<times> real list \<times> bool list" where
  "select_loop x flags index u v =
     (if v < u + 2 then
        let x = (if x ! v < x ! u then EXCH x v u else x) in (x ! index, x, flags[v := True, u := True])
      else
        let x = EXCH x u ((u + v) div 2); piv = x ! u in
        case partition_loop x v piv (u + 1) v of (x, l, r) \<Rightarrow>
          let x = EXCH x u r; flags = flags[r := True] in
          if index = r then (x ! r, x, flags)
          else if index < r then select_loop x flags index u (r - 1)
          else select_loop x flags index l v)"
  by pat_completeness auto
termination
proof (relation "measure (\<lambda>(x, flags, index, u, v). v - u)", simp, goal_cases)
  case (1 x flags index u v)
  then show ?case by (auto dest!: partition_loop_ends [OF sym])
next
  case (2 x flags index u v)
  then show ?case by (auto dest!: partition_loop_ends [OF sym])
qed

declare select_loop.simps [simp del]

fun range_start :: "bool list \<Rightarrow> nat \<Rightarrow> nat" where
  "range_start flags u = (if u > 0 \<and> \<not> flags ! u then range_start flags (u - 1) else u)"

function range_end :: "bool list \<Rightarrow> nat \<Rightarrow> nat \<Rightarrow> nat" where
  "range_end flags n v = (if v < n - 1 \<and> \<not> flags ! v then range_end flags n (v + 1) else v)"
  by pat_completeness auto
termination
  by (relation "measure (\<lambda>(flags, n, v). n - v)") auto

declare range_start.simps [simp del] range_end.simps [simp del]

definition find_ordered_entry_with_flags ::
    "real list \<Rightarrow> nat \<Rightarrow> nat \<Rightarrow> bool list \<Rightarrow> (real \<times> real list \<times> bool list) option" where
  "find_ordered_entry_with_flags x n index flags =
     (if n > length x \<or> n > length flags \<or> index \<ge> n then None
      else if flags ! index then Some (x ! index, x, flags)
      else
        let u = range_start flags index; u = (if flags ! u then u + 1 else u);
            v = range_end flags n index; v = (if flags ! v then v - 1 else v) in
        Some (select_loop x flags index u v))"

text \<open>
  The median of an even number of values is the mean of the entries \<open>k\<close> and \<open>k - 1\<close>, found by two
  calls that share the array and the flags.  The calls are the operands of one addition, so C does not
  specify their order: \<open>kf\<close> says whether the entry \<open>k\<close> is found first.
\<close>

definition find_median :: "bool \<Rightarrow> real list \<Rightarrow> nat \<Rightarrow> real option" where
  "find_median kf x n =
     (let flags = replicate n False; k = n div 2 in
      if n mod 2 = 1 then map_option fst (find_ordered_entry_with_flags x n k flags)
      else case find_ordered_entry_with_flags x n (if kf then k else k - 1) flags of
          None \<Rightarrow> None
        | Some (e1, x, flags) \<Rightarrow>
            map_option (\<lambda>(e2, _). 0.5 * (e1 + e2)) (find_ordered_entry_with_flags x n (if kf then k - 1 else k) flags))"

definition RGR_FindMedian :: "bool \<Rightarrow> real list \<Rightarrow> nat \<Rightarrow> real option" where
  "RGR_FindMedian kf x n = (if n > 0 \<and> n \<le> MAX_POINTS \<and> n \<le> length x then find_median kf (take n x) n else None)"

section \<open>Robust and multiple regression\<close>

definition eval_robust_residual :: "bool \<Rightarrow> real list \<Rightarrow> real list \<Rightarrow> nat \<Rightarrow> real \<Rightarrow> (real \<times> real) option" where
  "eval_robust_residual kf x y n b =
     (if n > length x \<or> n > length y then None
      else
        let d = map (\<lambda>i. y ! i - b * x ! i) [0..<n] in
        map_option (\<lambda>a. (a, \<Sum>i\<leftarrow>[0..<n]. let del = y ! i - a - b * x ! i in if del > 0 then x ! i else if del < 0 then - (x ! i) else 0))
          (find_median kf d n))"

text \<open>The loop that expands the range of the slope; \<open>Some None\<close> is when it gives up.\<close>

partial_function (option) expand_range ::
    "bool \<Rightarrow> real list \<Rightarrow> real list \<Rightarrow> nat \<Rightarrow> real \<Rightarrow> real \<Rightarrow> (real \<times> real \<times> real \<times> real \<times> real) option option" where
  "expand_range kf x y n b incr =
     (if incr * 2 > 100 then Some None
      else Option.bind (eval_robust_residual kf x y n (b - incr * 2)) (\<lambda>(_, rlo).
        Option.bind (eval_robust_residual kf x y n (b + incr * 2)) (\<lambda>(a, rhi).
          if rlo * rhi \<ge> 0 then expand_range kf x y n b (incr * 2) else Some (Some (b - incr * 2, b + incr * 2, rlo, rhi, a)))))"

text \<open>The bisection; \<open>a\<close> is the intercept of the last evaluation.\<close>

partial_function (option) bisect ::
    "bool \<Rightarrow> real list \<Rightarrow> real list \<Rightarrow> nat \<Rightarrow> real \<Rightarrow> real \<Rightarrow> real \<Rightarrow> real \<Rightarrow> real \<Rightarrow> real \<Rightarrow> (real \<times> real) option" where
  "bisect kf x y n tol a blo bhi rlo rhi =
     (let bmid = 0.5 * (blo + bhi) in
      if \<not> (blo < bmid \<and> bmid < bhi) then Some (a, bmid)
      else Option.bind (eval_robust_residual kf x y n bmid) (\<lambda>(a, rmid).
        if rmid = 0 then Some (a, bmid)
        else if rmid * rlo > 0 then if bhi - bmid > tol then bisect kf x y n tol a bmid bhi rmid rhi else Some (a, bmid)
        else if rmid * rhi > 0 then if bmid - blo > tol then bisect kf x y n tol a blo bmid rlo rmid else Some (a, bmid)
        else None))"

record RobustRegression =
  rob_b0 :: real
  rob_b1 :: real
  rob_n_runs :: nat
  best_start :: nat

text \<open>The loop over the start; \<open>nruns\<close> is the number of runs of the last test.\<close>

partial_function (option) robust_loop :: "bool \<Rightarrow> real list \<Rightarrow> real list \<Rightarrow> nat \<Rightarrow> real \<Rightarrow> nat \<Rightarrow> nat \<Rightarrow> RobustRegression option option" where
  "robust_loop kf x y n tol nruns start =
     (let n_points = n - start;
          my = (\<Sum>i\<leftarrow>[start..<n]. y ! i) / real n_points;
          mx = (\<Sum>i\<leftarrow>[start..<n]. x ! i) / real n_points;
          V = (\<Sum>i\<leftarrow>[start..<n]. (x ! i - mx) * (x ! i - mx));
          b = (\<Sum>i\<leftarrow>[start..<n]. (y ! i - my) * (x ! i - mx)) / V;
          a = my - b * mx;
          ss = (\<Sum>i\<leftarrow>[start..<n]. (y ! i - a - b * x ! i) * (y ! i - a - b * x ! i));
          sb = sqrt (ss * real n_points / V) in
      Option.bind (expand_range kf (drop start x) (drop start y) n_points b (max sb tol)) (\<lambda>res. case res of
          None \<Rightarrow> Some None
        | Some (blo, bhi, rlo, rhi, a) \<Rightarrow>
            Option.bind (bisect kf (drop start x) (drop start y) n_points tol a blo bhi rlo rhi) (\<lambda>(a, bmid).
              if n_points = MIN_SAMPLES_FOR_REGRESS then Some (Some \<lparr>rob_b0 = a, rob_b1 = bmid, rob_n_runs = nruns, best_start = start\<rparr>)
              else
                let nruns = n_runs_from_residuals (map (\<lambda>i. y ! i - a - bmid * x ! i) [start..<n]) in
                if \<not> n_points < length critical_runs then None
                else if nruns > critical_runs ! n_points then Some (Some \<lparr>rob_b0 = a, rob_b1 = bmid, rob_n_runs = nruns, best_start = start\<rparr>)
                else robust_loop kf x y n tol nruns (start + 1))))"

definition RGR_FindBestRobustRegression :: "bool \<Rightarrow> real list \<Rightarrow> real list \<Rightarrow> nat \<Rightarrow> real \<Rightarrow> RobustRegression option option" where
  "RGR_FindBestRobustRegression kf x y n tol =
     (if \<not> n \<le> MAX_POINTS then None
      else if n < 2 then Some None
      else if n > length x \<or> n > length y then None
      else if n = 2 then
        let slope = (y ! 1 - y ! 0) / (x ! 1 - x ! 0) in
        Some (Some \<lparr>rob_b0 = y ! 0 - slope * x ! 0, rob_b1 = slope, rob_n_runs = 0, best_start = 0\<rparr>)
      else robust_loop kf x y n tol 0 0)"

definition RGR_MultipleRegress :: "real list \<Rightarrow> real list \<Rightarrow> real list \<Rightarrow> nat \<Rightarrow> real option option" where
  "RGR_MultipleRegress x1 x2 y n =
     (if n < 4 then Some None
      else if n > length x1 \<or> n > length x2 \<or> n > length y then None
      else
        let S = (\<lambda>f. \<Sum>i\<leftarrow>[0..<n]. f i);
            Sx1 = S (\<lambda>i. x1 ! i); Sx2 = S (\<lambda>i. x2 ! i); Sx1x1 = S (\<lambda>i. x1 ! i * x1 ! i);
            Sx1x2 = S (\<lambda>i. x1 ! i * x2 ! i); Sx2x2 = S (\<lambda>i. x2 ! i * x2 ! i);
            Sx1y = S (\<lambda>i. x1 ! i * y ! i); Sx2y = S (\<lambda>i. x2 ! i * y ! i); Sy = S (\<lambda>i. y ! i);
            U = real n * (Sx1x2 * Sx1y - Sx1x1 * Sx2y) + Sx1 * Sx1 * Sx2y - Sx1 * Sx2 * Sx1y + Sy * (Sx2 * Sx1x1 - Sx1 * Sx1x2);
            V1 = real n * (Sx1x2 * Sx1x2 - Sx1x1 * Sx2x2);
            V2 = Sx1 * Sx1 * Sx2x2 + Sx2 * Sx2 * Sx1x1;
            V3 = -2 * Sx1 * Sx2 * Sx1x2;
            V = V1 + V2 + V3 in
        if \<bar>V\<bar> * 10 ^ 10 \<le> - V1 + V2 + \<bar>V3\<bar> then Some None
        else Some (Some (U / V)))"

section \<open>Least squares\<close>

text \<open>The line through the weighted mean with the weighted slope minimises the weighted sum of squares.\<close>

lemma least_squares:
  fixes X Y q :: "nat \<Rightarrow> real" and I :: "nat set"
  defines "W \<equiv> (\<Sum>i\<in>I. q i)" and "u \<equiv> (\<Sum>i\<in>I. X i * q i) / (\<Sum>i\<in>I. q i)"
  defines "V \<equiv> (\<Sum>i\<in>I. (X i - u) * (X i - u) * q i)"
  defines "b \<equiv> (\<Sum>i\<in>I. Y i * (X i - u) * q i) / V"
  defines "a \<equiv> (\<Sum>i\<in>I. Y i * q i) / W - b * u"
  assumes q: "\<And>i. i \<in> I \<Longrightarrow> 0 \<le> q i" and nz: "W \<noteq> 0" "V \<noteq> 0"
  shows "(\<Sum>i\<in>I. (Y i - a - b * X i) * (Y i - a - b * X i) * q i) \<le> (\<Sum>i\<in>I. (Y i - a' - b' * X i) * (Y i - a' - b' * X i) * q i)"
proof -
  let ?r = "\<lambda>i. Y i - a - b * X i" and ?d = "\<lambda>i. (a - a') + (b - b') * X i"
  have uW: "u * W = (\<Sum>i\<in>I. X i * q i)" using nz(1) by (simp add: u_def W_def)
  have aW: "a * W = (\<Sum>i\<in>I. Y i * q i) - b * (u * W)" using nz(1) by (simp add: a_def field_simps)
  have "(\<Sum>i\<in>I. ?r i * q i) = (\<Sum>i\<in>I. Y i * q i) - a * W - b * (\<Sum>i\<in>I. X i * q i)"
    by (simp add: W_def algebra_simps sum_subtractf sum.distrib sum_distrib_left)
  then have r0: "(\<Sum>i\<in>I. ?r i * q i) = 0" by (simp add: aW uW)
  have c0: "(\<Sum>i\<in>I. (X i - u) * q i) = 0" using uW by (simp add: W_def algebra_simps sum_subtractf sum_distrib_left)
  have xv: "(\<Sum>i\<in>I. X i * (X i - u) * q i) = V"
  proof -
    have "X i * (X i - u) * q i = (X i - u) * (X i - u) * q i + u * ((X i - u) * q i)" for i by (simp add: algebra_simps)
    then show ?thesis by (simp only: sum.distrib flip: sum_distrib_left) (simp add: c0 V_def)
  qed
  have bV: "b * V = (\<Sum>i\<in>I. Y i * (X i - u) * q i)" using nz(2) by (simp add: b_def)
  have "?r i * X i * q i = Y i * (X i - u) * q i - a * ((X i - u) * q i) - b * (X i * (X i - u) * q i) + u * (?r i * q i)" for i
    by (simp add: algebra_simps)
  then have "(\<Sum>i\<in>I. ?r i * X i * q i) = (\<Sum>i\<in>I. Y i * (X i - u) * q i) - a * (\<Sum>i\<in>I. (X i - u) * q i) -
      b * (\<Sum>i\<in>I. X i * (X i - u) * q i) + u * (\<Sum>i\<in>I. ?r i * q i)"
    by (simp only: sum_subtractf sum.distrib sum_distrib_left)
  then have r1: "(\<Sum>i\<in>I. ?r i * X i * q i) = 0" unfolding bV [symmetric] c0 xv r0 by simp
  have "(Y i - a' - b' * X i) * (Y i - a' - b' * X i) * q i =
      ?r i * ?r i * q i + 2 * (a - a') * (?r i * q i) + 2 * (b - b') * (?r i * X i * q i) + ?d i * ?d i * q i" for i
    by (simp add: algebra_simps)
  then have "(\<Sum>i\<in>I. (Y i - a' - b' * X i) * (Y i - a' - b' * X i) * q i) = (\<Sum>i\<in>I. ?r i * ?r i * q i) +
      2 * (a - a') * (\<Sum>i\<in>I. ?r i * q i) + 2 * (b - b') * (\<Sum>i\<in>I. ?r i * X i * q i) + (\<Sum>i\<in>I. ?d i * ?d i * q i)"
    by (simp only: sum.distrib sum_distrib_left)
  moreover have "0 \<le> (\<Sum>i\<in>I. ?d i * ?d i * q i)" using q by (intro sum_nonneg) simp
  ultimately show ?thesis unfolding r0 r1 by simp
qed

lemma sum_upt: "(\<Sum>i\<leftarrow>[a..<b]. f i) = (\<Sum>i\<in>{a..<b}. f i)" for f :: "nat \<Rightarrow> real"
  by (simp add: interv_sum_list_conv_sum_set_nat)

lemma spread_pos:
  fixes X q :: "nat \<Rightarrow> real"
  assumes "finite I" "i \<in> I" "j \<in> I" "X i \<noteq> X j" "\<And>k. k \<in> I \<Longrightarrow> 0 < q k"
  shows "0 < (\<Sum>k\<in>I. (X k - u) * (X k - u) * q k)"
proof -
  obtain k where k: "k \<in> I" "X k \<noteq> u" using assms(2-4) by (cases "X i = u") auto
  have "0 < (X k - u) * (X k - u) * q k" using k(2) assms(5) [OF k(1)] by (simp flip: power2_eq_square)
  then show ?thesis using k(1) assms(1,5) by (intro sum_pos2 [OF assms(1) k(1)]) (simp_all add: less_imp_le flip: power2_eq_square)
qed

section \<open>The best regression is found\<close>

definition runs_ok :: "real list \<Rightarrow> real list \<Rightarrow> real list \<Rightarrow> nat \<Rightarrow> nat \<Rightarrow> nat \<Rightarrow> bool" where
  "runs_ok x y w n m start \<longleftrightarrow> (case slope_of x y w n m start of (a, b, _) \<Rightarrow>
     critical_runs ! nat (int n - resid_start n m start) < n_runs_from_residuals (residuals x y n m (resid_start n m start) a b))"

lemma resid_start_bounds: "start \<le> n \<Longrightarrow> resid_start n m start \<le> int start \<and> - int m \<le> resid_start n m start \<and> int n - resid_start n m start \<le> 2 * int (n - start)"
  by (auto simp: resid_start_def Let_def)

lemma length_critical_runs [simp]: "length critical_runs = 130"
  by (simp add: critical_runs_def)

lemma start_loop_result:
  assumes "start + 3 \<le> n" "n \<le> 64"
  shows "\<exists>s k. start_loop x y w n m ms start = Some (s, k) \<and> start \<le> s \<and> s + 3 \<le> n \<and> (start < s \<longrightarrow> ms \<le> n - s) \<and>
    (runs_ok x y w n m s \<or> n - s \<le> 3 \<or> n - s \<le> ms) \<and> (\<forall>i. start \<le> i \<and> i < s \<longrightarrow> \<not> runs_ok x y w n m i)"
  using assms
proof (induction x y w n m ms start rule: start_loop.induct)
  case (1 x y w n m ms start)
  obtain a b rest where s: "slope_of x y w n m start = (a, b, rest)" by (metis prod.exhaust)
  let ?rs = "resid_start n m start"
  have len: "nat (int n - ?rs) < length critical_runs"
    using resid_start_bounds [of start n m] 1(2,3) by (simp add: nat_less_iff)
  have ok: "runs_ok x y w n m start \<longleftrightarrow> critical_runs ! nat (int n - ?rs) < n_runs_from_residuals (residuals x y n m ?rs a b)"
    by (simp add: runs_ok_def s)
  show ?case
  proof (cases "runs_ok x y w n m start \<or> n - start \<le> 3 \<or> n - start \<le> ms")
    case True
    then show ?thesis using 1(2) len ok by (subst start_loop.simps) (auto simp: s Let_def)
  next
    case False
    then have step: "start_loop x y w n m ms start = start_loop x y w n m ms (start + 1)"
      using len ok by (subst start_loop.simps) (simp add: s Let_def)
    from False have "start + 1 + 3 \<le> n" by linarith
    from 1(1) [OF s [symmetric] refl refl refl refl _ _ this 1(3)] False len ok obtain p k where
      p: "start_loop x y w n m ms (start + 1) = Some (p, k)" "start + 1 \<le> p" "p + 3 \<le> n" "start + 1 < p \<longrightarrow> ms \<le> n - p"
      "runs_ok x y w n m p \<or> n - p \<le> 3 \<or> n - p \<le> ms" "\<forall>i. start + 1 \<le> i \<and> i < p \<longrightarrow> \<not> runs_ok x y w n m i" by auto
    have "ms \<le> n - p" using p(2,4) False by (cases "p = start + 1") (simp, linarith, simp)
    moreover have "\<not> runs_ok x y w n m i" if "start \<le> i" "i < p" for i using that p(6) False by (cases "i = start") auto
    ultimately show ?thesis using p step by auto
  qed
qed

lemma FindBestRegression_returns:
  assumes "n \<le> 64" "m + n \<le> length x" "m + n \<le> length y" "n \<le> length w"
  shows "n < 3 \<Longrightarrow> RGR_FindBestRegression x y w n m ms = Some None"
    and "3 \<le> n \<Longrightarrow> \<exists>r. RGR_FindBestRegression x y w n m ms = Some (Some r) \<and> new_start r + 3 \<le> n \<and> RGR_GetTCoef (dof r) \<noteq> None"
proof -
  show "n < 3 \<Longrightarrow> RGR_FindBestRegression x y w n m ms = Some None" using assms by (simp add: RGR_FindBestRegression_def)
  assume n: "3 \<le> n"
  from start_loop_result [of 0 n x y w m ms] n assms(1) obtain s k where s: "start_loop x y w n m ms 0 = Some (s, k)" "s + 3 \<le> n" by auto
  obtain a b u V W where sl: "slope_of x y w n m s = (a, b, u, V, W)" by (metis prod.exhaust)
  obtain r where r: "RGR_FindBestRegression x y w n m ms = Some (Some r)" "new_start r = s" "dof r = int (n - s) - 2"
    using n assms s(1) by (simp add: RGR_FindBestRegression_def sl Let_def)
  moreover have "RGR_GetTCoef (dof r) \<noteq> None" using s(2) r(3) by (simp add: RGR_GetTCoef_def del: not_None_eq)
  ultimately show "\<exists>r. RGR_FindBestRegression x y w n m ms = Some (Some r) \<and> new_start r + 3 \<le> n \<and> RGR_GetTCoef (dof r) \<noteq> None"
    using s(2) by blast
qed

lemma slope_of_sums:
  assumes "slope_of x y w n m start = (a, b, u, V, W)"
  defines "q \<equiv> \<lambda>i. 1 / w ! i"
  shows "W = (\<Sum>i\<in>{start..<n}. q i)" "u = (\<Sum>i\<in>{start..<n}. x ! (m + i) * q i) / W" "V = (\<Sum>i\<in>{start..<n}. (x ! (m + i) - u) * (x ! (m + i) - u) * q i)"
    "b = (\<Sum>i\<in>{start..<n}. y ! (m + i) * (x ! (m + i) - u) * q i) / V" "a = (\<Sum>i\<in>{start..<n}. y ! (m + i) * q i) / W - b * u"
  using assms(1) by (auto simp: slope_of_def Let_def sum_upt q_def)

text \<open>
  C21.  With at least three and at most 64 samples, positive weights and increasing times the best
  regression is found without an access out of the arrays and the tables: its line minimises the
  weighted sum of squares of the samples from the new start, at least three samples are left
  and at least the required minimum (unless there were fewer from the beginning), the new start is
  the first one at which the test of runs passes or only three or the required minimum are left,
  and the degrees of freedom are in the table of coefficients.
\<close>

theorem best_regression:
  assumes "3 \<le> n" "n \<le> 64" "m + n \<le> length x" "m + n \<le> length y" "n \<le> length w"
    and "\<forall>i<n. 0 < w ! i" "\<forall>i j. m \<le> i \<and> i < j \<and> j < m + n \<longrightarrow> x ! i < x ! j"
  shows "\<exists>r. RGR_FindBestRegression x y w n m min_samples = Some (Some r) \<and>
    new_start r + 3 \<le> n \<and> (0 < new_start r \<longrightarrow> min_samples \<le> n - new_start r) \<and>
    (runs_ok x y w n m (new_start r) \<or> n - new_start r \<le> max 3 min_samples) \<and>
    (\<forall>i<new_start r. \<not> runs_ok x y w n m i \<and> max 3 min_samples < n - i) \<and> RGR_GetTCoef (dof r) \<noteq> None \<and>
    (\<forall>a b. (\<Sum>i\<leftarrow>[new_start r..<n]. (y ! (m + i) - b0 r - b1 r * x ! (m + i))\<^sup>2 / w ! i) \<le>
      (\<Sum>i\<leftarrow>[new_start r..<n]. (y ! (m + i) - a - b * x ! (m + i))\<^sup>2 / w ! i))"
proof -
  from start_loop_result [of 0 n x y w m min_samples] assms(1,2) obtain s k where
    s: "start_loop x y w n m min_samples 0 = Some (s, k)" "s + 3 \<le> n" "0 < s \<longrightarrow> min_samples \<le> n - s"
    "\<forall>i. i < s \<longrightarrow> \<not> runs_ok x y w n m i" "runs_ok x y w n m s \<or> n - s \<le> max 3 min_samples" by (auto simp: le_max_iff_disj)
  have left: "max 3 min_samples < n - i" if "i < s" for i using that s(2,3) by auto
  obtain a b u V W where sl: "slope_of x y w n m s = (a, b, u, V, W)" by (metis prod.exhaust)
  let ?I = "{s..<n}" and ?q = "\<lambda>i. 1 / w ! i"
  note sums = slope_of_sums [OF sl]
  have q: "\<And>i. i \<in> ?I \<Longrightarrow> 0 < ?q i" using assms(6) by simp
  have W0: "W \<noteq> 0" unfolding sums(1) using q s(2) by (intro less_imp_neq [OF sum_pos, symmetric]) auto
  have V0: "V \<noteq> 0" unfolding sums(3) using s(2) assms(7) q
    by (intro less_imp_neq [OF spread_pos [of _ s "s + 1" "\<lambda>i. x ! (m + i)"], symmetric]) (auto intro!: less_imp_neq)
  have opt: "(\<Sum>i\<in>?I. (y ! (m + i) - a - b * x ! (m + i)) * (y ! (m + i) - a - b * x ! (m + i)) * ?q i) \<le>
      (\<Sum>i\<in>?I. (y ! (m + i) - a' - b' * x ! (m + i)) * (y ! (m + i) - a' - b' * x ! (m + i)) * ?q i)" for a' b'
    using least_squares [of ?I ?q "\<lambda>i. x ! (m + i)" "\<lambda>i. y ! (m + i)" a' b', folded sums(1), folded sums(2), folded sums(3), folded sums(4), folded sums(5)]
      q W0 V0 by (simp add: less_imp_le)
  obtain r where r: "RGR_FindBestRegression x y w n m min_samples = Some (Some r)" "new_start r = s" "b0 r = a" "b1 r = b" "dof r = int (n - s) - 2"
    using assms(1-5) s(1) by (simp add: RGR_FindBestRegression_def sl Let_def)
  have "RGR_GetTCoef (dof r) \<noteq> None" using s(2) r(5) by (simp add: RGR_GetTCoef_def del: not_None_eq)
  then show ?thesis using r s(2-5) left opt by (auto simp: sum_upt power2_eq_square)
qed

theorem best_regression_witness:
  "\<exists>r. RGR_FindBestRegression [-3, -2, -1, 0] [1, 3, 2, 4] [1, 1, 2, 1] 4 0 3 = Some (Some r) \<and>
    new_start r + 3 \<le> 4 \<and> (0 < new_start r \<longrightarrow> 3 \<le> 4 - new_start r) \<and>
    (runs_ok [-3, -2, -1, 0] [1, 3, 2, 4] [1, 1, 2, 1] 4 0 (new_start r) \<or> 4 - new_start r \<le> max 3 3) \<and>
    (\<forall>i<new_start r. \<not> runs_ok [-3, -2, -1, 0] [1, 3, 2, 4] [1, 1, 2, 1] 4 0 i \<and> max 3 3 < 4 - i) \<and> RGR_GetTCoef (dof r) \<noteq> None \<and>
    (\<forall>a b. (\<Sum>i\<leftarrow>[new_start r..<4]. ([1, 3, 2, 4] ! (0 + i) - b0 r - b1 r * [-3, -2, -1, 0] ! (0 + i))\<^sup>2 / [1, 1, 2, 1] ! i) \<le>
      (\<Sum>i\<leftarrow>[new_start r..<4]. ([1, 3, 2, 4] ! (0 + i) - a - b * [-3, -2, -1, 0] ! (0 + i))\<^sup>2 / [1, 1, 2, 1] ! i))"
proof (rule best_regression)
  show "\<forall>i j. 0 \<le> i \<and> i < j \<and> j < 0 + 4 \<longrightarrow> [-3, -2, -1, 0 :: real] ! i < [-3, -2, -1, 0] ! j"
    by (auto simp: less_Suc_eq numeral_eq_Suc nth_Cons split: nat.splits)
  show "\<forall>i<4. 0 < [1, 1, 2, 1 :: real] ! i" by (auto simp: less_Suc_eq numeral_eq_Suc)
qed simp_all

section \<open>The selection is correct\<close>

lemma EXCH_props [simp]:
  "length (EXCH x i j) = length x"
  "i < length x \<Longrightarrow> j < length x \<Longrightarrow> mset (EXCH x i j) = mset x"
  "k \<noteq> i \<Longrightarrow> k \<noteq> j \<Longrightarrow> EXCH x i j ! k = x ! k"
  "i < length x \<Longrightarrow> j < length x \<Longrightarrow> EXCH x i j ! j = x ! i"
  "i < length x \<Longrightarrow> j < length x \<Longrightarrow> EXCH x i j ! i = x ! j"
  using mset_swap [of j x i] by (auto simp: EXCH_def nth_list_update)

lemma scan_up_props:
  assumes "l \<le> v" and "l2 = scan_up x v piv l"
  shows "l2 \<le> v" "\<And>i. l \<le> i \<Longrightarrow> i < l2 \<Longrightarrow> x ! i < piv" "l2 = v \<or> piv \<le> x ! l2"
proof -
  have "l2 \<le> v \<and> (\<forall>i. l \<le> i \<and> i < l2 \<longrightarrow> x ! i < piv) \<and> (l2 = v \<or> piv \<le> x ! l2)"
    using assms
  proof (induction x v piv l rule: scan_up.induct)
    case (1 x v piv l)
    show ?case
    proof (cases "l < v \<and> x ! l < piv")
      case True
      then have "l2 = scan_up x v piv (l + 1)" using 1(3) by (subst (asm) scan_up.simps) simp
      with 1(1) [OF True] True have "l2 \<le> v \<and> (\<forall>i. l + 1 \<le> i \<and> i < l2 \<longrightarrow> x ! i < piv) \<and> (l2 = v \<or> piv \<le> x ! l2)" by simp
      with True show ?thesis by (metis Suc_eq_plus1 le_antisym not_less_eq_eq)
    next
      case False
      then have "l2 = l" using 1(3) by (subst (asm) scan_up.simps) auto
      with False 1(2) show ?thesis by auto
    qed
  qed
  then show "l2 \<le> v" "\<And>i. l \<le> i \<Longrightarrow> i < l2 \<Longrightarrow> x ! i < piv" "l2 = v \<or> piv \<le> x ! l2" by blast+
qed

lemma scan_down_props:
  assumes "r2 = scan_down x piv r"
  shows "\<And>i. r2 < i \<Longrightarrow> i \<le> r \<Longrightarrow> piv < x ! i" "r2 = 0 \<or> x ! r2 \<le> piv"
proof -
  have "(\<forall>i. r2 < i \<and> i \<le> r \<longrightarrow> piv < x ! i) \<and> (r2 = 0 \<or> x ! r2 \<le> piv)"
    using assms
  proof (induction x piv r rule: scan_down.induct)
    case (1 x piv r)
    show ?case
    proof (cases "r > 0 \<and> x ! r > piv")
      case True
      then have "r2 = scan_down x piv (r - 1)" using 1(2) by (subst (asm) scan_down.simps) simp
      with 1(1) [OF True] have "(\<forall>i. r2 < i \<and> i \<le> r - 1 \<longrightarrow> piv < x ! i) \<and> (r2 = 0 \<or> x ! r2 \<le> piv)" by simp
      with True show ?thesis by (metis Suc_pred' le_SucE)
    next
      case False
      then have "r2 = r" using 1(2) by (subst (asm) scan_down.simps) auto
      with False show ?thesis by auto
    qed
  qed
  then show "\<And>i. r2 < i \<Longrightarrow> i \<le> r \<Longrightarrow> piv < x ! i" "r2 = 0 \<or> x ! r2 \<le> piv" by blast+
qed

text \<open>The invariant of the partition: the pivot is at \<open>u\<close>, what was passed is on its side.\<close>

definition part_inv :: "real list \<Rightarrow> nat \<Rightarrow> nat \<Rightarrow> real \<Rightarrow> nat \<Rightarrow> nat \<Rightarrow> bool" where
  "part_inv x u v piv l r \<longleftrightarrow> v < length x \<and> x ! u = piv \<and> u < l \<and> l \<le> v \<and> l \<le> r + 1 \<and> u \<le> r \<and> r \<le> v \<and>
     (\<forall>i. u < i \<and> i < l \<longrightarrow> x ! i \<le> piv) \<and> (\<forall>i. r < i \<and> i \<le> v \<longrightarrow> piv \<le> x ! i)"

definition same_outside :: "real list \<Rightarrow> real list \<Rightarrow> nat \<Rightarrow> nat \<Rightarrow> bool" where
  "same_outside x x' u v \<longleftrightarrow> length x' = length x \<and> mset x' = mset x \<and> (\<forall>i. i < u \<or> v < i \<longrightarrow> x' ! i = x ! i)"

lemma scan_meet:
  assumes "part_inv x u v piv l r" "l2 = scan_up x v piv l" "r2 = scan_down x piv r"
  shows "u \<le> r2" "x ! r2 \<le> piv" "r2 \<le> l2 \<Longrightarrow> l2 \<le> r2 + 1" "\<And>i. u < i \<Longrightarrow> i < l2 \<Longrightarrow> x ! i \<le> piv" "\<And>i. r2 < i \<Longrightarrow> i \<le> v \<Longrightarrow> piv \<le> x ! i"
    "u < l2" "l2 \<le> v" "r2 \<le> v" "l2 = v \<or> piv \<le> x ! l2"
proof -
  have inv: "x ! u = piv" "u < l" "l \<le> v" "l \<le> r + 1" "u \<le> r" "r \<le> v" "\<And>i. u < i \<Longrightarrow> i < l \<Longrightarrow> x ! i \<le> piv" "\<And>i. r < i \<Longrightarrow> i \<le> v \<Longrightarrow> piv \<le> x ! i"
    using assms(1) by (auto simp: part_inv_def)
  note up = scan_up_props [OF inv(3) assms(2)] and down = scan_down_props [OF assms(3)]
  have ge: "l \<le> l2" "r2 \<le> r" unfolding assms(2,3) by (rule scan_up_ge, rule scan_down_le)
  show 1: "u \<le> r2" using down(1) [of u] inv(1,5) by (cases "r2 < u") auto
  show "x ! r2 \<le> piv" using down(2) 1 inv(1) by (cases "r2 = 0") auto
  show "\<And>i. u < i \<Longrightarrow> i < l2 \<Longrightarrow> x ! i \<le> piv" using inv(7) up(2) by (meson less_imp_le not_le)
  show big: "\<And>i. r2 < i \<Longrightarrow> i \<le> v \<Longrightarrow> piv \<le> x ! i" using inv(8) down(1) by (meson less_imp_le not_le)
  show "u < l2" "l2 \<le> v" "r2 \<le> v" "l2 = v \<or> piv \<le> x ! l2" using inv(2,6) ge up(1,3) by simp_all
  show "l2 \<le> r2 + 1"
  proof (rule ccontr)
    assume n: "\<not> l2 \<le> r2 + 1"
    show False
    proof (cases "l \<le> r2 + 1")
      case True
      then have "x ! (r2 + 1) < piv" using up(2) [of "r2 + 1"] n by simp
      with big [of "r2 + 1"] n up(1) show False by simp
    next
      case False
      then have "r2 < l - 1" "l - 1 \<le> r" "u < l - 1" "l - 1 < l" using inv(4) 1 by simp_all
      then show False using down(1) [of "l - 1"] inv(7) [of "l - 1"] by simp
    qed
  qed
qed

lemma partition_result:
  assumes "part_inv x u v piv l r" "partition_loop x v piv l r = (x', l', r')"
  shows "same_outside x x' (u + 1) v \<and> x' ! u = piv \<and> u \<le> r' \<and> r' \<le> v \<and> u < l' \<and> l' \<le> v \<and> r' \<le> l' \<and> l' \<le> r' + 1 \<and>
    (\<forall>i. u < i \<and> i \<le> r' \<longrightarrow> x' ! i \<le> piv) \<and> (\<forall>i. r' < i \<and> i \<le> v \<longrightarrow> piv \<le> x' ! i) \<and> (l' = r' \<longrightarrow> l' = v \<or> x' ! l' = piv)"
  using assms
proof (induction x v piv l r rule: partition_loop.induct)
  case (1 x v piv l r)
  let ?l = "scan_up x v piv l" and ?r = "scan_down x piv r"
  note m = scan_meet [OF 1(2) refl refl]
  have len: "v < length x" "x ! u = piv" using 1(2) by (simp_all add: part_inv_def)
  show ?case
  proof (cases "?r \<le> ?l")
    case True
    then have eq: "x' = x" "l' = ?l" "r' = ?r" using 1(3) by (auto simp: partition_loop.simps [of x] Let_def)
    have "x ! i \<le> piv" if "u < i" "i \<le> ?r" for i using m(4) [OF that(1)] m(2) that True by (cases "i = ?r") auto
    moreover have "?l = ?r \<longrightarrow> ?l = v \<or> x ! ?l = piv" using m(2,9) by auto
    ultimately show ?thesis unfolding eq using m len True by (auto simp: same_outside_def)
  next
    case False
    let ?x = "EXCH x ?l ?r"
    have b: "?l < ?r" "?l < length x" "?r < length x" "piv \<le> x ! ?l" using False len m(7-9) by auto
    have "part_inv ?x u v piv (?l + 1) (?r - 1)"
      unfolding part_inv_def
    proof (intro conjI allI impI)
      fix i
      show "?x ! i \<le> piv" if "u < i \<and> i < ?l + 1"
        using that b m(1,2) m(4) [of i] by (cases "i = ?l") auto
      show "piv \<le> ?x ! i" if "?r - 1 < i \<and> i \<le> v"
        using that b m(5) [of i] by (cases "i = ?r") auto
    qed (use b len m(1,6,8) in auto)
    moreover have "partition_loop ?x v piv (?l + 1) (?r - 1) = (x', l', r')"
      using 1(3) False by (simp add: partition_loop.simps [of x] Let_def)
    ultimately have ih: "same_outside ?x x' (u + 1) v \<and> x' ! u = piv \<and> u \<le> r' \<and> r' \<le> v \<and> u < l' \<and> l' \<le> v \<and> r' \<le> l' \<and> l' \<le> r' + 1 \<and>
      (\<forall>i. u < i \<and> i \<le> r' \<longrightarrow> x' ! i \<le> piv) \<and> (\<forall>i. r' < i \<and> i \<le> v \<longrightarrow> piv \<le> x' ! i) \<and> (l' = r' \<longrightarrow> l' = v \<or> x' ! l' = piv)"
      using 1(1) [OF refl refl False] by blast
    moreover have "same_outside ?x x' (u + 1) v \<Longrightarrow> same_outside x x' (u + 1) v"
      using b m(6,8) by (auto simp: same_outside_def)
    ultimately show ?thesis by blast
  qed
qed

lemma same_outside_inside:
  assumes "same_outside x x' u v" "v < length x" "u \<le> j" "j \<le> v"
  shows "\<exists>k. u \<le> k \<and> k \<le> v \<and> x' ! j = x ! k"
proof -
  have l: "length x' = length x" and m: "mset x' = mset x" and s: "\<And>i. i < u \<or> v < i \<Longrightarrow> x' ! i = x ! i" using assms(1) by (auto simp: same_outside_def)
  let ?mid = "\<lambda>z. take (v + 1 - u) (drop u z) :: real list"
  have split: "z = take u z @ ?mid z @ drop (v + 1) z" for z :: "real list"
  proof -
    have "drop (v + 1) z = drop (v + 1 - u) (drop u z)" using assms(3,4) by simp
    then show ?thesis by (metis append_take_drop_id)
  qed
  have "take u x' = take u x" "drop (v + 1) x' = drop (v + 1) x"
    using s l assms(2-4) by (auto intro!: nth_equalityI)
  moreover have "mset (take u x') + mset (?mid x') + mset (drop (v + 1) x') = mset (take u x) + mset (?mid x) + mset (drop (v + 1) x)"
    using m split [of x] split [of x'] by (metis mset_append union_assoc)
  ultimately have "mset (?mid x') = mset (?mid x)" by simp
  then have "set (?mid x') = set (?mid x)" by (rule mset_eq_setD)
  moreover have "x' ! j \<in> set (?mid x')" using assms l by (auto simp: in_set_conv_nth intro!: exI [of _ "j - u"])
  ultimately obtain k where "k < v + 1 - u" "x' ! j = ?mid x ! k" using assms(2) by (auto simp: in_set_conv_nth)
  then show ?thesis using assms(2) by (intro exI [of _ "u + k"]) auto
qed

text \<open>The range holds the elements that belong there.\<close>

definition sel_inv :: "real list \<Rightarrow> nat \<Rightarrow> nat \<Rightarrow> bool" where
  "sel_inv x u v \<longleftrightarrow> v < length x \<and> (\<forall>i j. i < u \<and> u \<le> j \<and> j \<le> v \<longrightarrow> x ! i \<le> x ! j) \<and>
     (\<forall>j k. u \<le> j \<and> j \<le> v \<and> v < k \<and> k < length x \<longrightarrow> x ! j \<le> x ! k)"

definition placed :: "real list \<Rightarrow> nat \<Rightarrow> bool" where
  "placed x p \<longleftrightarrow> (\<forall>i<p. x ! i \<le> x ! p) \<and> (\<forall>i. p < i \<and> i < length x \<longrightarrow> x ! p \<le> x ! i)"

lemma sel_inv_same: "sel_inv x u v \<Longrightarrow> same_outside x x' u v \<Longrightarrow> sel_inv x' u v"
proof -
  assume a: "sel_inv x u v" "same_outside x x' u v"
  have v: "v < length x" using a(1) by (simp add: sel_inv_def)
  note ins = same_outside_inside [OF a(2) v]
  have out: "\<And>i. i < u \<or> v < i \<Longrightarrow> x' ! i = x ! i" and l: "length x' = length x" using a(2) by (auto simp: same_outside_def)
  show ?thesis
    unfolding sel_inv_def
  proof (intro conjI allI impI)
    show "v < length x'" using v l by simp
    fix i j
    assume "i < u \<and> u \<le> j \<and> j \<le> v"
    then show "x' ! i \<le> x' ! j" using ins [of j] out [of i] a(1) by (auto simp: sel_inv_def)
  next
    fix j k
    assume "u \<le> j \<and> j \<le> v \<and> v < k \<and> k < length x'"
    then show "x' ! j \<le> x' ! k" using ins [of j] out [of k] a(1) l by (auto simp: sel_inv_def)
  qed
qed

lemma placed_same:
  assumes "placed x p" "same_outside x x' u v" "v < length x" "p < u \<or> v < p"
  shows "placed x' p"
proof -
  have out: "\<And>i. i < u \<or> v < i \<Longrightarrow> x' ! i = x ! i" and l: "length x' = length x" using assms(2) by (auto simp: same_outside_def)
  have "\<exists>k. x' ! i = x ! k \<and> (i < p \<longleftrightarrow> k < p) \<and> (p < i \<longleftrightarrow> p < k) \<and> (i < length x \<longrightarrow> k < length x)" for i
  proof (cases "u \<le> i \<and> i \<le> v")
    case True
    then obtain k where "u \<le> k" "k \<le> v" "x' ! i = x ! k" using same_outside_inside [OF assms(2,3)] by blast
    then show ?thesis using True assms(3,4) by (intro exI [of _ k]) auto
  next
    case False
    then show ?thesis using out [of i] by (intro exI [of _ i]) auto
  qed
  with assms(1) out [OF assms(4)] l show ?thesis unfolding placed_def by metis
qed

lemma sort_placed:
  assumes "placed x k" "k < length x"
  shows "sort x ! k = x ! k"
proof -
  have x: "x = take k x @ x ! k # drop (Suc k) x" using assms(2) by (rule id_take_nth_drop)
  have le: "x ! i \<le> x ! Suc (k + j)" if "i < k" "j < length x - Suc k" for i j
  proof -
    have "x ! i \<le> x ! k" "x ! k \<le> x ! Suc (k + j)" using assms that by (auto simp: placed_def)
    then show ?thesis by (rule order_trans)
  qed
  have "sorted (sort (take k x) @ x ! k # sort (drop (Suc k) x))"
    using assms le by (auto simp: sorted_append placed_def in_set_conv_nth)
  moreover have "mset (sort (take k x) @ x ! k # sort (drop (Suc k) x)) = mset x" by (subst (4) x) simp
  ultimately have "sort x = sort (take k x) @ x ! k # sort (drop (Suc k) x)" by (metis properties_for_sort)
  then show ?thesis using assms(2) by (simp add: nth_append)
qed

text \<open>One round of the selection: the pivot is placed and the two sides of it are ranges again.\<close>

lemma select_round:
  assumes "sel_inv x u v" "u + 2 \<le> v"
    and "partition_loop (EXCH x u ((u + v) div 2)) v (EXCH x u ((u + v) div 2) ! u) (u + 1) v = (y, l, r)"
  shows "same_outside x (EXCH y u r) u v" "placed (EXCH y u r) r" "u \<le> r" "r \<le> v" "u < l" "l \<le> v" "r \<le> l" "l \<le> r + 1"
    "u < r \<Longrightarrow> sel_inv (EXCH y u r) u (r - 1)" "sel_inv (EXCH y u r) l v" "l = r \<Longrightarrow> l < v \<Longrightarrow> \<not> distinct x"
proof -
  let ?x = "EXCH x u ((u + v) div 2)" and ?z = "EXCH y u r"
  define piv where "piv = ?x ! u"
  have len: "v < length x" "u < length x" "(u + v) div 2 < length x" "u \<le> (u + v) div 2" "(u + v) div 2 \<le> v" using assms(1,2) by (auto simp: sel_inv_def)
  have "part_inv ?x u v piv (u + 1) v" using len assms(2) by (auto simp: part_inv_def piv_def)
  from partition_result [OF this assms(3) [folded piv_def]]
  have p: "same_outside ?x y (u + 1) v" "y ! u = piv" "u \<le> r" "r \<le> v" "u < l" "l \<le> v" "r \<le> l" "l \<le> r + 1"
    "\<And>i. u < i \<Longrightarrow> i \<le> r \<Longrightarrow> y ! i \<le> piv" "\<And>i. r < i \<Longrightarrow> i \<le> v \<Longrightarrow> piv \<le> y ! i" "l = r \<longrightarrow> l = v \<or> y ! l = piv" by blast+
  then show "u \<le> r" "r \<le> v" "u < l" "l \<le> v" "r \<le> l" "l \<le> r + 1" by blast+
  have ly: "length y = length x" using p(1) by (simp add: same_outside_def)
  have sx: "same_outside x ?x u v" using len by (simp add: same_outside_def)
  have sy: "same_outside ?x y u v" using p(1) unfolding same_outside_def by fastforce
  have sz: "same_outside y ?z u v" using len ly p(3,4) by (auto simp: same_outside_def)
  show same: "same_outside x ?z u v" using sx sy sz unfolding same_outside_def by auto
  have zr: "?z ! r = piv" using p(2,4) len ly by simp
  have lo: "?z ! i \<le> piv" if "u \<le> i" "i \<le> r" for i
    using that p(2,3,4) p(9) [of r] p(9) [of i] len ly by (cases "i = u"; cases "i = r") auto
  have hi: "piv \<le> ?z ! i" if "r < i" "i \<le> v" for i using that p(3) p(10) [of i] by simp
  have zinv: "sel_inv ?z u v" using sel_inv_same [OF assms(1) same] .
  have lz: "length ?z = length x" using ly by simp
  have bounds: "?z ! i \<le> ?z ! j" if "i < u" "u \<le> j" "j \<le> v" for i j using zinv that by (simp add: sel_inv_def)
  have bounds': "?z ! j \<le> ?z ! k" if "u \<le> j" "j \<le> v" "v < k" "k < length x" for j k using zinv that lz by (simp add: sel_inv_def)
  show "placed ?z r"
    unfolding placed_def
  proof (intro conjI allI impI)
    show "?z ! i \<le> ?z ! r" if "i < r" for i using that lo [of i] bounds [of i r] p(3,4) zr by (cases "u \<le> i") auto
    show "?z ! r \<le> ?z ! i" if "r < i \<and> i < length ?z" for i using that hi [of i] bounds' [of r i] p(3,4) zr lz by (cases "i \<le> v") auto
  qed
  show "sel_inv ?z u (r - 1)" if "u < r"
    unfolding sel_inv_def
  proof (intro conjI allI impI)
    show "r - 1 < length ?z" using p(4) len lz by simp
    show "?z ! i \<le> ?z ! j" if "i < u \<and> u \<le> j \<and> j \<le> r - 1" for i j
    proof -
      have "j \<le> v" using that p(4) by linarith
      then show ?thesis using that bounds by blast
    qed
    show "?z ! j \<le> ?z ! k" if "u \<le> j \<and> j \<le> r - 1 \<and> r - 1 < k \<and> k < length ?z" for j k
    proof -
      have "j \<le> r" "r \<le> k" "j \<le> v" using that p(4) by linarith+
      then show ?thesis using that lo [of j] hi [of k] bounds' [of j k] zr lz by (cases "k \<le> v"; cases "k = r") auto
    qed
  qed
  show "sel_inv ?z l v"
    unfolding sel_inv_def
  proof (intro conjI allI impI)
    show "v < length ?z" using len lz by simp
    have ge: "piv \<le> ?z ! j" if "l \<le> j" "j \<le> v" for j using that hi [of j] zr p(7) by (cases "j = r") auto
    show "?z ! i \<le> ?z ! j" if "i < l \<and> l \<le> j \<and> j \<le> v" for i j
      using that ge [of j] lo [of i] bounds [of i j] p(5,8) by (cases "u \<le> i") force+
    show "?z ! j \<le> ?z ! k" if "l \<le> j \<and> j \<le> v \<and> v < k \<and> k < length ?z" for j k using that bounds' [of j k] p(5) lz by simp
  qed
  assume "l = r" "l < v"
  then have "y ! l = y ! u" using p(2,11) by simp
  then have "\<not> distinct y" using p(5,6) len ly by (metis nth_eq_iff_index_eq order_le_less_trans less_irrefl)
  moreover have "mset y = mset x" using sx sy by (simp add: same_outside_def)
  ultimately show "\<not> distinct x" by (metis distinct_count_atmost_1 set_mset_mset)
qed

definition flags_ok :: "real list \<Rightarrow> bool list \<Rightarrow> bool" where
  "flags_ok x flags \<longleftrightarrow> length flags = length x \<and> (\<forall>p<length x. flags ! p \<longrightarrow> placed x p)"

lemma flag_set: "flags[i := True] ! p \<Longrightarrow> p = i \<or> flags ! p"
  by (cases "p = i") auto

lemma flags_ok_set:
  assumes "flags_ok x flags" "same_outside x x' u v" "v < length x" "\<forall>p. u \<le> p \<and> p \<le> v \<longrightarrow> \<not> flags ! p" "\<forall>p\<in>P. placed x' p"
    and "length flags' = length flags" "\<forall>p<length x. flags' ! p \<longrightarrow> flags ! p \<or> p \<in> P"
  shows "flags_ok x' flags'"
  unfolding flags_ok_def
proof (intro conjI allI impI)
  have l: "length x' = length x" using assms(2) by (simp add: same_outside_def)
  then show "length flags' = length x'" using assms(1,6) by (simp add: flags_ok_def)
  fix p
  assume p: "p < length x'" "flags' ! p"
  show "placed x' p"
  proof (cases "p \<in> P")
    case False
    then have f: "flags ! p" using assms(7) p l by auto
    then have "p < u \<or> v < p" using assms(4) by (meson not_le)
    then show ?thesis using placed_same [OF _ assms(2,3)] assms(1) f p(1) l by (simp add: flags_ok_def)
  qed (use assms(5) in blast)
qed

lemma select_loop_correct:
  assumes "sel_inv x u v" "u \<le> index" "index \<le> v" "select_loop x flags index u v = (a, x', flags')"
  shows "same_outside x x' u v \<and> a = x' ! index \<and> placed x' index \<and>
    (distinct x \<and> flags_ok x flags \<and> (\<forall>p. u \<le> p \<and> p \<le> v \<longrightarrow> \<not> flags ! p) \<longrightarrow> flags_ok x' flags')"
  using assms
proof (induction x flags index u v rule: select_loop.induct)
  case (1 x flags index u v)
  have v: "v < length x" using 1(3) by (simp add: sel_inv_def)
  show ?case
  proof (cases "v < u + 2")
    case True
    let ?x = "if x ! v < x ! u then EXCH x v u else x"
    have e: "a = ?x ! index" "x' = ?x" "flags' = flags[v := True, u := True]" using 1(6) True by (auto simp: select_loop.simps [of x] Let_def)
    have uv: "u \<le> v" "v = u \<or> v = u + 1" using 1(4,5) True by linarith+
    have same: "same_outside x ?x u v" using uv v by (auto simp: same_outside_def)
    have inv: "sel_inv ?x u v" using sel_inv_same [OF 1(3) same] .
    have le: "?x ! u \<le> ?x ! v" using uv v by (cases "v = u") auto
    have pl: "placed ?x p" if "u \<le> p" "p \<le> v" for p
    proof -
      have "?x ! i \<le> ?x ! p" if "i < p" for i
        using that inv le uv \<open>u \<le> p\<close> \<open>p \<le> v\<close> unfolding sel_inv_def by (cases "i < u"; cases "i = u"; cases "p = v") auto
      moreover have "?x ! p \<le> ?x ! i" if "p < i" "i < length ?x" for i
        using that inv le uv \<open>u \<le> p\<close> \<open>p \<le> v\<close> unfolding sel_inv_def by (cases "v < i"; cases "i = v"; cases "p = u") auto
      ultimately show ?thesis by (simp add: placed_def)
    qed
    have "flags_ok ?x flags'" if "flags_ok x flags" "\<forall>p. u \<le> p \<and> p \<le> v \<longrightarrow> \<not> flags ! p"
      by (rule flags_ok_set [OF that(1) same v that(2), of "{u, v}"]) (use pl uv e(3) in \<open>auto dest!: flag_set\<close>)
    with same pl [OF 1(4,5)] e(1,2) show ?thesis by blast
  next
    case False
    obtain y l r where y: "partition_loop (EXCH x u ((u + v) div 2)) v (EXCH x u ((u + v) div 2) ! u) (u + 1) v = (y, l, r)" by (metis prod.exhaust)
    let ?z = "EXCH y u r" and ?f = "flags[r := True]"
    note R = select_round [OF 1(3) _ y] and IH1 = 1(1) [OF False refl refl y [symmetric] refl refl refl] and IH2 = 1(2) [OF False refl refl y [symmetric] refl refl refl]
    have uv: "u + 2 \<le> v" using False by simp
    note R = R [OF uv]
    have fl: "flags_ok ?z ?f" if "flags_ok x flags" "\<forall>p. u \<le> p \<and> p \<le> v \<longrightarrow> \<not> flags ! p"
      by (rule flags_ok_set [OF that(1) R(1) v that(2), of "{r}"]) (use R(2) in \<open>auto dest!: flag_set\<close>)
    have dz: "distinct ?z = distinct x" using R(1) by (metis distinct_count_atmost_1 same_outside_def set_mset_mset)
    have trans: "same_outside ?z x' u' v' \<Longrightarrow> u \<le> u' \<Longrightarrow> v' \<le> v \<Longrightarrow> same_outside x x' u v" for u' v' using R(1) by (auto simp: same_outside_def)
    have step: "(if index = r then (?z ! r, ?z, ?f) else if index < r then select_loop ?z ?f index u (r - 1) else select_loop ?z ?f index l v) = (a, x', flags')"
      using 1(6) unfolding select_loop.simps [of x flags index u v] Let_def if_not_P [OF False] y prod.case .
    consider "index = r" | "index < r" | "r < index" by linarith
    then show ?thesis
    proof cases
      case 1
      then have "a = ?z ! r" "x' = ?z" "flags' = ?f" using step by auto
      then show ?thesis using R(1,2) fl 1 by blast
    next
      case 2
      then have "same_outside ?z x' u (r - 1) \<and> a = x' ! index \<and> placed x' index \<and>
          (distinct ?z \<and> flags_ok ?z ?f \<and> (\<forall>p. u \<le> p \<and> p \<le> r - 1 \<longrightarrow> \<not> ?f ! p) \<longrightarrow> flags_ok x' flags')"
        using IH1 step R(9) 1(4) by simp
      moreover have "\<not> ?f ! p" if "\<forall>p. u \<le> p \<and> p \<le> v \<longrightarrow> \<not> flags ! p" "u \<le> p \<and> p \<le> r - 1" for p
        using that 2 R(4) by (auto simp: nth_list_update)
      ultimately show ?thesis using trans [of u "r - 1"] fl dz R(4) by fastforce
    next
      case 3
      then have "same_outside ?z x' l v \<and> a = x' ! index \<and> placed x' index \<and>
          (distinct ?z \<and> flags_ok ?z ?f \<and> (\<forall>p. l \<le> p \<and> p \<le> v \<longrightarrow> \<not> ?f ! p) \<longrightarrow> flags_ok x' flags')"
        using IH2 step R(8,10) 1(5) by simp
      moreover have "\<not> ?f ! p" if "distinct x" "\<forall>p. u \<le> p \<and> p \<le> v \<longrightarrow> \<not> flags ! p" "l \<le> p \<and> p \<le> v" for p
      proof -
        have "l \<noteq> r" using R(11) that(1) 3 1(5) by auto
        then show ?thesis using that(2,3) R(5,7) by (simp add: nth_list_update)
      qed
      ultimately show ?thesis using trans [of l v] fl dz R(5) by fastforce
    qed
  qed
qed

lemma range_start_props: "range_start flags u = s \<Longrightarrow> s \<le> u \<and> (\<forall>i. s < i \<and> i \<le> u \<longrightarrow> \<not> flags ! i) \<and> (s = 0 \<or> flags ! s)"
proof (induction flags u rule: range_start.induct)
  case (1 flags u)
  show ?case
  proof (cases "u > 0 \<and> \<not> flags ! u")
    case True
    then have "s \<le> u - 1 \<and> (\<forall>i. s < i \<and> i \<le> u - 1 \<longrightarrow> \<not> flags ! i) \<and> (s = 0 \<or> flags ! s)"
      using 1 by (simp add: range_start.simps [of flags u])
    with True show ?thesis by (metis Suc_pred' le_SucE le_SucI)
  next
    case False
    then show ?thesis using 1(2) by (auto simp: range_start.simps [of flags u])
  qed
qed

lemma range_end_props: "range_end flags n v = e \<Longrightarrow> v < n \<Longrightarrow> v \<le> e \<and> e < n \<and> (\<forall>i. v \<le> i \<and> i < e \<longrightarrow> \<not> flags ! i) \<and> (e = n - 1 \<or> flags ! e)"
proof (induction flags n v rule: range_end.induct)
  case (1 flags n v)
  show ?case
  proof (cases "v < n - 1 \<and> \<not> flags ! v")
    case True
    then have "v + 1 < n" by linarith
    with True have "v + 1 \<le> e \<and> e < n \<and> (\<forall>i. v + 1 \<le> i \<and> i < e \<longrightarrow> \<not> flags ! i) \<and> (e = n - 1 \<or> flags ! e)"
      using 1 by (simp add: range_end.simps [of flags n v])
    with True show ?thesis by (metis Suc_eq_plus1 Suc_leI add_leD1 le_neq_implies_less)
  next
    case False
    then show ?thesis using 1(2,3) by (auto simp: range_end.simps [of flags n v])
  qed
qed

lemma find_ordered_entry_correct:
  assumes "flags_ok x flags" "index < length x"
  obtains a x' flags' where "find_ordered_entry_with_flags x (length x) index flags = Some (a, x', flags')" "a = sort x ! index"
    "length x' = length x" "mset x' = mset x" "distinct x \<Longrightarrow> flags_ok x' flags'"
proof (cases "flags ! index")
  case True
  then have "find_ordered_entry_with_flags x (length x) index flags = Some (x ! index, x, flags)" "placed x index"
    using assms by (simp_all add: find_ordered_entry_with_flags_def flags_ok_def)
  with sort_placed [OF this(2) assms(2)] assms(1) show thesis by (intro that) simp_all
next
  case False
  define s where "s = range_start flags index"
  define e where "e = range_end flags (length x) index"
  define u where "u = (if flags ! s then s + 1 else s)"
  define v where "v = (if flags ! e then e - 1 else e)"
  note st = range_start_props [OF s_def [symmetric]] and en = range_end_props [OF e_def [symmetric] assms(2)]
  have u: "u \<le> index" "\<forall>i. u \<le> i \<and> i \<le> index \<longrightarrow> \<not> flags ! i" "u = 0 \<or> flags ! (u - 1)"
    using st False by (auto simp: u_def Suc_le_eq le_less)
  have v: "index \<le> v" "v < length x" "\<forall>i. index \<le> i \<and> i \<le> v \<longrightarrow> \<not> flags ! i"
    using en False by (auto simp: v_def le_less Suc_le_eq)
  have "index < e" if "flags ! e" using en that False by (cases "e = index") auto
  then have v4: "v = length x - 1 \<or> flags ! (v + 1)" using en by (cases "flags ! e") (auto simp: v_def)
  have "\<not> flags ! p" if "u \<le> p \<and> p \<le> v" for p using u(2) v(3) that by (cases "p \<le> index") auto
  moreover have "sel_inv x u v"
    unfolding sel_inv_def
  proof (intro conjI allI impI)
    show "x ! i \<le> x ! j" if "i < u \<and> u \<le> j \<and> j \<le> v" for i j
    proof -
      have pl: "placed x (u - 1)" using u(1,3) assms that by (auto simp: flags_ok_def)
      then have "x ! i \<le> x ! (u - 1)" using that by (cases "i = u - 1") (auto simp: placed_def)
      also have "x ! (u - 1) \<le> x ! j" using pl that v(2) by (auto simp: placed_def)
      finally show ?thesis .
    qed
    show "x ! j \<le> x ! k" if "u \<le> j \<and> j \<le> v \<and> v < k \<and> k < length x" for j k
    proof -
      have pl: "placed x (v + 1)" using v4 assms that by (auto simp: flags_ok_def)
      then have "x ! j \<le> x ! (v + 1)" using that by (auto simp: placed_def)
      also have "x ! (v + 1) \<le> x ! k" using pl that by (cases "k = v + 1") (auto simp: placed_def)
      finally show ?thesis .
    qed
  qed (rule v(2))
  moreover obtain a x' flags' where sel: "select_loop x flags index u v = (a, x', flags')" by (metis prod.exhaust)
  ultimately have r: "same_outside x x' u v" "a = x' ! index" "placed x' index" "distinct x \<longrightarrow> flags_ok x' flags'"
    using select_loop_correct [OF _ u(1) v(1) sel] assms(1) by blast+
  then have m: "length x' = length x" "mset x' = mset x" by (simp_all add: same_outside_def)
  have "sort x' = sort x" using m(2) by (metis sorted_list_of_multiset_mset)
  then have "a = sort x ! index" using sort_placed [OF r(3)] r(2) m(1) assms(2) by simp
  moreover have "find_ordered_entry_with_flags x (length x) index flags = Some (a, x', flags')"
    using assms False sel by (simp add: find_ordered_entry_with_flags_def flags_ok_def Let_def s_def [symmetric] e_def [symmetric] u_def [symmetric] v_def [symmetric])
  ultimately show thesis using that m r(4) by blast
qed

lemma median_value:
  assumes "0 < n" "n \<le> 64" "n \<le> length x" "odd n \<or> distinct (take n x)"
  shows "RGR_FindMedian kf x n = Some (let s = sort (take n x) in if odd n then s ! (n div 2) else (s ! (n div 2) + s ! (n div 2 - 1)) / 2)"
proof -
  let ?x = "take n x" and ?f = "replicate n False"
  let ?i = "if kf then n div 2 else n div 2 - 1" and ?j = "if kf then n div 2 - 1 else n div 2"
  have l: "length ?x = n" using assms(3) by simp
  have f: "flags_ok ?x ?f" using l by (simp add: flags_ok_def)
  have "n div 2 - 1 < n" "n div 2 < n" using assms(1) by linarith+
  then have k: "n div 2 < length ?x" "?i < length ?x" "?j < length ?x" using l by simp_all
  have m: "RGR_FindMedian kf x n = find_median kf ?x n" using assms(1-3) by (simp add: RGR_FindMedian_def)
  show ?thesis
  proof (cases "odd n")
    case True
    from find_ordered_entry_correct [OF f k(1)] l obtain a x' flags' where
      "find_ordered_entry_with_flags ?x n (n div 2) ?f = Some (a, x', flags')" "a = sort ?x ! (n div 2)" by metis
    then show ?thesis using True by (simp add: m find_median_def Let_def odd_iff_mod_2_eq_one)
  next
    case False
    from find_ordered_entry_correct [OF f k(2)] l obtain a x' flags' where
      e: "find_ordered_entry_with_flags ?x n ?i ?f = Some (a, x', flags')" "a = sort ?x ! ?i" "length x' = n" "mset x' = mset ?x"
        "distinct ?x \<Longrightarrow> flags_ok x' flags'" by metis
    have d: "flags_ok x' flags'" using False assms(4) e(5) by simp
    from find_ordered_entry_correct [OF d, of ?j] e(3) k(3) l obtain b z g where
      b: "find_ordered_entry_with_flags x' n ?j flags' = Some (b, z, g)" "b = sort x' ! ?j" by metis
    have "sort x' = sort ?x" using e(4) by (metis sorted_list_of_multiset_mset)
    then show ?thesis using False e(1,2) b
      unfolding m by (cases kf) (simp_all add: find_median_def Let_def odd_iff_mod_2_eq_one add.commute)
  qed
qed

text \<open>
  C17.  The median of an odd number of values is the middle one of the sorted values, and the median of
  an even number of different values is the mean of the two in the middle, in whichever order the
  two partial sorts are made.
\<close>

theorem find_median_correct:
  assumes "0 < n" "n \<le> 64" "n \<le> length x" "odd n \<or> distinct (take n x)"
  shows "RGR_FindMedian kf x n = Some (let s = sort (take n x) in if odd n then s ! (n div 2) else (s ! (n div 2) + s ! (n div 2 - 1)) / 2)"
  using median_value [OF assms] .

theorem find_median_correct_witness:
  "RGR_FindMedian False [5, 1, 4, 2, 3, 9] 6 = Some (let s = sort (take 6 [5, 1, 4, 2, 3, 9]) in
     if odd (6 :: nat) then s ! (6 div 2) else (s ! (6 div 2) + s ! (6 div 2 - 1)) / 2)"
  by (rule find_median_correct) simp_all

text \<open>
  With equal values, an even number of them and the upper entry found first the median can be
  wrong: the selection of the upper entry marks a position whose value is moved later, and the selection
  of the lower one then stops at the mark.  The median of 0, 0, 2, 1, 1, 1 is 1, the code returns 1/2.
\<close>

lemma find_median_duplicates:
  "RGR_FindMedian True [0, 0, 2, 1, 1, 1] 6 = Some (1 / 2) \<and> sort [0, 0, 2, 1, 1, 1 :: real] ! 3 = 1 \<and> sort [0, 0, 2, 1, 1, 1 :: real] ! 2 = 1"
  by code_simp

section \<open>The robust regression returns\<close>

lemma select_loop_lengths:
  "length (fst (snd (select_loop y g i u v))) = length y \<and> length (snd (snd (select_loop y g i u v))) = length g"
proof (induction y g i u v rule: select_loop.induct)
  case (1 y g i u v)
  obtain z l r where z: "partition_loop (EXCH y u ((u + v) div 2)) v (EXCH y u ((u + v) div 2) ! u) (u + 1) v = (z, l, r)" by (metis prod.exhaust)
  have "length z = length y"
  proof -
    have "length (fst (partition_loop y v p l r)) = length y" for y v p l r
      by (induction y v p l r rule: partition_loop.induct) (subst partition_loop.simps, simp add: Let_def)
    from this [of "EXCH y u ((u + v) div 2)" v "EXCH y u ((u + v) div 2) ! u" "u + 1" v] show ?thesis unfolding z by simp
  qed
  then show ?case using 1(1,2) [OF _ refl refl z [symmetric] refl refl refl] unfolding select_loop.simps [of y g i u v] Let_def z prod.case
    by (auto simp: EXCH_def)
qed

lemma find_ordered_entry_returns:
  assumes "length x = n" "length flags = n" "index < n"
  obtains a x' flags' where "find_ordered_entry_with_flags x n index flags = Some (a, x', flags')" "length x' = n" "length flags' = n"
proof -
  have "find_ordered_entry_with_flags x n index flags \<noteq> None"
    using assms by (simp add: find_ordered_entry_with_flags_def Let_def del: not_None_eq)
  then obtain a x' flags' where e: "find_ordered_entry_with_flags x n index flags = Some (a, x', flags')" by (metis option.exhaust prod.exhaust)
  then have "length x' = n \<and> length flags' = n"
    using assms select_loop_lengths
    by (auto simp: find_ordered_entry_with_flags_def Let_def split: if_splits) (metis fst_conv snd_conv)+
  then show thesis using that e by blast
qed

lemma find_median_returns:
  assumes "0 < n" "length x = n"
  shows "\<exists>a. find_median kf x n = Some a"
proof -
  let ?i = "if kf then n div 2 else n div 2 - 1" and ?j = "if kf then n div 2 - 1 else n div 2"
  have "n div 2 - 1 < n" "n div 2 < n" using assms(1) by linarith+
  then have k: "n div 2 < n" "?i < n" "?j < n" by simp_all
  have f: "length (replicate n False) = n" by simp
  obtain a x' f' where a: "find_ordered_entry_with_flags x n (n div 2) (replicate n False) = Some (a, x', f')"
    by (rule find_ordered_entry_returns [OF assms(2) f k(1)])
  obtain b y g where b: "find_ordered_entry_with_flags x n ?i (replicate n False) = Some (b, y, g)" "length y = n" "length g = n"
    by (rule find_ordered_entry_returns [OF assms(2) f k(2)])
  obtain c z h where c: "find_ordered_entry_with_flags y n ?j g = Some (c, z, h)"
    by (rule find_ordered_entry_returns [OF b(2,3) k(3)])
  have "find_median kf x n \<noteq> None"
    unfolding find_median_def Let_def b(1) option.case prod.case c using a by (simp del: not_None_eq)
  then show ?thesis by blast
qed

lemma eval_returns: "0 < n \<Longrightarrow> n \<le> length x \<Longrightarrow> n \<le> length y \<Longrightarrow> \<exists>a r. eval_robust_residual kf x y n b = Some (a, r)"
  using find_median_returns [of n "map (\<lambda>i. y ! i - b * x ! i) [0..<n]"] by (auto simp: eval_robust_residual_def Let_def)

lemma expand_returns:
  assumes "0 < n" "n \<le> length x" "n \<le> length y" "100 < incr * 2 ^ k"
  shows "\<exists>res. expand_range kf x y n b incr = Some res \<and> (\<forall>blo bhi rlo rhi a. res = Some (blo, bhi, rlo, rhi, a) \<longrightarrow> rlo * rhi < 0)"
  using assms(4)
proof (induction k arbitrary: incr)
  case 0
  then show ?case by (subst expand_range.simps) simp
next
  case (Suc k)
  obtain a r where 1: "eval_robust_residual kf x y n (b - incr * 2) = Some (a, r)" using eval_returns [OF assms(1-3)] by blast
  obtain a' r' where 2: "eval_robust_residual kf x y n (b + incr * 2) = Some (a', r')" using eval_returns [OF assms(1-3)] by blast
  have "100 < (incr * 2) * 2 ^ k" using Suc(2) by (simp add: algebra_simps)
  from Suc(1) [OF this] show ?case by (subst expand_range.simps) (auto simp: 1 2 not_le)
qed

lemma bisect_returns:
  assumes "0 < n" "n \<le> length x" "n \<le> length y" "0 < tol" "bhi - blo \<le> tol * 2 ^ k" "rlo * rhi < 0"
  shows "\<exists>res. bisect kf x y n tol a blo bhi rlo rhi = Some res"
  using assms(5,6)
proof (induction k arbitrary: a blo bhi rlo rhi)
  case 0
  let ?m = "0.5 * (blo + bhi)"
  obtain c r where e: "eval_robust_residual kf x y n ?m = Some (c, r)" using eval_returns [OF assms(1-3)] by blast
  have "rhi * r > 0" if "r \<noteq> 0" "\<not> rlo * r > 0" using that 0(2) by (auto simp: zero_less_mult_iff mult_less_0_iff)
  moreover have t: "bhi - blo \<le> tol" using 0(1) by simp
  moreover have "bhi - ?m \<le> tol \<or> \<not> blo < ?m" "?m - blo \<le> tol \<or> \<not> ?m < bhi" using t assms(4) by linarith+
  ultimately have "bisect kf x y n tol a blo bhi rlo rhi \<noteq> None" using e by (subst bisect.simps) (auto simp: Let_def mult.commute [of r] simp del: not_None_eq)
  then show ?case by blast
next
  case (Suc k)
  let ?m = "0.5 * (blo + bhi)"
  obtain c r where e: "eval_robust_residual kf x y n ?m = Some (c, r)" using eval_returns [OF assms(1-3)] by blast
  show ?case
  proof (cases "blo < ?m \<and> ?m < bhi \<and> r \<noteq> 0")
    case True
    have h: "bhi - ?m \<le> tol * 2 ^ k" "?m - blo \<le> tol * 2 ^ k" using Suc(2) by (simp_all add: field_simps)
    have s: "rhi * r > 0 \<and> rlo * r < 0" if "\<not> r * rlo > 0" using that Suc(3) True by (auto simp: zero_less_mult_iff mult_less_0_iff)
    have "bisect kf x y n tol c ?m bhi r rhi \<noteq> None" if "r * rlo > 0"
      using Suc(1) [OF h(1), of r rhi c] Suc(3) that by (auto simp: zero_less_mult_iff mult_less_0_iff)
    moreover have "bisect kf x y n tol c blo ?m rlo r \<noteq> None" if "\<not> r * rlo > 0"
      using Suc(1) [OF h(2), of rlo r c] s [OF that] by auto
    ultimately have "bisect kf x y n tol a blo bhi rlo rhi \<noteq> None"
      using True e s by (subst bisect.simps) (simp add: Let_def mult.commute [of r] del: not_None_eq)
    then show ?thesis by blast
  next
    case False
    then have "bisect kf x y n tol a blo bhi rlo rhi \<noteq> None" using e by (subst bisect.simps) (auto simp: Let_def simp del: not_None_eq)
    then show ?thesis by blast
  qed
qed

text \<open>
  What a result of the loop promises: three points are left, or more and the residuals of the line
  that was found pass the test of runs.
\<close>

definition robust_ok :: "real list \<Rightarrow> real list \<Rightarrow> nat \<Rightarrow> RobustRegression \<Rightarrow> bool" where
  "robust_ok x y n r \<longleftrightarrow> best_start r + 3 = n \<or>
     best_start r + 3 < n \<and> rob_n_runs r = n_runs_from_residuals (map (\<lambda>i. y ! i - rob_b0 r - rob_b1 r * x ! i) [best_start r..<n]) \<and>
     critical_runs ! (n - best_start r) < rob_n_runs r"

lemma robust_round:
  assumes "n \<le> 64" "n \<le> length x" "n \<le> length y" "0 < tol" "start + 3 \<le> n"
  shows "(\<exists>res. robust_loop kf x y n tol nruns start = Some res \<and> (\<forall>r. res = Some r \<longrightarrow> robust_ok x y n r)) \<or>
    (start + 3 < n \<and> (\<exists>k. robust_loop kf x y n tol nruns start = robust_loop kf x y n tol k (start + 1)))"
proof -
  let ?n = "n - start" and ?x = "drop start x" and ?y = "drop start y"
  define my where "my = (\<Sum>i\<leftarrow>[start..<n]. y ! i) / real ?n"
  define mx where "mx = (\<Sum>i\<leftarrow>[start..<n]. x ! i) / real ?n"
  define V where "V = (\<Sum>i\<leftarrow>[start..<n]. (x ! i - mx) * (x ! i - mx))"
  define b where "b = (\<Sum>i\<leftarrow>[start..<n]. (y ! i - my) * (x ! i - mx)) / V"
  define a where "a = my - b * mx"
  define ss where "ss = (\<Sum>i\<leftarrow>[start..<n]. (y ! i - a - b * x ! i) * (y ! i - a - b * x ! i))"
  define incr where "incr = max (sqrt (ss * real ?n / V)) tol"
  have l: "0 < ?n" "?n \<le> length ?x" "?n \<le> length ?y" "?n < length critical_runs" using assms by auto
  have pos: "0 < incr" using assms(4) by (simp add: incr_def)
  obtain k where "100 / incr < 2 ^ k" using real_arch_pow [of 2 "100 / incr"] by auto
  then have "100 < incr * 2 ^ k" using pos by (simp add: field_simps)
  from expand_returns [OF l(1-3) this, of kf b] obtain res where
    res: "expand_range kf ?x ?y ?n b incr = Some res" "\<And>blo bhi rlo rhi a. res = Some (blo, bhi, rlo, rhi, a) \<Longrightarrow> rlo * rhi < 0" by blast
  note unf = robust_loop.simps [of kf x y n tol nruns start, unfolded Let_def, folded my_def, folded mx_def, folded V_def, folded b_def, folded a_def,
      folded ss_def, folded incr_def]
  show ?thesis
  proof (cases res)
    case None
    then show ?thesis using res(1) unf by simp
  next
    case (Some r)
    obtain blo bhi rlo rhi c where r: "r = (blo, bhi, rlo, rhi, c)" by (metis prod.exhaust)
    obtain j where "(bhi - blo) / tol < 2 ^ j" using real_arch_pow [of 2 "(bhi - blo) / tol"] by auto
    then have "bhi - blo \<le> tol * 2 ^ j" using assms(4) by (simp add: field_simps)
    from bisect_returns [OF l(1-3) assms(4) this] res(2) Some r obtain a' bmid where
      "bisect kf ?x ?y ?n tol c blo bhi rlo rhi = Some (a', bmid)" by (metis prod.exhaust)
    then show ?thesis using res(1) Some r unf l(4) assms(5) by (auto simp: Let_def robust_ok_def)
  qed
qed

text \<open>
  C38.  The robust regression returns for every data of up to 64 points with different times and every
  positive tolerance: the range of the slope is expanded at most until it is too large, the bisection
  ends and the assertion in it does not fail.  A result is the line through two points, or it leaves
  at least three points and the residuals of the line pass the test of runs unless exactly three are
  left.  (With equal times the slope is a division by zero, which the model does not cover.)
\<close>

theorem robust_regression_returns:
  assumes "n \<le> 64" "n \<le> length x" "n \<le> length y" "0 < tol" "distinct (take n x)"
  shows "\<exists>res. RGR_FindBestRobustRegression kf x y n tol = Some res \<and> (n < 2 \<longrightarrow> res = None) \<and>
    (n = 2 \<longrightarrow> (\<exists>r. res = Some r \<and> best_start r = 0 \<and> (\<forall>i<2. y ! i = rob_b0 r + rob_b1 r * x ! i))) \<and>
    (3 \<le> n \<longrightarrow> (\<forall>r. res = Some r \<longrightarrow> best_start r + 3 \<le> n \<and> robust_ok x y n r))"
proof (cases "n \<le> 2")
  case True
  have "x ! 0 \<noteq> x ! 1" if "n = 2"
    using assms(2,5) that nth_eq_iff_index_eq [OF assms(5), of 0 1] by simp
  moreover have "y ! 1 = y ! 0 - (y ! 1 - y ! 0) / d * x ! 0 + (y ! 1 - y ! 0) / d * x ! 1"
    if "d = x ! 1 - x ! 0" "d \<noteq> 0" for d
  proof -
    have e: "y ! 0 - k * x ! 0 + k * x ! 1 = y ! 0 + k * d" for k unfolding that(1) by (simp add: algebra_simps)
    show ?thesis unfolding e using that(2) by simp
  qed
  ultimately show ?thesis using True assms(2,3)
    by (cases "n = 2") (auto simp: RGR_FindBestRobustRegression_def Let_def less_2_cases_iff)
next
  case False
  have "\<exists>res. robust_loop kf x y n tol nruns start = Some res \<and> (\<forall>r. res = Some r \<longrightarrow> robust_ok x y n r)"
    if "start + 3 + k = n" for k nruns start
    using that
  proof (induction k arbitrary: start nruns)
    case 0
    then show ?case using robust_round [OF assms(1-4), of start] by auto
  next
    case (Suc k)
    have ih: "\<exists>res. robust_loop kf x y n tol r (start + 1) = Some res \<and> (\<forall>r. res = Some r \<longrightarrow> robust_ok x y n r)" for r
      by (rule Suc(1)) (use Suc(2) in simp)
    have "start + 3 \<le> n" using Suc(2) by simp
    from robust_round [OF assms(1-4) this, of kf nruns] show ?case
    proof (elim disjE conjE exE)
      fix k
      assume eq: "robust_loop kf x y n tol nruns start = robust_loop kf x y n tol k (start + 1)"
      show ?thesis unfolding eq by (rule ih)
    qed blast
  qed
  from this [of 0 "n - 3" 0] show ?thesis using False assms
    by (auto simp: RGR_FindBestRobustRegression_def Let_def robust_ok_def)
qed

theorem robust_regression_returns_witness:
  "\<exists>res. RGR_FindBestRobustRegression True [0, 1, 2, 3] [1, 3, 2, 9] 4 (1 / 1000) = Some res \<and>
     (\<forall>r. res = Some r \<longrightarrow> best_start r + 3 \<le> 4 \<and> robust_ok [0, 1, 2, 3] [1, 3, 2, 9] 4 r)"
  using robust_regression_returns [of 4 "[0, 1, 2, 3]" "[1, 3, 2, 9]" "1 / 1000" True] by auto

end
