(* ===== verification/Sourcestats.thy ===== *)
theory Sourcestats
  imports Regress Timespec Addressing
begin

text \<open>
  The statistics of a source: \<open>sourcestats.c\<close>.  The samples are in two circular buffers: the times, the
  offsets and the peer delays in one of 128 elements, which also keeps older samples for the
  test of runs, and the other values in one of 64 elements.  The arrays have their fixed lengths, and every index is
  reduced by the length.  \<open>precision\<close> is the precision of the clock (\<open>LCL_GetSysPrecisionAsQuantum\<close>) and
  \<open>max_jitter\<close> the configured limit (\<open>CNF_GetMaxJitter\<close>); \<open>kf\<close> is the order in which the median finds its two
  entries.  \<open>None\<close> is a failed assertion.
\<close>

abbreviation (input) MAX_SAMPLES :: nat where "MAX_SAMPLES \<equiv> 64"
abbreviation (input) WORST_CASE_FREQ_BOUND :: real where "WORST_CASE_FREQ_BOUND \<equiv> 2000 / 10 ^ 6"
abbreviation (input) MIN_SKEW :: real where "MIN_SKEW \<equiv> 1 / 10 ^ 12"
abbreviation (input) MAX_SKEW :: real where "MAX_SKEW \<equiv> 1"
abbreviation (input) MIN_STDDEV :: real where "MIN_STDDEV \<equiv> 1 / 10 ^ 9"
abbreviation (input) WORST_CASE_STDDEV_BOUND :: real where "WORST_CASE_STDDEV_BOUND \<equiv> 4"
abbreviation (input) MAX_ASYMMETRY :: real where "MAX_ASYMMETRY \<equiv> 1 / 2"
abbreviation (input) MIN_ASYMMETRY :: real where "MIN_ASYMMETRY \<equiv> 45 / 100"
abbreviation (input) MIN_ASYMMETRY_RUN :: int where "MIN_ASYMMETRY_RUN \<equiv> 10"
abbreviation (input) MAX_ASYMMETRY_RUN :: int where "MAX_ASYMMETRY_RUN \<equiv> 1000"
abbreviation (input) SD_TO_DIST_RATIO :: real where "SD_TO_DIST_RATIO \<equiv> 7 / 10"

text \<open>The largest double.\<close>

definition DBL_MAX :: real where
  "DBL_MAX = (2 - 1 / 2 ^ 52) * 2 ^ 1023"

section \<open>The instance\<close>

record NTP_Sample =
  sm_time :: timespec
  sm_offset :: real
  sm_peer_delay :: real
  sm_peer_dispersion :: real
  sm_root_delay :: real
  sm_root_dispersion :: real

record SST_Stats =
  refid :: u32
  st_ip_addr :: "IPAddr option"
  min_samples :: nat
  max_samples :: nat
  fixed_min_delay :: real
  fixed_asymmetry :: real
  n_samples :: nat
  runs_samples :: nat
  last_sample :: nat
  regression_ok :: bool
  best_single_sample :: nat
  min_delay_sample :: nat
  estimated_offset :: real
  estimated_offset_sd :: real
  offset_time :: timespec
  nruns :: nat
  asymmetry_run :: int
  asymmetry :: real
  estimated_frequency :: real
  estimated_frequency_sd :: real
  skew :: real
  std_dev :: real
  sample_times :: "timespec list"
  offsets :: "real list"
  orig_offsets :: "real list"
  peer_delays :: "real list"
  peer_dispersions :: "real list"
  root_delays :: "real list"
  root_dispersions :: "real list"

definition SST_ResetInstance :: "SST_Stats \<Rightarrow> SST_Stats" where
  "SST_ResetInstance inst = inst\<lparr>n_samples := 0, runs_samples := 0, last_sample := 0, regression_ok := False, best_single_sample := 0,
     min_delay_sample := 0, estimated_frequency := 0, estimated_frequency_sd := WORST_CASE_FREQ_BOUND, skew := WORST_CASE_FREQ_BOUND,
     estimated_offset := 0, estimated_offset_sd := WORST_CASE_STDDEV_BOUND, offset_time := UTI_ZeroTimespec,
     std_dev := WORST_CASE_STDDEV_BOUND, nruns := 0, asymmetry_run := 0, asymmetry := 0\<rparr>"

definition SST_SetRefid :: "u32 \<Rightarrow> IPAddr option \<Rightarrow> SST_Stats \<Rightarrow> SST_Stats" where
  "SST_SetRefid id' addr inst = inst\<lparr>refid := id', st_ip_addr := addr\<rparr>"

text \<open>\<open>memory\<close> is the allocated memory.\<close>

definition SST_CreateInstance :: "SST_Stats \<Rightarrow> u32 \<Rightarrow> IPAddr option \<Rightarrow> int \<Rightarrow> int \<Rightarrow> real \<Rightarrow> real \<Rightarrow> SST_Stats" where
  "SST_CreateInstance memory id' addr min_s max_s min_delay asy =
     (let max_s = (if max_s > 0 then CLAMP 1 max_s (int MAX_SAMPLES) else int MAX_SAMPLES);
          inst = memory\<lparr>max_samples := nat max_s, min_samples := nat (CLAMP 1 min_s max_s), fixed_min_delay := min_delay, fixed_asymmetry := asy\<rparr> in
      SST_ResetInstance (SST_SetRefid id' addr inst))"

text \<open>The position of a sample; a sum that wraps around in 32 bits has the same remainders.\<close>

definition get_runsbuf_index :: "SST_Stats \<Rightarrow> int \<Rightarrow> nat" where
  "get_runsbuf_index inst i =
     nat ((int (last_sample inst) + 2 * int (MAX_SAMPLES * REGRESS_RUNS_RATIO) - int (n_samples inst) + i + 1) mod int (MAX_SAMPLES * REGRESS_RUNS_RATIO))"

definition get_buf_index :: "SST_Stats \<Rightarrow> int \<Rightarrow> nat" where
  "get_buf_index inst i =
     nat ((int (last_sample inst) + int (MAX_SAMPLES * REGRESS_RUNS_RATIO) - int (n_samples inst) + i + 1) mod int MAX_SAMPLES)"

definition find_min_delay_sample :: "SST_Stats \<Rightarrow> SST_Stats" where
  "find_min_delay_sample inst =
     inst\<lparr>min_delay_sample := foldl (\<lambda>best i. let index = get_runsbuf_index inst i in
         if peer_delays inst ! index < peer_delays inst ! best then index else best)
       (get_runsbuf_index inst (- int (runs_samples inst))) [- int (runs_samples inst) + 1..int (n_samples inst) - 1]\<rparr>"

definition prune_register :: "nat \<Rightarrow> SST_Stats \<Rightarrow> SST_Stats option" where
  "prune_register new_oldest inst =
     (if new_oldest = 0 then Some inst
      else if \<not> n_samples inst \<ge> new_oldest then None
      else
        let inst = inst\<lparr>n_samples := n_samples inst - new_oldest, runs_samples := runs_samples inst + new_oldest\<rparr>;
            inst = (if runs_samples inst > n_samples inst * (REGRESS_RUNS_RATIO - 1)
                    then inst\<lparr>runs_samples := n_samples inst * (REGRESS_RUNS_RATIO - 1)\<rparr> else inst) in
        if \<not> n_samples inst + runs_samples inst \<le> MAX_SAMPLES * REGRESS_RUNS_RATIO then None
        else Some (find_min_delay_sample inst))"

definition SST_AccumulateSample :: "NTP_Sample \<Rightarrow> SST_Stats \<Rightarrow> SST_Stats option" where
  "SST_AccumulateSample sample inst =
     Option.bind
       (if n_samples inst > 0 \<and> (n_samples inst = MAX_SAMPLES \<or> n_samples inst = max_samples inst) then prune_register 1 inst else Some inst)
       (\<lambda>inst.
         let inst = (if n_samples inst > 0 \<and> UTI_CompareTimespecs (sample_times inst ! last_sample inst) (sm_time sample) \<ge> 0
                     then SST_ResetInstance inst else inst);
             n = (last_sample inst + 1) mod (MAX_SAMPLES * REGRESS_RUNS_RATIO);
             m = n mod MAX_SAMPLES;
             delay = (if sm_peer_delay sample < fixed_min_delay inst then 2 * fixed_min_delay inst - sm_peer_delay sample else sm_peer_delay sample);
             delays = (peer_delays inst)[n := delay] in
         Some (inst\<lparr>last_sample := n, sample_times := (sample_times inst)[n := sm_time sample],
                    offsets := (offsets inst)[n := - sm_offset sample], orig_offsets := (orig_offsets inst)[m := - sm_offset sample],
                    peer_delays := delays, peer_dispersions := (peer_dispersions inst)[m := sm_peer_dispersion sample],
                    root_delays := (root_delays inst)[m := sm_root_delay sample],
                    root_dispersions := (root_dispersions inst)[m := sm_root_dispersion sample],
                    min_delay_sample := (if n_samples inst = 0 \<or> delays ! n < delays ! min_delay_sample inst then n else min_delay_sample inst),
                    n_samples := n_samples inst + 1\<rparr>))"

section \<open>Regression\<close>

text \<open>The list begins with the extra samples.\<close>

definition convert_to_intervals :: "SST_Stats \<Rightarrow> real list" where
  "convert_to_intervals inst =
     map (\<lambda>i. UTI_DiffTimespecsToDouble (sample_times inst ! get_runsbuf_index inst i) (sample_times inst ! last_sample inst))
       [- int (runs_samples inst)..int (n_samples inst) - 1]"

text \<open>One step of the search for the sample with the smallest root distance; \<open>best\<close> has its index and the distance.\<close>

definition best_sample_step :: "SST_Stats \<Rightarrow> real list \<Rightarrow> nat \<Rightarrow> (nat option \<times> real) option \<Rightarrow> (nat option \<times> real) option" where
  "best_sample_step inst times_back i best = Option.bind best (\<lambda>(best_index, best_root_distance).
     let j = get_buf_index inst (int i);
         elapsed = - (times_back ! i) in
     if \<not> elapsed \<ge> 0 then None
     else
       let root_distance = root_dispersions inst ! j + elapsed * skew inst + 0.5 * root_delays inst ! j in
       Some (if root_distance < best_root_distance then (Some i, root_distance) else (best_index, best_root_distance)))"

definition find_best_sample_index :: "real list \<Rightarrow> SST_Stats \<Rightarrow> SST_Stats option" where
  "find_best_sample_index times_back inst =
     (if n_samples inst = 0 then Some inst
      else case fold (best_sample_step inst times_back) [0..<n_samples inst] (Some (None, DBL_MAX)) of
          Some (Some i, _) \<Rightarrow> Some (inst\<lparr>best_single_sample := i\<rparr>)
        | _ \<Rightarrow> None)"

definition SST_MinRoundTripDelay :: "SST_Stats \<Rightarrow> real" where
  "SST_MinRoundTripDelay inst =
     (if fixed_min_delay inst > 0 then fixed_min_delay inst
      else if n_samples inst = 0 then DBL_MAX
      else peer_delays inst ! min_delay_sample inst)"

text \<open>The asymmetry and the run, and whether the offsets are to be corrected.\<close>

definition estimate_asymmetry :: "real list \<Rightarrow> real list \<Rightarrow> real list \<Rightarrow> nat \<Rightarrow> real \<Rightarrow> int \<Rightarrow> (bool \<times> real \<times> int) option" where
  "estimate_asymmetry times_back offs delays n asy run =
     (case RGR_MultipleRegress times_back delays offs n of
        None \<Rightarrow> None
      | Some None \<Rightarrow> Some (False, 0, 0)
      | Some (Some a) \<Rightarrow>
          if a * of_int run < 0 then Some (False, 0, 0)
          else
            let run = (if a \<le> - MIN_ASYMMETRY \<and> run > - MAX_ASYMMETRY_RUN then run - 1
                       else if a \<ge> MIN_ASYMMETRY \<and> run < MAX_ASYMMETRY_RUN then run + 1 else run) in
            if \<bar>run\<bar> < MIN_ASYMMETRY_RUN then Some (False, asy, run)
            else Some (True, CLAMP (- MAX_ASYMMETRY) a MAX_ASYMMETRY, run))"

definition correct_asymmetry :: "real list \<Rightarrow> real list \<Rightarrow> SST_Stats \<Rightarrow> (real list \<times> SST_Stats) option" where
  "correct_asymmetry times_back offs inst =
     (if fixed_asymmetry inst = 0 then Some (offs, inst)
      else
        let min_delay = SST_MinRoundTripDelay inst;
            n = runs_samples inst + n_samples inst;
            delays = map (\<lambda>i. peer_delays inst ! get_runsbuf_index inst (int i - int (runs_samples inst)) - min_delay) [0..<n];
            correct = (\<lambda>inst. map (\<lambda>i. offs ! i - asymmetry inst * delays ! i) [0..<n]) in
        if \<bar>fixed_asymmetry inst\<bar> \<le> MAX_ASYMMETRY then
          let inst = inst\<lparr>asymmetry := fixed_asymmetry inst\<rparr> in Some (correct inst, inst)
        else case estimate_asymmetry times_back offs delays n (asymmetry inst) (asymmetry_run inst) of
            None \<Rightarrow> None
          | Some (ok, asy, run) \<Rightarrow>
              let inst = inst\<lparr>asymmetry := asy, asymmetry_run := run\<rparr> in
              Some (if ok then correct inst else offs, inst))"

text \<open>The weights of the samples, from their distances.\<close>

definition sample_weights :: "bool \<Rightarrow> real \<Rightarrow> real list \<Rightarrow> real list option" where
  "sample_weights kf precision distances =
     (let min_distance = foldl (\<lambda>m d. if d < m then d else m) DBL_MAX distances in
      map_option (\<lambda>median_distance.
        let sd = (median_distance - min_distance) / SD_TO_DIST_RATIO;
            sd = CLAMP precision sd min_distance;
            min_distance = min_distance + precision in
        map (\<lambda>d. let sd_weight = 1 + (if d > min_distance then (d - min_distance) / sd else 0) in sd_weight * sd_weight) distances)
      (RGR_FindMedian kf distances (length distances)))"

definition SST_DoNewRegression :: "bool \<Rightarrow> real \<Rightarrow> SST_Stats \<Rightarrow> SST_Stats option" where
  "SST_DoNewRegression kf precision inst =
     (let times_back = convert_to_intervals inst in
      Option.bind
        (if n_samples inst > 0 then
           let offs = map (\<lambda>i. offsets inst ! get_runsbuf_index inst i) [- int (runs_samples inst)..int (n_samples inst) - 1];
               distances = map (\<lambda>i. 0.5 * peer_delays inst ! get_runsbuf_index inst (int i) + peer_dispersions inst ! get_buf_index inst (int i))
                 [0..<n_samples inst] in
           Option.bind (sample_weights kf precision distances) (\<lambda>weights.
             map_option (\<lambda>(offs, inst). (offs, weights, inst)) (correct_asymmetry times_back offs inst))
         else Some ([], [], inst))
        (\<lambda>(offs, weights, inst).
          Option.bind (RGR_FindBestRegression times_back offs weights (n_samples inst) (runs_samples inst) (min_samples inst)) (\<lambda>res.
            case res of
              Some r \<Rightarrow>
                Option.bind (RGR_GetTCoef (dof r)) (\<lambda>coef.
                  let inst' = inst\<lparr>regression_ok := True, estimated_frequency := b1 r, estimated_frequency_sd := CLAMP MIN_SKEW (sb1 r) MAX_SKEW,
                        estimated_offset := b0 r, offset_time := sample_times inst ! last_sample inst, estimated_offset_sd := sb0 r,
                        std_dev := max MIN_STDDEV (sqrt (s2 r)), nruns := n_runs r, skew := CLAMP MIN_SKEW (sb1 r * coef) MAX_SKEW\<rparr> in
                  Option.bind (prune_register (new_start r) inst') (find_best_sample_index (drop (runs_samples inst + new_start r) times_back)))
            | None \<Rightarrow>
                let inst' = inst\<lparr>regression_ok := False, estimated_frequency_sd := WORST_CASE_FREQ_BOUND, skew := WORST_CASE_FREQ_BOUND,
                      estimated_offset_sd := WORST_CASE_STDDEV_BOUND, std_dev := WORST_CASE_STDDEV_BOUND, nruns := 0,
                      estimated_offset := (if n_samples inst > 0 then offsets inst ! last_sample inst else 0),
                      offset_time := (if n_samples inst > 0 then sample_times inst ! last_sample inst else UTI_ZeroTimespec)\<rparr> in
                find_best_sample_index times_back inst')))"

section \<open>Using the estimates\<close>

definition SST_GetFrequencyRange :: "SST_Stats \<Rightarrow> real \<times> real" where
  "SST_GetFrequencyRange inst =
     (if skew inst > WORST_CASE_FREQ_BOUND then (- WORST_CASE_FREQ_BOUND, WORST_CASE_FREQ_BOUND)
      else (estimated_frequency inst - skew inst, estimated_frequency inst + skew inst))"

record SelectionData =
  offset_lo_limit :: real
  offset_hi_limit :: real
  sd_root_distance :: real
  sd_std_dev :: real
  first_sample_ago :: real
  sd_last_sample_ago :: real

text \<open>\<open>None\<close> is when there is no sample and nothing is set; otherwise the values that are set and the returned status.\<close>

definition SST_GetSelectionData :: "real \<Rightarrow> timespec \<Rightarrow> SST_Stats \<Rightarrow> (bool \<times> SelectionData) option" where
  "SST_GetSelectionData max_jitter now inst =
     (if n_samples inst = 0 then None
      else
        let i = get_runsbuf_index inst (int (best_single_sample inst));
            j = get_buf_index inst (int (best_single_sample inst));
            sample_elapsed = \<bar>UTI_DiffTimespecsToDouble now (sample_times inst ! i)\<bar>;
            offset = offsets inst ! i + sample_elapsed * estimated_frequency inst;
            distance = 0.5 * root_delays inst ! j + root_dispersions inst ! j + sample_elapsed * skew inst;
            special = (\<not> regression_ok inst \<and> n_samples inst < MIN_SAMPLES_FOR_REGRESS \<and> n_samples inst = max_samples inst) in
        Some (special \<or> regression_ok inst,
          \<lparr>offset_lo_limit = offset - distance, offset_hi_limit = offset + distance, sd_root_distance = distance,
           sd_std_dev = (if special then max_jitter else std_dev inst),
           first_sample_ago = UTI_DiffTimespecsToDouble now (sample_times inst ! get_runsbuf_index inst 0),
           sd_last_sample_ago = UTI_DiffTimespecsToDouble now (sample_times inst ! get_runsbuf_index inst (int (n_samples inst) - 1))\<rparr>))"

record TrackingData =
  ref_time :: timespec
  average_offset :: real
  offset_sd :: real
  td_frequency :: real
  td_frequency_sd :: real
  td_skew :: real
  td_root_delay :: real
  td_root_dispersion :: real

definition SST_GetTrackingData :: "SST_Stats \<Rightarrow> TrackingData option" where
  "SST_GetTrackingData inst =
     (if \<not> n_samples inst > 0 then None
      else
        let i = get_runsbuf_index inst (int (best_single_sample inst));
            j = get_buf_index inst (int (best_single_sample inst));
            elapsed_sample = UTI_DiffTimespecsToDouble (offset_time inst) (sample_times inst ! i) in
        Some \<lparr>ref_time = offset_time inst, average_offset = estimated_offset inst, offset_sd = estimated_offset_sd inst,
              td_frequency = estimated_frequency inst, td_frequency_sd = estimated_frequency_sd inst, td_skew = skew inst,
              td_root_delay = root_delays inst ! j,
              td_root_dispersion = root_dispersions inst ! j + skew inst * elapsed_sample + estimated_offset_sd inst\<rparr>)"

definition slew_sample :: "timespec \<Rightarrow> real \<Rightarrow> real \<Rightarrow> int \<Rightarrow> SST_Stats \<Rightarrow> SST_Stats" where
  "slew_sample when dfreq doffset m inst =
     (let i = get_runsbuf_index inst m in
      case UTI_AdjustTimespec (sample_times inst ! i) when dfreq doffset of
        (t, delta_time) \<Rightarrow> inst\<lparr>sample_times := (sample_times inst)[i := t], offsets := (offsets inst)[i := offsets inst ! i + delta_time]\<rparr>)"

definition SST_SlewSamples :: "timespec \<Rightarrow> real \<Rightarrow> real \<Rightarrow> SST_Stats \<Rightarrow> SST_Stats" where
  "SST_SlewSamples when dfreq doffset inst =
     (if n_samples inst = 0 then inst
      else
        let inst = fold (slew_sample when dfreq doffset) [- int (runs_samples inst)..int (n_samples inst) - 1] inst in
        case UTI_AdjustTimespec (offset_time inst) when dfreq doffset of
          (t, delta_time) \<Rightarrow> inst\<lparr>offset_time := t, estimated_offset := estimated_offset inst + delta_time,
            estimated_frequency := (estimated_frequency inst - dfreq) / (1 - dfreq)\<rparr>)"

definition SST_CorrectOffset :: "real \<Rightarrow> SST_Stats \<Rightarrow> SST_Stats" where
  "SST_CorrectOffset doffset inst =
     (if n_samples inst = 0 then inst
      else
        let inst = fold (\<lambda>i inst. let k = get_runsbuf_index inst i in inst\<lparr>offsets := (offsets inst)[k := offsets inst ! k + doffset]\<rparr>)
              [- int (runs_samples inst)..int (n_samples inst) - 1] inst in
        inst\<lparr>estimated_offset := estimated_offset inst + doffset\<rparr>)"

definition SST_AddDispersion :: "real \<Rightarrow> SST_Stats \<Rightarrow> SST_Stats" where
  "SST_AddDispersion dispersion inst =
     fold (\<lambda>m inst. let i = get_buf_index inst (int m) in
         inst\<lparr>root_dispersions := (root_dispersions inst)[i := root_dispersions inst ! i + dispersion],
              peer_dispersions := (peer_dispersions inst)[i := peer_dispersions inst ! i + dispersion]\<rparr>)
       [0..<n_samples inst] inst"

definition SST_PredictOffset :: "timespec \<Rightarrow> SST_Stats \<Rightarrow> real" where
  "SST_PredictOffset when inst =
     (if n_samples inst < MIN_SAMPLES_FOR_REGRESS then if n_samples inst > 0 then offsets inst ! last_sample inst else 0
      else estimated_offset inst + UTI_DiffTimespecsToDouble when (offset_time inst) * estimated_frequency inst)"

text \<open>The age of the last sample, the predicted offset, the minimum delay, the skew and the standard deviation.\<close>

definition SST_GetDelayTestData :: "timespec \<Rightarrow> SST_Stats \<Rightarrow> (real \<times> real \<times> real \<times> real \<times> real) option" where
  "SST_GetDelayTestData sample_time inst =
     (if n_samples inst < 6 then None
      else
        let ago = UTI_DiffTimespecsToDouble sample_time (offset_time inst) in
        Some (ago, estimated_offset inst + ago * estimated_frequency inst, SST_MinRoundTripDelay inst, skew inst, std_dev inst))"

section \<open>Reports\<close>

text \<open>
  The fields of the reports that the statistics set; \<open>None\<close> is a field that is left as it was. A double is
  converted to an integer by truncation; the conversion of a negative age to the unsigned type of the
  report is undefined in C and keeps the negative number here.
\<close>

record RPT_SourceReport =
  orig_latest_meas :: real
  latest_meas :: real
  latest_meas_err :: real
  latest_meas_ago :: int
  rpt_stratum :: "int option"

definition SST_DoSourceReport :: "timespec \<Rightarrow> SST_Stats \<Rightarrow> RPT_SourceReport" where
  "SST_DoSourceReport now inst =
     (if n_samples inst > 0 then
        let i = get_runsbuf_index inst (int (n_samples inst) - 1);
            j = get_buf_index inst (int (n_samples inst) - 1);
            last_sample_time = (if st_ip_addr inst \<noteq> None then Timespec (tv_sec (sample_times inst ! i)) 0 else sample_times inst ! i) in
        \<lparr>orig_latest_meas = orig_offsets inst ! j, latest_meas = offsets inst ! i,
         latest_meas_err = 0.5 * root_delays inst ! j + root_dispersions inst ! j,
         latest_meas_ago = c_trunc (UTI_DiffTimespecsToDouble now last_sample_time), rpt_stratum = None\<rparr>
      else \<lparr>orig_latest_meas = 0, latest_meas = 0, latest_meas_err = 0, latest_meas_ago = 2 ^ 32 - 1, rpt_stratum = Some 0\<rparr>)"

record RPT_SourcestatsReport =
  rpt_n_samples :: nat
  rpt_n_runs :: nat
  span_seconds :: int
  est_offset :: real
  est_offset_err :: real
  resid_freq_ppm :: real
  skew_ppm :: real
  rpt_sd :: real

definition round_half_away :: "real \<Rightarrow> int" where
  "round_half_away x = (if x < 0 then - \<lfloor>- x + 1 / 2\<rfloor> else \<lfloor>x + 1 / 2\<rfloor>)"

definition SST_DoSourcestatsReport :: "timespec \<Rightarrow> SST_Stats \<Rightarrow> RPT_SourcestatsReport" where
  "SST_DoSourcestatsReport now inst =
     (let report = \<lparr>rpt_n_samples = n_samples inst, rpt_n_runs = nruns inst, span_seconds = 0, est_offset = 0, est_offset_err = 0,
            resid_freq_ppm = 10 ^ 6 * estimated_frequency inst, skew_ppm = 10 ^ 6 * skew inst, rpt_sd = std_dev inst\<rparr> in
      if n_samples inst > 0 then
        let bi = get_runsbuf_index inst (int (best_single_sample inst));
            bj = get_buf_index inst (int (best_single_sample inst));
            dspan = UTI_DiffTimespecsToDouble (sample_times inst ! last_sample inst) (sample_times inst ! get_runsbuf_index inst 0);
            elapsed = UTI_DiffTimespecsToDouble now (offset_time inst);
            sample_elapsed = UTI_DiffTimespecsToDouble now (sample_times inst ! bi) in
        report\<lparr>span_seconds := round_half_away dspan,
          est_offset := estimated_offset inst + elapsed * estimated_frequency inst,
          est_offset_err := estimated_offset_sd inst + sample_elapsed * skew inst + (0.5 * root_delays inst ! bj + root_dispersions inst ! bj)\<rparr>
      else report)"

section \<open>Saving and loading\<close>

text \<open>The values of a line of the dump file: the time, the offset, the original offset, and the delays and dispersions.\<close>

type_synonym saved_sample = "real \<times> real \<times> real \<times> real \<times> real \<times> real \<times> real"

definition SST_SaveToFile :: "SST_Stats \<Rightarrow> (int \<times> saved_sample list) option" where
  "SST_SaveToFile inst =
     (if n_samples inst < 1 then None
      else Some (asymmetry_run inst, map (\<lambda>m. let i = get_runsbuf_index inst (int m); j = get_buf_index inst (int m) in
        (UTI_TimespecToDouble (sample_times inst ! i), offsets inst ! i, orig_offsets inst ! j, peer_delays inst ! i, peer_dispersions inst ! j,
         root_delays inst ! j, root_dispersions inst ! j)) [0..<n_samples inst]))"

text \<open>A line is stored in the elements \<open>i\<close> of the buffers.  \<open>now\<close> is the cooked time.\<close>

definition load_sample :: "int \<Rightarrow> timespec \<Rightarrow> nat \<Rightarrow> saved_sample \<Rightarrow> SST_Stats \<Rightarrow> SST_Stats option" where
  "load_sample era_split now i line inst = (case line of (t, off, orig, pdel, pdisp, rdel, rdisp) \<Rightarrow>
     let inst = inst\<lparr>offsets := (offsets inst)[i := off], orig_offsets := (orig_offsets inst)[i := orig], peer_delays := (peer_delays inst)[i := pdel],
           peer_dispersions := (peer_dispersions inst)[i := pdisp], root_delays := (root_delays inst)[i := rdel],
           root_dispersions := (root_dispersions inst)[i := rdisp]\<rparr> in
     if \<not> UTI_IsTimeOffsetSane era_split now (t - UTI_TimespecToDouble now) then None
     else
       let ts = UTI_DoubleToTimespec t;
           inst = inst\<lparr>sample_times := (sample_times inst)[i := ts]\<rparr> in
       if \<not> UTI_IsTimeOffsetSane era_split ts (- off) \<or> UTI_CompareTimespecs now ts < 0 \<or>
          \<not> (\<bar>pdel\<bar> < 10 ^ 6 \<and> \<bar>pdisp\<bar> < 10 ^ 6 \<and> \<bar>rdel\<bar> < 10 ^ 6 \<and> \<bar>rdisp\<bar> < 10 ^ 6) \<or>
          i > 0 \<and> UTI_CompareTimespecs ts (sample_times inst ! (i - 1)) \<le> 0
       then None
       else Some inst)"

fun load_samples :: "int \<Rightarrow> timespec \<Rightarrow> nat \<Rightarrow> saved_sample list \<Rightarrow> SST_Stats \<Rightarrow> SST_Stats option" where
  "load_samples era_split now i [] inst = Some inst"
| "load_samples era_split now i (line # lines) inst = Option.bind (load_sample era_split now i line inst) (load_samples era_split now (i + 1) lines)"

text \<open>
  The number of samples in the file is that of the lines.  \<open>Some (False, _)\<close> is a refused file: the
  instance was reset, and what was written in the buffers before the error is not used.
\<close>

definition SST_LoadFromFile :: "bool \<Rightarrow> real \<Rightarrow> int \<Rightarrow> timespec \<Rightarrow> int \<times> saved_sample list \<Rightarrow> SST_Stats \<Rightarrow> (bool \<times> SST_Stats) option" where
  "SST_LoadFromFile kf precision era_split now file inst = (case file of (arun, lines) \<Rightarrow>
     if length lines < 1 \<or> length lines > MAX_SAMPLES then Some (False, inst)
     else
       let inst = SST_ResetInstance inst in
       case load_samples era_split now 0 lines inst of
         None \<Rightarrow> Some (False, inst)
       | Some inst \<Rightarrow>
           let inst = inst\<lparr>n_samples := length lines, last_sample := length lines - 1,
                 asymmetry_run := CLAMP (- MAX_ASYMMETRY_RUN) arun MAX_ASYMMETRY_RUN\<rparr> in
           map_option (Pair True) (SST_DoNewRegression kf precision (find_min_delay_sample inst)))"

section \<open>The buffers as lists\<close>

text \<open>The values of the sample \<open>i\<close> in the two buffers, and the lists of them.\<close>

definition run_at :: "SST_Stats \<Rightarrow> int \<Rightarrow> timespec \<times> real \<times> real" where
  "run_at inst i = (let k = get_runsbuf_index inst i in (sample_times inst ! k, offsets inst ! k, peer_delays inst ! k))"

definition rec_at :: "SST_Stats \<Rightarrow> int \<Rightarrow> real \<times> real \<times> real \<times> real" where
  "rec_at inst i = (let k = get_buf_index inst i in (orig_offsets inst ! k, peer_dispersions inst ! k, root_delays inst ! k, root_dispersions inst ! k))"

definition run_history :: "SST_Stats \<Rightarrow> (timespec \<times> real \<times> real) list" where
  "run_history inst = map (run_at inst) [- int (runs_samples inst)..int (n_samples inst) - 1]"

definition records_of :: "SST_Stats \<Rightarrow> (real \<times> real \<times> real \<times> real) list" where
  "records_of inst = map (\<lambda>i. rec_at inst (int i)) [0..<n_samples inst]"

definition sst_ok :: "SST_Stats \<Rightarrow> bool" where
  "sst_ok inst \<longleftrightarrow> length (sample_times inst) = 128 \<and> length (offsets inst) = 128 \<and> length (peer_delays inst) = 128 \<and>
     length (orig_offsets inst) = 64 \<and> length (peer_dispersions inst) = 64 \<and> length (root_delays inst) = 64 \<and> length (root_dispersions inst) = 64 \<and>
     1 \<le> min_samples inst \<and> min_samples inst \<le> max_samples inst \<and> max_samples inst \<le> 64 \<and>
     n_samples inst \<le> 64 \<and> runs_samples inst \<le> n_samples inst \<and> last_sample inst < 128 \<and>
     (0 < n_samples inst \<longrightarrow> (\<exists>i\<in>{- int (runs_samples inst)..int (n_samples inst) - 1}. min_delay_sample inst = get_runsbuf_index inst i) \<and>
       (\<forall>i\<in>{- int (runs_samples inst)..int (n_samples inst) - 1}. peer_delays inst ! min_delay_sample inst \<le> peer_delays inst ! get_runsbuf_index inst i))"

lemma index_bounds [simp]: "get_runsbuf_index inst i < 128" "get_buf_index inst i < 64"
  by (simp_all add: get_runsbuf_index_def get_buf_index_def nat_less_iff)

lemma runsbuf_last: "last_sample inst < 128 \<Longrightarrow> get_runsbuf_index inst (int (n_samples inst) - 1) = last_sample inst"
proof -
  assume "last_sample inst < 128"
  then have "(256 + int (last_sample inst)) mod 128 = int (last_sample inst)"
    using mod_mult_self1 [of "int (last_sample inst)" 2 128] by (simp add: add.commute)
  then show ?thesis by (simp add: get_runsbuf_index_def)
qed

lemma buf_last: "get_buf_index inst (int (n_samples inst) - 1) = last_sample inst mod 64"
proof -
  have "(128 + int (last_sample inst)) mod 64 = int (last_sample inst mod 64)"
    using mod_mult_self1 [of "int (last_sample inst)" 2 64] by (simp add: add.commute zmod_int)
  then have "nat ((128 + int (last_sample inst)) mod 64) = last_sample inst mod 64" by simp
  then show ?thesis by (simp add: get_buf_index_def)
qed

lemma runsbuf_inj: "get_runsbuf_index inst i = get_runsbuf_index inst j \<Longrightarrow> \<bar>i - j\<bar> < 128 \<Longrightarrow> i = j"
proof -
  let ?c = "int (last_sample inst) + 256 - int (n_samples inst) + 1"
  assume "get_runsbuf_index inst i = get_runsbuf_index inst j" "\<bar>i - j\<bar> < 128"
  then have "(?c + i) mod 128 = (?c + j) mod 128" by (simp add: get_runsbuf_index_def nat_eq_iff algebra_simps split: if_splits)
  then have "128 dvd i - j" by (simp add: mod_eq_dvd_iff)
  then show "i = j" using \<open>\<bar>i - j\<bar> < 128\<close> by (metis abs_of_nonneg dvd_imp_le_int eq_iff_diff_eq_0 linorder_not_le zero_le_numeral)
qed

lemma buf_inj: "get_buf_index inst i = get_buf_index inst j \<Longrightarrow> \<bar>i - j\<bar> < 64 \<Longrightarrow> i = j"
proof -
  let ?c = "int (last_sample inst) + 128 - int (n_samples inst) + 1"
  assume "get_buf_index inst i = get_buf_index inst j" "\<bar>i - j\<bar> < 64"
  then have "(?c + i) mod 64 = (?c + j) mod 64" by (simp add: get_buf_index_def nat_eq_iff algebra_simps split: if_splits)
  then have "64 dvd i - j" by (simp add: mod_eq_dvd_iff)
  then show "i = j" using \<open>\<bar>i - j\<bar> < 64\<close> by (metis abs_of_nonneg dvd_imp_le_int eq_iff_diff_eq_0 linorder_not_le zero_le_numeral)
qed

text \<open>When the counters change, the positions of the samples only shift.\<close>

lemma index_shift:
  assumes "int (last_sample inst') mod 128 = (int (last_sample inst) + a) mod 128" "int (n_samples inst') = int (n_samples inst) + a - k"
  shows "get_runsbuf_index inst' i = get_runsbuf_index inst (i + k)" "get_buf_index inst' i = get_buf_index inst (i + k)"
proof -
  have d: "128 dvd int (last_sample inst') - (int (last_sample inst) + a)" using assms(1) by (simp add: mod_eq_dvd_iff)
  have e: "(int (last_sample inst') + 256 - int (n_samples inst') + i + 1) - (int (last_sample inst) + 256 - int (n_samples inst) + (i + k) + 1) =
      int (last_sample inst') - (int (last_sample inst) + a)"
    "(int (last_sample inst') + 128 - int (n_samples inst') + i + 1) - (int (last_sample inst) + 128 - int (n_samples inst) + (i + k) + 1) =
      int (last_sample inst') - (int (last_sample inst) + a)" using assms(2) by linarith+
  have "128 dvd (int (last_sample inst') + 256 - int (n_samples inst') + i + 1) - (int (last_sample inst) + 256 - int (n_samples inst) + (i + k) + 1)"
    using d unfolding e(1) .
  from mod_eq_dvd_iff [THEN iffD2, OF this] show "get_runsbuf_index inst' i = get_runsbuf_index inst (i + k)" by (simp add: get_runsbuf_index_def)
  have "64 dvd int (last_sample inst') - (int (last_sample inst) + a)" by (rule dvd_trans [OF _ d]) simp
  then have "64 dvd (int (last_sample inst') + 128 - int (n_samples inst') + i + 1) - (int (last_sample inst) + 128 - int (n_samples inst) + (i + k) + 1)"
    unfolding e(2) .
  from mod_eq_dvd_iff [THEN iffD2, OF this] show "get_buf_index inst' i = get_buf_index inst (i + k)" by (simp add: get_buf_index_def)
qed

lemma fold_min_index:
  "foldl (\<lambda>best i. let index = f i in if d index < (d best :: real) then index else best) best is \<in> insert best (f ` set is) \<and>
    d (foldl (\<lambda>best i. let index = f i in if d index < d best then index else best) best is) \<le> d best \<and>
    (\<forall>i\<in>set is. d (foldl (\<lambda>best i. let index = f i in if d index < d best then index else best) best is) \<le> d (f i))"
proof (induction "is" arbitrary: best)
  case (Cons i "is")
  show ?case using Cons [of "if d (f i) < d best then f i else best"] by (auto simp: Let_def intro: order_trans)
qed simp

lemma find_min_delay_ok:
  assumes "0 < n_samples inst"
  defines "inst' \<equiv> find_min_delay_sample inst"
  shows "(\<exists>i\<in>{- int (runs_samples inst)..int (n_samples inst) - 1}. min_delay_sample inst' = get_runsbuf_index inst i) \<and>
    (\<forall>i\<in>{- int (runs_samples inst)..int (n_samples inst) - 1}. peer_delays inst ! min_delay_sample inst' \<le> peer_delays inst ! get_runsbuf_index inst i)"
proof -
  let ?I = "{- int (runs_samples inst)..int (n_samples inst) - 1}"
  have I: "?I = insert (- int (runs_samples inst)) (set [- int (runs_samples inst) + 1..int (n_samples inst) - 1])" using assms(1) by auto
  note f = fold_min_index [of "get_runsbuf_index inst" "\<lambda>k. peer_delays inst ! k" "get_runsbuf_index inst (- int (runs_samples inst))"
      "[- int (runs_samples inst) + 1..int (n_samples inst) - 1]"]
  show ?thesis unfolding I inst'_def find_min_delay_sample_def using f by (auto simp: Let_def)
qed

lemma map_shift_upto: "map (\<lambda>i. f (i + k)) [a..b] = map f [a + k..b + k]" for k :: int
  by (rule nth_equalityI) (simp_all add: add_ac)

lemma drop_upto: "drop m [a..b] = [a + int m..b]"
  by (rule nth_equalityI) (simp_all add: add_ac)

lemma pruned_views:
  fixes inst k r d
  defines "inst' \<equiv> inst\<lparr>n_samples := n_samples inst - k, runs_samples := r, min_delay_sample := d\<rparr>"
  assumes "k \<le> n_samples inst" "r \<le> runs_samples inst + k"
  shows "run_history inst' = drop (runs_samples inst + k - r) (run_history inst)" "records_of inst' = drop k (records_of inst)"
    "get_runsbuf_index inst' i = get_runsbuf_index inst (i + int k)"
proof -
  have sh: "get_runsbuf_index inst' i = get_runsbuf_index inst (i + int k)" "get_buf_index inst' i = get_buf_index inst (i + int k)" for i
    using index_shift [of inst' inst 0 "int k"] assms(2) by (simp_all add: inst'_def)
  then show "get_runsbuf_index inst' i = get_runsbuf_index inst (i + int k)" by simp
  have at: "run_at inst' = (\<lambda>i. run_at inst (i + int k))" "rec_at inst' = (\<lambda>i. rec_at inst (i + int k))"
    by (simp_all add: fun_eq_iff run_at_def rec_at_def sh Let_def) (simp_all add: inst'_def)
  have n': "n_samples inst' = n_samples inst - k" by (simp add: inst'_def)
  have u: "[- int r + int k..int (n_samples inst) - 1] = drop (runs_samples inst + k - r) [- int (runs_samples inst)..int (n_samples inst) - 1]"
    unfolding drop_upto using assms(3) by (simp add: of_nat_diff)
  have "run_history inst' = map (run_at inst) [- int r + int k..int (n_samples inst) - 1]"
    unfolding run_history_def at using assms(2) by (simp add: map_shift_upto) (simp add: inst'_def of_nat_diff)
  then show "run_history inst' = drop (runs_samples inst + k - r) (run_history inst)" unfolding u by (simp add: run_history_def drop_map)
  show "records_of inst' = drop k (records_of inst)"
    unfolding records_of_def at n' by (rule nth_equalityI) (simp_all add: add.commute less_diff_conv)
qed

lemma prune_ok:
  assumes "sst_ok inst" "k \<le> n_samples inst"
  shows "\<exists>d. prune_register k inst = Some (inst\<lparr>n_samples := n_samples inst - k, runs_samples := min (runs_samples inst + k) (n_samples inst - k), min_delay_sample := d\<rparr>) \<and>
    sst_ok (inst\<lparr>n_samples := n_samples inst - k, runs_samples := min (runs_samples inst + k) (n_samples inst - k), min_delay_sample := d\<rparr>)"
proof (cases "k = 0")
  case True
  have "runs_samples inst \<le> n_samples inst" using assms(1) by (simp add: sst_ok_def)
  then have "inst\<lparr>n_samples := n_samples inst - k, runs_samples := min (runs_samples inst + k) (n_samples inst - k), min_delay_sample := min_delay_sample inst\<rparr> = inst"
    using True by simp
  then show ?thesis using assms(1) True by (intro exI [of _ "min_delay_sample inst"]) (simp add: prune_register_def)
next
  case False
  let ?i = "inst\<lparr>n_samples := n_samples inst - k, runs_samples := min (runs_samples inst + k) (n_samples inst - k)\<rparr>"
  define d where "d = min_delay_sample (find_min_delay_sample ?i)"
  let ?j = "?i\<lparr>min_delay_sample := d\<rparr>"
  have b: "n_samples inst \<le> 64" using assms(1) by (simp add: sst_ok_def)
  have f: "find_min_delay_sample ?i = ?j" by (simp add: find_min_delay_sample_def d_def)
  have "(if runs_samples inst + k > n_samples inst - k then n_samples inst - k else runs_samples inst + k) = min (runs_samples inst + k) (n_samples inst - k)"
    by (simp add: min_def)
  moreover have "n_samples inst - k + min (runs_samples inst + k) (n_samples inst - k) \<le> 128" using b by linarith
  ultimately have "prune_register k inst = Some (find_min_delay_sample ?i)" using False assms(2)
    by (cases "runs_samples inst + k > n_samples inst - k") (simp_all add: prune_register_def Let_def)
  then have "prune_register k inst = Some ?j" unfolding f .
  moreover have ix: "get_runsbuf_index ?j i = get_runsbuf_index ?i i" for i by (simp add: get_runsbuf_index_def)
  have "sst_ok ?j" using assms(1) find_min_delay_ok [of ?i, folded d_def] b unfolding sst_ok_def ix by simp
  ultimately show ?thesis by auto
qed

text \<open>A sample is added after the last one.\<close>

definition add_sample :: "NTP_Sample \<Rightarrow> real \<Rightarrow> nat \<Rightarrow> SST_Stats \<Rightarrow> SST_Stats" where
  "add_sample sample delay md inst =
     (let n = (last_sample inst + 1) mod 128 in
      inst\<lparr>last_sample := n, sample_times := (sample_times inst)[n := sm_time sample], offsets := (offsets inst)[n := - sm_offset sample],
           orig_offsets := (orig_offsets inst)[n mod 64 := - sm_offset sample], peer_delays := (peer_delays inst)[n := delay],
           peer_dispersions := (peer_dispersions inst)[n mod 64 := sm_peer_dispersion sample], root_delays := (root_delays inst)[n mod 64 := sm_root_delay sample],
           root_dispersions := (root_dispersions inst)[n mod 64 := sm_root_dispersion sample], min_delay_sample := md, n_samples := n_samples inst + 1\<rparr>)"

lemma add_sample_views:
  fixes inst sample delay md
  defines "inst' \<equiv> add_sample sample delay md inst"
  assumes ok: "sst_ok inst" and n: "n_samples inst < 64"
  shows "run_history inst' = run_history inst @ [(sm_time sample, - sm_offset sample, delay)]"
    "records_of inst' = records_of inst @ [(- sm_offset sample, sm_peer_dispersion sample, sm_root_delay sample, sm_root_dispersion sample)]"
    "last_sample inst' = get_runsbuf_index inst (int (n_samples inst))" "peer_delays inst' ! last_sample inst' = delay"
    "\<And>i. get_runsbuf_index inst' i = get_runsbuf_index inst i"
    "\<And>i. - int (runs_samples inst) \<le> i \<Longrightarrow> i < int (n_samples inst) \<Longrightarrow> peer_delays inst' ! get_runsbuf_index inst i = peer_delays inst ! get_runsbuf_index inst i"
proof -
  let ?k = "(last_sample inst + 1) mod 128" and ?n = "int (n_samples inst)" and ?r = "int (runs_samples inst)"
  have len: "length (sample_times inst) = 128" "length (offsets inst) = 128" "length (peer_delays inst) = 128" "length (orig_offsets inst) = 64"
    "length (peer_dispersions inst) = 64" "length (root_delays inst) = 64" "length (root_dispersions inst) = 64" "runs_samples inst \<le> n_samples inst"
    using ok by (simp_all add: sst_ok_def)
  have n': "n_samples inst' = n_samples inst + 1" "last_sample inst' = ?k" "runs_samples inst' = runs_samples inst" by (simp_all add: inst'_def add_sample_def Let_def)
  have "int (last_sample inst') mod 128 = (int (last_sample inst) + 1) mod 128" unfolding n'(2) zmod_int of_nat_add by simp
  moreover have "int (n_samples inst') = int (n_samples inst) + 1 - 0" using n'(1) by simp
  ultimately have sh: "get_runsbuf_index inst' i = get_runsbuf_index inst i" "get_buf_index inst' i = get_buf_index inst i" for i
    using index_shift [of inst' inst 1 0 i] by simp_all
  then show "\<And>i. get_runsbuf_index inst' i = get_runsbuf_index inst i" by simp
  have new: "get_runsbuf_index inst ?n = ?k" "get_buf_index inst ?n = ?k mod 64"
    using runsbuf_last [of inst'] buf_last [of inst'] by (simp_all add: n' sh)
  then show "last_sample inst' = get_runsbuf_index inst ?n" by (simp add: n')
  show "peer_delays inst' ! last_sample inst' = delay" using len(3) by (simp add: inst'_def add_sample_def Let_def)
  have old: "get_runsbuf_index inst i \<noteq> ?k" if "- ?r \<le> i" "i < ?n" for i
    using runsbuf_inj [of inst i ?n] that n len(8) unfolding new by auto
  have old': "get_buf_index inst i \<noteq> ?k mod 64" if "0 \<le> i" "i < ?n" for i
    using buf_inj [of inst i ?n] that n unfolding new by auto
  show "peer_delays inst' ! get_runsbuf_index inst i = peer_delays inst ! get_runsbuf_index inst i" if "- ?r \<le> i" "i < ?n" for i
    using old [OF that] by (simp add: inst'_def add_sample_def Let_def)
  have run: "run_at inst' i = run_at inst i" if "- ?r \<le> i" "i < ?n" for i
    using old [OF that] by (simp add: run_at_def sh Let_def) (simp add: inst'_def add_sample_def Let_def)
  have rcd: "rec_at inst' i = rec_at inst i" if "0 \<le> i" "i < ?n" for i
    using old' [OF that] by (simp add: rec_at_def sh Let_def) (simp add: inst'_def add_sample_def Let_def)
  have "run_at inst' ?n = (sm_time sample, - sm_offset sample, delay)"
    using len by (simp add: run_at_def sh new Let_def) (simp add: inst'_def add_sample_def Let_def)
  moreover have "[- ?r..?n] = [- ?r..?n - 1] @ [?n]" by (rule upto_rec2) simp
  ultimately show "run_history inst' = run_history inst @ [(sm_time sample, - sm_offset sample, delay)]" using run by (simp add: run_history_def n')
  have "rec_at inst' ?n = (- sm_offset sample, sm_peer_dispersion sample, sm_root_delay sample, sm_root_dispersion sample)"
    using len by (simp add: rec_at_def sh new Let_def) (simp add: inst'_def add_sample_def Let_def)
  then show "records_of inst' = records_of inst @ [(- sm_offset sample, sm_peer_dispersion sample, sm_root_delay sample, sm_root_dispersion sample)]"
    using rcd by (simp add: records_of_def n')
qed

lemma add_sample_ok:
  fixes inst sample delay
  defines "k \<equiv> (last_sample inst + 1) mod 128"
  defines "md \<equiv> (if n_samples inst = 0 \<or> delay < (peer_delays inst)[k := delay] ! min_delay_sample inst then k else min_delay_sample inst)"
  assumes ok: "sst_ok inst" and n: "n_samples inst < 64"
  shows "sst_ok (add_sample sample delay md inst)"
proof -
  let ?i = "add_sample sample delay md inst"
  note v = add_sample_views [OF ok n, where sample = sample and delay = delay and md = md]
  have f: "n_samples ?i = n_samples inst + 1" "runs_samples ?i = runs_samples inst" "min_delay_sample ?i = md" "last_sample ?i = k" "max_samples ?i = max_samples inst"
    "min_samples ?i = min_samples inst" by (simp_all add: add_sample_def Let_def k_def)
  have len: "length (sample_times ?i) = 128" "length (offsets ?i) = 128" "length (peer_delays ?i) = 128" "length (orig_offsets ?i) = 64"
    "length (peer_dispersions ?i) = 64" "length (root_delays ?i) = 64" "length (root_dispersions ?i) = 64" "runs_samples inst \<le> n_samples inst"
    "1 \<le> min_samples inst" "min_samples inst \<le> max_samples inst" "max_samples inst \<le> 64"
    using ok by (simp_all add: sst_ok_def add_sample_def Let_def)
  have len_runs: "runs_samples inst \<le> n_samples inst" by (rule len(8))
  let ?J = "{- int (runs_samples inst)..int (n_samples inst) - 1}"
  have J: "{- int (runs_samples ?i)..int (n_samples ?i) - 1} = insert (int (n_samples inst)) ?J" unfolding f by auto
  have n_pos: "0 < n_samples ?i" "n_samples ?i \<le> 64" "runs_samples ?i \<le> n_samples ?i" "last_sample ?i < 128" using f len_runs n by (simp_all add: k_def)
  have pd: "peer_delays ?i ! get_runsbuf_index inst i = peer_delays inst ! get_runsbuf_index inst i" if "i \<in> ?J" for i using v(6) that by simp
  have knew: "get_runsbuf_index inst (int (n_samples inst)) = k" "peer_delays ?i ! k = delay" using v(3,4) f(4) by simp_all
  have "(\<exists>i\<in>insert (int (n_samples inst)) ?J. md = get_runsbuf_index inst i) \<and>
      (\<forall>i\<in>insert (int (n_samples inst)) ?J. peer_delays ?i ! md \<le> peer_delays ?i ! get_runsbuf_index inst i)"
  proof (cases "n_samples inst = 0")
    case True
    then have "?J = {}" "md = k" using len(8) by (simp_all add: md_def)
    then show ?thesis using knew by simp
  next
    case False
    then obtain j where j: "j \<in> ?J" "min_delay_sample inst = get_runsbuf_index inst j"
      and le: "\<forall>i\<in>?J. peer_delays inst ! min_delay_sample inst \<le> peer_delays inst ! get_runsbuf_index inst i" using ok by (auto simp: sst_ok_def)
    have "(peer_delays inst)[k := delay] = peer_delays ?i" by (simp add: add_sample_def Let_def k_def)
    then have md: "md = (if delay < peer_delays inst ! get_runsbuf_index inst j then k else get_runsbuf_index inst j)"
      using False pd [OF j(1)] unfolding md_def j(2) by simp
    show ?thesis
    proof (cases "delay < peer_delays inst ! get_runsbuf_index inst j")
      case True
      then show ?thesis using md knew le pd unfolding j(2) by fastforce
    next
      case False
      then show ?thesis using md knew le pd j by fastforce
    qed
  qed
  then show ?thesis unfolding sst_ok_def J v(5) f(3) using len n_pos f(5,6) by simp
qed

definition room_made :: "SST_Stats \<Rightarrow> nat" where
  "room_made inst = (if 0 < n_samples inst \<and> (n_samples inst = 64 \<or> n_samples inst = max_samples inst) then 1 else 0)"

definition history_dropped :: "SST_Stats \<Rightarrow> nat" where
  "history_dropped inst = (if room_made inst = 0 then 0 else runs_samples inst + 1 - min (runs_samples inst + 1) (n_samples inst - 1))"

definition out_of_order :: "NTP_Sample \<Rightarrow> SST_Stats \<Rightarrow> bool" where
  "out_of_order sample inst \<longleftrightarrow> room_made inst < n_samples inst \<and> UTI_CompareTimespecs (sample_times inst ! last_sample inst) (sm_time sample) \<ge> 0"

definition stored_delay :: "NTP_Sample \<Rightarrow> SST_Stats \<Rightarrow> real" where
  "stored_delay sample inst =
     (if sm_peer_delay sample < fixed_min_delay inst then 2 * fixed_min_delay inst - sm_peer_delay sample else sm_peer_delay sample)"

lemma Reset_ok:
  assumes "sst_ok inst"
  shows "sst_ok (SST_ResetInstance inst)" "run_history (SST_ResetInstance inst) = []" "records_of (SST_ResetInstance inst) = []"
  using assms by (simp_all add: sst_ok_def SST_ResetInstance_def run_history_def records_of_def)

lemma AccumulateSample_eq:
  "SST_AccumulateSample sample inst = Option.bind (if room_made inst = 1 then prune_register 1 inst else Some inst) (\<lambda>inst.
     let inst = (if n_samples inst > 0 \<and> UTI_CompareTimespecs (sample_times inst ! last_sample inst) (sm_time sample) \<ge> 0
                 then SST_ResetInstance inst else inst);
         k = (last_sample inst + 1) mod 128; delay = stored_delay sample inst; delays = (peer_delays inst)[k := delay] in
     Some (add_sample sample delay (if n_samples inst = 0 \<or> delays ! k < delays ! min_delay_sample inst then k else min_delay_sample inst) inst))"
  by (simp add: SST_AccumulateSample_def room_made_def stored_delay_def add_sample_def Let_def)

lemma room_is_made:
  assumes "sst_ok inst"
  obtains d where "(if room_made inst = 1 then prune_register 1 inst else Some inst) = Some (inst\<lparr>n_samples := n_samples inst - room_made inst,
      runs_samples := min (runs_samples inst + room_made inst) (n_samples inst - room_made inst), min_delay_sample := d\<rparr>)"
    "sst_ok (inst\<lparr>n_samples := n_samples inst - room_made inst,
      runs_samples := min (runs_samples inst + room_made inst) (n_samples inst - room_made inst), min_delay_sample := d\<rparr>)"
    "n_samples inst - room_made inst < 64"
proof -
  have r: "room_made inst \<le> n_samples inst" "room_made inst = 0 \<or> room_made inst = 1" by (auto simp: room_made_def)
  have n: "n_samples inst - room_made inst < 64" using assms by (auto simp: room_made_def sst_ok_def)
  from prune_ok [OF assms r(1)] obtain d where d: "prune_register (room_made inst) inst = Some (inst\<lparr>n_samples := n_samples inst - room_made inst,
      runs_samples := min (runs_samples inst + room_made inst) (n_samples inst - room_made inst), min_delay_sample := d\<rparr>)"
    "sst_ok (inst\<lparr>n_samples := n_samples inst - room_made inst,
      runs_samples := min (runs_samples inst + room_made inst) (n_samples inst - room_made inst), min_delay_sample := d\<rparr>)" by blast
  have "(if room_made inst = 1 then prune_register 1 inst else Some inst) = prune_register (room_made inst) inst"
    using r(2) by (auto simp: prune_register_def)
  with d n show thesis by (intro that) simp_all
qed

lemma min_delay_of_history:
  assumes "sst_ok inst" "0 < n_samples inst" "fixed_min_delay inst \<le> 0"
  shows "SST_MinRoundTripDelay inst = Min ((\<lambda>(_, _, d). d) ` set (run_history inst))"
proof -
  let ?I = "{- int (runs_samples inst)..int (n_samples inst) - 1}"
  have e: "(\<lambda>(_, _, d). d) ` set (run_history inst) = (\<lambda>i. peer_delays inst ! get_runsbuf_index inst i) ` ?I"
    by (auto simp: run_history_def run_at_def Let_def image_image)
  show ?thesis unfolding e using assms by (intro Min_eqI [symmetric]) (auto simp: sst_ok_def SST_MinRoundTripDelay_def)
qed

lemma accumulated_views:
  assumes "sst_ok inst"
  shows "\<exists>inst'. SST_AccumulateSample sample inst = Some inst' \<and> sst_ok inst' \<and>
    (let run = (sm_time sample, - sm_offset sample, stored_delay sample inst);
         rcd = (- sm_offset sample, sm_peer_dispersion sample, sm_root_delay sample, sm_root_dispersion sample) in
     if out_of_order sample inst then run_history inst' = [run] \<and> records_of inst' = [rcd]
     else run_history inst' = drop (history_dropped inst) (run_history inst) @ [run] \<and> records_of inst' = drop (room_made inst) (records_of inst) @ [rcd]) \<and>
    (fixed_min_delay inst \<le> 0 \<longrightarrow> SST_MinRoundTripDelay inst' = Min ((\<lambda>(_, _, d). d) ` set (run_history inst')))"
proof -
  let ?r = "min (runs_samples inst + room_made inst) (n_samples inst - room_made inst)"
  from room_is_made [OF assms] obtain d where
    p: "(if room_made inst = 1 then prune_register 1 inst else Some inst) = Some (inst\<lparr>n_samples := n_samples inst - room_made inst, runs_samples := ?r, min_delay_sample := d\<rparr>)"
      "sst_ok (inst\<lparr>n_samples := n_samples inst - room_made inst, runs_samples := ?r, min_delay_sample := d\<rparr>)" "n_samples inst - room_made inst < 64" .
  define inst1 where "inst1 = inst\<lparr>n_samples := n_samples inst - room_made inst, runs_samples := ?r, min_delay_sample := d\<rparr>"
  have f1: "n_samples inst1 = n_samples inst - room_made inst" "fixed_min_delay inst1 = fixed_min_delay inst" "sample_times inst1 = sample_times inst"
    "last_sample inst1 = last_sample inst" by (simp_all add: inst1_def)
  have v1: "run_history inst1 = drop (runs_samples inst + room_made inst - ?r) (run_history inst)" "records_of inst1 = drop (room_made inst) (records_of inst)"
    unfolding inst1_def using pruned_views(1,2) [of "room_made inst" inst ?r d] by (auto simp: room_made_def)
  define inst2 where "inst2 = (if out_of_order sample inst then SST_ResetInstance inst1 else inst1)"
  have reset: "n_samples (SST_ResetInstance inst1) = 0" "fixed_min_delay (SST_ResetInstance inst1) = fixed_min_delay inst1"
    by (simp_all add: SST_ResetInstance_def)
  have ok2: "sst_ok inst2" "n_samples inst2 < 64" "fixed_min_delay inst2 = fixed_min_delay inst"
    using p(2) [folded inst1_def] p(3) Reset_ok(1) f1(1,2) reset by (auto simp: inst2_def)
  define k where "k = (last_sample inst2 + 1) mod 128"
  define delay where "delay = stored_delay sample inst"
  have dl: "stored_delay sample inst2 = delay" using ok2(3) by (simp add: delay_def stored_delay_def)
  define md where "md = (if n_samples inst2 = 0 \<or> delay < (peer_delays inst2)[k := delay] ! min_delay_sample inst2 then k else min_delay_sample inst2)"
  let ?i = "add_sample sample delay md inst2"
  have kk: "(peer_delays inst2)[k := delay] ! k = delay" using ok2(1) by (simp add: sst_ok_def k_def)
  have "(n_samples inst1 > 0 \<and> UTI_CompareTimespecs (sample_times inst1 ! last_sample inst1) (sm_time sample) \<ge> 0) = out_of_order sample inst"
    unfolding f1 by (auto simp: out_of_order_def)
  note oo = this
  have eq: "SST_AccumulateSample sample inst = Some ?i"
    unfolding AccumulateSample_eq p(1) inst1_def [symmetric] Option.bind.bind_lunit Let_def oo inst2_def [symmetric]
      k_def [symmetric] dl kk md_def [symmetric] ..
  have ok: "sst_ok ?i" using add_sample_ok [OF ok2(1,2), where delay = delay and sample = sample] unfolding md_def k_def .
  note v = add_sample_views(1,2) [OF ok2(1,2), where sample = sample and delay = delay and md = md]
  have fm: "fixed_min_delay ?i = fixed_min_delay inst" "0 < n_samples ?i" using ok2(3) by (simp_all add: add_sample_def Let_def)
  have h2: "run_history inst2 = (if out_of_order sample inst then [] else drop (runs_samples inst + room_made inst - ?r) (run_history inst))"
    "records_of inst2 = (if out_of_order sample inst then [] else drop (room_made inst) (records_of inst))"
    using v1 Reset_ok(2,3) [OF p(2), folded inst1_def] by (simp_all add: inst2_def)
  have de: "runs_samples inst + room_made inst - ?r = history_dropped inst"
    using assms by (auto simp: room_made_def sst_ok_def history_dropped_def)
  have hist: "if out_of_order sample inst then run_history ?i = [(sm_time sample, - sm_offset sample, delay)] \<and>
        records_of ?i = [(- sm_offset sample, sm_peer_dispersion sample, sm_root_delay sample, sm_root_dispersion sample)]
      else run_history ?i = drop (history_dropped inst) (run_history inst) @ [(sm_time sample, - sm_offset sample, delay)] \<and>
        records_of ?i = drop (room_made inst) (records_of inst) @ [(- sm_offset sample, sm_peer_dispersion sample, sm_root_delay sample, sm_root_dispersion sample)]"
    unfolding v using h2 unfolding de by simp
  have "SST_MinRoundTripDelay ?i = Min ((\<lambda>(_, _, d). d) ` set (run_history ?i))" if "fixed_min_delay inst \<le> 0"
    using min_delay_of_history [OF ok fm(2)] that fm(1) by simp
  with eq ok hist show ?thesis unfolding Let_def delay_def [symmetric] by blast
qed

text \<open>
  C16.  The two circular buffers hold the samples as lists: a new sample is appended to both, after the
  oldest one was dropped from the full register (and kept for the test of runs as long as there are no more
  such samples than in the register); a sample that is not newer than the last one discards the whole history.  The
  invariant of the buffers holds again, and the minimum delay is that of the kept samples.
\<close>

theorem accumulate_sample:
  assumes "sst_ok inst"
  shows "\<exists>inst'. SST_AccumulateSample sample inst = Some inst' \<and> sst_ok inst' \<and>
    (let run = (sm_time sample, - sm_offset sample, stored_delay sample inst);
         rcd = (- sm_offset sample, sm_peer_dispersion sample, sm_root_delay sample, sm_root_dispersion sample) in
     if out_of_order sample inst then run_history inst' = [run] \<and> records_of inst' = [rcd]
     else run_history inst' = drop (history_dropped inst) (run_history inst) @ [run] \<and> records_of inst' = drop (room_made inst) (records_of inst) @ [rcd]) \<and>
    (fixed_min_delay inst \<le> 0 \<longrightarrow> SST_MinRoundTripDelay inst' = Min ((\<lambda>(_, _, d). d) ` set (run_history inst')))"
  by (rule accumulated_views [OF assms])

section \<open>The regression returns\<close>

definition times_ordered :: "SST_Stats \<Rightarrow> bool" where
  "times_ordered inst \<longleftrightarrow> (\<forall>t\<in>set (run_history inst). UTI_DiffTimespecsToDouble (fst t) (sample_times inst ! last_sample inst) \<le> 0)"

definition root_distance_of :: "SST_Stats \<Rightarrow> real \<Rightarrow> nat \<Rightarrow> real" where
  "root_distance_of inst elapsed i =
     root_dispersions inst ! get_buf_index inst (int i) + elapsed * skew inst + 0.5 * root_delays inst ! get_buf_index inst (int i)"

lemma best_fold:
  assumes "\<forall>i<n. times_back ! i \<le> 0"
  shows "\<exists>b d. fold (best_sample_step inst times_back) [0..<n] (Some (None, DBL_MAX)) = Some (b, d) \<and>
    (b = None \<longrightarrow> d = DBL_MAX) \<and> (\<forall>i. b = Some i \<longrightarrow> i < n \<and> d = root_distance_of inst (- (times_back ! i)) i) \<and>
    (\<forall>i<n. d \<le> root_distance_of inst (- (times_back ! i)) i)"
  using assms
proof (induction n)
  case (Suc n)
  then obtain b d where ih: "fold (best_sample_step inst times_back) [0..<n] (Some (None, DBL_MAX)) = Some (b, d)"
    "b = None \<longrightarrow> d = DBL_MAX" "\<forall>i. b = Some i \<longrightarrow> i < n \<and> d = root_distance_of inst (- (times_back ! i)) i"
    "\<forall>i<n. d \<le> root_distance_of inst (- (times_back ! i)) i" by auto
  let ?r = "root_distance_of inst (- (times_back ! n)) n"
  have "fold (best_sample_step inst times_back) [0..<Suc n] (Some (None, DBL_MAX)) = Some (if ?r < d then (Some n, ?r) else (b, d))"
    using ih(1) Suc(2) by (simp add: best_sample_step_def Let_def root_distance_of_def)
  moreover have "\<forall>i<Suc n. (if ?r < d then ?r else d) \<le> root_distance_of inst (- (times_back ! i)) i"
    using ih(4) by (auto simp: less_Suc_eq)
  ultimately show ?case using ih(2,3) by (cases "?r < d") (auto simp: less_Suc_eq)
qed simp

lemma find_best_returns:
  assumes "0 < n_samples inst" "\<forall>i<n_samples inst. times_back ! i \<le> 0" "\<exists>i<n_samples inst. root_distance_of inst (- (times_back ! i)) i < DBL_MAX"
  obtains i where "find_best_sample_index times_back inst = Some (inst\<lparr>best_single_sample := i\<rparr>)" "i < n_samples inst"
    "\<forall>j<n_samples inst. root_distance_of inst (- (times_back ! i)) i \<le> root_distance_of inst (- (times_back ! j)) j"
proof -
  from best_fold [OF assms(2), of inst] obtain b d where
    b: "fold (best_sample_step inst times_back) [0..<n_samples inst] (Some (None, DBL_MAX)) = Some (b, d)" "b = None \<longrightarrow> d = DBL_MAX"
      "\<forall>i. b = Some i \<longrightarrow> i < n_samples inst \<and> d = root_distance_of inst (- (times_back ! i)) i"
      "\<forall>i<n_samples inst. d \<le> root_distance_of inst (- (times_back ! i)) i" by blast
  obtain i where i: "b = Some i" using b(2,4) assms(3) by (cases b) force+
  show thesis by (rule that [of i]) (use assms(1) b i in \<open>simp_all add: find_best_sample_index_def\<close>)
qed

lemma sample_weights_returns: "0 < length ds \<Longrightarrow> length ds \<le> 64 \<Longrightarrow> \<exists>w. sample_weights kf precision ds = Some w \<and> length w = length ds"
  using find_median_returns [of "length ds" ds kf] by (auto simp: sample_weights_def Let_def RGR_FindMedian_def)

lemma MultipleRegress_returns: "n \<le> length x1 \<Longrightarrow> n \<le> length x2 \<Longrightarrow> n \<le> length y \<Longrightarrow> RGR_MultipleRegress x1 x2 y n \<noteq> None"
  by (simp add: RGR_MultipleRegress_def Let_def del: not_None_eq)

lemma estimate_returns:
  assumes "n \<le> length x1" "n \<le> length x2" "n \<le> length y"
  shows "\<exists>ok a r. estimate_asymmetry x1 y x2 n asy run = Some (ok, a, r)"
proof -
  have "\<exists>e. estimate_asymmetry x1 y x2 n asy run = Some e"
    using MultipleRegress_returns [OF assms] by (cases "RGR_MultipleRegress x1 x2 y n") (auto simp: estimate_asymmetry_def Let_def split: option.splits)
  then show ?thesis by (metis prod.exhaust)
qed

lemma correct_asymmetry_returns:
  assumes "length times_back = runs_samples inst + n_samples inst" "length offs = runs_samples inst + n_samples inst"
  shows "\<exists>offs' a r. correct_asymmetry times_back offs inst = Some (offs', inst\<lparr>asymmetry := a, asymmetry_run := r\<rparr>) \<and> length offs' = length offs"
proof -
  let ?n = "runs_samples inst + n_samples inst"
  let ?delays = "map (\<lambda>i. peer_delays inst ! get_runsbuf_index inst (int i - int (runs_samples inst)) - SST_MinRoundTripDelay inst) [0..<?n]"
  have same: "\<exists>a r. inst = inst\<lparr>asymmetry := a, asymmetry_run := r\<rparr>" "\<And>x. \<exists>a r. inst\<lparr>asymmetry := x\<rparr> = inst\<lparr>asymmetry := a, asymmetry_run := r\<rparr>"
    by (rule exI [of _ "asymmetry inst"], rule exI [of _ "asymmetry_run inst"], simp) (rule exI, rule exI [of _ "asymmetry_run inst"], simp)
  obtain ok a r where e: "estimate_asymmetry times_back offs ?delays ?n (asymmetry inst) (asymmetry_run inst) = Some (ok, a, r)"
    using estimate_returns [of ?n times_back ?delays offs "asymmetry inst" "asymmetry_run inst"] assms by auto
  consider "fixed_asymmetry inst = 0" | "fixed_asymmetry inst \<noteq> 0" "\<bar>fixed_asymmetry inst\<bar> \<le> 1 / 2" | "fixed_asymmetry inst \<noteq> 0" "\<not> \<bar>fixed_asymmetry inst\<bar> \<le> 1 / 2" by blast
  then show ?thesis
  proof cases
    case 1
    then show ?thesis using same(1) by (auto simp: correct_asymmetry_def)
  next
    case 2
    then show ?thesis using same(2) [of "fixed_asymmetry inst"] assms by (simp add: correct_asymmetry_def Let_def)
  next
    case 3
    then show ?thesis using e assms by (simp add: correct_asymmetry_def Let_def) blast
  qed
qed

lemma intervals_nonpos:
  assumes "times_ordered inst"
  shows "length (convert_to_intervals inst) = runs_samples inst + n_samples inst" "\<forall>t\<in>set (convert_to_intervals inst). t \<le> 0"
  using assms by (auto simp: convert_to_intervals_def times_ordered_def run_history_def run_at_def Let_def)

text \<open>The estimates change, the samples do not.\<close>

definition same_samples :: "SST_Stats \<Rightarrow> SST_Stats \<Rightarrow> bool" where
  "same_samples inst inst' \<longleftrightarrow> n_samples inst' = n_samples inst \<and> runs_samples inst' = runs_samples inst \<and> last_sample inst' = last_sample inst \<and>
     min_samples inst' = min_samples inst \<and> max_samples inst' = max_samples inst \<and> min_delay_sample inst' = min_delay_sample inst \<and>
     sample_times inst' = sample_times inst \<and> offsets inst' = offsets inst \<and> orig_offsets inst' = orig_offsets inst \<and> peer_delays inst' = peer_delays inst \<and>
     peer_dispersions inst' = peer_dispersions inst \<and> root_delays inst' = root_delays inst \<and> root_dispersions inst' = root_dispersions inst"

lemma same_samples_views:
  assumes "same_samples inst inst'"
  shows "get_runsbuf_index inst' = get_runsbuf_index inst" "get_buf_index inst' = get_buf_index inst" "run_history inst' = run_history inst"
    "records_of inst' = records_of inst" "sst_ok inst' = sst_ok inst"
proof -
  show ix: "get_runsbuf_index inst' = get_runsbuf_index inst" "get_buf_index inst' = get_buf_index inst"
    using assms by (simp_all add: fun_eq_iff get_runsbuf_index_def get_buf_index_def same_samples_def)
  have "run_at inst' = run_at inst" "rec_at inst' = rec_at inst" using assms by (simp_all add: fun_eq_iff run_at_def rec_at_def ix Let_def same_samples_def)
  then show "run_history inst' = run_history inst" "records_of inst' = records_of inst"
    using assms by (simp_all add: run_history_def records_of_def same_samples_def)
  show "sst_ok inst' = sst_ok inst" unfolding sst_ok_def ix using assms by (simp add: same_samples_def)
qed

text \<open>The instance before the search for the best sample.\<close>

lemma regression_before_best:
  assumes "sst_ok inst" "times_ordered inst"
  obtains inst' k where "SST_DoNewRegression kf precision inst = find_best_sample_index (drop k (convert_to_intervals inst)) inst'"
    "sst_ok inst'" "k + n_samples inst' \<le> length (convert_to_intervals inst)"
    "regression_ok inst' = (3 \<le> n_samples inst)" "3 \<le> n_samples inst \<Longrightarrow> k + n_samples inst' = length (convert_to_intervals inst)"
    "3 \<le> n_samples inst \<Longrightarrow> 3 \<le> n_samples inst'" "n_samples inst < 3 \<Longrightarrow> n_samples inst' = n_samples inst"
    "\<exists>d. run_history inst' = drop d (run_history inst)" "records_of inst' = drop (n_samples inst - n_samples inst') (records_of inst)" "0 < skew inst'" "skew inst' \<le> 1"
    "sample_times inst' ! last_sample inst' = sample_times inst ! last_sample inst"
proof -
  let ?tb = "convert_to_intervals inst" and ?n = "n_samples inst" and ?m = "runs_samples inst"
  have n64: "?n \<le> 64" using assms(1) by (simp add: sst_ok_def)
  have l: "length ?tb = ?m + ?n" using intervals_nonpos(1) [OF assms(2)] .
  let ?ofs = "map (\<lambda>i. offsets inst ! get_runsbuf_index inst i) [- int ?m..int ?n - 1]"
  have lofs: "length ?ofs = ?m + ?n" by (simp add: nat_add_distrib nat_diff_distrib)
  let ?ds = "map (\<lambda>i. 0.5 * peer_delays inst ! get_runsbuf_index inst (int i) + peer_dispersions inst ! get_buf_index inst (int i)) [0..<?n]"
  have "\<exists>offs w a r. (if ?n > 0 then Option.bind (sample_weights kf precision ?ds) (\<lambda>weights.
        map_option (\<lambda>(offs, inst). (offs, weights, inst)) (correct_asymmetry ?tb ?ofs inst)) else Some ([], [], inst)) =
      Some (offs, w, inst\<lparr>asymmetry := a, asymmetry_run := r\<rparr>) \<and> length offs = ?m + ?n \<and> length w = ?n"
  proof (cases "?n > 0")
    case True
    obtain w where w: "sample_weights kf precision ?ds = Some w" "length w = ?n" using sample_weights_returns [of ?ds kf precision] True n64 by auto
    obtain offs a r where "correct_asymmetry ?tb ?ofs inst = Some (offs, inst\<lparr>asymmetry := a, asymmetry_run := r\<rparr>)" "length offs = ?m + ?n"
      using correct_asymmetry_returns [OF l lofs] lofs by auto
    then show ?thesis using True w by auto
  next
    case False
    have m: "?m = 0" using False assms(1) by (simp add: sst_ok_def)
    show ?thesis
      by (rule exI [of _ "[]"], rule exI [of _ "[]"], rule exI [of _ "asymmetry inst"], rule exI [of _ "asymmetry_run inst"]) (use False m in simp)
  qed
  then obtain offs w a r where o: "(if ?n > 0 then Option.bind (sample_weights kf precision ?ds) (\<lambda>weights.
        map_option (\<lambda>(offs, inst). (offs, weights, inst)) (correct_asymmetry ?tb ?ofs inst)) else Some ([], [], inst)) =
      Some (offs, w, inst\<lparr>asymmetry := a, asymmetry_run := r\<rparr>)" and lo: "length offs = ?m + ?n" "length w = ?n" by blast
  let ?i = "inst\<lparr>asymmetry := a, asymmetry_run := r\<rparr>"
  have D: "SST_DoNewRegression kf precision inst = Option.bind (RGR_FindBestRegression ?tb offs w ?n ?m (min_samples inst)) (\<lambda>res.
      case res of Some r \<Rightarrow> Option.bind (RGR_GetTCoef (dof r)) (\<lambda>coef.
          let inst' = ?i\<lparr>regression_ok := True, estimated_frequency := b1 r, estimated_frequency_sd := CLAMP (1 / 10 ^ 12) (sb1 r) 1,
                estimated_offset := b0 r, offset_time := sample_times inst ! last_sample inst, estimated_offset_sd := sb0 r,
                std_dev := max (1 / 10 ^ 9) (sqrt (s2 r)), nruns := n_runs r, skew := CLAMP (1 / 10 ^ 12) (sb1 r * coef) 1\<rparr> in
          Option.bind (prune_register (new_start r) inst') (find_best_sample_index (drop (?m + new_start r) ?tb)))
      | None \<Rightarrow> let inst' = ?i\<lparr>regression_ok := False, estimated_frequency_sd := 2000 / 10 ^ 6, skew := 2000 / 10 ^ 6,
              estimated_offset_sd := 4, std_dev := 4, nruns := 0, estimated_offset := (if ?n > 0 then offsets inst ! last_sample inst else 0),
              offset_time := (if ?n > 0 then sample_times inst ! last_sample inst else UTI_ZeroTimespec)\<rparr> in
          find_best_sample_index ?tb inst')"
    unfolding SST_DoNewRegression_def Let_def o Option.bind.bind_lunit prod.case by simp
  note fb = FindBestRegression_returns [OF n64, of ?m ?tb offs w "min_samples inst"]
  show thesis
  proof (cases "?n < 3")
    case True
    let ?j = "?i\<lparr>regression_ok := False, estimated_frequency_sd := 2000 / 10 ^ 6, skew := 2000 / 10 ^ 6,
      estimated_offset_sd := 4, std_dev := 4, nruns := 0, estimated_offset := (if ?n > 0 then offsets inst ! last_sample inst else 0),
      offset_time := (if ?n > 0 then sample_times inst ! last_sample inst else UTI_ZeroTimespec)\<rparr>"
    have same: "same_samples inst ?j" by (simp add: same_samples_def)
    have "SST_DoNewRegression kf precision inst = find_best_sample_index (drop 0 ?tb) ?j" unfolding D using fb(1) True l lo by (simp add: Let_def)
    then show thesis by (rule that) (use True l same_samples_views [OF same] assms(1) in \<open>auto intro: exI [of _ 0]\<close>)
  next
    case False
    then obtain r where r: "RGR_FindBestRegression ?tb offs w ?n ?m (min_samples inst) = Some (Some r)" "new_start r + 3 \<le> ?n" "RGR_GetTCoef (dof r) \<noteq> None"
      using fb(2) l lo by auto
    then obtain coef where c: "RGR_GetTCoef (dof r) = Some coef" by blast
    define j where "j = ?i\<lparr>regression_ok := True, estimated_frequency := b1 r, estimated_frequency_sd := CLAMP (1 / 10 ^ 12) (sb1 r) 1,
      estimated_offset := b0 r, offset_time := sample_times inst ! last_sample inst, estimated_offset_sd := sb0 r,
      std_dev := max (1 / 10 ^ 9) (sqrt (s2 r)), nruns := n_runs r, skew := CLAMP (1 / 10 ^ 12) (sb1 r * coef) 1\<rparr>"
    have same: "same_samples inst j" and j: "n_samples j = ?n" "runs_samples j = ?m" "regression_ok j" "skew j > 0" "skew j \<le> 1" "sample_times j = sample_times inst" "last_sample j = last_sample inst"
      by (simp_all add: same_samples_def j_def CLAMP_def)
    note sv = same_samples_views [OF same]
    let ?k = "new_start r" and ?r = "min (?m + new_start r) (?n - new_start r)"
    from prune_ok [of j ?k] r(2) assms(1) sv(5) j(1) obtain d where
      p: "prune_register ?k j = Some (j\<lparr>n_samples := ?n - ?k, runs_samples := ?r, min_delay_sample := d\<rparr>)" "sst_ok (j\<lparr>n_samples := ?n - ?k, runs_samples := ?r, min_delay_sample := d\<rparr>)"
      unfolding j(1,2) by auto
    have v: "run_history (j\<lparr>n_samples := ?n - ?k, runs_samples := ?r, min_delay_sample := d\<rparr>) = drop (?m + ?k - ?r) (run_history inst)"
      "records_of (j\<lparr>n_samples := ?n - ?k, runs_samples := ?r, min_delay_sample := d\<rparr>) = drop ?k (records_of inst)"
      using pruned_views(1,2) [of ?k j ?r d] r(2) unfolding j(1,2) sv(3,4) by simp_all
    have "SST_DoNewRegression kf precision inst = find_best_sample_index (drop (?m + ?k) ?tb) (j\<lparr>n_samples := ?n - ?k, runs_samples := ?r, min_delay_sample := d\<rparr>)"
      unfolding D r(1) Option.bind.bind_lunit option.case c Let_def j_def [symmetric] p(1) ..
    then show thesis by (rule that) (use False r(2) l p(2) v j in \<open>auto intro: exI [of _ "?m + ?k - ?r"]\<close>)
  qed
qed

lemma intervals_of_history:
  "convert_to_intervals inst = map (\<lambda>t. UTI_DiffTimespecsToDouble (fst t) (sample_times inst ! last_sample inst)) (run_history inst)"
  by (simp add: convert_to_intervals_def run_history_def run_at_def Let_def)

lemma intervals_of_suffix:
  assumes "run_history inst' = drop d (run_history inst)" "sample_times inst' ! last_sample inst' = sample_times inst ! last_sample inst"
    "k + n_samples inst' = length (convert_to_intervals inst)"
  shows "drop k (convert_to_intervals inst) = drop (runs_samples inst') (convert_to_intervals inst')"
proof -
  have e: "convert_to_intervals inst' = drop d (convert_to_intervals inst)" using assms(1,2) by (simp add: intervals_of_history drop_map)
  have l: "length (convert_to_intervals inst') = runs_samples inst' + n_samples inst'"
    by (simp add: intervals_of_history run_history_def nat_add_distrib nat_diff_distrib)
  show ?thesis
  proof (cases "n_samples inst' = 0")
    case True
    then show ?thesis using l assms(3) by simp
  next
    case False
    then have "runs_samples inst' + d = k" using e l assms(3) by auto
    then show ?thesis unfolding e by simp
  qed
qed

text \<open>The root distance of a sample of the instance, by the time passed since it was made.\<close>

definition sample_distance :: "SST_Stats \<Rightarrow> nat \<Rightarrow> real" where
  "sample_distance inst i = root_distance_of inst (- (convert_to_intervals inst ! (runs_samples inst + i))) i"

lemma distance_bounded:
  assumes "\<forall>(_, _, rdelay, rdisp)\<in>set (records_of inst). rdisp + rdelay / 2 \<le> 10 ^ 300" "rec_at inst' (int i) \<in> set (records_of inst)"
    "- (2 ^ 64) \<le> t" "t \<le> 0" "0 < skew inst'" "skew inst' \<le> 1"
  shows "root_distance_of inst' (- t) i < DBL_MAX"
proof -
  have "root_dispersions inst' ! get_buf_index inst' (int i) + root_delays inst' ! get_buf_index inst' (int i) / 2 \<le> 10 ^ 300"
    using bspec [OF assms(1,2)] by (simp add: rec_at_def Let_def)
  moreover have "- t * skew inst' \<le> 2 ^ 64 * 1" using assms by (intro mult_mono) auto
  moreover have "(10 ^ 300 + 2 ^ 64 :: real) < DBL_MAX" by (simp add: DBL_MAX_def)
  ultimately show ?thesis by (simp add: root_distance_of_def)
qed

lemma best_views:
  "run_history (inst\<lparr>best_single_sample := i\<rparr>) = run_history inst" "records_of (inst\<lparr>best_single_sample := i\<rparr>) = records_of inst"
  "sst_ok (inst\<lparr>best_single_sample := i\<rparr>) = sst_ok inst" "sample_distance (inst\<lparr>best_single_sample := i\<rparr>) = sample_distance inst"
proof -
  have s: "same_samples inst (inst\<lparr>best_single_sample := i\<rparr>)" by (simp add: same_samples_def)
  note v = same_samples_views [OF s]
  show "run_history (inst\<lparr>best_single_sample := i\<rparr>) = run_history inst" "records_of (inst\<lparr>best_single_sample := i\<rparr>) = records_of inst"
    "sst_ok (inst\<lparr>best_single_sample := i\<rparr>) = sst_ok inst" using v by simp_all
  show "sample_distance (inst\<lparr>best_single_sample := i\<rparr>) = sample_distance inst"
    by (simp add: fun_eq_iff sample_distance_def root_distance_of_def intervals_of_history v)
qed

lemma regression_result:
  assumes "sst_ok inst" "times_ordered inst" "\<forall>t\<in>set (convert_to_intervals inst). - (2 ^ 64) \<le> t"
    "\<forall>(_, _, rdelay, rdisp)\<in>set (records_of inst). rdisp + rdelay / 2 \<le> 10 ^ 300"
  shows "\<exists>inst'. SST_DoNewRegression kf precision inst = Some inst' \<and> sst_ok inst' \<and>
    (\<exists>d. run_history inst' = drop d (run_history inst)) \<and> records_of inst' = drop (n_samples inst - n_samples inst') (records_of inst) \<and>
    regression_ok inst' = (3 \<le> n_samples inst) \<and> 0 < skew inst' \<and> skew inst' \<le> 1 \<and>
    (if 3 \<le> n_samples inst then 3 \<le> n_samples inst' \<and> best_single_sample inst' < n_samples inst' \<and>
       (\<forall>j<n_samples inst'. sample_distance inst' (best_single_sample inst') \<le> sample_distance inst' j)
     else n_samples inst' = n_samples inst \<and> (0 < n_samples inst \<longrightarrow> best_single_sample inst' < n_samples inst'))"
proof -
  obtain inst' k where
    f: "SST_DoNewRegression kf precision inst = find_best_sample_index (drop k (convert_to_intervals inst)) inst'" "sst_ok inst'"
      "k + n_samples inst' \<le> length (convert_to_intervals inst)" "regression_ok inst' = (3 \<le> n_samples inst)"
      and g: "3 \<le> n_samples inst \<Longrightarrow> k + n_samples inst' = length (convert_to_intervals inst)" "3 \<le> n_samples inst \<Longrightarrow> 3 \<le> n_samples inst'"
      "n_samples inst < 3 \<Longrightarrow> n_samples inst' = n_samples inst" "\<exists>d. run_history inst' = drop d (run_history inst)"
      "records_of inst' = drop (n_samples inst - n_samples inst') (records_of inst)" "0 < skew inst'" "skew inst' \<le> 1"
      "sample_times inst' ! last_sample inst' = sample_times inst ! last_sample inst"
    by (rule regression_before_best [OF assms(1,2), of kf precision]) (rule that; blast)
  show ?thesis
  proof (cases "n_samples inst' = 0")
    case True
    then show ?thesis using f g by (intro exI [of _ inst']) (auto simp: find_best_sample_index_def)
  next
    case False
    let ?tb = "drop k (convert_to_intervals inst)"
    have tb: "?tb ! i \<in> set (convert_to_intervals inst)" if "i < n_samples inst'" for i using f(3) that by simp
    have first: "rec_at inst' (int 0) \<in> set (records_of inst')" unfolding records_of_def set_map by (rule imageI) (use False in simp)
    have "root_distance_of inst' (- (?tb ! 0)) 0 < DBL_MAX"
    proof (rule distance_bounded)
      show "rec_at inst' (int 0) \<in> set (records_of inst)"
        using in_set_dropD [of "rec_at inst' (int 0)" "n_samples inst - n_samples inst'" "records_of inst"] first unfolding g(5) [symmetric] by blast
    qed (use assms g(6,7) tb [of 0] False intervals_nonpos(2) [OF assms(2)] in auto)
    then have ex: "\<exists>i<n_samples inst'. root_distance_of inst' (- (?tb ! i)) i < DBL_MAX" using False by blast
    have neg: "\<forall>i<n_samples inst'. ?tb ! i \<le> 0" using tb intervals_nonpos(2) [OF assms(2)] by blast
    from find_best_returns [OF _ neg ex] False obtain i where
      i: "find_best_sample_index ?tb inst' = Some (inst'\<lparr>best_single_sample := i\<rparr>)" "i < n_samples inst'"
        "\<forall>j<n_samples inst'. root_distance_of inst' (- (?tb ! i)) i \<le> root_distance_of inst' (- (?tb ! j)) j" by blast
    note v = best_views [where inst = inst' and i = i]
    have d: "sample_distance inst' j = root_distance_of inst' (- (?tb ! j)) j" if "3 \<le> n_samples inst" "j < n_samples inst'" for j
    proof -
      from g(4) obtain d where "run_history inst' = drop d (run_history inst)" ..
      from intervals_of_suffix [OF this g(8) g(1) [OF that(1)]] have "?tb = drop (runs_samples inst') (convert_to_intervals inst')" .
      moreover have "length (convert_to_intervals inst') = runs_samples inst' + n_samples inst'"
        by (simp add: intervals_of_history run_history_def nat_add_distrib nat_diff_distrib)
      ultimately show ?thesis using that(2) unfolding sample_distance_def by (simp only: nth_drop)
    qed
    show ?thesis
      by (intro exI [of _ "inst'\<lparr>best_single_sample := i\<rparr>"]) (use f i g(2-7) v d in auto)
  qed
qed


section \<open>Instances that show the hypotheses can hold\<close>

text \<open>An instance with three samples a second apart, and an empty one.\<close>

definition three_samples :: SST_Stats where
  "three_samples = \<lparr>refid = 0, st_ip_addr = None, min_samples = 1, max_samples = 64, fixed_min_delay = 0, fixed_asymmetry = 0,
     n_samples = 3, runs_samples = 0, last_sample = 2, regression_ok = False, best_single_sample = 0, min_delay_sample = 0,
     estimated_offset = 0, estimated_offset_sd = 4, offset_time = UTI_ZeroTimespec, nruns = 0, asymmetry_run = 0, asymmetry = 0,
     estimated_frequency = 0, estimated_frequency_sd = 2000 / 10 ^ 6, skew = 2000 / 10 ^ 6, std_dev = 4,
     sample_times = map (\<lambda>i. Timespec (int i) 0) [0..<128], offsets = replicate 128 (1 / 1000), orig_offsets = replicate 64 (1 / 1000),
     peer_delays = replicate 128 (1 / 100), peer_dispersions = replicate 64 0, root_delays = replicate 64 (1 / 50), root_dispersions = replicate 64 0\<rparr>"

lemma three_samples_ok: "sst_ok three_samples"
  by (auto simp: sst_ok_def three_samples_def get_runsbuf_index_def nat_less_iff intro!: bexI [of _ 0])

lemma three_samples_views:
  "run_history three_samples = map (\<lambda>i. (Timespec i 0, 1 / 1000, 1 / 100)) [0, 1, 2]" "records_of three_samples = replicate 3 (1 / 1000, 0, 1 / 50, 0)"
  by (simp_all add: run_history_def run_at_def records_of_def rec_at_def three_samples_def get_runsbuf_index_def get_buf_index_def upto_rec1 upt_conv_Cons Let_def eval_nat_numeral)

lemma three_samples_fields:
  "room_made three_samples = 0" "history_dropped three_samples = 0" "fixed_min_delay three_samples = 0" "n_samples three_samples = 3"
  "sample_times three_samples ! last_sample three_samples = Timespec 2 0"
  by (simp_all add: room_made_def history_dropped_def three_samples_def)

theorem accumulate_sample_witness:
  "sst_ok three_samples \<and> (\<exists>inst'. SST_AccumulateSample (NTP_Sample.make (Timespec 5 0) 0 (1 / 200) 0 0 0) three_samples = Some inst' \<and>
     n_samples inst' = 4 \<and> SST_MinRoundTripDelay inst' = 1 / 200)"
proof -
  let ?s = "NTP_Sample.make (Timespec 5 0) 0 (1 / 200) 0 0 0"
  have "\<not> out_of_order ?s three_samples" "stored_delay ?s three_samples = 1 / 200"
    by (simp_all add: out_of_order_def stored_delay_def three_samples_fields NTP_Sample.make_def UTI_CompareTimespecs_def)
  then obtain inst' where a: "SST_AccumulateSample ?s three_samples = Some inst'" "length (records_of inst') = 4"
      "SST_MinRoundTripDelay inst' = Min ((\<lambda>(_, _, d). d) ` set (run_history inst'))"
      "run_history inst' = run_history three_samples @ [(Timespec 5 0, 0, 1 / 200)]"
    using accumulate_sample [OF three_samples_ok, of ?s] by (auto simp: three_samples_views three_samples_fields Let_def NTP_Sample.make_def)
  moreover have "SST_MinRoundTripDelay inst' = 1 / 200" unfolding a(3,4) by (simp add: three_samples_views)
  ultimately show ?thesis using three_samples_ok by (auto simp: records_of_def)
qed


end
