(* ===== verification/SampleFilt.thy ===== *)
theory SampleFilt
  imports Sourcestats "HOL-Library.Multiset"
begin

text \<open>
  The median filter of samples: \<open>samplefilt.c\<close>.  The arrays are lists of their fixed length; \<open>x_data\<close>, \<open>y_data\<close> and
  \<open>w_data\<close>, which are always written before they are read, are local values.  \<open>precision\<close> is the precision of the clock,
  \<open>fresh\<close> and \<open>fresh_index\<close> the content of new memory, and \<open>qs\<close> the function \<open>qsort\<close> of the C library for
  a comparison and an array of integers.  \<open>None\<close> is a failed assertion or an access out of an array.  Over the reals a division
  by zero, by a dispersion of zero, is zero.
\<close>

section \<open>The filter\<close>

abbreviation (input) SPF_MIN_SAMPLES :: int where "SPF_MIN_SAMPLES \<equiv> 1"
abbreviation (input) SPF_MAX_SAMPLES :: int where "SPF_MAX_SAMPLES \<equiv> 256"

record SPF_Instance =
  spf_min_samples :: int
  spf_max_samples :: int
  spf_index :: int
  spf_used :: nat
  spf_last :: int
  avg_var_n :: int
  avg_var :: real
  max_var :: real
  combine_ratio :: real
  spf_samples :: "NTP_Sample list"
  selected :: "int list"

definition SPF_CreateInstance :: "(nat \<Rightarrow> NTP_Sample) \<Rightarrow> (nat \<Rightarrow> int) \<Rightarrow> real \<Rightarrow> int \<Rightarrow> int \<Rightarrow> real \<Rightarrow> real \<Rightarrow> SPF_Instance" where
  "SPF_CreateInstance fresh fresh_index precision min_s max_s max_dispersion ratio =
     (let min_s = CLAMP SPF_MIN_SAMPLES min_s SPF_MAX_SAMPLES;
          max_s = CLAMP SPF_MIN_SAMPLES max_s SPF_MAX_SAMPLES;
          max_s = max min_s max_s in
      \<lparr>spf_min_samples = min_s, spf_max_samples = max_s, spf_index = -1, spf_used = 0, spf_last = -1, avg_var_n = 0, avg_var = precision\<^sup>2,
       max_var = max_dispersion\<^sup>2, combine_ratio = CLAMP 0 ratio 1, spf_samples = map fresh [0..<nat max_s], selected = map fresh_index [0..<nat max_s]\<rparr>)"

definition check_sample :: "SPF_Instance \<Rightarrow> NTP_Sample \<Rightarrow> bool option" where
  "check_sample f sample =
     (if spf_used f = 0 then Some True
      else if spf_last f < 0 \<or> spf_last f \<ge> int (length (spf_samples f)) then None
      else Some (\<not> UTI_CompareTimespecs (sm_time (spf_samples f ! nat (spf_last f))) (sm_time sample) \<ge> 0))"

definition SPF_AccumulateSample :: "NTP_Sample \<Rightarrow> SPF_Instance \<Rightarrow> (bool \<times> SPF_Instance) option" where
  "SPF_AccumulateSample sample f =
     Option.bind (check_sample f sample) (\<lambda>ok.
       if \<not> ok then Some (False, f)
       else
         let i = (spf_index f + 1) mod spf_max_samples f in
         if i < 0 \<or> i \<ge> int (length (spf_samples f)) then None
         else Some (True, f\<lparr>spf_index := i, spf_last := i,
           spf_used := (if int (spf_used f) < spf_max_samples f then spf_used f + 1 else spf_used f),
           spf_samples := (spf_samples f)[nat i := sample]\<rparr>))"

definition SPF_GetLastSample :: "SPF_Instance \<Rightarrow> NTP_Sample option" where
  "SPF_GetLastSample f = (if spf_last f < 0 then None else Some (spf_samples f ! nat (spf_last f)))"

definition drop_samples :: "bool \<Rightarrow> SPF_Instance \<Rightarrow> SPF_Instance" where
  "drop_samples keep_last f = f\<lparr>spf_index := -1, spf_used := 0, spf_last := (if keep_last then spf_last f else -1)\<rparr>"

definition SPF_DropSamples :: "SPF_Instance \<Rightarrow> SPF_Instance" where
  "SPF_DropSamples = drop_samples False"

section \<open>Selection of samples\<close>

definition compare_samples :: "NTP_Sample list \<Rightarrow> int \<Rightarrow> int \<Rightarrow> int" where
  "compare_samples samples a b =
     (let s1 = samples ! nat a; s2 = samples ! nat b in
      if sm_offset s1 < sm_offset s2 then -1 else if sm_offset s1 > sm_offset s2 then 1 else 0)"

definition min_dispersion :: "SPF_Instance \<Rightarrow> real" where
  "min_dispersion f = fold (\<lambda>i m. if m > sm_peer_dispersion (spf_samples f ! i) then sm_peer_dispersion (spf_samples f ! i) else m)
     [1..<spf_used f] (sm_peer_dispersion (spf_samples f ! 0))"

text \<open>The indices of the samples with a small dispersion, or of all samples.\<close>

definition candidates_of :: "SPF_Instance \<Rightarrow> nat list" where
  "candidates_of f =
     (let sel = (if spf_used f > 4 then filter (\<lambda>i. sm_peer_dispersion (spf_samples f ! i) \<le> 1.5 * min_dispersion f) [0..<spf_used f] else []) in
      if length sel < 4 then [0..<spf_used f] else sel)"

text \<open>The number of samples that are left out at each end of the order by offset.\<close>

definition select_from_end :: "SPF_Instance \<Rightarrow> nat \<Rightarrow> nat" where
  "select_from_end f j =
     (if j > 2 then nat (CLAMP 1 (c_trunc (of_nat j * (1 - combine_ratio f) / 2)) (int ((j - 1) div 2))) else 0)"

definition mark_unused :: "SPF_Instance \<Rightarrow> int list \<Rightarrow> int list" where
  "mark_unused f order =
     (let start = select_from_end f (length order);
          to = length order - start;
          rot = int (spf_used f) - spf_index f - 1 in
      map (\<lambda>i. if i < start \<or> to \<le> i then -1 else (order ! i + rot) mod int (spf_used f)) [0..<spf_used f])"

text \<open>The inner loop, which moves each index to its own position, and the outer loop.\<close>

function place :: "int list \<Rightarrow> int \<Rightarrow> int list option" where
  "place sel j =
     (if j = -1 then Some sel
      else if j < 0 \<or> j \<ge> int (length sel) then None
      else if sel ! nat j = j then Some sel
      else place (sel[nat j := j]) (sel ! nat j))"
  by pat_completeness auto
termination
proof (relation "measure (\<lambda>(sel, j). card {p. p < length sel \<and> sel ! p \<noteq> int p})")
  fix sel :: "int list" and j :: int
  assume j: "\<not> (j < 0 \<or> j \<ge> int (length sel))" "sel ! nat j \<noteq> j"
  have "{p. p < length (sel[nat j := j]) \<and> sel[nat j := j] ! p \<noteq> int p} \<subset> {p. p < length sel \<and> sel ! p \<noteq> int p}"
  proof
    show "{p. p < length (sel[nat j := j]) \<and> sel[nat j := j] ! p \<noteq> int p} \<subseteq> {p. p < length sel \<and> sel ! p \<noteq> int p}"
      using j(1) by (auto simp: nth_list_update split: if_splits)
    have "nat j \<in> {p. p < length sel \<and> sel ! p \<noteq> int p}" using j by auto
    moreover have "nat j \<notin> {p. p < length (sel[nat j := j]) \<and> sel[nat j := j] ! p \<noteq> int p}" using j(1) by auto
    ultimately show "{p. p < length (sel[nat j := j]) \<and> sel[nat j := j] ! p \<noteq> int p} \<noteq> {p. p < length sel \<and> sel ! p \<noteq> int p}" by blast
  qed
  then show "((sel[nat j := j], sel ! nat j), sel, j) \<in> measure (\<lambda>(sel, j). card {p. p < length sel \<and> sel ! p \<noteq> int p})"
    by (simp add: psubset_card_mono)
qed simp

declare place.simps [simp del]

fun place_all :: "nat list \<Rightarrow> int list \<Rightarrow> int list option" where
  "place_all [] sel = Some sel"
| "place_all (i # is) sel = Option.bind (place (sel[i := -1]) (sel ! i)) (place_all is)"

definition select_samples :: "((int \<Rightarrow> int \<Rightarrow> int) \<Rightarrow> int list \<Rightarrow> int list) \<Rightarrow> SPF_Instance \<Rightarrow> (nat \<times> SPF_Instance) option" where
  "select_samples qs f =
     (if int (spf_used f) < spf_min_samples f then Some (0, f)
      else
        let order = qs (compare_samples (spf_samples f)) (map int (candidates_of f));
            start = select_from_end f (length order);
            rot = int (spf_used f) - spf_index f - 1 in
        Option.bind (place_all [start..<length order - start] (mark_unused f order)) (\<lambda>sel.
          let kept = map (\<lambda>v. (v + int (spf_used f) - rot) mod int (spf_used f)) (filter (\<lambda>v. v \<noteq> -1) sel);
              n = length kept in
          if \<not> (n > 0 \<and> int n \<le> spf_max_samples f) then None
          else Some (n, f\<lparr>selected := kept @ drop n (sel @ drop (spf_used f) (selected f))\<rparr>)))"

section \<open>Combination of the selected samples\<close>

text \<open>The variance, the dispersion and the degrees of freedom of the selected samples.\<close>

definition sample_variance :: "SPF_Instance \<Rightarrow> real list \<Rightarrow> real list \<Rightarrow> real list \<Rightarrow> nat \<Rightarrow> (real \<times> real \<times> nat) option" where
  "sample_variance f x y w n =
     (let mean_x = sum_list x / of_nat n; mean_y = sum_list y / of_nat n in
      if n \<ge> 4 then map_option (\<lambda>r. (s2 r, sb0 r, n - 2)) (RGR_WeightedRegression (map (\<lambda>v. v - mean_x) x) y w n)
      else if n \<ge> 2 then
        let var = (\<Sum>v\<leftarrow>y. (v - mean_y) * (v - mean_y)) / of_nat (n - 1) in Some (var, sqrt var, n - 1)
      else Some (avg_var f, sqrt (avg_var f), 1))"

text \<open>The moving average of the variance, and the previous average.\<close>

definition update_avg_var :: "real \<Rightarrow> nat \<Rightarrow> SPF_Instance \<Rightarrow> real \<times> SPF_Instance" where
  "update_avg_var var df f =
     (if avg_var_n f > 50 then (avg_var f, f\<lparr>avg_var := avg_var f + of_nat df / (of_nat df + 50) * (var - avg_var f)\<rparr>)
      else
        let avg = (avg_var f * of_int (avg_var_n f) + var * of_nat df) / (of_nat df + of_int (avg_var_n f)) in
        (if avg_var_n f = 0 then avg else avg_var f, f\<lparr>avg_var := avg, avg_var_n := avg_var_n f + int df\<rparr>))"

definition combine_selected_samples :: "nat \<Rightarrow> SPF_Instance \<Rightarrow> (NTP_Sample option \<times> SPF_Instance) option" where
  "combine_selected_samples n f =
     (if n = 0 \<or> n > length (selected f) \<or> (\<exists>v\<in>set (take n (selected f)). v < 0 \<or> v \<ge> int (length (spf_samples f))) then None
      else
        let smp = map (\<lambda>v. spf_samples f ! nat v) (take n (selected f));
            last_sample = smp ! (n - 1);
            x = map (\<lambda>s. UTI_DiffTimespecsToDouble (sm_time s) (sm_time last_sample)) smp;
            y = map sm_offset smp;
            mean = (\<lambda>xs. sum_list xs / of_nat n) in
        Option.bind (sample_variance f x y (map sm_peer_dispersion smp) n) (\<lambda>(var, disp, df).
          let (var, disp) = (if var < 1 / 10 ^ 20 then (1 / 10 ^ 20, sqrt (1 / 10 ^ 20)) else (var, disp)) in
          if max_var f > 0 \<and> var > max_var f then Some (None, f)
          else
            let (prev_avg_var, f) = update_avg_var var df f in
            Option.bind (RGR_GetChi2Coef (int df)) (\<lambda>coef.
              let disp = (if var * of_nat df / coef < prev_avg_var then sqrt (avg_var f) * disp / sqrt var else disp) in
              Some (Some \<lparr>sm_time = UTI_AddDoubleToTimespec (sm_time last_sample) (mean x), sm_offset = mean y,
                          sm_peer_delay = mean (map sm_peer_delay smp), sm_peer_dispersion = max disp (mean (map sm_peer_dispersion smp)),
                          sm_root_delay = mean (map sm_root_delay smp), sm_root_dispersion = max disp (mean (map sm_root_dispersion smp))\<rparr>, f))))"

definition SPF_GetFilteredSample :: "((int \<Rightarrow> int \<Rightarrow> int) \<Rightarrow> int list \<Rightarrow> int list) \<Rightarrow> SPF_Instance \<Rightarrow> (NTP_Sample option \<times> SPF_Instance) option" where
  "SPF_GetFilteredSample qs f =
     Option.bind (select_samples qs f) (\<lambda>(n, f).
       if n < 1 then Some (None, f)
       else map_option (\<lambda>(r, f). case r of None \<Rightarrow> (None, f) | Some s \<Rightarrow> (Some s, drop_samples True f)) (combine_selected_samples n f))"

section \<open>Adjustments\<close>

definition get_first_last :: "SPF_Instance \<Rightarrow> (nat \<times> nat) option" where
  "get_first_last f =
     (if spf_last f < 0 then None
      else if spf_used f > 0 then Some (0, spf_used f - 1)
      else Some (nat (spf_last f), nat (spf_last f)))"

definition map_samples :: "nat \<Rightarrow> nat \<Rightarrow> (NTP_Sample \<Rightarrow> NTP_Sample) \<Rightarrow> SPF_Instance \<Rightarrow> SPF_Instance" where
  "map_samples first final g f = f\<lparr>spf_samples := fold (\<lambda>i xs. xs[i := g (xs ! i)]) [first..<final + 1] (spf_samples f)\<rparr>"

definition SPF_SlewSamples :: "timespec \<Rightarrow> real \<Rightarrow> real \<Rightarrow> SPF_Instance \<Rightarrow> SPF_Instance" where
  "SPF_SlewSamples when dfreq doffset f = (case get_first_last f of
     None \<Rightarrow> f
   | Some (first, final) \<Rightarrow> map_samples first final (\<lambda>s. let (t, delta_time) = UTI_AdjustTimespec (sm_time s) when dfreq doffset in
       s\<lparr>sm_time := t, sm_offset := sm_offset s - delta_time\<rparr>) f)"

definition SPF_CorrectOffset :: "real \<Rightarrow> SPF_Instance \<Rightarrow> SPF_Instance" where
  "SPF_CorrectOffset doffset f = (case get_first_last f of
     None \<Rightarrow> f
   | Some (first, final) \<Rightarrow> map_samples first final (\<lambda>s. s\<lparr>sm_offset := sm_offset s - doffset\<rparr>) f)"

definition SPF_AddDispersion :: "real \<Rightarrow> SPF_Instance \<Rightarrow> SPF_Instance" where
  "SPF_AddDispersion dispersion f = (if spf_used f = 0 then f
     else map_samples 0 (spf_used f - 1) (\<lambda>s. s\<lparr>sm_peer_dispersion := sm_peer_dispersion s + dispersion, sm_root_dispersion := sm_root_dispersion s + dispersion\<rparr>) f)"

section \<open>Sorting the indices in place\<close>

text \<open>An array of distinct indices into itself, with \<open>-1\<close> in the cells that are free.\<close>

definition index_array :: "int list \<Rightarrow> bool" where
  "index_array sel \<longleftrightarrow> (\<forall>p<length sel. sel ! p \<noteq> -1 \<longrightarrow> 0 \<le> sel ! p \<and> sel ! p < int (length sel) \<and>
     (\<forall>q<length sel. sel ! q = sel ! p \<longrightarrow> q = p))"

definition indices_of :: "int list \<Rightarrow> int set" where
  "indices_of sel = set sel - {-1}"

lemma index_arrayD:
  assumes "index_array sel" "p < length sel" "sel ! p \<noteq> -1"
  shows "0 \<le> sel ! p" "sel ! p < int (length sel)" "\<And>q. q < length sel \<Longrightarrow> sel ! q = sel ! p \<Longrightarrow> q = p"
  using assms by (auto simp: index_array_def)

lemma in_indices: "v \<in> indices_of sel \<longleftrightarrow> v \<noteq> -1 \<and> (\<exists>p<length sel. sel ! p = v)"
  by (auto simp: indices_of_def in_set_conv_nth)

lemma replace_cell:
  assumes "index_array sel" "p < length sel" "v = -1 \<or> 0 \<le> v \<and> v < int (length sel) \<and> v \<notin> set sel"
  shows "index_array (sel[p := v])" "indices_of (sel[p := v]) = indices_of sel - {sel ! p} \<union> ({v} - {-1})"
    "sel ! p \<noteq> -1 \<Longrightarrow> sel ! p \<notin> set (sel[p := v])"
proof -
  have free: "v = -1 \<or> sel ! q \<noteq> v" if "q < length sel" for q using assms(3) that by auto
  have only: "q = p" if "q < length sel" "sel ! q = sel ! p" "sel ! p \<noteq> -1" for q using index_arrayD(3) [OF assms(1,2) that(3)] that by blast
  show "index_array (sel[p := v])"
    unfolding index_array_def
  proof (intro allI impI)
    fix q assume q: "q < length (sel[p := v])" "sel[p := v] ! q \<noteq> -1"
    show "0 \<le> sel[p := v] ! q \<and> sel[p := v] ! q < int (length (sel[p := v])) \<and> (\<forall>r<length (sel[p := v]). sel[p := v] ! r = sel[p := v] ! q \<longrightarrow> r = q)"
      using q assms(2,3) free index_arrayD [OF assms(1), of q] by (auto simp: nth_list_update)
  qed
  show "indices_of (sel[p := v]) = indices_of sel - {sel ! p} \<union> ({v} - {-1})"
  proof (intro set_eqI iffI)
    fix x assume "x \<in> indices_of (sel[p := v])"
    then obtain q where q: "x \<noteq> -1" "q < length sel" "sel[p := v] ! q = x" by (auto simp: in_indices)
    show "x \<in> indices_of sel - {sel ! p} \<union> ({v} - {-1})"
      using q only [OF q(2)] assms(2) by (cases "q = p") (auto simp: indices_of_def)
  next
    fix x assume x: "x \<in> indices_of sel - {sel ! p} \<union> ({v} - {-1})"
    show "x \<in> indices_of (sel[p := v])"
    proof (cases "x = v \<and> v \<noteq> -1")
      case False
      then obtain q where "x \<noteq> -1" "q < length sel" "sel ! q = x" "x \<noteq> sel ! p" using x by (auto simp: in_indices)
      then show ?thesis using assms(2) unfolding in_indices by (intro conjI exI [of _ q]) (auto simp: nth_list_update)
    qed (use assms(2) in \<open>auto simp: in_indices intro!: exI [of _ p]\<close>)
  qed
  show "sel ! p \<notin> set (sel[p := v])" if "sel ! p \<noteq> -1"
    using that only free [OF assms(2)] assms(2) by (auto simp: in_set_conv_nth nth_list_update split: if_splits)
qed

lemma move_index: "b \<notin> I \<Longrightarrow> {k} - {b} \<subseteq> I \<Longrightarrow> I - {k} \<union> J \<union> ({k} - {b}) = I \<union> J"
  by (cases "k = b") auto

lemma cell_index: "p < length sel \<Longrightarrow> {sel ! p} - {-1} \<subseteq> indices_of sel"
  by (auto simp: indices_of_def)

lemma no_free_index: "-1 \<notin> indices_of sel"
  by (simp add: indices_of_def)

lemma place_spec:
  assumes "index_array sel" "j = -1 \<or> 0 \<le> j \<and> j < int (length sel) \<and> j \<notin> set sel"
  shows "\<exists>sel'. place sel j = Some sel' \<and> index_array sel' \<and> length sel' = length sel \<and> indices_of sel' = indices_of sel \<union> ({j} - {-1}) \<and>
    (\<forall>p<length sel. sel' ! p = sel ! p \<or> sel' ! p = int p)"
  using assms
proof (induction sel j rule: place.induct)
  case (1 sel j)
  show ?case
  proof (cases "j = -1")
    case False
    then have j: "0 \<le> j" "j < int (length sel)" "j \<notin> set sel" using "1.prems"(2) by auto
    have p: "nat j < length sel" using j by simp
    have pj: "sel ! nat j \<noteq> j" using nth_mem [OF p] j(3) by metis
    let ?s = "sel[nat j := j]" and ?k = "sel ! nat j"
    have j': "j = -1 \<or> 0 \<le> j \<and> j < int (length sel) \<and> j \<notin> set sel" using j by simp
    note r = replace_cell [OF "1.prems"(1) p, of j]
    have k: "?k = -1 \<or> 0 \<le> ?k \<and> ?k < int (length ?s) \<and> ?k \<notin> set ?s"
      using r(3) j index_arrayD(1,2) [OF "1.prems"(1) p] by auto
    have "\<not> (j < 0 \<or> j \<ge> int (length sel))" using j by simp
    from "1.IH" [OF False this pj r(1) k] j obtain sel' where
      s: "place ?s ?k = Some sel'" "index_array sel'" "length sel' = length sel" "indices_of sel' = indices_of ?s \<union> ({?k} - {-1})"
        "\<forall>q<length sel. sel' ! q = ?s ! q \<or> sel' ! q = int q" by auto
    have "place sel j = Some sel'" using s(1) False j pj by (subst place.simps) simp
    moreover have "indices_of sel' = indices_of sel \<union> ({j} - {-1})"
      unfolding s(4) r(2) [OF j'] by (rule move_index [OF no_free_index cell_index [OF p]])
    moreover have "\<forall>q<length sel. sel' ! q = sel ! q \<or> sel' ! q = int q"
    proof (intro allI impI)
      fix q assume "q < length sel"
      then show "sel' ! q = sel ! q \<or> sel' ! q = int q" using s(5) j by (cases "q = nat j") auto
    qed
    ultimately show ?thesis using s(2,3) by blast
  qed (use "1.prems" in \<open>simp add: indices_of_def place.simps [of sel "-1"]\<close>)
qed

lemma place_all_spec:
  assumes "index_array sel" "set is \<subseteq> {..<length sel}"
  shows "\<exists>sel'. place_all is sel = Some sel' \<and> index_array sel' \<and> length sel' = length sel \<and> indices_of sel' = indices_of sel \<and>
    (\<forall>p<length sel. if p \<in> set is then sel' ! p = -1 \<or> sel' ! p = int p else sel' ! p = sel ! p \<or> sel' ! p = int p)"
  using assms
proof (induction "is" arbitrary: sel)
  case (Cons i "is")
  have i: "i < length sel" using Cons.prems(2) by simp
  let ?s = "sel[i := -1]" and ?j = "sel ! i"
  note r = replace_cell [OF Cons.prems(1) i, of "-1"]
  have j: "?j = -1 \<or> 0 \<le> ?j \<and> ?j < int (length ?s) \<and> ?j \<notin> set ?s" using r(3) index_arrayD(1,2) [OF Cons.prems(1) i] by auto
  from place_spec [OF r(1) j] obtain s1 where
    p: "place ?s ?j = Some s1" "index_array s1" "length s1 = length sel" "indices_of s1 = indices_of ?s \<union> ({?j} - {-1})"
      "\<forall>p<length sel. s1 ! p = ?s ! p \<or> s1 ! p = int p" by auto
  have "set is \<subseteq> {..<length s1}" using Cons.prems(2) p(3) by simp
  from Cons.IH [OF p(2) this] obtain sel' where
    s: "place_all is s1 = Some sel'" "index_array sel'" "length sel' = length sel" "indices_of sel' = indices_of s1"
      "\<forall>p<length sel. if p \<in> set is then sel' ! p = -1 \<or> sel' ! p = int p else sel' ! p = s1 ! p \<or> sel' ! p = int p" unfolding p(3) by blast
  have "indices_of sel' = indices_of sel"
    using move_index [OF no_free_index cell_index [OF i], of "{}"] unfolding s(4) p(4) r(2) [OF disjI1 [OF refl]] by simp
  moreover have "\<forall>p<length sel. if p \<in> set (i # is) then sel' ! p = -1 \<or> sel' ! p = int p else sel' ! p = sel ! p \<or> sel' ! p = int p"
  proof (intro allI impI)
    fix q assume q: "q < length sel"
    then have "s1 ! q = ?s ! q \<or> s1 ! q = int q" "if q \<in> set is then sel' ! q = -1 \<or> sel' ! q = int q else sel' ! q = s1 ! q \<or> sel' ! q = int q" using p(5) s(5) by blast+
    then show "if q \<in> set (i # is) then sel' ! q = -1 \<or> sel' ! q = int q else sel' ! q = sel ! q \<or> sel' ! q = int q"
      using q by (cases "q = i") (auto split: if_splits)
  qed
  ultimately show ?case using p(1) s(1-3) by auto
qed simp

text \<open>When every other cell is free the indices end up in their increasing order.\<close>

lemma place_all_sorts:
  assumes "index_array sel" "set is \<subseteq> {..<length sel}" "\<forall>p<length sel. p \<notin> set is \<longrightarrow> sel ! p = -1"
  obtains sel' where "place_all is sel = Some sel'" "length sel' = length sel"
    "filter (\<lambda>v. v \<noteq> -1) sel' = map int (filter (\<lambda>p. int p \<in> indices_of sel) [0..<length sel])"
proof -
  from place_all_spec [OF assms(1,2)] obtain sel' where
    s: "place_all is sel = Some sel'" "length sel' = length sel" "indices_of sel' = indices_of sel"
      "\<forall>p<length sel. if p \<in> set is then sel' ! p = -1 \<or> sel' ! p = int p else sel' ! p = sel ! p \<or> sel' ! p = int p" by blast
  have own: "sel' ! p = -1 \<or> sel' ! p = int p" if "p < length sel" for p
    using s(4) [rule_format, OF that] assms(3) that by (auto split: if_splits)
  have occ: "sel' ! p = (if int p \<in> indices_of sel then int p else -1)" if "p < length sel" for p
  proof (cases "int p \<in> indices_of sel")
    case True
    then obtain q where "q < length sel" "sel' ! q = int p" unfolding s(3) [symmetric] in_indices s(2) by blast
    then have "q = p" using own [of q] by auto
    then show ?thesis using True \<open>sel' ! q = int p\<close> by simp
  next
    case False
    then have "sel' ! p \<noteq> int p" using that s(2) unfolding s(3) [symmetric] in_indices by auto
    then show ?thesis using False own [OF that] by simp
  qed
  have "sel' = map (\<lambda>p. if int p \<in> indices_of sel then int p else -1) [0..<length sel]"
    by (rule nth_equalityI) (use s(2) occ in auto)
  then have "filter (\<lambda>v. v \<noteq> -1) sel' = map int (filter (\<lambda>p. int p \<in> indices_of sel) [0..<length sel])"
    by (simp add: filter_map comp_def)
  with s(1,2) that show thesis by blast
qed

section \<open>The selected samples\<close>

definition comparator :: "(int \<Rightarrow> int \<Rightarrow> int) \<Rightarrow> bool" where
  "comparator cmp \<longleftrightarrow> (\<forall>a b. cmp a b \<le> 0 \<or> cmp b a \<le> 0) \<and> (\<forall>a b c. cmp a b \<le> 0 \<and> cmp b c \<le> 0 \<longrightarrow> cmp a c \<le> 0)"

text \<open>What is documented of \<open>qsort\<close>: with an order it sorts, and equal elements may be left in any order.\<close>

locale comparison_sort =
  fixes qs :: "(int \<Rightarrow> int \<Rightarrow> int) \<Rightarrow> int list \<Rightarrow> int list"
  assumes qs_mset: "mset (qs cmp xs) = mset xs"
    and qs_sorted: "comparator cmp \<Longrightarrow> sorted_wrt (\<lambda>a b. cmp a b \<le> 0) (qs cmp xs)"
begin

lemma order_by_offset:
  obtains order where "qs (compare_samples samples) (map int is) = map int order" "mset order = mset is"
    "sorted (map (\<lambda>i. sm_offset (samples ! i)) order)"
proof -
  let ?ys = "qs (compare_samples samples) (map int is)"
  have m: "mset ?ys = mset (map int is)" by (rule qs_mset)
  have "\<forall>y\<in>set ?ys. 0 \<le> y" using mset_eq_setD [OF m] by auto
  then have "map int (map nat ?ys) = ?ys" unfolding map_map by (intro map_idI) simp
  then have y: "?ys = map int (map nat ?ys)" ..
  have "mset (map nat ?ys) = mset is" using arg_cong [OF m, of "image_mset nat"] by (simp add: multiset.map_comp comp_def)
  moreover have "comparator (compare_samples samples)" by (auto simp: comparator_def compare_samples_def Let_def)
  then have "sorted (map (\<lambda>i. sm_offset (samples ! i)) (map nat ?ys))"
    using qs_sorted by (fastforce simp: sorted_map comp_def compare_samples_def Let_def elim!: sorted_wrt_mono_rel [rotated] split: if_splits)
  ultimately show thesis using that y by blast
qed

end

fun insert_by :: "(int \<Rightarrow> int \<Rightarrow> int) \<Rightarrow> int \<Rightarrow> int list \<Rightarrow> int list" where
  "insert_by cmp x [] = [x]"
| "insert_by cmp x (y # ys) = (if cmp x y \<le> 0 then x # y # ys else y # insert_by cmp x ys)"

definition insertion_sort_by :: "(int \<Rightarrow> int \<Rightarrow> int) \<Rightarrow> int list \<Rightarrow> int list" where
  "insertion_sort_by cmp xs = foldr (insert_by cmp) xs []"

lemma mset_insert_by: "mset (insert_by cmp x ys) = add_mset x (mset ys)"
  by (induction ys) auto

lemma sorted_insert_by:
  assumes "comparator cmp" "sorted_wrt (\<lambda>a b. cmp a b \<le> 0) ys"
  shows "sorted_wrt (\<lambda>a b. cmp a b \<le> 0) (insert_by cmp x ys)"
  using assms(2)
proof (induction ys)
  case (Cons y ys)
  have "set (insert_by cmp x ys) = insert x (set ys)" using mset_eq_setD [of "insert_by cmp x ys" "x # ys"] by (simp add: mset_insert_by)
  moreover have "cmp y x \<le> 0" if "\<not> cmp x y \<le> 0" using assms(1) that unfolding comparator_def by blast
  moreover have "cmp x z \<le> 0" if "cmp x y \<le> 0" "z \<in> set ys" for z using assms(1) that Cons.prems unfolding comparator_def sorted_wrt.simps by blast
  ultimately show ?case using Cons by simp
qed simp

interpretation isort_by: comparison_sort insertion_sort_by
proof
  show "mset (insertion_sort_by cmp xs) = mset xs" for cmp xs by (induction xs) (simp_all add: insertion_sort_by_def mset_insert_by)
  show "sorted_wrt (\<lambda>a b. cmp a b \<le> 0) (insertion_sort_by cmp xs)" if "comparator cmp" for cmp xs
    using that by (induction xs) (simp_all add: insertion_sort_by_def sorted_insert_by)
qed

definition spf_ok :: "SPF_Instance \<Rightarrow> bool" where
  "spf_ok f \<longleftrightarrow> 1 \<le> spf_min_samples f \<and> spf_min_samples f \<le> spf_max_samples f \<and> spf_max_samples f \<le> SPF_MAX_SAMPLES \<and>
     int (length (spf_samples f)) = spf_max_samples f \<and> int (length (selected f)) = spf_max_samples f \<and> int (spf_used f) \<le> spf_max_samples f \<and>
     -1 \<le> spf_last f \<and> spf_last f < spf_max_samples f \<and>
     (if spf_used f = 0 then spf_index f = -1
      else spf_last f = spf_index f \<and> 0 \<le> spf_index f \<and> spf_index f < int (spf_used f) \<and>
        (int (spf_used f) < spf_max_samples f \<longrightarrow> spf_index f = int (spf_used f) - 1)) \<and>
     0 \<le> avg_var_n f \<and> 0 \<le> combine_ratio f \<and> combine_ratio f \<le> 1"

text \<open>The indices of the samples in the order in which they were accumulated.\<close>

definition time_order :: "SPF_Instance \<Rightarrow> nat list" where
  "time_order f = map (\<lambda>v. nat ((int v + spf_index f + 1) mod int (spf_used f))) [0..<spf_used f]"

definition history_of :: "SPF_Instance \<Rightarrow> NTP_Sample list" where
  "history_of f = map (\<lambda>i. spf_samples f ! i) (time_order f)"

lemma candidates_facts: "distinct (candidates_of f)" "set (candidates_of f) \<subseteq> {..<spf_used f}" "0 < spf_used f \<Longrightarrow> candidates_of f \<noteq> []"
  by (auto simp: candidates_of_def Let_def)

lemma from_end_less: "0 < m \<Longrightarrow> 2 * select_from_end f m < m"
  unfolding select_from_end_def CLAMP_def by auto

text \<open>The rotation between the places in the array and the places in the order of time.\<close>

lemma rotation:
  fixes u :: int
  assumes "0 \<le> ix" "ix < u" "0 \<le> v" "v < u"
  shows "((v + (u - ix - 1)) mod u + ix + 1) mod u = v" "((v + ix + 1) mod u + (u - ix - 1)) mod u = v"
proof -
  have "((v + (u - ix - 1)) mod u + ix + 1) mod u = (v + (u - ix - 1) + (ix + 1)) mod u" by (metis add.assoc mod_add_left_eq)
  also have "v + (u - ix - 1) + (ix + 1) = v + u" by simp
  finally show "((v + (u - ix - 1)) mod u + ix + 1) mod u = v" using assms by simp
  have "((v + ix + 1) mod u + (u - ix - 1)) mod u = (v + ix + 1 + (u - ix - 1)) mod u" by (rule mod_add_left_eq)
  also have "v + ix + 1 + (u - ix - 1) = v + u" by simp
  finally show "((v + ix + 1) mod u + (u - ix - 1)) mod u = v" using assms by simp
qed

lemma length_time_order: "length (time_order f) = spf_used f"
  by (simp add: time_order_def)

lemma time_order_perm:
  assumes "0 \<le> spf_index f" "spf_index f < int (spf_used f)"
  shows "distinct (time_order f)" "set (time_order f) = {..<spf_used f}"
proof -
  let ?u = "int (spf_used f)" and ?ix = "spf_index f"
  have inv: "((int v + ?ix + 1) mod ?u + (?u - ?ix - 1)) mod ?u = int v" if "v < spf_used f" for v using rotation(2) [OF assms, of "int v"] that by simp
  have nn: "0 \<le> (int v + ?ix + 1) mod ?u" for v using assms by simp
  have inj: "inj_on (\<lambda>v. nat ((int v + ?ix + 1) mod ?u)) {..<spf_used f}"
  proof (rule inj_onI)
    fix v w assume "v \<in> {..<spf_used f}" "w \<in> {..<spf_used f}" "nat ((int v + ?ix + 1) mod ?u) = nat ((int w + ?ix + 1) mod ?u)"
    then show "v = w" using inv [of v] inv [of w] nn by (metis eq_nat_nat_iff lessThan_iff of_nat_eq_iff)
  qed
  then show d: "distinct (time_order f)" by (simp add: time_order_def distinct_map atLeast0LessThan)
  have "set (time_order f) \<subseteq> {..<spf_used f}" using assms by (auto simp: time_order_def nat_less_iff)
  moreover have "card (set (time_order f)) = spf_used f" using distinct_card [OF d] by (simp add: time_order_def)
  ultimately show "set (time_order f) = {..<spf_used f}" by (simp add: card_subset_eq)
qed

text \<open>
  The marked array for an order of candidates: the indices are the places in the order of time of the samples
  that are not left out at the ends.
\<close>

definition kept_of :: "SPF_Instance \<Rightarrow> nat list \<Rightarrow> nat list" where
  "kept_of f order = (let k = select_from_end f (length order) in take (length order - 2 * k) (drop k order))"

lemma in_kept: "v \<in> set (kept_of f order) \<longleftrightarrow> (\<exists>i. select_from_end f (length order) \<le> i \<and> i < length order - select_from_end f (length order) \<and> order ! i = v)"
proof -
  let ?k = "select_from_end f (length order)"
  have e: "kept_of f order = map (\<lambda>i. order ! (?k + i)) [0..<length order - 2 * ?k]" by (rule nth_equalityI) (auto simp: kept_of_def Let_def)
  show ?thesis
  proof
    assume "v \<in> set (kept_of f order)"
    then obtain i where "i < length order - 2 * ?k" "v = order ! (?k + i)" unfolding e by auto
    then show "\<exists>i. ?k \<le> i \<and> i < length order - ?k \<and> order ! i = v" by (intro exI [of _ "?k + i"]) auto
  next
    assume "\<exists>i. ?k \<le> i \<and> i < length order - ?k \<and> order ! i = v"
    then obtain i where "?k \<le> i" "i < length order - ?k" "order ! i = v" by blast
    then show "v \<in> set (kept_of f order)" unfolding e by (auto intro!: image_eqI [of _ _ "i - ?k"])
  qed
qed

lemma kept_subset: "set (kept_of f order) \<subseteq> set order"
  by (auto simp: kept_of_def Let_def dest: in_set_takeD in_set_dropD)

lemma marked_array:
  assumes "0 \<le> spf_index f" "spf_index f < int (spf_used f)" "distinct order" "set order \<subseteq> {..<spf_used f}"
  shows "index_array (mark_unused f (map int order))" "length (mark_unused f (map int order)) = spf_used f"
    "p < spf_used f \<Longrightarrow> int p \<in> indices_of (mark_unused f (map int order)) \<longleftrightarrow> time_order f ! p \<in> set (kept_of f order)"
proof -
  let ?u = "int (spf_used f)" and ?ix = "spf_index f" and ?k = "select_from_end f (length order)" and ?sel = "mark_unused f (map int order)"
  have len: "length order \<le> spf_used f" using card_mono [OF _ assms(4)] distinct_card [OF assms(3)] by simp
  show l: "length ?sel = spf_used f" by (simp add: mark_unused_def Let_def)
  have cell: "?sel ! p = (if ?k \<le> p \<and> p < length order - ?k then (int (order ! p) + (?u - ?ix - 1)) mod ?u else -1)" if "p < spf_used f" for p
    using that by (auto simp: mark_unused_def Let_def)
  have lt: "order ! p < spf_used f" if "p < length order" for p using assms(4) nth_mem [OF that] by auto
  have orig: "nat ((?sel ! p + ?ix + 1) mod ?u) = order ! p" if "p < spf_used f" "?sel ! p \<noteq> -1" for p
    using that cell [OF that(1)] rotation(1) [OF assms(1,2), of "int (order ! p)"] lt [of p] by (auto split: if_splits)
  show "index_array ?sel"
    unfolding index_array_def l
  proof (intro allI impI conjI)
    fix p assume p: "p < spf_used f" "?sel ! p \<noteq> -1"
    show "0 \<le> ?sel ! p" "?sel ! p < ?u" using cell [OF p(1)] p(2) assms(1,2) by (auto split: if_splits)
    fix q assume q: "q < spf_used f" "?sel ! q = ?sel ! p"
    have "order ! p = order ! q" using orig [OF p] orig [OF q(1)] q(2) p(2) by simp
    moreover have "p < length order" "q < length order" using cell [OF p(1)] cell [OF q(1)] q(2) p(2) by (auto split: if_splits)
    ultimately show "q = p" using assms(3) by (simp add: nth_eq_iff_index_eq)
  qed
  show "int p \<in> indices_of ?sel \<longleftrightarrow> time_order f ! p \<in> set (kept_of f order)" if p: "p < spf_used f"
  proof
    assume "int p \<in> indices_of ?sel"
    then obtain q where q: "q < spf_used f" "?sel ! q = int p" unfolding in_indices l by blast
    then have "time_order f ! p = order ! q" using orig [of q] p by (simp add: time_order_def)
    moreover have "?k \<le> q \<and> q < length order - ?k" using cell [OF q(1)] q(2) by (auto split: if_splits)
    ultimately show "time_order f ! p \<in> set (kept_of f order)" unfolding in_kept by auto
  next
    assume "time_order f ! p \<in> set (kept_of f order)"
    then obtain q where q: "?k \<le> q" "q < length order - ?k" "order ! q = time_order f ! p" unfolding in_kept by blast
    have u: "q < spf_used f" using q(2) len by simp
    have "int (time_order f ! p) = (int p + ?ix + 1) mod ?u" using p assms(1) by (simp add: time_order_def)
    then have "?sel ! q = int p" using cell [OF u] q rotation(2) [OF assms(1,2), of "int p"] p by simp
    then show "int p \<in> indices_of ?sel" using u l unfolding in_indices by auto
  qed
qed

lemma filter_by_index: "map (\<lambda>p. xs ! p) (filter (\<lambda>p. P (xs ! p)) [0..<length xs]) = filter P xs"
  using filter_map [of P "\<lambda>p. xs ! p" "[0..<length xs]"] by (simp add: map_nth comp_def)

lemma select_samples_spec:
  assumes "comparison_sort qs" "spf_ok f" "spf_min_samples f \<le> int (spf_used f)"
  obtains order f' where "mset order = mset (candidates_of f)" "sorted (map (\<lambda>i. sm_offset (spf_samples f ! i)) order)"
    "select_samples qs f = Some (length (kept_of f order), f')" "0 < length (kept_of f order)" "f' = f\<lparr>selected := selected f'\<rparr>"
    "length (selected f') = length (selected f)"
    "take (length (kept_of f order)) (selected f') = map int (filter (\<lambda>i. i \<in> set (kept_of f order)) (time_order f))"
    "length (filter (\<lambda>i. i \<in> set (kept_of f order)) (time_order f)) = length (kept_of f order)"
proof -
  from comparison_sort.order_by_offset [OF assms(1), of "spf_samples f" "candidates_of f"] obtain order where
    o: "qs (compare_samples (spf_samples f)) (map int (candidates_of f)) = map int order" "mset order = mset (candidates_of f)"
      "sorted (map (\<lambda>i. sm_offset (spf_samples f ! i)) order)" .
  have u: "0 < spf_used f" "0 \<le> spf_index f" "spf_index f < int (spf_used f)" "int (spf_used f) \<le> spf_max_samples f" "int (length (selected f)) = spf_max_samples f"
    using assms(2,3) by (auto simp: spf_ok_def split: if_splits)
  have d: "distinct order" "set order \<subseteq> {..<spf_used f}" "order \<noteq> []"
    using candidates_facts [of f] u(1) o(2) mset_eq_setD [OF o(2)] mset_eq_imp_distinct_iff [OF o(2)] by auto
  let ?k = "select_from_end f (length order)" and ?n = "length (kept_of f order)" and ?kept = "filter (\<lambda>i. i \<in> set (kept_of f order)) (time_order f)"
  have len: "length order \<le> spf_used f" using card_mono [OF _ d(2)] distinct_card [OF d(1)] by simp
  have k: "2 * ?k < length order" by (rule from_end_less) (use d(3) in simp)
  have n: "?n = length order - 2 * ?k" "0 < ?n" using k by (simp_all add: kept_of_def Let_def)
  note m = marked_array [OF u(2,3) d(1,2)]
  have outside: "\<forall>p<length (mark_unused f (map int order)). p \<notin> set [?k..<length order - ?k] \<longrightarrow> mark_unused f (map int order) ! p = -1"
    by (auto simp: mark_unused_def Let_def)
  obtain sel where s: "place_all [?k..<length order - ?k] (mark_unused f (map int order)) = Some sel" "length sel = spf_used f"
      "filter (\<lambda>v. v \<noteq> -1) sel = map int (filter (\<lambda>p. int p \<in> indices_of (mark_unused f (map int order))) [0..<spf_used f])"
    by (rule place_all_sorts [OF m(1) _ outside]) (use len m(2) in auto)
  have fl: "filter (\<lambda>p. int p \<in> indices_of (mark_unused f (map int order))) [0..<spf_used f] = filter (\<lambda>p. time_order f ! p \<in> set (kept_of f order)) [0..<spf_used f]"
    by (rule filter_cong) (use m(3) in auto)
  have t: "(int p + int (spf_used f) - (int (spf_used f) - spf_index f - 1)) mod int (spf_used f) = int (time_order f ! p)" if "p < spf_used f" for p
  proof -
    have "int p + int (spf_used f) - (int (spf_used f) - spf_index f - 1) = int p + spf_index f + 1" by simp
    then show ?thesis using that u(2,3) by (simp add: time_order_def add.assoc)
  qed
  have "map (\<lambda>v. (v + int (spf_used f) - (int (spf_used f) - spf_index f - 1)) mod int (spf_used f)) (filter (\<lambda>v. v \<noteq> -1) sel) =
      map int (map (\<lambda>p. time_order f ! p) (filter (\<lambda>p. time_order f ! p \<in> set (kept_of f order)) [0..<spf_used f]))"
    unfolding s(3) fl map_map comp_def by (rule map_cong [OF refl], rule t) auto
  also have "map (\<lambda>p. time_order f ! p) (filter (\<lambda>p. time_order f ! p \<in> set (kept_of f order)) [0..<spf_used f]) = ?kept"
    using filter_by_index [of "time_order f" "\<lambda>i. i \<in> set (kept_of f order)"] by (simp add: length_time_order)
  finally have kept: "map (\<lambda>v. (v + int (spf_used f) - (int (spf_used f) - spf_index f - 1)) mod int (spf_used f)) (filter (\<lambda>v. v \<noteq> -1) sel) = map int ?kept" .
  have "set ?kept = set (kept_of f order)" using time_order_perm(2) [OF u(2,3)] d(2) kept_subset [of f order] by auto
  then have lk: "length ?kept = ?n"
    using distinct_card [of ?kept] distinct_card [of "kept_of f order"] time_order_perm(1) [OF u(2,3)] d(1) by (simp add: kept_of_def Let_def)
  have le: "?n \<le> spf_used f" using n(1) len by simp
  have enough: "\<not> int (spf_used f) < spf_min_samples f" and fits: "\<not> \<not> (?n > 0 \<and> int ?n \<le> spf_max_samples f)" using assms(3) n(2) le u(4) by auto
  have e: "select_samples qs f = Some (?n, f\<lparr>selected := map int ?kept @ drop ?n (sel @ drop (spf_used f) (selected f))\<rparr>)"
    unfolding select_samples_def if_not_P [OF enough] Let_def o(1) length_map [of int order] s(1) Option.bind.bind_lunit kept
      length_map [of int ?kept] lk if_not_P [OF fits] ..
  show thesis
    by (rule that [OF o(2,3) e n(2)]) (use lk le s(2) u(4,5) in auto)
qed

section \<open>The filtered sample\<close>

lemma sample_variance_some:
  assumes "0 < n" "length x = n" "length y = n" "length w = n"
  obtains var disp df where "sample_variance f x y w n = Some (var, disp, df)" "0 < df"
proof (cases "n \<ge> 4")
  case True
  let ?x = "map (\<lambda>v. v - sum_list x / of_nat n) x"
  have "RGR_WeightedRegression ?x y w n \<noteq> None" using True assms by (simp add: RGR_WeightedRegression_def Let_def)
  then obtain r where "RGR_WeightedRegression ?x y w n = Some r" by blast
  then show thesis using that [of "s2 r" "sb0 r" "n - 2"] True by (simp add: sample_variance_def Let_def)
next
  case False
  then show thesis using that assms(1) by (cases "n \<ge> 2") (simp_all add: sample_variance_def Let_def)
qed

lemma update_avg_var_fields:
  assumes "update_avg_var var df f = (prev, f')" "0 \<le> avg_var_n f"
  shows "f' = f\<lparr>avg_var := avg_var f', avg_var_n := avg_var_n f'\<rparr>" "0 \<le> avg_var_n f'"
  using assms by (auto simp: update_avg_var_def Let_def split: if_splits)

text \<open>
  What a filtered sample is made of: \<open>smp\<close> are the combined samples from the oldest one.  The variance, the deviation and the degrees of
  freedom are those of the offsets against the intervals to the newest one, not below a minimum; the result has the mean of
  the times, offsets and delays, and dispersions that are not below their means nor below the deviation, which is scaled by
  the average variance when that is larger.
\<close>

definition mean_of :: "(NTP_Sample \<Rightarrow> real) \<Rightarrow> NTP_Sample list \<Rightarrow> real" where
  "mean_of g smp = sum_list (map g smp) / of_nat (length smp)"

definition interval_to :: "NTP_Sample \<Rightarrow> NTP_Sample \<Rightarrow> real" where
  "interval_to newest s = UTI_DiffTimespecsToDouble (sm_time s) (sm_time newest)"

definition spread_of :: "SPF_Instance \<Rightarrow> NTP_Sample list \<Rightarrow> real \<Rightarrow> real \<Rightarrow> nat \<Rightarrow> bool" where
  "spread_of f smp var disp df \<longleftrightarrow> (\<exists>v d. sample_variance f (map (interval_to (last smp)) smp) (map sm_offset smp) (map sm_peer_dispersion smp) (length smp) = Some (v, d, df) \<and>
     (var, disp) = (if v < 1 / 10 ^ 20 then (1 / 10 ^ 20, sqrt (1 / 10 ^ 20)) else (v, d)))"

definition merges :: "SPF_Instance \<Rightarrow> NTP_Sample list \<Rightarrow> NTP_Sample \<Rightarrow> SPF_Instance \<Rightarrow> bool" where
  "merges f smp s f' \<longleftrightarrow> (\<exists>var disp df coef prev f1.
     spread_of f smp var disp df \<and> RGR_GetChi2Coef (int df) = Some coef \<and> update_avg_var var df f = (prev, f1) \<and> avg_var f' = avg_var f1 \<and> avg_var_n f' = avg_var_n f1 \<and>
     (let d = (if var * of_nat df / coef < prev then sqrt (avg_var f1) * disp / sqrt var else disp) in
      s = \<lparr>sm_time = UTI_AddDoubleToTimespec (sm_time (last smp)) (mean_of (interval_to (last smp)) smp), sm_offset = mean_of sm_offset smp,
           sm_peer_delay = mean_of sm_peer_delay smp, sm_peer_dispersion = max d (mean_of sm_peer_dispersion smp),
           sm_root_delay = mean_of sm_root_delay smp, sm_root_dispersion = max d (mean_of sm_root_dispersion smp)\<rparr>))"

lemma combine_spec:
  assumes "0 < n" "take n (selected f) = map int is" "length is = n" "set is \<subseteq> {..<length (spf_samples f)}" "0 \<le> avg_var_n f"
    "smp = map (\<lambda>i. spf_samples f ! i) is"
  obtains r f' var disp df where "combine_selected_samples n f = Some (r, f')" "f' = f\<lparr>avg_var := avg_var f', avg_var_n := avg_var_n f'\<rparr>" "0 \<le> avg_var_n f'"
    "spread_of f smp var disp df" "r = None \<longleftrightarrow> 0 < max_var f \<and> max_var f < var" "r = None \<longrightarrow> f' = f" "\<forall>s. r = Some s \<longrightarrow> merges f smp s f'"
proof -
  have g: "\<not> (n = 0 \<or> n > length (selected f) \<or> (\<exists>v\<in>set (take n (selected f)). v < 0 \<or> v \<ge> int (length (spf_samples f))))"
    using assms(1-4) arg_cong [OF assms(2), of length] by auto
  have smp: "map (\<lambda>v. spf_samples f ! nat v) (take n (selected f)) = smp" "length smp = n" "smp \<noteq> []" unfolding assms(2,6) using assms(1,3) by auto
  have l: "smp ! (n - 1) = last smp" using smp(2,3) by (simp add: last_conv_nth)
  let ?x = "map (interval_to (last smp)) smp"
  have x: "map (\<lambda>s. UTI_DiffTimespecsToDouble (sm_time s) (sm_time (last smp))) smp = ?x" by (simp add: interval_to_def)
  obtain v d df where v: "sample_variance f ?x (map sm_offset smp) (map sm_peer_dispersion smp) n = Some (v, d, df)" "0 < df"
    by (rule sample_variance_some [of n ?x "map sm_offset smp" "map sm_peer_dispersion smp" f]) (use assms(1) smp(2) in auto)
  obtain var disp where c: "(if v < 1 / 10 ^ 20 then (1 / 10 ^ 20, sqrt (1 / 10 ^ 20)) else (v, d)) = (var, disp)" by fastforce
  have sp: "spread_of f smp var disp df" using v(1) c smp(2) by (auto simp: spread_of_def)
  obtain prev f1 where a: "update_avg_var var df f = (prev, f1)" by fastforce
  have "RGR_GetChi2Coef (int df) \<noteq> None" using v(2) by (simp add: RGR_GetChi2Coef_def del: not_None_eq)
  then obtain coef where co: "RGR_GetChi2Coef (int df) = Some coef" by blast
  note unf = combine_selected_samples_def if_not_P [OF g] Let_def smp(1) l x v(1) Option.bind.bind_lunit prod.case c
  show thesis
  proof (cases "max_var f > 0 \<and> var > max_var f")
    case True
    have "combine_selected_samples n f = Some (None, f)" unfolding unf by (rule if_P [OF True])
    then show thesis using that [of None f] sp True assms(5) by simp
  next
    case False
    let ?d = "if var * of_nat df / coef < prev then sqrt (avg_var f1) * disp / sqrt var else disp"
    let ?s = "\<lparr>sm_time = UTI_AddDoubleToTimespec (sm_time (last smp)) (mean_of (interval_to (last smp)) smp), sm_offset = mean_of sm_offset smp,
           sm_peer_delay = mean_of sm_peer_delay smp, sm_peer_dispersion = max ?d (mean_of sm_peer_dispersion smp),
           sm_root_delay = mean_of sm_root_delay smp, sm_root_dispersion = max ?d (mean_of sm_root_dispersion smp)\<rparr>"
    have "combine_selected_samples n f = Some (Some ?s, f1)"
      unfolding unf if_not_P [OF False] a co mean_of_def smp(2) ..
    moreover have "merges f smp ?s f1" unfolding merges_def Let_def using sp co a by blast
    ultimately show thesis using that [of "Some ?s" f1] update_avg_var_fields [OF a assms(5)] sp False by simp
  qed
qed

lemma mean_between:
  fixes xs :: "real list"
  assumes "xs \<noteq> []" "\<forall>x\<in>set xs. a \<le> x \<and> x \<le> b"
  shows "a \<le> sum_list xs / of_nat (length xs)" "sum_list xs / of_nat (length xs) \<le> b"
proof -
  have "of_nat (length xs) * a \<le> sum_list xs \<and> sum_list xs \<le> of_nat (length xs) * b"
    using assms(2) by (induction xs) (auto simp: algebra_simps)
  then show "a \<le> sum_list xs / of_nat (length xs)" "sum_list xs / of_nat (length xs) \<le> b" using assms(1) by (simp_all add: field_simps)
qed

lemma kept_between:
  assumes "sorted (map g order)" "i \<in> set (kept_of f order)"
  shows "g (order ! select_from_end f (length order)) \<le> g i" "g i \<le> g (order ! (length order - 1 - select_from_end f (length order)))"
proof -
  let ?k = "select_from_end f (length order)"
  obtain j where j: "?k \<le> j" "j < length order - ?k" "i = order ! j" using assms(2) unfolding in_kept by blast
  show "g (order ! ?k) \<le> g i" using sorted_nth_mono [OF assms(1) j(1)] j by simp
  show "g i \<le> g (order ! (length order - 1 - ?k))" using sorted_nth_mono [OF assms(1), of j "length order - 1 - ?k"] j by simp
qed

lemma update_avg_var_same:
  assumes "avg_var_n g = avg_var_n f" "avg_var g = avg_var f" "update_avg_var var df g = (prev, g')"
  shows "\<exists>f'. update_avg_var var df f = (prev, f') \<and> avg_var f' = avg_var g' \<and> avg_var_n f' = avg_var_n g'"
  using assms(3) unfolding update_avg_var_def assms(1,2) by (cases "avg_var_n f > 50") (auto simp: Let_def assms(1))

definition filter_outcome :: "SPF_Instance \<Rightarrow> nat list \<Rightarrow> NTP_Sample option \<Rightarrow> SPF_Instance \<Rightarrow> bool" where
  "filter_outcome f order r f' \<longleftrightarrow>
    (let k = select_from_end f (length order);
         kept = take (length order - 2 * k) (drop k order);
         places = filter (\<lambda>i. i \<in> set kept) (time_order f);
         smp = map (\<lambda>i. spf_samples f ! i) places in
     2 * k < length order \<and> length smp = length order - 2 * k \<and> take (length smp) (selected f') = map int places \<and>
     (\<exists>var disp df. spread_of f smp var disp df \<and> (r = None \<longleftrightarrow> 0 < max_var f \<and> max_var f < var)) \<and>
     (case r of None \<Rightarrow> f' = f\<lparr>selected := selected f'\<rparr>
      | Some s \<Rightarrow> merges f smp s f' \<and> spf_used f' = 0 \<and> SPF_GetLastSample f' = SPF_GetLastSample f \<and>
          f' = drop_samples True (f\<lparr>selected := selected f', avg_var := avg_var f', avg_var_n := avg_var_n f'\<rparr>) \<and>
          sm_offset (spf_samples f ! (order ! k)) \<le> sm_offset s \<and> sm_offset s \<le> sm_offset (spf_samples f ! (order ! (length order - 1 - k)))))"

lemma filtered_result:
  assumes "comparison_sort qs" "spf_ok f" "spf_min_samples f \<le> int (spf_used f)"
  shows "\<exists>order r f'. SPF_GetFilteredSample qs f = Some (r, f') \<and> spf_ok f' \<and> mset order = mset (candidates_of f) \<and>
    sorted (map (\<lambda>i. sm_offset (spf_samples f ! i)) order) \<and>
    filter_outcome f order r f'"
proof -
  from select_samples_spec [OF assms] obtain order f1 where
    o: "mset order = mset (candidates_of f)" "sorted (map (\<lambda>i. sm_offset (spf_samples f ! i)) order)"
      "select_samples qs f = Some (length (kept_of f order), f1)" "0 < length (kept_of f order)" "f1 = f\<lparr>selected := selected f1\<rparr>"
      "length (selected f1) = length (selected f)"
      "take (length (kept_of f order)) (selected f1) = map int (filter (\<lambda>i. i \<in> set (kept_of f order)) (time_order f))"
      "length (filter (\<lambda>i. i \<in> set (kept_of f order)) (time_order f)) = length (kept_of f order)" .
  let ?k = "select_from_end f (length order)" and ?is = "filter (\<lambda>i. i \<in> set (kept_of f order)) (time_order f)" and ?off = "\<lambda>i. sm_offset (spf_samples f ! i)"
  let ?smp = "map (\<lambda>i. spf_samples f ! i) ?is"
  have u: "0 \<le> spf_index f" "spf_index f < int (spf_used f)" "spf_used f \<le> length (spf_samples f)" "0 \<le> avg_var_n f"
    using assms(2,3) by (auto simp: spf_ok_def split: if_splits)
  have same: "spf_samples f1 = spf_samples f" "avg_var_n f1 = avg_var_n f" "max_var f1 = max_var f" "avg_var f1 = avg_var f" by (subst o(5), simp)+
  have "sample_variance f1 = sample_variance f" unfolding sample_variance_def [abs_def] same(4) ..
  then have eqv: "spread_of f1 = spread_of f" unfolding spread_of_def [abs_def] by simp
  have "set ?is \<subseteq> {..<spf_used f}" unfolding time_order_perm(2) [OF u(1,2), symmetric] by (rule filter_is_subset)
  also have "\<dots> \<subseteq> {..<length (spf_samples f1)}" unfolding same(1) using u(3) by simp
  finally have inside: "set ?is \<subseteq> {..<length (spf_samples f1)}" .
  have "0 \<le> avg_var_n f1" "?smp = map (\<lambda>i. spf_samples f1 ! i) ?is" using u(4) same by simp_all
  from combine_spec [OF o(4,7,8) inside this] obtain r f' var disp df where
    c: "combine_selected_samples (length (kept_of f order)) f1 = Some (r, f')" "f' = f1\<lparr>avg_var := avg_var f', avg_var_n := avg_var_n f'\<rparr>" "0 \<le> avg_var_n f'"
      "spread_of f1 ?smp var disp df" "r = None \<longleftrightarrow> 0 < max_var f1 \<and> max_var f1 < var" "r = None \<longrightarrow> f' = f1" "\<forall>s. r = Some s \<longrightarrow> merges f1 ?smp s f'" .
  have m: "merges f ?smp s f'" if "r = Some s" for s using c(7) [rule_format, OF that] update_avg_var_same [OF same(2,4)] unfolding merges_def eqv by metis
  have off: "sm_offset s = sum_list (map ?off ?is) / of_nat (length (map ?off ?is))" if "r = Some s" for s
    using m [OF that] by (auto simp: merges_def mean_of_def Let_def comp_def)
  have f': "f' = f\<lparr>selected := selected f1, avg_var := avg_var f', avg_var_n := avg_var_n f'\<rparr>"
    by (subst c(2), subst o(5)) simp
  have ok': "spf_ok f'" using assms(2) c(3) o(6) by (subst f') (simp add: spf_ok_def)
  have k: "2 * ?k < length order" "length (kept_of f order) = length order - 2 * ?k" using o(4) by (simp_all add: kept_of_def Let_def)
  have ne: "map ?off ?is \<noteq> []" using o(4,8) by auto
  have b: "?off (order ! ?k) \<le> sm_offset s \<and> sm_offset s \<le> ?off (order ! (length order - 1 - ?k))" if "r = Some s" for s
    unfolding off [OF that] using mean_between [OF ne, of "?off (order ! ?k)" "?off (order ! (length order - 1 - ?k))"] kept_between [OF o(2)] by auto
  let ?g = "case r of None \<Rightarrow> f' | Some _ \<Rightarrow> drop_samples True f'"
  have e: "SPF_GetFilteredSample qs f = Some (r, ?g)"
    using o(3,4) c(1) by (simp add: SPF_GetFilteredSample_def split: option.splits)
  have okg: "spf_ok ?g" using ok' by (cases r) (auto simp: spf_ok_def drop_samples_def)
  have sel: "selected ?g = selected f1" using arg_cong [OF f', of selected] by (cases r) (simp_all add: drop_samples_def)
  have res: "case r of None \<Rightarrow> ?g = f\<lparr>selected := selected ?g\<rparr>
      | Some s \<Rightarrow> merges f ?smp s ?g \<and> spf_used ?g = 0 \<and> SPF_GetLastSample ?g = SPF_GetLastSample f \<and>
          ?g = drop_samples True (f\<lparr>selected := selected ?g, avg_var := avg_var ?g, avg_var_n := avg_var_n ?g\<rparr>) \<and>
          ?off (order ! ?k) \<le> sm_offset s \<and> sm_offset s \<le> ?off (order ! (length order - 1 - ?k))"
  proof (cases r)
    case None
    then show ?thesis using c(6) o(5) by simp
  next
    case (Some s)
    have "merges f ?smp s (drop_samples True f')" using m [OF Some] by (simp add: merges_def drop_samples_def)
    moreover have "SPF_GetLastSample (drop_samples True f') = SPF_GetLastSample f" by (subst f') (simp add: SPF_GetLastSample_def drop_samples_def)
    moreover have "drop_samples True f' = drop_samples True (f\<lparr>selected := selected (drop_samples True f'), avg_var := avg_var (drop_samples True f'),
        avg_var_n := avg_var_n (drop_samples True f')\<rparr>)" unfolding sel [unfolded Some option.case] by (subst f') (simp add: drop_samples_def)
    moreover have "spf_used (drop_samples True f') = 0" by (simp add: drop_samples_def)
    ultimately show ?thesis unfolding Some option.case using b [OF Some] by blast
  qed
  have sp: "\<exists>var disp df. spread_of f ?smp var disp df \<and> (r = None \<longleftrightarrow> 0 < max_var f \<and> max_var f < var)"
    using c(4,5) unfolding eqv same(3) by blast
  show ?thesis unfolding filter_outcome_def Let_def kept_of_def [unfolded Let_def, symmetric]
    by (intro exI [of _ order] exI [of _ r] exI [of _ ?g] conjI e okg o(1,2) k(1) sp res) (use o(7,8) k(2) sel in auto)
qed

text \<open>
  C18.  From a filter with enough samples, which have positive dispersions and different times, a filtered sample is made without a
  failed assertion or an access out of the arrays, or the samples are kept because their variance is above
  the maximum.  The candidates are ordered by their offsets; as many are left out at one end as at the other, at least one if
  there are more than two, and the indices of the others are left in the array in the order in which the samples were accumulated: the sort
  of the indices in place is correct.  The filtered sample has the mean of the times, offsets and delays of these samples, and the
  larger one of the mean dispersion and of the deviation; its offset is between the offsets of the first and of the last one that is not
  left out.  The buffer is then empty, and the last sample stays available.
\<close>

theorem filtered_sample:
  assumes "comparison_sort qs" "spf_ok f" "spf_min_samples f \<le> int (spf_used f)"
    "\<forall>s\<in>set (history_of f). 0 < sm_peer_dispersion s" "distinct (map (\<lambda>s. ts_ns (sm_time s)) (history_of f))"
  shows "\<exists>order r f'. SPF_GetFilteredSample qs f = Some (r, f') \<and> spf_ok f' \<and> mset order = mset (candidates_of f) \<and>
    sorted (map (\<lambda>i. sm_offset (spf_samples f ! i)) order) \<and>
    (let k = select_from_end f (length order);
         kept = take (length order - 2 * k) (drop k order);
         places = filter (\<lambda>i. i \<in> set kept) (time_order f);
         smp = map (\<lambda>i. spf_samples f ! i) places in
     2 * k < length order \<and> length smp = length order - 2 * k \<and> take (length smp) (selected f') = map int places \<and>
     (\<exists>var disp df. spread_of f smp var disp df \<and> (r = None \<longleftrightarrow> 0 < max_var f \<and> max_var f < var)) \<and>
     (case r of None \<Rightarrow> f' = f\<lparr>selected := selected f'\<rparr>
      | Some s \<Rightarrow> merges f smp s f' \<and> spf_used f' = 0 \<and> SPF_GetLastSample f' = SPF_GetLastSample f \<and>
          f' = drop_samples True (f\<lparr>selected := selected f', avg_var := avg_var f', avg_var_n := avg_var_n f'\<rparr>) \<and>
          sm_offset (spf_samples f ! (order ! k)) \<le> sm_offset s \<and> sm_offset s \<le> sm_offset (spf_samples f ! (order ! (length order - 1 - k)))))"
  using filtered_result [OF assms(1-3)] unfolding filter_outcome_def .

section \<open>The buffer as a bounded queue\<close>

datatype spf_op =
  Accumulate NTP_Sample
| Filter
| Drop
| Slew timespec real real
| Correct real
| Disperse real

datatype spf_result = Result bool | Filtered "NTP_Sample option"

definition spf_step :: "((int \<Rightarrow> int \<Rightarrow> int) \<Rightarrow> int list \<Rightarrow> int list) \<Rightarrow> spf_op \<Rightarrow> SPF_Instance \<Rightarrow> (spf_result \<times> SPF_Instance) option" where
  "spf_step qs x f = (case x of
     Accumulate s \<Rightarrow> map_option (apfst Result) (SPF_AccumulateSample s f)
   | Filter \<Rightarrow> map_option (apfst Filtered) (SPF_GetFilteredSample qs f)
   | Drop \<Rightarrow> Some (Result True, SPF_DropSamples f)
   | Slew when dfreq doffset \<Rightarrow> Some (Result True, SPF_SlewSamples when dfreq doffset f)
   | Correct doffset \<Rightarrow> Some (Result True, SPF_CorrectOffset doffset f)
   | Disperse dispersion \<Rightarrow> Some (Result True, SPF_AddDispersion dispersion f))"

text \<open>
  The queue: the number of samples that a filtered one needs, the capacity, the samples from the oldest one, and
  the last sample, which stays when a filtered one is made.
\<close>

record spf_queue =
  fq_min :: nat
  fq_max :: nat
  fq_samples :: "NTP_Sample list"
  fq_last :: "NTP_Sample option"

definition queue_of :: "SPF_Instance \<Rightarrow> spf_queue" where
  "queue_of f = \<lparr>fq_min = nat (spf_min_samples f), fq_max = nat (spf_max_samples f), fq_samples = history_of f, fq_last = SPF_GetLastSample f\<rparr>"

definition map_queue :: "(NTP_Sample \<Rightarrow> NTP_Sample) \<Rightarrow> spf_queue \<Rightarrow> spf_queue" where
  "map_queue g q = q\<lparr>fq_samples := map g (fq_samples q), fq_last := map_option g (fq_last q)\<rparr>"

text \<open>The operations on the queue, with their results.\<close>

definition queue_rel :: "spf_op \<Rightarrow> spf_queue \<Rightarrow> spf_result \<Rightarrow> spf_queue \<Rightarrow> bool" where
  "queue_rel x q r q' \<longleftrightarrow> (let h = fq_samples q in case x of
     Accumulate s \<Rightarrow>
       if h \<noteq> [] \<and> UTI_CompareTimespecs (sm_time (last h)) (sm_time s) \<ge> 0 then r = Result False \<and> q' = q
       else r = Result True \<and> q' = q\<lparr>fq_samples := (if length h = fq_max q then tl h else h) @ [s], fq_last := Some s\<rparr>
   | Filter \<Rightarrow> r = Filtered None \<and> q' = q \<or>
       (\<exists>s. r = Filtered (Some s) \<and> fq_min q \<le> length h \<and> (\<exists>a\<in>set h. sm_offset a \<le> sm_offset s) \<and> (\<exists>b\<in>set h. sm_offset s \<le> sm_offset b) \<and>
          q' = q\<lparr>fq_samples := []\<rparr>)
   | Drop \<Rightarrow> r = Result True \<and> q' = q\<lparr>fq_samples := [], fq_last := None\<rparr>
   | Slew when dfreq doffset \<Rightarrow> r = Result True \<and> q' = map_queue (\<lambda>s. let (t, delta_time) = UTI_AdjustTimespec (sm_time s) when dfreq doffset in
       s\<lparr>sm_time := t, sm_offset := sm_offset s - delta_time\<rparr>) q
   | Correct doffset \<Rightarrow> r = Result True \<and> q' = map_queue (\<lambda>s. s\<lparr>sm_offset := sm_offset s - doffset\<rparr>) q
   | Disperse dispersion \<Rightarrow> r = Result True \<and> q' = (if h = [] then q else map_queue (\<lambda>s. s\<lparr>sm_peer_dispersion := sm_peer_dispersion s + dispersion,
       sm_root_dispersion := sm_root_dispersion s + dispersion\<rparr>) q))"

lemma queue_rel_accumulate:
  "queue_rel (Accumulate s) q r q' \<longleftrightarrow> (if fq_samples q \<noteq> [] \<and> UTI_CompareTimespecs (sm_time (last (fq_samples q))) (sm_time s) \<ge> 0 then r = Result False \<and> q' = q
     else r = Result True \<and> q' = q\<lparr>fq_samples := (if length (fq_samples q) = fq_max q then tl (fq_samples q) else fq_samples q) @ [s], fq_last := Some s\<rparr>)"
  by (simp add: queue_rel_def)

lemma queue_rel_correct:
  "queue_rel (Correct doffset) q r q' \<longleftrightarrow> r = Result True \<and> q' = map_queue (\<lambda>s. s\<lparr>sm_offset := sm_offset s - doffset\<rparr>) q"
  by (simp add: queue_rel_def)

lemma time_order_nth: "v < spf_used f \<Longrightarrow> time_order f ! v = nat ((int v + spf_index f + 1) mod int (spf_used f))"
  by (simp add: time_order_def)

lemma time_order_plain: "spf_index f = int (spf_used f) - 1 \<Longrightarrow> time_order f = [0..<spf_used f]"
  by (rule nth_equalityI) (simp_all add: time_order_def)

lemma last_history:
  assumes "0 \<le> spf_index f" "spf_index f < int (spf_used f)"
  shows "history_of f \<noteq> []" "last (history_of f) = spf_samples f ! nat (spf_index f)"
proof -
  have u: "0 < spf_used f" using assms by simp
  show ne: "history_of f \<noteq> []" using u by (simp add: history_of_def time_order_def)
  have "(int (spf_used f - 1) + spf_index f + 1) mod int (spf_used f) = spf_index f" using u assms by (simp add: of_nat_diff)
  then show "last (history_of f) = spf_samples f ! nat (spf_index f)"
    using u last_conv_nth [OF ne] by (simp add: history_of_def length_time_order time_order_nth)
qed

lemma append_free:
  assumes "spf_ok f" "int (spf_used f) < spf_max_samples f"
    "f' = f\<lparr>spf_index := (spf_index f + 1) mod spf_max_samples f, spf_last := l, spf_used := spf_used f + 1,
       spf_samples := (spf_samples f)[nat ((spf_index f + 1) mod spf_max_samples f) := s]\<rparr>"
  shows "spf_index f' = int (spf_used f)" "history_of f' = history_of f @ [s]"
proof -
  have ix: "spf_index f = int (spf_used f) - 1" using assms(1,2) by (auto simp: spf_ok_def split: if_splits)
  have l: "spf_used f < length (spf_samples f)" using assms(1,2) by (auto simp: spf_ok_def)
  show i': "spf_index f' = int (spf_used f)" unfolding assms(3) using ix assms(2) by simp
  have "time_order f' = [0..<spf_used f + 1]" using time_order_plain [of f'] i' by (simp add: assms(3))
  moreover have "spf_samples f' = (spf_samples f)[spf_used f := s]" unfolding assms(3) using ix assms(2) by simp
  ultimately show "history_of f' = history_of f @ [s]" using l by (simp add: history_of_def time_order_plain [OF ix])
qed

lemma append_full:
  assumes "0 \<le> spf_index f" "spf_index f < int (spf_used f)" "spf_used f = length (spf_samples f)"
    "f' = f\<lparr>spf_index := (spf_index f + 1) mod int (spf_used f), spf_last := l,
       spf_samples := (spf_samples f)[nat ((spf_index f + 1) mod int (spf_used f)) := s]\<rparr>"
  shows "history_of f' = tl (history_of f) @ [s]"
proof -
  let ?u = "int (spf_used f)"
  let ?i = "(spf_index f + 1) mod ?u"
  have u: "0 < spf_used f" and i: "0 \<le> ?i" "?i < ?u" using assms(1,2) by simp_all
  have f0: "time_order f ! 0 = nat ?i" using u by (simp add: time_order_nth)
  have t: "(int v + ?i + 1) mod ?u = (int (v + 1) + spf_index f + 1) mod ?u" for v
  proof -
    have "int v + ?i + 1 = int v + 1 + ?i" "int (v + 1) + spf_index f + 1 = int v + 1 + (spf_index f + 1)" by simp_all
    then show ?thesis by (simp only: mod_add_right_eq)
  qed
  have "history_of f' ! v = (tl (history_of f) @ [s]) ! v" if v: "v < spf_used f" for v
  proof (cases "v + 1 < spf_used f")
    case True
    have "time_order f ! (v + 1) \<noteq> time_order f ! 0"
      using time_order_perm(1) [OF assms(1,2)] True u by (simp add: nth_eq_iff_index_eq length_time_order)
    then have "nat ((int v + ?i + 1) mod ?u) \<noteq> nat ?i" using True unfolding f0 t by (simp add: time_order_nth)
    then show ?thesis using True v i by (simp add: history_of_def assms(4) time_order_nth length_time_order nth_append nth_tl t)
  next
    case False
    then have "int v + ?i + 1 = ?u + ?i" using v by simp
    then have "(int v + ?i + 1) mod ?u = (?u + ?i) mod ?u" by (simp only:)
    then have "(int v + ?i + 1) mod ?u = ?i" using i by (simp only: mod_add_self1 mod_mod_trivial)
    then have "history_of f' ! v = s" using v i assms(3) by (simp add: history_of_def assms(4) time_order_nth length_time_order nat_less_iff)
    then show ?thesis using False v by (simp add: history_of_def length_time_order nth_append)
  qed
  then show ?thesis using u by (intro nth_equalityI) (simp_all add: history_of_def length_time_order assms(4))
qed

lemma accumulate_refines:
  assumes "spf_ok f"
  shows "\<exists>r f'. SPF_AccumulateSample s f = Some (r, f') \<and> spf_ok f' \<and> queue_rel (Accumulate s) (queue_of f) (Result r) (queue_of f')"
proof -
  have ok: "1 \<le> spf_max_samples f" "int (length (spf_samples f)) = spf_max_samples f" "int (spf_used f) \<le> spf_max_samples f" using assms by (auto simp: spf_ok_def)
  let ?i = "(spf_index f + 1) mod spf_max_samples f"
  have i: "0 \<le> ?i" "?i < spf_max_samples f" using ok by simp_all
  have lh: "length (history_of f) = spf_used f" by (simp add: history_of_def length_time_order)
  define old where "old \<longleftrightarrow> history_of f \<noteq> [] \<and> UTI_CompareTimespecs (sm_time (last (history_of f))) (sm_time s) \<ge> 0"
  have c: "check_sample f s = Some (\<not> old)"
  proof (cases "spf_used f = 0")
    case False
    then have l: "spf_last f = spf_index f" "0 \<le> spf_index f" "spf_index f < int (spf_used f)" using assms by (simp_all add: spf_ok_def)
    then show ?thesis using ok last_history [OF l(2,3)] False by (simp add: check_sample_def old_def)
  qed (use lh in \<open>simp add: check_sample_def old_def\<close>)
  show ?thesis
  proof (cases old)
    case True
    then show ?thesis using assms c by (intro exI [of _ False] exI [of _ f]) (simp add: SPF_AccumulateSample_def queue_of_def queue_rel_def old_def)
  next
    case False
    define g where "g = f\<lparr>spf_index := ?i, spf_last := ?i, spf_used := (if int (spf_used f) < spf_max_samples f then spf_used f + 1 else spf_used f),
        spf_samples := (spf_samples f)[nat ?i := s]\<rparr>"
    have e: "SPF_AccumulateSample s f = Some (True, g)" using c False i ok(2) by (simp add: SPF_AccumulateSample_def g_def Let_def)
    have "spf_ok g \<and> history_of g = (if length (history_of f) = nat (spf_max_samples f) then tl (history_of f) else history_of f) @ [s]"
    proof (cases "int (spf_used f) < spf_max_samples f")
      case True
      then have g: "g = f\<lparr>spf_index := ?i, spf_last := ?i, spf_used := spf_used f + 1, spf_samples := (spf_samples f)[nat ?i := s]\<rparr>" by (simp add: g_def)
      note a = append_free [OF assms True g]
      have "?i = int (spf_used f)" using a(1) by (simp add: g_def)
      then show ?thesis using assms True a(2) lh by (auto simp: g spf_ok_def)
    next
      case full: False
      then have u: "int (spf_used f) = spf_max_samples f" "0 \<le> spf_index f" "spf_index f < int (spf_used f)" using assms by (auto simp: spf_ok_def split: if_splits)
      have g: "g = f\<lparr>spf_index := (spf_index f + 1) mod int (spf_used f), spf_last := ?i, spf_samples := (spf_samples f)[nat ((spf_index f + 1) mod int (spf_used f)) := s]\<rparr>"
        using full u(1) by (simp add: g_def)
      have "history_of g = tl (history_of f) @ [s]" by (rule append_full [OF u(2,3) _ g]) (use ok(2) u(1) in simp)
      moreover have "-1 \<le> ?i" using i(1) by linarith
      ultimately show ?thesis using assms full u i(2) lh by (auto simp: g_def spf_ok_def)
    qed
    moreover have "spf_max_samples g = spf_max_samples f" "spf_min_samples g = spf_min_samples f" "SPF_GetLastSample g = Some s"
      using i ok(2) by (simp_all add: g_def SPF_GetLastSample_def nat_less_iff)
    ultimately show ?thesis using e False by (intro exI [of _ True] exI [of _ g]) (auto simp: queue_of_def queue_rel_def old_def)
  qed
qed

lemma fold_update_length: "length (fold (\<lambda>i xs. xs[i := g (xs ! i)]) js xs) = length xs"
  by (induction js arbitrary: xs) auto

lemma fold_update:
  "p < length xs \<Longrightarrow> b \<le> length xs \<Longrightarrow> fold (\<lambda>i xs. xs[i := g (xs ! i)]) [a..<b] xs ! p = (if a \<le> p \<and> p < b then g (xs ! p) else xs ! p)"
  by (induction b arbitrary: p) (auto simp: nth_list_update fold_update_length)

lemma map_samples_length: "length (spf_samples (map_samples a b g f)) = length (spf_samples f)"
  by (simp add: map_samples_def fold_update_length del: upt_Suc)

lemma map_samples_ok: "spf_ok f \<Longrightarrow> spf_ok (map_samples a b g f)"
  using map_samples_length [of a b g f] by (simp add: spf_ok_def map_samples_def)

lemma map_samples_history:
  assumes "spf_ok f" "0 < spf_used f"
  shows "history_of (map_samples 0 (spf_used f - 1) g f) = map g (history_of f)"
proof -
  have u: "0 \<le> spf_index f" "spf_index f < int (spf_used f)" "spf_used f \<le> length (spf_samples f)" using assms by (auto simp: spf_ok_def)
  have t: "time_order (map_samples 0 (spf_used f - 1) g f) = time_order f" by (simp add: time_order_def map_samples_def)
  show ?thesis
    unfolding history_of_def t map_map
  proof (rule map_cong [OF refl])
    fix i assume "i \<in> set (time_order f)"
    then have "i < spf_used f" using time_order_perm(2) [OF u(1,2)] by simp
    then show "spf_samples (map_samples 0 (spf_used f - 1) g f) ! i = (g \<circ> (\<lambda>i. spf_samples f ! i)) i"
      using u(3) assms(2) fold_update [of i "spf_samples f" "spf_used f" g 0] by (simp add: map_samples_def)
  qed
qed

lemma empty_history: "spf_used f = 0 \<Longrightarrow> history_of f = []"
  by (simp add: history_of_def time_order_def)

lemma history_length: "length (history_of f) = spf_used f"
  by (simp add: history_of_def length_time_order)

lemma map_samples_last:
  assumes "spf_ok f" "0 \<le> spf_last f" "a \<le> nat (spf_last f)" "nat (spf_last f) \<le> b" "b < length (spf_samples f)"
  shows "SPF_GetLastSample (map_samples a b g f) = map_option g (SPF_GetLastSample f)"
proof -
  have "nat (spf_last f) < length (spf_samples f)" using assms(1,2) by (auto simp: spf_ok_def)
  then show ?thesis using fold_update [of "nat (spf_last f)" "spf_samples f" "b + 1" g a] assms(2-5) by (simp add: SPF_GetLastSample_def map_samples_def)
qed

lemma map_samples_queue:
  assumes "spf_ok f" "0 < spf_used f"
  shows "queue_of (map_samples 0 (spf_used f - 1) g f) = map_queue g (queue_of f)"
proof -
  have u: "spf_last f = spf_index f" "0 \<le> spf_index f" "spf_index f < int (spf_used f)" "spf_used f \<le> length (spf_samples f)" using assms by (auto simp: spf_ok_def)
  have "SPF_GetLastSample (map_samples 0 (spf_used f - 1) g f) = map_option g (SPF_GetLastSample f)"
    by (rule map_samples_last [OF assms(1)]) (use u assms(2) in auto)
  then show ?thesis using map_samples_history [OF assms, of g] by (simp add: queue_of_def map_queue_def) (simp add: map_samples_def)
qed

lemma adjusted_queue:
  assumes "spf_ok f"
  shows "spf_ok (case get_first_last f of None \<Rightarrow> f | Some (first, final) \<Rightarrow> map_samples first final g f)"
    "queue_of (case get_first_last f of None \<Rightarrow> f | Some (first, final) \<Rightarrow> map_samples first final g f) = map_queue g (queue_of f)"
proof -
  let ?f = "case get_first_last f of None \<Rightarrow> f | Some (first, final) \<Rightarrow> map_samples first final g f"
  show "spf_ok ?f" using assms map_samples_ok by (auto split: option.splits)
  show "queue_of ?f = map_queue g (queue_of f)"
  proof (cases "spf_used f = 0")
    case True
    have h: "history_of (map_samples a b g f) = []" "history_of f = []" for a b using True by (simp_all add: empty_history map_samples_def)
    show ?thesis
    proof (cases "spf_last f < 0")
      case True
      then show ?thesis using h by (simp add: get_first_last_def queue_of_def map_queue_def SPF_GetLastSample_def)
    next
      case False
      have "nat (spf_last f) < length (spf_samples f)" using assms False by (auto simp: spf_ok_def)
      then have "SPF_GetLastSample (map_samples (nat (spf_last f)) (nat (spf_last f)) g f) = map_option g (SPF_GetLastSample f)"
        using False by (intro map_samples_last [OF assms]) auto
      then show ?thesis using False True h by (simp add: get_first_last_def queue_of_def map_queue_def) (simp add: map_samples_def)
    qed
  next
    case False
    then have "get_first_last f = Some (0, spf_used f - 1)" using assms by (auto simp: get_first_last_def spf_ok_def)
    then show ?thesis using map_samples_queue [OF assms, of g] False by simp
  qed
qed

lemma queue_of_updates:
  "queue_of (f\<lparr>selected := xs\<rparr>) = queue_of f" "queue_of (drop_samples True (f\<lparr>selected := xs, avg_var := v, avg_var_n := n\<rparr>)) = (queue_of f)\<lparr>fq_samples := []\<rparr>"
  by (simp_all add: queue_of_def history_of_def time_order_def SPF_GetLastSample_def drop_samples_def)

lemma few_selected: "int (spf_used f) < spf_min_samples f \<Longrightarrow> SPF_GetFilteredSample qs f = Some (None, f)"
  by (simp add: SPF_GetFilteredSample_def select_samples_def)

lemma filter_simulates:
  assumes "comparison_sort qs" "spf_ok f"
  shows "\<exists>r f'. SPF_GetFilteredSample qs f = Some (r, f') \<and> spf_ok f' \<and> queue_rel Filter (queue_of f) (Filtered r) (queue_of f')"
proof (cases "int (spf_used f) < spf_min_samples f")
  case True
  then show ?thesis using few_selected assms(2) by (auto simp: queue_rel_def Let_def)
next
  case False
  then have n: "spf_min_samples f \<le> int (spf_used f)" by simp
  from filtered_result [OF assms n] obtain order r f' where
    r: "SPF_GetFilteredSample qs f = Some (r, f')" "spf_ok f'" "mset order = mset (candidates_of f)" "filter_outcome f order r f'" by blast
  let ?k = "select_from_end f (length order)"
  have k: "2 * ?k < length order" using r(4) by (simp add: filter_outcome_def Let_def)
  have none: "f' = f\<lparr>selected := selected f'\<rparr>" if "r = None" using r(4) that by (simp add: filter_outcome_def Let_def)
  have some: "f' = drop_samples True (f\<lparr>selected := selected f', avg_var := avg_var f', avg_var_n := avg_var_n f'\<rparr>)"
    "sm_offset (spf_samples f ! (order ! ?k)) \<le> sm_offset s" "sm_offset s \<le> sm_offset (spf_samples f ! (order ! (length order - 1 - ?k)))" if "r = Some s" for s
    using r(4) that unfolding filter_outcome_def Let_def by auto
  have h: "spf_samples f ! (order ! j) \<in> set (history_of f)" if "j < length order" for j
  proof -
    have "order ! j \<in> set order" using that by simp
    then have "order ! j \<in> set (time_order f)"
      using mset_eq_setD [OF r(3)] candidates_facts(2) [of f] time_order_perm(2) [of f] assms(2) n by (auto simp: spf_ok_def split: if_splits)
    then show ?thesis by (simp add: history_of_def)
  qed
  show ?thesis
  proof (cases r)
    case None
    from queue_of_updates(1) [where f = f and xs = "selected f'"] none [OF None] have "queue_of f' = queue_of f" by simp
    then show ?thesis using r(1,2) None by (auto simp: queue_rel_def Let_def)
  next
    case (Some s)
    have j: "select_from_end f (length order) < length order" "length order - 1 - select_from_end f (length order) < length order" using k by auto
    have "queue_of f' = (queue_of f)\<lparr>fq_samples := []\<rparr>" using some(1) [OF Some] queue_of_updates(2) by metis
    moreover have "\<exists>a\<in>set (history_of f). sm_offset a \<le> sm_offset s" "\<exists>b\<in>set (history_of f). sm_offset s \<le> sm_offset b"
      using some(2,3) [OF Some] h [OF j(1)] h [OF j(2)] by auto
    moreover have "fq_min (queue_of f) \<le> length (history_of f)" using n by (simp add: queue_of_def history_length)
    ultimately show ?thesis using r(1,2) Some by (auto simp: queue_rel_def Let_def queue_of_def)
  qed
qed

sublocale comparison_sort \<subseteq> spf: op_simulation "spf_step qs" spf_ok queue_of queue_rel
proof
  fix f x assume ok: "spf_ok f"
  show "\<exists>r f'. spf_step qs x f = Some (r, f') \<and> spf_ok f' \<and> queue_rel x (queue_of f) r (queue_of f')"
  proof (cases x)
    case (Accumulate s)
    then show ?thesis using accumulate_refines [OF ok, of s] by (auto simp: spf_step_def)
  next
    case Filter
    then show ?thesis using filter_simulates [OF comparison_sort_axioms ok] by (auto simp: spf_step_def)
  next
    case Drop
    then show ?thesis using ok
      by (auto simp: spf_step_def SPF_DropSamples_def drop_samples_def queue_of_def queue_rel_def spf_ok_def empty_history SPF_GetLastSample_def Let_def)
  next
    case (Slew ts dfreq doffset)
    then show ?thesis using adjusted_queue [OF ok] by (simp add: spf_step_def SPF_SlewSamples_def queue_rel_def Let_def)
  next
    case (Correct doffset)
    then show ?thesis using adjusted_queue [OF ok] by (simp add: spf_step_def SPF_CorrectOffset_def queue_rel_def Let_def)
  next
    case (Disperse dispersion)
    have "(fq_samples (queue_of f) = []) = (spf_used f = 0)" using history_length [of f] by (simp add: queue_of_def) (metis length_0_conv)
    then show ?thesis using ok Disperse map_samples_queue [OF ok] map_samples_ok [OF ok]
      by (cases "spf_used f = 0") (simp_all add: spf_step_def SPF_AddDispersion_def queue_rel_def Let_def)
  qed
qed

context comparison_sort
begin

lemma filter_run:
  "spf_ok f \<Longrightarrow> \<exists>rs f'. run_results (spf_step qs) ops f = Some (rs, f') \<and> spf_ok f' \<and> abstract_history queue_rel ops (queue_of f) rs (queue_of f')"
  by (rule spf.run_simulates)

end

text \<open>
  C39.  After any history of operations on a new filter, whatever its parameters are, no access is out of the arrays, no assertion
  fails, and the circular buffer is the queue of the accumulated samples in their order, of which the oldest is dropped when the
  queue is full; a sample that is not newer than the last one in the queue is refused, and the adjustments of the clock reach
  every sample.  A filtered sample is made only from the minimum number of samples, with an offset between theirs; the queue is
  then empty, and the last sample is still known and adjusted; otherwise the filter leaves the queue as it is.
\<close>

theorem filter_history:
  assumes "comparison_sort qs"
  shows "\<exists>rs f. run_results (spf_step qs) ops (SPF_CreateInstance fresh fresh_index precision min_s max_s max_dispersion ratio) = Some (rs, f) \<and> spf_ok f \<and>
     abstract_history queue_rel ops
       \<lparr>fq_min = nat (CLAMP 1 min_s 256), fq_max = nat (max (CLAMP 1 min_s 256) (CLAMP 1 max_s 256)), fq_samples = [], fq_last = None\<rparr> rs (queue_of f)"
proof -
  let ?f = "SPF_CreateInstance fresh fresh_index precision min_s max_s max_dispersion ratio"
  have "spf_ok ?f" using CLAMP_bounds [of 1 256 min_s] CLAMP_bounds [of 1 256 max_s] CLAMP_bounds [of 0 1 ratio]
    by (auto simp: spf_ok_def SPF_CreateInstance_def Let_def)
  moreover have "queue_of ?f = \<lparr>fq_min = nat (CLAMP 1 min_s 256), fq_max = nat (max (CLAMP 1 min_s 256) (CLAMP 1 max_s 256)), fq_samples = [], fq_last = None\<rparr>"
    by (simp add: queue_of_def SPF_CreateInstance_def Let_def history_of_def time_order_def SPF_GetLastSample_def)
  ultimately show ?thesis using comparison_sort.filter_run [OF assms, of ?f ops] by simp
qed

section \<open>An instance that shows the hypotheses can hold\<close>

definition example_sample :: "int \<Rightarrow> real \<Rightarrow> NTP_Sample" where
  "example_sample t x = \<lparr>sm_time = Timespec t 0, sm_offset = x, sm_peer_delay = 1, sm_peer_dispersion = 1, sm_root_delay = 1, sm_root_dispersion = 1\<rparr>"

definition example_filter :: SPF_Instance where
  "example_filter = \<lparr>spf_min_samples = 3, spf_max_samples = 3, spf_index = 0, spf_used = 3, spf_last = 0, avg_var_n = 0, avg_var = 1,
     max_var = 0, combine_ratio = 0, spf_samples = [example_sample 3 7, example_sample 1 2, example_sample 2 5], selected = [0, 0, 0]\<rparr>"

text \<open>Of three samples with the offsets 2, 5 and 7 the filtered sample has the one in the middle.\<close>

theorem filtered_sample_witness:
  "\<exists>s f'. SPF_GetFilteredSample insertion_sort_by example_filter = Some (Some s, f') \<and> sm_offset s = 5"
proof -
  have ok: "spf_ok example_filter" "spf_min_samples example_filter \<le> int (spf_used example_filter)" by (simp_all add: spf_ok_def example_filter_def)
  have c: "candidates_of example_filter = [0, 1, 2]" by (simp add: candidates_of_def example_filter_def upt_conv_Cons)
  have k: "select_from_end example_filter 3 = 1" by (simp add: select_from_end_def example_filter_def CLAMP_def c_trunc_def)
  have h: "history_of example_filter = [example_sample 1 2, example_sample 2 5, example_sample 3 7]"
    by (simp add: history_of_def time_order_def example_filter_def upt_conv_Cons)
  have "\<forall>s\<in>set (history_of example_filter). 0 < sm_peer_dispersion s" "distinct (map (\<lambda>s. ts_ns (sm_time s)) (history_of example_filter))"
    by (simp_all add: h example_sample_def ts_ns_def)
  from filtered_sample [OF isort_by.comparison_sort_axioms ok this] show ?thesis
  proof (elim exE conjE, goal_cases)
    case (1 order r f')
    have l: "length order = 3" using arg_cong [OF 1(3), of size] by (simp add: c)
    have "sort_key (\<lambda>i. sm_offset (spf_samples example_filter ! i)) [0, 1, 2] = order"
      by (rule sort_key_inj_key_eq [OF _ _ 1(4)]) (use 1(3) in \<open>simp add: c\<close>, simp add: inj_on_def example_filter_def example_sample_def)
    then have o: "order = [1, 2, 0]" by (simp add: example_filter_def example_sample_def)
    show ?case
    proof (cases r)
      case None
      then have "0 < max_var example_filter" using 1(5) unfolding Let_def by blast
      then show ?thesis by (simp add: example_filter_def)
    next
      case (Some s)
      have "sm_offset (spf_samples example_filter ! (order ! 1)) \<le> sm_offset s \<and> sm_offset s \<le> sm_offset (spf_samples example_filter ! (order ! (3 - 1 - 1)))"
        using 1(5) unfolding Let_def l k Some option.case by blast
      then show ?thesis using 1(1) Some by (simp add: o example_filter_def example_sample_def)
    qed
  qed
qed

text \<open>Three samples are accumulated and filtered, and the last one is then adjusted.\<close>

theorem filter_history_witness:
  "comparison_sort insertion_sort_by \<and> (\<exists>rs f.
     run_results (spf_step insertion_sort_by) [Accumulate (example_sample 1 2), Accumulate (example_sample 2 5), Accumulate (example_sample 3 7), Filter, Correct 1]
       (SPF_CreateInstance (\<lambda>_. example_sample 0 0) (\<lambda>_. 0) (1 / 10 ^ 6) 3 3 0 0) = Some (rs, f) \<and> spf_ok f \<and> length rs = 5 \<and>
     (\<exists>x. rs ! 3 = Filtered x \<and> (\<forall>s. x = Some s \<longrightarrow> history_of f = [] \<and> 2 \<le> sm_offset s \<and> sm_offset s \<le> 7)) \<and>
     SPF_GetLastSample f = Some (example_sample 3 6))"
proof -
  note q = isort_by.comparison_sort_axioms
  let ?ops = "[Accumulate (example_sample 1 2), Accumulate (example_sample 2 5), Accumulate (example_sample 3 7), Filter, Correct 1]"
  have q0: "nat (CLAMP 1 3 256) = 3" "nat (max (CLAMP 1 3 256) (CLAMP 1 3 256)) = 3" by (simp_all add: CLAMP_def)
  from filter_history [OF q, of ?ops "\<lambda>_. example_sample 0 0" "\<lambda>_. 0" "1 / 10 ^ 6" 3 3 0 0] obtain rs f where
    r: "run_results (spf_step insertion_sort_by) ?ops (SPF_CreateInstance (\<lambda>_. example_sample 0 0) (\<lambda>_. 0) (1 / 10 ^ 6) 3 3 0 0) = Some (rs, f)" "spf_ok f"
      "abstract_history queue_rel ?ops \<lparr>fq_min = 3, fq_max = 3, fq_samples = [], fq_last = None\<rparr> rs (queue_of f)"
    unfolding q0 by blast
  let ?h = "[example_sample 1 2, example_sample 2 5, example_sample 3 7]"
  let ?q = "\<lparr>fq_min = 3, fq_max = 3, fq_samples = ?h, fq_last = Some (example_sample 3 7)\<rparr>"
  from r(3) obtain x q5 where
    x: "rs = [Result True, Result True, Result True, x, Result True]" "queue_rel Filter ?q x q5" "queue_of f = map_queue (\<lambda>s. s\<lparr>sm_offset := sm_offset s - 1\<rparr>) q5"
    by (auto simp: queue_rel_accumulate queue_rel_correct UTI_CompareTimespecs_def example_sample_def)
  have "fq_last q5 = Some (example_sample 3 7)" using x(2) by (auto simp: queue_rel_def)
  then have "SPF_GetLastSample f = Some (example_sample 3 6)" using arg_cong [OF x(3), of fq_last] by (simp add: queue_of_def map_queue_def example_sample_def)
  moreover have "\<exists>y. x = Filtered y \<and> (\<forall>s. y = Some s \<longrightarrow> history_of f = [] \<and> 2 \<le> sm_offset s \<and> sm_offset s \<le> 7)"
    using x(2) arg_cong [OF x(3), of fq_samples] by (auto simp: queue_rel_def queue_of_def map_queue_def example_sample_def)
  ultimately show ?thesis using q r(1,2) x(1) by auto
qed

end
