(* ===== verification/Quantiles.thy ===== *)
theory Quantiles
  imports Regress
begin

text \<open>
  The estimation of quantiles of a stream of values: \<open>quantiles.c\<close>.  The array has \<open>n_quants\<close> elements, the length of the list,
  in blocks of \<open>repeat\<close> estimates of the same quantile.  The results of \<open>random\<close> divided by its maximum are an argument,
  a function of the index; \<open>kf\<close> is the order in which the median finds its two entries.  \<open>None\<close> is a failed assertion.
\<close>

section \<open>The estimates\<close>

abbreviation (input) MAX_REPEAT :: nat where "MAX_REPEAT \<equiv> 64"

record Quantile =
  q_est :: real
  q_step :: real
  q_sign :: int

record QNT_Instance =
  quants :: "Quantile list"
  q_repeat :: nat
  q_den :: nat
  q_min_k :: nat
  q_min_step :: real
  neg_step_limit :: real
  n_set :: nat

definition QNT_Reset :: "QNT_Instance \<Rightarrow> QNT_Instance" where
  "QNT_Reset inst = inst\<lparr>n_set := 0, quants := map (\<lambda>_. \<lparr>q_est = 0, q_step = q_min_step inst, q_sign = 1\<rparr>) (quants inst)\<rparr>"

text \<open>\<open>fresh\<close> is the content of new memory.\<close>

definition QNT_CreateInstance :: "(nat \<Rightarrow> Quantile) \<Rightarrow> int \<Rightarrow> int \<Rightarrow> int \<Rightarrow> int \<Rightarrow> int \<Rightarrow> real \<Rightarrow> QNT_Instance option" where
  "QNT_CreateInstance fresh min_k max_k q repeat large_step_delay min_step =
     (if \<not> (q \<ge> 2 \<and> min_k \<le> max_k \<and> min_k \<ge> 1 \<and> max_k < q \<and> repeat \<ge> 1 \<and> repeat \<le> int MAX_REPEAT \<and> min_step > 0 \<and> large_step_delay \<ge> 0) then None
      else Some (QNT_Reset \<lparr>quants = map fresh [0..<nat ((max_k - min_k + 1) * repeat)], q_repeat = nat repeat, q_den = nat q, q_min_k = nat min_k,
        q_min_step = min_step, neg_step_limit = - of_int large_step_delay * min_step, n_set = 0\<rparr>))"

definition set_est :: "nat \<Rightarrow> real \<Rightarrow> Quantile list \<Rightarrow> Quantile list" where
  "set_est i v qs = qs[i := (qs ! i)\<lparr>q_est := v\<rparr>]"

definition set_block :: "nat \<Rightarrow> nat \<Rightarrow> real \<Rightarrow> Quantile list \<Rightarrow> Quantile list" where
  "set_block r i v qs = fold (\<lambda>j qs. set_est (i * r + j) v qs) [0..<r] qs"

text \<open>The loop that makes room for a value in the ordered blocks.\<close>

fun shift_blocks :: "nat \<Rightarrow> real \<Rightarrow> nat \<Rightarrow> Quantile list \<Rightarrow> nat \<times> Quantile list" where
  "shift_blocks r v 0 qs = (0, qs)"
| "shift_blocks r v (Suc i) qs =
     (if q_est (qs ! (i * r)) > v then shift_blocks r v i (set_block r (Suc i) (q_est (qs ! (i * r))) qs) else (Suc i, qs))"

definition insert_initial_value :: "QNT_Instance \<Rightarrow> real \<Rightarrow> QNT_Instance option" where
  "insert_initial_value inst v =
     (let r = q_repeat inst in
      if \<not> n_set inst * r < length (quants inst) then None
      else
        let (i, qs) = shift_blocks r v (n_set inst) (quants inst);
            qs = set_block r i v qs;
            n = n_set inst + 1 in
        Some (inst\<lparr>n_set := n, quants := fold (\<lambda>i qs. set_est i (q_est (qs ! (i - 1))) qs) [n * r..<length qs] qs\<rparr>))"

definition update_estimate :: "real \<Rightarrow> real \<Rightarrow> real \<Rightarrow> real \<Rightarrow> real \<Rightarrow> Quantile \<Rightarrow> Quantile" where
  "update_estimate v p rand min_step step_limit qt =
     (if v \<ge> q_est qt then
        if rand < 1 - p then qt
        else
          let step = q_step qt + (if q_sign qt > 0 then min_step else - min_step);
              est = q_est qt + (if step > min_step then step else min_step);
              (step, est) = (if est > v then (step + (v - est), v + min_step / 4) else (step, est));
              step = (if q_sign qt < 0 \<and> step > min_step then min_step else step) in
          \<lparr>q_est = est, q_step = (if step < step_limit then step_limit else step), q_sign = 1\<rparr>
      else
        if rand < p then qt
        else
          let step = q_step qt + (if q_sign qt < 0 then min_step else - min_step);
              est = q_est qt - (if step > min_step then step else min_step);
              (step, est) = (if est < v then (step + (est - v), v - min_step / 4) else (step, est));
              step = (if q_sign qt > 0 \<and> step > min_step then min_step else step) in
          \<lparr>q_est = est, q_step = (if step < step_limit then step_limit else step), q_sign = -1\<rparr>)"

definition QNT_Accumulate :: "(nat \<Rightarrow> real) \<Rightarrow> real \<Rightarrow> QNT_Instance \<Rightarrow> QNT_Instance option" where
  "QNT_Accumulate rand v inst =
     (if n_set inst * q_repeat inst < length (quants inst) then insert_initial_value inst v
      else Some (inst\<lparr>quants := map (\<lambda>i. update_estimate v (of_nat (i div q_repeat inst + q_min_k inst) / of_nat (q_den inst)) (rand i)
          (q_min_step inst) (neg_step_limit inst) (quants inst ! i)) [0..<length (quants inst)]\<rparr>))"

definition QNT_GetMinK :: "QNT_Instance \<Rightarrow> nat" where
  "QNT_GetMinK inst = q_min_k inst"

definition QNT_GetMaxK :: "QNT_Instance \<Rightarrow> nat" where
  "QNT_GetMaxK inst = q_min_k inst + length (quants inst) div q_repeat inst - 1"

definition QNT_GetQuantile :: "bool \<Rightarrow> QNT_Instance \<Rightarrow> int \<Rightarrow> real option" where
  "QNT_GetQuantile kf inst k =
     (if \<not> (k \<ge> int (q_min_k inst) \<and> (k - int (q_min_k inst)) * int (q_repeat inst) < int (length (quants inst))) then None
      else RGR_FindMedian kf (map (\<lambda>i. q_est (quants inst ! (nat (k - int (q_min_k inst)) * q_repeat inst + i))) [0..<q_repeat inst]) (q_repeat inst))"

section \<open>The initial values\<close>

lemma length_set_est [simp]: "length (set_est i v qs) = length qs"
  by (simp add: set_est_def)

lemma est_set_est: "p < length qs \<Longrightarrow> q_est (set_est i v qs ! p) = (if p = i then v else q_est (qs ! p))"
  by (auto simp: set_est_def nth_list_update)

lemma set_ests:
  "length (fold (\<lambda>j qs. set_est (c + j) v qs) [0..<r] qs) = length qs"
  "p < length qs \<Longrightarrow> q_est (fold (\<lambda>j qs. set_est (c + j) v qs) [0..<r] qs ! p) = (if c \<le> p \<and> p < c + r then v else q_est (qs ! p))"
proof (induction r arbitrary: p)
  case (Suc r)
  {
    case 1
    then show ?case using Suc.IH(1) by simp
  next
    case 2
    then show ?case using Suc.IH by (auto simp: est_set_est)
  }
qed simp_all

lemma length_set_block [simp]: "length (set_block r i v qs) = length qs"
  by (simp add: set_block_def set_ests)

lemma est_set_block:
  assumes "0 < r" "p < length qs"
  shows "q_est (set_block r i v qs ! p) = (if p div r = i then v else q_est (qs ! p))"
proof -
  have "i * r \<le> p \<and> p < i * r + r \<longleftrightarrow> p div r = i"
    using assms(1) by (metis add.commute div_nat_eqI less_mult_imp_div_less mod_less_divisor mult.commute mult_Suc_right mult_div_mod_eq nat_add_left_cancel_less le_add1 mult_Suc)
  then show ?thesis using assms(2) by (simp add: set_block_def set_ests)
qed

lemma fill_rest:
  assumes "0 < c" "c \<le> d" "d \<le> length qs" "p < length qs"
  shows "length (fold (\<lambda>i qs. set_est i (q_est (qs ! (i - 1))) qs) [c..<d] qs) = length qs \<and>
    q_est (fold (\<lambda>i qs. set_est i (q_est (qs ! (i - 1))) qs) [c..<d] qs ! p) = (if c \<le> p \<and> p < d then q_est (qs ! (c - 1)) else q_est (qs ! p))"
  using assms(2-4)
proof (induction d arbitrary: p rule: dec_induct)
  case (step n)
  let ?qs = "fold (\<lambda>i qs. set_est i (q_est (qs ! (i - 1))) qs) [c..<n] qs"
  have l: "length ?qs = length qs" using step.IH [of p] step.prems by simp
  have "q_est (?qs ! (n - 1)) = q_est (qs ! (c - 1))"
    using step.IH [of "n - 1"] step.prems step.hyps assms(1) by (cases "n = c") auto
  then show ?case using step.IH [of p] step.prems step.hyps l by (auto simp: est_set_est)
qed simp

text \<open>The blocks before \<open>i\<close> hold the ordered values; the ones that are larger than the new value are moved by one block.\<close>

lemma shifted:
  assumes "0 < r" "Suc i * r \<le> length qs" "\<forall>p<i * r. q_est (qs ! p) = ys ! (p div r)"
  obtains j qs' where "shift_blocks r v i qs = (j, qs')" "j \<le> i" "length qs' = length qs" "j = 0 \<or> ys ! (j - 1) \<le> v" "\<forall>b. j \<le> b \<and> b < i \<longrightarrow> v < ys ! b"
    "\<forall>p<length qs. q_est (qs' ! p) = (if j < p div r \<and> p div r \<le> i then ys ! (p div r - 1) else q_est (qs ! p))"
  using assms(2,3)
proof (induction i arbitrary: qs thesis)
  case 0
  then show thesis by simp
next
  case (Suc i)
  have first: "q_est (qs ! (i * r)) = ys ! i" using Suc.prems(3) assms(1) by simp
  show thesis
  proof (cases "q_est (qs ! (i * r)) > v")
    case True
    let ?qs = "set_block r (Suc i) (ys ! i) qs"
    have e: "q_est (?qs ! p) = (if p div r = Suc i then ys ! i else q_est (qs ! p))" if "p < length qs" for p using est_set_block [OF assms(1) that] .
    have len: "Suc i * r \<le> length ?qs" using Suc.prems(2) by simp
    have before: "\<forall>p<i * r. q_est (?qs ! p) = ys ! (p div r)"
    proof (intro allI impI)
      fix p assume p: "p < i * r"
      then have "p < length qs" "p div r < i" using Suc.prems(2) assms(1) by (auto simp: less_mult_imp_div_less)
      then show "q_est (?qs ! p) = ys ! (p div r)" using e Suc.prems(3) p by simp
    qed
    from Suc.IH [OF _ len before] obtain j qs' where
      s: "shift_blocks r v i ?qs = (j, qs')" "j \<le> i" "length qs' = length qs" "j = 0 \<or> ys ! (j - 1) \<le> v" "\<forall>b. j \<le> b \<and> b < i \<longrightarrow> v < ys ! b"
        "\<forall>p<length qs. q_est (qs' ! p) = (if j < p div r \<and> p div r \<le> i then ys ! (p div r - 1) else q_est (?qs ! p))" by auto
    show thesis
    proof (rule Suc.prems(1) [of j qs'])
      show "\<forall>b. j \<le> b \<and> b < Suc i \<longrightarrow> v < ys ! b" using s(5) True first by (auto simp: less_Suc_eq)
      show "\<forall>p<length qs. q_est (qs' ! p) = (if j < p div r \<and> p div r \<le> Suc i then ys ! (p div r - 1) else q_est (qs ! p))"
        using s(2,6) e by (auto simp: le_Suc_eq)
    qed (use s True first in auto)
  next
    case False
    then show thesis using Suc.prems(1) [of "Suc i" qs] first by auto
  qed
qed

definition initial_ests :: "real list \<Rightarrow> QNT_Instance \<Rightarrow> bool" where
  "initial_ests vs inst \<longleftrightarrow> n_set inst = length vs \<and>
     (vs \<noteq> [] \<longrightarrow> (\<forall>p<length (quants inst). q_est (quants inst ! p) = sort vs ! min (p div q_repeat inst) (length vs - 1)))"

lemma insert_sorted:
  assumes "sorted ys" "j \<le> length ys" "j = 0 \<or> ys ! (j - 1) \<le> (v :: real)" "\<forall>b. j \<le> b \<and> b < length ys \<longrightarrow> v < ys ! b"
  shows "sort (ys @ [v]) = take j ys @ v # drop j ys"
proof (rule properties_for_sort)
  have "mset (take j ys) + mset (drop j ys) = mset ys" by (metis append_take_drop_id mset_append)
  then show "mset (take j ys @ v # drop j ys) = mset (ys @ [v])" by simp
  have "y \<le> v" if y: "y \<in> set (take j ys)" for y
  proof -
    obtain i where i: "i < j" "y = ys ! i" using y assms(2) by (auto simp: in_set_conv_nth)
    then have "ys ! i \<le> ys ! (j - 1)" using assms(1,2) by (intro sorted_nth_mono) auto
    then show ?thesis using assms(3) i by auto
  qed
  moreover have "v \<le> y" if y: "y \<in> set (drop j ys)" for y
  proof -
    obtain i where "i < length ys - j" "y = ys ! (j + i)" using y by (auto simp: in_set_conv_nth)
    then show ?thesis using assms(4) by (auto intro: less_imp_le)
  qed
  moreover have "x \<le> y" if "x \<in> set (take j ys)" "y \<in> set (drop j ys)" for x y
    using that calculation by (meson order_trans)
  ultimately show "sorted (take j ys @ v # drop j ys)" using assms(1) by (auto simp: sorted_append sorted_wrt_take sorted_wrt_drop)
qed

lemma inserted:
  assumes "0 < q_repeat inst" "initial_ests vs inst" "(length vs + 1) * q_repeat inst \<le> length (quants inst)"
  obtains inst' where "insert_initial_value inst v = Some inst'" "initial_ests (vs @ [v]) inst'" "length (quants inst') = length (quants inst)"
    "inst' = inst\<lparr>n_set := n_set inst', quants := quants inst'\<rparr>"
proof -
  let ?r = "q_repeat inst" and ?m = "length vs" and ?ys = "sort vs" and ?L = "length (quants inst)"
  have ns: "n_set inst = ?m" using assms(2) by (simp add: initial_ests_def)
  have bl: "p div ?r < ?m" if "p < ?m * ?r" for p using that by (simp add: less_mult_imp_div_less)
  have L: "Suc ?m * ?r \<le> ?L" using assms(3) by simp
  have e0: "\<forall>p<?m * ?r. q_est (quants inst ! p) = ?ys ! (p div ?r)"
  proof (intro allI impI)
    fix p assume p: "p < ?m * ?r"
    then have "vs \<noteq> []" "p < ?L" "min (p div ?r) (?m - 1) = p div ?r" using L bl [OF p] by auto
    then show "q_est (quants inst ! p) = ?ys ! (p div ?r)" using assms(2) by (simp add: initial_ests_def)
  qed
  from shifted [OF assms(1) L e0, of v] obtain j qs where
    s: "shift_blocks ?r v ?m (quants inst) = (j, qs)" "j \<le> ?m" "length qs = ?L" "j = 0 \<or> ?ys ! (j - 1) \<le> v" "\<forall>b. j \<le> b \<and> b < ?m \<longrightarrow> v < ?ys ! b"
      "\<forall>p<?L. q_est (qs ! p) = (if j < p div ?r \<and> p div ?r \<le> ?m then ?ys ! (p div ?r - 1) else q_est (quants inst ! p))" .
  let ?zs = "take j ?ys @ v # drop j ?ys"
  have "sort (vs @ [v]) = sort (?ys @ [v])" by (metis mset_append mset_sort properties_for_sort sorted_sort)
  then have zs: "sort (vs @ [v]) = ?zs" using insert_sorted [of ?ys j v] s(2,4,5) by simp
  let ?qs = "set_block ?r j v qs" and ?n = "Suc ?m * ?r"
  have block: "q_est (?qs ! p) = ?zs ! (p div ?r)" if p: "p < ?n" for p
  proof -
    have b: "p div ?r \<le> ?m" "p < ?L" using p L less_mult_imp_div_less [of p "Suc ?m" ?r] by auto
    have "q_est (quants inst ! p) = ?ys ! (p div ?r)" if "p div ?r < j"
    proof -
      have "p < ?m * ?r" using that s(2) assms(1) by (metis div_less_iff_less_mult less_le_trans)
      then show ?thesis using e0 by blast
    qed
    then show ?thesis using est_set_block [OF assms(1), of p qs j v] s(2,3,6) b by (auto simp: nth_append nth_Cons' min_def)
  qed
  define fin where "fin = fold (\<lambda>i qs. set_est i (q_est (qs ! (i - 1))) qs) [?n..<length ?qs] ?qs"
  have fill: "length fin = ?L \<and> q_est (fin ! p) = (if ?n \<le> p \<and> p < ?L then q_est (?qs ! (?n - 1)) else q_est (?qs ! p))" if "p < ?L" for p
    using fill_rest [of ?n "length ?qs" ?qs p] that assms(1) L s(3) by (simp add: fin_def)
  have lf: "length fin = ?L" using fill [of 0] L assms(1) by (cases "?L = 0") auto
  have lastb: "(?n - 1) div ?r = ?m" by (rule div_nat_eqI) (use assms(1) in \<open>auto simp: algebra_simps\<close>)
  have est: "q_est (fin ! p) = ?zs ! min (p div ?r) ?m" if p: "p < ?L" for p
  proof (cases "p < ?n")
    case True
    then show ?thesis using fill [OF p] block [OF True] less_mult_imp_div_less [OF True] by (simp add: min_def)
  next
    case False
    then have "?m \<le> p div ?r" using assms(1) by (metis Suc_leD div_le_mono div_mult_self_is_m linorder_not_less)
    then show ?thesis using fill [OF p] block [of "?n - 1"] lastb False p assms(1) by (simp add: min_def)
  qed
  let ?i = "inst\<lparr>n_set := ?m + 1, quants := fin\<rparr>"
  have "insert_initial_value inst v = Some ?i"
    using L assms(1) by (simp add: insert_initial_value_def ns s(1) Let_def fin_def)
  moreover have "initial_ests (vs @ [v]) ?i" using est lf by (simp add: initial_ests_def zs)
  ultimately show thesis using that lf by simp
qed

section \<open>Bounds of the estimates\<close>

lemma update_bounds:
  assumes "0 < min_step" "a \<le> v" "v \<le> b" "a - min_step / 4 \<le> q_est qt" "q_est qt \<le> b + min_step / 4"
  shows "a - min_step / 4 \<le> q_est (update_estimate v p rand min_step floor_step qt) \<and> q_est (update_estimate v p rand min_step floor_step qt) \<le> b + min_step / 4"
proof (cases "v \<ge> q_est qt")
  case True
  then show ?thesis using assms by (auto simp: update_estimate_def Let_def split: prod.splits if_splits)
next
  case False
  then show ?thesis using assms by (auto simp: update_estimate_def Let_def split: prod.splits if_splits)
qed

fun qnt_run :: "((nat \<Rightarrow> real) \<times> real) list \<Rightarrow> QNT_Instance \<Rightarrow> QNT_Instance option" where
  "qnt_run [] inst = Some inst"
| "qnt_run ((rand, v) # xs) inst = Option.bind (QNT_Accumulate rand v inst) (qnt_run xs)"

text \<open>The invariant after the values \<open>vs\<close> with \<open>n\<close> quantiles.\<close>

definition qnt_ok :: "nat \<Rightarrow> real \<Rightarrow> real \<Rightarrow> real list \<Rightarrow> QNT_Instance \<Rightarrow> bool" where
  "qnt_ok n a b vs inst \<longleftrightarrow> 0 < q_repeat inst \<and> 0 < q_min_step inst \<and> length (quants inst) = n * q_repeat inst \<and>
     (if length vs \<le> n then initial_ests vs inst else n_set inst = n) \<and>
     (vs \<noteq> [] \<longrightarrow> (\<forall>qt\<in>set (quants inst). a - q_min_step inst / 4 \<le> q_est qt \<and> q_est qt \<le> b + q_min_step inst / 4))"

lemma initial_bounds:
  assumes "initial_ests vs inst" "vs \<noteq> []" "\<forall>v\<in>set vs. a \<le> v \<and> v \<le> b" "qt \<in> set (quants inst)"
  shows "a \<le> q_est qt \<and> q_est qt \<le> b"
proof -
  from assms(4) obtain p where p: "p < length (quants inst)" "qt = quants inst ! p" by (auto simp: in_set_conv_nth)
  have "sort vs ! min (p div q_repeat inst) (length vs - 1) \<in> set (sort vs)" using assms(2) by (intro nth_mem) (cases vs; simp add: min_def)
  then show ?thesis using assms(1-3) p by (simp add: initial_ests_def)
qed

lemma accumulated:
  assumes "qnt_ok n a b vs inst" "a \<le> v" "v \<le> b" "\<forall>v\<in>set vs. a \<le> v \<and> v \<le> b"
  obtains inst' where "QNT_Accumulate rand v inst = Some inst'" "qnt_ok n a b (vs @ [v]) inst'" "q_min_step inst' = q_min_step inst"
    "q_repeat inst' = q_repeat inst" "q_min_k inst' = q_min_k inst"
proof (cases "length vs < n")
  case True
  have i: "0 < q_repeat inst" "initial_ests vs inst" "length (quants inst) = n * q_repeat inst" "0 < q_min_step inst" using assms(1) True by (auto simp: qnt_ok_def)
  have "(length vs + 1) * q_repeat inst \<le> length (quants inst)" unfolding i(3) using True by (intro mult_le_mono1) simp
  from inserted [OF i(1,2) this, of v] obtain inst' where
    s: "insert_initial_value inst v = Some inst'" "initial_ests (vs @ [v]) inst'" "length (quants inst') = length (quants inst)"
      "inst' = inst\<lparr>n_set := n_set inst', quants := quants inst'\<rparr>" .
  have f: "q_min_step inst' = q_min_step inst" "q_repeat inst' = q_repeat inst" "q_min_k inst' = q_min_k inst" by (subst s(4), simp)+
  have "n_set inst * q_repeat inst < length (quants inst)" using i True by (simp add: initial_ests_def)
  then have "QNT_Accumulate rand v inst = Some inst'" using s(1) by (simp add: QNT_Accumulate_def)
  moreover have "a \<le> q_est qt \<and> q_est qt \<le> b" if "qt \<in> set (quants inst')" for qt
    by (rule initial_bounds [OF s(2) _ _ that]) (use assms(2-4) in auto)
  ultimately show thesis using that s(2,3) f i True by (force simp: qnt_ok_def)
next
  case False
  then have i: "n_set inst = n" "length (quants inst) = n * q_repeat inst" "0 < q_min_step inst" "0 < q_repeat inst" "vs = [] \<Longrightarrow> n = 0"
    using assms(1) by (auto simp: qnt_ok_def initial_ests_def split: if_splits)
  let ?g = "\<lambda>i. update_estimate v (of_nat (i div q_repeat inst + q_min_k inst) / of_nat (q_den inst)) (rand i) (q_min_step inst) (neg_step_limit inst) (quants inst ! i)"
  have e: "QNT_Accumulate rand v inst = Some (inst\<lparr>quants := map ?g [0..<length (quants inst)]\<rparr>)" using i by (simp add: QNT_Accumulate_def)
  have "a - q_min_step inst / 4 \<le> q_est (?g k) \<and> q_est (?g k) \<le> b + q_min_step inst / 4" if "k < length (quants inst)" for k
  proof (rule update_bounds [OF i(3) assms(2,3)])
    have "vs \<noteq> []" using that i(2,5) by auto
    then show "a - q_min_step inst / 4 \<le> q_est (quants inst ! k)" "q_est (quants inst ! k) \<le> b + q_min_step inst / 4"
      using assms(1) nth_mem [OF that] by (auto simp: qnt_ok_def)
  qed
  then have "qnt_ok n a b (vs @ [v]) (inst\<lparr>quants := map ?g [0..<length (quants inst)]\<rparr>)"
    using i False by (auto simp: qnt_ok_def)
  then show thesis using that [OF e] by simp
qed

lemma run_accumulated:
  assumes "qnt_ok n a b vs inst" "\<forall>v\<in>set vs. a \<le> v \<and> v \<le> b" "\<forall>x\<in>set xs. a \<le> snd x \<and> snd x \<le> b"
  shows "\<exists>inst'. qnt_run xs inst = Some inst' \<and> qnt_ok n a b (vs @ map snd xs) inst' \<and> q_min_step inst' = q_min_step inst \<and>
    q_repeat inst' = q_repeat inst \<and> q_min_k inst' = q_min_k inst"
  using assms
proof (induction xs arbitrary: inst vs)
  case (Cons x xs)
  obtain rand v where x: "x = (rand, v)" by fastforce
  have v: "a \<le> v" "v \<le> b" using Cons.prems(3) by (auto simp: x)
  from accumulated [OF Cons.prems(1) v Cons.prems(2), of rand] obtain i1 where
    s: "QNT_Accumulate rand v inst = Some i1" "qnt_ok n a b (vs @ [v]) i1" "q_min_step i1 = q_min_step inst" "q_repeat i1 = q_repeat inst" "q_min_k i1 = q_min_k inst" .
  have "\<forall>v\<in>set (vs @ [v]). a \<le> v \<and> v \<le> b" using Cons.prems(2) v by auto
  from Cons.IH [OF s(2) this] Cons.prems(3) s show ?case by (simp add: x)
qed simp

lemma created:
  assumes "QNT_CreateInstance fresh min_k max_k q repeat delay min_step = Some inst"
  shows "qnt_ok (nat (max_k - min_k + 1)) a b [] inst" "q_min_step inst = min_step" "q_repeat inst = nat repeat" "q_min_k inst = nat min_k"
    "1 \<le> min_k" "min_k \<le> max_k" "1 \<le> repeat" "repeat \<le> 64"
  using assms by (auto simp: QNT_CreateInstance_def QNT_Reset_def qnt_ok_def initial_ests_def nat_mult_distrib split: if_splits)

text \<open>
  C40.  The estimates of the quantiles after any sequence of values, with any random numbers: the first values are
  inserted in their order, each repeated and the largest one in the rest, so that the estimates of different quantiles
  start ordered; later estimates leave the range of the accumulated values by at most a quarter of the minimum step; and with an odd number of
  repetitions every configured quantile is returned, without a failed assertion, from this range.
\<close>

theorem quantile_estimates:
  assumes "QNT_CreateInstance fresh min_k max_k q repeat delay min_step = Some inst" "xs \<noteq> []" "\<forall>x\<in>set xs. a \<le> snd x \<and> snd x \<le> b"
  shows "\<exists>inst'. qnt_run xs inst = Some inst' \<and> length (quants inst') = length (quants inst) \<and>
    (if int (length xs) \<le> max_k - min_k + 1
     then \<forall>p<length (quants inst'). q_est (quants inst' ! p) = sort (map snd xs) ! min (p div nat repeat) (length xs - 1)
     else \<forall>qt\<in>set (quants inst'). a - min_step / 4 \<le> q_est qt \<and> q_est qt \<le> b + min_step / 4) \<and>
    (if odd repeat then \<forall>k\<in>{min_k..max_k}. \<exists>e. QNT_GetQuantile kf inst' k = Some e \<and> a - min_step / 4 \<le> e \<and> e \<le> b + min_step / 4 else True)"
proof -
  note c = created [OF assms(1)]
  let ?n = "nat (max_k - min_k + 1)" and ?r = "nat repeat"
  have "\<forall>v\<in>set []. a \<le> v \<and> v \<le> b" by simp
  from run_accumulated [OF c(1) this assms(3)] obtain inst' where
    s: "qnt_run xs inst = Some inst'" "qnt_ok ?n a b (map snd xs) inst'" "q_min_step inst' = min_step" "q_repeat inst' = ?r" "q_min_k inst' = nat min_k"
    using c by auto
  have bd: "a - min_step / 4 \<le> q_est qt \<and> q_est qt \<le> b + min_step / 4" if "qt \<in> set (quants inst')" for qt
    using s(2,3) assms(2) that by (auto simp: qnt_ok_def)
  have len: "length (quants inst') = ?n * ?r" "length (quants inst) = ?n * ?r" using s(2,4) c(1,3) by (auto simp: qnt_ok_def)
  have init: "\<forall>p<length (quants inst'). q_est (quants inst' ! p) = sort (map snd xs) ! min (p div ?r) (length xs - 1)" if "int (length xs) \<le> max_k - min_k + 1"
  proof -
    have "length (map snd xs) \<le> ?n" using that by simp
    then have "initial_ests (map snd xs) inst'" using s(2) by (simp add: qnt_ok_def)
    then show ?thesis using assms(2) s(4) by (simp add: initial_ests_def)
  qed
  have "\<exists>e. QNT_GetQuantile kf inst' k = Some e \<and> a - min_step / 4 \<le> e \<and> e \<le> b + min_step / 4" if "odd repeat" and k: "k \<in> {min_k..max_k}" for k
  proof -
    let ?b = "nat (k - min_k)" and ?x = "map (\<lambda>i. q_est (quants inst' ! (nat (k - min_k) * ?r + i))) [0..<?r]"
    have r: "0 < ?r" "?r \<le> 64" "odd ?r" using c(7,8) \<open>odd repeat\<close> by (simp_all add: even_nat_iff)
    have "?b + 1 \<le> ?n" using k by auto
    then have blk: "(?b + 1) * ?r \<le> length (quants inst')" unfolding len(1) by (rule mult_le_mono1)
    have "0 \<le> k - min_k" using k by simp
    then have "(k - min_k) * int ?r = int (?b * ?r)" by simp
    also have "\<dots> < int (length (quants inst'))" unfolding of_nat_less_iff using blk r(1) by simp
    finally have g: "(k - min_k) * int ?r < int (length (quants inst'))" .
    have e: "QNT_GetQuantile kf inst' k = Some (sort ?x ! (?r div 2))"
      using median_value [of ?r ?x kf] r g k c(5) by (simp add: QNT_GetQuantile_def s(4,5) Let_def)
    have "sort ?x ! (?r div 2) \<in> set ?x" using nth_mem [of "?r div 2" "sort ?x"] r(1) by simp
    then obtain i where "i < ?r" "sort ?x ! (?r div 2) = q_est (quants inst' ! (?b * ?r + i))" by auto
    moreover from this have "quants inst' ! (?b * ?r + i) \<in> set (quants inst')" using blk by (intro nth_mem) simp
    ultimately show ?thesis using e bd by metis
  qed
  then show ?thesis using s(1) len init bd by auto
qed

theorem quantile_estimates_witness:
  "\<exists>inst inst'. QNT_CreateInstance (\<lambda>_. \<lparr>q_est = 0, q_step = 0, q_sign = 0\<rparr>) 1 2 10 3 1000 1 = Some inst \<and>
     qnt_run [(\<lambda>_. 0, 7), (\<lambda>_. 0, 4), (\<lambda>_. 1, 5)] inst = Some inst' \<and>
     (\<exists>e. QNT_GetQuantile True inst' 1 = Some e \<and> 4 - 1 / 4 \<le> e \<and> e \<le> 7 + 1 / 4)"
proof -
  let ?fresh = "\<lambda>_ :: nat. \<lparr>q_est = 0, q_step = 0, q_sign = 0\<rparr>"
  obtain inst where i: "QNT_CreateInstance ?fresh 1 2 10 3 1000 1 = Some inst" by (simp add: QNT_CreateInstance_def)
  have "\<forall>x\<in>set [(\<lambda>_ :: nat. 0 :: real, 7), (\<lambda>_. 0, 4), (\<lambda>_. 1, 5)]. 4 \<le> snd x \<and> snd x \<le> (7 :: real)" by simp
  from quantile_estimates [where kf = True, OF i _ this] show ?thesis using i by auto
qed

end
