(* ===== verification/Sources.thy ===== *)
theory Sources
  imports Sourcestats "HOL-Library.Multiset"
begin

text \<open>
  The table of sources and their selection: \<open>sources.c\<close>.  The table is the list of the instances, a
  pointer to an instance is its index in it (the field \<open>index\<close>), and the calls of other modules and the log
  messages are collected as a list of effects in their order.  \<open>None\<close> is a failed assertion.

  What the other modules provide is the record \<open>SRC_Env\<close>: the time of the last event, the error of the
  clock, the stratum of the orphan mode, the local reference ID for an address, the mode of the
  reference, and the function \<open>qsort\<close> of the C library, which may leave equal elements in any order.
\<close>

section \<open>The instance\<close>

datatype SRC_Status =
  SRC_OK | SRC_UNSELECTABLE | SRC_BAD_STATS | SRC_UNSYNCHRONISED | SRC_BAD_STRATUM | SRC_BAD_DISTANCE | SRC_JITTERY
| SRC_WAITS_STATS | SRC_STALE | SRC_ORPHAN | SRC_UNTRUSTED | SRC_FALSETICKER | SRC_WAITS_SOURCES | SRC_NONPREFERRED
| SRC_WAITS_UPDATE | SRC_DISTANT | SRC_OUTLIER | SRC_UNSELECTED | SRC_SELECTED

datatype SRC_Type = SRC_NTP | SRC_REFCLOCK

datatype SRC_AuthSelectMode = SRC_AUTHSELECT_IGNORE | SRC_AUTHSELECT_MIX | SRC_AUTHSELECT_PREFER | SRC_AUTHSELECT_REQUIRE

datatype NTP_Leap = LEAP_Normal | LEAP_InsertSecond | LEAP_DeleteSecond | LEAP_Unsynchronised

abbreviation (input) SOURCE_REACH_BITS :: nat where "SOURCE_REACH_BITS \<equiv> 8"
abbreviation (input) SCORE_LIMIT :: real where "SCORE_LIMIT \<equiv> 10"
abbreviation (input) DISTANT_PENALTY :: nat where "DISTANT_PENALTY \<equiv> 32"
abbreviation (input) BAD_HANDLE_THRESHOLD :: nat where "BAD_HANDLE_THRESHOLD \<equiv> 4"
abbreviation (input) SRC_INT_MAX :: nat where "SRC_INT_MAX \<equiv> 2147483647"
abbreviation (input) SRC_SELECT_NOSELECT :: u32 where "SRC_SELECT_NOSELECT \<equiv> 0x1"
abbreviation (input) SRC_SELECT_PREFER :: u32 where "SRC_SELECT_PREFER \<equiv> 0x2"
abbreviation (input) SRC_SELECT_TRUST :: u32 where "SRC_SELECT_TRUST \<equiv> 0x4"
abbreviation (input) SRC_SELECT_REQUIRE :: u32 where "SRC_SELECT_REQUIRE \<equiv> 0x8"

record SelectInfo =
  si_std_dev :: real
  si_root_distance :: real
  lo_limit :: real
  hi_limit :: real
  si_last_sample_ago :: real

record SRC_Instance =
  stats :: SST_Stats
  src_ref_id :: u32
  src_ip_addr :: "IPAddr option"
  active :: bool
  reachability :: nat
  reachability_size :: nat
  unreachable_run :: nat
  max_unreachable_run :: int
  updates :: nat
  distant :: nat
  bad :: nat
  status :: SRC_Status
  src_type :: SRC_Type
  authenticated :: bool
  conf_sel_options :: u32
  sel_options :: u32
  sel_score :: real
  sel_info :: SelectInfo
  stratum :: int
  leap :: NTP_Leap
  leap_vote :: bool
  reported_status :: "SRC_Status set"

abbreviation opt_noselect :: "SRC_Instance \<Rightarrow> bool" where "opt_noselect s \<equiv> sel_options s AND SRC_SELECT_NOSELECT \<noteq> 0"
abbreviation opt_prefer :: "SRC_Instance \<Rightarrow> bool" where "opt_prefer s \<equiv> sel_options s AND SRC_SELECT_PREFER \<noteq> 0"
abbreviation opt_trust :: "SRC_Instance \<Rightarrow> bool" where "opt_trust s \<equiv> sel_options s AND SRC_SELECT_TRUST \<noteq> 0"
abbreviation opt_require :: "SRC_Instance \<Rightarrow> bool" where "opt_require s \<equiv> sel_options s AND SRC_SELECT_REQUIRE \<noteq> 0"

text \<open>The messages about the selection, and the calls of other modules.\<close>

datatype SelectionMessage =
  NoSources | NoSelectableSources nat | NoMajority (agreeing: int) (candidates: int) (trusted_only: bool)
| NoAdmissibleSources | NoRequiredSource | NotEnoughSources

datatype SRC_Effect =
  LogSource nat SRC_Status
| LogSelection SelectionMessage
| LogOrphanRefid
| NSR_HandleBadSource "IPAddr option"
| REF_SetUnsynchronised
| REF_UpdateLeapStatus NTP_Leap
| REF_SetReference (ref_stratum: int) (ref_leap: NTP_Leap) (ref_combined: nat) (ref_id: u32) (ref_addr: "IPAddr option") (ref_data: TrackingData)

record SRC_State =
  sources :: "SRC_Instance list"
  selected_source_index :: "nat option"
  reported_no_majority :: bool
  report_selection_loss :: bool
  forced_first_report :: bool
  max_distance :: real
  max_jitter :: real
  max_stratum :: int
  min_stratum :: int
  reselect_distance :: real
  stratum_weight :: real
  combine_limit :: real
  last_updated_inst :: "nat option"
  effects :: "SRC_Effect list"

datatype tag = LOW | HIGH

record Sort_Element =
  se_index :: nat
  se_offset :: real
  se_tag :: tag

record SRC_Env =
  ev_now :: timespec
  max_clock_error :: real
  orphan_stratum :: int
  local_refid :: "IPAddr option \<Rightarrow> u32"
  normal_mode :: bool
  min_sources :: int
  auth_select_mode :: SRC_AuthSelectMode
  qsort :: "Sort_Element list \<Rightarrow> Sort_Element list"

definition emit :: "SRC_Effect \<Rightarrow> SRC_State \<Rightarrow> SRC_State" where
  "emit e st = st\<lparr>effects := effects st @ [e]\<rparr>"

definition upd_source :: "nat \<Rightarrow> (SRC_Instance \<Rightarrow> SRC_Instance) \<Rightarrow> SRC_State \<Rightarrow> SRC_State" where
  "upd_source i f st = st\<lparr>sources := (sources st)[i := f (sources st ! i)]\<rparr>"

text \<open>A loop whose body may fail an assertion.\<close>

fun for_each :: "('a \<Rightarrow> 's \<Rightarrow> 's option) \<Rightarrow> 'a list \<Rightarrow> 's \<Rightarrow> 's option" where
  "for_each f [] s = Some s"
| "for_each f (x # xs) s = Option.bind (f x s) (for_each f xs)"

section \<open>The status of a source\<close>

definition handle_bad_source :: "nat \<Rightarrow> SRC_State \<Rightarrow> SRC_State" where
  "handle_bad_source i st =
     (if src_type (sources st ! i) = SRC_NTP then emit (NSR_HandleBadSource (src_ip_addr (sources st ! i))) st else st)"

definition set_source_status :: "nat \<Rightarrow> SRC_Status \<Rightarrow> SRC_State \<Rightarrow> SRC_State" where
  "set_source_status i new st =
     (let st = upd_source i (\<lambda>s. s\<lparr>status := new\<rparr>) st in
      if last_updated_inst st = Some i then
        let st = upd_source i (\<lambda>s. s\<lparr>bad := (if bad s < SRC_INT_MAX \<and> (new = SRC_FALSETICKER \<or> new = SRC_BAD_DISTANCE \<or>
                     new = SRC_BAD_STRATUM \<or> new = SRC_JITTERY) then bad s + 1 else 0)\<rparr>) st in
        if bad (sources st ! i) \<ge> BAD_HANDLE_THRESHOLD then handle_bad_source i st else st
      else st)"

definition log_selection_message :: "SRC_Env \<Rightarrow> SelectionMessage \<Rightarrow> SRC_State \<Rightarrow> SRC_State" where
  "log_selection_message env msg st = (if \<not> normal_mode env then st else emit (LogSelection msg) st)"

definition log_selection_source :: "SRC_Env \<Rightarrow> nat \<Rightarrow> SRC_State \<Rightarrow> SRC_State" where
  "log_selection_source env i st =
     (if \<not> normal_mode env then st
      else upd_source i (\<lambda>s. s\<lparr>reported_status := insert (status s) (reported_status s)\<rparr>)
             (emit (LogSource i (status (sources st ! i))) st))"

definition mark_source :: "SRC_Env \<Rightarrow> nat \<Rightarrow> SRC_Status \<Rightarrow> SRC_State \<Rightarrow> SRC_State" where
  "mark_source env i new st =
     (let st = set_source_status i new st in
      if new \<in> reported_status (sources st ! i) then st
      else if new = SRC_BAD_STRATUM \<or> new = SRC_BAD_DISTANCE \<or> new = SRC_JITTERY then
        if bad (sources st ! i) < BAD_HANDLE_THRESHOLD then st else log_selection_source env i st
      else if new = SRC_FALSETICKER \<or> new = SRC_SELECTED then log_selection_source env i st
      else st)"

definition mark_ok_sources :: "SRC_Status \<Rightarrow> SRC_State \<Rightarrow> SRC_State" where
  "mark_ok_sources new st =
     fold (\<lambda>i st. if status (sources st ! i) \<noteq> SRC_OK then st else set_source_status i new st) [0..<length (sources st)] st"

definition unselect_selected_source :: "SRC_Env \<Rightarrow> SelectionMessage option \<Rightarrow> SRC_State \<Rightarrow> SRC_State" where
  "unselect_selected_source env msg st =
     (let st = (if selected_source_index st \<noteq> None then st\<lparr>selected_source_index := None, report_selection_loss := True\<rparr> else st) in
      case msg of
        Some m \<Rightarrow> if report_selection_loss st then (log_selection_message env m st)\<lparr>report_selection_loss := False\<rparr> else st
      | None \<Rightarrow> st)"

definition get_leap_status :: "SRC_State \<Rightarrow> NTP_Leap" where
  "get_leap_status st =
     (let voters = filter leap_vote (sources st);
          leap_ins = length (filter (\<lambda>s. leap s = LEAP_InsertSecond) voters);
          leap_del = length (filter (\<lambda>s. leap s = LEAP_DeleteSecond) voters) in
      if leap_ins > length voters div 2 then LEAP_InsertSecond
      else if leap_del > length voters div 2 then LEAP_DeleteSecond
      else LEAP_Normal)"

section \<open>Combining the selected sources\<close>

text \<open>The sums of the loop.\<close>

record CombineSums =
  combined :: nat
  sum_offset_weight :: real
  sum_offset :: real
  sum2_offset_sd :: real
  sum_frequency_weight :: real
  sum_frequency :: real
  inv_sum2_frequency_sd :: real
  inv_sum2_skew :: real

definition is_distant :: "SRC_Env \<Rightarrow> nat \<Rightarrow> real \<Rightarrow> TrackingData \<Rightarrow> nat \<Rightarrow> TrackingData \<Rightarrow> SRC_State \<Rightarrow> bool" where
  "is_distant env sel sel_src_distance ref i src st \<longleftrightarrow>
     i \<noteq> sel \<and> (si_root_distance (sel_info (sources st ! i)) > combine_limit st * sel_src_distance \<or>
       \<bar>td_frequency ref - td_frequency src\<bar> > combine_limit st * (td_skew ref + td_skew src + max_clock_error env))"

definition update_distant :: "bool \<Rightarrow> SRC_Instance \<Rightarrow> SRC_Instance" where
  "update_distant far s =
     (if far then s\<lparr>distant := (if reachability_size s \<ge> SOURCE_REACH_BITS then DISTANT_PENALTY else 1)\<rparr>
      else if distant s \<noteq> 0 then s\<lparr>distant := distant s - 1\<rparr> else s)"

definition combine_source :: "SRC_Env \<Rightarrow> nat \<Rightarrow> real \<Rightarrow> TrackingData \<Rightarrow> nat \<Rightarrow> SRC_State \<times> CombineSums \<Rightarrow> (SRC_State \<times> CombineSums) option" where
  "combine_source env sel sel_src_distance ref i = (\<lambda>(st, cs).
     Option.bind (SST_GetTrackingData (stats (sources st ! i))) (\<lambda>src.
       let st = upd_source i (update_distant (is_distant env sel sel_src_distance ref i src st)) st in
       if distant (sources st ! i) \<noteq> 0 then Some (mark_source env i SRC_DISTANT st, cs)
       else
         let st = (if status (sources st ! i) = SRC_OK then mark_source env i SRC_UNSELECTED st else st);
             elapsed = UTI_DiffTimespecsToDouble (ref_time ref) (ref_time src);
             src_offset = average_offset src + elapsed * td_frequency src;
             src_offset_sd = offset_sd src + elapsed * td_frequency_sd src;
             offset_weight = 1 / si_root_distance (sel_info (sources st ! i));
             frequency_weight = 1 / (td_frequency_sd src)\<^sup>2 in
         Some (st,
           \<lparr>combined = combined cs + 1,
            sum_offset_weight = sum_offset_weight cs + offset_weight,
            sum_offset = sum_offset cs + offset_weight * src_offset,
            sum2_offset_sd = sum2_offset_sd cs + offset_weight * (src_offset_sd\<^sup>2 + (src_offset - average_offset ref)\<^sup>2),
            sum_frequency_weight = sum_frequency_weight cs + frequency_weight,
            sum_frequency = sum_frequency cs + frequency_weight * td_frequency src,
            inv_sum2_frequency_sd = inv_sum2_frequency_sd cs + 1 / (td_frequency_sd src)\<^sup>2,
            inv_sum2_skew = inv_sum2_skew cs + 1 / (td_skew src)\<^sup>2\<rparr>)))"

definition combine_sources :: "SRC_Env \<Rightarrow> nat \<Rightarrow> nat list \<Rightarrow> TrackingData \<Rightarrow> SRC_State \<Rightarrow> (nat \<times> TrackingData \<times> SRC_State) option" where
  "combine_sources env sel sel_sources ref st =
     (if length sel_sources = 1 then Some (1, ref, st)
      else
        let s = sources st ! sel;
            sel_src_distance = si_root_distance (sel_info s) + (if src_type s = SRC_NTP then reselect_distance st else 0) in
        Option.bind (for_each (combine_source env sel sel_src_distance ref) sel_sources (st, \<lparr>combined = 0, sum_offset_weight = 0,
            sum_offset = 0, sum2_offset_sd = 0, sum_frequency_weight = 0, sum_frequency = 0, inv_sum2_frequency_sd = 0, inv_sum2_skew = 0\<rparr>))
          (\<lambda>(st, cs).
            if combined cs = 0 then None
            else Some (combined cs,
              ref\<lparr>average_offset := sum_offset cs / sum_offset_weight cs,
                  offset_sd := sqrt (sum2_offset_sd cs / sum_offset_weight cs),
                  td_frequency := sum_frequency cs / sum_frequency_weight cs,
                  td_frequency_sd := 1 / sqrt (inv_sum2_frequency_sd cs),
                  td_skew := 1 / sqrt (inv_sum2_skew cs)\<rparr>, st)))"

section \<open>The selection\<close>

text \<open>The counts and maximums of the first loop.\<close>

record SelectScan =
  sel_req_source :: bool
  n_unreach_sources :: nat
  n_badstats_sources :: nat
  max_badstat_reach :: nat
  max_badstat_reach_size :: nat
  max_sel_reach :: nat
  max_sel_reach_size :: nat
  max_reach_sample_ago :: real

definition set_sel_info :: "SelectionData \<Rightarrow> SRC_Instance \<Rightarrow> SRC_Instance" where
  "set_sel_info d s = s\<lparr>sel_info := \<lparr>si_std_dev = sd_std_dev d, si_root_distance = sd_root_distance d, lo_limit = offset_lo_limit d,
     hi_limit = offset_hi_limit d, si_last_sample_ago = sd_last_sample_ago d\<rparr>\<rparr>"

definition add_extra_disp :: "SRC_Env \<Rightarrow> SelectionData \<Rightarrow> SRC_Instance \<Rightarrow> SRC_Instance" where
  "add_extra_disp env d s =
     (let si = sel_info s in
      if first_sample_ago d < 2 * si_last_sample_ago si then
        let extra_disp = max_clock_error env * (2 * si_last_sample_ago si - first_sample_ago d) in
        s\<lparr>sel_info := si\<lparr>si_root_distance := si_root_distance si + extra_disp, lo_limit := lo_limit si - extra_disp, hi_limit := hi_limit si + extra_disp\<rparr>\<rparr>
      else s)"

definition check_source :: "SRC_Env \<Rightarrow> nat \<Rightarrow> SelectionData \<Rightarrow> SRC_State \<times> SelectScan \<Rightarrow> SRC_State \<times> SelectScan" where
  "check_source env i d = (\<lambda>(st, scan).
     if leap (sources st ! i) = LEAP_Unsynchronised then (mark_source env i SRC_UNSYNCHRONISED st, scan)
     else if stratum (sources st ! i) < min_stratum st \<or> stratum (sources st ! i) > max_stratum st then (mark_source env i SRC_BAD_STRATUM st, scan)
     else
       let st = upd_source i (add_extra_disp env d) st;
           s = sources st ! i;
           si = sel_info s in
       if \<not> (si_root_distance si \<le> max_distance st \<and> lo_limit si \<le> hi_limit si) then (mark_source env i SRC_BAD_DISTANCE st, scan)
       else if si_std_dev si > max_jitter st then (mark_source env i SRC_JITTERY st, scan)
       else (upd_source i (\<lambda>s. s\<lparr>status := SRC_OK\<rparr>) st,
         scan\<lparr>max_reach_sample_ago := (if reachability s \<noteq> 0 then max (max_reach_sample_ago scan) (first_sample_ago d) else max_reach_sample_ago scan),
              max_sel_reach := max (max_sel_reach scan) (reachability s),
              max_sel_reach_size := max (max_sel_reach_size scan) (reachability_size s)\<rparr>))"

definition build_interval :: "SRC_Env \<Rightarrow> nat \<Rightarrow> SRC_State \<times> SelectScan \<Rightarrow> (SRC_State \<times> SelectScan) option" where
  "build_interval env i = (\<lambda>(st, scan).
     let s = sources st ! i in
     if \<not> status s \<noteq> SRC_OK then None
     else
       let st = upd_source i (\<lambda>s. s\<lparr>leap_vote := False\<rparr>) st;
           scan = (if opt_require s then scan\<lparr>sel_req_source := True\<rparr> else scan) in
       if opt_noselect s then Some (mark_source env i SRC_UNSELECTABLE st, scan)
       else
         let scan = (if reachability s = 0 then scan\<lparr>n_unreach_sources := n_unreach_sources scan + 1\<rparr> else scan);
             data = SST_GetSelectionData (max_jitter st) (ev_now env) (stats s);
             st = (case data of Some (_, d) \<Rightarrow> upd_source i (set_sel_info d) st | None \<Rightarrow> st) in
         case data of
           Some (True, d) \<Rightarrow> Some (check_source env i d (st, scan))
         | _ \<Rightarrow> Some (mark_source env i SRC_BAD_STATS st,
             scan\<lparr>n_badstats_sources := n_badstats_sources scan + 1,
                  max_badstat_reach := max (max_badstat_reach scan) (reachability s),
                  max_badstat_reach_size := max (max_badstat_reach_size scan) (reachability_size s)\<rparr>))"

text \<open>Sources that are stale and orphans; the number of the other sources and the best orphan.\<close>

definition check_orphan :: "SRC_Env \<Rightarrow> real \<Rightarrow> nat \<Rightarrow> SRC_State \<times> nat \<times> nat option \<Rightarrow> SRC_State \<times> nat \<times> nat option" where
  "check_orphan env max_ago i = (\<lambda>(st, n_sel_sources, orphan_source).
     let s = sources st ! i in
     if status s \<noteq> SRC_OK then (st, n_sel_sources, orphan_source)
     else if reachability s = 0 \<and> (si_last_sample_ago (sel_info s) > max_ago \<or> int (unreachable_run s) > max_unreachable_run s)
     then (mark_source env i SRC_STALE st, n_sel_sources, orphan_source)
     else if stratum s \<ge> orphan_stratum env \<and> src_type s = SRC_NTP then
       let st = mark_source env i SRC_ORPHAN st in
       (st, n_sel_sources,
        if stratum s = orphan_stratum env \<and> reachability s \<noteq> 0 \<and>
           (case orphan_source of None \<Rightarrow> True | Some o' \<Rightarrow> src_ref_id s < src_ref_id (sources st ! o'))
        then Some i else orphan_source)
     else (st, n_sel_sources + 1, orphan_source))"

definition consider_orphan :: "SRC_Env \<Rightarrow> SRC_State \<times> nat \<times> nat option \<Rightarrow> SRC_State \<times> nat" where
  "consider_orphan env = (\<lambda>(st, n_sel_sources, orphan_source).
     case orphan_source of
       Some i \<Rightarrow> if n_sel_sources = 0 then
           let s = sources st ! i;
               local_ref_id = local_refid env (src_ip_addr s) in
           if local_ref_id = 0 then (emit LogOrphanRefid st, n_sel_sources)
           else if src_ref_id s < local_ref_id then (upd_source i (\<lambda>s. s\<lparr>status := SRC_OK\<rparr>) st, 1)
           else (st, n_sel_sources)
         else (st, n_sel_sources)
     | None \<Rightarrow> (st, n_sel_sources))"

definition ok_sources :: "SRC_State \<Rightarrow> nat list" where
  "ok_sources st = filter (\<lambda>i. status (sources st ! i) = SRC_OK) [0..<length (sources st)]"

definition endpoints :: "SRC_State \<Rightarrow> Sort_Element list" where
  "endpoints st = concat (map (\<lambda>i. let si = sel_info (sources st ! i) in
     [\<lparr>se_index = i, se_offset = lo_limit si, se_tag = LOW\<rparr>, \<lparr>se_index = i, se_offset = hi_limit si, se_tag = HIGH\<rparr>]) (ok_sources st))"

definition tag_value :: "tag \<Rightarrow> int" where
  "tag_value t = (case t of LOW \<Rightarrow> -1 | HIGH \<Rightarrow> 1)"

definition compare_sort_elements :: "Sort_Element \<Rightarrow> Sort_Element \<Rightarrow> int" where
  "compare_sort_elements u v =
     (if se_offset u < se_offset v then -1 else if se_offset u > se_offset v then 1
      else if tag_value (se_tag u) < tag_value (se_tag v) then -1 else if tag_value (se_tag u) > tag_value (se_tag v) then 1 else 0)"

text \<open>The search for the interval contained in the most intervals of the sources.\<close>

record Sweep =
  depth :: int
  best_depth :: int
  trust_depth :: int
  best_trust_depth :: int
  best_lo :: real
  best_hi :: real
  best_trust_lo :: real
  best_trust_hi :: real

definition sweep_step :: "(nat \<Rightarrow> bool) \<Rightarrow> Sort_Element \<Rightarrow> Sweep \<Rightarrow> Sweep option" where
  "sweep_step trusted e w =
     (let w = (case se_tag e of
          LOW \<Rightarrow>
            let w = w\<lparr>depth := depth w + 1, trust_depth := (if trusted (se_index e) then trust_depth w + 1 else trust_depth w)\<rparr> in
            if trust_depth w > best_trust_depth w \<or> trust_depth w = best_trust_depth w \<and> depth w > best_depth w then
              let w = (if trust_depth w > best_trust_depth w then w\<lparr>best_trust_depth := trust_depth w, best_trust_lo := se_offset e\<rparr> else w) in
              w\<lparr>best_depth := depth w, best_lo := se_offset e\<rparr>
            else w
        | HIGH \<Rightarrow>
            let w = (if trust_depth w = best_trust_depth w then
                  (if depth w = best_depth w then w\<lparr>best_hi := se_offset e\<rparr> else w)\<lparr>best_trust_hi := se_offset e\<rparr>
                else w) in
            w\<lparr>trust_depth := (if trusted (se_index e) then trust_depth w - 1 else trust_depth w), depth := depth w - 1\<rparr>) in
      if trust_depth w \<le> depth w \<and> trust_depth w \<ge> 0 then Some w else None)"

definition empty_sweep :: Sweep where
  "empty_sweep = \<lparr>depth = 0, best_depth = 0, trust_depth = 0, best_trust_depth = 0, best_lo = 0, best_hi = 0, best_trust_lo = 0, best_trust_hi = 0\<rparr>"

definition find_interval :: "SRC_Env \<Rightarrow> nat \<Rightarrow> SRC_State \<Rightarrow> Sweep option" where
  "find_interval env n_sel_sources st =
     (let sort_list = qsort env (endpoints st) in
      Option.bind (for_each (sweep_step (\<lambda>i. opt_trust (sources st ! i))) sort_list empty_sweep) (\<lambda>w.
        if \<not> (depth w = 0 \<and> trust_depth w = 0) \<or> \<not> 2 * n_sel_sources = length (endpoints st) then None else Some w))"

text \<open>The admissible sources, in a list, and whether a required source is still missing.\<close>

definition in_interval :: "Sweep \<Rightarrow> SelectInfo \<Rightarrow> bool" where
  "in_interval w si \<longleftrightarrow> lo_limit si \<le> best_lo w \<and> hi_limit si \<ge> best_hi w \<or> lo_limit si \<ge> best_lo w \<and> hi_limit si \<le> best_hi w"

definition in_trusted :: "Sweep \<Rightarrow> SRC_Instance \<Rightarrow> bool" where
  "in_trusted w s \<longleftrightarrow> best_trust_depth w = 0 \<or> opt_trust s \<or>
     lo_limit (sel_info s) \<ge> best_trust_lo w \<and> hi_limit (sel_info s) \<le> best_trust_hi w"

definition admit_source :: "SRC_Env \<Rightarrow> Sweep \<Rightarrow> nat \<Rightarrow> SRC_State \<times> nat list \<times> bool \<Rightarrow> SRC_State \<times> nat list \<times> bool" where
  "admit_source env w i = (\<lambda>(st, sel_sources, req).
     let s = sources st ! i in
     if status s \<noteq> SRC_OK then (st, sel_sources, req)
     else if in_interval w (sel_info s) then
       if \<not> in_trusted w s then (mark_source env i SRC_UNTRUSTED st, sel_sources, req)
       else (st, sel_sources @ [i], if opt_require s then False else req)
     else (mark_source env i SRC_FALSETICKER st, sel_sources, req))"

definition enable_votes :: "Sweep \<Rightarrow> nat list \<Rightarrow> SRC_State \<Rightarrow> SRC_State" where
  "enable_votes w sel_sources st =
     fold (\<lambda>i st. if best_trust_depth w \<noteq> 0 \<and> \<not> opt_trust (sources st ! i) then st else upd_source i (\<lambda>s. s\<lparr>leap_vote := True\<rparr>) st) sel_sources st"

text \<open>The reduction to the preferred sources; the flag says whether there are any.\<close>

definition reduce_preferred :: "SRC_Env \<Rightarrow> nat list \<Rightarrow> SRC_State \<Rightarrow> bool \<times> nat list \<times> SRC_State" where
  "reduce_preferred env sel_sources st =
     (if \<exists>i\<in>set sel_sources. opt_prefer (sources st ! i) then
        (True, filter (\<lambda>i. opt_prefer (sources st ! i)) sel_sources,
         fold (\<lambda>i st. if \<not> opt_prefer (sources st ! i) then mark_source env i SRC_NONPREFERRED st else st) sel_sources st)
      else (False, sel_sources, st))"

definition min_sel_stratum :: "nat list \<Rightarrow> SRC_State \<Rightarrow> int" where
  "min_sel_stratum sel_sources st =
     fold (\<lambda>i m. if m > stratum (sources st ! i) then stratum (sources st ! i) else m) (tl sel_sources) (stratum (sources st ! hd sel_sources))"

text \<open>
  The scores, with the largest one and its index.  A quotient with a divisor of zero, which is an infinity in the code, is
  zero here.
\<close>

definition score_distance :: "int \<Rightarrow> SRC_State \<Rightarrow> SRC_Instance \<Rightarrow> real" where
  "score_distance min_s st s = si_root_distance (sel_info s) + of_int (stratum s - min_s) * stratum_weight st"

definition update_score :: "bool \<Rightarrow> int \<Rightarrow> real \<Rightarrow> nat option \<Rightarrow> nat \<Rightarrow> SRC_State \<times> real \<times> nat option \<Rightarrow> SRC_State \<times> real \<times> nat option" where
  "update_score sel_prefer min_s sel_src_distance updated i = (\<lambda>(st, max_score, max_score_index).
     let s = sources st ! i in
     if status s \<noteq> SRC_OK \<or> sel_prefer \<and> \<not> opt_prefer s then
       (upd_source i (\<lambda>s. s\<lparr>sel_score := 1, distant := DISTANT_PENALTY\<rparr>) st, max_score, max_score_index)
     else
       let distance = score_distance min_s st s + (if src_type s = SRC_NTP then reselect_distance st else 0);
           score = (case selected_source_index st of
               Some sel \<Rightarrow> if updated = Some i \<or> updated = Some sel then max 1 (sel_score s * (sel_src_distance / distance)) else sel_score s
             | None \<Rightarrow> 1 / distance);
           st = upd_source i (\<lambda>s. s\<lparr>sel_score := score\<rparr>) st in
       if max_score < score then (st, score, Some i) else (st, max_score, max_score_index))"

definition update_scores :: "bool \<Rightarrow> nat list \<Rightarrow> nat option \<Rightarrow> SRC_State \<Rightarrow> SRC_State \<times> real \<times> nat option" where
  "update_scores sel_prefer sel_sources updated st =
     (let min_s = min_sel_stratum sel_sources st;
          sel_src_distance = (case selected_source_index st of Some sel \<Rightarrow> score_distance min_s st (sources st ! sel) | None \<Rightarrow> 0) in
      fold (update_score sel_prefer min_s sel_src_distance updated) [0..<length (sources st)] (st, 0, None))"

definition reset_scores :: "SRC_State \<Rightarrow> SRC_State" where
  "reset_scores st = st\<lparr>sources := map (\<lambda>s. s\<lparr>sel_score := 1, distant := 0, reported_status := {}\<rparr>) (sources st),
     reported_no_majority := False, report_selection_loss := False, forced_first_report := True\<rparr>"

text \<open>The last part, with the selected source: marking the sources and setting the reference.\<close>

definition update_reference :: "SRC_Env \<Rightarrow> nat \<Rightarrow> nat list \<Rightarrow> SRC_State \<Rightarrow> SRC_State option" where
  "update_reference env sel sel_sources st =
     (let st = mark_source env sel SRC_SELECTED st in
      if updates (sources st ! sel) = 0 then
        Some (fold (\<lambda>i st. if status (sources st ! i) = SRC_OK
            then mark_source env i (if distant (sources st ! i) \<noteq> 0 then SRC_DISTANT else SRC_UNSELECTED) st else st) sel_sources st)
      else
        let st = st\<lparr>sources := map (\<lambda>s. s\<lparr>updates := 0\<rparr>) (sources st)\<rparr>;
            leap_status = get_leap_status st in
        Option.bind (SST_GetTrackingData (stats (sources st ! sel))) (\<lambda>ref.
          map_option (\<lambda>(combined, ref, st).
              let s = sources st ! sel in
              emit (REF_SetReference (stratum s) leap_status combined (src_ref_id s) (src_ip_addr s) ref) st)
            (combine_sources env sel sel_sources ref st)))"

definition select_from :: "SRC_Env \<Rightarrow> nat option \<Rightarrow> bool \<Rightarrow> nat list \<Rightarrow> SRC_State \<Rightarrow> SRC_State option" where
  "select_from env updated sel_prefer sel_sources st =
     (case update_scores sel_prefer sel_sources updated st of
        (st, max_score, None) \<Rightarrow> None
      | (st, max_score, Some i) \<Rightarrow>
          (case selected_source_index st of
             Some sel \<Rightarrow>
               if status (sources st ! sel) \<noteq> SRC_OK \<or> i \<noteq> sel \<and> max_score > SCORE_LIMIT then
                 if updates (sources st ! i) = 0 then Some (mark_ok_sources SRC_WAITS_UPDATE (unselect_selected_source env None st))
                 else update_reference env i sel_sources (reset_scores (st\<lparr>selected_source_index := Some i\<rparr>))
               else update_reference env sel sel_sources st
           | None \<Rightarrow>
               if updates (sources st ! i) = 0 then Some (mark_ok_sources SRC_WAITS_UPDATE (unselect_selected_source env None st))
               else update_reference env i sel_sources (reset_scores (st\<lparr>selected_source_index := Some i\<rparr>))))"

definition refuse_majority :: "SRC_Env \<Rightarrow> int \<Rightarrow> int \<Rightarrow> bool \<Rightarrow> SRC_State \<Rightarrow> SRC_State" where
  "refuse_majority env depth' n_sel trusted st =
     (let st = (if \<not> reported_no_majority st
            then (log_selection_message env (NoMajority depth' n_sel trusted) st)\<lparr>reported_no_majority := True, report_selection_loss := False\<rparr> else st);
          st = (if selected_source_index st \<noteq> None then (emit REF_SetUnsynchronised st)\<lparr>selected_source_index := None\<rparr> else st) in
      mark_ok_sources SRC_FALSETICKER st)"

definition has_majority :: "nat \<Rightarrow> nat \<Rightarrow> Sweep \<Rightarrow> bool" where
  "has_majority n_sel n_sel_trust w \<longleftrightarrow>
     (if best_trust_depth w > 0 then \<not> best_trust_depth w \<le> int n_sel_trust div 2 else \<not> best_depth w \<le> int n_sel div 2)"

text \<open>The part after the interval is found.\<close>

definition select_admissible :: "SRC_Env \<Rightarrow> nat option \<Rightarrow> bool \<Rightarrow> Sweep \<Rightarrow> SRC_State \<Rightarrow> SRC_State option" where
  "select_admissible env updated req w st =
     (case fold (admit_source env w) [0..<length (sources st)] (st, [], req) of
        (st, sel_sources, req) \<Rightarrow>
          if sel_sources = [] \<or> req \<or> int (length sel_sources) < min_sources env then
            Some (mark_ok_sources SRC_WAITS_SOURCES (unselect_selected_source env
              (Some (if sel_sources = [] then NoAdmissibleSources else if req then NoRequiredSource else NotEnoughSources)) st))
          else
            (case reduce_preferred env sel_sources (enable_votes w sel_sources st) of
               (sel_prefer, sel_sources, st) \<Rightarrow>
                 if sel_prefer \<and> sel_sources = [] then None else select_from env updated sel_prefer sel_sources st))"

definition empty_scan :: SelectScan where
  "empty_scan = \<lparr>sel_req_source = False, n_unreach_sources = 0, n_badstats_sources = 0, max_badstat_reach = 0, max_badstat_reach_size = 0,
     max_sel_reach = 0, max_sel_reach_size = 0, max_reach_sample_ago = 0\<rparr>"

text \<open>The part before the interval is searched for: the selectable sources have the status \<open>SRC_OK\<close>.\<close>

definition find_selectable :: "SRC_Env \<Rightarrow> SRC_State \<Rightarrow> (SRC_State \<times> SelectScan \<times> nat) option" where
  "find_selectable env st =
     map_option (\<lambda>(st, scan). case consider_orphan env (fold (check_orphan env (max_reach_sample_ago scan)) [0..<length (sources st)] (st, 0, None)) of
         (st, n_sel_sources) \<Rightarrow> (st, scan, n_sel_sources))
       (for_each (build_interval env) [0..<length (sources st)] (st, empty_scan))"

definition SRC_SelectSource :: "SRC_Env \<Rightarrow> nat option \<Rightarrow> SRC_State \<Rightarrow> SRC_State option" where
  "SRC_SelectSource env updated st =
     (let st = (case updated of Some i \<Rightarrow> (upd_source i (\<lambda>s. s\<lparr>updates := updates s + 1\<rparr>) st)\<lparr>last_updated_inst := Some i\<rparr> | None \<Rightarrow> st) in
      if sources st = [] then Some (unselect_selected_source env (Some NoSources) st)
      else Option.bind (find_selectable env st) (\<lambda>(st, scan, n_sel_sources).
        if n_badstats_sources scan \<noteq> 0 \<and> n_sel_sources \<noteq> 0 \<and> selected_source_index st = None \<and>
           max_sel_reach_size scan < SOURCE_REACH_BITS \<and> max_sel_reach scan div 2 = max_badstat_reach scan
        then Some (unselect_selected_source env None (mark_ok_sources SRC_WAITS_STATS st))
        else
          let st = (if \<not> forced_first_report st \<and> max (max_sel_reach_size scan) (max_badstat_reach_size scan) = SOURCE_REACH_BITS
                then st\<lparr>report_selection_loss := True, forced_first_report := True\<rparr> else st);
              n_sel_trust_sources = length (filter (\<lambda>i. opt_trust (sources st ! i)) (ok_sources st)) in
          if endpoints st = [] then Some (unselect_selected_source env (Some (NoSelectableSources (n_unreach_sources scan))) st)
          else Option.bind (find_interval env n_sel_sources st) (\<lambda>w.
            if \<not> has_majority n_sel_sources n_sel_trust_sources w then
              Some (if best_trust_depth w > 0 then refuse_majority env (best_trust_depth w) (int n_sel_trust_sources) True st
                    else refuse_majority env (best_depth w) (int n_sel_sources) False st)
            else select_admissible env updated (sel_req_source scan) w st)))"

section \<open>The other operations\<close>

text \<open>The configuration that is read by the module.\<close>

record SRC_Conf =
  cnf_max_distance :: real
  cnf_max_jitter :: real
  cnf_max_stratum :: int
  cnf_min_stratum :: int
  cnf_reselect_distance :: real
  cnf_stratum_weight :: real
  cnf_combine_limit :: real
  cnf_min_samples :: int
  cnf_max_samples :: int

text \<open>\<open>flags\<close> are the three flags of the reports, which are not set by the initialisation.\<close>

definition SRC_Initialise :: "SRC_Conf \<Rightarrow> bool \<times> bool \<times> bool \<Rightarrow> SRC_State" where
  "SRC_Initialise conf flags = (case flags of (no_majority, loss, forced) \<Rightarrow>
     \<lparr>sources = [], selected_source_index = None, reported_no_majority = no_majority, report_selection_loss = loss, forced_first_report = forced,
      max_distance = cnf_max_distance conf, max_jitter = cnf_max_jitter conf, max_stratum = cnf_max_stratum conf, min_stratum = cnf_min_stratum conf,
      reselect_distance = cnf_reselect_distance conf, stratum_weight = cnf_stratum_weight conf, combine_limit = cnf_combine_limit conf,
      last_updated_inst = None, effects = []\<rparr>)"

definition added_options :: "SRC_AuthSelectMode \<Rightarrow> nat \<Rightarrow> nat \<Rightarrow> u32 \<times> u32 \<times> u32" where
  "added_options mode auth_ntp_sources unauth_ntp_sources = (case mode of
     SRC_AUTHSELECT_IGNORE \<Rightarrow> (0, 0, 0)
   | SRC_AUTHSELECT_MIX \<Rightarrow> if auth_ntp_sources > 0 \<and> unauth_ntp_sources > 0
       then (SRC_SELECT_REQUIRE OR SRC_SELECT_TRUST, 0, SRC_SELECT_REQUIRE OR SRC_SELECT_TRUST) else (0, 0, 0)
   | SRC_AUTHSELECT_PREFER \<Rightarrow> if auth_ntp_sources > 0 then (0, SRC_SELECT_NOSELECT, 0) else (0, 0, 0)
   | SRC_AUTHSELECT_REQUIRE \<Rightarrow> (0, SRC_SELECT_NOSELECT, 0))"

definition update_sel_options :: "SRC_Env \<Rightarrow> SRC_State \<Rightarrow> SRC_State" where
  "update_sel_options env st =
     (let ntp = filter (\<lambda>s. conf_sel_options s AND SRC_SELECT_NOSELECT = 0 \<and> src_type s = SRC_NTP) (sources st) in
      case added_options (auth_select_mode env) (length (filter authenticated ntp)) (length (filter (\<lambda>s. \<not> authenticated s) ntp)) of
        (auth_ntp_options, unauth_ntp_options, refclk_options) \<Rightarrow>
          st\<lparr>sources := map (\<lambda>s. s\<lparr>sel_options :=
              (if conf_sel_options s AND SRC_SELECT_NOSELECT = 0 then
                 conf_sel_options s OR (case src_type s of SRC_NTP \<Rightarrow> if authenticated s then auth_ntp_options else unauth_ntp_options
                   | SRC_REFCLOCK \<Rightarrow> refclk_options)
               else conf_sel_options s)\<rparr>) (sources st)\<rparr>)"

definition reset_fields :: "SRC_Instance \<Rightarrow> SRC_Instance" where
  "reset_fields s = s\<lparr>updates := 0, reachability := 0, reachability_size := 0, unreachable_run := 0, distant := 0, bad := 0,
     status := SRC_BAD_STATS, sel_score := 1, stratum := 0, leap := LEAP_Unsynchronised, leap_vote := False, reported_status := {},
     sel_info := \<lparr>si_std_dev = 0, si_root_distance = 0, lo_limit = 0, hi_limit = 0, si_last_sample_ago = 0\<rparr>, stats := SST_ResetInstance (stats s)\<rparr>"

definition SRC_ResetInstance :: "SRC_Env \<Rightarrow> nat \<Rightarrow> SRC_State \<Rightarrow> SRC_State option" where
  "SRC_ResetInstance env i st =
     (let st = upd_source i reset_fields st in
      if selected_source_index st = Some i then SRC_SelectSource env None st else Some st)"

definition SRC_SetRefid :: "nat \<Rightarrow> u32 \<Rightarrow> IPAddr option \<Rightarrow> SRC_State \<Rightarrow> SRC_State" where
  "SRC_SetRefid i id' addr = upd_source i (\<lambda>s. s\<lparr>src_ref_id := id', src_ip_addr := addr, stats := SST_SetRefid id' addr (stats s)\<rparr>)"

text \<open>
  \<open>memory\<close> is the allocated memory of the instance.  The code counts the instance in the table only after it is reset,
  which makes no difference: the new index is never the selected one, so the reset does not run the selection.
\<close>

definition SRC_CreateNewInstance :: "SRC_Env \<Rightarrow> SRC_Conf \<Rightarrow> SRC_Instance \<Rightarrow> u32 \<Rightarrow> SRC_Type \<Rightarrow> bool \<Rightarrow> u32 \<Rightarrow> IPAddr option \<Rightarrow>
    int \<Rightarrow> int \<Rightarrow> real \<Rightarrow> real \<Rightarrow> int \<Rightarrow> SRC_State \<Rightarrow> SRC_State option" where
  "SRC_CreateNewInstance env conf memory id' ty auth options addr min_s max_s min_delay asy max_unreach st =
     (let min_s = (if min_s = -1 then cnf_min_samples conf else min_s);
          max_s = (if max_s = -1 then cnf_max_samples conf else max_s);
          new = memory\<lparr>stats := SST_CreateInstance (stats memory) id' addr min_s max_s min_delay asy, src_type := ty, authenticated := auth,
            conf_sel_options := options, sel_options := options, max_unreachable_run := max_unreach, active := False\<rparr>;
          i = length (sources st);
          st = SRC_SetRefid i id' addr (st\<lparr>sources := sources st @ [new]\<rparr>) in
      map_option (update_sel_options env) (SRC_ResetInstance env i st))"

definition shift_index :: "nat \<Rightarrow> nat \<Rightarrow> nat" where
  "shift_index dead i = (if i > dead then i - 1 else i)"

definition SRC_DestroyInstance :: "SRC_Env \<Rightarrow> nat \<Rightarrow> SRC_State \<Rightarrow> SRC_State option" where
  "SRC_DestroyInstance env dead st =
     (let st = (if last_updated_inst st = Some dead then st\<lparr>last_updated_inst := None\<rparr> else st) in
      if \<not> dead < length (sources st) then None
      else
        let st = st\<lparr>sources := take dead (sources st) @ drop (dead + 1) (sources st),
              last_updated_inst := map_option (shift_index dead) (last_updated_inst st)\<rparr>;
            st = update_sel_options env st;
            st = (case selected_source_index st of
                Some sel \<Rightarrow> if sel > dead then st\<lparr>selected_source_index := Some (sel - 1)\<rparr>
                  else if sel = dead then unselect_selected_source env None st else st
              | None \<Rightarrow> st) in
        SRC_SelectSource env None st)"

text \<open>\<open>close\<close> is the result of \<open>REF_IsLeapSecondClose\<close>.\<close>

definition SRC_UpdateStatus :: "bool \<Rightarrow> nat \<Rightarrow> int \<Rightarrow> NTP_Leap \<Rightarrow> SRC_State \<Rightarrow> SRC_State" where
  "SRC_UpdateStatus close i new_stratum new_leap st =
     (let st = upd_source i (\<lambda>s. s\<lparr>stratum := new_stratum\<rparr>) st in
      if close then st
      else
        let st = upd_source i (\<lambda>s. s\<lparr>leap := new_leap\<rparr>) st in
        if leap_vote (sources st ! i) then emit (REF_UpdateLeapStatus (get_leap_status st)) st else st)"

definition SRC_AccumulateSample :: "bool \<Rightarrow> bool \<Rightarrow> real \<Rightarrow> nat \<Rightarrow> NTP_Sample \<Rightarrow> SRC_State \<Rightarrow> SRC_State option" where
  "SRC_AccumulateSample kf close precision i sample st =
     (if close then Some st
      else map_option (\<lambda>inst. upd_source i (\<lambda>s. s\<lparr>stats := inst\<rparr>) st)
        (Option.bind (SST_AccumulateSample sample (stats (sources st ! i))) (SST_DoNewRegression kf precision)))"

definition SRC_SetActive :: "nat \<Rightarrow> SRC_State \<Rightarrow> SRC_State" where
  "SRC_SetActive i = upd_source i (\<lambda>s. s\<lparr>active := True\<rparr>)"

definition SRC_UnsetActive :: "nat \<Rightarrow> SRC_State \<Rightarrow> SRC_State" where
  "SRC_UnsetActive i = upd_source i (\<lambda>s. s\<lparr>active := False\<rparr>)"

definition special_mode_end :: "SRC_State \<Rightarrow> bool" where
  "special_mode_end st = list_all (\<lambda>s. \<not> active s \<or> reachability_size s \<ge> SOURCE_REACH_BITS - 1 \<or>
     \<not> SOURCE_REACH_BITS - 1 - reachability_size s + n_samples (stats s) \<ge> MIN_SAMPLES_FOR_REGRESS) (sources st)"

text \<open>The part of the update of reachability that is on the instance.\<close>

definition shift_reachability :: "bool \<Rightarrow> SRC_Instance \<Rightarrow> SRC_Instance" where
  "shift_reachability reachable s =
     (let reach = (reachability s * 2 + (if reachable then 1 else 0)) mod 2 ^ SOURCE_REACH_BITS in
      s\<lparr>reachability := reach,
        reachability_size := (if reachability_size s < SOURCE_REACH_BITS then reachability_size s + 1 else reachability_size s),
        unreachable_run := (if reach = 0 then if unreachable_run s < SRC_INT_MAX then unreachable_run s + 1 else unreachable_run s else 0)\<rparr>)"

definition SRC_UpdateReachability :: "SRC_Env \<Rightarrow> nat \<Rightarrow> bool \<Rightarrow> SRC_State \<Rightarrow> SRC_State option" where
  "SRC_UpdateReachability env i reachable st =
     (let st = upd_source i (shift_reachability reachable) st;
          st = (if \<not> normal_mode env \<and> special_mode_end st then emit REF_SetUnsynchronised st else st);
          s = sources st ! i;
          st = (if reachability s = 0 \<and> reachability_size s = SOURCE_REACH_BITS then handle_bad_source i st else st) in
      if reachability s = 0 then SRC_SelectSource env None st else Some st)"

definition SRC_ResetReachability :: "SRC_Env \<Rightarrow> nat \<Rightarrow> SRC_State \<Rightarrow> SRC_State option" where
  "SRC_ResetReachability env i st =
     SRC_UpdateReachability env i False (upd_source i (\<lambda>s. s\<lparr>reachability := 0, reachability_size := 0, unreachable_run := 0\<rparr>) st)"

definition SRC_ReselectSource :: "SRC_Env \<Rightarrow> SRC_State \<Rightarrow> SRC_State option" where
  "SRC_ReselectSource env st = SRC_SelectSource env None (st\<lparr>selected_source_index := None\<rparr>)"

definition SRC_SetReselectDistance :: "real \<Rightarrow> SRC_State \<Rightarrow> SRC_State" where
  "SRC_SetReselectDistance distance st = (if reselect_distance st \<noteq> distance then st\<lparr>reselect_distance := distance\<rparr> else st)"

text \<open>The change of the clock: an unknown step, or an adjustment at the cooked time.\<close>

definition slew_sources :: "SRC_Env \<Rightarrow> timespec \<Rightarrow> real \<Rightarrow> real \<Rightarrow> bool \<Rightarrow> SRC_State \<Rightarrow> SRC_State option" where
  "slew_sources env cooked dfreq doffset unknown_step st =
     (let st = st\<lparr>sources := map (\<lambda>s. s\<lparr>stats :=
            (if unknown_step then SST_ResetInstance (stats s) else SST_SlewSamples cooked dfreq doffset (stats s))\<rparr>) (sources st)\<rparr> in
      if unknown_step then SRC_SelectSource env None st else Some st)"

definition add_dispersion :: "real \<Rightarrow> SRC_State \<Rightarrow> SRC_State" where
  "add_dispersion dispersion st = st\<lparr>sources := map (\<lambda>s. s\<lparr>stats := SST_AddDispersion dispersion (stats s)\<rparr>) (sources st)\<rparr>"

definition SRC_ResetSources :: "SRC_Env \<Rightarrow> SRC_State \<Rightarrow> SRC_State option" where
  "SRC_ResetSources env st = for_each (SRC_ResetInstance env) [0..<length (sources st)] st"

section \<open>Dump files\<close>

text \<open>The values of a dump file after its identifier.\<close>

record DumpFile =
  df_name :: string
  df_auth :: bool
  df_reach :: nat
  df_reach_size :: int
  df_stratum :: int
  df_leap :: int
  df_samples :: "int \<times> saved_sample list"

definition leap_value :: "NTP_Leap \<Rightarrow> int" where
  "leap_value l = (case l of LEAP_Normal \<Rightarrow> 0 | LEAP_InsertSecond \<Rightarrow> 1 | LEAP_DeleteSecond \<Rightarrow> 2 | LEAP_Unsynchronised \<Rightarrow> 3)"

definition leap_of_value :: "int \<Rightarrow> NTP_Leap" where
  "leap_of_value v = (if v = 0 then LEAP_Normal else if v = 1 then LEAP_InsertSecond else if v = 2 then LEAP_DeleteSecond else LEAP_Unsynchronised)"

definition has_dumpfile :: "SRC_Instance \<Rightarrow> bool" where
  "has_dumpfile s = (case src_type s of SRC_NTP \<Rightarrow> (case src_ip_addr s of Some ip \<Rightarrow> UTI_IsIPReal ip | None \<Rightarrow> False) | SRC_REFCLOCK \<Rightarrow> True)"

text \<open>\<open>name\<close> is the configured name of the source of an address (\<open>NSR_GetName\<close>); \<open>None\<close> is no file.\<close>

definition save_source :: "(IPAddr option \<Rightarrow> string option) \<Rightarrow> SRC_Instance \<Rightarrow> DumpFile option" where
  "save_source name s =
     (if \<not> has_dumpfile s then None
      else Option.bind (if src_type s = SRC_NTP then name (src_ip_addr s) else Some ''.'') (\<lambda>nm.
        map_option (\<lambda>samples. \<lparr>df_name = nm, df_auth = authenticated s, df_reach = reachability s, df_reach_size = int (reachability_size s),
            df_stratum = stratum s, df_leap = leap_value (leap s), df_samples = samples\<rparr>)
          (SST_SaveToFile (stats s))))"

definition SRC_DumpSources :: "(IPAddr option \<Rightarrow> string option) \<Rightarrow> SRC_State \<Rightarrow> DumpFile option list" where
  "SRC_DumpSources name st = map (save_source name) (sources st)"

definition load_source :: "bool \<Rightarrow> (IPAddr option \<Rightarrow> string option) \<Rightarrow> real \<Rightarrow> int \<Rightarrow> timespec \<Rightarrow> DumpFile option \<Rightarrow> SRC_Instance \<Rightarrow> SRC_Instance option" where
  "load_source kf name precision era_split now file s = (case (if has_dumpfile s then file else None) of
     None \<Rightarrow> Some s
   | Some f \<Rightarrow>
       if src_type s = SRC_NTP \<and> name (src_ip_addr s) \<noteq> Some (df_name f) \<or> \<not> df_auth f \<and> authenticated s \<or>
          df_stratum f < 0 \<or> df_stratum f \<ge> 16 \<or> df_leap f < 0 \<or> df_leap f \<ge> 3 then Some s
       else map_option (\<lambda>(loaded, inst).
           if loaded then s\<lparr>stats := inst, reachability := df_reach f mod 2 ^ SOURCE_REACH_BITS,
             reachability_size := nat (CLAMP 0 (df_reach_size f) (int SOURCE_REACH_BITS)), stratum := df_stratum f, leap := leap_of_value (df_leap f)\<rparr>
           else s\<lparr>stats := inst\<rparr>)
         (SST_LoadFromFile kf precision era_split now (df_samples f) (stats s)))"

definition SRC_ReloadSources :: "bool \<Rightarrow> SRC_Env \<Rightarrow> (IPAddr option \<Rightarrow> string option) \<Rightarrow> real \<Rightarrow> int \<Rightarrow> timespec \<Rightarrow> (nat \<Rightarrow> DumpFile option) \<Rightarrow> SRC_State \<Rightarrow> SRC_State option" where
  "SRC_ReloadSources kf env name precision era_split now files st =
     Option.bind (for_each (\<lambda>i st. map_option (\<lambda>s. upd_source i (\<lambda>_. s\<lparr>updates := updates s + 1\<rparr>) st)
         (load_source kf name precision era_split now (files i) (sources st ! i))) [0..<length (sources st)] st)
       (SRC_SelectSource env None)"

section \<open>Reports and options\<close>

definition SRC_IsSyncPeer :: "nat \<Rightarrow> SRC_State \<Rightarrow> bool" where
  "SRC_IsSyncPeer i st \<longleftrightarrow> selected_source_index st = Some i"

definition SRC_IsReachable :: "nat \<Rightarrow> SRC_State \<Rightarrow> bool" where
  "SRC_IsReachable i st \<longleftrightarrow> reachability (sources st ! i) \<noteq> 0"

definition SRC_ActiveSources :: "SRC_State \<Rightarrow> nat" where
  "SRC_ActiveSources st = length (filter active (sources st))"

definition find_source :: "IPAddr \<Rightarrow> u32 \<Rightarrow> SRC_State \<Rightarrow> nat option" where
  "find_source ip id' st = List.find (\<lambda>i. let s = sources st ! i in
       ip \<noteq> IPADDR_UNSPEC \<and> src_type s = SRC_NTP \<and> (case src_ip_addr s of Some b \<Rightarrow> UTI_CompareIPs ip b None = 0 | None \<Rightarrow> False) \<or>
       ip = IPADDR_UNSPEC \<and> src_type s = SRC_REFCLOCK \<and> id' = src_ref_id s) [0..<length (sources st)]"

definition SRC_ModifySelectOptions :: "SRC_Env \<Rightarrow> IPAddr \<Rightarrow> u32 \<Rightarrow> u32 \<Rightarrow> u32 \<Rightarrow> SRC_State \<Rightarrow> bool \<times> SRC_State" where
  "SRC_ModifySelectOptions env ip id' options msk st = (case find_source ip id' st of
     None \<Rightarrow> (False, st)
   | Some i \<Rightarrow>
       if conf_sel_options (sources st ! i) AND msk = options then (True, st)
       else (True, update_sel_options env (upd_source i (\<lambda>s. s\<lparr>conf_sel_options := (conf_sel_options s AND NOT msk) OR options\<rparr>) st)))"

datatype RPT_State = RPT_NONSELECTABLE | RPT_FALSETICKER | RPT_JITTERY | RPT_SELECTABLE | RPT_UNSELECTED | RPT_SELECTED

definition report_state :: "SRC_Status \<Rightarrow> RPT_State" where
  "report_state st = (case st of
     SRC_FALSETICKER \<Rightarrow> RPT_FALSETICKER
   | SRC_JITTERY \<Rightarrow> RPT_JITTERY
   | SRC_WAITS_SOURCES \<Rightarrow> RPT_SELECTABLE | SRC_NONPREFERRED \<Rightarrow> RPT_SELECTABLE | SRC_WAITS_UPDATE \<Rightarrow> RPT_SELECTABLE
   | SRC_DISTANT \<Rightarrow> RPT_SELECTABLE | SRC_OUTLIER \<Rightarrow> RPT_SELECTABLE
   | SRC_UNSELECTED \<Rightarrow> RPT_UNSELECTED
   | SRC_SELECTED \<Rightarrow> RPT_SELECTED
   | _ \<Rightarrow> RPT_NONSELECTABLE)"

definition get_status_char :: "SRC_Status \<Rightarrow> char" where
  "get_status_char st = (case st of
     SRC_UNSELECTABLE \<Rightarrow> CHR ''N'' | SRC_BAD_STATS \<Rightarrow> CHR ''M'' | SRC_UNSYNCHRONISED \<Rightarrow> CHR ''s'' | SRC_BAD_STRATUM \<Rightarrow> CHR ''r''
   | SRC_BAD_DISTANCE \<Rightarrow> CHR ''d'' | SRC_JITTERY \<Rightarrow> CHR ''~'' | SRC_WAITS_STATS \<Rightarrow> CHR ''w'' | SRC_STALE \<Rightarrow> CHR ''S''
   | SRC_ORPHAN \<Rightarrow> CHR ''O'' | SRC_UNTRUSTED \<Rightarrow> CHR ''T'' | SRC_FALSETICKER \<Rightarrow> CHR ''x'' | SRC_WAITS_SOURCES \<Rightarrow> CHR ''W''
   | SRC_NONPREFERRED \<Rightarrow> CHR ''P'' | SRC_WAITS_UPDATE \<Rightarrow> CHR ''U'' | SRC_DISTANT \<Rightarrow> CHR ''D'' | SRC_OUTLIER \<Rightarrow> CHR ''L''
   | SRC_UNSELECTED \<Rightarrow> CHR ''+'' | SRC_SELECTED \<Rightarrow> CHR ''*'' | SRC_OK \<Rightarrow> CHR ''?'')"

text \<open>The address (the reference ID of a reference clock), the stratum, the state, the reachability and the values of the statistics.\<close>

definition SRC_ReportSource :: "int \<Rightarrow> timespec \<Rightarrow> SRC_State \<Rightarrow> (IPAddr \<times> int \<times> RPT_State \<times> nat \<times> RPT_SourceReport) option" where
  "SRC_ReportSource index now st =
     (if index \<ge> int (length (sources st)) \<or> index < 0 then None
      else
        let s = sources st ! nat index;
            report = SST_DoSourceReport now (stats s) in
        Some (case src_ip_addr s of Some ip \<Rightarrow> ip | None \<Rightarrow> IPADDR_INET4 (src_ref_id s),
          case rpt_stratum report of Some n \<Rightarrow> n | None \<Rightarrow> stratum s, report_state (status s), reachability s, report))"

definition SRC_ReportSourcestats :: "int \<Rightarrow> timespec \<Rightarrow> SRC_State \<Rightarrow> (u32 \<times> IPAddr option \<times> RPT_SourcestatsReport) option" where
  "SRC_ReportSourcestats index now st =
     (if index \<ge> int (length (sources st)) \<or> index < 0 then None
      else let s = sources st ! nat index in Some (src_ref_id s, src_ip_addr s, SST_DoSourcestatsReport now (stats s)))"

text \<open>The age of the last sample is an unsigned integer in the report; the conversion of the double to it is truncation.\<close>

record RPT_SelectReport =
  rs_ref_id :: u32
  rs_ip_addr :: "IPAddr option"
  rs_state_char :: char
  rs_authentication :: bool
  rs_leap :: NTP_Leap
  rs_conf_options :: u32
  rs_eff_options :: u32
  rs_last_sample_ago :: int
  rs_score :: real
  rs_lo_limit :: real
  rs_hi_limit :: real

definition SRC_GetSelectReport :: "int \<Rightarrow> SRC_State \<Rightarrow> RPT_SelectReport option" where
  "SRC_GetSelectReport index st =
     (if index \<ge> int (length (sources st)) \<or> index < 0 then None
      else
        let s = sources st ! nat index in
        Some \<lparr>rs_ref_id = src_ref_id s, rs_ip_addr = src_ip_addr s, rs_state_char = get_status_char (status s), rs_authentication = authenticated s,
              rs_leap = leap s, rs_conf_options = conf_sel_options s, rs_eff_options = sel_options s,
              rs_last_sample_ago = c_trunc (si_last_sample_ago (sel_info s)), rs_score = sel_score s, rs_lo_limit = lo_limit (sel_info s),
              rs_hi_limit = hi_limit (sel_info s)\<rparr>)"

end
