(* ===== verification/SourceSelection.thy ===== *)
theory SourceSelection
  imports Sources
begin

text \<open>
  The selection of sources is correct.  The search of \<open>SRC_SelectSource\<close> for the interval that is in the most
  intervals of the sources is compared with the numbers of intervals that cover each point; then
  the parts of the function are followed with an invariant of the table of sources.
\<close>

section \<open>The search for the interval\<close>

text \<open>
  The laws of the endpoints: each source of a finite set has an endpoint of each kind in a sorted list.  The
  sort may leave equal elements in any order.
\<close>

definition low_end :: "(nat \<Rightarrow> SelectInfo) \<Rightarrow> nat \<Rightarrow> Sort_Element" where
  "low_end si i = \<lparr>se_index = i, se_offset = lo_limit (si i), se_tag = LOW\<rparr>"

definition high_end :: "(nat \<Rightarrow> SelectInfo) \<Rightarrow> nat \<Rightarrow> Sort_Element" where
  "high_end si i = \<lparr>se_index = i, se_offset = hi_limit (si i), se_tag = HIGH\<rparr>"

definition cover :: "(nat \<Rightarrow> SelectInfo) \<Rightarrow> nat set \<Rightarrow> real \<Rightarrow> nat set" where
  "cover si S x = {i \<in> S. lo_limit (si i) \<le> x \<and> x \<le> hi_limit (si i)}"

definition open_at :: "(nat \<Rightarrow> SelectInfo) \<Rightarrow> nat set \<Rightarrow> Sort_Element list \<Rightarrow> nat set" where
  "open_at si S p = {i \<in> S. low_end si i \<in> set p \<and> high_end si i \<notin> set p}"

locale endpoint_list =
  fixes si :: "nat \<Rightarrow> SelectInfo" and S :: "nat set" and es :: "Sort_Element list" and trusted :: "nat \<Rightarrow> bool"
  assumes finite_S: "finite S"
    and intervals: "i \<in> S \<Longrightarrow> lo_limit (si i) \<le> hi_limit (si i)"
    and elements: "set es = low_end si ` S \<union> high_end si ` S"
    and distinct_es: "distinct es"
    and sorted_es: "sorted_wrt (\<lambda>a b. compare_sort_elements a b \<le> 0) es"
begin

lemma ends_inject [simp]:
  "low_end si i = low_end si j \<longleftrightarrow> i = j" "high_end si i = high_end si j \<longleftrightarrow> i = j"
  "low_end si i \<noteq> high_end si j" "high_end si j \<noteq> low_end si i"
  by (auto simp: low_end_def high_end_def)

lemma before: "es = p @ q \<Longrightarrow> a \<in> set p \<Longrightarrow> b \<in> set q \<Longrightarrow> compare_sort_elements a b \<le> 0"
  using sorted_es by (auto simp: sorted_wrt_append)

lemma compare_ends:
  "compare_sort_elements (low_end si i) (low_end si j) \<le> 0 \<longleftrightarrow> lo_limit (si i) \<le> lo_limit (si j)"
  "compare_sort_elements (low_end si i) (high_end si j) \<le> 0 \<longleftrightarrow> lo_limit (si i) \<le> hi_limit (si j)"
  "compare_sort_elements (high_end si i) (low_end si j) \<le> 0 \<longleftrightarrow> hi_limit (si i) < lo_limit (si j)"
  "compare_sort_elements (high_end si i) (high_end si j) \<le> 0 \<longleftrightarrow> hi_limit (si i) \<le> hi_limit (si j)"
  by (auto simp: compare_sort_elements_def low_end_def high_end_def tag_value_def)

lemma low_first:
  assumes "es = p @ q" "i \<in> S" "high_end si i \<in> set p"
  shows "low_end si i \<in> set p"
proof (rule ccontr)
  assume "low_end si i \<notin> set p"
  then have "low_end si i \<in> set q" using assms(1,2) elements by auto
  then show False using before [OF assms(1,3)] intervals [OF assms(2)] by (fastforce simp: compare_ends)
qed

lemma element_cases:
  assumes "e \<in> set es"
  obtains i where "i \<in> S" "e = low_end si i" | i where "i \<in> S" "e = high_end si i"
  using assms elements by auto

lemma finite_open [simp]: "finite (open_at si S p)"
  using finite_S by (simp add: open_at_def)

lemma open_low:
  assumes "es = p @ low_end si i # q" "i \<in> S"
  shows "i \<notin> open_at si S p" "open_at si S (p @ [low_end si i]) = insert i (open_at si S p)"
proof -
  have n: "low_end si i \<notin> set p" using assms(1) distinct_es by simp
  then show "i \<notin> open_at si S p" by (simp add: open_at_def)
  have "high_end si i \<notin> set p" using low_first [OF assms] n by blast
  then show "open_at si S (p @ [low_end si i]) = insert i (open_at si S p)" using assms(2) by (auto simp: open_at_def)
qed

lemma open_high:
  assumes "es = p @ high_end si i # q" "i \<in> S"
  shows "i \<in> open_at si S p" "open_at si S (p @ [high_end si i]) = open_at si S p - {i}"
proof -
  have n: "high_end si i \<notin> set p" using assms(1) distinct_es by simp
  have "es = (p @ [high_end si i]) @ q" using assms(1) by simp
  from low_first [OF this assms(2)] have "low_end si i \<in> set p" by simp
  then show "i \<in> open_at si S p" using n assms(2) by (simp add: open_at_def)
  show "open_at si S (p @ [high_end si i]) = open_at si S p - {i}" by (auto simp: open_at_def)
qed

text \<open>The sources that are open after an endpoint are those that cover a point, and conversely.\<close>

lemma open_covers:
  assumes "es = p @ low_end si i # q" "i \<in> S"
  shows "open_at si S (p @ [low_end si i]) \<subseteq> cover si S (lo_limit (si i))"
proof
  fix j assume j: "j \<in> open_at si S (p @ [low_end si i])"
  then have S: "j \<in> S" and low: "low_end si j \<in> set (p @ [low_end si i])" and high: "high_end si j \<notin> set (p @ [low_end si i])"
    by (auto simp: open_at_def)
  have "lo_limit (si j) \<le> lo_limit (si i)"
    using low before [of p "low_end si i # q" "low_end si j" "low_end si i"] assms(1) by (auto simp: compare_ends)
  moreover have "lo_limit (si i) \<le> hi_limit (si j)"
  proof -
    have "high_end si j \<in> set es" using S elements by simp
    then have "high_end si j \<in> set q" using high assms(1) by auto
    then show ?thesis using assms(1) before [of "p @ [low_end si i]" q "low_end si i" "high_end si j"] by (simp add: compare_ends)
  qed
  ultimately show "j \<in> cover si S (lo_limit (si i))" using S by (simp add: cover_def)
qed

definition before_point :: "real \<Rightarrow> Sort_Element \<Rightarrow> bool" where
  "before_point x e \<longleftrightarrow> se_offset e < x \<or> se_offset e = x \<and> se_tag e = LOW"

lemma before_point_mono: "compare_sort_elements a b \<le> 0 \<Longrightarrow> before_point x b \<Longrightarrow> before_point x a"
  by (auto simp: before_point_def compare_sort_elements_def tag_value_def split: if_splits tag.splits)

lemma covered_open: "\<exists>p q. es = p @ q \<and> open_at si S p = cover si S x"
proof -
  let ?p = "takeWhile (before_point x) es" and ?q = "dropWhile (before_point x) es"
  have e: "es = ?p @ ?q" by simp
  have q: "\<not> before_point x b" if "b \<in> set ?q" for b
  proof -
    from that obtain c r where r: "?q = c # r" by (cases ?q) auto
    then have c: "\<not> before_point x c" using hd_dropWhile [of "before_point x" es] by auto
    have "sorted_wrt (\<lambda>a b. compare_sort_elements a b \<le> 0) (c # r)" using sorted_es e r by (metis sorted_wrt_append)
    with that r c before_point_mono show ?thesis by auto
  qed
  have "low_end si i \<in> set ?p \<longleftrightarrow> before_point x (low_end si i)" "high_end si i \<in> set ?p \<longleftrightarrow> before_point x (high_end si i)" if "i \<in> S" for i
    using that elements q e set_takeWhileD [of _ "before_point x" es] by (metis Un_iff image_eqI set_append)+
  then have "open_at si S ?p = cover si S x" by (auto simp: open_at_def cover_def before_point_def low_end_def high_end_def)
  with e show ?thesis by blast
qed

text \<open>The numbers of open sources, trusted ones first, and their order.\<close>

definition level :: "Sort_Element list \<Rightarrow> int \<times> int" where
  "level p = (int (card {i \<in> open_at si S p. trusted i}), int (card (open_at si S p)))"

definition lex_le :: "int \<times> int \<Rightarrow> int \<times> int \<Rightarrow> bool" where
  "lex_le a b \<longleftrightarrow> fst a < fst b \<or> fst a = fst b \<and> snd a \<le> snd b"

lemma level_low:
  assumes "es = p @ low_end si i # q" "i \<in> S"
  shows "level (p @ [low_end si i]) = (if trusted i then fst (level p) + 1 else fst (level p), snd (level p) + 1)"
proof -
  note o = open_low [OF assms]
  have "{j \<in> insert i (open_at si S p). trusted j} = (if trusted i then insert i {j \<in> open_at si S p. trusted j} else {j \<in> open_at si S p. trusted j})" by auto
  then show ?thesis using o by (simp add: level_def)
qed

lemma level_high:
  assumes "es = p @ high_end si i # q" "i \<in> S"
  shows "level (p @ [high_end si i]) = (if trusted i then fst (level p) - 1 else fst (level p), snd (level p) - 1)"
proof -
  note o = open_high [OF assms]
  have t: "{j \<in> open_at si S p - {i}. trusted j} = (if trusted i then {j \<in> open_at si S p. trusted j} - {i} else {j \<in> open_at si S p. trusted j})" by auto
  have "int (card (A - {i})) = int (card A) - 1" if "i \<in> A" "finite A" for A :: "nat set"
  proof -
    have "0 < card A" using that by (auto simp: card_gt_0_iff)
    then show ?thesis using that by (simp add: card_Diff_singleton of_nat_diff)
  qed
  then show ?thesis using o t by (simp add: level_def)
qed

lemma level_ok: "0 \<le> fst (level p)" "fst (level p) \<le> snd (level p)"
  by (auto simp: level_def intro: card_mono)

definition swept :: "Sort_Element list \<Rightarrow> Sweep \<Rightarrow> bool" where
  "swept p w \<longleftrightarrow> (trust_depth w, depth w) = level p \<and>
     (\<forall>p' q. p = p' @ q \<longrightarrow> lex_le (level p') (best_trust_depth w, best_depth w)) \<and>
     (if p = [] then (best_trust_depth w, best_depth w) = (0, 0)
      else \<exists>p' i q. p = p' @ low_end si i # q \<and> i \<in> S \<and> best_lo w = lo_limit (si i) \<and> (best_trust_depth w, best_depth w) = level (p' @ [low_end si i]))"

lemma sweep_low:
  assumes "se_tag e = LOW" "t = (if trusted (se_index e) then trust_depth w + 1 else trust_depth w)" "d = depth w + 1" "0 \<le> t" "t \<le> d"
  obtains w' where "sweep_step trusted e w = Some w'" "trust_depth w' = t" "depth w' = d"
    "(best_trust_depth w', best_depth w') = (if lex_le (t, d) (best_trust_depth w, best_depth w) then (best_trust_depth w, best_depth w) else (t, d))"
    "best_lo w' = (if lex_le (t, d) (best_trust_depth w, best_depth w) then best_lo w else se_offset e)"
proof -
  have "\<exists>w'. sweep_step trusted e w = Some w' \<and> trust_depth w' = t \<and> depth w' = d \<and>
    (best_trust_depth w', best_depth w') = (if lex_le (t, d) (best_trust_depth w, best_depth w) then (best_trust_depth w, best_depth w) else (t, d)) \<and>
    best_lo w' = (if lex_le (t, d) (best_trust_depth w, best_depth w) then best_lo w else se_offset e)"
    using assms by (auto simp: sweep_step_def Let_def lex_le_def)
  then show thesis using that by blast
qed

lemma sweep_high:
  assumes "se_tag e = HIGH" "t = (if trusted (se_index e) then trust_depth w - 1 else trust_depth w)" "d = depth w - 1" "0 \<le> t" "t \<le> d"
  obtains w' where "sweep_step trusted e w = Some w'" "trust_depth w' = t" "depth w' = d"
    "best_trust_depth w' = best_trust_depth w" "best_depth w' = best_depth w" "best_lo w' = best_lo w"
proof -
  have "\<exists>w'. sweep_step trusted e w = Some w' \<and> trust_depth w' = t \<and> depth w' = d \<and>
    best_trust_depth w' = best_trust_depth w \<and> best_depth w' = best_depth w \<and> best_lo w' = best_lo w"
    using assms by (auto simp: sweep_step_def Let_def)
  then show thesis using that by blast
qed

lemma lex_le_trans: "lex_le a b \<Longrightarrow> lex_le b c \<Longrightarrow> lex_le a c"
  by (auto simp: lex_le_def)

lemma lex_le_total: "lex_le a b \<or> lex_le b a" and lex_le_refl: "lex_le a a"
  by (auto simp: lex_le_def)

lemma prefix_snoc: "(\<forall>p' q. p @ [e] = p' @ q \<longrightarrow> P p') \<longleftrightarrow> P (p @ [e]) \<and> (\<forall>p' q. p = p' @ q \<longrightarrow> P p')"
proof (intro iffI conjI allI impI)
  fix p' q assume "P (p @ [e]) \<and> (\<forall>p' q. p = p' @ q \<longrightarrow> P p')" "p @ [e] = p' @ q"
  then show "P p'" by (cases q rule: rev_cases) auto
next
  fix p' q assume "\<forall>p' q. p @ [e] = p' @ q \<longrightarrow> P p'" "p = p' @ q"
  then show "P p'" by (metis append.assoc)
qed auto

lemma swept_low:
  assumes "es = p @ low_end si i # q" "i \<in> S" "swept p w"
  shows "\<exists>w'. sweep_step trusted (low_end si i) w = Some w' \<and> swept (p @ [low_end si i]) w'"
proof -
  let ?e = "low_end si i"
  have e: "se_tag ?e = LOW" "se_index ?e = i" "se_offset ?e = lo_limit (si i)" by (simp_all add: low_end_def)
  have l: "level (p @ [?e]) = (if trusted i then trust_depth w + 1 else trust_depth w, depth w + 1)"
    using level_low [OF assms(1,2)] assms(3) unfolding swept_def by (metis fst_conv snd_conv)
  have lo: "0 \<le> fst (level (p @ [?e]))" "fst (level (p @ [?e])) \<le> snd (level (p @ [?e]))" by (rule level_ok)+
  obtain w' where w': "sweep_step trusted ?e w = Some w'" "trust_depth w' = fst (level (p @ [?e]))" "depth w' = snd (level (p @ [?e]))"
    "(best_trust_depth w', best_depth w') = (if lex_le (level (p @ [?e])) (best_trust_depth w, best_depth w) then (best_trust_depth w, best_depth w) else level (p @ [?e]))"
    "best_lo w' = (if lex_le (level (p @ [?e])) (best_trust_depth w, best_depth w) then best_lo w else lo_limit (si i))"
    by (rule sweep_low [where e = ?e and w = w and t = "fst (level (p @ [?e]))" and d = "snd (level (p @ [?e]))"]) (use l lo e in simp_all)
  have "lex_le (level p') (best_trust_depth w', best_depth w')" if "p = p' @ r" for p' r
  proof -
    have "lex_le (level p') (best_trust_depth w, best_depth w)" using assms(3) that unfolding swept_def by blast
    then have old: "lex_le (level p') (best_trust_depth w, best_depth w)" .
    show ?thesis
    proof (cases "lex_le (level (p @ [?e])) (best_trust_depth w, best_depth w)")
      case True
      then show ?thesis using old w'(4) by simp
    next
      case False
      then have "lex_le (best_trust_depth w, best_depth w) (level (p @ [?e]))" using lex_le_total by blast
      then show ?thesis using False old w'(4) lex_le_trans by simp
    qed
  qed
  moreover have "lex_le (level (p @ [?e])) (best_trust_depth w', best_depth w')" using w'(4) lex_le_refl by simp
  ultimately have all: "\<forall>p' q. p @ [?e] = p' @ q \<longrightarrow> lex_le (level p') (best_trust_depth w', best_depth w')"
    unfolding prefix_snoc [of p ?e "\<lambda>p'. lex_le (level p') (best_trust_depth w', best_depth w')"] by blast
  have "\<exists>p' j r. p @ [?e] = p' @ low_end si j # r \<and> j \<in> S \<and> best_lo w' = lo_limit (si j) \<and> (best_trust_depth w', best_depth w') = level (p' @ [low_end si j])"
  proof (cases "lex_le (level (p @ [?e])) (best_trust_depth w, best_depth w)")
    case False
    then show ?thesis using w'(4,5) assms(2) by (intro exI [of _ p] exI [of _ i] exI [of _ "[]"]) simp
  next
    case True
    have "p \<noteq> []"
    proof
      assume "p = []"
      then have "best_trust_depth w = 0" "best_depth w = 0" "fst (level p) = 0" "snd (level p) = 0"
        using assms(3) by (auto simp: swept_def level_def open_at_def)
      then show False using True level_low [OF assms(1,2)] by (auto simp: lex_le_def split: if_splits)
    qed
    then obtain p' j r where "p = p' @ low_end si j # r" "j \<in> S" "best_lo w = lo_limit (si j)" "(best_trust_depth w, best_depth w) = level (p' @ [low_end si j])"
      using assms(3) unfolding swept_def by auto
    then show ?thesis using w'(4,5) True by (intro exI [of _ p'] exI [of _ j] exI [of _ "r @ [?e]"]) simp
  qed
  then show ?thesis using w'(1-3) all by (intro exI [of _ w']) (simp add: swept_def)
qed

lemma swept_high:
  assumes "es = p @ high_end si i # q" "i \<in> S" "swept p w"
  shows "\<exists>w'. sweep_step trusted (high_end si i) w = Some w' \<and> swept (p @ [high_end si i]) w'"
proof -
  let ?e = "high_end si i"
  have e: "se_tag ?e = HIGH" "se_index ?e = i" by (simp_all add: high_end_def)
  have l: "level (p @ [?e]) = (if trusted i then trust_depth w - 1 else trust_depth w, depth w - 1)"
    using level_high [OF assms(1,2)] assms(3) unfolding swept_def by (metis fst_conv snd_conv)
  have lo: "0 \<le> fst (level (p @ [?e]))" "fst (level (p @ [?e])) \<le> snd (level (p @ [?e]))" by (rule level_ok)+
  obtain w' where w': "sweep_step trusted ?e w = Some w'" "trust_depth w' = fst (level (p @ [?e]))" "depth w' = snd (level (p @ [?e]))"
    "best_trust_depth w' = best_trust_depth w" "best_depth w' = best_depth w" "best_lo w' = best_lo w"
    by (rule sweep_high [where e = ?e and w = w and t = "fst (level (p @ [?e]))" and d = "snd (level (p @ [?e]))"]) (use l lo e in simp_all)
  have p: "lex_le (level p) (best_trust_depth w, best_depth w)" "level p = (trust_depth w, depth w)" using assms(3) by (auto simp: swept_def)
  then have "lex_le (level (p @ [?e])) (best_trust_depth w, best_depth w)" unfolding l by (auto simp: lex_le_def split: if_splits)
  moreover have "\<forall>p' q. p = p' @ q \<longrightarrow> lex_le (level p') (best_trust_depth w, best_depth w)" using assms(3) unfolding swept_def by blast
  ultimately have all: "\<forall>p' q. p @ [?e] = p' @ q \<longrightarrow> lex_le (level p') (best_trust_depth w', best_depth w')"
    unfolding w'(4,5) by (intro iffD2 [OF prefix_snoc [of p ?e "\<lambda>p'. lex_le (level p') (best_trust_depth w, best_depth w)"]] conjI)
  have "p \<noteq> []" using open_high(1) [OF assms(1,2)] by (auto simp: open_at_def)
  then obtain p' j r where "p = p' @ low_end si j # r" "j \<in> S" "best_lo w = lo_limit (si j)" "(best_trust_depth w, best_depth w) = level (p' @ [low_end si j])"
    using assms(3) unfolding swept_def by auto
  then have "\<exists>p' j r. p @ [?e] = p' @ low_end si j # r \<and> j \<in> S \<and> best_lo w' = lo_limit (si j) \<and> (best_trust_depth w', best_depth w') = level (p' @ [low_end si j])"
    using w' by (intro exI [of _ p'] exI [of _ j] exI [of _ "r @ [?e]"]) simp
  then show ?thesis using w'(1-3) all by (intro exI [of _ w']) (simp add: swept_def)
qed

lemma sweep_from:
  assumes "es = p @ q" "swept p w"
  shows "\<exists>w'. for_each (sweep_step trusted) q w = Some w' \<and> swept es w'"
  using assms
proof (induction q arbitrary: p w)
  case (Cons e q)
  have "e \<in> set es" using Cons.prems(1) by simp
  then have "\<exists>w'. sweep_step trusted e w = Some w' \<and> swept (p @ [e]) w'"
    by (rule element_cases) (use Cons.prems swept_low swept_high in blast)+
  then obtain w' where "sweep_step trusted e w = Some w'" "swept (p @ [e]) w'" by blast
  then show ?case using Cons.IH [of "p @ [e]" w'] Cons.prems(1) by simp
qed simp

lemma swept_empty: "swept [] empty_sweep"
  by (auto simp: swept_def empty_sweep_def level_def open_at_def lex_le_def)

text \<open>The number of trusted sources and of all sources that cover a point.\<close>

definition cover_level :: "real \<Rightarrow> int \<times> int" where
  "cover_level x = (int (card {i \<in> cover si S x. trusted i}), int (card (cover si S x)))"

lemma sweep_best:
  assumes "es \<noteq> []"
  obtains w i where "for_each (sweep_step trusted) es empty_sweep = Some w" "depth w = 0" "trust_depth w = 0"
    "i \<in> S" "best_lo w = lo_limit (si i)" "(best_trust_depth w, best_depth w) = cover_level (best_lo w)"
    "\<And>x. lex_le (cover_level x) (best_trust_depth w, best_depth w)"
proof -
  from sweep_from [of "[]" es empty_sweep] swept_empty obtain w where w: "for_each (sweep_step trusted) es empty_sweep = Some w" "swept es w" by auto
  have "open_at si S es = {}" using elements by (auto simp: open_at_def)
  then have d: "depth w = 0" "trust_depth w = 0" using w(2) by (auto simp: swept_def level_def)
  have max: "lex_le (cover_level x) (best_trust_depth w, best_depth w)" for x
  proof -
    from covered_open [of x] obtain p q where "es = p @ q" "open_at si S p = cover si S x" by blast
    then show ?thesis using w(2) unfolding swept_def cover_level_def by (metis level_def)
  qed
  obtain p i q where i: "es = p @ low_end si i # q" "i \<in> S" "best_lo w = lo_limit (si i)" "(best_trust_depth w, best_depth w) = level (p @ [low_end si i])"
    using w(2) assms unfolding swept_def by auto
  have f: "finite (cover si S (best_lo w))" using finite_S by (simp add: cover_def)
  have s: "open_at si S (p @ [low_end si i]) \<subseteq> cover si S (best_lo w)" using open_covers [OF i(1,2)] i(3) by simp
  have "card {j \<in> open_at si S (p @ [low_end si i]). trusted j} \<le> card {j \<in> cover si S (best_lo w). trusted j}"
    "card (open_at si S (p @ [low_end si i])) \<le> card (cover si S (best_lo w))" using s f by (auto intro!: card_mono)
  then have "(best_trust_depth w, best_depth w) = cover_level (best_lo w)"
    using max [of "best_lo w"] i(4) by (auto simp: lex_le_def level_def cover_level_def)
  from that [OF w(1) d i(2,3) this max] show thesis .
qed

end

text \<open>
  The contract of \<open>qsort\<close> with the comparison of the endpoints.  It gives the laws of the endpoints for the sources
  of any state that have the status \<open>SRC_OK\<close> and an interval.
\<close>

definition with_interval :: "SRC_State \<Rightarrow> nat list" where
  "with_interval st = filter (\<lambda>i. lo_limit (sel_info (sources st ! i)) \<le> hi_limit (sel_info (sources st ! i))) (ok_sources st)"

definition ends_of :: "(nat \<Rightarrow> SelectInfo) \<Rightarrow> nat list \<Rightarrow> Sort_Element list" where
  "ends_of si is = concat (map (\<lambda>i. [low_end si i, high_end si i]) is)"

lemma set_ends: "set (ends_of si is) = low_end si ` set is \<union> high_end si ` set is"
  by (auto simp: ends_of_def)

lemma distinct_ends: "distinct is \<Longrightarrow> distinct (ends_of si is)"
  by (induction "is") (auto simp: ends_of_def low_end_def high_end_def)

lemma length_ends: "length (ends_of si is) = 2 * length is"
  by (induction "is") (auto simp: ends_of_def)

lemma endpoints_ends: "endpoints st = ends_of (\<lambda>i. sel_info (sources st ! i)) (ok_sources st)"
  by (simp add: endpoints_def ends_of_def low_end_def high_end_def Let_def)

locale qsort_function =
  fixes sort :: "Sort_Element list \<Rightarrow> Sort_Element list"
  assumes permutation: "mset (sort xs) = mset xs"
    and ordered: "sorted_wrt (\<lambda>a b. compare_sort_elements a b \<le> 0) (sort xs)"
begin

lemma set_sort: "set (sort xs) = set xs" and distinct_sort: "distinct (sort xs) = distinct xs"
  using mset_eq_setD [OF permutation] mset_eq_imp_distinct_iff [OF permutation] by auto

end

sublocale qsort_function \<subseteq> selectable: endpoint_list "\<lambda>i. sel_info (sources st ! i)" "set (with_interval st)"
    "sort (ends_of (\<lambda>i. sel_info (sources st ! i)) (with_interval st))" "\<lambda>i. opt_trust (sources st ! i)" for st
  by unfold_locales (auto simp: with_interval_def set_sort set_ends distinct_sort ok_sources_def intro!: distinct_ends ordered)

context qsort_function
begin

lemma swept_selectable:
  assumes "sort (ends_of (\<lambda>i. sel_info (sources st ! i)) (with_interval st)) \<noteq> []"
  obtains w i where "for_each (sweep_step (\<lambda>i. opt_trust (sources st ! i))) (sort (ends_of (\<lambda>i. sel_info (sources st ! i)) (with_interval st))) empty_sweep = Some w" "depth w = 0" "trust_depth w = 0"
    "i \<in> set (with_interval st)" "best_lo w = lo_limit (sel_info (sources st ! i))"
    "best_trust_depth w = int (card {i \<in> cover (\<lambda>i. sel_info (sources st ! i)) (set (with_interval st)) (best_lo w). opt_trust (sources st ! i)})"
    "best_depth w = int (card (cover (\<lambda>i. sel_info (sources st ! i)) (set (with_interval st)) (best_lo w)))"
    "\<And>x. int (card {i \<in> cover (\<lambda>i. sel_info (sources st ! i)) (set (with_interval st)) x. opt_trust (sources st ! i)}) < best_trust_depth w \<or>
      int (card {i \<in> cover (\<lambda>i. sel_info (sources st ! i)) (set (with_interval st)) x. opt_trust (sources st ! i)}) = best_trust_depth w \<and> int (card (cover (\<lambda>i. sel_info (sources st ! i)) (set (with_interval st)) x)) \<le> best_depth w"
proof -
  obtain w i where w: "for_each (sweep_step (\<lambda>i. opt_trust (sources st ! i))) (sort (ends_of (\<lambda>i. sel_info (sources st ! i)) (with_interval st))) empty_sweep = Some w" "depth w = 0" "trust_depth w = 0"
    "i \<in> set (with_interval st)" "best_lo w = lo_limit (sel_info (sources st ! i))" "(best_trust_depth w, best_depth w) = selectable.cover_level st (best_lo w)"
    "\<And>x. selectable.lex_le (selectable.cover_level st x) (best_trust_depth w, best_depth w)"
    by (rule selectable.sweep_best [of st, OF assms]) (rule that; blast)
  show thesis
    by (rule that [OF w(1-5)]) (use w(6,7) in \<open>simp_all add: selectable.cover_level_def selectable.lex_le_def\<close>)
qed

end

primrec insort_element :: "Sort_Element \<Rightarrow> Sort_Element list \<Rightarrow> Sort_Element list" where
  "insort_element a [] = [a]"
| "insort_element a (b # xs) = (if compare_sort_elements a b \<le> 0 then a # b # xs else b # insort_element a xs)"

definition insertion_sort :: "Sort_Element list \<Rightarrow> Sort_Element list" where
  "insertion_sort xs = foldr insort_element xs []"

lemma mset_insort: "mset (insort_element a xs) = add_mset a (mset xs)"
  by (induction xs) auto

lemma compare_total: "compare_sort_elements a b \<le> 0 \<or> compare_sort_elements b a \<le> 0"
  by (simp add: compare_sort_elements_def)

lemma compare_trans: "compare_sort_elements a b \<le> 0 \<Longrightarrow> compare_sort_elements b c \<le> 0 \<Longrightarrow> compare_sort_elements a c \<le> 0"
  by (auto simp: compare_sort_elements_def split: if_splits)

lemma sorted_insort: "sorted_wrt (\<lambda>a b. compare_sort_elements a b \<le> 0) xs \<Longrightarrow> sorted_wrt (\<lambda>a b. compare_sort_elements a b \<le> 0) (insort_element a xs)"
proof (induction xs)
  case (Cons b xs)
  have s: "set (insort_element a xs) = insert a (set xs)" by (metis mset_insort set_mset_mset set_mset_add_mset_insert)
  show ?case using Cons compare_total [of a b] compare_trans [of a b] by (auto simp: s)
qed simp

interpretation isort: qsort_function insertion_sort
proof
  fix xs
  show "mset (insertion_sort xs) = mset xs" by (induction xs) (simp_all add: insertion_sort_def mset_insort)
  show "sorted_wrt (\<lambda>a b. compare_sort_elements a b \<le> 0) (insertion_sort xs)"
    by (induction xs) (simp_all add: insertion_sort_def sorted_insort)
qed

lemma majority_int: "\<not> int a \<le> int n div 2 \<longleftrightarrow> n < 2 * a"
  by (simp add: not_le zdiv_int [symmetric]) linarith

text \<open>The sources that decide: the trusted ones, or all when there is none.\<close>

definition voting_sources :: "SRC_State \<Rightarrow> nat list" where
  "voting_sources st =
     (let trusted = filter (\<lambda>i. opt_trust (sources st ! i)) (ok_sources st) in if trusted = [] then ok_sources st else trusted)"

definition covering :: "SRC_State \<Rightarrow> nat list \<Rightarrow> real \<Rightarrow> nat" where
  "covering st is x = length (filter (\<lambda>i. lo_limit (sel_info (sources st ! i)) \<le> x \<and> x \<le> hi_limit (sel_info (sources st ! i))) is)"

lemma card_cover: "distinct is \<Longrightarrow> card (cover (\<lambda>i. sel_info (sources st ! i)) (set is) x) = covering st is x"
  unfolding cover_def covering_def by (subst distinct_length_filter) (auto intro: arg_cong [of _ _ card])

lemma card_cover_trusted:
  "distinct is \<Longrightarrow> card {i \<in> cover (\<lambda>i. sel_info (sources st ! i)) (set is) x. P i} = covering st (filter P is) x"
  unfolding cover_def covering_def by (subst distinct_length_filter) (auto intro: arg_cong [of _ _ card])

lemma covering_le: "covering st is x \<le> length is"
  by (simp add: covering_def)

text \<open>What a search for the interval finds.\<close>

lemma interval_found:
  assumes "qsort_function (qsort env)" "ok_sources st \<noteq> []"
    "\<forall>i\<in>set (ok_sources st). lo_limit (sel_info (sources st ! i)) \<le> hi_limit (sel_info (sources st ! i))"
  shows "\<exists>w. find_interval env (length (ok_sources st)) st = Some w \<and>
    (let ok = ok_sources st; trusted = filter (\<lambda>i. opt_trust (sources st ! i)) ok in
     best_depth w = int (covering st ok (best_lo w)) \<and> best_trust_depth w = int (covering st trusted (best_lo w)) \<and>
     (\<forall>x. int (covering st trusted x) < best_trust_depth w \<or>
       int (covering st trusted x) = best_trust_depth w \<and> int (covering st ok x) \<le> best_depth w) \<and>
     (\<exists>i\<in>set ok. best_lo w = lo_limit (sel_info (sources st ! i)) \<and> in_interval w (sel_info (sources st ! i))) \<and>
     has_majority (length ok) (length trusted) w =
       (\<exists>x. length (voting_sources st) < 2 * covering st (voting_sources st) x))"
proof -
  let ?si = "\<lambda>i. sel_info (sources st ! i)" and ?T = "\<lambda>i. opt_trust (sources st ! i)" and ?ok = "ok_sources st"
  let ?t = "filter ?T ?ok"
  have v: "with_interval st = ?ok" using assms(3) by (simp add: with_interval_def)
  have d: "distinct ?ok" by (simp add: ok_sources_def)
  have ends: "qsort env (endpoints st) = qsort env (ends_of ?si (with_interval st))" by (simp add: endpoints_ends v)
  have ne: "qsort env (ends_of ?si ?ok) \<noteq> []"
    using qsort_function.set_sort [OF assms(1), of "ends_of ?si ?ok"] assms(2) by (auto simp: set_ends)
  obtain w i where w: "for_each (sweep_step ?T) (qsort env (ends_of ?si ?ok)) empty_sweep = Some w" "depth w = 0" "trust_depth w = 0"
      "i \<in> set ?ok" "best_lo w = lo_limit (?si i)"
      "best_trust_depth w = int (card {i \<in> cover ?si (set ?ok) (best_lo w). ?T i})" "best_depth w = int (card (cover ?si (set ?ok) (best_lo w)))"
      "\<And>x. int (card {i \<in> cover ?si (set ?ok) x. ?T i}) < best_trust_depth w \<or>
        int (card {i \<in> cover ?si (set ?ok) x. ?T i}) = best_trust_depth w \<and> int (card (cover ?si (set ?ok) x)) \<le> best_depth w"
    by (rule qsort_function.swept_selectable [OF assms(1), of st, unfolded v, OF ne]) (rule that; blast)
  have f: "find_interval env (length ?ok) st = Some w"
    using w(1-3) by (simp add: find_interval_def endpoints_ends length_ends Let_def)
  have b: "best_trust_depth w = int (covering st ?t (best_lo w))" "best_depth w = int (covering st ?ok (best_lo w))"
    unfolding w(6,7) by (simp_all add: card_cover_trusted [OF d] card_cover [OF d])
  have m: "int (covering st ?t x) < best_trust_depth w \<or> int (covering st ?t x) = best_trust_depth w \<and> int (covering st ?ok x) \<le> best_depth w" for x
    using w(8) [of x] by (simp add: card_cover_trusted [OF d] card_cover [OF d])
  have ii: "in_interval w (?si i)" using w(5) by (auto simp: in_interval_def)
  have maj: "has_majority (length ?ok) (length ?t) w = (\<exists>x. length (voting_sources st) < 2 * covering st (voting_sources st) x)"
  proof (cases "?t = []")
    case True
    then have v: "voting_sources st = ?ok" and z: "best_trust_depth w = 0" and c: "\<And>x. covering st ?t x = 0"
      using b(1) by (simp_all add: voting_sources_def covering_def)
    have "has_majority (length ?ok) (length ?t) w \<longleftrightarrow> length ?ok < 2 * covering st ?ok (best_lo w)"
      unfolding has_majority_def z b(2) by (simp add: majority_int)
    moreover have "covering st ?ok x \<le> covering st ?ok (best_lo w)" for x using m [of x] c z b(2) by simp
    ultimately show ?thesis unfolding v by (meson le_trans less_le_trans mult_le_mono2)
  next
    case False
    then obtain k where k: "k \<in> set ?t" using hd_in_set by blast
    have v: "voting_sources st = ?t" using False by (simp add: voting_sources_def)
    have "0 < covering st ?t (lo_limit (?si k))" using k assms(3) by (fastforce simp: covering_def filter_empty_conv)
    then have p: "0 < best_trust_depth w" using m [of "lo_limit (?si k)"] by linarith
    have "has_majority (length ?ok) (length ?t) w \<longleftrightarrow> length ?t < 2 * covering st ?t (best_lo w)"
      using p unfolding has_majority_def b(1) by (simp add: majority_int)
    moreover have "covering st ?t x \<le> covering st ?t (best_lo w)" for x using m [of x] b(1) by linarith
    ultimately show ?thesis unfolding v by (meson le_trans less_le_trans mult_le_mono2)
  qed
  show ?thesis by (rule exI [of _ w]) (use f b m ii maj w(4,5) in \<open>auto simp: Let_def\<close>)
qed

text \<open>
  C4.  The search for the interval fails no assertion, for any order in which qsort leaves
  equal endpoints, and finds a point where the most intervals of the sources meet: first
  the most intervals of trusted sources, and among such points the most of all. The test of the
  majority passes exactly when some point is in the intervals of more than half of the
  sources that decide, the trusted ones if there are any.
\<close>

theorem interval_search:
  assumes "qsort_function (qsort env)" "ok_sources st \<noteq> []"
    "\<forall>i\<in>set (ok_sources st). lo_limit (sel_info (sources st ! i)) \<le> hi_limit (sel_info (sources st ! i))"
  shows "\<exists>w. find_interval env (length (ok_sources st)) st = Some w \<and>
    (let ok = ok_sources st; trusted = filter (\<lambda>i. opt_trust (sources st ! i)) ok in
     best_depth w = int (covering st ok (best_lo w)) \<and> best_trust_depth w = int (covering st trusted (best_lo w)) \<and>
     (\<forall>x. int (covering st trusted x) < best_trust_depth w \<or>
       int (covering st trusted x) = best_trust_depth w \<and> int (covering st ok x) \<le> best_depth w) \<and>
     (\<exists>i\<in>set ok. best_lo w = lo_limit (sel_info (sources st ! i)) \<and> in_interval w (sel_info (sources st ! i))) \<and>
     has_majority (length ok) (length trusted) w =
       (\<exists>x. length (voting_sources st) < 2 * covering st (voting_sources st) x))"
  using interval_found [OF assms] .

end
