(* ===== verification/SourceInvariant.thy ===== *)
theory SourceInvariant
  imports SourceSelection
begin

text \<open>
  The invariant of the table of sources, and that every operation keeps it and fails no assertion.  The
  loops of the selection are followed through what they leave unchanged: \<open>core\<close> is a source without its
  status, the counts of the reports and its vote, and \<open>rest\<close> is the state without the sources and the effects other than new references.
\<close>

section \<open>What marking leaves unchanged\<close>

definition core :: "SRC_Instance \<Rightarrow> SRC_Instance" where
  "core s = s\<lparr>status := SRC_OK, bad := 0, reported_status := {}, leap_vote := False\<rparr>"

definition rest :: "SRC_State \<Rightarrow> SRC_State" where
  "rest st = st\<lparr>sources := [], effects := filter is_REF_SetReference (effects st)\<rparr>"

definition marks :: "SRC_State \<Rightarrow> SRC_State \<Rightarrow> bool" where
  "marks st st' \<longleftrightarrow> map core (sources st') = map core (sources st) \<and> rest st' = rest st"

abbreviation statuses :: "SRC_State \<Rightarrow> SRC_Status list" where "statuses st \<equiv> map status (sources st)"

lemma marks_refl [simp]: "marks st st"
  by (simp add: marks_def)

lemma marks_trans: "marks a b \<Longrightarrow> marks b c \<Longrightarrow> marks a c"
  by (simp add: marks_def)

lemma core_fields:
  assumes "core a = core b"
  shows "stats a = stats b" "src_type a = src_type b" "sel_options a = sel_options b" "sel_info a = sel_info b" "stratum a = stratum b"
    "sel_score a = sel_score b" "distant a = distant b" "updates a = updates b" "src_ref_id a = src_ref_id b" "src_ip_addr a = src_ip_addr b"
    "reachability a = reachability b" "reachability_size a = reachability_size b" "unreachable_run a = unreachable_run b"
    "max_unreachable_run a = max_unreachable_run b" "leap a = leap b"
  using arg_cong [OF assms, of stats] arg_cong [OF assms, of src_type] arg_cong [OF assms, of sel_options] arg_cong [OF assms, of sel_info]
    arg_cong [OF assms, of stratum] arg_cong [OF assms, of sel_score] arg_cong [OF assms, of distant] arg_cong [OF assms, of updates]
    arg_cong [OF assms, of src_ref_id] arg_cong [OF assms, of src_ip_addr] arg_cong [OF assms, of reachability] arg_cong [OF assms, of reachability_size]
    arg_cong [OF assms, of unreachable_run] arg_cong [OF assms, of max_unreachable_run] arg_cong [OF assms, of leap]
  by (simp_all add: core_def)

lemma marks_length: "marks st st' \<Longrightarrow> length (sources st') = length (sources st)"
  unfolding marks_def by (metis length_map)

lemma marks_core: "marks st st' \<Longrightarrow> i < length (sources st) \<Longrightarrow> core (sources st' ! i) = core (sources st ! i)"
  using marks_length [of st st'] unfolding marks_def by (metis nth_map)

lemmas marks_fields = core_fields [OF marks_core]

lemma rest_fields:
  assumes "rest st' = rest st"
  shows "selected_source_index st' = selected_source_index st" "last_updated_inst st' = last_updated_inst st"
    "max_distance st' = max_distance st" "max_jitter st' = max_jitter st" "max_stratum st' = max_stratum st" "min_stratum st' = min_stratum st"
    "reselect_distance st' = reselect_distance st" "stratum_weight st' = stratum_weight st" "combine_limit st' = combine_limit st"
    "filter is_REF_SetReference (effects st') = filter is_REF_SetReference (effects st)"
  using arg_cong [OF assms, of selected_source_index] arg_cong [OF assms, of last_updated_inst] arg_cong [OF assms, of max_distance]
    arg_cong [OF assms, of max_jitter] arg_cong [OF assms, of max_stratum] arg_cong [OF assms, of min_stratum] arg_cong [OF assms, of reselect_distance]
    arg_cong [OF assms, of stratum_weight] arg_cong [OF assms, of combine_limit] arg_cong [OF assms, of effects]
  by (simp_all add: rest_def)

lemma marks_rest: "marks st st' \<Longrightarrow> rest st' = rest st"
  by (simp add: marks_def)

lemmas marks_rest_fields = rest_fields [OF marks_rest]

lemma map_upd_id [simp]: "(map f xs)[i := f (xs ! i)] = map f xs"
  by (metis list_update_id map_update)

lemma map_upd_same: "(\<And>x. f (g x) = f x) \<Longrightarrow> map f (xs[i := g (xs ! i)]) = map f xs"
  by (simp add: map_update)

lemma sources_upd [simp]: "sources (upd_source i f st) = (sources st)[i := f (sources st ! i)]" "rest (upd_source i f st) = rest st"
  "effects (upd_source i f st) = effects st"
  by (simp_all add: upd_source_def rest_def)

lemma upd_source_fields [simp]:
  "selected_source_index (upd_source i f st) = selected_source_index st" "last_updated_inst (upd_source i f st) = last_updated_inst st"
  by (simp_all add: upd_source_def)

lemma sources_emit [simp]: "sources (emit e st) = sources st" "\<not> is_REF_SetReference e \<Longrightarrow> rest (emit e st) = rest st"
  "effects (emit e st) = effects st @ [e]" "last_updated_inst (emit e st) = last_updated_inst st" "selected_source_index (emit e st) = selected_source_index st"
  by (simp_all add: emit_def rest_def)

lemma marks_upd: "(\<And>s. core (f s) = core s) \<Longrightarrow> marks st (upd_source i f st)"
  by (simp add: marks_def map_upd_same)

lemma marks_emit: "\<not> is_REF_SetReference e \<Longrightarrow> marks st (emit e st)"
  by (simp add: marks_def)

lemma bad_source_marks: "marks st (handle_bad_source i st)" "statuses (handle_bad_source i st) = statuses st"
  by (simp_all add: handle_bad_source_def marks_emit)

lemma set_status_marks:
  assumes "i < length (sources st)"
  shows "marks st (set_source_status i new st)" "statuses (set_source_status i new st) = (statuses st)[i := new]"
proof -
  let ?a = "upd_source i (\<lambda>s. s\<lparr>status := new\<rparr>) st"
  let ?f = "\<lambda>s. s\<lparr>bad := (if bad s < SRC_INT_MAX \<and> (new = SRC_FALSETICKER \<or> new = SRC_BAD_DISTANCE \<or> new = SRC_BAD_STRATUM \<or> new = SRC_JITTERY) then bad s + 1 else 0)\<rparr>"
  have a: "marks st ?a" "statuses ?a = (statuses st)[i := new]" by (auto simp: marks_upd core_def map_update)
  have b: "marks st (upd_source i ?f ?a)" "statuses (upd_source i ?f ?a) = (statuses st)[i := new]"
    using a(1) marks_upd [of ?f ?a i] assms by (auto simp: core_def map_update intro: marks_trans)
  have "set_source_status i new st = ?a \<or> set_source_status i new st = upd_source i ?f ?a \<or> set_source_status i new st = handle_bad_source i (upd_source i ?f ?a)"
    by (simp add: set_source_status_def Let_def)
  then show "marks st (set_source_status i new st)" "statuses (set_source_status i new st) = (statuses st)[i := new]"
    using a b bad_source_marks [where st = "upd_source i ?f ?a" and i = i] marks_trans [OF b(1)] by auto
qed

lemma mark_source_marks:
  assumes "i < length (sources st)"
  shows "marks st (mark_source env i new st)" "statuses (mark_source env i new st) = (statuses st)[i := new]"
proof -
  let ?a = "set_source_status i new st"
  note a = set_status_marks [OF assms, of new]
  have l: "marks st' (log_selection_source env i st')" "statuses (log_selection_source env i st') = statuses st'" for st'
    using marks_emit [of "LogSource i (status (sources st' ! i))" st'] marks_upd [of "\<lambda>s. s\<lparr>reported_status := insert (status s) (reported_status s)\<rparr>"]
    by (auto simp: log_selection_source_def core_def map_upd_same intro: marks_trans)
  have "mark_source env i new st = ?a \<or> mark_source env i new st = log_selection_source env i ?a"
    by (simp add: mark_source_def Let_def)
  then show "marks st (mark_source env i new st)" "statuses (mark_source env i new st) = (statuses st)[i := new]"
    using a l [of ?a] marks_trans [OF a(1)] by auto
qed

text \<open>A loop over distinct indices that marks the sources.\<close>

lemma fold_marks:
  assumes "\<And>i st. i \<in> set is \<Longrightarrow> marks st0 st \<Longrightarrow> marks st (f i st) \<and> statuses (f i st) = (statuses st)[i := h i (statuses st ! i)]"
    and "distinct is" "set is \<subseteq> {..<length (sources st0)}"
  shows "marks st0 (fold f is st0)"
    "j < length (sources st0) \<Longrightarrow> status (sources (fold f is st0) ! j) = (if j \<in> set is then h j (status (sources st0 ! j)) else status (sources st0 ! j))"
proof -
  have "marks st0 (fold f is st) \<and> (\<forall>j<length (sources st0). statuses (fold f is st) ! j = (if j \<in> set is then h j (statuses st ! j) else statuses st ! j))"
    if "marks st0 st" for st
    using assms that
  proof (induction "is" arbitrary: st)
    case (Cons i "is")
    have s: "marks st (f i st)" "statuses (f i st) = (statuses st)[i := h i (statuses st ! i)]" using Cons.prems(1) [of i st] Cons.prems(4) by simp_all
    then have m: "marks st0 (f i st)" using Cons.prems(4) marks_trans by blast
    have l: "length (sources st) = length (sources st0)" using Cons.prems(4) by (rule marks_length)
    have "marks st0 (fold f is (f i st)) \<and> (\<forall>j<length (sources st0). statuses (fold f is (f i st)) ! j = (if j \<in> set is then h j (statuses (f i st) ! j) else statuses (f i st) ! j))"
      by (rule Cons.IH) (use Cons.prems m in auto)
    moreover have "i \<notin> set is" "i < length (sources st0)" using Cons.prems by auto
    ultimately show ?case using l s(2) by (auto simp: nth_list_update)
  qed simp
  from this [of st0] show "marks st0 (fold f is st0)"
    "j < length (sources st0) \<Longrightarrow> status (sources (fold f is st0) ! j) = (if j \<in> set is then h j (status (sources st0 ! j)) else status (sources st0 ! j))"
    using marks_length [of st0 "fold f is st0"] by (simp_all add: nth_map)
qed

lemma set_ok_sources: "set (ok_sources st) = {i. i < length (sources st) \<and> status (sources st ! i) = SRC_OK}"
  by (auto simp: ok_sources_def)

lemma distinct_ok_sources [simp]: "distinct (ok_sources st)"
  by (simp add: ok_sources_def)

lemma mark_ok_marks:
  shows "marks st (mark_ok_sources new st)" "new \<noteq> SRC_OK \<Longrightarrow> ok_sources (mark_ok_sources new st) = []"
proof -
  let ?f = "\<lambda>i st. if status (sources st ! i) \<noteq> SRC_OK then st else set_source_status i new st"
  have s: "marks st' (?f i st') \<and> statuses (?f i st') = (statuses st')[i := (\<lambda>i x. if x = SRC_OK then new else x) i (statuses st' ! i)]"
    if "i \<in> set [0..<length (sources st)]" "marks st st'" for i st'
    using that set_status_marks [of i st' new] marks_length [OF that(2)] by (auto simp: list_update_same_conv)
  note f = fold_marks [of "[0..<length (sources st)]" st ?f "\<lambda>i x. if x = SRC_OK then new else x", OF s]
  show m: "marks st (mark_ok_sources new st)" unfolding mark_ok_sources_def by (rule f(1)) auto
  show "ok_sources (mark_ok_sources new st) = []" if "new \<noteq> SRC_OK"
  proof -
    have "status (sources (mark_ok_sources new st) ! j) \<noteq> SRC_OK" if "j < length (sources st)" for j
      unfolding mark_ok_sources_def using f(2) [of j] that \<open>new \<noteq> SRC_OK\<close> by (auto simp: lessThan_atLeast0)
    then show ?thesis using marks_length [OF m] by (auto simp: ok_sources_def filter_empty_conv)
  qed
qed

section \<open>The first loops\<close>

definition good_stats :: "SST_Stats \<Rightarrow> bool" where
  "good_stats inst \<longleftrightarrow> 0 \<le> skew inst \<and>
     (let j = get_buf_index inst (int (best_single_sample inst)) in 0 < n_samples inst \<longrightarrow> 0 < 0.5 * root_delays inst ! j + root_dispersions inst ! j)"

definition sel_good :: "SRC_Instance \<Rightarrow> bool" where
  "sel_good s \<longleftrightarrow> 0 < si_root_distance (sel_info s) \<and> lo_limit (sel_info s) \<le> hi_limit (sel_info s) \<and> 0 < n_samples (stats s)"

definition frame :: "SRC_Instance \<Rightarrow> SRC_Instance" where
  "frame s = (core s)\<lparr>sel_info := \<lparr>si_std_dev = 0, si_root_distance = 0, lo_limit = 0, hi_limit = 0, si_last_sample_ago = 0\<rparr>\<rparr>"

definition touches :: "nat \<Rightarrow> SRC_State \<Rightarrow> SRC_State \<Rightarrow> bool" where
  "touches i st st' \<longleftrightarrow> rest st' = rest st \<and> length (sources st') = length (sources st) \<and> frame (sources st' ! i) = frame (sources st ! i) \<and>
     (\<forall>j<length (sources st). j \<noteq> i \<longrightarrow> core (sources st' ! j) = core (sources st ! j) \<and> status (sources st' ! j) = status (sources st ! j))"

lemma touches_trans: "touches i a b \<Longrightarrow> touches i b c \<Longrightarrow> touches i a c"
  by (simp add: touches_def)

lemma touches_upd: "i < length (sources st) \<Longrightarrow> (\<And>s. frame (f s) = frame s) \<Longrightarrow> touches i st (upd_source i f st)"
  by (simp add: touches_def)

lemma frame_core: "core a = core b \<Longrightarrow> frame a = frame b"
  by (simp add: frame_def)

lemma mark_status:
  assumes "i < length (sources st)"
  shows "status (sources (mark_source env i new st) ! i) = new"
    "j < length (sources st) \<Longrightarrow> j \<noteq> i \<Longrightarrow> status (sources (mark_source env i new st) ! j) = status (sources st ! j)"
proof -
  note m = mark_source_marks [OF assms, of env new]
  have l: "length (sources (mark_source env i new st)) = length (sources st)" using m(1) by (rule marks_length)
  have "statuses (mark_source env i new st) ! j = (statuses st)[i := new] ! j" for j using m(2) by simp
  then show "status (sources (mark_source env i new st) ! i) = new"
    "j < length (sources st) \<Longrightarrow> j \<noteq> i \<Longrightarrow> status (sources (mark_source env i new st) ! j) = status (sources st ! j)"
    using assms l by (metis length_map nth_list_update_eq nth_map, metis length_map nth_list_update_neq nth_map)
qed

lemma touches_mark:
  assumes "i < length (sources st)"
  shows "touches i st (mark_source env i new st)"
proof -
  note m = mark_source_marks(1) [OF assms, of env new]
  show ?thesis unfolding touches_def
    using marks_rest [OF m] marks_length [OF m] frame_core [OF marks_core [OF m assms]] marks_core [OF m] mark_status(2) [OF assms] by simp
qed

lemma selection_data_good:
  assumes "SST_GetSelectionData mj now inst = Some (ok, d)" "good_stats inst"
  shows "0 < sd_root_distance d" "0 < n_samples inst"
proof -
  show n: "0 < n_samples inst" using assms(1) by (auto simp: SST_GetSelectionData_def split: if_splits)
  let ?j = "get_buf_index inst (int (best_single_sample inst))"
  have "sd_root_distance d = 0.5 * root_delays inst ! ?j + root_dispersions inst ! ?j +
      \<bar>UTI_DiffTimespecsToDouble now (sample_times inst ! get_runsbuf_index inst (int (best_single_sample inst)))\<bar> * skew inst"
    using assms(1) n by (auto simp: SST_GetSelectionData_def Let_def)
  then show "0 < sd_root_distance d" using assms(2) n by (auto simp: good_stats_def Let_def intro: add_pos_nonneg)
qed

lemma check_source_step:
  assumes "i < length (sources st)" "0 < si_root_distance (sel_info (sources st ! i))" "0 < n_samples (stats (sources st ! i))" "0 \<le> max_clock_error env"
  obtains st' scan' where "check_source env i d (st, scan) = (st', scan')" "touches i st st'" "status (sources st' ! i) = SRC_OK \<Longrightarrow> sel_good (sources st' ! i)"
proof -
  let ?a = "upd_source i (add_extra_disp env d) st" and ?ok = "\<lambda>s::SRC_Instance. s\<lparr>status := SRC_OK\<rparr>"
  have a: "touches i st ?a" by (rule touches_upd) (use assms in \<open>auto simp: add_extra_disp_def frame_def core_def Let_def\<close>)
  have l: "i < length (sources ?a)" using assms(1) by simp
  have o: "touches i st (upd_source i ?ok ?a)" using touches_trans [OF a touches_upd [OF l, of ?ok]] by (simp add: frame_def core_def)
  have pos: "0 < si_root_distance (sel_info (sources ?a ! i))" "0 < n_samples (stats (sources ?a ! i))"
    using assms by (auto simp: add_extra_disp_def Let_def add_pos_nonneg)
  obtain st' scan' where r: "check_source env i d (st, scan) = (st', scan')" by (cases "check_source env i d (st, scan)")
  then have "(\<exists>x. x \<noteq> SRC_OK \<and> (st' = mark_source env i x st \<or> st' = mark_source env i x ?a)) \<or>
      st' = upd_source i ?ok ?a \<and> lo_limit (sel_info (sources ?a ! i)) \<le> hi_limit (sel_info (sources ?a ! i))"
    unfolding check_source_def prod.case Let_def by (auto split: if_splits)
  then show thesis
  proof (elim disjE exE conjE)
    fix x assume x: "x \<noteq> SRC_OK" "st' = mark_source env i x st"
    then show thesis using that [OF r] touches_mark [OF assms(1)] mark_status(1) [OF assms(1)] by simp
  next
    fix x assume x: "x \<noteq> SRC_OK" "st' = mark_source env i x ?a"
    then show thesis using that [OF r] touches_trans [OF a touches_mark [OF l]] mark_status(1) [OF l] by simp
  next
    assume x: "st' = upd_source i ?ok ?a" "lo_limit (sel_info (sources ?a ! i)) \<le> hi_limit (sel_info (sources ?a ! i))"
    show thesis by (rule that [OF r]) (use o x pos assms(1) in \<open>auto simp: sel_good_def\<close>)
  qed
qed

lemma build_interval_step:
  assumes "i < length (sources st)" "status (sources st ! i) \<noteq> SRC_OK" "good_stats (stats (sources st ! i))" "0 \<le> max_clock_error env"
  obtains st' scan' where "build_interval env i (st, scan) = Some (st', scan')" "touches i st st'" "status (sources st' ! i) = SRC_OK \<Longrightarrow> sel_good (sources st' ! i)"
proof -
  let ?a = "upd_source i (\<lambda>s. s\<lparr>leap_vote := False\<rparr>) st"
  let ?d = "SST_GetSelectionData (max_jitter ?a) (ev_now env) (stats (sources st ! i))"
  let ?b = "case ?d of Some (_, d) \<Rightarrow> upd_source i (set_sel_info d) ?a | None \<Rightarrow> ?a"
  have a: "touches i st ?a" by (rule touches_upd) (use assms in \<open>auto simp: frame_def core_def\<close>)
  have b: "touches i st ?b"
  proof (cases ?d)
    case (Some p)
    obtain ok d where "p = (ok, d)" by fastforce
    moreover have "touches i ?a (upd_source i (set_sel_info d) ?a)" by (rule touches_upd) (use assms in \<open>auto simp: set_sel_info_def frame_def core_def\<close>)
    ultimately show ?thesis using Some touches_trans [OF a] by simp
  qed (use a in simp)
  have lb: "i < length (sources ?b)" using b assms(1) by (simp add: touches_def)
  have mk: "touches i st (mark_source env i x st')" "x \<noteq> SRC_OK \<Longrightarrow> status (sources (mark_source env i x st') ! i) \<noteq> SRC_OK"
    if "touches i st st'" "i < length (sources st')" for x st'
    using touches_trans [OF that(1) touches_mark [OF that(2)]] mark_status(1) [OF that(2)] by auto
  show thesis
  proof (cases "opt_noselect (sources st ! i)")
    case True
    then obtain scan' where "build_interval env i (st, scan) = Some (mark_source env i SRC_UNSELECTABLE ?a, scan')"
      using assms(2) by (simp add: build_interval_def Let_def)
    then show thesis by (rule that) (use mk [OF a, of SRC_UNSELECTABLE] assms(1) in auto)
  next
    case n: False
    show thesis
    proof (cases "\<exists>d. ?d = Some (True, d)")
      case True
      then obtain d where d: "?d = Some (True, d)" by blast
      note g = selection_data_good [OF d assms(3)]
      obtain scan' where r: "build_interval env i (st, scan) = Some (check_source env i d (?b, scan'))"
        using assms(2) n d by (simp add: build_interval_def Let_def)
      have "0 < si_root_distance (sel_info (sources ?b ! i))" "0 < n_samples (stats (sources ?b ! i))"
        using d g assms(1) by (simp_all add: set_sel_info_def)
      from check_source_step [OF lb this assms(4)] obtain st' scan'' where
        c: "check_source env i d (?b, scan') = (st', scan'')" "touches i ?b st'" "status (sources st' ! i) = SRC_OK \<Longrightarrow> sel_good (sources st' ! i)" by blast
      show thesis by (rule that [OF r [unfolded c(1)] touches_trans [OF b c(2)] c(3)])
    next
      case False
      then consider "?d = None" | d where "?d = Some (False, d)" by (metis (full_types) not_Some_eq surj_pair)
      then have "\<exists>scan'. build_interval env i (st, scan) = Some (mark_source env i SRC_BAD_STATS ?b, scan')"
        by cases (use assms(2) n in \<open>simp_all add: build_interval_def Let_def\<close>)
      then obtain scan' where "build_interval env i (st, scan) = Some (mark_source env i SRC_BAD_STATS ?b, scan')" ..
      then show thesis by (rule that) (use mk [OF b lb, of SRC_BAD_STATS] in auto)
    qed
  qed
qed

lemma for_each_upt:
  assumes "\<And>k s. k < n \<Longrightarrow> I k s \<Longrightarrow> \<exists>s'. f k s = Some s' \<and> I (Suc k) s'" "I 0 s"
  shows "\<exists>s'. for_each f [0..<n] s = Some s' \<and> I n s'"
proof -
  have "\<exists>s'. for_each f [n - d..<n] s = Some s' \<and> I n s'" if "d \<le> n" "I (n - d) s" for d s
    using that
  proof (induction d arbitrary: s)
    case (Suc d)
    from Suc.prems assms(1) [of "n - Suc d" s] obtain s' where s': "f (n - Suc d) s = Some s'" "I (n - d) s'" by (auto simp: Suc_diff_Suc)
    have "[n - Suc d..<n] = (n - Suc d) # [n - d..<n]" using Suc.prems(1) by (simp add: upt_conv_Cons Suc_diff_Suc)
    then show ?case using s' Suc.IH [of s'] Suc.prems(1) by simp
  qed simp
  from this [of n s] assms(2) show ?thesis by simp
qed

lemma fold_upt:
  assumes "\<And>k s. k < n \<Longrightarrow> I k s \<Longrightarrow> I (Suc k) (f k s)" "I 0 s"
  shows "I n (fold f [0..<n] s)"
proof -
  have "I k (fold f [0..<k] s)" if "k \<le> n" for k using that by (induction k) (use assms in auto)
  then show ?thesis by blast
qed

definition scanned :: "SRC_State \<Rightarrow> nat \<Rightarrow> SRC_State \<Rightarrow> bool" where
  "scanned st0 k st \<longleftrightarrow> rest st = rest st0 \<and> length (sources st) = length (sources st0) \<and>
     (\<forall>j<length (sources st0). frame (sources st ! j) = frame (sources st0 ! j) \<and>
       (status (sources st ! j) = SRC_OK \<longrightarrow> j < k \<and> sel_good (sources st ! j)))"

lemma frame_fields:
  assumes "frame a = frame b"
  shows "stats a = stats b" "src_type a = src_type b" "sel_options a = sel_options b" "stratum a = stratum b"
    "sel_score a = sel_score b" "distant a = distant b" "updates a = updates b" "src_ref_id a = src_ref_id b" "src_ip_addr a = src_ip_addr b"
  using arg_cong [OF assms, of stats] arg_cong [OF assms, of src_type] arg_cong [OF assms, of sel_options] arg_cong [OF assms, of stratum]
    arg_cong [OF assms, of sel_score] arg_cong [OF assms, of distant] arg_cong [OF assms, of updates] arg_cong [OF assms, of src_ref_id]
    arg_cong [OF assms, of src_ip_addr]
  by (simp_all add: frame_def core_def)

lemma sel_good_core: "core a = core b \<Longrightarrow> sel_good a = sel_good b"
  by (simp add: sel_good_def core_fields [of a b])

lemma scan_step:
  assumes "k < length (sources st0)" "scanned st0 k st" "\<forall>s\<in>set (sources st0). good_stats (stats s)" "0 \<le> max_clock_error env"
  shows "\<exists>st' scan'. build_interval env k (st, scan) = Some (st', scan') \<and> scanned st0 (Suc k) st'"
proof -
  have k: "k < length (sources st)" "status (sources st ! k) \<noteq> SRC_OK" "stats (sources st ! k) = stats (sources st0 ! k)"
    using assms(1,2) frame_fields(1) [of "sources st ! k" "sources st0 ! k"] by (auto simp: scanned_def)
  then have "good_stats (stats (sources st ! k))" using assms(1,3) by simp
  from build_interval_step [OF k(1,2) this assms(4), of scan] obtain st' scan' where
    b: "build_interval env k (st, scan) = Some (st', scan')" "touches k st st'" "status (sources st' ! k) = SRC_OK \<Longrightarrow> sel_good (sources st' ! k)" by blast
  have "scanned st0 (Suc k) st'"
    unfolding scanned_def
  proof (intro conjI allI impI)
    fix j assume j: "j < length (sources st0)"
    show "frame (sources st' ! j) = frame (sources st0 ! j)"
      using assms(2) b(2) j by (cases "j = k") (auto simp: touches_def scanned_def frame_core [of "sources st' ! j" "sources st ! j"])
    assume o: "status (sources st' ! j) = SRC_OK"
    show "j < Suc k" using assms(2) b(2) j o by (cases "j = k") (auto simp: touches_def scanned_def)
    show "sel_good (sources st' ! j)"
      using assms(2) b(2,3) j o by (cases "j = k") (auto simp: touches_def scanned_def sel_good_core [of "sources st' ! j" "sources st ! j"])
  qed (use assms(2) b(2) in \<open>auto simp: scanned_def touches_def\<close>)
  with b(1) show ?thesis by blast
qed

definition orphaned :: "SRC_State \<Rightarrow> nat \<Rightarrow> SRC_State \<times> nat \<times> nat option \<Rightarrow> bool" where
  "orphaned st0 k = (\<lambda>(st, n, orphan). marks st0 st \<and> n = length (filter (\<lambda>j. status (sources st ! j) = SRC_OK) [0..<k]) \<and>
     (\<forall>j<length (sources st0). (status (sources st ! j) = SRC_OK \<longrightarrow> status (sources st0 ! j) = SRC_OK) \<and>
       (k \<le> j \<longrightarrow> status (sources st ! j) = status (sources st0 ! j))) \<and>
     (\<forall>i. orphan = Some i \<longrightarrow> i < length (sources st0) \<and> status (sources st0 ! i) = SRC_OK \<and> status (sources st ! i) \<noteq> SRC_OK))"

lemma orphan_step:
  assumes "k < length (sources st0)" "orphaned st0 k s"
  shows "orphaned st0 (Suc k) (check_orphan env ago k s)"
proof -
  obtain st n orphan where s: "s = (st, n, orphan)" by (cases s)
  have m: "marks st0 st" and l: "k < length (sources st)" using assms marks_length [of st0 st] by (auto simp: orphaned_def s)
  have mk: "marks st0 (mark_source env k x st)" for x using marks_trans [OF m mark_source_marks(1) [OF l]] .
  have other: "status (sources (mark_source env k x st) ! j) = (if j = k then x else status (sources st ! j))" if "j < length (sources st0)" for j x
    using mark_status [OF l] that marks_length [OF m] by simp
  have cnt: "filter (\<lambda>j. status (sources (mark_source env k x st) ! j) = SRC_OK) [0..<k] = filter (\<lambda>j. status (sources st ! j) = SRC_OK) [0..<k]" for x
    by (rule filter_cong) (use other assms(1) in auto)
  have o: "orphaned st0 (Suc k) (mark_source env k x st, n, orphan')"
    if "x \<noteq> SRC_OK" "status (sources st ! k) = SRC_OK" "orphan' = orphan \<or> orphan' = Some k" for x orphan'
    using assms that unfolding orphaned_def s prod.case by (auto simp: mk other cnt)
  have c: "status (sources st ! k) = status (sources st0 ! k)" using assms by (auto simp: orphaned_def s)
  show ?thesis
  proof (cases "status (sources st ! k) = SRC_OK")
    case False
    then have "orphaned st0 (Suc k) s" using assms(2) by (auto simp: orphaned_def s)
    then show ?thesis using False by (simp add: s check_orphan_def Let_def)
  next
    case True
    have "orphaned st0 (Suc k) (st, n + 1, orphan)" using assms(2) True by (auto simp: orphaned_def s)
    then show ?thesis using o [OF _ True, of SRC_STALE orphan] o [OF _ True, of SRC_ORPHAN orphan] o [OF _ True, of SRC_ORPHAN "Some k"] True
      by (simp add: s check_orphan_def Let_def)
  qed
qed

text \<open>The selectable sources after the first part.\<close>

lemma selectable_found:
  assumes "\<forall>s\<in>set (sources st). status s \<noteq> SRC_OK \<and> good_stats (stats s)" "0 \<le> max_clock_error env"
  obtains st1 scan where "find_selectable env st = Some (st1, scan, length (ok_sources st1))" "rest st1 = rest st"
    "length (sources st1) = length (sources st)" "\<forall>j<length (sources st). frame (sources st1 ! j) = frame (sources st ! j)"
    "\<forall>i\<in>set (ok_sources st1). sel_good (sources st1 ! i)"
proof -
  let ?n = "length (sources st)"
  have init: "scanned st 0 (fst (st, empty_scan))" using assms(1) by (auto simp: scanned_def)
  have step: "\<exists>s'. build_interval env k s = Some s' \<and> scanned st (Suc k) (fst s')" if "k < ?n" "scanned st k (fst s)" for k s
  proof -
    have "\<forall>s\<in>set (sources st). good_stats (stats s)" using assms(1) by blast
    from scan_step [OF that this assms(2), of "snd s"] obtain st' scan' where
      "build_interval env k (fst s, snd s) = Some (st', scan')" "scanned st (Suc k) st'" by blast
    then show ?thesis by (intro exI [of _ "(st', scan')"]) simp
  qed
  from for_each_upt [where I = "\<lambda>k s. scanned st k (fst s)" and f = "build_interval env" and n = ?n, OF step init]
  obtain s' where "for_each (build_interval env) [0..<?n] (st, empty_scan) = Some s'" "scanned st ?n (fst s')" by blast
  then obtain a scan where a: "for_each (build_interval env) [0..<?n] (st, empty_scan) = Some (a, scan)" "scanned st ?n a" by (cases s') simp
  have la: "length (sources a) = ?n" using a(2) by (simp add: scanned_def)
  have "orphaned a ?n (fold (check_orphan env (max_reach_sample_ago scan)) [0..<?n] (a, 0, None))"
    by (rule fold_upt [where I = "orphaned a"], rule orphan_step) (use la in \<open>simp_all add: orphaned_def\<close>)
  then obtain b n orphan where b: "fold (check_orphan env (max_reach_sample_ago scan)) [0..<?n] (a, 0, None) = (b, n, orphan)" "orphaned a ?n (b, n, orphan)"
    by (metis prod_cases3)
  have mb: "marks a b" and n: "n = length (ok_sources b)"
    and okb: "\<forall>j<?n. status (sources b ! j) = SRC_OK \<longrightarrow> status (sources a ! j) = SRC_OK"
    and orph: "\<forall>i. orphan = Some i \<longrightarrow> i < ?n \<and> status (sources a ! i) = SRC_OK \<and> status (sources b ! i) \<noteq> SRC_OK"
    using b(2) la marks_length [of a b] by (auto simp: orphaned_def ok_sources_def)
  obtain c n' where c: "consider_orphan env (b, n, orphan) = (c, n')" by fastforce
  have "marks a c \<and> n' = length (ok_sources c) \<and> (\<forall>j<?n. status (sources c ! j) = SRC_OK \<longrightarrow> status (sources a ! j) = SRC_OK)"
  proof (cases "c = b \<and> n' = n \<or> c = emit LogOrphanRefid b \<and> n' = n")
    case True
    then show ?thesis using mb n okb marks_trans [OF mb marks_emit [of LogOrphanRefid]] by (auto simp: ok_sources_def)
  next
    case False
    then obtain i where i: "orphan = Some i" "n = 0" "c = upd_source i (\<lambda>s. s\<lparr>status := SRC_OK\<rparr>) b" "n' = 1"
      using c by (auto simp: consider_orphan_def Let_def split: option.splits if_splits)
    have lb: "length (sources b) = ?n" using marks_length [OF mb] la by simp
    have "marks a c" unfolding i(3) by (rule marks_trans [OF mb marks_upd]) (simp add: core_def)
    moreover have "ok_sources c = [i]"
    proof -
      have "j \<in> set (ok_sources c) \<longleftrightarrow> j = i" for j
        using n i(2,3) orph i(1) lb by (auto simp: set_ok_sources nth_list_update filter_empty_conv ok_sources_def)
      then show ?thesis by (metis distinct_ok_sources distinct_length_2_or_more empty_iff list.set_cases list.set(1) list.set_intros(1) list.set_intros(2) neq_Nil_conv)
    qed
    ultimately show ?thesis using i orph okb lb by (auto simp: nth_list_update)
  qed
  then have mc: "marks a c" and n': "n' = length (ok_sources c)" and okc: "\<forall>j<?n. status (sources c ! j) = SRC_OK \<longrightarrow> status (sources a ! j) = SRC_OK" by blast+
  show thesis
  proof (rule that)
    show "find_selectable env st = Some (c, scan, length (ok_sources c))" using a(1) b(1) c n' la by (simp add: find_selectable_def)
    show "rest c = rest st" using marks_rest [OF mc] a(2) by (simp add: scanned_def)
    show l: "length (sources c) = ?n" using marks_length [OF mc] la by simp
    show "\<forall>j<?n. frame (sources c ! j) = frame (sources st ! j)" using frame_core [OF marks_core [OF mc]] a(2) la by (auto simp: scanned_def)
    show "\<forall>i\<in>set (ok_sources c). sel_good (sources c ! i)"
      using okc a(2) la l sel_good_core [OF marks_core [OF mc]] by (auto simp: set_ok_sources scanned_def)
  qed
qed

section \<open>Admissible and preferred sources\<close>

lemma ok_sources_filter:
  assumes "length (sources st') = length (sources st)"
    "\<forall>j<length (sources st). (status (sources st' ! j) = SRC_OK) = (status (sources st ! j) = SRC_OK \<and> P j)"
  shows "ok_sources st' = filter P (ok_sources st)"
  using assms by (auto simp: ok_sources_def intro: filter_cong)

definition admissible :: "Sweep \<Rightarrow> SRC_Instance \<Rightarrow> bool" where
  "admissible w s \<longleftrightarrow> in_interval w (sel_info s) \<and> in_trusted w s"

lemma admissible_core: "core a = core b \<Longrightarrow> admissible w a = admissible w b"
  by (simp add: admissible_def in_trusted_def core_fields [of a b])

definition admitting :: "Sweep \<Rightarrow> bool \<Rightarrow> SRC_State \<Rightarrow> nat \<Rightarrow> SRC_State \<times> nat list \<times> bool \<Rightarrow> bool" where
  "admitting w req0 st0 k = (\<lambda>(st, sel, req). marks st0 st \<and>
     sel = filter (\<lambda>i. status (sources st0 ! i) = SRC_OK \<and> admissible w (sources st0 ! i)) [0..<k] \<and>
     req = (req0 \<and> (\<forall>i\<in>set sel. \<not> opt_require (sources st0 ! i))) \<and>
     (\<forall>j<length (sources st0). (status (sources st ! j) = SRC_OK) = (status (sources st0 ! j) = SRC_OK \<and> (k \<le> j \<or> admissible w (sources st0 ! j)))))"

lemma admit_step:
  assumes "k < length (sources st0)" "admitting w req0 st0 k s"
  shows "admitting w req0 st0 (Suc k) (admit_source env w k s)"
proof -
  obtain st sel req where s: "s = (st, sel, req)" by (cases s)
  have m: "marks st0 st" and l: "k < length (sources st)" using assms marks_length [of st0 st] by (auto simp: admitting_def s)
  note c = marks_core [OF m assms(1)]
  have mk: "marks st0 (mark_source env k x st)" for x using marks_trans [OF m mark_source_marks(1) [OF l]] .
  have other: "status (sources (mark_source env k x st) ! j) = (if j = k then x else status (sources st ! j))" if "j < length (sources st0)" for j x
    using mark_status [OF l] that marks_length [OF m] by simp
  have ok: "(status (sources st ! k) = SRC_OK) = (status (sources st0 ! k) = SRC_OK)" using assms by (auto simp: admitting_def s)
  have keep: "(k \<le> j) = (j = k \<or> Suc k \<le> j)" for j by auto
  show ?thesis
  proof (cases "status (sources st ! k) = SRC_OK")
    case False
    then have "admit_source env w k s = s" by (simp add: s admit_source_def Let_def)
    then show ?thesis using assms False ok by (auto simp: admitting_def s keep)
  next
    case True
    have r: "admit_source env w k s = (if \<not> admissible w (sources st0 ! k)
        then (mark_source env k (if in_interval w (sel_info (sources st0 ! k)) then SRC_UNTRUSTED else SRC_FALSETICKER) st, sel, req)
        else (st, sel @ [k], if opt_require (sources st0 ! k) then False else req))"
      using True by (simp add: s admit_source_def Let_def admissible_def in_trusted_def core_fields [OF c])
    show ?thesis
    proof (cases "admissible w (sources st0 ! k)")
      case a: True
      then show ?thesis using assms True ok unfolding r by (auto simp: admitting_def s keep)
    next
      case False
      then show ?thesis using assms(2) ok True unfolding r by (auto simp: admitting_def s keep mk other)
    qed
  qed
qed

lemma admitted:
  obtains st' req' where "fold (admit_source env w) [0..<length (sources st)] (st, [], req) =
      (st', filter (\<lambda>i. admissible w (sources st ! i)) (ok_sources st), req')"
    "marks st st'" "ok_sources st' = filter (\<lambda>i. admissible w (sources st ! i)) (ok_sources st)"
    "req' = (req \<and> (\<forall>i\<in>set (ok_sources st'). \<not> opt_require (sources st ! i)))"
proof -
  have "admitting w req st (length (sources st)) (fold (admit_source env w) [0..<length (sources st)] (st, [], req))"
    by (rule fold_upt [where I = "admitting w req st"], rule admit_step) (simp_all add: admitting_def)
  then obtain st' sel req' where f: "fold (admit_source env w) [0..<length (sources st)] (st, [], req) = (st', sel, req')"
      "admitting w req st (length (sources st)) (st', sel, req')" by (metis prod_cases3)
  have m: "marks st st'" using f(2) by (simp add: admitting_def)
  have sel: "sel = filter (\<lambda>i. admissible w (sources st ! i)) (ok_sources st)" using f(2) by (auto simp: admitting_def ok_sources_def intro: filter_cong)
  have ok: "ok_sources st' = filter (\<lambda>i. admissible w (sources st ! i)) (ok_sources st)"
    by (rule ok_sources_filter) (use f(2) marks_length [OF m] in \<open>auto simp: admitting_def\<close>)
  show thesis by (rule that [OF f(1) [unfolded sel] m ok]) (use f(2) in \<open>simp add: admitting_def sel ok set_ok_sources\<close>)
qed

lemma votes_marks:
  assumes "distinct sel" "set sel \<subseteq> {..<length (sources st)}"
  shows "marks st (enable_votes w sel st)" "ok_sources (enable_votes w sel st) = ok_sources st"
proof -
  let ?f = "\<lambda>i st. if best_trust_depth w \<noteq> 0 \<and> \<not> opt_trust (sources st ! i) then st else upd_source i (\<lambda>s. s\<lparr>leap_vote := True\<rparr>) st"
  have s: "marks st' (?f i st') \<and> statuses (?f i st') = (statuses st')[i := (\<lambda>i x. x) i (statuses st' ! i)]" if "i \<in> set sel" "marks st st'" for i st'
    using that assms(2) marks_length [OF that(2)] by (auto simp: marks_upd core_def map_upd_same subset_iff)
  note f = fold_marks [of sel st ?f "\<lambda>i x. x", OF s assms]
  show m: "marks st (enable_votes w sel st)" unfolding enable_votes_def by (rule f(1)) auto
  have "ok_sources (enable_votes w sel st) = filter (\<lambda>_. True) (ok_sources st)"
    by (rule ok_sources_filter) (use marks_length [OF m] f(2) in \<open>auto simp: enable_votes_def\<close>)
  then show "ok_sources (enable_votes w sel st) = ok_sources st" by simp
qed

lemma preferred:
  assumes "sel = ok_sources st" "sel \<noteq> []"
  obtains sp sel' st' where "reduce_preferred env sel st = (sp, sel', st')" "marks st st'" "ok_sources st' = sel'" "sel' \<noteq> []"
    "sel' = (if sp then filter (\<lambda>i. opt_prefer (sources st ! i)) sel else sel)"
proof (cases "\<exists>i\<in>set sel. opt_prefer (sources st ! i)")
  case False
  show thesis by (rule that [of False sel st]) (use False assms in \<open>auto simp: reduce_preferred_def\<close>)
next
  case True
  let ?f = "\<lambda>i st. if \<not> opt_prefer (sources st ! i) then mark_source env i SRC_NONPREFERRED st else st"
  let ?h = "\<lambda>i x. if \<not> opt_prefer (sources st ! i) then SRC_NONPREFERRED else x"
  have sub: "set sel \<subseteq> {..<length (sources st)}" "distinct sel" unfolding assms(1) by (auto simp: set_ok_sources)
  have s: "marks st' (?f i st') \<and> statuses (?f i st') = (statuses st')[i := ?h i (statuses st' ! i)]" if "i \<in> set sel" "marks st st'" for i st'
  proof -
    have i: "i < length (sources st)" "i < length (sources st')" using that sub(1) marks_length [OF that(2)] by auto
    show ?thesis using mark_source_marks [OF i(2), of env SRC_NONPREFERRED] i by (simp add: marks_fields(3) [OF that(2) i(1)])
  qed
  note f = fold_marks [of sel st ?f ?h, OF s sub(2,1)]
  let ?st = "fold ?f sel st"
  have m: "marks st ?st" by (rule f(1)) auto
  have "ok_sources ?st = filter (\<lambda>i. opt_prefer (sources st ! i)) (ok_sources st)"
    by (rule ok_sources_filter) (use marks_length [OF m] f(2) in \<open>auto simp: assms(1) set_ok_sources\<close>)
  then have ok: "ok_sources ?st = filter (\<lambda>i. opt_prefer (sources st ! i)) sel" unfolding assms(1) .
  show thesis by (rule that [OF _ m ok]) (use True in \<open>auto simp: reduce_preferred_def filter_empty_conv\<close>)
qed

section \<open>The scores\<close>

definition unscored :: "SRC_Instance \<Rightarrow> SRC_Instance" where
  "unscored s = s\<lparr>sel_score := 0, distant := 0\<rparr>"

lemma unscored_fields:
  assumes "unscored a = unscored b"
  shows "stats a = stats b" "src_type a = src_type b" "sel_options a = sel_options b" "sel_info a = sel_info b" "stratum a = stratum b"
    "updates a = updates b" "status a = status b" "src_ref_id a = src_ref_id b" "src_ip_addr a = src_ip_addr b" "sel_good a = sel_good b"
  using arg_cong [OF assms, of stats] arg_cong [OF assms, of src_type] arg_cong [OF assms, of sel_options] arg_cong [OF assms, of sel_info]
    arg_cong [OF assms, of stratum] arg_cong [OF assms, of updates] arg_cong [OF assms, of status] arg_cong [OF assms, of src_ref_id]
    arg_cong [OF assms, of src_ip_addr]
  by (simp_all add: unscored_def sel_good_def)

definition scoring :: "SRC_State \<Rightarrow> nat \<Rightarrow> SRC_State \<times> real \<times> nat option \<Rightarrow> bool" where
  "scoring st0 k = (\<lambda>(st, max_score, idx). rest st = rest st0 \<and> length (sources st) = length (sources st0) \<and>
     (\<forall>j<length (sources st0). unscored (sources st ! j) = unscored (sources st0 ! j) \<and> 0 < sel_score (sources st ! j) \<and>
       (status (sources st0 ! j) = SRC_OK \<longrightarrow> distant (sources st ! j) = distant (sources st0 ! j))) \<and> 0 \<le> max_score \<and>
     (case idx of None \<Rightarrow> max_score = 0 \<and> (\<forall>j<k. j < length (sources st0) \<longrightarrow> status (sources st0 ! j) \<noteq> SRC_OK)
      | Some i \<Rightarrow> i < length (sources st0) \<and> status (sources st0 ! i) = SRC_OK))"

definition weights_ok :: "SRC_State \<Rightarrow> bool" where
  "weights_ok st \<longleftrightarrow> 0 \<le> reselect_distance st \<and> 0 \<le> stratum_weight st"

lemma score_step:
  assumes "k < length (sources st0)" "scoring st0 k s" "weights_ok st0"
    "\<forall>i\<in>set (ok_sources st0). sel_good (sources st0 ! i) \<and> (sp \<longrightarrow> opt_prefer (sources st0 ! i)) \<and> min_s \<le> stratum (sources st0 ! i)"
  shows "scoring st0 (Suc k) (update_score sp min_s sd upd k s)"
proof -
  obtain st mx idx where s: "s = (st, mx, idx)" by (cases s)
  let ?s = "sources st ! k"
  have r: "rest st = rest st0" "length (sources st) = length (sources st0)" "unscored ?s = unscored (sources st0 ! k)" "0 < sel_score ?s" "0 \<le> mx"
    using assms(1,2) by (auto simp: scoring_def s)
  note u = unscored_fields [OF r(3)]
  have upd: "scoring st0 k (upd_source k f st, mx, idx)" if "\<And>s. unscored (f s) = unscored s" "0 < sel_score (f ?s)"
      "status ?s = SRC_OK \<Longrightarrow> distant (f ?s) = distant ?s" for f
    using assms(1,2) that u(7) by (auto simp: scoring_def s nth_list_update)
  show ?thesis
  proof (cases "status ?s = SRC_OK")
    case False
    have "scoring st0 k (upd_source k (\<lambda>s. s\<lparr>sel_score := 1, distant := 32\<rparr>) st, mx, idx)" by (rule upd) (use False in \<open>auto simp: unscored_def\<close>)
    then show ?thesis using False u(7) by (auto simp: update_score_def s Let_def scoring_def less_Suc_eq split: option.splits)
  next
    case True
    then have k: "k \<in> set (ok_sources st0)" using u(7) assms(1) by (simp add: set_ok_sources)
    then have g: "sel_good ?s" "sp \<longrightarrow> opt_prefer ?s" "min_s \<le> stratum ?s" using assms(4) u(3,5,10) by auto
    define dist where "dist = score_distance min_s st ?s + (if src_type ?s = SRC_NTP then reselect_distance st else 0)"
    define score where "score = (case selected_source_index st of
        Some sel \<Rightarrow> if upd = Some k \<or> upd = Some sel then max 1 (sel_score ?s * (sd / dist)) else sel_score ?s | None \<Rightarrow> 1 / dist)"
    have "0 < score_distance min_s st ?s"
      using g(1,3) assms(3) rest_fields(8) [OF r(1)] unfolding score_distance_def sel_good_def weights_ok_def by (intro add_pos_nonneg mult_nonneg_nonneg) auto
    then have "0 < dist" using assms(3) rest_fields(7) [OF r(1)] by (auto simp: dist_def weights_ok_def add_pos_nonneg)
    then have pos: "0 < score" using r(4) by (auto simp: score_def split: option.splits)
    have e: "update_score sp min_s sd upd k s = (if mx < score then (upd_source k (\<lambda>s. s\<lparr>sel_score := score\<rparr>) st, score, Some k)
        else (upd_source k (\<lambda>s. s\<lparr>sel_score := score\<rparr>) st, mx, idx))"
    proof -
      have c: "\<not> (status ?s \<noteq> SRC_OK \<or> sp \<and> \<not> opt_prefer ?s)" using True g(2) by blast
      show ?thesis unfolding update_score_def s prod.case Let_def if_not_P [OF c] dist_def [symmetric] score_def [symmetric] ..
    qed
    have "scoring st0 k (upd_source k (\<lambda>s. s\<lparr>sel_score := score\<rparr>) st, mx, idx)"
      by (rule upd) (use pos in \<open>auto simp: unscored_def\<close>)
    then show ?thesis unfolding e using pos r(5) assms(1) True u(7)
      by (auto simp: scoring_def less_Suc_eq split: option.splits)
  qed
qed

lemma fold_min_le:
  fixes f :: "'b \<Rightarrow> 'a :: linorder"
  shows "fold (\<lambda>i m. if m > f i then f i else m) xs m \<le> m \<and> (\<forall>i\<in>set xs. fold (\<lambda>i m. if m > f i then f i else m) xs m \<le> f i)"
proof (induction xs arbitrary: m)
  case (Cons y ys)
  let ?m = "if m > f y then f y else m"
  have "?m \<le> m" "?m \<le> f y" by auto
  then show ?case using Cons.IH [of ?m] by (auto intro: order_trans)
qed simp

lemma min_stratum_le: "i \<in> set sel \<Longrightarrow> min_sel_stratum sel st \<le> stratum (sources st ! i)"
  using fold_min_le [of "\<lambda>i. stratum (sources st ! i)" "tl sel" "stratum (sources st ! hd sel)"] by (cases sel) (auto simp: min_sel_stratum_def)

lemma scores_updated:
  assumes "ok_sources st = sel" "sel \<noteq> []" "weights_ok st" "\<forall>i\<in>set sel. sel_good (sources st ! i) \<and> (sp \<longrightarrow> opt_prefer (sources st ! i))"
    "\<forall>s\<in>set (sources st). 0 < sel_score s"
  obtains st' mx i where "update_scores sp sel upd st = (st', mx, Some i)" "scoring st (length (sources st)) (st', mx, Some i)" "i \<in> set sel"
proof -
  let ?n = "length (sources st)"
  have "scoring st ?n (update_scores sp sel upd st)"
    unfolding update_scores_def Let_def
    by (rule fold_upt [where I = "scoring st"], rule score_step) (use assms min_stratum_le in \<open>auto simp: scoring_def\<close>)
  then obtain st' mx idx where u: "update_scores sp sel upd st = (st', mx, idx)" "scoring st ?n (st', mx, idx)" by (metis prod_cases3)
  obtain j where "j \<in> set (ok_sources st)" using assms(1,2) hd_in_set by blast
  then obtain i where "idx = Some i" using u(2) by (cases idx) (auto simp: scoring_def set_ok_sources)
  with u show thesis using that [of st' mx i] assms(1) by (auto simp: scoring_def set_ok_sources)
qed

section \<open>Combining the sources and setting the reference\<close>

lemma for_each_list:
  assumes "\<And>ps x qs s. xs = ps @ x # qs \<Longrightarrow> I ps s \<Longrightarrow> \<exists>s'. f x s = Some s' \<and> I (ps @ [x]) s'" "I [] s"
  shows "\<exists>s'. for_each f xs s = Some s' \<and> I xs s'"
proof -
  have "\<exists>s'. for_each f qs s = Some s' \<and> I xs s'" if "xs = ps @ qs" "I ps s" for ps qs s
    using that
  proof (induction qs arbitrary: ps s)
    case (Cons x qs)
    from assms(1) [OF Cons.prems] obtain s' where "f x s = Some s'" "I (ps @ [x]) s'" by blast
    then show ?case using Cons.IH [of "ps @ [x]" s'] Cons.prems(1) by simp
  qed simp
  from this [of "[]" xs s] assms(2) show ?thesis by simp
qed

definition dcore :: "SRC_Instance \<Rightarrow> SRC_Instance" where
  "dcore s = (core s)\<lparr>distant := 0\<rparr>"

lemma dcore_fields:
  assumes "dcore a = dcore b"
  shows "stats a = stats b" "src_type a = src_type b" "sel_options a = sel_options b" "sel_info a = sel_info b" "stratum a = stratum b"
    "sel_score a = sel_score b" "updates a = updates b" "src_ref_id a = src_ref_id b" "src_ip_addr a = src_ip_addr b" "sel_good a = sel_good b"
  using arg_cong [OF assms, of stats] arg_cong [OF assms, of src_type] arg_cong [OF assms, of sel_options] arg_cong [OF assms, of sel_info]
    arg_cong [OF assms, of stratum] arg_cong [OF assms, of sel_score] arg_cong [OF assms, of updates] arg_cong [OF assms, of src_ref_id]
    arg_cong [OF assms, of src_ip_addr]
  by (simp_all add: dcore_def core_def sel_good_def)

lemma dcore_core: "core a = core b \<Longrightarrow> dcore a = dcore b"
  by (simp add: dcore_def)

text \<open>The offset of a source at the time of the reference.\<close>

definition offset_at :: "TrackingData \<Rightarrow> TrackingData \<Rightarrow> real" where
  "offset_at ref src = average_offset src + UTI_DiffTimespecsToDouble (ref_time ref) (ref_time src) * td_frequency src"

text \<open>
  The sources that are combined: the selected one, and those that have a short distance and a close
  frequency and were not recently marked as distant.  The weight of a source, and the values
  of the combined ones.
\<close>

definition track :: "SRC_State \<Rightarrow> nat \<Rightarrow> TrackingData" where
  "track st i = the (SST_GetTrackingData (stats (sources st ! i)))"

definition selected_distance :: "SRC_State \<Rightarrow> nat \<Rightarrow> real" where
  "selected_distance st sel = si_root_distance (sel_info (sources st ! sel)) + (if src_type (sources st ! sel) = SRC_NTP then reselect_distance st else 0)"

definition joins :: "SRC_Env \<Rightarrow> nat \<Rightarrow> TrackingData \<Rightarrow> SRC_State \<Rightarrow> nat \<Rightarrow> bool" where
  "joins env sel ref st i \<longleftrightarrow> distant (sources st ! i) \<le> 1 \<and>
     (i = sel \<or> si_root_distance (sel_info (sources st ! i)) \<le> combine_limit st * selected_distance st sel \<and>
       \<bar>td_frequency ref - td_frequency (track st i)\<bar> \<le> combine_limit st * (td_skew ref + td_skew (track st i) + max_clock_error env))"

definition weight :: "SRC_State \<Rightarrow> nat \<Rightarrow> real" where
  "weight st i = 1 / si_root_distance (sel_info (sources st ! i))"

definition offset_var :: "TrackingData \<Rightarrow> TrackingData \<Rightarrow> real" where
  "offset_var ref src = (offset_sd src + UTI_DiffTimespecsToDouble (ref_time ref) (ref_time src) * td_frequency_sd src)\<^sup>2 + (offset_at ref src - average_offset ref)\<^sup>2"

definition weighted_mean :: "(nat \<Rightarrow> real) \<Rightarrow> (nat \<Rightarrow> real) \<Rightarrow> nat list \<Rightarrow> real" where
  "weighted_mean w x js = (\<Sum>i\<leftarrow>js. w i * x i) / (\<Sum>i\<leftarrow>js. w i)"

definition combining :: "SRC_State \<Rightarrow> nat \<Rightarrow> nat list \<Rightarrow> SRC_State \<Rightarrow> bool" where
  "combining st0 sel ps st \<longleftrightarrow> rest st = rest st0 \<and> length (sources st) = length (sources st0) \<and>
     (\<forall>j<length (sources st0). dcore (sources st ! j) = dcore (sources st0 ! j) \<and>
       (status (sources st ! j) = SRC_OK \<longrightarrow> status (sources st0 ! j) = SRC_OK \<and> j \<notin> set ps)) \<and>
     distant (sources st ! sel) = 0"

text \<open>The sources that were visited are combined or marked as distant; the others are as they were.\<close>

definition visited :: "SRC_Env \<Rightarrow> nat \<Rightarrow> TrackingData \<Rightarrow> SRC_State \<Rightarrow> nat list \<Rightarrow> SRC_State \<Rightarrow> bool" where
  "visited env sel ref st0 ps st \<longleftrightarrow> (\<forall>j<length (sources st0).
     if j \<notin> set ps then distant (sources st ! j) = distant (sources st0 ! j)
     else if joins env sel ref st0 j then distant (sources st ! j) = 0
     else distant (sources st ! j) \<noteq> 0 \<and> status (sources st ! j) = SRC_DISTANT)"

definition summed :: "SRC_Env \<Rightarrow> nat \<Rightarrow> TrackingData \<Rightarrow> SRC_State \<Rightarrow> nat list \<Rightarrow> CombineSums \<Rightarrow> bool" where
  "summed env sel ref st0 ps cs \<longleftrightarrow> (let js = filter (joins env sel ref st0) ps; src = track st0; w = weight st0 in
     combined cs = length js \<and> sum_offset_weight cs = (\<Sum>i\<leftarrow>js. w i) \<and> sum_offset cs = (\<Sum>i\<leftarrow>js. w i * offset_at ref (src i)) \<and>
     sum2_offset_sd cs = (\<Sum>i\<leftarrow>js. w i * offset_var ref (src i)) \<and> sum_frequency_weight cs = (\<Sum>i\<leftarrow>js. 1 / (td_frequency_sd (src i))\<^sup>2) \<and>
     sum_frequency cs = (\<Sum>i\<leftarrow>js. 1 / (td_frequency_sd (src i))\<^sup>2 * td_frequency (src i)) \<and>
     inv_sum2_frequency_sd cs = (\<Sum>i\<leftarrow>js. 1 / (td_frequency_sd (src i))\<^sup>2) \<and> inv_sum2_skew cs = (\<Sum>i\<leftarrow>js. 1 / (td_skew (src i))\<^sup>2))"

lemma tracking_some: "0 < n_samples inst \<Longrightarrow> \<exists>src. SST_GetTrackingData inst = Some src"
  by (simp add: SST_GetTrackingData_def Let_def)

lemma distant_updated:
  assumes "i < length (sources st)" "dcore (sources st ! i) = dcore (sources st0 ! i)" "rest st = rest st0" "distant (sources st ! i) = distant (sources st0 ! i)"
    "SST_GetTrackingData (stats (sources st0 ! i)) = Some src"
  shows "distant (update_distant (is_distant env sel (selected_distance st0 sel) ref i src st) (sources st ! i)) = 0 \<longleftrightarrow> joins env sel ref st0 i"
proof -
  have "track st0 i = src" using assms(5) by (simp add: track_def)
  moreover have "is_distant env sel (selected_distance st0 sel) ref i src st = is_distant env sel (selected_distance st0 sel) ref i src st0"
    unfolding is_distant_def dcore_fields(4) [OF assms(2)] rest_fields(9) [OF assms(3)] ..
  ultimately show ?thesis using assms(4) by (auto simp: joins_def update_distant_def is_distant_def)
qed

lemma visited_step:
  assumes "visited env sel ref st0 ps st" "i \<notin> set ps"
    "\<And>j. j < length (sources st0) \<Longrightarrow> j \<noteq> i \<Longrightarrow> distant (sources st' ! j) = distant (sources st ! j) \<and> status (sources st' ! j) = status (sources st ! j)"
    "if joins env sel ref st0 i then distant (sources st' ! i) = 0 else distant (sources st' ! i) \<noteq> 0 \<and> status (sources st' ! i) = SRC_DISTANT"
  shows "visited env sel ref st0 (ps @ [i]) st'"
proof -
  have "if j \<notin> set (ps @ [i]) then distant (sources st' ! j) = distant (sources st0 ! j)
     else if joins env sel ref st0 j then distant (sources st' ! j) = 0
     else distant (sources st' ! j) \<noteq> 0 \<and> status (sources st' ! j) = SRC_DISTANT" if "j < length (sources st0)" for j
  proof (cases "j = i")
    case True
    then show ?thesis using assms(4) by simp
  next
    case False
    then show ?thesis using assms(1) assms(3) [OF that False] that by (simp add: visited_def)
  qed
  then show ?thesis by (simp add: visited_def)
qed

lemma combine_step:
  assumes "i < length (sources st0)" "sel < length (sources st0)" "i \<notin> set ps" "combining st0 sel ps st" "visited env sel ref st0 ps st" "summed env sel ref st0 ps cs"
    "sel_good (sources st0 ! i)"
  shows "\<exists>st' cs'. combine_source env sel (selected_distance st0 sel) ref i (st, cs) = Some (st', cs') \<and> combining st0 sel (ps @ [i]) st' \<and>
    visited env sel ref st0 (ps @ [i]) st' \<and> summed env sel ref st0 (ps @ [i]) cs'"
proof -
  let ?sd = "selected_distance st0 sel"
  have c: "length (sources st) = length (sources st0)" "dcore (sources st ! i) = dcore (sources st0 ! i)"
    "distant (sources st ! sel) = 0" "rest st = rest st0" using assms(1,4) by (auto simp: combining_def)
  note u = dcore_fields [OF c(2)]
  have l: "i < length (sources st)" using assms(1) c(1) by simp
  have di: "distant (sources st ! i) = distant (sources st0 ! i)" using assms(1,3,5) by (auto simp: visited_def)
  obtain src where t0: "SST_GetTrackingData (stats (sources st0 ! i)) = Some src" using tracking_some assms(7) by (auto simp: sel_good_def)
  then have t: "SST_GetTrackingData (stats (sources st ! i)) = Some src" "track st0 i = src" using u(1) by (simp_all add: track_def)
  define far where "far = is_distant env sel ?sd ref i src st"
  define sa where "sa = upd_source i (update_distant far) st"
  have la: "i < length (sources sa)" "length (sources sa) = length (sources st0)" using l c(1) by (simp_all add: sa_def)
  have da: "dcore (update_distant far s) = dcore s" "status (update_distant far s) = status s" for s
    by (auto simp: update_distant_def dcore_def core_def)
  have sel_d: "distant (sources sa ! sel) = 0"
    using c(3) l by (cases "i = sel") (auto simp: sa_def update_distant_def far_def is_distant_def)
  have join: "distant (sources sa ! i) = 0 \<longleftrightarrow> joins env sel ref st0 i"
    using distant_updated [OF l c(2) c(4) di t0] l by (simp add: sa_def far_def)
  have other: "sources sa ! j = sources st ! j" if "j \<noteq> i" for j using that by (simp add: sa_def upd_source_def)
  have a1: "combining st0 sel ps sa" using assms(4) da l sel_d by (auto simp: combining_def sa_def nth_list_update)
  have mk: "combining st0 sel (ps @ [i]) (mark_source env i x sa)" "\<And>j. j < length (sources st0) \<Longrightarrow> distant (sources (mark_source env i x sa) ! j) = distant (sources sa ! j)"
    "\<And>j. j < length (sources st0) \<Longrightarrow> status (sources (mark_source env i x sa) ! j) = (if j = i then x else status (sources sa ! j))" if "x \<noteq> SRC_OK" for x
  proof -
    note m = mark_source_marks(1) [OF la(1), of env x]
    have *: "dcore (sources (mark_source env i x sa) ! j) = dcore (sources sa ! j)"
      "status (sources (mark_source env i x sa) ! j) = (if j = i then x else status (sources sa ! j))" if "j < length (sources st0)" for j
      using dcore_core [OF marks_core [OF m]] mark_status [OF la(1)] that la(2) by simp_all
    show **: "distant (sources (mark_source env i x sa) ! j) = distant (sources sa ! j)" if "j < length (sources st0)" for j
      using marks_fields(7) [OF m] that la(2) by simp
    show "status (sources (mark_source env i x sa) ! j) = (if j = i then x else status (sources sa ! j))" if "j < length (sources st0)" for j using *(2) that .
    show "combining st0 sel (ps @ [i]) (mark_source env i x sa)" using that a1 marks_length [OF m] marks_rest [OF m] * ** [OF assms(2)] by (auto simp: combining_def)
  qed
  show ?thesis
  proof (cases "distant (sources sa ! i) \<noteq> 0")
    case True
    have "summed env sel ref st0 (ps @ [i]) cs" using True join assms(6) by (simp add: summed_def)
    moreover have "visited env sel ref st0 (ps @ [i]) (mark_source env i SRC_DISTANT sa)"
      by (rule visited_step [OF assms(5,3)]) (use True join other mk(2,3) [of SRC_DISTANT] assms(1) in auto)
    moreover have "combine_source env sel ?sd ref i (st, cs) = Some (mark_source env i SRC_DISTANT sa, cs)"
      using True t by (simp add: combine_source_def Let_def far_def sa_def)
    ultimately show ?thesis using mk(1) [of SRC_DISTANT] by blast
  next
    case False
    define sb where "sb = (if status (sources sa ! i) = SRC_OK then mark_source env i SRC_UNSELECTED sa else sa)"
    have "sel_info (sources sb ! i) = sel_info (sources sa ! i)" using marks_fields(4) [OF mark_source_marks(1) [OF la(1)] la(1)] by (simp add: sb_def)
    also have "\<dots> = sel_info (sources st ! i)" using da(1) [of "sources st ! i"] l by (simp add: sa_def dcore_fields(4) [OF da(1)])
    finally have info: "1 / si_root_distance (sel_info (sources sb ! i)) = weight st0 i" using u(4) by (simp add: weight_def)
    let ?cs = "\<lparr>combined = combined cs + 1, sum_offset_weight = sum_offset_weight cs + weight st0 i, sum_offset = sum_offset cs + weight st0 i * offset_at ref src,
      sum2_offset_sd = sum2_offset_sd cs + weight st0 i * offset_var ref src, sum_frequency_weight = sum_frequency_weight cs + 1 / (td_frequency_sd src)\<^sup>2,
      sum_frequency = sum_frequency cs + 1 / (td_frequency_sd src)\<^sup>2 * td_frequency src,
      inv_sum2_frequency_sd = inv_sum2_frequency_sd cs + 1 / (td_frequency_sd src)\<^sup>2, inv_sum2_skew = inv_sum2_skew cs + 1 / (td_skew src)\<^sup>2\<rparr>"
    have r: "combine_source env sel ?sd ref i (st, cs) = Some (sb, ?cs)"
      using False unfolding combine_source_def prod.case t(1) Option.bind.bind_lunit Let_def far_def [symmetric] sa_def [symmetric] sb_def [symmetric] info offset_var_def offset_at_def
      by simp
    have "summed env sel ref st0 (ps @ [i]) ?cs" using False join assms(6) t(2) by (simp add: summed_def Let_def)
    moreover have "combining st0 sel (ps @ [i]) sb" using mk(1) [of SRC_UNSELECTED] a1 by (auto simp: sb_def combining_def)
    moreover have "visited env sel ref st0 (ps @ [i]) sb"
      by (rule visited_step [OF assms(5,3)]) (use False join other mk(2,3) [of SRC_UNSELECTED] assms(1) in \<open>auto simp: sb_def\<close>)
    ultimately show ?thesis using r by blast
  qed
qed

text \<open>The result of the combination.\<close>

definition combination :: "SRC_Env \<Rightarrow> nat \<Rightarrow> nat list \<Rightarrow> TrackingData \<Rightarrow> SRC_State \<Rightarrow> TrackingData" where
  "combination env sel sels ref st = (let js = filter (joins env sel ref st) sels; src = track st; w = weight st in
     ref\<lparr>average_offset := weighted_mean w (\<lambda>i. offset_at ref (src i)) js, offset_sd := sqrt (weighted_mean w (\<lambda>i. offset_var ref (src i)) js),
       td_frequency := weighted_mean (\<lambda>i. 1 / (td_frequency_sd (src i))\<^sup>2) (\<lambda>i. td_frequency (src i)) js,
       td_frequency_sd := 1 / sqrt (\<Sum>i\<leftarrow>js. 1 / (td_frequency_sd (src i))\<^sup>2), td_skew := 1 / sqrt (\<Sum>i\<leftarrow>js. 1 / (td_skew (src i))\<^sup>2)\<rparr>)"

lemma combined_sources:
  assumes "set sels \<subseteq> {..<length (sources st)}" "distinct sels" "sel \<in> set sels" "\<forall>i\<in>set sels. sel_good (sources st ! i)" "distant (sources st ! sel) = 0"
    "status (sources st ! sel) \<noteq> SRC_OK"
  obtains c ref' st' where "combine_sources env sel sels ref st = Some (c, ref', st')" "combining st sel sels st'"
    "if length sels = 1 then c = 1 \<and> ref' = ref \<and> st' = st
     else c = length (filter (joins env sel ref st) sels) \<and> ref' = combination env sel sels ref st \<and> visited env sel ref st sels st'"
proof (cases "length sels = 1")
  case True
  then have "sels = [sel]" using assms(3) by (cases sels) auto
  then have "combining st sel sels st" using assms(5,6) by (auto simp: combining_def)
  then show thesis using that [of 1 ref st] True by (simp add: combine_sources_def)
next
  case False
  let ?d = "selected_distance st sel"
  let ?cs = "\<lparr>combined = 0, sum_offset_weight = 0, sum_offset = 0, sum2_offset_sd = 0, sum_frequency_weight = 0, sum_frequency = 0, inv_sum2_frequency_sd = 0, inv_sum2_skew = 0\<rparr>"
  let ?I = "\<lambda>ps s. combining st sel ps (fst s) \<and> visited env sel ref st ps (fst s) \<and> summed env sel ref st ps (snd s)"
  have sel: "sel < length (sources st)" using assms(1,3) by auto
  have step: "\<exists>s'. combine_source env sel ?d ref x s = Some s' \<and> ?I (ps @ [x]) s'" if "sels = ps @ x # qs" "?I ps s" for ps x qs s
  proof -
    have x: "x < length (sources st)" "sel_good (sources st ! x)" "x \<notin> set ps" using that(1) assms(1,2,4) by auto
    from combine_step [OF x(1) sel x(3) conjunct1 [OF that(2)] conjunct1 [OF conjunct2 [OF that(2)]] conjunct2 [OF conjunct2 [OF that(2)]] x(2)]
    show ?thesis by auto
  qed
  have init: "?I [] (st, ?cs)" using assms(5) by (simp add: combining_def summed_def visited_def Let_def)
  have "\<exists>s'. for_each (combine_source env sel ?d ref) sels (st, ?cs) = Some s' \<and> ?I sels s'"
    by (rule for_each_list [where I = ?I], erule (1) step, rule init)
  then obtain st' cs where s': "for_each (combine_source env sel ?d ref) sels (st, ?cs) = Some (st', cs)" "combining st sel sels st'"
    "visited env sel ref st sels st'" "summed env sel ref st sels cs" by auto
  have "sel \<in> set (filter (joins env sel ref st) sels)" using assms(3,5) by (simp add: joins_def)
  from length_pos_if_in_set [OF this] have c: "combined cs \<noteq> 0" "combined cs = length (filter (joins env sel ref st) sels)"
    using s'(4) by (simp_all add: summed_def Let_def)
  have "combine_sources env sel sels ref st = Some (combined cs, combination env sel sels ref st, st')"
    using s'(1,4) c(1) False by (simp add: combine_sources_def selected_distance_def [symmetric] Let_def summed_def combination_def weighted_mean_def)
  then show thesis using that s'(2,3) c(2) False by simp
qed

text \<open>A mean with positive weights is not outside the values.\<close>

lemma weighted_mean_between:
  assumes "js \<noteq> []" "\<forall>i\<in>set js. 0 < w i"
  shows "Min (x ` set js) \<le> weighted_mean w x js" "weighted_mean w x js \<le> Max (x ` set js)"
proof -
  let ?a = "Min (x ` set js)" and ?b = "Max (x ` set js)"
  have *: "(\<Sum>i\<leftarrow>is. ?a * w i) \<le> (\<Sum>i\<leftarrow>is. w i * x i) \<and> (\<Sum>i\<leftarrow>is. w i * x i) \<le> (\<Sum>i\<leftarrow>is. ?b * w i)" if "set is \<subseteq> set js" for "is"
  proof -
    have "?a * w i \<le> w i * x i" "w i * x i \<le> ?b * w i" if "i \<in> set js" for i
      using that assms(2) by (simp_all add: mult.commute)
    then show ?thesis using that by (intro conjI sum_list_mono) auto
  qed
  have "0 < (\<Sum>i\<leftarrow>is. w i)" if "set is \<subseteq> set js" "is \<noteq> []" for "is"
    using that
  proof (induction "is")
    case (Cons i "is")
    have "0 < w i" "0 \<le> (\<Sum>i\<leftarrow>is. w i)" using Cons.prems(1) assms(2) by (force, intro sum_list_nonneg, force)
    then show ?case by simp
  qed simp
  from this [OF order_refl assms(1)] * [OF order_refl] show "?a \<le> weighted_mean w x js" "weighted_mean w x js \<le> ?b"
    by (simp_all add: weighted_mean_def sum_list_const_mult pos_le_divide_eq pos_divide_le_eq)
qed

definition reference_of :: "SRC_State \<Rightarrow> nat \<Rightarrow> nat \<Rightarrow> SRC_Effect \<Rightarrow> bool" where
  "reference_of st sel n e \<longleftrightarrow> (\<exists>l c d. e = REF_SetReference (stratum (sources st ! sel)) l c (src_ref_id (sources st ! sel)) (src_ip_addr (sources st ! sel)) d \<and> 1 \<le> c \<and> c \<le> n)"

definition refs :: "SRC_State \<Rightarrow> SRC_Effect list" where
  "refs st = filter is_REF_SetReference (effects st)"

lemma rest_refs: "rest st' = rest st \<Longrightarrow> refs st' = refs st"
  unfolding refs_def by (rule rest_fields(10))

text \<open>What the last part of the selection does with a selected source.\<close>

lemma reference_updated:
  assumes "sels = ok_sources st" "sel \<in> set sels" "\<forall>i\<in>set sels. sel_good (sources st ! i)" "distant (sources st ! sel) = 0"
  obtains st' where "update_reference env sel sels st = Some st'" "ok_sources st' = []" "length (sources st') = length (sources st)"
    "\<forall>j<length (sources st). stats (sources st' ! j) = stats (sources st ! j) \<and> sel_score (sources st' ! j) = sel_score (sources st ! j)"
    "distant (sources st' ! sel) = 0" "rest (st'\<lparr>effects := []\<rparr>) = rest (st\<lparr>effects := []\<rparr>)"
    "if updates (sources st ! sel) = 0 then refs st' = refs st else \<exists>e. reference_of st sel (length sels) e \<and> refs st' = refs st @ [e]"
proof -
  let ?n = "length (sources st)"
  have sub: "set sels \<subseteq> {..<?n}" "distinct sels" unfolding assms(1) by (auto simp: set_ok_sources)
  have sel: "sel < ?n" using assms(2) sub(1) by auto
  define s1 where "s1 = mark_source env sel SRC_SELECTED st"
  have m1: "marks st s1" unfolding s1_def by (rule mark_source_marks(1) [OF sel])
  note l1 = marks_length [OF m1]
  have st1: "status (sources s1 ! j) = (if j = sel then SRC_SELECTED else status (sources st ! j))" if "j < ?n" for j
    using mark_status [OF sel] that by (simp add: s1_def)
  have rest_effects: "rest (x\<lparr>effects := []\<rparr>) = rest (y\<lparr>effects := []\<rparr>)" if "rest x = rest y" for x y
    using that by (cases x, cases y) (simp add: rest_def)
  show thesis
  proof (cases "updates (sources st ! sel) = 0")
    case True
    let ?f = "\<lambda>i st. if status (sources st ! i) = SRC_OK then mark_source env i (if distant (sources st ! i) \<noteq> 0 then SRC_DISTANT else SRC_UNSELECTED) st else st"
    let ?h = "\<lambda>i x. if x = SRC_OK then if distant (sources s1 ! i) \<noteq> 0 then SRC_DISTANT else SRC_UNSELECTED else x"
    have s: "marks st' (?f i st') \<and> statuses (?f i st') = (statuses st')[i := ?h i (statuses st' ! i)]" if "i \<in> set sels" "marks s1 st'" for i st'
    proof -
      have i: "i < length (sources s1)" "i < length (sources st')" using that sub(1) l1 marks_length [OF that(2)] by auto
      show ?thesis using mark_source_marks [OF i(2)] i by (simp add: marks_fields(7) [OF that(2) i(1)])
    qed
    have sub1: "set sels \<subseteq> {..<length (sources s1)}" using sub(1) l1 by simp
    note f = fold_marks [of sels s1 ?f ?h, OF s sub(2) sub1]
    let ?s = "fold ?f sels s1"
    have m: "marks st ?s" using marks_trans [OF m1 f(1)] by blast
    have ok: "status (sources ?s ! j) \<noteq> SRC_OK" if "j < ?n" for j
      using f(2) [of j] that l1 st1 assms(1) by (auto simp: set_ok_sources)
    show thesis
    proof (rule that)
      show "update_reference env sel sels st = Some ?s"
        using True marks_fields(8) [OF m1 sel] by (simp add: update_reference_def Let_def s1_def)
      show "ok_sources ?s = []" using ok marks_length [OF m] by (auto simp: ok_sources_def filter_empty_conv)
    qed (use marks_length [OF m] marks_fields [OF m] sel assms(4) True rest_refs [OF marks_rest [OF m]] rest_effects [OF marks_rest [OF m]] in auto)
  next
    case False
    define s2 where "s2 = s1\<lparr>sources := map (\<lambda>s. s\<lparr>updates := 0\<rparr>) (sources s1)\<rparr>"
    have l2: "length (sources s2) = ?n" using l1 by (simp add: s2_def)
    have s2: "sources s2 ! j = (sources s1 ! j)\<lparr>updates := 0\<rparr>" if "j < ?n" for j using that l1 by (simp add: s2_def)
    have f2: "stats (sources s2 ! j) = stats (sources st ! j)" "sel_score (sources s2 ! j) = sel_score (sources st ! j)"
      "distant (sources s2 ! j) = distant (sources st ! j)" "sel_good (sources s2 ! j) = sel_good (sources st ! j)" "stratum (sources s2 ! j) = stratum (sources st ! j)"
      "src_ref_id (sources s2 ! j) = src_ref_id (sources st ! j)" "src_ip_addr (sources s2 ! j) = src_ip_addr (sources st ! j)" if "j < ?n" for j
      using s2 [OF that] marks_fields [OF m1 that] by (simp_all add: sel_good_def)
    have good: "\<forall>i\<in>set sels. sel_good (sources s2 ! i)" using assms(3) f2(4) sub(1) by auto
    obtain ref where ref: "SST_GetTrackingData (stats (sources s2 ! sel)) = Some ref" using good assms(2) tracking_some by (auto simp: sel_good_def)
    have "set sels \<subseteq> {..<length (sources s2)}" "distant (sources s2 ! sel) = 0" "status (sources s2 ! sel) \<noteq> SRC_OK"
      using sub(1) l2 f2(3) [OF sel] assms(4) st1 [OF sel] s2 [OF sel] by simp_all
    from combined_sources [where env = env and ref = ref, OF this(1) sub(2) assms(2) good this(2,3)] obtain c ref' s3 where
      c: "combine_sources env sel sels ref s2 = Some (c, ref', s3)" "combining s2 sel sels s3"
      and n: "if length sels = 1 then c = 1 \<and> ref' = ref \<and> s3 = s2
        else c = length (filter (joins env sel ref s2) sels) \<and> ref' = combination env sel sels ref s2 \<and> visited env sel ref s2 sels s3" .
    have "sel \<in> set (filter (joins env sel ref s2) sels)" using assms(2) f2(3) [OF sel] assms(4) by (simp add: joins_def)
    from length_pos_if_in_set [OF this] have "1 \<le> length (filter (joins env sel ref s2) sels)" by linarith
    then have c': "1 \<le> c" "c \<le> length sels" using n length_filter_le [of "joins env sel ref s2" sels] by (cases "length sels = 1"; simp)+
    have l3: "length (sources s3) = ?n" using c(2) l2 by (simp add: combining_def)
    have d3: "dcore (sources s3 ! j) = dcore (sources s2 ! j)" "status (sources s3 ! j) = SRC_OK \<Longrightarrow> status (sources s2 ! j) = SRC_OK \<and> j \<notin> set sels" if "j < ?n" for j
      using c(2) that l2 by (auto simp: combining_def)
    let ?e = "REF_SetReference (stratum (sources s3 ! sel)) (get_leap_status s2) c (src_ref_id (sources s3 ! sel)) (src_ip_addr (sources s3 ! sel)) ref'"
    have r3: "rest s3 = rest st" using c(2) marks_rest [OF m1] by (simp add: combining_def s2_def rest_def)
    have ok: "status (sources s3 ! j) \<noteq> SRC_OK" if "j < ?n" for j
      using d3(2) [OF that] s2 [OF that] st1 [OF that] that assms(1) by (auto simp: set_ok_sources split: if_splits)
    show thesis
    proof (rule that)
      show "update_reference env sel sels st = Some (emit ?e s3)"
        using False marks_fields(8) [OF m1 sel] ref c(1) by (simp add: update_reference_def Let_def s1_def [symmetric] s2_def [symmetric])
      show "ok_sources (emit ?e s3) = []" using ok l3 by (auto simp: ok_sources_def filter_empty_conv)
      show "\<forall>j<?n. stats (sources (emit ?e s3) ! j) = stats (sources st ! j) \<and> sel_score (sources (emit ?e s3) ! j) = sel_score (sources st ! j)"
        using dcore_fields(1,6) [OF d3(1)] f2(1,2) by simp
      show "distant (sources (emit ?e s3) ! sel) = 0" using c(2) by (simp add: combining_def)
      show "rest ((emit ?e s3)\<lparr>effects := []\<rparr>) = rest (st\<lparr>effects := []\<rparr>)" using rest_effects [OF r3] by (simp add: emit_def)
      have "reference_of st sel (length sels) ?e"
        unfolding reference_of_def dcore_fields(5,8,9) [OF d3(1) [OF sel]] f2(5-7) [OF sel] using c' by blast
      moreover have "refs (emit ?e s3) = refs st @ [?e]" using rest_refs [OF r3] by (simp add: refs_def)
      ultimately show "if updates (sources st ! sel) = 0 then refs (emit ?e s3) = refs st else \<exists>e. reference_of st sel (length sels) e \<and> refs (emit ?e s3) = refs st @ [e]"
        using False by auto
    qed (use l3 in simp)
  qed
qed

section \<open>The selection keeps the invariant\<close>

definition conf :: "SRC_State \<Rightarrow> SRC_State" where
  "conf st = st\<lparr>sources := [], effects := [], selected_source_index := None, reported_no_majority := False, report_selection_loss := False, forced_first_report := False\<rparr>"

lemma conf_rest: "rest st' = rest st \<Longrightarrow> conf st' = conf st"
  by (cases st, cases st') (simp add: rest_def conf_def)

lemma conf_rest_effects: "rest (st'\<lparr>effects := []\<rparr>) = rest (st\<lparr>effects := []\<rparr>) \<Longrightarrow> conf st' = conf st \<and> selected_source_index st' = selected_source_index st"
  by (cases st, cases st') (simp add: rest_def conf_def)

lemma conf_fields:
  assumes "conf st' = conf st"
  shows "last_updated_inst st' = last_updated_inst st" "weights_ok st' = weights_ok st"
  using arg_cong [OF assms, of last_updated_inst] arg_cong [OF assms, of reselect_distance] arg_cong [OF assms, of stratum_weight]
  by (simp_all add: conf_def weights_ok_def)

lemma unselect_fields:
  "sources (unselect_selected_source env msg st) = sources st" "conf (unselect_selected_source env msg st) = conf st"
  "selected_source_index (unselect_selected_source env msg st) = None" "refs (unselect_selected_source env msg st) = refs st"
  by (auto simp: unselect_selected_source_def log_selection_message_def conf_def refs_def emit_def Let_def split: option.splits)

text \<open>What a part of the selection keeps, and the reference it sets, if any, from one of the sources \<open>sels\<close>.\<close>

definition selection_result :: "SRC_State \<Rightarrow> nat list \<Rightarrow> SRC_State \<Rightarrow> bool" where
  "selection_result st sels st' \<longleftrightarrow> ok_sources st' = [] \<and> length (sources st') = length (sources st) \<and> conf st' = conf st \<and>
     (\<forall>j<length (sources st). stats (sources st' ! j) = stats (sources st ! j) \<and> 0 < sel_score (sources st' ! j)) \<and>
     (\<forall>i. selected_source_index st' = Some i \<longrightarrow> i < length (sources st) \<and> distant (sources st' ! i) = 0) \<and>
     (refs st' = refs st \<or> (\<exists>sel\<in>set sels. \<exists>e. selected_source_index st' = Some sel \<and> reference_of st sel (length sels) e \<and> refs st' = refs st @ [e]))"

lemma marked_result:
  assumes "marks st (f st)" "ok_sources (f st) = []" "selected_source_index (f st) = None \<or> (\<forall>i. selected_source_index st = Some i \<longrightarrow> i < length (sources st) \<and> distant (sources st ! i) = 0)"
    "\<forall>s\<in>set (sources st). 0 < sel_score s"
  shows "selection_result st sels (f st)"
  using assms(2,3,4) marks_length [OF assms(1)] marks_fields(1,6,7) [OF assms(1)] marks_rest_fields(1) [OF assms(1)] conf_rest [OF marks_rest [OF assms(1)]] rest_refs [OF marks_rest [OF assms(1)]]
  by (auto simp: selection_result_def)

lemma reset_commute: "(s :: SRC_Instance)\<lparr>reported_status := r, sel_score := a, distant := b\<rparr> = s\<lparr>sel_score := a, distant := b, reported_status := r\<rparr>"
  by (cases s) simp

lemma selected_from:
  assumes "sels = ok_sources st" "sels \<noteq> []" "weights_ok st" "\<forall>i\<in>set sels. sel_good (sources st ! i) \<and> (sp \<longrightarrow> opt_prefer (sources st ! i))"
    "\<forall>s\<in>set (sources st). 0 < sel_score s" "\<forall>i. selected_source_index st = Some i \<longrightarrow> i < length (sources st) \<and> distant (sources st ! i) = 0"
  obtains st' where "select_from env upd sp sels st = Some st'" "selection_result st sels st'"
proof -
  let ?n = "length (sources st)"
  obtain s1 mx i where u: "update_scores sp sels upd st = (s1, mx, Some i)" "scoring st ?n (s1, mx, Some i)" "i \<in> set sels"
    by (rule scores_updated [of st sels sp upd]) (use assms in auto)
  have r1: "rest s1 = rest st" and l1: "length (sources s1) = ?n" using u(2) by (auto simp: scoring_def)
  have f1: "unscored (sources s1 ! j) = unscored (sources st ! j)" "0 < sel_score (sources s1 ! j)"
      "status (sources st ! j) = SRC_OK \<Longrightarrow> distant (sources s1 ! j) = distant (sources st ! j)" if "j < ?n" for j
    using u(2) that by (auto simp: scoring_def)
  have ok1: "ok_sources s1 = sels" unfolding assms(1) using l1 unscored_fields(7) [OF f1(1)] by (auto simp: ok_sources_def intro: filter_cong)
  have sub: "j < ?n" "status (sources st ! j) = SRC_OK" if "j \<in> set sels" for j using that by (auto simp: assms(1) set_ok_sources)
  have good1: "\<forall>j\<in>set sels. sel_good (sources s1 ! j)" using assms(4) unscored_fields(10) [OF f1(1)] sub by auto
  have same: "reference_of s1 j m e = reference_of st j m e" if "j < ?n" for j m e
    using unscored_fields(5,8,9) [OF f1(1) [OF that]] by (simp add: reference_of_def)
  have ref: "\<exists>st'. update_reference env j sels s2 = Some st' \<and> selection_result st sels st'"
    if "j \<in> set sels" "distant (sources s2 ! j) = 0" "selected_source_index s2 = Some j" "length (sources s2) = ?n" "conf s2 = conf st" "refs s2 = refs st"
      "\<forall>k<?n. unscored (sources s2 ! k) = (unscored (sources st ! k))\<lparr>reported_status := reported_status (sources s2 ! k)\<rparr> \<and> 0 < sel_score (sources s2 ! k)" for j s2
  proof -
    note h0 = that and h = that(7)
    have g: "stats (sources s2 ! k) = stats (sources st ! k)" "status (sources s2 ! k) = status (sources st ! k)" "sel_good (sources s2 ! k) = sel_good (sources st ! k)"
      "reference_of s2 k m e = reference_of st k m e" if "k < ?n" for k m e
    proof -
      have "unscored (sources s2 ! k) = (unscored (sources st ! k))\<lparr>reported_status := reported_status (sources s2 ! k)\<rparr>"
        using that h by blast
      note q = arg_cong [OF this]
      show "stats (sources s2 ! k) = stats (sources st ! k)" "status (sources s2 ! k) = status (sources st ! k)" "sel_good (sources s2 ! k) = sel_good (sources st ! k)"
        "reference_of s2 k m e = reference_of st k m e"
        using q [of stats] q [of status] q [of sel_info] q [of stratum] q [of src_ref_id] q [of src_ip_addr] by (simp_all add: unscored_def sel_good_def reference_of_def)
    qed
    have "sels = ok_sources s2" unfolding assms(1) using that(4) g(2) by (auto simp: ok_sources_def intro: filter_cong)
    moreover have "\<forall>k\<in>set sels. sel_good (sources s2 ! k)" using assms(4) g(3) sub by auto
    ultimately obtain st' where r: "update_reference env j sels s2 = Some st'" "ok_sources st' = []" "length (sources st') = length (sources s2)"
      "\<forall>k<length (sources s2). stats (sources st' ! k) = stats (sources s2 ! k) \<and> sel_score (sources st' ! k) = sel_score (sources s2 ! k)"
      "distant (sources st' ! j) = 0" "rest (st'\<lparr>effects := []\<rparr>) = rest (s2\<lparr>effects := []\<rparr>)"
      "if updates (sources s2 ! j) = 0 then refs st' = refs s2 else \<exists>e. reference_of s2 j (length sels) e \<and> refs st' = refs s2 @ [e]"
      using reference_updated [of sels s2 j env] h0(1,2) by metis
    have "selection_result st sels st'"
      using r conf_rest_effects [OF r(6)] h0 g(1,4) sub [OF h0(1)] by (auto simp: selection_result_def split: if_splits)
    with r(1) show ?thesis by blast
  qed
  have waits: "selection_result st sels (mark_ok_sources SRC_WAITS_UPDATE (unselect_selected_source env None s1))"
  proof -
    note m = mark_ok_marks(1) [of "unselect_selected_source env None s1" SRC_WAITS_UPDATE]
    show ?thesis
      using mark_ok_marks(2) [of SRC_WAITS_UPDATE "unselect_selected_source env None s1"] marks_length [OF m] marks_fields(1,6) [OF m] marks_rest_fields(1) [OF m]
        conf_rest [OF marks_rest [OF m]] rest_refs [OF marks_rest [OF m]] conf_rest [OF r1] rest_refs [OF r1] l1 f1(2) unscored_fields(1) [OF f1(1)]
      by (simp add: selection_result_def unselect_fields)
  qed
  have new: "\<exists>st'. update_reference env i sels (reset_scores (s1\<lparr>selected_source_index := Some i\<rparr>)) = Some st' \<and> selection_result st sels st'"
  proof (rule ref [OF u(3)])
    show "\<forall>k<?n. unscored (sources (reset_scores (s1\<lparr>selected_source_index := Some i\<rparr>)) ! k) =
        (unscored (sources st ! k))\<lparr>reported_status := reported_status (sources (reset_scores (s1\<lparr>selected_source_index := Some i\<rparr>)) ! k)\<rparr> \<and>
      0 < sel_score (sources (reset_scores (s1\<lparr>selected_source_index := Some i\<rparr>)) ! k)"
      using arg_cong [OF f1(1), of _ "\<lambda>s. s\<lparr>reported_status := {}\<rparr>"] l1 by (simp add: reset_scores_def unscored_def reset_commute)
  qed (use sub [OF u(3)] l1 conf_rest [OF r1] rest_refs [OF r1] in \<open>auto simp: reset_scores_def conf_def refs_def\<close>)
  have sel1: "selected_source_index s1 = selected_source_index st" using rest_fields(1) [OF r1] .
  have keep: "\<exists>st'. update_reference env sel sels s1 = Some st' \<and> selection_result st sels st'"
    if "selected_source_index st = Some sel" "status (sources s1 ! sel) = SRC_OK" for sel
  proof -
    have n: "sel < ?n" "distant (sources st ! sel) = 0" using assms(6) that(1) by auto
    have o: "status (sources st ! sel) = SRC_OK" using unscored_fields(7) [OF f1(1) [OF n(1)]] that(2) by simp
    have "reported_status (sources s1 ! k) = reported_status (sources st ! k)" if "k < ?n" for k
      using arg_cong [OF f1(1) [OF that], of reported_status] by (simp add: unscored_def)
    then have un: "\<forall>k<?n. unscored (sources s1 ! k) = (unscored (sources st ! k))\<lparr>reported_status := reported_status (sources s1 ! k)\<rparr> \<and> 0 < sel_score (sources s1 ! k)"
      using f1(1,2) by (simp add: unscored_def)
    show ?thesis
      by (rule ref) (use n o that sel1 f1(3) [OF n(1)] l1 conf_rest [OF r1] rest_refs [OF r1] un in \<open>auto simp: assms(1) set_ok_sources\<close>)
  qed
  have "\<exists>st'. select_from env upd sp sels st = Some st' \<and> selection_result st sels st'"
    unfolding select_from_def u(1) prod.case option.case
    using waits new keep sel1 by (cases "selected_source_index st") auto
  then show thesis using that by blast
qed

lemma result_marks:
  assumes "marks st s1" "selection_result s1 sels st'" "set sels \<subseteq> set A" "length sels \<le> length A" "set A \<subseteq> {..<length (sources st)}"
  shows "selection_result st A st'"
proof -
  have r: "reference_of st j (length A) e" if "reference_of s1 j (length sels) e" "j < length (sources st)" for j e
    using that assms(4) marks_fields(5,9,10) [OF assms(1) that(2)] by (auto simp: reference_of_def)
  have "refs st' = refs st \<or> (\<exists>sel\<in>set A. \<exists>e. selected_source_index st' = Some sel \<and> reference_of st sel (length A) e \<and> refs st' = refs st @ [e])"
    using assms(2,3,5) rest_refs [OF marks_rest [OF assms(1)]] r unfolding selection_result_def by (metis lessThan_iff subset_iff)
  then show ?thesis using assms(2) marks_length [OF assms(1)] marks_fields(1) [OF assms(1)] conf_rest [OF marks_rest [OF assms(1)]] by (simp add: selection_result_def)
qed

definition selection_pre :: "SRC_State \<Rightarrow> bool" where
  "selection_pre st \<longleftrightarrow> weights_ok st \<and> (\<forall>s\<in>set (sources st). 0 < sel_score s) \<and>
     (\<forall>i. selected_source_index st = Some i \<longrightarrow> i < length (sources st) \<and> distant (sources st ! i) = 0)"

lemma pre_marks:
  assumes "selection_pre st" "marks st s1"
  shows "selection_pre s1"
proof -
  have "0 < sel_score s" if "s \<in> set (sources s1)" for s
  proof -
    from that obtain j where "j < length (sources st)" "s = sources s1 ! j" using marks_length [OF assms(2)] by (auto simp: in_set_conv_nth)
    then show ?thesis using assms(1) marks_fields(6) [OF assms(2)] by (simp add: selection_pre_def)
  qed
  then show ?thesis using assms(1) marks_length [OF assms(2)] marks_fields(7) [OF assms(2)] marks_rest_fields(1) [OF assms(2)] conf_fields(2) [OF conf_rest [OF marks_rest [OF assms(2)]]]
    by (auto simp: selection_pre_def)
qed

lemma refused_result:
  assumes "selection_pre st" "new \<noteq> SRC_OK" "sources s1 = sources st" "conf s1 = conf st" "refs s1 = refs st" "selected_source_index s1 = None"
  shows "selection_result st A (mark_ok_sources new s1)"
proof -
  note m = mark_ok_marks(1) [of s1 new]
  show ?thesis
    using mark_ok_marks(2) [OF assms(2), of s1] assms marks_length [OF m] marks_fields(1,6) [OF m] marks_rest_fields(1) [OF m] conf_rest [OF marks_rest [OF m]] rest_refs [OF marks_rest [OF m]]
    by (simp add: selection_result_def selection_pre_def)
qed

lemma admissible_selected:
  fixes w st
  defines "A \<equiv> filter (\<lambda>i. admissible w (sources st ! i)) (ok_sources st)"
  assumes "selection_pre st" "\<forall>i\<in>set (ok_sources st). sel_good (sources st ! i)"
  obtains st' where "select_admissible env upd req w st = Some st'" "selection_result st A st'"
    "refs st' \<noteq> refs st \<Longrightarrow> min_sources env \<le> int (length A) \<and> (req \<longrightarrow> (\<exists>i\<in>set A. opt_require (sources st ! i)))"
proof -
  have A: "set A \<subseteq> {..<length (sources st)}" "distinct A" by (auto simp: A_def set_ok_sources)
  obtain s1 req' where f: "fold (admit_source env w) [0..<length (sources st)] (st, [], req) = (s1, A, req')" "marks st s1" "ok_sources s1 = A"
      "req' = (req \<and> (\<forall>i\<in>set A. \<not> opt_require (sources st ! i)))"
    using admitted [of env w st req] unfolding A_def by metis
  note pre1 = pre_marks [OF assms(2) f(2)]
  show thesis
  proof (cases "A = [] \<or> req' \<or> int (length A) < min_sources env")
    case True
    let ?msg = "Some (if A = [] then NoAdmissibleSources else if req' then NoRequiredSource else NotEnoughSources)"
    let ?s = "mark_ok_sources SRC_WAITS_SOURCES (unselect_selected_source env ?msg s1)"
    have "selection_result s1 [] ?s" by (rule refused_result [OF pre1]) (simp_all add: unselect_fields)
    then have r: "selection_result st A ?s" by (rule result_marks [OF f(2)]) (use A in auto)
    have "refs ?s = refs st" using \<open>selection_result s1 [] ?s\<close> rest_refs [OF marks_rest [OF f(2)]] by (simp add: selection_result_def)
    then show thesis using that [OF _ r] True f(1) by (simp add: select_admissible_def)
  next
    case False
    have A1: "set A \<subseteq> {..<length (sources s1)}" using A(1) marks_length [OF f(2)] by simp
    define s2 where "s2 = enable_votes w A s1"
    have m2: "marks st s2" and ok2: "ok_sources s2 = A" using votes_marks [OF A(2) A1, of w] f(2,3) marks_trans by (auto simp: s2_def)
    obtain sp sels s3 where p: "reduce_preferred env A s2 = (sp, sels, s3)" "marks s2 s3" "ok_sources s3 = sels" "sels \<noteq> []"
        "sels = (if sp then filter (\<lambda>i. opt_prefer (sources s2 ! i)) A else A)"
      by (rule preferred [of A s2 env]) (use ok2 False in auto)
    have m3: "marks st s3" using m2 p(2) by (rule marks_trans)
    have sub: "set sels \<subseteq> set A" "length sels \<le> length A" unfolding p(5) by auto
    have g: "\<forall>i\<in>set sels. sel_good (sources s3 ! i) \<and> (sp \<longrightarrow> opt_prefer (sources s3 ! i))"
    proof
      fix i assume i: "i \<in> set sels"
      then have n: "i \<in> set A" "i < length (sources st)" "i < length (sources s2)" using sub(1) A(1) marks_length [OF m2] by auto
      have "sel_good (sources st ! i)" using assms(3) n(1) by (auto simp: A_def)
      moreover have "sp \<longrightarrow> opt_prefer (sources s2 ! i)" using i p(5) by auto
      ultimately show "sel_good (sources s3 ! i) \<and> (sp \<longrightarrow> opt_prefer (sources s3 ! i))"
        using sel_good_core [OF marks_core [OF m3 n(2)]] marks_fields(3) [OF p(2) n(3)] by simp
    qed
    note pre3 = pre_marks [OF assms(2) m3]
    from selected_from [of sels s3 sp env upd] p(3,4) g pre3 obtain st' where
      s: "select_from env upd sp sels s3 = Some st'" "selection_result s3 sels st'" unfolding selection_pre_def by metis
    have e: "select_admissible env upd req w st = Some st'"
      using False f(1) p(1,4) s(1) by (simp add: select_admissible_def s2_def)
    show thesis by (rule that [OF e result_marks [OF m3 s(2) sub A(1)]]) (use False f(4) in auto)
  qed
qed

definition sources_ok :: "SRC_State \<Rightarrow> bool" where
  "sources_ok st \<longleftrightarrow> (\<forall>s\<in>set (sources st). status s \<noteq> SRC_OK \<and> good_stats (stats s) \<and> 0 < sel_score s) \<and>
     (\<forall>i. selected_source_index st = Some i \<longrightarrow> i < length (sources st) \<and> distant (sources st ! i) = 0) \<and>
     (\<forall>i. last_updated_inst st = Some i \<longrightarrow> i < length (sources st)) \<and> weights_ok st"

definition env_ok :: "SRC_Env \<Rightarrow> bool" where
  "env_ok env \<longleftrightarrow> 0 \<le> max_clock_error env \<and> qsort_function (qsort env)"

lemma result_sources_ok:
  assumes "selection_result st A st'" "\<forall>s\<in>set (sources st). good_stats (stats s)" "\<forall>i. last_updated_inst st = Some i \<longrightarrow> i < length (sources st)" "weights_ok st"
  shows "sources_ok st'"
proof -
  have r: "ok_sources st' = []" "length (sources st') = length (sources st)" "conf st' = conf st" using assms(1) by (auto simp: selection_result_def)
  have "status s \<noteq> SRC_OK \<and> good_stats (stats s) \<and> 0 < sel_score s" if "s \<in> set (sources st')" for s
  proof -
    from that obtain j where j: "j < length (sources st)" "s = sources st' ! j" using r(2) by (auto simp: in_set_conv_nth)
    then have "status s \<noteq> SRC_OK" using r(1,2) by (auto simp: ok_sources_def filter_empty_conv)
    then show ?thesis using assms(1,2) j by (auto simp: selection_result_def)
  qed
  then show ?thesis using assms r conf_fields [OF r(3)] by (auto simp: sources_ok_def selection_result_def)
qed

lemma ok_upd:
  assumes "sources_ok st" "i < length (sources st)" "status (f (sources st ! i)) \<noteq> SRC_OK" "good_stats (stats (f (sources st ! i)))"
    "0 < sel_score (f (sources st ! i))" "distant (sources st ! i) = 0 \<Longrightarrow> distant (f (sources st ! i)) = 0"
  shows "sources_ok (upd_source i f st)"
proof -
  have "status s \<noteq> SRC_OK \<and> good_stats (stats s) \<and> 0 < sel_score s" if "s \<in> set ((sources st)[i := f (sources st ! i)])" for s
    using that assms(1,3,4,5) set_update_subset_insert [of "sources st" i "f (sources st ! i)"] unfolding sources_ok_def by blast
  then show ?thesis using assms(1,2,6) by (auto simp: sources_ok_def upd_source_def weights_ok_def nth_list_update)
qed

lemma ok_nth:
  assumes "sources_ok st" "i < length (sources st)"
  shows "status (sources st ! i) \<noteq> SRC_OK" "good_stats (stats (sources st ! i))" "0 < sel_score (sources st ! i)"
  using assms nth_mem [OF assms(2)] by (auto simp: sources_ok_def)

definition with_update :: "nat option \<Rightarrow> SRC_State \<Rightarrow> SRC_State" where
  "with_update upd st = (case upd of Some i \<Rightarrow> (upd_source i (\<lambda>s. s\<lparr>updates := updates s + 1\<rparr>) st)\<lparr>last_updated_inst := Some i\<rparr> | None \<Rightarrow> st)"

lemma with_update_ok:
  assumes "sources_ok st" "\<And>i. upd = Some i \<Longrightarrow> i < length (sources st)"
  shows "sources_ok (with_update upd st)" "refs (with_update upd st) = refs st"
proof -
  have "sources_ok (with_update upd st) \<and> refs (with_update upd st) = refs st"
  proof (cases upd)
    case (Some i)
    have i: "i < length (sources st)" using assms(2) Some by simp
    have "sources_ok (upd_source i (\<lambda>s. s\<lparr>updates := updates s + 1\<rparr>) st)" by (rule ok_upd [OF assms(1) i]) (use ok_nth [OF assms(1) i] in simp_all)
    then show ?thesis using Some i by (simp add: with_update_def sources_ok_def weights_ok_def refs_def)
  qed (use assms in \<open>simp add: with_update_def\<close>)
  then show "sources_ok (with_update upd st)" "refs (with_update upd st) = refs st" by blast+
qed

text \<open>The sources and the interval that the selection finds.\<close>

lemma find_interval_sources: "sources st' = sources st \<Longrightarrow> find_interval env n st' = find_interval env n st"
  by (simp add: find_interval_def endpoints_def ok_sources_def Let_def)

text \<open>
  What holds after the selectable sources are found, what an outcome of the selection keeps of
  it, and when a new reference is set.
\<close>

definition found_ok :: "SRC_State \<Rightarrow> bool" where
  "found_ok st \<longleftrightarrow> selection_pre st \<and> (\<forall>s\<in>set (sources st). good_stats (stats s)) \<and>
     (\<forall>i. last_updated_inst st = Some i \<longrightarrow> i < length (sources st)) \<and> (\<forall>i\<in>set (ok_sources st). sel_good (sources st ! i))"

definition settled :: "SRC_State \<Rightarrow> SRC_State \<Rightarrow> bool" where
  "settled st st' \<longleftrightarrow> sources_ok st' \<and> length (sources st') = length (sources st) \<and> map stats (sources st') = map stats (sources st)"

definition reference_chosen :: "SRC_Env \<Rightarrow> SelectScan \<Rightarrow> SRC_State \<Rightarrow> SRC_State \<Rightarrow> bool" where
  "reference_chosen env scan st st' \<longleftrightarrow> (\<exists>w sel e. find_interval env (length (ok_sources st)) st = Some w \<and>
     has_majority (length (ok_sources st)) (length (filter (\<lambda>i. opt_trust (sources st ! i)) (ok_sources st))) w \<and>
     (let A = filter (\<lambda>i. admissible w (sources st ! i)) (ok_sources st) in
      sel \<in> set A \<and> selected_source_index st' = Some sel \<and> reference_of st sel (length A) e \<and> refs st' = refs st @ [e] \<and>
      min_sources env \<le> int (length A) \<and> (sel_req_source scan \<longrightarrow> (\<exists>i\<in>set A. opt_require (sources st ! i)))))"

lemma result_stats: "selection_result st A st' \<Longrightarrow> length (sources st') = length (sources st) \<and> map stats (sources st') = map stats (sources st)"
  by (intro conjI nth_equalityI) (simp_all add: selection_result_def)

lemma result_settled: "found_ok st \<Longrightarrow> selection_result st A st' \<Longrightarrow> settled st st'"
  using result_sources_ok [of st A st'] result_stats [of st A st'] by (simp add: found_ok_def settled_def selection_pre_def)

lemma found_same:
  assumes "found_ok st" "sources st' = sources st" "conf st' = conf st" "selected_source_index st' = selected_source_index st"
  shows "found_ok st'"
  using assms conf_fields [OF assms(3)] by (simp add: found_ok_def selection_pre_def ok_sources_def)

lemma chosen_same:
  assumes "sources st2 = sources st" "refs st2 = refs st"
  shows "reference_chosen env scan st2 st' = reference_chosen env scan st st'"
  unfolding reference_chosen_def reference_of_def ok_sources_def find_interval_sources [OF assms(1)] assms ..

lemma unselect_ok: "sources_ok st \<Longrightarrow> sources_ok (unselect_selected_source env msg st)"
  using conf_fields [OF unselect_fields(2) [of env msg st]] by (simp add: sources_ok_def unselect_fields)

lemma waiting_settled:
  assumes "found_ok st"
  shows "settled st (unselect_selected_source env None (mark_ok_sources SRC_WAITS_STATS st))"
    "refs (unselect_selected_source env None (mark_ok_sources SRC_WAITS_STATS st)) = refs st"
proof -
  have r: "selection_result st [] (mark_ok_sources SRC_WAITS_STATS st)"
    by (rule marked_result [OF mark_ok_marks(1)]) (use mark_ok_marks(2) assms in \<open>auto simp: found_ok_def selection_pre_def\<close>)
  show "settled st (unselect_selected_source env None (mark_ok_sources SRC_WAITS_STATS st))"
    using result_settled [OF assms r] unselect_ok by (simp add: settled_def unselect_fields)
  show "refs (unselect_selected_source env None (mark_ok_sources SRC_WAITS_STATS st)) = refs st"
    using r by (simp add: unselect_fields selection_result_def)
qed

lemma nothing_selectable:
  assumes "found_ok st" "ok_sources st = []"
  shows "settled st (unselect_selected_source env msg st)"
proof -
  have "sources_ok st" using assms by (auto simp: found_ok_def selection_pre_def sources_ok_def ok_sources_def filter_empty_conv all_set_conv_all_nth)
  from unselect_ok [OF this] show ?thesis by (simp add: settled_def unselect_fields)
qed

lemma majority_refused:
  assumes "found_ok st"
  shows "settled st (refuse_majority env d n b st)" "refs (refuse_majority env d n b st) = refs st"
proof -
  have pre: "selection_pre st" using assms by (simp add: found_ok_def)
  have r: "selection_result st [] (refuse_majority env d n b st)"
    unfolding refuse_majority_def Let_def
    by (rule refused_result [OF pre]) (auto simp: log_selection_message_def emit_def conf_def refs_def)
  then show "settled st (refuse_majority env d n b st)" by (rule result_settled [OF assms])
  show "refs (refuse_majority env d n b st) = refs st" using r by (simp add: selection_result_def)
qed

lemma majority_accepted:
  assumes "found_ok st" "find_interval env (length (ok_sources st)) st = Some w"
    "has_majority (length (ok_sources st)) (length (filter (\<lambda>i. opt_trust (sources st ! i)) (ok_sources st))) w"
  obtains st' where "select_admissible env upd (sel_req_source scan) w st = Some st'" "settled st st'"
    "refs st' = refs st \<or> reference_chosen env scan st st'"
proof -
  let ?A = "filter (\<lambda>i. admissible w (sources st ! i)) (ok_sources st)"
  obtain st' where s: "select_admissible env upd (sel_req_source scan) w st = Some st'" "selection_result st ?A st'"
      "refs st' \<noteq> refs st \<longrightarrow> min_sources env \<le> int (length ?A) \<and> (sel_req_source scan \<longrightarrow> (\<exists>i\<in>set ?A. opt_require (sources st ! i)))"
    by (rule admissible_selected [where st = st and w = w and env = env and upd = upd and req = "sel_req_source scan"])
      (use assms(1) in \<open>auto simp: found_ok_def\<close>)
  have "reference_chosen env scan st st'" if n: "refs st' \<noteq> refs st"
  proof -
    obtain sel e where "sel \<in> set ?A" "selected_source_index st' = Some sel" "reference_of st sel (length ?A) e" "refs st' = refs st @ [e]"
      using s(2) n unfolding selection_result_def by blast
    then show ?thesis using assms(2,3) s(3) n unfolding reference_chosen_def Let_def by blast
  qed
  then show thesis using that [OF s(1) result_settled [OF assms(1) s(2)]] by blast
qed

text \<open>The part of the selection after the selectable sources are found.\<close>

definition select_found :: "SRC_Env \<Rightarrow> nat option \<Rightarrow> SRC_State \<Rightarrow> SelectScan \<Rightarrow> nat \<Rightarrow> SRC_State option" where
  "select_found env upd st scan n_sel_sources =
     (if n_badstats_sources scan \<noteq> 0 \<and> n_sel_sources \<noteq> 0 \<and> selected_source_index st = None \<and>
         max_sel_reach_size scan < SOURCE_REACH_BITS \<and> max_sel_reach scan div 2 = max_badstat_reach scan
      then Some (unselect_selected_source env None (mark_ok_sources SRC_WAITS_STATS st))
      else
        let st = (if \<not> forced_first_report st \<and> max (max_sel_reach_size scan) (max_badstat_reach_size scan) = SOURCE_REACH_BITS
              then st\<lparr>report_selection_loss := True, forced_first_report := True\<rparr> else st);
            n_sel_trust_sources = length (filter (\<lambda>i. opt_trust (sources st ! i)) (ok_sources st)) in
        if endpoints st = [] then Some (unselect_selected_source env (Some (NoSelectableSources (n_unreach_sources scan))) st)
        else Option.bind (find_interval env n_sel_sources st) (\<lambda>w.
          if \<not> has_majority n_sel_sources n_sel_trust_sources w then
            Some (if best_trust_depth w > 0 then refuse_majority env (best_trust_depth w) (int n_sel_trust_sources) True st
                  else refuse_majority env (best_depth w) (int n_sel_sources) False st)
          else select_admissible env upd (sel_req_source scan) w st))"

lemma select_source_parts:
  "SRC_SelectSource env upd st = (if sources (with_update upd st) = [] then Some (unselect_selected_source env (Some NoSources) (with_update upd st))
     else Option.bind (find_selectable env (with_update upd st)) (\<lambda>(st, scan, n_sel_sources). select_found env upd st scan n_sel_sources))"
  unfolding SRC_SelectSource_def select_found_def Let_def with_update_def ..

lemma endpoints_none: "endpoints st = [] \<longleftrightarrow> ok_sources st = []"
  using length_ends [of "\<lambda>i. sel_info (sources st ! i)" "ok_sources st"] by (auto simp: endpoints_ends)

lemma interval_selected:
  assumes "found_ok st" "env_ok env" "ok_sources st \<noteq> []"
  obtains w st' where "find_interval env (length (ok_sources st)) st = Some w"
    "(if \<not> has_majority (length (ok_sources st)) (length (filter (\<lambda>i. opt_trust (sources st ! i)) (ok_sources st))) w then
        Some (if best_trust_depth w > 0 then refuse_majority env (best_trust_depth w) (int (length (filter (\<lambda>i. opt_trust (sources st ! i)) (ok_sources st)))) True st
              else refuse_majority env (best_depth w) (int (length (ok_sources st))) False st)
      else select_admissible env upd (sel_req_source scan) w st) = Some st'"
    "settled st st'" "refs st' = refs st \<or> reference_chosen env scan st st'"
proof -
  let ?t = "filter (\<lambda>i. opt_trust (sources st ! i)) (ok_sources st)"
  have iv: "\<forall>i\<in>set (ok_sources st). lo_limit (sel_info (sources st ! i)) \<le> hi_limit (sel_info (sources st ! i))"
    using assms(1) by (simp add: found_ok_def sel_good_def)
  have q: "qsort_function (qsort env)" using assms(2) by (simp add: env_ok_def)
  from interval_found [OF q assms(3) iv] obtain w where w: "find_interval env (length (ok_sources st)) st = Some w" by blast
  show thesis
  proof (cases "has_majority (length (ok_sources st)) (length ?t) w")
    case False
    then show thesis using that [OF w] majority_refused [OF assms(1)] by (cases "best_trust_depth w > 0") simp_all
  next
    case True
    from majority_accepted [OF assms(1) w True, of upd scan] obtain st' where
      "select_admissible env upd (sel_req_source scan) w st = Some st'" "settled st st'" "refs st' = refs st \<or> reference_chosen env scan st st'" .
    then show thesis using that [OF w] True by simp
  qed
qed

lemma found_selected:
  assumes "found_ok st" "env_ok env"
  obtains st' where "select_found env upd st scan (length (ok_sources st)) = Some st'" "settled st st'"
    "refs st' = refs st \<or> reference_chosen env scan st st'"
proof -
  let ?waits = "n_badstats_sources scan \<noteq> 0 \<and> length (ok_sources st) \<noteq> 0 \<and> selected_source_index st = None \<and>
      max_sel_reach_size scan < SOURCE_REACH_BITS \<and> max_sel_reach scan div 2 = max_badstat_reach scan"
  define s2 where "s2 = (if \<not> forced_first_report st \<and> max (max_sel_reach_size scan) (max_badstat_reach_size scan) = SOURCE_REACH_BITS
      then st\<lparr>report_selection_loss := True, forced_first_report := True\<rparr> else st)"
  have s2: "sources s2 = sources st" "conf s2 = conf st" "refs s2 = refs st" "selected_source_index s2 = selected_source_index st" "ok_sources s2 = ok_sources st"
    by (auto simp: s2_def conf_def refs_def ok_sources_def)
  note ok2 = found_same [OF assms(1) s2(1,2,4)]
  have orig: "settled st st'" if "settled s2 st'" for st' using that s2(1) by (simp add: settled_def)
  consider (waits) ?waits | (none) "\<not> ?waits" "ok_sources st = []" | (some) "\<not> ?waits" "ok_sources st \<noteq> []" by blast
  then show thesis
  proof cases
    case waits
    then show thesis using that waiting_settled [OF assms(1)] by (simp add: select_found_def)
  next
    case none
    have e: "endpoints s2 = []" using none(2) s2(5) by (simp add: endpoints_none)
    have "select_found env upd st scan (length (ok_sources st)) = Some (unselect_selected_source env (Some (NoSelectableSources (n_unreach_sources scan))) s2)"
      unfolding select_found_def if_not_P [OF none(1)] Let_def s2_def [symmetric] if_P [OF e] ..
    moreover have "settled st (unselect_selected_source env (Some (NoSelectableSources (n_unreach_sources scan))) s2)"
      by (rule orig [OF nothing_selectable [OF ok2]]) (use none(2) s2(5) in simp)
    ultimately show thesis using that s2(3) by (simp add: unselect_fields)
  next
    case some
    have ne: "endpoints s2 \<noteq> []" "ok_sources s2 \<noteq> []" using some(2) s2(5) by (simp_all add: endpoints_none)
    from interval_selected [OF ok2 assms(2) ne(2), of upd scan] obtain w st' where
      w: "find_interval env (length (ok_sources s2)) s2 = Some w"
        "(if \<not> has_majority (length (ok_sources s2)) (length (filter (\<lambda>i. opt_trust (sources s2 ! i)) (ok_sources s2))) w then
            Some (if best_trust_depth w > 0 then refuse_majority env (best_trust_depth w) (int (length (filter (\<lambda>i. opt_trust (sources s2 ! i)) (ok_sources s2)))) True s2
                  else refuse_majority env (best_depth w) (int (length (ok_sources s2))) False s2)
          else select_admissible env upd (sel_req_source scan) w s2) = Some st'"
        "settled s2 st'" "refs st' = refs s2 \<or> reference_chosen env scan s2 st'" .
    have "select_found env upd st scan (length (ok_sources st)) = Some st'"
      unfolding select_found_def if_not_P [OF some(1)] Let_def s2_def [symmetric] if_not_P [OF ne(1)] w(1) [unfolded s2(5)] Option.bind.bind_lunit using w(2) unfolding s2(5) .
    then show thesis using that orig [OF w(3)] w(4) s2(3) chosen_same [OF s2(1,3)] by simp
  qed
qed

lemma selectable_found_ok:
  assumes "sources_ok st" "env_ok env"
  obtains st1 scan where "find_selectable env st = Some (st1, scan, length (ok_sources st1))" "found_ok st1"
    "map stats (sources st1) = map stats (sources st)" "refs st1 = refs st"
proof -
  have "\<forall>s\<in>set (sources st). status s \<noteq> SRC_OK \<and> good_stats (stats s)" "0 \<le> max_clock_error env" using assms by (auto simp: sources_ok_def env_ok_def)
  from selectable_found [OF this] obtain st1 scan where
    f: "find_selectable env st = Some (st1, scan, length (ok_sources st1))" "rest st1 = rest st" "length (sources st1) = length (sources st)"
      "\<forall>j<length (sources st). frame (sources st1 ! j) = frame (sources st ! j)" "\<forall>i\<in>set (ok_sources st1). sel_good (sources st1 ! i)" .
  have fr: "stats (sources st1 ! j) = stats (sources st ! j)" "sel_score (sources st1 ! j) = sel_score (sources st ! j)" "distant (sources st1 ! j) = distant (sources st ! j)"
    if "j < length (sources st)" for j using f(4) frame_fields(1,5,6) [of "sources st1 ! j" "sources st ! j"] that by auto
  have "selection_pre st1"
    using assms(1) f(3) fr(2,3) rest_fields(1) [OF f(2)] conf_fields(2) [OF conf_rest [OF f(2)]] ok_nth(3) [OF assms(1)]
    by (auto simp: selection_pre_def sources_ok_def all_set_conv_all_nth)
  moreover have "\<forall>s\<in>set (sources st1). good_stats (stats s)" using f(3) fr(1) ok_nth(2) [OF assms(1)] by (auto simp: all_set_conv_all_nth)
  moreover have "\<forall>i. last_updated_inst st1 = Some i \<longrightarrow> i < length (sources st1)"
    using assms(1) f(3) rest_fields(2) [OF f(2)] by (auto simp: sources_ok_def)
  ultimately have "found_ok st1" using f(5) by (simp add: found_ok_def)
  moreover have "map stats (sources st1) = map stats (sources st)" by (rule nth_equalityI) (use f(3) fr(1) in simp_all)
  ultimately show thesis using that f(1) rest_refs [OF f(2)] by blast
qed

lemma select_source_result:
  assumes "sources_ok st" "env_ok env" "\<And>i. upd = Some i \<Longrightarrow> i < length (sources st)"
  obtains st' where "SRC_SelectSource env upd st = Some st'" "sources_ok st'" "map stats (sources st') = map stats (sources st)"
    "refs st' = refs st \<or> (\<exists>st1 scan. find_selectable env (with_update upd st) = Some (st1, scan, length (ok_sources st1)) \<and>
       found_ok st1 \<and> refs st1 = refs st \<and> reference_chosen env scan st1 st')"
proof -
  let ?s = "with_update upd st"
  have ok: "sources_ok ?s" "refs ?s = refs st" using with_update_ok [OF assms(1,3)] by simp_all
  have l: "map stats (sources ?s) = map stats (sources st)" by (simp add: with_update_def upd_source_def map_update split: option.splits)
  show thesis
  proof (cases "sources ?s = []")
    case True
    then show thesis using that [of "unselect_selected_source env (Some NoSources) ?s"] unselect_ok [OF ok(1)] ok(2) l
      by (simp add: select_source_parts unselect_fields)
  next
    case False
    from selectable_found_ok [OF ok(1) assms(2)] obtain st1 scan where
      f: "find_selectable env ?s = Some (st1, scan, length (ok_sources st1))" "found_ok st1" "map stats (sources st1) = map stats (sources ?s)" "refs st1 = refs ?s" .
    from found_selected [OF f(2) assms(2), of upd scan] obtain st' where
      s: "select_found env upd st1 scan (length (ok_sources st1)) = Some st'" "settled st1 st'" "refs st' = refs st1 \<or> reference_chosen env scan st1 st'" .
    have "SRC_SelectSource env upd st = Some st'" using False f(1) s(1) by (simp add: select_source_parts)
    then show thesis
      by (rule that) (use s(2,3) f ok(2) l in \<open>auto simp: settled_def\<close>)
  qed
qed

end
