(* ===== verification/StatsInvariant.thy ===== *)
theory StatsInvariant
  imports Sourcestats
begin

text \<open>
  The invariant of the statistics of a source (\<open>sourcestats.c\<close>) between operations: the buffers are well formed,
  no sample is later than the last one, the root distances are positive and the best sample is one of the samples.  Every
  operation that changes the statistics returns and keeps it: a new sample with its regression, a change
  of the clock, an added dispersion and the loading of a dump file.
\<close>

section \<open>The invariant\<close>

text \<open>A normalised time with seconds in the range of a 64-bit \<open>time_t\<close>.\<close>

definition time_ok :: "timespec \<Rightarrow> bool" where
  "time_ok ts \<longleftrightarrow> norm_ts ts \<and> - (2 ^ 63) \<le> tv_sec ts \<and> tv_sec ts < 2 ^ 63"

definition times_inv :: "(timespec \<times> real \<times> real) list \<Rightarrow> bool" where
  "times_inv h \<longleftrightarrow> (\<forall>t\<in>set h. time_ok (fst t) \<and> ts_ns (fst t) \<le> ts_ns (fst (last h)))"

definition distance_ok :: "real \<Rightarrow> real \<Rightarrow> bool" where
  "distance_ok rdelay rdisp \<longleftrightarrow> 0 < rdisp + rdelay / 2 \<and> rdisp + rdelay / 2 \<le> 10 ^ 300"

definition records_inv :: "(real \<times> real \<times> real \<times> real) list \<Rightarrow> bool" where
  "records_inv rs \<longleftrightarrow> (\<forall>(_, _, rdelay, rdisp)\<in>set rs. distance_ok rdelay rdisp)"

definition samples_inv :: "SST_Stats \<Rightarrow> bool" where
  "samples_inv inst \<longleftrightarrow> sst_ok inst \<and> times_inv (run_history inst) \<and> records_inv (records_of inst)"

definition stats_inv :: "SST_Stats \<Rightarrow> bool" where
  "stats_inv inst \<longleftrightarrow> samples_inv inst \<and> 0 \<le> skew inst \<and> (0 < n_samples inst \<longrightarrow> best_single_sample inst < n_samples inst)"

lemma times_inv_drop: "times_inv h \<Longrightarrow> times_inv (drop d h)"
  by (cases "d < length h") (auto simp: times_inv_def dest: in_set_dropD)

lemma times_inv_snoc: "times_inv h \<Longrightarrow> time_ok (fst t) \<Longrightarrow> h = [] \<or> ts_ns (fst (last h)) \<le> ts_ns (fst t) \<Longrightarrow> times_inv (h @ [t])"
  by (fastforce simp: times_inv_def)

lemma records_inv_drop: "records_inv rs \<Longrightarrow> records_inv (drop k rs)"
  by (auto simp: records_inv_def dest: in_set_dropD)

lemma records_inv_append: "records_inv (rs @ rs') \<longleftrightarrow> records_inv rs \<and> records_inv rs'"
  unfolding records_inv_def set_append ball_Un ..

lemma run_history_length: "length (run_history inst) = runs_samples inst + n_samples inst"
  by (simp add: run_history_def nat_add_distrib nat_diff_distrib)

lemma last_of_history:
  assumes "0 < n_samples inst" "last_sample inst < 128"
  shows "last (run_history inst) = run_at inst (int (n_samples inst) - 1)" "fst (last (run_history inst)) = sample_times inst ! last_sample inst"
proof -
  have "last [- int (runs_samples inst)..int (n_samples inst) - 1] = int (n_samples inst) - 1"
    using assms(1) upto_rec2 [of "- int (runs_samples inst)" "int (n_samples inst) - 1"] by simp
  then show l: "last (run_history inst) = run_at inst (int (n_samples inst) - 1)" using assms(1) by (simp add: run_history_def last_map)
  show "fst (last (run_history inst)) = sample_times inst ! last_sample inst"
    using runsbuf_last [OF assms(2)] unfolding l by (simp add: run_at_def Let_def)
qed

lemma interval_bound:
  assumes "time_ok a" "time_ok b"
  shows "- (2 ^ 64) \<le> UTI_DiffTimespecsToDouble a b"
proof -
  let ?B = "9223372036854775808 :: int"
  have "- ?B \<le> tv_sec a" "tv_sec b < ?B" "0 \<le> tv_nsec a" "tv_nsec b < 1000000000" using assms by (simp_all add: time_ok_def norm_ts_def)
  then have "- 18446744073709551616 * 1000000000 \<le> ts_ns a - ts_ns b" by (simp add: ts_ns_def)
  then have "- 18446744073709551616 * 1000000000 \<le> (of_int (ts_ns a - ts_ns b) :: real)" by linarith
  then show ?thesis by (simp add: DiffTimespecsToDouble_ns)
qed

lemma samples_inv_regression:
  assumes "samples_inv inst"
  shows "times_ordered inst" "\<forall>t\<in>set (convert_to_intervals inst). - (2 ^ 64) \<le> t" "\<forall>(_, _, rdelay, rdisp)\<in>set (records_of inst). rdisp + rdelay / 2 \<le> 10 ^ 300"
proof -
  have *: "time_ok (fst t) \<and> time_ok (sample_times inst ! last_sample inst) \<and> ts_ns (fst t) \<le> ts_ns (sample_times inst ! last_sample inst)"
    if "t \<in> set (run_history inst)" for t
  proof -
    have ne: "run_history inst \<noteq> []" using that by auto
    then have "0 < n_samples inst" "last_sample inst < 128"
      using assms run_history_length [of inst] by (auto simp: samples_inv_def sst_ok_def)
    note l = last_of_history(2) [OF this]
    have "time_ok (fst (last (run_history inst)))" using assms last_in_set [OF ne] by (simp add: samples_inv_def times_inv_def)
    then show ?thesis using assms that unfolding l by (simp add: samples_inv_def times_inv_def l)
  qed
  then show "times_ordered inst" by (auto simp: times_ordered_def DiffTimespecsToDouble_ns)
  show "\<forall>t\<in>set (convert_to_intervals inst). - (2 ^ 64) \<le> t" using * interval_bound unfolding intervals_of_history by auto
  show "\<forall>(_, _, rdelay, rdisp)\<in>set (records_of inst). rdisp + rdelay / 2 \<le> 10 ^ 300"
    using assms by (auto simp: samples_inv_def records_inv_def distance_ok_def)
qed

section \<open>A new sample\<close>

lemma regression_inv:
  assumes "samples_inv inst"
  obtains inst' where "SST_DoNewRegression kf precision inst = Some inst'" "stats_inv inst'"
proof -
  have ok: "sst_ok inst" using assms by (simp add: samples_inv_def)
  from regression_result [OF ok samples_inv_regression [OF assms], of kf precision] obtain inst' d where
    r: "SST_DoNewRegression kf precision inst = Some inst'" "sst_ok inst'" "run_history inst' = drop d (run_history inst)"
      "records_of inst' = drop (n_samples inst - n_samples inst') (records_of inst)" "0 < skew inst'"
      "0 < n_samples inst \<Longrightarrow> best_single_sample inst' < n_samples inst'"
      "n_samples inst < 3 \<Longrightarrow> n_samples inst' = n_samples inst" by (fastforce split: if_splits)
  have "samples_inv inst'" unfolding samples_inv_def r(3,4)
    using assms r(2) times_inv_drop records_inv_drop by (simp add: samples_inv_def)
  moreover have "best_single_sample inst' < n_samples inst'" if "0 < n_samples inst'"
    using r(6,7) that by (cases "n_samples inst = 0") auto
  ultimately have "stats_inv inst'" using r(5) unfolding stats_inv_def by linarith
  then show thesis by (rule that [OF r(1)])
qed

lemma sample_inv:
  assumes "samples_inv inst" "time_ok (sm_time sample)" "distance_ok (sm_root_delay sample) (sm_root_dispersion sample)"
  obtains inst' where "SST_AccumulateSample sample inst = Some inst'" "samples_inv inst'"
proof -
  have ok: "sst_ok inst" using assms(1) by (simp add: samples_inv_def)
  let ?run = "(sm_time sample, - sm_offset sample, stored_delay sample inst)"
    and ?rcd = "(- sm_offset sample, sm_peer_dispersion sample, sm_root_delay sample, sm_root_dispersion sample)"
  from accumulated_views [OF ok, of sample] obtain inst' where
    i: "SST_AccumulateSample sample inst = Some inst'" "sst_ok inst'"
      "if out_of_order sample inst then run_history inst' = [?run] \<and> records_of inst' = [?rcd]
       else run_history inst' = drop (history_dropped inst) (run_history inst) @ [?run] \<and> records_of inst' = drop (room_made inst) (records_of inst) @ [?rcd]"
    unfolding Let_def by blast
  have rcd: "records_inv [?rcd]" using assms(3) by (simp add: records_inv_def)
  have "times_inv (run_history inst') \<and> records_inv (records_of inst')"
  proof (cases "out_of_order sample inst")
    case True
    then show ?thesis using i(3) assms(2) rcd by (simp add: times_inv_def)
  next
    case False
    let ?h = "drop (history_dropped inst) (run_history inst)"
    have "?h = [] \<or> ts_ns (fst (last ?h)) \<le> ts_ns (sm_time sample)"
    proof (cases "room_made inst < n_samples inst")
      case True
      have n: "0 < n_samples inst" "last_sample inst < 128" using True ok by (auto simp: sst_ok_def)
      have "sample_times inst ! last_sample inst < sm_time sample"
        using False True by (auto simp: out_of_order_def less_timespec_def UTI_CompareTimespecs_def split: if_splits)
      moreover have "run_history inst \<noteq> []" using n(1) run_history_length [of inst] by auto
      from last_in_set [OF this] have "norm_ts (fst (last (run_history inst)))"
        using assms(1) by (simp add: samples_inv_def times_inv_def time_ok_def)
      ultimately have "ts_ns (fst (last (run_history inst))) < ts_ns (sm_time sample)"
        using assms(2) less_ts_ns by (simp add: last_of_history(2) [OF n] time_ok_def)
      then show ?thesis by (cases "history_dropped inst < length (run_history inst)") auto
    next
      case False
      then have "?h = []" using run_history_length [of inst] ok
        by (auto simp: room_made_def history_dropped_def sst_ok_def split: if_splits)
      then show ?thesis ..
    qed
    moreover have "times_inv ?h" using assms(1) by (simp add: samples_inv_def times_inv_drop)
    ultimately have "times_inv (?h @ [?run])" using assms(2) by (intro times_inv_snoc) auto
    moreover have "records_inv (drop (room_made inst) (records_of inst) @ [?rcd])"
      using assms(1) rcd records_inv_drop by (auto simp: samples_inv_def records_inv_append)
    ultimately show ?thesis using i(3) False by simp
  qed
  then show thesis using that [OF i(1)] i(2) by (simp add: samples_inv_def)
qed

lemma new_sample_inv:
  assumes "stats_inv inst" "time_ok (sm_time sample)" "distance_ok (sm_root_delay sample) (sm_root_dispersion sample)"
  obtains inst' where "Option.bind (SST_AccumulateSample sample inst) (SST_DoNewRegression kf precision) = Some inst'" "stats_inv inst'"
proof -
  have "samples_inv inst" using assms(1) by (simp add: stats_inv_def)
  from sample_inv [OF this assms(2,3)] obtain inst1 where i: "SST_AccumulateSample sample inst = Some inst1" "samples_inv inst1" .
  from regression_inv [OF i(2), of kf precision] obtain inst' where "SST_DoNewRegression kf precision inst1 = Some inst'" "stats_inv inst'" .
  then show thesis by (intro that) (simp_all add: i(1))
qed

section \<open>Reset, creation and the identifier\<close>

lemma reset_inv: "sst_ok inst \<Longrightarrow> stats_inv (SST_ResetInstance inst)"
  by (simp add: stats_inv_def samples_inv_def times_inv_def records_inv_def Reset_ok) (simp add: SST_ResetInstance_def)

text \<open>The arrays of the allocated memory have their lengths.\<close>

definition buffers_ok :: "SST_Stats \<Rightarrow> bool" where
  "buffers_ok inst \<longleftrightarrow> length (sample_times inst) = 128 \<and> length (offsets inst) = 128 \<and> length (peer_delays inst) = 128 \<and>
     length (orig_offsets inst) = 64 \<and> length (peer_dispersions inst) = 64 \<and> length (root_delays inst) = 64 \<and> length (root_dispersions inst) = 64"

lemma create_inv: "buffers_ok memory \<Longrightarrow> stats_inv (SST_CreateInstance memory id' addr min_s max_s min_delay asy)"
  by (auto simp: buffers_ok_def SST_CreateInstance_def SST_SetRefid_def Let_def SST_ResetInstance_def CLAMP_def stats_inv_def samples_inv_def sst_ok_def
      run_history_def records_of_def times_inv_def records_inv_def)

lemma setrefid_inv: "stats_inv inst \<Longrightarrow> stats_inv (SST_SetRefid id' addr inst)"
proof -
  have s: "same_samples inst (SST_SetRefid id' addr inst)" by (simp add: same_samples_def SST_SetRefid_def)
  assume "stats_inv inst"
  then show ?thesis by (simp add: stats_inv_def samples_inv_def same_samples_views [OF s]) (simp add: SST_SetRefid_def)
qed

section \<open>Changes of the clock\<close>

text \<open>A sample with its time and offset moved by a change of the clock.\<close>

definition slewed :: "timespec \<Rightarrow> real \<Rightarrow> real \<Rightarrow> timespec \<times> real \<times> real \<Rightarrow> timespec \<times> real \<times> real" where
  "slewed cooked dfreq doffset t = (case t of (ts, off, delay) \<Rightarrow>
     (fst (UTI_AdjustTimespec ts cooked dfreq doffset), off + snd (UTI_AdjustTimespec ts cooked dfreq doffset), delay))"

lemma slew_sample_index: "get_runsbuf_index (slew_sample cooked dfreq doffset m inst) = get_runsbuf_index inst"
  by (simp add: fun_eq_iff get_runsbuf_index_def slew_sample_def Let_def split: prod.splits)

lemma slew_sample_at:
  assumes "length (sample_times inst) = 128" "length (offsets inst) = 128" "\<bar>m - k\<bar> < 128"
  shows "run_at (slew_sample cooked dfreq doffset m inst) k = (if k = m then slewed cooked dfreq doffset (run_at inst k) else run_at inst k)"
proof (cases "k = m")
  case True
  then show ?thesis using assms(1,2) by (simp add: run_at_def slew_sample_index Let_def) (simp add: slew_sample_def slewed_def Let_def split: prod.splits)
next
  case False
  then have "get_runsbuf_index inst m \<noteq> get_runsbuf_index inst k" using runsbuf_inj [of inst m k] assms(3) by blast
  then show ?thesis using False by (simp add: run_at_def slew_sample_index Let_def) (simp add: slew_sample_def Let_def split: prod.splits)
qed

lemma slew_fold_at:
  assumes "length (sample_times inst) = 128" "length (offsets inst) = 128" "distinct ms" "\<forall>m\<in>set ms. \<bar>m - k\<bar> < 128"
  shows "run_at (fold (slew_sample cooked dfreq doffset) ms inst) k = (if k \<in> set ms then slewed cooked dfreq doffset (run_at inst k) else run_at inst k)"
  using assms
proof (induction ms arbitrary: inst)
  case (Cons m ms)
  let ?i = "slew_sample cooked dfreq doffset m inst"
  have "length (sample_times ?i) = 128" "length (offsets ?i) = 128" using Cons.prems(1,2) by (simp_all add: slew_sample_def Let_def split: prod.splits)
  from Cons.IH [OF this] Cons.prems slew_sample_at [OF Cons.prems(1,2), of m k cooked dfreq doffset] show ?case by auto
qed simp

lemma slew_fold_fields:
  fixes cooked dfreq doffset ms inst
  defines "inst' \<equiv> fold (slew_sample cooked dfreq doffset) ms inst"
  shows "n_samples inst' = n_samples inst" "runs_samples inst' = runs_samples inst" "last_sample inst' = last_sample inst" "best_single_sample inst' = best_single_sample inst"
    "min_samples inst' = min_samples inst" "max_samples inst' = max_samples inst" "min_delay_sample inst' = min_delay_sample inst" "skew inst' = skew inst"
    "peer_delays inst' = peer_delays inst" "orig_offsets inst' = orig_offsets inst" "peer_dispersions inst' = peer_dispersions inst"
    "root_delays inst' = root_delays inst" "root_dispersions inst' = root_dispersions inst"
    "length (sample_times inst') = length (sample_times inst)" "length (offsets inst') = length (offsets inst)"
  unfolding inst'_def by (induction ms arbitrary: inst) (simp_all add: slew_sample_def Let_def split: prod.splits)

text \<open>The views of the slewed samples.\<close>

lemma slew_views:
  assumes "sst_ok inst"
  shows "run_history (SST_SlewSamples cooked dfreq doffset inst) = map (slewed cooked dfreq doffset) (run_history inst)"
    "records_of (SST_SlewSamples cooked dfreq doffset inst) = records_of inst" "sst_ok (SST_SlewSamples cooked dfreq doffset inst)"
    "skew (SST_SlewSamples cooked dfreq doffset inst) = skew inst" "n_samples (SST_SlewSamples cooked dfreq doffset inst) = n_samples inst"
    "best_single_sample (SST_SlewSamples cooked dfreq doffset inst) = best_single_sample inst"
proof -
  let ?ms = "[- int (runs_samples inst)..int (n_samples inst) - 1]" and ?s = "SST_SlewSamples cooked dfreq doffset inst"
  define j where "j = fold (slew_sample cooked dfreq doffset) ?ms inst"
  note f = slew_fold_fields [of cooked dfreq doffset ?ms inst, folded j_def]
  have len: "length (sample_times inst) = 128" "length (offsets inst) = 128" "n_samples inst \<le> 64" "runs_samples inst \<le> n_samples inst"
    using assms by (simp_all add: sst_ok_def)
  have ix: "get_runsbuf_index j = get_runsbuf_index inst" "get_buf_index j = get_buf_index inst"
    by (simp_all add: fun_eq_iff get_runsbuf_index_def get_buf_index_def f)
  have "run_history j = map (slewed cooked dfreq doffset) (run_history inst)"
  proof -
    have "run_at j k = slewed cooked dfreq doffset (run_at inst k)" if "k \<in> set ?ms" for k
    proof -
      have "\<forall>m\<in>set ?ms. \<bar>m - k\<bar> < 128" using that len(3,4) by auto
      from slew_fold_at [OF len(1,2) distinct_upto this, of cooked dfreq doffset] that show ?thesis by (simp add: j_def)
    qed
    then show ?thesis by (simp add: run_history_def f)
  qed
  moreover have "records_of j = records_of inst" by (simp add: records_of_def rec_at_def ix f)
  moreover have "sst_ok j" using assms unfolding sst_ok_def ix f by simp
  ultimately have j: "run_history j = map (slewed cooked dfreq doffset) (run_history inst)" "records_of j = records_of inst" "sst_ok j" by simp_all
  have "\<exists>t e q. ?s = j\<lparr>offset_time := t, estimated_offset := e, estimated_frequency := q\<rparr>"
  proof (cases "n_samples inst = 0")
    case True
    then have "?s = j\<lparr>offset_time := offset_time j, estimated_offset := estimated_offset j, estimated_frequency := estimated_frequency j\<rparr>"
      using len(4) by (simp add: j_def SST_SlewSamples_def)
    then show ?thesis by blast
  qed (auto simp: SST_SlewSamples_def Let_def j_def split: prod.splits)
  then obtain t e q where s: "?s = j\<lparr>offset_time := t, estimated_offset := e, estimated_frequency := q\<rparr>" by blast
  have ss: "same_samples j ?s" "skew ?s = skew inst" "n_samples ?s = n_samples inst" "best_single_sample ?s = best_single_sample inst"
    unfolding s by (simp_all add: same_samples_def f)
  show "run_history ?s = map (slewed cooked dfreq doffset) (run_history inst)" "records_of ?s = records_of inst" "sst_ok ?s"
    using same_samples_views [OF ss(1)] j by simp_all
  show "skew ?s = skew inst" "n_samples ?s = n_samples inst" "best_single_sample ?s = best_single_sample inst" by (rule ss)+
qed

text \<open>
  When the samples of the statistics stay in order in a change of the clock: the frequency change is below one, and
  two samples that are not of the same time are at least a nanosecond apart after it; the
  times stay in their range.
\<close>

definition slew_ok :: "timespec \<Rightarrow> real \<Rightarrow> real \<Rightarrow> SST_Stats \<Rightarrow> bool" where
  "slew_ok cooked dfreq doffset inst \<longleftrightarrow> (\<forall>t\<in>set (run_history inst).
     (let gap = ts_ns (fst (last (run_history inst))) - ts_ns (fst t) in gap = 0 \<or> 1 \<le> of_int gap * (1 - dfreq)) \<and>
     time_ok (fst (UTI_AdjustTimespec (fst t) cooked dfreq doffset)))"

lemma ts_ns_inj: "norm_ts a \<Longrightarrow> norm_ts b \<Longrightarrow> ts_ns a = ts_ns b \<Longrightarrow> a = b"
  using less_ts_ns [of a b] less_ts_ns [of b a] by (cases "a < b"; cases "b < a") auto

lemma adjust_order:
  fixes a b cooked :: timespec
  assumes "norm_ts a" "norm_ts b" "ts_ns b - ts_ns a = 0 \<or> 1 \<le> of_int (ts_ns b - ts_ns a) * (1 - dfreq)"
  shows "ts_ns (fst (UTI_AdjustTimespec a cooked dfreq doffset)) \<le> ts_ns (fst (UTI_AdjustTimespec b cooked dfreq doffset))"
proof (cases "ts_ns b = ts_ns a")
  case True
  then show ?thesis using ts_ns_inj [OF assms(1,2)] by simp
next
  case False
  then have gap: "1 \<le> of_int (ts_ns b - ts_ns a) * (1 - dfreq)" using assms(3) by simp
  define delta where "delta x = UTI_DiffTimespecsToDouble cooked x * dfreq - doffset" for x
  let ?new = "\<lambda>x. of_int (ts_ns (UTI_AddDoubleToTimespec x (delta x))) :: real"
  have e: "\<bar>?new x - (of_int (ts_ns x) + 10 ^ 9 * delta x)\<bar> < 1" for x
    using AddDouble_error [of x "delta x"] unfolding TimespecToDouble_ns by (simp add: abs_less_iff field_simps)
  have "of_int (ts_ns b) + 10 ^ 9 * delta b - (of_int (ts_ns a) + 10 ^ 9 * delta a) = of_int (ts_ns b - ts_ns a) * (1 - dfreq)"
    by (simp add: delta_def DiffTimespecsToDouble_ns field_simps)
  then have "?new a - 1 < ?new b" using e [of a] e [of b] gap by linarith
  then have "ts_ns (UTI_AddDoubleToTimespec a (delta a)) \<le> ts_ns (UTI_AddDoubleToTimespec b (delta b))" by linarith
  then show ?thesis by (simp add: UTI_AdjustTimespec_def Let_def delta_def)
qed

lemma stats_slew_inv:
  assumes "stats_inv inst" "slew_ok cooked dfreq doffset inst"
  shows "stats_inv (SST_SlewSamples cooked dfreq doffset inst)"
proof -
  have i: "sst_ok inst" "times_inv (run_history inst)" "records_inv (records_of inst)" using assms(1) by (simp_all add: stats_inv_def samples_inv_def)
  let ?h = "run_history inst" and ?f = "slewed cooked dfreq doffset"
  have f: "fst (?f t) = fst (UTI_AdjustTimespec (fst t) cooked dfreq doffset)" for t by (simp add: slewed_def split: prod.splits)
  have "time_ok (fst (?f t)) \<and> ts_ns (fst (?f t)) \<le> ts_ns (fst (?f (last ?h)))" if t: "t \<in> set ?h" for t
  proof -
    have "last ?h \<in> set ?h" using t by (intro last_in_set) auto
    then have n: "norm_ts (fst t)" "norm_ts (fst (last ?h))" using i(2) t by (simp_all add: times_inv_def time_ok_def)
    from adjust_order [OF n, of dfreq cooked doffset] show ?thesis using assms(2) t by (simp add: f slew_ok_def Let_def)
  qed
  then have "times_inv (map ?f ?h)" by (cases "?h = []") (simp_all add: times_inv_def last_map)
  then show ?thesis using assms(1) i(3) slew_views [OF i(1), of cooked dfreq doffset] by (simp add: stats_inv_def samples_inv_def)
qed

section \<open>Added dispersion\<close>

definition add_dispersion_at :: "real \<Rightarrow> nat \<Rightarrow> SST_Stats \<Rightarrow> SST_Stats" where
  "add_dispersion_at dispersion m inst = (let i = get_buf_index inst (int m) in
     inst\<lparr>root_dispersions := (root_dispersions inst)[i := root_dispersions inst ! i + dispersion],
          peer_dispersions := (peer_dispersions inst)[i := peer_dispersions inst ! i + dispersion]\<rparr>)"

lemma AddDispersion_eq: "SST_AddDispersion dispersion inst = fold (add_dispersion_at dispersion) [0..<n_samples inst] inst"
  by (simp add: SST_AddDispersion_def add_dispersion_at_def [abs_def])

lemma dispersion_fold_fields:
  fixes dispersion ms inst
  defines "inst' \<equiv> fold (add_dispersion_at dispersion) ms inst"
  shows "n_samples inst' = n_samples inst" "runs_samples inst' = runs_samples inst" "last_sample inst' = last_sample inst" "best_single_sample inst' = best_single_sample inst"
    "min_samples inst' = min_samples inst" "max_samples inst' = max_samples inst" "min_delay_sample inst' = min_delay_sample inst" "skew inst' = skew inst"
    "peer_delays inst' = peer_delays inst" "orig_offsets inst' = orig_offsets inst" "sample_times inst' = sample_times inst" "offsets inst' = offsets inst"
    "root_delays inst' = root_delays inst" "length (peer_dispersions inst') = length (peer_dispersions inst)"
    "length (root_dispersions inst') = length (root_dispersions inst)"
  unfolding inst'_def by (induction ms arbitrary: inst) (simp_all add: add_dispersion_at_def Let_def)

lemma dispersion_fold_at:
  assumes "length (root_dispersions inst) = 64" "distinct ms" "\<forall>m\<in>set ms. m < 64" "k < 64"
  shows "root_dispersions (fold (add_dispersion_at dispersion) ms inst) ! get_buf_index inst (int k) =
    root_dispersions inst ! get_buf_index inst (int k) + (if k \<in> set ms then dispersion else 0)"
  using assms
proof (induction ms arbitrary: inst)
  case (Cons m ms)
  let ?i = "add_dispersion_at dispersion m inst"
  have ix: "get_buf_index ?i = get_buf_index inst" by (simp add: fun_eq_iff get_buf_index_def add_dispersion_at_def Let_def)
  have "length (root_dispersions ?i) = 64" using Cons.prems(1) by (simp add: add_dispersion_at_def Let_def)
  note ih = Cons.IH [OF this, unfolded ix]
  have "root_dispersions ?i ! get_buf_index inst (int k) = root_dispersions inst ! get_buf_index inst (int k) + (if k = m then dispersion else 0)"
  proof (cases "k = m")
    case False
    have "m < 64" using Cons.prems(3) by simp
    then have "\<bar>int m - int k\<bar> < 64" using Cons.prems(4) by linarith
    then have "get_buf_index inst (int m) \<noteq> get_buf_index inst (int k)" using buf_inj [of inst "int m" "int k"] False by auto
    then show ?thesis using False by (simp add: add_dispersion_at_def Let_def)
  qed (use Cons.prems(1) in \<open>simp add: add_dispersion_at_def Let_def\<close>)
  then show ?case using ih Cons.prems by auto
qed simp

lemma dispersion_inv:
  assumes "stats_inv inst" "0 \<le> dispersion" "\<forall>(_, _, rdelay, rdisp)\<in>set (records_of inst). rdisp + dispersion + rdelay / 2 \<le> 10 ^ 300"
  shows "stats_inv (SST_AddDispersion dispersion inst)"
proof -
  let ?j = "SST_AddDispersion dispersion inst"
  note f = dispersion_fold_fields [of dispersion "[0..<n_samples inst]" inst, folded AddDispersion_eq]
  have i: "sst_ok inst" "times_inv (run_history inst)" "records_inv (records_of inst)" using assms(1) by (simp_all add: stats_inv_def samples_inv_def)
  have ix: "get_runsbuf_index ?j = get_runsbuf_index inst" "get_buf_index ?j = get_buf_index inst"
    by (simp_all add: fun_eq_iff get_runsbuf_index_def get_buf_index_def f)
  have ok: "sst_ok ?j" using i(1) unfolding sst_ok_def ix f by simp
  have run: "run_history ?j = run_history inst" by (simp add: run_history_def run_at_def ix f)
  have len: "length (root_dispersions inst) = 64" "n_samples inst \<le> 64" using i(1) by (simp_all add: sst_ok_def)
  have "distance_ok (root_delays ?j ! get_buf_index ?j (int k)) (root_dispersions ?j ! get_buf_index ?j (int k))" if "k < n_samples inst" for k
  proof -
    have "rec_at inst (int k) \<in> set (records_of inst)" using that by (auto simp: records_of_def)
    from bspec [OF assms(3) this] bspec [OF i(3) [unfolded records_inv_def] this]
    have "0 < root_dispersions inst ! get_buf_index inst (int k) + root_delays inst ! get_buf_index inst (int k) / 2"
      "root_dispersions inst ! get_buf_index inst (int k) + dispersion + root_delays inst ! get_buf_index inst (int k) / 2 \<le> 10 ^ 300"
      by (simp_all add: rec_at_def Let_def distance_ok_def)
    moreover have "root_dispersions ?j ! get_buf_index inst (int k) = root_dispersions inst ! get_buf_index inst (int k) + dispersion"
      using dispersion_fold_at [OF len(1), of "[0..<n_samples inst]" k dispersion] that len(2) by (simp add: AddDispersion_eq)
    ultimately show ?thesis using assms(2) unfolding ix f by (simp add: distance_ok_def)
  qed
  then have "records_inv (records_of ?j)" by (auto simp: records_inv_def records_of_def rec_at_def Let_def f)
  then show ?thesis using assms(1) i(2) ok run by (simp add: stats_inv_def samples_inv_def f)
qed

section \<open>A dump file\<close>

text \<open>What the lines of a file have to be for the loaded samples to have positive root distances.\<close>

definition lines_ok :: "saved_sample list \<Rightarrow> bool" where
  "lines_ok lines \<longleftrightarrow> (\<forall>(_, _, _, _, _, rdel, rdisp)\<in>set lines. 0 < rdisp + rdel / 2)"

text \<open>The first samples are loaded in the first elements.\<close>

definition loaded :: "nat \<Rightarrow> SST_Stats \<Rightarrow> bool" where
  "loaded n inst \<longleftrightarrow> buffers_ok inst \<and> (\<forall>k<n. time_ok (sample_times inst ! k) \<and> distance_ok (root_delays inst ! k) (root_dispersions inst ! k)) \<and>
     (\<forall>k<n. \<forall>m\<le>k. ts_ns (sample_times inst ! m) \<le> ts_ns (sample_times inst ! k))"

lemma double_time_ok:
  assumes "0 \<le> t" "t \<le> of_int (era_split + 2 ^ 32)" "era_split + 2 ^ 32 < 2 ^ 63"
  shows "time_ok (UTI_DoubleToTimespec t)"
proof -
  have t: "c_trunc t = \<lfloor>t\<rfloor>" using assms(1) by (simp add: c_trunc_def)
  have fl: "of_int \<lfloor>t\<rfloor> \<le> t" "t < of_int \<lfloor>t\<rfloor> + 1" by linarith+
  have r: "0 \<le> 10 ^ 9 * (t - of_int \<lfloor>t\<rfloor>)" "10 ^ 9 * (t - of_int \<lfloor>t\<rfloor>) < 10 ^ 9"
    using fl by (simp_all add: algebra_simps)
  have "c_trunc (10 ^ 9 * (t - of_int \<lfloor>t\<rfloor>)) = \<lfloor>10 ^ 9 * (t - of_int \<lfloor>t\<rfloor>)\<rfloor>" using r(1) unfolding c_trunc_def by (simp only: not_less [symmetric] if_False)
  moreover have "0 \<le> \<lfloor>10 ^ 9 * (t - of_int \<lfloor>t\<rfloor>)\<rfloor>" using r(1) by (simp only: zero_le_floor)
  moreover have "\<lfloor>10 ^ 9 * (t - of_int \<lfloor>t\<rfloor>)\<rfloor> < NSEC_PER_SEC" using r(2) unfolding floor_less_iff by simp
  ultimately have n: "0 \<le> c_trunc (10 ^ 9 * (t - of_int \<lfloor>t\<rfloor>))" "c_trunc (10 ^ 9 * (t - of_int \<lfloor>t\<rfloor>)) < NSEC_PER_SEC" by simp_all
  have "UTI_DoubleToTimespec t = Timespec \<lfloor>t\<rfloor> (c_trunc (10 ^ 9 * (t - of_int \<lfloor>t\<rfloor>)))"
    using n by (simp add: UTI_DoubleToTimespec_def t Let_def UTI_NormaliseTimespec_def)
  moreover have "0 \<le> \<lfloor>t\<rfloor>" "\<lfloor>t\<rfloor> < 2 ^ 63" using assms by (simp_all add: floor_less_iff)
  ultimately show ?thesis using n by (simp add: time_ok_def norm_ts_def)
qed

lemma load_sample_loaded:
  assumes "load_sample era_split now i line inst = Some inst'" "loaded i inst" "i < 64" "lines_ok [line]" "era_split + 2 ^ 32 < 2 ^ 63"
  shows "loaded (Suc i) inst'" "min_samples inst' = min_samples inst" "max_samples inst' = max_samples inst" "runs_samples inst' = runs_samples inst"
proof -
  obtain t off orig pdel pdisp rdel rdisp where l: "line = (t, off, orig, pdel, pdisp, rdel, rdisp)" by (cases line)
  let ?ts = "UTI_DoubleToTimespec t"
  have buf: "buffers_ok inst" using assms(2) by (simp add: loaded_def)
  from assms(1) have inst': "inst' = inst\<lparr>offsets := (offsets inst)[i := off], orig_offsets := (orig_offsets inst)[i := orig], peer_delays := (peer_delays inst)[i := pdel],
        peer_dispersions := (peer_dispersions inst)[i := pdisp], root_delays := (root_delays inst)[i := rdel], root_dispersions := (root_dispersions inst)[i := rdisp],
        sample_times := (sample_times inst)[i := ?ts]\<rparr>"
    and c: "UTI_IsTimeOffsetSane era_split now (t - UTI_TimespecToDouble now)" "\<bar>rdel\<bar> < 10 ^ 6" "\<bar>rdisp\<bar> < 10 ^ 6"
      "i = 0 \<or> \<not> UTI_CompareTimespecs ?ts (sample_times inst ! (i - 1)) \<le> 0"
    by (auto simp: load_sample_def l Let_def split: if_splits)
  show "min_samples inst' = min_samples inst" "max_samples inst' = max_samples inst" "runs_samples inst' = runs_samples inst" by (simp_all add: inst')
  have "0 \<le> t" "t \<le> of_int (era_split + 2 ^ 32)" using c(1) by (simp_all add: UTI_IsTimeOffsetSane_def Let_def split: if_splits)
  then have ts: "time_ok ?ts" using double_time_ok assms(5) by blast
  have "rdisp + rdel / 2 \<le> 10 ^ 6 + 10 ^ 6 / 2" using c(2,3) by (simp add: abs_less_iff)
  also have "\<dots> \<le> (10 ^ 300 :: real)" by simp
  finally have d: "distance_ok rdel rdisp" using assms(4) by (simp add: lines_ok_def l distance_ok_def)
  have len: "length (sample_times inst) = 128" "length (root_delays inst) = 64" "length (root_dispersions inst) = 64" using buf by (simp_all add: buffers_ok_def)
  have new: "sample_times inst' ! i = ?ts" "root_delays inst' ! i = rdel" "root_dispersions inst' ! i = rdisp" using assms(3) len by (simp_all add: inst')
  have old: "sample_times inst' ! k = sample_times inst ! k" "root_delays inst' ! k = root_delays inst ! k" "root_dispersions inst' ! k = root_dispersions inst ! k"
    if "k < i" for k using that by (simp_all add: inst')
  have le: "ts_ns (sample_times inst ! m) \<le> ts_ns ?ts" if "m < i" for m
  proof -
    have "m \<le> i - 1" "i - 1 < i" using that by simp_all
    then have "ts_ns (sample_times inst ! m) \<le> ts_ns (sample_times inst ! (i - 1))" "time_ok (sample_times inst ! (i - 1))"
      using assms(2) by (simp_all add: loaded_def)
    moreover have "sample_times inst ! (i - 1) < ?ts" using c(4) that by (auto simp: less_timespec_def UTI_CompareTimespecs_def split: if_splits)
    ultimately show ?thesis using less_ts_ns [of "sample_times inst ! (i - 1)" ?ts] ts by (simp add: time_ok_def)
  qed
  have "buffers_ok inst'" using buf by (simp add: inst' buffers_ok_def)
  moreover have "time_ok (sample_times inst' ! k) \<and> distance_ok (root_delays inst' ! k) (root_dispersions inst' ! k)" if "k < Suc i" for k
    using that ts d new old assms(2) by (cases "k = i") (simp_all add: loaded_def)
  moreover have "ts_ns (sample_times inst' ! m) \<le> ts_ns (sample_times inst' ! k)" if "k < Suc i" "m \<le> k" for k m
  proof (cases "k = i")
    case True
    then show ?thesis using that(2) new(1) old(1) [of m] le [of m] by (cases "m = i") simp_all
  next
    case False
    then have "k < i" "m < i" using that by simp_all
    then show ?thesis using old(1) that(2) assms(2) by (simp add: loaded_def)
  qed
  ultimately show "loaded (Suc i) inst'" by (simp add: loaded_def)
qed

lemma load_samples_loaded:
  assumes "load_samples era_split now i lines inst = Some inst'" "loaded i inst" "i + length lines \<le> 64" "lines_ok lines" "era_split + 2 ^ 32 < 2 ^ 63"
  shows "loaded (i + length lines) inst' \<and> min_samples inst' = min_samples inst \<and> max_samples inst' = max_samples inst \<and> runs_samples inst' = runs_samples inst"
  using assms(1-4)
proof (induction lines arbitrary: i inst)
  case (Cons line lines)
  from Cons.prems(1) obtain j where j: "load_sample era_split now i line inst = Some j" "load_samples era_split now (i + 1) lines j = Some inst'"
    by (auto split: bind_splits)
  have "i < 64" "lines_ok [line]" "lines_ok lines" using Cons.prems(3,4) by (auto simp: lines_ok_def)
  note s = load_sample_loaded [OF j(1) Cons.prems(2) this(1,2) assms(5)]
  from Cons.IH [OF j(2)] s Cons.prems(3) \<open>lines_ok lines\<close> show ?case by simp
qed simp

lemma loaded_index:
  assumes "n_samples inst = n" "last_sample inst = n - 1" "runs_samples inst = 0" "0 < n" "n \<le> 64" "0 \<le> i" "i < int n"
  shows "get_runsbuf_index inst i = nat i" "get_buf_index inst i = nat i"
proof -
  have "int (n - 1) = int n - 1" using assms(4) by simp
  then have e: "int (n - 1) + 256 - int n + i + 1 = i + 2 * 128" "int (n - 1) + 128 - int n + i + 1 = i + 2 * 64" by simp_all
  have "(i + 2 * 128) mod 128 = i" "(i + 2 * 64) mod 64 = i" unfolding mod_mult_self1 using assms(5-7) by simp_all
  then have m: "(int (n - 1) + 256 - int n + i + 1) mod 128 = i" "(int (n - 1) + 128 - int n + i + 1) mod 64 = i" unfolding e .
  have c: "2 * (128 :: int) = 256" "int (64 * 2) = 128" "int 64 = 64" by simp_all
  show "get_runsbuf_index inst i = nat i" "get_buf_index inst i = nat i"
    unfolding get_runsbuf_index_def get_buf_index_def assms(1,2) c(2,3) c(1) m by (rule refl)+
qed

lemma loaded_inv:
  assumes "loaded n inst" "n_samples inst = n" "last_sample inst = n - 1" "runs_samples inst = 0" "0 < n" "n \<le> 64"
    "1 \<le> min_samples inst" "min_samples inst \<le> max_samples inst" "max_samples inst \<le> 64"
  shows "samples_inv (find_min_delay_sample inst)"
proof -
  define j where "j = find_min_delay_sample inst"
  have j: "j = inst\<lparr>min_delay_sample := min_delay_sample j\<rparr>" by (simp add: j_def find_min_delay_sample_def)
  have f: "n_samples j = n" "last_sample j = n - 1" "runs_samples j = 0" "sample_times j = sample_times inst" "offsets j = offsets inst" "peer_delays j = peer_delays inst"
    "orig_offsets j = orig_offsets inst" "peer_dispersions j = peer_dispersions inst" "root_delays j = root_delays inst" "root_dispersions j = root_dispersions inst"
    "min_samples j = min_samples inst" "max_samples j = max_samples inst"
    using assms(2-4) by (simp_all add: j_def find_min_delay_sample_def)
  note ix = loaded_index [OF f(1-3) assms(5,6)] and ix' = loaded_index [OF assms(2-6)]
  have "sst_ok j"
    using find_min_delay_ok [of inst, folded j_def] assms(1,2,4-9) ix ix' by (auto simp: sst_ok_def f loaded_def buffers_ok_def)
  moreover have "times_inv (run_history j)"
  proof -
    have "0 < n_samples j" "last_sample j < 128" using assms(5,6) f by simp_all
    note last = last_of_history(2) [OF this]
    show ?thesis unfolding times_inv_def last using assms(1,5) ix by (auto simp: run_history_def run_at_def Let_def f loaded_def nat_less_iff)
  qed
  moreover have "records_inv (records_of j)"
    using assms(1) ix by (auto simp: records_inv_def records_of_def rec_at_def Let_def f loaded_def)
  ultimately show ?thesis by (simp add: samples_inv_def j_def)
qed

lemma load_inv:
  assumes "stats_inv inst" "lines_ok (snd dump)" "era_split + 2 ^ 32 < 2 ^ 63"
  obtains b inst' where "SST_LoadFromFile kf precision era_split now dump inst = Some (b, inst')" "stats_inv inst'"
proof -
  obtain arun lines where dump: "dump = (arun, lines)" by fastforce
  have ok: "sst_ok inst" using assms(1) by (simp add: stats_inv_def samples_inv_def)
  let ?r = "SST_ResetInstance inst"
  show thesis
  proof (cases "length lines < 1 \<or> length lines > 64")
    case True
    then show thesis using that assms(1) by (auto simp: SST_LoadFromFile_def dump)
  next
    case n: False
    show thesis
    proof (cases "load_samples era_split now 0 lines ?r")
      case None
      then show thesis using that reset_inv [OF ok] n by (auto simp: SST_LoadFromFile_def dump Let_def)
    next
      case (Some j)
      have "loaded 0 ?r" using ok by (simp add: loaded_def buffers_ok_def sst_ok_def SST_ResetInstance_def)
      from load_samples_loaded [OF Some this] n assms(2,3) have l: "loaded (length lines) j" "min_samples j = min_samples ?r" "max_samples j = max_samples ?r" "runs_samples j = runs_samples ?r"
        by (auto simp: dump)
      let ?k = "j\<lparr>n_samples := length lines, last_sample := length lines - 1, asymmetry_run := CLAMP (- 1000) arun 1000\<rparr>"
      have "loaded (length lines) ?k" using l(1) by (simp add: loaded_def buffers_ok_def)
      then have "samples_inv (find_min_delay_sample ?k)"
        by (rule loaded_inv) (use n l(2-4) ok in \<open>auto simp: SST_ResetInstance_def sst_ok_def\<close>)
      from regression_inv [OF this, of kf precision] obtain inst' where
        "SST_DoNewRegression kf precision (find_min_delay_sample ?k) = Some inst'" "stats_inv inst'" .
      then show thesis using that Some n by (simp add: SST_LoadFromFile_def dump Let_def)
    qed
  qed
qed

end
