(* ===== verification/SourceHistory.thy ===== *)
theory SourceHistory
  imports SourceInvariant StatsInvariant
begin

text \<open>
  Histories of operations on the table of sources: from the initialisation on, no operation fails
  an assertion and all of them keep the invariant; the theorems about the selection and their instances.
\<close>

section \<open>The selection\<close>

text \<open>
  C2.  From a table of sources in its invariant the selection of a source fails no assertion and keeps the
  invariant. It sets a new reference at most once, and only from a source that it leaves
  selected: a point is then in the intervals of more than half of the sources that decide (the trusted
  ones if there are any), the source is admissible for the interval that was found, at least the
  configured minimum number of sources is admissible, and one of them is a required one if
  a source with the option is configured.
\<close>

theorem select_source:
  assumes "sources_ok st" "env_ok env" "\<And>i. upd = Some i \<Longrightarrow> i < length (sources st)"
  shows "\<exists>st'. SRC_SelectSource env upd st = Some st' \<and> sources_ok st' \<and>
    (refs st' = refs st \<or> (\<exists>st1 scan w sel e. find_selectable env (with_update upd st) = Some (st1, scan, length (ok_sources st1)) \<and>
       (\<exists>x. length (voting_sources st1) < 2 * covering st1 (voting_sources st1) x) \<and>
       find_interval env (length (ok_sources st1)) st1 = Some w \<and>
       (let A = filter (\<lambda>i. admissible w (sources st1 ! i)) (ok_sources st1) in
        sel \<in> set A \<and> selected_source_index st' = Some sel \<and> reference_of st1 sel (length A) e \<and> refs st' = refs st @ [e] \<and>
        min_sources env \<le> int (length A) \<and> (if sel_req_source scan then \<exists>i\<in>set A. opt_require (sources st1 ! i) else True))))"
proof -
  from select_source_result [OF assms] obtain st' where s: "SRC_SelectSource env upd st = Some st'" "sources_ok st'"
    "refs st' = refs st \<or> (\<exists>st1 scan. find_selectable env (with_update upd st) = Some (st1, scan, length (ok_sources st1)) \<and>
       found_ok st1 \<and> refs st1 = refs st \<and> reference_chosen env scan st1 st')" .
  show ?thesis
  proof (cases "refs st' = refs st")
    case False
    with s(3) obtain st1 scan where f: "find_selectable env (with_update upd st) = Some (st1, scan, length (ok_sources st1))" "found_ok st1" "refs st1 = refs st"
        "reference_chosen env scan st1 st'" by blast
    from f(4) obtain w sel e where w: "find_interval env (length (ok_sources st1)) st1 = Some w"
        "has_majority (length (ok_sources st1)) (length (filter (\<lambda>i. opt_trust (sources st1 ! i)) (ok_sources st1))) w"
        "let A = filter (\<lambda>i. admissible w (sources st1 ! i)) (ok_sources st1) in
         sel \<in> set A \<and> selected_source_index st' = Some sel \<and> reference_of st1 sel (length A) e \<and> refs st' = refs st @ [e] \<and>
         min_sources env \<le> int (length A) \<and> (sel_req_source scan \<longrightarrow> (\<exists>i\<in>set A. opt_require (sources st1 ! i)))"
      unfolding reference_chosen_def f(3) by blast
    have "ok_sources st1 \<noteq> []" using w(3) by (auto simp: Let_def)
    moreover have "\<forall>i\<in>set (ok_sources st1). lo_limit (sel_info (sources st1 ! i)) \<le> hi_limit (sel_info (sources st1 ! i))"
      using f(2) by (simp add: found_ok_def sel_good_def)
    moreover have "qsort_function (qsort env)" using assms(2) by (simp add: env_ok_def)
    ultimately have "\<exists>x. length (voting_sources st1) < 2 * covering st1 (voting_sources st1) x"
      using interval_found [of env st1] w(1,2) by (auto simp: Let_def)
    then show ?thesis using s(1,2) f(1) w(1,3)
      by (intro exI [of _ st'] conjI disjI2 exI [of _ st1] exI [of _ scan] exI [of _ w] exI [of _ sel] exI [of _ e]) (simp_all add: Let_def)
  qed (use s in blast)
qed

text \<open>
  C19.  The combination of the selectable sources.  A single source is left as it is.  Otherwise the combined sources are exactly
  the selected one and those that are not too distant, have a frequency close to that of the selected one and were
  not recently marked as distant; the other ones are marked as distant.  The new offset is the mean of the
  offsets of the combined sources at the time of the reference, weighted by the inverse of their distances, and is not outside
  them; the frequency is weighted by the inverse variances, and the deviations and the skew are those of
  the combined sources.  The distances, the deviations of the frequencies and the skews are positive.
\<close>

theorem combined_offset:
  assumes "set sels \<subseteq> {..<length (sources st)}" "distinct sels" "sel \<in> set sels" "\<forall>i\<in>set sels. sel_good (sources st ! i)"
    "\<forall>i\<in>set sels. 0 < td_frequency_sd (track st i) \<and> 0 < td_skew (track st i)" "distant (sources st ! sel) = 0" "status (sources st ! sel) = SRC_SELECTED"
  shows "\<exists>c ref' st'. combine_sources env sel sels ref st = Some (c, ref', st') \<and>
    (if length sels = 1 then c = 1 \<and> ref' = ref \<and> st' = st
     else let js = filter (joins env sel ref st) sels; src = track st; w = (\<lambda>i. 1 / si_root_distance (sel_info (sources st ! i))) in
       sel \<in> set js \<and> c = length js \<and>
       average_offset ref' = weighted_mean w (\<lambda>i. offset_at ref (src i)) js \<and>
       Min ((\<lambda>i. offset_at ref (src i)) ` set js) \<le> average_offset ref' \<and> average_offset ref' \<le> Max ((\<lambda>i. offset_at ref (src i)) ` set js) \<and>
       offset_sd ref' = sqrt (weighted_mean w (\<lambda>i. offset_var ref (src i)) js) \<and>
       td_frequency ref' = weighted_mean (\<lambda>i. 1 / (td_frequency_sd (src i))\<^sup>2) (\<lambda>i. td_frequency (src i)) js \<and>
       td_frequency_sd ref' = 1 / sqrt (\<Sum>i\<leftarrow>js. 1 / (td_frequency_sd (src i))\<^sup>2) \<and> td_skew ref' = 1 / sqrt (\<Sum>i\<leftarrow>js. 1 / (td_skew (src i))\<^sup>2) \<and>
       (\<forall>i\<in>set sels. if i \<in> set js then distant (sources st' ! i) = 0 \<and> status (sources st' ! i) \<noteq> SRC_OK
          else distant (sources st' ! i) \<noteq> 0 \<and> status (sources st' ! i) = SRC_DISTANT))"
proof -
  have "status (sources st ! sel) \<noteq> SRC_OK" using assms(7) by simp
  from combined_sources [where env = env and ref = ref, OF assms(1-4,6) this] obtain c ref' st' where
    r: "combine_sources env sel sels ref st = Some (c, ref', st')" "combining st sel sels st'"
      "if length sels = 1 then c = 1 \<and> ref' = ref \<and> st' = st
       else c = length (filter (joins env sel ref st) sels) \<and> ref' = combination env sel sels ref st \<and> visited env sel ref st sels st'" .
  let ?js = "filter (joins env sel ref st) sels" and ?off = "\<lambda>i. offset_at ref (track st i)"
  have js: "sel \<in> set ?js" using assms(3,6) by (simp add: joins_def)
  then have "?js \<noteq> []" by (metis empty_iff list.set(1))
  moreover have "\<forall>i\<in>set ?js. 0 < weight st i" using assms(4) by (simp add: weight_def sel_good_def)
  ultimately have m: "Min (?off ` set ?js) \<le> weighted_mean (weight st) ?off ?js" "weighted_mean (weight st) ?off ?js \<le> Max (?off ` set ?js)"
    using weighted_mean_between by blast+
  have w: "(\<lambda>i. 1 / si_root_distance (sel_info (sources st ! i))) = weight st" by (simp add: fun_eq_iff weight_def)
  have v: "if i \<in> set ?js then distant (sources st' ! i) = 0 \<and> status (sources st' ! i) \<noteq> SRC_OK
      else distant (sources st' ! i) \<noteq> 0 \<and> status (sources st' ! i) = SRC_DISTANT" if "i \<in> set sels" "length sels \<noteq> 1" for i
    using r(2,3) that assms(1) by (auto simp: visited_def combining_def)
  show ?thesis
  proof (cases "length sels = 1")
    case False
    then have "ref' = combination env sel sels ref st" "c = length ?js" using r(3) by simp_all
    then show ?thesis using r(1) js m v False by (simp add: Let_def w) (simp add: combination_def Let_def)
  qed (use r in simp)
qed

section \<open>The other operations\<close>

text \<open>The invariant of the table with that of the statistics of every source.\<close>

definition table_ok :: "SRC_State \<Rightarrow> bool" where
  "table_ok st \<longleftrightarrow> sources_ok st \<and> (\<forall>s\<in>set (sources st). stats_inv (stats s))"

lemma good_of_inv:
  assumes "stats_inv inst"
  shows "good_stats inst"
proof -
  have "distance_ok (root_delays inst ! get_buf_index inst (int k)) (root_dispersions inst ! get_buf_index inst (int k))" if "k < n_samples inst" for k
  proof -
    have "rec_at inst (int k) \<in> set (records_of inst)" using that by (auto simp: records_of_def)
    from bspec [OF _ this] assms show ?thesis by (auto simp: stats_inv_def samples_inv_def records_inv_def rec_at_def Let_def)
  qed
  then show ?thesis using assms by (auto simp: good_stats_def stats_inv_def distance_ok_def Let_def add.commute)
qed

lemma table_nth:
  assumes "table_ok st" "i < length (sources st)"
  shows "status (sources st ! i) \<noteq> SRC_OK" "stats_inv (stats (sources st ! i))" "0 < sel_score (sources st ! i)"
  using assms ok_nth nth_mem [OF assms(2)] by (auto simp: table_ok_def)

lemma table_upd:
  assumes "table_ok st" "i < length (sources st)" "status (f (sources st ! i)) \<noteq> SRC_OK" "stats_inv (stats (f (sources st ! i)))"
    "0 < sel_score (f (sources st ! i))" "distant (sources st ! i) = 0 \<Longrightarrow> distant (f (sources st ! i)) = 0"
  shows "table_ok (upd_source i f st)"
proof -
  have "sources_ok (upd_source i f st)" using assms by (intro ok_upd) (auto simp: table_ok_def good_of_inv)
  moreover have "\<forall>s\<in>set (sources (upd_source i f st)). stats_inv (stats s)"
    using assms(1,4) set_update_subset_insert [of "sources st" i "f (sources st ! i)"] by (auto simp: table_ok_def upd_source_def)
  ultimately show ?thesis by (simp add: table_ok_def)
qed

lemma simple_upd_ok:
  assumes "table_ok st" "i < length (sources st)" "\<And>s. status (f s) = status s \<and> stats (f s) = stats s \<and> sel_score (f s) = sel_score s \<and> distant (f s) = distant s"
  shows "table_ok (upd_source i f st)"
  by (rule table_upd [OF assms(1,2)]) (use assms(3) table_nth [OF assms(1,2)] in simp_all)

lemma table_map:
  assumes "table_ok st" "\<And>s. s \<in> set (sources st) \<Longrightarrow> status (f s) \<noteq> SRC_OK \<and> stats_inv (stats (f s)) \<and> 0 < sel_score (f s) \<and> distant (f s) = distant s"
  shows "table_ok (st\<lparr>sources := map f (sources st)\<rparr>)"
  using assms good_of_inv by (auto simp: table_ok_def sources_ok_def weights_ok_def)

lemma emit_ok: "table_ok (emit e st) = table_ok st"
  by (simp add: table_ok_def sources_ok_def weights_ok_def emit_def)

lemma sel_options_map: "\<exists>g. update_sel_options env st = st\<lparr>sources := map (\<lambda>s. s\<lparr>sel_options := g s\<rparr>) (sources st)\<rparr>"
  unfolding update_sel_options_def Let_def by (auto split: prod.splits)

lemma sel_options_ok:
  assumes "table_ok st"
  shows "table_ok (update_sel_options env st)"
proof -
  obtain g where "update_sel_options env st = st\<lparr>sources := map (\<lambda>s. s\<lparr>sel_options := g s\<rparr>) (sources st)\<rparr>" using sel_options_map by blast
  moreover have "table_ok (st\<lparr>sources := map (\<lambda>s. s\<lparr>sel_options := g s\<rparr>) (sources st)\<rparr>)"
    by (rule table_map [OF assms]) (use assms in \<open>simp add: table_ok_def sources_ok_def\<close>)
  ultimately show ?thesis by simp
qed

lemma update_sel_options_fields:
  "length (sources (update_sel_options env st)) = length (sources st)" "selected_source_index (update_sel_options env st) = selected_source_index st"
  by (simp_all add: update_sel_options_def Let_def split: prod.splits)

lemma select_ok:
  assumes "table_ok st" "env_ok env" "\<And>i. upd = Some i \<Longrightarrow> i < length (sources st)"
  shows "\<exists>st'. SRC_SelectSource env upd st = Some st' \<and> table_ok st' \<and> length (sources st') = length (sources st)"
proof -
  have "sources_ok st" using assms(1) by (simp add: table_ok_def)
  from select_source_result [OF this assms(2,3)] obtain st' where
    s: "SRC_SelectSource env upd st = Some st'" "sources_ok st'" "map stats (sources st') = map stats (sources st)" by blast
  from arg_cong [OF s(3), of length] arg_cong [OF s(3), of set] have l: "length (sources st') = length (sources st)" "stats ` set (sources st') = stats ` set (sources st)" by simp_all
  have "\<forall>x\<in>stats ` set (sources st'). stats_inv x" unfolding l(2) using assms(1) by (simp add: table_ok_def)
  then show ?thesis using s(1,2) l(1) by (simp add: table_ok_def)
qed

lemma reset_ok:
  assumes "table_ok st" "i < length (sources st)"
  shows "table_ok (upd_source i reset_fields st)"
proof -
  have "sst_ok (stats (sources st ! i))" using table_nth(2) [OF assms] by (simp add: stats_inv_def samples_inv_def)
  then show ?thesis by (intro table_upd [OF assms]) (simp_all add: reset_fields_def reset_inv)
qed

lemma reset_instance_ok:
  assumes "table_ok st" "env_ok env" "i < length (sources st)"
  shows "\<exists>st'. SRC_ResetInstance env i st = Some st' \<and> table_ok st' \<and> length (sources st') = length (sources st)"
  using reset_ok [OF assms(1,3)] select_ok [of "upd_source i reset_fields st" env None] assms(2) by (auto simp: SRC_ResetInstance_def Let_def)

lemma create_ok:
  assumes "table_ok st" "env_ok env" "buffers_ok (stats memory)"
  shows "\<exists>st'. SRC_CreateNewInstance env cnf memory id' ty auth options addr min_s max_s min_delay asy max_unreach st = Some st' \<and> table_ok st' \<and>
    length (sources st') = Suc (length (sources st))"
proof -
  let ?min = "if min_s = -1 then cnf_min_samples cnf else min_s" and ?max = "if max_s = -1 then cnf_max_samples cnf else max_s"
  let ?new = "memory\<lparr>stats := SST_CreateInstance (stats memory) id' addr ?min ?max min_delay asy, src_type := ty, authenticated := auth,
      conf_sel_options := options, sel_options := options, max_unreachable_run := max_unreach, active := False\<rparr>"
  let ?i = "length (sources st)"
  let ?s = "SRC_SetRefid ?i id' addr (st\<lparr>sources := sources st @ [?new]\<rparr>)"
  have n: "selected_source_index ?s \<noteq> Some ?i" using assms(1) by (auto simp: SRC_SetRefid_def sources_ok_def table_ok_def)
  have new: "stats_inv (SST_ResetInstance (SST_SetRefid id' addr (SST_CreateInstance (stats memory) id' addr ?min ?max min_delay asy)))"
    using setrefid_inv [OF create_inv [OF assms(3)]] by (intro reset_inv) (simp add: stats_inv_def samples_inv_def)
  then have "table_ok (upd_source ?i reset_fields ?s)"
    using assms(1) good_of_inv [OF new] by (auto simp: table_ok_def sources_ok_def SRC_SetRefid_def upd_source_def weights_ok_def nth_append reset_fields_def)
  then have "SRC_ResetInstance env ?i ?s = Some (upd_source ?i reset_fields ?s)" "table_ok (update_sel_options env (upd_source ?i reset_fields ?s))"
    using n sel_options_ok by (simp_all add: SRC_ResetInstance_def Let_def)
  then show ?thesis by (simp add: SRC_CreateNewInstance_def Let_def update_sel_options_fields SRC_SetRefid_def)
qed

lemma destroy_ok:
  assumes "table_ok st" "env_ok env" "dead < length (sources st)"
  shows "\<exists>st'. SRC_DestroyInstance env dead st = Some st' \<and> table_ok st'"
proof -
  have sok: "sources_ok st" "\<forall>s\<in>set (sources st). stats_inv (stats s)" using assms(1) by (simp_all add: table_ok_def)
  let ?xs = "take dead (sources st) @ drop (dead + 1) (sources st)"
  have nth: "?xs ! shift_index dead i = sources st ! i" "shift_index dead i < length ?xs" if "i < length (sources st)" "i \<noteq> dead" for i
    using that assms(3) by (auto simp: shift_index_def nth_append)
  have set: "set ?xs \<subseteq> set (sources st)" using set_take_subset set_drop_subset by (metis Un_subset_iff set_append)
  define s1 where "s1 = (if last_updated_inst st = Some dead then st\<lparr>last_updated_inst := None\<rparr> else st)"
  define s2 where "s2 = s1\<lparr>sources := ?xs, last_updated_inst := map_option (shift_index dead) (last_updated_inst s1)\<rparr>"
  define s3 where "s3 = update_sel_options env s2"
  define s4 where "s4 = (case selected_source_index s3 of
      Some sel \<Rightarrow> if sel > dead then s3\<lparr>selected_source_index := Some (sel - 1)\<rparr> else if sel = dead then unselect_selected_source env None s3 else s3 | None \<Rightarrow> s3)"
  have s1: "sources s1 = sources st" "selected_source_index s1 = selected_source_index st" "weights_ok s1 = weights_ok st"
    "\<And>i. last_updated_inst s1 = Some i \<Longrightarrow> i < length (sources st) \<and> i \<noteq> dead" using sok(1) by (auto simp: s1_def weights_ok_def sources_ok_def split: if_splits)
  have dist: "distant (sources s3 ! j) = distant (?xs ! j)" if "j < length ?xs" for j
  proof -
    obtain g where "update_sel_options env s2 = s2\<lparr>sources := map (\<lambda>s. s\<lparr>sel_options := g s\<rparr>) (sources s2)\<rparr>" using sel_options_map by blast
    then have "sources s3 ! j = (?xs ! j)\<lparr>sel_options := g (?xs ! j)\<rparr>" unfolding s3_def using nth_map [OF that] by (simp add: s2_def)
    then show ?thesis by simp
  qed
  have s3: "sources_ok (s3\<lparr>selected_source_index := None\<rparr>)"
  proof -
    have "sources_ok (s2\<lparr>selected_source_index := None\<rparr>)"
      using sok(1) set s1 nth(2) by (auto simp: sources_ok_def s2_def weights_ok_def)
    moreover obtain g where "s3 = s2\<lparr>sources := map (\<lambda>s. s\<lparr>sel_options := g s\<rparr>) (sources s2)\<rparr>" using sel_options_map s3_def by blast
    ultimately show ?thesis by (auto simp: sources_ok_def weights_ok_def)
  qed
  have l3: "length (sources s3) = length ?xs" and sel3: "selected_source_index s3 = selected_source_index st"
    by (simp_all add: s3_def s2_def s1(2) update_sel_options_fields)
  have "sources_ok s4"
  proof (cases "selected_source_index st")
    case None
    then have "s4 = s3\<lparr>selected_source_index := None\<rparr>" using sel3 by (simp add: s4_def)
    then show ?thesis using s3 by simp
  next
    case (Some sel)
    have d: "sel < length (sources st)" "distant (sources st ! sel) = 0" using sok(1) Some by (auto simp: sources_ok_def)
    show ?thesis
    proof (cases "sel = dead")
      case True
      then show ?thesis using s3 Some sel3 unselect_fields [of env None s3] conf_fields [OF unselect_fields(2) [of env None s3]]
        by (simp add: s4_def sources_ok_def weights_ok_def)
    next
      case False
      have "shift_index dead sel < length ?xs" "distant (sources s3 ! shift_index dead sel) = 0" using nth [OF d(1) False] dist d(2) by simp_all
      then show ?thesis using s3 Some sel3 l3 False by (auto simp: s4_def sources_ok_def weights_ok_def shift_index_def split: if_splits)
    qed
  qed
  moreover have "\<forall>s\<in>set (sources s4). stats_inv (stats s)"
  proof -
    obtain g where "s3 = s2\<lparr>sources := map (\<lambda>s. s\<lparr>sel_options := g s\<rparr>) (sources s2)\<rparr>" using sel_options_map s3_def by blast
    then have "\<forall>s\<in>set (sources s3). stats_inv (stats s)" using sok(2) set by (auto simp: s2_def)
    moreover have "sources s4 = sources s3" by (simp add: s4_def unselect_fields split: option.splits)
    ultimately show ?thesis by simp
  qed
  ultimately have "table_ok s4" by (simp add: table_ok_def)
  moreover have "SRC_DestroyInstance env dead st = SRC_SelectSource env None s4"
  proof -
    have c: "\<not> \<not> dead < length (sources st)" using assms(3) by simp
    show ?thesis
      unfolding SRC_DestroyInstance_def Let_def s1_def [symmetric] s1(1) if_not_P [OF c] s2_def [symmetric] s3_def [symmetric] s4_def [symmetric] ..
  qed
  ultimately show ?thesis using select_ok [of s4 env None] assms(2) by auto
qed

lemma reachability_ok:
  assumes "table_ok st" "env_ok env" "i < length (sources st)"
  shows "\<exists>st'. SRC_UpdateReachability env i reachable st = Some st' \<and> table_ok st'"
proof -
  define s1 where "s1 = upd_source i (shift_reachability reachable) st"
  have o1: "table_ok s1" unfolding s1_def by (rule table_upd [OF assms(1,3)]) (use table_nth [OF assms(1,3)] in \<open>simp_all add: shift_reachability_def Let_def\<close>)
  define s2 where "s2 = (if \<not> normal_mode env \<and> special_mode_end s1 then emit REF_SetUnsynchronised s1 else s1)"
  define s3 where "s3 = (if reachability (sources s2 ! i) = 0 \<and> reachability_size (sources s2 ! i) = SOURCE_REACH_BITS then handle_bad_source i s2 else s2)"
  have o3: "table_ok s3" using o1 by (simp add: s3_def s2_def handle_bad_source_def emit_ok)
  have e: "SRC_UpdateReachability env i reachable st = (if reachability (sources s2 ! i) = 0 then SRC_SelectSource env None s3 else Some s3)"
    unfolding SRC_UpdateReachability_def Let_def s1_def [symmetric] s2_def [symmetric] s3_def [symmetric] ..
  show ?thesis unfolding e using select_ok [OF o3 assms(2), of None] o3 by auto
qed

lemma reset_reachability_ok:
  assumes "table_ok st" "env_ok env" "i < length (sources st)"
  shows "\<exists>st'. SRC_ResetReachability env i st = Some st' \<and> table_ok st'"
proof -
  have "table_ok (upd_source i (\<lambda>s. s\<lparr>reachability := 0, reachability_size := 0, unreachable_run := 0\<rparr>) st)"
    by (rule table_upd [OF assms(1,3)]) (use table_nth [OF assms(1,3)] in simp_all)
  from reachability_ok [OF this assms(2)] show ?thesis using assms(3) by (simp add: SRC_ResetReachability_def)
qed

section \<open>Histories\<close>

datatype SRC_Op =
  Op_Create SRC_Conf SRC_Instance u32 SRC_Type bool u32 "IPAddr option" int int real real int
| Op_Destroy nat
| Op_Reset nat
| Op_SetRefid nat u32 "IPAddr option"
| Op_UpdateStatus bool nat int NTP_Leap
| Op_Sample bool bool real nat NTP_Sample
| Op_SetActive nat
| Op_UnsetActive nat
| Op_Reachability nat bool
| Op_ResetReachability nat
| Op_Select "nat option"
| Op_Reselect
| Op_SetReselect real
| Op_Slew timespec real real bool
| Op_Dispersion real
| Op_ResetSources
| Op_Reload bool "IPAddr option \<Rightarrow> string option" real int timespec "nat \<Rightarrow> DumpFile option"
| Op_Modify IPAddr u32 u32 u32

fun apply_op :: "SRC_Env \<Rightarrow> SRC_Op \<Rightarrow> SRC_State \<Rightarrow> SRC_State option" where
  "apply_op env (Op_Create cnf memory id' ty auth options addr min_s max_s min_delay asy max_unreach) st =
     SRC_CreateNewInstance env cnf memory id' ty auth options addr min_s max_s min_delay asy max_unreach st"
| "apply_op env (Op_Destroy i) st = SRC_DestroyInstance env i st"
| "apply_op env (Op_Reset i) st = SRC_ResetInstance env i st"
| "apply_op env (Op_SetRefid i id' addr) st = Some (SRC_SetRefid i id' addr st)"
| "apply_op env (Op_UpdateStatus close i str lp) st = Some (SRC_UpdateStatus close i str lp st)"
| "apply_op env (Op_Sample kf close precision i sample) st = SRC_AccumulateSample kf close precision i sample st"
| "apply_op env (Op_SetActive i) st = Some (SRC_SetActive i st)"
| "apply_op env (Op_UnsetActive i) st = Some (SRC_UnsetActive i st)"
| "apply_op env (Op_Reachability i reachable) st = SRC_UpdateReachability env i reachable st"
| "apply_op env (Op_ResetReachability i) st = SRC_ResetReachability env i st"
| "apply_op env (Op_Select upd) st = SRC_SelectSource env upd st"
| "apply_op env Op_Reselect st = SRC_ReselectSource env st"
| "apply_op env (Op_SetReselect d) st = Some (SRC_SetReselectDistance d st)"
| "apply_op env (Op_Slew cooked dfreq doffset unknown) st = slew_sources env cooked dfreq doffset unknown st"
| "apply_op env (Op_Dispersion d) st = Some (add_dispersion d st)"
| "apply_op env Op_ResetSources st = SRC_ResetSources env st"
| "apply_op env (Op_Reload kf name precision era_split now files) st = SRC_ReloadSources kf env name precision era_split now files st"
| "apply_op env (Op_Modify ip id' options msk) st = Some (snd (SRC_ModifySelectOptions env ip id' options msk st))"

text \<open>
  What the callers of the operations give: the instances are in the table and the arrays of a new one are allocated; a new sample
  has a normalised time, and a root distance that is positive and fits in a double; the samples keep
  their order in a change of the clock and the distances stay in the range of a double; the lines of the
  dump files have positive root distances and the era of NTP times ends in the range of \<open>time_t\<close>.  All of these are conditions on the
  arguments and the state before the operation, none on its result.
\<close>

fun op_ok :: "SRC_Op \<Rightarrow> SRC_State \<Rightarrow> bool" where
  "op_ok (Op_Create cnf memory id' ty auth options addr min_s max_s min_delay asy max_unreach) st = buffers_ok (stats memory)"
| "op_ok (Op_Destroy i) st = (i < length (sources st))"
| "op_ok (Op_Reset i) st = (i < length (sources st))"
| "op_ok (Op_SetRefid i id' addr) st = (i < length (sources st))"
| "op_ok (Op_UpdateStatus close i str lp) st = (i < length (sources st))"
| "op_ok (Op_Sample kf close precision i sample) st =
     (i < length (sources st) \<and> time_ok (sm_time sample) \<and> distance_ok (sm_root_delay sample) (sm_root_dispersion sample))"
| "op_ok (Op_SetActive i) st = (i < length (sources st))"
| "op_ok (Op_UnsetActive i) st = (i < length (sources st))"
| "op_ok (Op_Reachability i reachable) st = (i < length (sources st))"
| "op_ok (Op_ResetReachability i) st = (i < length (sources st))"
| "op_ok (Op_Select upd) st = (case upd of Some i \<Rightarrow> i < length (sources st) | None \<Rightarrow> True)"
| "op_ok (Op_SetReselect d) st = (0 \<le> d)"
| "op_ok (Op_Slew cooked dfreq doffset unknown) st = (unknown \<or> (\<forall>s\<in>set (sources st). slew_ok cooked dfreq doffset (stats s)))"
| "op_ok (Op_Dispersion d) st =
     (0 \<le> d \<and> (\<forall>s\<in>set (sources st). \<forall>(_, _, rdelay, rdisp)\<in>set (records_of (stats s)). rdisp + d + rdelay / 2 \<le> 10 ^ 300))"
| "op_ok (Op_Reload kf name precision era_split now files) st =
     (era_split + 2 ^ 32 < 2 ^ 63 \<and> (\<forall>i<length (sources st). case files i of Some f \<Rightarrow> lines_ok (snd (df_samples f)) | None \<Rightarrow> True))"
| "op_ok _ st = True"

fun run_ops :: "(SRC_Env \<times> SRC_Op) list \<Rightarrow> SRC_State \<Rightarrow> SRC_State option" where
  "run_ops [] st = Some st"
| "run_ops ((env, op) # ops) st = Option.bind (apply_op env op st) (run_ops ops)"

fun ops_ok :: "(SRC_Env \<times> SRC_Op) list \<Rightarrow> SRC_State \<Rightarrow> bool" where
  "ops_ok [] st = True"
| "ops_ok ((env, op) # ops) st = (env_ok env \<and> op_ok op st \<and> (case apply_op env op st of Some st' \<Rightarrow> ops_ok ops st' | None \<Rightarrow> True))"

lemma load_source_ok:
  assumes "table_ok st" "i < length (sources st)" "era_split + 2 ^ 32 < 2 ^ 63" "case dump of Some f \<Rightarrow> lines_ok (snd (df_samples f)) | None \<Rightarrow> True"
  obtains s' where "load_source kf name precision era_split now dump (sources st ! i) = Some s'" "status s' = status (sources st ! i)" "stats_inv (stats s')"
    "sel_score s' = sel_score (sources st ! i)" "distant s' = distant (sources st ! i)"
proof -
  let ?s = "sources st ! i"
  note t = table_nth(2) [OF assms(1,2)]
  show thesis
  proof (cases "if has_dumpfile ?s then dump else None")
    case None
    then show thesis using that [of ?s] t by (simp add: load_source_def)
  next
    case (Some f)
    then have "lines_ok (snd (df_samples f))" using assms(4) by (auto split: if_splits)
    from load_inv [OF t this assms(3), of kf precision now] obtain b inst' where
      l: "SST_LoadFromFile kf precision era_split now (df_samples f) (stats ?s) = Some (b, inst')" "stats_inv inst'" .
    show thesis
    proof (cases "src_type ?s = SRC_NTP \<and> name (src_ip_addr ?s) \<noteq> Some (df_name f) \<or> \<not> df_auth f \<and> authenticated ?s \<or>
          df_stratum f < 0 \<or> df_stratum f \<ge> 16 \<or> df_leap f < 0 \<or> df_leap f \<ge> 3")
      case True
      then have "load_source kf name precision era_split now dump ?s = Some ?s" unfolding load_source_def Some option.case by (rule if_P)
      then show thesis using that t by simp
    next
      case False
      let ?t = "if b then ?s\<lparr>stats := inst', reachability := df_reach f mod 2 ^ SOURCE_REACH_BITS,
             reachability_size := nat (CLAMP 0 (df_reach_size f) (int SOURCE_REACH_BITS)), stratum := df_stratum f, leap := leap_of_value (df_leap f)\<rparr>
           else ?s\<lparr>stats := inst'\<rparr>"
      have "load_source kf name precision era_split now dump ?s = Some ?t"
        unfolding load_source_def Some option.case if_not_P [OF False] l(1) by simp
      then show thesis using that l(2) by (cases b) auto
    qed
  qed
qed

lemma reload_ok:
  assumes "table_ok st" "env_ok env" "op_ok (Op_Reload kf name precision era_split now files) st"
  shows "\<exists>st'. SRC_ReloadSources kf env name precision era_split now files st = Some st' \<and> table_ok st'"
proof -
  let ?f = "\<lambda>i st. map_option (\<lambda>s. upd_source i (\<lambda>_. s\<lparr>updates := updates s + 1\<rparr>) st) (load_source kf name precision era_split now (files i) (sources st ! i))"
  have step: "\<exists>s'. ?f i s = Some s' \<and> table_ok s' \<and> length (sources s') = length (sources st)"
    if "i < length (sources st)" "table_ok s \<and> length (sources s) = length (sources st)" for i s
  proof -
    have i: "i < length (sources s)" "table_ok s" using that by simp_all
    have "era_split + 2 ^ 32 < 2 ^ 63" "case files i of Some f \<Rightarrow> lines_ok (snd (df_samples f)) | None \<Rightarrow> True" using assms(3) that(1) by simp_all
    from load_source_ok [OF i(2,1) this, of kf name precision now] obtain s' where
      s': "load_source kf name precision era_split now (files i) (sources s ! i) = Some s'" "status s' = status (sources s ! i)" "stats_inv (stats s')"
        "sel_score s' = sel_score (sources s ! i)" "distant s' = distant (sources s ! i)" .
    have "table_ok (upd_source i (\<lambda>_. s'\<lparr>updates := updates s' + 1\<rparr>) s)"
      by (rule table_upd [OF i(2,1)]) (use s' table_nth [OF i(2,1)] in simp_all)
    then show ?thesis using s'(1) that(2) by simp
  qed
  have "\<exists>s'. for_each ?f [0..<length (sources st)] st = Some s' \<and> table_ok s' \<and> length (sources s') = length (sources st)"
    by (rule for_each_upt [where I = "\<lambda>k s. table_ok s \<and> length (sources s) = length (sources st)"]) (use step assms(1) in auto)
  then show ?thesis using select_ok [OF _ assms(2), where upd = None] by (fastforce simp: SRC_ReloadSources_def)
qed

lemma op_table_ok:
  assumes "table_ok st" "env_ok env" "op_ok op st"
  shows "\<exists>st'. apply_op env op st = Some st' \<and> table_ok st'"
proof (cases op)
  case (Op_Sample kf close precision i sample)
  then have i: "i < length (sources st)" "time_ok (sm_time sample)" "distance_ok (sm_root_delay sample) (sm_root_dispersion sample)" using assms(3) by simp_all
  from new_sample_inv [OF table_nth(2) [OF assms(1) i(1)] i(2,3), of kf precision] obtain inst where
    inst: "Option.bind (SST_AccumulateSample sample (stats (sources st ! i))) (SST_DoNewRegression kf precision) = Some inst" "stats_inv inst" .
  have "table_ok (upd_source i (\<lambda>s. s\<lparr>stats := inst\<rparr>) st)" by (rule table_upd [OF assms(1) i(1)]) (use table_nth [OF assms(1) i(1)] inst(2) in simp_all)
  then show ?thesis using Op_Sample inst(1) assms(1) by (simp add: SRC_AccumulateSample_def)
next
  case (Op_SetRefid i id' addr)
  have i: "i < length (sources st)" using Op_SetRefid assms(3) by simp
  have "table_ok (SRC_SetRefid i id' addr st)"
    unfolding SRC_SetRefid_def by (rule table_upd [OF assms(1) i]) (use table_nth [OF assms(1) i] setrefid_inv in simp_all)
  then show ?thesis using Op_SetRefid by simp
next
  case (Op_UpdateStatus close i str lp)
  have i: "i < length (sources st)" using Op_UpdateStatus assms(3) by simp
  have "table_ok (upd_source i (\<lambda>s. s\<lparr>stratum := str\<rparr>) st)" by (rule simple_upd_ok [OF assms(1) i]) simp
  moreover from this have "table_ok (upd_source i (\<lambda>s. s\<lparr>leap := lp\<rparr>) (upd_source i (\<lambda>s. s\<lparr>stratum := str\<rparr>) st))" by (rule simple_upd_ok) (use i in simp_all)
  ultimately have "table_ok (SRC_UpdateStatus close i str lp st)" by (simp add: SRC_UpdateStatus_def Let_def emit_ok)
  then show ?thesis using Op_UpdateStatus by simp
next
  case (Op_SetActive i)
  then show ?thesis using simple_upd_ok [OF assms(1), of i "\<lambda>s. s\<lparr>active := True\<rparr>"] assms(3) by (simp add: SRC_SetActive_def)
next
  case (Op_UnsetActive i)
  then show ?thesis using simple_upd_ok [OF assms(1), of i "\<lambda>s. s\<lparr>active := False\<rparr>"] assms(3) by (simp add: SRC_UnsetActive_def)
next
  case (Op_Select upd)
  have "i < length (sources st)" if "upd = Some i" for i using assms(3) Op_Select that by simp
  from select_ok [OF assms(1,2) this] show ?thesis using Op_Select by auto
next
  case Op_Reselect
  have "table_ok (st\<lparr>selected_source_index := None\<rparr>)" using assms(1) by (simp add: table_ok_def sources_ok_def weights_ok_def)
  then show ?thesis using select_ok [OF _ assms(2), of "st\<lparr>selected_source_index := None\<rparr>" None] Op_Reselect by (auto simp: SRC_ReselectSource_def)
next
  case (Op_Slew cooked dfreq doffset unknown)
  let ?f = "\<lambda>s::SRC_Instance. s\<lparr>stats := (if unknown then SST_ResetInstance (stats s) else SST_SlewSamples cooked dfreq doffset (stats s))\<rparr>"
  have m: "table_ok (st\<lparr>sources := map ?f (sources st)\<rparr>)" by (rule table_map [OF assms(1)]) (use assms(1,3) Op_Slew stats_slew_inv reset_inv in \<open>auto simp: table_ok_def sources_ok_def stats_inv_def samples_inv_def\<close>)
  show ?thesis using select_ok [OF m assms(2), of None] m Op_Slew by (cases unknown) (auto simp: slew_sources_def Let_def)
next
  case (Op_Dispersion d)
  then have "table_ok (add_dispersion d st)" unfolding add_dispersion_def
    by (intro table_map [OF assms(1)]) (use assms(1,3) Op_Dispersion dispersion_inv in \<open>auto simp: table_ok_def sources_ok_def\<close>)
  then show ?thesis using Op_Dispersion by simp
next
  case Op_ResetSources
  have "\<exists>s'. for_each (SRC_ResetInstance env) [0..<length (sources st)] st = Some s' \<and> table_ok s' \<and> length (sources s') = length (sources st)"
    by (rule for_each_upt [where I = "\<lambda>k s. table_ok s \<and> length (sources s) = length (sources st)"]) (use reset_instance_ok assms(1,2) in fastforce)+
  then show ?thesis using Op_ResetSources by (auto simp: SRC_ResetSources_def)
next
  case (Op_Modify ip id' options msk)
  have "table_ok (update_sel_options env (upd_source i (\<lambda>s. s\<lparr>conf_sel_options := (conf_sel_options s AND NOT msk) OR options\<rparr>) st))" if "find_source ip id' st = Some i" for i
  proof -
    have "i < length (sources st)" using that by (auto simp: find_source_def find_Some_iff)
    then show ?thesis by (intro sel_options_ok simple_upd_ok [OF assms(1)]) auto
  qed
  then show ?thesis using Op_Modify assms(1) by (auto simp: SRC_ModifySelectOptions_def split: option.splits)
next
  case (Op_SetReselect d)
  then show ?thesis using assms(1,3) by (auto simp: SRC_SetReselectDistance_def table_ok_def sources_ok_def weights_ok_def)
next
  case (Op_Reset i)
  then show ?thesis using reset_instance_ok [OF assms(1,2), of i] assms(3) by auto
next
  case (Op_Create cnf memory id' ty auth options addr min_s max_s min_delay asy max_unreach)
  then have "buffers_ok (stats memory)" using assms(3) by simp
  from create_ok [OF assms(1,2) this] show ?thesis unfolding Op_Create apply_op.simps by blast
next
  case (Op_Reload kf name precision era_split now files)
  then show ?thesis using reload_ok assms by auto
qed (use assms destroy_ok reachability_ok reset_reachability_ok in auto)

text \<open>
  C15.  Any history of operations on the table of sources from its initialisation returns: new and removed sources, samples with
  their regressions, status and reachability updates, changes of the clock, resets, reloaded dump files and selections.  No
  assertion fails in any of them, whatever the results of the other modules are, and the table keeps its invariant, with the one of the statistics
  of every source, as long as the arguments are those that the callers give.
\<close>

theorem sources_history:
  assumes "0 \<le> cnf_reselect_distance cnf" "0 \<le> cnf_stratum_weight cnf" "ops_ok ops (SRC_Initialise cnf flags)"
  shows "\<exists>st. run_ops ops (SRC_Initialise cnf flags) = Some st \<and> sources_ok st \<and> (\<forall>s\<in>set (sources st). stats_inv (stats s))"
proof -
  have "\<exists>st'. run_ops ops st = Some st' \<and> table_ok st'" if "table_ok st" "ops_ok ops st" for st
    using that
  proof (induction ops arbitrary: st)
    case (Cons p ops)
    obtain env op where p: "p = (env, op)" by fastforce
    from op_table_ok [OF Cons.prems(1), of env op] Cons.prems(2) obtain st' where "apply_op env op st = Some st'" "table_ok st'" by (auto simp: p)
    then show ?case using Cons.IH [of st'] Cons.prems(2) by (simp add: p)
  qed simp
  moreover have "table_ok (SRC_Initialise cnf flags)" using assms(1,2) by (cases flags) (simp add: table_ok_def sources_ok_def SRC_Initialise_def weights_ok_def)
  ultimately show ?thesis using assms(3) unfolding table_ok_def by blast
qed

section \<open>Instances that show the hypotheses can hold\<close>

definition example_env :: SRC_Env where
  "example_env = \<lparr>ev_now = Timespec 3 0, max_clock_error = 1 / 10 ^ 6, orphan_stratum = 16, local_refid = (\<lambda>_. 0), normal_mode = True,
     min_sources = 1, auth_select_mode = SRC_AUTHSELECT_MIX, qsort = insertion_sort\<rparr>"

lemma example_env_ok: "env_ok example_env"
  by (simp add: env_ok_def example_env_def isort.qsort_function_axioms)

definition example_info :: SelectInfo where
  "example_info = \<lparr>si_std_dev = 1 / 1000, si_root_distance = 1 / 100, lo_limit = -1 / 1000, hi_limit = 1 / 1000, si_last_sample_ago = 1\<rparr>"

definition example_source :: "SRC_Status \<Rightarrow> SRC_Instance" where
  "example_source x = \<lparr>stats = three_samples, src_ref_id = 1, src_ip_addr = None, active = True, reachability = 7, reachability_size = 3, unreachable_run = 0,
     max_unreachable_run = 100000, updates = 1, distant = 0, bad = 0, status = x, src_type = SRC_REFCLOCK, authenticated = False, conf_sel_options = 0,
     sel_options = 0, sel_score = 1, sel_info = example_info, stratum = 0, leap = LEAP_Normal, leap_vote = False, reported_status = {}\<rparr>"

definition example_state :: "SRC_Status \<Rightarrow> SRC_State" where
  "example_state x = \<lparr>sources = [example_source x, example_source x], selected_source_index = None, reported_no_majority = False, report_selection_loss = False,
     forced_first_report = False, max_distance = 3, max_jitter = 1, max_stratum = 16, min_stratum = 0, reselect_distance = 1 / 10000, stratum_weight = 1 / 1000,
     combine_limit = 3, last_updated_inst = None, effects = []\<rparr>"

lemma three_samples_good: "good_stats three_samples" "0 < n_samples three_samples"
  by (simp_all add: good_stats_def three_samples_def get_buf_index_def Let_def)

lemma example_state_ok: "sources_ok (example_state SRC_BAD_STATS)"
  by (simp add: sources_ok_def example_state_def example_source_def three_samples_good weights_ok_def)

lemma example_ok_sources: "ok_sources (example_state SRC_OK) = [0, 1]" "filter (\<lambda>i. opt_trust (sources (example_state SRC_OK) ! i)) [0, 1] = []"
  by (simp_all add: ok_sources_def example_state_def example_source_def upt_conv_Cons)

lemma example_covering: "covering (example_state SRC_OK) [0, 1] 0 = 2" "covering (example_state SRC_OK) [0, 1] x \<le> 2" "covering (example_state SRC_OK) [] x = 0"
  using covering_le [of "example_state SRC_OK" "[0, 1]" x] by (simp_all add: covering_def example_state_def example_source_def example_info_def)

theorem interval_search_witness:
  "\<exists>w. find_interval example_env (length (ok_sources (example_state SRC_OK))) (example_state SRC_OK) = Some w \<and> best_depth w = 2 \<and> has_majority 2 0 w"
proof -
  have q: "qsort_function (qsort example_env)" using example_env_ok by (simp add: env_ok_def)
  have ne: "ok_sources (example_state SRC_OK) \<noteq> []" by (simp add: example_ok_sources)
  have v: "voting_sources (example_state SRC_OK) = [0, 1]" unfolding voting_sources_def example_ok_sources by simp
  have n: "length [0, 1 :: nat] = 2" "length ([] :: nat list) = 0" by simp_all
  have "\<forall>i\<in>set (ok_sources (example_state SRC_OK)). lo_limit (sel_info (sources (example_state SRC_OK) ! i)) \<le> hi_limit (sel_info (sources (example_state SRC_OK) ! i))"
    unfolding example_ok_sources by (simp add: example_state_def example_source_def example_info_def)
  from interval_search [OF q ne this, unfolded Let_def v example_ok_sources n] obtain w where
    w: "find_interval example_env 2 (example_state SRC_OK) = Some w" "best_depth w = int (covering (example_state SRC_OK) [0, 1] (best_lo w))"
      "best_trust_depth w = int (covering (example_state SRC_OK) [] (best_lo w))"
      "\<forall>x. int (covering (example_state SRC_OK) [] x) < best_trust_depth w \<or>
        int (covering (example_state SRC_OK) [] x) = best_trust_depth w \<and> int (covering (example_state SRC_OK) [0, 1] x) \<le> best_depth w"
      "has_majority 2 0 w = (\<exists>x. 2 < 2 * covering (example_state SRC_OK) [0, 1] x)" by blast
  have "best_trust_depth w = 0" using w(3) by (simp only: example_covering of_nat_0)
  with spec [OF w(4), of 0] have "2 \<le> best_depth w" unfolding example_covering by linarith
  then have "best_depth w = 2" using w(2) example_covering(2) [of "best_lo w"] by linarith
  moreover have "has_majority 2 0 w" unfolding w(5) by (intro exI [of _ 0]) (simp only: example_covering)
  ultimately show ?thesis using w(1) unfolding example_ok_sources n by blast
qed

theorem select_source_witness:
  "sources_ok (example_state SRC_BAD_STATS) \<and> env_ok example_env \<and> 0 < length (sources (example_state SRC_BAD_STATS)) \<and>
   (\<exists>st'. SRC_SelectSource example_env (Some 0) (example_state SRC_BAD_STATS) = Some st' \<and> sources_ok st')"
  using select_source [OF example_state_ok example_env_ok, of "Some 0"] example_state_ok example_env_ok by (auto simp: example_state_def)

lemma example_tracking: "SST_GetTrackingData three_samples = Some \<lparr>ref_time = UTI_ZeroTimespec, average_offset = 0, offset_sd = 4, td_frequency = 0,
    td_frequency_sd = 2000 / 10 ^ 6, td_skew = 2000 / 10 ^ 6, td_root_delay = 1 / 50, td_root_dispersion = 4\<rparr>"
  by (simp add: SST_GetTrackingData_def three_samples_def get_buf_index_def get_runsbuf_index_def Let_def UTI_ZeroTimespec_def UTI_DiffTimespecsToDouble_def)

definition example_table :: SRC_State where
  "example_table = (example_state SRC_SELECTED)\<lparr>sources := [example_source SRC_SELECTED, example_source SRC_OK,
     (example_source SRC_OK)\<lparr>sel_info := example_info\<lparr>si_root_distance := 1\<rparr>\<rparr>]\<rparr>"

lemma example_track: "i < 3 \<Longrightarrow> track example_table i = the (SST_GetTrackingData three_samples)"
  by (auto simp: track_def example_table_def example_source_def less_Suc_eq eval_nat_numeral)

lemma example_joins: "filter (joins example_env 0 (the (SST_GetTrackingData three_samples)) example_table) [0, 1, 2] = [0, 1]"
  by (simp add: joins_def example_track selected_distance_def)
    (simp add: example_table_def example_state_def example_source_def example_info_def example_env_def example_tracking)

theorem combined_offset_witness:
  "\<exists>c ref' st'. combine_sources example_env 0 [0, 1, 2] (the (SST_GetTrackingData three_samples)) example_table = Some (c, ref', st') \<and>
     c = 2 \<and> average_offset ref' = 0 \<and> status (sources st' ! 2) = SRC_DISTANT"
proof -
  let ?ref = "the (SST_GetTrackingData three_samples)"
  have r: "set [0, 1, 2] \<subseteq> {..<length (sources example_table)}" "distinct [0, 1, 2 :: nat]" "0 \<in> set [0, 1, 2 :: nat]" by (auto simp: example_table_def)
  have g: "\<forall>i\<in>set [0, 1, 2]. sel_good (sources example_table ! i)"
    by (simp add: sel_good_def example_table_def example_source_def example_info_def three_samples_good)
  have t: "\<forall>i\<in>set [0, 1, 2]. 0 < td_frequency_sd (track example_table i) \<and> 0 < td_skew (track example_table i)" by (simp add: example_track example_tracking)
  have d: "distant (sources example_table ! 0) = 0" "status (sources example_table ! 0) = SRC_SELECTED" by (simp_all add: example_table_def example_source_def)
  have l: "length [0, 1, 2 :: nat] \<noteq> 1" by simp
  from combined_offset [OF r g t d, of example_env ?ref] obtain c ref' st' where
    w: "combine_sources example_env 0 [0, 1, 2] ?ref example_table = Some (c, ref', st')" "c = length [0, 1 :: nat]"
      "average_offset ref' = weighted_mean (\<lambda>i. 1 / si_root_distance (sel_info (sources example_table ! i))) (\<lambda>i. offset_at ?ref (track example_table i)) [0, 1]"
      "\<forall>i\<in>set [0, 1, 2]. if i \<in> set [0, 1] then distant (sources st' ! i) = 0 \<and> status (sources st' ! i) \<noteq> SRC_OK
          else distant (sources st' ! i) \<noteq> 0 \<and> status (sources st' ! i) = SRC_DISTANT"
    unfolding if_not_P [OF l] Let_def example_joins by blast
  have "average_offset ref' = 0" unfolding w(3) by (simp add: weighted_mean_def example_track example_tracking offset_at_def)
  moreover have "status (sources st' ! 2) = SRC_DISTANT" using bspec [OF w(4), of 2] by simp
  ultimately show ?thesis using w(1,2) by auto
qed

text \<open>A source is created, gets two samples, is selected, reloaded from a dump file and reset.\<close>

definition example_conf :: SRC_Conf where
  "example_conf = \<lparr>cnf_max_distance = 3, cnf_max_jitter = 1, cnf_max_stratum = 16, cnf_min_stratum = 0, cnf_reselect_distance = 1 / 10000,
     cnf_stratum_weight = 1 / 1000, cnf_combine_limit = 3, cnf_min_samples = 6, cnf_max_samples = 0\<rparr>"

definition example_file :: DumpFile where
  "example_file = \<lparr>df_name = ''.'', df_auth = False, df_reach = 7, df_reach_size = 3, df_stratum = 0, df_leap = 0,
     df_samples = (0, [(1, 0, 0, 1 / 100, 0, 1 / 50, 1 / 1000), (2, 0, 0, 1 / 100, 0, 1 / 50, 1 / 1000)])\<rparr>"

definition example_ops :: "(SRC_Env \<times> SRC_Op) list" where
  "example_ops = map (Pair example_env)
     [Op_Create example_conf (example_source SRC_OK) 1 SRC_REFCLOCK False 0 None (-1) (-1) 0 0 100000,
      Op_Sample True False (1 / 10 ^ 6) 0 (NTP_Sample.make (Timespec 1 0) 0 (1 / 100) 0 (1 / 50) (1 / 1000)),
      Op_Sample False False (1 / 10 ^ 6) 0 (NTP_Sample.make (Timespec 2 0) (1 / 1000) (1 / 100) 0 (1 / 50) (1 / 1000)),
      Op_Select (Some 0), Op_Reload True (\<lambda>_. None) (1 / 10 ^ 6) 0 (Timespec 3 0) (\<lambda>_. Some example_file), Op_ResetSources]"

lemma accumulate_length: "SRC_AccumulateSample kf close precision i sample st = Some st' \<Longrightarrow> length (sources st') = length (sources st)"
  by (auto simp: SRC_AccumulateSample_def split: if_splits)

lemma example_ops_ok: "ops_ok example_ops (SRC_Initialise example_conf (False, False, False))"
proof -
  let ?s0 = "SRC_Initialise example_conf (False, False, False)"
  have t: "table_ok ?s0" by (simp add: table_ok_def sources_ok_def SRC_Initialise_def weights_ok_def example_conf_def)
  have b: "buffers_ok (stats (example_source SRC_OK))" by (simp add: buffers_ok_def example_source_def three_samples_def)
  have f: "lines_ok (snd (df_samples example_file))" by (simp add: lines_ok_def example_file_def)
  from create_ok [OF t example_env_ok b, of example_conf 1 SRC_REFCLOCK False 0 None "-1" "-1" 0 0 100000] have len: "length (sources st') = 1"
    if "SRC_CreateNewInstance example_env example_conf (example_source SRC_OK) 1 SRC_REFCLOCK False 0 None (-1) (-1) 0 0 100000 ?s0 = Some st'" for st'
    using that by (auto simp: SRC_Initialise_def)
  show ?thesis using b f len
    by (auto simp: example_ops_def example_env_ok time_ok_def norm_ts_def distance_ok_def NTP_Sample.make_def split: option.splits dest!: accumulate_length)
qed

theorem sources_history_witness:
  "\<exists>st. run_ops example_ops (SRC_Initialise example_conf (False, False, False)) = Some st \<and> sources_ok st \<and> (\<forall>s\<in>set (sources st). stats_inv (stats s))"
  by (rule sources_history) (simp_all add: example_ops_ok, simp_all add: example_conf_def)

end
