(* ===== verification/Siv.thy ===== *)
theory Siv
  imports Prelude
begin

text \<open>
  The interface to the SIV ciphers of \<open>siv_nettle.c\<close>.  The ciphers are those of the Nettle library, a
  parameter of the model: \<open>cipher_encrypt\<close> gives the ciphertext for the algorithm, the key, the nonce,
  the associated data and the plaintext; \<open>cipher_decrypt\<close> the plaintext, or nothing when the
  authentication fails.  \<open>gcm\<close> tells whether the library has AES-128-GCM-SIV.
\<close>

abbreviation (input) AEAD_SIV_INVALID :: nat where "AEAD_SIV_INVALID \<equiv> 0"
abbreviation (input) AEAD_AES_SIV_CMAC_256 :: nat where "AEAD_AES_SIV_CMAC_256 \<equiv> 15"
abbreviation (input) AEAD_AES_128_GCM_SIV :: nat where "AEAD_AES_128_GCM_SIV \<equiv> 30"
abbreviation (input) SIV_MAX_KEY_LENGTH :: nat where "SIV_MAX_KEY_LENGTH \<equiv> 32"

record SIV_Instance =
  siv_algorithm :: nat
  siv_key :: "bytes option"
  min_nonce_length :: nat
  max_nonce_length :: nat
  tag_length :: nat

type_synonym cipher_encrypt = "nat \<Rightarrow> bytes \<Rightarrow> bytes \<Rightarrow> bytes \<Rightarrow> bytes \<Rightarrow> bytes"
type_synonym cipher_decrypt = "nat \<Rightarrow> bytes \<Rightarrow> bytes \<Rightarrow> bytes \<Rightarrow> bytes \<Rightarrow> bytes option"

definition SIV_GetKeyLength :: "bool \<Rightarrow> nat \<Rightarrow> nat" where
  "SIV_GetKeyLength gcm algorithm =
     (if algorithm = AEAD_AES_SIV_CMAC_256 then 32
      else if gcm \<and> algorithm = AEAD_AES_128_GCM_SIV then 16
      else 0)"

definition SIV_CreateInstance :: "bool \<Rightarrow> nat \<Rightarrow> SIV_Instance option" where
  "SIV_CreateInstance gcm algorithm =
     (if SIV_GetKeyLength gcm algorithm \<le> 0 then None
      else Some (if algorithm = AEAD_AES_SIV_CMAC_256
        then \<lparr>siv_algorithm = algorithm, siv_key = None, min_nonce_length = 1, max_nonce_length = 2 ^ 31 - 1, tag_length = 16\<rparr>
        else \<lparr>siv_algorithm = algorithm, siv_key = None, min_nonce_length = 12, max_nonce_length = 12, tag_length = 16\<rparr>))"

definition SIV_SetKey :: "bool \<Rightarrow> SIV_Instance \<Rightarrow> bytes \<Rightarrow> SIV_Instance option" where
  "SIV_SetKey gcm inst key =
     (if length key \<noteq> SIV_GetKeyLength gcm (siv_algorithm inst) then None else Some (inst\<lparr>siv_key := Some key\<rparr>))"

definition SIV_GetMaxNonceLength :: "SIV_Instance \<Rightarrow> nat" where
  "SIV_GetMaxNonceLength inst = max_nonce_length inst"

definition SIV_GetTagLength :: "SIV_Instance \<Rightarrow> nat" where
  "SIV_GetTagLength inst = tag_length inst"

text \<open>The length of the ciphertext is given by the caller.\<close>

definition SIV_Encrypt :: "cipher_encrypt \<Rightarrow> SIV_Instance \<Rightarrow> bytes \<Rightarrow> bytes \<Rightarrow> bytes \<Rightarrow> nat \<Rightarrow> bytes option" where
  "SIV_Encrypt enc inst nonce assoc plaintext ciphertext_length =
     (case siv_key inst of
        None \<Rightarrow> None
      | Some key \<Rightarrow>
          if length nonce < min_nonce_length inst \<or> length nonce > max_nonce_length inst \<or>
             length plaintext > ciphertext_length \<or> length plaintext + SIV_GetTagLength inst \<noteq> ciphertext_length
          then None
          else Some (enc (siv_algorithm inst) key nonce assoc plaintext))"

definition SIV_Decrypt :: "cipher_decrypt \<Rightarrow> SIV_Instance \<Rightarrow> bytes \<Rightarrow> bytes \<Rightarrow> bytes \<Rightarrow> nat \<Rightarrow> bytes option" where
  "SIV_Decrypt dec inst nonce assoc ciphertext plaintext_length =
     (case siv_key inst of
        None \<Rightarrow> None
      | Some key \<Rightarrow>
          if length nonce < min_nonce_length inst \<or> length nonce > max_nonce_length inst \<or>
             plaintext_length > length ciphertext \<or> plaintext_length + SIV_GetTagLength inst \<noteq> length ciphertext
          then None
          else dec (siv_algorithm inst) key nonce assoc ciphertext)"

text \<open>
  The checks \<open>SIV_Decrypt\<close> makes before it reads the nonce or the ciphertext: a key is set and the
  lengths are acceptable.
\<close>

definition siv_decrypt_checks :: "SIV_Instance \<Rightarrow> nat \<Rightarrow> nat \<Rightarrow> nat \<Rightarrow> bool" where
  "siv_decrypt_checks inst nonce_length ciphertext_length plaintext_length \<longleftrightarrow>
     siv_key inst \<noteq> None \<and>
     \<not> (nonce_length < min_nonce_length inst \<or> nonce_length > max_nonce_length inst \<or>
        plaintext_length > ciphertext_length \<or> plaintext_length + SIV_GetTagLength inst \<noteq> ciphertext_length)"

lemma SIV_Decrypt_refused:
  "\<not> siv_decrypt_checks inst (length nonce) (length ciphertext) plaintext_length \<Longrightarrow>
    SIV_Decrypt dec inst nonce assoc ciphertext plaintext_length = None"
  by (auto simp: siv_decrypt_checks_def SIV_Decrypt_def split: option.splits)

section \<open>The assumption on the ciphers\<close>

text \<open>
  A ciphertext has the length of the plaintext and the 16-byte tag, and is decrypted with the same
  key, nonce and associated data to the plaintext.
\<close>

definition siv_cipher :: "cipher_encrypt \<Rightarrow> cipher_decrypt \<Rightarrow> bool" where
  "siv_cipher enc dec \<longleftrightarrow> (\<forall>a k n d p. length (enc a k n d p) = length p + 16 \<and> dec a k n d (enc a k n d p) = Some p)"

text \<open>An instance of the assumption: the tag is a constant and the plaintext is not hidden.\<close>

definition null_encrypt :: cipher_encrypt where
  "null_encrypt a k n d p = replicate 16 0 @ p"

definition null_decrypt :: cipher_decrypt where
  "null_decrypt a k n d c = Some (drop 16 c)"

lemma null_siv_cipher: "siv_cipher null_encrypt null_decrypt"
  by (simp add: siv_cipher_def null_encrypt_def null_decrypt_def)

lemma SIV_CreateInstance_props:
  "SIV_CreateInstance gcm a = Some inst \<Longrightarrow> siv_algorithm inst = a \<and> tag_length inst = 16 \<and> 0 < SIV_GetKeyLength gcm a \<and>
     1 \<le> min_nonce_length inst \<and> min_nonce_length inst \<le> 12 \<and> 12 \<le> max_nonce_length inst"
  by (auto simp: SIV_CreateInstance_def split: if_splits)

lemma SIV_roundtrip:
  assumes "siv_cipher enc dec" "tag_length inst = 16" "SIV_Encrypt enc inst nonce assoc p l = Some c"
  shows "length c = length p + 16 \<and> SIV_Decrypt dec inst nonce assoc c (length p) = Some p"
proof -
  from assms(3) obtain key where k: "siv_key inst = Some key" "min_nonce_length inst \<le> length nonce" "length nonce \<le> max_nonce_length inst"
    "c = enc (siv_algorithm inst) key nonce assoc p"
    by (auto simp: SIV_Encrypt_def split: option.splits if_splits)
  moreover have "length c = length p + 16" "dec (siv_algorithm inst) key nonce assoc c = Some p"
    using assms(1) by (simp_all add: siv_cipher_def k(4))
  ultimately show ?thesis using assms(2) by (simp add: SIV_Decrypt_def SIV_GetTagLength_def)
qed

end
