(* ===== verification/NtsAuth.thy ===== *)
theory NtsAuth
  imports NtpExt Siv
begin

text \<open>
  The NTS authenticator field: \<open>nts_ntp_auth.c\<close>.  The field holds a nonce and a ciphertext, each
  padded to a multiple of four bytes; the associated data of the cipher is the packet before the
  field.
\<close>

abbreviation (input) NTS_MIN_UNPADDED_NONCE_LENGTH :: int where "NTS_MIN_UNPADDED_NONCE_LENGTH \<equiv> 16"

section \<open>Definitions\<close>

text \<open>The modulus is unsigned; \<open>2 ^ 32\<close> is a multiple of four.\<close>

definition get_padding_length :: "int \<Rightarrow> int" where
  "get_padding_length len = (if len mod 4 \<noteq> 0 then 4 - len mod 4 else 0)"

definition get_padded_length :: "int \<Rightarrow> int" where
  "get_padded_length len = len + get_padding_length len"

text \<open>
  The result is the return value with the packet and its description; \<open>None\<close> is an access out of
  a buffer or a failed assertion.  The plaintext is given with its length.
\<close>

definition NNA_GenerateAuthEF ::
    "cipher_encrypt \<Rightarrow> bytes \<Rightarrow> NTP_PacketInfo \<Rightarrow> SIV_Instance \<Rightarrow> bytes \<Rightarrow> int \<Rightarrow> bytes \<Rightarrow> int \<Rightarrow> (bool \<times> bytes \<times> NTP_PacketInfo) option" where
  "NNA_GenerateAuthEF enc packet info siv nonce max_nonce plaintext min_ef_length =
     (if max_nonce \<le> 0 then Some (False, packet, info)
      else
        let assoc_length = info_length info;
            max_siv_nonce_length = int (SIV_GetMaxNonceLength siv);
            nonce_length = min max_nonce max_siv_nonce_length;
            ciphertext_length = int (SIV_GetTagLength siv) + int (length plaintext);
            nonce_padding = get_padding_length nonce_length;
            ciphertext_padding = get_padding_length ciphertext_length;
            min_ef_length = get_padded_length min_ef_length;
            auth_length = 4 + nonce_length + nonce_padding + ciphertext_length + ciphertext_padding;
            additional_padding = max (min_ef_length - auth_length - 4) 0;
            additional_padding = max (min NTS_MIN_UNPADDED_NONCE_LENGTH max_siv_nonce_length - nonce_length - nonce_padding) additional_padding;
            auth_length = auth_length + additional_padding in
        case NEF_AddBlankField packet info NTP_EF_NTS_AUTH_AND_EEF auth_length of
          None \<Rightarrow> None
        | Some None \<Rightarrow> Some (False, packet, info)
        | Some (Some (packet, info, header)) \<Rightarrow>
            let body = header + 4;
                ciphertext = body + nat nonce_length + nat nonce_padding in
            if header + nat auth_length \<noteq> ciphertext + nat ciphertext_length + nat ciphertext_padding + nat additional_padding then None
            else if header + nat auth_length > length packet \<or> nat nonce_length > length nonce \<or> nat assoc_length > length packet then None
            else
              let packet = memcpy packet header (htons (of_int nonce_length) @ htons (of_int ciphertext_length));
                  packet = memcpy packet body (take (nat nonce_length) nonce @ replicate (nat nonce_padding) 0) in
              case SIV_Encrypt enc siv (take (nat nonce_length) nonce) (take (nat assoc_length) packet) plaintext (nat ciphertext_length) of
                None \<Rightarrow> Some (False, packet, info\<lparr>info_length := assoc_length, ext_fields := ext_fields info - 1\<rparr>)
              | Some c \<Rightarrow>
                  Some (True, memcpy packet ciphertext (c @ replicate (nat (ciphertext_padding + additional_padding)) 0), info))"

text \<open>
  \<open>Some (Some p)\<close> is the return value 1 with the plaintext.  \<open>SIV_Decrypt\<close> returns 0 without reading
  the packet when its own checks of the key and the lengths fail; otherwise a ciphertext that goes
  past the end of the packet buffer is an invalid read.
\<close>

definition NNA_DecryptAuthEF :: "cipher_decrypt \<Rightarrow> bytes \<Rightarrow> NTP_PacketInfo \<Rightarrow> SIV_Instance \<Rightarrow> int \<Rightarrow> int \<Rightarrow> bytes ret" where
  "NNA_DecryptAuthEF dec packet info siv ef_start buffer_length =
     (if buffer_length < 0 then Some None
      else case NEF_ParseField packet (info_length info) ef_start of
          None \<Rightarrow> None
        | Some None \<Rightarrow> Some None
        | Some (Some (ef_length, ef_type, ef_body, ef_body_length)) \<Rightarrow>
            if ef_type \<noteq> NTP_EF_NTS_AUTH_AND_EEF \<or> ef_body_length < 4 then Some None
            else case (rd16 packet ef_body, rd16 packet (ef_body + 2)) of
                (Some n, Some c) \<Rightarrow>
                  let nonce_length = uint n; ciphertext_length = uint c in
                  if get_padded_length nonce_length + get_padded_length ciphertext_length > ef_body_length then Some None
                  else
                    let nonce = ef_body + 4;
                        ciphertext = nonce + nat (get_padded_length nonce_length);
                        max_siv_nonce_length = int (SIV_GetMaxNonceLength siv);
                        siv_tag_length = int (SIV_GetTagLength siv) in
                    if nonce_length < 1 \<or> ciphertext_length < siv_tag_length \<or> ciphertext_length - siv_tag_length > buffer_length then Some None
                    else if 4 + min NTS_MIN_UNPADDED_NONCE_LENGTH max_siv_nonce_length + get_padded_length ciphertext_length > ef_body_length
                    then Some None
                    else if \<not> siv_decrypt_checks siv (nat nonce_length) (nat ciphertext_length) (nat (ciphertext_length - siv_tag_length))
                    then Some None
                    else if ciphertext + nat ciphertext_length > length packet then None
                    else Some (SIV_Decrypt dec siv (take (nat nonce_length) (drop nonce packet)) (take (nat ef_start) packet)
                                 (take (nat ciphertext_length) (drop ciphertext packet)) (nat (ciphertext_length - siv_tag_length)))
              | _ \<Rightarrow> None)"

section \<open>The field that is generated\<close>

definition pad4 :: "nat \<Rightarrow> nat" where
  "pad4 n = nat (get_padding_length (int n))"

lemma get_padding_length_nat: "get_padding_length (int n) = int (if n mod 4 \<noteq> 0 then 4 - n mod 4 else 0)"
proof -
  have "int n mod 4 = int (n mod 4)" by (simp add: zmod_int)
  moreover have "n mod 4 < 4" by simp
  ultimately show ?thesis by (simp add: get_padding_length_def of_nat_diff)
qed

lemma pad4_eq: "pad4 n = (if n mod 4 \<noteq> 0 then 4 - n mod 4 else 0)"
  unfolding pad4_def get_padding_length_nat by (rule nat_int)

lemma pad4_props: "int (pad4 n) = get_padding_length (int n)" "(n + pad4 n) mod 4 = 0" "pad4 n < 4" "n mod 4 = 0 \<Longrightarrow> pad4 n = 0"
proof -
  show "int (pad4 n) = get_padding_length (int n)" unfolding pad4_eq get_padding_length_nat ..
  show "(n + pad4 n) mod 4 = 0" unfolding pad4_eq by presburger
qed (simp_all add: pad4_eq)

lemma memcpy_append:
  assumes "off + length a + length b \<le> length p"
  shows "memcpy (memcpy p off a) (off + length a) b = memcpy p off (a @ b)"
  using assms by (simp add: memcpy_def ac_simps)

lemma memcpy_chain:
  assumes "o1 = off + length a" "o2 = o1 + length b" "o3 = o2 + length c" "o3 + length d \<le> length p"
  shows "memcpy (memcpy (memcpy (memcpy p off a) o1 b) o2 c) o3 d = memcpy p off (a @ b @ c @ d)"
proof -
  have "memcpy (memcpy p off a) o1 b = memcpy p off (a @ b)" using assms memcpy_append [of off a b p] by simp
  moreover have "memcpy (memcpy p off (a @ b)) o2 c = memcpy p off ((a @ b) @ c)" using assms memcpy_append [of off "a @ b" c p] by (simp add: ac_simps)
  moreover have "memcpy (memcpy p off ((a @ b) @ c)) o3 d = memcpy p off (((a @ b) @ c) @ d)"
    using assms memcpy_append [of off "(a @ b) @ c" d p] by (simp add: ac_simps)
  ultimately show ?thesis by simp
qed

text \<open>The body of the field.\<close>

definition auth_body :: "bytes \<Rightarrow> bytes \<Rightarrow> nat \<Rightarrow> bytes" where
  "auth_body nonce c extra =
     htons (of_nat (length nonce)) @ htons (of_nat (length c)) @ nonce @ replicate (pad4 (length nonce)) 0 @ c @ replicate (pad4 (length c) + extra) 0"

lemma length_auth_body: "length (auth_body nonce c extra) = 4 + (length nonce + pad4 (length nonce)) + (length c + pad4 (length c)) + extra"
  by (simp add: auth_body_def)

text \<open>An instance that can encrypt with the first bytes of a random nonce.\<close>

definition siv_ready :: "SIV_Instance \<Rightarrow> bool" where
  "siv_ready siv \<longleftrightarrow> tag_length siv = 16 \<and> siv_key siv \<noteq> None \<and> 1 \<le> min_nonce_length siv \<and> min_nonce_length siv \<le> 12 \<and>
     (max_nonce_length siv = 12 \<or> 16 \<le> max_nonce_length siv)"

text \<open>The length of the nonce of 16 random bytes that is used, and the additional padding.\<close>

definition used_nonce :: "SIV_Instance \<Rightarrow> nat" where
  "used_nonce siv = min 16 (max_nonce_length siv)"

definition extra_padding :: "SIV_Instance \<Rightarrow> nat \<Rightarrow> int \<Rightarrow> nat" where
  "extra_padding siv plaintext_length min_ef_length =
     nat (get_padded_length min_ef_length - int (4 + used_nonce siv + (16 + plaintext_length + pad4 (16 + plaintext_length))) - 4)"

definition auth_field :: "cipher_encrypt \<Rightarrow> SIV_Instance \<Rightarrow> bytes \<Rightarrow> bytes \<Rightarrow> bytes \<Rightarrow> int \<Rightarrow> field" where
  "auth_field enc siv nonce assoc plaintext min_ef_length =
     (0x0404, auth_body (take (used_nonce siv) nonce)
        (enc (siv_algorithm siv) (the (siv_key siv)) (take (used_nonce siv) nonce) assoc plaintext)
        (extra_padding siv (length plaintext) min_ef_length))"

lemma used_nonce_props: "siv_ready siv \<Longrightarrow> used_nonce siv mod 4 = 0 \<and> 12 \<le> used_nonce siv \<and> used_nonce siv \<le> 16 \<and> pad4 (used_nonce siv) = 0"
  by (auto simp: used_nonce_def siv_ready_def pad4_props min_def)

lemma extra_padding_mod:
  assumes "siv_ready siv"
  shows "extra_padding siv n m mod 4 = 0"
proof -
  let ?a = "16 + n + pad4 (16 + n)"
  have "get_padded_length m mod 4 = 0" by (auto simp: get_padded_length_def get_padding_length_def) presburger
  moreover have "?a mod 4 = 0" using pad4_props(2) [of "16 + n"] by simp
  moreover have "used_nonce siv mod 4 = 0" using used_nonce_props [OF assms] by simp
  ultimately have "(get_padded_length m - int (4 + used_nonce siv + ?a) - 4) mod 4 = 0" by presburger
  then show ?thesis unfolding extra_padding_def by (cases "get_padded_length m - int (4 + used_nonce siv + ?a) - 4 \<ge> 0") (presburger | simp)+
qed

lemma auth_field_props:
  assumes "siv_ready siv" "siv_cipher enc dec" "16 \<le> length nonce"
  shows "length (snd (auth_field enc siv nonce assoc plaintext m)) =
      4 + used_nonce siv + (16 + length plaintext + pad4 (16 + length plaintext)) + extra_padding siv (length plaintext) m"
    "length (snd (auth_field enc siv nonce assoc plaintext m)) mod 4 = 0"
    "fst (auth_field enc siv nonce assoc plaintext m) = 0x0404"
proof -
  note u = used_nonce_props [OF assms(1)]
  have "length (enc a k n d p) = length p + 16" for a k n d p using assms(2) by (simp add: siv_cipher_def)
  then show l: "length (snd (auth_field enc siv nonce assoc plaintext m)) =
      4 + used_nonce siv + (16 + length plaintext + pad4 (16 + length plaintext)) + extra_padding siv (length plaintext) m"
    using u assms(3) by (simp add: auth_field_def length_auth_body add.commute)
  have "(16 + length plaintext + pad4 (16 + length plaintext)) mod 4 = 0" using pad4_props(2) by blast
  with u extra_padding_mod [OF assms(1), of "length plaintext" m] show "length (snd (auth_field enc siv nonce assoc plaintext m)) mod 4 = 0"
    unfolding l by presburger
qed (simp add: auth_field_def)

lemma AddBlankField_eq:
  assumes "length p = 1140" "info_length info = int len" "48 \<le> len" "len mod 4 = 0" "version info = 4"
    and "n mod 4 = 0" "12 \<le> n" "len + 4 + n \<le> 1140"
  shows "NEF_AddBlankField p info (uint t) (int n) =
      Some (Some (memcpy p len (htons t @ htons (of_nat (4 + n))), info\<lparr>info_length := int (len + (4 + n)), ext_fields := ext_fields info + 1\<rparr>, len + 4))"
proof -
  have m: "c_mod (int len) 4 = 0" "c_mod (int n) 4 = 0" using assms(4,6) by (simp_all add: c_mod_nonneg)
  have "format_field p 1140 (int len) (uint t) (int n) = Some (Some (memcpy p len (htons t @ htons (of_nat (4 + n))), 4 + int n, len + 4))"
    using assms m by (simp add: format_field_def)
  then show ?thesis using assms m by (simp add: NEF_AddBlankField_def)
qed

lemma GenerateAuthEF_appends:
  fixes enc dec nonce p plaintext m siv len
  defines "f \<equiv> auth_field enc siv nonce (take len p) plaintext m"
  assumes "length p = 1140" "info_length info = int len" "48 \<le> len" "len mod 4 = 0" "version info = 4"
    and siv: "siv_ready siv" "siv_cipher enc dec" "length nonce = 16" and fits: "len + length (encode_field f) \<le> 1140"
  shows "\<exists>p'. NNA_GenerateAuthEF enc p info siv nonce 16 plaintext m =
      Some (True, p', info\<lparr>info_length := int (len + length (encode_field f)), ext_fields := ext_fields info + 1\<rparr>) \<and>
    length p' = 1140 \<and> take (len + length (encode_field f)) p' = take len p @ encode_field f"
proof -
  let ?u = "used_nonce siv" and ?c = "16 + length plaintext" and ?x = "extra_padding siv (length plaintext) m" and ?n = "length (snd f)"
  let ?nonce = "take ?u nonce"
  note u = used_nonce_props [OF siv(1)]
  have F: "?n = 4 + ?u + (?c + pad4 ?c) + ?x" "?n mod 4 = 0" "fst f = 0x0404"
    using auth_field_props [OF siv(1,2), of nonce "take len p" plaintext m] siv(3) by (simp_all add: f_def)
  let ?h = "htons 0x0404 @ htons (of_nat (4 + ?n))"
  let ?p1 = "memcpy p len ?h"
  let ?info = "info\<lparr>info_length := int (len + (4 + ?n)), ext_fields := ext_fields info + 1\<rparr>"
  have fit: "len + 4 + ?n \<le> 1140" using fits by simp
  have b: "NEF_AddBlankField p info (uint (0x0404 :: u16)) (int ?n) = Some (Some (?p1, ?info, len + 4))"
    using F by (intro AddBlankField_eq assms fit) simp_all
  have nl: "min 16 (int (SIV_GetMaxNonceLength siv)) = int ?u" by (simp add: used_nonce_def SIV_GetMaxNonceLength_def)
  have np: "get_padding_length (int ?u) = 0" using pad4_props(1) [of ?u] u by simp
  have cl: "int (SIV_GetTagLength siv) + int (length plaintext) = int ?c" using siv(1) by (simp add: SIV_GetTagLength_def siv_ready_def)
  have cp: "get_padding_length (int ?c) = int (pad4 ?c)" using pad4_props(1) by simp
  have x: "max (get_padded_length m - (4 + int ?u + 0 + int ?c + int (pad4 ?c)) - 4) 0 = int ?x"
    unfolding extra_padding_def by (simp add: ac_simps)
  have y: "max (int ?u - int ?u - 0) (int ?x) = int ?x" by simp
  have al: "4 + int ?u + 0 + int ?c + int (pad4 ?c) + int ?x = int ?n" using F(1) by simp
  have l: "length ?p1 = 1140" "length ?nonce = ?u" using assms(2) fit u siv(3) by simp_all
  let ?p2 = "memcpy (memcpy ?p1 (len + 4) (htons (of_nat ?u) @ htons (of_nat ?c))) (len + 4 + 4) (?nonce @ replicate 0 0)"
  have a: "take len ?p2 = take len p" using fit F(1) assms(2) l by (simp add: take_memcpy)
  obtain key where k: "siv_key siv = Some key" using siv(1) by (auto simp: siv_ready_def)
  let ?e = "enc (siv_algorithm siv) key ?nonce (take len p) plaintext"
  have le: "length ?e = ?c" using siv(2) by (simp add: siv_cipher_def)
  have e: "SIV_Encrypt enc siv ?nonce (take len ?p2) plaintext ?c = Some ?e"
    unfolding a using siv(1) k u l by (auto simp: SIV_Encrypt_def SIV_GetTagLength_def siv_ready_def used_nonce_def)
  let ?p3 = "memcpy ?p2 (len + 4 + 4 + ?u + 0) (?e @ replicate (pad4 ?c + ?x) 0)"
  have "NNA_GenerateAuthEF enc p info siv nonce 16 plaintext m = Some (True, ?p3, ?info)"
  proof -
    have c1: "\<not> (16 :: int) \<le> 0" by simp
    have c2: "\<not> len + 4 + ?n \<noteq> len + 4 + 4 + ?u + 0 + ?c + pad4 ?c + ?x" using F(1) by simp
    have c3: "\<not> (len + 4 + ?n > length ?p1 \<or> ?u > length nonce \<or> len > length ?p1)" using fit l u siv(3) by simp
    have t: "uint (0x0404 :: u16) = NTP_EF_NTS_AUTH_AND_EEF" by simp
    have s: "nat (int (pad4 ?c) + int ?x) = pad4 ?c + ?x" by simp
    show ?thesis
      unfolding NNA_GenerateAuthEF_def Let_def nl np cl cp x y al assms(3) b [unfolded t] option.case prod.case nat_int nat_0 of_int_of_nat_eq s
        if_not_P [OF c1] if_not_P [OF c2] if_not_P [OF c3] e ..
  qed
  moreover have "?p3 = memcpy p len (encode_field f)"
  proof -
    have f: "encode_field f = ?h @ (htons (of_nat ?u) @ htons (of_nat ?c)) @ (?nonce @ replicate 0 0) @ (?e @ replicate (pad4 ?c + ?x) 0)"
      using F(3) l(2) le k u by (simp add: encode_field_def f_def auth_field_def auth_body_def)
    have h: "length ?h = 4" "length (htons (of_nat ?u) @ htons (of_nat ?c)) = 4" "length (?nonce @ replicate 0 (0 :: u8)) = ?u" using l(2) by simp_all
    have "len + 4 + 4 + ?u + length (?e @ replicate (pad4 ?c + ?x) (0 :: u8)) \<le> 1140" using fit F(1) le by simp
    then show ?thesis unfolding f using assms(2) h by (intro memcpy_chain) simp_all
  qed
  ultimately show ?thesis using assms(2) fit F(3) by (auto simp: take_memcpy memcpy_def)
qed

lemma auth_field_ok:
  assumes "siv_ready siv" "siv_cipher enc dec" "16 \<le> length nonce" "length (encode_field (auth_field enc siv nonce assoc plaintext m)) \<le> 1140"
  shows "field_ok (auth_field enc siv nonce assoc plaintext m)" "28 \<le> length (snd (auth_field enc siv nonce assoc plaintext m))"
  using auth_field_props [OF assms(1-3), of assoc plaintext m] used_nonce_props [OF assms(1)] assms(4) by (simp_all add: field_ok_def)

lemma DecryptAuthEF_decodes:
  fixes enc dec nonce q plaintext m siv pos
  defines "f \<equiv> auth_field enc siv nonce (take pos q) plaintext m"
  assumes "length q = 1140" "info_length info = int (pos + length (encode_field f))" "48 \<le> pos" "pos mod 4 = 0" "pos + length (encode_field f) \<le> 1140"
    and v: "NTP_LVM_TO_VERSION (q ! 0) = 4" and sl: "slice q pos (pos + length (encode_field f)) = encode_field f"
    and siv: "siv_ready siv" "siv_cipher enc dec" "length nonce = 16" and buf: "int (length plaintext) \<le> buffer_length"
  shows "NNA_DecryptAuthEF dec q info siv (int pos) buffer_length = Some (Some plaintext)"
proof -
  let ?u = "used_nonce siv" and ?c = "16 + length plaintext" and ?n = "length (snd f)"
  let ?nonce = "take ?u nonce"
  note u = used_nonce_props [OF siv(1)]
  obtain key where k: "siv_key siv = Some key" using siv(1) by (auto simp: siv_ready_def)
  let ?e = "enc (siv_algorithm siv) key ?nonce (take pos q) plaintext"
  have le: "length ?e = ?c" "dec (siv_algorithm siv) key ?nonce (take pos q) ?e = Some plaintext"
    using siv(2) by (simp_all add: siv_cipher_def)
  have ok: "field_ok f" "28 \<le> ?n" using auth_field_ok [OF siv(1,2)] siv(3) assms(6) by (simp_all add: f_def)
  have F: "?n = 4 + ?u + (?c + pad4 ?c) + extra_padding siv (length plaintext) m" "?n mod 4 = 0" "fst f = 0x0404"
    using auth_field_props [OF siv(1,2), of nonce "take pos q" plaintext m] siv(3) by (simp_all add: f_def)
  have lu: "length ?nonce = ?u" using u siv(3) by simp
  have b: "snd f = htons (of_nat ?u) @ htons (of_nat ?c) @ ?nonce @ ?e @ replicate (pad4 ?c + extra_padding siv (length plaintext) m) 0"
    using k u lu le(1) by (simp add: f_def auth_field_def auth_body_def)
  have mm: "(pos + length (encode_field f)) mod 4 = 0" using assms(5) F(2) by simp presburger
  have sl': "slice q pos (pos + length (encode_field f)) = encode_field f @ []" using sl by simp
  have p: "NEF_ParseField q (int (pos + length (encode_field f))) (int pos) = Some (Some (4 + int ?n, uint (fst f), pos + 4, int ?n))"
    "take ?n (drop (pos + 4) q) = snd f"
    using ParseField_encoded [OF assms(6,2) mm assms(4,5) v _ sl' ok(1)] ok(2) by simp_all
  have sub: "take i (drop (pos + 4 + j) q) = take i (drop j (snd f))" if "j + i \<le> ?n" for i j
  proof -
    have "take i (drop j (snd f)) = take i (drop j (take ?n (drop (pos + 4) q)))" by (simp only: p(2))
    also have "\<dots> = take i (drop (pos + 4 + j) q)" using that by (simp add: drop_take min_def add.commute)
    finally show ?thesis by simp
  qed
  have r: "rd16 q (pos + 4) = Some (of_nat ?u)" "rd16 q (pos + 4 + 2) = Some (of_nat ?c)"
    using sub [of 0 2] sub [of 2 2] F(1) b by (simp_all add: rd16_htons del: add_2_eq_Suc')
  have n: "take ?u (drop (pos + 4 + 4) q) = ?nonce" "take ?c (drop (pos + 4 + 4 + ?u) q) = ?e"
    using sub [of 4 ?u] sub [of "4 + ?u" ?c] F(1) b lu le(1) by (simp_all add: add.assoc)
  have bound: "?c < 65536" "?u < 65536" "pos + 4 + 4 + ?u + ?c \<le> 1140" using F(1) assms(6) u by simp_all
  have w: "uint (of_nat ?u :: u16) = int ?u" "uint (of_nat ?c :: u16) = int ?c" "uint (0x0404 :: u16) = NTP_EF_NTS_AUTH_AND_EEF"
    using bound by (simp_all only: uint_field_len) simp
  have g: "get_padded_length (int ?u) = int ?u" "get_padded_length (int ?c) = int (?c + pad4 ?c)"
    using u pad4_props(1) [of ?u] pad4_props(1) [of ?c] by (simp_all add: get_padded_length_def)
  have t: "SIV_GetTagLength siv = 16" "min 16 (int (SIV_GetMaxNonceLength siv)) = int ?u"
    using siv(1) by (simp_all add: siv_ready_def SIV_GetTagLength_def used_nonce_def SIV_GetMaxNonceLength_def)
  have c: "\<not> buffer_length < 0" "\<not> (NTP_EF_NTS_AUTH_AND_EEF \<noteq> NTP_EF_NTS_AUTH_AND_EEF \<or> int ?n < 4)"
    "\<not> int ?u + int (?c + pad4 ?c) > int ?n"
    "\<not> (int ?u < 1 \<or> int ?c < int 16 \<or> int ?c - int 16 > buffer_length)" "\<not> 4 + int ?u + int (?c + pad4 ?c) > int ?n"
    "\<not> pos + 4 + 4 + ?u + ?c > length q"
    using buf ok(2) F(1) u bound assms(2) by simp_all
  have ck: "\<not> \<not> siv_decrypt_checks siv ?u ?c (nat (int ?c - int 16))"
    using siv(1) k u by (auto simp: siv_decrypt_checks_def siv_ready_def SIV_GetTagLength_def used_nonce_def)
  have d: "SIV_Decrypt dec siv ?nonce (take pos q) ?e (nat (int ?c - int 16)) = Some plaintext"
    using k le siv(1) u lu by (auto simp: SIV_Decrypt_def siv_ready_def SIV_GetTagLength_def used_nonce_def)
  show ?thesis
    unfolding NNA_DecryptAuthEF_def assms(3) p(1) option.case prod.case F(3) r w g t Let_def nat_int n
      if_not_P [OF c(1)] if_not_P [OF c(2)] if_not_P [OF c(3)] if_not_P [OF c(4)] if_not_P [OF c(5)] if_not_P [OF ck] if_not_P [OF c(6)] d ..
qed

section \<open>Reads of the packet\<close>

lemma ParseField_result:
  assumes "NEF_ParseField q (int len) (int pos) = Some (Some (l, t, b, bl))"
  shows "b = pos + 4" "bl = l - 4" "int pos + l \<le> int len" "16 \<le> l" "len \<le> 1140"
  using assms by (auto simp: NEF_ParseField_def NEF_ParseSingleField_def Let_def split: if_splits option.splits)

lemma ParseField_returns:
  assumes "length q = 1140" "len \<le> 1140"
  shows "NEF_ParseField q (int len) (int pos) \<noteq> None"
proof -
  have "pos + 4 \<le> len \<Longrightarrow> rd16 q (pos + 2) \<noteq> None \<and> rd16 q pos \<noteq> None"
    using rd16_bound [of "pos + 2" q] rd16_bound [of pos q] assms by auto
  moreover have "q \<noteq> []" using assms(1) by auto
  ultimately show ?thesis
    by (auto simp: NEF_ParseField_def NEF_ParseSingleField_def Let_def split: option.splits)
qed

lemma get_padded_length_ge: "n \<le> get_padded_length n"
  by (auto simp: get_padded_length_def get_padding_length_def)

text \<open>
  C34.  The check of an authenticator reads the packet at most four bytes past the end of the field: in a
  packet that leaves four bytes of the buffer free it never reads out of the buffer, whatever the
  lengths of the nonce and of the ciphertext in the field are.
\<close>

theorem decrypt_in_bounds:
  assumes "length q = 1140" "info_length info = int len" "len + 4 \<le> 1140"
  shows "NNA_DecryptAuthEF dec q info siv (int pos) buffer_length \<noteq> None"
proof (cases "NEF_ParseField q (int len) (int pos)")
  case None
  then show ?thesis using ParseField_returns [OF assms(1)] assms(3) by simp
next
  case (Some r)
  show ?thesis
  proof (cases r)
    case None
    with Some show ?thesis by (simp add: NNA_DecryptAuthEF_def assms(2))
  next
    case (Some x)
    obtain l t b bl where x: "x = (l, t, b, bl)" by (cases x) auto
    have p: "NEF_ParseField q (int len) (int pos) = Some (Some (l, t, b, bl))" using \<open>NEF_ParseField q (int len) (int pos) = Some r\<close> Some x by simp
    note r = ParseField_result [OF p]
    have "b + 2 \<le> length q" "b + 2 + 2 \<le> length q" using r assms by linarith+
    then obtain n c where w: "rd16 q b = Some n" "rd16 q (b + 2) = Some c" using rd16_bound by blast
    have "b + 4 + nat (get_padded_length (uint n)) + nat (uint c) \<le> length q"
      if "\<not> get_padded_length (uint n) + get_padded_length (uint c) > bl"
    proof -
      have "0 \<le> get_padded_length (uint n)" "uint c \<le> get_padded_length (uint c)" "0 \<le> uint c" "0 \<le> uint n"
        using order_trans [OF uint_u16_bounds(1) get_padded_length_ge] get_padded_length_ge by auto
      then have "int (b + 4 + nat (get_padded_length (uint n)) + nat (uint c)) \<le> int b + 4 + bl" using that by simp
      also have "\<dots> \<le> int (length q)" using r assms by simp
      finally show ?thesis by (simp only: of_nat_le_iff)
    qed
    then show ?thesis
      unfolding NNA_DecryptAuthEF_def assms(2) p option.case prod.case w Let_def by auto
  qed
qed

text \<open>
  C35.  The lengths in an authenticator are checked against the length of the field without its 4-byte
  header: a field with a nonce of 20 bytes and a ciphertext of 16 bytes in a body of 36 bytes
  passes the checks, and at the end of a packet of the maximum length its ciphertext is read out of
  the buffer, with any SIV instance that has a key and accepts a nonce of 20 bytes (AES-SIV-CMAC does;
  AES-128-GCM-SIV accepts only 12 bytes, and SIV_Decrypt then returns without reading).
\<close>

theorem decrypt_overread:
  assumes "length q = 1140" "info_length info = 1140" "NTP_LVM_TO_VERSION (q ! 0) = 4"
    and "slice q 1100 1140 = encode_field (0x0404, htons 20 @ htons 16 @ body)" "length body = 32"
    and "tag_length siv = 16" "1092 \<le> buffer_length"
    and "siv_key siv \<noteq> None" "min_nonce_length siv \<le> 20"
  shows "NNA_DecryptAuthEF dec q info siv 1100 buffer_length =
    (if 20 \<le> max_nonce_length siv then None else Some None)"
proof -
  let ?f = "(0x0404 :: u16, htons 20 @ htons 16 @ body)"
  have ok: "field_ok ?f" using assms(5) by (simp add: field_ok_def)
  have p: "NEF_ParseField q 1140 1100 = Some (Some (40, uint (0x0404 :: u16), 1104, 36))" "take 36 (drop 1104 q) = snd ?f"
    using ParseField_encoded [of 1140 q 1100 ?f "[]"] assms ok by simp_all
  have "take 2 (drop 1104 q) = htons 20" "take 2 (drop (1104 + 2) q) = htons 16"
  proof -
    have "take 2 (take 36 (drop 1104 q)) = htons 20" "take 2 (drop 2 (take 36 (drop 1104 q))) = htons 16" unfolding p(2) by simp_all
    then show "take 2 (drop 1104 q) = htons 20" "take 2 (drop (1104 + 2) q) = htons 16" by (simp_all add: drop_take)
  qed
  then have r: "rd16 q 1104 = Some 20" "rd16 q (1104 + 2) = Some 16" by (simp_all only: rd16_htons)
  show ?thesis unfolding NNA_DecryptAuthEF_def assms(2) p(1) option.case prod.case r Let_def
    using assms by (simp add: get_padded_length_def get_padding_length_def SIV_GetTagLength_def siv_decrypt_checks_def)
qed

end
