(* ===== verification/NtsKeSession.thy ===== *)
theory NtsKeSession
  imports Prelude
begin

text \<open>
  The NTS-KE session of \<open>nts_ke_session.c\<close>: the messages made of records, and the state machine of
  a session over TLS.  TLS and the sockets are parameters: the results of the calls an
  event makes are in a \<open>TLS_Results\<close>.  The handler of the scheduler for the socket is the pair of
  the selected events, and the timeout of the session is whether it is pending; the label and the name
  of the server are only logged.  \<open>None\<close> is a failed assertion or an access out of bounds.
\<close>

section \<open>Messages\<close>

abbreviation (input) NKE_MAX_MESSAGE_LENGTH :: nat where "NKE_MAX_MESSAGE_LENGTH \<equiv> 16384"
abbreviation (input) NKE_RECORD_END_OF_MESSAGE :: nat where "NKE_RECORD_END_OF_MESSAGE \<equiv> 0"
abbreviation (input) NKE_RECORD_NEXT_PROTOCOL :: nat where "NKE_RECORD_NEXT_PROTOCOL \<equiv> 1"
abbreviation (input) NKE_RECORD_ERROR :: nat where "NKE_RECORD_ERROR \<equiv> 2"
abbreviation (input) NKE_RECORD_WARNING :: nat where "NKE_RECORD_WARNING \<equiv> 3"
abbreviation (input) NKE_RECORD_AEAD_ALGORITHM :: nat where "NKE_RECORD_AEAD_ALGORITHM \<equiv> 4"
abbreviation (input) NKE_RECORD_COOKIE :: nat where "NKE_RECORD_COOKIE \<equiv> 5"
abbreviation (input) NKE_RECORD_NTPV4_SERVER_NEGOTIATION :: nat where "NKE_RECORD_NTPV4_SERVER_NEGOTIATION \<equiv> 6"
abbreviation (input) NKE_RECORD_NTPV4_PORT_NEGOTIATION :: nat where "NKE_RECORD_NTPV4_PORT_NEGOTIATION \<equiv> 7"
abbreviation (input) NKE_RECORD_COMPLIANT_128GCM_EXPORT :: nat where "NKE_RECORD_COMPLIANT_128GCM_EXPORT \<equiv> 1024"

record Message =
  msg_length :: nat
  sent :: nat
  parsed :: nat
  complete :: bool
  msg_data :: bytes

definition reset_message :: "Message \<Rightarrow> Message" where
  "reset_message m = m\<lparr>msg_length := 0, sent := 0, parsed := 0, complete := False\<rparr>"

text \<open>The length of the body is that of the list; a NULL body is empty.\<close>

definition ke_add_record :: "Message \<Rightarrow> bool \<Rightarrow> nat \<Rightarrow> bytes \<Rightarrow> (bool \<times> Message) option" where
  "ke_add_record m critical ty body =
     (if \<not> msg_length m \<le> length (msg_data m) then None
      else if length body > 0xffff \<or> ty > 0x7fff \<or> msg_length m + 4 + length body > length (msg_data m)
      then Some (False, m)
      else
        let header = htons ((if critical then 0x8000 else 0) OR of_nat ty) @ htons (of_nat (length body));
            m = m\<lparr>msg_data := memcpy (msg_data m) (msg_length m) header, msg_length := msg_length m + 4\<rparr> in
        Some (True, if body \<noteq> []
                    then m\<lparr>msg_data := memcpy (msg_data m) (msg_length m) body, msg_length := msg_length m + length body\<rparr>
                    else m))"

definition reset_message_parsing :: "Message \<Rightarrow> Message" where
  "reset_message_parsing m = m\<lparr>parsed := 0\<rparr>"

text \<open>A record: whether it is critical, its type, the length of its body, and what fits in the buffer of the body.\<close>

type_synonym ke_record = "bool \<times> nat \<times> nat \<times> bytes"

definition ke_get_record :: "Message \<Rightarrow> int \<Rightarrow> (ke_record option \<times> Message) option" where
  "ke_get_record m buffer_length =
     (if msg_length m < parsed m + 4 \<or> buffer_length < 0 then Some (None, m)
      else
        case (rd16 (msg_data m) (parsed m), rd16 (msg_data m) (parsed m + 2)) of
          (Some ty, Some len) \<Rightarrow>
            let blen = unat len; rlen = 4 + blen in
            if msg_length m < parsed m + rlen then Some (None, m)
            else if parsed m + 4 + min (nat buffer_length) blen > length (msg_data m) then None
            else Some (Some (bit ty 15, unat (ty AND 0x7fff), blen,
                             take (min (nat buffer_length) blen) (drop (parsed m + 4) (msg_data m))),
                       m\<lparr>parsed := parsed m + rlen\<rparr>)
        | _ \<Rightarrow> None)"

text \<open>
  The loop over the records of a message: the type of the last record and the number of ends of
  message, or nothing for a bad end.  Every record takes at least 4 bytes, which bounds the loop.
\<close>

function format_loop :: "Message \<Rightarrow> int \<Rightarrow> nat \<Rightarrow> ((int \<times> nat) option \<times> Message) option" where
  "format_loop m ty ends =
     (case ke_get_record m 0 of
        None \<Rightarrow> None
      | Some (None, m) \<Rightarrow> Some (Some (ty, ends), m)
      | Some (Some (critical, t, len, _), m') \<Rightarrow>
          if t = NKE_RECORD_END_OF_MESSAGE
          then if \<not> critical \<or> len \<noteq> 0 \<or> ends > 0 then Some (None, m') else format_loop m' (int t) (ends + 1)
          else format_loop m' (int t) ends)"
  by pat_completeness auto
termination
  by (relation "measure (\<lambda>(m, ty, ends). msg_length m - parsed m)")
    (auto simp: ke_get_record_def Let_def split: if_splits option.splits)

declare format_loop.simps [simp del]

definition check_message_format :: "Message \<Rightarrow> bool \<Rightarrow> (bool \<times> Message) option" where
  "check_message_format m eof =
     (let m = (reset_message_parsing m)\<lparr>complete := False\<rparr> in
      case format_loop m (-1) 0 of
        None \<Rightarrow> None
      | Some (None, m) \<Rightarrow> Some (False, m)
      | Some (Some (ty, ends), m) \<Rightarrow>
          if msg_length m = 0 \<or> parsed m < msg_length m then Some (\<not> eof, m)
          else if ty \<noteq> int NKE_RECORD_END_OF_MESSAGE then Some (\<not> eof, m)
          else Some (True, m\<lparr>complete := True\<rparr>))"

section \<open>Sessions\<close>

datatype KeState = KE_WAIT_CONNECT | KE_HANDSHAKE | KE_SEND | KE_RECEIVE | KE_SHUTDOWN | KE_STOPPED

datatype TLS_Status = TLS_SUCCESS | TLS_FAILED | TLS_CLOSED | TLS_AGAIN_INPUT | TLS_AGAIN_OUTPUT

abbreviation (input) INVALID_SOCK_FD :: int where "INVALID_SOCK_FD \<equiv> -8"
abbreviation (input) NKE_RETRY_FACTOR2_CONNECT :: nat where "NKE_RETRY_FACTOR2_CONNECT \<equiv> 4"
abbreviation (input) NKE_RETRY_FACTOR2_TLS :: nat where "NKE_RETRY_FACTOR2_TLS \<equiv> 10"

record NKSN_Instance =
  server :: bool
  ke_state :: KeState
  sock_fd :: int
  tls_session :: bool
  timeout_pending :: bool
  retry_factor :: nat
  message :: Message
  new_message :: bool
  sel_input :: bool
  sel_output :: bool

text \<open>
  The results of the calls made in one event: the error of the socket, the status of the handshake and
  of the shutdown, the result of a send with the number of bytes, and the results of
  the calls of \<open>TLS_Receive\<close>, where \<open>TLS_CheckPending\<close> is true as long as there is another one.
\<close>

record TLS_Results =
  so_error :: int
  handshake :: TLS_Status
  send :: "TLS_Status \<times> nat"
  receive :: "(TLS_Status \<times> bytes) list"
  shutdown :: TLS_Status

definition stop_session :: "NKSN_Instance \<Rightarrow> NKSN_Instance" where
  "stop_session inst =
     (if ke_state inst = KE_STOPPED then inst
      else inst\<lparr>ke_state := KE_STOPPED, sock_fd := INVALID_SOCK_FD, tls_session := False, timeout_pending := False,
                sel_input := False, sel_output := False\<rparr>)"

definition session_timeout :: "NKSN_Instance \<Rightarrow> NKSN_Instance" where
  "session_timeout inst = stop_session (inst\<lparr>timeout_pending := False\<rparr>)"

definition set_input_output :: "NKSN_Instance \<Rightarrow> bool \<Rightarrow> NKSN_Instance" where
  "set_input_output inst output = inst\<lparr>sel_input := \<not> output, sel_output := output\<rparr>"

definition change_state :: "NKSN_Instance \<Rightarrow> KeState \<Rightarrow> NKSN_Instance option" where
  "change_state inst st =
     (case st of
        KE_HANDSHAKE \<Rightarrow> Some ((set_input_output inst (\<not> server inst))\<lparr>ke_state := st\<rparr>)
      | KE_WAIT_CONNECT \<Rightarrow> Some ((set_input_output inst True)\<lparr>ke_state := st\<rparr>)
      | KE_SEND \<Rightarrow> Some ((set_input_output inst True)\<lparr>ke_state := st\<rparr>)
      | KE_SHUTDOWN \<Rightarrow> Some ((set_input_output inst True)\<lparr>ke_state := st\<rparr>)
      | KE_RECEIVE \<Rightarrow> Some ((set_input_output inst False)\<lparr>ke_state := st\<rparr>)
      | KE_STOPPED \<Rightarrow> None)"

text \<open>The outcome of the loop that receives: the session stops, waits, or has received data, the last call \<open>r\<close> bytes.\<close>

datatype receive_outcome = Recv_Stop | Recv_Wait | Recv_Data nat

fun receive_loop :: "Message \<Rightarrow> (TLS_Status \<times> bytes) list \<Rightarrow> (receive_outcome \<times> Message) option" where
  "receive_loop m [] = None"
| "receive_loop m ((s, bs) # rest) =
     (if msg_length m \<ge> length (msg_data m) then Some (Recv_Stop, m)
      else case s of
        TLS_SUCCESS \<Rightarrow>
          if length bs > length (msg_data m) - msg_length m then None
          else
            let m = m\<lparr>msg_data := memcpy (msg_data m) (msg_length m) bs, msg_length := msg_length m + length bs\<rparr> in
            if rest = [] then Some (Recv_Data (length bs), m) else receive_loop m rest
      | TLS_AGAIN_INPUT \<Rightarrow> Some (Recv_Wait, m)
      | _ \<Rightarrow> Some (Recv_Stop, m))"

text \<open>\<open>output\<close> is whether the event is \<open>SCH_FILE_OUTPUT\<close>.  The result tells that a message was received.\<close>

definition handle_event :: "NKSN_Instance \<Rightarrow> bool \<Rightarrow> TLS_Results \<Rightarrow> (bool \<times> NKSN_Instance) option" where
  "handle_event inst output tls =
     (case ke_state inst of
        KE_WAIT_CONNECT \<Rightarrow>
          if \<not> output then Some (False, inst)
          else if so_error tls \<noteq> 0 then Some (False, stop_session inst)
          else map_option (Pair False) (change_state inst KE_HANDSHAKE)
      | KE_HANDSHAKE \<Rightarrow>
          (case handshake tls of
             TLS_SUCCESS \<Rightarrow>
               map_option (Pair False) (change_state (inst\<lparr>retry_factor := NKE_RETRY_FACTOR2_TLS\<rparr>)
                 (if server inst then KE_RECEIVE else KE_SEND))
           | TLS_AGAIN_OUTPUT \<Rightarrow> Some (False, set_input_output inst True)
           | TLS_AGAIN_INPUT \<Rightarrow> Some (False, set_input_output inst False)
           | s \<Rightarrow> Some (False, let inst = stop_session inst in
                              if s \<noteq> TLS_CLOSED then inst\<lparr>retry_factor := NKE_RETRY_FACTOR2_TLS\<rparr> else inst))
      | KE_SEND \<Rightarrow>
          let m = message inst in
          if \<not> (new_message inst \<and> complete m) \<or> \<not> (msg_length m \<le> length (msg_data m) \<and> msg_length m > sent m) then None
          else (case send tls of
             (TLS_SUCCESS, r) \<Rightarrow>
               let inst = inst\<lparr>message := m\<lparr>sent := sent m + r\<rparr>\<rparr> in
               if sent (message inst) < msg_length (message inst) then Some (False, inst)
               else map_option (\<lambda>inst. (False, inst\<lparr>message := reset_message (message inst), new_message := False\<rparr>))
                      (change_state inst (if server inst then KE_SHUTDOWN else KE_RECEIVE))
           | (TLS_AGAIN_OUTPUT, _) \<Rightarrow> Some (False, inst)
           | _ \<Rightarrow> Some (False, stop_session inst))
      | KE_RECEIVE \<Rightarrow>
          (case receive_loop (message inst) (receive tls) of
             None \<Rightarrow> None
           | Some (Recv_Stop, m) \<Rightarrow> Some (False, stop_session (inst\<lparr>message := m\<rparr>))
           | Some (Recv_Wait, m) \<Rightarrow> Some (False, inst\<lparr>message := m\<rparr>)
           | Some (Recv_Data r, m) \<Rightarrow>
               (case check_message_format m (r = 0) of
                  None \<Rightarrow> None
                | Some (False, m) \<Rightarrow> Some (False, stop_session (inst\<lparr>message := m\<rparr>))
                | Some (True, m) \<Rightarrow>
                    if \<not> complete m then Some (False, inst\<lparr>message := m\<rparr>)
                    else map_option (Pair True)
                           (change_state (inst\<lparr>message := m\<rparr>) (if server inst then KE_SEND else KE_SHUTDOWN))))
      | KE_SHUTDOWN \<Rightarrow>
          (case shutdown tls of
             TLS_AGAIN_OUTPUT \<Rightarrow> Some (False, set_input_output inst True)
           | TLS_AGAIN_INPUT \<Rightarrow> Some (False, set_input_output inst False)
           | _ \<Rightarrow> Some (False, stop_session inst))
      | KE_STOPPED \<Rightarrow> None)"

text \<open>The handler of the messages is an argument; it gives 0 if the session has to be stopped.\<close>

definition read_write_socket ::
    "(NKSN_Instance \<Rightarrow> (bool \<times> NKSN_Instance) option) \<Rightarrow> NKSN_Instance \<Rightarrow> bool \<Rightarrow> TLS_Results \<Rightarrow> NKSN_Instance option" where
  "read_write_socket handler inst output tls =
     (case handle_event inst output tls of
        None \<Rightarrow> None
      | Some (False, inst) \<Rightarrow> Some inst
      | Some (True, inst) \<Rightarrow>
          map_option (\<lambda>(ok, inst). if ok then inst else stop_session inst)
            (handler (inst\<lparr>message := reset_message_parsing (message inst)\<rparr>)))"

definition NKSN_CreateInstance :: "bool \<Rightarrow> Message \<Rightarrow> NKSN_Instance" where
  "NKSN_CreateInstance server_mode garbage =
     \<lparr>server = server_mode, ke_state = KE_STOPPED, sock_fd = INVALID_SOCK_FD, tls_session = False, timeout_pending = False,
      retry_factor = NKE_RETRY_FACTOR2_CONNECT, message = garbage, new_message = False, sel_input = False, sel_output = False\<rparr>"

text \<open>\<open>tls_created\<close> is whether \<open>TLS_CreateInstance\<close> succeeds.\<close>

definition NKSN_StartSession :: "NKSN_Instance \<Rightarrow> int \<Rightarrow> bool \<Rightarrow> (bool \<times> NKSN_Instance) option" where
  "NKSN_StartSession inst fd tls_created =
     (if ke_state inst \<noteq> KE_STOPPED then None
      else
        let inst = inst\<lparr>tls_session := tls_created\<rparr> in
        if \<not> tls_created then Some (False, inst)
        else
          let inst = inst\<lparr>sock_fd := fd, sel_input := True, sel_output := False, timeout_pending := True,
                          retry_factor := NKE_RETRY_FACTOR2_CONNECT, message := reset_message (message inst),
                          new_message := False\<rparr> in
          map_option (Pair True) (change_state inst (if server inst then KE_HANDSHAKE else KE_WAIT_CONNECT)))"

definition NKSN_BeginMessage :: "NKSN_Instance \<Rightarrow> NKSN_Instance" where
  "NKSN_BeginMessage inst = inst\<lparr>message := reset_message (message inst), new_message := True\<rparr>"

definition NKSN_AddRecord :: "NKSN_Instance \<Rightarrow> bool \<Rightarrow> nat \<Rightarrow> bytes \<Rightarrow> (bool \<times> NKSN_Instance) option" where
  "NKSN_AddRecord inst critical ty body =
     (if \<not> (new_message inst \<and> \<not> complete (message inst)) \<or> ty = NKE_RECORD_END_OF_MESSAGE then None
      else map_option (\<lambda>(ok, m). (ok, inst\<lparr>message := m\<rparr>)) (ke_add_record (message inst) critical ty body))"

definition NKSN_EndMessage :: "NKSN_Instance \<Rightarrow> (bool \<times> NKSN_Instance) option" where
  "NKSN_EndMessage inst =
     (if complete (message inst) then None
      else case ke_add_record (message inst) True NKE_RECORD_END_OF_MESSAGE [] of
        None \<Rightarrow> None
      | Some (False, m) \<Rightarrow> Some (False, inst\<lparr>message := m\<rparr>)
      | Some (True, m) \<Rightarrow> Some (True, inst\<lparr>message := m\<lparr>complete := True\<rparr>\<rparr>))"

definition NKSN_GetRecord :: "NKSN_Instance \<Rightarrow> int \<Rightarrow> (ke_record option \<times> NKSN_Instance) option" where
  "NKSN_GetRecord inst buffer_length =
     (if \<not> complete (message inst) then None
      else case ke_get_record (message inst) buffer_length of
        None \<Rightarrow> None
      | Some (None, m) \<Rightarrow> Some (None, inst\<lparr>message := m\<rparr>)
      | Some (Some (critical, ty, len, body), m) \<Rightarrow>
          Some (if ty = NKE_RECORD_END_OF_MESSAGE then None else Some (critical, ty, len, body), inst\<lparr>message := m\<rparr>))"

definition NKSN_IsStopped :: "NKSN_Instance \<Rightarrow> bool" where
  "NKSN_IsStopped inst = (ke_state inst = KE_STOPPED)"

definition NKSN_StopSession :: "NKSN_Instance \<Rightarrow> NKSN_Instance" where
  "NKSN_StopSession inst = stop_session inst"

definition NKSN_GetRetryFactor :: "NKSN_Instance \<Rightarrow> nat" where
  "NKSN_GetRetryFactor inst = retry_factor inst"

section \<open>The encoding of the records\<close>

definition enc_record :: "bool \<times> nat \<times> bytes \<Rightarrow> bytes" where
  "enc_record r = (case r of (critical, ty, body) \<Rightarrow>
     htons ((if critical then 0x8000 else 0) OR of_nat ty) @ htons (of_nat (length body)) @ body)"

definition valid_record :: "bool \<times> nat \<times> bytes \<Rightarrow> bool" where
  "valid_record r = (case r of (critical, ty, body) \<Rightarrow> ty \<le> 0x7fff \<and> length body \<le> 0xffff)"

text \<open>A reference decoder: the records at the start of the data, and the rest that is not a whole record.\<close>

fun split_records :: "bytes \<Rightarrow> (bool \<times> nat \<times> bytes) list \<times> bytes" where
  "split_records (t1 # t2 # l1 # l2 # rest) =
     (let ty = ntohs t1 t2; blen = unat (ntohs l1 l2) in
      if length rest < blen then ([], t1 # t2 # l1 # l2 # rest)
      else
        let (rs, rem) = split_records (drop blen rest) in
        ((bit ty 15, unat (ty AND 0x7fff), take blen rest) # rs, rem))"
| "split_records bs = ([], bs)"

declare split_records.simps(1) [simp del]

definition content :: "Message \<Rightarrow> bytes" where
  "content m = take (msg_length m) (msg_data m)"

definition msg_ok :: "Message \<Rightarrow> bool" where
  "msg_ok m \<longleftrightarrow> length (msg_data m) = NKE_MAX_MESSAGE_LENGTH \<and> msg_length m \<le> NKE_MAX_MESSAGE_LENGTH \<and> parsed m \<le> msg_length m"

lemma type_field:
  assumes "ty \<le> 0x7fff"
  shows "bit ((if critical then 0x8000 else 0) OR of_nat ty :: u16) 15 = critical"
    "unat (((if critical then 0x8000 else 0) OR of_nat ty) AND 0x7fff :: u16) = ty"
proof -
  have t: "bit ty n \<Longrightarrow> n < 15" for n
  proof (rule ccontr)
    assume b: "bit ty n" "\<not> n < 15"
    then have "2 ^ 15 \<le> (2::nat) ^ n" by (intro power_increasing) simp_all
    with assms have "ty < 2 ^ n" by simp
    with b(1) show False by (simp add: bit_iff_odd)
  qed
  have m: "(0x7fff :: u16) = mask 15" by (simp add: mask_eq_exp_minus_1)
  define w where "w = (0x8000 :: u16)"
  have "w = 2 ^ 15" by (simp add: w_def)
  then have c: "bit w n \<longleftrightarrow> n = 15" for n by (simp only: bit_exp_iff) (auto simp: possible_bit_word)
  have n: "\<not> bit (of_nat ty :: u16) 15" using t by (auto simp: bit_simps)
  show "bit ((if critical then 0x8000 else 0) OR of_nat ty :: u16) 15 = critical"
    using n c [of 15] unfolding w_def [symmetric] by (auto simp: bit_or_iff)
  have "((if critical then 0x8000 else 0) OR of_nat ty) AND 0x7fff = (of_nat ty :: u16)"
    unfolding m w_def [symmetric] by (rule bit_word_eqI) (use t in \<open>auto simp: bit_simps c\<close>)
  then show "unat (((if critical then 0x8000 else 0) OR of_nat ty) AND 0x7fff :: u16) = ty"
    using assms by (simp add: unat_of_nat)
qed

lemma split_records_enc:
  assumes "valid_record r"
  shows "split_records (enc_record r @ bs) = (case split_records bs of (rs, rem) \<Rightarrow> (r # rs, rem))"
proof -
  obtain critical ty body where r: "r = (critical, ty, body)" by (cases r) auto
  let ?t = "(if critical then 0x8000 else 0) OR of_nat ty :: u16" and ?l = "of_nat (length body) :: u16"
  obtain t1 t2 l1 l2 where h: "htons ?t = [t1, t2]" "htons ?l = [l1, l2]" by (simp add: htons_def)
  have n: "ntohs t1 t2 = ?t" "ntohs l1 l2 = ?l" using ntohs_htons [of ?t] ntohs_htons [of ?l] h by simp_all
  have l: "unat ?l = length body" using assms by (simp add: valid_record_def r unat_of_nat)
  have t: "ty \<le> 0x7fff" using assms by (simp add: valid_record_def r)
  show ?thesis
    using type_field [OF t, of critical] l
    by (simp add: enc_record_def r h split_records.simps(1) n Let_def case_prod_unfold)
qed

lemma split_records_encs:
  "\<forall>r\<in>set rs. valid_record r \<Longrightarrow> split_records (concat (map enc_record rs) @ bs) =
     (case split_records bs of (rs', rem) \<Rightarrow> (rs @ rs', rem))"
  by (induction rs) (auto simp: split_records_enc case_prod_unfold)

text \<open>What is left of a message to parse.\<close>

definition todo :: "Message \<Rightarrow> bytes" where
  "todo m = drop (parsed m) (content m)"

lemma todo_nth: "msg_ok m \<Longrightarrow> i < length (todo m) \<Longrightarrow> todo m ! i = msg_data m ! (parsed m + i)"
  by (simp add: todo_def content_def msg_ok_def)

lemma length_todo: "msg_ok m \<Longrightarrow> length (todo m) = msg_length m - parsed m"
  by (simp add: todo_def content_def msg_ok_def)

lemma todo_slice: "msg_ok m \<Longrightarrow> a + n \<le> length (todo m) \<Longrightarrow> take n (drop (parsed m + a) (msg_data m)) = take n (drop a (todo m))"
proof -
  assume a: "msg_ok m" "a + n \<le> length (todo m)"
  then have "n \<le> msg_length m - (parsed m + a)" by (simp add: length_todo)
  moreover have "drop a (todo m) = take (msg_length m - (parsed m + a)) (drop (parsed m + a) (msg_data m))"
    by (simp add: todo_def content_def drop_take add.commute)
  ultimately show ?thesis by (simp add: min_def)
qed

lemma split_records_short: "length bs < 4 \<Longrightarrow> split_records bs = ([], bs)"
  by (cases bs rule: split_records.cases) auto

lemma list_4_cases: "4 \<le> length (bs :: bytes) \<Longrightarrow> \<exists>a b c d rest. bs = a # b # c # d # rest"
  by (cases bs rule: split_records.cases) auto

lemma ke_get_record_split:
  assumes ok: "msg_ok m" and buf: "0 \<le> buf"
  shows "case split_records (todo m) of
      ([], rem) \<Rightarrow> ke_get_record m buf = Some (None, m)
    | ((critical, ty, body) # rs, rem) \<Rightarrow>
        ke_get_record m buf = Some (Some (critical, ty, length body, take (nat buf) body), m\<lparr>parsed := parsed m + 4 + length body\<rparr>) \<and>
        msg_ok (m\<lparr>parsed := parsed m + 4 + length body\<rparr>) \<and>
        split_records (todo (m\<lparr>parsed := parsed m + 4 + length body\<rparr>)) = (rs, rem)"
proof (cases "length (todo m) < 4")
  case True
  moreover from this have "msg_length m < parsed m + 4" using length_todo [OF ok] by simp
  ultimately show ?thesis by (simp add: split_records_short ke_get_record_def)
next
  case False
  then obtain t1 t2 l1 l2 rest where t: "todo m = t1 # t2 # l1 # l2 # rest"
    using list_4_cases [of "todo m"] by auto
  have len: "length (todo m) = 4 + length rest" "msg_length m = parsed m + 4 + length rest" "msg_length m \<le> length (msg_data m)"
    using t length_todo [OF ok] ok by (simp_all add: msg_ok_def)
  have "rd16 (msg_data m) (parsed m) = Some (ntohs t1 t2)"
    using todo_nth [OF ok, of 0] todo_nth [OF ok, of 1] len t by (simp add: rd16_def)
  moreover have "rd16 (msg_data m) (parsed m + 2) = Some (ntohs l1 l2)"
    using todo_nth [OF ok, of 2] todo_nth [OF ok, of 3] len t by (simp add: rd16_def numeral_3_eq_3)
  moreover have "min (nat buf) (unat (ntohs l1 l2)) \<le> length rest \<Longrightarrow>
      take (min (nat buf) (unat (ntohs l1 l2))) (drop (parsed m + 4) (msg_data m)) = take (min (nat buf) (unat (ntohs l1 l2))) rest"
    using todo_slice [OF ok, of 4 "min (nat buf) (unat (ntohs l1 l2))"] t by simp
  moreover have "todo (m\<lparr>parsed := parsed m + 4 + k\<rparr>) = drop k rest" for k
  proof -
    have "todo (m\<lparr>parsed := parsed m + 4 + k\<rparr>) = drop (4 + k) (todo m)" by (simp add: todo_def content_def ac_simps)
    then show ?thesis by (simp add: t eval_nat_numeral)
  qed
  ultimately show ?thesis
    using len ok buf
    by (auto simp: t split_records.simps(1) Let_def case_prod_unfold ke_get_record_def msg_ok_def min_def)
qed

section \<open>The check of the format\<close>

text \<open>
  The specification of the check: a message is malformed if an end of message is not critical, has
  a body, or is not the only one; it is complete when it is not empty, has only whole records,
  and ends with an end of message.
\<close>

definition is_end :: "bool \<times> nat \<times> bytes \<Rightarrow> bool" where
  "is_end r = (fst (snd r) = NKE_RECORD_END_OF_MESSAGE)"

definition malformed :: "(bool \<times> nat \<times> bytes) list \<Rightarrow> bool" where
  "malformed rs \<longleftrightarrow> (\<exists>r\<in>set rs. is_end r \<and> r \<noteq> (True, 0, [])) \<or> length (filter is_end rs) > 1"

definition whole_message :: "bytes \<Rightarrow> bool" where
  "whole_message bs = (case split_records bs of (rs, rem) \<Rightarrow> \<not> malformed rs \<and> rs \<noteq> [] \<and> rem = [] \<and> is_end (last rs))"

text \<open>The condition on which the loop stops, with the number of ends already found.\<close>

definition bad_ends :: "nat \<Rightarrow> (bool \<times> nat \<times> bytes) list \<Rightarrow> bool" where
  "bad_ends ends rs \<longleftrightarrow> (\<exists>r\<in>set rs. is_end r \<and> r \<noteq> (True, 0, [])) \<or> ends + length (filter is_end rs) > 1 \<and> filter is_end rs \<noteq> []"

lemma malformed_iff: "malformed rs \<longleftrightarrow> bad_ends 0 rs"
  by (auto simp: malformed_def bad_ends_def)

lemma format_loop_spec:
  assumes "msg_ok m" "split_records (todo m) = (rs, rem)"
  shows "\<exists>p. parsed m \<le> p \<and> p \<le> msg_length m \<and>
    format_loop m ty ends = Some (if bad_ends ends rs
      then None else Some (if rs = [] then ty else int (fst (snd (last rs))), ends + length (filter is_end rs)), m\<lparr>parsed := p\<rparr>) \<and>
    (\<not> bad_ends ends rs \<longrightarrow>
      rem = drop p (content m))"
  using assms
proof (induction rs arbitrary: m ty ends)
  case Nil
  with ke_get_record_split [OF Nil.prems(1), of 0] have "ke_get_record m 0 = Some (None, m)" by simp
  moreover have "rem = todo m"
    using Nil.prems(2) by (cases "todo m" rule: split_records.cases) (auto simp: split_records.simps(1) Let_def split: if_splits prod.splits)
  ultimately show ?case using Nil.prems(1)
    by (intro exI [of _ "parsed m"]) (simp add: format_loop.simps todo_def msg_ok_def bad_ends_def)
next
  case (Cons r rs)
  obtain critical t body where r: "r = (critical, t, body)" by (cases r) auto
  let ?m = "m\<lparr>parsed := parsed m + 4 + length body\<rparr>"
  have g: "ke_get_record m 0 = Some (Some (critical, t, length body, []), ?m)" "msg_ok ?m" "split_records (todo ?m) = (rs, rem)"
    using ke_get_record_split [OF Cons.prems(1), of 0] Cons.prems(2) by (simp_all add: r)
  note IH = Cons.IH [OF g(2,3)]
  have step: "format_loop m ty ends = (if t = 0 then if \<not> critical \<or> length body \<noteq> 0 \<or> ends > 0 then Some (None, ?m)
      else format_loop ?m (int t) (ends + 1) else format_loop ?m (int t) ends)"
    by (subst format_loop.simps) (simp add: g(1))
  have pm: "parsed m \<le> parsed ?m" "parsed ?m \<le> msg_length m" using g(2) by (simp_all add: msg_ok_def)
  show ?case
  proof (cases "t = 0 \<and> (\<not> critical \<or> length body \<noteq> 0 \<or> ends > 0)")
    case True
    then show ?thesis using step pm
      by (intro exI [of _ "parsed ?m"]) (auto simp: r is_end_def bad_ends_def)
  next
    case False
    define ends' where "ends' = (if t = 0 then ends + 1 else ends)"
    have s: "format_loop m ty ends = format_loop ?m (int t) ends'" using step False by (auto simp: ends'_def)
    from IH [of "int t" ends'] obtain p where p: "parsed ?m \<le> p" "p \<le> msg_length m"
      "format_loop ?m (int t) ends' = Some (if bad_ends ends' rs
        then None else Some (if rs = [] then int t else int (fst (snd (last rs))), ends' + length (filter is_end rs)), ?m\<lparr>parsed := p\<rparr>)"
      "\<not> bad_ends ends' rs \<longrightarrow> rem = drop p (content ?m)"
      by auto
    have bad: "bad_ends ends (r # rs) \<longleftrightarrow>
        bad_ends ends' rs"
      using False by (auto simp: r is_end_def ends'_def bad_ends_def)
    have cnt: "ends + length (filter is_end (r # rs)) = ends' + length (filter is_end rs)" by (simp add: r is_end_def ends'_def)
    show ?thesis unfolding s bad cnt using p pm(1)
      by (intro exI [of _ p]) (auto simp: r content_def)
  qed
qed

lemma split_records_Nil: "split_records bs = ([], rem) \<Longrightarrow> rem = bs"
  by (cases bs rule: split_records.cases) (auto simp: split_records.simps(1) Let_def split: if_splits prod.splits)

lemma check_message_format_spec:
  assumes "length (msg_data m) = 16384" "msg_length m \<le> 16384" "split_records (content m) = (rs, rem)"
  shows "\<exists>p. p \<le> msg_length m \<and> check_message_format m eof =
    Some (\<not> malformed rs \<and> (whole_message (content m) \<or> \<not> eof), m\<lparr>parsed := p, complete := whole_message (content m)\<rparr>)"
proof -
  let ?m = "(reset_message_parsing m)\<lparr>complete := False\<rparr>"
  have ok: "msg_ok ?m" "todo ?m = content m" "content ?m = content m"
    using assms(1,2) by (simp_all add: msg_ok_def reset_message_parsing_def todo_def content_def)
  have len: "length (content m) = msg_length m" using assms(1,2) by (simp add: content_def)
  obtain p where p: "p \<le> msg_length m"
    "format_loop ?m (-1) 0 = Some (if malformed rs then None else Some (if rs = [] then -1 else int (fst (snd (last rs))), length (filter is_end rs)), ?m\<lparr>parsed := p\<rparr>)"
    "\<not> malformed rs \<longrightarrow> rem = drop p (content m)"
  proof -
    from format_loop_spec [OF ok(1), unfolded ok(2,3), OF assms(3), of "-1" 0] obtain p where q: "p \<le> msg_length ?m"
      "format_loop ?m (-1) 0 = Some (if bad_ends 0 rs then None else Some (if rs = [] then -1 else int (fst (snd (last rs))), 0 + length (filter is_end rs)), ?m\<lparr>parsed := p\<rparr>)"
      "\<not> bad_ends 0 rs \<longrightarrow> rem = drop p (content m)" by blast
    from q(1) have "p \<le> msg_length m" by (simp add: reset_message_parsing_def)
    from that [OF this] q(2,3) show thesis by (simp add: malformed_iff)
  qed
  have m: "?m\<lparr>parsed := p\<rparr> = m\<lparr>parsed := p, complete := False\<rparr>" by (simp add: reset_message_parsing_def)
  show ?thesis
  proof (cases "malformed rs")
    case True
    then have "\<not> whole_message (content m)" by (simp add: whole_message_def assms(3))
    with p m True show ?thesis by (intro exI [of _ p]) (simp add: check_message_format_def Let_def)
  next
    case False
    then have rem: "rem = drop p (content m)" using p(3) by simp
    have "rs \<noteq> [] \<or> rem = content m" using split_records_Nil [of "content m" rem] assms(3) by auto
    moreover have "rem = [] \<longleftrightarrow> \<not> p < msg_length m" using rem len by auto
    moreover have "msg_length m = 0 \<longrightarrow> rs = []" using assms(3) len by auto
    ultimately have w: "whole_message (content m) \<longleftrightarrow>
        \<not> (msg_length m = 0 \<or> p < msg_length m) \<and> (if rs = [] then -1 else int (fst (snd (last rs)))) = 0"
      using False assms(3) len by (auto simp: whole_message_def is_end_def)
    have "check_message_format m eof =
        (if msg_length m = 0 \<or> p < msg_length m \<or> (if rs = [] then -1 else int (fst (snd (last rs)))) \<noteq> 0
         then Some (\<not> eof, m\<lparr>parsed := p, complete := False\<rparr>) else Some (True, m\<lparr>parsed := p, complete := True\<rparr>))"
      using p(2) False m by (auto simp: check_message_format_def Let_def reset_message_parsing_def split: if_splits)
    with w False p(1) show ?thesis by (intro exI [of _ p]) auto
  qed
qed

section \<open>Building and reading a message\<close>

lemma ke_add_record_spec:
  assumes "msg_ok m"
  shows "ke_add_record m critical ty body =
    Some (if valid_record (critical, ty, body) \<and> msg_length m + length (enc_record (critical, ty, body)) \<le> 16384
      then (True, m\<lparr>msg_data := memcpy (msg_data m) (msg_length m) (enc_record (critical, ty, body)),
                     msg_length := msg_length m + length (enc_record (critical, ty, body))\<rparr>)
      else (False, m))"
proof -
  have cat: "off + length a + length b \<le> length d \<Longrightarrow> memcpy (memcpy d off a) (off + length a) b = memcpy d off (a @ b)" for d off and a b :: bytes
    by (simp add: memcpy_def ac_simps)
  show ?thesis
    using assms cat [of "msg_length m" "htons ((if critical then 0x8000 else 0) OR of_nat ty) @ htons (of_nat (length body))" body "msg_data m"]
    by (auto simp: ke_add_record_def msg_ok_def valid_record_def enc_record_def Let_def memcpy_def not_le)
qed

lemma content_append:
  assumes "msg_ok m" "msg_length m + length bs \<le> 16384"
  shows "content (m\<lparr>msg_data := memcpy (msg_data m) (msg_length m) bs, msg_length := msg_length m + length bs\<rparr>) = content m @ bs"
    "msg_ok (m\<lparr>msg_data := memcpy (msg_data m) (msg_length m) bs, msg_length := msg_length m + length bs\<rparr>)"
  using assms by (simp_all add: content_def msg_ok_def memcpy_def)

text \<open>The records are added one after the other until one does not fit.\<close>

fun add_records :: "(bool \<times> nat \<times> bytes) list \<Rightarrow> NKSN_Instance \<Rightarrow> (bool \<times> NKSN_Instance) option" where
  "add_records [] inst = Some (True, inst)"
| "add_records ((critical, ty, body) # rs) inst =
     (case NKSN_AddRecord inst critical ty body of
        None \<Rightarrow> None
      | Some (False, inst) \<Rightarrow> Some (False, inst)
      | Some (True, inst) \<Rightarrow> add_records rs inst)"

text \<open>Only the data and the length of the message of a session are changed when a record is added.\<close>

definition set_content :: "NKSN_Instance \<Rightarrow> bytes \<Rightarrow> NKSN_Instance \<Rightarrow> bool" where
  "set_content inst bs inst' \<longleftrightarrow> content (message inst') = bs \<and> msg_ok (message inst') \<and>
     (\<exists>d. inst' = inst\<lparr>message := (message inst)\<lparr>msg_data := d, msg_length := length bs\<rparr>\<rparr>)"

lemma add_records_spec:
  assumes "msg_ok (message inst)" "new_message inst" "\<not> complete (message inst)"
    "\<forall>r\<in>set rs. valid_record r \<and> \<not> is_end r"
    "length (content (message inst)) + length (concat (map enc_record rs)) \<le> 16384"
  shows "\<exists>inst'. add_records rs inst = Some (True, inst') \<and>
    set_content inst (content (message inst) @ concat (map enc_record rs)) inst'"
  using assms
proof (induction rs arbitrary: inst)
  case Nil
  have "length (content (message inst)) = msg_length (message inst)" using Nil by (simp add: content_def msg_ok_def)
  then have "inst = inst\<lparr>message := (message inst)\<lparr>msg_data := msg_data (message inst), msg_length := length (content (message inst))\<rparr>\<rparr>"
    by simp
  then have "\<exists>d. inst = inst\<lparr>message := (message inst)\<lparr>msg_data := d, msg_length := length (content (message inst))\<rparr>\<rparr>" ..
  with Nil(1) show ?case by (simp add: set_content_def)
next
  case (Cons r rs)
  obtain critical ty body where r: "r = (critical, ty, body)" by (cases r) auto
  let ?m = "message inst"
  let ?m1 = "?m\<lparr>msg_data := memcpy (msg_data ?m) (msg_length ?m) (enc_record r), msg_length := msg_length ?m + length (enc_record r)\<rparr>"
  let ?i1 = "inst\<lparr>message := ?m1\<rparr>"
  have len: "length (content ?m) = msg_length ?m" using Cons.prems(1) by (simp add: content_def msg_ok_def)
  have fit: "msg_length ?m + length (enc_record r) \<le> 16384" using Cons.prems(5) len by simp
  have v: "valid_record r" "ty \<noteq> 0" using Cons.prems(4) by (simp_all add: r is_end_def)
  have a: "NKSN_AddRecord inst critical ty body = Some (True, ?i1)"
    using ke_add_record_spec [OF Cons.prems(1), of critical ty body] v fit Cons.prems(2,3) by (simp add: NKSN_AddRecord_def r)
  note c = content_append [OF Cons.prems(1) fit]
  from Cons.IH [of ?i1] obtain inst' where "add_records rs ?i1 = Some (True, inst')"
    "set_content ?i1 (content ?m1 @ concat (map enc_record rs)) inst'"
    using c Cons.prems(2-5) len by auto
  then show ?case using a c(1) by (intro exI [of _ inst']) (auto simp: r set_content_def add.assoc)
qed

lemma NKSN_EndMessage_spec:
  assumes "msg_ok (message inst)" "\<not> complete (message inst)" "length (content (message inst)) + 4 \<le> 16384"
  obtains d where "NKSN_EndMessage inst = Some (True, inst\<lparr>message := (message inst)\<lparr>msg_data := d,
      msg_length := msg_length (message inst) + 4, complete := True\<rparr>\<rparr>)"
    "content ((message inst)\<lparr>msg_data := d, msg_length := msg_length (message inst) + 4, complete := True\<rparr>) =
      content (message inst) @ enc_record (True, 0, [])"
    "msg_ok ((message inst)\<lparr>msg_data := d, msg_length := msg_length (message inst) + 4, complete := True\<rparr>)"
proof -
  let ?m = "message inst" and ?e = "enc_record (True, 0, [])"
  have l: "length ?e = 4" "length (content ?m) = msg_length ?m"
    using assms(1) by (simp_all add: enc_record_def content_def msg_ok_def)
  have fit: "msg_length ?m + length ?e \<le> 16384" using assms(3) l by simp
  have v: "valid_record (True, 0, [])" by (simp add: valid_record_def)
  note c = content_append [OF assms(1) fit]
  show thesis
  proof (rule that [of "memcpy (msg_data ?m) (msg_length ?m) ?e"])
    show "NKSN_EndMessage inst = Some (True, inst\<lparr>message := ?m\<lparr>msg_data := memcpy (msg_data ?m) (msg_length ?m) ?e,
        msg_length := msg_length ?m + 4, complete := True\<rparr>\<rparr>)"
      using ke_add_record_spec [OF assms(1), of True 0 "[]"] v fit l assms(2) by (simp add: NKSN_EndMessage_def)
  qed (use c l in \<open>simp_all add: content_def msg_ok_def\<close>)
qed

text \<open>The records a session has still to read, up to the end of the message.\<close>

definition pending_records :: "NKSN_Instance \<Rightarrow> (bool \<times> nat \<times> bytes) list" where
  "pending_records inst = takeWhile (\<lambda>r. \<not> is_end r) (fst (split_records (todo (message inst))))"

definition truncated :: "int \<Rightarrow> bool \<times> nat \<times> bytes \<Rightarrow> ke_record" where
  "truncated buf r = (case r of (critical, ty, body) \<Rightarrow> (critical, ty, length body, take (nat buf) body))"

lemma NKSN_GetRecord_none:
  assumes "msg_ok (message inst)" "complete (message inst)" "0 \<le> buf" "pending_records inst = []"
  shows "\<exists>p. NKSN_GetRecord inst buf = Some (None, inst\<lparr>message := (message inst)\<lparr>parsed := p\<rparr>\<rparr>) \<and> msg_ok ((message inst)\<lparr>parsed := p\<rparr>)"
proof (cases "split_records (todo (message inst))")
  case (Pair rs rem)
  show ?thesis
  proof (cases rs)
    case Nil
    with Pair ke_get_record_split [OF assms(1,3)] have "ke_get_record (message inst) buf = Some (None, message inst)" by simp
    with assms(1,2) show ?thesis by (intro exI [of _ "parsed (message inst)"]) (simp add: NKSN_GetRecord_def)
  next
    case (Cons r rs')
    obtain critical ty body where r: "r = (critical, ty, body)" by (cases r) auto
    have "ty = 0" using assms(4) Pair Cons by (simp add: pending_records_def r is_end_def split: if_splits)
    with ke_get_record_split [OF assms(1,3)] Pair Cons assms(2) show ?thesis
      by (intro exI [of _ "parsed (message inst) + 4 + length body"]) (simp add: NKSN_GetRecord_def r)
  qed
qed

lemma NKSN_GetRecord_some:
  assumes "msg_ok (message inst)" "complete (message inst)" "0 \<le> buf" "pending_records inst = r # rs"
  obtains p where "NKSN_GetRecord inst buf = Some (Some (truncated buf r), inst\<lparr>message := (message inst)\<lparr>parsed := p\<rparr>\<rparr>)"
    "msg_ok ((message inst)\<lparr>parsed := p\<rparr>)" "pending_records (inst\<lparr>message := (message inst)\<lparr>parsed := p\<rparr>\<rparr>) = rs"
    "parsed (message inst) + 4 \<le> p"
proof (cases "split_records (todo (message inst))")
  case (Pair rs0 rem)
  then obtain rs1 where rs0: "rs0 = r # rs1" "\<not> is_end r" "takeWhile (\<lambda>r. \<not> is_end r) rs1 = rs"
    using assms(4) by (cases rs0) (auto simp: pending_records_def split: if_splits)
  obtain critical ty body where r: "r = (critical, ty, body)" by (cases r) auto
  have "ty \<noteq> 0" using rs0(2) by (simp add: r is_end_def)
  then show thesis
    using that [of "parsed (message inst) + 4 + length body"] ke_get_record_split [OF assms(1,3)] Pair rs0 assms(2)
    by (simp add: NKSN_GetRecord_def r truncated_def pending_records_def)
qed

text \<open>A whole message is built from records; a reader takes up to \<open>n\<close> records.\<close>

definition build_message :: "(bool \<times> nat \<times> bytes) list \<Rightarrow> NKSN_Instance \<Rightarrow> (bool \<times> NKSN_Instance) option" where
  "build_message rs inst =
     (case add_records rs (NKSN_BeginMessage inst) of
        None \<Rightarrow> None
      | Some (False, inst) \<Rightarrow> Some (False, inst)
      | Some (True, inst) \<Rightarrow> NKSN_EndMessage inst)"

fun read_records :: "nat \<Rightarrow> int \<Rightarrow> NKSN_Instance \<Rightarrow> (ke_record list \<times> NKSN_Instance) option" where
  "read_records 0 buf inst = Some ([], inst)"
| "read_records (Suc n) buf inst =
     (case NKSN_GetRecord inst buf of
        None \<Rightarrow> None
      | Some (None, inst) \<Rightarrow> Some ([], inst)
      | Some (Some r, inst) \<Rightarrow> map_option (\<lambda>(rs, inst). (r # rs, inst)) (read_records n buf inst))"

lemma read_records_pending:
  assumes "msg_ok (message inst)" "complete (message inst)" "0 \<le> buf" "length (pending_records inst) < n"
  shows "\<exists>inst'. read_records n buf inst = Some (map (truncated buf) (pending_records inst), inst')"
  using assms
proof (induction n arbitrary: inst)
  case 0
  then show ?case by simp
next
  case (Suc n)
  show ?case
  proof (cases "pending_records inst")
    case Nil
    with NKSN_GetRecord_none [OF Suc.prems(1-3)] show ?thesis by auto
  next
    case (Cons r rs)
    from NKSN_GetRecord_some [OF Suc.prems(1-3) Cons] obtain p where
      p: "NKSN_GetRecord inst buf = Some (Some (truncated buf r), inst\<lparr>message := (message inst)\<lparr>parsed := p\<rparr>\<rparr>)"
      "msg_ok ((message inst)\<lparr>parsed := p\<rparr>)" "pending_records (inst\<lparr>message := (message inst)\<lparr>parsed := p\<rparr>\<rparr>) = rs" by blast
    with Suc.IH [of "inst\<lparr>message := (message inst)\<lparr>parsed := p\<rparr>\<rparr>"] Suc.prems Cons show ?thesis by auto
  qed
qed

lemma whole_message_records:
  assumes "\<forall>r\<in>set rs. valid_record r \<and> \<not> is_end r"
  shows "split_records (concat (map enc_record rs) @ enc_record (True, 0, [])) = (rs @ [(True, 0, [])], [])"
    "whole_message (concat (map enc_record rs) @ enc_record (True, 0, []))" "\<not> malformed (rs @ [(True, 0, [])])"
proof -
  have "split_records (enc_record (True, 0, [])) = ([(True, 0, [])], [])"
    using split_records_enc [of "(True, 0, [])" "[]"] by (simp add: valid_record_def)
  then show s: "split_records (concat (map enc_record rs) @ enc_record (True, 0, [])) = (rs @ [(True, 0, [])], [])"
    using split_records_encs [of rs "enc_record (True, 0, [])"] assms by simp
  have "filter is_end rs = []" using assms by (simp add: filter_empty_conv)
  then show m: "\<not> malformed (rs @ [(True, 0, [])])" using assms by (auto simp: malformed_def is_end_def)
  show "whole_message (concat (map enc_record rs) @ enc_record (True, 0, []))"
    using s m by (simp add: whole_message_def is_end_def)
qed

lemma build_message_spec:
  assumes "length (msg_data (message inst)) = 16384" "\<forall>r\<in>set rs. valid_record r \<and> \<not> is_end r"
    "length (concat (map enc_record rs)) + 4 \<le> 16384"
  obtains d where "build_message rs inst = Some (True, inst\<lparr>message := \<lparr>msg_length = length (concat (map enc_record rs)) + 4, sent = 0,
      parsed = 0, complete = True, msg_data = d\<rparr>, new_message := True\<rparr>)"
    "take (length (concat (map enc_record rs)) + 4) d = concat (map enc_record rs) @ enc_record (True, 0, [])" "length d = 16384"
proof -
  let ?i = "NKSN_BeginMessage inst"
  have m0: "content (message ?i) = []" "msg_ok (message ?i)" "\<not> complete (message ?i)" "new_message ?i"
    using assms(1) by (simp_all add: NKSN_BeginMessage_def reset_message_def content_def msg_ok_def)
  obtain inst1 where a: "add_records rs ?i = Some (True, inst1)" "set_content ?i (concat (map enc_record rs)) inst1"
    using add_records_spec [OF m0(2,4,3) assms(2)] assms(3) m0(1) by auto
  then obtain d1 where i1: "inst1 = ?i\<lparr>message := (message ?i)\<lparr>msg_data := d1, msg_length := length (concat (map enc_record rs))\<rparr>\<rparr>"
    and c1: "content (message inst1) = concat (map enc_record rs)" "msg_ok (message inst1)" by (auto simp: set_content_def)
  have "\<not> complete (message inst1)" using i1 m0(3) by simp
  from NKSN_EndMessage_spec [OF c1(2) this] assms(3) obtain d where
    e: "NKSN_EndMessage inst1 = Some (True, inst1\<lparr>message := (message inst1)\<lparr>msg_data := d, msg_length := msg_length (message inst1) + 4, complete := True\<rparr>\<rparr>)"
    "content ((message inst1)\<lparr>msg_data := d, msg_length := msg_length (message inst1) + 4, complete := True\<rparr>) =
      content (message inst1) @ enc_record (True, 0, [])"
    "msg_ok ((message inst1)\<lparr>msg_data := d, msg_length := msg_length (message inst1) + 4, complete := True\<rparr>)"
    using c1(1) by auto
  show thesis
  proof (rule that [of d])
    show "build_message rs inst = Some (True, inst\<lparr>message := \<lparr>msg_length = length (concat (map enc_record rs)) + 4, sent = 0,
        parsed = 0, complete = True, msg_data = d\<rparr>, new_message := True\<rparr>)"
      using a(1) e(1) by (simp add: build_message_def i1 NKSN_BeginMessage_def reset_message_def)
    show "take (length (concat (map enc_record rs)) + 4) d = concat (map enc_record rs) @ enc_record (True, 0, [])"
      using e(2) c1(1) by (simp add: content_def i1)
    show "length d = 16384" using e(3) by (simp add: msg_ok_def)
  qed
qed

text \<open>
  C8.  A message built from records that fit in it is received and read back exactly: for any
  session with these bytes as its message the check of the format succeeds, whether or not the other
  end closed the connection, the message is complete, and the records are returned in their
  order, with their types, critical bits and lengths, the bodies up to the size of the buffer.
\<close>

theorem ke_message_roundtrip:
  assumes "length (msg_data (message inst)) = 16384" "\<forall>r\<in>set rs. valid_record r \<and> \<not> is_end r"
    "length (concat (map enc_record rs)) + 4 \<le> 16384"
    and "length (msg_data m) = 16384" "msg_length m \<le> 16384" "0 \<le> buf"
    and "\<And>inst'. build_message rs inst = Some (True, inst') \<Longrightarrow> content m = content (message inst')"
  shows "\<exists>inst' m' inst2'. build_message rs inst = Some (True, inst') \<and>
    check_message_format m eof = Some (True, m') \<and> complete m' \<and>
    read_records (Suc (length rs)) buf (inst2\<lparr>message := reset_message_parsing m'\<rparr>) = Some (map (truncated buf) rs, inst2')"
proof -
  obtain d where b: "build_message rs inst = Some (True, inst\<lparr>message := \<lparr>msg_length = length (concat (map enc_record rs)) + 4, sent = 0,
      parsed = 0, complete = True, msg_data = d\<rparr>, new_message := True\<rparr>)"
    and d: "take (length (concat (map enc_record rs)) + 4) d = concat (map enc_record rs) @ enc_record (True, 0, [])"
    by (rule build_message_spec [OF assms(1-3)])
  have c: "content m = concat (map enc_record rs) @ enc_record (True, 0, [])" using assms(7) [OF b] d by (simp add: content_def)
  note w = whole_message_records [OF assms(2)]
  from check_message_format_spec [OF assms(4,5), of "rs @ [(True, 0, [])]" "[]" eof] obtain p where
    f: "check_message_format m eof = Some (True, m\<lparr>parsed := p, complete := True\<rparr>)" using w c by auto
  let ?i = "inst2\<lparr>message := reset_message_parsing (m\<lparr>parsed := p, complete := True\<rparr>)\<rparr>"
  have "takeWhile (\<lambda>r. \<not> is_end r) (rs @ [(True, 0, [])]) = rs"
    using assms(2) by (simp add: takeWhile_append is_end_def)
  moreover have "todo (message ?i) = content m" by (simp add: todo_def content_def reset_message_parsing_def)
  ultimately have "pending_records ?i = rs" using w(1) c by (simp add: pending_records_def)
  moreover have "msg_ok (message ?i)" using assms(4,5) by (simp add: msg_ok_def reset_message_parsing_def)
  ultimately obtain inst2' where "read_records (Suc (length rs)) buf ?i = Some (map (truncated buf) rs, inst2')"
    using read_records_pending [of ?i buf "Suc (length rs)"] assms(6) by (auto simp: reset_message_parsing_def)
  with b f show ?thesis by auto
qed

text \<open>
  C31.  The check of a received message agrees with the reference decoder for any data of any
  length: it fails exactly on malformed messages and on incomplete ones when no more data are
  coming, it marks as complete exactly the messages of whole records with one end of message,
  at the end, and it never reads out of the message.
\<close>

theorem ke_format_check:
  assumes "length (msg_data m) = 16384" "msg_length m \<le> 16384"
  shows "\<exists>p. p \<le> msg_length m \<and> check_message_format m eof =
    Some (\<not> malformed (fst (split_records (content m))) \<and> (whole_message (content m) \<or> \<not> eof),
          m\<lparr>parsed := p, complete := whole_message (content m)\<rparr>)"
  using check_message_format_spec [OF assms, of "fst (split_records (content m))" "snd (split_records (content m))"] by simp

definition ex_message :: Message where
  "ex_message = \<lparr>msg_length = 4, sent = 0, parsed = 0, complete = False, msg_data = [128, 0, 0, 0] @ replicate 16380 0\<rparr>"

definition ex_session :: NKSN_Instance where
  "ex_session = NKSN_CreateInstance True ex_message"

lemma ex_message_data: "length (msg_data ex_message) = 16384" "content ex_message = [128, 0, 0, 0]"
  by (simp_all add: ex_message_def content_def)

text \<open>A message with a next-protocol and an AEAD-algorithm record.\<close>

definition ex_records :: "(bool \<times> nat \<times> bytes) list" where
  "ex_records = [(True, 1, [0, 0]), (False, 4, [0, 15, 0, 30])]"

definition ex_bytes :: bytes where
  "ex_bytes = [128, 1, 0, 2, 0, 0, 0, 4, 0, 4, 0, 15, 0, 30, 128, 0, 0, 0]"

definition ex_long_message :: Message where
  "ex_long_message = \<lparr>msg_length = 18, sent = 0, parsed = 0, complete = False, msg_data = ex_bytes @ replicate 16366 0\<rparr>"

lemma ex_records_enc: "concat (map enc_record ex_records) @ enc_record (True, 0, []) = ex_bytes"
  by (simp add: ex_records_def ex_bytes_def enc_record_def htons_def)

lemma ex_records_ok: "\<forall>r\<in>set ex_records. valid_record r \<and> \<not> is_end r"
    "length (concat (map enc_record ex_records)) + 4 \<le> 16384"
  by (simp_all add: ex_records_def valid_record_def is_end_def enc_record_def)

theorem ke_message_roundtrip_witness:
  "\<exists>inst' m' inst2'. build_message ex_records ex_session = Some (True, inst') \<and>
     check_message_format ex_long_message True = Some (True, m') \<and> complete m' \<and>
     read_records (Suc (length ex_records)) 3 (ex_session\<lparr>message := reset_message_parsing m'\<rparr>) =
       Some (map (truncated 3) ex_records, inst2')"
proof (rule ke_message_roundtrip [OF _ ex_records_ok])
  show a: "length (msg_data (message ex_session)) = 16384"
    by (simp add: ex_session_def NKSN_CreateInstance_def ex_message_data)
  show "content ex_long_message = content (message inst')" if "build_message ex_records ex_session = Some (True, inst')" for inst'
  proof (rule build_message_spec [OF a ex_records_ok])
    fix d
    assume "build_message ex_records ex_session = Some (True, ex_session\<lparr>message := \<lparr>msg_length = length (concat (map enc_record ex_records)) + 4,
      sent = 0, parsed = 0, complete = True, msg_data = d\<rparr>, new_message := True\<rparr>)"
      "take (length (concat (map enc_record ex_records)) + 4) d = concat (map enc_record ex_records) @ enc_record (True, 0, [])"
    with that have "content (message inst') = ex_bytes" by (auto simp: content_def ex_records_enc)
    moreover have "content ex_long_message = ex_bytes" by (simp add: content_def ex_long_message_def ex_bytes_def)
    ultimately show ?thesis by simp
  qed
qed (simp_all add: ex_long_message_def ex_bytes_def)

theorem ke_format_check_witness:
  "\<exists>p. check_message_format ex_message True = Some (True, ex_message\<lparr>parsed := p, complete := True\<rparr>)"
proof -
  have s: "split_records [128, 0, 0, 0] = ([(True, 0, [])], [])"
    by (simp add: split_records.simps(1) ntohs_def bit_simps)
  then have "whole_message [128, 0, 0, 0]" by (simp add: whole_message_def malformed_def is_end_def)
  moreover have "msg_length ex_message \<le> 16384" by (simp add: ex_message_def)
  ultimately show ?thesis
    using ke_format_check [OF ex_message_data(1), of True] s by (auto simp: ex_message_data(2) malformed_def is_end_def)
qed

section \<open>The state machine of a session\<close>

text \<open>A message that can be sent.\<close>

definition ready :: "NKSN_Instance \<Rightarrow> bool" where
  "ready inst \<longleftrightarrow> new_message inst \<and> complete (message inst) \<and> sent (message inst) < msg_length (message inst)"

text \<open>
  The invariant: a stopped session holds no socket, TLS session or timeout; a running one has
  them and waits for one direction of its socket; a client has its request ready until
  it is sent, a server its response.
\<close>

definition session_ok :: "NKSN_Instance \<Rightarrow> bool" where
  "session_ok inst \<longleftrightarrow> msg_ok (message inst) \<and>
     (if ke_state inst = KE_STOPPED
      then sock_fd inst = INVALID_SOCK_FD \<and> \<not> tls_session inst \<and> \<not> timeout_pending inst \<and> \<not> sel_input inst \<and> \<not> sel_output inst
      else tls_session inst \<and> sel_input inst \<noteq> sel_output inst \<and>
        (ke_state inst = KE_WAIT_CONNECT \<longrightarrow> \<not> server inst) \<and>
        (ke_state inst \<in> {KE_WAIT_CONNECT, KE_HANDSHAKE, KE_SEND} \<and> \<not> server inst \<or> ke_state inst = KE_SEND \<longrightarrow> ready inst))"

text \<open>The order in which a session goes through the states.\<close>

definition rank :: "NKSN_Instance \<Rightarrow> nat" where
  "rank inst = (case ke_state inst of
     KE_WAIT_CONNECT \<Rightarrow> 0 | KE_HANDSHAKE \<Rightarrow> 1
   | KE_SEND \<Rightarrow> (if server inst then 3 else 2) | KE_RECEIVE \<Rightarrow> (if server inst then 2 else 3)
   | KE_SHUTDOWN \<Rightarrow> 4 | KE_STOPPED \<Rightarrow> 5)"

text \<open>\<open>TLS_Receive\<close> returns at most as many bytes as there is room for; it is called at least once.\<close>

fun tls_receive_ok :: "nat \<Rightarrow> (TLS_Status \<times> bytes) list \<Rightarrow> bool" where
  "tls_receive_ok room [] = False"
| "tls_receive_ok room ((s, bs) # rest) =
     (s = TLS_SUCCESS \<longrightarrow> length bs \<le> room \<and> (rest = [] \<or> tls_receive_ok (room - length bs) rest))"

lemma receive_loop_ok:
  assumes "msg_ok m" "tls_receive_ok (length (msg_data m) - msg_length m) rs"
  shows "\<exists>out m'. receive_loop m rs = Some (out, m') \<and> msg_ok m'"
  using assms
proof (induction rs arbitrary: m)
  case Nil
  then show ?case by simp
next
  case (Cons x rs)
  obtain s bs where x: "x = (s, bs)" by (cases x)
  show ?case
  proof (cases "msg_length m < length (msg_data m) \<and> s = TLS_SUCCESS")
    case True
    let ?m = "m\<lparr>msg_data := memcpy (msg_data m) (msg_length m) bs, msg_length := msg_length m + length bs\<rparr>"
    from True Cons.prems have fit: "msg_length m + length bs \<le> 16384" "length bs \<le> length (msg_data m) - msg_length m"
      by (auto simp: x msg_ok_def)
    have ok: "msg_ok ?m" using content_append(2) [OF Cons.prems(1) fit(1)] .
    show ?thesis
    proof (cases "rs = []")
      case True
      with \<open>msg_length m < length (msg_data m) \<and> s = TLS_SUCCESS\<close> fit ok show ?thesis by (simp add: x)
    next
      case False
      with True Cons.prems(2) fit have "tls_receive_ok (length (msg_data ?m) - msg_length ?m) rs"
        using Cons.prems(1) by (simp add: x msg_ok_def)
      from Cons.IH [OF ok this] True fit False show ?thesis by (simp add: x Let_def)
    qed
  next
    case False
    with Cons.prems(1) show ?thesis by (cases s) (auto simp: x)
  qed
qed

lemma stop_session_ok: "msg_ok (message inst) \<Longrightarrow> ke_state inst = KE_STOPPED \<longrightarrow> session_ok inst \<Longrightarrow> session_ok (stop_session inst)"
  by (auto simp: stop_session_def session_ok_def)

lemma stop_session_rank: "rank (stop_session inst) = 5 \<and> server (stop_session inst) = server inst"
  by (simp add: stop_session_def rank_def)

lemma rank_le: "rank inst \<le> 5"
  by (simp add: rank_def split: KeState.splits)

text \<open>
  After an event either no message was received and the session is as specified, or a whole message
  was received and is to be handled.
\<close>

definition received :: "NKSN_Instance \<Rightarrow> bool" where
  "received inst \<longleftrightarrow> msg_ok (message inst) \<and> complete (message inst) \<and> whole_message (content (message inst)) \<and>
     tls_session inst \<and> sel_input inst \<noteq> sel_output inst \<and> ke_state inst = (if server inst then KE_SEND else KE_SHUTDOWN)"

lemma handle_event_ok:
  assumes ok: "session_ok inst" and run: "ke_state inst \<noteq> KE_STOPPED"
    and tls: "tls_receive_ok (16384 - msg_length (message inst)) (receive tls)"
  shows "case handle_event inst output tls of None \<Rightarrow> False
    | Some (got, inst') \<Rightarrow> server inst' = server inst \<and> rank inst \<le> rank inst' \<and> (if got then received inst' else session_ok inst')"
proof (cases "ke_state inst")
  case KE_WAIT_CONNECT
  have m: "msg_ok (message inst)" using ok by (simp add: session_ok_def)
  have s: "session_ok (stop_session inst)" using m KE_WAIT_CONNECT by (intro stop_session_ok) simp_all
  let ?i = "(set_input_output inst (\<not> server inst))\<lparr>ke_state := KE_HANDSHAKE\<rparr>"
  have h: "session_ok ?i" "rank ?i = 1" "server ?i = server inst"
    using ok KE_WAIT_CONNECT by (simp_all add: session_ok_def set_input_output_def rank_def ready_def)
  have r: "rank inst = 0" using KE_WAIT_CONNECT by (simp add: rank_def)
  show ?thesis
  proof (cases "output \<and> so_error tls = 0")
    case True
    with KE_WAIT_CONNECT h r show ?thesis by (simp add: handle_event_def change_state_def)
  next
    case False
    with KE_WAIT_CONNECT ok s r stop_session_rank [of inst] show ?thesis by (cases "output") (simp_all add: handle_event_def)
  qed
next
  case KE_HANDSHAKE
  have m: "msg_ok (message inst)" using ok by (simp add: session_ok_def)
  have s: "session_ok ((stop_session inst)\<lparr>retry_factor := 10\<rparr>)" "session_ok (stop_session inst)"
    "rank ((stop_session inst)\<lparr>retry_factor := 10\<rparr>) = 5"
    using m KE_HANDSHAKE by (simp_all add: stop_session_def session_ok_def rank_def)
  from KE_HANDSHAKE ok s stop_session_rank [of inst] rank_le [of inst] show ?thesis
    by (cases "handshake tls")
      (auto simp: handle_event_def change_state_def set_input_output_def session_ok_def rank_def ready_def Let_def)
next
  case KE_SEND
  then have rd: "ready inst" and m: "msg_ok (message inst)" using ok by (simp_all add: session_ok_def)
  have s: "session_ok (stop_session inst)" using m KE_SEND by (intro stop_session_ok) simp_all
  obtain st r where sd: "send tls = (st, r)" by (cases "send tls")
  have a: "new_message inst \<and> complete (message inst)" "msg_length (message inst) \<le> length (msg_data (message inst)) \<and> msg_length (message inst) > sent (message inst)"
    using rd m by (simp_all add: ready_def msg_ok_def)
  show ?thesis
  proof (cases "st = TLS_SUCCESS")
    case True
    with KE_SEND ok a sd show ?thesis
      by (auto simp: handle_event_def Let_def change_state_def set_input_output_def session_ok_def rank_def ready_def
          msg_ok_def reset_message_def)
  next
    case False
    with KE_SEND ok a sd s stop_session_rank [of inst] rank_le [of inst] show ?thesis
      by (cases st) (simp_all add: handle_event_def Let_def)
  qed
next
  case KE_RECEIVE
  have m: "msg_ok (message inst)" using ok by (simp add: session_ok_def)
  have sel: "tls_session inst" "sel_input inst \<noteq> sel_output inst" using ok KE_RECEIVE by (simp_all add: session_ok_def)
  have "length (msg_data (message inst)) = 16384" using m by (simp add: msg_ok_def)
  with tls have "tls_receive_ok (length (msg_data (message inst)) - msg_length (message inst)) (receive tls)" by simp
  from receive_loop_ok [OF m this] obtain out m1 where r: "receive_loop (message inst) (receive tls) = Some (out, m1)" "msg_ok m1" by blast
  have stop: "session_ok (stop_session (inst\<lparr>message := m2\<rparr>))" "rank (stop_session (inst\<lparr>message := m2\<rparr>)) = 5" if "msg_ok m2" for m2
    using that KE_RECEIVE by (simp_all add: stop_session_def session_ok_def rank_def)
  have wait: "session_ok (inst\<lparr>message := m2\<rparr>)" "rank (inst\<lparr>message := m2\<rparr>) = rank inst" if "msg_ok m2" for m2
    using that KE_RECEIVE ok by (simp_all add: session_ok_def rank_def)
  show ?thesis
  proof (cases out)
    case Recv_Stop
    with KE_RECEIVE r stop [OF r(2)] rank_le [of inst] stop_session_rank [of "inst\<lparr>message := m1\<rparr>"] show ?thesis by (simp add: handle_event_def)
  next
    case Recv_Wait
    with KE_RECEIVE r wait [OF r(2)] show ?thesis by (simp add: handle_event_def)
  next
    case (Recv_Data k)
    let ?w = "whole_message (content m1)"
    obtain p where p: "p \<le> msg_length m1" "check_message_format m1 (k = 0) =
        Some (\<not> malformed (fst (split_records (content m1))) \<and> (?w \<or> k \<noteq> 0), m1\<lparr>parsed := p, complete := ?w\<rparr>)"
      using check_message_format_spec [of m1 "fst (split_records (content m1))" "snd (split_records (content m1))" "k = 0"] r(2)
      by (auto simp: msg_ok_def)
    let ?m = "m1\<lparr>parsed := p, complete := ?w\<rparr>"
    have ok2: "msg_ok ?m" "content ?m = content m1" using r(2) p(1) by (simp_all add: msg_ok_def content_def)
    show ?thesis
    proof (cases "\<not> malformed (fst (split_records (content m1))) \<and> (?w \<or> k \<noteq> 0)")
      case False
      then have "check_message_format m1 (k = 0) = Some (False, ?m)" using p(2) by simp
      then show ?thesis using KE_RECEIVE r Recv_Data stop [OF ok2(1)] rank_le [of inst] stop_session_rank [of "inst\<lparr>message := ?m\<rparr>"]
        by (simp add: handle_event_def)
    next
      case True
      then have "check_message_format m1 (k = 0) = Some (True, ?m)" using p(2) by simp
      then have "handle_event inst output tls = (if \<not> ?w then Some (False, inst\<lparr>message := ?m\<rparr>)
          else map_option (Pair True) (change_state (inst\<lparr>message := ?m\<rparr>) (if server inst then KE_SEND else KE_SHUTDOWN)))"
        using KE_RECEIVE r Recv_Data by (simp add: handle_event_def)
      with wait [OF ok2(1)] ok2 sel KE_RECEIVE show ?thesis
        by (auto simp: change_state_def set_input_output_def received_def rank_def)
    qed
  qed
next
  case KE_SHUTDOWN
  have m: "msg_ok (message inst)" using ok by (simp add: session_ok_def)
  have s: "session_ok (stop_session inst)" using m KE_SHUTDOWN by (intro stop_session_ok) simp_all
  from KE_SHUTDOWN ok s stop_session_rank [of inst] rank_le [of inst] show ?thesis
    by (cases "shutdown tls") (auto simp: handle_event_def set_input_output_def session_ok_def rank_def)
next
  case KE_STOPPED
  with run show ?thesis by simp
qed

section \<open>The interface to the handlers of messages\<close>

text \<open>
  The steps of a session with a handler of its messages: events of its socket, with any results of
  TLS that respect the room for the data, and its timeout.
\<close>

inductive session_step :: "(NKSN_Instance \<Rightarrow> (bool \<times> NKSN_Instance) option) \<Rightarrow> NKSN_Instance \<Rightarrow> NKSN_Instance \<Rightarrow> bool" for handler where
  socket: "ke_state inst \<noteq> KE_STOPPED \<Longrightarrow> tls_receive_ok (16384 - msg_length (message inst)) (receive tls) \<Longrightarrow>
     read_write_socket handler inst output tls = Some inst' \<Longrightarrow> session_step handler inst inst'"
| timeout: "session_step handler inst (session_timeout inst)"

inductive_cases session_stepE: "session_step handler inst inst'"

text \<open>
  What a session relies on: on a received message a handler returns, changes only the message, and
  when it accepts the message on a server, it leaves a response to send.
\<close>

locale message_handler =
  fixes handler :: "NKSN_Instance \<Rightarrow> (bool \<times> NKSN_Instance) option"
    and role :: bool
  assumes handles: "received inst \<Longrightarrow> server inst = role \<Longrightarrow> parsed (message inst) = 0 \<Longrightarrow>
    \<exists>ok m new. handler inst = Some (ok, inst\<lparr>message := m, new_message := new\<rparr>) \<and> msg_ok m \<and>
      (ok \<and> role \<longrightarrow> new \<and> complete m \<and> sent m < msg_length m)"
begin

lemma socket_event_ok:
  assumes "session_ok inst" "server inst = role" "ke_state inst \<noteq> KE_STOPPED"
    "tls_receive_ok (16384 - msg_length (message inst)) (receive tls)"
  shows "\<exists>inst'. read_write_socket handler inst output tls = Some inst' \<and> session_ok inst' \<and> server inst' = role \<and> rank inst \<le> rank inst'"
proof -
  obtain got inst1 where e: "handle_event inst output tls = Some (got, inst1)" "server inst1 = server inst" "rank inst \<le> rank inst1"
    "if got then received inst1 else session_ok inst1"
    using handle_event_ok [OF assms(1,3,4), of "output"] by (auto split: option.splits)
  show ?thesis
  proof (cases got)
    case False
    with e assms(2) show ?thesis by (simp add: read_write_socket_def)
  next
    case True
    let ?i = "inst1\<lparr>message := reset_message_parsing (message inst1)\<rparr>"
    have r: "received inst1" using e(4) True by simp
    then have "received ?i" by (simp add: received_def reset_message_parsing_def msg_ok_def content_def)
    from handles [OF this] e(2) assms(2) obtain ok m new where
      h: "handler ?i = Some (ok, ?i\<lparr>message := m, new_message := new\<rparr>)" "msg_ok m" "ok \<and> role \<longrightarrow> new \<and> complete m \<and> sent m < msg_length m"
      by (auto simp: reset_message_parsing_def)
    let ?j = "?i\<lparr>message := m, new_message := new\<rparr>"
    have st: "ke_state ?j \<noteq> KE_STOPPED" "rank ?j = rank inst1" using r by (simp_all add: received_def rank_def split: if_splits)
    have "session_ok ?j" if ok using r h(2,3) that e(2) assms(2)
      by (cases "server inst1") (simp_all add: received_def session_ok_def ready_def)
    moreover have "session_ok (stop_session ?j)" using h(2) st(1) by (intro stop_session_ok) simp_all
    ultimately show ?thesis
      using h(1) e st(2) True stop_session_rank [of ?j] rank_le [of inst] assms(2)
      by (cases ok) (simp_all add: read_write_socket_def)
  qed
qed

lemma session_step_ok:
  assumes "session_step handler inst inst'" "session_ok inst" "server inst = role"
  shows "session_ok inst' \<and> server inst' = role \<and> rank inst \<le> rank inst'"
  using assms(1)
proof (rule session_stepE)
  fix tls and out :: bool
  assume a: "ke_state inst \<noteq> KE_STOPPED" "tls_receive_ok (16384 - msg_length (message inst)) (receive tls)"
    "read_write_socket handler inst out tls = Some inst'"
  from socket_event_ok [OF assms(2,3) a(1,2), of out] a(3) show ?thesis by simp
next
  assume t: "inst' = session_timeout inst"
  have "session_ok inst'" using assms(2) unfolding t session_timeout_def by (auto simp: stop_session_def session_ok_def)
  moreover have "rank inst' = 5" "server inst' = role" using stop_session_rank assms(3) by (simp_all add: t session_timeout_def)
  ultimately show ?thesis using rank_le [of inst] by simp
qed

lemma session_reach_ok:
  assumes "(session_step handler)\<^sup>*\<^sup>* inst inst'" "session_ok inst" "server inst = role"
  shows "session_ok inst' \<and> server inst' = role \<and> rank inst \<le> rank inst'"
  using assms(1)
proof (induction rule: rtranclp_induct)
  case base
  then show ?case using assms by simp
next
  case (step y z)
  then have "session_ok y" "server y = role" "rank inst \<le> rank y" by simp_all
  with session_step_ok [OF step(2)] show ?case by simp
qed

end

text \<open>A session that was just started, on a client with its request.\<close>

lemma NKSN_StartSession_ok:
  assumes "ke_state inst = KE_STOPPED" "length (msg_data (message inst)) = 16384" "NKSN_StartSession inst fd True = Some (ok, inst')"
  shows "ok" "server inst' = server inst" "server inst \<Longrightarrow> session_ok inst'"
    "length (msg_data (message inst')) = 16384"
    "\<not> server inst \<Longrightarrow> msg_ok m \<Longrightarrow> complete m \<Longrightarrow> sent m < msg_length m \<Longrightarrow> session_ok (inst'\<lparr>message := m, new_message := True\<rparr>)"
  using assms
  by (cases "server inst"; auto simp: NKSN_StartSession_def Let_def change_state_def set_input_output_def session_ok_def
      msg_ok_def reset_message_def ready_def)+

end
