(* ===== verification/NtsKe.thy ===== *)
theory NtsKe
  imports NtsKeSession Addressing Siv
begin

text \<open>
  The client and the server of NTS-KE: \<open>nts_ke_client.c\<close> and the message handling, the server keys and
  the cookies of \<open>nts_ke_server.c\<close>.  Parameters: \<open>aeads\<close> is the configured list of algorithms
  (\<open>CNF_GetNtsAeads\<close>), \<open>gcm\<close> whether AES-128-GCM-SIV is available, \<open>export\<close> the key exporter of the TLS
  session, random bytes are arguments.  A key is the list of its bytes.
\<close>

section \<open>Keys\<close>

record NKE_Context =
  ctx_algorithm :: nat
  c2s :: bytes
  s2c :: bytes

type_synonym exporter = "bytes \<Rightarrow> nat \<Rightarrow> bytes option"

text \<open>The context of the exporter is the protocol, the algorithm, and the direction.\<close>

definition NKSN_GetKeys :: "exporter \<Rightarrow> bool \<Rightarrow> NKSN_Instance \<Rightarrow> nat \<Rightarrow> nat \<Rightarrow> nat \<Rightarrow> (bytes \<times> bytes) option" where
  "NKSN_GetKeys export gcm inst algorithm exporter_algorithm next_protocol =
     (let len = SIV_GetKeyLength gcm algorithm;
          context = (\<lambda>is_s2c. htons (of_nat next_protocol) @ htons (of_nat exporter_algorithm) @ [is_s2c]) in
      if \<not> tls_session inst then None
      else if len \<le> 0 \<or> len > SIV_MAX_KEY_LENGTH then None
      else Option.bind (export (context 0) len) (\<lambda>k1. Option.bind (export (context 1) len) (\<lambda>k2. Some (k1, k2))))"

section \<open>Reading the records of a message\<close>

text \<open>
  The loop with which both sides process the records of a message: until an error, and as long as
  there is a record.  \<open>data\<close> has room for 256 bytes.
\<close>

abbreviation (input) NKE_MAX_RECORD_BODY_LENGTH :: nat where "NKE_MAX_RECORD_BODY_LENGTH \<equiv> 256"

function record_loop :: "('s \<Rightarrow> bool) \<Rightarrow> ('s \<Rightarrow> ke_record \<Rightarrow> 's) \<Rightarrow> 's \<Rightarrow> NKSN_Instance \<Rightarrow> ('s \<times> NKSN_Instance) option" where
  "record_loop failed body s inst =
     (if failed s then Some (s, inst)
      else case NKSN_GetRecord inst (int NKE_MAX_RECORD_BODY_LENGTH) of
        None \<Rightarrow> None
      | Some (None, inst) \<Rightarrow> Some (s, inst)
      | Some (Some r, inst) \<Rightarrow> record_loop failed body (body s r) inst)"
  by pat_completeness auto
termination
  by (relation "measure (\<lambda>(failed, body, s, inst). msg_length (message inst) - parsed (message inst))")
    (auto simp: NKSN_GetRecord_def ke_get_record_def Let_def split: if_splits option.splits)

declare record_loop.simps [simp del]

text \<open>The 16-bit values of a body.\<close>

fun values16 :: "bytes \<Rightarrow> nat list" where
  "values16 (a # b # bs) = unat (ntohs a b) # values16 bs"
| "values16 _ = []"

section \<open>The client\<close>

abbreviation (input) NKE_NEXT_PROTOCOL_NTPV4 :: nat where "NKE_NEXT_PROTOCOL_NTPV4 \<equiv> 0"
abbreviation (input) MAX_AEAD_ALGORITHMS :: nat where "MAX_AEAD_ALGORITHMS \<equiv> 4"
abbreviation (input) NKE_MAX_COOKIES :: nat where "NKE_MAX_COOKIES \<equiv> 8"
abbreviation (input) NKE_MAX_COOKIE_LENGTH :: nat where "NKE_MAX_COOKIE_LENGTH \<equiv> 256"

record NKC_Instance =
  address :: IPAddr
  session :: NKSN_Instance
  got_response :: bool
  resolving_name :: bool
  compliant_128gcm :: bool
  nke_context :: NKE_Context
  alt_context :: NKE_Context
  cookies :: "bytes list"
  server_name :: bytes
  ntp_ip :: IPAddr
  ntp_port :: nat

text \<open>The loop that collects the supported algorithms of the configuration.\<close>

fun collect_aeads :: "bool \<Rightarrow> nat list \<Rightarrow> nat \<Rightarrow> nat list" where
  "collect_aeads gcm [] n = []"
| "collect_aeads gcm (a # aeads) n =
     (if n < MAX_AEAD_ALGORITHMS
      then if SIV_GetKeyLength gcm a > 0 then a # collect_aeads gcm aeads (n + 1) else collect_aeads gcm aeads n
      else [])"

definition prepare_request :: "bool \<Rightarrow> nat list \<Rightarrow> NKSN_Instance \<Rightarrow> (bool \<times> NKSN_Instance) option" where
  "prepare_request gcm aeads sess =
     (let data = collect_aeads gcm aeads 0 in
      case NKSN_AddRecord (NKSN_BeginMessage sess) True NKE_RECORD_NEXT_PROTOCOL (htons (of_nat NKE_NEXT_PROTOCOL_NTPV4)) of
        None \<Rightarrow> None
      | Some (False, sess) \<Rightarrow> Some (False, sess)
      | Some (True, sess) \<Rightarrow>
          (case NKSN_AddRecord sess True NKE_RECORD_AEAD_ALGORITHM (concat (map (\<lambda>a. htons (of_nat a)) data)) of
             None \<Rightarrow> None
           | Some (False, sess) \<Rightarrow> Some (False, sess)
           | Some (True, sess) \<Rightarrow>
               (case (if \<exists>a\<in>set data. htons (of_nat a) = htons (of_nat AEAD_AES_128_GCM_SIV)
                      then NKSN_AddRecord sess False NKE_RECORD_COMPLIANT_128GCM_EXPORT []
                      else Some (True, sess)) of
                  None \<Rightarrow> None
                | Some (False, sess) \<Rightarrow> Some (False, sess)
                | Some (True, sess) \<Rightarrow> NKSN_EndMessage sess)))"

text \<open>The variables of \<open>process_response\<close> that are kept between the records; \<open>None\<close> is a negative value.\<close>

record Response =
  rs_error :: bool
  rs_next_protocol :: "nat option"
  rs_aead :: "nat option"
  rs_nkc :: NKC_Instance

definition isgraph :: "u8 \<Rightarrow> bool" where
  "isgraph c = (0x21 \<le> c \<and> c \<le> 0x7e)"

definition response_record :: "bool \<Rightarrow> nat list \<Rightarrow> Response \<Rightarrow> ke_record \<Rightarrow> Response" where
  "response_record gcm aeads s r = (case r of (critical, ty, len, data) \<Rightarrow>
     if len > NKE_MAX_RECORD_BODY_LENGTH then if critical then s\<lparr>rs_error := True\<rparr> else s
     else if ty = NKE_RECORD_NEXT_PROTOCOL then
       if \<not> critical \<or> len \<noteq> 2 \<or> values16 data ! 0 \<noteq> NKE_NEXT_PROTOCOL_NTPV4 then s\<lparr>rs_error := True\<rparr>
       else s\<lparr>rs_next_protocol := Some NKE_NEXT_PROTOCOL_NTPV4\<rparr>
     else if ty = NKE_RECORD_AEAD_ALGORITHM then
       if len \<noteq> 2 then s\<lparr>rs_error := True\<rparr>
       else
         let a = values16 data ! 0;
             s = (if a \<in> set aeads \<and> SIV_GetKeyLength gcm a > 0
                  then s\<lparr>rs_aead := Some a, rs_nkc := (rs_nkc s)\<lparr>nke_context := (nke_context (rs_nkc s))\<lparr>ctx_algorithm := a\<rparr>\<rparr>\<rparr>
                  else s) in
         if rs_aead s = None then s\<lparr>rs_error := True\<rparr> else s
     else if ty = NKE_RECORD_COMPLIANT_128GCM_EXPORT then
       if len \<noteq> 0 then s\<lparr>rs_error := True\<rparr> else s\<lparr>rs_nkc := (rs_nkc s)\<lparr>compliant_128gcm := True\<rparr>\<rparr>
     else if ty = NKE_RECORD_ERROR \<or> ty = NKE_RECORD_WARNING then s\<lparr>rs_error := True\<rparr>
     else if ty = NKE_RECORD_COOKIE then
       if len < 1 \<or> len > NKE_MAX_COOKIE_LENGTH \<or> len mod 4 \<noteq> 0 \<or> length (cookies (rs_nkc s)) \<ge> NKE_MAX_COOKIES then s
       else s\<lparr>rs_nkc := (rs_nkc s)\<lparr>cookies := cookies (rs_nkc s) @ [data]\<rparr>\<rparr>
     else if ty = NKE_RECORD_NTPV4_SERVER_NEGOTIATION then
       if len < 1 \<or> len \<ge> NKE_MAX_RECORD_BODY_LENGTH + 2 then s\<lparr>rs_error := True\<rparr>
       else
         let s = s\<lparr>rs_nkc := (rs_nkc s)\<lparr>server_name := data\<rparr>\<rparr> in
         if \<not> list_all isgraph data then s\<lparr>rs_error := True\<rparr> else s
     else if ty = NKE_RECORD_NTPV4_PORT_NEGOTIATION then
       if len \<noteq> 2 then s\<lparr>rs_error := True\<rparr>
       else s\<lparr>rs_nkc := (rs_nkc s)\<lparr>ntp_port := values16 data ! 0\<rparr>\<rparr>
     else if critical then s\<lparr>rs_error := True\<rparr> else s)"

definition process_response :: "bool \<Rightarrow> nat list \<Rightarrow> NKC_Instance \<Rightarrow> (bool \<times> NKC_Instance) option" where
  "process_response gcm aeads inst =
     (let inst = inst\<lparr>compliant_128gcm := False, alt_context := (alt_context inst)\<lparr>ctx_algorithm := AEAD_SIV_INVALID\<rparr>,
                      cookies := [], ntp_ip := IPADDR_UNSPEC, ntp_port := 0, server_name := []\<rparr> in
      case record_loop rs_error (response_record gcm aeads)
             \<lparr>rs_error = False, rs_next_protocol = None, rs_aead = None, rs_nkc = inst\<rparr> (session inst) of
        None \<Rightarrow> None
      | Some (s, sess) \<Rightarrow>
          Some (\<not> (rs_error s \<or> cookies (rs_nkc s) = [] \<or> rs_next_protocol s \<noteq> Some NKE_NEXT_PROTOCOL_NTPV4 \<or> rs_aead s = None),
                (rs_nkc s)\<lparr>session := sess\<rparr>))"

text \<open>
  \<open>string_to_ip\<close> is \<open>UTI_StringToIP\<close>.  A name that is not an address is passed to the asynchronous
  resolver with a trailing dot.
\<close>

definition client_handle_message :: "exporter \<Rightarrow> bool \<Rightarrow> nat list \<Rightarrow> (bytes \<Rightarrow> IPAddr option) \<Rightarrow> NKC_Instance \<Rightarrow> (bool \<times> NKC_Instance) option" where
  "client_handle_message export gcm aeads string_to_ip inst =
     (case process_response gcm aeads inst of
        None \<Rightarrow> None
      | Some (False, inst) \<Rightarrow> Some (False, inst)
      | Some (True, inst) \<Rightarrow>
          let algorithm = ctx_algorithm (nke_context inst);
              incompatible = (algorithm = AEAD_AES_128_GCM_SIV \<and> \<not> compliant_128gcm inst);
              inst = (if incompatible then inst\<lparr>alt_context := (alt_context inst)\<lparr>ctx_algorithm := algorithm\<rparr>\<rparr> else inst);
              alt_keys = (if incompatible then NKSN_GetKeys export gcm (session inst) algorithm algorithm NKE_NEXT_PROTOCOL_NTPV4
                          else Some (c2s (alt_context inst), s2c (alt_context inst)));
              exporter_algorithm = (if incompatible then AEAD_AES_SIV_CMAC_256 else algorithm) in
          case alt_keys of
            None \<Rightarrow> Some (False, inst)
          | Some (k1, k2) \<Rightarrow>
              let inst = inst\<lparr>alt_context := (alt_context inst)\<lparr>c2s := k1, s2c := k2\<rparr>\<rparr> in
              (case NKSN_GetKeys export gcm (session inst) algorithm exporter_algorithm NKE_NEXT_PROTOCOL_NTPV4 of
                 None \<Rightarrow> Some (False, inst)
               | Some (k1, k2) \<Rightarrow>
                   let inst = inst\<lparr>nke_context := (nke_context inst)\<lparr>c2s := k1, s2c := k2\<rparr>\<rparr> in
                   if server_name inst = [] then Some (True, inst\<lparr>got_response := True\<rparr>)
                   else if resolving_name inst then Some (False, inst)
                   else case string_to_ip (server_name inst) of
                     Some ip \<Rightarrow> Some (True, inst\<lparr>ntp_ip := ip, got_response := True\<rparr>)
                   | None \<Rightarrow>
                       if length (server_name inst) + 1 \<ge> NKE_MAX_RECORD_BODY_LENGTH + 2 then Some (False, inst)
                       else Some (True, inst\<lparr>server_name := (if last (server_name inst) = 0x2e then server_name inst
                                                             else server_name inst @ [0x2e]),
                                             resolving_name := True, got_response := True\<rparr>)))"

definition NKC_IsActive :: "NKC_Instance \<Rightarrow> bool" where
  "NKC_IsActive inst = (\<not> NKSN_IsStopped (session inst) \<or> resolving_name inst)"

text \<open>\<open>fd\<close> is the socket of the new connection or negative, \<open>tls_created\<close> whether TLS could be started.\<close>

definition NKC_Start :: "bool \<Rightarrow> nat list \<Rightarrow> bool \<Rightarrow> int \<Rightarrow> bool \<Rightarrow> NKC_Instance \<Rightarrow> (bool \<times> NKC_Instance) option" where
  "NKC_Start gcm aeads credentials fd tls_created inst =
     (if NKC_IsActive inst then None
      else
        let inst = inst\<lparr>got_response := False\<rparr> in
        if \<not> credentials then Some (False, inst)
        else if SIV_GetKeyLength gcm AEAD_AES_SIV_CMAC_256 \<le> 0 then Some (False, inst)
        else if fd < 0 then Some (False, inst)
        else case NKSN_StartSession (session inst) fd tls_created of
          None \<Rightarrow> None
        | Some (False, sess) \<Rightarrow> Some (False, inst\<lparr>session := sess\<rparr>)
        | Some (True, sess) \<Rightarrow>
            (case prepare_request gcm aeads sess of
               None \<Rightarrow> None
             | Some (False, sess) \<Rightarrow> Some (False, inst\<lparr>session := NKSN_StopSession sess\<rparr>)
             | Some (True, sess) \<Rightarrow> Some (True, inst\<lparr>session := sess\<rparr>)))"

definition NKC_GetNtsData :: "NKC_Instance \<Rightarrow> nat \<Rightarrow> (NKE_Context \<times> NKE_Context \<times> bytes list \<times> IPAddr \<times> nat) option" where
  "NKC_GetNtsData inst max_cookies =
     (if \<not> got_response inst \<or> resolving_name inst then None
      else Some (nke_context inst, alt_context inst, take max_cookies (cookies inst), ntp_ip inst, ntp_port inst))"

text \<open>The handler of the resolver: \<open>addrs\<close> are the addresses, none if the resolving failed.\<close>

definition name_resolve_handler :: "IPAddr list \<Rightarrow> NKC_Instance \<Rightarrow> NKC_Instance" where
  "name_resolve_handler addrs inst =
     (let inst = inst\<lparr>resolving_name := False\<rparr> in
      if addrs = [] then inst\<lparr>got_response := False\<rparr>
      else inst\<lparr>ntp_ip := (case List.find (\<lambda>a. ip_family a = ip_family (address inst)) addrs of
                            None \<Rightarrow> addrs ! 0 | Some a \<Rightarrow> a)\<rparr>)"

section \<open>The keys and cookies of the server\<close>

text \<open>
  The SIV instance of a key has its key set.  There are four keys; the index of a key is in the lowest
  bits of its ID.
\<close>

abbreviation (input) MAX_SERVER_KEYS :: nat where "MAX_SERVER_KEYS \<equiv> 4"
abbreviation (input) FUTURE_KEYS :: nat where "FUTURE_KEYS \<equiv> 1"
abbreviation (input) MAX_COOKIE_NONCE_LENGTH :: nat where "MAX_COOKIE_NONCE_LENGTH \<equiv> 16"

record ServerKey =
  key_id :: u32
  sk_siv :: SIV_Instance
  nonce_length :: nat

record NKS_State =
  nks_initialised :: bool
  server_keys :: "ServerKey list"
  current_server_key :: nat

text \<open>A \<open>LOG_FATAL\<close> when the key cannot be set.\<close>

definition update_key_siv :: "bool \<Rightarrow> nat \<Rightarrow> bytes \<Rightarrow> u32 \<Rightarrow> ServerKey option" where
  "update_key_siv gcm algorithm key i =
     (case SIV_CreateInstance gcm algorithm of
        None \<Rightarrow> None
      | Some siv \<Rightarrow> map_option (\<lambda>siv. \<lparr>key_id = i, sk_siv = siv, nonce_length = min (SIV_GetMaxNonceLength siv) MAX_COOKIE_NONCE_LENGTH\<rparr>)
                       (SIV_SetKey gcm siv (take (SIV_GetKeyLength gcm algorithm) key)))"

text \<open>\<open>rnd_key\<close> and \<open>rnd_id\<close> are the random bytes for the key and the ID.\<close>

definition generate_key :: "bool \<Rightarrow> bytes \<Rightarrow> u32 \<Rightarrow> nat \<Rightarrow> NKS_State \<Rightarrow> NKS_State option" where
  "generate_key gcm rnd_key rnd_id index st =
     (if \<not> index < MAX_SERVER_KEYS \<or> index \<ge> length (server_keys st) then None
      else
        let algorithm = (if SIV_GetKeyLength gcm AEAD_AES_128_GCM_SIV > 0 then AEAD_AES_128_GCM_SIV else AEAD_AES_SIV_CMAC_256) in
        if SIV_GetKeyLength gcm algorithm > SIV_MAX_KEY_LENGTH then None
        else map_option (\<lambda>k. st\<lparr>server_keys := (server_keys st)[index := k]\<rparr>)
               (update_key_siv gcm algorithm rnd_key ((rnd_id AND NOT 3) OR of_nat index)))"

definition key_timeout :: "bool \<Rightarrow> bytes \<Rightarrow> u32 \<Rightarrow> NKS_State \<Rightarrow> NKS_State option" where
  "key_timeout gcm rnd_key rnd_id st =
     (let st = st\<lparr>current_server_key := (current_server_key st + 1) mod MAX_SERVER_KEYS\<rparr> in
      generate_key gcm rnd_key rnd_id ((current_server_key st + FUTURE_KEYS) mod MAX_SERVER_KEYS) st)"

text \<open>
  The keys of \<open>NKS_Initialise\<close>; \<open>rnds\<close> are the random bytes of the four keys and IDs.
\<close>

fun generate_keys :: "bool \<Rightarrow> (bytes \<times> u32) list \<Rightarrow> nat \<Rightarrow> NKS_State \<Rightarrow> NKS_State option" where
  "generate_keys gcm [] index st = Some st"
| "generate_keys gcm ((rnd_key, rnd_id) # rnds) index st =
     Option.bind (generate_key gcm rnd_key rnd_id index st) (generate_keys gcm rnds (index + 1))"

definition NKS_Initialise :: "bool \<Rightarrow> (bytes \<times> u32) list \<Rightarrow> NKS_State \<Rightarrow> NKS_State option" where
  "NKS_Initialise gcm rnds st =
     map_option (\<lambda>st. st\<lparr>current_server_key := MAX_SERVER_KEYS - 1, nks_initialised := True\<rparr>) (generate_keys gcm rnds 0 st)"

text \<open>
  The keys in the order in which \<open>save_keys\<close> writes them, each with its ID, bytes and algorithm, and
  the checks and the update of \<open>load_keys\<close> on the values of four lines that were read.
\<close>

definition save_keys :: "NKS_State \<Rightarrow> (u32 \<times> bytes \<times> nat) list" where
  "save_keys st = map (\<lambda>i. let key = server_keys st ! ((current_server_key st + i + 1 + FUTURE_KEYS) mod MAX_SERVER_KEYS) in
     (key_id key, (case siv_key (sk_siv key) of None \<Rightarrow> [] | Some k \<Rightarrow> k), siv_algorithm (sk_siv key))) [0..<MAX_SERVER_KEYS]"

definition valid_new_key :: "bool \<Rightarrow> (u32 \<times> bytes \<times> nat) list \<Rightarrow> nat \<Rightarrow> bool" where
  "valid_new_key gcm new_keys i =
     (case new_keys ! i of (kid, key, algorithm) \<Rightarrow>
        \<not> (i > 0 \<and> unat (kid - fst (new_keys ! (i - 1))) mod MAX_SERVER_KEYS \<noteq> 1 \<or>
           SIV_GetKeyLength gcm algorithm \<le> 0 \<or> length key \<noteq> SIV_GetKeyLength gcm algorithm))"

fun load_new_keys :: "bool \<Rightarrow> (u32 \<times> bytes \<times> nat) list \<Rightarrow> NKS_State \<Rightarrow> NKS_State option" where
  "load_new_keys gcm [] st = Some st"
| "load_new_keys gcm ((kid, key, algorithm) # new_keys) st =
     Option.bind (update_key_siv gcm algorithm key kid)
       (\<lambda>k. load_new_keys gcm new_keys (st\<lparr>server_keys := (server_keys st)[unat kid mod MAX_SERVER_KEYS := k]\<rparr>))"

definition load_keys :: "bool \<Rightarrow> (u32 \<times> bytes \<times> nat) list \<Rightarrow> NKS_State \<Rightarrow> (bool \<times> NKS_State) option" where
  "load_keys gcm new_keys st =
     (if length new_keys < MAX_SERVER_KEYS \<or> \<not> list_all (valid_new_key gcm new_keys) [0..<MAX_SERVER_KEYS] then Some (False, st)
      else
        let new_keys = take MAX_SERVER_KEYS new_keys;
            index = unat (fst (new_keys ! (MAX_SERVER_KEYS - 1))) mod MAX_SERVER_KEYS in
        map_option (\<lambda>st. (True, st\<lparr>current_server_key := (index + MAX_SERVER_KEYS - FUTURE_KEYS) mod MAX_SERVER_KEYS\<rparr>))
          (load_new_keys gcm new_keys st))"

text \<open>
  A cookie has the ID of the key, the nonce and the encrypted keys of the client.  The outer \<open>None\<close> is a
  failed assertion, the inner one the result 0.
\<close>

definition NKS_GenerateCookie :: "cipher_encrypt \<Rightarrow> NKS_State \<Rightarrow> bytes \<Rightarrow> NKE_Context \<Rightarrow> bytes option option" where
  "NKS_GenerateCookie enc st rnd ctx =
     (if \<not> nks_initialised st then Some None
      else if length (c2s ctx) > SIV_MAX_KEY_LENGTH \<or> length (s2c ctx) \<noteq> length (c2s ctx) then Some None
      else if \<not> current_server_key st < length (server_keys st) then None
      else
        let key = server_keys st ! current_server_key st;
            nonce = take (nonce_length key) rnd;
            plaintext = c2s ctx @ s2c ctx;
            tag = SIV_GetTagLength (sk_siv key) in
        if nonce_length key > NKE_MAX_COOKIE_LENGTH - 4 \<or> length plaintext > 2 * SIV_MAX_KEY_LENGTH \<or>
           4 + nonce_length key + length plaintext + tag > NKE_MAX_COOKIE_LENGTH then None
        else Some (map_option (\<lambda>c. htonl (key_id key) @ nonce @ c)
                     (SIV_Encrypt enc (sk_siv key) nonce [] plaintext (length plaintext + tag))))"

definition NKS_DecodeCookie :: "cipher_decrypt \<Rightarrow> NKS_State \<Rightarrow> bytes \<Rightarrow> NKE_Context option option" where
  "NKS_DecodeCookie dec st cookie =
     (if \<not> nks_initialised st then Some None
      else if length cookie \<le> 4 then Some None
      else
        let i = ntohl cookie in
        if \<not> unat i mod MAX_SERVER_KEYS < length (server_keys st) then None
        else
          let key = server_keys st ! (unat i mod MAX_SERVER_KEYS) in
          if i \<noteq> key_id key then Some None
          else
            let tag = SIV_GetTagLength (sk_siv key) in
            if length cookie \<le> 4 + nonce_length key + tag then Some None
            else
              let nonce = take (nonce_length key) (drop 4 cookie);
                  ciphertext = drop (4 + nonce_length key) cookie;
                  plaintext_length = length ciphertext - tag in
              if plaintext_length > 2 * SIV_MAX_KEY_LENGTH \<or> plaintext_length mod 2 \<noteq> 0 then Some None
              else case SIV_Decrypt dec (sk_siv key) nonce [] ciphertext plaintext_length of
                None \<Rightarrow> Some None
              | Some plaintext \<Rightarrow>
                  let half = plaintext_length div 2 in
                  if half = 16 \<or> half = 32
                  then Some (Some \<lparr>ctx_algorithm = (if half = 16 then AEAD_AES_128_GCM_SIV else AEAD_AES_SIV_CMAC_256),
                                   c2s = take half plaintext, s2c = take half (drop half plaintext)\<rparr>)
                  else Some None)"

section \<open>The server\<close>

abbreviation (input) NTP_PORT :: nat where "NTP_PORT \<equiv> 123"
abbreviation (input) NKE_ERROR_UNRECOGNIZED_CRITICAL_RECORD :: nat where "NKE_ERROR_UNRECOGNIZED_CRITICAL_RECORD \<equiv> 0"
abbreviation (input) NKE_ERROR_BAD_REQUEST :: nat where "NKE_ERROR_BAD_REQUEST \<equiv> 1"

text \<open>The configuration: the algorithms, the NTP port and server, and the random bytes of the nonces of cookies.\<close>

record NKS_Config =
  cfg_gcm :: bool
  cfg_aeads :: "nat list"
  cfg_port :: nat
  cfg_ntp_server :: "bytes option"
  cfg_nonces :: "nat \<Rightarrow> bytes"

fun add_cookies :: "cipher_encrypt \<Rightarrow> NKS_State \<Rightarrow> NKE_Context \<Rightarrow> bytes list \<Rightarrow> NKSN_Instance \<Rightarrow> (bool \<times> NKSN_Instance) option" where
  "add_cookies enc st ctx [] sess = Some (True, sess)"
| "add_cookies enc st ctx (rnd # rnds) sess =
     (case NKS_GenerateCookie enc st rnd ctx of
        None \<Rightarrow> None
      | Some None \<Rightarrow> Some (False, sess)
      | Some (Some cookie) \<Rightarrow>
          (case NKSN_AddRecord sess False NKE_RECORD_COOKIE cookie of
             None \<Rightarrow> None
           | Some (False, sess) \<Rightarrow> Some (False, sess)
           | Some (True, sess) \<Rightarrow> add_cookies enc st ctx rnds sess))"

text \<open>\<open>None\<close> is a negative error, protocol or algorithm.\<close>

definition prepare_response :: "exporter \<Rightarrow> cipher_encrypt \<Rightarrow> NKS_Config \<Rightarrow> NKS_State \<Rightarrow> NKSN_Instance \<Rightarrow>
    nat option \<Rightarrow> nat option \<Rightarrow> nat option \<Rightarrow> bool \<Rightarrow> (bool \<times> NKSN_Instance) option" where
  "prepare_response export enc cfg st sess error next_protocol aead compliant =
     (let sess = NKSN_BeginMessage sess;
          finish = (\<lambda>r. case r of
             None \<Rightarrow> None
           | Some (False, sess) \<Rightarrow> Some (False, sess)
           | Some (True, sess) \<Rightarrow> NKSN_EndMessage sess) in
      case error of
        Some e \<Rightarrow> finish (add_records [(True, NKE_RECORD_ERROR, htons (of_nat e))] sess)
      | None \<Rightarrow>
         (case next_protocol of
            None \<Rightarrow> finish (add_records [(True, NKE_RECORD_NEXT_PROTOCOL, [])] sess)
          | Some np \<Rightarrow>
             (case aead of
                None \<Rightarrow> finish (add_records [(True, NKE_RECORD_NEXT_PROTOCOL, htons (of_nat np)), (True, NKE_RECORD_AEAD_ALGORITHM, [])] sess)
              | Some a \<Rightarrow>
                  finish (case add_records ([(True, NKE_RECORD_NEXT_PROTOCOL, htons (of_nat np)),
                                         (True, NKE_RECORD_AEAD_ALGORITHM, htons (of_nat a))] @
                                        (if a = AEAD_AES_128_GCM_SIV \<and> compliant then [(False, NKE_RECORD_COMPLIANT_128GCM_EXPORT, [])] else []) @
                                        (if cfg_port cfg \<noteq> NTP_PORT then [(True, NKE_RECORD_NTPV4_PORT_NEGOTIATION, htons (of_nat (cfg_port cfg)))] else []) @
                                        (case cfg_ntp_server cfg of None \<Rightarrow> [] | Some name \<Rightarrow> [(True, NKE_RECORD_NTPV4_SERVER_NEGOTIATION, name)])) sess of
                     None \<Rightarrow> None
                   | Some (False, sess) \<Rightarrow> Some (False, sess)
                   | Some (True, sess) \<Rightarrow>
                       let exporter_algorithm = (if a = AEAD_AES_128_GCM_SIV \<and> \<not> compliant then AEAD_AES_SIV_CMAC_256 else a) in
                       (case NKSN_GetKeys export (cfg_gcm cfg) sess a exporter_algorithm NKE_NEXT_PROTOCOL_NTPV4 of
                          None \<Rightarrow> Some (False, sess)
                        | Some (k1, k2) \<Rightarrow>
                            add_cookies enc st \<lparr>ctx_algorithm = a, c2s = k1, s2c = k2\<rparr> (map (cfg_nonces cfg) [0..<NKE_MAX_COOKIES]) sess)))))"

text \<open>The variables of \<open>process_request\<close>.\<close>

record Request =
  rq_error :: "nat option"
  np_records :: nat
  np_values :: nat
  aead_records :: nat
  aead_values :: nat
  rq_next_protocol :: "nat option"
  rq_aead :: "nat option"
  rq_compliant :: bool

definition select_aead :: "bool \<Rightarrow> nat list \<Rightarrow> nat option \<Rightarrow> nat \<Rightarrow> nat option" where
  "select_aead gcm aeads sel a = (if a \<in> set aeads \<and> sel = None \<and> SIV_GetKeyLength gcm a > 0 then Some a else sel)"

definition request_record :: "bool \<Rightarrow> nat list \<Rightarrow> Request \<Rightarrow> ke_record \<Rightarrow> Request" where
  "request_record gcm aeads s r = (case r of (critical, ty, len, data) \<Rightarrow>
     if ty = NKE_RECORD_NEXT_PROTOCOL then
       if \<not> critical \<or> len < 2 \<or> len mod 2 \<noteq> 0 then s\<lparr>rq_error := Some NKE_ERROR_BAD_REQUEST\<rparr>
       else s\<lparr>np_records := np_records s + 1, np_values := np_values s + length (values16 data),
              rq_next_protocol := (if NKE_NEXT_PROTOCOL_NTPV4 \<in> set (values16 data) then Some NKE_NEXT_PROTOCOL_NTPV4 else rq_next_protocol s)\<rparr>
     else if ty = NKE_RECORD_AEAD_ALGORITHM then
       if len < 2 \<or> len mod 2 \<noteq> 0 then s\<lparr>rq_error := Some NKE_ERROR_BAD_REQUEST\<rparr>
       else s\<lparr>aead_records := aead_records s + 1, aead_values := aead_values s + length (values16 data),
              rq_aead := foldl (select_aead gcm aeads) (rq_aead s) (values16 data)\<rparr>
     else if ty = NKE_RECORD_COMPLIANT_128GCM_EXPORT then
       if len \<noteq> 0 then s\<lparr>rq_error := Some NKE_ERROR_BAD_REQUEST\<rparr> else s\<lparr>rq_compliant := True\<rparr>
     else if ty = NKE_RECORD_ERROR \<or> ty = NKE_RECORD_WARNING \<or> ty = NKE_RECORD_COOKIE then s\<lparr>rq_error := Some NKE_ERROR_BAD_REQUEST\<rparr>
     else if critical then s\<lparr>rq_error := Some NKE_ERROR_UNRECOGNIZED_CRITICAL_RECORD\<rparr> else s)"

definition empty_request :: Request where
  "empty_request = \<lparr>rq_error = None, np_records = 0, np_values = 0, aead_records = 0, aead_values = 0,
     rq_next_protocol = None, rq_aead = None, rq_compliant = False\<rparr>"

definition process_request :: "exporter \<Rightarrow> cipher_encrypt \<Rightarrow> NKS_Config \<Rightarrow> NKS_State \<Rightarrow> NKSN_Instance \<Rightarrow> (bool \<times> NKSN_Instance) option" where
  "process_request export enc cfg st sess =
     (case record_loop (\<lambda>s. rq_error s \<noteq> None) (request_record (cfg_gcm cfg) (cfg_aeads cfg)) empty_request sess of
        None \<Rightarrow> None
      | Some (s, sess) \<Rightarrow>
          let error = (if rq_error s = None \<and>
                          (np_records s \<noteq> 1 \<or> np_values s < 1 \<or>
                           rq_next_protocol s = Some NKE_NEXT_PROTOCOL_NTPV4 \<and> (aead_records s \<noteq> 1 \<or> aead_values s < 1))
                       then Some NKE_ERROR_BAD_REQUEST else rq_error s) in
          prepare_response export enc cfg st sess error (rq_next_protocol s) (rq_aead s) (rq_compliant s))"

section \<open>The records of a message and the loop\<close>

fun run_records :: "('s \<Rightarrow> bool) \<Rightarrow> ('s \<Rightarrow> ke_record \<Rightarrow> 's) \<Rightarrow> 's \<Rightarrow> ke_record list \<Rightarrow> 's" where
  "run_records failed body s [] = s"
| "run_records failed body s (r # rs) = (if failed s then s else run_records failed body (body s r) rs)"

lemma record_loop_spec:
  assumes "msg_ok (message inst)" "complete (message inst)"
  shows "\<exists>p. record_loop failed body s inst =
      Some (run_records failed body s (map (truncated 256) (pending_records inst)), inst\<lparr>message := (message inst)\<lparr>parsed := p\<rparr>\<rparr>) \<and>
    msg_ok ((message inst)\<lparr>parsed := p\<rparr>)"
  using assms
proof (induction "pending_records inst" arbitrary: s inst)
  case Nil
  obtain p where "NKSN_GetRecord inst 256 = Some (None, inst\<lparr>message := (message inst)\<lparr>parsed := p\<rparr>\<rparr>)" "msg_ok ((message inst)\<lparr>parsed := p\<rparr>)"
    using NKSN_GetRecord_none [of inst 256] Nil by auto
  then show ?case
    using Nil by (cases "failed s") (auto simp: record_loop.simps intro: exI [of _ "parsed (message inst)"])
next
  case (Cons r rs)
  show ?case
  proof (cases "failed s")
    case True
    then show ?thesis using Cons.prems Cons.hyps(2) [symmetric]
      by (intro exI [of _ "parsed (message inst)"]) (simp add: record_loop.simps)
  next
    case False
    obtain p where p: "NKSN_GetRecord inst 256 = Some (Some (truncated 256 r), inst\<lparr>message := (message inst)\<lparr>parsed := p\<rparr>\<rparr>)"
      "msg_ok ((message inst)\<lparr>parsed := p\<rparr>)" "pending_records (inst\<lparr>message := (message inst)\<lparr>parsed := p\<rparr>\<rparr>) = rs"
      using NKSN_GetRecord_some [OF Cons.prems, of 256 r rs] Cons.hyps(2) by auto
    from Cons.hyps(1) [OF p(3) [symmetric], of "body s (truncated 256 r)"] p Cons.prems(2) False Cons.hyps(2) [symmetric]
    show ?thesis by (subst record_loop.simps) (auto simp: p(3))
  qed
qed

section \<open>Building a message\<close>

definition building :: "NKSN_Instance \<Rightarrow> NKSN_Instance \<Rightarrow> bool" where
  "building sess0 sess \<longleftrightarrow> (\<exists>m. sess = sess0\<lparr>message := m, new_message := True\<rparr> \<and> msg_ok m \<and> \<not> complete m \<and> sent m = 0)"

lemma buildingI: "msg_ok m \<Longrightarrow> \<not> complete m \<Longrightarrow> sent m = 0 \<Longrightarrow> building sess0 (sess0\<lparr>message := m, new_message := True\<rparr>)"
  unfolding building_def by blast

lemma building_begin: "length (msg_data (message sess)) = 16384 \<Longrightarrow> building sess (NKSN_BeginMessage sess)"
  unfolding NKSN_BeginMessage_def by (rule buildingI) (simp_all add: reset_message_def msg_ok_def)

lemma building_tls: "building sess0 sess \<Longrightarrow> tls_session sess = tls_session sess0"
  by (auto simp: building_def)

lemma building_add:
  assumes "building sess0 sess" "ty \<noteq> 0"
  obtains ok sess' where "NKSN_AddRecord sess critical ty body = Some (ok, sess')" "building sess0 sess'"
proof -
  from assms(1) obtain m where s: "sess = sess0\<lparr>message := m, new_message := True\<rparr>" and m: "msg_ok m" "\<not> complete m" "sent m = 0"
    by (auto simp: building_def)
  let ?e = "enc_record (critical, ty, body)"
  note a = ke_add_record_spec [OF m(1), of critical ty body] and c = content_append [OF m(1), of ?e]
  show thesis
  proof (cases "valid_record (critical, ty, body) \<and> msg_length m + length ?e \<le> 16384")
    case True
    let ?m = "m\<lparr>msg_data := memcpy (msg_data m) (msg_length m) ?e, msg_length := msg_length m + length ?e\<rparr>"
    have "NKSN_AddRecord sess critical ty body = Some (True, sess0\<lparr>message := ?m, new_message := True\<rparr>)"
      using a True s m assms(2) by (simp add: NKSN_AddRecord_def)
    moreover have "building sess0 (sess0\<lparr>message := ?m, new_message := True\<rparr>)" using c(2) True m by (intro buildingI) simp_all
    ultimately show thesis by (rule that)
  next
    case False
    then have "NKSN_AddRecord sess critical ty body = Some (False, sess)"
      using a s m assms(2) by (simp add: NKSN_AddRecord_def split: if_splits)
    with assms(1) show thesis by (intro that)
  qed
qed

lemma building_add_records:
  assumes "building sess0 sess" "\<forall>r\<in>set rs. fst (snd r) \<noteq> 0"
  obtains ok sess' where "add_records rs sess = Some (ok, sess')" "building sess0 sess'"
proof -
  have "\<exists>ok sess'. add_records rs sess = Some (ok, sess') \<and> building sess0 sess'" using assms
  proof (induction rs arbitrary: sess)
    case Nil
    then show ?case by auto
  next
    case (Cons r rs)
    obtain critical ty body where r: "r = (critical, ty, body)" by (cases r) auto
    with Cons.prems have "ty \<noteq> 0" by simp
    from building_add [OF Cons.prems(1) this, of critical body] obtain ok sess' where
      "NKSN_AddRecord sess critical ty body = Some (ok, sess')" "building sess0 sess'" by blast
    with Cons.IH [of sess'] Cons.prems(2) show ?case by (cases ok) (auto simp: r)
  qed
  with that show thesis by blast
qed

text \<open>What a handler leaves of a session: its message, which can be sent if the result is true.\<close>

definition built :: "NKSN_Instance \<Rightarrow> bool \<Rightarrow> NKSN_Instance \<Rightarrow> bool" where
  "built sess0 ok sess \<longleftrightarrow> (\<exists>m. sess = sess0\<lparr>message := m, new_message := True\<rparr> \<and> msg_ok m \<and>
     (ok \<longrightarrow> complete m \<and> sent m < msg_length m))"

lemma builtI: "msg_ok m \<Longrightarrow> (ok \<Longrightarrow> complete m \<and> sent m < msg_length m) \<Longrightarrow> built sess0 ok (sess0\<lparr>message := m, new_message := True\<rparr>)"
  unfolding built_def by blast

lemma building_built: "building sess0 sess \<Longrightarrow> built sess0 False sess"
  by (auto simp: building_def built_def)

lemma building_end:
  assumes "building sess0 sess"
  shows "\<exists>ok sess'. NKSN_EndMessage sess = Some (ok, sess') \<and> built sess0 ok sess'"
proof -
  from assms obtain m where s: "sess = sess0\<lparr>message := m, new_message := True\<rparr>" and m: "msg_ok m" "\<not> complete m" "sent m = 0"
    by (auto simp: building_def)
  let ?e = "enc_record (True, 0, [])"
  have l: "length ?e = 4" by (simp add: enc_record_def)
  note a = ke_add_record_spec [OF m(1), of True 0 "[]"] and c = content_append [OF m(1), of ?e]
  show ?thesis
  proof (cases "valid_record (True, 0, []) \<and> msg_length m + length ?e \<le> 16384")
    case True
    let ?m = "m\<lparr>msg_data := memcpy (msg_data m) (msg_length m) ?e, msg_length := msg_length m + length ?e, complete := True\<rparr>"
    have "NKSN_EndMessage sess = Some (True, sess0\<lparr>message := ?m, new_message := True\<rparr>)"
      using a True s m by (simp add: NKSN_EndMessage_def)
    moreover have "built sess0 True (sess0\<lparr>message := ?m, new_message := True\<rparr>)"
      using c(2) True m l by (intro builtI) (simp_all add: msg_ok_def)
    ultimately show ?thesis by blast
  next
    case False
    then have "NKSN_EndMessage sess = Some (False, sess)" using a s m by (simp add: NKSN_EndMessage_def split: if_splits)
    with building_built [OF assms] show ?thesis by blast
  qed
qed

section \<open>Cookies and the rotation of the keys\<close>

definition key_ok :: "nat \<Rightarrow> ServerKey \<Rightarrow> bool" where
  "key_ok i k \<longleftrightarrow> unat (key_id k) mod 4 = i \<and> tag_length (sk_siv k) = 16 \<and> nonce_length k \<in> {12, 16} \<and>
     min_nonce_length (sk_siv k) \<le> nonce_length k \<and> nonce_length k \<le> max_nonce_length (sk_siv k) \<and> siv_key (sk_siv k) \<noteq> None"

definition nks_ok :: "NKS_State \<Rightarrow> bool" where
  "nks_ok st \<longleftrightarrow> length (server_keys st) = 4 \<and> current_server_key st < 4 \<and> (\<forall>i<4. key_ok i (server_keys st ! i))"

lemma key_id_index:
  assumes "index < 4"
  shows "unat ((rnd AND NOT 3) OR of_nat index :: u32) mod 4 = index"
proof -
  let ?w = "(rnd AND NOT 3) OR of_nat index :: u32"
  have t: "take_bit 2 ?w = take_bit 2 (of_nat index)"
  proof (rule bit_word_eqI)
    fix n
    show "bit (take_bit 2 ?w) n = bit (take_bit 2 (of_nat index :: u32)) n"
    proof (cases "n < 2")
      case True
      then have "n = 0 \<or> n = 1" by auto
      then show ?thesis by (auto simp: bit_simps)
    next
      case False
      then show ?thesis by (simp add: bit_simps)
    qed
  qed
  have "unat ?w mod 4 = take_bit 2 (unat ?w)" by (simp add: take_bit_eq_mod)
  also have "\<dots> = unat (take_bit 2 ?w)" by (simp only: unsigned_take_bit_eq)
  also have "\<dots> = take_bit 2 (unat (of_nat index :: u32))" unfolding t by (simp only: unsigned_take_bit_eq)
  also have "\<dots> = index" using assms by (simp add: take_bit_eq_mod unat_of_nat)
  finally show ?thesis .
qed

lemma update_key_siv_ok:
  assumes "index < 4" "0 < SIV_GetKeyLength gcm algorithm" "32 \<le> length key"
  shows "\<exists>k. update_key_siv gcm algorithm key ((rnd AND NOT 3) OR of_nat index) = Some k \<and> key_ok index k"
proof -
  have "SIV_GetKeyLength gcm algorithm \<le> 32" by (simp add: SIV_GetKeyLength_def)
  moreover obtain siv where s: "SIV_CreateInstance gcm algorithm = Some siv" using assms(2) by (simp add: SIV_CreateInstance_def)
  moreover have "max_nonce_length siv = 12 \<or> max_nonce_length siv = 2 ^ 31 - 1"
    using s by (auto simp: SIV_CreateInstance_def split: if_splits)
  ultimately show ?thesis using SIV_CreateInstance_props [OF s] assms key_id_index [OF assms(1), of rnd]
    by (auto simp: update_key_siv_def SIV_SetKey_def key_ok_def SIV_GetMaxNonceLength_def min_def)
qed

lemma key_timeout_ok:
  assumes "nks_ok st" "32 \<le> length rnd_key"
  obtains st' where "key_timeout gcm rnd_key rnd_id st = Some st'" "nks_ok st'" "nks_initialised st' = nks_initialised st"
    "current_server_key st' = (current_server_key st + 1) mod 4"
    "\<And>i. i \<noteq> (current_server_key st + 2) mod 4 \<Longrightarrow> server_keys st' ! i = server_keys st ! i"
proof -
  let ?a = "if SIV_GetKeyLength gcm 30 > 0 then 30 else 15 :: nat"
  let ?c = "(current_server_key st + 1) mod 4" and ?i = "(current_server_key st + 2) mod 4"
  have "(?c + 1) mod 4 = ?i" by (simp add: mod_simps)
  moreover have a: "0 < SIV_GetKeyLength gcm ?a" "SIV_GetKeyLength gcm ?a \<le> 32" by (simp_all add: SIV_GetKeyLength_def)
  moreover obtain k where k: "update_key_siv gcm ?a rnd_key ((rnd_id AND NOT 3) OR of_nat ?i) = Some k" "key_ok ?i k"
    using update_key_siv_ok [OF _ a(1) assms(2), of ?i rnd_id] by auto
  ultimately have "key_timeout gcm rnd_key rnd_id st = Some (st\<lparr>current_server_key := ?c, server_keys := (server_keys st)[?i := k]\<rparr>)"
    using assms(1) by (simp add: key_timeout_def generate_key_def nks_ok_def Let_def)
  moreover have "nks_ok (st\<lparr>current_server_key := ?c, server_keys := (server_keys st)[?i := k]\<rparr>)"
    using assms(1) k(2) by (auto simp: nks_ok_def nth_list_update)
  ultimately show thesis by (rule that) auto
qed

fun rotate_keys :: "bool \<Rightarrow> (bytes \<times> u32) list \<Rightarrow> NKS_State \<Rightarrow> NKS_State option" where
  "rotate_keys gcm [] st = Some st"
| "rotate_keys gcm ((rnd_key, rnd_id) # xs) st = Option.bind (key_timeout gcm rnd_key rnd_id st) (rotate_keys gcm xs)"

lemma rotate_keys_ok:
  assumes "nks_ok st" "\<forall>x\<in>set rnds. 32 \<le> length (fst x)" "k < 4" "length rnds \<le> (k + 6 - current_server_key st) mod 4"
  shows "\<exists>st'. rotate_keys gcm rnds st = Some st' \<and> nks_ok st' \<and> nks_initialised st' = nks_initialised st \<and>
    server_keys st' ! k = server_keys st ! k"
  using assms
proof (induction rnds arbitrary: st)
  case Nil
  then show ?case by simp
next
  case (Cons x rnds)
  obtain rnd_key rnd_id where x: "x = (rnd_key, rnd_id)" by (cases x)
  let ?c = "current_server_key st"
  from key_timeout_ok [OF Cons.prems(1), of rnd_key gcm rnd_id] Cons.prems(2) obtain st1 where
    t: "key_timeout gcm rnd_key rnd_id st = Some st1" "nks_ok st1" "nks_initialised st1 = nks_initialised st"
      "current_server_key st1 = (?c + 1) mod 4" "\<And>i. i \<noteq> (?c + 2) mod 4 \<Longrightarrow> server_keys st1 ! i = server_keys st ! i"
    by (auto simp: x)
  have c4: "?c < 4" using Cons.prems(1) by (simp add: nks_ok_def)
  have n: "1 \<le> (k + 6 - ?c) mod 4" "length rnds \<le> (k + 6 - ?c) mod 4 - 1" using Cons.prems(4) by simp_all
  have k: "k \<noteq> (?c + 2) mod 4" "(k + 6 - ?c) mod 4 - 1 = (k + 6 - (?c + 1) mod 4) mod 4"
  proof -
    have "?c = 0 \<or> ?c = 1 \<or> ?c = 2 \<or> ?c = 3" "k = 0 \<or> k = 1 \<or> k = 2 \<or> k = 3" using c4 Cons.prems(3) by linarith+
    with n(1) show "k \<noteq> (?c + 2) mod 4" "(k + 6 - ?c) mod 4 - 1 = (k + 6 - (?c + 1) mod 4) mod 4"
      by (elim disjE; simp)+
  qed
  from Cons.IH [OF t(2) _ Cons.prems(3)] obtain st' where "rotate_keys gcm rnds st1 = Some st'" "nks_ok st'"
    "nks_initialised st' = nks_initialised st1" "server_keys st' ! k = server_keys st1 ! k"
    using Cons.prems(2) n(2) k(2) t(4) by auto
  with t(1,3) t(5) [OF k(1)] show ?case by (auto simp: x)
qed

end
