(* ===== verification/NtsKeProtocol.thy ===== *)
theory NtsKeProtocol
  imports NtsKe
begin

text \<open>
  The properties of NTS-KE that span the two ends: a cookie is decoded to the keys it was made from as
  long as its key is kept, the handlers of the server and of the client fulfil the contract of the
  sessions, and the request, the response and the cookies give the two ends the same keys.
\<close>

section \<open>Cookies\<close>

definition valid_context :: "NKE_Context \<Rightarrow> bool" where
  "valid_context ctx \<longleftrightarrow> ctx_algorithm ctx = 15 \<and> length (c2s ctx) = 32 \<and> length (s2c ctx) = 32 \<or>
     ctx_algorithm ctx = 30 \<and> length (c2s ctx) = 16 \<and> length (s2c ctx) = 16"

lemma NKS_GenerateCookie_ok:
  assumes "nks_ok st" "16 \<le> length rnd"
  shows "\<exists>r. NKS_GenerateCookie enc st rnd ctx = Some r"
    and "nks_initialised st \<Longrightarrow> length (c2s ctx) \<le> 32 \<Longrightarrow> length (s2c ctx) = length (c2s ctx) \<Longrightarrow>
      let key = server_keys st ! current_server_key st; nonce = take (nonce_length key) rnd in
      \<exists>c. SIV_Encrypt enc (sk_siv key) nonce [] (c2s ctx @ s2c ctx) (2 * length (c2s ctx) + 16) = Some c \<and>
        NKS_GenerateCookie enc st rnd ctx = Some (Some (htonl (key_id key) @ nonce @ c))"
proof -
  define key where "key = server_keys st ! current_server_key st"
  have k: "siv_key (sk_siv key) \<noteq> None" "tag_length (sk_siv key) = 16" "min_nonce_length (sk_siv key) \<le> nonce_length key"
    "nonce_length key \<le> max_nonce_length (sk_siv key)" "nonce_length key \<le> 16" "current_server_key st < length (server_keys st)"
    using assms(1) unfolding key_def by (auto simp: nks_ok_def key_ok_def)
  have "NKS_GenerateCookie enc st rnd ctx \<noteq> None"
    unfolding NKS_GenerateCookie_def Let_def key_def [symmetric] SIV_GetTagLength_def using k by simp
  then show "\<exists>r. NKS_GenerateCookie enc st rnd ctx = Some r" by simp
  show "let key = server_keys st ! current_server_key st; nonce = take (nonce_length key) rnd in
      \<exists>c. SIV_Encrypt enc (sk_siv key) nonce [] (c2s ctx @ s2c ctx) (2 * length (c2s ctx) + 16) = Some c \<and>
        NKS_GenerateCookie enc st rnd ctx = Some (Some (htonl (key_id key) @ nonce @ c))"
    if "nks_initialised st" "length (c2s ctx) \<le> 32" "length (s2c ctx) = length (c2s ctx)"
  proof -
    note h = that
    have l: "length (take (nonce_length key) rnd) = nonce_length key" using k(5) assms(2) by simp
    obtain c where "SIV_Encrypt enc (sk_siv key) (take (nonce_length key) rnd) [] (c2s ctx @ s2c ctx) (2 * length (c2s ctx) + 16) = Some c"
      using k h l by (auto simp: SIV_Encrypt_def SIV_GetTagLength_def)
    moreover from this have "NKS_GenerateCookie enc st rnd ctx = Some (Some (htonl (key_id key) @ take (nonce_length key) rnd @ c))"
      unfolding NKS_GenerateCookie_def Let_def key_def [symmetric] SIV_GetTagLength_def using k h by simp
    ultimately show ?thesis unfolding Let_def key_def [symmetric] by blast
  qed
qed

lemma cookie_decoded:
  assumes "siv_cipher enc dec" "nks_ok st" "nks_ok st'" "nks_initialised st" "nks_initialised st'" "valid_context ctx" "16 \<le> length rnd"
    and same: "server_keys st' ! current_server_key st = server_keys st ! current_server_key st"
  obtains cookie where "NKS_GenerateCookie enc st rnd ctx = Some (Some cookie)" "NKS_DecodeCookie dec st' cookie = Some (Some ctx)"
    "length cookie mod 4 = 0" "0 < length cookie" "length cookie \<le> 100"
proof -
  let ?i = "current_server_key st"
  let ?key = "server_keys st ! ?i"
  let ?nonce = "take (nonce_length ?key) rnd"
  have k: "key_ok ?i ?key" "?i < 4" using assms(2) by (simp_all add: nks_ok_def)
  have len: "length (s2c ctx) = length (c2s ctx)" "length (c2s ctx) \<in> {16, 32}" using assms(6) by (auto simp: valid_context_def)
  with NKS_GenerateCookie_ok(2) [OF assms(2,7,4), of ctx enc] obtain c where
    e: "SIV_Encrypt enc (sk_siv ?key) ?nonce [] (c2s ctx @ s2c ctx) (2 * length (c2s ctx) + 16) = Some c"
    and g: "NKS_GenerateCookie enc st rnd ctx = Some (Some (htonl (key_id ?key) @ ?nonce @ c))"
    by (auto simp: Let_def)
  let ?cookie = "htonl (key_id ?key) @ ?nonce @ c"
  have pl: "length (c2s ctx @ s2c ctx) = 2 * length (c2s ctx)" using len(1) by simp
  have r: "length c = 2 * length (c2s ctx) + 16" "SIV_Decrypt dec (sk_siv ?key) ?nonce [] c (2 * length (c2s ctx)) = Some (c2s ctx @ s2c ctx)"
    using SIV_roundtrip [OF assms(1) _ e] k(1) pl by (simp_all add: key_ok_def del: length_append)
  have n: "length ?nonce = nonce_length ?key" "nonce_length ?key \<in> {12, 16}" using k(1) assms(7) by (auto simp: key_ok_def)
  have i: "ntohl ?cookie = key_id ?key" by (simp add: ntohl_htonl)
  have s: "unat (key_id ?key) mod 4 = ?i" "tag_length (sk_siv ?key) = 16" using k(1) by (simp_all add: key_ok_def)
  have p: "drop (4 + nonce_length ?key) ?cookie = c" "take (nonce_length ?key) (drop 4 ?cookie) = ?nonce" using n(1) by simp_all
  have l: "length ?cookie = 4 + nonce_length ?key + (2 * length (c2s ctx) + 16)" using n(1) r(1) by simp
  have "NKS_DecodeCookie dec st' ?cookie = Some (Some \<lparr>ctx_algorithm = (if length (c2s ctx) = 16 then 30 else 15), c2s = c2s ctx, s2c = s2c ctx\<rparr>)"
    unfolding NKS_DecodeCookie_def Let_def i s(1) same p l
    using assms(3,5) k(2) s(2) r len by (auto simp: SIV_GetTagLength_def nks_ok_def)
  also have "\<lparr>ctx_algorithm = (if length (c2s ctx) = 16 then 30 else 15), c2s = c2s ctx, s2c = s2c ctx\<rparr> = ctx"
    using assms(6) by (cases ctx) (auto simp: valid_context_def)
  finally show thesis using l len(2) n(2) by (intro that [OF g]) auto
qed

section \<open>The keys of the server\<close>

text \<open>A key has the instance of its algorithm.\<close>

definition key_set :: "bool \<Rightarrow> ServerKey \<Rightarrow> bool" where
  "key_set gcm k \<longleftrightarrow> (\<exists>key. siv_key (sk_siv k) = Some key \<and> length key = SIV_GetKeyLength gcm (siv_algorithm (sk_siv k)) \<and>
     0 < SIV_GetKeyLength gcm (siv_algorithm (sk_siv k)) \<and> update_key_siv gcm (siv_algorithm (sk_siv k)) key (key_id k) = Some k)"

lemma update_key_siv_set:
  assumes "update_key_siv gcm a key i = Some k"
  shows "key_set gcm k"
proof -
  from assms obtain siv where siv: "SIV_CreateInstance gcm a = Some siv" by (auto simp: update_key_siv_def split: option.splits)
  let ?key = "take (SIV_GetKeyLength gcm a) key"
  have p: "siv_algorithm siv = a" "0 < SIV_GetKeyLength gcm a" using SIV_CreateInstance_props [OF siv] by auto
  have k: "length ?key = SIV_GetKeyLength gcm a" "siv_key (sk_siv k) = Some ?key" "siv_algorithm (sk_siv k) = a" "key_id k = i"
    using assms p(1) by (auto simp: update_key_siv_def SIV_SetKey_def siv split: if_splits)
  moreover have "update_key_siv gcm a ?key i = Some k" using assms by (simp add: update_key_siv_def siv)
  ultimately show ?thesis unfolding key_set_def using p(2) by (intro exI [of _ ?key]) (simp del: length_take)
qed

lemma generate_key_ok:
  assumes "length (server_keys st) = 4" "index < 4" "32 \<le> length rnd_key"
  obtains k where "generate_key gcm rnd_key rnd_id index st = Some (st\<lparr>server_keys := (server_keys st)[index := k]\<rparr>)"
    "key_ok index k" "key_set gcm k"
proof -
  let ?a = "if SIV_GetKeyLength gcm 30 > 0 then 30 else 15 :: nat"
  have a: "0 < SIV_GetKeyLength gcm ?a" "SIV_GetKeyLength gcm ?a \<le> 32" by (simp_all add: SIV_GetKeyLength_def)
  from update_key_siv_ok [OF assms(2) a(1) assms(3), of rnd_id] obtain k where
    k: "update_key_siv gcm ?a rnd_key ((rnd_id AND NOT 3) OR of_nat index) = Some k" "key_ok index k" by blast
  show thesis
    using assms(1,2) a(2) k update_key_siv_set [OF k(1)] by (intro that [of k]) (simp_all add: generate_key_def Let_def)
qed

lemma generate_keys_ok:
  assumes "length (server_keys st) = 4" "\<forall>x\<in>set rnds. 32 \<le> length (fst x)" "index + length rnds \<le> 4"
    "\<forall>i<index. key_ok i (server_keys st ! i) \<and> key_set gcm (server_keys st ! i)"
  shows "\<exists>ks. generate_keys gcm rnds index st = Some (st\<lparr>server_keys := ks\<rparr>) \<and> length ks = 4 \<and>
    (\<forall>i<index + length rnds. key_ok i (ks ! i) \<and> key_set gcm (ks ! i))"
  using assms
proof (induction rnds arbitrary: index st)
  case Nil
  then show ?case by (intro exI [of _ "server_keys st"]) simp
next
  case (Cons x rnds)
  obtain rnd_key rnd_id where x: "x = (rnd_key, rnd_id)" by (cases x)
  have "index < 4" "32 \<le> length rnd_key" using Cons.prems by (simp_all add: x)
  from generate_key_ok [OF Cons.prems(1) this, of gcm rnd_id] obtain k where
    k: "generate_key gcm rnd_key rnd_id index st = Some (st\<lparr>server_keys := (server_keys st)[index := k]\<rparr>)" "key_ok index k" "key_set gcm k" .
  have "\<forall>i<index + 1. key_ok i ((server_keys st)[index := k] ! i) \<and> key_set gcm ((server_keys st)[index := k] ! i)"
    using k(2,3) Cons.prems(1,4) \<open>index < 4\<close> by (auto simp: nth_list_update less_Suc_eq)
  with Cons.IH [of "st\<lparr>server_keys := (server_keys st)[index := k]\<rparr>" "index + 1"] Cons.prems k(1) show ?case
    by (auto simp: x)
qed

definition keys_set :: "bool \<Rightarrow> NKS_State \<Rightarrow> bool" where
  "keys_set gcm st \<longleftrightarrow> (\<forall>i<4. key_set gcm (server_keys st ! i))"

lemma NKS_Initialise_ok:
  assumes "length (server_keys st) = 4" "\<forall>x\<in>set rnds. 32 \<le> length (fst x)" "length rnds = 4"
  obtains st' where "NKS_Initialise gcm rnds st = Some st'" "nks_ok st'" "keys_set gcm st'" "nks_initialised st'"
  using generate_keys_ok [OF assms(1,2), of 0 gcm] assms(3)
  by (auto simp: NKS_Initialise_def nks_ok_def keys_set_def)

text \<open>
  C13.  A cookie made with the current key of the server is decoded to exactly the algorithm and the
  two keys it was made from, at any time until the key was rotated out, that is after at most two
  further rotations, whatever the random keys and IDs.  The cipher is any that decrypts what
  it encrypted.
\<close>

theorem cookie_roundtrip:
  assumes "siv_cipher enc dec" "nks_ok st" "nks_initialised st" "valid_context ctx" "16 \<le> length rnd"
    and "length rnds \<le> 2" "\<forall>x\<in>set rnds. 32 \<le> length (fst x)"
  shows "\<exists>cookie st'. NKS_GenerateCookie enc st rnd ctx = Some (Some cookie) \<and> rotate_keys gcm rnds st = Some st' \<and>
    NKS_DecodeCookie dec st' cookie = Some (Some ctx)"
proof -
  let ?c = "current_server_key st"
  have c: "?c < 4" "(?c + 6 - ?c) mod 4 = 2" using assms(2) by (simp_all add: nks_ok_def)
  with rotate_keys_ok [OF assms(2,7) c(1), of gcm] assms(6) obtain st' where
    "rotate_keys gcm rnds st = Some st'" "nks_ok st'" "nks_initialised st'" "server_keys st' ! ?c = server_keys st ! ?c"
    using assms(3) by auto
  with cookie_decoded [OF assms(1,2) _ assms(3) _ assms(4,5)] show ?thesis by blast
qed

lemma unat_diff_mod4:
  assumes "unat (a :: u32) mod 4 = i" "unat b mod 4 = j"
  shows "unat (a - b) mod 4 = (i + 4 - j) mod 4"
proof -
  have j: "j < 4" using assms(2) by auto
  have "uint (a - b) mod 4 = (uint a - uint b) mod 4"
    by (simp add: uint_word_ariths mod_mod_cancel)
  also have "\<dots> = (uint a mod 4 - uint b mod 4) mod 4" by (simp add: mod_diff_eq)
  also have "uint a mod 4 = int i" using assms(1) by (metis int_ops(3) of_nat_mod of_nat_numeral uint_nat)
  also have "uint b mod 4 = int j" using assms(2) by (metis int_ops(3) of_nat_mod of_nat_numeral uint_nat)
  also have "(int i - int j) mod 4 = int ((i + 4 - j) mod 4)" using j by (simp add: zmod_int of_nat_diff) (metis add_diff_eq diff_add_eq mod_add_self2)
  finally have "int (unat (a - b) mod 4) = int ((i + 4 - j) mod 4)" by (simp add: zmod_int)
  then show ?thesis by (simp only: of_nat_eq_iff)
qed

lemma less_4_cases: "(i::nat) < 4 \<Longrightarrow> i = 0 \<or> i = 1 \<or> i = 2 \<or> i = 3"
  by linarith

lemma list_4: "length xs = 4 \<Longrightarrow> xs = [xs ! 0, xs ! 1, xs ! 2, xs ! 3]"
  by (rule nth_equalityI) (auto simp: nth_Cons' dest!: less_4_cases)

text \<open>
  C33.  The keys that were saved are loaded back exactly, in the same places and with the same current
  key, so that cookies made before a restart are still decoded after it.
\<close>

theorem keys_save_load:
  assumes "nks_ok st" "keys_set gcm st" "length (server_keys st0) = 4"
  shows "load_keys gcm (save_keys st) st0 =
    Some (True, st0\<lparr>server_keys := server_keys st, current_server_key := current_server_key st\<rparr>)"
proof -
  define K where "K i = server_keys st ! i" for i
  define key where "key i = (case siv_key (sk_siv (K i)) of None \<Rightarrow> [] | Some k \<Rightarrow> k)" for i
  define alg where "alg i = siv_algorithm (sk_siv (K i))" for i
  have i: "unat (key_id (K i)) mod 4 = i" if "i < 4" for i using assms(1) that by (simp add: nks_ok_def key_ok_def K_def)
  have u: "update_key_siv gcm (alg i) (key i) (key_id (K i)) = Some (K i)" "length (key i) = SIV_GetKeyLength gcm (alg i)" "0 < SIV_GetKeyLength gcm (alg i)"
    if "i < 4" for i
    using assms(2) that by (auto simp: keys_set_def key_set_def key_def alg_def K_def)
  have d: "unat (key_id (K i) - key_id (K j)) mod 4 = (i + 4 - j) mod 4" if "i < 4" "j < 4" for i j
    using unat_diff_mod4 [OF i i] that by blast
  have s: "server_keys st = [K 0, K 1, K 2, K 3]" unfolding K_def by (rule list_4) (use assms(1) in \<open>simp add: nks_ok_def\<close>)
  have sv: "save_keys st = map (\<lambda>i. (key_id (K i), key i, alg i)) (map (\<lambda>i. (current_server_key st + i + 2) mod 4) [0,1,2,3])"
    by (simp add: save_keys_def K_def key_def alg_def Let_def upt_rec)
  obtain a b c e where s0: "server_keys st0 = [a, b, c, e]" using list_4 [OF assms(3)] by blast
  have "current_server_key st < 4" using assms(1) by (simp add: nks_ok_def)
  from less_4_cases [OF this] show ?thesis
    by (elim disjE)
      (simp_all add: load_keys_def sv s s0 valid_new_key_def Let_def upt_rec u i d nth_Cons' numeral_2_eq_2 [symmetric])
qed

section \<open>The handlers of messages\<close>

lemma record_loop_total:
  assumes "msg_ok (message inst)" "complete (message inst)"
  obtains s' p where "record_loop failed body s inst = Some (s', inst\<lparr>message := (message inst)\<lparr>parsed := p\<rparr>\<rparr>)"
    "msg_ok ((message inst)\<lparr>parsed := p\<rparr>)"
  using record_loop_spec [OF assms, of failed body s] by blast

lemma add_cookies_building:
  assumes "nks_ok st" "\<forall>r\<in>set rnds. 16 \<le> length r" "building sess0 sess"
  shows "\<exists>ok sess'. add_cookies enc st ctx rnds sess = Some (ok, sess') \<and> building sess0 sess'"
  using assms(2,3)
proof (induction rnds arbitrary: sess)
  case Nil
  then show ?case by (intro exI [of _ True] exI [of _ sess]) simp
next
  case (Cons r rnds)
  obtain c where c: "NKS_GenerateCookie enc st r ctx = Some c" using NKS_GenerateCookie_ok(1) [OF assms(1)] Cons.prems(1) by fastforce
  show ?case
  proof (cases c)
    case None
    with c Cons.prems(2) show ?thesis by (intro exI [of _ False] exI [of _ sess]) simp
  next
    case (Some cookie)
    from building_add [OF Cons.prems(2), of 5 False cookie] obtain ok sess' where
      "NKSN_AddRecord sess False 5 cookie = Some (ok, sess')" "building sess0 sess'" by auto
    with c Some Cons.IH [of sess'] Cons.prems(1) show ?thesis by (cases ok) auto
  qed
qed

text \<open>Whatever was requested, the server prepares a response or fails, without a failed assertion.\<close>

definition cfg_ok :: "NKS_Config \<Rightarrow> bool" where
  "cfg_ok cfg \<longleftrightarrow> (\<forall>i. 16 \<le> length (cfg_nonces cfg i))"

lemma finish_built:
  assumes "r = Some (ok, sess)" "building sess0 sess"
  shows "\<exists>ok sess'. (case r of None \<Rightarrow> None | Some (False, sess) \<Rightarrow> Some (False, sess) | Some (True, sess) \<Rightarrow> NKSN_EndMessage sess) =
    Some (ok, sess') \<and> built sess0 ok sess'"
  using assms building_end building_built by (cases ok) auto

text \<open>The records of a response before the cookies.\<close>

definition response_records :: "NKS_Config \<Rightarrow> bool \<Rightarrow> nat \<Rightarrow> nat \<Rightarrow> (bool \<times> nat \<times> bytes) list" where
  "response_records cfg compliant np a = [(True, 1, htons (of_nat np)), (True, 4, htons (of_nat a))] @
     (if a = 30 \<and> compliant then [(False, 1024, [])] else []) @
     (if cfg_port cfg \<noteq> 123 then [(True, 7, htons (of_nat (cfg_port cfg)))] else []) @
     (case cfg_ntp_server cfg of None \<Rightarrow> [] | Some name \<Rightarrow> [(True, 6, name)])"

lemma prepare_response_built:
  assumes "nks_ok st" "cfg_ok cfg" "length (msg_data (message sess)) = 16384"
  shows "\<exists>ok sess'. prepare_response export enc cfg st sess error next_protocol aead compliant = Some (ok, sess') \<and> built sess ok sess'"
proof -
  note b = building_begin [OF assms(3)]
  have r: "\<exists>ok sess'. add_records rs (NKSN_BeginMessage sess) = Some (ok, sess') \<and> building sess sess'" if "\<forall>r\<in>set rs. fst (snd r) \<noteq> 0" for rs
    using building_add_records [OF b that] by blast
  have n: "\<forall>r\<in>set (map (cfg_nonces cfg) [0..<8]). 16 \<le> length r" using assms(2) by (simp add: cfg_ok_def)
  have full: "\<exists>ok sess'. (case add_records (response_records cfg compliant np a) (NKSN_BeginMessage sess) of None \<Rightarrow> None | Some (False, sess) \<Rightarrow> Some (False, sess)
      | Some (True, sess) \<Rightarrow> (case NKSN_GetKeys export (cfg_gcm cfg) sess a (if a = 30 \<and> \<not> compliant then 15 else a) 0 of
           None \<Rightarrow> Some (False, sess)
         | Some (k1, k2) \<Rightarrow> add_cookies enc st \<lparr>ctx_algorithm = a, c2s = k1, s2c = k2\<rparr> (map (cfg_nonces cfg) [0..<8]) sess)) =
      Some (ok, sess') \<and> building sess sess'" for np a
  proof -
    have "\<forall>r\<in>set (response_records cfg compliant np a). fst (snd r) \<noteq> 0" by (auto simp: response_records_def split: option.splits)
    from r [OF this] obtain ok sess' where s: "add_records (response_records cfg compliant np a) (NKSN_BeginMessage sess) = Some (ok, sess')" "building sess sess'" by blast
    show ?thesis unfolding s(1) using s(2) add_cookies_building [OF assms(1) n s(2)]
      by (auto split: bool.splits option.splits)
  qed
  have fin: "\<exists>ok sess'. (case r of None \<Rightarrow> None | Some (False, sess) \<Rightarrow> Some (False, sess) | Some (True, sess) \<Rightarrow> NKSN_EndMessage sess) =
    Some (ok, sess') \<and> built sess ok sess'" if "\<exists>ok sess'. r = Some (ok, sess') \<and> building sess sess'" for r
    using that finish_built by blast
  show ?thesis
  proof (cases error)
    case (Some e)
    show ?thesis unfolding prepare_response_def Let_def Some option.case by (rule fin [OF r]) simp
  next
    case None
    note error = None
    show ?thesis
    proof (cases next_protocol)
      case None
      show ?thesis unfolding prepare_response_def Let_def error None option.case by (rule fin [OF r]) simp
    next
      case (Some np)
      note np = Some
      show ?thesis
      proof (cases aead)
        case None
        show ?thesis unfolding prepare_response_def Let_def error np None option.case by (rule fin [OF r]) simp
      next
        case (Some a)
        show ?thesis unfolding prepare_response_def Let_def error np Some option.case response_records_def [symmetric]
          by (rule fin [OF full])
      qed
    qed
  qed
qed

lemma process_request_built:
  assumes "nks_ok st" "cfg_ok cfg" "msg_ok (message sess)" "complete (message sess)"
  shows "\<exists>ok sess'. process_request export enc cfg st sess = Some (ok, sess') \<and> built sess ok sess'"
proof -
  let ?body = "request_record (cfg_gcm cfg) (cfg_aeads cfg)"
  obtain s p where l: "record_loop (\<lambda>s. rq_error s \<noteq> None) ?body empty_request sess = Some (s, sess\<lparr>message := (message sess)\<lparr>parsed := p\<rparr>\<rparr>)"
    by (rule record_loop_total [OF assms(3,4)])
  have d: "length (msg_data (message (sess\<lparr>message := (message sess)\<lparr>parsed := p\<rparr>\<rparr>))) = 16384" using assms(3) by (simp add: msg_ok_def)
  obtain error where "process_request export enc cfg st sess =
      prepare_response export enc cfg st (sess\<lparr>message := (message sess)\<lparr>parsed := p\<rparr>\<rparr>) error (rq_next_protocol s) (rq_aead s) (rq_compliant s)"
    unfolding process_request_def l option.case prod.case Let_def by blast
  moreover obtain ok sess' where
    "prepare_response export enc cfg st (sess\<lparr>message := (message sess)\<lparr>parsed := p\<rparr>\<rparr>) error (rq_next_protocol s) (rq_aead s) (rq_compliant s) =
      Some (ok, sess')" "built (sess\<lparr>message := (message sess)\<lparr>parsed := p\<rparr>\<rparr>) ok sess'"
    using prepare_response_built [OF assms(1,2) d] by blast
  ultimately show ?thesis by (auto simp: built_def)
qed

text \<open>A server with valid keys and a configuration that gives it random bytes.\<close>

typedef valid_server = "{(cfg, st). cfg_ok cfg \<and> nks_ok st}"
proof -
  have "length (server_keys (\<lparr>nks_initialised = False, server_keys = replicate 4 undefined, current_server_key = 0\<rparr>)) = 4" by simp
  from NKS_Initialise_ok [OF this, of "replicate 4 (replicate 32 0, 0)"] obtain st where "nks_ok st" by auto
  moreover have "cfg_ok \<lparr>cfg_gcm = False, cfg_aeads = [], cfg_port = 123, cfg_ntp_server = None, cfg_nonces = (\<lambda>_. replicate 16 0)\<rparr>"
    by (simp add: cfg_ok_def)
  ultimately show ?thesis by blast
qed

definition server_handler :: "exporter \<Rightarrow> cipher_encrypt \<Rightarrow> valid_server \<Rightarrow> NKSN_Instance \<Rightarrow> (bool \<times> NKSN_Instance) option" where
  "server_handler export enc srv = process_request export enc (fst (Rep_valid_server srv)) (snd (Rep_valid_server srv))"

lemma server_handler_eq: "cfg_ok cfg \<Longrightarrow> nks_ok st \<Longrightarrow> server_handler export enc (Abs_valid_server (cfg, st)) = process_request export enc cfg st"
  by (simp add: server_handler_def Abs_valid_server_inverse)

interpretation ks: message_handler "server_handler export enc srv" True
proof unfold_locales
  fix inst :: NKSN_Instance
  assume r: "received inst"
  obtain cfg st where s: "Rep_valid_server srv = (cfg, st)" "cfg_ok cfg" "nks_ok st" using Rep_valid_server [of srv] by auto
  from r have "msg_ok (message inst)" "complete (message inst)" by (simp_all add: received_def)
  from process_request_built [OF s(3,2) this, of export enc] obtain ok sess' where
    "server_handler export enc srv inst = Some (ok, sess')" "built inst ok sess'" by (auto simp: server_handler_def s)
  then show "\<exists>ok m new. server_handler export enc srv inst = Some (ok, inst\<lparr>message := m, new_message := new\<rparr>) \<and> msg_ok m \<and>
      (ok \<and> True \<longrightarrow> new \<and> complete m \<and> sent m < msg_length m)"
    unfolding built_def by blast
qed

text \<open>The client's handler, as the session sees it.\<close>

definition client_handler :: "exporter \<Rightarrow> bool \<Rightarrow> nat list \<Rightarrow> (bytes \<Rightarrow> IPAddr option) \<Rightarrow> NKC_Instance \<Rightarrow> NKSN_Instance \<Rightarrow> (bool \<times> NKSN_Instance) option" where
  "client_handler export gcm aeads string_to_ip nkc sess =
     map_option (\<lambda>(ok, nkc). (ok, session nkc)) (client_handle_message export gcm aeads string_to_ip (nkc\<lparr>session := sess\<rparr>))"

lemma client_handle_message_session:
  assumes "process_response gcm aeads nkc = Some (ok, nkc')"
  shows "map_option (\<lambda>r. session (snd r)) (client_handle_message export gcm aeads string_to_ip nkc) = Some (session nkc')"
proof (cases ok)
  case False
  with assms show ?thesis by (simp add: client_handle_message_def)
next
  case True
  with assms have p: "process_response gcm aeads nkc = Some (True, nkc')" by simp
  show ?thesis
  proof (cases "ctx_algorithm (nke_context nkc') = 30 \<and> \<not> compliant_128gcm nkc'")
    case True
    then show ?thesis unfolding client_handle_message_def p option.case prod.case bool.case
      by (simp add: Let_def del: map_option_eq_Some split: option.split prod.split)
  next
    case False
    then show ?thesis unfolding client_handle_message_def p option.case prod.case bool.case
      by (simp only: if_False simp_thms Let_def) (simp del: map_option_eq_Some split: option.split prod.split)
  qed
qed

lemma process_response_total:
  assumes "msg_ok (message (session nkc))" "complete (message (session nkc))"
  obtains ok nkc' p where "process_response gcm aeads nkc = Some (ok, nkc')"
    "session nkc' = (session nkc)\<lparr>message := (message (session nkc))\<lparr>parsed := p\<rparr>\<rparr>" "msg_ok ((message (session nkc))\<lparr>parsed := p\<rparr>)"
proof -
  let ?nkc = "nkc\<lparr>compliant_128gcm := False, alt_context := (alt_context nkc)\<lparr>ctx_algorithm := AEAD_SIV_INVALID\<rparr>,
    cookies := [], ntp_ip := IPADDR_UNSPEC, ntp_port := 0, server_name := []\<rparr>"
  obtain s p where l: "record_loop rs_error (response_record gcm aeads)
      \<lparr>rs_error = False, rs_next_protocol = None, rs_aead = None, rs_nkc = ?nkc\<rparr> (session nkc) =
      Some (s, (session nkc)\<lparr>message := (message (session nkc))\<lparr>parsed := p\<rparr>\<rparr>)" "msg_ok ((message (session nkc))\<lparr>parsed := p\<rparr>)"
    by (rule record_loop_total [OF assms])
  then have "process_response gcm aeads nkc =
      Some (\<not> (rs_error s \<or> cookies (rs_nkc s) = [] \<or> rs_next_protocol s \<noteq> Some 0 \<or> rs_aead s = None),
        (rs_nkc s)\<lparr>session := (session nkc)\<lparr>message := (message (session nkc))\<lparr>parsed := p\<rparr>\<rparr>\<rparr>)"
    by (simp add: process_response_def)
  then show thesis by (rule that [OF _ _ l(2)]) simp
qed

interpretation kc: message_handler "client_handler export gcm aeads string_to_ip nkc" False
proof unfold_locales
  fix inst :: NKSN_Instance
  assume "received inst"
  then have "msg_ok (message inst)" "complete (message inst)" by (simp_all add: received_def)
  then obtain ok nkc' p where p: "process_response gcm aeads (nkc\<lparr>session := inst\<rparr>) = Some (ok, nkc')"
    "session nkc' = inst\<lparr>message := (message inst)\<lparr>parsed := p\<rparr>\<rparr>" "msg_ok ((message inst)\<lparr>parsed := p\<rparr>)"
    using process_response_total [of "nkc\<lparr>session := inst\<rparr>" gcm aeads] by simp blast
  from client_handle_message_session [OF p(1), of export string_to_ip] obtain ok nkc'' where
    "client_handle_message export gcm aeads string_to_ip (nkc\<lparr>session := inst\<rparr>) = Some (ok, nkc'')" "session nkc'' = session nkc'"
    by auto
  then have "client_handler export gcm aeads string_to_ip nkc inst =
      Some (ok, inst\<lparr>message := (message inst)\<lparr>parsed := p\<rparr>, new_message := new_message inst\<rparr>)"
    by (simp add: client_handler_def p(2))
  with p(3) show "\<exists>ok m new. client_handler export gcm aeads string_to_ip nkc inst = Some (ok, inst\<lparr>message := m, new_message := new\<rparr>) \<and> msg_ok m \<and>
      (ok \<and> False \<longrightarrow> new \<and> complete m \<and> sent m < msg_length m)"
    by blast
qed

section \<open>The sessions of the two ends\<close>

text \<open>A session of the server and its keys: the events of the session, and the rotation of the keys between them.\<close>

inductive server_step :: "exporter \<Rightarrow> cipher_encrypt \<Rightarrow> NKS_Config \<Rightarrow> bool \<Rightarrow> NKSN_Instance \<times> NKS_State \<Rightarrow> NKSN_Instance \<times> NKS_State \<Rightarrow> bool"
  for export enc cfg gcm where
  event: "session_step (process_request export enc cfg st) sess sess' \<Longrightarrow> server_step export enc cfg gcm (sess, st) (sess', st)"
| rotation: "32 \<le> length rnd_key \<Longrightarrow> key_timeout gcm rnd_key rnd_id st = Some st' \<Longrightarrow> server_step export enc cfg gcm (sess, st) (sess, st')"

lemma server_step_ok:
  assumes "server_step export enc cfg gcm (sess, st) (sess', st')" "cfg_ok cfg" "nks_ok st" "session_ok sess" "server sess"
  shows "nks_ok st' \<and> session_ok sess' \<and> server sess' \<and> rank sess \<le> rank sess'"
  using assms(1)
proof cases
  case event
  with ks.session_step_ok [of export enc "Abs_valid_server (cfg, st)" sess sess'] server_handler_eq [OF assms(2,3)] assms
  show ?thesis by simp
next
  case (rotation rnd_key rnd_id)
  with key_timeout_ok [OF assms(3) rotation(2), of gcm rnd_id] assms show ?thesis by (metis option.inject order_refl)
qed

lemma server_reach_ok:
  assumes "(server_step export enc cfg gcm)\<^sup>*\<^sup>* x y" "cfg_ok cfg" "nks_ok (snd x)" "session_ok (fst x)" "server (fst x)"
  shows "nks_ok (snd y) \<and> session_ok (fst y) \<and> server (fst y) \<and> rank (fst x) \<le> rank (fst y)"
  using assms
proof (induction rule: rtranclp_induct)
  case base
  then show ?case by simp
next
  case (step y z)
  obtain sess st sess' st' where "y = (sess, st)" "z = (sess', st')" by (cases y, cases z)
  with server_step_ok [of export enc cfg gcm sess st sess' st'] step show ?case by fastforce
qed

text \<open>
  C14.  The session of a server with a connected client, from its start: whatever the client sends, in
  whatever pieces, whatever TLS returns, and however the keys are rotated between the events, no
  assertion fails in any event of the socket, the session only moves forward through its states,
  keeps its invariant - in particular it never sends without a complete response - and the
  four keys stay valid.
\<close>

theorem server_session_safe:
  assumes "ke_state inst = KE_STOPPED" "server inst" "length (msg_data (message inst)) = 16384"
    "NKSN_StartSession inst fd True = Some (ok, sess0)" "cfg_ok cfg" "nks_ok st0"
    and "(server_step export enc cfg gcm)\<^sup>*\<^sup>* (sess0, st0) (sess, st)"
  shows "session_ok sess \<and> nks_ok st \<and> rank sess0 \<le> rank sess \<and>
    (ke_state sess \<noteq> KE_STOPPED \<longrightarrow> tls_receive_ok (16384 - msg_length (message sess)) (receive tls) \<longrightarrow>
      (\<exists>sess'. read_write_socket (process_request export enc cfg st) sess writable tls = Some sess' \<and> rank sess \<le> rank sess'))"
proof -
  have "session_ok sess0" "server sess0" using NKSN_StartSession_ok [OF assms(1,3,4)] assms(2) by simp_all
  with server_reach_ok [OF assms(7,5)] assms(6) have s: "nks_ok st" "session_ok sess" "server sess" "rank sess0 \<le> rank sess" by simp_all
  with ks.socket_event_ok [of sess tls export enc "Abs_valid_server (cfg, st)" writable] server_handler_eq [OF assms(5) s(1)]
  show ?thesis by auto
qed

text \<open>The records of the request.\<close>

definition request_records :: "bool \<Rightarrow> nat list \<Rightarrow> (bool \<times> nat \<times> bytes) list" where
  "request_records gcm aeads =
     (let algs = collect_aeads gcm aeads 0 in
      [(True, 1, htons (of_nat 0)), (True, 4, concat (map (\<lambda>a. htons (of_nat a)) algs))] @
      (if \<exists>a\<in>set algs. htons (of_nat a) = htons (of_nat 30) then [(False, 1024, [])] else []))"

lemma finish_case:
  "(case (case x of None \<Rightarrow> None | Some (False, s) \<Rightarrow> Some (False, s) | Some (True, s) \<Rightarrow> f s) of
      None \<Rightarrow> None | Some (False, s) \<Rightarrow> Some (False, s) | Some (True, s) \<Rightarrow> g s) =
   (case x of None \<Rightarrow> None | Some (False, s) \<Rightarrow> Some (False, s) | Some (True, s) \<Rightarrow>
     (case f s of None \<Rightarrow> None | Some (False, s) \<Rightarrow> Some (False, s) | Some (True, s) \<Rightarrow> g s))"
  by (cases x) (auto split: bool.splits)

lemma prepare_request_eq: "prepare_request gcm aeads sess = build_message (request_records gcm aeads) sess"
  unfolding prepare_request_def build_message_def request_records_def Let_def
  by (cases "\<exists>a\<in>set (collect_aeads gcm aeads 0). htons (of_nat a) = htons (of_nat 30)")
    (simp_all only: if_True if_False append.simps add_records.simps finish_case option.case bool.case prod.case)

lemma prepare_request_built:
  assumes "length (msg_data (message sess)) = 16384"
  shows "\<exists>ok sess'. prepare_request gcm aeads sess = Some (ok, sess') \<and> built sess ok sess'"
proof -
  have "\<forall>r\<in>set (request_records gcm aeads). fst (snd r) \<noteq> 0" by (auto simp: request_records_def Let_def)
  from building_add_records [OF building_begin [OF assms] this] obtain ok sess' where
    "add_records (request_records gcm aeads) (NKSN_BeginMessage sess) = Some (ok, sess')" "building sess sess'" .
  then show ?thesis using finish_built [of _ ok sess' sess] by (simp only: build_message_def prepare_request_eq)
qed

lemma NKSN_StartSession_total:
  "ke_state inst = KE_STOPPED \<Longrightarrow> NKSN_StartSession inst fd tls_created \<noteq> None"
  by (auto simp: NKSN_StartSession_def Let_def change_state_def)

lemma NKC_Start_ok:
  assumes "\<not> server (session nkc)" "length (msg_data (message (session nkc))) = 16384" "\<not> NKC_IsActive nkc"
  shows "case NKC_Start gcm aeads credentials fd tls_created nkc of None \<Rightarrow> False
    | Some (ok, nkc') \<Rightarrow> ok \<longrightarrow> session_ok (session nkc') \<and> \<not> server (session nkc')"
proof -
  have k: "ke_state (session nkc) = KE_STOPPED" using assms(3) by (simp add: NKC_IsActive_def NKSN_IsStopped_def)
  then obtain ok sess where s: "NKSN_StartSession (session nkc) fd tls_created = Some (ok, sess)"
    using NKSN_StartSession_total [OF k] by fastforce
  show ?thesis
  proof (cases tls_created)
    case False
    then show ?thesis using assms(3) k by (simp add: NKC_Start_def Let_def NKSN_StartSession_def)
  next
    case True
    note st = NKSN_StartSession_ok [OF k assms(2), of fd ok sess]
    have o: "ok" "\<not> server sess" "length (msg_data (message sess)) = 16384" using st(1,2,4) s True assms(1) by simp_all
    from prepare_request_built [OF o(3)] obtain ok' sess' where p: "prepare_request gcm aeads sess = Some (ok', sess')" "built sess ok' sess'" by blast
    then have "session_ok sess' \<and> \<not> server sess'" if ok' using st(5) s True assms(1) o that by (auto simp: built_def)
    with s o(1) p(1) assms(3) show ?thesis by (cases ok') (simp_all add: NKC_Start_def Let_def)
  qed
qed

text \<open>
  C32.  The session of a client, from its start: whatever the server sends, in whatever pieces, and
  whatever TLS returns, no assertion fails in any event of the socket or in the handling of the
  response, the session only moves forward through its states and keeps its invariant - in
  particular it sends only a complete request.  The steps are those with any state of the
  other parts of the client.
\<close>

theorem client_session_safe:
  assumes "\<not> server (session nkc)" "length (msg_data (message (session nkc))) = 16384" "\<not> NKC_IsActive nkc"
    "NKC_Start gcm aeads credentials fd tls_created nkc = Some (True, nkc0)"
    and "(\<lambda>sess sess'. \<exists>nkc. session_step (client_handler export gcm aeads string_to_ip nkc) sess sess')\<^sup>*\<^sup>* (session nkc0) sess"
  shows "session_ok sess \<and> rank (session nkc0) \<le> rank sess \<and>
    (ke_state sess \<noteq> KE_STOPPED \<longrightarrow> tls_receive_ok (16384 - msg_length (message sess)) (receive tls) \<longrightarrow>
      (\<exists>sess'. read_write_socket (client_handler export gcm aeads string_to_ip nkc1) sess writable tls = Some sess' \<and> rank sess \<le> rank sess'))"
proof -
  have s0: "session_ok (session nkc0)" "\<not> server (session nkc0)"
    using NKC_Start_ok [OF assms(1-3), of gcm aeads credentials fd tls_created] assms(4) by simp_all
  have "session_ok sess \<and> \<not> server sess \<and> rank (session nkc0) \<le> rank sess" using assms(5)
  proof (induction rule: rtranclp_induct)
    case base
    then show ?case using s0 by simp
  next
    case (step y z)
    then obtain nkc where "session_step (client_handler export gcm aeads string_to_ip nkc) y z" by blast
    with kc.session_step_ok [OF this] step.IH show ?case by auto
  qed
  with kc.socket_event_ok [of sess tls export gcm aeads string_to_ip nkc1 writable] show ?thesis by auto
qed

end
