(* ===== verification/NtsKeAgreement.thy ===== *)
theory NtsKeAgreement
  imports NtsKeProtocol
begin

text \<open>
  The whole exchange of NTS-KE: the request that a client prepares, the response of the server to it,
  and what the client gets from the response.
\<close>

section \<open>The request\<close>

lemma values16_htons: "values16 (htons x @ bs) = unat x # values16 bs"
proof -
  obtain a b where h: "htons x = [a, b]" by (simp add: htons_def)
  then have "ntohs a b = x" using ntohs_htons [of x] by simp
  then show ?thesis by (simp add: h)
qed

lemma values16_list: "\<forall>a\<in>set as. a < 65536 \<Longrightarrow> values16 (concat (map (\<lambda>a. htons (of_nat a)) as)) = as"
  by (induction as) (simp_all add: values16_htons unat_of_nat)

lemma values16_one: "a < 65536 \<Longrightarrow> values16 (htons (of_nat a)) = [a]"
  using values16_list [of "[a]"] by simp

lemma length_htons_list: "length (concat (map (\<lambda>a. htons (of_nat a)) as)) = 2 * length as"
  by (induction as) simp_all

lemma collect_aeads_props:
  "a \<in> set (collect_aeads gcm aeads n) \<Longrightarrow> SIV_GetKeyLength gcm a > 0 \<and> a \<in> set aeads"
  "n \<le> 4 \<Longrightarrow> length (collect_aeads gcm aeads n) + n \<le> 4"
  by (induction gcm aeads n rule: collect_aeads.induct) (auto split: if_splits)

lemma aead_values: "SIV_GetKeyLength gcm a > 0 \<Longrightarrow> a = 15 \<and> SIV_GetKeyLength gcm a = 32 \<or> a = 30 \<and> SIV_GetKeyLength gcm a = 16"
  by (auto simp: SIV_GetKeyLength_def split: if_splits)

text \<open>The server takes the first algorithm of the request that it supports.\<close>

lemma select_first:
  "foldl (select_aead gcm aeads) None as = List.find (\<lambda>a. a \<in> set aeads \<and> SIV_GetKeyLength gcm a > 0) as"
proof -
  have "foldl (select_aead gcm aeads) (Some a) as = Some a" for a as by (induction as) (simp_all add: select_aead_def)
  then show ?thesis by (induction as) (auto simp: select_aead_def)
qed

definition delivered :: "Message \<Rightarrow> NKSN_Instance \<Rightarrow> bool" where
  "delivered m sess \<longleftrightarrow> msg_ok (message sess) \<and> complete (message sess) \<and> parsed (message sess) = 0 \<and>
     content (message sess) = content m \<and> tls_session sess"

lemma delivered_records:
  assumes "length (msg_data (message sess0)) = 16384" "\<forall>r\<in>set rs. valid_record r \<and> \<not> is_end r" "length (concat (map enc_record rs)) + 4 \<le> 16384"
  obtains sess where "build_message rs sess0 = Some (True, sess)" "\<And>sess'. delivered (message sess) sess' \<Longrightarrow> pending_records sess' = rs"
proof -
  obtain d where b: "build_message rs sess0 = Some (True, sess0\<lparr>message := \<lparr>msg_length = length (concat (map enc_record rs)) + 4, sent = 0,
      parsed = 0, complete = True, msg_data = d\<rparr>, new_message := True\<rparr>)"
    and d: "take (length (concat (map enc_record rs)) + 4) d = concat (map enc_record rs) @ enc_record (True, 0, [])"
    by (rule build_message_spec [OF assms])
  have "takeWhile (\<lambda>r. \<not> is_end r) (rs @ [(True, 0, [])]) = rs"
    using assms(2) by (simp add: takeWhile_append is_end_def)
  then show thesis using d whole_message_records(1) [OF assms(2)]
    by (intro that [OF b]) (simp add: delivered_def pending_records_def todo_def content_def)
qed

lemma request_valid:
  "\<forall>r\<in>set (request_records gcm aeads). valid_record r \<and> \<not> is_end r" "length (concat (map enc_record (request_records gcm aeads))) + 4 \<le> 16384"
proof -
  have "length (collect_aeads gcm aeads 0) \<le> 4" using collect_aeads_props(2) [of 0] by simp
  then show "\<forall>r\<in>set (request_records gcm aeads). valid_record r \<and> \<not> is_end r"
    "length (concat (map enc_record (request_records gcm aeads))) + 4 \<le> 16384"
    by (auto simp: request_records_def Let_def valid_record_def is_end_def enc_record_def length_htons_list [simplified] simp del: length_concat)
qed

lemma request_processed:
  assumes "List.find (\<lambda>a. a \<in> set (cfg_aeads cfg) \<and> SIV_GetKeyLength (cfg_gcm cfg) a > 0) (collect_aeads gcm aeads 0) = Some a"
  shows "run_records (\<lambda>s. rq_error s \<noteq> None) (request_record (cfg_gcm cfg) (cfg_aeads cfg)) empty_request
      (map (truncated 256) (request_records gcm aeads)) =
    \<lparr>rq_error = None, np_records = 1, np_values = 1, aead_records = 1, aead_values = length (collect_aeads gcm aeads 0),
     rq_next_protocol = Some 0, rq_aead = Some a, rq_compliant = (30 \<in> set (collect_aeads gcm aeads 0))\<rparr>"
proof -
  let ?algs = "collect_aeads gcm aeads 0"
  have l: "length ?algs \<le> 4" "?algs \<noteq> []" using collect_aeads_props(2) [of 0] assms by auto
  have s: "\<forall>a\<in>set ?algs. a < 65536" 
  proof
    fix a
    assume "a \<in> set ?algs"
    then have "SIV_GetKeyLength gcm a > 0" using collect_aeads_props(1) by blast
    from aead_values [OF this] show "a < 65536" by auto
  qed
  have c: "(\<exists>a\<in>set ?algs. htons (of_nat a) = htons (of_nat 30)) = (30 \<in> set ?algs)"
  proof -
    have "a = 30" if "a \<in> set ?algs" "htons (of_nat a) = htons (of_nat 30)" for a
      using values16_one [of a] values16_one [of 30] s that by auto
    then show ?thesis by blast
  qed
  have "1 \<le> length ?algs" using l(2) by (cases ?algs) auto
  then show ?thesis unfolding request_records_def Let_def c
    using l values16_list [OF s] length_htons_list [of ?algs] assms values16_one [of 0]
    by (simp add: truncated_def request_record_def empty_request_def select_first del: length_concat)
qed

section \<open>The response\<close>

lemma add_records_append:
  "add_records (xs @ ys) sess =
    (case add_records xs sess of None \<Rightarrow> None | Some (False, sess) \<Rightarrow> Some (False, sess) | Some (True, sess) \<Rightarrow> add_records ys sess)"
proof (induction xs arbitrary: sess)
  case Nil
  show ?case by simp
next
  case (Cons r xs)
  show ?case by (cases r) (simp only: append.simps add_records.simps finish_case Cons.IH)
qed

lemma add_cookies_records:
  "list_all2 (\<lambda>rnd c. NKS_GenerateCookie enc st rnd ctx = Some (Some c)) rnds cs \<Longrightarrow>
    add_cookies enc st ctx rnds sess = add_records (map (\<lambda>c. (False, 5, c)) cs) sess"
  by (induction rnds cs arbitrary: sess rule: list_all2_induct) (auto split: option.splits bool.splits)

text \<open>
  What is assumed of the key exporter of TLS: it gives keys of the length that is asked for (the same on
  both ends).
\<close>

definition exporter_ok :: "exporter \<Rightarrow> bool" where
  "exporter_ok export \<longleftrightarrow> (\<forall>context len. \<exists>k. export context len = Some k \<and> length k = len)"

definition exported :: "exporter \<Rightarrow> nat \<Rightarrow> NKE_Context" where
  "exported export a =
     (let len = (if a = 30 then 16 else 32); key = (\<lambda>d. the (export (htons 0 @ htons (of_nat a) @ [d]) len)) in
      \<lparr>ctx_algorithm = a, c2s = key 0, s2c = key 1\<rparr>)"

lemma GetKeys_exported:
  assumes "exporter_ok export" "SIV_GetKeyLength gcm a > 0" "tls_session sess"
  shows "NKSN_GetKeys export gcm sess a a 0 = Some (c2s (exported export a), s2c (exported export a))" "valid_context (exported export a)"
proof -
  obtain K where e: "\<And>c n. export c n = Some (K c n)" "\<And>c n. length (K c n) = n"
    using assms(1) unfolding exporter_ok_def by metis
  have "a = 15 \<and> SIV_GetKeyLength gcm a = 32 \<or> a = 30 \<and> SIV_GetKeyLength gcm a = 16" using aead_values [OF assms(2)] .
  then show "valid_context (exported export a)" "NKSN_GetKeys export gcm sess a a 0 = Some (c2s (exported export a), s2c (exported export a))"
    using e assms(3) by (auto simp: exported_def valid_context_def Let_def NKSN_GetKeys_def)
qed

definition name_ok :: "NKS_Config \<Rightarrow> bool" where
  "name_ok cfg = (case cfg_ntp_server cfg of None \<Rightarrow> True | Some name \<Rightarrow> name \<noteq> [] \<and> length name \<le> 256 \<and> list_all isgraph name)"

lemma response_built:
  assumes "length (msg_data (message sess)) = 16384" "tls_session sess" "exporter_ok export" "SIV_GetKeyLength (cfg_gcm cfg) a > 0"
    "list_all2 (\<lambda>rnd c. NKS_GenerateCookie enc st rnd (exported export a) = Some (Some c)) (map (cfg_nonces cfg) [0..<8]) cs"
    "a = 30 \<Longrightarrow> compliant"
  shows "prepare_response export enc cfg st sess None (Some 0) (Some a) compliant =
    build_message (response_records cfg compliant 0 a @ map (\<lambda>c. (False, 5, c)) cs) sess"
proof -
  let ?b = "NKSN_BeginMessage sess"
  have "\<forall>r\<in>set (response_records cfg compliant 0 a). fst (snd r) \<noteq> 0" by (auto simp: response_records_def split: option.splits)
  from building_add_records [OF building_begin [OF assms(1)] this] obtain ok sess' where
    r: "add_records (response_records cfg compliant 0 a) ?b = Some (ok, sess')" "building sess sess'" .
  have t: "tls_session sess'" using building_tls [OF r(2)] assms(2) by simp
  have x: "\<lparr>ctx_algorithm = a, c2s = c2s (exported export a), s2c = s2c (exported export a)\<rparr> = exported export a"
    by (simp add: exported_def Let_def)
  have e: "(if a = 30 \<and> \<not> compliant then 15 else a) = a" using assms(6) by auto
  show ?thesis
    unfolding prepare_response_def build_message_def add_records_append Let_def option.case response_records_def [symmetric] r(1) e
      GetKeys_exported(1) [OF assms(3,4) t] prod.case x
    by (cases ok) (simp_all only: bool.case option.case prod.case GetKeys_exported(1) [OF assms(3,4) t] x add_cookies_records [OF assms(5)])
qed

section \<open>The client\<close>

lemma run_records_append: "run_records failed body s (xs @ ys) = run_records failed body (run_records failed body s xs) ys"
proof (induction xs arbitrary: s)
  case (Cons x xs)
  have "run_records failed body s ys = s" if "failed s" using that by (cases ys) simp_all
  with Cons show ?case by simp
qed simp

lemma cookies_read:
  assumes "\<not> rs_error s" "\<forall>c\<in>set cs. 0 < length c \<and> length c \<le> 256 \<and> length c mod 4 = 0" "length (cookies (rs_nkc s)) + length cs \<le> 8"
  shows "run_records rs_error (response_record gcm aeads) s (map (truncated 256) (map (\<lambda>c. (False, 5, c)) cs)) =
    s\<lparr>rs_nkc := (rs_nkc s)\<lparr>cookies := cookies (rs_nkc s) @ cs\<rparr>\<rparr>"
  using assms
proof (induction cs arbitrary: s)
  case (Cons c cs)
  have "response_record gcm aeads s (truncated 256 (False, 5, c)) = s\<lparr>rs_nkc := (rs_nkc s)\<lparr>cookies := cookies (rs_nkc s) @ [c]\<rparr>\<rparr>"
    using Cons.prems by (auto simp: response_record_def truncated_def)
  with Cons.IH [of "s\<lparr>rs_nkc := (rs_nkc s)\<lparr>cookies := cookies (rs_nkc s) @ [c]\<rparr>\<rparr>"] Cons.prems show ?case by simp
qed simp

lemma response_read:
  assumes "a < 65536" "a \<in> set aeads" "SIV_GetKeyLength gcm a > 0" "cfg_port cfg < 65536" "name_ok cfg"
    and s: "\<not> rs_error s" "compliant_128gcm (rs_nkc s) = False" "server_name (rs_nkc s) = []" "ntp_port (rs_nkc s) = 0" "cookies (rs_nkc s) = []"
  obtains s' where "run_records rs_error (response_record gcm aeads) s (map (truncated 256) (response_records cfg compliant 0 a)) = s'"
    "\<not> rs_error s'" "rs_next_protocol s' = Some 0" "rs_aead s' = Some a" "ctx_algorithm (nke_context (rs_nkc s')) = a"
    "cookies (rs_nkc s') = []" "compliant_128gcm (rs_nkc s') = (a = 30 \<and> compliant)" "resolving_name (rs_nkc s') = resolving_name (rs_nkc s)"
    "ntp_port (rs_nkc s') = (if cfg_port cfg = 123 then 0 else cfg_port cfg)"
    "server_name (rs_nkc s') = (case cfg_ntp_server cfg of None \<Rightarrow> [] | Some name \<Rightarrow> name)"
proof -
  let ?body = "response_record gcm aeads"
  let ?run = "\<lambda>s rs. run_records rs_error ?body s (map (truncated 256) rs)"
  let ?s1 = "s\<lparr>rs_next_protocol := Some 0, rs_aead := Some a, rs_nkc := (rs_nkc s)\<lparr>nke_context := (nke_context (rs_nkc s))\<lparr>ctx_algorithm := a\<rparr>\<rparr>\<rparr>"
  let ?f2 = "\<lambda>s. if a = 30 \<and> compliant then s\<lparr>rs_nkc := (rs_nkc s)\<lparr>compliant_128gcm := True\<rparr>\<rparr> else s"
  let ?f3 = "\<lambda>s. if cfg_port cfg \<noteq> 123 then s\<lparr>rs_nkc := (rs_nkc s)\<lparr>ntp_port := cfg_port cfg\<rparr>\<rparr> else s"
  let ?f4 = "\<lambda>s. case cfg_ntp_server cfg of None \<Rightarrow> s | Some name \<Rightarrow> s\<lparr>rs_nkc := (rs_nkc s)\<lparr>server_name := name\<rparr>\<rparr>"
  have 1: "?run s [(True, 1, htons (of_nat 0)), (True, 4, htons (of_nat a))] = ?s1" "\<not> rs_error ?s1"
    using s(1) values16_one [of 0] values16_one [OF assms(1)] assms(2,3) by (simp_all add: truncated_def response_record_def Let_def)
  have 2: "?run s (if a = 30 \<and> compliant then [(False, 1024, [])] else []) = ?f2 s" "\<not> rs_error (?f2 s)" if "\<not> rs_error s" for s
    using that by (simp_all add: truncated_def response_record_def)
  have 3: "?run s (if cfg_port cfg \<noteq> 123 then [(True, 7, htons (of_nat (cfg_port cfg)))] else []) = ?f3 s" "\<not> rs_error (?f3 s)"
    if "\<not> rs_error s" for s
    using that values16_one [OF assms(4)] by (simp_all add: truncated_def response_record_def)
  have 4: "?run s (case cfg_ntp_server cfg of None \<Rightarrow> [] | Some name \<Rightarrow> [(True, 6, name)]) = ?f4 s" if "\<not> rs_error s" for s
  proof (cases "cfg_ntp_server cfg")
    case (Some name)
    then have n: "\<not> length name < 1" "\<not> length name > 256" "\<not> length name \<ge> 256 + 2" "list_all isgraph name" "take 256 name = name"
      using assms(5) by (simp_all add: name_ok_def Suc_le_eq)
    have "response_record gcm aeads s (True, 6, length name, name) = s\<lparr>rs_nkc := (rs_nkc s)\<lparr>server_name := name\<rparr>\<rparr>"
      unfolding response_record_def prod.case Let_def if_not_P [OF n(2)] using n(1,3,4) by simp
    with that n(5) Some show ?thesis by (simp add: truncated_def)
  qed simp
  have "?run s (response_records cfg compliant 0 a) = ?f4 (?f3 (?f2 ?s1))"
    unfolding response_records_def map_append run_records_append 1(1) 2(1) [OF 1(2)] 3(1) [OF 2(2) [OF 1(2)]] 4 [OF 3(2) [OF 2(2) [OF 1(2)]]] ..
  then show thesis by (rule that) (use s in \<open>auto split: option.splits\<close>)
qed

lemma response_processed:
  assumes "msg_ok (message (session nkc))" "complete (message (session nkc))"
    "pending_records (session nkc) = response_records cfg compliant 0 a @ map (\<lambda>c. (False, 5, c)) cs"
    "a \<in> set aeads" "SIV_GetKeyLength gcm a > 0" "cfg_port cfg < 65536" "name_ok cfg"
    "cs \<noteq> []" "length cs \<le> 8" "\<forall>c\<in>set cs. 0 < length c \<and> length c \<le> 256 \<and> length c mod 4 = 0"
  obtains nkc' where "process_response gcm aeads nkc = Some (True, nkc')" "ctx_algorithm (nke_context nkc') = a" "cookies nkc' = cs"
    "compliant_128gcm nkc' = (a = 30 \<and> compliant)" "resolving_name nkc' = resolving_name nkc"
    "ntp_port nkc' = (if cfg_port cfg = 123 then 0 else cfg_port cfg)"
    "server_name nkc' = (case cfg_ntp_server cfg of None \<Rightarrow> [] | Some name \<Rightarrow> name)" "tls_session (session nkc') = tls_session (session nkc)"
proof -
  let ?nkc = "nkc\<lparr>compliant_128gcm := False, alt_context := (alt_context nkc)\<lparr>ctx_algorithm := AEAD_SIV_INVALID\<rparr>,
    cookies := [], ntp_ip := IPADDR_UNSPEC, ntp_port := 0, server_name := []\<rparr>"
  let ?s = "\<lparr>rs_error = False, rs_next_protocol = None, rs_aead = None, rs_nkc = ?nkc\<rparr>"
  have "a < 65536" using aead_values [OF assms(5)] by auto
  then obtain s' where s': "run_records rs_error (response_record gcm aeads) ?s (map (truncated 256) (response_records cfg compliant 0 a)) = s'"
    "\<not> rs_error s'" "rs_next_protocol s' = Some 0" "rs_aead s' = Some a" "ctx_algorithm (nke_context (rs_nkc s')) = a"
    "cookies (rs_nkc s') = []" "compliant_128gcm (rs_nkc s') = (a = 30 \<and> compliant)" "resolving_name (rs_nkc s') = resolving_name nkc"
    "ntp_port (rs_nkc s') = (if cfg_port cfg = 123 then 0 else cfg_port cfg)"
    "server_name (rs_nkc s') = (case cfg_ntp_server cfg of None \<Rightarrow> [] | Some name \<Rightarrow> name)"
    using response_read [OF _ assms(4-7), of ?s compliant] by auto
  have r: "run_records rs_error (response_record gcm aeads) ?s (map (truncated 256) (pending_records (session nkc))) =
      s'\<lparr>rs_nkc := (rs_nkc s')\<lparr>cookies := cs\<rparr>\<rparr>"
    unfolding assms(3) map_append run_records_append s'(1)
    using cookies_read [OF s'(2) assms(10), of gcm aeads] assms(9) s'(6) by simp
  from record_loop_spec [OF assms(1,2), of rs_error "response_record gcm aeads" ?s] obtain p where
    l: "record_loop rs_error (response_record gcm aeads) ?s (session nkc) =
      Some (s'\<lparr>rs_nkc := (rs_nkc s')\<lparr>cookies := cs\<rparr>\<rparr>, (session nkc)\<lparr>message := (message (session nkc))\<lparr>parsed := p\<rparr>\<rparr>)"
    unfolding r by blast
  have "process_response gcm aeads nkc =
      Some (True, (rs_nkc s')\<lparr>cookies := cs, session := (session nkc)\<lparr>message := (message (session nkc))\<lparr>parsed := p\<rparr>\<rparr>\<rparr>)"
    using l s'(2-4) assms(8) by (simp add: process_response_def)
  then show thesis by (rule that) (use s' in \<open>simp_all\<close>)
qed

lemma response_handled:
  assumes "process_response gcm aeads nkc = Some (True, nkc')" "ctx_algorithm (nke_context nkc') = a"
    "compliant_128gcm nkc' = (a = 30)" "\<not> resolving_name nkc'" "tls_session (session nkc')" "exporter_ok export" "SIV_GetKeyLength gcm a > 0"
    "length (server_name nkc') \<le> 256"
  obtains nkc'' where "client_handle_message export gcm aeads string_to_ip nkc = Some (True, nkc'')" "got_response nkc''"
    "nke_context nkc'' = exported export a" "cookies nkc'' = cookies nkc'" "ntp_port nkc'' = ntp_port nkc'"
proof -
  have i: "(a = 30 \<and> \<not> compliant_128gcm nkc') = False" using assms(3) by auto
  let ?n = "nkc'\<lparr>alt_context := (alt_context nkc')\<lparr>c2s := c2s (alt_context nkc'), s2c := s2c (alt_context nkc')\<rparr>,
    nke_context := exported export a\<rparr>"
  have e: "(nke_context nkc')\<lparr>c2s := c2s (exported export a), s2c := s2c (exported export a)\<rparr> = exported export a"
    using assms(2) by (cases "nke_context nkc'") (simp add: exported_def Let_def)
  note g = GetKeys_exported(1) [OF assms(6,7)]
  have h: "client_handle_message export gcm aeads string_to_ip nkc =
      (if server_name ?n = [] then Some (True, ?n\<lparr>got_response := True\<rparr>)
       else case string_to_ip (server_name ?n) of
         Some ip \<Rightarrow> Some (True, ?n\<lparr>ntp_ip := ip, got_response := True\<rparr>)
       | None \<Rightarrow> Some (True, ?n\<lparr>server_name := (if last (server_name ?n) = 0x2e then server_name ?n else server_name ?n @ [0x2e]),
            resolving_name := True, got_response := True\<rparr>))"
    unfolding client_handle_message_def assms(1) option.case prod.case bool.case Let_def assms(2) i if_False
    using g [of "session nkc'"] assms(4,5,8) e by (simp add: assms(2) split: option.split)
  show thesis
  proof (cases "server_name ?n = []")
    case True
    then show thesis by (intro that [of "?n\<lparr>got_response := True\<rparr>"]) (simp_all add: h)
  next
    case False
    then have h: "client_handle_message export gcm aeads string_to_ip nkc = (case string_to_ip (server_name ?n) of
         Some ip \<Rightarrow> Some (True, ?n\<lparr>ntp_ip := ip, got_response := True\<rparr>)
       | None \<Rightarrow> Some (True, ?n\<lparr>server_name := (if last (server_name ?n) = 0x2e then server_name ?n else server_name ?n @ [0x2e]),
            resolving_name := True, got_response := True\<rparr>))" unfolding h by (rule if_not_P)
    show thesis
    proof (cases "string_to_ip (server_name ?n)")
      case None
      show thesis by (rule that [OF h [unfolded None option.case]]) simp_all
    next
      case (Some ip)
      show thesis by (rule that [OF h [unfolded Some option.case]]) simp_all
    qed
  qed
qed

section \<open>The exchange\<close>

lemma cookies_made:
  assumes "siv_cipher enc dec" "nks_ok st" "nks_initialised st" "valid_context ctx" "cfg_ok cfg"
  obtains cs where "list_all2 (\<lambda>rnd c. NKS_GenerateCookie enc st rnd ctx = Some (Some c)) (map (cfg_nonces cfg) [0..<8]) cs" "length cs = 8"
    "\<forall>c\<in>set cs. NKS_DecodeCookie dec st c = Some (Some ctx)" "\<forall>c\<in>set cs. 0 < length c \<and> length c \<le> 100 \<and> length c mod 4 = 0"
proof -
  have "\<exists>c. NKS_GenerateCookie enc st (cfg_nonces cfg i) ctx = Some (Some c) \<and> NKS_DecodeCookie dec st c = Some (Some ctx) \<and>
      0 < length c \<and> length c \<le> 100 \<and> length c mod 4 = 0" for i
    using cookie_decoded [OF assms(1,2,2,3,3,4), of "cfg_nonces cfg i"] assms(5) unfolding cfg_ok_def by metis
  then obtain C where "\<And>i. NKS_GenerateCookie enc st (cfg_nonces cfg i) ctx = Some (Some (C i)) \<and> NKS_DecodeCookie dec st (C i) = Some (Some ctx) \<and>
      0 < length (C i) \<and> length (C i) \<le> 100 \<and> length (C i) mod 4 = 0" by metis
  then show thesis by (intro that [of "map C [0..<8]"]) (auto simp: list_all2_conv_all_nth)
qed

lemma response_valid:
  assumes "length cs = 8" "\<forall>c\<in>set cs. length c \<le> 100" "name_ok cfg"
  shows "\<forall>r\<in>set (response_records cfg compliant 0 a @ map (\<lambda>c. (False, 5, c)) cs). valid_record r \<and> \<not> is_end r"
    "length (concat (map enc_record (response_records cfg compliant 0 a @ map (\<lambda>c. (False, 5, c)) cs))) + 4 \<le> 16384"
proof -
  show "\<forall>r\<in>set (response_records cfg compliant 0 a @ map (\<lambda>c. (False, 5, c)) cs). valid_record r \<and> \<not> is_end r"
    using assms by (fastforce simp: response_records_def name_ok_def valid_record_def is_end_def split: option.splits)
  have "length (concat (map enc_record (map (\<lambda>c. (False, 5, c)) cs))) \<le> 104 * length cs"
    using assms(2) by (induction cs) (auto simp: enc_record_def simp del: length_concat)
  moreover have "length (concat (map enc_record (response_records cfg compliant 0 a))) \<le> 290"
    using assms(3) by (auto simp: response_records_def name_ok_def enc_record_def split: option.splits)
  ultimately show "length (concat (map enc_record (response_records cfg compliant 0 a @ map (\<lambda>c. (False, 5, c)) cs))) + 4 \<le> 16384"
    using assms(1) by (simp del: length_concat)
qed

lemma request_answered:
  assumes "msg_ok (message sess)" "complete (message sess)" "tls_session sess" "pending_records sess = request_records gcm aeads"
    "List.find (\<lambda>a. a \<in> set (cfg_aeads cfg) \<and> SIV_GetKeyLength (cfg_gcm cfg) a > 0) (collect_aeads gcm aeads 0) = Some a"
    "exporter_ok export" "name_ok cfg" "length cs = 8" "\<forall>c\<in>set cs. length c \<le> 100"
    "list_all2 (\<lambda>rnd c. NKS_GenerateCookie enc st rnd (exported export a) = Some (Some c)) (map (cfg_nonces cfg) [0..<8]) cs"
  obtains resp where "process_request export enc cfg st sess = Some (True, resp)"
    "\<And>s. delivered (message resp) s \<Longrightarrow>
      pending_records s = response_records cfg (30 \<in> set (collect_aeads gcm aeads 0)) 0 a @ map (\<lambda>c. (False, 5, c)) cs"
proof -
  let ?algs = "collect_aeads gcm aeads 0"
  let ?rs = "response_records cfg (30 \<in> set ?algs) 0 a @ map (\<lambda>c. (False, 5, c)) cs"
  have a: "a \<in> set ?algs" "SIV_GetKeyLength (cfg_gcm cfg) a > 0" using assms(5) by (auto simp: find_Some_iff)
  from record_loop_spec [OF assms(1,2), of "\<lambda>s. rq_error s \<noteq> None" "request_record (cfg_gcm cfg) (cfg_aeads cfg)" empty_request] obtain p where
    l: "record_loop (\<lambda>s. rq_error s \<noteq> None) (request_record (cfg_gcm cfg) (cfg_aeads cfg)) empty_request sess =
      Some (\<lparr>rq_error = None, np_records = 1, np_values = 1, aead_records = 1, aead_values = length ?algs, rq_next_protocol = Some 0,
        rq_aead = Some a, rq_compliant = (30 \<in> set ?algs)\<rparr>, sess\<lparr>message := (message sess)\<lparr>parsed := p\<rparr>\<rparr>)"
    unfolding assms(4) request_processed [OF assms(5)] by blast
  let ?s = "sess\<lparr>message := (message sess)\<lparr>parsed := p\<rparr>\<rparr>"
  have d: "length (msg_data (message ?s)) = 16384" using assms(1) by (simp add: msg_ok_def)
  have "\<not> length ?algs < 1" using a(1) by (cases ?algs) auto
  then have "process_request export enc cfg st sess = prepare_response export enc cfg st ?s None (Some 0) (Some a) (30 \<in> set ?algs)"
    unfolding process_request_def l option.case prod.case Let_def by simp
  also have "\<dots> = build_message ?rs ?s"
    using a(1) assms(3) by (intro response_built [OF d _ assms(6) a(2) assms(10)]) auto
  finally have r: "process_request export enc cfg st sess = build_message ?rs ?s" .
  from delivered_records [OF d response_valid [OF assms(8,9,7)]] obtain resp where
    "build_message ?rs ?s = Some (True, resp)" "\<And>s. delivered (message resp) s \<Longrightarrow> pending_records s = ?rs" by blast
  with r show thesis by (intro that) simp_all
qed

lemma response_accepted:
  assumes "msg_ok (message (session nkc))" "complete (message (session nkc))" "tls_session (session nkc)" "\<not> resolving_name nkc"
    "pending_records (session nkc) = response_records cfg compliant 0 a @ map (\<lambda>c. (False, 5, c)) cs" "a = 30 \<Longrightarrow> compliant"
    "a \<in> set aeads" "SIV_GetKeyLength gcm a > 0" "cfg_port cfg < 65536" "name_ok cfg" "exporter_ok export"
    "length cs = 8" "\<forall>c\<in>set cs. 0 < length c \<and> length c \<le> 100 \<and> length c mod 4 = 0"
  obtains nkc' where "client_handle_message export gcm aeads string_to_ip nkc = Some (True, nkc')" "got_response nkc'"
    "nke_context nkc' = exported export a" "ntp_port nkc' = (if cfg_port cfg = 123 then 0 else cfg_port cfg)" "cookies nkc' = cs"
proof -
  have c: "cs \<noteq> []" "length cs \<le> 8" "\<forall>c\<in>set cs. 0 < length c \<and> length c \<le> 256 \<and> length c mod 4 = 0" using assms(12,13) by auto
  from response_processed [OF assms(1,2,5,7-10) c] obtain nkc1 where
    n: "process_response gcm aeads nkc = Some (True, nkc1)" "ctx_algorithm (nke_context nkc1) = a" "cookies nkc1 = cs"
    "compliant_128gcm nkc1 = (a = 30 \<and> compliant)" "resolving_name nkc1 = resolving_name nkc"
    "ntp_port nkc1 = (if cfg_port cfg = 123 then 0 else cfg_port cfg)"
    "server_name nkc1 = (case cfg_ntp_server cfg of None \<Rightarrow> [] | Some name \<Rightarrow> name)" "tls_session (session nkc1) = tls_session (session nkc)" .
  have h: "compliant_128gcm nkc1 = (a = 30)" "\<not> resolving_name nkc1" "tls_session (session nkc1)" "length (server_name nkc1) \<le> 256"
    using n assms(3,4,6,10) by (auto simp: name_ok_def split: option.splits)
  from response_handled [OF n(1,2) h(1-3) assms(11,8) h(4), of string_to_ip] show thesis using that n by metis
qed

text \<open>
  C12.  The exchange of NTS-KE: when the client and the server have a common algorithm, the request of the
  client is built and accepted, the response has the first algorithm of the client's list that the
  server supports, the client accepts it, and then the client has the keys of that algorithm that
  the TLS session exports, the port of the server, and eight cookies, each of which the server decodes
  to exactly the client's algorithm and keys.
\<close>

theorem ke_agreement:
  assumes "siv_cipher enc dec" "exporter_ok export" "nks_ok st" "nks_initialised st" "cfg_ok cfg" "cfg_port cfg < 65536" "name_ok cfg"
    and "List.find (\<lambda>a. a \<in> set (cfg_aeads cfg) \<and> SIV_GetKeyLength (cfg_gcm cfg) a > 0) (collect_aeads gcm aeads 0) = Some a"
    and "length (msg_data (message sess)) = 16384"
  shows "\<exists>req. prepare_request gcm aeads sess = Some (True, req) \<and>
    (\<forall>sess1. delivered (message req) sess1 \<longrightarrow>
      (\<exists>resp. process_request export enc cfg st sess1 = Some (True, resp) \<and>
        (\<forall>nkc. delivered (message resp) (session nkc) \<and> \<not> resolving_name nkc \<longrightarrow>
          (\<exists>nkc'. client_handle_message export gcm aeads string_to_ip nkc = Some (True, nkc') \<and> got_response nkc' \<and>
            nke_context nkc' = exported export a \<and> ntp_port nkc' = (if cfg_port cfg = 123 then 0 else cfg_port cfg) \<and>
            length (cookies nkc') = 8 \<and> (\<forall>c\<in>set (cookies nkc'). NKS_DecodeCookie dec st c = Some (Some (nke_context nkc')))))))"
proof -
  have a: "a \<in> set (collect_aeads gcm aeads 0)" using assms(8) by (auto simp: find_Some_iff)
  then have k: "SIV_GetKeyLength gcm a > 0" "a \<in> set aeads" using collect_aeads_props(1) by blast+
  from delivered_records [OF assms(9) request_valid] obtain req where
    q: "prepare_request gcm aeads sess = Some (True, req)" "\<And>s. delivered (message req) s \<Longrightarrow> pending_records s = request_records gcm aeads"
    unfolding prepare_request_eq by blast
  have v: "valid_context (exported export a)"
    using GetKeys_exported(2) [OF assms(2) k(1), of "undefined\<lparr>tls_session := True\<rparr>"] by simp
  from cookies_made [OF assms(1,3,4) v assms(5)] obtain cs where
    cs: "list_all2 (\<lambda>rnd c. NKS_GenerateCookie enc st rnd (exported export a) = Some (Some c)) (map (cfg_nonces cfg) [0..<8]) cs" "length cs = 8"
    "\<forall>c\<in>set cs. NKS_DecodeCookie dec st c = Some (Some (exported export a))" "\<forall>c\<in>set cs. 0 < length c \<and> length c \<le> 100 \<and> length c mod 4 = 0" .
  show ?thesis
  proof (rule exI [of _ req], intro conjI allI impI)
    show "prepare_request gcm aeads sess = Some (True, req)" by (rule q(1))
  next
    fix sess1
    assume d: "delivered (message req) sess1"
    then have m: "msg_ok (message sess1)" "complete (message sess1)" "tls_session sess1" by (simp_all add: delivered_def)
    from request_answered [OF m q(2) [OF d] assms(8,2,7) cs(2) _ cs(1)] cs(4) obtain resp where
      r: "process_request export enc cfg st sess1 = Some (True, resp)" "\<And>s. delivered (message resp) s \<Longrightarrow>
        pending_records s = response_records cfg (30 \<in> set (collect_aeads gcm aeads 0)) 0 a @ map (\<lambda>c. (False, 5, c)) cs" by blast
    have "\<exists>nkc'. client_handle_message export gcm aeads string_to_ip nkc = Some (True, nkc') \<and> got_response nkc' \<and>
        nke_context nkc' = exported export a \<and> ntp_port nkc' = (if cfg_port cfg = 123 then 0 else cfg_port cfg) \<and> cookies nkc' = cs"
      if c: "delivered (message resp) (session nkc)" "\<not> resolving_name nkc" for nkc
    proof -
      have "msg_ok (message (session nkc))" "complete (message (session nkc))" "tls_session (session nkc)" using c(1) by (simp_all add: delivered_def)
      from response_accepted [OF this c(2) r(2) [OF c(1)] _ k(2,1) assms(6,7,2) cs(2,4), of string_to_ip] a show ?thesis by metis
    qed
    with r(1) cs(2,3) show "\<exists>resp. process_request export enc cfg st sess1 = Some (True, resp) \<and>
        (\<forall>nkc. delivered (message resp) (session nkc) \<and> \<not> resolving_name nkc \<longrightarrow>
          (\<exists>nkc'. client_handle_message export gcm aeads string_to_ip nkc = Some (True, nkc') \<and> got_response nkc' \<and>
            nke_context nkc' = exported export a \<and> ntp_port nkc' = (if cfg_port cfg = 123 then 0 else cfg_port cfg) \<and>
            length (cookies nkc') = 8 \<and> (\<forall>c\<in>set (cookies nkc'). NKS_DecodeCookie dec st c = Some (Some (nke_context nkc')))))"
      by metis
  qed
qed

end
