(* ===== verification/NtsNtpServer.thy ===== *)
theory NtsNtpServer
  imports NtsAuth NtsKeAgreement
begin

text \<open>
  The server of NTS-protected NTP: \<open>nts_ntp_server.c\<close>.  The cookies of the state are the first
  \<open>num_cookies\<close> ones.  \<open>nks\<close> are the keys of the NTS-KE server, \<open>rnd\<close> the random bytes of the
  nonce, and \<open>rnds\<close> those of the new cookies.
\<close>

abbreviation (input) MODE_CLIENT :: int where "MODE_CLIENT \<equiv> 3"
abbreviation (input) MODE_SERVER :: int where "MODE_SERVER \<equiv> 4"
abbreviation (input) NTP_KOD_NTS_NAK :: u32 where "NTP_KOD_NTS_NAK \<equiv> 0x4e54534e"
abbreviation (input) NTS_MAX_COOKIES :: nat where "NTS_MAX_COOKIES \<equiv> 8"
abbreviation (input) NTP_MAX_EXTENSIONS_LENGTH :: nat where "NTP_MAX_EXTENSIONS_LENGTH \<equiv> 1092"

section \<open>Definitions\<close>

record NtsServer =
  sivs :: "SIV_Instance option list"
  siv_algorithms :: "nat list"
  nns_nonce :: bytes
  nns_cookies :: "bytes list"
  siv_index :: int
  req_tx :: bytes

text \<open>\<open>None\<close> is the fatal error.  \<open>enabled\<close> is whether there are certificates for the NTS-KE server.\<close>

definition NNS_Initialise :: "bool \<Rightarrow> bool \<Rightarrow> NtsServer \<Rightarrow> NtsServer option option" where
  "NNS_Initialise gcm enabled memory =
     (if \<not> enabled then Some None
      else
        let algs = [AEAD_AES_SIV_CMAC_256, AEAD_AES_128_GCM_SIV];
            srv = memory\<lparr>siv_algorithms := algs, sivs := map (SIV_CreateInstance gcm) algs\<rparr> in
        if sivs srv ! 0 = None then None else Some (Some srv))"

text \<open>The variables of \<open>NNS_CheckRequestAuth\<close> that are set by the loop over the fields.\<close>

record RequestScan =
  has_uniq_id :: bool
  has_auth :: bool
  found_cookie :: "bytes option"
  requested_cookies :: nat
  cookie_length :: int
  auth_start :: int

definition count_cookie :: "int \<Rightarrow> RequestScan \<Rightarrow> RequestScan option" where
  "count_cookie ef_body_length s =
     (let s = s\<lparr>requested_cookies := requested_cookies s + 1\<rparr> in
      if cookie_length s \<ge> 0 \<and> cookie_length s \<noteq> ef_body_length then None
      else Some (s\<lparr>cookie_length := ef_body_length\<rparr>))"

definition request_field :: "bytes \<Rightarrow> int \<Rightarrow> int \<Rightarrow> int \<times> int \<times> nat \<times> int \<Rightarrow> RequestScan \<Rightarrow> RequestScan option" where
  "request_field packet len pos ef s = (case ef of (ef_length, ef_type, ef_body, ef_body_length) \<Rightarrow>
     if ef_type = NTP_EF_NTS_UNIQUE_IDENTIFIER then Some (s\<lparr>has_uniq_id := True\<rparr>)
     else if ef_type = NTP_EF_NTS_COOKIE then
       if found_cookie s \<noteq> None \<or> ef_body_length > int NKE_MAX_COOKIE_LENGTH then None
       else count_cookie ef_body_length (s\<lparr>found_cookie := Some (take (nat ef_body_length) (drop ef_body packet))\<rparr>)
     else if ef_type = NTP_EF_NTS_COOKIE_PLACEHOLDER then count_cookie ef_body_length s
     else if ef_type = NTP_EF_NTS_AUTH_AND_EEF then
       if pos + ef_length \<noteq> len then None
       else Some (s\<lparr>auth_start := pos, has_auth := True\<rparr>)
     else Some s)"

text \<open>
  The loops over the extension fields of a packet: \<open>body\<close> gives the new variables, or nothing when
  the function returns 0.  \<open>Some None\<close> is the return value 0.
\<close>

function field_loop :: "(int \<Rightarrow> int \<times> int \<times> nat \<times> int \<Rightarrow> 's \<Rightarrow> 's ret) \<Rightarrow> bytes \<Rightarrow> int \<Rightarrow> int \<Rightarrow> 's \<Rightarrow> 's ret" where
  "field_loop body packet len pos s =
     (if \<not> pos < len then Some (Some s)
      else case NEF_ParseField packet len pos of
          None \<Rightarrow> None
        | Some None \<Rightarrow> Some None
        | Some (Some (ef_length, ef)) \<Rightarrow>
            (case body pos (ef_length, ef) s of
               None \<Rightarrow> None
             | Some None \<Rightarrow> Some None
             | Some (Some s) \<Rightarrow> field_loop body packet len (pos + ef_length) s))"
  by pat_completeness auto
termination
  by (relation "measure (\<lambda>(body, packet, len, pos, s). nat (len - pos))")
    (auto simp: NEF_ParseField_def Let_def split: if_splits option.splits)

declare field_loop.simps [simp del]

text \<open>The loop over the encrypted fields of a request.\<close>

function scan_encrypted :: "bytes \<Rightarrow> int \<Rightarrow> int \<Rightarrow> nat \<Rightarrow> nat ret" where
  "scan_encrypted plaintext pos cookie_len requested =
     (if \<not> pos < int (length plaintext) then Some (Some requested)
      else case NEF_ParseSingleField plaintext (int (length plaintext)) pos of
          None \<Rightarrow> None
        | Some None \<Rightarrow> Some None
        | Some (Some (ef_length, ef_type, ef_body, ef_body_length)) \<Rightarrow>
            if ef_type = NTP_EF_NTS_COOKIE_PLACEHOLDER then
              if cookie_len \<noteq> ef_body_length then Some None
              else scan_encrypted plaintext (pos + ef_length) cookie_len (requested + 1)
            else scan_encrypted plaintext (pos + ef_length) cookie_len requested)"
  by pat_completeness auto
termination
  by (relation "measure (\<lambda>(plaintext, pos, _). nat (int (length plaintext) - pos))")
    (auto simp: NEF_ParseSingleField_def Let_def split: if_splits option.splits)

declare scan_encrypted.simps [simp del]

fun make_cookies :: "cipher_encrypt \<Rightarrow> NKS_State \<Rightarrow> NKE_Context \<Rightarrow> bytes list \<Rightarrow> bytes list ret" where
  "make_cookies enc nks ctx [] = Some (Some [])"
| "make_cookies enc nks ctx (rnd # rnds) =
     (case NKS_GenerateCookie enc nks rnd ctx of
        None \<Rightarrow> None
      | Some None \<Rightarrow> Some None
      | Some (Some c) \<Rightarrow> map_option (map_option (\<lambda>cs. c # cs)) (make_cookies enc nks ctx rnds))"

definition NNS_CheckRequestAuth ::
    "cipher_encrypt \<Rightarrow> cipher_decrypt \<Rightarrow> bool \<Rightarrow> NKS_State \<Rightarrow> bytes \<Rightarrow> (nat \<Rightarrow> bytes) \<Rightarrow> NtsServer option \<Rightarrow> bytes \<Rightarrow> NTP_PacketInfo \<Rightarrow>
      (bool \<times> u32 \<times> NtsServer option) option" where
  "NNS_CheckRequestAuth enc dec gcm nks rnd rnds nts packet info =
     (case nts of
        None \<Rightarrow> Some (False, 0, None)
      | Some srv \<Rightarrow>
          let srv = srv\<lparr>nns_cookies := [], siv_index := -1, req_tx := slice packet 40 48\<rparr> in
          if ext_fields info = 0 \<or> mode info \<noteq> MODE_CLIENT then Some (False, 0, Some srv)
          else case field_loop (\<lambda>pos ef s. Some (request_field packet (info_length info) pos ef s)) packet (info_length info) NTP_HEADER_LENGTH
                      \<lparr>has_uniq_id = False, has_auth = False, found_cookie = None, requested_cookies = 0, cookie_length = -1, auth_start = 0\<rparr> of
              None \<Rightarrow> None
            | Some None \<Rightarrow> Some (False, 0, Some srv)
            | Some (Some s) \<Rightarrow>
                (case found_cookie s of
                   None \<Rightarrow> Some (False, 0, Some srv)
                 | Some cookie \<Rightarrow>
                     if \<not> has_uniq_id s \<or> \<not> has_auth s then Some (False, 0, Some srv)
                     else case NKS_DecodeCookie dec nks cookie of
                         None \<Rightarrow> None
                       | Some None \<Rightarrow> Some (False, NTP_KOD_NTS_NAK, Some srv)
                       | Some (Some ctx) \<Rightarrow>
                           let i = length (takeWhile (\<lambda>a. ctx_algorithm ctx \<noteq> a) (siv_algorithms srv)) in
                           if i = length (siv_algorithms srv) then Some (False, 0, Some srv)
                           else case sivs srv ! i of
                               None \<Rightarrow> Some (False, 0, Some srv)
                             | Some siv \<Rightarrow>
                                 let srv = srv\<lparr>siv_index := int i\<rparr> in
                                 (case SIV_SetKey gcm siv (c2s ctx) of
                                    None \<Rightarrow> Some (False, 0, Some srv)
                                  | Some siv \<Rightarrow>
                                      let srv = srv\<lparr>sivs := (sivs srv)[i := Some siv]\<rparr> in
                                      (case NNA_DecryptAuthEF dec packet info siv (auth_start s) (int NTP_MAX_EXTENSIONS_LENGTH) of
                                         None \<Rightarrow> None
                                       | Some None \<Rightarrow> Some (False, NTP_KOD_NTS_NAK, Some srv)
                                       | Some (Some plaintext) \<Rightarrow>
                                           (case scan_encrypted plaintext 0 (cookie_length s) (requested_cookies s) of
                                              None \<Rightarrow> None
                                            | Some None \<Rightarrow> Some (False, 0, Some srv)
                                            | Some (Some requested) \<Rightarrow>
                                                (case SIV_SetKey gcm siv (s2c ctx) of
                                                   None \<Rightarrow> Some (False, 0, Some srv)
                                                 | Some siv \<Rightarrow>
                                                     let srv = srv\<lparr>sivs := (sivs srv)[i := Some siv], nns_nonce := rnd\<rparr> in
                                                     (case make_cookies enc nks ctx (map rnds [0..<min NTS_MAX_COOKIES requested]) of
                                                        None \<Rightarrow> None
                                                      | Some None \<Rightarrow> Some (False, 0, Some srv)
                                                      | Some (Some cs) \<Rightarrow> Some (True, 0, Some (srv\<lparr>nns_cookies := cs\<rparr>)))))))))"

text \<open>The fields of the cookies are put in a buffer of their own.\<close>

fun set_cookies :: "bytes \<Rightarrow> int \<Rightarrow> bytes list \<Rightarrow> (bytes \<times> int) ret" where
  "set_cookies plaintext len [] = Some (Some (plaintext, len))"
| "set_cookies plaintext len (c # cs) =
     (case NEF_SetField plaintext (int NTP_MAX_EXTENSIONS_LENGTH) len NTP_EF_NTS_COOKIE c (int (length c)) of
        None \<Rightarrow> None
      | Some None \<Rightarrow> Some None
      | Some (Some (plaintext, ef_length)) \<Rightarrow>
          if \<not> len + ef_length \<le> int NTP_MAX_EXTENSIONS_LENGTH then None else set_cookies plaintext (len + ef_length) cs)"

definition copy_uniq_id :: "bytes \<Rightarrow> int \<Rightarrow> int \<times> int \<times> nat \<times> int \<Rightarrow> bytes \<times> NTP_PacketInfo \<Rightarrow> (bytes \<times> NTP_PacketInfo) ret" where
  "copy_uniq_id request pos ef r = (case ef of (ef_length, ef_type, ef_body, ef_body_length) \<Rightarrow>
     if ef_type = NTP_EF_NTS_UNIQUE_IDENTIFIER
     then NEF_AddField (fst r) (snd r) ef_type (take (nat ef_body_length) (drop ef_body request)) ef_body_length
     else Some (Some r))"

text \<open>When a field cannot be added, the response is not used; the model returns it without the new fields.\<close>

definition NNS_GenerateResponseAuth ::
    "cipher_encrypt \<Rightarrow> NtsServer option \<Rightarrow> bytes \<Rightarrow> NTP_PacketInfo \<Rightarrow> bytes \<Rightarrow> NTP_PacketInfo \<Rightarrow> u32 \<Rightarrow>
      (bool \<times> NtsServer option \<times> bytes \<times> NTP_PacketInfo) option" where
  "NNS_GenerateResponseAuth enc nts request req_info response res_info kod =
     (case nts of
        None \<Rightarrow> Some (False, None, response, res_info)
      | Some srv \<Rightarrow>
          if mode req_info \<noteq> MODE_CLIENT \<or> mode res_info \<noteq> MODE_SERVER then Some (False, Some srv, response, res_info)
          else if req_tx srv \<noteq> slice request 40 48 then None
          else case field_loop (copy_uniq_id request) request (info_length req_info) NTP_HEADER_LENGTH (response, res_info) of
              None \<Rightarrow> None
            | Some None \<Rightarrow> Some (False, Some srv, response, res_info)
            | Some (Some (response, res_info)) \<Rightarrow>
                if kod = NTP_KOD_NTS_NAK then Some (True, Some srv, response, res_info)
                else case set_cookies (replicate NTP_MAX_EXTENSIONS_LENGTH 0) 0 (nns_cookies srv) of
                    None \<Rightarrow> None
                  | Some None \<Rightarrow> Some (False, Some srv, response, res_info)
                  | Some (Some (plaintext, plaintext_length)) \<Rightarrow>
                      let srv = srv\<lparr>nns_cookies := []\<rparr> in
                      if siv_index srv < 0 then Some (False, Some srv, response, res_info)
                      else case sivs srv ! nat (siv_index srv) of
                          None \<Rightarrow> None
                        | Some siv \<Rightarrow>
                            map_option (\<lambda>(ok, response, res_info). (ok, Some srv, response, res_info))
                              (NNA_GenerateAuthEF enc response res_info siv (nns_nonce srv) NTS_MIN_UNPADDED_NONCE_LENGTH
                                 (take (nat plaintext_length) plaintext) (info_length req_info - info_length res_info)))"

end
