(* ===== verification/NtsNtpClient.thy ===== *)
theory NtsNtpClient
  imports NtsNtpServer Timespec
begin

text \<open>
  The client of NTS-protected NTP: \<open>nts_ntp_client.c\<close>.  The cookies are a ring of eight slots.  Times
  in seconds are real numbers; \<open>now\<close> is the monotonic time of the last event and \<open>refresh\<close> the configured
  interval.
\<close>

abbreviation (input) MAX_TOTAL_COOKIE_LENGTH :: nat where "MAX_TOTAL_COOKIE_LENGTH \<equiv> 8 * 108"
abbreviation (input) NKE_MAX_RETRY_INTERVAL2 :: int where "NKE_MAX_RETRY_INTERVAL2 \<equiv> 19"
abbreviation (input) NTS_MIN_UNIQ_ID_LENGTH :: nat where "NTS_MIN_UNIQ_ID_LENGTH \<equiv> 32"

section \<open>The instance\<close>

record NNC_Instance =
  nts_address :: IPSockAddr
  default_ntp_port :: u16
  ntp_address :: IPSockAddr
  nke :: "NKC_Instance option"
  nnc_siv :: "SIV_Instance option"
  nke_attempts :: int
  next_nke_attempt :: real
  last_nke_success :: real
  nnc_context :: NKE_Context
  nnc_alt_context :: NKE_Context
  context_id :: u32
  nnc_cookies :: "bytes list"
  num_cookies :: nat
  cookie_index :: nat
  auth_ready :: bool
  nak_response :: bool
  ok_response :: bool
  nnc_nonce :: bytes
  uniq_id :: bytes

definition reset_instance :: "NNC_Instance \<Rightarrow> NNC_Instance" where
  "reset_instance inst = inst\<lparr>nke := None, nnc_siv := None, nke_attempts := 0, next_nke_attempt := 0, last_nke_success := 0,
     nnc_context := \<lparr>ctx_algorithm = 0, c2s = [], s2c = []\<rparr>, nnc_alt_context := \<lparr>ctx_algorithm = 0, c2s = [], s2c = []\<rparr>,
     context_id := 0, nnc_cookies := replicate NTS_MAX_COOKIES [], num_cookies := 0, cookie_index := 0, auth_ready := False,
     nak_response := False, ok_response := True, nnc_nonce := replicate 16 0, uniq_id := replicate NTS_MIN_UNIQ_ID_LENGTH 0\<rparr>"

definition check_cookies :: "real \<Rightarrow> int \<Rightarrow> NNC_Instance \<Rightarrow> bool \<times> NNC_Instance" where
  "check_cookies now refresh inst =
     (if num_cookies inst > 0 \<and>
         (nak_response inst \<and> \<not> ok_response inst \<or> now - last_nke_success inst > of_int refresh) then
        if ctx_algorithm (nnc_alt_context inst) \<noteq> AEAD_SIV_INVALID \<and>
           ctx_algorithm (nnc_alt_context inst) = ctx_algorithm (nnc_context inst) \<and>
           nke_attempts inst > 0 \<and> nak_response inst \<and> \<not> ok_response inst
        then (True, inst\<lparr>nnc_context := nnc_alt_context inst, nnc_alt_context := (nnc_alt_context inst)\<lparr>ctx_algorithm := AEAD_SIV_INVALID\<rparr>\<rparr>)
        else (False, inst\<lparr>num_cookies := 0\<rparr>)
      else (num_cookies inst > 0, inst))"

text \<open>\<open>update_source\<close> is whether \<open>NSR_UpdateSourceNtpAddress\<close> can change the address of the source.\<close>

definition set_ntp_address :: "(IPSockAddr \<Rightarrow> IPSockAddr \<Rightarrow> bool) \<Rightarrow> IPSockAddr \<Rightarrow> NNC_Instance \<Rightarrow> bool \<times> NNC_Instance" where
  "set_ntp_address update_source negotiated inst =
     (let old = ntp_address inst;
          new = negotiated;
          new = (if ip_addr new = IPADDR_UNSPEC then new\<lparr>ip_addr := ip_addr (nts_address inst)\<rparr> else new);
          new = (if port new = 0 then new\<lparr>port := default_ntp_port inst\<rparr> else new) in
      if UTI_CompareIPs (ip_addr old) (ip_addr new) None = 0 \<and> port old = port new then (True, inst)
      else if \<not> update_source old new then (False, inst)
      else (True, inst\<lparr>ntp_address := new\<rparr>))"

definition update_next_nke_attempt :: "bool \<Rightarrow> real \<Rightarrow> NNC_Instance \<Rightarrow> NNC_Instance" where
  "update_next_nke_attempt failed_start now inst =
     (if failed_start then inst\<lparr>next_nke_attempt := now + 2\<rparr>
      else case nke inst of
          None \<Rightarrow> inst
        | Some k \<Rightarrow>
            let factor = int (NKSN_GetRetryFactor (session k));
                interval = min (factor + nke_attempts inst - 1) NKE_MAX_RETRY_INTERVAL2 in
            inst\<lparr>next_nke_attempt := now + UTI_Log2ToDouble interval\<rparr>)"

text \<open>
  \<open>create\<close> is the instance made by \<open>NKC_CreateInstance\<close>, \<open>start\<close> is \<open>NKC_Start\<close> with the results of
  the system calls.
\<close>

definition get_cookies ::
    "(IPSockAddr \<Rightarrow> IPSockAddr \<Rightarrow> bool) \<Rightarrow> NKC_Instance \<Rightarrow> (NKC_Instance \<Rightarrow> (bool \<times> NKC_Instance) option) \<Rightarrow> real \<Rightarrow> NNC_Instance \<Rightarrow>
      (bool \<times> NNC_Instance) option" where
  "get_cookies update_source create start now inst =
     (if num_cookies inst \<noteq> 0 then None
      else if nke inst = None \<and> now < next_nke_attempt inst then Some (False, inst)
      else
        case (case nke inst of
                Some k \<Rightarrow> Some (True, inst)
              | None \<Rightarrow> map_option (\<lambda>(ok, k). (ok, inst\<lparr>nke := Some k, nke_attempts := nke_attempts inst + 1\<rparr>)) (start create)) of
          None \<Rightarrow> None
        | Some (started, inst) \<Rightarrow>
            let inst = update_next_nke_attempt (\<not> started) now inst in
            (case nke inst of
               None \<Rightarrow> None
             | Some k \<Rightarrow>
                 if NKC_IsActive k then Some (False, inst)
                 else case NKC_GetNtsData k NTS_MAX_COOKIES of
                     None \<Rightarrow> Some (False, inst\<lparr>nke := None\<rparr>)
                   | Some (ctx, alt, cs, ip, p) \<Rightarrow>
                       let inst = inst\<lparr>nke := None, nnc_context := ctx, nnc_alt_context := alt, nnc_cookies := memcpy (nnc_cookies inst) 0 cs,
                                       num_cookies := length cs, nnc_siv := None, context_id := context_id inst + 1\<rparr> in
                       (case set_ntp_address update_source \<lparr>ip_addr = ip, port = of_nat p\<rparr> inst of
                          (False, inst) \<Rightarrow> Some (False, inst\<lparr>num_cookies := 0\<rparr>)
                        | (True, inst) \<Rightarrow> Some (True, inst\<lparr>last_nke_success := now, cookie_index := 0\<rparr>))))"

definition NNC_PrepareForAuth ::
    "bool \<Rightarrow> (NNC_Instance \<Rightarrow> (bool \<times> NNC_Instance) option) \<Rightarrow> real \<Rightarrow> int \<Rightarrow> bytes \<Rightarrow> bytes \<Rightarrow> NNC_Instance \<Rightarrow> (bool \<times> NNC_Instance) option" where
  "NNC_PrepareForAuth gcm get_new now refresh rnd_id rnd_nonce inst =
     (let inst = inst\<lparr>auth_ready := False, uniq_id := rnd_id, nnc_nonce := rnd_nonce\<rparr> in
      case (case check_cookies now refresh inst of
              (True, inst) \<Rightarrow> Some (True, inst)
            | (False, inst) \<Rightarrow> get_new inst) of
        None \<Rightarrow> None
      | Some (False, inst) \<Rightarrow> Some (False, inst)
      | Some (True, inst) \<Rightarrow>
          let inst = inst\<lparr>nak_response := False\<rparr>;
              inst = (if nnc_siv inst = None then inst\<lparr>nnc_siv := SIV_CreateInstance gcm (ctx_algorithm (nnc_context inst))\<rparr> else inst) in
          (case nnc_siv inst of
             None \<Rightarrow> Some (False, inst)
           | Some siv \<Rightarrow>
               (case SIV_SetKey gcm siv (c2s (nnc_context inst)) of
                  None \<Rightarrow> Some (False, inst)
                | Some siv \<Rightarrow> Some (True, inst\<lparr>nnc_siv := Some siv, auth_ready := True\<rparr>))))"

section \<open>Requests\<close>

fun add_placeholders :: "nat \<Rightarrow> nat \<Rightarrow> bytes \<Rightarrow> NTP_PacketInfo \<Rightarrow> (bytes \<times> NTP_PacketInfo) ret" where
  "add_placeholders 0 len packet info = Some (Some (packet, info))"
| "add_placeholders (Suc n) len packet info =
     (case NEF_AddBlankField packet info NTP_EF_NTS_COOKIE_PLACEHOLDER (int len) of
        None \<Rightarrow> None
      | Some None \<Rightarrow> Some None
      | Some (Some (packet, info, ef_body)) \<Rightarrow>
          if ef_body + len > length packet then None
          else add_placeholders n len (memcpy packet ef_body (replicate len 0)) info)"

text \<open>When a field cannot be added, the packet is not sent; the model returns it without the new fields.\<close>

definition NNC_GenerateRequestAuth ::
    "cipher_encrypt \<Rightarrow> NNC_Instance \<Rightarrow> bytes \<Rightarrow> NTP_PacketInfo \<Rightarrow> (bool \<times> NNC_Instance \<times> bytes \<times> NTP_PacketInfo) option" where
  "NNC_GenerateRequestAuth enc inst packet info =
     (if \<not> auth_ready inst then Some (False, inst, packet, info)
      else
        let inst = inst\<lparr>auth_ready := False\<rparr> in
        if num_cookies inst \<le> 0 then Some (False, inst, packet, info)
        else case nnc_siv inst of
            None \<Rightarrow> Some (False, inst, packet, info)
          | Some siv \<Rightarrow>
              if mode info \<noteq> MODE_CLIENT then Some (False, inst, packet, info)
              else if cookie_index inst \<ge> length (nnc_cookies inst) then None
              else
                let cookie = nnc_cookies inst ! cookie_index inst;
                    inst = inst\<lparr>num_cookies := num_cookies inst - 1, cookie_index := (cookie_index inst + 1) mod NTS_MAX_COOKIES\<rparr>;
                    req_cookies = min (int NTS_MAX_COOKIES - int (num_cookies inst)) (int (MAX_TOTAL_COOKIE_LENGTH div (length cookie + 4))) in
                (case NEF_AddField packet info NTP_EF_NTS_UNIQUE_IDENTIFIER (uniq_id inst) (int NTS_MIN_UNIQ_ID_LENGTH) of
                   None \<Rightarrow> None
                 | Some None \<Rightarrow> Some (False, inst, packet, info)
                 | Some (Some (packet, info)) \<Rightarrow>
                     (case NEF_AddField packet info NTP_EF_NTS_COOKIE cookie (int (length cookie)) of
                        None \<Rightarrow> None
                      | Some None \<Rightarrow> Some (False, inst, packet, info)
                      | Some (Some (packet, info)) \<Rightarrow>
                          (case add_placeholders (nat (req_cookies - 1)) (length cookie) packet info of
                             None \<Rightarrow> None
                           | Some None \<Rightarrow> Some (False, inst, packet, info)
                           | Some (Some (packet, info)) \<Rightarrow>
                               (case NNA_GenerateAuthEF enc packet info siv (nnc_nonce inst) NTS_MIN_UNPADDED_NONCE_LENGTH [] (NTP_MAX_V4_MAC_LENGTH + 4) of
                                  None \<Rightarrow> None
                                | Some (False, packet, info) \<Rightarrow> Some (False, inst, packet, info)
                                | Some (True, packet, info) \<Rightarrow> Some (True, inst\<lparr>ok_response := False\<rparr>, packet, info))))))"

section \<open>Responses\<close>

function parse_encrypted_efs :: "bytes \<Rightarrow> int \<Rightarrow> bool option" where
  "parse_encrypted_efs plaintext pos =
     (if \<not> pos < int (length plaintext) then Some True
      else case NEF_ParseSingleField plaintext (int (length plaintext)) pos of
          None \<Rightarrow> None
        | Some None \<Rightarrow> Some False
        | Some (Some (ef_length, _)) \<Rightarrow> parse_encrypted_efs plaintext (pos + ef_length))"
  by pat_completeness auto
termination
  by (relation "measure (\<lambda>(plaintext, pos). nat (int (length plaintext) - pos))")
    (auto simp: NEF_ParseSingleField_def Let_def split: if_splits option.splits)

declare parse_encrypted_efs.simps [simp del]

text \<open>One encrypted field: whether it is an acceptable cookie, and the instance with the cookie saved.\<close>

definition extract_cookie :: "bytes \<Rightarrow> int \<times> int \<times> nat \<times> int \<Rightarrow> NNC_Instance \<Rightarrow> (bool \<times> NNC_Instance) option" where
  "extract_cookie plaintext ef inst = (case ef of (ef_length, ef_type, ef_body, ef_body_length) \<Rightarrow>
     if ef_type \<noteq> NTP_EF_NTS_COOKIE then Some (False, inst)
     else if ef_length < NTP_MIN_EF_LENGTH \<or> ef_body_length > int NKE_MAX_COOKIE_LENGTH then Some (False, inst)
     else if num_cookies inst \<ge> NTS_MAX_COOKIES then Some (True, inst)
     else
       let index = (cookie_index inst + num_cookies inst) mod NTS_MAX_COOKIES in
       if index \<ge> length (nnc_cookies inst) then None
       else Some (True, inst\<lparr>nnc_cookies := (nnc_cookies inst)[index := take (nat ef_body_length) (drop ef_body plaintext)],
                             num_cookies := num_cookies inst + 1\<rparr>))"

function extract_cookies :: "bytes \<Rightarrow> int \<Rightarrow> nat \<Rightarrow> NNC_Instance \<Rightarrow> (bool \<times> NNC_Instance) option" where
  "extract_cookies plaintext pos acceptable inst =
     (if \<not> pos < int (length plaintext) then Some (acceptable > 0, inst)
      else case NEF_ParseSingleField plaintext (int (length plaintext)) pos of
          None \<Rightarrow> None
        | Some None \<Rightarrow> Some (False, inst)
        | Some (Some (ef_length, ef)) \<Rightarrow>
            (case extract_cookie plaintext (ef_length, ef) inst of
               None \<Rightarrow> None
             | Some (ok, inst) \<Rightarrow> extract_cookies plaintext (pos + ef_length) (if ok then acceptable + 1 else acceptable) inst))"
  by pat_completeness auto
termination
  by (relation "measure (\<lambda>(plaintext, pos, _). nat (int (length plaintext) - pos))")
    (auto simp: NEF_ParseSingleField_def Let_def split: if_splits option.splits)

declare extract_cookies.simps [simp del]

text \<open>The variables of \<open>NNC_CheckResponseAuth\<close>; the plaintext is set with \<open>has_valid_auth\<close>.\<close>

record ResponseScan =
  has_valid_uniq_id :: bool
  valid_auth :: "bytes option"

definition response_field :: "cipher_decrypt \<Rightarrow> NNC_Instance \<Rightarrow> SIV_Instance \<Rightarrow> bytes \<Rightarrow> NTP_PacketInfo \<Rightarrow> int \<Rightarrow> int \<times> int \<times> nat \<times> int \<Rightarrow>
    ResponseScan \<Rightarrow> ResponseScan ret" where
  "response_field dec inst siv packet info pos ef s = (case ef of (ef_length, ef_type, ef_body, ef_body_length) \<Rightarrow>
     if ef_type = NTP_EF_NTS_UNIQUE_IDENTIFIER then
       if ef_body_length \<noteq> int NTS_MIN_UNIQ_ID_LENGTH \<or> take NTS_MIN_UNIQ_ID_LENGTH (drop ef_body packet) \<noteq> uniq_id inst then Some None
       else Some (Some (s\<lparr>has_valid_uniq_id := True\<rparr>))
     else if ef_type = NTP_EF_NTS_AUTH_AND_EEF then
       if pos + ef_length \<noteq> info_length info then Some None
       else case NNA_DecryptAuthEF dec packet info siv pos (int NTP_MAX_EXTENSIONS_LENGTH) of
           None \<Rightarrow> None
         | Some None \<Rightarrow> Some None
         | Some (Some plaintext) \<Rightarrow>
             (case parse_encrypted_efs plaintext 0 of
                None \<Rightarrow> None
              | Some False \<Rightarrow> Some None
              | Some True \<Rightarrow> Some (Some (s\<lparr>valid_auth := Some plaintext\<rparr>)))
     else Some (Some s))"

text \<open>The stratum is the second byte of the packet, the reference ID starts at byte 12.\<close>

definition NNC_CheckResponseAuth :: "cipher_decrypt \<Rightarrow> bool \<Rightarrow> NNC_Instance \<Rightarrow> bytes \<Rightarrow> NTP_PacketInfo \<Rightarrow> (bool \<times> NNC_Instance) option" where
  "NNC_CheckResponseAuth dec gcm inst packet info =
     (if ext_fields info = 0 \<or> mode info \<noteq> MODE_SERVER then Some (False, inst)
      else if ok_response inst \<or> auth_ready inst then Some (False, inst)
      else case nnc_siv inst of
          None \<Rightarrow> Some (False, inst)
        | Some siv \<Rightarrow>
            (case SIV_SetKey gcm siv (s2c (nnc_context inst)) of
               None \<Rightarrow> Some (False, inst)
             | Some siv \<Rightarrow>
                 let inst = inst\<lparr>nnc_siv := Some siv\<rparr> in
                 (case field_loop (response_field dec inst siv packet info) packet (info_length info) NTP_HEADER_LENGTH
                         \<lparr>has_valid_uniq_id = False, valid_auth = None\<rparr> of
                    None \<Rightarrow> None
                  | Some None \<Rightarrow> Some (False, inst)
                  | Some (Some s) \<Rightarrow>
                      if \<not> has_valid_uniq_id s \<or> valid_auth s = None then
                        if length packet < 16 then None
                        else if has_valid_uniq_id s \<and> packet ! 1 = 0 \<and> ntohl (drop 12 packet) = NTP_KOD_NTS_NAK
                        then Some (False, inst\<lparr>nak_response := True\<rparr>)
                        else Some (False, inst)
                      else
                        (case extract_cookies (the (valid_auth s)) 0 0 inst of
                           None \<Rightarrow> None
                         | Some (False, inst) \<Rightarrow> Some (False, inst)
                         | Some (True, inst) \<Rightarrow>
                             Some (True, inst\<lparr>ok_response := True, nke_attempts := 0, next_nke_attempt := 0,
                                              nnc_alt_context := (nnc_alt_context inst)\<lparr>ctx_algorithm := AEAD_SIV_INVALID\<rparr>\<rparr>)))))"

section \<open>Saving and loading\<close>

text \<open>The values in the file of a client: the time of the NTS-KE session, the address, the ID, the keys and the cookies.\<close>

record NNC_Dump =
  d_time :: real
  d_address :: IPSockAddr
  d_id :: u32
  d_context :: NKE_Context
  d_cookies :: "bytes list"

text \<open>\<open>clock\<close> is the time of day of the last event, \<open>now\<close> its monotonic time.\<close>

definition save_cookies :: "real \<Rightarrow> real \<Rightarrow> NNC_Instance \<Rightarrow> NNC_Dump option" where
  "save_cookies clock now inst =
     (if num_cookies inst < 1 \<or> \<not> UTI_IsIPReal (ip_addr (nts_address inst)) then None
      else Some \<lparr>d_time = last_nke_success inst - now + clock, d_address = ntp_address inst, d_id = context_id inst,
                 d_context = nnc_context inst, d_cookies = map (\<lambda>i. nnc_cookies inst ! i) [0..<num_cookies inst]\<rparr>)"

text \<open>
  The text of the file, with its identifier and the name of the source, is not modelled; \<open>d\<close> is what is read from it.
  The slots that were filled before an error are out of the ring, which is empty then, and are left as they were.
\<close>

definition load_cookies :: "bool \<Rightarrow> (IPSockAddr \<Rightarrow> IPSockAddr \<Rightarrow> bool) \<Rightarrow> real \<Rightarrow> real \<Rightarrow> NNC_Dump \<Rightarrow> NNC_Instance \<Rightarrow> NNC_Instance" where
  "load_cookies gcm update_source clock now d inst =
     (let inst = inst\<lparr>nnc_siv := None\<rparr>;
          inst = inst\<lparr>nnc_alt_context := (nnc_alt_context inst)\<lparr>ctx_algorithm := AEAD_SIV_INVALID\<rparr>, nnc_context := d_context d\<rparr>;
          failed = (\<lambda>inst. inst\<lparr>nnc_context := \<lparr>ctx_algorithm = 0, c2s = [], s2c = []\<rparr>,
            nnc_alt_context := \<lparr>ctx_algorithm = 0, c2s = [], s2c = []\<rparr>, num_cookies := 0\<rparr>);
          len = length (s2c (d_context d)); cs = take NTS_MAX_COOKIES (d_cookies d) in
      if len \<noteq> SIV_GetKeyLength gcm (ctx_algorithm (d_context d)) \<or> len \<le> 0 \<or> length (c2s (d_context d)) \<noteq> len then failed inst
      else if [] \<in> set cs then failed inst
      else
        let inst = inst\<lparr>nnc_cookies := memcpy (nnc_cookies inst) 0 cs, num_cookies := length cs\<rparr> in
        (case set_ntp_address update_source (d_address d) inst of
           (False, inst) \<Rightarrow> failed inst
         | (True, inst) \<Rightarrow>
             inst\<lparr>last_nke_success := min (d_time d - clock) 0 + now, context_id := d_id d\<rparr>))"

text \<open>\<open>saved\<close> is what the file of the new address holds, if there is one.\<close>

definition NNC_ChangeAddress ::
    "bool \<Rightarrow> (IPSockAddr \<Rightarrow> IPSockAddr \<Rightarrow> bool) \<Rightarrow> real \<Rightarrow> real \<Rightarrow> IPAddr \<Rightarrow> NNC_Dump option \<Rightarrow> NNC_Instance \<Rightarrow> NNC_Dump option \<times> NNC_Instance" where
  "NNC_ChangeAddress gcm update_source clock now addr saved inst =
     (save_cookies clock now inst,
      let inst = reset_instance (inst\<lparr>nts_address := (nts_address inst)\<lparr>ip_addr := addr\<rparr>, ntp_address := (ntp_address inst)\<lparr>ip_addr := addr\<rparr>\<rparr>) in
      case saved of None \<Rightarrow> inst | Some d \<Rightarrow> load_cookies gcm update_source clock now d inst)"

end
