(* ===== verification/NtsExchange.thy ===== *)
theory NtsExchange
  imports NtsNtpClient
begin

text \<open>
  An exchange of NTS-protected NTP: the request of the client, its check on the server, the response
  and its check on the client.
\<close>

section \<open>The fields of a packet\<close>

fun run_fields :: "(nat \<Rightarrow> field \<Rightarrow> 's \<Rightarrow> 's ret) \<Rightarrow> nat \<Rightarrow> field list \<Rightarrow> 's \<Rightarrow> 's ret" where
  "run_fields body pos [] s = Some (Some s)"
| "run_fields body pos (f # fs) s =
     (case body pos f s of None \<Rightarrow> None | Some None \<Rightarrow> Some None | Some (Some s) \<Rightarrow> run_fields body (pos + 4 + length (snd f)) fs s)"

lemma run_fields_append:
  "run_fields body pos (xs @ ys) s =
    (case run_fields body pos xs s of None \<Rightarrow> None | Some None \<Rightarrow> Some None | Some (Some s) \<Rightarrow> run_fields body (pos + length (encode_fields xs)) ys s)"
proof (induction xs arbitrary: pos s)
  case (Cons f xs)
  then show ?case by (auto simp: add.assoc split: option.splits)
qed simp

text \<open>All the fields are well formed and the last one is longer than a MAC.\<close>

definition fields_ok :: "field list \<Rightarrow> bool" where
  "fields_ok fs \<longleftrightarrow> list_all field_ok fs \<and> (fs \<noteq> [] \<longrightarrow> 24 < length (snd (last fs)))"

lemma fields_ok_Cons: "fields_ok (f # fs) \<Longrightarrow> field_ok f \<and> fields_ok fs \<and> 24 < length (encode_fields (f # fs))"
proof -
  assume a: "fields_ok (f # fs)"
  then have "24 < length (encode_fields (f # fs))"
  proof (cases fs rule: rev_cases)
    case (snoc gs g)
    with a have "24 < length (snd g)" by (simp add: fields_ok_def)
    then show ?thesis by (simp add: snoc)
  qed (simp add: fields_ok_def)
  with a show ?thesis by (auto simp: fields_ok_def)
qed

lemma field_loop_fields:
  assumes "length p = 1140" "len \<le> 1140" "len mod 4 = 0" "NTP_LVM_TO_VERSION (p ! 0) = 4"
    and "\<And>pos f s. take (length (snd f)) (drop (pos + 4) p) = snd f \<Longrightarrow> pos + 4 + length (snd f) \<le> len \<Longrightarrow>
      body (int pos) (4 + int (length (snd f)), uint (fst f), pos + 4, int (length (snd f))) s = body' pos f s"
    and "48 \<le> pos" "pos mod 4 = 0" "fields_ok fs" "slice p pos len = encode_fields fs" "pos \<le> len"
  shows "field_loop body p (int len) (int pos) s = run_fields body' pos fs s"
  using assms(6-)
proof (induction fs arbitrary: pos s)
  case Nil
  have "length (slice p pos len) = len - pos" using assms(1,2) by (intro length_slice) simp
  with Nil(4) have "len - pos = 0" by simp
  with Nil show ?case by (simp add: field_loop.simps)
next
  case (Cons f fs)
  note ok = fields_ok_Cons [OF Cons.prems(3)]
  have l: "length (encode_fields (f # fs)) = len - pos" using arg_cong [OF Cons.prems(4), of length] assms(1,2) by simp
  have p: "NEF_ParseField p (int len) (int pos) = Some (Some (4 + int (length (snd f)), uint (fst f), pos + 4, int (length (snd f))))"
    "take (length (snd f)) (drop (pos + 4) p) = snd f"
    using ParseField_encoded [OF assms(2,1,3) Cons.prems(1,2) assms(4), of f "encode_fields fs"] ok l Cons.prems(4) by simp_all
  have e: "pos + 4 + length (snd f) \<le> len" using l Cons.prems(5) by simp
  let ?pos = "pos + 4 + length (snd f)"
  have "slice p ?pos len = drop (4 + length (snd f)) (slice p pos len)" using slice_drop [of p pos "4 + length (snd f)"] by (simp add: add.assoc)
  then have s: "slice p ?pos len = encode_fields fs" using Cons.prems(4) by simp
  have "length (snd f) mod 4 = 0" using ok by (simp add: field_ok_def)
  then have m: "?pos mod 4 = 0" using Cons.prems(2) by presburger
  have n: "int pos + (4 + int (length (snd f))) = int ?pos" by simp
  have lt: "int pos < int len" using e by simp
  show ?case
    using Cons.IH [of ?pos] Cons.prems(1) m ok s e lt assms(5) [OF p(2) e]
    by (subst field_loop.simps) (simp add: p(1) n split: option.split)
qed

section \<open>The encrypted fields\<close>

lemma ParseSingleField_encoded:
  assumes "pos + length (encode_field f) \<le> length q" "drop pos q = encode_field f @ rest" "length (snd f) mod 4 = 0" "length (snd f) + 4 < 65536"
  shows "NEF_ParseSingleField q (int (length q)) (int pos) =
      Some (Some (4 + int (length (snd f)), uint (fst f), pos + 4, int (length (snd f))))"
    "take (length (snd f)) (drop (pos + 4) q) = snd f"
proof -
  have "take 2 (drop pos q) = htons (fst f)" "take 2 (drop 2 (drop pos q)) = htons (of_nat (4 + length (snd f)))"
    "take (length (snd f)) (drop 4 (drop pos q)) = snd f"
    by (simp_all add: assms(2) encode_field_def)
  then have r: "rd16 q pos = Some (fst f)" "rd16 q (pos + 2) = Some (of_nat (4 + length (snd f)))" "take (length (snd f)) (drop (pos + 4) q) = snd f"
    by (simp_all add: rd16_htons add.commute)
  have u: "uint (of_nat (4 + length (snd f)) :: u16) = 4 + int (length (snd f))" using assms(4) by (subst uint_field_len) simp_all
  have "(4 + int (length (snd f))) mod 4 = 0" using assms(3) by presburger
  with assms(1) r u show "NEF_ParseSingleField q (int (length q)) (int pos) =
      Some (Some (4 + int (length (snd f)), uint (fst f), pos + 4, int (length (snd f))))"
    by (simp add: NEF_ParseSingleField_def c_mod_nonneg)
  show "take (length (snd f)) (drop (pos + 4) q) = snd f" by (rule r(3))
qed

lemma set_cookies_encoded:
  assumes "\<forall>c\<in>set cs. length c mod 4 = 0 \<and> length c \<le> 256" "length (encode_fields (map (Pair 0x0204) cs)) + n \<le> 1092" "n mod 4 = 0"
    "length b = 1092" "n < 1092 \<or> cs = []"
  shows "\<exists>b'. set_cookies b (int n) cs = Some (Some (b', int (n + length (encode_fields (map (Pair 0x0204) cs))))) \<and> length b' = 1092 \<and>
    take (n + length (encode_fields (map (Pair 0x0204) cs))) b' = take n b @ encode_fields (map (Pair 0x0204) cs)"
  using assms
proof (induction cs arbitrary: n b)
  case Nil
  then show ?case by simp
next
  case (Cons c cs)
  let ?f = "(0x0204 :: u16, c)"
  let ?b = "memcpy b n (encode_field ?f)"
  have c: "length c mod 4 = 0" "length c \<le> 256" "n + 4 + length c \<le> 1092" using Cons.prems(1,2) by simp_all
  have m: "c_mod (int n) 4 = 0" "c_mod (int (length c)) 4 = 0" using c(1) Cons.prems(3) by (simp_all add: c_mod_nonneg)
  have h: "htons (word_of_int (4 + int (length c))) = htons (of_nat (4 + length c))" by simp
  have "NEF_SetField b 1092 (int n) 0x0204 c (int (length c)) = Some (Some (memcpy (memcpy b n (htons 0x0204 @ htons (of_nat (4 + length c)))) (n + 4) c, 4 + int (length c)))"
    using Cons.prems(4) c m by (simp add: NEF_SetField_def format_field_def copy_body_def)
  also have "memcpy (memcpy b n (htons 0x0204 @ htons (of_nat (4 + length c)))) (n + 4) c = ?b"
    using memcpy_append [of n "htons 0x0204 @ htons (of_nat (4 + length c))" c b] c(3) Cons.prems(4) by (simp add: encode_field_def)
  finally have s: "NEF_SetField b 1092 (int n) 0x0204 c (int (length c)) = Some (Some (?b, 4 + int (length c)))" .
  have "n + (4 + length c) < 1092 \<or> cs = []"
    using Cons.prems(2) by (cases cs) auto
  moreover have "(n + (4 + length c)) mod 4 = 0" using c(1) Cons.prems(3) by presburger
  ultimately obtain b' where b': "set_cookies ?b (int (n + (4 + length c))) cs =
      Some (Some (b', int (n + (4 + length c) + length (encode_fields (map (Pair 0x0204) cs)))))" "length b' = 1092"
    "take (n + (4 + length c) + length (encode_fields (map (Pair 0x0204) cs))) b' = take (n + (4 + length c)) ?b @ encode_fields (map (Pair 0x0204) cs)"
    using Cons.IH [of "n + (4 + length c)" ?b] Cons.prems(1,2,4) c(3) by auto
  have "take (n + (4 + length c)) ?b = take n b @ encode_field ?f" using c(3) Cons.prems(4) by (simp add: memcpy_def)
  with b' s c(3) show ?case by (auto simp: add.assoc)
qed

section \<open>Instances of the ciphers\<close>

definition keyed_siv :: "bool \<Rightarrow> nat \<Rightarrow> bytes \<Rightarrow> SIV_Instance" where
  "keyed_siv gcm a key = (the (SIV_CreateInstance gcm a))\<lparr>siv_key := Some key\<rparr>"

definition instance_of :: "bool \<Rightarrow> nat \<Rightarrow> SIV_Instance \<Rightarrow> bool" where
  "instance_of gcm a siv \<longleftrightarrow> (\<exists>inst k. SIV_CreateInstance gcm a = Some inst \<and> siv = inst\<lparr>siv_key := k\<rparr>)"

lemma SIV_CreateInstance_some: "0 < SIV_GetKeyLength gcm a \<Longrightarrow> \<exists>inst. SIV_CreateInstance gcm a = Some inst"
  by (simp add: SIV_CreateInstance_def)

lemma instance_of_created: "SIV_CreateInstance gcm a = Some inst \<Longrightarrow> instance_of gcm a inst"
  unfolding instance_of_def by (intro exI [of _ inst] exI [of _ "siv_key inst"]) simp

lemma keyed_siv_ready:
  assumes "0 < SIV_GetKeyLength gcm a"
  shows "siv_ready (keyed_siv gcm a key)" "instance_of gcm a (keyed_siv gcm a key)"
proof -
  obtain inst where i: "SIV_CreateInstance gcm a = Some inst" using SIV_CreateInstance_some [OF assms] ..
  then show "siv_ready (keyed_siv gcm a key)"
    by (auto simp: keyed_siv_def siv_ready_def SIV_CreateInstance_def split: if_splits)
  show "instance_of gcm a (keyed_siv gcm a key)" unfolding instance_of_def keyed_siv_def i by (intro exI) simp
qed

lemma SetKey_keyed:
  assumes "instance_of gcm a siv" "length key = SIV_GetKeyLength gcm a"
  shows "SIV_SetKey gcm siv key = Some (keyed_siv gcm a key)"
proof -
  obtain inst k where i: "SIV_CreateInstance gcm a = Some inst" "siv = inst\<lparr>siv_key := k\<rparr>" using assms(1) by (auto simp: instance_of_def)
  moreover have "siv_algorithm inst = a" using SIV_CreateInstance_props [OF i(1)] by simp
  ultimately show ?thesis using assms(2) by (simp add: SIV_SetKey_def keyed_siv_def)
qed

section \<open>The request\<close>

lemma add_placeholders_appends:
  assumes "length p = 1140" "info_length info = int len" "48 \<le> len" "len mod 4 = 0" "version info = 4"
    and "k mod 4 = 0" "12 \<le> k" "len + n * (4 + k) \<le> 1140" "k + 4 < 65536"
  shows "\<exists>p'. add_placeholders n k p info =
      Some (Some (p', info\<lparr>info_length := int (len + n * (4 + k)), ext_fields := ext_fields info + int n\<rparr>)) \<and>
    length p' = 1140 \<and> take (len + n * (4 + k)) p' = take len p @ encode_fields (replicate n (0x0304, replicate k 0))"
  using assms
proof (induction n arbitrary: p info len)
  case 0
  then show ?case by (cases info) simp
next
  case (Suc n)
  let ?h = "htons 0x0304 @ htons (of_nat (4 + k))"
  let ?i = "info\<lparr>info_length := int (len + (4 + k)), ext_fields := ext_fields info + 1\<rparr>"
  let ?p = "memcpy (memcpy p len ?h) (len + 4) (replicate k 0)"
  have fit: "len + 4 + k \<le> 1140" using Suc.prems(8) by simp
  have b: "NEF_AddBlankField p info 0x0304 (int k) = Some (Some (memcpy p len ?h, ?i, len + 4))"
    using AddBlankField_eq [OF Suc.prems(1-7) fit, of "0x0304"] by simp
  have m: "(len + (4 + k)) mod 4 = 0" using Suc.prems(4,6) by presburger
  have e: "?p = memcpy p len (encode_field (0x0304, replicate k 0))"
    using memcpy_append [of len ?h "replicate k 0" p] fit Suc.prems(1) by (simp add: encode_field_def)
  have t: "take (len + (4 + k)) ?p = take len p @ encode_field (0x0304, replicate k 0)" unfolding e using fit Suc.prems(1) by (simp add: memcpy_def)
  from Suc.IH [of ?p ?i "len + (4 + k)"] obtain p' where p': "add_placeholders n k ?p ?i =
      Some (Some (p', info\<lparr>info_length := int (len + Suc n * (4 + k)), ext_fields := ext_fields info + int (Suc n)\<rparr>))" "length p' = 1140"
    "take (len + Suc n * (4 + k)) p' = take (len + (4 + k)) ?p @ encode_fields (replicate n (0x0304, replicate k 0))"
    using Suc.prems m fit by (auto simp: ac_simps)
  show ?case using b p' t fit Suc.prems(1) by simp
qed

definition request_fields :: "bytes \<Rightarrow> bytes \<Rightarrow> nat \<Rightarrow> field list" where
  "request_fields uid cookie n = [(0x0104, uid), (0x0204, cookie)] @ replicate n (0x0304, replicate (length cookie) 0)"

lemma length_request_fields: "length (encode_fields (request_fields uid cookie n)) = 4 + length uid + (n + 1) * (4 + length cookie)"
  by (induction n) (simp_all add: request_fields_def)

lemma request_generated:
  fixes enc dec p inst siv and info :: NTP_PacketInfo
  defines "cookie \<equiv> nnc_cookies inst ! cookie_index inst"
  defines "fs \<equiv> request_fields (uniq_id inst) cookie (8 - num_cookies inst)"
  defines "f \<equiv> auth_field enc siv (nnc_nonce inst) (take 48 p @ encode_fields fs) [] 28"
  assumes "length p = 1140" "info_length info = 48" "version info = 4" "mode info = 3"
    and "auth_ready inst" "0 < num_cookies inst" "num_cookies inst \<le> 8" "cookie_index inst < length (nnc_cookies inst)"
    and "nnc_siv inst = Some siv" "siv_ready siv" "siv_cipher enc dec" "length (uniq_id inst) = 32" "length (nnc_nonce inst) = 16"
    and "length cookie mod 4 = 0" "12 \<le> length cookie" "length cookie \<le> 100"
  obtains p' where "NNC_GenerateRequestAuth enc inst p info =
      Some (True, inst\<lparr>auth_ready := False, num_cookies := num_cookies inst - 1, cookie_index := (cookie_index inst + 1) mod 8, ok_response := False\<rparr>,
        p', info\<lparr>info_length := int (48 + length (encode_fields (fs @ [f]))), ext_fields := ext_fields info + int (length (fs @ [f]))\<rparr>)"
    "length p' = 1140" "take (48 + length (encode_fields (fs @ [f]))) p' = take 48 p @ encode_fields (fs @ [f])"
    "48 + length (encode_fields (fs @ [f])) \<le> 1140" "fields_ok (fs @ [f])"
proof -
  let ?n = "8 - num_cookies inst" and ?f1 = "(0x0104 :: u16, uniq_id inst)" and ?f2 = "(0x0204 :: u16, cookie)"
  let ?L = "\<lambda>fs. 48 + length (encode_fields fs)"
  let ?I = "\<lambda>fs. info\<lparr>info_length := int (?L fs), ext_fields := ext_fields info + int (length fs)\<rparr>"
  let ?z = "(0x0304 :: u16, replicate (length cookie) 0)"
  have n: "?n \<le> 7" using assms(9) by simp
  have k: "length cookie + 4 \<le> 104" using assms(19) by simp
  have total: "?L fs \<le> 916" using n k mult_le_mono [of "?n + 1" 8 "4 + length cookie" 104] assms(15) by (simp add: fs_def length_request_fields)
  have ok: "field_ok ?f1" "field_ok ?f2" "field_ok ?z" using assms(15,17-19) by (simp_all add: field_ok_def)
  have L1: "?L [?f1] = 84" "?L [?f1, ?f2] = 88 + length cookie" using assms(15) by simp_all
  obtain p1 where p1: "NEF_AddField p info 0x0104 (uniq_id inst) 32 = Some (Some (p1, ?I [?f1]))" "length p1 = 1140" "take (?L [?f1]) p1 = take 48 p @ encode_fields [?f1]"
    using AddField_appends [of p info 48 ?f1] assms(4-6,15) ok(1) by auto
  obtain p2 where p2: "NEF_AddField p1 (?I [?f1]) 0x0204 cookie (int (length cookie)) = Some (Some (p2, ?I [?f1, ?f2]))" "length p2 = 1140"
    "take (?L [?f1, ?f2]) p2 = take 48 p @ encode_fields [?f1, ?f2]"
    using AddField_appends [of p1 "?I [?f1]" "?L [?f1]" ?f2] p1 assms(6,15) ok(2) k by auto
  have fs: "fs = [?f1, ?f2] @ replicate ?n ?z" by (simp add: fs_def request_fields_def)
  have L3: "?L [?f1, ?f2] + ?n * (4 + length cookie) = ?L fs" by (simp add: fs_def length_request_fields)
  have m2: "?L [?f1, ?f2] mod 4 = 0" using assms(17) unfolding L1 by presburger
  obtain p3 where p3: "add_placeholders ?n (length cookie) p2 (?I [?f1, ?f2]) = Some (Some (p3, ?I fs))" "length p3 = 1140"
    "take (?L fs) p3 = take 48 p @ encode_fields fs"
    using add_placeholders_appends [OF p2(2), of "?I [?f1, ?f2]" "?L [?f1, ?f2]" "length cookie" ?n] m2 p2(3) assms(6,17,18) total k
    unfolding L3 by (auto simp: fs)
  have af: "length (snd f) \<le> 36" "field_ok f" "28 \<le> length (snd f)"
  proof -
    have "extra_padding siv 0 28 = 0" using used_nonce_props [OF assms(13)] by (simp add: extra_padding_def get_padded_length_def get_padding_length_def)
    then have l: "length (snd f) = 4 + used_nonce siv + 16"
      using auth_field_props(1) [OF assms(13,14), of "nnc_nonce inst" "take 48 p @ encode_fields fs" "[]" 28] assms(16) pad4_props(4) [of 16]
      by (simp add: f_def)
    then show "length (snd f) \<le> 36" using used_nonce_props [OF assms(13)] by simp
    with auth_field_ok [OF assms(13,14), of "nnc_nonce inst" "take 48 p @ encode_fields fs" "[]" 28] assms(16)
    show "field_ok f" "28 \<le> length (snd f)" by (simp_all add: f_def)
  qed
  have m3: "?L fs mod 4 = 0" unfolding L3 [symmetric] using m2 assms(17) by (simp add: mod_eq_0_iff_dvd)
  obtain p4 where p4: "NNA_GenerateAuthEF enc p3 (?I fs) siv (nnc_nonce inst) 16 [] 28 = Some (True, p4, ?I (fs @ [f]))" "length p4 = 1140"
    "take (?L (fs @ [f])) p4 = take 48 p @ encode_fields (fs @ [f])"
    using GenerateAuthEF_appends [OF p3(2), of "?I fs" "?L fs" siv enc dec "nnc_nonce inst" "[]" 28] m3 assms(6,13,14,16) total af(1)
    unfolding p3(3) f_def [symmetric] by (auto simp: add.assoc)
  have r: "nat (min (int 8 - int (num_cookies inst - 1)) (int (8 * 108 div (length cookie + 4))) - 1) = ?n"
  proof -
    have "8 \<le> 8 * 108 div (length cookie + 4)" using k div_le_mono2 [of "length cookie + 4" 104 864] by simp
    then show ?thesis using assms(9,10) by simp
  qed
  let ?i = "inst\<lparr>auth_ready := False, num_cookies := num_cookies inst - 1, cookie_index := (cookie_index inst + 1) mod 8\<rparr>"
  have c: "\<not> \<not> auth_ready inst" "\<not> num_cookies (inst\<lparr>auth_ready := False\<rparr>) \<le> 0" "\<not> mode info \<noteq> 3"
    "\<not> cookie_index (inst\<lparr>auth_ready := False\<rparr>) \<ge> length (nnc_cookies (inst\<lparr>auth_ready := False\<rparr>))"
    "nnc_siv (inst\<lparr>auth_ready := False\<rparr>) = Some siv" "uniq_id ?i = uniq_id inst" "nnc_nonce ?i = nnc_nonce inst"
    using assms by simp_all
  have i: "nnc_cookies (inst\<lparr>auth_ready := False\<rparr>) ! cookie_index (inst\<lparr>auth_ready := False\<rparr>) = cookie"
    "inst\<lparr>auth_ready := False, num_cookies := num_cookies (inst\<lparr>auth_ready := False\<rparr>) - 1,
       cookie_index := (cookie_index (inst\<lparr>auth_ready := False\<rparr>) + 1) mod 8\<rparr> = ?i" "num_cookies ?i = num_cookies inst - 1"
    "(24 :: int) + 4 = 28" "(4 :: int) + 20 = 24" "int 32 = 32"
    by (simp_all add: cookie_def)
  show thesis
  proof (rule that [of p4])
    show "NNC_GenerateRequestAuth enc inst p info =
      Some (True, inst\<lparr>auth_ready := False, num_cookies := num_cookies inst - 1, cookie_index := (cookie_index inst + 1) mod 8, ok_response := False\<rparr>,
        p4, ?I (fs @ [f]))"
      unfolding NNC_GenerateRequestAuth_def Let_def if_not_P [OF c(1)] if_not_P [OF c(2)] if_not_P [OF c(3)] if_not_P [OF c(4)] c(5) i c(6,7) r
        p1(1) p2(1) p3(1) p4(1) option.case prod.case bool.case ..
    show "length p4 = 1140" "take (?L (fs @ [f])) p4 = take 48 p @ encode_fields (fs @ [f])" by (rule p4)+
    show "?L (fs @ [f]) \<le> 1140" using total af(1) by simp
    show "fields_ok (fs @ [f])" using ok af by (simp add: fields_ok_def fs list_all_iff)
  qed
qed

section \<open>The check of the request\<close>

definition scan_field :: "nat \<Rightarrow> nat \<Rightarrow> field \<Rightarrow> RequestScan \<Rightarrow> RequestScan option" where
  "scan_field len pos f s =
     request_field (replicate (pos + 4) 0 @ snd f) (int len) (int pos) (4 + int (length (snd f)), uint (fst f), pos + 4, int (length (snd f))) s"

lemma request_field_scan:
  "take (length (snd f)) (drop (pos + 4) p) = snd f \<Longrightarrow>
    request_field p (int len) (int pos) (4 + int (length (snd f)), uint (fst f), pos + 4, int (length (snd f))) s = scan_field len pos f s"
  by (simp add: scan_field_def request_field_def)

lemma placeholders_scanned:
  "cookie_length s = int k \<Longrightarrow> run_fields (\<lambda>pos f s. Some (scan_field len pos f s)) pos (replicate n (0x0304, replicate k 0)) s =
    Some (Some (s\<lparr>requested_cookies := requested_cookies s + n\<rparr>))"
proof (induction n arbitrary: pos s)
  case (Suc n)
  have "scan_field len pos (0x0304, replicate k 0) s = Some (s\<lparr>requested_cookies := requested_cookies s + 1\<rparr>)"
    using Suc.prems by (simp add: scan_field_def request_field_def count_cookie_def Let_def)
  with Suc.IH [of "s\<lparr>requested_cookies := requested_cookies s + 1\<rparr>"] Suc.prems show ?case by simp
qed simp

lemma request_scanned:
  assumes "length cookie \<le> 256" "fst f = 0x0404" "len = pos + length (encode_fields (request_fields uid cookie n @ [f]))"
  shows "run_fields (\<lambda>pos f s. Some (scan_field len pos f s)) pos (request_fields uid cookie n @ [f])
      \<lparr>has_uniq_id = False, has_auth = False, found_cookie = None, requested_cookies = 0, cookie_length = -1, auth_start = 0\<rparr> =
    Some (Some \<lparr>has_uniq_id = True, has_auth = True, found_cookie = Some cookie, requested_cookies = n + 1, cookie_length = int (length cookie),
      auth_start = int (pos + length (encode_fields (request_fields uid cookie n)))\<rparr>)"
proof -
  let ?s0 = "\<lparr>has_uniq_id = False, has_auth = False, found_cookie = None, requested_cookies = 0, cookie_length = -1, auth_start = 0\<rparr>"
  let ?s2 = "\<lparr>has_uniq_id = True, has_auth = False, found_cookie = Some cookie, requested_cookies = 1, cookie_length = int (length cookie), auth_start = 0\<rparr>"
  let ?run = "run_fields (\<lambda>pos f s. Some (scan_field len pos f s))"
  have 1: "?run pos [(0x0104, uid), (0x0204, cookie)] ?s0 = Some (Some ?s2)"
    using assms(1) by (simp add: scan_field_def request_field_def count_cookie_def Let_def)
  have 2: "?run p (replicate n (0x0304, replicate (length cookie) 0)) ?s2 = Some (Some (?s2\<lparr>requested_cookies := n + 1\<rparr>))" for p
    by (simp add: placeholders_scanned)
  have 3: "?run (pos + length (encode_fields (request_fields uid cookie n))) [f] (?s2\<lparr>requested_cookies := n + 1\<rparr>) =
      Some (Some (?s2\<lparr>requested_cookies := n + 1, auth_start := int (pos + length (encode_fields (request_fields uid cookie n))), has_auth := True\<rparr>))"
    using assms(2,3) by (simp add: scan_field_def request_field_def)
  have "?run pos (request_fields uid cookie n) ?s0 = Some (Some (?s2\<lparr>requested_cookies := n + 1\<rparr>))"
    unfolding request_fields_def run_fields_append 1 option.case 2 ..
  then show ?thesis unfolding run_fields_append by (simp only: option.case 3) simp
qed

text \<open>The state of the server: the instances of the two algorithms.\<close>

definition nns_ok :: "bool \<Rightarrow> NtsServer \<Rightarrow> bool" where
  "nns_ok gcm srv \<longleftrightarrow> siv_algorithms srv = [15, 30] \<and> length (sivs srv) = 2 \<and>
     (\<forall>i<2. 0 < SIV_GetKeyLength gcm ([15, 30] ! i) \<longrightarrow> (\<exists>siv. sivs srv ! i = Some siv \<and> instance_of gcm ([15, 30] ! i) siv))"

lemma NNS_Initialise_ok: "NNS_Initialise gcm True memory = Some (Some srv) \<Longrightarrow> nns_ok gcm srv"
proof -
  assume "NNS_Initialise gcm True memory = Some (Some srv)"
  then have "siv_algorithms srv = [15, 30]" "sivs srv = map (SIV_CreateInstance gcm) [15, 30]"
    by (auto simp: NNS_Initialise_def Let_def split: if_splits)
  moreover have "\<exists>siv. SIV_CreateInstance gcm a = Some siv \<and> instance_of gcm a siv" if "0 < SIV_GetKeyLength gcm a" for a
    using SIV_CreateInstance_some [OF that] instance_of_created by blast
  ultimately show ?thesis by (auto simp: nns_ok_def less_2_cases_iff)
qed

lemma make_cookies_all2:
  "list_all2 (\<lambda>rnd c. NKS_GenerateCookie enc nks rnd ctx = Some (Some c)) rnds cs \<Longrightarrow> make_cookies enc nks ctx rnds = Some (Some cs)"
  by (induction rnds cs rule: list_all2_induct) auto

lemma packet_slices:
  assumes "length q = 1140" "take (48 + length (encode_fields fs)) q = h @ encode_fields fs" "length h = 48" "48 + length (encode_fields fs) \<le> 1140"
  shows "slice q 48 (48 + length (encode_fields fs)) = encode_fields fs"
    "fs = gs @ [f] \<Longrightarrow> slice q (48 + length (encode_fields gs)) (48 + length (encode_fields gs) + length (encode_field f)) = encode_field f"
    "fs = gs @ [f] \<Longrightarrow> take (48 + length (encode_fields gs)) q = h @ encode_fields gs"
proof -
  show "slice q 48 (48 + length (encode_fields fs)) = encode_fields fs" using assms(2,3) by (simp add: slice_def)
  assume fs: "fs = gs @ [f]"
  then have t: "take (48 + length (encode_fields gs) + length (encode_field f)) q = (h @ encode_fields gs) @ encode_field f" using assms(2) by (simp add: add.assoc)
  then show "slice q (48 + length (encode_fields gs)) (48 + length (encode_fields gs) + length (encode_field f)) = encode_field f"
    using assms(3) by (simp add: slice_def)
  have "take (48 + length (encode_fields gs)) (take (48 + length (encode_fields gs) + length (encode_field f)) q) = h @ encode_fields gs"
    unfolding t using assms(3) by simp
  then show "take (48 + length (encode_fields gs)) q = h @ encode_fields gs" by (simp add: min_def)
qed

lemma fields_length_mod: "list_all field_ok fs \<Longrightarrow> length (encode_fields fs) mod 4 = 0"
  by (induction fs) (auto simp: field_ok_def mod_eq_0_iff_dvd)

lemma request_checked:
  fixes enc dec gcm uid cookie n ctx h nonce
  defines "fs \<equiv> request_fields uid cookie n"
  defines "f \<equiv> auth_field enc (keyed_siv gcm (ctx_algorithm ctx) (c2s ctx)) nonce (h @ encode_fields fs) [] 28"
  defines "len \<equiv> 48 + length (encode_fields (fs @ [f]))"
  assumes q: "length q = 1140" "len \<le> 1140" "take len q = h @ encode_fields (fs @ [f])" "length h = 48" "fields_ok (fs @ [f])"
      "NTP_LVM_TO_VERSION (q ! 0) = 4"
    and info: "info_length info = int len" "mode info = 3" "ext_fields info \<noteq> 0"
    and cookie: "length cookie \<le> 256" "NKS_DecodeCookie dec nks cookie = Some (Some ctx)"
    and ctx: "valid_context ctx" "SIV_GetKeyLength gcm (ctx_algorithm ctx) > 0"
    and srv: "nns_ok gcm srv" and ciph: "siv_cipher enc dec" "length nonce = 16"
    and cs: "list_all2 (\<lambda>rnd c. NKS_GenerateCookie enc nks rnd ctx = Some (Some c)) (map rnds [0..<min 8 (n + 1)]) cs"
  obtains srv' where "NNS_CheckRequestAuth enc dec gcm nks rnd rnds (Some srv) q info = Some (True, 0, Some srv')"
    "nns_cookies srv' = cs" "nns_nonce srv' = rnd" "req_tx srv' = slice q 40 48" "nns_ok gcm srv'"
    "siv_index srv' \<ge> 0" "sivs srv' ! nat (siv_index srv') = Some (keyed_siv gcm (ctx_algorithm ctx) (s2c ctx))"
proof -
  let ?a = "ctx_algorithm ctx" and ?pos = "48 + length (encode_fields fs)"
  let ?siv = "keyed_siv gcm ?a (c2s ctx)" and ?siv' = "keyed_siv gcm ?a (s2c ctx)"
  note ps = packet_slices [OF q(1) q(3) [unfolded len_def] q(4) q(2) [unfolded len_def]]
  have m: "len mod 4 = 0" "?pos mod 4 = 0"
    using q(5) fields_length_mod [of "fs @ [f]"] fields_length_mod [of fs] unfolding len_def fields_ok_def by (simp_all, presburger+)
  have scan: "field_loop (\<lambda>pos ef s. Some (request_field q (int len) pos ef s)) q (int len) 48
      \<lparr>has_uniq_id = False, has_auth = False, found_cookie = None, requested_cookies = 0, cookie_length = -1, auth_start = 0\<rparr> =
      Some (Some \<lparr>has_uniq_id = True, has_auth = True, found_cookie = Some cookie, requested_cookies = n + 1, cookie_length = int (length cookie),
        auth_start = int ?pos\<rparr>)"
  proof -
    have "fst f = 0x0404" by (simp add: f_def auth_field_def)
    with request_scanned [OF cookie(1), of f len 48 uid n]
    have "run_fields (\<lambda>pos f s. Some (scan_field len pos f s)) 48 (fs @ [f])
      \<lparr>has_uniq_id = False, has_auth = False, found_cookie = None, requested_cookies = 0, cookie_length = -1, auth_start = 0\<rparr> =
      Some (Some \<lparr>has_uniq_id = True, has_auth = True, found_cookie = Some cookie, requested_cookies = n + 1, cookie_length = int (length cookie),
        auth_start = int ?pos\<rparr>)" unfolding fs_def len_def by blast
    moreover have "field_loop (\<lambda>pos ef s. Some (request_field q (int len) pos ef s)) q (int len) (int 48) s =
      run_fields (\<lambda>pos f s. Some (scan_field len pos f s)) 48 (fs @ [f]) s" for s
    proof (rule field_loop_fields [OF q(1,2) m(1) q(6)])
      show "slice q 48 len = encode_fields (fs @ [f])" using ps(1) by (simp only: len_def)
      show "48 \<le> len" by (simp add: len_def)
    qed (use q(5) in \<open>simp_all add: request_field_scan\<close>)
    ultimately show ?thesis by (simp only: of_nat_numeral)
  qed
  have dec: "NNA_DecryptAuthEF dec q info ?siv (int ?pos) 1092 = Some (Some [])"
  proof -
    have t: "take ?pos q = h @ encode_fields fs" using ps(3) by simp
    have "pos = ?pos \<Longrightarrow> auth_field enc ?siv nonce (take pos q) [] 28 = f" for pos by (simp add: t f_def)
    with DecryptAuthEF_decodes [OF q(1) _ _ m(2) _ q(6) _ keyed_siv_ready(1) [OF ctx(2)] ciph, where info = info and plaintext = "[]" and m = 28 and buffer_length = 1092] ps(2) q(2) info(1)
    show ?thesis by (simp add: len_def)
  qed
  have k: "length (c2s ctx) = SIV_GetKeyLength gcm ?a" "length (s2c ctx) = SIV_GetKeyLength gcm ?a"
    using ctx aead_values [OF ctx(2)] by (auto simp: valid_context_def)
  obtain i where i: "length (takeWhile (\<lambda>x. ?a \<noteq> x) [15, 30]) = i" "i < 2" "[15, 30] ! i = ?a"
    using aead_values [OF ctx(2)] by (cases "?a = 15") auto
  obtain siv where siv: "sivs srv ! i = Some siv" "instance_of gcm ?a siv" using srv i ctx(2) unfolding nns_ok_def by metis
  have alg: "siv_algorithms srv = [15, 30]" "length (sivs srv) = 2" using srv by (simp_all add: nns_ok_def)
  let ?srv = "srv\<lparr>nns_cookies := cs, siv_index := int i, req_tx := slice q 40 48, sivs := (sivs srv)[i := Some ?siv, i := Some ?siv'], nns_nonce := rnd\<rparr>"
  have R: "NNS_CheckRequestAuth enc dec gcm nks rnd rnds (Some srv) q info = Some (True, 0, Some ?srv)"
  proof -
    define P where "P = int ?pos"
    note scan = scan [folded P_def] and dec = dec [folded P_def]
    have k1: "SIV_SetKey gcm siv (c2s ctx) = Some ?siv" using SetKey_keyed [OF siv(2) k(1)] .
    have k2: "SIV_SetKey gcm ?siv (s2c ctx) = Some ?siv'" using SetKey_keyed [OF keyed_siv_ready(2) [OF ctx(2)] k(2)] .
    have e: "scan_encrypted [] 0 (int (length cookie)) (n + 1) = Some (Some (n + 1))" by (simp add: scan_encrypted.simps)
    have mk: "make_cookies enc nks ctx (map rnds [0..<min 8 (n + 1)]) = Some (Some cs)" by (rule make_cookies_all2 [OF cs])
    have w: "length (takeWhile (\<lambda>x. ?a \<noteq> x) (siv_algorithms srv)) = i" "length (siv_algorithms srv) = 2" using i(1) alg(1) by simp_all
    show ?thesis unfolding NNS_CheckRequestAuth_def option.case Let_def info(1) scan
      using info(2,3) i(2) siv(1) alg(2) w by (simp add: cookie(2) k1 dec e [simplified] k2 mk [simplified])
  qed
  have N: "nns_ok gcm ?srv"
    using srv i(2,3) keyed_siv_ready(2) [OF ctx(2), of "s2c ctx"] by (auto simp: nns_ok_def nth_list_update)
  show thesis by (rule that [OF R]) (use N i(2) alg in simp_all)
qed

section \<open>The response\<close>

definition copy_field :: "nat \<Rightarrow> field \<Rightarrow> bytes \<times> NTP_PacketInfo \<Rightarrow> (bytes \<times> NTP_PacketInfo) ret" where
  "copy_field pos f r = (if fst f = 0x0104 then NEF_AddField (fst r) (snd r) 0x0104 (snd f) (int (length (snd f))) else Some (Some r))"

lemma uint_u16_eq_iff: "uint (t :: u16) = k \<longleftrightarrow> t = of_int k \<and> 0 \<le> k \<and> k < 65536"
proof
  assume "t = of_int k \<and> 0 \<le> k \<and> k < 65536"
  then have "uint t = take_bit 16 k" "take_bit 16 k = k" by (simp_all add: uint_word_of_int take_bit_eq_mod)
  then show "uint t = k" by simp
qed (use uint_u16_bounds [of t] in auto)

lemma copy_uniq_id_field:
  "take (length (snd f)) (drop (pos + 4) q) = snd f \<Longrightarrow>
    copy_uniq_id q (int pos) (4 + int (length (snd f)), uint (fst f), pos + 4, int (length (snd f))) r = copy_field pos f r"
  by (auto simp: copy_uniq_id_def copy_field_def uint_u16_eq_iff)

lemma copy_fields_skip: "\<forall>f\<in>set fs. fst f \<noteq> 0x0104 \<Longrightarrow> run_fields copy_field pos fs s = Some (Some s)"
  by (induction fs arbitrary: pos) (auto simp: copy_field_def)

lemma uniq_id_copied:
  assumes q: "length q = 1140" "len \<le> 1140" "take len q = h @ encode_fields fs" "length h = 48" "fields_ok fs" "NTP_LVM_TO_VERSION (q ! 0) = 4"
      "len = 48 + length (encode_fields fs)" "fs = (0x0104, uid) # gs" "\<forall>f\<in>set gs. fst f \<noteq> 0x0104"
    and r: "length r = 1140" "info_length ri = 48" "version ri = 4" "length uid = 32"
  obtains r' where "field_loop (copy_uniq_id q) q (int len) 48 (r, ri) = Some (Some (r', ri\<lparr>info_length := 84, ext_fields := ext_fields ri + 1\<rparr>))"
    "length r' = 1140" "take 84 r' = take 48 r @ encode_fields [(0x0104, uid)]"
proof -
  have m: "len mod 4 = 0" using q(5,7) fields_length_mod [of fs] by (simp add: fields_ok_def mod_eq_0_iff_dvd)
  note ps = packet_slices(1) [OF q(1) q(3) [unfolded q(7)] q(4) q(2) [unfolded q(7)]]
  have l: "field_loop (copy_uniq_id q) q (int len) (int 48) (r, ri) = run_fields copy_field 48 fs (r, ri)"
    by (rule field_loop_fields [OF q(1,2) m q(6)]) (use ps q(5,7) in \<open>simp_all add: copy_uniq_id_field\<close>)
  have ok: "field_ok (0x0104, uid)" using r(4) by (simp add: field_ok_def)
  from AddField_appends [OF r(1), of ri 48 "(0x0104, uid)"] r ok obtain r' where
    r': "NEF_AddField r ri 0x0104 uid 32 = Some (Some (r', ri\<lparr>info_length := 84, ext_fields := ext_fields ri + 1\<rparr>))" "length r' = 1140"
      "take 84 r' = take 48 r @ encode_field (0x0104, uid)" by auto
  have "run_fields copy_field 48 fs (r, ri) = Some (Some (r', ri\<lparr>info_length := 84, ext_fields := ext_fields ri + 1\<rparr>))"
    using r'(1) r(4) q(9) by (simp add: q(8) copy_field_def copy_fields_skip)
  with l r' show thesis by (intro that) simp_all
qed

lemma response_generated:
  fixes enc dec srv siv r cs uid and len :: nat and ri :: NTP_PacketInfo
  defines "plaintext \<equiv> encode_fields (map (Pair 0x0204) cs)"
  defines "f' \<equiv> auth_field enc siv (nns_nonce srv) (take 48 r @ encode_fields [(0x0104, uid)]) plaintext (int len - 84)"
  assumes q: "length q = 1140" "len \<le> 1140" "take len q = h @ encode_fields fs" "length h = 48" "fields_ok fs" "NTP_LVM_TO_VERSION (q ! 0) = 4"
      "len = 48 + length (encode_fields fs)" "fs = (0x0104, uid) # gs" "\<forall>f\<in>set gs. fst f \<noteq> 0x0104" "info_length info = int len" "mode info = 3"
    and r: "length r = 1140" "info_length ri = 48" "version ri = 4" "mode ri = 4" "length uid = 32"
    and srv: "siv_index srv \<ge> 0" "sivs srv ! nat (siv_index srv) = Some siv" "nns_cookies srv = cs" "req_tx srv = slice q 40 48" "length (nns_nonce srv) = 16"
    and siv: "siv_ready siv" "siv_cipher enc dec"
    and cs: "\<forall>c\<in>set cs. length c mod 4 = 0 \<and> length c \<le> 256" and fit: "84 + length (encode_field f') \<le> 1140"
  obtains r' where "NNS_GenerateResponseAuth enc (Some srv) q info r ri 0 =
      Some (True, Some (srv\<lparr>nns_cookies := []\<rparr>), r', ri\<lparr>info_length := int (84 + length (encode_field f')), ext_fields := ext_fields ri + 2\<rparr>)"
    "length r' = 1140" "take (84 + length (encode_field f')) r' = take 48 r @ encode_fields [(0x0104, uid), f']"
proof -
  from uniq_id_copied [OF q(1-9) r(1-3,5)] obtain r1 where
    r1: "field_loop (copy_uniq_id q) q (int len) 48 (r, ri) = Some (Some (r1, ri\<lparr>info_length := 84, ext_fields := ext_fields ri + 1\<rparr>))"
    "length r1 = 1140" "take 84 r1 = take 48 r @ encode_fields [(0x0104, uid)]" .
  have pl: "length plaintext \<le> 1092"
    using fit auth_field_props(1) [OF siv, of "nns_nonce srv" "take 48 r @ encode_fields [(0x0104, uid)]" plaintext "int len - 84"] srv(5)
    by (simp add: f'_def)
  obtain b where b: "set_cookies (replicate 1092 0) 0 cs = Some (Some (b, int (length plaintext)))" "length b = 1092" "take (length plaintext) b = plaintext"
    using set_cookies_encoded [OF cs, of 0 "replicate 1092 0"] pl by (auto simp: plaintext_def)
  let ?i1 = "ri\<lparr>info_length := 84, ext_fields := ext_fields ri + 1\<rparr>"
  obtain r2 where r2: "NNA_GenerateAuthEF enc r1 ?i1 siv (nns_nonce srv) 16 plaintext (int len - 84) =
      Some (True, r2, ?i1\<lparr>info_length := int (84 + length (encode_field f')), ext_fields := ext_fields ?i1 + 1\<rparr>)"
    "length r2 = 1140" "take (84 + length (encode_field f')) r2 = take 84 r1 @ encode_field f'"
    using GenerateAuthEF_appends [OF r1(2), of ?i1 84 siv enc dec "nns_nonce srv" plaintext "int len - 84"] siv srv(5) r(3) fit
    unfolding r1(3) f'_def [symmetric] by auto
  have "NNS_GenerateResponseAuth enc (Some srv) q info r ri 0 =
      Some (True, Some (srv\<lparr>nns_cookies := []\<rparr>), r2, ri\<lparr>info_length := int (84 + length (encode_field f')), ext_fields := ext_fields ri + 2\<rparr>)"
    unfolding NNS_GenerateResponseAuth_def option.case Let_def q(10) r1(1) prod.case
    using q(11) r(4) srv b r2(1) by simp
  then show thesis by (rule that) (use r2 r1(3) in simp_all)
qed

section \<open>The check of the response\<close>

text \<open>The cookies that a client has not used, in the order in which they will be used.\<close>

definition live :: "NNC_Instance \<Rightarrow> bytes list" where
  "live inst = map (\<lambda>k. nnc_cookies inst ! ((cookie_index inst + k) mod 8)) [0..<num_cookies inst]"

definition ring_ok :: "NNC_Instance \<Rightarrow> bool" where
  "ring_ok inst \<longleftrightarrow> length (nnc_cookies inst) = 8 \<and> cookie_index inst < 8 \<and> num_cookies inst \<le> 8"

definition store_cookie :: "bytes \<Rightarrow> NNC_Instance \<Rightarrow> NNC_Instance" where
  "store_cookie c inst = inst\<lparr>nnc_cookies := (nnc_cookies inst)[(cookie_index inst + num_cookies inst) mod 8 := c], num_cookies := num_cookies inst + 1\<rparr>"

lemma mod8_inj: "(i + a) mod 8 = (i + b) mod 8 \<Longrightarrow> a < 8 \<Longrightarrow> b < 8 \<Longrightarrow> a = (b :: nat)"
proof -
  assume a: "(i + a) mod 8 = (i + b) mod 8" "a < 8" "b < 8"
  from a(1) have "(int i + int a) mod 8 = (int i + int b) mod 8" by (metis of_nat_add of_nat_mod of_nat_numeral)
  then have "8 dvd int a - int b" by (simp add: mod_eq_dvd_iff)
  with a(2,3) show "a = b" by presburger
qed

lemma store_cookie_live:
  assumes "ring_ok inst" "num_cookies inst < 8"
  shows "live (store_cookie c inst) = live inst @ [c]" "ring_ok (store_cookie c inst)"
proof -
  have "(nnc_cookies inst)[(cookie_index inst + num_cookies inst) mod 8 := c] ! ((cookie_index inst + k) mod 8) = nnc_cookies inst ! ((cookie_index inst + k) mod 8)"
    if "k < num_cookies inst" for k
    using mod8_inj [of "cookie_index inst" "num_cookies inst" k] that assms(2) by (intro nth_list_update_neq) auto
  then show "live (store_cookie c inst) = live inst @ [c]"
    using assms by (auto simp: live_def store_cookie_def ring_ok_def)
  show "ring_ok (store_cookie c inst)" using assms by (simp add: ring_ok_def store_cookie_def)
qed

lemma store_cookies_live:
  "ring_ok inst \<Longrightarrow> num_cookies inst + length cs \<le> 8 \<Longrightarrow>
    live (fold store_cookie cs inst) = live inst @ cs \<and> ring_ok (fold store_cookie cs inst) \<and> num_cookies (fold store_cookie cs inst) = num_cookies inst + length cs"
proof (induction cs arbitrary: inst)
  case (Cons c cs)
  have "num_cookies inst < 8" using Cons.prems(2) by simp
  note s = store_cookie_live [OF Cons.prems(1) this, of c]
  have "num_cookies (store_cookie c inst) = num_cookies inst + 1" by (simp add: store_cookie_def)
  with Cons.IH [OF s(2)] s Cons.prems(2) show ?case by simp
qed simp

lemma store_cookies_same:
  "(fold store_cookie cs inst)\<lparr>nnc_cookies := x, num_cookies := y\<rparr> = inst\<lparr>nnc_cookies := x, num_cookies := y\<rparr>"
  by (induction cs arbitrary: inst) (simp_all add: store_cookie_def)

lemma cookie_use:
  assumes "ring_ok inst" "0 < num_cookies inst"
  shows "live inst = nnc_cookies inst ! cookie_index inst #
      live (inst\<lparr>num_cookies := num_cookies inst - 1, cookie_index := (cookie_index inst + 1) mod 8\<rparr>)"
proof -
  obtain n where n: "num_cookies inst = Suc n" using assms(2) by (cases "num_cookies inst") auto
  have "[0..<Suc n] = 0 # map Suc [0..<n]" by (simp add: map_Suc_upt upt_conv_Cons del: upt_Suc)
  then show ?thesis using assms(1) by (simp add: live_def n ring_ok_def mod_simps del: upt_Suc)
qed

lemma encrypted_fields:
  assumes "\<forall>c\<in>set cs. length c mod 4 = 0 \<and> 12 \<le> length c \<and> length c \<le> 256" "drop pos pt = encode_fields (map (Pair 0x0204) cs)" "pos \<le> length pt"
  shows "parse_encrypted_efs pt (int pos) = Some True"
    and "ring_ok inst \<Longrightarrow> num_cookies inst + length cs \<le> 8 \<Longrightarrow>
      extract_cookies pt (int pos) acc inst = Some (acc + length cs > 0, fold store_cookie cs inst)"
proof -
  have "parse_encrypted_efs pt (int pos) = Some True \<and> (ring_ok inst \<longrightarrow> num_cookies inst + length cs \<le> 8 \<longrightarrow>
      extract_cookies pt (int pos) acc inst = Some (acc + length cs > 0, fold store_cookie cs inst))"
    using assms
  proof (induction cs arbitrary: pos acc inst)
    case Nil
    then have "length pt \<le> pos" by simp
    then show ?case by (simp add: parse_encrypted_efs.simps extract_cookies.simps)
  next
    case (Cons c cs)
    let ?f = "(0x0204 :: u16, c)"
    have d: "drop pos pt = encode_field ?f @ encode_fields (map (Pair 0x0204) cs)" using Cons.prems(2) by simp
    have l: "length pt - pos = 4 + length c + length (encode_fields (map (Pair 0x0204) cs))" using arg_cong [OF d, of length] by simp
    note p = ParseSingleField_encoded [OF _ d]
    have p1: "NEF_ParseSingleField pt (int (length pt)) (int pos) = Some (Some (4 + int (length c), 0x0204, pos + 4, int (length c)))"
      "take (length c) (drop (pos + 4) pt) = c"
      using p l Cons.prems(1,3) by simp_all
    let ?pos = "pos + (4 + length c)"
    have n: "int pos + (4 + int (length c)) = int ?pos" by simp
    have lt: "int pos < int (length pt)" "?pos \<le> length pt" using l by simp_all
    have "drop ?pos pt = drop (4 + length c) (drop pos pt)" by (simp add: add.commute)
    then have d': "drop ?pos pt = encode_fields (map (Pair 0x0204) cs)" using d by simp
    note IH = Cons.IH [OF _ d' lt(2)]
    have "parse_encrypted_efs pt (int ?pos) = Some True" using IH Cons.prems(1) by fastforce
    then have "parse_encrypted_efs pt (int pos) = Some True"
      unfolding parse_encrypted_efs.simps [of pt "int pos"] using lt(1) by (simp only: p1(1) option.case prod.case n) simp
    moreover have "extract_cookies pt (int pos) acc inst = Some (acc + length (c # cs) > 0, fold store_cookie (c # cs) inst)"
      if r: "ring_ok inst" "num_cookies inst + length (c # cs) \<le> 8"
    proof -
      have "extract_cookie pt (4 + int (length c), 0x0204, pos + 4, int (length c)) inst = Some (True, store_cookie c inst)"
        using Cons.prems(1) r p1(2) by (auto simp: extract_cookie_def store_cookie_def ring_ok_def Let_def)
      moreover have "ring_ok (store_cookie c inst)" "num_cookies (store_cookie c inst) + length cs \<le> 8"
        using store_cookie_live(2) [OF r(1)] r(2) by (simp_all add: store_cookie_def)
      ultimately show ?thesis
        unfolding extract_cookies.simps [of pt "int pos"]
        using IH [of "store_cookie c inst" "acc + 1"] Cons.prems(1) lt(1) by (simp only: p1(1) option.case prod.case n) simp
    qed
    ultimately show ?case by blast
  qed
  then show "parse_encrypted_efs pt (int pos) = Some True"
    "ring_ok inst \<Longrightarrow> num_cookies inst + length cs \<le> 8 \<Longrightarrow> extract_cookies pt (int pos) acc inst = Some (acc + length cs > 0, fold store_cookie cs inst)"
    by blast+
qed

lemma response_checked:
  fixes enc dec gcm uid ctx h nonce cs m
  defines "pt \<equiv> encode_fields (map (Pair 0x0204) cs)"
  defines "f \<equiv> auth_field enc (keyed_siv gcm (ctx_algorithm ctx) (s2c ctx)) nonce (h @ encode_fields [(0x0104, uid)]) pt m"
  defines "len \<equiv> 84 + length (encode_field f)"
  assumes r: "length r = 1140" "len \<le> 1140" "take len r = h @ encode_fields [(0x0104, uid), f]" "length h = 48" "NTP_LVM_TO_VERSION (r ! 0) = 4"
    and info: "info_length info = int len" "mode info = 4" "ext_fields info \<noteq> 0"
    and inst: "\<not> ok_response inst" "\<not> auth_ready inst" "nnc_siv inst = Some siv" "instance_of gcm (ctx_algorithm ctx) siv" "nnc_context inst = ctx"
      "uniq_id inst = uid" "length uid = 32" "ring_ok inst" "num_cookies inst + length cs \<le> 8"
    and ctx: "valid_context ctx" "SIV_GetKeyLength gcm (ctx_algorithm ctx) > 0" and ciph: "siv_cipher enc dec" "length nonce = 16"
    and cs: "\<forall>c\<in>set cs. length c mod 4 = 0 \<and> 12 \<le> length c \<and> length c \<le> 256" "cs \<noteq> []"
  shows "NNC_CheckResponseAuth dec gcm inst r info =
    Some (True, (fold store_cookie cs (inst\<lparr>nnc_siv := Some (keyed_siv gcm (ctx_algorithm ctx) (s2c ctx))\<rparr>))
      \<lparr>ok_response := True, nke_attempts := 0, next_nke_attempt := 0,
       nnc_alt_context := (nnc_alt_context (fold store_cookie cs (inst\<lparr>nnc_siv := Some (keyed_siv gcm (ctx_algorithm ctx) (s2c ctx))\<rparr>)))\<lparr>ctx_algorithm := 0\<rparr>\<rparr>)"
proof -
  let ?siv = "keyed_siv gcm (ctx_algorithm ctx) (s2c ctx)"
  let ?inst = "inst\<lparr>nnc_siv := Some ?siv\<rparr>"
  let ?f1 = "(0x0104 :: u16, uid)"
  have k: "length (s2c ctx) = SIV_GetKeyLength gcm (ctx_algorithm ctx)" using ctx aead_values [OF ctx(2)] by (auto simp: valid_context_def)
  note ready = keyed_siv_ready(1) [OF ctx(2), of "s2c ctx"]
  have L: "48 + length (encode_fields [?f1, f]) = len" "48 + length (encode_fields [?f1]) = 84" using inst(7) by (simp_all add: len_def)
  note ps = packet_slices [OF r(1) _ r(4), of "[?f1, f]", unfolded L]
  have append: "[?f1, f] = [?f1] @ [f]" by simp
  have af: "field_ok f" "28 \<le> length (snd f)" using auth_field_ok [OF ready ciph(1)] ciph(2) r(2) by (simp_all add: f_def len_def)
  have fok: "fields_ok [?f1, f]" using af inst(7) by (simp add: fields_ok_def field_ok_def)
  have "length (encode_fields [?f1, f]) mod 4 = 0" using fields_length_mod [of "[?f1, f]"] fok by (simp only: fields_ok_def)
  with L(1) have m: "len mod 4 = 0" by presburger
  have t: "take 84 r = h @ encode_fields [?f1]" using ps(3) [OF r(3,2), of "[?f1]" f, unfolded L(2)] append by blast
  have id: "take 32 (drop 52 r) = uid"
  proof -
    have "take 32 (drop 52 (take 84 r)) = uid" unfolding t using r(4) inst(7) by (simp add: encode_field_def)
    then show ?thesis by (simp add: drop_take)
  qed
  have dec: "NNA_DecryptAuthEF dec r info ?siv 84 1092 = Some (Some pt)"
  proof -
    have "int (length pt) \<le> 1092"
      using auth_field_props(1) [OF ready ciph(1), of nonce "h @ encode_fields [?f1]" pt m] ciph(2) r(2) by (simp add: f_def len_def)
    moreover have "slice r 84 (84 + length (encode_field f)) = encode_field f" using ps(2) [OF r(3,2), of "[?f1]" f, unfolded L(2)] append by blast
    ultimately show ?thesis
      using DecryptAuthEF_decodes [OF r(1), where pos = 84 and enc = enc and siv = ?siv and nonce = nonce and plaintext = pt and m = m and info = info and
          buffer_length = 1092 and dec = dec, unfolded t, folded f_def] r(2,5) info(1) ready ciph
      by (simp add: len_def)
  qed
  have "field_loop (response_field dec ?inst ?siv r info) r (int len) (int 48) \<lparr>has_valid_uniq_id = False, valid_auth = None\<rparr> =
      run_fields (\<lambda>pos f. response_field dec ?inst ?siv r info (int pos) (4 + int (length (snd f)), uint (fst f), pos + 4, int (length (snd f)))) 48 [?f1, f]
        \<lparr>has_valid_uniq_id = False, valid_auth = None\<rparr>"
    by (rule field_loop_fields [OF r(1,2) m r(5)]) (use ps(1) r(2,3) fok in \<open>simp_all add: len_def\<close>)
  also have "\<dots> = Some (Some \<lparr>has_valid_uniq_id = True, valid_auth = Some pt\<rparr>)"
  proof -
    have f: "uint (fst f) = 0x0404" by (simp add: f_def auth_field_def)
    have "parse_encrypted_efs pt 0 = Some True" using encrypted_fields(1) [OF cs(1), of 0 pt] by (simp add: pt_def)
    then show ?thesis using id inst(6,7) dec info(1) f by (simp add: response_field_def len_def)
  qed
  finally have loop: "field_loop (response_field dec ?inst ?siv r info) r (int len) 48 \<lparr>has_valid_uniq_id = False, valid_auth = None\<rparr> =
      Some (Some \<lparr>has_valid_uniq_id = True, valid_auth = Some pt\<rparr>)" by simp
  have "ring_ok ?inst" "num_cookies ?inst + length cs \<le> 8" using inst(8,9) by (simp_all add: ring_ok_def)
  then have x: "extract_cookies pt 0 0 ?inst = Some (True, fold store_cookie cs ?inst)"
    using encrypted_fields(2) [OF cs(1), of 0 pt ?inst 0] cs(2) by (simp add: pt_def)
  have "SIV_SetKey gcm siv (s2c ctx) = Some ?siv" using SetKey_keyed [OF inst(4) k] .
  then show ?thesis
    unfolding NNC_CheckResponseAuth_def info(1) inst(3,5) option.case Let_def
    using inst(1,2) info(2,3) loop x by simp
qed

end
