(* ===== verification/NtsSecurity.thy ===== *)
theory NtsSecurity
  imports NtsExchange
begin

text \<open>
  The properties of NTS-protected NTP: a whole exchange between a client and a server, and what the
  client saves of its cookies.
\<close>

section \<open>A whole exchange\<close>

lemma see_fields_more: "mode (fold see_field fs i) = mode i" "ext_fields (fold see_field fs i) = ext_fields i + int (length fs)"
  by (induction fs arbitrary: i) (auto simp: see_field_def Let_def)

lemma parsed_fields:
  assumes "length q = 1140" "len = 48 + length (encode_fields fs)" "len \<le> 1140" "take len q = h @ encode_fields fs" "length h = 48"
    "fields_ok fs" "fs \<noteq> []" "NTP_LVM_TO_VERSION (q ! 0) = 4"
  obtains qi where "parse_packet q (int len) i0 = Some (True, qi)" "info_length qi = int len" "mode qi = NTP_LVM_TO_MODE (q ! 0)"
    "ext_fields qi = int (length fs)"
proof -
  have "length (encode_fields fs) mod 4 = 0" using fields_length_mod assms(6) by (simp add: fields_ok_def)
  then have m: "len mod 4 = 0" using assms(2) by presburger
  have s: "slice q 48 len = encode_fields fs @ []" using packet_slices(1) [OF assms(1) _ assms(5)] assms(2-4) by simp
  have t: "tail_ok fs []" using assms(6,7) by (simp add: fields_ok_def tail_ok_def ends_ok_def)
  have "parse_packet q (int len) i0 = Some (True, fold see_field fs (base_info q (int len) i0))"
    using parse_packet_v4 [OF assms(1,3) m _ assms(8) s t] assms(2) by (simp add: mac_info_def)
  then show thesis by (rule that) (simp_all add: see_fields_more base_info_def)
qed

text \<open>A packet as it is received: the same bytes up to its length, in the buffer of the receiver.\<close>

definition received_as :: "bytes \<Rightarrow> int \<Rightarrow> bytes \<Rightarrow> bool" where
  "received_as p len q \<longleftrightarrow> length q = 1140 \<and> take (nat len) q = take (nat len) p"

lemma received_first: "received_as p len q \<Longrightarrow> 0 < len \<Longrightarrow> take (nat len) p = h @ bs \<Longrightarrow> h \<noteq> [] \<Longrightarrow> q ! 0 = h ! 0"
proof -
  assume a: "received_as p len q" "0 < len" "take (nat len) p = h @ bs" "h \<noteq> []"
  then have "take (nat len) q ! 0 = (h @ bs) ! 0" by (simp add: received_as_def)
  with a(2,4) show ?thesis by (simp add: nth_append)
qed

text \<open>The length of the cookies that a server makes for a client.\<close>

definition cookie_size :: "NKS_State \<Rightarrow> NKE_Context \<Rightarrow> nat" where
  "cookie_size nks ctx = 20 + nonce_length (server_keys nks ! current_server_key nks) + 2 * length (c2s ctx)"

text \<open>A client that has cookies which the server accepts.\<close>

definition cookies_good :: "cipher_decrypt \<Rightarrow> NKS_State \<Rightarrow> NNC_Instance \<Rightarrow> bool" where
  "cookies_good dec nks inst \<longleftrightarrow> ring_ok inst \<and>
     (\<forall>c\<in>set (live inst). NKS_DecodeCookie dec nks c = Some (Some (nnc_context inst)) \<and> length c = cookie_size nks (nnc_context inst))"

definition client_ready :: "bool \<Rightarrow> cipher_decrypt \<Rightarrow> NKS_State \<Rightarrow> NNC_Instance \<Rightarrow> bool" where
  "client_ready gcm dec nks inst \<longleftrightarrow> auth_ready inst \<and> 0 < num_cookies inst \<and> cookies_good dec nks inst \<and>
     valid_context (nnc_context inst) \<and> 0 < SIV_GetKeyLength gcm (ctx_algorithm (nnc_context inst)) \<and>
     nnc_siv inst = Some (keyed_siv gcm (ctx_algorithm (nnc_context inst)) (c2s (nnc_context inst))) \<and>
     length (uniq_id inst) = 32 \<and> length (nnc_nonce inst) = 16"

text \<open>A client between two exchanges, whose next request needs no new key establishment.\<close>

definition client_idle :: "bool \<Rightarrow> cipher_decrypt \<Rightarrow> NKS_State \<Rightarrow> NNC_Instance \<Rightarrow> bool" where
  "client_idle gcm dec nks inst \<longleftrightarrow> 0 < num_cookies inst \<and> cookies_good dec nks inst \<and>
     valid_context (nnc_context inst) \<and> 0 < SIV_GetKeyLength gcm (ctx_algorithm (nnc_context inst)) \<and>
     (\<forall>siv. nnc_siv inst = Some siv \<longrightarrow> instance_of gcm (ctx_algorithm (nnc_context inst)) siv)"

lemma cookies_generated:
  assumes "siv_cipher enc dec" "nks_ok nks" "nks_initialised nks" "valid_context ctx" "\<forall>i. 16 \<le> length (rnds i)"
  obtains cs where "list_all2 (\<lambda>rnd c. NKS_GenerateCookie enc nks rnd ctx = Some (Some c)) (map rnds [0..<n]) cs" "length cs = n"
    "\<forall>c\<in>set cs. NKS_DecodeCookie dec nks c = Some (Some ctx) \<and> length c = cookie_size nks ctx"
proof -
  have "\<exists>c. NKS_GenerateCookie enc nks (rnds i) ctx = Some (Some c) \<and> NKS_DecodeCookie dec nks c = Some (Some ctx) \<and> length c = cookie_size nks ctx" for i
  proof -
    let ?key = "server_keys nks ! current_server_key nks"
    from cookie_decoded [OF assms(1,2,2,3,3,4), of "rnds i"] assms(5) obtain c where
      c: "NKS_GenerateCookie enc nks (rnds i) ctx = Some (Some c)" "NKS_DecodeCookie dec nks c = Some (Some ctx)" by auto
    have l: "length (c2s ctx) \<le> 32" "length (s2c ctx) = length (c2s ctx)" using assms(4) by (auto simp: valid_context_def)
    have key: "key_ok (current_server_key nks) ?key" using assms(2) by (simp add: nks_ok_def)
    from NKS_GenerateCookie_ok(2) [OF assms(2) _ assms(3) l, of "rnds i" enc] assms(5) obtain e where
      e: "SIV_Encrypt enc (sk_siv ?key) (take (nonce_length ?key) (rnds i)) [] (c2s ctx @ s2c ctx) (2 * length (c2s ctx) + 16) = Some e"
      "NKS_GenerateCookie enc nks (rnds i) ctx = Some (Some (htonl (key_id ?key) @ take (nonce_length ?key) (rnds i) @ e))"
      by (auto simp: Let_def)
    have "length e = 2 * length (c2s ctx) + 16" using SIV_roundtrip [OF assms(1) _ e(1)] key l(2) by (simp add: key_ok_def)
    moreover have "nonce_length ?key \<le> length (rnds i)" using key assms(5) by (auto simp: key_ok_def intro: order_trans [of _ 16])
    ultimately have "length c = cookie_size nks ctx" using e(2) c(1) by (simp add: cookie_size_def)
    with c show ?thesis by blast
  qed
  then obtain C where "\<And>i. NKS_GenerateCookie enc nks (rnds i) ctx = Some (Some (C i)) \<and> NKS_DecodeCookie dec nks (C i) = Some (Some ctx) \<and>
      length (C i) = cookie_size nks ctx" by metis
  then show thesis by (intro that [of "map C [0..<n]"]) (auto simp: list_all2_conv_all_nth)
qed

lemma cookie_size_bounds:
  assumes "nks_ok nks" "valid_context ctx"
  shows "cookie_size nks ctx mod 4 = 0" "12 \<le> cookie_size nks ctx" "cookie_size nks ctx \<le> 100"
proof -
  let ?key = "server_keys nks ! current_server_key nks"
  have "nonce_length ?key = 12 \<or> nonce_length ?key = 16" "length (c2s ctx) = 16 \<or> length (c2s ctx) = 32"
    using assms by (auto simp: nks_ok_def key_ok_def valid_context_def)
  then show "cookie_size nks ctx mod 4 = 0" "12 \<le> cookie_size nks ctx" "cookie_size nks ctx \<le> 100" by (auto simp: cookie_size_def)
qed

lemma auth_lengths:
  assumes "siv_ready siv" "siv_cipher enc dec" "length nonce = 16"
  shows "length (snd (auth_field enc siv nonce assoc [] 28)) = 20 + used_nonce siv"
    and "length plaintext mod 4 = 0 \<Longrightarrow> m = int (length plaintext + 24 + used_nonce siv) \<Longrightarrow>
      length (snd (auth_field enc siv nonce assoc plaintext m)) = 20 + used_nonce siv + length plaintext"
proof -
  note u = used_nonce_props [OF assms(1)]
  have "extra_padding siv 0 28 = 0" using u by (simp add: extra_padding_def get_padded_length_def get_padding_length_def)
  then show "length (snd (auth_field enc siv nonce assoc [] 28)) = 20 + used_nonce siv"
    using auth_field_props(1) [OF assms(1,2), of nonce assoc "[]" 28] assms(3) pad4_props(4) [of 16] by simp
  assume pt: "length plaintext mod 4 = 0" "m = int (length plaintext + 24 + used_nonce siv)"
  have p: "pad4 (16 + length plaintext) = 0" using pt(1) by (intro pad4_props(4)) presburger
  have "get_padding_length m = 0" using pad4_props(1,4) [of "length plaintext + 24 + used_nonce siv"] pt u by (simp add: mod_eq_0_iff_dvd)
  then have "extra_padding siv (length plaintext) m = 0" using p pt(2) by (simp add: extra_padding_def get_padded_length_def)
  then show "length (snd (auth_field enc siv nonce assoc plaintext m)) = 20 + used_nonce siv + length plaintext"
    using auth_field_props(1) [OF assms(1,2), of nonce assoc plaintext m] assms(3) p by simp
qed

lemma length_cookie_fields: "\<forall>c\<in>set cs. length c = k \<Longrightarrow> length (encode_fields (map (Pair 0x0204) cs)) = length cs * (4 + k)"
  by (induction cs) auto

lemma used_nonce_keyed: "used_nonce (keyed_siv gcm a k) = used_nonce (keyed_siv gcm a k')"
  by (simp add: used_nonce_def keyed_siv_def)

text \<open>The fields of a request and of a response, with the headers before them.\<close>

definition request_of :: "cipher_encrypt \<Rightarrow> bool \<Rightarrow> NNC_Instance \<Rightarrow> bytes \<Rightarrow> field list" where
  "request_of enc gcm inst h =
     (let ctx = nnc_context inst; fs = request_fields (uniq_id inst) (nnc_cookies inst ! cookie_index inst) (8 - num_cookies inst) in
      fs @ [auth_field enc (keyed_siv gcm (ctx_algorithm ctx) (c2s ctx)) (nnc_nonce inst) (h @ encode_fields fs) [] 28])"

definition response_of :: "cipher_encrypt \<Rightarrow> bool \<Rightarrow> NKE_Context \<Rightarrow> bytes \<Rightarrow> bytes \<Rightarrow> bytes list \<Rightarrow> int \<Rightarrow> bytes \<Rightarrow> field list" where
  "response_of enc gcm ctx uid nonce cs m h =
     [(0x0104, uid), auth_field enc (keyed_siv gcm (ctx_algorithm ctx) (s2c ctx)) nonce (h @ encode_fields [(0x0104, uid)])
        (encode_fields (map (Pair 0x0204) cs)) m]"

lemma client_request:
  assumes "siv_cipher enc dec" "nks_ok nks" "client_ready gcm dec nks inst"
    and "length p = 1140" "info_length info = 48" "version info = 4" "mode info = 3"
  obtains p' where "NNC_GenerateRequestAuth enc inst p info =
      Some (True, inst\<lparr>auth_ready := False, num_cookies := num_cookies inst - 1, cookie_index := (cookie_index inst + 1) mod 8, ok_response := False\<rparr>,
        p', info\<lparr>info_length := int (48 + length (encode_fields (request_of enc gcm inst (take 48 p)))),
          ext_fields := ext_fields info + int (length (request_of enc gcm inst (take 48 p)))\<rparr>)"
    "length p' = 1140" "take (48 + length (encode_fields (request_of enc gcm inst (take 48 p)))) p' = take 48 p @ encode_fields (request_of enc gcm inst (take 48 p))"
    "48 + length (encode_fields (request_of enc gcm inst (take 48 p))) \<le> 1140" "fields_ok (request_of enc gcm inst (take 48 p))"
proof -
  have c: "auth_ready inst" "0 < num_cookies inst" "ring_ok inst" "valid_context (nnc_context inst)"
    "0 < SIV_GetKeyLength gcm (ctx_algorithm (nnc_context inst))"
    "nnc_siv inst = Some (keyed_siv gcm (ctx_algorithm (nnc_context inst)) (c2s (nnc_context inst)))" "length (uniq_id inst) = 32" "length (nnc_nonce inst) = 16"
    using assms(3) by (simp_all add: client_ready_def cookies_good_def)
  have "nnc_cookies inst ! cookie_index inst \<in> set (live inst)" using cookie_use [OF c(3,2)] by simp
  then have "length (nnc_cookies inst ! cookie_index inst) = cookie_size nks (nnc_context inst)"
    using assms(3) by (simp add: client_ready_def cookies_good_def)
  with cookie_size_bounds [OF assms(2) c(4)] have s: "length (nnc_cookies inst ! cookie_index inst) mod 4 = 0"
    "12 \<le> length (nnc_cookies inst ! cookie_index inst)" "length (nnc_cookies inst ! cookie_index inst) \<le> 100" by simp_all
  have r: "num_cookies inst \<le> 8" "cookie_index inst < length (nnc_cookies inst)" using c(3) by (simp_all add: ring_ok_def)
  show thesis
    using request_generated [OF assms(4-7) c(1,2) r c(6) keyed_siv_ready(1) [OF c(5)] assms(1) c(7,8) s] that
    unfolding request_of_def Let_def by blast
qed

lemma request_lengths:
  assumes "siv_cipher enc dec" "nks_ok nks" "client_ready gcm dec nks inst"
    and "length cs = 9 - num_cookies inst" "\<forall>c\<in>set cs. length c = cookie_size nks (nnc_context inst)" "length nonce = 16"
    and "len = 48 + length (encode_fields (request_of enc gcm inst h))"
  shows "48 + length (encode_fields (response_of enc gcm (nnc_context inst) (uniq_id inst) nonce cs (int len - 84) h')) = len"
proof -
  let ?ctx = "nnc_context inst" and ?S = "cookie_size nks (nnc_context inst)" and ?n = "8 - num_cookies inst"
  let ?a = "ctx_algorithm ?ctx"
  let ?pt = "encode_fields (map (Pair 0x0204) cs)"
  have c: "0 < num_cookies inst" "ring_ok inst" "valid_context ?ctx" "0 < SIV_GetKeyLength gcm ?a" "length (uniq_id inst) = 32" "length (nnc_nonce inst) = 16"
    using assms(3) by (simp_all add: client_ready_def cookies_good_def)
  have "nnc_cookies inst ! cookie_index inst \<in> set (live inst)" using cookie_use [OF c(2,1)] by simp
  then have s: "length (nnc_cookies inst ! cookie_index inst) = ?S" using assms(3) by (simp add: client_ready_def cookies_good_def)
  let ?u = "used_nonce (keyed_siv gcm ?a (c2s ?ctx))"
  have u: "used_nonce (keyed_siv gcm ?a (s2c ?ctx)) = ?u" by (rule used_nonce_keyed)
  have r8: "num_cookies inst \<le> 8" using c(2) by (simp add: ring_ok_def)
  have n: "9 - num_cookies inst = ?n + 1" using c(1) r8 by linarith
  have pt: "length ?pt = (?n + 1) * (4 + ?S)" using length_cookie_fields [OF assms(5)] assms(4) n by simp
  have l: "len = 108 + ?u + (?n + 1) * (4 + ?S)"
    using assms(7) auth_lengths(1) [OF keyed_siv_ready(1) [OF c(4)] assms(1) c(6)] c(5) s
    by (simp add: request_of_def Let_def length_request_fields)
  have m: "length ?pt mod 4 = 0" using cookie_size_bounds(1) [OF assms(2) c(3)] unfolding pt by (simp add: mod_eq_0_iff_dvd)
  have "int len - 84 = int (length ?pt + 24 + used_nonce (keyed_siv gcm ?a (s2c ?ctx)))" unfolding u pt using l by simp
  from auth_lengths(2) [OF keyed_siv_ready(1) [OF c(4)] assms(1,6) m this]
  have "length (snd (auth_field enc (keyed_siv gcm ?a (s2c ?ctx)) nonce a ?pt (int len - 84))) = 20 + ?u + length ?pt" for a unfolding u .
  then show ?thesis using c(5) l pt by (simp add: response_of_def)
qed

lemma server_answer:
  assumes "siv_cipher enc dec" "nks_ok nks" "nks_initialised nks" "nns_ok gcm srv" "client_ready gcm dec nks inst"
    and "length rnd = 16" "\<forall>i. 16 \<le> length (rnds i)"
    and q: "length q = 1140" "take (48 + length (encode_fields (request_of enc gcm inst h))) q = h @ encode_fields (request_of enc gcm inst h)" "length h = 48"
      "48 + length (encode_fields (request_of enc gcm inst h)) \<le> 1140" "fields_ok (request_of enc gcm inst h)"
      "NTP_LVM_TO_VERSION (q ! 0) = 4" "NTP_LVM_TO_MODE (q ! 0) = 3"
    and r: "length r = 1140" "info_length ri = 48" "version ri = 4" "mode ri = 4"
  obtains qi srv' cs r' where "parse_packet q (int (48 + length (encode_fields (request_of enc gcm inst h)))) i0 = Some (True, qi)"
    "NNS_CheckRequestAuth enc dec gcm nks rnd rnds (Some srv) q qi = Some (True, 0, Some srv')" "nns_ok gcm srv'"
    "length cs = 9 - num_cookies inst" "\<forall>c\<in>set cs. NKS_DecodeCookie dec nks c = Some (Some (nnc_context inst)) \<and> length c = cookie_size nks (nnc_context inst)"
    "NNS_GenerateResponseAuth enc (Some srv') q qi r ri 0 = Some (True, Some (srv'\<lparr>nns_cookies := []\<rparr>), r',
      ri\<lparr>info_length := int (48 + length (encode_fields (request_of enc gcm inst h))), ext_fields := ext_fields ri + 2\<rparr>)"
    "length r' = 1140" "take (48 + length (encode_fields (request_of enc gcm inst h))) r' = take 48 r @
      encode_fields (response_of enc gcm (nnc_context inst) (uniq_id inst) rnd cs (int (48 + length (encode_fields (request_of enc gcm inst h))) - 84) (take 48 r))"
proof -
  let ?ctx = "nnc_context inst" and ?rq = "request_of enc gcm inst h" and ?n = "8 - num_cookies inst" and ?c = "nnc_cookies inst ! cookie_index inst"
  let ?len = "48 + length (encode_fields ?rq)"
  have c: "0 < num_cookies inst" "ring_ok inst" "valid_context ?ctx" "0 < SIV_GetKeyLength gcm (ctx_algorithm ?ctx)" "length (uniq_id inst) = 32" "length (nnc_nonce inst) = 16"
    using assms(5) by (simp_all add: client_ready_def cookies_good_def)
  have r8: "num_cookies inst \<le> 8" using c(2) by (simp add: ring_ok_def)
  have n: "9 - num_cookies inst = ?n + 1" "min 8 (?n + 1) = ?n + 1" using c(1) r8 by linarith+
  have "?c \<in> set (live inst)" using cookie_use [OF c(2,1)] by simp
  then have ck: "NKS_DecodeCookie dec nks ?c = Some (Some ?ctx)" "length ?c = cookie_size nks ?ctx" using assms(5) by (simp_all add: client_ready_def cookies_good_def)
  note sz = cookie_size_bounds [OF assms(2) c(3)]
  from cookies_generated [OF assms(1-3) c(3) assms(7), where n = "?n + 1"] obtain cs where
    cs: "list_all2 (\<lambda>rnd c. NKS_GenerateCookie enc nks rnd ?ctx = Some (Some c)) (map rnds [0..<min 8 (?n + 1)]) cs" "length cs = ?n + 1"
    "\<forall>c\<in>set cs. NKS_DecodeCookie dec nks c = Some (Some ?ctx) \<and> length c = cookie_size nks ?ctx" unfolding n(2) .
  have ne: "?rq \<noteq> []" by (simp add: request_of_def Let_def)
  from parsed_fields [OF q(1) refl q(4,2,3,5) ne q(6), where ?i0.0 = i0] obtain qi where
    qi: "parse_packet q (int ?len) i0 = Some (True, qi)" "info_length qi = int ?len" "mode qi = 3" "ext_fields qi = int (length ?rq)"
    unfolding q(7) .
  have ef: "ext_fields qi \<noteq> 0" using qi(4) ne by simp
  have ckl: "length ?c \<le> 256" using ck(2) sz(3) by simp
  from request_checked [OF q(1) q(4,2) [unfolded request_of_def Let_def] q(3) q(5) [unfolded request_of_def Let_def] q(6)
      qi(2) [unfolded request_of_def Let_def] qi(3) ef ckl ck(1) c(3,4) assms(4,1) c(6) cs(1), of rnd] obtain srv' where
    s: "NNS_CheckRequestAuth enc dec gcm nks rnd rnds (Some srv) q qi = Some (True, 0, Some srv')" "nns_cookies srv' = cs" "nns_nonce srv' = rnd"
      "req_tx srv' = slice q 40 48" "nns_ok gcm srv'" "siv_index srv' \<ge> 0" "sivs srv' ! nat (siv_index srv') = Some (keyed_siv gcm (ctx_algorithm ?ctx) (s2c ?ctx))" .
  let ?rs = "response_of enc gcm ?ctx (uniq_id inst) rnd cs (int ?len - 84) (take 48 r)"
  have L: "48 + length (encode_fields ?rs) = ?len"
    using request_lengths [OF assms(1,2,5) _ _ assms(6) refl, of cs h "take 48 r"] cs(2,3) n(1) by auto
  let ?f = "auth_field enc (keyed_siv gcm (ctx_algorithm ?ctx) (s2c ?ctx)) rnd (take 48 r @ encode_fields [(0x0104, uniq_id inst)])
    (encode_fields (map (Pair 0x0204) cs)) (int ?len - 84)"
  have L': "84 + length (encode_field ?f) = ?len" using L c(5) by (simp add: response_of_def)
  obtain gs where gs: "?rq = (0x0104, uniq_id inst) # gs" "\<forall>f\<in>set gs. fst f \<noteq> 0x0104"
    by (simp add: request_of_def Let_def request_fields_def auth_field_def)
  have cm: "\<forall>c\<in>set cs. length c mod 4 = 0 \<and> length c \<le> 256" using cs(3) sz by auto
  have "84 + length (encode_field ?f) \<le> 1140" using L' q(4) by simp
  from response_generated [OF q(1,4,2,3,5,6) refl gs qi(2,3) r c(5) s(6,7,2,4) _ keyed_siv_ready(1) [OF c(4)] assms(1) cm, unfolded s(3), OF assms(6) this]
  obtain r' where r': "NNS_GenerateResponseAuth enc (Some srv') q qi r ri 0 =
      Some (True, Some (srv'\<lparr>nns_cookies := []\<rparr>), r', ri\<lparr>info_length := int (84 + length (encode_field ?f)), ext_fields := ext_fields ri + 2\<rparr>)"
    "length r' = 1140" "take (84 + length (encode_field ?f)) r' = take 48 r @ encode_fields [(0x0104, uniq_id inst), ?f]" .
  show thesis
    by (rule that [OF qi(1) s(1,5) _ cs(3) r'(1) [unfolded L'] r'(2) r'(3) [unfolded L', folded response_of_def]]) (simp add: cs(2) n(1))
qed

lemma live_siv [simp]: "live (i\<lparr>nnc_siv := x\<rparr>) = live i" "num_cookies (i\<lparr>nnc_siv := x\<rparr>) = num_cookies i"
  by (simp_all add: live_def)

lemma store_cookies_keep: "nnc_context (fold store_cookie cs inst) = nnc_context inst" "nnc_siv (fold store_cookie cs inst) = nnc_siv inst"
  by (induction cs arbitrary: inst) (simp_all add: store_cookie_def)

lemma client_accepts:
  fixes inst nks dec
  defines "inst1 \<equiv> inst\<lparr>auth_ready := False, num_cookies := num_cookies inst - 1, cookie_index := (cookie_index inst + 1) mod 8, ok_response := False\<rparr>"
  assumes "siv_cipher enc dec" "nks_ok nks" "client_ready gcm dec nks inst" "length nonce = 16"
    and cs: "length cs = 9 - num_cookies inst" "\<forall>c\<in>set cs. NKS_DecodeCookie dec nks c = Some (Some (nnc_context inst)) \<and> length c = cookie_size nks (nnc_context inst)"
    and rs: "rs = response_of enc gcm (nnc_context inst) (uniq_id inst) nonce cs m h" "len = 48 + length (encode_fields rs)"
    and r: "length r = 1140" "len \<le> 1140" "take len r = h @ encode_fields rs" "length h = 48" "NTP_LVM_TO_VERSION (r ! 0) = 4" "NTP_LVM_TO_MODE (r ! 0) = 4"
  obtains ri inst2 where "parse_packet r (int len) i1 = Some (True, ri)" "NNC_CheckResponseAuth dec gcm inst1 r ri = Some (True, inst2)"
    "num_cookies inst2 = 8" "client_idle gcm dec nks inst2" "ok_response inst2" "nnc_context inst2 = nnc_context inst"
proof -
  let ?ctx = "nnc_context inst"
  have c: "0 < num_cookies inst" "ring_ok inst" "valid_context ?ctx" "0 < SIV_GetKeyLength gcm (ctx_algorithm ?ctx)" "length (uniq_id inst) = 32"
    "nnc_siv inst = Some (keyed_siv gcm (ctx_algorithm ?ctx) (c2s ?ctx))" "\<forall>c\<in>set (live inst). NKS_DecodeCookie dec nks c = Some (Some ?ctx) \<and> length c = cookie_size nks ?ctx"
    using assms(4) by (simp_all add: client_ready_def cookies_good_def)
  note sz = cookie_size_bounds [OF assms(3) c(3)]
  have r8: "num_cookies inst \<le> 8" using c(2) by (simp add: ring_ok_def)
  have i1: "ring_ok inst1" "num_cookies inst1 + length cs = 8" "live inst = nnc_cookies inst ! cookie_index inst # live inst1" "nnc_context inst1 = ?ctx"
    "\<not> ok_response inst1" "\<not> auth_ready inst1" "nnc_siv inst1 = Some (keyed_siv gcm (ctx_algorithm ?ctx) (c2s ?ctx))" "uniq_id inst1 = uniq_id inst"
    using c(1,2,6) r8 cs(1) cookie_use [OF c(2,1)] by (simp_all add: inst1_def ring_ok_def live_def)
  let ?f = "auth_field enc (keyed_siv gcm (ctx_algorithm ?ctx) (s2c ?ctx)) nonce (h @ encode_fields [(0x0104, uniq_id inst)]) (encode_fields (map (Pair 0x0204) cs)) m"
  have rs': "rs = [(0x0104, uniq_id inst), ?f]" by (simp add: rs(1) response_of_def)
  have L: "84 + length (encode_field ?f) = len" using c(5) by (simp add: rs(2) rs')
  have fk: "field_ok ?f" "28 \<le> length (snd ?f)" using auth_field_ok [OF keyed_siv_ready(1) [OF c(4)] assms(2)] assms(5) r(2) L by simp_all
  have fok: "fields_ok rs" "rs \<noteq> []" using fk c(5) by (simp_all add: rs' fields_ok_def field_ok_def)
  from parsed_fields [OF r(1) rs(2) r(2-4) fok r(5), where ?i0.0 = i1] obtain ri where
    ri: "parse_packet r (int len) i1 = Some (True, ri)" "info_length ri = int len" "mode ri = 4" "ext_fields ri = int (length rs)" unfolding r(6) .
  have ef: "ext_fields ri \<noteq> 0" using ri(4) fok(2) by simp
  have cs': "\<forall>c\<in>set cs. length c mod 4 = 0 \<and> 12 \<le> length c \<and> length c \<le> 256" "cs \<noteq> []" using cs sz c(1) r8 by auto
  let ?i = "fold store_cookie cs (inst1\<lparr>nnc_siv := Some (keyed_siv gcm (ctx_algorithm ?ctx) (s2c ?ctx))\<rparr>)"
  let ?i2 = "?i\<lparr>ok_response := True, nke_attempts := 0, next_nke_attempt := 0, nnc_alt_context := (nnc_alt_context ?i)\<lparr>ctx_algorithm := 0\<rparr>\<rparr>"
  have chk: "NNC_CheckResponseAuth dec gcm inst1 r ri = Some (True, ?i2)"
    using response_checked [OF r(1), of enc gcm ?ctx nonce h "uniq_id inst" cs m ri inst1 "keyed_siv gcm (ctx_algorithm ?ctx) (c2s ?ctx)" dec]
      L r(2-5) ri(2,3) ef i1 c(3-5) assms(2,5) cs' keyed_siv_ready(2) [OF c(4)] unfolding rs' by simp
  have "ring_ok (inst1\<lparr>nnc_siv := Some (keyed_siv gcm (ctx_algorithm ?ctx) (s2c ?ctx))\<rparr>)" using i1(1) by (simp add: ring_ok_def)
  from store_cookies_live [OF this, of cs] i1(2) have st: "live ?i = live inst1 @ cs" "ring_ok ?i" "num_cookies ?i = 8" by simp_all
  have ctx2: "nnc_context ?i2 = ?ctx" using store_cookies_keep i1(4) by simp
  have "live ?i2 = live inst1 @ cs" "ring_ok ?i2" using st by (simp_all add: live_def ring_ok_def)
  then have "cookies_good dec nks ?i2" using ctx2 c(7) i1(3) cs(2) unfolding cookies_good_def by auto
  moreover have "nnc_siv ?i2 = Some (keyed_siv gcm (ctx_algorithm ?ctx) (s2c ?ctx))" using store_cookies_keep(2) by simp
  ultimately have "client_idle gcm dec nks ?i2" using st(3) ctx2 c(3,4) keyed_siv_ready(2) [OF c(4)] by (simp add: client_idle_def)
  with st(3) ctx2 show thesis by (intro that [OF ri(1) chk]) simp_all
qed

lemma received_response:
  assumes "siv_cipher enc dec" "nks_ok nks" "client_ready gcm dec nks inst" "length rnd = 16"
    and "length cs = 9 - num_cookies inst" "\<forall>c\<in>set cs. NKS_DecodeCookie dec nks c = Some (Some (nnc_context inst)) \<and> length c = cookie_size nks (nnc_context inst)"
    and "len = 48 + length (encode_fields (request_of enc gcm inst h'))" "len \<le> 1140"
    and "take len r' = h @ encode_fields (response_of enc gcm (nnc_context inst) (uniq_id inst) rnd cs (int len - 84) h)" "length h = 48"
    and "NTP_LVM_TO_VERSION (h ! 0) = 4" "NTP_LVM_TO_MODE (h ! 0) = 4" "received_as r' (int len) q'"
  shows "\<exists>qi' inst2. parse_packet q' (int len) i1 = Some (True, qi') \<and>
    NNC_CheckResponseAuth dec gcm (inst\<lparr>auth_ready := False, num_cookies := num_cookies inst - 1, cookie_index := (cookie_index inst + 1) mod 8,
      ok_response := False\<rparr>) q' qi' = Some (True, inst2) \<and>
    num_cookies inst2 = 8 \<and> client_idle gcm dec nks inst2 \<and> ok_response inst2 \<and> nnc_context inst2 = nnc_context inst"
proof -
  have L: "len = 48 + length (encode_fields (response_of enc gcm (nnc_context inst) (uniq_id inst) rnd cs (int len - 84) h))"
    using request_lengths [OF assms(1-3,5) _ assms(4,7), of h] assms(6) by simp
  have hne: "h \<noteq> []" and pos: "0 < int len" using assms(7,10) by auto
  have q: "length q' = 1140" "take len q' = h @ encode_fields (response_of enc gcm (nnc_context inst) (uniq_id inst) rnd cs (int len - 84) h)" "q' ! 0 = h ! 0"
    using assms(9,13) received_first [OF assms(13) pos _ hne, unfolded nat_int, OF assms(9)] by (simp_all add: received_as_def)
  have v: "NTP_LVM_TO_VERSION (q' ! 0) = 4" "NTP_LVM_TO_MODE (q' ! 0) = 4" using assms(11,12) unfolding q(3) .
  show ?thesis
    by (rule client_accepts [OF assms(1-6) refl L q(1) assms(8) q(2) assms(10) v, where ?i1.0 = i1]) blast
qed

text \<open>
  C11.  An exchange of NTS-protected NTP between a client with a cookie that the server accepts and the
  server: the request is built, it is parsed and authenticated on the server, the response is built
  and has exactly the length of the request, and it is parsed and authenticated on the client,
  which then has eight cookies again, all accepted by the server for its keys, and is ready
  for the next exchange.  The received packets may be followed by anything in the buffers of the receivers.
\<close>

theorem nts_exchange:
  assumes "siv_cipher enc dec" "nks_ok nks" "nks_initialised nks" "nns_ok gcm srv" "client_ready gcm dec nks inst"
    and "length rnd = 16" "\<forall>i. 16 \<le> length (rnds i)"
    and p: "length p = 1140" "NTP_LVM_TO_VERSION (p ! 0) = 4" "NTP_LVM_TO_MODE (p ! 0) = 3" "info_length info = 48" "version info = 4" "mode info = 3"
    and r: "length r = 1140" "NTP_LVM_TO_VERSION (r ! 0) = 4" "NTP_LVM_TO_MODE (r ! 0) = 4" "info_length ri = 48" "version ri = 4" "mode ri = 4"
  shows "\<exists>inst1 p' info'. NNC_GenerateRequestAuth enc inst p info = Some (True, inst1, p', info') \<and>
    (\<forall>q i0. received_as p' (info_length info') q \<longrightarrow>
      (\<exists>qi srv1 srv2 r' ri'. parse_packet q (info_length info') i0 = Some (True, qi) \<and>
        NNS_CheckRequestAuth enc dec gcm nks rnd rnds (Some srv) q qi = Some (True, 0, Some srv1) \<and> nns_ok gcm srv1 \<and>
        NNS_GenerateResponseAuth enc (Some srv1) q qi r ri 0 = Some (True, Some srv2, r', ri') \<and> info_length ri' = info_length info' \<and>
        (\<forall>q' i1. received_as r' (info_length ri') q' \<longrightarrow>
          (\<exists>qi' inst2. parse_packet q' (info_length ri') i1 = Some (True, qi') \<and>
            NNC_CheckResponseAuth dec gcm inst1 q' qi' = Some (True, inst2) \<and>
            num_cookies inst2 = 8 \<and> client_idle gcm dec nks inst2 \<and> ok_response inst2 \<and> nnc_context inst2 = nnc_context inst))))"
proof -
  let ?h = "take 48 p" and ?k = "take 48 r" and ?rq = "request_of enc gcm inst (take 48 p)"
  let ?len = "48 + length (encode_fields ?rq)"
  have h: "length ?h = 48" "?h \<noteq> []" "?h ! 0 = p ! 0" and k: "length ?k = 48" "?k ! 0 = r ! 0" using p(1) r(1) by auto
  from client_request [OF assms(1,2,5) p(1,4-6)] obtain p' where g: "NNC_GenerateRequestAuth enc inst p info =
      Some (True, inst\<lparr>auth_ready := False, num_cookies := num_cookies inst - 1, cookie_index := (cookie_index inst + 1) mod 8, ok_response := False\<rparr>,
        p', info\<lparr>info_length := int ?len, ext_fields := ext_fields info + int (length ?rq)\<rparr>)"
    and p': "take ?len p' = ?h @ encode_fields ?rq" and b: "?len \<le> 1140" "fields_ok ?rq" .
  have "\<exists>qi srv1 srv2 r' ri'. parse_packet q (int ?len) i0 = Some (True, qi) \<and>
      NNS_CheckRequestAuth enc dec gcm nks rnd rnds (Some srv) q qi = Some (True, 0, Some srv1) \<and> nns_ok gcm srv1 \<and>
      NNS_GenerateResponseAuth enc (Some srv1) q qi r ri 0 = Some (True, Some srv2, r', ri') \<and> info_length ri' = int ?len \<and>
      (\<forall>q' i1. received_as r' (info_length ri') q' \<longrightarrow>
        (\<exists>qi' inst2. parse_packet q' (info_length ri') i1 = Some (True, qi') \<and>
          NNC_CheckResponseAuth dec gcm (inst\<lparr>auth_ready := False, num_cookies := num_cookies inst - 1, cookie_index := (cookie_index inst + 1) mod 8,
            ok_response := False\<rparr>) q' qi' = Some (True, inst2) \<and>
          num_cookies inst2 = 8 \<and> client_idle gcm dec nks inst2 \<and> ok_response inst2 \<and> nnc_context inst2 = nnc_context inst))"
    if rc: "received_as p' (int ?len) q" for q i0
  proof -
    have q: "length q = 1140" "take ?len q = ?h @ encode_fields ?rq" using rc p' unfolding received_as_def nat_int by simp_all
    have q0: "q ! 0 = p ! 0" using received_first [OF rc _ _ h(2), unfolded nat_int, OF _ p'] h(3) by simp
    have lv: "NTP_LVM_TO_VERSION (q ! 0) = 4" "NTP_LVM_TO_MODE (q ! 0) = 3" using p(2,3) q0 by simp_all
    from server_answer [OF assms(1-7) q h(1) b lv r(1,4-6), where ?i0.0 = i0] obtain qi srv' cs r' where
      s: "parse_packet q (int ?len) i0 = Some (True, qi)"
        "NNS_CheckRequestAuth enc dec gcm nks rnd rnds (Some srv) q qi = Some (True, 0, Some srv')" "nns_ok gcm srv'"
      and cs: "length cs = 9 - num_cookies inst"
        "\<forall>c\<in>set cs. NKS_DecodeCookie dec nks c = Some (Some (nnc_context inst)) \<and> length c = cookie_size nks (nnc_context inst)"
      and r': "NNS_GenerateResponseAuth enc (Some srv') q qi r ri 0 = Some (True, Some (srv'\<lparr>nns_cookies := []\<rparr>), r',
          ri\<lparr>info_length := int ?len, ext_fields := ext_fields ri + 2\<rparr>)"
        "take ?len r' = ?k @ encode_fields (response_of enc gcm (nnc_context inst) (uniq_id inst) rnd cs (int ?len - 84) ?k)" .
    have kv: "NTP_LVM_TO_VERSION (?k ! 0) = 4" "NTP_LVM_TO_MODE (?k ! 0) = 4" using r(2,3) k(2) by simp_all
    note acc = received_response [OF assms(1,2,5,6) cs refl b(1) r'(2) k(1) kv]
    show ?thesis
      apply (rule exI [of _ qi], rule exI [of _ srv'], rule exI [of _ "srv'\<lparr>nns_cookies := []\<rparr>"], rule exI [of _ r'],
        rule exI [of _ "ri\<lparr>info_length := int ?len, ext_fields := ext_fields ri + 2\<rparr>"])
      unfolding s(1) s(2) r'(1) using s(3) acc by simp
  qed
  then show ?thesis unfolding g by fastforce
qed

section \<open>Before an exchange\<close>

text \<open>
  As long as the keys are younger than the refresh interval and the last request was not
  answered by an NTS NAK only, a client with cookies makes ready for a request without a new key
  establishment: no cookie is given up, the identifier and the nonce are the new random ones and
  the cipher gets the key of the client.
\<close>

theorem prepare_without_nke:
  assumes "client_idle gcm dec nks inst" "length rnd_id = 32" "length rnd_nonce = 16"
    and "nak_response inst \<longrightarrow> ok_response inst" "now - last_nke_success inst \<le> of_int refresh"
  shows "\<exists>inst'. NNC_PrepareForAuth gcm get_new now refresh rnd_id rnd_nonce inst = Some (True, inst') \<and>
    client_ready gcm dec nks inst' \<and> live inst' = live inst \<and> nnc_context inst' = nnc_context inst \<and>
    uniq_id inst' = rnd_id \<and> nnc_nonce inst' = rnd_nonce"
proof -
  let ?a = "ctx_algorithm (nnc_context inst)" and ?k = "c2s (nnc_context inst)"
  have c: "0 < num_cookies inst" "cookies_good dec nks inst" "valid_context (nnc_context inst)" "0 < SIV_GetKeyLength gcm ?a"
    and siv: "\<And>siv. nnc_siv inst = Some siv \<Longrightarrow> instance_of gcm ?a siv" using assms(1) by (simp_all add: client_idle_def)
  have k: "length ?k = SIV_GetKeyLength gcm ?a" using c(3,4) by (auto simp: valid_context_def SIV_GetKeyLength_def split: if_splits)
  obtain new where new: "SIV_CreateInstance gcm ?a = Some new" "SIV_SetKey gcm new ?k = Some (keyed_siv gcm ?a ?k)"
    using SIV_CreateInstance_some [OF c(4)] SetKey_keyed [OF instance_of_created k] by blast
  have old: "SIV_SetKey gcm siv ?k = Some (keyed_siv gcm ?a ?k)" if "nnc_siv inst = Some siv" for siv using SetKey_keyed [OF siv [OF that] k] .
  let ?i = "inst\<lparr>auth_ready := True, uniq_id := rnd_id, nnc_nonce := rnd_nonce, nak_response := False, nnc_siv := Some (keyed_siv gcm ?a ?k)\<rparr>"
  have "NNC_PrepareForAuth gcm get_new now refresh rnd_id rnd_nonce inst = Some (True, ?i)"
    using c(1) assms(4,5) new old by (cases "nnc_siv inst") (auto simp: NNC_PrepareForAuth_def check_cookies_def Let_def)
  moreover have "live ?i = live inst" "ring_ok ?i = ring_ok inst" by (simp_all add: live_def ring_ok_def)
  ultimately show ?thesis using c assms(2,3) by (simp add: client_ready_def cookies_good_def)
qed

section \<open>Saved cookies\<close>

lemma address_kept:
  assumes "ip_addr addr \<noteq> IPADDR_UNSPEC" "port addr \<noteq> 0" "\<And>a b. update_source a b"
  shows "\<exists>b. set_ntp_address update_source addr inst = (True, inst\<lparr>ntp_address := b\<rparr>)"
  using assms by (auto simp: set_ntp_address_def Let_def intro: exI [of _ "ntp_address inst"])

lemma load_cookies_ok:
  assumes "length (s2c ctx) = SIV_GetKeyLength gcm (ctx_algorithm ctx)" "s2c ctx \<noteq> []" "length (c2s ctx) = length (s2c ctx)"
    and "[] \<notin> set cs" "take 8 cs = cs"
    and "set_ntp_address us addr (R\<lparr>nnc_siv := None, nnc_alt_context := (nnc_alt_context R)\<lparr>ctx_algorithm := 0\<rparr>, nnc_context := ctx,
      nnc_cookies := memcpy (nnc_cookies R) 0 cs, num_cookies := length cs\<rparr>) = (True, inst)"
  shows "load_cookies gcm us clock now \<lparr>d_time = t, d_address = addr, d_id = i, d_context = ctx, d_cookies = cs\<rparr> R =
    inst\<lparr>last_nke_success := min (t - clock) 0 + now, context_id := i\<rparr>"
proof -
  have p: "0 < length (s2c ctx)" using assms(2) by simp
  have a: "\<not> (length (s2c ctx) \<noteq> SIV_GetKeyLength gcm (ctx_algorithm ctx) \<or> length (s2c ctx) \<le> 0 \<or> length (c2s ctx) \<noteq> length (s2c ctx))"
    using p assms(1,3) by linarith
  show ?thesis unfolding load_cookies_def Let_def NNC_Dump.simps NNC_Instance.simps assms(5) if_not_P [OF a] if_not_P [OF assms(4)] using assms(6) by simp
qed

text \<open>
  C36.  The cookies that a client saves before it has used any are restored by the load after a
  restart: the same cookies in the same order, the keys and the identifier of the keys.
\<close>

theorem saved_cookies_roundtrip:
  assumes "client_idle gcm dec nks inst" "cookie_index inst = 0" "UTI_IsIPReal (ip_addr (nts_address inst))"
    and "ip_addr (ntp_address inst) \<noteq> IPADDR_UNSPEC" "port (ntp_address inst) \<noteq> 0" "nks_ok nks"
  shows "\<exists>d. save_cookies clock now inst = Some d \<and>
    (let inst' = load_cookies gcm (\<lambda>_ _. True) clock' now' d (reset_instance fresh) in
     live inst' = live inst \<and> nnc_context inst' = nnc_context inst \<and> context_id inst' = context_id inst \<and> client_idle gcm dec nks inst')"
proof -
  let ?ctx = "nnc_context inst" and ?cs = "map (\<lambda>i. nnc_cookies inst ! i) [0..<num_cookies inst]"
  have c: "0 < num_cookies inst" "ring_ok inst" "valid_context ?ctx" "0 < SIV_GetKeyLength gcm (ctx_algorithm ?ctx)"
    and good: "\<forall>c\<in>set (live inst). NKS_DecodeCookie dec nks c = Some (Some ?ctx) \<and> length c = cookie_size nks ?ctx"
    using assms(1) by (simp_all add: client_idle_def cookies_good_def)
  have r: "num_cookies inst \<le> 8" using c(2) by (simp add: ring_ok_def)
  have l: "live inst = ?cs" using assms(2) r by (auto simp: live_def intro!: map_cong)
  have ne: "[] \<notin> set ?cs" using good cookie_size_bounds(2) [OF assms(6) c(3)] unfolding l by fastforce
  have k: "length (s2c ?ctx) = SIV_GetKeyLength gcm (ctx_algorithm ?ctx)" "length (c2s ?ctx) = length (s2c ?ctx)" "s2c ?ctx \<noteq> []"
    using c(3,4) by (auto simp: valid_context_def SIV_GetKeyLength_def split: if_splits)
  let ?d = "\<lparr>d_time = last_nke_success inst - now + clock, d_address = ntp_address inst, d_id = context_id inst, d_context = ?ctx, d_cookies = ?cs\<rparr>"
  have s: "save_cookies clock now inst = Some ?d" using c(1) assms(3) by (simp add: save_cookies_def)
  define R where "R = reset_instance fresh"
  have R: "nnc_cookies R = replicate 8 []" "cookie_index R = 0" "nnc_siv R = None" by (simp_all add: R_def reset_instance_def)
  let ?i = "R\<lparr>nnc_siv := None, nnc_alt_context := (nnc_alt_context R)\<lparr>ctx_algorithm := 0\<rparr>, nnc_context := ?ctx,
    nnc_cookies := memcpy (nnc_cookies R) 0 ?cs, num_cookies := length ?cs\<rparr>"
  obtain b where b: "set_ntp_address (\<lambda>_ _. True) (ntp_address inst) ?i = (True, ?i\<lparr>ntp_address := b\<rparr>)"
    using address_kept [OF assms(4,5), where update_source = "\<lambda>_ _. True"] by metis
  have t: "take 8 ?cs = ?cs" "memcpy (nnc_cookies R) 0 ?cs = ?cs @ replicate (8 - num_cookies inst) []" using r R(1) by (simp_all add: memcpy_def)
  have ld: "load_cookies gcm (\<lambda>_ _. True) clock' now' ?d R =
      ?i\<lparr>ntp_address := b, last_nke_success := min (d_time ?d - clock') 0 + now', context_id := context_id inst\<rparr>" (is "_ = ?j")
    unfolding load_cookies_ok [OF k(1,3,2) ne t(1) b] NNC_Dump.simps ..
  have "live ?j = ?cs" using r R(2) t(2) by (auto simp: live_def nth_append intro!: map_cong)
  moreover have "ring_ok ?j" using r R(2) t(2) by (simp add: ring_ok_def)
  ultimately have "client_idle gcm dec nks ?j" "live ?j = live inst" using c(1,3,4) good l by (simp_all add: client_idle_def cookies_good_def)
  then show ?thesis unfolding s option.inject by (intro exI [of _ ?d]) (simp add: Let_def ld R_def [symmetric])
qed

text \<open>
  C37.  The slots that are saved are counted from the start of the ring and not from its first unused
  cookie: after a request that used the first of the cookies, the file holds the used cookie and lacks the last
  unused one, and a restart makes the client send the used cookie again.
\<close>

theorem saved_cookies_used:
  assumes "siv_cipher enc dec" "nks_ok nks" "client_ready gcm dec nks inst" "cookie_index inst = 0" "2 \<le> num_cookies inst"
    and "length p = 1140" "info_length info = 48" "version info = 4" "mode info = 3" "UTI_IsIPReal (ip_addr (nts_address inst))"
  shows "\<exists>inst1 p' info' d. NNC_GenerateRequestAuth enc inst p info = Some (True, inst1, p', info') \<and>
    save_cookies clock now inst1 = Some d \<and> live inst1 = tl (live inst) \<and> d_cookies d = butlast (live inst)"
proof -
  let ?i = "inst\<lparr>auth_ready := False, num_cookies := num_cookies inst - 1, cookie_index := (cookie_index inst + 1) mod 8, ok_response := False\<rparr>"
  from client_request [OF assms(1-3,6-9)] obtain p' info' where g: "NNC_GenerateRequestAuth enc inst p info = Some (True, ?i, p', info')" by blast
  have ring: "ring_ok inst" using assms(3) by (simp add: client_ready_def cookies_good_def)
  then have r: "num_cookies inst \<le> 8" by (simp add: ring_ok_def)
  have "live ?i = tl (live inst)" using cookie_use [OF ring] assms(5) by (simp add: live_def)
  moreover have "butlast (live inst) = map (\<lambda>i. nnc_cookies inst ! i) [0..<num_cookies inst - 1]"
    using r assms(4,5) by (cases "num_cookies inst") (auto simp: live_def butlast_append intro!: map_cong)
  moreover have "\<exists>d. save_cookies clock now ?i = Some d \<and> d_cookies d = map (\<lambda>i. nnc_cookies inst ! i) [0..<num_cookies inst - 1]"
    using assms(5,10) by (simp add: save_cookies_def)
  ultimately show ?thesis unfolding g by auto
qed

end
