(* ===== verification/NtsKeExamples.thy ===== *)
theory NtsKeExamples
  imports NtsKeAgreement
begin

text \<open>
  Instances of the properties of NTS-KE: a server with four keys and a configuration, a client, an
  exporter and a cipher that satisfy the hypotheses.
\<close>

lemma ex_length: "length (msg_data (message ex_session)) = 16384"
  using ex_message_data(1) by (simp add: ex_session_def NKSN_CreateInstance_def)

definition ex_key :: "nat \<Rightarrow> ServerKey" where
  "ex_key i = \<lparr>key_id = of_nat i, sk_siv = \<lparr>siv_algorithm = 15, siv_key = Some (replicate 32 0), min_nonce_length = 1,
     max_nonce_length = 2 ^ 31 - 1, tag_length = 16\<rparr>, nonce_length = 16\<rparr>"

definition ex_nks :: NKS_State where
  "ex_nks = \<lparr>nks_initialised = True, server_keys = map ex_key [0..<4], current_server_key = 3\<rparr>"

lemma ex_nks_ok: "nks_ok ex_nks" "nks_initialised ex_nks" "keys_set False ex_nks"
proof -
  have "key_ok i (ex_key i)" if "i < 4" for i using that by (simp add: key_ok_def ex_key_def unat_of_nat)
  then show "nks_ok ex_nks" by (simp add: nks_ok_def ex_nks_def)
  have "key_set False (ex_key i)" for i
    by (simp add: key_set_def ex_key_def update_key_siv_def SIV_CreateInstance_def SIV_SetKey_def SIV_GetKeyLength_def SIV_GetMaxNonceLength_def)
  then show "keys_set False ex_nks" by (simp add: keys_set_def ex_nks_def)
qed (simp add: ex_nks_def)

definition ex_config :: NKS_Config where
  "ex_config = \<lparr>cfg_gcm = True, cfg_aeads = [30, 15], cfg_port = 11123, cfg_ntp_server = Some [0x61, 0x62], cfg_nonces = (\<lambda>i. replicate 16 (of_nat i))\<rparr>"

definition ex_export :: exporter where
  "ex_export ctx len = Some (replicate len (last ctx + 1))"

theorem cookie_roundtrip_witness:
  "\<exists>cookie st'. NKS_GenerateCookie null_encrypt ex_nks (replicate 16 0) \<lparr>ctx_algorithm = 15, c2s = replicate 32 1, s2c = replicate 32 2\<rparr> =
      Some (Some cookie) \<and> rotate_keys False [(replicate 32 3, 5), (replicate 32 4, 6)] ex_nks = Some st' \<and>
    NKS_DecodeCookie null_decrypt st' cookie = Some (Some \<lparr>ctx_algorithm = 15, c2s = replicate 32 1, s2c = replicate 32 2\<rparr>)"
  using cookie_roundtrip [OF null_siv_cipher ex_nks_ok(1,2), of "\<lparr>ctx_algorithm = 15, c2s = replicate 32 1, s2c = replicate 32 2\<rparr>"
    "replicate 16 0" "[(replicate 32 3, 5), (replicate 32 4, 6)]" False]
  by (simp add: valid_context_def)

theorem keys_save_load_witness:
  "load_keys False (save_keys ex_nks) (ex_nks\<lparr>server_keys := replicate 4 (ex_key 9), current_server_key := 0\<rparr>) = Some (True, ex_nks)"
  using keys_save_load [OF ex_nks_ok(1,3), of "ex_nks\<lparr>server_keys := replicate 4 (ex_key 9), current_server_key := 0\<rparr>"] by simp

definition ex_started :: NKSN_Instance where
  "ex_started = (case NKSN_StartSession ex_session 3 True of Some (_, sess) \<Rightarrow> sess | None \<Rightarrow> ex_session)"

lemma ex_started_eq: "NKSN_StartSession ex_session 3 True = Some (True, ex_started)" "ke_state ex_started = KE_HANDSHAKE" "msg_length (message ex_started) = 0"
  by (simp_all add: ex_started_def NKSN_StartSession_def ex_session_def NKSN_CreateInstance_def change_state_def Let_def reset_message_def set_input_output_def)

theorem server_session_safe_witness:
  "\<exists>sess'. read_write_socket (process_request ex_export null_encrypt ex_config ex_nks) ex_started False
     \<lparr>so_error = 0, handshake = TLS_FAILED, send = (TLS_FAILED, 0), receive = [(TLS_FAILED, [])], shutdown = TLS_FAILED\<rparr> = Some sess' \<and>
     rank ex_started \<le> rank sess'"
  using server_session_safe [OF _ _ ex_length ex_started_eq(1), of ex_config ex_nks ex_export null_encrypt True ex_started ex_nks
      "\<lparr>so_error = 0, handshake = TLS_FAILED, send = (TLS_FAILED, 0), receive = [(TLS_FAILED, [])], shutdown = TLS_FAILED\<rparr>" False]
    ex_nks_ok(1) ex_started_eq(2,3)
  by (simp add: cfg_ok_def ex_config_def ex_session_def NKSN_CreateInstance_def)

definition ex_client :: NKC_Instance where
  "ex_client = \<lparr>address = IPADDR_UNSPEC, session = NKSN_CreateInstance False ex_message, got_response = False, resolving_name = False,
     compliant_128gcm = False, nke_context = \<lparr>ctx_algorithm = 0, c2s = [], s2c = []\<rparr>, alt_context = \<lparr>ctx_algorithm = 0, c2s = [], s2c = []\<rparr>,
     cookies = [], server_name = [], ntp_ip = IPADDR_UNSPEC, ntp_port = 0\<rparr>"

definition ex_client_started :: NKC_Instance where
  "ex_client_started = (case NKC_Start True [15] True 3 True ex_client of Some (_, nkc) \<Rightarrow> nkc | None \<Rightarrow> ex_client)"

lemma ex_client_started_eq:
  "NKC_Start True [15] True 3 True ex_client = Some (True, ex_client_started)" "ke_state (session ex_client_started) = KE_WAIT_CONNECT"
proof -
  let ?s = "session ex_client"
  have k: "ke_state ?s = KE_STOPPED" "\<not> server ?s" "\<not> resolving_name ex_client" "length (msg_data (message ?s)) = 16384"
    using ex_message_data(1) by (simp_all add: ex_client_def NKSN_CreateInstance_def)
  obtain sess where s: "NKSN_StartSession ?s 3 True = Some (True, sess)" "ke_state sess = KE_WAIT_CONNECT" "length (msg_data (message sess)) = 16384"
    using k by (simp add: NKSN_StartSession_def Let_def change_state_def set_input_output_def reset_message_def)
  from delivered_records [OF s(3) request_valid] obtain req where q: "prepare_request True [15] sess = Some (True, req)"
    unfolding prepare_request_eq by blast
  moreover from prepare_request_built [OF s(3), of True "[15]"] q s(2) have "ke_state req = KE_WAIT_CONNECT" by (auto simp: built_def)
  ultimately show "NKC_Start True [15] True 3 True ex_client = Some (True, ex_client_started)" "ke_state (session ex_client_started) = KE_WAIT_CONNECT"
    using s(1) k by (simp_all add: ex_client_started_def NKC_Start_def NKC_IsActive_def NKSN_IsStopped_def Let_def SIV_GetKeyLength_def)
qed

theorem client_session_safe_witness:
  "\<exists>sess'. read_write_socket (client_handler ex_export True [15] (\<lambda>_. None) ex_client) (session ex_client_started) False
     \<lparr>so_error = 0, handshake = TLS_FAILED, send = (TLS_FAILED, 0), receive = [(TLS_FAILED, [])], shutdown = TLS_FAILED\<rparr> = Some sess' \<and>
     rank (session ex_client_started) \<le> rank sess'"
  using client_session_safe [OF _ _ _ ex_client_started_eq(1), of ex_export "\<lambda>_. None" "session ex_client_started"
      "\<lparr>so_error = 0, handshake = TLS_FAILED, send = (TLS_FAILED, 0), receive = [(TLS_FAILED, [])], shutdown = TLS_FAILED\<rparr>" ex_client False]
    ex_client_started_eq(2) ex_message_data(1)
  by (simp add: ex_client_def NKSN_CreateInstance_def NKC_IsActive_def NKSN_IsStopped_def)

theorem ke_agreement_witness:
  "\<exists>req. prepare_request True [30] ex_session = Some (True, req) \<and>
    (\<forall>sess1. delivered (message req) sess1 \<longrightarrow>
      (\<exists>resp. process_request ex_export null_encrypt ex_config ex_nks sess1 = Some (True, resp) \<and>
        (\<forall>nkc. delivered (message resp) (session nkc) \<and> \<not> resolving_name nkc \<longrightarrow>
          (\<exists>nkc'. client_handle_message ex_export True [30] (\<lambda>_. None) nkc = Some (True, nkc') \<and> got_response nkc' \<and>
            nke_context nkc' = \<lparr>ctx_algorithm = 30, c2s = replicate 16 1, s2c = replicate 16 2\<rparr> \<and> ntp_port nkc' = 11123 \<and>
            length (cookies nkc') = 8 \<and> (\<forall>c\<in>set (cookies nkc'). NKS_DecodeCookie null_decrypt ex_nks c = Some (Some (nke_context nkc')))))))"
proof -
  have c: "cfg_ok ex_config" "cfg_port ex_config < 65536" "name_ok ex_config" "exporter_ok ex_export" "cfg_port ex_config = 11123"
    by (simp_all add: ex_config_def cfg_ok_def name_ok_def isgraph_def exporter_ok_def ex_export_def)
  have "List.find (\<lambda>a. a \<in> set (cfg_aeads ex_config) \<and> SIV_GetKeyLength (cfg_gcm ex_config) a > 0) (collect_aeads True [30] 0) = Some 30"
    by (simp add: ex_config_def SIV_GetKeyLength_def)
  note k = ke_agreement [OF null_siv_cipher c(4) ex_nks_ok(1,2) c(1-3) this ex_length, of "\<lambda>_. None"]
  have "exported ex_export 30 = \<lparr>ctx_algorithm = 30, c2s = replicate 16 1, s2c = replicate 16 2\<rparr>"
    by (simp add: exported_def ex_export_def Let_def)
  with k show ?thesis by (simp only: c(5)) simp
qed

end
