(* ===== verification/NtsExamples.thy ===== *)
theory NtsExamples
  imports NtsSecurity NtsKeExamples
begin

text \<open>
  Instances of the properties of NTS-protected NTP: a client with eight cookies of the server of
  the key establishment examples, and packets that leave the rest of the buffer clear.
\<close>

section \<open>A client and a server\<close>

definition ex_ctx :: NKE_Context where
  "ex_ctx = \<lparr>ctx_algorithm = 15, c2s = replicate 32 1, s2c = replicate 32 2\<rparr>"

definition ex_cookie :: "nat \<Rightarrow> bytes" where
  "ex_cookie i = (case NKS_GenerateCookie null_encrypt ex_nks (replicate 16 (of_nat i)) ex_ctx of Some (Some c) \<Rightarrow> c | _ \<Rightarrow> [])"

definition ex_address :: IPSockAddr where
  "ex_address = \<lparr>ip_addr = IPADDR_INET4 0x7f000001, port = 123\<rparr>"

definition ex_inst :: "nat \<Rightarrow> NNC_Instance" where
  "ex_inst n = \<lparr>nts_address = ex_address, default_ntp_port = 123, ntp_address = ex_address, nke = None,
     nnc_siv = Some (keyed_siv False 15 (replicate 32 1)), nke_attempts = 0, next_nke_attempt = 0, last_nke_success = 0, nnc_context = ex_ctx,
     nnc_alt_context = \<lparr>ctx_algorithm = 0, c2s = [], s2c = []\<rparr>, context_id = 1, nnc_cookies = map ex_cookie [0..<8], num_cookies = n,
     cookie_index = 0, auth_ready = True, nak_response = False, ok_response = True, nnc_nonce = replicate 16 5, uniq_id = replicate 32 6\<rparr>"

definition ex_server :: NtsServer where
  "ex_server = \<lparr>sivs = map (SIV_CreateInstance False) [15, 30], siv_algorithms = [15, 30], nns_nonce = replicate 16 0, nns_cookies = [], siv_index = 0,
     req_tx = replicate 8 0\<rparr>"

definition ex_packet :: "u8 \<Rightarrow> bytes" where
  "ex_packet lvm = lvm # replicate 1139 0"

lemma ex_packet_simps [simp]: "length (ex_packet b) = 1140" "ex_packet b ! 0 = b"
  by (simp_all add: ex_packet_def)

lemma ex_ctx_valid [simp]: "valid_context ex_ctx" "ctx_algorithm ex_ctx = 15" "c2s ex_ctx = replicate 32 1" "s2c ex_ctx = replicate 32 2"
  by (simp_all add: ex_ctx_def valid_context_def)

lemma ex_keylen [simp]: "SIV_GetKeyLength False 15 = 32" by (simp add: SIV_GetKeyLength_def)

lemma ex_cookie_good: "NKS_DecodeCookie null_decrypt ex_nks (ex_cookie i) = Some (Some ex_ctx) \<and> length (ex_cookie i) = cookie_size ex_nks ex_ctx"
  by (rule cookies_generated [OF null_siv_cipher ex_nks_ok(1,2) ex_ctx_valid(1), of "\<lambda>_. replicate 16 (of_nat i)" 1])
    (auto simp: ex_cookie_def list_all2_Cons1)

lemma ex_inst_good:
  assumes "0 < n" "n \<le> 8"
  shows "client_ready False null_decrypt ex_nks (ex_inst n)" "client_idle False null_decrypt ex_nks (ex_inst n)"
proof -
  have "ring_ok (ex_inst n)" using assms by (simp add: ring_ok_def ex_inst_def)
  moreover have "set (live (ex_inst n)) \<subseteq> range ex_cookie" by (auto simp: live_def ex_inst_def)
  ultimately have "cookies_good null_decrypt ex_nks (ex_inst n)" using ex_cookie_good by (fastforce simp: cookies_good_def ex_inst_def)
  then show "client_ready False null_decrypt ex_nks (ex_inst n)" "client_idle False null_decrypt ex_nks (ex_inst n)"
    using assms keyed_siv_ready(2) [of False 15] by (simp_all add: client_ready_def client_idle_def ex_inst_def)
qed

lemma ex_server_ok: "nns_ok False ex_server"
  by (rule NNS_Initialise_ok [of _ ex_server]) (simp add: NNS_Initialise_def ex_server_def SIV_CreateInstance_def Let_def)

section \<open>The properties there\<close>

theorem nts_exchange_witness:
  "\<exists>inst1 p' info'. NNC_GenerateRequestAuth null_encrypt (ex_inst 3) (ex_packet 0x23) no_info = Some (True, inst1, p', info') \<and>
    (\<forall>q i0. received_as p' (info_length info') q \<longrightarrow>
      (\<exists>qi srv1 srv2 r' ri'. parse_packet q (info_length info') i0 = Some (True, qi) \<and>
        NNS_CheckRequestAuth null_encrypt null_decrypt False ex_nks (replicate 16 7) (\<lambda>_. replicate 16 8) (Some ex_server) q qi = Some (True, 0, Some srv1) \<and>
        nns_ok False srv1 \<and>
        NNS_GenerateResponseAuth null_encrypt (Some srv1) q qi (ex_packet 0x24) (no_info\<lparr>mode := 4\<rparr>) 0 = Some (True, Some srv2, r', ri') \<and>
        info_length ri' = info_length info' \<and>
        (\<forall>q' i1. received_as r' (info_length ri') q' \<longrightarrow>
          (\<exists>qi' inst2. parse_packet q' (info_length ri') i1 = Some (True, qi') \<and>
            NNC_CheckResponseAuth null_decrypt False inst1 q' qi' = Some (True, inst2) \<and>
            num_cookies inst2 = 8 \<and> client_idle False null_decrypt ex_nks inst2 \<and> ok_response inst2 \<and> nnc_context inst2 = nnc_context (ex_inst 3)))))"
  by (rule nts_exchange [OF null_siv_cipher ex_nks_ok(1,2) ex_server_ok ex_inst_good(1)])
    (simp_all add: no_info_def NTP_LVM_TO_VERSION_def NTP_LVM_TO_MODE_def)

theorem prepare_without_nke_witness:
  "\<exists>inst'. NNC_PrepareForAuth False (\<lambda>_. None) 100 2419200 (replicate 32 9) (replicate 16 10) (ex_inst 3) = Some (True, inst') \<and>
    client_ready False null_decrypt ex_nks inst' \<and> live inst' = live (ex_inst 3) \<and> nnc_context inst' = nnc_context (ex_inst 3) \<and>
    uniq_id inst' = replicate 32 9 \<and> nnc_nonce inst' = replicate 16 10"
  by (rule prepare_without_nke [OF ex_inst_good(2)]) (simp_all add: ex_inst_def)

theorem saved_cookies_roundtrip_witness:
  "\<exists>d. save_cookies 1000 10 (ex_inst 3) = Some d \<and>
    (let inst' = load_cookies False (\<lambda>_ _. True) 2000 5 d (reset_instance (ex_inst 8)) in
     live inst' = live (ex_inst 3) \<and> nnc_context inst' = nnc_context (ex_inst 3) \<and> context_id inst' = context_id (ex_inst 3) \<and>
     client_idle False null_decrypt ex_nks inst')"
  by (rule saved_cookies_roundtrip [OF ex_inst_good(2)]) (simp_all add: ex_inst_def ex_address_def UTI_IsIPReal_def ex_nks_ok(1))

theorem saved_cookies_used_witness:
  "\<exists>inst1 p' info' d. NNC_GenerateRequestAuth null_encrypt (ex_inst 3) (ex_packet 0x23) no_info = Some (True, inst1, p', info') \<and>
    save_cookies 1000 10 inst1 = Some d \<and> live inst1 = tl (live (ex_inst 3)) \<and> d_cookies d = butlast (live (ex_inst 3))"
  by (rule saved_cookies_used [OF null_siv_cipher ex_nks_ok(1) ex_inst_good(1)])
    (simp_all add: no_info_def ex_inst_def ex_address_def UTI_IsIPReal_def)

theorem decrypt_in_bounds_witness:
  "NNA_DecryptAuthEF null_decrypt (ex_packet 0x23) (no_info\<lparr>info_length := 1136\<rparr>) (keyed_siv False 15 (replicate 32 1)) 48 1092 \<noteq> None"
  using decrypt_in_bounds [of "ex_packet 0x23" "no_info\<lparr>info_length := 1136\<rparr>" 1136 null_decrypt _ 48] by simp

definition ex_overread :: bytes where
  "ex_overread = 0x23 # replicate 1099 0 @ encode_field (0x0404, htons 20 @ htons 16 @ replicate 32 0)"

theorem decrypt_overread_witness:
  "NNA_DecryptAuthEF null_decrypt ex_overread (no_info\<lparr>info_length := 1140\<rparr>) (keyed_siv False 15 (replicate 32 1)) 1100 1092 = None"
  using decrypt_overread [of ex_overread "no_info\<lparr>info_length := 1140\<rparr>" "replicate 32 0" "keyed_siv False 15 (replicate 32 1)" 1092 null_decrypt]
  by (simp add: ex_overread_def slice_def NTP_LVM_TO_VERSION_def keyed_siv_def SIV_CreateInstance_def)

end
