(* ===== verification/Spec2Isabelle.thy ===== *)
theory Spec2Isabelle
  imports AddrFilt Arrays NtpExt NtpTsMap Sched ClientLog SampleFilt Quantiles SourceHistory NtsExamples
begin

text \<open>
  A verification library for chrony, an implementation of the Network Time Protocol: the daemon
  \<open>chronyd\<close>, which synchronises the system clock with NTP servers and reference clocks and can
  serve time to clients, and the command-line client \<open>chronyc\<close>.

  \<^bold>\<open>How the parts of the program interact.\<close>  The main loop is the scheduler (\<open>src/sched.c\<close>): it calls
  handlers of sockets and timeouts.  A packet from the network is given to \<open>src/ntp_core.c\<close>, which
  parses it with \<open>src/ntp_ext.c\<close>.  As a server, \<open>chronyd\<close> checks the address of the client in an
  access table (\<open>src/addrfilt.c\<close>), logs it and limits the rate of responses in the client log
  (\<open>src/clientlog.c\<close>), which also remembers the timestamps of the responses for interleaved mode;
  a request that is protected by NTS is authenticated by \<open>src/nts_ntp_server.c\<close> with cookies
  of the NTS-KE server (\<open>src/nts_ke_server.c\<close>).  As a client, it gets keys and cookies in an NTS-KE
  session (\<open>src/nts_ke_client.c\<close>, \<open>src/nts_ke_session.c\<close>), sends requests with them
  (\<open>src/nts_ntp_client.c\<close>), filters the measured samples (\<open>src/samplefilt.c\<close>) and keeps the offsets of each source
  (\<open>src/sourcestats.c\<close>, \<open>src/regress.c\<close>), from which \<open>src/sources.c\<close> selects the sources that the clock follows.

  \<^bold>\<open>Conventions.\<close>  A struct is a record with the names of its members (with a prefix where two structs
  share a name), an enum a datatype, a fixed-width integer a word, or an \<open>int\<close> or \<open>nat\<close> where the
  code cannot overflow or the wrap-around is written out.  A double is a real number: the
  theorems are about the exact values of the expressions, without rounding, infinities and NaN.  A function
  that can fail an assertion, end the process or access memory out of bounds returns an option whose
  \<open>None\<close> is that outcome, so that a theorem that shows \<open>Some\<close> also shows that none of this happens.
  Random numbers, the clock, the configuration, results of system calls and of libraries are
  arguments.  The calls of other modules from the selection of sources, and the messages that it logs, are a list of
  effects in the state; elsewhere log messages and the variables that only decide whether a message is
  logged are left out.

  \<^bold>\<open>Theories and the code they model.\<close>
  \<^item> \<open>Prelude\<close>: the integer types of C, truncating division, byte buffers, and \<open>op_refinement\<close> and \<open>op_simulation\<close>, the contracts of a
    component whose operations implement those of a specification (functions, or relations that also say what the results are), for whole histories.
  \<^item> \<open>Addressing\<close>, \<open>Memory\<close>, \<open>Timespec\<close>, \<open>Arrays\<close>: \<open>src/addressing.h\<close> and the addresses and times of \<open>src/util.c\<close>,
    \<open>src/memory.c\<close>, \<open>src/array.c\<close>.
  \<^item> \<open>AddrFilt\<close>: \<open>src/addrfilt.c\<close>.  The tree of tables \<open>TableNode\<close> and its operations \<open>set_subnet\<close>, \<open>check_ip_in_node\<close>.
  \<^item> \<open>NtpExt\<close>: \<open>src/ntp_ext.c\<close> and \<open>parse_packet\<close> of \<open>src/ntp_core.c\<close>.
  \<^item> \<open>NtpTsMap\<close>, \<open>ClientLog\<close>: \<open>src/clientlog.c\<close>, the map of timestamps for interleaved mode, and the
    table of clients with the rate limiting.
  \<^item> \<open>Sched\<close>: \<open>src/sched.c\<close>.  Handlers are functions that may change the state of the scheduler itself.
  \<^item> \<open>Siv\<close>, \<open>NtsKeSession\<close>, \<open>NtsKe\<close>: \<open>src/siv_nettle.c\<close>, \<open>src/nts_ke_session.c\<close>, \<open>src/nts_ke_client.c\<close> and
    \<open>src/nts_ke_server.c\<close>; \<open>NtsKeProtocol\<close>, \<open>NtsKeAgreement\<close> and \<open>NtsKeExamples\<close> hold the lemmas and the properties.
  \<^item> \<open>NtsAuth\<close>, \<open>NtsNtpServer\<close>, \<open>NtsNtpClient\<close>: \<open>src/nts_ntp_auth.c\<close>, \<open>src/nts_ntp_server.c\<close>, \<open>src/nts_ntp_client.c\<close>;
    \<open>NtsExchange\<close>, \<open>NtsSecurity\<close> and \<open>NtsExamples\<close> hold the lemmas and the properties.
  \<^item> \<open>Regress\<close>, \<open>Sourcestats\<close>: \<open>src/regress.c\<close> and \<open>src/sourcestats.c\<close>, the samples of one source.
  \<^item> \<open>SampleFilt\<close>, \<open>Quantiles\<close>: \<open>src/samplefilt.c\<close> and \<open>src/quantiles.c\<close>.
  \<^item> \<open>Sources\<close>: \<open>src/sources.c\<close>, the table of sources.  \<open>SRC_SelectSource\<close> is split at its loops:
    \<open>find_selectable\<close> (\<open>build_interval\<close>, \<open>check_orphan\<close>, \<open>consider_orphan\<close>), \<open>find_interval\<close> (\<open>sweep_step\<close>), \<open>select_admissible\<close>
    (\<open>admit_source\<close>, \<open>enable_votes\<close>, \<open>reduce_preferred\<close>), \<open>select_from\<close> (\<open>update_score\<close>) and \<open>update_reference\<close> (\<open>combine_sources\<close>).
    \<open>StatsInvariant\<close> (the statistics of one source), \<open>SourceSelection\<close>, \<open>SourceInvariant\<close> and \<open>SourceHistory\<close> hold the lemmas and the properties.

  \<^bold>\<open>What is shown.\<close>
  \<^item> Access control: after any history of rules an address is allowed as the rules say, level by level, which is the contract
    of \<open>src/addrfilt.h\<close> unless two prefixes end at the same level; a property shows the difference there.
  \<^item> Server: the rate of responses to a client is bounded by its token bucket for every sequence of requests; a lookup finds the
    only record of a client and an expansion of the table loses none; the map of timestamps answers with exactly the saved
    transmit timestamp or not at all, and its search always ends.
  \<^item> Packets: the parser accepts exactly the packets of a grammar, reads nothing out of bounds, and finds the fields
    that were added, except a last one that is short enough to be taken for a MAC.
  \<^item> Scheduler: the queue stays ordered with unique identifiers, timeouts of a class keep their separation, and the
    dispatch, with handlers that rearm their timeouts, calls the handlers of the expired ones and leaves none of them.
  \<^item> NTS: messages and cookies are read back as they were built, the sessions of both ends fail no assertion in
    any sequence of events (the step relations \<open>session_step\<close> and \<open>server_step\<close>), the two ends agree on the keys, and a protected exchange
    is accepted by both of them.  Two properties describe defects: a read past the packet buffer in the check of an authenticator, and
    the saving of used cookies.
  \<^item> Statistics: the circular buffers are the list of the last samples, the regression completes and keeps the newest samples,
    its line is the one of least squares from the first start that passes the test of runs, the robust regression returns,
    and the median is that of the sorted values when they are different or their number is odd (the lemma \<open>find_median_duplicates\<close>
    shows that it can be wrong with equal values).
  \<^item> Filters: the median filter averages the samples in the middle of their order by offset, which it sorts in place, and its buffer is a
    bounded queue in any history of its operations; the estimates of quantiles start ordered and stay in the range of the values.
  \<^item> Selection: the sweep over the sorted endpoints finds the point that is in the most intervals, for any \<open>qsort\<close>; a new
    reference is only set from an admissible source when a majority agrees; the combined offset is the weighted mean of the sources that are not distant; no
    history of operations, with the samples, the slews of the clock and the dump files, fails an assertion.
  \<^item> Times: conversions between the formats are exact up to their resolution; the seconds that have no NTP timestamp of their own are named.

  \<^bold>\<open>Interfaces.\<close>  The contracts between components are locales, each with an interpretation on the definitions of the
  component that provides it: \<open>op_refinement\<close> (\<open>AddrFilt\<close>, \<open>ClientLog\<close>), \<open>op_simulation\<close> (\<open>SampleFilt\<close>), \<open>growable_array\<close> (\<open>Arrays\<close>), \<open>keyed_store\<close> (\<open>NtpTsMap\<close>),
  \<open>client_table\<close> (\<open>ClientLog\<close>), \<open>timer_service\<close> (\<open>Sched\<close>), \<open>message_handler\<close> (stated in \<open>NtsKeSession\<close>, provided by the handlers of the server and
  of the client in \<open>NtsKeProtocol\<close>).  \<open>qsort_function\<close> and \<open>comparison_sort\<close> state what is documented of \<open>qsort\<close>, which is not part of
  the program, for its two uses; the first gives \<open>endpoint_list\<close>, on which the search for the interval rests.  Both are interpreted with an insertion sort.

  \<^bold>\<open>Loops and bounds.\<close>  A loop is a structural recursion, a fold, or a function with a termination proof.  Loops that need an argument
  to end (\<open>grow_loop\<close>, \<open>find_loop\<close>, \<open>get_new_tqe_id\<close>, \<open>dispatch_loop\<close>, \<open>dispatch_filehandlers\<close>, \<open>expand_range\<close>, \<open>bisect\<close>, \<open>robust_loop\<close>) are
  partial functions whose \<open>None\<close> is also a loop without an end.  Only \<open>get_record\<close> has fuel, the depth of its calls of itself: each doubles
  the number of slots, which is at most \<open>2 ^ 21\<close>, so that \<open>22\<close> is enough for every table.

  \<^bold>\<open>Not modelled.\<close>  Start-up, logging, the configuration and the command protocol (text and variables); sockets,
  drivers of the system clock, reference clocks and the real-time clock (system calls); TLS, hash functions and ciphers (libraries); the polling
  and the tests of measurements in \<open>src/ntp_core.c\<close>, the table of NTP sources in \<open>src/ntp_sources.c\<close>, and the discipline of the clock in \<open>src/reference.c\<close> and \<open>src/local.c\<close>.  In the modelled files the release of
  memory, the text of the files that are saved and plain getters are left out.
\<close>

end
